(* ===== verification/Prelude.thy ===== *)
theory Prelude
  imports Main "HOL-Library.Word"
begin

text \<open>
  Shared vocabulary of the development: the machine integer types of
  \<^verbatim>\<open>Shared/types.h\<close>, the status codes of \<^verbatim>\<open>Shared/error.h\<close>, byte buffers with the
  little-endian accesses that the C code writes as pointer casts, and the generic
  lemmas (bits of words, first hit of a counting loop) that the component
  theories use.
\<close>

unbundle bit_operations_syntax

named_theorems status_simps \<open>status codes and their tests\<close>
named_theorems le_simps \<open>little-endian loads and stores\<close>

section \<open>Machine integers and buffers\<close>

type_synonym u8 = "8 word"
type_synonym u16 = "16 word"
type_synonym u32 = "32 word"
type_synonym u64 = "64 word"
type_synonym i32 = "32 word"
type_synonym ntstatus = "32 word"

text \<open>A C byte array, or a window of memory: offset to byte.\<close>

type_synonym buf = "nat \<Rightarrow> u8"

section \<open>Status codes\<close>

definition STATUS_SUCCESS :: ntstatus where [status_simps]: "STATUS_SUCCESS = 0"
definition STATUS_UNSUCCESSFUL :: ntstatus where [status_simps]: "STATUS_UNSUCCESSFUL = 0xC0000001"
definition STATUS_NOT_FOUND :: ntstatus where [status_simps]: "STATUS_NOT_FOUND = 0xC0000225"
definition STATUS_OUT_OF_MEMORY :: ntstatus where [status_simps]: "STATUS_OUT_OF_MEMORY = 0xC0000017"
definition STATUS_ACCESS_DENIED :: ntstatus where [status_simps]: "STATUS_ACCESS_DENIED = 0xC0000022"
definition STATUS_INVALID_PARAMETER :: ntstatus where [status_simps]: "STATUS_INVALID_PARAMETER = 0xC000000D"
definition STATUS_NO_SUCH_FILE :: ntstatus where [status_simps]: "STATUS_NO_SUCH_FILE = 0xC000000F"
definition STATUS_DISK_FULL :: ntstatus where [status_simps]: "STATUS_DISK_FULL = 0xC000007F"
definition STATUS_END_OF_FILE :: ntstatus where [status_simps]: "STATUS_END_OF_FILE = 0xC0000011"

definition NT_SUCCESS :: "ntstatus \<Rightarrow> bool" where
  "NT_SUCCESS s \<longleftrightarrow> s AND 0x80000000 = 0"

definition NT_ERROR :: "ntstatus \<Rightarrow> bool" where
  "NT_ERROR s \<longleftrightarrow> s AND 0x80000000 \<noteq> 0"

lemma NT_ERROR_iff [simp]: "NT_ERROR s \<longleftrightarrow> \<not> NT_SUCCESS s"
  by (simp add: NT_ERROR_def NT_SUCCESS_def)

lemma NT_SUCCESS_codes [simp]:
  "NT_SUCCESS STATUS_SUCCESS"
  "\<not> NT_SUCCESS STATUS_UNSUCCESSFUL"
  "\<not> NT_SUCCESS STATUS_NOT_FOUND"
  "\<not> NT_SUCCESS STATUS_OUT_OF_MEMORY"
  "\<not> NT_SUCCESS STATUS_ACCESS_DENIED"
  "\<not> NT_SUCCESS STATUS_INVALID_PARAMETER"
  "\<not> NT_SUCCESS STATUS_NO_SUCH_FILE"
  "\<not> NT_SUCCESS STATUS_DISK_FULL"
  "\<not> NT_SUCCESS STATUS_END_OF_FILE"
  by (simp_all add: NT_SUCCESS_def status_simps)

section \<open>Little-endian loads and stores\<close>

text \<open>\<open>*(u16*)(p + i)\<close>, \<open>*(u32*)(p + i)\<close>, \<open>*(u64*)(p + i)\<close> on x86-64.\<close>

definition le16 :: "buf \<Rightarrow> nat \<Rightarrow> u16" where
  "le16 b i = ucast (b i) OR push_bit 8 (ucast (b (i + 1)))"

definition le32 :: "buf \<Rightarrow> nat \<Rightarrow> u32" where
  "le32 b i = ucast (le16 b i) OR push_bit 16 (ucast (le16 b (i + 2)))"

definition le64 :: "buf \<Rightarrow> nat \<Rightarrow> u64" where
  "le64 b i = ucast (le32 b i) OR push_bit 32 (ucast (le32 b (i + 4)))"

definition put16 :: "buf \<Rightarrow> nat \<Rightarrow> u16 \<Rightarrow> buf" where
  "put16 b i v = b(i := ucast v, i + 1 := ucast (drop_bit 8 v))"

definition put32 :: "buf \<Rightarrow> nat \<Rightarrow> u32 \<Rightarrow> buf" where
  "put32 b i v = put16 (put16 b i (ucast v)) (i + 2) (ucast (drop_bit 16 v))"

lemma split16: "ucast (ucast (v :: u16) :: u8) OR push_bit 8 (ucast (ucast (drop_bit 8 v) :: u8)) = v"
  by (rule bit_word_eqI) (auto simp: bit_simps)

lemma split32: "ucast (ucast (v :: u32) :: u16) OR push_bit 16 (ucast (ucast (drop_bit 16 v) :: u16)) = v"
  by (rule bit_word_eqI) (auto simp: bit_simps)

lemma le16_put16_same [le_simps, simp]: "le16 (put16 b i v) i = v"
  by (simp add: le16_def put16_def split16)

lemma put16_other [le_simps]: "j \<noteq> i \<Longrightarrow> j \<noteq> i + 1 \<Longrightarrow> put16 b i v j = b j"
  by (simp add: put16_def)

lemma le16_put16_other [le_simps]: "j + 2 \<le> i \<or> i + 2 \<le> j \<Longrightarrow> le16 (put16 b i v) j = le16 b j"
  by (auto simp: le16_def put16_def)

lemma le32_put32_same [le_simps, simp]: "le32 (put32 b i v) i = v"
  by (simp add: le32_def put32_def le16_put16_other split32)

lemma put32_other [le_simps]: "j < i \<or> i + 4 \<le> j \<Longrightarrow> put32 b i v j = b j"
  by (auto simp: put32_def put16_def)

lemma le32_put32_other [le_simps]: "j + 4 \<le> i \<or> i + 4 \<le> j \<Longrightarrow> le32 (put32 b i v) j = le32 b j"
  by (auto simp: le32_def put32_def le16_put16_other)

lemma le16_put32_other [le_simps]: "j + 2 \<le> i \<or> i + 4 \<le> j \<Longrightarrow> le16 (put32 b i v) j = le16 b j"
  by (auto simp: put32_def le16_put16_other)

lemma le32_put16_other [le_simps]: "j + 4 \<le> i \<or> i + 2 \<le> j \<Longrightarrow> le32 (put16 b i v) j = le32 b j"
  by (auto simp: le32_def le16_put16_other)

lemma le16_cong: "b i = c i \<Longrightarrow> b (i + 1) = c (i + 1) \<Longrightarrow> le16 b i = le16 c i"
  by (simp add: le16_def)

text \<open>Copying \<open>n\<close> bytes between buffers that do not overlap, and filling.\<close>

definition buf_copy :: "buf \<Rightarrow> nat \<Rightarrow> buf \<Rightarrow> nat \<Rightarrow> nat \<Rightarrow> buf" where
  "buf_copy dst d src s n = (\<lambda>i. if d \<le> i \<and> i < d + n then src (s + (i - d)) else dst i)"

definition buf_fill :: "buf \<Rightarrow> nat \<Rightarrow> u8 \<Rightarrow> nat \<Rightarrow> buf" where
  "buf_fill dst d v n = (\<lambda>i. if d \<le> i \<and> i < d + n then v else dst i)"

lemma buf_copy_0 [simp]: "buf_copy dst d src s 0 = dst"
  by (rule ext) (auto simp: buf_copy_def)

lemma buf_fill_0 [simp]: "buf_fill dst d v 0 = dst"
  by (rule ext) (auto simp: buf_fill_def)

definition buf_list :: "buf \<Rightarrow> nat \<Rightarrow> nat \<Rightarrow> u8 list" where
  "buf_list b s n = map (\<lambda>i. b (s + i)) [0..<n]"

lemma length_buf_list [simp]: "length (buf_list b s n) = n"
  by (simp add: buf_list_def)

lemma nth_buf_list [simp]: "i < n \<Longrightarrow> buf_list b s n ! i = b (s + i)"
  by (simp add: buf_list_def)

lemma buf_list_copy [simp]: "buf_list (buf_copy dst d src s n) d n = buf_list src s n"
  by (rule nth_equalityI) (auto simp: buf_copy_def)

lemma buf_copy_outside: "i < d \<or> d + n \<le> i \<Longrightarrow> buf_copy dst d src s n i = dst i"
  by (auto simp: buf_copy_def)

section \<open>Bits\<close>

lemma bit_set_one:
  fixes x :: "'a::len word"
  assumes "n < LENGTH('a)"
  shows "bit (x OR push_bit n 1) m \<longleftrightarrow> bit x m \<or> m = n"
  using assms by (auto simp: bit_simps)

lemma bit_clear_one:
  fixes x :: "'a::len word"
  shows "bit (x AND NOT (push_bit n 1)) m \<longleftrightarrow> bit x m \<and> m \<noteq> n"
  by (auto simp: bit_simps bit_imp_le_length)

lemma bit_set_pow:
  fixes x :: "'a::len word"
  assumes "n < LENGTH('a)"
  shows "bit (x OR 2 ^ n) m \<longleftrightarrow> bit x m \<or> m = n"
  using bit_set_one [OF assms] by (simp add: push_bit_eq_mult)

lemma bit_clear_pow:
  fixes x :: "'a::len word"
  shows "bit (x AND NOT (2 ^ n)) m \<longleftrightarrow> bit x m \<and> m \<noteq> n"
  using bit_clear_one [of x n m] by (simp add: push_bit_eq_mult)

lemma test_bit_shift:
  fixes x :: "'a::len word"
  shows "drop_bit n x AND 1 \<noteq> 0 \<longleftrightarrow> bit x n"
  by (simp add: and_one_eq bit_iff_odd_drop_bit odd_iff_mod_2_eq_one)

text \<open>Masks written as hexadecimal constants, for bitwise proofs.\<close>

lemma masks:
  "(0xFFF :: u16) = mask 12" "(0xFFF :: u32) = mask 12" "(0xF000 :: u16) = NOT (mask 12)"
  "(0xF :: u16) = mask 4" "(0xF :: u32) = mask 4" "(0xF :: u8) = mask 4"
  "(0xFF :: u16) = mask 8" "(0xFF :: u32) = mask 8" "(0xFF :: u64) = mask 8"
  "(0xFFFF :: u32) = mask 16" "(0x0FFFFFFF :: u32) = mask 28" "(0xF0000000 :: u32) = NOT (mask 28)"
  by (simp_all add: mask_eq_exp_minus_1)

lemma bit_le16: "bit (le16 b off) k \<longleftrightarrow> k < 16 \<and> bit (b (off + k div 8)) (k mod 8)"
proof (cases "k < 8")
  case True
  then show ?thesis by (auto simp: le16_def bit_simps)
next
  case False
  then have "k < 16 \<Longrightarrow> k div 8 = 1 \<and> k mod 8 = k - 8" by (auto simp: div_if mod_if)
  then show ?thesis using False by (auto simp: le16_def bit_simps dest: bit_imp_le_length)
qed

lemma bit_put16:
  "m < 8 \<Longrightarrow> bit (put16 b off v i) m \<longleftrightarrow>
     (if off \<le> i \<and> i < off + 2 then bit v (8 * (i - off) + m) else bit (b i) m)"
  by (auto simp: put16_def bit_simps less_Suc_eq numeral_2_eq_2)

lemma put16_shift: "j < 2 \<Longrightarrow> put16 b off v (off + j) = put16 b' off' v (off' + j)"
  by (auto simp: put16_def)

lemma put32_shift: "j < 4 \<Longrightarrow> put32 b off v (off + j) = put32 b' off' v (off' + j)"
  by (auto simp: put32_def put16_def)

lemma le16_local:
  assumes "\<And>j. j < 2 \<Longrightarrow> b (off + j) = b' (off' + j)"
  shows "le16 b off = le16 b' off'"
  using assms [of 0] assms [of 1] by (simp add: le16_def)

lemma le32_local:
  assumes "\<And>j. j < 4 \<Longrightarrow> b (off + j) = b' (off' + j)"
  shows "le32 b off = le32 b' off'"
  using assms [of 0] assms [of 1] assms [of 2] assms [of 3]
  by (simp add: le32_def le16_def numeral_eq_Suc)

section \<open>Conversions between widths\<close>

lemma unat_ucast_up:
  fixes a :: "'a::len word"
  assumes "LENGTH('a) \<le> LENGTH('b::len)"
  shows "unat (ucast a :: 'b word) = unat a"
proof -
  have "unat a < 2 ^ LENGTH('b)"
    by (rule less_le_trans [OF unsigned_less]) (simp add: assms)
  then show ?thesis by (simp add: unsigned_ucast_eq take_bit_nat_eq_self)
qed

lemma unat_ucast_ups [simp]:
  "unat (ucast (a :: u8) :: u16) = unat a" "unat (ucast (a :: u8) :: u32) = unat a"
  "unat (ucast (a :: u8) :: u64) = unat a" "unat (ucast (b :: u16) :: u32) = unat b"
  "unat (ucast (b :: u16) :: u64) = unat b" "unat (ucast (c :: u32) :: u64) = unat c"
  by (simp_all add: unat_ucast_up)

lemma ucast_up_inj [simp]:
  "(ucast (a :: u32) :: u64) = ucast b \<longleftrightarrow> a = b"
  by (metis unat_ucast_ups(6) word_unat_eq_iff)

lemma odd_unat_bit: "odd (unat (c :: 'a::len word)) \<longleftrightarrow> bit c 0"
proof -
  have "bit (unat c) 0 = bit c 0" by (simp add: bit_unsigned_iff del: bit_0)
  then show ?thesis by (simp add: bit_0)
qed

section \<open>Counting loops\<close>

text \<open>
  \<open>for (i = lo; i < hi; i++) if (p(i)) return ...;\<close> is \<open>find p [lo..<hi]\<close>: the first
  index that satisfies \<open>p\<close>.
\<close>

lemma find_upt_Some_iff:
  "find p [lo..<hi] = Some i \<longleftrightarrow> lo \<le> i \<and> i < hi \<and> p i \<and> (\<forall>j. lo \<le> j \<and> j < i \<longrightarrow> \<not> p j)"
proof -
  have "find p [lo..<hi] = Some i \<longleftrightarrow>
    (\<exists>k<hi - lo. p (lo + k) \<and> i = lo + k \<and> (\<forall>j<k. \<not> p (lo + j)))"
    by (auto simp: find_Some_iff)
  also have "\<dots> \<longleftrightarrow> lo \<le> i \<and> i < hi \<and> p i \<and> (\<forall>j. lo \<le> j \<and> j < i \<longrightarrow> \<not> p j)"
  proof
    assume "\<exists>k<hi - lo. p (lo + k) \<and> i = lo + k \<and> (\<forall>j<k. \<not> p (lo + j))"
    then obtain k where k: "k < hi - lo" "p (lo + k)" "i = lo + k" "\<forall>j<k. \<not> p (lo + j)"
      by blast
    have "\<not> p j" if "lo \<le> j" "j < i" for j
      using k(3,4) that by (metis less_diff_conv2 add.commute add_diff_inverse_nat not_less)
    with k show "lo \<le> i \<and> i < hi \<and> p i \<and> (\<forall>j. lo \<le> j \<and> j < i \<longrightarrow> \<not> p j)" by auto
  next
    assume r: "lo \<le> i \<and> i < hi \<and> p i \<and> (\<forall>j. lo \<le> j \<and> j < i \<longrightarrow> \<not> p j)"
    then show "\<exists>k<hi - lo. p (lo + k) \<and> i = lo + k \<and> (\<forall>j<k. \<not> p (lo + j))"
      by (intro exI [of _ "i - lo"]) auto
  qed
  finally show ?thesis .
qed

lemma find_upt_None_iff: "find p [lo..<hi] = None \<longleftrightarrow> (\<forall>i. lo \<le> i \<and> i < hi \<longrightarrow> \<not> p i)"
  by (auto simp: find_None_iff)

section \<open>Loops with early return\<close>

text \<open>
  \<open>for (x : xs) { ... }\<close> whose body may \<open>return\<close>: the body yields \<open>Inl r\<close> to leave the
  function (or the nest of loops) with \<open>r\<close>, or \<open>Inr s\<close> to go on with the state \<open>s\<close>.
\<close>

fun fold_until :: "('a \<Rightarrow> 's \<Rightarrow> 'r + 's) \<Rightarrow> 'a list \<Rightarrow> 's \<Rightarrow> 'r + 's" where
  "fold_until f [] s = Inr s"
| "fold_until f (x # xs) s = (case f x s of Inl r \<Rightarrow> Inl r | Inr s' \<Rightarrow> fold_until f xs s')"

lemma fold_until_append:
  "fold_until f (xs @ ys) s = (case fold_until f xs s of Inl r \<Rightarrow> Inl r | Inr s' \<Rightarrow> fold_until f ys s')"
  by (induction xs arbitrary: s) (auto split: sum.splits)

lemma fold_until_inv:
  assumes "P s"
    and "\<And>x s. x \<in> set xs \<Longrightarrow> P s \<Longrightarrow> (case f x s of Inl r \<Rightarrow> Q r | Inr s' \<Rightarrow> P s')"
  shows "case fold_until f xs s of Inl r \<Rightarrow> Q r | Inr s' \<Rightarrow> P s'"
  using assms
proof (induction xs arbitrary: s)
  case Nil
  then show ?case by simp
next
  case (Cons x xs)
  have step: "case f x s of Inl r \<Rightarrow> Q r | Inr s' \<Rightarrow> P s'" using Cons.prems by simp
  show ?case
  proof (cases "f x s")
    case (Inl r)
    then show ?thesis using step by simp
  next
    case (Inr s')
    then have "P s'" using step by simp
    then show ?thesis using Cons.IH [of s'] Cons.prems(2) Inr by simp
  qed
qed

lemma fold_until_map: "fold_until f (map g xs) s = fold_until (\<lambda>x. f (g x)) xs s"
  by (induction xs arbitrary: s) (auto split: sum.splits)


section \<open>Waiting for interrupts\<close>

text \<open>
  \<open>while (...) { if (...) return r; HalHlt(); }\<close>: the body yields \<open>Some (r, s)\<close> to leave the
  loop, otherwise the processor halts until the next interrupt, which changes the state.  The
  interrupts are a list of state changes; when none is left the loop does not return.
\<close>

fun hlt_loop :: "('s \<Rightarrow> ('r \<times> 's) option) \<Rightarrow> ('s \<Rightarrow> 's) list \<Rightarrow> 's \<Rightarrow> ('r \<times> ('s \<Rightarrow> 's) list \<times> 's) option" where
  "hlt_loop body irqs s =
    (case body s of
       Some (r, s') \<Rightarrow> Some (r, irqs, s')
     | None \<Rightarrow> (case irqs of [] \<Rightarrow> None | irq # rest \<Rightarrow> hlt_loop body rest (irq s)))"

declare hlt_loop.simps [simp del]

lemma hlt_loop_inv:
  assumes "hlt_loop body irqs s = Some (r, rest, t)" "P s"
    and "\<And>irq s. irq \<in> set irqs \<Longrightarrow> P s \<Longrightarrow> P (irq s)"
  shows "\<exists>u. P u \<and> body u = Some (r, t)"
  using assms
proof (induction irqs arbitrary: s)
  case Nil
  then show ?case by (auto simp: hlt_loop.simps [of _ "[]"] split: option.splits)
next
  case (Cons irq irqs)
  show ?case
  proof (cases "body s")
    case None
    then have "hlt_loop body irqs (irq s) = Some (r, rest, t)"
      using Cons.prems(1) by (simp add: hlt_loop.simps [of _ "irq # irqs"])
    then show ?thesis using Cons.IH [of "irq s"] Cons.prems(2,3) by simp
  next
    case (Some x)
    then show ?thesis using Cons.prems(1,2) by (cases x) (auto simp: hlt_loop.simps [of _ "irq # irqs"])
  qed
qed

end
