(* ===== verification/Runtime.thy ===== *)
theory Runtime
  imports Prelude
begin

text \<open>
  The freestanding C runtime, \<^verbatim>\<open>Kernel/runtime.c\<close>. Memory is a function from addresses to
  bytes; a function that writes takes and returns it. Loops that count down \<open>count\<close> are
  recursive in it; loops that run to a NUL are partial functions whose value \<open>None\<close> means
  that they do not return. Characters are bytes, the signed comparisons of the C code
  lie in the common range of \<open>char\<close> and \<open>u8\<close>. Strings without their NUL are byte lists;
  \<open>cstr m p xs\<close> says that memory \<open>m\<close> holds the string \<open>xs\<close> at \<open>p\<close>.
\<close>

type_synonym mem = "nat \<Rightarrow> u8"

section \<open>Memory blocks\<close>

fun RtMemSet :: "mem \<Rightarrow> nat \<Rightarrow> u8 \<Rightarrow> nat \<Rightarrow> mem" where
  "RtMemSet m d v 0 = m"
| "RtMemSet m d v (Suc count) = RtMemSet (m(d := v)) (d + 1) v count"

fun RtMemCopy :: "mem \<Rightarrow> nat \<Rightarrow> nat \<Rightarrow> nat \<Rightarrow> mem" where
  "RtMemCopy m d s 0 = m"
| "RtMemCopy m d s (Suc count) = RtMemCopy (m(d := m s)) (d + 1) (s + 1) count"

text \<open>The second loop of \<^verbatim>\<open>RtMemMove\<close>: \<open>while (count--) *--d = *--s;\<close>\<close>

fun copy_down :: "mem \<Rightarrow> nat \<Rightarrow> nat \<Rightarrow> nat \<Rightarrow> mem" where
  "copy_down m d s 0 = m"
| "copy_down m d s (Suc count) = copy_down (m(d - 1 := m (s - 1))) (d - 1) (s - 1) count"

definition RtMemMove :: "mem \<Rightarrow> nat \<Rightarrow> nat \<Rightarrow> nat \<Rightarrow> mem" where
  "RtMemMove m d s count =
     (if d < s then RtMemCopy m d s count else copy_down m (d + count) (s + count) count)"

fun RtMemCompare :: "mem \<Rightarrow> nat \<Rightarrow> nat \<Rightarrow> nat \<Rightarrow> int" where
  "RtMemCompare m a b 0 = 0"
| "RtMemCompare m a b (Suc count) =
     (if m a \<noteq> m b then uint (m a) - uint (m b) else RtMemCompare m (a + 1) (b + 1) count)"

definition memcpy :: "mem \<Rightarrow> nat \<Rightarrow> nat \<Rightarrow> nat \<Rightarrow> nat \<times> mem" where
  "memcpy m dst src count = (dst, RtMemCopy m dst src count)"

definition memset :: "mem \<Rightarrow> nat \<Rightarrow> i32 \<Rightarrow> nat \<Rightarrow> nat \<times> mem" where
  "memset m dst val count = (dst, RtMemSet m dst (ucast val) count)"

definition memmove :: "mem \<Rightarrow> nat \<Rightarrow> nat \<Rightarrow> nat \<Rightarrow> nat \<times> mem" where
  "memmove m dst src count = (dst, RtMemMove m dst src count)"

section \<open>Strings\<close>

partial_function (option) strlen_loop :: "mem \<Rightarrow> nat \<Rightarrow> nat \<Rightarrow> nat option" where
  "strlen_loop m s len = (if m s \<noteq> 0 then strlen_loop m (s + 1) (len + 1) else Some len)"

definition RtStrLen :: "mem \<Rightarrow> nat \<Rightarrow> nat option" where
  "RtStrLen m s = strlen_loop m s 0"

fun strnlen_loop :: "mem \<Rightarrow> nat \<Rightarrow> nat \<Rightarrow> nat \<Rightarrow> nat" where
  "strnlen_loop m s len 0 = len"
| "strnlen_loop m s len (Suc left) = (if m s \<noteq> 0 then strnlen_loop m (s + 1) (len + 1) left else len)"

definition RtStrnLen :: "mem \<Rightarrow> nat \<Rightarrow> nat \<Rightarrow> nat" where
  "RtStrnLen m s limit = strnlen_loop m s 0 limit"

text \<open>\<open>while ((*d++ = *src++));\<close> The value is the memory afterwards.\<close>

partial_function (option) strcopy_loop :: "mem \<Rightarrow> nat \<Rightarrow> nat \<Rightarrow> mem option" where
  "strcopy_loop m d src =
     (let m' = m(d := m src) in
      if m src \<noteq> 0 then strcopy_loop m' (d + 1) (src + 1) else Some m')"

definition RtStrCopy :: "mem \<Rightarrow> nat \<Rightarrow> nat \<Rightarrow> mem option" where
  "RtStrCopy m dst src = strcopy_loop m dst src"

text \<open>
  \<open>while (max-- > 1 && (*d++ = *src++)); *d = 0;\<close> The last argument is the number of
  iterations the first conjunct still allows.
\<close>

fun strncopy_loop :: "mem \<Rightarrow> nat \<Rightarrow> nat \<Rightarrow> nat \<Rightarrow> mem" where
  "strncopy_loop m d src 0 = m(d := 0)"
| "strncopy_loop m d src (Suc left) =
     (let m' = m(d := m src) in
      if m src \<noteq> 0 then strncopy_loop m' (d + 1) (src + 1) left else m'(d + 1 := 0))"

definition RtStrnCopy :: "mem \<Rightarrow> nat \<Rightarrow> nat \<Rightarrow> nat \<Rightarrow> mem" where
  "RtStrnCopy m dst src limit = strncopy_loop m dst src (limit - 1)"

partial_function (option) RtStrCompare :: "mem \<Rightarrow> nat \<Rightarrow> nat \<Rightarrow> int option" where
  "RtStrCompare m a b =
     (if m a \<noteq> 0 \<and> m a = m b then RtStrCompare m (a + 1) (b + 1)
      else Some (uint (m a) - uint (m b)))"

text \<open>The counter wraps to \<open>(usize)-1\<close> exactly when it runs out before the strings differ.\<close>

fun RtStrnCompare :: "mem \<Rightarrow> nat \<Rightarrow> nat \<Rightarrow> nat \<Rightarrow> int" where
  "RtStrnCompare m a b 0 = 0"
| "RtStrnCompare m a b (Suc limit) =
     (if m a \<noteq> 0 \<and> m a = m b then RtStrnCompare m (a + 1) (b + 1) limit
      else uint (m a) - uint (m b))"

definition to_lower :: "u8 \<Rightarrow> u8" where
  "to_lower c = (if c \<ge> 65 \<and> c \<le> 90 then c + 32 else c)"

partial_function (option) RtStrCompareI :: "mem \<Rightarrow> nat \<Rightarrow> nat \<Rightarrow> int option" where
  "RtStrCompareI m a b =
     (if m a \<noteq> 0 \<and> m b \<noteq> 0 then
        let d = uint (to_lower (m a)) - uint (to_lower (m b)) in
        if d \<noteq> 0 then Some d else RtStrCompareI m (a + 1) (b + 1)
      else Some (uint (m a) - uint (m b)))"

definition RtStrConcat :: "mem \<Rightarrow> nat \<Rightarrow> nat \<Rightarrow> mem option" where
  "RtStrConcat m dst src =
     Option.bind (RtStrLen m dst) (\<lambda>n. strcopy_loop m (dst + n) src)"

section \<open>Numbers\<close>

definition g_hex_upper :: "u8 list" where
  "g_hex_upper = [48,49,50,51,52,53,54,55,56,57,65,66,67,68,69,70]"

definition g_hex_lower :: "u8 list" where
  "g_hex_lower = [48,49,50,51,52,53,54,55,56,57,97,98,99,100,101,102]"

text \<open>
  The digit loop: \<open>tmp\<close> from the least significant digit on; \<open>None\<close> when it does not end
  (base 1) or reads past the digit table (a base above 16).
\<close>

partial_function (option) utoa_digits :: "u8 list \<Rightarrow> u64 \<Rightarrow> u64 \<Rightarrow> u8 list \<Rightarrow> u8 list option" where
  "utoa_digits digits value base tmp =
     (if value > 0 then
        if value mod base < 16
        then utoa_digits digits (value div base) base (tmp @ [digits ! unat (value mod base)])
        else None
      else Some tmp)"

definition utoa_base :: "int \<Rightarrow> u8 list \<times> int" where
  "utoa_base base =
     (let (digits, base) = (if base = 88 \<or> base = - 16 then (g_hex_upper, 16) else (g_hex_lower, base));
          (digits, base) = (if base = 120 \<or> base = 16
             then (if base < 0 then (g_hex_upper, 16) else (digits, base)) else (digits, base));
          base = (if base \<le> 0 then 10 else base)
      in (digits, base))"

text \<open>The string written to \<open>buf\<close>, without its NUL.\<close>

definition RtUtoa :: "u64 \<Rightarrow> int \<Rightarrow> u8 list option" where
  "RtUtoa value base =
     (let (digits, base) = utoa_base base in
      if value = 0 then Some [48]
      else map_option rev (utoa_digits digits value (of_int base) []))"

definition RtItoa :: "u64 \<Rightarrow> int \<Rightarrow> u8 list option" where
  "RtItoa value base =
     (if value <s 0 \<and> base = 10 then map_option ((#) 45) (RtUtoa (- value) base)
      else RtUtoa value base)"

section \<open>Correctness of the memory operations\<close>

lemma RtMemSet_fill: "RtMemSet m d v n = buf_fill m d v n"
proof (induction n arbitrary: m d)
  case (Suc n)
  show ?case by (rule ext) (auto simp: Suc.IH buf_fill_def)
qed simp

text \<open>A forward copy is right when the destination does not start inside the source.\<close>

lemma RtMemCopy_correct:
  "d \<le> s \<or> s + n \<le> d \<Longrightarrow> RtMemCopy m d s n = buf_copy m d m s n"
proof (induction n arbitrary: m d s)
  case 0
  then show ?case by simp
next
  case (Suc n)
  have "RtMemCopy m d s (Suc n) = buf_copy (m(d := m s)) (d + 1) (m(d := m s)) (s + 1) n"
    using Suc.prems by (simp del: fun_upd_apply) (rule Suc.IH, auto)
  also have "\<dots> = buf_copy m d m s (Suc n)"
    using Suc.prems by (intro ext) (auto simp: buf_copy_def Suc_diff_Suc)
  finally show ?case .
qed

lemma copy_down_correct:
  "s \<le> d \<Longrightarrow> copy_down m (d + n) (s + n) n = buf_copy m d m s n"
proof (induction n arbitrary: m)
  case 0
  then show ?case by simp
next
  case (Suc n)
  have "copy_down m (d + Suc n) (s + Suc n) (Suc n)
      = buf_copy (m(d + n := m (s + n))) d (m(d + n := m (s + n))) s n"
    using Suc by simp
  also have "\<dots> = buf_copy m d m s (Suc n)"
    using Suc.prems by (intro ext) (auto simp: buf_copy_def)
  finally show ?case .
qed

section \<open>Strings in memory and as lists\<close>

definition cstr :: "mem \<Rightarrow> nat \<Rightarrow> u8 list \<Rightarrow> bool" where
  "cstr m p xs \<longleftrightarrow> (\<forall>i<length xs. m (p + i) = xs ! i \<and> xs ! i \<noteq> 0) \<and> m (p + length xs) = 0"

lemma cstr_Nil [simp]: "cstr m p [] \<longleftrightarrow> m p = 0"
  by (simp add: cstr_def)

lemma cstr_Cons [simp]: "cstr m p (x # xs) \<longleftrightarrow> m p = x \<and> x \<noteq> 0 \<and> cstr m (p + 1) xs"
  unfolding cstr_def
  by (auto simp: less_Suc_eq_0_disj nth_Cons' split: nat.splits)

text \<open>The operations on the lists, which the other components use for their strings.\<close>

fun str_compare :: "u8 list \<Rightarrow> u8 list \<Rightarrow> int" where
  "str_compare [] [] = 0"
| "str_compare (x # xs) [] = uint x"
| "str_compare [] (y # ys) = - uint y"
| "str_compare (x # xs) (y # ys) = (if x = y then str_compare xs ys else uint x - uint y)"

fun str_compareI :: "u8 list \<Rightarrow> u8 list \<Rightarrow> int" where
  "str_compareI [] [] = 0"
| "str_compareI (x # xs) [] = uint x"
| "str_compareI [] (y # ys) = - uint y"
| "str_compareI (x # xs) (y # ys) =
     (let d = uint (to_lower x) - uint (to_lower y) in if d \<noteq> 0 then d else str_compareI xs ys)"

lemma strlen_loop_cstr: "cstr m p xs \<Longrightarrow> strlen_loop m p n = Some (n + length xs)"
  by (induction xs arbitrary: p n) (simp_all add: strlen_loop.simps)

lemma RtStrLen_cstr: "cstr m p xs \<Longrightarrow> RtStrLen m p = Some (length xs)"
  by (simp add: RtStrLen_def strlen_loop_cstr)

lemma strnlen_loop_cstr: "cstr m p xs \<Longrightarrow> strnlen_loop m p n k = n + min (length xs) k"
proof (induction k arbitrary: p n xs)
  case 0
  then show ?case by simp
next
  case (Suc k)
  then show ?case by (cases xs) auto
qed

lemma RtStrnLen_cstr: "cstr m p xs \<Longrightarrow> RtStrnLen m p k = min (length xs) k"
  by (simp add: RtStrnLen_def strnlen_loop_cstr)

lemma RtStrCompare_cstr:
  "cstr m a xs \<Longrightarrow> cstr m b ys \<Longrightarrow> RtStrCompare m a b = Some (str_compare xs ys)"
  by (induction xs ys arbitrary: a b rule: str_compare.induct)
     (auto simp: RtStrCompare.simps)

lemma RtStrCompareI_cstr:
  "cstr m a xs \<Longrightarrow> cstr m b ys \<Longrightarrow> RtStrCompareI m a b = Some (str_compareI xs ys)"
  by (induction xs ys arbitrary: a b rule: str_compareI.induct)
     (auto simp: RtStrCompareI.simps Let_def)

lemma RtStrnCompare_cstr:
  "cstr m a xs \<Longrightarrow> cstr m b ys \<Longrightarrow> RtStrnCompare m a b n = str_compare (take n xs) (take n ys)"
proof (induction n arbitrary: a b xs ys)
  case 0
  then show ?case by simp
next
  case (Suc n)
  then show ?case by (cases xs; cases ys) auto
qed

lemma str_compare_eq [simp]: "0 \<notin> set xs \<Longrightarrow> 0 \<notin> set ys \<Longrightarrow> str_compare xs ys = 0 \<longleftrightarrow> xs = ys"
  by (induction xs ys rule: str_compare.induct) (auto simp: uint_0_iff word_uint_eq_iff [symmetric])

lemma str_compareI_eq:
  "0 \<notin> set xs \<Longrightarrow> 0 \<notin> set ys \<Longrightarrow> str_compareI xs ys = 0 \<longleftrightarrow> map to_lower xs = map to_lower ys"
  by (induction xs ys rule: str_compareI.induct) (auto simp: uint_0_iff Let_def word_uint_eq_iff [symmetric])

lemma cstr_nonzero: "cstr m p xs \<Longrightarrow> 0 \<notin> set xs"
  by (induction xs arbitrary: p) auto

lemma cstr_cong: "(\<And>i. p \<le> i \<Longrightarrow> i \<le> p + length xs \<Longrightarrow> m i = m' i) \<Longrightarrow> cstr m p xs = cstr m' p xs"
  by (simp add: cstr_def)

text \<open>The copy loop, for a destination that does not reach into the source from below.\<close>

lemma strcopy_loop_cstr:
  assumes "cstr m src xs" "d \<le> src \<or> src + length xs < d"
  shows "\<exists>m'. strcopy_loop m d src = Some m' \<and> cstr m' d xs
    \<and> (\<forall>i. i < d \<or> d + length xs < i \<longrightarrow> m' i = m i)"
  using assms
proof (induction xs arbitrary: m d src)
  case Nil
  then show ?case by (simp add: strcopy_loop.simps Let_def)
next
  case (Cons x xs)
  let ?m = "m(d := x)"
  have x: "m src = x" "x \<noteq> 0" "cstr m (src + 1) xs" using Cons.prems(1) by auto
  have "cstr ?m (src + 1) xs \<longleftrightarrow> cstr m (src + 1) xs"
    using Cons.prems(2) by (intro cstr_cong) auto
  moreover have "d + 1 \<le> src + 1 \<or> src + 1 + length xs < d + 1" using Cons.prems(2) by auto
  ultimately obtain m' where m': "strcopy_loop ?m (d + 1) (src + 1) = Some m'" "cstr m' (d + 1) xs"
    "\<forall>i. i < d + 1 \<or> d + 1 + length xs < i \<longrightarrow> m' i = ?m i"
    using Cons.IH [of ?m "src + 1" "d + 1"] x(3) by blast
  have "strcopy_loop m d src = Some m'"
    using m'(1) x by (subst strcopy_loop.simps) (simp add: Let_def)
  moreover have "cstr m' d (x # xs)" using m'(2,3) x by simp
  moreover have "\<forall>i. i < d \<or> d + length (x # xs) < i \<longrightarrow> m' i = m i" using m'(3) by auto
  ultimately show ?case by blast
qed

section \<open>Digits\<close>

definition digit_value :: "u8 \<Rightarrow> nat" where
  "digit_value c = (if c < 58 then unat (c - 48) else if c < 71 then unat (c - 55) else unat (c - 87))"

definition digits_value :: "nat \<Rightarrow> u8 list \<Rightarrow> nat" where
  "digits_value b ds = foldl (\<lambda>acc c. acc * b + digit_value c) 0 ds"

lemma digits_value_snoc: "digits_value b (ds @ [c]) = digits_value b ds * b + digit_value c"
  by (simp add: digits_value_def)

lemma digit_value_tables:
  assumes "i < 16"
  shows "digit_value (g_hex_lower ! i) = i" "digit_value (g_hex_upper ! i) = i"
proof -
  have "list_all (\<lambda>i. digit_value (g_hex_lower ! i) = i \<and> digit_value (g_hex_upper ! i) = i) [0..<16]"
    by code_simp
  then show "digit_value (g_hex_lower ! i) = i" "digit_value (g_hex_upper ! i) = i"
    using assms by (auto simp: list_all_iff)
qed

lemma digits_value_rev_Cons: "digits_value b (rev (c # ds)) = digits_value b (rev ds) * b + digit_value c"
  by (simp add: digits_value_snoc)

text \<open>The loop ends for every base from 2 to 16, and the digits denote the number.\<close>

definition digit_table :: "u8 list \<Rightarrow> bool" where
  "digit_table ds \<longleftrightarrow> (\<forall>i<16. digit_value (ds ! i) = i)"

lemma digit_table_hex [simp]: "digit_table g_hex_lower" "digit_table g_hex_upper"
  by (simp_all add: digit_table_def digit_value_tables)

lemma utoa_digits_correct:
  assumes "digit_table digits" "2 \<le> b" "b \<le> 16"
  shows "\<exists>ds. utoa_digits digits v (of_nat b) tmp = Some (tmp @ ds)
    \<and> digits_value b (rev ds) = unat v \<and> (0 < v \<longrightarrow> ds \<noteq> [])"
proof (induction "unat v" arbitrary: v tmp rule: less_induct)
  case less
  show ?case
  proof (cases "v = 0")
    case True
    then show ?thesis by (simp add: utoa_digits.simps digits_value_def)
  next
    case False
    have ub: "unat (of_nat b :: u64) = b" using assms(3) by (simp add: unat_of_nat)
    have div: "unat (v div of_nat b) = unat v div b" by (simp add: unat_div ub)
    have mod: "unat (v mod of_nat b) = unat v mod b" by (simp add: unat_mod ub)
    have small: "unat v mod b < 16" using assms(2,3) mod_less_divisor [of b "unat v"] by linarith
    have "unat v div b < unat v" using False assms(2) by (simp add: unat_gt_0)
    from less [OF this [folded div], of "tmp @ [digits ! unat (v mod of_nat b)]"]
    obtain ds where ds:
      "utoa_digits digits (v div of_nat b) (of_nat b) (tmp @ [digits ! (unat v mod b)])
        = Some (tmp @ digits ! (unat v mod b) # ds)"
      "digits_value b (rev ds) = unat v div b"
      by (auto simp: mod div)
    have "v mod of_nat b < 16" using small mod by (simp add: word_less_nat_alt)
    then have "utoa_digits digits v (of_nat b) tmp = Some (tmp @ digits ! (unat v mod b) # ds)"
      using False ds(1) by (subst utoa_digits.simps) (simp add: mod word_gt_0)
    moreover have "digits_value b (rev (digits ! (unat v mod b) # ds)) = unat v"
      using ds(2) small assms(1) by (simp only: digits_value_rev_Cons) (simp add: digit_table_def)
    ultimately show ?thesis by blast
  qed
qed

section \<open>Properties\<close>

text \<open>
  \<^verbatim>\<open>RtMemMove\<close> is right for every overlap of source and destination: the \<open>count\<close>
  destination bytes are the old source bytes and no other byte changes.
\<close>

theorem RtMemMove_correct: "RtMemMove m d s count = buf_copy m d m s count"
  by (simp add: RtMemMove_def RtMemCopy_correct copy_down_correct)

text \<open>
  On NUL-terminated strings \<^verbatim>\<open>RtStrCompareI\<close> returns, and returns 0 exactly when the
  strings are equal up to the case of the ASCII letters.
\<close>

theorem RtStrCompareI_correct:
  assumes "cstr m a xs" "cstr m b ys"
  shows "\<exists>d. RtStrCompareI m a b = Some d \<and> (d = 0 \<longleftrightarrow> map to_lower xs = map to_lower ys)"
  using RtStrCompareI_cstr [OF assms] str_compareI_eq [OF cstr_nonzero [OF assms(1)] cstr_nonzero [OF assms(2)]]
  by simp

text \<open>The strings \<open>AB\<close> at 0 and \<open>ab\<close> at 3, and free space from 6.\<close>

definition mem_small :: mem where
  "mem_small = (\<lambda>_. 0)(0 := 65, 1 := 66, 3 := 97, 4 := 98)"

lemma mem_small_strings: "cstr mem_small 0 [65, 66]" "cstr mem_small 3 [97, 98]"
  by (simp_all add: mem_small_def)

lemma RtStrCompareI_correct_witness: "\<exists>d. RtStrCompareI mem_small 0 3 = Some d \<and> d = 0"
  using RtStrCompareI_correct [OF mem_small_strings] by (simp add: to_lower_def)

text \<open>
  \<^verbatim>\<open>RtStrConcat\<close> returns and leaves the concatenation of the two strings at the
  destination, changing no byte outside it, when the source lies behind the result.
\<close>

theorem RtStrConcat_correct:
  assumes "cstr m dst xs" "cstr m src ys" "dst + length xs + length ys < src"
  shows "\<exists>m'. RtStrConcat m dst src = Some m' \<and> cstr m' dst (xs @ ys)
    \<and> (\<forall>i. i < dst \<or> dst + length (xs @ ys) < i \<longrightarrow> m' i = m i)"
proof -
  have "dst + length xs \<le> src \<or> src + length ys < dst + length xs" using assms(3) by simp
  from strcopy_loop_cstr [OF assms(2) this] obtain m' where
    m': "strcopy_loop m (dst + length xs) src = Some m'" "cstr m' (dst + length xs) ys"
    "\<forall>i. i < dst + length xs \<or> dst + length xs + length ys < i \<longrightarrow> m' i = m i" by blast
  have "cstr m' dst (xs @ ys)"
    using assms(1) m'(2,3) unfolding cstr_def
    by (auto simp: nth_append add.assoc) (metis add.assoc add_diff_inverse_nat nat_add_left_cancel_less)+
  then show ?thesis
    using m'(1,3) RtStrLen_cstr [OF assms(1)] by (simp add: RtStrConcat_def add.assoc)
qed

lemma RtStrConcat_correct_witness:
  "\<exists>m'. RtStrConcat (mem_small(10 := 67)) 3 10 = Some m' \<and> cstr m' 3 ([97, 98] @ [67])"
proof -
  have "cstr (mem_small(10 := 67)) 3 [97, 98]" "cstr (mem_small(10 := 67)) 10 [67]"
    by (simp_all add: mem_small_def)
  from RtStrConcat_correct [OF this] show ?thesis by auto
qed

text \<open>
  For the bases 2 to 16 the digit loop of \<^verbatim>\<open>RtUtoa\<close> ends, and the printed digits, read
  back in that base, are the number: printing and parsing round-trip on all 64-bit values.
\<close>

theorem RtUtoa_roundtrip:
  assumes "2 \<le> b" "b \<le> 16"
  shows "\<exists>ds. RtUtoa v (int b) = Some ds \<and> ds \<noteq> [] \<and> digits_value b ds = unat v"
proof (cases "v = 0")
  case True
  then show ?thesis
    by (simp add: RtUtoa_def utoa_base_def digits_value_def digit_value_def Let_def split: if_splits)
next
  case False
  have base: "utoa_base (int b) = (g_hex_lower, int b)"
    using assms by (simp add: utoa_base_def Let_def)
  from utoa_digits_correct [OF digit_table_hex(1) assms, of v "[]"] obtain ds where
    "utoa_digits g_hex_lower v (of_nat b) [] = Some ds" "digits_value b (rev ds) = unat v" "ds \<noteq> []"
    using False by (auto simp: word_gt_0)
  then show ?thesis using False by (simp add: RtUtoa_def base)
qed

lemma RtUtoa_roundtrip_witness: "\<exists>ds. RtUtoa 255 16 = Some ds \<and> digits_value 16 ds = 255"
  using RtUtoa_roundtrip [of 16 255] by auto

text \<open>Base \<open>'x'\<close> is not mapped to 16: the first digit of 120 or more reads past the table.\<close>

lemma RtUtoa_lower_x: "RtUtoa 100 120 = None"
  by (simp add: RtUtoa_def utoa_base_def utoa_digits.simps)

end
