(* ===== verification/Pmm.thy ===== *)
theory Pmm
  imports Prelude
begin

text \<open>
  The physical page allocator, \<^verbatim>\<open>Kernel/mm/pmm.c\<close>: the static globals are the fields of
  the record \<open>pmm\<close>, the two static arrays \<^verbatim>\<open>g_pmm_bitmap\<close> and \<^verbatim>\<open>g_pmm_pinned\<close> are
  functions from the word index, every operation is one definition.
  Page numbers are \<open>nat\<close> (they are quotients of a 64-bit address by 4096, so they
  cannot wrap); addresses and the page counters are 64-bit words.
  The firmware's memory map is read from byte memory at the offsets the code uses.
  Console output is left out. \<open>KdPanic\<close> never returns: it is \<open>None\<close>.
\<close>

section \<open>State and bitmap macros\<close>

definition PAGE_SIZE :: u64 where "PAGE_SIZE = 4096"
definition PMM_BITMAP_SIZE_MAX :: nat where "PMM_BITMAP_SIZE_MAX = 131072"

record pmm =
  total_pages :: u64
  used_pages :: u64
  highest_page :: nat
  bitmap_size :: u32
  bitmap :: "nat \<Rightarrow> u64"
  pinned :: "nat \<Rightarrow> u64"

record boot_info =
  kernel_image_base :: u64
  kernel_image_size :: u64
  fb_base :: u64
  fb_size :: u64

definition BITMAP_INDEX :: "nat \<Rightarrow> nat" where
  "BITMAP_INDEX page = (page div 64) mod 2 ^ 32"

definition BITMAP_OFFSET :: "nat \<Rightarrow> nat" where
  "BITMAP_OFFSET page = page mod 64"

definition BITMAP_SET :: "(nat \<Rightarrow> u64) \<Rightarrow> nat \<Rightarrow> (nat \<Rightarrow> u64)" where
  "BITMAP_SET bm page =
     bm(BITMAP_INDEX page := bm (BITMAP_INDEX page) OR push_bit (BITMAP_OFFSET page) 1)"

definition BITMAP_CLEAR :: "(nat \<Rightarrow> u64) \<Rightarrow> nat \<Rightarrow> (nat \<Rightarrow> u64)" where
  "BITMAP_CLEAR bm page =
     bm(BITMAP_INDEX page := bm (BITMAP_INDEX page) AND NOT (push_bit (BITMAP_OFFSET page) 1))"

definition BITMAP_TEST :: "(nat \<Rightarrow> u64) \<Rightarrow> nat \<Rightarrow> bool" where
  "BITMAP_TEST bm page \<longleftrightarrow> drop_bit (BITMAP_OFFSET page) (bm (BITMAP_INDEX page)) AND 1 \<noteq> 0"

section \<open>Operations\<close>

definition mark_page :: "nat \<Rightarrow> pmm \<Rightarrow> pmm" where
  "mark_page i s =
     (if \<not> BITMAP_TEST (bitmap s) i
      then s\<lparr>bitmap := BITMAP_SET (bitmap s) i, used_pages := used_pages s + 1\<rparr>
      else s)"

definition unmark_page :: "nat \<Rightarrow> pmm \<Rightarrow> pmm" where
  "unmark_page i s =
     (if BITMAP_TEST (bitmap s) i
      then s\<lparr>bitmap := BITMAP_CLEAR (bitmap s) i, used_pages := used_pages s - 1\<rparr>
      else s)"

definition PmmMarkRegionUsed :: "u64 \<Rightarrow> u64 \<Rightarrow> pmm \<Rightarrow> pmm" where
  "PmmMarkRegionUsed base len s =
     (let start = unat (base div PAGE_SIZE);
          end' = unat ((base + len + PAGE_SIZE - 1) div PAGE_SIZE)
      in fold mark_page [start..<min end' (highest_page s + 1)] s)"

text \<open>One descriptor of the firmware memory map, read at offsets 0, 8 and 24.\<close>

definition desc_type :: "buf \<Rightarrow> nat \<Rightarrow> u32" where "desc_type m p = le32 m p"
definition desc_start :: "buf \<Rightarrow> nat \<Rightarrow> u64" where "desc_start m p = le64 m (p + 8)"
definition desc_pages :: "buf \<Rightarrow> nat \<Rightarrow> u64" where "desc_pages m p = le64 m (p + 24)"

definition usable_type :: "u32 \<Rightarrow> bool" where
  "usable_type t \<longleftrightarrow> t = 7 \<or> t = 4 \<or> t = 3"

definition scan_desc :: "buf \<Rightarrow> nat \<Rightarrow> u64 \<times> u64 \<Rightarrow> u64 \<times> u64" where
  "scan_desc m p acc =
     (let (max_addr, total) = acc;
          region_end = desc_start m p + desc_pages m p * PAGE_SIZE
      in if usable_type (desc_type m p)
         then (if region_end > max_addr then region_end else max_addr, total + desc_pages m p)
         else acc)"

definition release_desc :: "buf \<Rightarrow> nat \<Rightarrow> pmm \<Rightarrow> pmm" where
  "release_desc m p s =
     (if usable_type (desc_type m p)
      then let start = desc_start m p div PAGE_SIZE;
               end' = start + desc_pages m p
           in fold unmark_page [unat start..<min (unat end') (highest_page s + 1)] s
      else s)"

definition PmmInit :: "buf \<Rightarrow> boot_info \<Rightarrow> nat \<Rightarrow> u64 \<Rightarrow> nat \<Rightarrow> nat \<Rightarrow> pmm \<Rightarrow> pmm option" where
  "PmmInit m boot memory_map map_size entry_size entry_count s0 =
     (let descs = map (\<lambda>i. memory_map + i * entry_size) [0..<entry_count];
          (max_addr, tot) = fold (scan_desc m) descs (0, 0);
          highest = unat (max_addr div PAGE_SIZE);
          size = (of_nat ((highest + 63) div 64) :: u32)
      in if unat size > PMM_BITMAP_SIZE_MAX then None
         else
           let s1 = s0\<lparr>total_pages := tot, used_pages := of_nat highest,
                       highest_page := highest, bitmap_size := size,
                       bitmap := (\<lambda>i. if i < unat size then - 1 else bitmap s0 i)\<rparr>;
               s2 = fold (release_desc m) descs s1;
               s3 = PmmMarkRegionUsed (kernel_image_base boot) (kernel_image_size boot) s2;
               s4 = PmmMarkRegionUsed (of_nat memory_map) map_size s3;
               s5 = PmmMarkRegionUsed (fb_base boot) (fb_size boot) s4
           in Some (mark_page 0 s5))"

definition PmmAllocPage :: "pmm \<Rightarrow> u64 \<times> pmm" where
  "PmmAllocPage s =
     (case find (\<lambda>i. \<not> BITMAP_TEST (bitmap s) i) [0..<highest_page s] of
        Some i \<Rightarrow> (of_nat i * PAGE_SIZE,
                   s\<lparr>bitmap := BITMAP_SET (bitmap s) i, used_pages := used_pages s + 1\<rparr>)
      | None \<Rightarrow> (0, s))"

text \<open>\<^verbatim>\<open>PmmAllocPageDebug\<close> repeats the loop to print its caller.\<close>

definition PmmAllocPageDebug :: "pmm \<Rightarrow> u64 \<times> pmm" where
  "PmmAllocPageDebug s =
     (case find (\<lambda>i. \<not> BITMAP_TEST (bitmap s) i) [0..<highest_page s] of
        Some i \<Rightarrow> (of_nat i * PAGE_SIZE,
                   s\<lparr>bitmap := BITMAP_SET (bitmap s) i, used_pages := used_pages s + 1\<rparr>)
      | None \<Rightarrow> (0, s))"

text \<open>The scan of \<^verbatim>\<open>PmmAllocPages\<close>: length of the current free run and where it began.\<close>

fun free_run :: "(nat \<Rightarrow> u64) \<Rightarrow> nat \<Rightarrow> nat list \<Rightarrow> nat \<Rightarrow> nat \<Rightarrow> nat option" where
  "free_run bm count [] found start = None"
| "free_run bm count (i # is) found start =
     (if \<not> BITMAP_TEST bm i then
        let start' = (if found = 0 then i else start) in
        if found + 1 = count then Some start'
        else free_run bm count is (found + 1) start'
      else free_run bm count is 0 start)"

definition PmmAllocPages :: "u64 \<Rightarrow> pmm \<Rightarrow> u64 \<times> pmm" where
  "PmmAllocPages count s =
     (if count = 0 then (0, s)
      else if count = 1 then PmmAllocPage s
      else case free_run (bitmap s) (unat count) [0..<highest_page s] 0 0 of
        Some start \<Rightarrow> (of_nat start * PAGE_SIZE,
          s\<lparr>bitmap := fold (\<lambda>j bm. BITMAP_SET bm j) [start..<start + unat count] (bitmap s),
            used_pages := used_pages s + count\<rparr>)
      | None \<Rightarrow> (0, s))"

definition PmmFreePage :: "u64 \<Rightarrow> pmm \<Rightarrow> pmm" where
  "PmmFreePage phys_addr s =
     (if phys_addr = 0 then s
      else let page = unat (phys_addr div PAGE_SIZE) in
        if page > highest_page s then s
        else if BITMAP_TEST (pinned s) page then s
        else if \<not> BITMAP_TEST (bitmap s) page then s
        else s\<lparr>bitmap := BITMAP_CLEAR (bitmap s) page, used_pages := used_pages s - 1\<rparr>)"

definition PmmPinPage :: "u64 \<Rightarrow> pmm \<Rightarrow> pmm" where
  "PmmPinPage phys_addr s =
     (if phys_addr = 0 then s
      else let page = unat (phys_addr div PAGE_SIZE) in
        if page \<ge> highest_page s then s
        else s\<lparr>pinned := BITMAP_SET (pinned s) page\<rparr>)"

definition PmmFreePages :: "u64 \<Rightarrow> u64 \<Rightarrow> pmm \<Rightarrow> pmm" where
  "PmmFreePages phys_addr count s =
     fold (\<lambda>i. PmmFreePage (phys_addr + of_nat i * PAGE_SIZE)) [0..<unat count] s"

definition PmmGetTotalPages :: "pmm \<Rightarrow> u64" where "PmmGetTotalPages s = total_pages s"
definition PmmGetUsedPages :: "pmm \<Rightarrow> u64" where "PmmGetUsedPages s = used_pages s"
definition PmmGetFreePages :: "pmm \<Rightarrow> u64" where "PmmGetFreePages s = total_pages s - used_pages s"
definition PmmGetHighestPage :: "pmm \<Rightarrow> nat" where "PmmGetHighestPage s = highest_page s"

definition PmmIsPageTracked :: "u64 \<Rightarrow> pmm \<Rightarrow> bool" where
  "PmmIsPageTracked phys_addr s \<longleftrightarrow> unat (phys_addr div PAGE_SIZE) < highest_page s"

section \<open>The bitmap as a set of pages\<close>

text \<open>
  The C cast of the bitmap index to 32 bits is harmless below \<open>2 ^ 38\<close> pages;
  \<^verbatim>\<open>PmmInit\<close> bounds the pages by \<open>131072 * 64\<close>.
\<close>

definition page_used :: "pmm \<Rightarrow> nat \<Rightarrow> bool" where
  "page_used s i \<longleftrightarrow> BITMAP_TEST (bitmap s) i"

definition page_pinned :: "pmm \<Rightarrow> nat \<Rightarrow> bool" where
  "page_pinned s i \<longleftrightarrow> BITMAP_TEST (pinned s) i"

abbreviation page_limit :: nat where "page_limit \<equiv> 2 ^ 38"

lemma BITMAP_INDEX_small: "i < page_limit \<Longrightarrow> BITMAP_INDEX i = i div 64"
  by (simp add: BITMAP_INDEX_def)

lemma BITMAP_TEST_bit: "BITMAP_TEST bm i \<longleftrightarrow> bit (bm (BITMAP_INDEX i)) (i mod 64)"
  unfolding BITMAP_TEST_def BITMAP_OFFSET_def by (rule test_bit_shift)

lemma BITMAP_slot_inj:
  "i < page_limit \<Longrightarrow> j < page_limit \<Longrightarrow> BITMAP_INDEX i = BITMAP_INDEX j \<Longrightarrow> i mod 64 = j mod 64 \<Longrightarrow> i = j"
  by (metis BITMAP_INDEX_small div_mult_mod_eq)

lemma BITMAP_TEST_SET:
  assumes "i < page_limit" "j < page_limit"
  shows "BITMAP_TEST (BITMAP_SET bm i) j \<longleftrightarrow> BITMAP_TEST bm j \<or> j = i"
proof (cases "BITMAP_INDEX j = BITMAP_INDEX i")
  case True
  have "i mod 64 < LENGTH(64)" by simp
  then have "BITMAP_TEST (BITMAP_SET bm i) j \<longleftrightarrow> bit (bm (BITMAP_INDEX i)) (j mod 64) \<or> j mod 64 = i mod 64"
    unfolding BITMAP_TEST_bit BITMAP_SET_def BITMAP_OFFSET_def using True by (simp add: bit_set_pow)
  with True show ?thesis
    using BITMAP_slot_inj [OF assms(2,1)] by (auto simp: BITMAP_TEST_bit)
next
  case False
  then show ?thesis by (auto simp: BITMAP_TEST_bit BITMAP_SET_def)
qed

lemma BITMAP_TEST_CLEAR:
  assumes "i < page_limit" "j < page_limit"
  shows "BITMAP_TEST (BITMAP_CLEAR bm i) j \<longleftrightarrow> BITMAP_TEST bm j \<and> j \<noteq> i"
proof (cases "BITMAP_INDEX j = BITMAP_INDEX i")
  case True
  then have "BITMAP_TEST (BITMAP_CLEAR bm i) j \<longleftrightarrow> bit (bm (BITMAP_INDEX i)) (j mod 64) \<and> j mod 64 \<noteq> i mod 64"
    unfolding BITMAP_TEST_bit BITMAP_CLEAR_def BITMAP_OFFSET_def by (simp add: bit_clear_pow)
  with True show ?thesis
    using BITMAP_slot_inj [OF assms(2,1)] by (auto simp: BITMAP_TEST_bit)
next
  case False
  then show ?thesis by (auto simp: BITMAP_TEST_bit BITMAP_CLEAR_def)
qed

lemma BITMAP_TEST_SET_range:
  assumes "b \<le> page_limit" "j < page_limit"
  shows "BITMAP_TEST (fold (\<lambda>k bm. BITMAP_SET bm k) [a..<b] bm) j \<longleftrightarrow> BITMAP_TEST bm j \<or> (a \<le> j \<and> j < b)"
  using assms(1)
proof (induction "b - a" arbitrary: b)
  case 0
  then show ?case by auto
next
  case (Suc n)
  then obtain b' where b: "b = Suc b'" "a \<le> b'" by (cases b) auto
  with Suc have "BITMAP_TEST (fold (\<lambda>k bm. BITMAP_SET bm k) [a..<b'] bm) j \<longleftrightarrow> BITMAP_TEST bm j \<or> (a \<le> j \<and> j < b')"
    by auto
  then show ?case
    using b Suc.prems assms(2) by (auto simp: BITMAP_TEST_SET)
qed


section \<open>Invariants and step lemmas\<close>

text \<open>
  \<open>pmm_ok\<close>: page numbers fit the bitmap index and page 0, whose address is also the
  failure value, is never free. \<open>pmm_count c\<close>: the counter \<^verbatim>\<open>g_pmm_used_pages\<close> is the
  number of set bits up to and including \<^verbatim>\<open>g_pmm_highest_page\<close>, less a constant \<open>c\<close>
  that records the state of the last bit when the counter was initialised.
\<close>

definition pmm_ok :: "pmm \<Rightarrow> bool" where
  "pmm_ok s \<longleftrightarrow> highest_page s < page_limit \<and> page_used s 0"

definition used_set :: "pmm \<Rightarrow> nat set" where
  "used_set s = {i. i \<le> highest_page s \<and> page_used s i}"

definition pmm_count :: "u64 \<Rightarrow> pmm \<Rightarrow> bool" where
  "pmm_count c s \<longleftrightarrow> highest_page s < page_limit \<and> used_pages s + c = of_nat (card (used_set s))"

lemma finite_used_set [simp]: "finite (used_set s)"
  by (rule finite_subset [of _ "{..highest_page s}"]) (auto simp: used_set_def)

lemma page_used_set:
  "i < page_limit \<Longrightarrow> j < page_limit \<Longrightarrow>
   page_used (s\<lparr>bitmap := BITMAP_SET (bitmap s) i, used_pages := u\<rparr>) j \<longleftrightarrow> page_used s j \<or> j = i"
  by (simp add: page_used_def BITMAP_TEST_SET)

lemma page_used_clear:
  "i < page_limit \<Longrightarrow> j < page_limit \<Longrightarrow>
   page_used (s\<lparr>bitmap := BITMAP_CLEAR (bitmap s) i, used_pages := u\<rparr>) j \<longleftrightarrow> page_used s j \<and> j \<noteq> i"
  by (simp add: page_used_def BITMAP_TEST_CLEAR)

lemma pmm_count_set:
  assumes "pmm_count c s" "i \<le> highest_page s" "\<not> page_used s i"
  shows "pmm_count c (s\<lparr>bitmap := BITMAP_SET (bitmap s) i, used_pages := used_pages s + 1\<rparr>)"
    (is "pmm_count c ?t")
proof -
  have lim: "highest_page s < page_limit" and n: "used_pages s + c = of_nat (card (used_set s))"
    using assms(1) by (auto simp: pmm_count_def)
  have "used_set ?t = insert i (used_set s)"
    using assms(2) lim by (auto simp: used_set_def page_used_set)
  then have "card (used_set ?t) = Suc (card (used_set s))"
    using assms(3) by (simp add: used_set_def)
  then show ?thesis using lim n by (simp add: pmm_count_def algebra_simps)
qed

lemma pmm_count_clear:
  assumes "pmm_count c s" "i \<le> highest_page s" "page_used s i"
  shows "pmm_count c (s\<lparr>bitmap := BITMAP_CLEAR (bitmap s) i, used_pages := used_pages s - 1\<rparr>)"
    (is "pmm_count c ?t")
proof -
  have lim: "highest_page s < page_limit" and n: "used_pages s + c = of_nat (card (used_set s))"
    using assms(1) by (auto simp: pmm_count_def)
  have "insert i (used_set ?t) = used_set s" and "i \<notin> used_set ?t"
    using assms(2,3) lim by (auto simp: used_set_def page_used_clear)
  then have "card (used_set s) = Suc (card (used_set ?t))"
    by (metis card_insert_disjoint finite_used_set)
  then show ?thesis using lim n by (simp add: pmm_count_def algebra_simps)
qed

lemma mark_page_highest [simp]: "highest_page (mark_page i s) = highest_page s"
  by (simp add: mark_page_def)

lemma unmark_page_highest [simp]: "highest_page (unmark_page i s) = highest_page s"
  by (simp add: unmark_page_def)

lemma mark_page_pinned [simp]: "pinned (mark_page i s) = pinned s"
  by (simp add: mark_page_def)

lemma unmark_page_pinned [simp]: "pinned (unmark_page i s) = pinned s"
  by (simp add: unmark_page_def)

lemma mark_page_count: "pmm_count c s \<Longrightarrow> i \<le> highest_page s \<Longrightarrow> pmm_count c (mark_page i s)"
  using pmm_count_set by (auto simp: mark_page_def page_used_def)

lemma unmark_page_count: "pmm_count c s \<Longrightarrow> i \<le> highest_page s \<Longrightarrow> pmm_count c (unmark_page i s)"
  using pmm_count_clear by (auto simp: unmark_page_def page_used_def)

lemma mark_page_used:
  "i < page_limit \<Longrightarrow> j < page_limit \<Longrightarrow> page_used (mark_page i s) j \<longleftrightarrow> page_used s j \<or> j = i"
  by (auto simp: mark_page_def page_used_def BITMAP_TEST_SET)

lemma unmark_page_used:
  "i < page_limit \<Longrightarrow> j < page_limit \<Longrightarrow> page_used (unmark_page i s) j \<longleftrightarrow> page_used s j \<and> j \<noteq> i"
  by (auto simp: unmark_page_def page_used_def BITMAP_TEST_CLEAR)

lemma fold_pages_inv:
  assumes "\<And>i t. P t \<Longrightarrow> i \<in> set is \<Longrightarrow> P (f i t)" "P s"
  shows "P (fold f is s)"
  using assms by (induction "is" arbitrary: s) auto

lemma fold_mark_used:
  assumes "b \<le> page_limit" "j < page_limit"
  shows "page_used (fold mark_page [a..<b] s) j \<longleftrightarrow> page_used s j \<or> (a \<le> j \<and> j < b)"
  using assms(1)
proof (induction b)
  case 0
  then show ?case by simp
next
  case (Suc b)
  then show ?case using assms(2) by (cases "a \<le> b") (auto simp: mark_page_used)
qed

lemma fold_unmark_used:
  assumes "b \<le> page_limit" "j < page_limit"
  shows "page_used (fold unmark_page [a..<b] s) j \<longleftrightarrow> page_used s j \<and> \<not> (a \<le> j \<and> j < b)"
  using assms(1)
proof (induction b)
  case 0
  then show ?case by simp
next
  case (Suc b)
  then show ?case using assms(2) by (cases "a \<le> b") (auto simp: unmark_page_used)
qed

lemma fold_mark_highest [simp]: "highest_page (fold mark_page is s) = highest_page s"
  by (induction "is" arbitrary: s) auto

lemma fold_unmark_highest [simp]: "highest_page (fold unmark_page is s) = highest_page s"
  by (induction "is" arbitrary: s) auto

lemma PmmMarkRegionUsed_highest [simp]: "highest_page (PmmMarkRegionUsed b l s) = highest_page s"
  by (simp add: PmmMarkRegionUsed_def Let_def)

lemma release_desc_highest [simp]: "highest_page (release_desc m p s) = highest_page s"
  by (simp add: release_desc_def Let_def)

lemma PmmMarkRegionUsed_count: "pmm_count c s \<Longrightarrow> pmm_count c (PmmMarkRegionUsed b l s)"
  unfolding PmmMarkRegionUsed_def Let_def
  by (rule conjunct1 [OF fold_pages_inv [where P = "\<lambda>t. pmm_count c t \<and> highest_page t = highest_page s"]])
     (auto intro: mark_page_count)

lemma release_desc_count: "pmm_count c s \<Longrightarrow> pmm_count c (release_desc m p s)"
proof (cases "usable_type (desc_type m p)")
  case True
  moreover assume "pmm_count c s"
  ultimately show ?thesis
    unfolding release_desc_def Let_def
    by (simp del: fold_unmark_highest)
       (rule conjunct1 [OF fold_pages_inv [where P = "\<lambda>t. pmm_count c t \<and> highest_page t = highest_page s"]],
        auto intro: unmark_page_count)
qed (simp add: release_desc_def)

lemma PmmMarkRegionUsed_mono:
  assumes "highest_page s < page_limit" "j < page_limit" "page_used s j"
  shows "page_used (PmmMarkRegionUsed b l s) j"
  using assms unfolding PmmMarkRegionUsed_def Let_def by (subst fold_mark_used) auto


section \<open>Initialisation\<close>

definition in_region :: "u64 \<Rightarrow> u64 \<Rightarrow> nat \<Rightarrow> bool" where
  "in_region base len i \<longleftrightarrow>
     unat (base div PAGE_SIZE) \<le> i \<and> i < unat ((base + len + PAGE_SIZE - 1) div PAGE_SIZE)"

definition desc_covers :: "buf \<Rightarrow> nat \<Rightarrow> nat \<Rightarrow> bool" where
  "desc_covers m p i \<longleftrightarrow> usable_type (desc_type m p) \<and>
     unat (desc_start m p div PAGE_SIZE) \<le> i \<and> i < unat (desc_start m p div PAGE_SIZE + desc_pages m p)"

lemma PmmMarkRegionUsed_used:
  assumes "highest_page s < page_limit" "j < page_limit"
  shows "page_used (PmmMarkRegionUsed b l s) j \<longleftrightarrow>
           page_used s j \<or> (in_region b l j \<and> j \<le> highest_page s)"
  using assms unfolding PmmMarkRegionUsed_def in_region_def Let_def
  by (subst fold_mark_used) auto

lemma release_desc_used:
  assumes "highest_page s < page_limit" "j < page_limit"
  shows "page_used (release_desc m p s) j \<longleftrightarrow>
           page_used s j \<and> \<not> (desc_covers m p j \<and> j \<le> highest_page s)"
proof (cases "usable_type (desc_type m p)")
  case True
  then show ?thesis
    using assms unfolding release_desc_def desc_covers_def Let_def
    by (simp add: fold_unmark_used) auto
next
  case False
  then show ?thesis by (simp add: release_desc_def desc_covers_def)
qed

lemma fold_release_highest [simp]: "highest_page (fold (release_desc m) ps s) = highest_page s"
  by (induction ps arbitrary: s) auto

lemma fold_release_count: "pmm_count c s \<Longrightarrow> pmm_count c (fold (release_desc m) ps s)"
  by (induction ps arbitrary: s) (auto intro: release_desc_count)

lemma fold_release_used:
  assumes "highest_page s < page_limit" "j < page_limit" "j \<le> highest_page s"
  shows "page_used (fold (release_desc m) ps s) j \<longleftrightarrow>
           page_used s j \<and> (\<forall>p\<in>set ps. \<not> desc_covers m p j)"
  using assms by (induction ps arbitrary: s) (auto simp: release_desc_used)

text \<open>The state after the bitmap has been filled with ones.\<close>

definition pmm_filled :: "u64 \<Rightarrow> u64 \<Rightarrow> pmm \<Rightarrow> pmm" where
  "pmm_filled tot max_addr s0 =
     (let highest = unat (max_addr div PAGE_SIZE);
          size = (of_nat ((highest + 63) div 64) :: u32)
      in s0\<lparr>total_pages := tot, used_pages := of_nat highest,
            highest_page := highest, bitmap_size := size,
            bitmap := (\<lambda>i. if i < unat size then - 1 else bitmap s0 i)\<rparr>)"

lemma highest_below_limit: "max_addr < 2 ^ 50 \<Longrightarrow> unat ((max_addr :: u64) div PAGE_SIZE) < page_limit"
proof -
  assume "max_addr < 2 ^ 50"
  then have "unat max_addr < 2 ^ 50" by (simp add: word_less_nat_alt)
  then show ?thesis by (simp add: unat_div PAGE_SIZE_def)
qed

lemma pmm_size_word:
  assumes "h < page_limit"
  shows "unat (of_nat ((h + 63) div 64) :: u32) = (h + 63) div 64 \<or> h \<ge> page_limit - 63"
proof -
  have "(h + 63) div 64 < 2 ^ 32" if "h < page_limit - 63" using that by simp
  then show ?thesis by (auto simp: unat_of_nat take_bit_nat_eq_self)
qed

lemma pmm_filled_count:
  assumes "max_addr < 2 ^ 50" "unat (bitmap_size (pmm_filled t max_addr s0)) \<le> PMM_BITMAP_SIZE_MAX"
    and "highest_page (pmm_filled t max_addr s0) < page_limit - 63"
  shows "\<exists>c\<in>{0, 1}. pmm_count c (pmm_filled t max_addr s0)"
    and "i < highest_page (pmm_filled t max_addr s0) \<Longrightarrow> page_used (pmm_filled t max_addr s0) i"
    and "i < highest_page (pmm_filled t max_addr s0) \<Longrightarrow> BITMAP_INDEX i < PMM_BITMAP_SIZE_MAX"
proof -
  let ?s = "pmm_filled t max_addr s0" and ?h = "unat (max_addr div PAGE_SIZE)"
  have h: "highest_page ?s = ?h" and lim: "?h < page_limit - 63"
    using assms(3) by (simp_all add: pmm_filled_def Let_def)
  have sz: "unat (of_nat ((?h + 63) div 64) :: u32) = (?h + 63) div 64"
    using pmm_size_word [of ?h] lim by auto
  then have szb: "(?h + 63) div 64 \<le> PMM_BITMAP_SIZE_MAX"
    using assms(2) by (simp add: pmm_filled_def Let_def)
  have idx: "BITMAP_INDEX j < (?h + 63) div 64" if "j < ?h" for j
  proof -
    have "j div 64 < (?h + 63) div 64" using that by (simp add: div_less_iff_less_mult less_Suc_eq_le) 
    then show ?thesis using that lim by (simp add: BITMAP_INDEX_small)
  qed
  have used: "page_used ?s j" if "j < ?h" for j
    using idx [OF that] sz
    by (simp add: page_used_def BITMAP_TEST_bit pmm_filled_def Let_def)
  have set: "used_set ?s = {..<?h} \<union> (if page_used ?s ?h then {?h} else {})"
    using used by (auto simp: used_set_def h le_less)
  have "card (used_set ?s) = ?h + (if page_used ?s ?h then 1 else 0)"
    unfolding set by simp
  then have "pmm_count (if page_used ?s ?h then 1 else 0) ?s"
    using lim h by (simp add: pmm_count_def) (simp add: pmm_filled_def Let_def)
  then show "\<exists>c\<in>{0, 1}. pmm_count c ?s" by (auto split: if_splits)
  show "i < highest_page ?s \<Longrightarrow> page_used ?s i" using used h by simp
  show "i < highest_page ?s \<Longrightarrow> BITMAP_INDEX i < PMM_BITMAP_SIZE_MAX"
    using idx [of i] szb h by simp
qed

lemma PmmInit_stages:
  assumes "PmmInit m boot mm ms es n s0 = Some s"
  defines "ps \<equiv> map (\<lambda>i. mm + i * es) [0..<n]"
  defines "f \<equiv> pmm_filled (snd (fold (scan_desc m) ps (0, 0))) (fst (fold (scan_desc m) ps (0, 0))) s0"
  shows "s = mark_page 0 (PmmMarkRegionUsed (fb_base boot) (fb_size boot)
               (PmmMarkRegionUsed (of_nat mm) ms
                 (PmmMarkRegionUsed (kernel_image_base boot) (kernel_image_size boot)
                   (fold (release_desc m) ps f))))"
    and "unat (bitmap_size f) \<le> PMM_BITMAP_SIZE_MAX"
    and "highest_page f = unat (fst (fold (scan_desc m) ps (0, 0)) div PAGE_SIZE)"
  using assms(1) unfolding PmmInit_def f_def ps_def
  by (auto simp: Let_def pmm_filled_def case_prod_unfold split: if_splits)


lemma highest_below_2_37: "max_addr < 2 ^ 49 \<Longrightarrow> unat ((max_addr :: u64) div PAGE_SIZE) < 2 ^ 37"
proof -
  assume "max_addr < 2 ^ 49"
  then have "unat max_addr < 2 ^ 49" by (simp add: word_less_nat_alt)
  then show ?thesis by (simp add: unat_div PAGE_SIZE_def)
qed

text \<open>
  After \<^verbatim>\<open>PmmInit\<close> (for memory maps that end below \<open>2 ^ 49\<close>) every bitmap index an
  allocation can touch lies inside the static array; the used-page counter agrees with
  the bitmap up to a constant 0 or 1; a page below the highest page is free exactly when
  it lies in a usable descriptor of the firmware map, is not page 0, and lies in none of
  the kernel image, the memory map itself and the framebuffer.
\<close>

theorem PmmInit_correct:
  assumes "PmmInit m boot mm ms es n s0 = Some s"
    and "fst (fold (scan_desc m) (map (\<lambda>i. mm + i * es) [0..<n]) (0, 0)) < 2 ^ 49"
  shows "(\<forall>i<highest_page s. BITMAP_INDEX i < PMM_BITMAP_SIZE_MAX)
    \<and> (\<exists>c\<in>{0, 1}. pmm_count c s) \<and> pmm_ok s
    \<and> (\<forall>i<highest_page s. \<not> page_used s i \<longleftrightarrow>
         i \<noteq> 0 \<and> (\<exists>k<n. desc_covers m (mm + k * es) i)
         \<and> \<not> in_region (kernel_image_base boot) (kernel_image_size boot) i
         \<and> \<not> in_region (of_nat mm) ms i \<and> \<not> in_region (fb_base boot) (fb_size boot) i)"
proof -
  let ?ps = "map (\<lambda>i. mm + i * es) [0..<n]"
  let ?acc = "fold (scan_desc m) ?ps (0, 0)"
  let ?f = "pmm_filled (snd ?acc) (fst ?acc) s0"
  note st = PmmInit_stages [OF assms(1)]
  have h: "highest_page s = highest_page ?f" by (simp add: st(1))
  have lim: "highest_page ?f < 2 ^ 37" using highest_below_2_37 [OF assms(2)] st(3) by simp
  then have lim': "highest_page ?f < page_limit - 63" "highest_page ?f < page_limit" by simp_all
  have "fst ?acc < 2 ^ 50"
    using assms(2) by (rule order_less_trans) (simp add: word_less_nat_alt)
  note filled = pmm_filled_count [OF this st(2) lim'(1)]
  have idx: "\<forall>i<highest_page s. BITMAP_INDEX i < PMM_BITMAP_SIZE_MAX"
    using filled(3) by (simp add: h)
  obtain c where c: "c \<in> {0, 1}" "pmm_count c ?f" using filled(1) by blast
  have "pmm_count c s"
    using c(2) unfolding st(1)
    by (intro mark_page_count PmmMarkRegionUsed_count fold_release_count) auto
  moreover have "pmm_ok s"
    unfolding pmm_ok_def using lim' by (simp add: st(1) mark_page_used)
  moreover have "\<not> page_used s i \<longleftrightarrow>
         i \<noteq> 0 \<and> (\<exists>k<n. desc_covers m (mm + k * es) i)
         \<and> \<not> in_region (kernel_image_base boot) (kernel_image_size boot) i
         \<and> \<not> in_region (of_nat mm) ms i \<and> \<not> in_region (fb_base boot) (fb_size boot) i"
    if "i < highest_page s" for i
  proof -
    have i: "i < page_limit" "i \<le> highest_page ?f" using that h lim'(2) by auto
    show ?thesis
      using filled(2) [of i] that i lim'(2) h
      by (auto simp: st(1) mark_page_used PmmMarkRegionUsed_used fold_release_used)
  qed
  ultimately show ?thesis using idx c(1) by blast
qed

text \<open>A firmware map of one usable descriptor of four pages at address 0.\<close>

definition map_small :: buf where
  "map_small = put32 (put32 (\<lambda>_. 0) 0 7) 24 4"

lemma map_small_scan: "fold (scan_desc map_small) (map (\<lambda>i. 0 + i * 40) [0..<1]) (0, 0) = (0x4000, 4)"
proof -
  have z: "le16 (\<lambda>_. 0) i = 0" for i by (simp add: le16_def)
  have z32: "le32 (\<lambda>_. 0) i = 0" for i by (simp add: le32_def z)
  show ?thesis
    by (simp add: scan_desc_def desc_type_def desc_start_def desc_pages_def map_small_def le64_def
        le32_put32_other z32 usable_type_def PAGE_SIZE_def)
qed

definition boot_small :: boot_info where
  "boot_small = \<lparr>kernel_image_base = 0x1000, kernel_image_size = 10, fb_base = 0, fb_size = 0\<rparr>"

lemma PmmInit_correct_witness:
  "\<forall>s0. \<exists>s. PmmInit map_small boot_small 0 40 40 1 s0 = Some s \<and> pmm_ok s"
proof
  fix s0
  obtain s where s: "PmmInit map_small boot_small 0 40 40 1 s0 = Some s"
    using map_small_scan by (simp add: PmmInit_def PMM_BITMAP_SIZE_MAX_def PAGE_SIZE_def Let_def)
  have "fst (fold (scan_desc map_small) (map (\<lambda>i. 0 + i * 40) [0..<1]) (0, 0)) < 2 ^ 49"
    unfolding map_small_scan by simp
  from PmmInit_correct [OF s this] s
  show "\<exists>s. PmmInit map_small boot_small 0 40 40 1 s0 = Some s \<and> pmm_ok s" by blast
qed

section \<open>Allocation and release\<close>

lemma unat_page_addr:
  assumes "i < page_limit"
  shows "unat (of_nat i * PAGE_SIZE) = i * 4096"
proof -
  have "i * 4096 < 2 ^ 64" using assms by simp
  then show ?thesis by (simp add: PAGE_SIZE_def unat_word_ariths unat_of_nat)
qed

lemma page_addr_div [simp]: "i < page_limit \<Longrightarrow> unat ((of_nat i * PAGE_SIZE) div PAGE_SIZE) = i"
  by (simp add: unat_div unat_page_addr) (simp add: PAGE_SIZE_def)

lemma page_addr_zero: "i < page_limit \<Longrightarrow> of_nat i * PAGE_SIZE = 0 \<longleftrightarrow> i = 0"
  using unat_page_addr [of i] by (metis unat_eq_zero mult_is_0 zero_neq_numeral)

lemma PmmAllocPage_Some:
  assumes "pmm_ok s" "fst (PmmAllocPage s) \<noteq> 0"
  obtains i where "i < highest_page s" "\<not> page_used s i" "\<And>j. j < i \<Longrightarrow> page_used s j" "i \<noteq> 0"
    "PmmAllocPage s = (of_nat i * PAGE_SIZE,
       s\<lparr>bitmap := BITMAP_SET (bitmap s) i, used_pages := used_pages s + 1\<rparr>)"
proof -
  from assms(2) obtain i where i: "find (\<lambda>i. \<not> BITMAP_TEST (bitmap s) i) [0..<highest_page s] = Some i"
    by (auto simp: PmmAllocPage_def split: option.splits)
  then have "i < highest_page s" "\<not> page_used s i" "\<And>j. j < i \<Longrightarrow> page_used s j"
    by (auto simp: find_upt_Some_iff page_used_def)
  moreover have "i \<noteq> 0" using assms(1) \<open>\<not> page_used s i\<close> by (metis pmm_ok_def)
  ultimately show ?thesis using that i by (simp add: PmmAllocPage_def)
qed

lemma PmmAllocPage_None:
  assumes "pmm_ok s" "fst (PmmAllocPage s) = 0"
  shows "PmmAllocPage s = (0, s) \<and> (\<forall>i<highest_page s. page_used s i)"
proof (cases "find (\<lambda>i. \<not> BITMAP_TEST (bitmap s) i) [0..<highest_page s]")
  case None
  then have "\<forall>i<highest_page s. page_used s i" by (simp add: find_upt_None_iff page_used_def)
  moreover have "PmmAllocPage s = (0, s)" using None by (simp add: PmmAllocPage_def)
  ultimately show ?thesis by blast
next
  case (Some i)
  then have i: "i < highest_page s" "\<not> page_used s i" by (auto simp: find_upt_Some_iff page_used_def)
  then have "i \<noteq> 0" using assms(1) by (metis pmm_ok_def)
  then have "of_nat i * PAGE_SIZE \<noteq> 0" using i(1) assms(1) page_addr_zero [of i] by (simp add: pmm_ok_def)
  with Some assms(2) show ?thesis by (simp add: PmmAllocPage_def)
qed


definition free_range :: "(nat \<Rightarrow> u64) \<Rightarrow> nat \<Rightarrow> nat \<Rightarrow> bool" where
  "free_range bm a n \<longleftrightarrow> (\<forall>j. a \<le> j \<and> j < a + n \<longrightarrow> \<not> BITMAP_TEST bm j)"

text \<open>
  The scan, from index \<open>i\<close> with a current run of \<open>found\<close> free pages: it returns the
  lowest run of \<open>count\<close> free pages, and fails only if there is none.
\<close>

lemma free_run_correct:
  assumes "found \<le> i" "found < count" "found > 0 \<Longrightarrow> start = i - found"
    and "free_range bm (i - found) found"
  shows "case free_run bm count [i..<h] found start of
      Some r \<Rightarrow> r + count \<le> h \<and> free_range bm r count
        \<and> (\<forall>a. i - found \<le> a \<and> a < r \<longrightarrow> \<not> free_range bm a count)
    | None \<Rightarrow> (\<forall>a. i - found \<le> a \<and> a + count \<le> h \<longrightarrow> \<not> free_range bm a count)"
  using assms
proof (induction "h - i" arbitrary: i found start)
  case 0
  then show ?case by auto
next
  case (Suc k)
  then have i: "i < h" "[i..<h] = i # [Suc i..<h]" by (simp_all add: upt_conv_Cons)
  have k: "k = h - Suc i" using Suc.hyps(2) by simp
  show ?case
  proof (cases "BITMAP_TEST bm i")
    case True
    then have blocked: "\<not> free_range bm a count" if "i - found \<le> a" "a \<le> i" for a
      using that Suc.prems(1,2) unfolding free_range_def by (auto intro!: exI [of _ i])
    have "free_range bm (Suc i - 0) 0" by (auto simp: free_range_def)
    from Suc.hyps(1) [OF k _ _ _ this, of start] Suc.prems(2)
    have IH: "case free_run bm count [Suc i..<h] 0 start of
      Some r \<Rightarrow> r + count \<le> h \<and> free_range bm r count
        \<and> (\<forall>a. Suc i \<le> a \<and> a < r \<longrightarrow> \<not> free_range bm a count)
    | None \<Rightarrow> (\<forall>a. Suc i \<le> a \<and> a + count \<le> h \<longrightarrow> \<not> free_range bm a count)"
      by (simp split: option.splits)
    have eq: "free_run bm count [i..<h] found start = free_run bm count [Suc i..<h] 0 start"
      using i True by simp
    from IH blocked show ?thesis unfolding eq
      by (simp split: option.splits) (metis not_less_eq_eq)+
  next
    case False
    define st where "st = (if found = 0 then i else start)"
    have st: "st = i - found" using Suc.prems(3) by (auto simp: st_def)
    have range: "free_range bm (i - found) (found + 1)"
      using Suc.prems(1,4) False unfolding free_range_def
      by (metis add.assoc le_add_diff_inverse2 less_add_one less_antisym linorder_not_less Suc_eq_plus1 less_Suc_eq)
    show ?thesis
    proof (cases "found + 1 = count")
      case True
      then have "free_run bm count [i..<h] found start = Some st"
        using i False by (simp add: st_def Let_def)
      then show ?thesis using st True range Suc.prems(1) i(1) by auto
    next
      case more: False
      have "free_range bm (Suc i - (found + 1)) (found + 1)" using range by simp
      from Suc.hyps(1) [OF k _ _ _ this, of st] Suc.prems(1,2) more st
      have IH: "case free_run bm count [Suc i..<h] (found + 1) st of
        Some r \<Rightarrow> r + count \<le> h \<and> free_range bm r count
          \<and> (\<forall>a. i - found \<le> a \<and> a < r \<longrightarrow> \<not> free_range bm a count)
      | None \<Rightarrow> (\<forall>a. i - found \<le> a \<and> a + count \<le> h \<longrightarrow> \<not> free_range bm a count)"
        by (simp split: option.splits)
      have "free_run bm count [i..<h] found start = free_run bm count [Suc i..<h] (found + 1) st"
        using i False more by (simp add: st_def Let_def)
      with IH show ?thesis by simp
    qed
  qed
qed

lemma free_run_from_0:
  assumes "0 < count"
  shows "case free_run bm count [0..<h] 0 0 of
      Some r \<Rightarrow> r + count \<le> h \<and> free_range bm r count \<and> (\<forall>a<r. \<not> free_range bm a count)
    | None \<Rightarrow> (\<forall>a. a + count \<le> h \<longrightarrow> \<not> free_range bm a count)"
  using free_run_correct [of 0 0 count 0 bm h] assms by (simp add: free_range_def split: option.splits)

text \<open>One contract for both allocation functions.\<close>

definition alloc_result :: "nat \<Rightarrow> pmm \<Rightarrow> u64 \<Rightarrow> pmm \<Rightarrow> bool" where
  "alloc_result n s a s' \<longleftrightarrow>
     (if a = 0 then s' = s \<and> (\<forall>b. b + n \<le> highest_page s \<longrightarrow> \<not> free_range (bitmap s) b n)
      else (\<exists>p. a = of_nat p * PAGE_SIZE \<and> 0 < p \<and> p + n \<le> highest_page s
        \<and> free_range (bitmap s) p n \<and> (\<forall>b<p. \<not> free_range (bitmap s) b n)
        \<and> s' = s\<lparr>bitmap := fold (\<lambda>j bm. BITMAP_SET bm j) [p..<p + n] (bitmap s),
                 used_pages := used_pages s + of_nat n\<rparr>))"

lemma free_range_1: "free_range bm a (Suc 0) \<longleftrightarrow> \<not> BITMAP_TEST bm a"
  unfolding free_range_def by (metis add_Suc_right add.right_neutral le_less_Suc_eq less_Suc_eq_le le_refl)

lemma PmmAllocPage_result:
  assumes "pmm_ok s"
  shows "alloc_result 1 s (fst (PmmAllocPage s)) (snd (PmmAllocPage s))"
proof (cases "fst (PmmAllocPage s) = 0")
  case True
  with PmmAllocPage_None [OF assms True] show ?thesis
    by (auto simp: alloc_result_def free_range_1 page_used_def)
next
  case False
  from PmmAllocPage_Some [OF assms False] obtain i where
    "i < highest_page s" "\<not> page_used s i" "\<And>j. j < i \<Longrightarrow> page_used s j" "i \<noteq> 0"
    "PmmAllocPage s = (of_nat i * PAGE_SIZE,
       s\<lparr>bitmap := BITMAP_SET (bitmap s) i, used_pages := used_pages s + 1\<rparr>)" by blast
  with False show ?thesis
    by (auto simp: alloc_result_def free_range_1 page_used_def intro!: exI [of _ i])
qed

lemma PmmAllocPages_result:
  assumes "pmm_ok s" "count \<noteq> 0"
  shows "alloc_result (unat count) s (fst (PmmAllocPages count s)) (snd (PmmAllocPages count s))"
proof (cases "count = 1")
  case True
  then show ?thesis using PmmAllocPage_result [OF assms(1)] by (simp add: PmmAllocPages_def)
next
  case False
  have pos: "0 < unat count" using assms(2) by (simp add: unat_gt_0)
  show ?thesis
  proof (cases "free_run (bitmap s) (unat count) [0..<highest_page s] 0 0")
    case None
    then show ?thesis
      using free_run_from_0 [OF pos, where bm = "bitmap s" and h = "highest_page s"] assms(2) False
      by (simp add: PmmAllocPages_def alloc_result_def)
  next
    case (Some p)
    then have p: "p + unat count \<le> highest_page s" "free_range (bitmap s) p (unat count)"
      "\<forall>b<p. \<not> free_range (bitmap s) b (unat count)"
      using free_run_from_0 [OF pos, where bm = "bitmap s" and h = "highest_page s"] by auto
    have "p \<noteq> 0"
      using p(2) pos assms(1) unfolding free_range_def pmm_ok_def page_used_def by auto
    moreover have "p < page_limit" using p(1) assms(1) by (simp add: pmm_ok_def)
    ultimately show ?thesis
      using p Some assms(2) False page_addr_zero [of p]
      by (auto simp: PmmAllocPages_def alloc_result_def intro!: exI [of _ p])
  qed
qed


section \<open>What the contract gives\<close>

definition page_no :: "u64 \<Rightarrow> nat" where
  "page_no a = unat (a div PAGE_SIZE)"

lemma page_no_addr [simp]: "p < page_limit \<Longrightarrow> page_no (of_nat p * PAGE_SIZE) = p"
  by (simp add: page_no_def)

lemma free_range_used: "free_range (bitmap s) p n \<longleftrightarrow> (\<forall>j. p \<le> j \<and> j < p + n \<longrightarrow> \<not> page_used s j)"
  by (simp add: free_range_def page_used_def)

lemma alloc_result_pages:
  assumes "pmm_ok s" "alloc_result n s a s'" "a \<noteq> 0"
  shows "0 < page_no a" "page_no a + n \<le> highest_page s" "a = of_nat (page_no a) * PAGE_SIZE"
    and "page_no a \<le> j \<Longrightarrow> j < page_no a + n \<Longrightarrow> \<not> page_used s j"
    and "j < page_limit \<Longrightarrow> page_used s' j \<longleftrightarrow> page_used s j \<or> (page_no a \<le> j \<and> j < page_no a + n)"
    and "highest_page s' = highest_page s" "pinned s' = pinned s" "total_pages s' = total_pages s"
proof -
  from assms(2,3) obtain p where p: "a = of_nat p * PAGE_SIZE" "0 < p" "p + n \<le> highest_page s"
    "free_range (bitmap s) p n"
    "s' = s\<lparr>bitmap := fold (\<lambda>j bm. BITMAP_SET bm j) [p..<p + n] (bitmap s),
            used_pages := used_pages s + of_nat n\<rparr>"
    by (auto simp: alloc_result_def)
  have lim: "p < page_limit" "p + n \<le> page_limit" using p(3) assms(1) by (auto simp: pmm_ok_def)
  then have pg: "page_no a = p" using p(1) by simp
  show "0 < page_no a" "page_no a + n \<le> highest_page s" "a = of_nat (page_no a) * PAGE_SIZE"
    using p pg by simp_all
  show "page_no a \<le> j \<Longrightarrow> j < page_no a + n \<Longrightarrow> \<not> page_used s j"
    using p(4) pg by (simp add: free_range_used)
  show "j < page_limit \<Longrightarrow> page_used s' j \<longleftrightarrow> page_used s j \<or> (page_no a \<le> j \<and> j < page_no a + n)"
    using pg lim(2) by (simp add: p(5) page_used_def BITMAP_TEST_SET_range)
  show "highest_page s' = highest_page s" "pinned s' = pinned s" "total_pages s' = total_pages s"
    by (simp_all add: p(5))
qed

lemma alloc_result_ok:
  assumes "pmm_ok s" "alloc_result n s a s'"
  shows "pmm_ok s'"
proof (cases "a = 0")
  case True
  then show ?thesis using assms by (simp add: alloc_result_def)
next
  case False
  note r = alloc_result_pages [OF assms False]
  show ?thesis using assms(1) r(5) [of 0] r(6) by (simp add: pmm_ok_def)
qed

lemma pmm_count_set_range:
  assumes "pmm_count c s" "b \<le> highest_page s" "\<And>j. a \<le> j \<Longrightarrow> j < b \<Longrightarrow> \<not> page_used s j"
  shows "pmm_count c (s\<lparr>bitmap := fold (\<lambda>j bm. BITMAP_SET bm j) [a..<b] (bitmap s),
                        used_pages := used_pages s + of_nat (b - a)\<rparr>)"
  using assms(2,3)
proof (induction b)
  case 0
  then show ?case using assms(1) by (simp add: pmm_count_def used_set_def page_used_def)
next
  case (Suc b)
  let ?t = "s\<lparr>bitmap := fold (\<lambda>j bm. BITMAP_SET bm j) [a..<b] (bitmap s),
              used_pages := used_pages s + of_nat (b - a)\<rparr>"
  show ?case
  proof (cases "a \<le> b")
    case True
    have lim: "highest_page s < page_limit" using assms(1) by (simp add: pmm_count_def)
    have IH: "pmm_count c ?t" using Suc by simp
    have "b < page_limit" using Suc.prems(1) lim by linarith
    then have "\<not> page_used ?t b"
      using Suc.prems(2) [of b] True by (simp add: page_used_def BITMAP_TEST_SET_range)
    from pmm_count_set [OF IH _ this] Suc.prems(1) True
    show ?thesis by (simp add: Suc_diff_le algebra_simps)
  next
    case False
    then show ?thesis using Suc by simp
  qed
qed

lemma alloc_result_count:
  assumes "pmm_ok s" "alloc_result n s a s'" "pmm_count c s"
  shows "pmm_count c s'"
proof (cases "a = 0")
  case True
  then show ?thesis using assms by (simp add: alloc_result_def)
next
  case False
  from assms(2) False obtain p where p: "p + n \<le> highest_page s"
    "free_range (bitmap s) p n"
    "s' = s\<lparr>bitmap := fold (\<lambda>j bm. BITMAP_SET bm j) [p..<p + n] (bitmap s),
            used_pages := used_pages s + of_nat n\<rparr>"
    by (auto simp: alloc_result_def)
  show ?thesis
    using pmm_count_set_range [OF assms(3) p(1), of p] p(2,3) by (simp add: free_range_used)
qed

section \<open>Release\<close>

lemma PmmFreePage_highest [simp]: "highest_page (PmmFreePage a s) = highest_page s"
  by (simp add: PmmFreePage_def Let_def)

lemma PmmFreePage_pinned [simp]: "pinned (PmmFreePage a s) = pinned s"
  by (simp add: PmmFreePage_def Let_def)

lemma PmmFreePage_used:
  assumes "highest_page s < page_limit" "j < page_limit"
  shows "page_used (PmmFreePage a s) j \<longleftrightarrow>
    page_used s j \<and> \<not> (j = page_no a \<and> a \<noteq> 0 \<and> page_no a \<le> highest_page s \<and> \<not> page_pinned s j)"
proof -
  have "page_no a \<le> highest_page s \<Longrightarrow> page_no a < page_limit" using assms(1) by simp
  then show ?thesis
    using assms(2) page_used_clear [where i = "page_no a" and j = j and s = s]
    by (auto simp: PmmFreePage_def Let_def page_no_def page_used_def page_pinned_def)
qed

lemma PmmFreePage_count:
  assumes "pmm_count c s"
  shows "pmm_count c (PmmFreePage a s)"
  using assms pmm_count_clear [OF assms, of "page_no a"]
  by (auto simp: PmmFreePage_def Let_def page_no_def page_used_def)

lemma PmmFreePages_highest [simp]: "highest_page (PmmFreePages a n s) = highest_page s"
proof -
  have "highest_page (fold (\<lambda>i. PmmFreePage (a + of_nat i * PAGE_SIZE)) is s) = highest_page s" for "is"
    by (induction "is" arbitrary: s) auto
  then show ?thesis by (simp add: PmmFreePages_def)
qed

lemma page_no_add:
  assumes "a = of_nat p * PAGE_SIZE" "p + i < page_limit"
  shows "page_no (a + of_nat i * PAGE_SIZE) = p + i"
proof -
  have "a + of_nat i * PAGE_SIZE = of_nat (p + i) * PAGE_SIZE"
    using assms(1) by (simp add: distrib_right)
  then show ?thesis using assms(2) by (simp only: page_no_addr)
qed

lemma PmmFreePages_used:
  assumes "highest_page s < page_limit" "j < page_limit"
    and "a = of_nat p * PAGE_SIZE" "p + unat n \<le> highest_page s" "0 < p"
  shows "page_used (PmmFreePages a n s) j \<longleftrightarrow>
    page_used s j \<and> \<not> (p \<le> j \<and> j < p + unat n \<and> \<not> page_pinned s j)"
proof -
  let ?free = "\<lambda>m. fold (\<lambda>i. PmmFreePage (a + of_nat i * PAGE_SIZE)) [0..<m] s"
  have hp: "highest_page (?free m) = highest_page s \<and> pinned (?free m) = pinned s" for m
    by (induction m) auto
  have "page_used (?free m) j \<longleftrightarrow> page_used s j \<and> \<not> (p \<le> j \<and> j < p + m \<and> \<not> page_pinned s j)"
    if "m \<le> unat n" for m
    using that
  proof (induction m)
    case 0
    then show ?case by simp
  next
    case (Suc m)
    have lt: "p + m < page_limit" using Suc.prems assms(1,4) by linarith
    have pn: "page_no (a + of_nat m * PAGE_SIZE) = p + m" by (rule page_no_add [OF assms(3) lt])
    have nz: "a + of_nat m * PAGE_SIZE \<noteq> 0"
    proof
      assume "a + of_nat m * PAGE_SIZE = 0"
      then have "page_no (a + of_nat m * PAGE_SIZE) = 0" by (simp add: page_no_def)
      then show False using pn assms(5) by simp
    qed
    have hp': "highest_page (?free m) = highest_page s" "page_pinned (?free m) j = page_pinned s j"
      using hp by (simp_all add: page_pinned_def)
    have "page_used (?free (Suc m)) j \<longleftrightarrow> page_used (?free m) j \<and> \<not> (j = p + m \<and> \<not> page_pinned s j)"
      using PmmFreePage_used [of "?free m" j "a + of_nat m * PAGE_SIZE"] assms(1,2,4) Suc.prems nz
      by (simp add: hp' pn)
    then show ?case using Suc.IH Suc.prems by (cases "j = p + m") auto
  qed
  then show ?thesis by (simp add: PmmFreePages_def)
qed


section \<open>The page allocator interface\<close>

text \<open>
  What the heap, the page tables and the thread stacks rely on: an allocation returns
  pages nobody holds, and releasing a region touches no page outside it.
\<close>

locale page_allocator =
  fixes in_use :: "'s \<Rightarrow> nat \<Rightarrow> bool"
    and alloc :: "u64 \<Rightarrow> 's \<Rightarrow> u64 \<times> 's"
    and release :: "u64 \<Rightarrow> u64 \<Rightarrow> 's \<Rightarrow> 's"
    and ok :: "'s \<Rightarrow> bool"
    and limit :: "'s \<Rightarrow> nat"
  assumes alloc_ok: "ok s \<Longrightarrow> n \<noteq> 0 \<Longrightarrow> ok (snd (alloc n s)) \<and> limit (snd (alloc n s)) = limit s"
    and alloc_fails: "ok s \<Longrightarrow> n \<noteq> 0 \<Longrightarrow> fst (alloc n s) = 0 \<Longrightarrow> snd (alloc n s) = s"
    and alloc_addr: "ok s \<Longrightarrow> n \<noteq> 0 \<Longrightarrow> fst (alloc n s) \<noteq> 0 \<Longrightarrow>
      fst (alloc n s) = of_nat (page_no (fst (alloc n s))) * PAGE_SIZE
      \<and> 0 < page_no (fst (alloc n s)) \<and> page_no (fst (alloc n s)) + unat n \<le> limit s"
    and alloc_fresh: "ok s \<Longrightarrow> n \<noteq> 0 \<Longrightarrow> fst (alloc n s) \<noteq> 0 \<Longrightarrow>
      page_no (fst (alloc n s)) \<le> j \<Longrightarrow> j < page_no (fst (alloc n s)) + unat n \<Longrightarrow> \<not> in_use s j"
    and alloc_in_use: "ok s \<Longrightarrow> n \<noteq> 0 \<Longrightarrow> fst (alloc n s) \<noteq> 0 \<Longrightarrow> j < limit s \<Longrightarrow>
      in_use (snd (alloc n s)) j \<longleftrightarrow>
      in_use s j \<or> (page_no (fst (alloc n s)) \<le> j \<and> j < page_no (fst (alloc n s)) + unat n)"
    and release_ok: "ok s \<Longrightarrow> 0 < p \<Longrightarrow> p + unat n \<le> limit s \<Longrightarrow>
      ok (release (of_nat p * PAGE_SIZE) n s) \<and> limit (release (of_nat p * PAGE_SIZE) n s) = limit s"
    and release_outside: "ok s \<Longrightarrow> 0 < p \<Longrightarrow> p + unat n \<le> limit s \<Longrightarrow> j < limit s \<Longrightarrow>
      \<not> (p \<le> j \<and> j < p + unat n) \<Longrightarrow> in_use (release (of_nat p * PAGE_SIZE) n s) j \<longleftrightarrow> in_use s j"

text \<open>
  Clients hold regions \<open>(page, count)\<close>; an event asks for a region or gives back the
  \<open>k\<close>-th one held.
\<close>

datatype region_event = Acquire u64 | Return nat

fun region_step ::
  "(u64 \<Rightarrow> 's \<Rightarrow> u64 \<times> 's) \<Rightarrow> (u64 \<Rightarrow> u64 \<Rightarrow> 's \<Rightarrow> 's) \<Rightarrow> region_event
   \<Rightarrow> (nat \<times> u64) list \<times> 's \<Rightarrow> (nat \<times> u64) list \<times> 's" where
  "region_step al rel (Acquire n) (held, s) =
     (if n = 0 then (held, s)
      else let (a, s') = al n s in
        if a = 0 then (held, s') else ((page_no a, n) # held, s'))"
| "region_step al rel (Return k) (held, s) =
     (if k < length held
      then let (p, n) = held ! k in (take k held @ drop (Suc k) held, rel (of_nat p * PAGE_SIZE) n s)
      else (held, s))"

definition region_pages :: "nat \<times> u64 \<Rightarrow> nat set" where
  "region_pages r = {fst r ..< fst r + unat (snd r)}"

fun held_apart :: "(nat \<times> u64) list \<Rightarrow> bool" where
  held_apart_Nil: "held_apart [] \<longleftrightarrow> True"
| held_apart_Cons: "held_apart (r # held) \<longleftrightarrow>
     (\<forall>q\<in>set held. region_pages r \<inter> region_pages q = {}) \<and> held_apart held"

lemma held_apart_sub: "held_apart (xs @ r # ys) \<Longrightarrow>
  held_apart (xs @ ys) \<and> (\<forall>q\<in>set (xs @ ys). region_pages r \<inter> region_pages q = {})"
  by (induction xs) auto

context page_allocator
begin

definition held_inv :: "(nat \<times> u64) list \<times> 's \<Rightarrow> bool" where
  "held_inv c \<longleftrightarrow> ok (snd c) \<and> held_apart (fst c)
     \<and> (\<forall>r\<in>set (fst c). 0 < fst r \<and> fst r + unat (snd r) \<le> limit (snd c)
           \<and> (\<forall>j\<in>region_pages r. in_use (snd c) j))"

lemma held_inv_acquire:
  assumes "held_inv (held, s)"
  shows "held_inv (region_step alloc release (Acquire n) (held, s))"
proof -
  let ?a = "fst (alloc n s)" and ?s = "snd (alloc n s)"
  from assms have i: "ok s" "held_apart held"
    "\<And>r. r \<in> set held \<Longrightarrow> 0 < fst r \<and> fst r + unat (snd r) \<le> limit s \<and> (\<forall>j\<in>region_pages r. in_use s j)"
    by (auto simp: held_inv_def)
  show ?thesis
  proof (cases "n = 0 \<or> ?a = 0")
    case True
    then show ?thesis using assms alloc_fails [OF i(1)]
      by (auto simp: case_prod_unfold Let_def)
  next
    case False
    then have n: "n \<noteq> 0" "?a \<noteq> 0" by auto
    note al = alloc_addr [OF i(1) n] alloc_fresh [OF i(1) n] alloc_in_use [OF i(1) n] alloc_ok [OF i(1) n(1)]
    let ?r = "(page_no ?a, n)"
    have "region_pages ?r \<inter> region_pages q = {}" if "q \<in> set held" for q
      using i(3) [OF that] al(2) by (fastforce simp: region_pages_def)
    then have "held_apart (?r # held)" using i(2) by (simp add: held_apart_Cons)
    moreover have "in_use ?s j" if "j \<in> region_pages ?r" for j
      using that al(1,3) by (auto simp: region_pages_def)
    moreover have "in_use ?s j" if "q \<in> set held" "j \<in> region_pages q" for q j
      using that i(3) [OF that(1)] al(3) [of j] by (auto simp: region_pages_def)
    ultimately show ?thesis using n al(1,4) i(3)
      by (auto simp: held_inv_def case_prod_unfold Let_def)
  qed
qed

lemma held_inv_return:
  assumes "held_inv (held, s)"
  shows "held_inv (region_step alloc release (Return k) (held, s))"
proof (cases "k < length held")
  case False
  then show ?thesis using assms by simp
next
  case True
  obtain p n where pn: "held ! k = (p, n)" by fastforce
  let ?rest = "take k held @ drop (Suc k) held" and ?s = "release (of_nat p * PAGE_SIZE) n s"
  have split: "held = take k held @ (p, n) # drop (Suc k) held"
    using True pn by (metis id_take_nth_drop)
  from assms have i: "ok s" "held_apart held"
    "\<And>r. r \<in> set held \<Longrightarrow> 0 < fst r \<and> fst r + unat (snd r) \<le> limit s \<and> (\<forall>j\<in>region_pages r. in_use s j)"
    by (auto simp: held_inv_def)
  have pn': "0 < p" "p + unat n \<le> limit s" using i(3) [of "(p, n)"] True pn by (metis fst_conv nth_mem, metis fst_conv snd_conv nth_mem)
  have apart: "held_apart ?rest" "\<And>q. q \<in> set ?rest \<Longrightarrow> region_pages (p, n) \<inter> region_pages q = {}"
    using held_apart_sub [of "take k held" "(p, n)" "drop (Suc k) held"] i(2) split by auto
  have sub: "set ?rest \<subseteq> set held" by (auto dest: in_set_takeD in_set_dropD)
  have "in_use ?s j" if "q \<in> set ?rest" "j \<in> region_pages q" for q j
  proof -
    have q: "j < limit s" "in_use s j" using i(3) [of q] that sub by (auto simp: region_pages_def)
    have "\<not> (p \<le> j \<and> j < p + unat n)" using apart(2) [OF that(1)] that(2) by (auto simp: region_pages_def)
    then show ?thesis using release_outside [OF i(1) pn' q(1)] q(2) by simp
  qed
  then show ?thesis
    using True pn apart(1) release_ok [OF i(1) pn'] i(3) sub
    by (auto simp: held_inv_def Let_def)
qed

lemma held_inv_run:
  "held_inv c \<Longrightarrow> held_inv (fold (region_step alloc release) es c)"
proof (induction es arbitrary: c)
  case Nil
  then show ?case by simp
next
  case (Cons e es)
  obtain held s where c: "c = (held, s)" by fastforce
  have "held_inv (region_step alloc release e c)"
    using Cons.prems held_inv_acquire held_inv_return unfolding c by (cases e) blast+
  then show ?case using Cons.IH by simp
qed

end

lemma PmmFreePages_ok:
  assumes "pmm_ok s" "0 < p" "p + unat n \<le> highest_page s"
  shows "pmm_ok (PmmFreePages (of_nat p * PAGE_SIZE) n s)"
  using assms PmmFreePages_used [of s 0 "of_nat p * PAGE_SIZE" p n]
  by (simp add: pmm_ok_def)

interpretation pmm_alloc: page_allocator page_used PmmAllocPages PmmFreePages pmm_ok highest_page
proof
  fix s :: pmm and n :: u64 and j p :: nat
  assume ok: "pmm_ok s"
  have lim: "highest_page s < page_limit" using ok by (simp add: pmm_ok_def)
  {
    assume n: "n \<noteq> 0"
    note r = PmmAllocPages_result [OF ok n]
    show "pmm_ok (snd (PmmAllocPages n s)) \<and> highest_page (snd (PmmAllocPages n s)) = highest_page s"
    proof (cases "fst (PmmAllocPages n s) = 0")
      case True
      then show ?thesis using r ok by (simp add: alloc_result_def)
    next
      case False
      show ?thesis using alloc_result_ok [OF ok r] alloc_result_pages(6) [OF ok r False] by simp
    qed
    show "fst (PmmAllocPages n s) = 0 \<Longrightarrow> snd (PmmAllocPages n s) = s"
      using r by (simp add: alloc_result_def)
    assume nz: "fst (PmmAllocPages n s) \<noteq> 0"
    note q = alloc_result_pages [OF ok r nz]
    show "fst (PmmAllocPages n s) = of_nat (page_no (fst (PmmAllocPages n s))) * PAGE_SIZE
      \<and> 0 < page_no (fst (PmmAllocPages n s)) \<and> page_no (fst (PmmAllocPages n s)) + unat n \<le> highest_page s"
      using q(1-3) by blast
    show "page_no (fst (PmmAllocPages n s)) \<le> j \<Longrightarrow> j < page_no (fst (PmmAllocPages n s)) + unat n
      \<Longrightarrow> \<not> page_used s j" by (rule q(4))
    show "j < highest_page s \<Longrightarrow> page_used (snd (PmmAllocPages n s)) j \<longleftrightarrow>
      page_used s j \<or> (page_no (fst (PmmAllocPages n s)) \<le> j \<and> j < page_no (fst (PmmAllocPages n s)) + unat n)"
      using q(5) lim by simp
  }
  assume p: "0 < p" "p + unat n \<le> highest_page s"
  show "pmm_ok (PmmFreePages (of_nat p * PAGE_SIZE) n s) \<and>
    highest_page (PmmFreePages (of_nat p * PAGE_SIZE) n s) = highest_page s"
    using PmmFreePages_ok [OF ok p] by simp
  show "j < highest_page s \<Longrightarrow> \<not> (p \<le> j \<and> j < p + unat n) \<Longrightarrow>
    page_used (PmmFreePages (of_nat p * PAGE_SIZE) n s) j \<longleftrightarrow> page_used s j"
  proof -
    assume j: "j < highest_page s" "\<not> (p \<le> j \<and> j < p + unat n)"
    have "j < page_limit" using j(1) lim by linarith
    from PmmFreePages_used [OF lim this refl p(2,1)] j(2) show ?thesis by blast
  qed
qed

section \<open>Runs of operations\<close>

datatype pmm_op = OpAlloc u64 | OpFree u64 | OpFreeMany u64 u64 | OpPin u64

fun pmm_op_step :: "pmm_op \<Rightarrow> pmm \<Rightarrow> pmm" where
  "pmm_op_step (OpAlloc n) s = snd (PmmAllocPages n s)"
| "pmm_op_step (OpFree a) s = PmmFreePage a s"
| "pmm_op_step (OpFreeMany a n) s = PmmFreePages a n s"
| "pmm_op_step (OpPin a) s = PmmPinPage a s"

text \<open>What no operation may break: the counter's constant, and pinned pages in use.\<close>

definition pmm_kept :: "u64 \<Rightarrow> nat set \<Rightarrow> pmm \<Rightarrow> bool" where
  "pmm_kept c P s \<longleftrightarrow> pmm_count c s \<and> pmm_ok s
     \<and> (\<forall>j\<in>P. j < page_limit \<longrightarrow> page_used s j \<and> page_pinned s j)"

text \<open>Every caller in the kernel releases page-aligned addresses.\<close>

definition page_aligned :: "u64 \<Rightarrow> bool" where
  "page_aligned a \<longleftrightarrow> a mod PAGE_SIZE = 0"

fun pmm_op_aligned :: "pmm_op \<Rightarrow> bool" where
  "pmm_op_aligned (OpFree a) \<longleftrightarrow> page_aligned a"
| "pmm_op_aligned (OpFreeMany a n) \<longleftrightarrow> page_aligned a"
| "pmm_op_aligned _ \<longleftrightarrow> True"

lemma page_aligned_zero: "page_aligned a \<Longrightarrow> page_no a = 0 \<Longrightarrow> a = 0"
  unfolding page_aligned_def page_no_def
  by (metis add.right_neutral mult_zero_left unat_eq_zero word_mod_div_equality)

lemma page_aligned_unat: "page_aligned a \<longleftrightarrow> unat a mod 4096 = 0"
proof -
  have "unat (a mod 4096) = unat a mod 4096" by (simp add: unat_mod)
  then show ?thesis using unat_eq_zero [of "a mod 4096"] by (metis PAGE_SIZE_def page_aligned_def)
qed

lemma page_aligned_add:
  assumes "page_aligned a"
  shows "page_aligned (a + of_nat i * PAGE_SIZE)"
proof -
  have "a + of_nat i * PAGE_SIZE = of_nat (unat a + i * 4096)" by (simp add: PAGE_SIZE_def)
  then have "unat (a + of_nat i * PAGE_SIZE) = (unat a + i * 4096) mod 2 ^ 64"
    by (simp only: unat_of_nat) simp
  moreover have "(unat a + i * 4096) mod 2 ^ 64 mod 4096 = (unat a + i * 4096) mod 4096"
    by (rule mod_mod_cancel) simp
  ultimately show ?thesis using assms by (simp only: page_aligned_unat) presburger
qed

lemma PmmFreePage_kept:
  assumes "pmm_kept c P s" "page_aligned a"
  shows "pmm_kept c P (PmmFreePage a s)"
  using assms page_aligned_zero [OF assms(2)] PmmFreePage_count [of c s a] PmmFreePage_used [of s _ a]
  by (auto simp: pmm_kept_def pmm_ok_def page_pinned_def)

lemma PmmFreePages_kept:
  assumes "pmm_kept c P s" "page_aligned a"
  shows "pmm_kept c P (PmmFreePages a n s)"
  unfolding PmmFreePages_def
  by (rule fold_pages_inv [where P = "pmm_kept c P"]) (simp_all add: assms PmmFreePage_kept page_aligned_add)

lemma PmmAllocPages_kept:
  assumes "pmm_kept c P s"
  shows "pmm_kept c P (snd (PmmAllocPages n s))"
proof (cases "n = 0 \<or> fst (PmmAllocPages n s) = 0")
  case True
  then show ?thesis
    using assms pmm_alloc.alloc_fails [of s n] by (auto simp: pmm_kept_def PmmAllocPages_def)
next
  case False
  have ok: "pmm_ok s" using assms by (simp add: pmm_kept_def)
  from False have n: "n \<noteq> 0" "fst (PmmAllocPages n s) \<noteq> 0" by auto
  note r = PmmAllocPages_result [OF ok n(1)]
  show ?thesis
    using assms alloc_result_count [OF ok r] alloc_result_ok [OF ok r] alloc_result_pages(5,7) [OF ok r n(2)]
    by (simp add: pmm_kept_def page_pinned_def)
qed

lemma PmmPinPage_kept:
  assumes "pmm_kept c P s"
  shows "pmm_kept c P (PmmPinPage a s)"
proof (cases "a = 0 \<or> unat (a div PAGE_SIZE) \<ge> highest_page s")
  case True
  then show ?thesis using assms by (auto simp: PmmPinPage_def Let_def)
next
  case False
  let ?p = "unat (a div PAGE_SIZE)"
  have eq: "PmmPinPage a s = s\<lparr>pinned := BITMAP_SET (pinned s) ?p\<rparr>"
    using False by (simp add: PmmPinPage_def Let_def)
  have "?p < page_limit" using False assms by (simp add: pmm_kept_def pmm_ok_def)
  then show ?thesis using assms
    by (auto simp: eq pmm_kept_def pmm_count_def pmm_ok_def used_set_def page_used_def
        page_pinned_def BITMAP_TEST_SET)
qed

lemma pmm_op_step_kept: "pmm_kept c P s \<Longrightarrow> pmm_op_aligned op \<Longrightarrow> pmm_kept c P (pmm_op_step op s)"
  by (cases op) (simp_all add: PmmAllocPages_kept PmmFreePage_kept PmmFreePages_kept PmmPinPage_kept)

lemma pmm_count_exists:
  "highest_page s < page_limit \<Longrightarrow> pmm_count (of_nat (card (used_set s)) - used_pages s) s"
  by (simp add: pmm_count_def)

lemma pmm_count_unique: "pmm_count c s \<Longrightarrow> pmm_count c t \<Longrightarrow> used_set s = used_set t \<Longrightarrow>
  used_pages s = used_pages t"
  by (metis add_right_imp_eq pmm_count_def)

section \<open>Properties\<close>

text \<open>The small state of the witnesses: four pages, page 0 in use.\<close>

definition pmm_small :: pmm where
  "pmm_small = \<lparr>total_pages = 4, used_pages = 1, highest_page = 4, bitmap_size = 1,
     bitmap = (\<lambda>_. 1), pinned = (\<lambda>_. 1)\<rparr>"

lemma pmm_small_ok [simp]: "pmm_ok pmm_small"
  by (simp add: pmm_ok_def pmm_small_def page_used_def BITMAP_TEST_def BITMAP_OFFSET_def)

lemma pmm_small_alloc: "PmmAllocPages 2 pmm_small =
  (4096, pmm_small\<lparr>bitmap := BITMAP_SET (BITMAP_SET (\<lambda>_. 1) (Suc 0)) (Suc (Suc 0)), used_pages := 3\<rparr>)"
  by (simp add: PmmAllocPages_def pmm_small_def BITMAP_TEST_def BITMAP_OFFSET_def BITMAP_INDEX_def
      upt_rec PAGE_SIZE_def drop_bit_eq_div)

text \<open>
  C19: \<^verbatim>\<open>PmmAllocPages\<close> is first fit. A result 0 means that no run of \<open>count\<close> free pages
  exists below the highest page, and nothing changed; any other result is the address
  of the lowest such run, all its pages were free, and exactly these pages become used.
\<close>

theorem PmmAllocPages_first_fit:
  assumes "pmm_ok s" "count \<noteq> 0" "PmmAllocPages count s = (a, s')"
  shows "if a = 0 then s' = s \<and>
      (\<forall>b. b + unat count \<le> highest_page s \<longrightarrow> (\<exists>j. b \<le> j \<and> j < b + unat count \<and> page_used s j))
    else 0 < page_no a \<and> page_no a + unat count \<le> highest_page s \<and> a = of_nat (page_no a) * PAGE_SIZE
      \<and> (\<forall>j. page_no a \<le> j \<and> j < page_no a + unat count \<longrightarrow> \<not> page_used s j)
      \<and> (\<forall>b<page_no a. \<exists>j. b \<le> j \<and> j < b + unat count \<and> page_used s j)
      \<and> (\<forall>j<page_limit. page_used s' j \<longleftrightarrow> page_used s j \<or> (page_no a \<le> j \<and> j < page_no a + unat count))"
proof (cases "a = 0")
  case True
  then show ?thesis
    using PmmAllocPages_result [OF assms(1,2)] assms(3) by (simp add: alloc_result_def free_range_used)
next
  case False
  have r: "alloc_result (unat count) s a s'" using PmmAllocPages_result [OF assms(1,2)] assms(3) by simp
  then obtain p where p: "a = of_nat p * PAGE_SIZE" "p + unat count \<le> highest_page s"
    "\<forall>b<p. \<not> free_range (bitmap s) b (unat count)"
    using False by (auto simp: alloc_result_def)
  have "p < page_limit" using p(2) assms(1) by (simp add: pmm_ok_def)
  then have "\<forall>b<page_no a. \<exists>j. b \<le> j \<and> j < b + unat count \<and> page_used s j"
    using p(1,3) by (simp add: free_range_used)
  then show ?thesis
    using False alloc_result_pages(1-5) [OF assms(1) r False] by simp
qed

lemma PmmAllocPages_first_fit_witness:
  "page_used (snd (PmmAllocPages 2 pmm_small)) 1 \<and> page_no (fst (PmmAllocPages 2 pmm_small)) = 1"
proof -
  have c: "(2 :: u64) \<noteq> 0" by simp
  show ?thesis
    using PmmAllocPages_first_fit [OF pmm_small_ok c pmm_small_alloc]
    by (simp add: pmm_small_alloc page_no_def PAGE_SIZE_def)
qed

text \<open>
  Releasing with \<^verbatim>\<open>PmmFreePages\<close> what \<^verbatim>\<open>PmmAllocPages\<close> returned undoes the allocation
  when none of its pages is pinned: every page is as before and the counter has its old value.
\<close>

theorem PmmAllocPages_FreePages:
  assumes "pmm_ok s" "count \<noteq> 0" "PmmAllocPages count s = (a, s')" "a \<noteq> 0"
    and "\<forall>j. page_no a \<le> j \<and> j < page_no a + unat count \<longrightarrow> \<not> page_pinned s j"
  shows "(\<forall>j<page_limit. page_used (PmmFreePages a count s') j \<longleftrightarrow> page_used s j)
    \<and> used_pages (PmmFreePages a count s') = used_pages s"
proof -
  have r: "alloc_result (unat count) s a s'" using PmmAllocPages_result [OF assms(1,2)] assms(3) by simp
  note q = alloc_result_pages [OF assms(1) r assms(4)]
  have lim: "highest_page s < page_limit" using assms(1) by (simp add: pmm_ok_def)
  have p: "page_no a + unat count \<le> highest_page s'" "highest_page s' < page_limit" using q(2,6) lim by auto
  have pin: "page_pinned s' j = page_pinned s j" for j using q(7) by (simp add: page_pinned_def)
  have same: "page_used (PmmFreePages a count s') j \<longleftrightarrow> page_used s j" if "j < page_limit" for j
    using PmmFreePages_used [OF p(2) that q(3) p(1) q(1)] q(4,5) [of j] that assms(5) pin by auto
  let ?c = "of_nat (card (used_set s)) - used_pages s"
  have "pmm_count ?c (PmmFreePages a count s')"
    unfolding PmmFreePages_def using alloc_result_count [OF assms(1) r pmm_count_exists [OF lim]]
    by (rule fold_pages_inv [where P = "pmm_count ?c", rotated]) (rule PmmFreePage_count)
  moreover have "used_set (PmmFreePages a count s') = used_set s"
    using same lim q(6) by (auto simp: used_set_def)
  ultimately show ?thesis using same pmm_count_unique pmm_count_exists [OF lim] by blast
qed

lemma PmmAllocPages_FreePages_witness:
  "used_pages (PmmFreePages 4096 2 (snd (PmmAllocPages 2 pmm_small))) = 1"
proof -
  have c: "(2 :: u64) \<noteq> 0" "(4096 :: u64) \<noteq> 0" by simp_all
  have "\<not> page_pinned pmm_small 1" "\<not> page_pinned pmm_small 2"
    by (simp_all add: page_pinned_def pmm_small_def BITMAP_TEST_def BITMAP_OFFSET_def drop_bit_eq_div)
  moreover have "page_no 4096 \<le> j \<and> j < page_no 4096 + unat (2 :: u64) \<Longrightarrow> j = 1 \<or> j = 2" for j
    by (auto simp: page_no_def PAGE_SIZE_def)
  ultimately have "\<forall>j. page_no 4096 \<le> j \<and> j < page_no 4096 + unat (2 :: u64) \<longrightarrow> \<not> page_pinned pmm_small j"
    by blast
  from PmmAllocPages_FreePages [OF pmm_small_ok c(1) pmm_small_alloc c(2) this]
  show ?thesis by (simp add: pmm_small_alloc) (simp add: pmm_small_def)
qed

text \<open>
  C20: Exclusive ownership. After any sequence of acquisitions and returns by clients that
  return only regions they hold, the regions held are pairwise disjoint, exclude page 0,
  lie below the highest page, and all their pages are marked used.
\<close>

theorem pmm_exclusive_ownership:
  assumes "pmm_ok s"
  shows "case fold (region_step PmmAllocPages PmmFreePages) es ([], s) of (held, s') \<Rightarrow>
    held_apart held \<and> (\<forall>r\<in>set held. 0 < fst r \<and> fst r + unat (snd r) \<le> highest_page s'
      \<and> (\<forall>j\<in>region_pages r. page_used s' j))"
proof -
  have "pmm_alloc.held_inv ([], s)" using assms by (simp add: pmm_alloc.held_inv_def)
  from pmm_alloc.held_inv_run [OF this, of es] show ?thesis
    by (simp add: pmm_alloc.held_inv_def case_prod_unfold)
qed

lemma pmm_exclusive_ownership_witness:
  "case fold (region_step PmmAllocPages PmmFreePages) [Acquire 2, Acquire 1] ([], pmm_small) of
     (held, s') \<Rightarrow> held_apart held"
  using pmm_exclusive_ownership [OF pmm_small_ok, of "[Acquire 2, Acquire 1]"] by auto

text \<open>
  Accounting and pinning. Over any sequence of allocations, releases of arbitrary
  page-aligned addresses and pins, page 0 stays reserved, the change of the used-page counter is the change of the number
  of set bits, and a page that is in use and pinned stays in use and pinned.
\<close>

theorem pmm_accounting:
  assumes "pmm_ok s" "\<forall>op\<in>set ops. pmm_op_aligned op"
  shows "pmm_ok (fold pmm_op_step ops s)
    \<and> used_pages (fold pmm_op_step ops s) - used_pages s =
      of_nat (card (used_set (fold pmm_op_step ops s))) - of_nat (card (used_set s))
    \<and> (\<forall>j<page_limit. page_used s j \<and> page_pinned s j \<longrightarrow>
        page_used (fold pmm_op_step ops s) j \<and> page_pinned (fold pmm_op_step ops s) j)"
proof -
  let ?c = "of_nat (card (used_set s)) - used_pages s" and ?P = "{j. page_used s j \<and> page_pinned s j}"
  have "pmm_kept ?c ?P s"
    using assms pmm_count_exists [of s] by (simp add: pmm_kept_def pmm_ok_def)
  then have "pmm_kept ?c ?P (fold pmm_op_step ops s)"
    by (rule fold_pages_inv [where P = "pmm_kept ?c ?P", rotated]) 
      (simp add: assms(2) pmm_op_step_kept)
  then show ?thesis by (auto simp: pmm_kept_def pmm_count_def algebra_simps)
qed

lemma pmm_accounting_witness:
  "used_pages (fold pmm_op_step [OpAlloc 2, OpFree 4096] pmm_small) - used_pages pmm_small =
     of_nat (card (used_set (fold pmm_op_step [OpAlloc 2, OpFree 4096] pmm_small)))
       - of_nat (card (used_set pmm_small))"
proof -
  have "\<forall>op\<in>set [OpAlloc 2, OpFree 4096]. pmm_op_aligned op"
    by (simp add: page_aligned_def PAGE_SIZE_def)
  from pmm_accounting [OF pmm_small_ok this] show ?thesis by blast
qed

text \<open>
  The bound check of \<^verbatim>\<open>PmmFreePage\<close> is off by one against every other operation: the page
  numbered \<^verbatim>\<open>g_pmm_highest_page\<close> is never allocated and not tracked, yet it can be freed and
  then lowers the used-page counter.
\<close>

lemma PmmFreePage_highest_counted:
  assumes "a \<noteq> 0" "unat (a div PAGE_SIZE) = highest_page s" "page_used s (highest_page s)"
    "\<not> page_pinned s (highest_page s)"
  shows "\<not> PmmIsPageTracked a s \<and> used_pages (PmmFreePage a s) = used_pages s - 1"
  using assms by (simp add: PmmIsPageTracked_def PmmFreePage_def page_used_def page_pinned_def)

end
