(* ===== verification/Fat_Table.thy ===== *)
theory Fat_Table
  imports Prelude
begin

text \<open>
  The FAT driver of \<^verbatim>\<open>Kernel/fs/fat32.c\<close>, first part: the driver's state, sector access, the
  file allocation table in its three layouts, cluster allocation and release, mounting.

  The static globals are the fields of \<open>fat\<close>. The block device behind \<^verbatim>\<open>AtaReadSectors\<close> and
  \<^verbatim>\<open>AtaWriteSectors\<close> is hardware: it is the contents \<open>disk\<close> of every sector and the status
  that reading or writing a sector gives; a failed transfer changes nothing. \<open>KmAlloc\<close>
  panics rather than return NULL for a positive size (theory Heap), so the NULL branches
  after it do not occur. Functions return their status or value and the new state. A
  result \<open>None\<close> of an option type is a function that does not return (a panic, a divide
  fault or an endless loop).
\<close>

section \<open>State\<close>

datatype fat_type = FAT_TYPE_12 | FAT_TYPE_16 | FAT_TYPE_32

record fat_info =
  ftype :: fat_type
  bytes_per_sector :: u32
  sectors_per_cluster :: u32
  reserved_sectors :: u32
  num_fats :: u32
  root_entry_count :: u32
  root_cluster :: u32
  sectors_per_fat :: u32
  total_sectors :: u32
  data_start_sector :: u32
  fat_start_sector :: u32
  root_dir_sectors :: u32
  root_dir_start_sector :: u32
  partition_start_lba :: u64

text \<open>
  \<open>have_buf\<close>: \<^verbatim>\<open>g_sector_buf\<close> is not NULL. \<open>smashed\<close> is a ghost flag, set where the code
  reads a whole sector into the two-byte array \<^verbatim>\<open>b1_buf\<close>.
\<close>

record fat =
  g_fat :: fat_info
  g_current_cluster :: u32
  g_current_file_size :: u32
  g_current_is_directory :: bool
  g_fat_initialized :: bool
  g_last_allocated_cluster :: u32
  have_buf :: bool
  sector_buf :: buf
  disk :: "u64 \<Rightarrow> buf"
  rd_status :: "u64 \<Rightarrow> ntstatus"
  wr_status :: "u64 \<Rightarrow> ntstatus"
  smashed :: bool

abbreviation "fat_set_buf b s \<equiv> s\<lparr>sector_buf := b\<rparr>"

section \<open>Sectors\<close>

definition AtaReadSectors :: "u64 \<Rightarrow> buf \<Rightarrow> fat \<Rightarrow> ntstatus \<times> buf" where
  "AtaReadSectors lba buffer s =
     (if NT_ERROR (rd_status s lba) then (rd_status s lba, buffer)
      else (rd_status s lba, buf_copy buffer 0 (disk s lba) 0 512))"

definition AtaWriteSectors :: "u64 \<Rightarrow> buf \<Rightarrow> fat \<Rightarrow> ntstatus \<times> fat" where
  "AtaWriteSectors lba buffer s =
     (if NT_ERROR (wr_status s lba) then (wr_status s lba, s)
      else (wr_status s lba, s\<lparr>disk := (disk s)(lba := buf_copy (disk s lba) 0 buffer 0 512)\<rparr>))"

definition fat_lba :: "u32 \<Rightarrow> fat \<Rightarrow> u64" where
  "fat_lba sector s = partition_start_lba (g_fat s) + ucast sector"

definition FatReadSector :: "u32 \<Rightarrow> buf \<Rightarrow> fat \<Rightarrow> ntstatus \<times> buf" where
  "FatReadSector sector buffer s = AtaReadSectors (fat_lba sector s) buffer s"

definition FatWriteSector :: "u32 \<Rightarrow> buf \<Rightarrow> fat \<Rightarrow> ntstatus \<times> fat" where
  "FatWriteSector sector buffer s = AtaWriteSectors (fat_lba sector s) buffer s"

text \<open>\<open>FatReadSector(sector, g_sector_buf)\<close>\<close>

definition read_g :: "u32 \<Rightarrow> fat \<Rightarrow> ntstatus \<times> fat" where
  "read_g sector s = (let (st, b) = FatReadSector sector (sector_buf s) s in (st, fat_set_buf b s))"

section \<open>The allocation table\<close>

definition FatGetFatEntry :: "u32 \<Rightarrow> fat \<Rightarrow> u32 \<times> fat" where
  "FatGetFatEntry cluster s =
     (let fi = g_fat s; bps = bytes_per_sector fi in
      if \<not> have_buf s then (0xFFFFFFFF, s)
      else case ftype fi of
        FAT_TYPE_32 \<Rightarrow>
          (let fat_offset = fat_start_sector fi + (cluster * 4) div bps;
               entry_offset = (cluster * 4) mod bps;
               (status, s1) = read_g fat_offset s
           in if NT_ERROR status then (0xFFFFFFFF, s1)
              else (le32 (sector_buf s1) (unat entry_offset) AND 0x0FFFFFFF, s1))
      | FAT_TYPE_16 \<Rightarrow>
          (let fat_offset = fat_start_sector fi + (cluster * 2) div bps;
               entry_offset = (cluster * 2) mod bps;
               (status, s1) = read_g fat_offset s
           in if NT_ERROR status then (0xFFFFFFFF, s1)
              else (ucast (le16 (sector_buf s1) (unat entry_offset)), s1))
      | FAT_TYPE_12 \<Rightarrow>
          (let fat_offset = fat_start_sector fi + (cluster * 3 div 2) div bps;
               entry_offset = (cluster * 3 div 2) mod bps;
               (status, s1) = read_g fat_offset s
           in if NT_ERROR status then (0xFFFFFFFF, s1)
              else if entry_offset = bps - 1 then
                let b0 = sector_buf s1 (unat entry_offset);
                    (s2, b1_buf) = FatReadSector (fat_offset + 1) (\<lambda>_. 0) s1;
                    s3 = s1\<lparr>smashed := True\<rparr>;
                    val = (ucast b0 :: u16) OR push_bit 8 (ucast (b1_buf 0))
                in if NT_ERROR s2 then (0xFFFFFFFF, s1)
                   else (ucast (if bit cluster 0 then drop_bit 4 val else val AND 0x0FFF), s3)
              else
                let val = le16 (sector_buf s1) (unat entry_offset)
                in (ucast (if bit cluster 0 then drop_bit 4 val else val AND 0x0FFF), s1)))"

definition FatNextCluster :: "u32 \<Rightarrow> fat \<Rightarrow> u32 \<times> fat" where
  "FatNextCluster cluster s =
     (let (next, s1) = FatGetFatEntry cluster s;
          eof_mask = (case ftype (g_fat s1) of FAT_TYPE_12 \<Rightarrow> 0x0FF8 | FAT_TYPE_16 \<Rightarrow> 0xFFF8
                      | FAT_TYPE_32 \<Rightarrow> 0x0FFFFFF8)
      in (if next \<ge> eof_mask then 0 else next, s1))"

definition FatClusterToSector :: "u32 \<Rightarrow> fat \<Rightarrow> u32" where
  "FatClusterToSector cluster s =
     data_start_sector (g_fat s) + (cluster - 2) * sectors_per_cluster (g_fat s)"

definition FatEofMarker :: "fat \<Rightarrow> u32" where
  "FatEofMarker s = (case ftype (g_fat s) of FAT_TYPE_12 \<Rightarrow> 0xFF8 | FAT_TYPE_16 \<Rightarrow> 0xFFF8
                      | FAT_TYPE_32 \<Rightarrow> 0x0FFFFFF8)"

text \<open>One iteration of the three loops over the copies of the table.\<close>

definition set_copy32 :: "u32 \<Rightarrow> u32 \<Rightarrow> nat \<Rightarrow> fat \<Rightarrow> (ntstatus \<times> fat) + fat" where
  "set_copy32 cluster value fat_num s =
     (let fi = g_fat s; bps = bytes_per_sector fi;
          entry_offset = unat ((cluster * 4) mod bps);
          sec = fat_start_sector fi + of_nat fat_num * sectors_per_fat fi + (cluster * 4) div bps;
          (status, s1) = read_g sec s
      in if NT_ERROR status then Inl (status, s1)
         else
           let b = put32 (sector_buf s1) entry_offset
                     ((le32 (sector_buf s1) entry_offset AND 0xF0000000) OR (value AND 0x0FFFFFFF));
               (status, s2) = FatWriteSector sec b (fat_set_buf b s1)
           in if NT_ERROR status then Inl (status, s2) else Inr s2)"

definition set_copy16 :: "u32 \<Rightarrow> u32 \<Rightarrow> nat \<Rightarrow> fat \<Rightarrow> (ntstatus \<times> fat) + fat" where
  "set_copy16 cluster value fat_num s =
     (let fi = g_fat s; bps = bytes_per_sector fi;
          entry_offset = unat ((cluster * 2) mod bps);
          sec = fat_start_sector fi + of_nat fat_num * sectors_per_fat fi + (cluster * 2) div bps;
          (status, s1) = read_g sec s
      in if NT_ERROR status then Inl (status, s1)
         else
           let b = put16 (sector_buf s1) entry_offset (ucast value);
               (status, s2) = FatWriteSector sec b (fat_set_buf b s1)
           in if NT_ERROR status then Inl (status, s2) else Inr s2)"

definition set_copy12 :: "u32 \<Rightarrow> u32 \<Rightarrow> nat \<Rightarrow> fat \<Rightarrow> (ntstatus \<times> fat) + fat" where
  "set_copy12 cluster value fat_num s =
     (let fi = g_fat s; bps = bytes_per_sector fi;
          entry_offset = unat ((cluster * 3 div 2) mod bps);
          sec = fat_start_sector fi + of_nat fat_num * sectors_per_fat fi + (cluster * 3 div 2) div bps;
          (status, s1) = read_g sec s
      in if NT_ERROR status then Inl (status, s1)
         else if (cluster * 3 div 2) mod bps = bps - 1 then
           let b0 = sector_buf s1 entry_offset;
               (st2, next_buf) = FatReadSector (sec + 1) (\<lambda>_. 0) s1
           in if NT_ERROR st2 then Inl (st2, s1)
              else
                let b1 = next_buf 0;
                    b0' = (if bit cluster 0 then ucast ((ucast b0 AND 0x0F) OR push_bit 4 (value AND 0x0F))
                           else ucast (value AND 0xFF));
                    b1' = (if bit cluster 0 then ucast (drop_bit 4 value)
                           else ucast ((ucast b1 AND 0xF0) OR (drop_bit 8 value AND 0x0F)));
                    b = (sector_buf s1)(entry_offset := b0');
                    (status, s2) = FatWriteSector sec b (fat_set_buf b s1)
                in if NT_ERROR status then Inl (status, s2)
                   else
                     let (status, s3) = FatWriteSector (sec + 1) (next_buf(0 := b1')) s2
                     in if NT_ERROR status then Inl (status, s3) else Inr s3
         else
           let val = le16 (sector_buf s1) entry_offset;
               val' = (if bit cluster 0 then (val AND 0x000F) OR ucast (push_bit 4 value)
                       else (val AND 0xF000) OR ucast (value AND 0x0FFF));
               b = put16 (sector_buf s1) entry_offset val';
               (status, s2) = FatWriteSector sec b (fat_set_buf b s1)
           in if NT_ERROR status then Inl (status, s2) else Inr s2)"

definition FatSetFatEntry :: "u32 \<Rightarrow> u32 \<Rightarrow> fat \<Rightarrow> ntstatus \<times> fat" where
  "FatSetFatEntry cluster value s =
     (if \<not> g_fat_initialized s \<or> \<not> have_buf s then (STATUS_UNSUCCESSFUL, s)
      else if cluster < 2 then (STATUS_INVALID_PARAMETER, s)
      else
        let copy = (case ftype (g_fat s) of FAT_TYPE_32 \<Rightarrow> set_copy32 | FAT_TYPE_16 \<Rightarrow> set_copy16
                    | FAT_TYPE_12 \<Rightarrow> set_copy12)
        in case fold_until (copy cluster value) [0..<unat (num_fats (g_fat s))] s of
             Inl r \<Rightarrow> r
           | Inr s' \<Rightarrow> (STATUS_SUCCESS, s'))"

section \<open>Allocation and release of clusters\<close>

definition alloc_try :: "u32 \<Rightarrow> u32 \<Rightarrow> fat \<Rightarrow> (u32 \<times> fat) + fat" where
  "alloc_try eof c s =
     (let (val, s1) = FatGetFatEntry c s in
      if val = 0 then
        let (status, s2) = FatSetFatEntry c eof s1 in
        if NT_ERROR status then Inl (0, s2)
        else Inl (c, s2\<lparr>g_last_allocated_cluster := c + 1\<rparr>)
      else Inr s1)"

definition fat_max_cluster :: "fat \<Rightarrow> u32" where
  "fat_max_cluster s =
     (total_sectors (g_fat s) - data_start_sector (g_fat s)) div sectors_per_cluster (g_fat s) + 2"

definition u32_range :: "u32 \<Rightarrow> u32 \<Rightarrow> u32 list" where
  "u32_range lo hi = map of_nat [unat lo..<unat hi]"

definition FatAllocateCluster :: "fat \<Rightarrow> u32 \<times> fat" where
  "FatAllocateCluster s =
     (if \<not> g_fat_initialized s then (0, s)
      else
        let eof = FatEofMarker s;
            max_cluster = fat_max_cluster s;
            start = g_last_allocated_cluster s;
            start = (if start < 2 \<or> start \<ge> max_cluster then 2 else start)
        in case fold_until (alloc_try eof) (u32_range start max_cluster) s of
             Inl r \<Rightarrow> r
           | Inr s1 \<Rightarrow>
             (case fold_until (alloc_try eof) (u32_range 2 start) s1 of
                Inl r \<Rightarrow> r
              | Inr s2 \<Rightarrow> (0, s2)))"

partial_function (option) free_chain_loop :: "u32 \<Rightarrow> u32 \<Rightarrow> fat \<Rightarrow> fat option" where
  "free_chain_loop eof cluster s =
     (if cluster \<ge> 2 \<and> cluster < eof then
        let (next, s1) = FatGetFatEntry cluster s;
            (status, s2) = FatSetFatEntry cluster 0 s1
        in if next < 2 \<or> next \<ge> eof then Some s2 else free_chain_loop eof next s2
      else Some s)"

definition FatFreeClusterChain :: "u32 \<Rightarrow> fat \<Rightarrow> fat option" where
  "FatFreeClusterChain cluster s =
     (if \<not> g_fat_initialized s \<or> cluster < 2 then Some s
      else free_chain_loop (FatEofMarker s) cluster s)"

section \<open>Volume size\<close>

definition Fat32GetVolumeSize :: "fat \<Rightarrow> u64" where
  "Fat32GetVolumeSize s =
     (if \<not> g_fat_initialized s then 0
      else ucast (total_sectors (g_fat s)) * ucast (bytes_per_sector (g_fat s)))"

definition Fat32GetFreeSize :: "fat \<Rightarrow> u64 \<times> fat" where
  "Fat32GetFreeSize s =
     (if \<not> g_fat_initialized s then (0, s)
      else
        let (free_clusters, s1) =
              fold (\<lambda>c (n, s). let (v, s') = FatGetFatEntry c s in (if v = 0 then n + 1 else n, s'))
                (u32_range 2 (fat_max_cluster s)) (0, s)
        in (free_clusters * ucast (sectors_per_cluster (g_fat s)) * ucast (bytes_per_sector (g_fat s)), s1))"

section \<open>The table as one byte array\<close>

text \<open>
  The first copy of the table, its sectors laid end to end, and the position, width and
  coding of an entry in it.
\<close>

definition fat_bytes :: "fat \<Rightarrow> buf" where
  "fat_bytes s = (\<lambda>i. disk s (fat_lba (fat_start_sector (g_fat s) + of_nat (i div 512)) s) (i mod 512))"

definition entry_byte :: "fat_type \<Rightarrow> u32 \<Rightarrow> nat" where
  "entry_byte t c = (case t of FAT_TYPE_32 \<Rightarrow> unat c * 4 | FAT_TYPE_16 \<Rightarrow> unat c * 2
     | FAT_TYPE_12 \<Rightarrow> unat c * 3 div 2)"

definition entry_width :: "fat_type \<Rightarrow> nat" where
  "entry_width t = (case t of FAT_TYPE_32 \<Rightarrow> 4 | _ \<Rightarrow> 2)"

definition entry_load :: "fat_type \<Rightarrow> u32 \<Rightarrow> buf \<Rightarrow> nat \<Rightarrow> u32" where
  "entry_load t c b off = (case t of
     FAT_TYPE_32 \<Rightarrow> le32 b off AND 0x0FFFFFFF
   | FAT_TYPE_16 \<Rightarrow> ucast (le16 b off)
   | FAT_TYPE_12 \<Rightarrow> ucast (if bit c 0 then drop_bit 4 (le16 b off) else le16 b off AND 0x0FFF))"

definition entry_store :: "fat_type \<Rightarrow> u32 \<Rightarrow> u32 \<Rightarrow> buf \<Rightarrow> nat \<Rightarrow> buf" where
  "entry_store t c v b off = (case t of
     FAT_TYPE_32 \<Rightarrow> put32 b off ((le32 b off AND 0xF0000000) OR (v AND 0x0FFFFFFF))
   | FAT_TYPE_16 \<Rightarrow> put16 b off (ucast v)
   | FAT_TYPE_12 \<Rightarrow> put16 b off (if bit c 0 then (le16 b off AND 0x000F) OR ucast (push_bit 4 v)
       else (le16 b off AND 0xF000) OR ucast (v AND 0x0FFF)))"

definition entry_mask :: "fat_type \<Rightarrow> u32" where
  "entry_mask t = (case t of FAT_TYPE_32 \<Rightarrow> 0x0FFFFFFF | FAT_TYPE_16 \<Rightarrow> 0xFFFF | FAT_TYPE_12 \<Rightarrow> 0x0FFF)"

definition fat_entry :: "fat \<Rightarrow> u32 \<Rightarrow> u32" where
  "fat_entry s c = entry_load (ftype (g_fat s)) c (fat_bytes s) (entry_byte (ftype (g_fat s)) c)"

text \<open>Mounted, 512-byte sectors, tables that fit 32-bit sector numbers, no device errors.\<close>

definition fat_ok :: "fat \<Rightarrow> bool" where
  "fat_ok s \<longleftrightarrow> g_fat_initialized s \<and> have_buf s \<and> bytes_per_sector (g_fat s) = 512
     \<and> 0 < num_fats (g_fat s)
     \<and> unat (fat_start_sector (g_fat s)) + unat (num_fats (g_fat s)) * unat (sectors_per_fat (g_fat s)) < 2 ^ 32
     \<and> (\<forall>lba. NT_SUCCESS (rd_status s lba) \<and> NT_SUCCESS (wr_status s lba))"

text \<open>A cluster number whose entry lies in the table and in one sector.\<close>

definition fat_cluster :: "fat \<Rightarrow> u32 \<Rightarrow> bool" where
  "fat_cluster s c \<longleftrightarrow> 2 \<le> c \<and> c < 0x0FFFFFF8
     \<and> entry_byte (ftype (g_fat s)) c div 512 < unat (sectors_per_fat (g_fat s))
     \<and> entry_byte (ftype (g_fat s)) c mod 512 \<noteq> 511"

subsection \<open>Coding of one entry\<close>

lemma store_masks:
  "(((x AND 0xF0000000) OR (v AND 0x0FFFFFFF)) AND 0x0FFFFFFF) = (v :: u32) AND 0x0FFFFFFF"
  "ucast (ucast v :: u16) = (v :: u32) AND 0xFFFF"
  unfolding masks by (rule bit_word_eqI; auto simp: bit_simps)+

text \<open>A FAT12 table is a bit string: entry \<open>c\<close> is its bits \<open>12 c\<close> to \<open>12 c + 11\<close>.\<close>

lemma fat12_position:
  fixes c :: u32
  shows
  "(12 * unat c + n) div 8 = unat c * 3 div 2 + (n + (if bit c 0 then 4 else 0)) div 8"
  "(12 * unat c + n) mod 8 = (n + (if bit c 0 then 4 else 0)) mod 8"
proof -
  have odd: "bit (c :: u32) 0 \<longleftrightarrow> odd (unat c)" by (simp only: odd_unat_bit)
  have "(12 * unat c + n) div 8 = unat c * 3 div 2 + (n + (if odd (unat c) then 4 else 0)) div 8
    \<and> (12 * unat c + n) mod 8 = (n + (if odd (unat c) then 4 else 0)) mod 8"
  proof (cases "odd (unat c)")
    case True
    then obtain k where k: "unat c = 2 * k + 1" by (rule oddE)
    have e: "12 * unat c + n = (n + 4) + 8 * (3 * k + 1)" "unat c * 3 div 2 = 3 * k + 1"
      unfolding k by simp_all
    have "((n + 4) + 8 * (3 * k + 1)) div 8 = 3 * k + 1 + (n + 4) div 8"
      "((n + 4) + 8 * (3 * k + 1)) mod 8 = (n + 4) mod 8"
      by (rule div_mult_self2, simp, rule mod_mult_self2)
    then show ?thesis unfolding e using True by presburger
  next
    case False
    then obtain k where k: "unat c = 2 * k" by (metis evenE)
    have e: "12 * unat c + n = n + 8 * (3 * k)" "unat c * 3 div 2 = 3 * k"
      unfolding k by simp_all
    have "(n + 8 * (3 * k)) div 8 = 3 * k + n div 8" "(n + 8 * (3 * k)) mod 8 = n mod 8"
      by (rule div_mult_self2, simp, rule mod_mult_self2)
    then show ?thesis unfolding e using False by presburger
  qed
  then show "(12 * unat c + n) div 8 = unat c * 3 div 2 + (n + (if bit c 0 then 4 else 0)) div 8"
    "(12 * unat c + n) mod 8 = (n + (if bit c 0 then 4 else 0)) mod 8"
    unfolding odd by blast+
qed

lemma fat12_load_bit:
  "bit (entry_load FAT_TYPE_12 c b (entry_byte FAT_TYPE_12 c)) n \<longleftrightarrow>
     n < 12 \<and> bit (b ((12 * unat c + n) div 8)) ((12 * unat c + n) mod 8)"
  unfolding entry_load_def entry_byte_def masks fat12_position
  by (auto simp: bit_simps bit_le16 algebra_simps)

lemma fat12_store_bit:
  assumes "m < 8"
  shows "bit (entry_store FAT_TYPE_12 c v b (entry_byte FAT_TYPE_12 c) i) m \<longleftrightarrow>
    (if 12 * unat c \<le> 8 * i + m \<and> 8 * i + m < 12 * unat c + 12 then bit v (8 * i + m - 12 * unat c)
     else bit (b i) m)"
proof -
  let ?off = "unat c * 3 div 2" and ?r = "if bit c 0 then 4 else 0 :: nat"
  have pos: "12 * unat c = 8 * ?off + ?r"
    using fat12_position [of c 0] mult_div_mod_eq [of 8 "12 * unat c"] by (simp split: if_splits)
  show ?thesis
  proof (cases "?off \<le> i \<and> i < ?off + 2")
    case False
    then show ?thesis using assms unfolding pos entry_store_def entry_byte_def
      by (auto simp: bit_put16)
  next
    case True
    then obtain j where j: "i = ?off + j" "j < 2" by (metis le_add_diff_inverse nat_add_left_cancel_less)
    have le: "bit (le16 b ?off) (8 * j + m) \<longleftrightarrow> bit (b i) m"
      using assms j by (simp add: bit_le16)
    have "bit (entry_store FAT_TYPE_12 c v b (entry_byte FAT_TYPE_12 c) i) m \<longleftrightarrow>
      (if ?r \<le> 8 * j + m \<and> 8 * j + m < ?r + 12 then bit v (8 * j + m - ?r) else bit (le16 b ?off) (8 * j + m))"
      using assms j unfolding entry_store_def entry_byte_def masks
      by (auto simp: bit_put16 bit_simps)
    then show ?thesis unfolding le pos using j(1) by (simp add: algebra_simps)
  qed
qed

text \<open>Reading back what was stored, and leaving every other entry alone.\<close>

lemma m8: "(n :: nat) mod 8 < 8"
  by simp

lemma entry_load_store_same:
  "entry_load t c (entry_store t c v b (entry_byte t c)) (entry_byte t c) = v AND entry_mask t"
proof (cases t)
  case FAT_TYPE_12
  show ?thesis unfolding FAT_TYPE_12
  proof (rule bit_word_eqI)
    fix n
    have "8 * ((12 * unat c + n) div 8) + (12 * unat c + n) mod 8 = 12 * unat c + n" by simp
    then show "bit (entry_load FAT_TYPE_12 c (entry_store FAT_TYPE_12 c v b (entry_byte FAT_TYPE_12 c))
          (entry_byte FAT_TYPE_12 c)) n = bit (v AND entry_mask FAT_TYPE_12) n"
      unfolding fat12_load_bit fat12_store_bit [OF m8]
      by (simp add: entry_mask_def masks bit_simps)
  qed
qed (simp_all add: entry_load_def entry_store_def entry_mask_def store_masks)

lemma entry_load_store_other:
  assumes "c \<noteq> c'"
  shows "entry_load t c' (entry_store t c v b (entry_byte t c)) (entry_byte t c') =
    entry_load t c' b (entry_byte t c')"
proof -
  have ne: "unat c \<noteq> unat c'" using assms by (simp add: word_unat_eq_iff)
  show ?thesis
  proof (cases t)
    case FAT_TYPE_12
    show ?thesis unfolding FAT_TYPE_12
    proof (rule bit_word_eqI)
      fix n
      have "8 * ((12 * unat c' + n) div 8) + (12 * unat c' + n) mod 8 = 12 * unat c' + n" by simp
      moreover have "n < 12 \<Longrightarrow> \<not> (12 * unat c \<le> 12 * unat c' + n \<and> 12 * unat c' + n < 12 * unat c + 12)"
        using ne by linarith
      ultimately show "bit (entry_load FAT_TYPE_12 c' (entry_store FAT_TYPE_12 c v b (entry_byte FAT_TYPE_12 c))
          (entry_byte FAT_TYPE_12 c')) n = bit (entry_load FAT_TYPE_12 c' b (entry_byte FAT_TYPE_12 c')) n"
        unfolding fat12_load_bit fat12_store_bit [OF m8] by auto
    qed
  next
    case FAT_TYPE_16
    have "unat c' * 2 + 2 \<le> unat c * 2 \<or> unat c * 2 + 2 \<le> unat c' * 2" using ne by linarith
    then show ?thesis by (simp add: FAT_TYPE_16 entry_load_def entry_store_def entry_byte_def le16_put16_other)
  next
    case FAT_TYPE_32
    have "unat c' * 4 + 4 \<le> unat c * 4 \<or> unat c * 4 + 4 \<le> unat c' * 4" using ne by linarith
    then show ?thesis by (simp add: FAT_TYPE_32 entry_load_def entry_store_def entry_byte_def le32_put32_other)
  qed
qed

lemma entry_store_outside: "i < off \<or> off + entry_width t \<le> i \<Longrightarrow> entry_store t c v b off i = b i"
  by (cases t) (auto simp: entry_store_def entry_width_def put16_other put32_other)

lemma entry_load_local:
  assumes "\<And>j. j < entry_width t \<Longrightarrow> b (off + j) = b' (off' + j)"
  shows "entry_load t c b off = entry_load t c b' off'"
  using le16_local [of b off b' off'] le32_local [of b off b' off'] assms
  by (cases t) (auto simp: entry_load_def entry_width_def)

lemma entry_store_local:
  assumes "\<And>j. j < entry_width t \<Longrightarrow> b (off + j) = b' (off' + j)" "j < entry_width t"
  shows "entry_store t c v b off (off + j) = entry_store t c v b' off' (off' + j)"
  using le16_local [of b off b' off'] le32_local [of b off b' off'] assms
  by (cases t) (auto simp: entry_store_def entry_width_def intro: put16_shift put32_shift)


subsection \<open>Sectors of the table\<close>

lemma fat_lba_inj [simp]: "fat_lba a s = fat_lba b s \<longleftrightarrow> a = b"
  by (simp add: fat_lba_def)

lemma fat_lba_cong: "g_fat s = g_fat t \<Longrightarrow> fat_lba a s = fat_lba a t"
  by (simp add: fat_lba_def)

text \<open>Without device errors a transfer is a copy of 512 bytes.\<close>

definition fat_io_ok :: "fat \<Rightarrow> bool" where
  "fat_io_ok s \<longleftrightarrow> (\<forall>lba. NT_SUCCESS (rd_status s lba) \<and> NT_SUCCESS (wr_status s lba))"

definition load_sector :: "u32 \<Rightarrow> fat \<Rightarrow> fat" where
  "load_sector sec s = fat_set_buf (buf_copy (sector_buf s) 0 (disk s (fat_lba sec s)) 0 512) s"

definition put_sector :: "u32 \<Rightarrow> buf \<Rightarrow> fat \<Rightarrow> fat" where
  "put_sector sec b s =
     s\<lparr>disk := (disk s)(fat_lba sec s := buf_copy (disk s (fat_lba sec s)) 0 b 0 512)\<rparr>"

lemma read_g_ok: "fat_io_ok s \<Longrightarrow> \<exists>st. read_g sec s = (st, load_sector sec s) \<and> NT_SUCCESS st"
  by (simp add: read_g_def FatReadSector_def AtaReadSectors_def fat_io_ok_def load_sector_def)

lemma FatWriteSector_ok:
  "fat_io_ok s \<Longrightarrow> \<exists>st. FatWriteSector sec b s = (st, put_sector sec b s) \<and> NT_SUCCESS st"
  by (simp add: FatWriteSector_def AtaWriteSectors_def fat_io_ok_def put_sector_def)

lemma fat_io_ok_upd [simp]:
  "fat_io_ok (s\<lparr>sector_buf := b\<rparr>) = fat_io_ok s" "fat_io_ok (s\<lparr>disk := d\<rparr>) = fat_io_ok s"
  "fat_io_ok (load_sector sec s) = fat_io_ok s" "fat_io_ok (put_sector sec b s) = fat_io_ok s"
  by (simp_all add: fat_io_ok_def load_sector_def put_sector_def)

lemma sector_fields [simp]:
  "g_fat (load_sector sec s) = g_fat s" "g_fat (put_sector sec b s) = g_fat s"
  "disk (load_sector sec s) = disk s"
  "have_buf (load_sector sec s) = have_buf s" "have_buf (put_sector sec b s) = have_buf s"
  by (simp_all add: load_sector_def put_sector_def)

lemma load_sector_byte: "i < 512 \<Longrightarrow> sector_buf (load_sector sec s) i = disk s (fat_lba sec s) i"
  by (simp add: load_sector_def buf_copy_def)

text \<open>All three layouts are one function of the entry's position in its sector.\<close>

definition entry_sector_off :: "fat_type \<Rightarrow> u32 \<Rightarrow> u32" where
  "entry_sector_off t c = (case t of FAT_TYPE_32 \<Rightarrow> c * 4 | FAT_TYPE_16 \<Rightarrow> c * 2 | FAT_TYPE_12 \<Rightarrow> c * 3 div 2)"

lemma entry_sector_off_unat:
  assumes "c < 0x0FFFFFF8"
  shows "unat (entry_sector_off t c) = entry_byte t c"
proof -
  have "unat c < 0x0FFFFFF8" using assms by (simp add: word_less_nat_alt)
  then show ?thesis
    by (cases t) (simp_all add: entry_sector_off_def entry_byte_def unat_word_ariths unat_div)
qed

lemma entry_sector_off_div_mod:
  assumes "c < 0x0FFFFFF8"
  shows "unat (entry_sector_off t c div 512) = entry_byte t c div 512"
    "unat (entry_sector_off t c mod 512) = entry_byte t c mod 512"
  using entry_sector_off_unat [OF assms] by (simp_all add: unat_div unat_mod)

lemma FatGetFatEntry_load:
  assumes "fat_ok s" "fat_cluster s c"
  shows "FatGetFatEntry c s =
    (let fi = g_fat s; s1 = load_sector (fat_start_sector fi + entry_sector_off (ftype fi) c div 512) s
     in (entry_load (ftype fi) c (sector_buf s1) (entry_byte (ftype fi) c mod 512), s1))"
proof -
  have c: "c < 0x0FFFFFF8" "entry_byte (ftype (g_fat s)) c mod 512 \<noteq> 511"
    using assms(2) by (simp_all add: fat_cluster_def)
  have s: "have_buf s" "bytes_per_sector (g_fat s) = 512" "fat_io_ok s"
    using assms(1) by (simp_all add: fat_ok_def fat_io_ok_def)
  note dm = entry_sector_off_div_mod(2) [OF c(1)]
  have ne: "entry_sector_off (ftype (g_fat s)) c mod 512 \<noteq> 511"
    using c(2) dm [of "ftype (g_fat s)"] by auto
  obtain st where st: "read_g (fat_start_sector (g_fat s) + entry_sector_off (ftype (g_fat s)) c div 512) s
      = (st, load_sector (fat_start_sector (g_fat s) + entry_sector_off (ftype (g_fat s)) c div 512) s)"
    "NT_SUCCESS st" using read_g_ok [OF s(3)] by blast
  show ?thesis
    using s st ne dm [of FAT_TYPE_12] dm [of FAT_TYPE_16] dm [of FAT_TYPE_32]
    by (cases "ftype (g_fat s)")
       (simp_all add: FatGetFatEntry_def entry_sector_off_def entry_load_def Let_def)
qed

subsection \<open>Storing an entry in every copy\<close>

definition copy_sec :: "fat \<Rightarrow> u32 \<Rightarrow> nat \<Rightarrow> u32" where
  "copy_sec s c k = fat_start_sector (g_fat s) + of_nat k * sectors_per_fat (g_fat s)
     + entry_sector_off (ftype (g_fat s)) c div 512"

definition copy_done :: "u32 \<Rightarrow> u32 \<Rightarrow> nat \<Rightarrow> fat \<Rightarrow> fat" where
  "copy_done c v k s =
     (let s1 = load_sector (copy_sec s c k) s;
          b = entry_store (ftype (g_fat s)) c v (sector_buf s1) (entry_byte (ftype (g_fat s)) c mod 512)
      in put_sector (copy_sec s c k) b (fat_set_buf b s1))"

definition set_copy :: "fat_type \<Rightarrow> u32 \<Rightarrow> u32 \<Rightarrow> nat \<Rightarrow> fat \<Rightarrow> (ntstatus \<times> fat) + fat" where
  "set_copy t = (case t of FAT_TYPE_32 \<Rightarrow> set_copy32 | FAT_TYPE_16 \<Rightarrow> set_copy16 | FAT_TYPE_12 \<Rightarrow> set_copy12)"

lemma set_copy_ok:
  assumes "fat_io_ok s" "bytes_per_sector (g_fat s) = 512" "c < 0x0FFFFFF8"
    and "entry_byte (ftype (g_fat s)) c mod 512 \<noteq> 511"
  shows "set_copy (ftype (g_fat s)) c v k s = Inr (copy_done c v k s)"
proof -
  note dm = entry_sector_off_div_mod(2) [OF assms(3)]
  have ne: "entry_sector_off (ftype (g_fat s)) c mod 512 \<noteq> 511"
    using assms(4) dm [of "ftype (g_fat s)"] by auto
  let ?sec = "copy_sec s c k"
  obtain st where st: "read_g ?sec s = (st, load_sector ?sec s)" "NT_SUCCESS st"
    using read_g_ok [OF assms(1)] by blast
  have w: "\<exists>st. FatWriteSector ?sec b (fat_set_buf b (load_sector ?sec s))
      = (st, put_sector ?sec b (fat_set_buf b (load_sector ?sec s))) \<and> NT_SUCCESS st" for b
    using FatWriteSector_ok [of "fat_set_buf b (load_sector ?sec s)" ?sec b] assms(1) by simp
  let ?b = "entry_store (ftype (g_fat s)) c v (sector_buf (load_sector ?sec s))
              (entry_byte (ftype (g_fat s)) c mod 512)"
  obtain st' where st': "FatWriteSector ?sec ?b (fat_set_buf ?b (load_sector ?sec s))
      = (st', put_sector ?sec ?b (fat_set_buf ?b (load_sector ?sec s)))" "NT_SUCCESS st'"
    using w by blast
  show ?thesis
    using st st' ne assms(2) dm [of FAT_TYPE_12] dm [of FAT_TYPE_16] dm [of FAT_TYPE_32]
    by (cases "ftype (g_fat s)")
       (simp_all add: set_copy_def set_copy32_def set_copy16_def set_copy12_def copy_sec_def copy_done_def
         entry_sector_off_def entry_store_def Let_def)
qed

text \<open>What the loop over the copies changes, and what not.\<close>

definition fat_same :: "fat \<Rightarrow> fat \<Rightarrow> bool" where
  "fat_same s t \<longleftrightarrow> g_fat t = g_fat s \<and> g_current_cluster t = g_current_cluster s
     \<and> g_current_file_size t = g_current_file_size s
     \<and> g_current_is_directory t = g_current_is_directory s
     \<and> g_fat_initialized t = g_fat_initialized s \<and> have_buf t = have_buf s
     \<and> g_last_allocated_cluster t = g_last_allocated_cluster s
     \<and> rd_status t = rd_status s \<and> wr_status t = wr_status s \<and> smashed t = smashed s"

lemma fat_same_refl [simp]: "fat_same s s"
  by (simp add: fat_same_def)

lemma fat_same_trans: "fat_same s t \<Longrightarrow> fat_same t u \<Longrightarrow> fat_same s u"
  by (simp add: fat_same_def)

lemma fat_same_steps [simp]:
  "fat_same s (load_sector sec s)" "fat_same s (fat_set_buf b s)" "fat_same s (put_sector sec b s)"
  "fat_same s (copy_done c v k s)"
  by (simp_all add: fat_same_def load_sector_def put_sector_def copy_done_def Let_def)

lemma fat_same_ok: "fat_same s t \<Longrightarrow> fat_ok t = fat_ok s"
  by (simp add: fat_same_def fat_ok_def)

lemma fat_same_io_ok: "fat_same s t \<Longrightarrow> fat_io_ok t = fat_io_ok s"
  by (simp add: fat_same_def fat_io_ok_def)

lemma fat_same_cluster: "fat_same s t \<Longrightarrow> fat_cluster t c = fat_cluster s c"
  by (simp add: fat_same_def fat_cluster_def)

lemma copy_sec_unat:
  assumes "fat_ok s" "fat_cluster s c" "k < unat (num_fats (g_fat s))"
  shows "unat (copy_sec s c k) = unat (fat_start_sector (g_fat s)) + k * unat (sectors_per_fat (g_fat s))
     + entry_byte (ftype (g_fat s)) c div 512"
proof -
  let ?f = "unat (fat_start_sector (g_fat s))" and ?n = "unat (num_fats (g_fat s))"
    and ?p = "unat (sectors_per_fat (g_fat s))" and ?o = "entry_byte (ftype (g_fat s)) c div 512"
  have c: "c < 0x0FFFFFF8" "?o < ?p" using assms(2) by (simp_all add: fat_cluster_def)
  have "k * ?p + ?p \<le> ?n * ?p" using assms(3) by (metis add.commute mult_Suc mult_le_mono1 Suc_leI)
  then have lt: "?f + k * ?p + ?o < 2 ^ 32" using c(2) assms(1) unfolding fat_ok_def by linarith
  have o: "entry_sector_off (ftype (g_fat s)) c div 512 = of_nat ?o"
    unfolding entry_sector_off_div_mod(1) [OF c(1), symmetric] by simp
  have "copy_sec s c k = of_nat (?f + k * ?p + ?o)" by (simp add: copy_sec_def o)
  then show ?thesis using lt by (simp only: unat_of_nat) (simp add: take_bit_nat_eq_self)
qed

lemma copy_sec_eq_iff:
  assumes "fat_ok s" "fat_cluster s c" "fat_cluster s c'"
    "k < unat (num_fats (g_fat s))" "k' < unat (num_fats (g_fat s))"
  shows "copy_sec s c k = copy_sec s c' k' \<longleftrightarrow>
    k = k' \<and> entry_byte (ftype (g_fat s)) c div 512 = entry_byte (ftype (g_fat s)) c' div 512"
proof -
  let ?p = "unat (sectors_per_fat (g_fat s))"
  let ?o = "entry_byte (ftype (g_fat s)) c div 512" and ?o' = "entry_byte (ftype (g_fat s)) c' div 512"
  have o: "?o < ?p" "?o' < ?p" using assms(2,3) by (simp_all add: fat_cluster_def)
  have "copy_sec s c k = copy_sec s c' k' \<longleftrightarrow> k * ?p + ?o = k' * ?p + ?o'"
    using copy_sec_unat [OF assms(1,2,4)] copy_sec_unat [OF assms(1,3,5)]
    by (simp add: word_unat_eq_iff)
  also have "\<dots> \<longleftrightarrow> k = k' \<and> ?o = ?o'"
  proof
    assume eq: "k * ?p + ?o = k' * ?p + ?o'"
    have "(k * ?p + ?o) div ?p = k" "(k' * ?p + ?o') div ?p = k'" using o by simp_all
    with eq have "k = k'" by metis
    then show "k = k' \<and> ?o = ?o'" using eq by simp
  qed simp
  finally show ?thesis .
qed

lemma entry_fits:
  assumes "entry_byte t c mod 512 \<noteq> 511"
  shows "entry_byte t c mod 512 + entry_width t \<le> 512"
proof -
  have even: "unat c * 2 mod 512 = unat c mod 256 * 2" "unat c * 4 mod 512 = unat c mod 128 * 4"
    using mult_mod_left [of "unat c" 256 2] mult_mod_left [of "unat c" 128 4] by simp_all
  have lt: "unat c mod 256 < 256" "unat c mod 128 < 128" "entry_byte t c mod 512 < 512" by simp_all
  show ?thesis
  proof (cases t)
    case FAT_TYPE_12
    then show ?thesis using assms lt(3) by (simp add: entry_width_def)
  next
    case FAT_TYPE_16
    then show ?thesis using even(1) lt(1) by (simp add: entry_width_def entry_byte_def)
  next
    case FAT_TYPE_32
    then show ?thesis using even(2) lt(2) by (simp add: entry_width_def entry_byte_def)
  qed
qed

text \<open>The sectors written by the first \<open>n\<close> iterations, and what they hold then.\<close>

lemma copies_done:
  assumes "fat_ok s" "fat_cluster s c" "n \<le> unat (num_fats (g_fat s))"
  shows "fold_until (set_copy (ftype (g_fat s)) c v) [0..<n] s = Inr (fold (copy_done c v) [0..<n] s)
    \<and> fat_same s (fold (copy_done c v) [0..<n] s)
    \<and> (\<forall>k<n. \<forall>i<512. disk (fold (copy_done c v) [0..<n] s) (fat_lba (copy_sec s c k) s) i =
         entry_store (ftype (g_fat s)) c v (disk s (fat_lba (copy_sec s c k) s))
           (entry_byte (ftype (g_fat s)) c mod 512) i)
    \<and> (\<forall>lba. (\<forall>k<n. lba \<noteq> fat_lba (copy_sec s c k) s) \<longrightarrow>
         disk (fold (copy_done c v) [0..<n] s) lba = disk s lba)"
  using assms(3)
proof (induction n)
  case 0
  then show ?case by simp
next
  case (Suc n)
  let ?t = "fold (copy_done c v) [0..<n] s" and ?e = "entry_byte (ftype (g_fat s)) c mod 512"
  have IH: "fold_until (set_copy (ftype (g_fat s)) c v) [0..<n] s = Inr ?t" "fat_same s ?t"
    "\<And>k i. k < n \<Longrightarrow> i < 512 \<Longrightarrow> disk ?t (fat_lba (copy_sec s c k) s) i =
         entry_store (ftype (g_fat s)) c v (disk s (fat_lba (copy_sec s c k) s)) ?e i"
    "\<And>lba. (\<And>k. k < n \<Longrightarrow> lba \<noteq> fat_lba (copy_sec s c k) s) \<Longrightarrow> disk ?t lba = disk s lba"
    using Suc by auto
  have c: "c < 0x0FFFFFF8" "?e \<noteq> 511" using assms(2) by (simp_all add: fat_cluster_def)
  have g: "g_fat ?t = g_fat s" using IH(2) by (simp add: fat_same_def)
  have ok: "fat_io_ok ?t" "bytes_per_sector (g_fat ?t) = 512"
    using fat_same_io_ok [OF IH(2)] assms(1) by (simp_all add: g fat_ok_def fat_io_ok_def)
  have step: "set_copy (ftype (g_fat s)) c v n ?t = Inr (copy_done c v n ?t)"
    using set_copy_ok [OF ok c(1)] c(2) by (simp add: g)
  have fresh: "fat_lba (copy_sec s c n) s \<noteq> fat_lba (copy_sec s c k) s" if "k < n" for k
    using copy_sec_eq_iff [OF assms(1,2,2), of n k] that Suc.prems by simp
  have sec: "copy_sec ?t c n = copy_sec s c n" "fat_lba a ?t = fat_lba a s" for a
    by (simp_all add: copy_sec_def g fat_lba_def)
  let ?u = "copy_done c v n ?t" and ?l = "fat_lba (copy_sec s c n) s"
  have before: "disk ?t ?l = disk s ?l" using IH(4) fresh by blast
  have other: "disk ?u lba = disk ?t lba" if "lba \<noteq> ?l" for lba
    using that by (simp add: copy_done_def Let_def put_sector_def sec fat_lba_cong [of "load_sector a s" s for a]
        load_sector_def g fat_lba_def)
  have e: "?e + entry_width (ftype (g_fat s)) \<le> 512"
    using entry_fits [OF c(2)] .
  have new: "disk ?u ?l i = entry_store (ftype (g_fat s)) c v (disk s ?l) ?e i" if "i < 512" for i
  proof -
    let ?b = "sector_buf (load_sector (copy_sec s c n) ?t)"
    have b: "?b j = disk s ?l j" if "j < 512" for j
      using load_sector_byte [OF that, of "copy_sec s c n" ?t] by (simp add: sec before)
    have "disk ?u ?l i = entry_store (ftype (g_fat s)) c v ?b ?e i"
      using that by (simp add: copy_done_def Let_def put_sector_def sec g fat_lba_def load_sector_def buf_copy_def)
    also have "\<dots> = entry_store (ftype (g_fat s)) c v (disk s ?l) ?e i"
    proof (cases "?e \<le> i \<and> i < ?e + entry_width (ftype (g_fat s))")
      case True
      then obtain j where j: "i = ?e + j" "j < entry_width (ftype (g_fat s))"
        by (metis le_add_diff_inverse nat_add_left_cancel_less)
      have "?b (?e + j) = disk s ?l (?e + j)" if "j < entry_width (ftype (g_fat s))" for j
        using b [of "?e + j"] e that by linarith
      then show ?thesis unfolding j(1) using j(2) by (intro entry_store_local) auto
    next
      case False
      then have "i < ?e \<or> ?e + entry_width (ftype (g_fat s)) \<le> i" by linarith
      then show ?thesis using b [OF that] by (simp add: entry_store_outside)
    qed
    finally show ?thesis .
  qed
  have eq: "fold (copy_done c v) [0..<Suc n] s = ?u" by simp
  have run: "fold_until (set_copy (ftype (g_fat s)) c v) [0..<Suc n] s = Inr ?u"
    using IH(1) step by (simp add: fold_until_append)
  have same: "fat_same s ?u" using fat_same_trans [OF IH(2)] by simp
  have all: "disk ?u (fat_lba (copy_sec s c k) s) i =
      entry_store (ftype (g_fat s)) c v (disk s (fat_lba (copy_sec s c k) s)) ?e i"
    if "k < Suc n" "i < 512" for k i
  proof (cases "k = n")
    case True
    then show ?thesis using new [OF that(2)] by simp
  next
    case False
    then have "k < n" using that(1) by simp
    then show ?thesis using other [of "fat_lba (copy_sec s c k) s"] fresh [of k] IH(3) that(2) by metis
  qed
  have rest: "disk ?u lba = disk s lba" if "\<And>k. k < Suc n \<Longrightarrow> lba \<noteq> fat_lba (copy_sec s c k) s" for lba
    using that other [of lba] IH(4) [of lba] by (metis less_Suc_eq)
  show ?case unfolding eq run using same all rest by blast
qed

subsection \<open>Reading and writing entries\<close>

lemma fat_bytes_at:
  "k < 512 \<Longrightarrow> fat_bytes s (512 * q + k) = disk s (fat_lba (fat_start_sector (g_fat s) + of_nat q) s) k"
  by (simp add: fat_bytes_def)

lemma FatGetFatEntry_entry:
  assumes "fat_ok s" "fat_cluster s c"
  shows "fst (FatGetFatEntry c s) = fat_entry s c" "fat_same s (snd (FatGetFatEntry c s))"
    "disk (snd (FatGetFatEntry c s)) = disk s"
proof -
  let ?t = "ftype (g_fat s)"
  let ?q = "entry_byte ?t c div 512" and ?r = "entry_byte ?t c mod 512"
  let ?s1 = "load_sector (fat_start_sector (g_fat s) + entry_sector_off ?t c div 512) s"
  have c: "c < 0x0FFFFFF8" "?r \<noteq> 511" using assms(2) by (simp_all add: fat_cluster_def)
  have q: "entry_sector_off ?t c div 512 = of_nat ?q"
    unfolding entry_sector_off_div_mod(1) [OF c(1), symmetric] by simp
  note g = FatGetFatEntry_load [OF assms, unfolded Let_def]
  have "sector_buf ?s1 (?r + j) = fat_bytes s (512 * ?q + (?r + j))" if "j < entry_width ?t" for j
  proof -
    have lt: "?r + j < 512" using entry_fits [OF c(2)] that by linarith
    show ?thesis unfolding fat_bytes_at [OF lt] load_sector_byte [OF lt] q ..
  qed
  then have "entry_load ?t c (sector_buf ?s1) ?r = entry_load ?t c (fat_bytes s) (entry_byte ?t c)"
    by (intro entry_load_local) (simp add: mult_div_mod_eq flip: add.assoc)
  then show "fst (FatGetFatEntry c s) = fat_entry s c" by (simp add: g fat_entry_def)
  show "fat_same s (snd (FatGetFatEntry c s))" "disk (snd (FatGetFatEntry c s)) = disk s"
    by (simp_all add: g)
qed

lemma fat_entry_cong:
  "fat_same s t \<Longrightarrow> disk t = disk s \<Longrightarrow> fat_entry t = fat_entry s"
  by (rule ext) (simp add: fat_entry_def fat_bytes_def fat_same_def fat_lba_def)

text \<open>LBAs of the table's copies; a store leaves every other sector alone.\<close>

definition fat_area :: "fat \<Rightarrow> u64 set" where
  "fat_area s = (\<lambda>i. fat_lba (fat_start_sector (g_fat s) + of_nat i) s)
     ` {..<unat (num_fats (g_fat s)) * unat (sectors_per_fat (g_fat s))}"

lemma copy_sec_area:
  assumes "fat_ok s" "fat_cluster s c" "k < unat (num_fats (g_fat s))"
  shows "fat_lba (copy_sec s c k) s \<in> fat_area s"
proof -
  let ?p = "unat (sectors_per_fat (g_fat s))" and ?o = "entry_byte (ftype (g_fat s)) c div 512"
  have o: "?o < ?p" and c: "c < 0x0FFFFFF8" using assms(2) by (simp_all add: fat_cluster_def)
  have "k * ?p + ?p \<le> unat (num_fats (g_fat s)) * ?p"
    using assms(3) by (metis add.commute mult_Suc mult_le_mono1 Suc_leI)
  then have lt: "k * ?p + ?o < unat (num_fats (g_fat s)) * ?p" using o by linarith
  have "entry_sector_off (ftype (g_fat s)) c div 512 = of_nat ?o"
    unfolding entry_sector_off_div_mod(1) [OF c, symmetric] by simp
  then have "copy_sec s c k = fat_start_sector (g_fat s) + of_nat (k * ?p + ?o)"
    by (simp add: copy_sec_def)
  then show ?thesis unfolding fat_area_def using lt by (intro image_eqI [where x = "k * ?p + ?o"]) auto
qed

lemma FatSetFatEntry_store:
  assumes "fat_ok s" "fat_cluster s c"
  shows "fst (FatSetFatEntry c v s) = STATUS_SUCCESS" "fat_same s (snd (FatSetFatEntry c v s))"
    and "\<And>lba. lba \<notin> fat_area s \<Longrightarrow> disk (snd (FatSetFatEntry c v s)) lba = disk s lba"
    and "\<And>i. i < unat (sectors_per_fat (g_fat s)) * 512 \<Longrightarrow> fat_bytes (snd (FatSetFatEntry c v s)) i =
      entry_store (ftype (g_fat s)) c v (fat_bytes s) (entry_byte (ftype (g_fat s)) c) i"
proof -
  let ?n = "unat (num_fats (g_fat s))" and ?t = "ftype (g_fat s)" and ?p = "unat (sectors_per_fat (g_fat s))"
  let ?u = "fold (copy_done c v) [0..<?n] s" and ?e = "entry_byte ?t c mod 512" and ?o = "entry_byte ?t c div 512"
  note d = copies_done [OF assms order_refl, of v]
  have init: "g_fat_initialized s" "have_buf s" "0 < ?n" "unat (fat_start_sector (g_fat s)) + ?n * ?p < 2 ^ 32"
    using assms(1) by (auto simp: fat_ok_def word_gt_0 unat_gt_0)
  have c: "\<not> c < 2" "c < 0x0FFFFFF8" "?e \<noteq> 511" "?o < ?p"
    using assms(2) by (auto simp: fat_cluster_def not_less)
  have run: "FatSetFatEntry c v s = (STATUS_SUCCESS, ?u)"
    using d init c(1) by (simp add: FatSetFatEntry_def set_copy_def [symmetric] Let_def)
  show "fst (FatSetFatEntry c v s) = STATUS_SUCCESS" "fat_same s (snd (FatSetFatEntry c v s))"
    using d by (simp_all add: run)
  show "disk (snd (FatSetFatEntry c v s)) lba = disk s lba" if "lba \<notin> fat_area s" for lba
    using d that copy_sec_area [OF assms] by (metis run snd_conv)
  show "fat_bytes (snd (FatSetFatEntry c v s)) i = entry_store ?t c v (fat_bytes s) (entry_byte ?t c) i"
    if i: "i < ?p * 512" for i
  proof -
    have g: "g_fat ?u = g_fat s" using d by (simp add: fat_same_def)
    let ?q = "i div 512" and ?k = "i mod 512"
    have i': "i = 512 * ?q + ?k" "?k < 512" "?q < ?p" using i by (simp_all add: div_less_iff_less_mult)
    let ?sec = "fat_start_sector (g_fat s) + of_nat ?q"
    have sec_unat: "unat (fat_start_sector (g_fat s) + of_nat q) = unat (fat_start_sector (g_fat s)) + q"
      if "q < ?p" for q
    proof -
      have "?p \<le> ?n * ?p" using init(3) by simp
      then have "unat (fat_start_sector (g_fat s)) + q < 2 ^ 32" using init(4) that by linarith
      moreover have "fat_start_sector (g_fat s) + of_nat q = of_nat (unat (fat_start_sector (g_fat s)) + q)"
        by simp
      ultimately show ?thesis by (simp only: unat_of_nat) (simp add: take_bit_nat_eq_self)
    qed
    have left: "fat_bytes (snd (FatSetFatEntry c v s)) i = disk ?u (fat_lba ?sec s) ?k"
      by (simp add: run fat_bytes_def g fat_lba_def)
    have bytes: "fat_bytes s (512 * ?q + j) = disk s (fat_lba ?sec s) j" if "j < 512" for j
      using that by (rule fat_bytes_at)
    have first: "copy_sec s c k = ?sec \<longleftrightarrow> k = 0 \<and> ?q = ?o" if "k < ?n" for k
    proof -
      have "copy_sec s c k = ?sec \<longleftrightarrow> k * ?p + ?o = ?q"
        using copy_sec_unat [OF assms that] sec_unat [OF i'(3)] by (simp add: word_unat_eq_iff)
      also have "\<dots> \<longleftrightarrow> k = 0 \<and> ?q = ?o"
        using i'(3) by (cases k) auto
      finally show ?thesis .
    qed
    show ?thesis
    proof (cases "?q = ?o")
      case True
      have "disk ?u (fat_lba ?sec s) ?k = entry_store ?t c v (disk s (fat_lba ?sec s)) ?e ?k"
        using d first [OF init(3)] True init(3) i'(2) by metis
      also have "\<dots> = entry_store ?t c v (fat_bytes s) (512 * ?q + ?e) (512 * ?q + ?k)"
      proof (cases "?e \<le> ?k \<and> ?k < ?e + entry_width ?t")
        case True
        then obtain j where j: "?k = ?e + j" "j < entry_width ?t"
          by (metis le_add_diff_inverse nat_add_left_cancel_less)
        have "disk s (fat_lba ?sec s) (?e + j) = fat_bytes s (512 * ?q + ?e + j)" if "j < entry_width ?t" for j
          using bytes [of "?e + j"] entry_fits [OF c(3)] that by (simp add: add.assoc)
        then have "entry_store ?t c v (disk s (fat_lba ?sec s)) ?e (?e + j)
            = entry_store ?t c v (fat_bytes s) (512 * ?q + ?e) (512 * ?q + ?e + j)"
          using j(2) by (rule entry_store_local)
        then show ?thesis unfolding j(1) by (simp only: add.assoc)
      next
        case False
        then have out: "?k < ?e \<or> ?e + entry_width ?t \<le> ?k" by linarith
        then have "entry_store ?t c v (disk s (fat_lba ?sec s)) ?e ?k = disk s (fat_lba ?sec s) ?k"
          by (rule entry_store_outside)
        moreover have "512 * ?q + ?k < 512 * ?q + ?e \<or> 512 * ?q + ?e + entry_width ?t \<le> 512 * ?q + ?k"
          using out by linarith
        then have "entry_store ?t c v (fat_bytes s) (512 * ?q + ?e) (512 * ?q + ?k) = fat_bytes s (512 * ?q + ?k)"
          by (rule entry_store_outside)
        ultimately show ?thesis using bytes [OF i'(2)] by metis
      qed
      finally show ?thesis
        unfolding left using i'(1) True by (metis mult_div_mod_eq)
    next
      case False
      then have "fat_lba ?sec s \<noteq> fat_lba (copy_sec s c k) s" if "k < ?n" for k
        using first [OF that] by auto
      then have same: "disk ?u (fat_lba ?sec s) = disk s (fat_lba ?sec s)" using d by blast
      have "512 * ?o + ?e = entry_byte ?t c" by simp
      moreover have "?q < ?o \<or> ?o < ?q" using False by linarith
      ultimately have "i < entry_byte ?t c \<or> entry_byte ?t c + entry_width ?t \<le> i"
        using i'(1,2) entry_fits [OF c(3)] by linarith
      then have "entry_store ?t c v (fat_bytes s) (entry_byte ?t c) i = fat_bytes s i"
        by (rule entry_store_outside)
      then show ?thesis unfolding left same using bytes [OF i'(2)] i'(1) by metis
    qed
  qed
qed

lemma FatSetFatEntry_entry:
  assumes "fat_ok s" "fat_cluster s c" "fat_cluster s c'"
  shows "fat_entry (snd (FatSetFatEntry c v s)) c' =
    (if c' = c then v AND entry_mask (ftype (g_fat s)) else fat_entry s c')"
proof -
  let ?s = "snd (FatSetFatEntry c v s)" and ?t = "ftype (g_fat s)"
  note st = FatSetFatEntry_store [OF assms(1,2), where v = v]
  have t: "ftype (g_fat ?s) = ?t" using st(2) by (simp add: fat_same_def)
  have "fat_bytes ?s (entry_byte ?t c' + j) =
      entry_store ?t c v (fat_bytes s) (entry_byte ?t c) (entry_byte ?t c' + j)" if "j < entry_width ?t" for j
  proof -
    have "entry_byte ?t c' mod 512 + j < 512"
      using entry_fits [of ?t c'] that assms(3) unfolding fat_cluster_def by linarith
    moreover have "entry_byte ?t c' div 512 < unat (sectors_per_fat (g_fat s))"
      using assms(3) by (simp add: fat_cluster_def)
    moreover have "entry_byte ?t c' = 512 * (entry_byte ?t c' div 512) + entry_byte ?t c' mod 512" by simp
    ultimately have "entry_byte ?t c' + j < unat (sectors_per_fat (g_fat s)) * 512" by linarith
    then show ?thesis by (rule st(4))
  qed
  then have "fat_entry ?s c' =
      entry_load ?t c' (entry_store ?t c v (fat_bytes s) (entry_byte ?t c)) (entry_byte ?t c')"
    unfolding fat_entry_def t by (rule entry_load_local)
  then show ?thesis
    using entry_load_store_same [of ?t c v "fat_bytes s"] entry_load_store_other [of c c' ?t v "fat_bytes s"]
    by (simp add: fat_entry_def)
qed

section \<open>A store of cluster links\<close>

text \<open>
  What allocation and release need from the table: reading an entry changes no entry, writing
  an entry changes just that one. \<open>ent\<close> is the value an entry has.
\<close>

locale link_store =
  fixes ok :: "'s \<Rightarrow> bool"
    and valid :: "'s \<Rightarrow> u32 \<Rightarrow> bool"
    and ent :: "'s \<Rightarrow> u32 \<Rightarrow> u32"
    and get :: "u32 \<Rightarrow> 's \<Rightarrow> u32 \<times> 's"
    and put :: "u32 \<Rightarrow> u32 \<Rightarrow> 's \<Rightarrow> ntstatus \<times> 's"
    and mask' :: "'s \<Rightarrow> u32"
  assumes get_ent: "ok s \<Longrightarrow> valid s c \<Longrightarrow> fst (get c s) = ent s c"
    and get_ok: "ok s \<Longrightarrow> valid s c \<Longrightarrow> ok (snd (get c s))"
    and get_frame: "ok s \<Longrightarrow> valid s c \<Longrightarrow>
      valid (snd (get c s)) = valid s \<and> ent (snd (get c s)) = ent s \<and> mask' (snd (get c s)) = mask' s"
    and put_ok: "ok s \<Longrightarrow> valid s c \<Longrightarrow> ok (snd (put c v s)) \<and> NT_SUCCESS (fst (put c v s))"
    and put_frame: "ok s \<Longrightarrow> valid s c \<Longrightarrow>
      valid (snd (put c v s)) = valid s \<and> mask' (snd (put c v s)) = mask' s"
    and put_ent: "ok s \<Longrightarrow> valid s c \<Longrightarrow> valid s c' \<Longrightarrow>
      ent (snd (put c v s)) c' = (if c' = c then v AND mask' s else ent s c')"

text \<open>The clusters of a chain, from a first cluster to an entry that is no link.\<close>

fun link_chain :: "(u32 \<Rightarrow> u32) \<Rightarrow> u32 \<Rightarrow> u32 \<Rightarrow> u32 list \<Rightarrow> bool" where
  "link_chain e eof c [] \<longleftrightarrow> False"
| "link_chain e eof c (x # xs) \<longleftrightarrow> c = x \<and> 2 \<le> x \<and> x < eof
     \<and> (if xs = [] then e x < 2 \<or> eof \<le> e x else link_chain e eof (e x) xs)"

lemma link_chain_det: "link_chain e eof c xs \<Longrightarrow> link_chain e eof c ys \<Longrightarrow> xs = ys"
proof (induction xs arbitrary: c ys)
  case Nil
  then show ?case by simp
next
  case (Cons x xs)
  then obtain ys' where ys: "ys = x # ys'" by (cases ys) auto
  have next': "\<not> (e x < 2 \<or> eof \<le> e x)" if "link_chain e eof (e x) zs" for zs
    using that by (cases zs) (auto simp: not_less not_le)
  show ?case
  proof (cases "xs = [] \<or> ys' = []")
    case True
    then have "xs = [] \<and> ys' = []"
      using Cons.prems next' unfolding ys by (auto split: if_splits)
    then show ?thesis by (simp add: ys)
  next
    case False
    then show ?thesis using Cons.IH [of "e x" ys'] Cons.prems unfolding ys by simp
  qed
qed

lemma link_chain_suffix: "link_chain e eof c (xs @ y # ys) \<Longrightarrow> link_chain e eof y (y # ys)"
proof (induction xs arbitrary: c)
  case Nil
  then show ?case by simp
next
  case (Cons x xs)
  then have "link_chain e eof (e x) (xs @ y # ys)" by (simp split: if_splits)
  then show ?case by (rule Cons.IH)
qed

lemma link_chain_distinct: "link_chain e eof c xs \<Longrightarrow> distinct xs"
proof (rule ccontr)
  assume chain: "link_chain e eof c xs" and "\<not> distinct xs"
  then obtain as y bs cs where xs: "xs = as @ [y] @ bs @ [y] @ cs" by (metis not_distinct_decomp)
  have "link_chain e eof y (y # bs @ y # cs)"
    by (rule link_chain_suffix [of e eof c as]) (use chain xs in simp)
  moreover have "link_chain e eof y (y # cs)"
    by (rule link_chain_suffix [of e eof c "as @ y # bs"]) (use chain xs in simp)
  ultimately show False using link_chain_det by (metis append_Cons length_append_singleton
      append.right_neutral list.inject self_append_conv2 append_self_conv2 append_assoc append_eq_append_conv2 not_Cons_self2 append_is_Nil_conv append_same_eq)
qed

context link_store
begin

text \<open>Releasing clusters one by one: read the entry, then clear it.\<close>

definition release_one :: "u32 \<Rightarrow> 's \<Rightarrow> 's" where
  "release_one c s = snd (put c 0 (snd (get c s)))"

lemma release_one_spec:
  assumes "ok s" "valid s c"
  shows "ok (release_one c s)" "valid (release_one c s) = valid s"
    "valid s c' \<Longrightarrow> ent (release_one c s) c' = (if c' = c then 0 else ent s c')"
proof -
  let ?s = "snd (get c s)"
  have g: "ok ?s" "valid ?s = valid s" "ent ?s = ent s" using get_ok [OF assms] get_frame [OF assms] by auto
  have v: "valid ?s c" using g(2) assms(2) by simp
  show "ok (release_one c s)" "valid (release_one c s) = valid s"
    using put_ok [OF g(1) v] put_frame [OF g(1) v] g(2) by (simp_all add: release_one_def)
  show "valid s c' \<Longrightarrow> ent (release_one c s) c' = (if c' = c then 0 else ent s c')"
    using put_ent [OF g(1) v, of c' 0] g(2,3) by (simp add: release_one_def)
qed

lemma release_list_spec:
  assumes "ok s" "\<forall>c\<in>set cs. valid s c"
  shows "ok (fold release_one cs s) \<and> valid (fold release_one cs s) = valid s
    \<and> (\<forall>c'. valid s c' \<longrightarrow> ent (fold release_one cs s) c' = (if c' \<in> set cs then 0 else ent s c'))"
  using assms
proof (induction cs arbitrary: s)
  case Nil
  then show ?case by simp
next
  case (Cons c cs)
  then have c: "valid s c" by simp
  note r = release_one_spec [OF Cons.prems(1) c]
  from Cons.IH [OF r(1)] Cons.prems(2) r(2,3) show ?case by simp
qed

text \<open>How many entries are in use; every release of a used entry lowers it.\<close>

definition used_entries :: "'s \<Rightarrow> nat" where
  "used_entries s = card {c. valid s c \<and> ent s c \<noteq> 0}"

lemma release_one_used:
  assumes "ok s" "valid s c" "ent s c \<noteq> 0"
  shows "used_entries (release_one c s) < used_entries s"
proof -
  have "{c'. valid (release_one c s) c' \<and> ent (release_one c s) c' \<noteq> 0} =
      {c'. valid s c' \<and> ent s c' \<noteq> 0} - {c}"
    using release_one_spec(2) [OF assms(1,2)] release_one_spec(3) [OF assms(1,2)]
    by (auto split: if_splits)
  moreover have "finite {c'. valid s c' \<and> ent s c' \<noteq> 0}" by simp
  ultimately show ?thesis unfolding used_entries_def using assms(2,3)
    by (metis (mono_tags, lifting) card_Diff1_less mem_Collect_eq)
qed

end

definition fat_mask :: "fat \<Rightarrow> u32" where
  "fat_mask s = entry_mask (ftype (g_fat s))"

lemma fat_same_mask: "fat_same s t \<Longrightarrow> fat_mask t = fat_mask s"
  by (simp add: fat_same_def fat_mask_def)

interpretation fat_links: link_store fat_ok fat_cluster fat_entry FatGetFatEntry FatSetFatEntry fat_mask
proof
  fix s :: fat and c c' v :: u32
  assume ok: "fat_ok s" "fat_cluster s c"
  note g = FatGetFatEntry_entry [OF ok] and p = FatSetFatEntry_store [OF ok, where v = v]
  show "fst (FatGetFatEntry c s) = fat_entry s c" by (rule g(1))
  show "fat_ok (snd (FatGetFatEntry c s))" using fat_same_ok [OF g(2)] ok(1) by simp
  show "fat_cluster (snd (FatGetFatEntry c s)) = fat_cluster s \<and> fat_entry (snd (FatGetFatEntry c s)) = fat_entry s
    \<and> fat_mask (snd (FatGetFatEntry c s)) = fat_mask s"
    using fat_same_cluster [OF g(2)] fat_entry_cong [OF g(2,3)] fat_same_mask [OF g(2)] by auto
  show "fat_ok (snd (FatSetFatEntry c v s)) \<and> NT_SUCCESS (fst (FatSetFatEntry c v s))"
    using fat_same_ok [OF p(2)] ok(1) p(1) by simp
  show "fat_cluster (snd (FatSetFatEntry c v s)) = fat_cluster s \<and> fat_mask (snd (FatSetFatEntry c v s)) = fat_mask s"
    using fat_same_cluster [OF p(2)] fat_same_mask [OF p(2)] by auto
  assume "fat_cluster s c'"
  then show "fat_entry (snd (FatSetFatEntry c v s)) c' = (if c' = c then v AND fat_mask s else fat_entry s c')"
    using FatSetFatEntry_entry [OF ok] by (simp add: fat_mask_def)
qed

lemma free_chain_loop_step:
  assumes "2 \<le> c" "c < eof"
  shows "free_chain_loop eof c s =
    (if fst (FatGetFatEntry c s) < 2 \<or> eof \<le> fst (FatGetFatEntry c s) then Some (fat_links.release_one c s)
     else free_chain_loop eof (fst (FatGetFatEntry c s)) (fat_links.release_one c s))"
  using assms
  by (subst free_chain_loop.simps) (simp add: fat_links.release_one_def case_prod_unfold Let_def)

lemma free_chain_loop_chain:
  assumes "fat_ok s" "link_chain (fat_entry s) eof c cs" "\<forall>x\<in>set cs. fat_cluster s x" "distinct cs"
  shows "free_chain_loop eof c s = Some (fold fat_links.release_one cs s)"
  using assms
proof (induction cs arbitrary: c s)
  case Nil
  then show ?case by simp
next
  case (Cons x xs)
  then have x: "c = x" "2 \<le> x" "x < eof" "fat_cluster s x" by simp_all
  note r = fat_links.release_one_spec [OF Cons.prems(1) x(4)]
  have get: "fst (FatGetFatEntry x s) = fat_entry s x" by (rule fat_links.get_ent [OF Cons.prems(1) x(4)])
  show ?case
  proof (cases "xs = []")
    case True
    then show ?thesis using Cons.prems x by (simp add: free_chain_loop_step get)
  next
    case False
    then have chain: "link_chain (fat_entry s) eof (fat_entry s x) xs" using Cons.prems(2) by simp
    then have link: "2 \<le> fat_entry s x" "fat_entry s x < eof" by (cases xs; simp)+
    have "link_chain e eof d ys \<Longrightarrow> (\<And>y. y \<in> set ys \<Longrightarrow> e y = e' y) \<Longrightarrow> link_chain e' eof d ys" for e e' d ys
      by (induction ys arbitrary: d) (auto split: if_splits)
    moreover have "fat_entry s y = fat_entry (fat_links.release_one x s) y" if "y \<in> set xs" for y
      using r(3) [of y] Cons.prems(3,4) that by auto
    ultimately have "link_chain (fat_entry (fat_links.release_one x s)) eof (fat_entry s x) xs"
      using chain by blast
    from Cons.IH [OF r(1) this] show ?thesis
      using Cons.prems(3,4) r(2) x link by (simp add: free_chain_loop_step get not_less [symmetric])
  qed
qed

text \<open>Whatever the links, cyclic ones included, the loop ends.\<close>

lemma free_chain_loop_total:
  assumes "fat_ok s" "fat_cluster s c"
    and "\<forall>x. fat_cluster s x \<and> 2 \<le> fat_entry s x \<and> fat_entry s x < eof \<longrightarrow> fat_cluster s (fat_entry s x)"
  shows "free_chain_loop eof c s \<noteq> None"
  using assms
proof (induction "fat_links.used_entries s" arbitrary: s c rule: less_induct)
  case less
  note r = fat_links.release_one_spec [OF less.prems(1,2)]
  have get: "fst (FatGetFatEntry c s) = fat_entry s c" by (rule fat_links.get_ent [OF less.prems(1,2)])
  have ge: "2 \<le> c" using less.prems(2) by (simp add: fat_cluster_def)
  show ?case
  proof (cases "c < eof \<and> 2 \<le> fat_entry s c \<and> fat_entry s c < eof")
    case False
    then have "c < eof \<Longrightarrow> fst (FatGetFatEntry c s) < 2 \<or> eof \<le> fst (FatGetFatEntry c s)"
      by (auto simp: get not_less not_le)
    then have "c < eof \<Longrightarrow> free_chain_loop eof c s = Some (fat_links.release_one c s)"
      using ge by (simp only: free_chain_loop_step if_True)
    moreover have "\<not> c < eof \<Longrightarrow> free_chain_loop eof c s = Some s"
      by (subst free_chain_loop.simps) simp
    ultimately show ?thesis by (cases "c < eof") simp_all
  next
    case True
    let ?s = "fat_links.release_one c s"
    have "fat_entry s c \<noteq> 0" using True by auto
    then have "fat_links.used_entries ?s < fat_links.used_entries s"
      by (rule fat_links.release_one_used [OF less.prems(1,2)])
    moreover have "fat_cluster ?s (fat_entry s c)" using less.prems(2,3) True r(2) by simp
    moreover have "\<forall>x. fat_cluster ?s x \<and> 2 \<le> fat_entry ?s x \<and> fat_entry ?s x < eof \<longrightarrow>
        fat_cluster ?s (fat_entry ?s x)"
    proof (intro allI impI)
      fix x assume x: "fat_cluster ?s x \<and> 2 \<le> fat_entry ?s x \<and> fat_entry ?s x < eof"
      then have "fat_entry ?s x = (if x = c then 0 else fat_entry s x)" using r(2,3) by simp
      moreover have "\<not> (2 :: u32) \<le> 0" by simp
      ultimately have "fat_entry ?s x = fat_entry s x" using x by (auto split: if_splits)
      then show "fat_cluster ?s (fat_entry ?s x)" using x less.prems(3) r(2) by simp
    qed
    ultimately have "free_chain_loop eof (fat_entry s c) ?s \<noteq> None" using less.hyps r(1) by blast
    then show ?thesis using True ge by (simp add: free_chain_loop_step get not_less [symmetric])
  qed
qed

subsection \<open>The allocation scan\<close>

lemma alloc_scan:
  assumes "fat_ok s" "\<forall>c\<in>set cs. fat_cluster s c" "eof AND fat_mask s = eof"
  shows "case fold_until (alloc_try eof) cs s of
      Inr s' \<Rightarrow> fat_same s s' \<and> disk s' = disk s \<and> (\<forall>c\<in>set cs. fat_entry s c \<noteq> 0)
    | Inl (c, s') \<Rightarrow> (\<exists>as bs. cs = as @ c # bs \<and> (\<forall>x\<in>set as. fat_entry s x \<noteq> 0))
        \<and> fat_entry s c = 0 \<and> g_last_allocated_cluster s' = c + 1
        \<and> fat_same s (s'\<lparr>g_last_allocated_cluster := g_last_allocated_cluster s\<rparr>)
        \<and> (\<forall>c'. fat_cluster s c' \<longrightarrow> fat_entry s' c' = (if c' = c then eof else fat_entry s c'))
        \<and> (\<forall>lba. lba \<notin> fat_area s \<longrightarrow> disk s' lba = disk s lba)"
  using assms
proof (induction cs arbitrary: s)
  case Nil
  then show ?case by simp
next
  case (Cons x xs)
  let ?s1 = "snd (FatGetFatEntry x s)"
  have x: "fat_cluster s x" using Cons.prems by simp
  note g = FatGetFatEntry_entry [OF Cons.prems(1) x]
  have ok1: "fat_ok ?s1" "fat_cluster ?s1 = fat_cluster s" "fat_mask ?s1 = fat_mask s"
    using fat_same_ok [OF g(2)] fat_same_cluster [OF g(2)] fat_same_mask [OF g(2)] Cons.prems(1) by auto
  have ent1: "fat_entry ?s1 = fat_entry s" by (rule fat_entry_cong [OF g(2,3)])
  have area: "fat_area t = fat_area s" if "fat_same s t" for t
    using that by (simp add: fat_area_def fat_same_def fat_lba_def)
  show ?case
  proof (cases "fat_entry s x = 0")
    case True
    let ?p = "FatSetFatEntry x eof ?s1"
    have x1: "fat_cluster ?s1 x" using x ok1(2) by simp
    note p = FatSetFatEntry_store [OF ok1(1) x1, where v = eof]
    have step: "alloc_try eof x s = Inl (x, snd ?p\<lparr>g_last_allocated_cluster := x + 1\<rparr>)"
      using True g(1) p(1) by (simp add: alloc_try_def case_prod_unfold Let_def)
    have "fat_entry (snd ?p) c' = (if c' = x then eof else fat_entry s c')" if "fat_cluster s c'" for c'
      using FatSetFatEntry_entry [OF ok1(1) x1, of c' eof] that ok1(2,3) ent1 Cons.prems(3)
      by (simp add: fat_mask_def)
    moreover have "fat_entry (snd ?p\<lparr>g_last_allocated_cluster := x + 1\<rparr>) = fat_entry (snd ?p)"
      by (simp add: fat_entry_def fat_bytes_def fat_lba_def fun_eq_iff)
    moreover have "fat_same s (snd ?p)" by (rule fat_same_trans [OF g(2) p(2)])
    then have "fat_same s (snd ?p\<lparr>g_last_allocated_cluster := g_last_allocated_cluster s\<rparr>)"
      by (simp add: fat_same_def)
    moreover have "disk (snd ?p) lba = disk s lba" if "lba \<notin> fat_area s" for lba
      using p(3) [of lba] that area [OF g(2)] g(3) by simp
    ultimately show ?thesis using True step by (auto intro: exI [of _ "[]"])
  next
    case False
    have step: "alloc_try eof x s = Inr ?s1"
      using False g(1) by (simp add: alloc_try_def case_prod_unfold Let_def)
    have IH: "case fold_until (alloc_try eof) xs ?s1 of
      Inr s' \<Rightarrow> fat_same ?s1 s' \<and> disk s' = disk ?s1 \<and> (\<forall>c\<in>set xs. fat_entry ?s1 c \<noteq> 0)
    | Inl (c, s') \<Rightarrow> (\<exists>as bs. xs = as @ c # bs \<and> (\<forall>x\<in>set as. fat_entry ?s1 x \<noteq> 0))
        \<and> fat_entry ?s1 c = 0 \<and> g_last_allocated_cluster s' = c + 1
        \<and> fat_same ?s1 (s'\<lparr>g_last_allocated_cluster := g_last_allocated_cluster ?s1\<rparr>)
        \<and> (\<forall>c'. fat_cluster ?s1 c' \<longrightarrow> fat_entry s' c' = (if c' = c then eof else fat_entry ?s1 c'))
        \<and> (\<forall>lba. lba \<notin> fat_area ?s1 \<longrightarrow> disk s' lba = disk ?s1 lba)"
      using Cons.IH [OF ok1(1)] Cons.prems(2,3) ok1(2,3) by simp
    have last: "g_last_allocated_cluster ?s1 = g_last_allocated_cluster s" using g(2) by (simp add: fat_same_def)
    show ?thesis
    proof (cases "fold_until (alloc_try eof) xs ?s1")
      case (Inr s')
      then show ?thesis using IH step False fat_same_trans [OF g(2)] g(3) ent1 by simp
    next
      case (Inl r)
      obtain c s' where r: "r = (c, s')" by fastforce
      from IH Inl r obtain as bs where ab: "xs = as @ c # bs" "\<forall>x\<in>set as. fat_entry s x \<noteq> 0"
        and rest: "fat_entry s c = 0" "g_last_allocated_cluster s' = c + 1"
          "fat_same ?s1 (s'\<lparr>g_last_allocated_cluster := g_last_allocated_cluster s\<rparr>)"
          "\<forall>c'. fat_cluster s c' \<longrightarrow> fat_entry s' c' = (if c' = c then eof else fat_entry s c')"
          "\<forall>lba. lba \<notin> fat_area s \<longrightarrow> disk s' lba = disk s lba"
        using area [OF g(2)] by (auto simp: ent1 ok1(2) last g(3))
      have "x # xs = (x # as) @ c # bs" "\<forall>y\<in>set (x # as). fat_entry s y \<noteq> 0" using ab False by auto
      moreover have run: "fold_until (alloc_try eof) (x # xs) s = Inl (c, s')"
        using step Inl r by simp
      ultimately show ?thesis unfolding run sum.case prod.case
        using rest fat_same_trans [OF g(2) rest(3)] by blast
    qed
  qed
qed

lemma set_u32_range: "set (u32_range a b) = {x. a \<le> x \<and> x < b}"
proof
  show "set (u32_range a b) \<subseteq> {x. a \<le> x \<and> x < b}"
  proof
    fix x assume "x \<in> set (u32_range a b)"
    then obtain i where i: "unat a \<le> i" "i < unat b" "x = of_nat i" by (auto simp: u32_range_def)
    have "i < 2 ^ 32" using i(2) unsigned_less [of b, where ?'a = nat] by simp
    then have "unat x = i" using i(3) by (simp add: unat_of_nat take_bit_nat_eq_self)
    then show "x \<in> {x. a \<le> x \<and> x < b}" using i(1,2) by (simp add: word_le_nat_alt word_less_nat_alt)
  qed
  show "{x. a \<le> x \<and> x < b} \<subseteq> set (u32_range a b)"
  proof
    fix x assume "x \<in> {x. a \<le> x \<and> x < b}"
    then have "unat a \<le> unat x" "unat x < unat b" by (auto simp: word_le_nat_alt word_less_nat_alt)
    then have "unat x \<in> set [unat a..<unat b]" by simp
    then have "of_nat (unat x) \<in> set (u32_range a b)" unfolding u32_range_def set_map by (rule imageI)
    then show "x \<in> set (u32_range a b)" by simp
  qed
qed

lemma FatEofMarker_mask [simp]: "FatEofMarker s AND fat_mask s = FatEofMarker s"
  by (cases "ftype (g_fat s)") (simp_all add: FatEofMarker_def fat_mask_def entry_mask_def)

section \<open>Properties\<close>

text \<open>
  A small FAT16 volume for the witnesses: one table of one sector at sector 1, data from
  sector 2, ten sectors; cluster 2 links to 3, which ends the chain.
\<close>

definition fat_small :: fat where
  "fat_small = \<lparr>
     g_fat = \<lparr>ftype = FAT_TYPE_16, bytes_per_sector = 512, sectors_per_cluster = 1,
       reserved_sectors = 1, num_fats = 1, root_entry_count = 0, root_cluster = 0,
       sectors_per_fat = 1, total_sectors = 10, data_start_sector = 2, fat_start_sector = 1,
       root_dir_sectors = 0, root_dir_start_sector = 2, partition_start_lba = 0\<rparr>,
     g_current_cluster = 2, g_current_file_size = 1000, g_current_is_directory = False,
     g_fat_initialized = True, g_last_allocated_cluster = 4, have_buf = True, sector_buf = (\<lambda>_. 0),
     disk = (\<lambda>_ _. 0)(1 := put16 (put16 (\<lambda>_. 0) 4 3) 6 0xFFFF),
     rd_status = (\<lambda>_. 0), wr_status = (\<lambda>_. 0), smashed = False\<rparr>"

lemma fat_small_ok [simp]: "fat_ok fat_small"
  by (simp add: fat_ok_def fat_small_def NT_SUCCESS_def)

lemma fat_small_cluster: "2 \<le> c \<Longrightarrow> c < 10 \<Longrightarrow> fat_cluster fat_small c"
proof -
  assume c: "2 \<le> c" "c < 10"
  then have "unat c < 10" by (simp add: word_less_nat_alt)
  moreover have "c < 0x0FFFFFF8" using c(2) by (rule order_less_trans) simp
  ultimately show ?thesis using c(1) by (simp add: fat_cluster_def fat_small_def entry_byte_def)
qed

lemma fat_small_entries:
  "fat_entry fat_small 2 = 3" "fat_entry fat_small 3 = 0xFFFF" "fat_entry fat_small 4 = 0"
  by (simp_all add: fat_entry_def entry_load_def entry_byte_def fat_bytes_def fat_small_def fat_lba_def
      le16_def put16_def)

text \<open>
  C3: In all three layouts (FAT12, FAT16, FAT32) \<^verbatim>\<open>FatGetFatEntry\<close> after \<^verbatim>\<open>FatSetFatEntry\<close>
  reads back the stored value cut to the width of an entry, every other entry keeps its
  value (FAT12 neighbours that share a byte included), and no sector outside the copies of
  the table changes.  The entries are those that lie in one sector: reading a FAT12 entry that
  straddles two sectors overruns a stack buffer (\<open>smashed\<close>).
\<close>

theorem FatSet_Get_entry:
  assumes "fat_ok s" "fat_cluster s c" "fat_cluster s c'"
  shows "fst (FatSetFatEntry c v s) = STATUS_SUCCESS
    \<and> fst (FatGetFatEntry c' (snd (FatSetFatEntry c v s))) =
        (if c' = c then v AND entry_mask (ftype (g_fat s)) else fst (FatGetFatEntry c' s))
    \<and> (\<forall>lba. lba \<notin> fat_area s \<longrightarrow> disk (snd (FatSetFatEntry c v s)) lba = disk s lba)"
proof -
  note p = FatSetFatEntry_store [OF assms(1,2), where v = v]
  have "fat_ok (snd (FatSetFatEntry c v s))" "fat_cluster (snd (FatSetFatEntry c v s)) c'"
    using fat_same_ok [OF p(2)] fat_same_cluster [OF p(2)] assms by auto
  then show ?thesis
    using p(1,3) FatSetFatEntry_entry [OF assms] fat_links.get_ent assms(1,3) by auto
qed

lemma FatSet_Get_entry_witness:
  "fst (FatGetFatEntry 5 (snd (FatSetFatEntry 5 7 fat_small))) = 7"
  using FatSet_Get_entry [OF fat_small_ok fat_small_cluster [of 5] fat_small_cluster [of 5], of 7]
  by (simp add: entry_mask_def) (simp add: fat_small_def)

text \<open>
  C4: \<^verbatim>\<open>FatAllocateCluster\<close> returns a cluster of the data area whose entry was 0, marks it
  as the end of a chain and changes no other entry and no sector outside the tables; it
  returns 0 only when no cluster is free, and then writes nothing.
\<close>

theorem FatAllocateCluster_correct:
  assumes "fat_ok s" "\<forall>x. 2 \<le> x \<and> x < fat_max_cluster s \<longrightarrow> fat_cluster s x"
    and "FatAllocateCluster s = (c, s')"
  shows "if c = 0 then (\<forall>x. 2 \<le> x \<and> x < fat_max_cluster s \<longrightarrow> fat_entry s x \<noteq> 0) \<and> disk s' = disk s
    else 2 \<le> c \<and> c < fat_max_cluster s \<and> fat_entry s c = 0 \<and> fat_entry s' c = FatEofMarker s
      \<and> (\<forall>x. fat_cluster s x \<and> x \<noteq> c \<longrightarrow> fat_entry s' x = fat_entry s x)
      \<and> (\<forall>lba. lba \<notin> fat_area s \<longrightarrow> disk s' lba = disk s lba)"
proof -
  let ?max = "fat_max_cluster s" and ?attempt = "alloc_try (FatEofMarker s)"
  define start where "start =
    (if g_last_allocated_cluster s < 2 \<or> g_last_allocated_cluster s \<ge> ?max then 2 else g_last_allocated_cluster s)"
  have start: "2 \<le> start" "start = 2 \<or> start < ?max"
    by (auto simp: start_def not_le not_less)
  have valid: "\<forall>x\<in>set (u32_range start ?max). fat_cluster s x" "\<forall>x\<in>set (u32_range 2 start). fat_cluster s x"
    using assms(2) start order_trans [OF start(1)] order_less_trans [of _ start ?max]
    by (auto simp: set_u32_range)
  have run: "FatAllocateCluster s =
      (case fold_until ?attempt (u32_range start ?max) s of Inl r \<Rightarrow> r
       | Inr s1 \<Rightarrow> (case fold_until ?attempt (u32_range 2 start) s1 of Inl r \<Rightarrow> r | Inr s2 \<Rightarrow> (0, s2)))"
    using assms(1) unfolding FatAllocateCluster_def Let_def start_def [symmetric] fat_ok_def by simp
  have range: "2 \<le> x \<and> x < ?max" if "x \<in> set (u32_range start ?max) \<or> x \<in> set (u32_range 2 start)" for x
    using that start order_trans [OF start(1), of x] order_less_trans [of x start ?max]
    by (auto simp: set_u32_range)
  have nz: "x \<noteq> 0" if "2 \<le> x" for x :: u32 using that by auto
  show ?thesis
  proof (cases "fold_until ?attempt (u32_range start ?max) s")
    case (Inl r)
    then have r: "r = (c, s')" using run assms(3) by simp
    have "c \<in> set (u32_range start ?max)"
      using alloc_scan [OF assms(1) valid(1) FatEofMarker_mask] Inl r by auto
    then show ?thesis
      using alloc_scan [OF assms(1) valid(1) FatEofMarker_mask] Inl r range nz assms(2) by auto
  next
    case (Inr s1)
    then have one: "fat_same s s1" "disk s1 = disk s" "\<forall>x\<in>set (u32_range start ?max). fat_entry s x \<noteq> 0"
      using alloc_scan [OF assms(1) valid(1) FatEofMarker_mask] by auto
    have s1: "fat_ok s1" "\<forall>x\<in>set (u32_range 2 start). fat_cluster s1 x" "fat_entry s1 = fat_entry s"
      "fat_cluster s1 = fat_cluster s" "fat_area s1 = fat_area s"
      using fat_same_ok [OF one(1)] fat_same_cluster [OF one(1)] fat_entry_cong [OF one(1,2)] assms(1) valid(2)
        one(1) by (auto simp: fat_area_def fat_same_def fat_lba_def)
    have m: "FatEofMarker s AND fat_mask s1 = FatEofMarker s" using fat_same_mask [OF one(1)] by simp
    note two = alloc_scan [OF s1(1,2) m]
    show ?thesis
    proof (cases "fold_until ?attempt (u32_range 2 start) s1")
      case (Inl r)
      then have r: "r = (c, s')" using run Inr assms(3) by simp
      have "c \<in> set (u32_range 2 start)" using two Inl r by auto
      then show ?thesis using two Inl r range nz assms(2) one(2) by (auto simp: s1)
    next
      case (Inr s2)
      then have c: "c = 0" "s' = s2" using run \<open>fold_until _ (u32_range start _) s = _\<close> assms(3) by auto
      have "fat_entry s x \<noteq> 0" if "2 \<le> x" "x < ?max" for x
      proof (cases "start \<le> x")
        case True
        then show ?thesis using one(3) that by (simp add: set_u32_range)
      next
        case False
        then have "x \<in> set (u32_range 2 start)" using that by (simp add: set_u32_range)
        then show ?thesis using two Inr s1(3) by auto
      qed
      moreover have "disk s' = disk s" using two Inr c one(2) by simp
      ultimately show ?thesis using c by simp
    qed
  qed
qed

lemma FatAllocateCluster_correct_witness:
  "fst (FatAllocateCluster fat_small) \<noteq> 0 \<and> fat_entry fat_small (fst (FatAllocateCluster fat_small)) = 0"
proof -
  have max: "fat_max_cluster fat_small = 10" by (simp add: fat_max_cluster_def fat_small_def)
  then have "\<forall>x. 2 \<le> x \<and> x < fat_max_cluster fat_small \<longrightarrow> fat_cluster fat_small x"
    using fat_small_cluster by simp
  from FatAllocateCluster_correct [OF fat_small_ok this, of "fst (FatAllocateCluster fat_small)"
      "snd (FatAllocateCluster fat_small)"]
  have "if fst (FatAllocateCluster fat_small) = 0
    then \<forall>x. 2 \<le> x \<and> x < fat_max_cluster fat_small \<longrightarrow> fat_entry fat_small x \<noteq> 0
    else fat_entry fat_small (fst (FatAllocateCluster fat_small)) = 0" by (simp split: if_splits)
  moreover have "\<exists>x. 2 \<le> x \<and> x < fat_max_cluster fat_small \<and> fat_entry fat_small x = 0"
    by (intro exI [of _ 4]) (simp add: fat_small_entries max)
  ultimately show ?thesis by (auto split: if_splits)
qed

text \<open>
  C5: \<^verbatim>\<open>FatFreeClusterChain\<close> on a well-formed chain ends and clears the entries of exactly
  the clusters of the chain.
\<close>

theorem FatFreeClusterChain_frees:
  assumes "fat_ok s" "link_chain (fat_entry s) (FatEofMarker s) c cs" "\<forall>x\<in>set cs. fat_cluster s x"
  shows "\<exists>s'. FatFreeClusterChain c s = Some s'
    \<and> (\<forall>x. fat_cluster s x \<longrightarrow> fat_entry s' x = (if x \<in> set cs then 0 else fat_entry s x))"
proof -
  have "\<not> c < 2" using assms(2) by (cases cs) (auto simp: not_less)
  then have "FatFreeClusterChain c s = Some (fold fat_links.release_one cs s)"
    using free_chain_loop_chain [OF assms link_chain_distinct [OF assms(2)]] assms(1)
    by (simp add: FatFreeClusterChain_def fat_ok_def)
  then show ?thesis using fat_links.release_list_spec [OF assms(1,3)] by blast
qed

lemma FatFreeClusterChain_frees_witness:
  "\<exists>s'. FatFreeClusterChain 2 fat_small = Some s' \<and> fat_entry s' 2 = 0 \<and> fat_entry s' 3 = 0"
proof -
  have "FatEofMarker fat_small = 0xFFF8" by (simp add: FatEofMarker_def fat_small_def)
  then have "link_chain (fat_entry fat_small) (FatEofMarker fat_small) 2 [2, 3]"
    by (simp add: fat_small_entries)
  from FatFreeClusterChain_frees [OF fat_small_ok this] fat_small_cluster
  show ?thesis by auto
qed

text \<open>
  \<^verbatim>\<open>FatFreeClusterChain\<close> always ends, on cyclic chains too, as long as the links stay
  among the clusters of the volume.
\<close>

theorem FatFreeClusterChain_terminates:
  assumes "fat_ok s" "c < 2 \<or> fat_cluster s c"
    and "\<forall>x. fat_cluster s x \<and> 2 \<le> fat_entry s x \<and> fat_entry s x < FatEofMarker s \<longrightarrow>
           fat_cluster s (fat_entry s x)"
  shows "\<exists>s'. FatFreeClusterChain c s = Some s'"
proof (cases "c < 2")
  case True
  then show ?thesis by (simp add: FatFreeClusterChain_def)
next
  case False
  then have "free_chain_loop (FatEofMarker s) c s \<noteq> None"
    using free_chain_loop_total [OF assms(1) _ assms(3)] assms(2) by blast
  then show ?thesis using False by (auto simp: FatFreeClusterChain_def)
qed

lemma FatFreeClusterChain_terminates_witness: "\<exists>s'. FatFreeClusterChain 2 fat_small = Some s'"
proof -
  have "fat_entry fat_small x \<in> {0, 3, 0xFFFF}" if "fat_cluster fat_small x" for x
  proof -
    have x: "unat x * 2 < 512" using that 
      by (simp add: fat_cluster_def fat_small_def entry_byte_def div_eq_0_iff)
    have "fat_entry fat_small x = ucast (le16 (put16 (put16 (\<lambda>_. 0) 4 3) 6 0xFFFF) (unat x * 2))"
      using x by (simp add: fat_entry_def entry_load_def entry_byte_def fat_bytes_def fat_small_def fat_lba_def
          le16_def div_less mod_less)
    moreover consider "unat x * 2 = 4" | "unat x * 2 = 6" | "unat x * 2 + 2 \<le> 4" | "8 \<le> unat x * 2"
      by atomize_elim (cases "unat x = 2"; cases "unat x = 3"; auto)
    then have "le16 (put16 (put16 (\<lambda>_. 0) 4 3) 6 0xFFFF) (unat x * 2) \<in> {0, 3, 0xFFFF}"
      by cases (auto simp: le16_put16_other le16_def [of "\<lambda>_. 0"])
    ultimately show ?thesis by auto
  qed
  moreover have "FatEofMarker fat_small = 0xFFF8" by (simp add: FatEofMarker_def fat_small_def)
  moreover have "\<not> (2 :: u32) \<le> 0" "\<not> (0xFFFF :: u32) < 0xFFF8" by simp_all
  ultimately have "\<forall>x. fat_cluster fat_small x \<and> 2 \<le> fat_entry fat_small x
      \<and> fat_entry fat_small x < FatEofMarker fat_small \<longrightarrow> fat_cluster fat_small (fat_entry fat_small x)"
    using fat_small_cluster [of 3] by fastforce
  then show ?thesis
    using FatFreeClusterChain_terminates [OF fat_small_ok] fat_small_cluster [of 2] by auto
qed

end
