(* ===== verification/Fat_Mount.thy ===== *)
theory Fat_Mount
  imports Fat_Table
begin

text \<open>
  Mounting, \<^verbatim>\<open>Fat32Init\<close> of \<^verbatim>\<open>Kernel/fs/fat32.c\<close>: the partition scan (MBR, then GPT), the boot
  record and the search for the highest used cluster. The result \<open>None\<close> is a divide fault
  (a GPT entry size of 0, or above 512).
\<close>

section \<open>Definitions\<close>

definition FatIsMbr :: "buf \<Rightarrow> bool" where
  "FatIsMbr sector \<longleftrightarrow>
     (\<exists>i\<in>set [0..<4]. let entry = 0x1BE + i * 16; boot_flag = sector entry; type = sector (entry + 4)
        in (boot_flag = 0x00 \<or> boot_flag = 0x80) \<and> type \<noteq> 0x00)"

text \<open>The loop over the four MBR entries: a protective entry, a partition, or neither.\<close>

datatype mbr_result = Mbr_gpt | Mbr_partition u32

definition mbr_entry :: "buf \<Rightarrow> nat \<Rightarrow> unit \<Rightarrow> mbr_result + unit" where
  "mbr_entry sector i u =
     (let entry = 0x1BE + i * 16; type = sector (entry + 4); start_lba = le32 sector (entry + 8)
      in if type = 0xEE then Inl Mbr_gpt
         else if type \<noteq> 0 \<and> start_lba \<noteq> 0 then Inl (Mbr_partition start_lba)
         else Inr u)"

definition basic_data_guid :: "u8 list" where
  "basic_data_guid = [0xA2, 0xA0, 0xD0, 0xEB, 0xE5, 0xB9, 0x33, 0x44,
     0x87, 0xC0, 0x68, 0xB6, 0xB7, 0x26, 0x99, 0xC7]"

definition guid_match :: "buf \<Rightarrow> nat \<Rightarrow> bool" where
  "guid_match b p \<longleftrightarrow> (\<forall>g\<in>set [0..<16]. b (p + g) = basic_data_guid ! g)"

text \<open>The boot sector looks like a FAT volume.\<close>

definition vbr_is_fat :: "buf \<Rightarrow> bool" where
  "vbr_is_fat vbr \<longleftrightarrow>
     (let check_sig = le16 vbr 510; check_bps = le16 vbr 11; check_fats = vbr 16;
          check_spf16 = le16 vbr 22; check_spf32 = le32 vbr 36;
          check_spf = (if check_spf16 \<noteq> 0 then ucast check_spf16 else check_spf32)
      in check_sig = 0xAA55 \<and> check_fats > 0 \<and> check_spf > 0
         \<and> (check_bps = 512 \<or> check_bps = 2048 \<or> check_bps = 4096))"

text \<open>
  One iteration of the GPT loop over the state (entry buffer, boot sector buffer); it leaves
  the loop with \<open>None\<close> (a read failed) or the LBA of the partition found.
\<close>

definition gpt_entry ::
  "fat \<Rightarrow> u64 \<Rightarrow> u32 \<Rightarrow> u32 \<Rightarrow> nat \<Rightarrow> buf \<times> buf \<Rightarrow> u64 option + buf \<times> buf" where
  "gpt_entry s entry_lba entry_size per_sector e bufs =
     (let (entry_buf, vbr_buf) = bufs; e = (of_nat e :: u32);
          sector_offset = e div per_sector;
          byte_offset = unat ((e mod per_sector) * entry_size);
          (status, entry_buf) =
            (if e mod per_sector = 0 then AtaReadSectors (entry_lba + ucast sector_offset) entry_buf s
             else (STATUS_SUCCESS, entry_buf))
      in if NT_ERROR status then Inl None
         else
           let starting_lba = le64 entry_buf (byte_offset + 32) in
           if guid_match entry_buf byte_offset \<and> starting_lba \<noteq> 0 then
             let (status, vbr_buf) = AtaReadSectors starting_lba vbr_buf s in
             if NT_SUCCESS status \<and> vbr_is_fat vbr_buf then Inl (Some starting_lba)
             else Inr (entry_buf, vbr_buf)
           else Inr (entry_buf, vbr_buf))"

text \<open>\<open>Some (Some lba)\<close>: found; \<open>Some None\<close>: \<^verbatim>\<open>Fat32Init\<close> returns; \<open>None\<close>: divide fault.\<close>

definition gpt_scan :: "fat \<Rightarrow> u64 option option" where
  "gpt_scan s =
     (let (status, hdr) = AtaReadSectors 1 (\<lambda>_. 0) s in
      if NT_ERROR status then Some None
      else if le64 hdr 0 \<noteq> 0x5452415020494645 then Some None
      else
        let entry_lba = le64 hdr 72; num_entries = le32 hdr 80; entry_size = le32 hdr 84 in
        if entry_size = 0 then None
        else
          let per_sector = 512 div entry_size in
          if num_entries \<noteq> 0 \<and> per_sector = 0 then None
          else case fold_until (gpt_entry s entry_lba entry_size per_sector)
                      [0..<unat num_entries] (\<lambda>_. 0, \<lambda>_. 0) of
                 Inl r \<Rightarrow> Some r
               | Inr _ \<Rightarrow> Some None)"

text \<open>The boot record: the geometry, or \<open>None\<close> where \<^verbatim>\<open>Fat32Init\<close> gives up.\<close>

definition vbr_total_sectors :: "buf \<Rightarrow> u32" where
  "vbr_total_sectors b = (if le16 b 19 \<noteq> 0 then ucast (le16 b 19) else le32 b 32)"

definition vbr_sectors_per_fat :: "buf \<Rightarrow> u32" where
  "vbr_sectors_per_fat b = (if le16 b 22 \<noteq> 0 then ucast (le16 b 22) else le32 b 36)"

definition fat_type_of :: "u32 \<Rightarrow> fat_type" where
  "fat_type_of total_clusters =
     (if total_clusters < 4085 then FAT_TYPE_12
      else if total_clusters < 65525 then FAT_TYPE_16 else FAT_TYPE_32)"

definition parse_vbr :: "buf \<Rightarrow> fat_info \<Rightarrow> (fat_info \<times> u32) option" where
  "parse_vbr b fi =
     (let bps = le16 b 11; spc = b 13; reserved = (ucast (le16 b 14) :: u32);
          fats = (ucast (b 16) :: u32); root_count = le16 b 17
      in if bps \<noteq> 512 then None
         else if spc = 0 \<or> spc AND (spc - 1) \<noteq> 0 then None
         else
           let total = vbr_total_sectors b;
               spf = vbr_sectors_per_fat b;
               root_sectors = (ucast root_count * 32 + (ucast bps - 1)) div ucast bps;
               data_start = reserved + fats * spf + root_sectors;
               data_sectors = total - data_start;
               total_clusters = data_sectors div ucast spc;
               type = fat_type_of total_clusters
           in Some (fi\<lparr>ftype := type, bytes_per_sector := ucast bps, sectors_per_cluster := ucast spc,
                reserved_sectors := reserved, num_fats := fats, root_entry_count := ucast root_count,
                sectors_per_fat := spf, total_sectors := total, fat_start_sector := reserved,
                root_dir_sectors := root_sectors, root_dir_start_sector := reserved + fats * spf,
                root_cluster := (if type = FAT_TYPE_32 then le32 b 44 else 0),
                data_start_sector := (if type = FAT_TYPE_32 then reserved + fats * spf else data_start)\<rparr>,
              total_clusters))"

definition highest_try :: "u32 \<Rightarrow> fat \<Rightarrow> (u32 \<times> fat) + fat" where
  "highest_try c s =
     (let (val, s1) = FatGetFatEntry c s in
      if val \<noteq> 0 \<and> val < FatEofMarker s1 then Inl (c, s1) else Inr s1)"

text \<open>\<open>for (c = max_cluster - 1; c >= 2; c--)\<close>, left at 2.\<close>

definition highest_used_cluster :: "u32 \<Rightarrow> fat \<Rightarrow> u32 \<times> fat" where
  "highest_used_cluster max_cluster s =
     (case fold_until highest_try (map of_nat (rev [2..<Suc (unat (max_cluster - 1))])) s of
        Inl r \<Rightarrow> r
      | Inr s' \<Rightarrow> (2, s'))"

definition boot_signature :: "buf \<Rightarrow> bool" where
  "boot_signature b \<longleftrightarrow> b 510 = 0x55 \<and> b 511 = 0xAA"

text \<open>From the reading of the partition's boot sector on.\<close>

definition mount_partition :: "fat \<Rightarrow> fat" where
  "mount_partition s =
     (let (status, s1) = read_g 0 s in
      if NT_ERROR status \<or> \<not> boot_signature (sector_buf s1) then s1
      else case parse_vbr (sector_buf s1) (g_fat s1) of
        None \<Rightarrow> s1
      | Some (fi, total_clusters) \<Rightarrow>
          let (highest, s2) = highest_used_cluster (total_clusters + 2) (s1\<lparr>g_fat := fi, g_fat_initialized := True\<rparr>)
          in s2\<lparr>g_last_allocated_cluster := highest + 1\<rparr>)"

definition set_partition :: "u64 \<Rightarrow> fat \<Rightarrow> fat" where
  "set_partition lba s = s\<lparr>g_fat := (g_fat s)\<lparr>partition_start_lba := lba\<rparr>\<rparr>"

definition Fat32Init :: "u64 \<Rightarrow> fat \<Rightarrow> fat option" where
  "Fat32Init lba s0 =
     (let s = (set_partition lba s0)\<lparr>g_fat_initialized := False, have_buf := True\<rparr>;
          (status, b) = AtaReadSectors 0 (sector_buf s) s;
          s1 = fat_set_buf b s
      in if NT_ERROR status \<or> \<not> boot_signature b then Some s1
         else
           let scan = (if FatIsMbr b then fold_until (mbr_entry b) [0..<4] () else Inr ()) in
           case scan of
             Inl Mbr_gpt \<Rightarrow>
               (case gpt_scan s1 of
                  None \<Rightarrow> None
                | Some None \<Rightarrow> Some s1
                | Some (Some start) \<Rightarrow> Some (mount_partition (set_partition start s1)))
           | Inl (Mbr_partition start) \<Rightarrow> Some (mount_partition (set_partition (ucast start) s1))
           | Inr _ \<Rightarrow> Some (mount_partition s1))"

section \<open>What a mounted volume looks like\<close>

lemma FatGetFatEntry_fields:
  "g_fat (snd (FatGetFatEntry c s)) = g_fat s"
  "g_fat_initialized (snd (FatGetFatEntry c s)) = g_fat_initialized s"
  "have_buf (snd (FatGetFatEntry c s)) = have_buf s"
  "disk (snd (FatGetFatEntry c s)) = disk s"
  by (simp_all add: FatGetFatEntry_def read_g_def Let_def case_prod_unfold split: fat_type.split)

lemma highest_scan_fields:
  "case fold_until highest_try cs s of
     Inl (c, t) \<Rightarrow> g_fat t = g_fat s \<and> g_fat_initialized t = g_fat_initialized s \<and> have_buf t = have_buf s
       \<and> disk t = disk s
   | Inr t \<Rightarrow> g_fat t = g_fat s \<and> g_fat_initialized t = g_fat_initialized s \<and> have_buf t = have_buf s
       \<and> disk t = disk s"
  using fold_until_inv [where f = highest_try and xs = cs and s = s
      and P = "\<lambda>t. g_fat t = g_fat s \<and> g_fat_initialized t = g_fat_initialized s \<and> have_buf t = have_buf s \<and> disk t = disk s"
      and Q = "\<lambda>(c, t). g_fat t = g_fat s \<and> g_fat_initialized t = g_fat_initialized s \<and> have_buf t = have_buf s \<and> disk t = disk s"]
  by (simp add: highest_try_def case_prod_unfold Let_def FatGetFatEntry_fields)

lemma mount_partition_disk: "disk (mount_partition s) = disk s"
proof -
  have "disk (snd (read_g 0 s)) = disk s" by (simp add: read_g_def case_prod_unfold Let_def)
  moreover have "disk (snd (highest_used_cluster m t)) = disk t" for m t
    using highest_scan_fields [of t "map of_nat (rev [2..<Suc (unat (m - 1))])"]
    by (auto simp: highest_used_cluster_def split: sum.splits)
  ultimately show ?thesis
    by (auto simp: mount_partition_def case_prod_unfold Let_def split: option.splits)
qed

section \<open>The volume that a boot record describes\<close>

text \<open>The fields of a FAT boot record and the areas of the volume, in natural numbers: the tables end at \<open>bpb_tables\<close>, the data
  area begins at \<open>bpb_data\<close>.\<close>

definition bpb_total :: "buf \<Rightarrow> nat" where
  "bpb_total b = (if le16 b 19 \<noteq> 0 then unat (le16 b 19) else unat (le32 b 32))"

definition bpb_spf :: "buf \<Rightarrow> nat" where
  "bpb_spf b = (if le16 b 22 \<noteq> 0 then unat (le16 b 22) else unat (le32 b 36))"

definition bpb_tables :: "buf \<Rightarrow> nat" where
  "bpb_tables b = unat (le16 b 14) + unat (b 16) * bpb_spf b"

definition bpb_data :: "buf \<Rightarrow> nat" where
  "bpb_data b = bpb_tables b + (unat (le16 b 17) * 32 + 511) div 512"

definition bpb_clusters :: "buf \<Rightarrow> nat" where
  "bpb_clusters b = (bpb_total b - bpb_data b) div unat (b 13)"

definition bpb_type :: "buf \<Rightarrow> fat_type" where
  "bpb_type b = (if bpb_clusters b < 4085 then FAT_TYPE_12 else if bpb_clusters b < 65525 then FAT_TYPE_16 else FAT_TYPE_32)"

definition entry_bits :: "fat_type \<Rightarrow> nat" where
  "entry_bits t = (case t of FAT_TYPE_12 \<Rightarrow> 12 | FAT_TYPE_16 \<Rightarrow> 16 | FAT_TYPE_32 \<Rightarrow> 32)"

lemmas bpb_defs = bpb_total_def bpb_spf_def bpb_tables_def bpb_data_def bpb_clusters_def bpb_type_def

text \<open>A volume: the areas fit in it, and the table has an entry for every cluster.\<close>

definition fat_volume :: "buf \<Rightarrow> bool" where
  "fat_volume b \<longleftrightarrow> boot_signature b \<and> le16 b 11 = 512 \<and> unat (b 13) \<in> {1, 2, 4, 8, 16, 32, 64, 128} \<and> b 16 \<noteq> 0 \<and>
     bpb_data b \<le> bpb_total b \<and> (bpb_clusters b + 2) * entry_bits (bpb_type b) \<le> bpb_spf b * 4096 \<and>
     (bpb_type b = FAT_TYPE_32 \<longrightarrow> le16 b 17 = 0)"

text \<open>The partition: the first usable entry of the table in sector 0, or the start that was asked for when there is no such
  table; \<open>None\<close> is a disk with a GPT.\<close>

definition mbr_partition :: "buf \<Rightarrow> u64 \<Rightarrow> u64 option" where
  "mbr_partition b lba =
    (let type = (\<lambda>i. b (0x1BE + i * 16 + 4)); start = (\<lambda>i. le32 b (0x1BE + i * 16 + 8))
     in if \<exists>i\<in>{..<4}. b (0x1BE + i * 16) \<in> {0x00, 0x80} \<and> type i \<noteq> 0
        then (case find (\<lambda>i. type i = 0xEE \<or> type i \<noteq> 0 \<and> start i \<noteq> 0) [0..<4] of
            Some i \<Rightarrow> if type i = 0xEE then None else Some (ucast (start i))
          | None \<Rightarrow> Some lba)
        else Some lba)"

definition volume_mounted :: "buf \<Rightarrow> u64 \<Rightarrow> fat \<Rightarrow> bool" where
  "volume_mounted b p s \<longleftrightarrow> fat_ok s \<and> partition_start_lba (g_fat s) = p \<and> ftype (g_fat s) = bpb_type b \<and>
     unat (num_fats (g_fat s)) = unat (b 16) \<and> unat (sectors_per_fat (g_fat s)) = bpb_spf b \<and>
     unat (fat_start_sector (g_fat s)) = unat (le16 b 14) \<and> unat (root_dir_start_sector (g_fat s)) = bpb_tables b \<and>
     unat (data_start_sector (g_fat s)) = bpb_data b \<and> unat (total_sectors (g_fat s)) = bpb_total b \<and>
     unat (sectors_per_cluster (g_fat s)) = unat (b 13) \<and> root_cluster (g_fat s) = (if bpb_type b = FAT_TYPE_32 then le32 b 44 else 0) \<and>
     (\<forall>c. 2 \<le> c \<and> unat c < bpb_clusters b + 2 \<longrightarrow> entry_byte (ftype (g_fat s)) c div 512 < unat (sectors_per_fat (g_fat s)) \<and>
        unat (FatClusterToSector c s) = bpb_data b + (unat c - 2) * unat (b 13) \<and>
        unat (FatClusterToSector c s) + unat (b 13) \<le> bpb_total b)"

lemma mbr_scan:
  "fold_until (mbr_entry b) xs () =
    (case find (\<lambda>i. b (0x1BE + i * 16 + 4) = 0xEE \<or> b (0x1BE + i * 16 + 4) \<noteq> 0 \<and> le32 b (0x1BE + i * 16 + 8) \<noteq> 0) xs of
       None \<Rightarrow> Inr ()
     | Some i \<Rightarrow> Inl (if b (0x1BE + i * 16 + 4) = 0xEE then Mbr_gpt else Mbr_partition (le32 b (0x1BE + i * 16 + 8))))"
  by (induction xs) (auto simp: mbr_entry_def Let_def)

lemma scan_mbr:
  "case (if FatIsMbr b then fold_until (mbr_entry b) [0..<4] () else Inr ()) of
      Inl Mbr_gpt \<Rightarrow> mbr_partition b lba = None
    | Inl (Mbr_partition start) \<Rightarrow> mbr_partition b lba = Some (ucast start)
    | Inr _ \<Rightarrow> mbr_partition b lba = Some lba"
proof -
  have m: "FatIsMbr b = (\<exists>i\<in>{..<4}. b (0x1BE + i * 16) \<in> {0x00, 0x80} \<and> b (0x1BE + i * 16 + 4) \<noteq> 0)"
    unfolding FatIsMbr_def Let_def by (auto simp: atLeast0LessThan)
  show ?thesis
  proof (cases "FatIsMbr b")
    case True
    then show ?thesis unfolding mbr_scan mbr_partition_def Let_def if_P [OF True] if_P [OF True [unfolded m]] by (simp split: option.split)
  next
    case False
    then show ?thesis unfolding mbr_partition_def Let_def if_not_P [OF False] if_not_P [OF False [unfolded m]] by simp
  qed
qed

lemma gpt_scan_cong: "rd_status t = rd_status s \<Longrightarrow> disk t = disk s \<Longrightarrow> gpt_scan t = gpt_scan s"
proof -
  assume "rd_status t = rd_status s" "disk t = disk s"
  then have "AtaReadSectors lba buffer t = AtaReadSectors lba buffer s" for lba buffer by (simp add: AtaReadSectors_def)
  note r = this
  have "gpt_entry t = gpt_entry s" by (intro ext) (simp only: gpt_entry_def r)
  then show ?thesis by (simp only: gpt_scan_def r)
qed

lemma mbr_partition_cong:
  assumes "\<And>i. i < 512 \<Longrightarrow> b i = d i"
  shows "mbr_partition b lba = mbr_partition d lba"
proof -
  have e: "b (0x1BE + i * 16) = d (0x1BE + i * 16)" "b (0x1BE + i * 16 + 4) = d (0x1BE + i * 16 + 4)"
    "le32 b (0x1BE + i * 16 + 8) = le32 d (0x1BE + i * 16 + 8)" if "i < 4" for i
    using that by (simp_all add: assms le32_def le16_def)
  have f: "find (\<lambda>i. b (0x1BE + i * 16 + 4) = 0xEE \<or> b (0x1BE + i * 16 + 4) \<noteq> 0 \<and> le32 b (0x1BE + i * 16 + 8) \<noteq> 0) [0..<4] =
      find (\<lambda>i. d (0x1BE + i * 16 + 4) = 0xEE \<or> d (0x1BE + i * 16 + 4) \<noteq> 0 \<and> le32 d (0x1BE + i * 16 + 8) \<noteq> 0) [0..<4]"
  proof (rule find_cong [OF refl])
    fix i
    assume "i \<in> set [0..<4 :: nat]"
    then have i: "i < 4" by simp
    show "(b (0x1BE + i * 16 + 4) = 0xEE \<or> b (0x1BE + i * 16 + 4) \<noteq> 0 \<and> le32 b (0x1BE + i * 16 + 8) \<noteq> 0) =
        (d (0x1BE + i * 16 + 4) = 0xEE \<or> d (0x1BE + i * 16 + 4) \<noteq> 0 \<and> le32 d (0x1BE + i * 16 + 8) \<noteq> 0)"
      by (simp only: e [OF i])
  qed
  have m: "(\<exists>i\<in>{..<4}. b (0x1BE + i * 16) \<in> {0x00, 0x80} \<and> b (0x1BE + i * 16 + 4) \<noteq> 0) =
      (\<exists>i\<in>{..<4}. d (0x1BE + i * 16) \<in> {0x00, 0x80} \<and> d (0x1BE + i * 16 + 4) \<noteq> 0)"
    by (rule bex_cong [OF refl]) (simp only: e lessThan_iff)
  have i4: "i < 4" if "find P [0..<4] = Some i" for i P using that by (auto simp: find_Some_iff)
  show ?thesis unfolding mbr_partition_def Let_def f m
    by (rule if_cong [OF refl _ refl], rule option.case_cong [OF refl refl]) (drule i4, simp only: e)
qed

text \<open>What \<open>Fat32Init\<close> mounts.\<close>

lemma Fat32Init_run:
  fixes s0 :: fat
  assumes ok: "\<forall>lba. NT_SUCCESS (rd_status s0 lba)" and sig: "boot_signature (disk s0 0)"
    and p: "mbr_partition (disk s0 0) lba = Some p \<or> mbr_partition (disk s0 0) lba = None \<and> gpt_scan s0 = Some (Some p)"
  shows "\<exists>s1. Fat32Init lba s0 = Some (mount_partition s1) \<and> partition_start_lba (g_fat s1) = p \<and> have_buf s1 \<and>
    disk s1 = disk s0 \<and> rd_status s1 = rd_status s0 \<and> wr_status s1 = wr_status s0"
proof -
  let ?s = "(set_partition lba s0)\<lparr>g_fat_initialized := False, have_buf := True\<rparr>"
  define b where "b = buf_copy (sector_buf ?s) 0 (disk s0 0) 0 512"
  let ?s1 = "fat_set_buf b ?s"
  have r: "AtaReadSectors 0 (sector_buf ?s) ?s = (rd_status s0 0, b)" using ok by (simp add: AtaReadSectors_def set_partition_def b_def)
  have same: "b i = disk s0 0 i" if "i < 512" for i using that by (simp add: b_def buf_copy_def)
  have s: "\<not> (NT_ERROR (rd_status s0 0) \<or> \<not> boot_signature b)" using sig ok by (simp add: boot_signature_def same)
  have m: "mbr_partition b l = mbr_partition (disk s0 0) l" for l by (rule mbr_partition_cong [OF same])
  have g: "gpt_scan ?s1 = gpt_scan s0" by (rule gpt_scan_cong) (simp_all add: set_partition_def)
  define scan where "scan = (if FatIsMbr b then fold_until (mbr_entry b) [0..<4] () else Inr ())"
  note mbr = scan_mbr [of b lba, folded scan_def, unfolded m]
  have run: "Fat32Init lba s0 = (case scan of
             Inl Mbr_gpt \<Rightarrow> (case gpt_scan ?s1 of None \<Rightarrow> None | Some None \<Rightarrow> Some ?s1
                | Some (Some start) \<Rightarrow> Some (mount_partition (set_partition start ?s1)))
           | Inl (Mbr_partition start) \<Rightarrow> Some (mount_partition (set_partition (ucast start) ?s1))
           | Inr _ \<Rightarrow> Some (mount_partition ?s1))"
    unfolding Fat32Init_def Let_def r prod.case if_not_P [OF s] scan_def by simp
  consider "scan = Inl Mbr_gpt" | start where "scan = Inl (Mbr_partition start)" | "scan = Inr ()"
    by (metis (full_types) mbr_result.exhaust old.sum.exhaust old.unit.exhaust)
  then show ?thesis
  proof cases
    case 1
    then have "gpt_scan s0 = Some (Some p)" using mbr p by simp
    then show ?thesis using 1 run g by (intro exI [of _ "set_partition p ?s1"]) (simp add: set_partition_def)
  next
    case 2
    then have "p = ucast start" using mbr p by simp
    then show ?thesis using 2 run by (intro exI [of _ "set_partition p ?s1"]) (simp add: set_partition_def)
  next
    case 3
    then have "p = lba" using mbr p by simp
    then show ?thesis using 3 run by (intro exI [of _ ?s1]) (simp add: set_partition_def)
  qed
qed

lemma nat_bounds:
  fixes b :: buf
  shows "unat (b i) < 2 ^ 8" "unat (le16 b i) < 2 ^ 16" "unat (le32 b i) < 2 ^ 32"
  using unsigned_less [of "b i", where 'a = nat] unsigned_less [of "le16 b i", where 'a = nat] unsigned_less [of "le32 b i", where 'a = nat]
  by simp_all

lemma parse_vbr_volume:
  assumes "fat_volume b"
  shows "\<exists>fi. parse_vbr b i = Some (fi, of_nat (bpb_clusters b)) \<and> partition_start_lba fi = partition_start_lba i \<and>
    bytes_per_sector fi = 512 \<and> ftype fi = bpb_type b \<and>
     unat (num_fats fi) = unat (b 16) \<and> unat (sectors_per_fat fi) = bpb_spf b \<and>
     unat (fat_start_sector fi) = unat (le16 b 14) \<and> unat (root_dir_start_sector fi) = bpb_tables b \<and>
     unat (data_start_sector fi) = bpb_data b \<and> unat (total_sectors fi) = bpb_total b \<and>
     unat (sectors_per_cluster fi) = unat (b 13) \<and> root_cluster fi = (if bpb_type b = FAT_TYPE_32 then le32 b 44 else 0)"
proof -
  have v: "le16 b 11 = 512" "unat (b 13) \<in> {1, 2, 4, 8, 16, 32, 64, 128}" "bpb_data b \<le> bpb_total b" 
    "bpb_type b = FAT_TYPE_32 \<longrightarrow> le16 b 17 = 0" using assms by (simp_all add: fat_volume_def)
  have spc: "\<not> (b 13 = 0 \<or> b 13 AND (b 13 - 1) \<noteq> 0)"
  proof -
    have "b 13 = of_nat (unat (b 13))" by simp
    then have "b 13 \<in> of_nat ` {1, 2, 4, 8, 16, 32, 64, 128}" using v(2) by (metis imageI)
    then show ?thesis by auto
  qed
  have total: "unat (vbr_total_sectors b) = bpb_total b" by (simp add: vbr_total_sectors_def bpb_total_def)
  have lt: "bpb_total b < 2 ^ 32" using unsigned_less [of "vbr_total_sectors b", where 'a = nat] by (simp add: total)
  define res where "res = (ucast (le16 b 14) :: u32)"
  define fats where "fats = (ucast (b 16) :: u32)"
  define spf where "spf = vbr_sectors_per_fat b"
  define root where "root = ((ucast (le16 b 17) * 32 + (ucast (le16 b 11) - 1)) div ucast (le16 b 11) :: u32)"
  define n where "n = (vbr_total_sectors b - (res + fats * spf + root)) div ucast (b 13)"
  note defs = res_def [symmetric] fats_def [symmetric] spf_def [symmetric] root_def [symmetric] n_def [symmetric]
  have run: "parse_vbr b i = Some (i\<lparr>ftype := fat_type_of n, bytes_per_sector := ucast (le16 b 11), sectors_per_cluster := ucast (b 13),
      reserved_sectors := res, num_fats := fats, root_entry_count := ucast (le16 b 17), sectors_per_fat := spf,
      total_sectors := vbr_total_sectors b, fat_start_sector := res, root_dir_sectors := root,
      root_dir_start_sector := res + fats * spf, root_cluster := (if fat_type_of n = FAT_TYPE_32 then le32 b 44 else 0),
      data_start_sector := (if fat_type_of n = FAT_TYPE_32 then res + fats * spf else res + fats * spf + root)\<rparr>, n)"
    unfolding parse_vbr_def Let_def if_not_P [OF spc] defs by (simp only: v(1) not_not if_False simp_thms)
  have u: "unat res = unat (le16 b 14)" "unat fats = unat (b 16)" "unat spf = bpb_spf b"
    by (simp_all add: res_def fats_def spf_def vbr_sectors_per_fat_def bpb_spf_def)
  have root: "unat root = (unat (le16 b 17) * 32 + 511) div 512"
    using nat_bounds(2) [of b 17] by (simp add: root_def v(1) unat_div unat_word_ariths)
  have t: "bpb_tables b < 2 ^ 32" "bpb_data b < 2 ^ 32" using v(3) lt by (simp_all add: bpb_data_def)
  have tables: "unat (res + fats * spf) = bpb_tables b"
    using t(1) by (simp add: bpb_tables_def unat_word_ariths u)
  have data: "unat (res + fats * spf + root) = bpb_data b"
    using t(2) by (subst unat_word_ariths(1)) (simp only: tables root, simp add: bpb_data_def)
  have n: "unat n = bpb_clusters b"
    using v(3) data total by (simp add: n_def unat_div unat_sub word_le_nat_alt bpb_clusters_def)
  have "n = of_nat (unat n)" by simp
  then have nn: "n = of_nat (bpb_clusters b)" unfolding n .
  have ty: "fat_type_of n = bpb_type b" by (simp add: fat_type_of_def bpb_type_def word_less_nat_alt n)
  have root0: "root = 0" if "bpb_type b = FAT_TYPE_32" using that v(4) root by (simp add: word_unat_eq_iff)
  have data0: "unat (if bpb_type b = FAT_TYPE_32 then res + fats * spf else res + fats * spf + root) = bpb_data b"
    using data root0 by (cases "bpb_type b = FAT_TYPE_32") simp_all
  have c: "unat (ucast (b 13) :: u32) = unat (b 13)" "(ucast (le16 b 11) :: u32) = 512" by (simp_all add: v(1))
  show ?thesis unfolding run ty nn [symmetric] by (rule exI, rule conjI, rule refl) (simp add: u tables data0 total c)
qed

lemma fat_volume_cong:
  assumes "\<forall>i<512. b i = d i"
  shows "fat_volume b = fat_volume d" "bpb_type b = bpb_type d" "bpb_spf b = bpb_spf d" "bpb_tables b = bpb_tables d" "bpb_data b = bpb_data d"
    "bpb_total b = bpb_total d" "bpb_clusters b = bpb_clusters d" "b 16 = d 16" "b 13 = d 13" "le16 b 14 = le16 d 14" "le32 b 44 = le32 d 44"
proof -
  note a = assms [rule_format]
  have e: "le16 b i = le16 d i" if "i < 511" for i using that by (simp add: le16_def a)
  have f: "le32 b i = le32 d i" if "i < 509" for i using that by (simp add: le32_def e)
  show s: "bpb_spf b = bpb_spf d" "bpb_total b = bpb_total d" by (simp_all add: bpb_spf_def bpb_total_def e f)
  then show t: "bpb_tables b = bpb_tables d" by (simp add: bpb_tables_def e a)
  then show u: "bpb_data b = bpb_data d" by (simp add: bpb_data_def e)
  then show c: "bpb_clusters b = bpb_clusters d" using s by (simp add: bpb_clusters_def a)
  then show ty: "bpb_type b = bpb_type d" by (simp add: bpb_type_def)
  show "fat_volume b = fat_volume d" by (simp add: fat_volume_def boot_signature_def e a s u c ty)
qed (simp_all add: assms le16_def le32_def)

lemma highest_scan_status:
  "case fold_until highest_try cs s of
     Inl (c, t) \<Rightarrow> rd_status t = rd_status s \<and> wr_status t = wr_status s
   | Inr t \<Rightarrow> rd_status t = rd_status s \<and> wr_status t = wr_status s"
proof -
  have e: "rd_status (snd (FatGetFatEntry c s)) = rd_status s" "wr_status (snd (FatGetFatEntry c s)) = wr_status s" for c s
    by (simp_all add: FatGetFatEntry_def read_g_def Let_def case_prod_unfold split: fat_type.split)
  show ?thesis
    using fold_until_inv [where f = highest_try and xs = cs and s = s and P = "\<lambda>t. rd_status t = rd_status s \<and> wr_status t = wr_status s"
      and Q = "\<lambda>(c, t). rd_status t = rd_status s \<and> wr_status t = wr_status s"]
    by (simp add: highest_try_def case_prod_unfold Let_def e)
qed

lemma highest_used_keeps:
  fixes s :: fat and m :: u32
  defines "t \<equiv> snd (highest_used_cluster m s)"
  shows "g_fat t = g_fat s" "g_fat_initialized t = g_fat_initialized s" "have_buf t = have_buf s" "disk t = disk s"
    "rd_status t = rd_status s" "wr_status t = wr_status s"
proof -
  let ?cs = "map of_nat (rev [2..<Suc (unat (m - 1))])"
  show "g_fat t = g_fat s" "g_fat_initialized t = g_fat_initialized s" "have_buf t = have_buf s" "disk t = disk s"
    using highest_scan_fields [of s ?cs] unfolding t_def highest_used_cluster_def by (auto split: sum.splits)
  show "rd_status t = rd_status s" "wr_status t = wr_status s"
    using highest_scan_status [where cs = ?cs and s = s] unfolding t_def highest_used_cluster_def by (auto split: sum.splits)
qed

lemma table_covers:
  assumes "(n + 2) * entry_bits t \<le> spf * 4096" "unat c < n + 2"
  shows "entry_byte t c div 512 < spf"
proof -
  have "(unat c + 1) * entry_bits t \<le> (n + 2) * entry_bits t" using assms(2) by (intro mult_le_mono1) simp
  then have le: "(unat c + 1) * entry_bits t \<le> spf * 4096" using assms(1) by linarith
  have "entry_byte t c < spf * 512"
    using le by (cases t) (simp_all add: entry_byte_def entry_bits_def)
  then show ?thesis by (simp add: less_mult_imp_div_less)
qed

lemma cluster_in_volume:
  assumes "unat (data_start_sector (g_fat s)) = data" "unat (sectors_per_cluster (g_fat s)) = spc" "data \<le> tot" "tot < 2 ^ 32"
    and "2 \<le> c" "unat c < (tot - data) div spc + 2"
  shows "unat (FatClusterToSector c s) = data + (unat c - 2) * spc \<and> unat (FatClusterToSector c s) + spc \<le> tot"
proof -
  have c2: "unat (c - 2) = unat c - 2" using assms(5) by (simp add: unat_sub word_le_nat_alt)
  have "(unat c - 2 + 1) * spc \<le> (tot - data) div spc * spc" using assms(5,6) by (intro mult_le_mono1) (simp add: word_le_nat_alt)
  also have "\<dots> \<le> tot - data" by simp
  finally have le: "(unat c - 2) * spc + spc \<le> tot - data" by (simp add: add_mult_distrib)
  have "unat ((c - 2) * sectors_per_cluster (g_fat s)) = (unat c - 2) * spc"
    using le assms(3,4) by (simp add: unat_word_ariths(2) c2 assms(2))
  then have "unat (FatClusterToSector c s) = data + (unat c - 2) * spc"
    unfolding FatClusterToSector_def using le assms(3,4) by (simp add: unat_word_ariths(1) assms(1))
  then show ?thesis using le assms(3) by linarith
qed

lemma Fat32Init_disk:
  assumes "Fat32Init lba s0 = Some s"
  shows "disk s = disk s0"
  using assms by (auto simp: Fat32Init_def Let_def case_prod_unfold mount_partition_disk set_partition_def
      split: if_splits sum.splits mbr_result.splits option.splits)

text \<open>A record with no table and with a data area behind the end of the volume is accepted: the cluster count wraps around.\<close>

lemma parse_vbr_unchecked:
  "map_option (\<lambda>(fi, n). (num_fats fi, total_sectors fi, data_start_sector fi, n)) (parse_vbr ((\<lambda>_. 0)(12 := 2, 13 := 1, 14 := 9, 19 := 5)) fi) =
   Some (0, 5, 9, 0xFFFFFFFC)"
  by (simp add: parse_vbr_def vbr_total_sectors_def vbr_sectors_per_fat_def fat_type_of_def le16_def le32_def Let_def)

section \<open>Properties\<close>

text \<open>
  C29: mounting. On a disk whose sectors can be read, and whose partition (the first usable entry of the table in sector 0, the
  one the GPT scan finds behind a protective table, or the start asked for when there is no table) begins with the boot
  record of a FAT volume, that is one whose tables, root directory and data area fit in the volume one behind the other and whose
  table has an entry for every cluster, \<^verbatim>\<open>Fat32Init\<close> ends with that volume mounted and the disk unchanged:
  the areas are where the record puts them, counted without wrap-around, the FAT type is the one the cluster count asks for,
  the state is one on which the theorems about the tables hold, and every cluster has its entry inside the table and its
  sectors inside the volume.
\<close>

theorem Fat32Init_mounts:
  fixes s0 :: fat
  assumes disk: "\<forall>lba. NT_SUCCESS (rd_status s0 lba) \<and> NT_SUCCESS (wr_status s0 lba)" and sig: "boot_signature (disk s0 0)"
    and p: "mbr_partition (disk s0 0) lba = Some p \<or> mbr_partition (disk s0 0) lba = None \<and> gpt_scan s0 = Some (Some p)"
    and vol: "fat_volume (disk s0 p)"
  shows "\<exists>s. Fat32Init lba s0 = Some s \<and> disk s = disk s0 \<and> volume_mounted (disk s0 p) p s"
proof -
  obtain s1 where s1: "Fat32Init lba s0 = Some (mount_partition s1)" "partition_start_lba (g_fat s1) = p" "have_buf s1"
    "disk s1 = disk s0" "rd_status s1 = rd_status s0" "wr_status s1 = wr_status s0"
    using Fat32Init_run [OF _ sig p] disk by blast
  define b where "b = buf_copy (sector_buf s1) 0 (disk s0 p) 0 512"
  let ?d = "disk s0 p" and ?s = "fat_set_buf b s1"
  have same: "\<forall>i<512. b i = ?d i" by (simp add: b_def buf_copy_def)
  note cong = fat_volume_cong [OF same]
  have r: "read_g 0 s1 = (rd_status s0 p, ?s)"
    using disk by (simp add: read_g_def FatReadSector_def AtaReadSectors_def fat_lba_def s1 b_def)
  have bsig: "boot_signature b" using vol cong(1) by (simp add: fat_volume_def)
  have bvol: "fat_volume b" using vol cong(1) by simp
  have part: "partition_start_lba (g_fat ?s) = p" using s1(2) by simp
  obtain fi where fi: "parse_vbr b (g_fat ?s) = Some (fi, of_nat (bpb_clusters ?d))" "partition_start_lba fi = p"
    "bytes_per_sector fi = 512" "ftype fi = bpb_type ?d" "unat (num_fats fi) = unat (?d 16)" "unat (sectors_per_fat fi) = bpb_spf ?d"
    "unat (fat_start_sector fi) = unat (le16 ?d 14)" "unat (root_dir_start_sector fi) = bpb_tables ?d"
    "unat (data_start_sector fi) = bpb_data ?d" "unat (total_sectors fi) = bpb_total ?d" "unat (sectors_per_cluster fi) = unat (?d 13)"
    "root_cluster fi = (if bpb_type ?d = FAT_TYPE_32 then le32 ?d 44 else 0)"
    using parse_vbr_volume [OF bvol, of "g_fat ?s"] unfolding cong(2-) part by blast
  let ?t = "?s\<lparr>g_fat := fi, g_fat_initialized := True\<rparr>"
  define m where "m = highest_used_cluster (of_nat (bpb_clusters ?d) + 2) ?t"
  have keep: "g_fat (snd m) = fi" "g_fat_initialized (snd m)" "have_buf (snd m)" "disk (snd m) = disk s0"
    "rd_status (snd m) = rd_status s0" "wr_status (snd m) = wr_status s0"
    using s1(3-6) by (simp_all add: m_def highest_used_keeps)
  define s where "s = (snd m)\<lparr>g_last_allocated_cluster := fst m + 1\<rparr>"
  have run: "mount_partition s1 = s"
    using disk r bsig fi(1) by (simp add: mount_partition_def m_def s_def case_prod_unfold Let_def)
  have v: "?d 16 \<noteq> 0" "bpb_data ?d \<le> bpb_total ?d" "(bpb_clusters ?d + 2) * entry_bits (bpb_type ?d) \<le> bpb_spf ?d * 4096"
    using vol by (simp_all add: fat_volume_def)
  have lt: "bpb_total ?d < 2 ^ 32" using fi(10) unsigned_less [of "total_sectors fi", where 'a = nat] by simp
  then have "bpb_tables ?d < 2 ^ 32" using v(2) by (simp add: bpb_data_def)
  moreover have "0 < num_fats fi" using fi(5) v(1) by (simp add: word_less_nat_alt unat_gt_0)
  ultimately have fok: "fat_ok s"
    using disk keep fi(3,5,6,7) by (simp add: fat_ok_def s_def bpb_tables_def)
  have gs: "g_fat s = fi" and ds: "disk s = disk s0" using keep(1,4) by (simp_all add: s_def)
  have clusters: "entry_byte (ftype (g_fat s)) c div 512 < unat (sectors_per_fat (g_fat s)) \<and>
      unat (FatClusterToSector c s) = bpb_data ?d + (unat c - 2) * unat (?d 13) \<and> unat (FatClusterToSector c s) + unat (?d 13) \<le> bpb_total ?d"
    if "2 \<le> c" "unat c < bpb_clusters ?d + 2" for c
    using table_covers [OF v(3) that(2)] cluster_in_volume [of s, OF _ _ v(2) lt that(1)] that(2) fi(4,6,9,11) keep(1)
    by (simp add: s_def bpb_clusters_def)
  have "volume_mounted ?d p s"
    unfolding volume_mounted_def using fok clusters fi(2,4-12) unfolding gs by blast
  then show ?thesis using s1(1) ds unfolding run by blast
qed

text \<open>A disk with a partition table and a FAT12 volume of twenty sectors that starts at sector 8.\<close>

definition mbr_small :: buf where
  "mbr_small = (\<lambda>_. 0)(0x1BE := 0x80, 0x1C2 := 6, 0x1C6 := 8, 510 := 0x55, 511 := 0xAA)"

definition vbr_small :: buf where
  "vbr_small = (\<lambda>_. 0)(12 := 2, 13 := 1, 14 := 1, 16 := 2, 17 := 16, 19 := 20, 22 := 1, 510 := 0x55, 511 := 0xAA)"

lemma Fat32Init_mounts_witness:
  "\<exists>s. Fat32Init 0 (fat_small\<lparr>disk := (disk fat_small)(0 := mbr_small, 8 := vbr_small)\<rparr>) = Some s \<and>
     ftype (g_fat s) = FAT_TYPE_12 \<and> partition_start_lba (g_fat s) = 8 \<and> unat (data_start_sector (g_fat s)) = 4 \<and> fat_ok s"
proof -
  let ?s = "fat_small\<lparr>disk := (disk fat_small)(0 := mbr_small, 8 := vbr_small)\<rparr>"
  have ok: "\<forall>lba. NT_SUCCESS (rd_status ?s lba) \<and> NT_SUCCESS (wr_status ?s lba)" by (simp add: fat_small_def NT_SUCCESS_def)
  have sig: "boot_signature (disk ?s 0)" by (simp add: boot_signature_def mbr_small_def)
  have p: "mbr_partition (disk ?s 0) 0 = Some 8"
  proof -
    have u: "[0..<4] = [0, 1, 2, 3 :: nat]" by (simp add: upt_rec)
    have "\<exists>i\<in>{..<4 :: nat}. mbr_small (0x1BE + i * 16) \<in> {0x00, 0x80} \<and> mbr_small (0x1BE + i * 16 + 4) \<noteq> 0"
      by (rule bexI [of _ 0]) (simp_all add: mbr_small_def)
    then have "mbr_partition mbr_small 0 = Some 8"
      unfolding mbr_partition_def Let_def u by (simp add: mbr_small_def le32_def le16_def)
    then show ?thesis by simp
  qed
  have vol: "fat_volume vbr_small" "bpb_type vbr_small = FAT_TYPE_12" "bpb_data vbr_small = 4"
    by (simp_all add: fat_volume_def bpb_defs boot_signature_def vbr_small_def le16_def le32_def entry_bits_def)
  then have "fat_volume (disk ?s 8)" by simp
  from Fat32Init_mounts [OF ok sig disjI1 [OF p] this] vol show ?thesis by (auto simp: volume_mounted_def)
qed

text \<open>
  \<^verbatim>\<open>Fat32GetFreeSize\<close> is the number of free clusters of the data area times the
  cluster size, modulo \<open>2 ^ 64\<close>.
\<close>

theorem Fat32GetFreeSize_counts:
  assumes "fat_ok s" "\<forall>x. 2 \<le> x \<and> x < fat_max_cluster s \<longrightarrow> fat_cluster s x"
  shows "fst (Fat32GetFreeSize s) =
    of_nat (card {x. 2 \<le> x \<and> x < fat_max_cluster s \<and> fat_entry s x = 0})
      * ucast (sectors_per_cluster (g_fat s)) * ucast (bytes_per_sector (g_fat s))"
proof -
  let ?f = "\<lambda>c (n, s). let (v, s') = FatGetFatEntry c s in (if v = 0 then n + 1 else n, s')"
  have scan: "fst (fold ?f cs (n, t)) = n + of_nat (card {x \<in> set cs. fat_entry s x = 0})"
    if "distinct cs" "fat_same s t" "disk t = disk s" "\<forall>x\<in>set cs. fat_cluster s x" for cs t and n :: u64
    using that
  proof (induction cs arbitrary: n t)
    case Nil
    then show ?case by simp
  next
    case (Cons c cs)
    have t: "fat_ok t" "fat_cluster t c"
      using fat_same_ok [OF Cons.prems(2)] fat_same_cluster [OF Cons.prems(2)] assms(1) Cons.prems(4) by auto
    note g = FatGetFatEntry_entry [OF t]
    have e: "fat_entry t c = fat_entry s c" using fat_entry_cong [OF Cons.prems(2,3)] by simp
    have step: "?f c (n, t) = (if fat_entry s c = 0 then n + 1 else n, snd (FatGetFatEntry c t))"
      using g(1) e by (simp add: case_prod_unfold Let_def)
    have "{x \<in> set (c # cs). fat_entry s x = 0} =
        (if fat_entry s c = 0 then insert c {x \<in> set cs. fat_entry s x = 0} else {x \<in> set cs. fat_entry s x = 0})"
      by auto
    then have card: "card {x \<in> set (c # cs). fat_entry s x = 0} =
        (if fat_entry s c = 0 then 1 else 0) + card {x \<in> set cs. fat_entry s x = 0}"
      using Cons.prems(1) by simp
    show ?case
      unfolding fold.simps comp_def step card
      using Cons.IH [OF _ fat_same_trans [OF Cons.prems(2) g(2)]] Cons.prems g(3) by simp
  qed
  have inj: "inj_on (of_nat :: nat \<Rightarrow> u32) (set [unat a..<unat b])" for a b :: u32
  proof (rule inj_onI)
    fix i j assume ij: "i \<in> set [unat a..<unat b]" "j \<in> set [unat a..<unat b]" "(of_nat i :: u32) = of_nat j"
    have "unat b < 2 ^ 32" using unsigned_less [of b, where ?'a = nat] by simp
    then have "unat (of_nat i :: u32) = i" "unat (of_nat j :: u32) = j"
      using ij(1,2) by (simp_all add: unat_of_nat take_bit_nat_eq_self)
    then show "i = j" using ij(3) by metis
  qed
  have d: "distinct (u32_range a b)" for a b
    unfolding u32_range_def distinct_map using inj by simp
  have v: "\<forall>x\<in>set (u32_range 2 (fat_max_cluster s)). fat_cluster s x" using assms(2) by (simp add: set_u32_range)
  show ?thesis
    using scan [OF d fat_same_refl refl v, of 0] assms(1)
    by (simp add: Fat32GetFreeSize_def fat_ok_def case_prod_unfold Let_def set_u32_range conj_assoc)
qed

lemma Fat32GetFreeSize_counts_witness:
  "fst (Fat32GetFreeSize fat_small) =
     of_nat (card {x. 2 \<le> x \<and> x < 10 \<and> fat_entry fat_small x = 0}) * 1 * 512"
proof -
  have max: "fat_max_cluster fat_small = 10" by (simp add: fat_max_cluster_def fat_small_def)
  then have "\<forall>x. 2 \<le> x \<and> x < fat_max_cluster fat_small \<longrightarrow> fat_cluster fat_small x"
    using fat_small_cluster by simp
  from Fat32GetFreeSize_counts [OF fat_small_ok this] show ?thesis
    unfolding max by (simp add: fat_small_def)
qed

end
