(* ===== verification/Fat_Names.thy ===== *)
theory Fat_Names
  imports Fat_Table Runtime
begin

text \<open>
  Names on a FAT volume, from \<^verbatim>\<open>Kernel/fs/fat32.c\<close>: short (8.3) names, long name (LFN)
  entries, the checksum that ties them together, and the parsing of a directory entry.
  A C string is the list of its bytes without the NUL; a directory entry in a sector is a
  buffer and an offset.
\<close>

section \<open>Definitions\<close>

record fat_dir_entry =
  fname :: "u8 list"
  first_cluster :: u32
  file_size :: u32
  is_directory :: bool
  is_readonly :: bool
  is_hidden :: bool
  is_system :: bool
  is_volume_label :: bool
  is_long_name :: bool
  attributes :: u32

definition fat_dir_entry_zero :: fat_dir_entry where
  "fat_dir_entry_zero = \<lparr>fname = [], first_cluster = 0, file_size = 0, is_directory = False,
     is_readonly = False, is_hidden = False, is_system = False, is_volume_label = False,
     is_long_name = False, attributes = 0\<rparr>"

text \<open>The string in a byte array: its bytes up to the first NUL.\<close>

definition until_nul :: "u8 list \<Rightarrow> u8 list" where
  "until_nul xs = takeWhile (\<lambda>c. c \<noteq> 0) xs"

text \<open>The name built from the eleven bytes of a short name.\<close>

definition parse_short_name :: "u8 list \<Rightarrow> u8 list" where
  "parse_short_name raw =
     map to_lower (takeWhile (\<lambda>c. c \<noteq> 32) (take 8 raw))
     @ (if raw ! 8 \<noteq> 32 then 46 # map to_lower (takeWhile (\<lambda>c. c \<noteq> 32) (take 3 (drop 8 raw))) else [])"

definition FatParseDirEntry :: "fat_type \<Rightarrow> buf \<Rightarrow> nat \<Rightarrow> fat_dir_entry \<Rightarrow> ntstatus \<times> fat_dir_entry" where
  "FatParseDirEntry type raw d out =
     (let attr = raw (d + 11) in
      if raw d = 0x00 then (STATUS_NOT_FOUND, out)
      else if raw d = 0xE5 then (STATUS_NOT_FOUND, out)
      else if attr AND 0x0F = 0x0F then (STATUS_SUCCESS, out\<lparr>is_long_name := True\<rparr>)
      else
        let cluster_hi = (if type = FAT_TYPE_32 then ucast (le16 raw (d + 20)) else 0);
            cluster_lo = ucast (le16 raw (d + 26))
        in (STATUS_SUCCESS, \<lparr>
             fname = until_nul (parse_short_name (buf_list raw d 11)),
             first_cluster = push_bit 16 cluster_hi OR cluster_lo,
             file_size = le32 raw (d + 28),
             is_directory = attr AND 0x10 \<noteq> 0, is_readonly = attr AND 0x01 \<noteq> 0,
             is_hidden = attr AND 0x02 \<noteq> 0, is_system = attr AND 0x04 \<noteq> 0,
             is_volume_label = attr AND 0x08 \<noteq> 0, is_long_name = False,
             attributes = ucast attr\<rparr>))"

definition lfn_positions :: "nat list" where
  "lfn_positions = [1, 3, 5, 7, 9, 14, 16, 18, 20, 22, 24, 28, 30]"

definition extract_step :: "buf \<Rightarrow> nat \<Rightarrow> u32 \<Rightarrow> u32 \<Rightarrow> nat \<Rightarrow> buf \<Rightarrow> buf + buf" where
  "extract_step raw d base limit i lfn =
     (let pos = base + of_nat i; ch = le16 raw (d + lfn_positions ! i) in
      if pos \<ge> limit - 1 then Inl lfn
      else if ch = 0x0000 \<or> ch = 0xFFFF then Inl (lfn(unat pos := 0))
      else Inr (lfn(unat pos := ucast (ch AND 0xFF))))"

definition FatExtractLfn :: "buf \<Rightarrow> nat \<Rightarrow> buf \<Rightarrow> u32 \<Rightarrow> buf" where
  "FatExtractLfn raw d lfn_buf lfn_buf_size =
     (let seq = raw d AND 0x3F; base = (ucast seq - 1) * 13 in
      case fold_until (extract_step raw d base lfn_buf_size) [0..<13] lfn_buf of
        Inl b \<Rightarrow> b | Inr b \<Rightarrow> b)"

definition last_dot :: "u8 list \<Rightarrow> nat option" where
  "last_dot name = find (\<lambda>i. name ! i = 46) (rev [0..<length name])"

definition short_char :: "u8 \<Rightarrow> u8" where
  "short_char c = (if c \<ge> 97 \<and> c \<le> 122 then c - 32 else if c = 32 then 95 else c)"

definition pad :: "nat \<Rightarrow> u8 list \<Rightarrow> u8 list" where
  "pad n xs = xs @ replicate (n - length xs) 32"

definition FatGenerateShortName :: "u8 list \<Rightarrow> u8 list" where
  "FatGenerateShortName long_name =
     (let dot = last_dot long_name;
          base_len = min 8 (case dot of Some i \<Rightarrow> i | None \<Rightarrow> length long_name);
          base = map short_char (take base_len long_name);
          ext = (case dot of Some i \<Rightarrow> map short_char (take 3 (drop (i + 1) long_name)) | None \<Rightarrow> [])
      in pad 8 base @ pad 3 ext)"

definition FatComputeChecksum :: "u8 list \<Rightarrow> u8" where
  "FatComputeChecksum short_name =
     foldl (\<lambda>sum c. (if bit sum 0 then 0x80 else 0) + drop_bit 1 sum + c) 0 (take 11 short_name)"

definition FatNeedLfn :: "u8 list \<Rightarrow> bool" where
  "FatNeedLfn name =
     (if str_compare name [46] = 0 \<or> str_compare name [46, 46] = 0 then False
      else if length name > 12 then True
      else if \<exists>c\<in>set name. c \<ge> 97 \<and> c \<le> 122 then True
      else if length (filter (\<lambda>c. c = 46) name) > 1 then True
      else if (case find (\<lambda>i. name ! i = 46) [0..<length name] of
                 Some dot \<Rightarrow> dot > 8 \<or> length (drop (dot + 1) name) > 3
               | None \<Rightarrow> length name > 8) then True
      else \<exists>c\<in>set name. c \<in> {32, 43, 44, 59, 61, 91, 93})"

definition lfn_char :: "u8 list \<Rightarrow> nat \<Rightarrow> nat \<Rightarrow> u16" where
  "lfn_char long_name char_idx name_len =
     (if char_idx < name_len then ucast (long_name ! char_idx)
      else if char_idx = name_len then 0x0000 else 0xFFFF)"

definition FatFormatLfnEntry :: "u8 list \<Rightarrow> u8 \<Rightarrow> u8 \<Rightarrow> nat \<Rightarrow> nat \<Rightarrow> buf" where
  "FatFormatLfnEntry long_name seq checksum name_offset name_len =
     (let e = put16 ((\<lambda>_. 0)(0 := seq, 11 := 0x0F, 12 := 0, 13 := checksum)) 26 0;
          ch = (\<lambda>i. lfn_char long_name (name_offset + i) name_len)
      in fold (\<lambda>i e. put16 e (lfn_positions ! i) (ch i)) [0..<13] e)"

text \<open>The sequence byte of the \<open>i\<close>-th entry written: numbered downwards, the first one marked.\<close>

definition lfn_seq :: "nat \<Rightarrow> nat \<Rightarrow> u8" where
  "lfn_seq lfn_entries i = (let seq = of_nat (lfn_entries - 1 - i + 1) in if i = 0 then seq OR 0x40 else seq)"

section \<open>Long names survive formatting and extraction\<close>

lemma lfn_entry_chars:
  assumes "i < 13"
  shows "le16 (FatFormatLfnEntry xs seq ck off n) (lfn_positions ! i) = lfn_char xs (off + i) n"
proof -
  have "i \<in> set [0..<13]" using assms by simp
  then show ?thesis
    unfolding FatFormatLfnEntry_def Let_def lfn_positions_def
    by (simp add: upt_rec numeral_eq_Suc) (elim disjE; simp add: le16_put16_other)
qed

lemma lfn_entry_seq: "FatFormatLfnEntry xs seq ck off n 0 = seq"
  unfolding FatFormatLfnEntry_def Let_def lfn_positions_def
  by (simp add: upt_rec numeral_eq_Suc put16_other)

lemma u16_of_char:
  "(ucast (c :: u8) :: u16) \<noteq> 0xFFFF" "(ucast c :: u16) = 0 \<longleftrightarrow> c = 0"
  "(ucast ((ucast c :: u16) AND 0xFF) :: u8) = c"
proof -
  have "unat c < 256" using unsigned_less [of c, where ?'a = nat] by simp
  then show "(ucast (c :: u8) :: u16) \<noteq> 0xFFFF" "(ucast c :: u16) = 0 \<longleftrightarrow> c = 0"
    by (simp_all add: word_unat_eq_iff)
  show "(ucast ((ucast c :: u16) AND 0xFF) :: u8) = c"
    unfolding masks by (rule bit_word_eqI) (auto simp: bit_simps)
qed

text \<open>
  The extraction loop on an entry whose characters are those of a formatted entry, from
  index \<open>i\<close> on.
\<close>

lemma extract_loop:
  assumes ch: "\<And>i. i < 13 \<Longrightarrow> le16 raw (d + lfn_positions ! i) = lfn_char xs (off + i) (length xs)"
    and "0 \<notin> set xs" "length xs \<le> 255" "i \<le> 13" "off + i \<le> length xs"
  shows "(case fold_until (extract_step raw d (of_nat off) 260) [i..<13] lfn of Inl b \<Rightarrow> b | Inr b \<Rightarrow> b) =
    (\<lambda>p. if off + i \<le> p \<and> p < off + 13 \<and> p < length xs then xs ! p
         else if p = length xs \<and> p < off + 13 then 0 else lfn p)"
  using assms(4,5)
proof (induction "13 - i" arbitrary: i lfn)
  case 0
  then show ?case by (auto simp: fun_eq_iff)
next
  case (Suc k)
  then have i: "i < 13" "[i..<13] = i # [Suc i..<13]" by (simp_all add: upt_conv_Cons)
  have small: "off + i < 2 ^ 32" "off + i < 259" using Suc.prems(2) assms(3) by simp_all
  have pos: "of_nat off + of_nat i = (of_nat (off + i) :: u32)" by simp
  have u: "unat (of_nat (off + i) :: u32) = off + i"
    using small(1) by (simp only: unat_of_nat) (simp add: take_bit_nat_eq_self)
  have le: "\<not> (of_nat (off + i) :: u32) \<ge> 260 - 1"
    unfolding word_le_nat_alt u using small(2) by simp
  show ?case
  proof (cases "off + i = length xs")
    case True
    have "extract_step raw d (of_nat off) 260 i lfn = Inl (lfn(off + i := 0))"
      using le u ch [OF i(1)] True unfolding extract_step_def pos by (simp add: lfn_char_def)
    then show ?thesis unfolding i(2) using True i(1) by (auto simp: fun_eq_iff)
  next
    case False
    then have lt: "off + i < length xs" using Suc.prems(2) by simp
    have c: "lfn_char xs (off + i) (length xs) = ucast (xs ! (off + i))" using lt by (simp add: lfn_char_def)
    have nz: "xs ! (off + i) \<noteq> 0" using assms(2) lt by (metis nth_mem)
    have "extract_step raw d (of_nat off) 260 i lfn = Inr (lfn(off + i := xs ! (off + i)))"
      using le u ch [OF i(1)] c u16_of_char [of "xs ! (off + i)"] nz unfolding extract_step_def pos by simp
    then have step: "fold_until (extract_step raw d (of_nat off) 260) [i..<13] lfn =
        fold_until (extract_step raw d (of_nat off) 260) [Suc i..<13] (lfn(off + i := xs ! (off + i)))"
      unfolding i(2) by simp
    have "k = 13 - Suc i" "Suc i \<le> 13" "off + Suc i \<le> length xs" using Suc.hyps(2) i(1) lt by simp_all
    from Suc.hyps(1) [OF this] show ?thesis
      unfolding step using i(1) lt by (auto simp: fun_eq_iff less_Suc_eq_le le_less)
  qed
qed

text \<open>One entry: its 13 characters, or what is left of the name and its NUL.\<close>

lemma FatExtractLfn_entry:
  assumes "0 \<notin> set xs" "length xs \<le> 255" "j * 13 < length xs" "seq AND 0x3F = of_nat (j + 1)"
  shows "FatExtractLfn (FatFormatLfnEntry xs seq ck (j * 13) (length xs)) 0 lfn 260 =
    (\<lambda>p. if j * 13 \<le> p \<and> p < j * 13 + 13 \<and> p < length xs then xs ! p
         else if p = length xs \<and> p < j * 13 + 13 then 0 else lfn p)"
proof -
  let ?e = "FatFormatLfnEntry xs seq ck (j * 13) (length xs)"
  have j: "j < 20" using assms(2,3) by simp
  have "(ucast (of_nat (j + 1) :: u8) :: u32) = of_nat (j + 1)"
    using j by (simp add: word_unat_eq_iff unat_of_nat take_bit_nat_eq_self del: of_nat_add of_nat_Suc)
  then have base: "(ucast (seq AND 0x3F) - 1) * 13 = (of_nat (j * 13) :: u32)"
    unfolding assms(4) by simp
  have ch: "le16 ?e (0 + lfn_positions ! i) = lfn_char xs (j * 13 + i) (length xs)" if "i < 13" for i
    using lfn_entry_chars [OF that] by simp
  from extract_loop [OF ch assms(1,2), of 0 lfn] assms(3) show ?thesis
    unfolding FatExtractLfn_def lfn_entry_seq Let_def base by simp
qed

definition lfn_count :: "nat \<Rightarrow> nat" where
  "lfn_count n = (n + 12) div 13"

text \<open>The entries on disk come with the highest sequence number first.\<close>

lemma lfn_scan:
  assumes "0 \<notin> set xs" "length xs \<le> 255" "k * 13 < length xs + 13"
    and "\<And>j. j < k \<Longrightarrow> seq j AND 0x3F = of_nat (j + 1)"
  shows "fold (\<lambda>j lfn. FatExtractLfn (FatFormatLfnEntry xs (seq j) ck (j * 13) (length xs)) 0 lfn 260) (rev [0..<k]) lfn p =
    (if p < k * 13 \<and> p < length xs then xs ! p else if p = length xs \<and> p < k * 13 then 0 else lfn p)"
  using assms(3,4)
proof (induction k arbitrary: lfn)
  case 0
  then show ?case by simp
next
  case (Suc k)
  have "k * 13 < length xs" using Suc.prems(1) by simp
  note e = FatExtractLfn_entry [OF assms(1,2) this Suc.prems(2) [of k]]
  show ?case
    using Suc.IH [of "FatExtractLfn (FatFormatLfnEntry xs (seq k) ck (k * 13) (length xs)) 0 lfn 260"]
      Suc.prems e [of ck lfn] by (simp add: less_Suc_eq)
qed

lemma lfn_seq_number:
  assumes "j < k" "k \<le> 20"
  shows "lfn_seq k (k - 1 - j) AND 0x3F = of_nat (j + 1)"
proof -
  have "list_all (\<lambda>j. (of_nat (j + 1) :: u8) AND 0x3F = of_nat (j + 1)
      \<and> ((of_nat (j + 1) :: u8) OR 0x40) AND 0x3F = of_nat (j + 1)) [0..<20]" by code_simp
  then have "(of_nat (j + 1) :: u8) AND 0x3F = of_nat (j + 1)"
    "((of_nat (j + 1) :: u8) OR 0x40) AND 0x3F = of_nat (j + 1)"
    using assms unfolding list_all_iff by auto
  moreover have "k - 1 - (k - 1 - j) = j" using assms(1) by simp
  ultimately show ?thesis unfolding lfn_seq_def Let_def by presburger
qed

lemma until_nul_buf:
  assumes "\<And>i. i < length xs \<Longrightarrow> r i = xs ! i" "r (length xs) = 0" "length xs < n" "0 \<notin> set xs"
  shows "until_nul (buf_list r 0 n) = xs"
proof -
  have "buf_list r 0 n = xs @ 0 # drop (Suc (length xs)) (buf_list r 0 n)"
    using assms(1-3) by (intro nth_equalityI) (auto simp: nth_append nth_Cons')
  moreover have "takeWhile (\<lambda>c. c \<noteq> 0) (xs @ 0 # ys) = xs" for ys
    using assms(4) by (auto simp: takeWhile_append intro!: takeWhile_eq_all_conv [THEN iffD2])
  ultimately show ?thesis unfolding until_nul_def by metis
qed

lemma rev_upt_map: "rev [0..<k] = map (\<lambda>i. k - 1 - i) [0..<k]"
  by (rule nth_equalityI) (simp_all add: rev_nth)

section \<open>Short names\<close>

lemma takeWhile_pad: "32 \<notin> set xs \<Longrightarrow> takeWhile (\<lambda>c. c \<noteq> 32) (pad n xs) = xs"
  by (cases "n - length xs") (auto simp: pad_def takeWhile_append intro!: takeWhile_eq_all_conv [THEN iffD2])

lemma length_pad: "length xs \<le> n \<Longrightarrow> length (pad n xs) = n"
  by (simp add: pad_def)

lemma parse_short_name_pads:
  assumes "length base \<le> 8" "length ext \<le> 3" "32 \<notin> set base" "32 \<notin> set ext"
  shows "parse_short_name (pad 8 base @ pad 3 ext) =
    map to_lower base @ (if ext = [] then [] else 46 # map to_lower ext)"
proof -
  have l: "length (pad 8 base) = 8" "length (pad 3 ext) = 3" using assms(1,2) by (simp_all add: length_pad)
  have n8: "(pad 8 base @ pad 3 ext) ! 8 = (if ext = [] then 32 else hd ext)"
    using l(1) assms(2) by (simp add: nth_append pad_def hd_conv_nth)
  have "ext \<noteq> [] \<Longrightarrow> hd ext \<noteq> 32" using assms(4) by (metis hd_in_set)
  then show ?thesis
    unfolding parse_short_name_def n8 using l takeWhile_pad [OF assms(3), of 8] takeWhile_pad [OF assms(4), of 3]
    by simp
qed

lemma find_upt_append:
  assumes "p (length xs)" "\<And>i. i < length xs \<Longrightarrow> \<not> p i" "length xs < n"
  shows "find p [0..<n] = Some (length xs)"
  using assms by (simp add: find_upt_Some_iff)

lemma find_append:
  "find p (xs @ ys) = (case find p xs of None \<Rightarrow> find p ys | Some x \<Rightarrow> Some x)"
  by (induction xs) auto

lemma last_dot_None: "46 \<notin> set xs \<Longrightarrow> last_dot xs = None"
  by (auto simp: last_dot_def find_None_iff in_set_conv_nth)

lemma last_dot_Some: "46 \<notin> set ys \<Longrightarrow> last_dot (xs @ 46 # ys) = Some (length xs)"
proof -
  assume y: "46 \<notin> set ys"
  let ?n = "xs @ 46 # ys" and ?l = "length xs"
  have "find (\<lambda>i. ?n ! i = 46) (rev [Suc ?l..<length ?n]) = None"
    using y by (auto simp: find_None_iff nth_append nth_Cons' in_set_conv_nth)
  moreover have "[0..<length ?n] = [0..<?l] @ [?l..<length ?n]"
    using upt_add_eq_append [of 0 ?l "Suc (length ys)"] by simp
  moreover have "[?l..<length ?n] = ?l # [Suc ?l..<length ?n]" by (rule upt_conv_Cons) simp
  ultimately have "find (\<lambda>i. ?n ! i = 46) (rev [0..<length ?n]) = Some ?l"
    by (simp add: find_append nth_append del: upt_Suc)
  then show ?thesis by (simp add: last_dot_def)
qed

section \<open>Properties\<close>

text \<open>
  C6: A long name written as LFN entries, in the order and with the sequence bytes of
  \<^verbatim>\<open>FatWriteDirectoryEntries\<close>, and read back entry by entry with \<^verbatim>\<open>FatExtractLfn\<close> into the
  cleared 260-byte buffer of the directory scans, is the same name, for every name of up to
  255 bytes.
\<close>

theorem Lfn_roundtrip:
  assumes "0 \<notin> set xs" "length xs \<le> 255"
  shows "until_nul (buf_list (fold (\<lambda>i lfn. FatExtractLfn (FatFormatLfnEntry xs
      (lfn_seq (lfn_count (length xs)) i) ck ((lfn_count (length xs) - 1 - i) * 13) (length xs)) 0 lfn 260)
      [0..<lfn_count (length xs)] (\<lambda>_. 0)) 0 260) = xs"
proof -
  let ?n = "length xs" and ?k = "lfn_count (length xs)"
  let ?f = "\<lambda>j lfn. FatExtractLfn (FatFormatLfnEntry xs (lfn_seq ?k (?k - 1 - j)) ck (j * 13) ?n) 0 lfn 260"
  have k: "?k \<le> 20" "?k * 13 < ?n + 13" "?n \<le> ?k * 13" using assms(2) by (auto simp: lfn_count_def)
  have "fold ?f (rev [0..<?k]) (\<lambda>_. 0) = fold (\<lambda>i. ?f (?k - 1 - i)) [0..<?k] (\<lambda>_. 0)"
    by (simp add: rev_upt_map fold_map comp_def)
  also have "\<dots> = fold (\<lambda>i lfn. FatExtractLfn (FatFormatLfnEntry xs (lfn_seq ?k i) ck ((?k - 1 - i) * 13) ?n) 0 lfn 260)
      [0..<?k] (\<lambda>_. 0)"
    by (rule fold_cong) auto
  finally have eq: "fold (\<lambda>i lfn. FatExtractLfn (FatFormatLfnEntry xs (lfn_seq ?k i) ck ((?k - 1 - i) * 13) ?n) 0 lfn 260)
      [0..<?k] (\<lambda>_. 0) = fold ?f (rev [0..<?k]) (\<lambda>_. 0)" ..
  have "fold ?f (rev [0..<?k]) (\<lambda>_. 0) p =
      (if p < ?k * 13 \<and> p < ?n then xs ! p else 0)" for p
    using lfn_scan [OF assms k(2), of "\<lambda>j. lfn_seq ?k (?k - 1 - j)" ck "\<lambda>_. 0" p] lfn_seq_number k(1) by auto
  then show ?thesis
    unfolding eq using k(3) assms by (intro until_nul_buf) auto
qed

lemma Lfn_roundtrip_witness:
  "until_nul (buf_list (fold (\<lambda>i lfn. FatExtractLfn (FatFormatLfnEntry [97, 98, 99]
      (lfn_seq 1 i) 0 ((1 - 1 - i) * 13) 3) 0 lfn 260) [0..<1] (\<lambda>_. 0)) 0 260) = [97, 98, 99]"
proof -
  have "lfn_count (length [97, 98, 99 :: u8]) = 1" by (simp add: lfn_count_def)
  moreover have "length [97, 98, 99 :: u8] = 3" by simp
  moreover have "0 \<notin> set [97, 98, 99 :: u8]" "length [97, 98, 99 :: u8] \<le> 255" by simp_all
  ultimately show ?thesis using Lfn_roundtrip [of "[97, 98, 99]" 0] by metis
qed

text \<open>
  A name that \<^verbatim>\<open>FatNeedLfn\<close> stores without long entries is read back from its short
  name, up to the case of its letters: the file is found again under that name. Excepted are
  names that end in a dot, which the short name loses.
\<close>

theorem FatNeedLfn_short_name:
  assumes "\<not> FatNeedLfn name" "0 \<notin> set name" "name \<noteq> []" "last name \<noteq> 46"
  shows "until_nul (parse_short_name (FatGenerateShortName name)) = map to_lower name"
proof -
  have nodot: "str_compare name [46] \<noteq> 0" "str_compare name [46, 46] \<noteq> 0"
    using assms(2,4) by auto
  have need: "\<forall>c\<in>set name. \<not> (97 \<le> c \<and> c \<le> 122)" "length (filter (\<lambda>c. c = 46) name) \<le> 1"
    "case find (\<lambda>i. name ! i = 46) [0..<length name] of Some dot \<Rightarrow> dot \<le> 8 \<and> length (drop (dot + 1) name) \<le> 3
       | None \<Rightarrow> length name \<le> 8" "32 \<notin> set name"
    using assms(1) nodot by (auto simp: FatNeedLfn_def not_less split: if_splits option.splits)
  have sc: "map short_char ys = ys" if "set ys \<subseteq> set name" for ys
    using that need(1,4) by (intro map_idI) (auto simp: short_char_def)
  have lower: "to_lower c \<noteq> 0" if "c \<in> set name" for c
  proof (cases "65 \<le> c \<and> c \<le> 90")
    case True
    then have "unat c \<le> 90" "65 \<le> unat c" by (auto simp: word_le_nat_alt)
    then have "unat (c + 32) = unat c + 32" by (simp add: unat_word_ariths)
    then show ?thesis using True by (auto simp: to_lower_def)
  next
    case False
    then show ?thesis using that assms(2) by (auto simp: to_lower_def)
  qed
  have nul: "until_nul (map to_lower name) = map to_lower name"
    using lower by (auto simp: until_nul_def takeWhile_eq_all_conv)
  show ?thesis
  proof (cases "46 \<in> set name")
    case False
    then have "find (\<lambda>i. name ! i = 46) [0..<length name] = None"
      by (auto simp: find_None_iff) (metis nth_mem)
    then have "length name \<le> 8" using need(3) by simp
    then have "FatGenerateShortName name = pad 8 name @ pad 3 []"
      using last_dot_None [OF False] sc [of name] by (simp add: FatGenerateShortName_def)
    then show ?thesis using parse_short_name_pads [of name "[]"] \<open>length name \<le> 8\<close> need(4) nul by simp
  next
    case True
    then obtain base ext where ne: "name = base @ 46 # ext" "46 \<notin> set base" by (metis split_list_first)
    have ext: "46 \<notin> set ext" "ext \<noteq> []"
      using need(2) assms(4) unfolding ne(1) by (auto simp: filter_empty_conv)
    have "find (\<lambda>i. name ! i = 46) [0..<length name] = Some (length base)"
      using ne by (intro find_upt_append) (auto simp: nth_append in_set_conv_nth)
    then have len: "length base \<le> 8" "length ext \<le> 3" using need(3) by (simp_all add: ne(1))
    have "FatGenerateShortName name = pad 8 base @ pad 3 ext"
      using last_dot_Some [OF ext(1), of base] sc [of base] sc [of ext] len
      by (simp add: FatGenerateShortName_def ne(1) subset_iff)
    then show ?thesis using parse_short_name_pads [OF len] need(4) ext(2) nul
      by (simp add: ne(1) to_lower_def)
  qed
qed

text \<open>The name \<open>A.TXT\<close>.\<close>

lemma FatNeedLfn_short_name_witness:
  "until_nul (parse_short_name (FatGenerateShortName [65, 46, 84, 88, 84])) = [97, 46, 116, 120, 116]"
proof -
  have "\<not> FatNeedLfn [65, 46, 84, 88, 84]" by code_simp
  from FatNeedLfn_short_name [OF this] show ?thesis by (simp add: to_lower_def)
qed

text \<open>The exception: a name with a trailing dot comes back without it.\<close>

lemma trailing_dot_lost:
  "\<not> FatNeedLfn [65, 46] \<and> parse_short_name (FatGenerateShortName [65, 46]) = [97]"
  by code_simp

end
