(* ===== verification/Fat_Dir.thy ===== *)
theory Fat_Dir
  imports Fat_Names
begin

text \<open>
  Directories, from \<^verbatim>\<open>Kernel/fs/fat32.c\<close>: listing, path resolution, the search for an entry
  and for free slots, growing a directory and writing entries. The outer loops follow the
  cluster chain of a directory: they are partial functions and \<open>None\<close> means that the loop
  does not end (a cyclic chain). The inner loops over sectors and 32-byte slots are
  \<open>fold_until\<close>. Paths and names are lists of bytes without NUL.
\<close>

section \<open>Listing a directory\<close>

definition Fat32OpenRoot :: "fat \<Rightarrow> ntstatus \<times> fat" where
  "Fat32OpenRoot s =
     (if \<not> g_fat_initialized s then (STATUS_UNSUCCESSFUL, s)
      else (STATUS_SUCCESS, s\<lparr>
        g_current_cluster := (if ftype (g_fat s) = FAT_TYPE_32 then root_cluster (g_fat s) else 0),
        g_current_file_size := 0, g_current_is_directory := True\<rparr>))"

text \<open>The offsets \<open>d = 0, 32, ...\<close> of the slots of a sector.\<close>

definition slot_offsets :: "fat \<Rightarrow> nat list" where
  "slot_offsets s = map (\<lambda>i. 32 * i) [0..<(unat (bytes_per_sector (g_fat s)) + 31) div 32]"

definition lfn_string :: "buf \<Rightarrow> u8 list" where
  "lfn_string lfn = until_nul (buf_list lfn 0 260)"

type_synonym readdir_state = "bool \<times> buf \<times> fat_dir_entry list"

text \<open>One slot: \<open>Inl\<close> is the return at the end-of-directory mark.\<close>

definition readdir_slot ::
  "fat_type \<Rightarrow> nat \<Rightarrow> buf \<Rightarrow> nat \<Rightarrow> readdir_state \<Rightarrow> fat_dir_entry list + readdir_state" where
  "readdir_slot type limit b d st =
     (let (lfn_valid, lfn, entries) = st in
      if \<not> length entries < limit then Inr st
      else if b d = 0x00 then Inl entries
      else if b d = 0xE5 then Inr (False, \<lambda>_. 0, entries)
      else
        let attr = b (d + 11) in
        if attr AND 0x0F = 0x0F then Inr (True, FatExtractLfn b d lfn 260, entries)
        else if attr AND 0x08 \<noteq> 0 then Inr (False, lfn, entries)
        else
          let (s2, entry) = FatParseDirEntry type b d fat_dir_entry_zero in
          if s2 = STATUS_NOT_FOUND then Inr (False, lfn, entries)
          else
            let entry = (if lfn_valid \<and> lfn 0 \<noteq> 0
                         then entry\<lparr>fname := take 255 (lfn_string lfn)\<rparr> else entry)
            in Inr (False, \<lambda>_. 0, if is_long_name entry then entries else entries @ [entry]))"

definition readdir_sector ::
  "nat \<Rightarrow> u32 \<Rightarrow> nat \<Rightarrow> readdir_state \<times> fat
   \<Rightarrow> (ntstatus \<times> fat_dir_entry list \<times> fat) + readdir_state \<times> fat" where
  "readdir_sector limit sector_base k sts =
     (let (st, s) = sts; (lfn_valid, lfn, entries) = st in
      if \<not> length entries < limit then Inr sts
      else
        let (status, s1) = read_g (sector_base + of_nat k) s in
        if NT_ERROR status then Inl (status, entries, s1)
        else case fold_until (readdir_slot (ftype (g_fat s1)) limit (sector_buf s1)) (slot_offsets s1) st of
               Inl es \<Rightarrow> Inl (STATUS_SUCCESS, es, s1)
             | Inr st' \<Rightarrow> Inr (st', s1))"

partial_function (option) readdir_chain ::
  "nat \<Rightarrow> u32 \<Rightarrow> readdir_state \<Rightarrow> fat \<Rightarrow> (ntstatus \<times> fat_dir_entry list \<times> fat) option" where
  "readdir_chain limit cluster st s =
     (if \<not> length (snd (snd st)) < limit \<or> cluster = 0 \<or> cluster \<ge> 0x0FFFFFF8
      then Some (STATUS_SUCCESS, snd (snd st), s)
      else
        let sector_base = FatClusterToSector cluster s;
            (next, s1) = FatNextCluster cluster s
        in case fold_until (readdir_sector limit sector_base)
                  [0..<unat (sectors_per_cluster (g_fat s1))] (st, s1) of
             Inl r \<Rightarrow> Some r
           | Inr sts \<Rightarrow> readdir_chain limit next (fst sts) (snd sts))"

text \<open>
  \<open>limit\<close> is \<open>*count\<close> on entry; the entries returned are the first \<open>*count\<close> slots of the
  caller's array on return. The pointer arguments are not NULL at any call.
\<close>

definition Fat32ReadDir :: "nat \<Rightarrow> fat \<Rightarrow> (ntstatus \<times> fat_dir_entry list \<times> fat) option" where
  "Fat32ReadDir limit s =
     (if \<not> g_fat_initialized s then Some (STATUS_INVALID_PARAMETER, [], s)
      else if ftype (g_fat s) \<noteq> FAT_TYPE_32 \<and> g_current_cluster s = 0 then
        (if limit = 0 \<or> root_dir_sectors (g_fat s) = 0 then Some (STATUS_SUCCESS, [], s)
         else case fold_until (readdir_sector limit (root_dir_start_sector (g_fat s)))
                     [0..<unat (root_dir_sectors (g_fat s))] ((False, \<lambda>_. 0, []), s) of
                Inl r \<Rightarrow> Some r
              | Inr sts \<Rightarrow> Some (STATUS_SUCCESS, snd (snd (fst sts)), snd sts))
      else readdir_chain limit (g_current_cluster s) (False, \<lambda>_. 0, []) s)"

section \<open>Path resolution\<close>

definition path_sep :: "u8 \<Rightarrow> bool" where
  "path_sep c \<longleftrightarrow> c = 47 \<or> c = 92"

text \<open>One component of at most 255 bytes, and the path behind it and its separator.\<close>

definition next_component :: "u8 list \<Rightarrow> u8 list \<times> u8 list" where
  "next_component p =
     (let component = takeWhile (\<lambda>c. \<not> path_sep c) (take 255 p);
          rest = drop (length component) p
      in (component, if rest \<noteq> [] \<and> path_sep (hd rest) then tl rest else rest))"

definition entry_matches :: "u8 list \<Rightarrow> fat_dir_entry \<Rightarrow> bool" where
  "entry_matches component e \<longleftrightarrow> \<not> is_long_name e \<and>
     (str_compareI (fname e) component = 0
      \<or> FatGenerateShortName (fname e) = FatGenerateShortName component)"

lemma next_component_shorter: "p \<noteq> [] \<Longrightarrow> length (snd (next_component p)) < length p"
proof -
  assume "p \<noteq> []"
  then obtain c cs where p: "p = c # cs" by (cases p) auto
  show ?thesis
  proof (cases "path_sep c")
    case True
    then have "next_component p = ([], cs)" by (simp add: next_component_def p numeral_eq_Suc)
    then show ?thesis by (simp add: p)
  next
    case False
    then have "takeWhile (\<lambda>c. \<not> path_sep c) (take 255 p) \<noteq> []" by (simp add: p numeral_eq_Suc)
    then have "length (drop (length (takeWhile (\<lambda>c. \<not> path_sep c) (take 255 p))) p) < length p"
      using p by simp
    then show ?thesis by (auto simp: next_component_def Let_def)
  qed
qed

function open_components :: "u8 list \<Rightarrow> fat \<Rightarrow> (ntstatus \<times> fat) option" where
  "open_components p s =
     (if p = [] then Some (STATUS_SUCCESS, s\<lparr>g_current_is_directory := True\<rparr>)
      else
        let component = fst (next_component p); rest = snd (next_component p) in
        if component = [] then open_components rest s
        else case Fat32ReadDir 64 s of
          None \<Rightarrow> None
        | Some (status, entries, s1) \<Rightarrow>
            if NT_ERROR status then Some (status, s1)
            else case find (entry_matches component) entries of
              None \<Rightarrow> Some (STATUS_NO_SUCH_FILE, s1)
            | Some e \<Rightarrow>
                let s2 = s1\<lparr>g_current_cluster := first_cluster e, g_current_file_size := file_size e,
                           g_current_is_directory := is_directory e\<rparr>
                in if \<not> is_directory e then Some (STATUS_SUCCESS, s2) else open_components rest s2)"
  by pat_completeness auto

termination open_components
  by (relation "measure (\<lambda>(p, s). length p)") (auto simp: next_component_shorter)

declare open_components.simps [simp del]

definition Fat32OpenPath :: "u8 list \<Rightarrow> fat \<Rightarrow> (ntstatus \<times> fat) option" where
  "Fat32OpenPath path s =
     (if \<not> g_fat_initialized s then Some (STATUS_UNSUCCESSFUL, s)
      else
        let path = dropWhile path_sep path in
        if path = [] then Some (Fat32OpenRoot (s\<lparr>g_current_is_directory := True\<rparr>))
        else
          let (status, s1) = Fat32OpenRoot s in
          if NT_ERROR status then Some (status, s1) else open_components path s1)"

definition Fat32OpenDir :: "u8 list \<Rightarrow> fat \<Rightarrow> (ntstatus \<times> fat) option" where
  "Fat32OpenDir name s =
     (if \<not> g_fat_initialized s then Some (STATUS_UNSUCCESSFUL, s)
      else if name = [] then Some (Fat32OpenRoot s)
      else
        let (status, s1) = Fat32OpenRoot s in
        if NT_ERROR status then Some (status, s1)
        else case Fat32ReadDir 128 s1 of
          None \<Rightarrow> None
        | Some (status, entries, s2) \<Rightarrow>
            if NT_ERROR status then Some (status, s2)
            else case find (\<lambda>e. \<not> is_long_name e \<and> str_compareI (fname e) name = 0 \<and> is_directory e) entries of
              None \<Rightarrow> Some (STATUS_NOT_FOUND, s2)
            | Some e \<Rightarrow> Some (STATUS_SUCCESS, s2\<lparr>g_current_cluster := first_cluster e,
                g_current_file_size := 0, g_current_is_directory := True\<rparr>))"

definition Fat32IsCurrentDirectory :: "fat \<Rightarrow> bool" where
  "Fat32IsCurrentDirectory s = g_current_is_directory s"

definition Fat32GetFileSize :: "fat \<Rightarrow> u32" where
  "Fat32GetFileSize s = g_current_file_size s"

definition Fat32Close :: "fat \<Rightarrow> fat" where
  "Fat32Close s = s\<lparr>g_current_cluster := 0, g_current_file_size := 0\<rparr>"

section \<open>Finding an entry\<close>

record found_entry =
  fe_sector :: u32
  fe_offset :: nat
  fe_cluster :: u32
  fe_size :: u32
  fe_lfn_sector :: u32
  fe_lfn_offset :: nat

text \<open>The scan's state: LFN collected so far, and where its first entry lies.\<close>

type_synonym find_state = "bool \<times> buf \<times> u32 \<times> nat"

definition find_slot ::
  "fat_type \<Rightarrow> u8 list \<Rightarrow> u32 \<Rightarrow> buf \<Rightarrow> nat \<Rightarrow> find_state \<Rightarrow> found_entry option + find_state" where
  "find_slot type name sector b d st =
     (let (lfn_valid, lfn, lfn_sec, lfn_off) = st in
      if b d = 0x00 then Inl None
      else if b d = 0xE5 then Inr (False, \<lambda>_. 0, lfn_sec, lfn_off)
      else
        let attr = b (d + 11) in
        if attr AND 0x0F = 0x0F then
          let (lfn_valid, lfn, lfn_sec, lfn_off) =
                (if b d AND 0x40 \<noteq> 0 then (True, \<lambda>_. 0, sector, d) else st)
          in Inr (lfn_valid, if lfn_valid then FatExtractLfn b d lfn 260 else lfn, lfn_sec, lfn_off)
        else if attr AND 0x08 \<noteq> 0 then Inr (False, \<lambda>_. 0, lfn_sec, lfn_off)
        else
          let (s2, entry) = FatParseDirEntry type b d fat_dir_entry_zero in
          if s2 = STATUS_NOT_FOUND then Inr (False, \<lambda>_. 0, lfn_sec, lfn_off)
          else if (lfn_valid \<and> lfn 0 \<noteq> 0 \<and> str_compareI (lfn_string lfn) name = 0)
                  \<or> str_compareI (fname entry) name = 0
          then Inl (Some \<lparr>fe_sector = sector, fe_offset = d, fe_cluster = first_cluster entry,
                 fe_size = file_size entry, fe_lfn_sector = (if lfn_valid then lfn_sec else 0),
                 fe_lfn_offset = (if lfn_valid then lfn_off else 0)\<rparr>)
          else Inr (False, \<lambda>_. 0, lfn_sec, lfn_off))"

type_synonym find_result = "ntstatus \<times> found_entry option \<times> fat"

definition find_sector ::
  "u8 list \<Rightarrow> u32 \<Rightarrow> nat \<Rightarrow> find_state \<times> fat \<Rightarrow> find_result + find_state \<times> fat" where
  "find_sector name sector_base k sts =
     (let (st, s) = sts; current_sector = sector_base + of_nat k;
          (status, s1) = read_g current_sector s
      in if NT_ERROR status then Inl (status, None, s1)
         else case fold_until (find_slot (ftype (g_fat s1)) name current_sector (sector_buf s1))
                     (slot_offsets s1) st of
                Inl None \<Rightarrow> Inl (STATUS_NO_SUCH_FILE, None, s1)
              | Inl (Some e) \<Rightarrow> Inl (STATUS_SUCCESS, Some e, s1)
              | Inr st' \<Rightarrow> Inr (st', s1))"

partial_function (option) find_chain ::
  "u8 list \<Rightarrow> u32 \<Rightarrow> find_state \<Rightarrow> fat \<Rightarrow> find_result option" where
  "find_chain name cluster st s =
     (if cluster < 2 \<or> cluster \<ge> FatEofMarker s then Some (STATUS_NO_SUCH_FILE, None, s)
      else
        let sector_base = FatClusterToSector cluster s;
            (next, s1) = FatNextCluster cluster s
        in case fold_until (find_sector name sector_base)
                  [0..<unat (sectors_per_cluster (g_fat s1))] (st, s1) of
             Inl r \<Rightarrow> Some r
           | Inr sts \<Rightarrow> find_chain name next (fst sts) (snd sts))"

definition is_fixed_root :: "u32 \<Rightarrow> fat \<Rightarrow> bool" where
  "is_fixed_root dir_cluster s \<longleftrightarrow> ftype (g_fat s) \<noteq> FAT_TYPE_32 \<and> dir_cluster = 0"

definition FatFindEntry :: "u32 \<Rightarrow> u8 list \<Rightarrow> fat \<Rightarrow> find_result option" where
  "FatFindEntry dir_cluster name s =
     (let st = (False, \<lambda>_. 0, 0, 0) in
      if is_fixed_root dir_cluster s then
        (if root_dir_sectors (g_fat s) = 0 then Some (STATUS_NO_SUCH_FILE, None, s)
         else case fold_until (find_sector name (root_dir_start_sector (g_fat s)))
                     [0..<unat (root_dir_sectors (g_fat s))] (st, s) of
                Inl r \<Rightarrow> Some r
              | Inr sts \<Rightarrow> Some (STATUS_NO_SUCH_FILE, None, snd sts))
      else find_chain name dir_cluster st s)"

section \<open>Free slots\<close>

text \<open>
  The scan keeps where the current run of deleted slots began and its length. A slot ends
  the search, makes it go on with the next cluster, or leaves the new run.
\<close>

datatype slot_exit = Slot_found u32 nat | Slot_next_group

definition free_slot ::
  "u32 \<Rightarrow> nat \<Rightarrow> nat \<Rightarrow> u32 \<Rightarrow> u32 \<Rightarrow> buf \<Rightarrow> nat \<Rightarrow> u32 \<times> nat \<times> nat \<Rightarrow> slot_exit + u32 \<times> nat \<times> nat" where
  "free_slot bps in_group k slots_needed sector b d run =
     (let (run_sector, run_offset, run_length) = run in
      if b d = 0x00 then
        let (run_sector, run_offset) = (if run_length = 0 then (sector, d) else (run_sector, run_offset));
            slots_remaining = (of_nat (in_group - k) * bps - of_nat d) div 32
        in if slots_remaining \<ge> slots_needed then Inl (Slot_found run_sector run_offset)
           else Inl Slot_next_group
      else if b d = 0xE5 then
        let (run_sector, run_offset) = (if run_length = 0 then (sector, d) else (run_sector, run_offset));
            run_length = run_length + 1
        in if run_length = unat slots_needed then Inl (Slot_found run_sector run_offset)
           else Inr (run_sector, run_offset, run_length)
      else Inr (run_sector, run_offset, 0))"

text \<open>Per sector: \<open>Inl (Inl status)\<close> is an error, \<open>Inl (Inr exit)\<close> an exit of \<open>free_slot\<close>.\<close>

definition free_sector ::
  "u32 \<Rightarrow> u32 \<Rightarrow> nat \<Rightarrow> nat \<Rightarrow> (u32 \<times> nat \<times> nat) \<times> fat
   \<Rightarrow> (ntstatus + slot_exit) \<times> fat + (u32 \<times> nat \<times> nat) \<times> fat" where
  "free_sector slots_needed sector_base in_group k sts =
     (let (run, s) = sts; current_sector = sector_base + of_nat k;
          (status, s1) = read_g current_sector s
      in if NT_ERROR status then Inl (Inl status, s1)
         else case fold_until (free_slot (bytes_per_sector (g_fat s1)) in_group k slots_needed
                     current_sector (sector_buf s1)) (slot_offsets s1) run of
                Inl e \<Rightarrow> Inl (Inr e, s1)
              | Inr run' \<Rightarrow> Inr (run', s1))"

text \<open>The status, sector and offset found, and the state.\<close>

type_synonym slots_result = "ntstatus \<times> u32 \<times> nat \<times> fat"

partial_function (option) free_slots_chain :: "u32 \<Rightarrow> u32 \<Rightarrow> fat \<Rightarrow> slots_result option" where
  "free_slots_chain slots_needed cluster s =
     (if cluster < 2 \<or> cluster \<ge> FatEofMarker s then Some (STATUS_NOT_FOUND, 0, 0, s)
      else
        let sector_base = FatClusterToSector cluster s;
            (next, s1) = FatNextCluster cluster s;
            in_group = unat (sectors_per_cluster (g_fat s1))
        in case fold_until (free_sector slots_needed sector_base in_group) [0..<in_group] ((0, 0, 0), s1) of
             Inl (Inl status, s2) \<Rightarrow> Some (status, 0, 0, s2)
           | Inl (Inr (Slot_found sec off), s2) \<Rightarrow> Some (STATUS_SUCCESS, sec, off, s2)
           | Inl (Inr Slot_next_group, s2) \<Rightarrow> free_slots_chain slots_needed next s2
           | Inr (run, s2) \<Rightarrow> free_slots_chain slots_needed next s2)"

definition FatFindFreeSlots :: "u32 \<Rightarrow> u32 \<Rightarrow> fat \<Rightarrow> slots_result option" where
  "FatFindFreeSlots dir_cluster slots_needed s =
     (if is_fixed_root dir_cluster s then
        let in_group = unat (root_dir_sectors (g_fat s)) in
        if in_group = 0 then Some (STATUS_NOT_FOUND, 0, 0, s)
        else case fold_until (free_sector slots_needed (root_dir_start_sector (g_fat s)) in_group)
                    [0..<in_group] ((0, 0, 0), s) of
               Inl (Inl status, s2) \<Rightarrow> Some (status, 0, 0, s2)
             | Inl (Inr (Slot_found sec off), s2) \<Rightarrow> Some (STATUS_SUCCESS, sec, off, s2)
             | Inl (Inr Slot_next_group, s2) \<Rightarrow> Some (STATUS_NOT_FOUND, 0, 0, s2)
             | Inr (run, s2) \<Rightarrow> Some (STATUS_NOT_FOUND, 0, 0, s2)
      else free_slots_chain slots_needed dir_cluster s)"

section \<open>Growing a directory\<close>

partial_function (option) last_cluster_loop :: "u32 \<Rightarrow> fat \<Rightarrow> (u32 \<times> fat) option" where
  "last_cluster_loop tail_cluster s =
     (if tail_cluster \<ge> 2 \<and> tail_cluster < FatEofMarker s then
        let (next, s1) = FatNextCluster tail_cluster s in
        if next \<ge> 2 \<and> next < FatEofMarker s1 then last_cluster_loop next s1 else Some (tail_cluster, s1)
      else Some (tail_cluster, s))"

text \<open>\<open>for (s = from; s < sectors_per_cluster; s++) FatWriteSector(sector + s, g_sector_buf);\<close>\<close>

definition write_cleared :: "u32 \<Rightarrow> nat \<Rightarrow> fat \<Rightarrow> fat" where
  "write_cleared sector k s = snd (FatWriteSector (sector + of_nat k) (sector_buf s) s)"

definition clear_g_buf :: "fat \<Rightarrow> fat" where
  "clear_g_buf s = fat_set_buf (buf_fill (sector_buf s) 0 0 (unat (bytes_per_sector (g_fat s)))) s"

definition FatExpandDirectory :: "u32 \<Rightarrow> fat \<Rightarrow> (ntstatus \<times> u32 \<times> fat) option" where
  "FatExpandDirectory dir_cluster s =
     (if is_fixed_root dir_cluster s then Some (STATUS_DISK_FULL, 0, s)
      else case last_cluster_loop dir_cluster s of
        None \<Rightarrow> None
      | Some (tail_cluster, s1) \<Rightarrow>
          let (new_cluster, s2) = FatAllocateCluster s1 in
          if new_cluster = 0 then Some (STATUS_DISK_FULL, 0, s2)
          else
            let s3 = (if tail_cluster \<ge> 2 \<and> tail_cluster < FatEofMarker s2 then snd (FatSetFatEntry tail_cluster new_cluster s2) else s2);
                sector = FatClusterToSector new_cluster s3;
                s4 = fold (write_cleared sector) [0..<unat (sectors_per_cluster (g_fat s3))] (clear_g_buf s3)
            in Some (STATUS_SUCCESS, sector, s4))"

section \<open>Writing directory entries\<close>

definition short_entry :: "fat_type \<Rightarrow> u8 list \<Rightarrow> u8 \<Rightarrow> u32 \<Rightarrow> u32 \<Rightarrow> buf" where
  "short_entry type short_name attr cluster size' =
     (let e = (\<lambda>i. if i < 11 then short_name ! i else if i = 11 then attr else 0);
          e = (if type = FAT_TYPE_32 then put16 e 20 (ucast (drop_bit 16 cluster)) else e);
          e = put16 e 26 (ucast (cluster AND 0xFFFF))
      in put32 e 28 size')"

definition lfn_entries_of :: "u8 list option \<Rightarrow> nat" where
  "lfn_entries_of long_name =
     (case long_name of Some n \<Rightarrow> if FatNeedLfn n then (length n + 12) div 13 else 0 | None \<Rightarrow> 0)"

definition entry_at ::
  "fat_type \<Rightarrow> u8 list option \<Rightarrow> u8 list \<Rightarrow> u8 \<Rightarrow> u32 \<Rightarrow> u32 \<Rightarrow> nat \<Rightarrow> buf" where
  "entry_at type long_name short_name attr cluster size' i =
     (let lfn_entries = lfn_entries_of long_name in
      if i < lfn_entries then
        let lfn_idx = lfn_entries - 1 - i; name = the long_name
        in FatFormatLfnEntry name (lfn_seq lfn_entries i) (FatComputeChecksum short_name) (lfn_idx * 13) (length name)
      else short_entry type short_name attr cluster size')"

definition write_entry ::
  "(nat \<Rightarrow> buf) \<Rightarrow> nat \<Rightarrow> u32 \<times> u32 \<times> fat \<Rightarrow> (ntstatus \<times> fat) + u32 \<times> u32 \<times> fat" where
  "write_entry entry i st =
     (let (cur_sector, cur_offset, s) = st; (status, s1) = read_g cur_sector s in
      if NT_ERROR status then Inl (status, s1)
      else
        let b = buf_copy (sector_buf s1) (unat cur_offset) (entry i) 0 32;
            (status, s2) = FatWriteSector cur_sector b (fat_set_buf b s1)
        in if NT_ERROR status then Inl (status, s2)
           else if cur_offset + 32 \<ge> bytes_per_sector (g_fat s2) then Inr (cur_sector + 1, 0, s2)
           else Inr (cur_sector, cur_offset + 32, s2))"

definition FatWriteDirectoryEntries ::
  "u32 \<Rightarrow> u32 \<Rightarrow> u8 list option \<Rightarrow> u8 list \<Rightarrow> u8 \<Rightarrow> u32 \<Rightarrow> u32 \<Rightarrow> fat \<Rightarrow> ntstatus \<times> fat" where
  "FatWriteDirectoryEntries start_sector start_offset long_name short_name attr cluster size' s =
     (case fold_until (write_entry (entry_at (ftype (g_fat s)) long_name short_name attr cluster size'))
             [0..<lfn_entries_of long_name + 1] (start_sector, start_offset, s) of
        Inl r \<Rightarrow> r
      | Inr (_, _, s') \<Rightarrow> (STATUS_SUCCESS, s'))"

section \<open>The listing fits the caller's array\<close>

lemma readdir_slot_limit:
  "length (snd (snd st)) \<le> limit \<Longrightarrow>
   (case readdir_slot type limit b d st of Inl es \<Rightarrow> length es \<le> limit | Inr st' \<Rightarrow> length (snd (snd st')) \<le> limit)"
  by (auto simp: readdir_slot_def Let_def split: prod.splits if_splits)

lemma readdir_sector_limit:
  assumes "length (snd (snd (fst sts))) \<le> limit"
  shows "case readdir_sector limit base k sts of
      Inl r \<Rightarrow> length (fst (snd r)) \<le> limit | Inr sts' \<Rightarrow> length (snd (snd (fst sts'))) \<le> limit"
proof -
  have "case fold_until (readdir_slot type limit b) ds st of
      Inl es \<Rightarrow> length es \<le> limit | Inr st' \<Rightarrow> length (snd (snd st')) \<le> limit"
    if "length (snd (snd st)) \<le> limit" for type b ds st
    using that by (intro fold_until_inv) (auto intro: readdir_slot_limit)
  note inv = this [of "fst sts"]
  show ?thesis
  proof (cases "length (snd (snd (fst sts))) < limit")
    case False
    then show ?thesis using assms by (auto simp: readdir_sector_def split: prod.splits)
  next
    case True
    obtain status s1 where r: "read_g (base + of_nat k) (snd sts) = (status, s1)" by fastforce
    show ?thesis
      using True r inv [of "ftype (g_fat s1)" "sector_buf s1" "slot_offsets s1"] assms
      by (auto simp: readdir_sector_def Let_def case_prod_unfold split: sum.splits)
  qed
qed

lemma readdir_sectors_limit:
  assumes "length (snd (snd (fst sts))) \<le> limit"
  shows "case fold_until (readdir_sector limit base) ks sts of
      Inl r \<Rightarrow> length (fst (snd r)) \<le> limit | Inr sts' \<Rightarrow> length (snd (snd (fst sts'))) \<le> limit"
  using assms by (intro fold_until_inv) (auto intro: readdir_sector_limit)

lemma readdir_chain_limit:
  assumes "readdir_chain limit cluster st s = Some r" "length (snd (snd st)) \<le> limit"
  shows "length (fst (snd r)) \<le> limit"
proof -
  let ?P = "\<lambda>limit cluster st s r. length (snd (snd st)) \<le> limit \<longrightarrow> length (fst (snd r)) \<le> limit"
  have "?P limit cluster st s r"
    using assms(1)
  proof (rule readdir_chain.raw_induct [where P = ?P, rotated], intro impI)
    fix rd limit cluster st s r
    assume IH: "\<And>limit cluster st s r. rd limit cluster st s = Some r \<Longrightarrow> ?P limit cluster st s r"
      and run: "(if \<not> length (snd (snd st)) < limit \<or> cluster = 0 \<or> 268435448 \<le> cluster
        then Some (STATUS_SUCCESS, snd (snd st), s)
        else let sector_base = FatClusterToSector cluster s; (next, s1) = FatNextCluster cluster s
             in case fold_until (readdir_sector limit sector_base) [0..<unat (sectors_per_cluster (g_fat s1))] (st, s1) of
                  Inl r \<Rightarrow> Some r | Inr sts \<Rightarrow> rd limit next (fst sts) (snd sts)) = Some r"
      and lim: "length (snd (snd st)) \<le> limit"
    show "length (fst (snd r)) \<le> limit"
    proof (cases "\<not> length (snd (snd st)) < limit \<or> cluster = 0 \<or> 268435448 \<le> cluster")
      case True
      then show ?thesis using run lim by auto
    next
      case False
      let ?n = "FatNextCluster cluster s"
      have "length (snd (snd (fst (st, snd ?n)))) \<le> limit" using lim by simp
      note inv = readdir_sectors_limit [OF this, of "FatClusterToSector cluster s"
          "[0..<unat (sectors_per_cluster (g_fat (snd ?n)))]"]
      show ?thesis
      proof (cases "fold_until (readdir_sector limit (FatClusterToSector cluster s))
            [0..<unat (sectors_per_cluster (g_fat (snd ?n)))] (st, snd ?n)")
        case (Inl r')
        then show ?thesis using inv run False by (simp add: case_prod_unfold Let_def)
      next
        case (Inr sts)
        then have "rd limit (fst ?n) (fst sts) (snd sts) = Some r"
          using run False by (simp add: case_prod_unfold Let_def)
        then show ?thesis using IH inv Inr by auto
      qed
    qed
  qed
  then show ?thesis using assms(2) by blast
qed

section \<open>Properties\<close>

text \<open>
  \<^verbatim>\<open>Fat32ReadDir\<close> never returns more entries than \<open>*count\<close> allows, whatever is on the
  disk: the caller's array is not overrun.
\<close>

theorem Fat32ReadDir_bound:
  assumes "Fat32ReadDir limit s = Some (status, entries, s')"
  shows "length entries \<le> limit"
proof (cases "ftype (g_fat s) \<noteq> FAT_TYPE_32 \<and> g_current_cluster s = 0")
  case True
  then show ?thesis
    using assms readdir_sectors_limit [of "((False, \<lambda>_. 0, []), s)" limit "root_dir_start_sector (g_fat s)"
        "[0..<unat (root_dir_sectors (g_fat s))]"]
    by (auto simp: Fat32ReadDir_def split: if_splits sum.splits)
next
  case False
  then show ?thesis
    using assms readdir_chain_limit [of limit "g_current_cluster s" "(False, \<lambda>_. 0, [])" s "(status, entries, s')"]
    by (auto simp: Fat32ReadDir_def split: if_splits)
qed

text \<open>The root directory of the small volume has no sectors.\<close>

lemma Fat32ReadDir_bound_witness:
  "\<exists>status entries s'. Fat32ReadDir 8 (snd (Fat32OpenRoot fat_small)) = Some (status, entries, s') \<and> length entries \<le> 8"
proof -
  have "Fat32ReadDir 8 (snd (Fat32OpenRoot fat_small)) = Some (STATUS_SUCCESS, [], snd (Fat32OpenRoot fat_small))"
    by (simp add: Fat32ReadDir_def Fat32OpenRoot_def fat_small_def)
  with Fat32ReadDir_bound [OF this] show ?thesis by blast
qed

end
