(* ===== verification/Fat_File.thy ===== *)
theory Fat_File
  imports Fat_Dir
begin

text \<open>
  Files, from \<^verbatim>\<open>Kernel/fs/fat32.c\<close>: reading a file whole or in part, writing, deleting,
  and creating directories. Output buffers of the caller are the byte lists returned, input
  buffers are byte lists. The fixed arrays \<^verbatim>\<open>parent_path\<close> and \<^verbatim>\<open>filename\<close> are unbounded here;
  callers pass paths of fewer than 256 bytes.
\<close>

section \<open>Reading\<close>

text \<open>The bytes \<open>start ..< start + n\<close> of \<^verbatim>\<open>g_sector_buf\<close>.\<close>

definition g_bytes :: "fat \<Rightarrow> nat \<Rightarrow> nat \<Rightarrow> u8 list" where
  "g_bytes s start n = buf_list (sector_buf s) start n"

type_synonym read_state = "u8 list \<times> u32 \<times> fat"

definition read_sector ::
  "u32 \<Rightarrow> nat \<Rightarrow> read_state \<Rightarrow> (ntstatus \<times> u8 list \<times> fat) + read_state" where
  "read_sector sector k st =
     (let (out, remaining, s) = st in
      if \<not> remaining > 0 then Inr st
      else
        let (status, s1) = read_g (sector + of_nat k) s in
        if NT_ERROR status then Inl (status, out, s1)
        else
          let to_copy = (if remaining > bytes_per_sector (g_fat s1) then bytes_per_sector (g_fat s1) else remaining)
          in Inr (out @ g_bytes s1 0 (unat to_copy), remaining - to_copy, s1))"

partial_function (option) read_chain ::
  "u32 \<Rightarrow> read_state \<Rightarrow> (ntstatus \<times> u8 list \<times> fat) option" where
  "read_chain cluster st =
     (let (out, remaining, s) = st in
      if cluster \<noteq> 0 \<and> cluster < 0x0FFFFFF8 \<and> remaining > 0 then
        (case fold_until (read_sector (FatClusterToSector cluster s))
                [0..<unat (sectors_per_cluster (g_fat s))] st of
           Inl r \<Rightarrow> Some r
         | Inr (out', remaining', s1) \<Rightarrow>
             (let (next, s2) = FatNextCluster cluster s1 in read_chain next (out', remaining', s2)))
      else Some (STATUS_SUCCESS, out, s))"

definition Fat32ReadFile :: "fat \<Rightarrow> (ntstatus \<times> u8 list \<times> fat) option" where
  "Fat32ReadFile s =
     (if \<not> g_fat_initialized s then Some (STATUS_UNSUCCESSFUL, [], s)
      else read_chain (g_current_cluster s) ([], g_current_file_size s, s))"

text \<open>Skipping whole clusters in front of \<open>offset\<close>.\<close>

partial_function (option) skip_clusters ::
  "u32 \<Rightarrow> u32 \<Rightarrow> u32 \<Rightarrow> u32 \<Rightarrow> fat \<Rightarrow> (u32 \<times> u32 \<times> fat) option" where
  "skip_clusters offset cluster_size pos cluster s =
     (if cluster \<noteq> 0 \<and> cluster < 0x0FFFFFF8 \<and> pos + cluster_size \<le> offset then
        (let (next, s1) = FatNextCluster cluster s
         in skip_clusters offset cluster_size (pos + cluster_size) next s1)
      else Some (pos, cluster, s))"

type_synonym read_at_state = "u8 list \<times> u32 \<times> u32 \<times> fat"

definition read_at_sector ::
  "u32 \<Rightarrow> nat \<Rightarrow> read_at_state \<Rightarrow> (ntstatus \<times> u8 list \<times> fat) + read_at_state" where
  "read_at_sector sector k st =
     (let (out, to_read, skip, s) = st in
      if \<not> to_read > 0 then Inr st
      else
        let (status, s1) = read_g (sector + of_nat k) s; bps = bytes_per_sector (g_fat s1) in
        if NT_ERROR status then Inl (status, out, Fat32Close s1)
        else if skip \<ge> bps then Inr (out, to_read, skip - bps, s1)
        else
          let avail = bps - skip;
              to_copy = (if to_read > avail then avail else to_read)
          in Inr (out @ g_bytes s1 (unat skip) (unat to_copy), to_read - to_copy, 0, s1))"

partial_function (option) read_at_chain ::
  "u32 \<Rightarrow> read_at_state \<Rightarrow> (ntstatus \<times> u8 list \<times> fat) option" where
  "read_at_chain cluster st =
     (let (out, to_read, skip, s) = st in
      if cluster \<noteq> 0 \<and> cluster < 0x0FFFFFF8 \<and> to_read > 0 then
        (case fold_until (read_at_sector (FatClusterToSector cluster s))
                [0..<unat (sectors_per_cluster (g_fat s))] st of
           Inl r \<Rightarrow> Some r
         | Inr (out', to_read', skip', s1) \<Rightarrow>
             (let (next, s2) = FatNextCluster cluster s1 in read_at_chain next (out', to_read', skip', s2)))
      else Some (STATUS_SUCCESS, out, Fat32Close s))"

definition Fat32ReadFileAt ::
  "u8 list \<Rightarrow> u32 \<Rightarrow> u32 \<Rightarrow> fat \<Rightarrow> (ntstatus \<times> u8 list \<times> fat) option" where
  "Fat32ReadFileAt path offset count s =
     (if \<not> g_fat_initialized s then Some (STATUS_UNSUCCESSFUL, [], s)
      else case Fat32OpenPath path s of
        None \<Rightarrow> None
      | Some (status, s1) \<Rightarrow>
          if NT_ERROR status then Some (status, [], s1)
          else
            let fsize = g_current_file_size s1 in
            if offset \<ge> fsize then Some (STATUS_END_OF_FILE, [], Fat32Close s1)
            else
              let to_read = (if offset + count > fsize then fsize - offset else count);
                  cluster_size = sectors_per_cluster (g_fat s1) * bytes_per_sector (g_fat s1)
              in case skip_clusters offset cluster_size 0 (g_current_cluster s1) s1 of
                   None \<Rightarrow> None
                 | Some (pos, cluster, s2) \<Rightarrow>
                     if cluster = 0 \<or> cluster \<ge> 0x0FFFFFF8 then Some (STATUS_END_OF_FILE, [], Fat32Close s2)
                     else read_at_chain cluster ([], to_read, offset - pos, s2))"

section \<open>Splitting a path\<close>

text \<open>The last \<open>'/'\<close> and the parts in front of and behind it.\<close>

definition split_at_slash :: "u8 list \<Rightarrow> u8 list \<times> u8 list" where
  "split_at_slash p =
     (case find (\<lambda>i. p ! i = 47) (rev [0..<length p]) of
        Some i \<Rightarrow> (take i p, drop (i + 1) p)
      | None \<Rightarrow> ([], p))"

text \<open>The directory a parent path names; \<open>Inl\<close> is the status to return.\<close>

definition parent_cluster :: "u8 list \<Rightarrow> fat \<Rightarrow> ((ntstatus + u32) \<times> fat) option" where
  "parent_cluster parent_path s =
     (if parent_path = [] then
        Some (Inr (if ftype (g_fat s) = FAT_TYPE_32 then root_cluster (g_fat s) else 0), s)
      else case Fat32OpenPath parent_path s of
        None \<Rightarrow> None
      | Some (status, s1) \<Rightarrow>
          if NT_ERROR status then Some (Inl STATUS_NOT_FOUND, s1)
          else Some (Inr (g_current_cluster s1), Fat32Close s1))"

section \<open>Writing a file\<close>

text \<open>Step 1: an existing entry with this short name: its place and first cluster.\<close>

datatype scan_exit = Scan_end | Scan_denied | Scan_found u32 nat u32

definition scan_slot :: "fat_type \<Rightarrow> u8 list \<Rightarrow> u32 \<Rightarrow> buf \<Rightarrow> nat \<Rightarrow> unit \<Rightarrow> scan_exit + unit" where
  "scan_slot type short_name sector b d u =
     (if b d = 0x00 then Inl Scan_end
      else if b d = 0xE5 then Inr u
      else
        let attr = b (d + 11) in
        if attr AND 0x0F = 0x0F \<or> attr AND 0x08 \<noteq> 0 then Inr u
        else if buf_list b d 11 = short_name then
          (if attr AND 0x10 \<noteq> 0 then Inl Scan_denied
           else Inl (Scan_found sector d
             (if type = FAT_TYPE_32
              then push_bit 16 (ucast (le16 b (d + 20))) OR ucast (le16 b (d + 26))
              else ucast (le16 b (d + 26)))))
        else Inr u)"

definition scan_sector ::
  "u8 list \<Rightarrow> u32 \<Rightarrow> nat \<Rightarrow> fat \<Rightarrow> (ntstatus + scan_exit) \<times> fat + fat" where
  "scan_sector short_name sector_base k s =
     (let (status, s1) = read_g (sector_base + of_nat k) s in
      if NT_ERROR status then Inl (Inl status, s1)
      else case fold_until (scan_slot (ftype (g_fat s1)) short_name (sector_base + of_nat k) (sector_buf s1))
                  (slot_offsets s1) () of
             Inl e \<Rightarrow> Inl (Inr e, s1)
           | Inr _ \<Rightarrow> Inr s1)"

partial_function (option) scan_chain ::
  "u8 list \<Rightarrow> u32 \<Rightarrow> fat \<Rightarrow> ((ntstatus + scan_exit) \<times> fat) option" where
  "scan_chain short_name cluster s =
     (if cluster < 2 \<or> cluster \<ge> FatEofMarker s then Some (Inr Scan_end, s)
      else
        let sector_base = FatClusterToSector cluster s;
            (next, s1) = FatNextCluster cluster s
        in case fold_until (scan_sector short_name sector_base)
                  [0..<unat (sectors_per_cluster (g_fat s1))] s1 of
             Inl r \<Rightarrow> Some r
           | Inr s2 \<Rightarrow> scan_chain short_name next s2)"

definition scan_existing :: "u32 \<Rightarrow> u8 list \<Rightarrow> fat \<Rightarrow> ((ntstatus + scan_exit) \<times> fat) option" where
  "scan_existing dir_cluster short_name s =
     (if is_fixed_root dir_cluster s then
        (if root_dir_sectors (g_fat s) = 0 then Some (Inr Scan_end, s)
         else case fold_until (scan_sector short_name (root_dir_start_sector (g_fat s)))
                     [0..<unat (root_dir_sectors (g_fat s))] s of
                Inl r \<Rightarrow> Some r
              | Inr s1 \<Rightarrow> Some (Inr Scan_end, s1))
      else scan_chain short_name dir_cluster s)"

text \<open>
  Step 3: the chain of new clusters; the state is (first, previous). \<open>Inl\<close> is a full disk.
  Its clean-up releases the clusters taken so far.
\<close>

definition grow_chain :: "nat \<Rightarrow> u32 \<times> u32 \<times> fat \<Rightarrow> fat option + u32 \<times> u32 \<times> fat" where
  "grow_chain i st =
     (let (first, prev, s) = st; (c, s1) = FatAllocateCluster s in
      if c = 0 then Inl (if first \<noteq> 0 then FatFreeClusterChain first s1 else Some s1)
      else if prev \<noteq> 0 then Inr (first, c, snd (FatSetFatEntry prev c s1))
      else Inr (c, c, s1))"

definition write_data_sector ::
  "u32 \<Rightarrow> nat \<Rightarrow> u8 list \<times> fat \<Rightarrow> ntstatus \<times> fat + u8 list \<times> fat" where
  "write_data_sector sector k st =
     (let (src, s) = st in
      if src = [] then Inr st
      else
        let bps = unat (bytes_per_sector (g_fat s)); chunk = take bps src;
            b = buf_copy (sector_buf s) 0 (\<lambda>i. if i < length chunk then chunk ! i else 0) 0 bps;
            (status, s1) = FatWriteSector (sector + of_nat k) b (fat_set_buf b s)
        in if NT_ERROR status then Inl (status, s1) else Inr (drop bps src, s1))"

partial_function (option) write_data :: "u32 \<Rightarrow> u8 list \<Rightarrow> fat \<Rightarrow> (ntstatus \<times> fat) option" where
  "write_data cluster src s =
     (if cluster \<ge> 2 \<and> cluster < FatEofMarker s \<and> src \<noteq> [] then
        (case fold_until (write_data_sector (FatClusterToSector cluster s))
                [0..<unat (sectors_per_cluster (g_fat s))] (src, s) of
           Inl r \<Rightarrow> Some r
         | Inr (src', s1) \<Rightarrow> (let (next, s2) = FatNextCluster cluster s1 in write_data next src' s2))
      else Some (STATUS_SUCCESS, s))"

text \<open>Step 4: a new entry in the directory.\<close>

definition slots_for :: "u8 list \<Rightarrow> u32" where
  "slots_for name = (if FatNeedLfn name then of_nat ((length name + 12) div 13 + 1) else 1)"

definition add_entry ::
  "u32 \<Rightarrow> u8 list \<Rightarrow> u8 list \<Rightarrow> u8 \<Rightarrow> u32 \<Rightarrow> u32 \<Rightarrow> fat \<Rightarrow> (ntstatus \<times> fat) option" where
  "add_entry dir_cluster name short_name attr cluster size' s =
     (case FatFindFreeSlots dir_cluster (slots_for name) s of
        None \<Rightarrow> None
      | Some (status, sec, off, s1) \<Rightarrow>
          let found = (if status = STATUS_NOT_FOUND
                then map_option (\<lambda>(st, sec', s2). (st, if NT_SUCCESS st then sec' else sec, 0, s2)) (FatExpandDirectory dir_cluster s1)
                else Some (status, sec, off, s1))
          in case found of
               None \<Rightarrow> None
             | Some (status, sec, off, s2) \<Rightarrow>
                 if NT_SUCCESS status
                 then Some (FatWriteDirectoryEntries sec (of_nat off) (Some name) short_name attr cluster size' s2)
                 else Some (status, s2))"

text \<open>Return \<open>status\<close> after releasing the clusters of a failed operation.\<close>

definition fail_release :: "u32 \<Rightarrow> ntstatus \<Rightarrow> fat \<Rightarrow> (ntstatus \<times> fat) option" where
  "fail_release cluster status s = map_option (Pair status) (FatFreeClusterChain cluster s)"

text \<open>Steps 3 and 4 of \<^verbatim>\<open>Fat32WriteFile\<close>, with \<open>existing\<close> the entry found in step 1.\<close>

definition write_new_data :: "u8 list \<Rightarrow> fat \<Rightarrow> ((ntstatus + u32) \<times> fat) option" where
  "write_new_data data s =
     (if data = [] then Some (Inr 0, s)
      else
        let bytes_per_cluster = sectors_per_cluster (g_fat s) * bytes_per_sector (g_fat s);
            clusters_needed = (of_nat (length data) + bytes_per_cluster - 1) div bytes_per_cluster
        in case fold_until grow_chain [0..<unat clusters_needed] (0, 0, s) of
             Inl None \<Rightarrow> None
           | Inl (Some s1) \<Rightarrow> Some (Inl STATUS_DISK_FULL, s1)
           | Inr (first, prev, s1) \<Rightarrow>
               if first = 0 then Some (Inr 0, s1)
               else case write_data first data s1 of
                      None \<Rightarrow> None
                    | Some (status, s2) \<Rightarrow>
                        if NT_ERROR status
                        then map_option (Pair (Inl status)) (FatFreeClusterChain first s2)
                        else Some (Inr first, s2))"

definition write_update_entry ::
  "u32 \<Rightarrow> u8 list \<Rightarrow> u8 list \<Rightarrow> (u32 \<times> nat) option \<Rightarrow> u32 \<Rightarrow> u32 \<Rightarrow> fat \<Rightarrow> (ntstatus \<times> fat) option" where
  "write_update_entry dir_cluster filename short_name existing first size' s =
     (let r = (case existing of
            Some (sec, off) \<Rightarrow> Some (FatWriteDirectoryEntries sec (of_nat off) None short_name 0x20 first size' s)
          | None \<Rightarrow> add_entry dir_cluster filename short_name 0x20 first size' s)
      in case r of
           None \<Rightarrow> None
         | Some (status, s1) \<Rightarrow>
             if NT_ERROR status then (if first \<noteq> 0 then fail_release first status s1 else Some (status, s1))
             else Some (STATUS_SUCCESS, s1))"

definition write_file_in ::
  "u32 \<Rightarrow> u8 list \<Rightarrow> u8 list \<Rightarrow> fat \<Rightarrow> (ntstatus \<times> fat) option" where
  "write_file_in dir_cluster filename data s =
     (let short_name = FatGenerateShortName filename in
      case scan_existing dir_cluster short_name s of
        None \<Rightarrow> None
      | Some (Inl status, s1) \<Rightarrow> Some (status, s1)
      | Some (Inr Scan_denied, s1) \<Rightarrow> Some (STATUS_ACCESS_DENIED, s1)
      | Some (Inr ex, s1) \<Rightarrow>
          let (existing, old) = (case ex of Scan_found sec off cl \<Rightarrow> (Some (sec, off), cl) | _ \<Rightarrow> (None, 0))
          in case (if old \<ge> 2 then FatFreeClusterChain old s1 else Some s1) of
               None \<Rightarrow> None
             | Some s2 \<Rightarrow>
                 (case write_new_data data s2 of
                    None \<Rightarrow> None
                  | Some (Inl status, s3) \<Rightarrow> Some (status, s3)
                  | Some (Inr first, s3) \<Rightarrow>
                      write_update_entry dir_cluster filename short_name existing first (of_nat (length data)) s3))"

definition Fat32WriteFile :: "u8 list \<Rightarrow> u8 list \<Rightarrow> fat \<Rightarrow> (ntstatus \<times> fat) option" where
  "Fat32WriteFile path data s =
     (if \<not> g_fat_initialized s \<or> \<not> have_buf s then Some (STATUS_UNSUCCESSFUL, s)
      else
        let p = dropWhile (\<lambda>c. c = 47) path in
        if p = [] then Some (STATUS_INVALID_PARAMETER, s)
        else
          let (parent_path, filename) = split_at_slash p in
          if filename = [] then Some (STATUS_INVALID_PARAMETER, s)
          else case parent_cluster parent_path s of
            None \<Rightarrow> None
          | Some (Inl status, s1) \<Rightarrow> Some (status, s1)
          | Some (Inr dir_cluster, s1) \<Rightarrow> write_file_in dir_cluster filename data s1)"

section \<open>Deleting a file\<close>

partial_function (option) mark_deleted ::
  "u32 \<Rightarrow> u32 \<Rightarrow> u32 \<Rightarrow> u32 \<Rightarrow> fat \<Rightarrow> (ntstatus \<times> fat) option" where
  "mark_deleted entry_sector entry_offset cur_sec cur_off s =
     (let (status, s1) = read_g cur_sec s in
      if NT_ERROR status then Some (status, s1)
      else
        let b = (sector_buf s1)(unat cur_off := 0xE5);
            (status, s2) = FatWriteSector cur_sec b (fat_set_buf b s1)
        in if NT_ERROR status then Some (status, s2)
           else if cur_sec = entry_sector \<and> cur_off = entry_offset then Some (STATUS_SUCCESS, s2)
           else if cur_off + 32 \<ge> bytes_per_sector (g_fat s2)
                then mark_deleted entry_sector entry_offset (cur_sec + 1) 0 s2
                else mark_deleted entry_sector entry_offset cur_sec (cur_off + 32) s2)"

definition delete_file_in :: "u32 \<Rightarrow> u8 list \<Rightarrow> fat \<Rightarrow> (ntstatus \<times> fat) option" where
  "delete_file_in dir_cluster filename s =
     (case FatFindEntry dir_cluster filename s of
        None \<Rightarrow> None
      | Some (status, None, s1) \<Rightarrow> Some (status, s1)
      | Some (status, Some e, s1) \<Rightarrow>
          (case (if fe_cluster e \<ge> 2 then FatFreeClusterChain (fe_cluster e) s1 else Some s1) of
             None \<Rightarrow> None
           | Some s2 \<Rightarrow>
               if fe_lfn_sector e \<ge> 2
               then mark_deleted (fe_sector e) (of_nat (fe_offset e)) (fe_lfn_sector e) (of_nat (fe_lfn_offset e)) s2
               else
                 let (status, s3) = read_g (fe_sector e) s2 in
                 if NT_ERROR status then Some (status, s3)
                 else
                   let b = (sector_buf s3)(fe_offset e := 0xE5);
                       (status, s4) = FatWriteSector (fe_sector e) b (fat_set_buf b s3)
                   in if NT_ERROR status then Some (status, s4) else Some (STATUS_SUCCESS, s4)))"

definition Fat32DeleteFile :: "u8 list \<Rightarrow> fat \<Rightarrow> (ntstatus \<times> fat) option" where
  "Fat32DeleteFile path s =
     (if \<not> g_fat_initialized s \<or> \<not> have_buf s then Some (STATUS_UNSUCCESSFUL, s)
      else
        let p = dropWhile (\<lambda>c. c = 47) path in
        if p = [] then Some (STATUS_INVALID_PARAMETER, s)
        else
          let (parent_path, filename) = split_at_slash p in
          if filename = [] then Some (STATUS_INVALID_PARAMETER, s)
          else case parent_cluster parent_path s of
            None \<Rightarrow> None
          | Some (Inl status, s1) \<Rightarrow> Some (status, s1)
          | Some (Inr dir_cluster, s1) \<Rightarrow> delete_file_in dir_cluster filename s1)"

section \<open>Creating a directory\<close>

definition dot_entry :: "fat_type \<Rightarrow> nat \<Rightarrow> u8 list \<Rightarrow> u32 \<Rightarrow> buf \<Rightarrow> buf" where
  "dot_entry type p dots cluster b =
     (let b = (\<lambda>i. if p \<le> i \<and> i < p + 11 then (if i - p < length dots then dots ! (i - p) else 32) else b i);
          b = b(p + 11 := 0x10);
          b = (if type = FAT_TYPE_32 then put16 b (p + 20) (ucast (drop_bit 16 cluster)) else b)
      in put16 b (p + 26) (ucast (cluster AND 0xFFFF)))"

definition trim_slashes :: "u8 list \<Rightarrow> u8 list" where
  "trim_slashes p = (let q = rev (dropWhile (\<lambda>c. c = 47) (rev p)) in if q = [] then take 1 p else q)"

definition create_directory_in :: "u32 \<Rightarrow> u8 list \<Rightarrow> fat \<Rightarrow> (ntstatus \<times> fat) option" where
  "create_directory_in dir_cluster dirname s =
     (let (new_cluster, s1) = FatAllocateCluster s in
      if new_cluster = 0 then Some (STATUS_DISK_FULL, s1)
      else
        let type = ftype (g_fat s1);
            sector = FatClusterToSector new_cluster s1;
            b = dot_entry type 32 [46, 46] dir_cluster
                  (dot_entry type 0 [46] new_cluster (sector_buf (clear_g_buf s1)));
            (status, s2) = FatWriteSector sector b (fat_set_buf b s1)
        in if NT_ERROR status then fail_release new_cluster status s2
           else
             let s3 = fold (\<lambda>k s. write_cleared sector k (clear_g_buf s))
                        [1..<unat (sectors_per_cluster (g_fat s2))] s2
             in case add_entry dir_cluster dirname (FatGenerateShortName dirname) 0x10 new_cluster 0 s3 of
                  None \<Rightarrow> None
                | Some (status, s4) \<Rightarrow>
                    if NT_ERROR status then fail_release new_cluster status s4
                    else Some (STATUS_SUCCESS, s4))"

definition Fat32CreateDirectory :: "u8 list \<Rightarrow> fat \<Rightarrow> (ntstatus \<times> fat) option" where
  "Fat32CreateDirectory path s =
     (if \<not> g_fat_initialized s \<or> \<not> have_buf s then Some (STATUS_UNSUCCESSFUL, s)
      else
        let p = dropWhile (\<lambda>c. c = 47) path in
        if p = [] then Some (STATUS_INVALID_PARAMETER, s)
        else case Fat32OpenPath path s of
          None \<Rightarrow> None
        | Some (status, s0) \<Rightarrow>
            if NT_SUCCESS status then Some (STATUS_SUCCESS, Fat32Close s0)
            else
              let (parent_path, dirname) = split_at_slash (trim_slashes p) in
              if dirname = [] then Some (STATUS_INVALID_PARAMETER, s0)
              else case parent_cluster parent_path s0 of
                None \<Rightarrow> None
              | Some (Inl status, s1) \<Rightarrow> Some (status, s1)
              | Some (Inr dir_cluster, s1) \<Rightarrow> create_directory_in dir_cluster dirname s1)"

section \<open>Reading the sectors of a chain\<close>

definition sector_bytes :: "fat \<Rightarrow> u32 \<Rightarrow> u8 list" where
  "sector_bytes s q = buf_list (disk s (fat_lba q s)) 0 512"

definition cluster_sectors :: "fat \<Rightarrow> u32 \<Rightarrow> u32 list" where
  "cluster_sectors s c =
     map (\<lambda>k. FatClusterToSector c s + of_nat k) [0..<unat (sectors_per_cluster (g_fat s))]"

text \<open>The contents of a chain of clusters.\<close>

definition chain_sectors :: "fat \<Rightarrow> u32 list \<Rightarrow> u32 list" where
  "chain_sectors s cs = concat (map (cluster_sectors s) cs)"

definition chain_bytes :: "fat \<Rightarrow> u32 list \<Rightarrow> u8 list" where
  "chain_bytes s cs = concat (map (sector_bytes s) (chain_sectors s cs))"

lemma length_concat_sectors: "length (concat (map (sector_bytes s) qs)) = 512 * length qs"
  by (induction qs) (simp_all add: sector_bytes_def)

lemma length_cluster_sectors [simp]: "length (cluster_sectors s c) = unat (sectors_per_cluster (g_fat s))"
  by (simp add: cluster_sectors_def)

lemma length_chain_sectors: "length (chain_sectors s cs) = length cs * unat (sectors_per_cluster (g_fat s))"
  by (induction cs) (simp_all add: chain_sectors_def)

lemma fat_same_sectors:
  assumes "fat_same s t"
  shows "cluster_sectors t = cluster_sectors s" "chain_sectors t = chain_sectors s" "fat_lba q t = fat_lba q s"
proof -
  have g: "g_fat t = g_fat s" using assms by (simp add: fat_same_def)
  show cs: "cluster_sectors t = cluster_sectors s"
    by (rule ext) (simp add: cluster_sectors_def FatClusterToSector_def g)
  show "chain_sectors t = chain_sectors s" by (rule ext) (simp only: chain_sectors_def cs)
  show "fat_lba q t = fat_lba q s" by (simp add: fat_lba_def g)
qed

lemma fat_same_bytes:
  "fat_same s t \<Longrightarrow> disk t = disk s \<Longrightarrow> sector_bytes t = sector_bytes s"
  by (rule ext) (simp add: sector_bytes_def fat_same_sectors(3))

lemma read_sectors:
  assumes "fat_io_ok s" "bytes_per_sector (g_fat s) = 512"
  shows "\<exists>r s'. fold_until (read_sector sec) [0..<m] (out, n, s) =
      Inr (out @ take (unat n) (concat (map (\<lambda>k. sector_bytes s (sec + of_nat k)) [0..<m])), r, s')
    \<and> unat r = unat n - 512 * m \<and> fat_same s s' \<and> disk s' = disk s"
proof (induction m)
  case 0
  then show ?case by simp
next
  case (Suc m)
  let ?A = "concat (map (\<lambda>k. sector_bytes s (sec + of_nat k)) [0..<m])" and ?B = "sector_bytes s (sec + of_nat m)"
  obtain r s1 where IH: "fold_until (read_sector sec) [0..<m] (out, n, s) = Inr (out @ take (unat n) ?A, r, s1)"
    "unat r = unat n - 512 * m" "fat_same s s1" "disk s1 = disk s" using Suc by blast
  have lA: "length ?A = 512 * m" by (induction m) (simp_all add: sector_bytes_def)
  have step: "fold_until (read_sector sec) [0..<Suc m] (out, n, s) =
      (case read_sector sec m (out @ take (unat n) ?A, r, s1) of Inl x \<Rightarrow> Inl x | Inr y \<Rightarrow> Inr y)"
    using IH(1) by (simp add: fold_until_append split: sum.split)
  show ?case
  proof (cases "r = 0")
    case True
    then have "unat n \<le> 512 * m" using IH(2) by simp
    then have "take (unat n) (?A @ ?B) = take (unat n) ?A" "unat n - 512 * Suc m = 0" using lA by simp_all
    moreover have "read_sector sec m (out @ take (unat n) ?A, r, s1) = Inr (out @ take (unat n) ?A, r, s1)"
      using True by (simp add: read_sector_def)
    ultimately show ?thesis unfolding step using True IH(3,4) by simp
  next
    case False
    then have "unat r \<noteq> 0" by (simp add: unat_eq_zero)
    then have lt: "512 * m < unat n" using IH(2) by simp
    obtain st where st: "read_g (sec + of_nat m) s1 = (st, load_sector (sec + of_nat m) s1)" "NT_SUCCESS st"
      using read_g_ok [of s1] fat_same_io_ok [OF IH(3)] assms(1) by auto
    let ?c = "if r > 512 then 512 else r"
    have c: "unat ?c = min (unat r) 512" by (simp add: min_def word_less_nat_alt)
    have le: "?c \<le> r" by (simp add: word_le_nat_alt c)
    have b: "bytes_per_sector (g_fat (load_sector (sec + of_nat m) s1)) = 512"
      using IH(3) assms(2) by (simp add: fat_same_def)
    have bytes: "g_bytes (load_sector (sec + of_nat m) s1) 0 (unat ?c) = take (unat r) ?B"
      unfolding g_bytes_def c
      by (rule nth_equalityI) (auto simp: sector_bytes_def load_sector_byte IH(4) fat_same_sectors(3) [OF IH(3)])
    have "take (unat n) (?A @ ?B) = ?A @ take (unat r) ?B" using lt lA IH(2) by simp
    moreover have "take (unat n) ?A = ?A" using lt lA by simp
    moreover have "unat (r - ?c) = unat n - 512 * Suc m"
      unfolding unat_sub [OF le] c using IH(2) by (auto simp: min_def)
    moreover have "fat_same s (load_sector (sec + of_nat m) s1)" using fat_same_trans [OF IH(3)] by simp
    moreover have "read_sector sec m (out @ take (unat n) ?A, r, s1) =
        Inr (out @ take (unat n) ?A @ take (unat r) ?B, r - ?c, load_sector (sec + of_nat m) s1)"
      using False st b bytes by (cases "r > 512") (simp_all add: read_sector_def word_gt_0 Let_def)
    ultimately show ?thesis unfolding step using IH(4) by simp
  qed
qed

lemma FatNextCluster_entry:
  assumes "fat_ok s" "fat_cluster s c"
  shows "fst (FatNextCluster c s) = (if FatEofMarker s \<le> fat_entry s c then 0 else fat_entry s c)"
    "fat_same s (snd (FatNextCluster c s))" "disk (snd (FatNextCluster c s)) = disk s"
proof -
  note g = FatGetFatEntry_entry [OF assms]
  have "ftype (g_fat (snd (FatGetFatEntry c s))) = ftype (g_fat s)" using g(2) by (simp add: fat_same_def)
  then show "fst (FatNextCluster c s) = (if FatEofMarker s \<le> fat_entry s c then 0 else fat_entry s c)"
    using g(1) by (cases "ftype (g_fat s)") (simp_all add: FatNextCluster_def FatEofMarker_def case_prod_unfold Let_def)
  show "fat_same s (snd (FatNextCluster c s))" "disk (snd (FatNextCluster c s)) = disk s"
    using g(2,3) by (simp_all add: FatNextCluster_def case_prod_unfold Let_def)
qed

lemma fat_cluster_range: "fat_cluster s c \<Longrightarrow> c \<noteq> 0 \<and> c < 0x0FFFFFF8"
  by (auto simp: fat_cluster_def)

lemma read_chain_correct:
  assumes "fat_ok s" "fat_same s t" "disk t = disk s"
    and "link_chain (fat_entry s) (FatEofMarker s) c cs" "\<forall>x\<in>set cs. fat_cluster s x"
    and "unat n \<le> length (chain_bytes s cs)"
  shows "\<exists>t'. read_chain c (out, n, t) = Some (STATUS_SUCCESS, out @ take (unat n) (chain_bytes s cs), t')
    \<and> fat_same s t' \<and> disk t' = disk s"
  using assms
proof (induction cs arbitrary: c out n t)
  case Nil
  then show ?case by simp
next
  case (Cons x xs)
  then have x: "c = x" "fat_cluster s x" by simp_all
  have t: "fat_ok t" "fat_cluster t x" using fat_same_ok [OF Cons.prems(2)] fat_same_cluster [OF Cons.prems(2)] assms(1) x by auto
  have ent: "fat_entry t = fat_entry s" by (rule fat_entry_cong [OF Cons.prems(2,3)])
  have eof: "FatEofMarker t = FatEofMarker s" using Cons.prems(2) by (simp add: FatEofMarker_def fat_same_def)
  show ?case
  proof (cases "n = 0")
    case True
    then show ?thesis using Cons.prems(2,3) by (subst read_chain.simps) simp
  next
    case False
    let ?m = "unat (sectors_per_cluster (g_fat t))" and ?sec = "FatClusterToSector x t"
    have io: "fat_io_ok t" "bytes_per_sector (g_fat t) = 512" using t(1) by (simp_all add: fat_ok_def fat_io_ok_def)
    have cst: "cluster_sectors t x = map (\<lambda>k. ?sec + of_nat k) [0..<?m]" by (simp add: cluster_sectors_def)
    have cl: "concat (map (\<lambda>k. sector_bytes t (?sec + of_nat k)) [0..<?m]) = concat (map (sector_bytes s) (cluster_sectors s x))"
      unfolding fat_same_sectors(1) [OF Cons.prems(2), symmetric] fat_same_bytes [OF Cons.prems(2,3), symmetric] cst
      by (simp add: comp_def)
    let ?A = "concat (map (sector_bytes s) (cluster_sectors s x))" and ?B = "chain_bytes s xs"
    have m: "?m = unat (sectors_per_cluster (g_fat s))" using Cons.prems(2) by (simp add: fat_same_def)
    have lA: "length ?A = 512 * ?m" by (simp add: length_concat_sectors m)
    have AB: "chain_bytes s (x # xs) = ?A @ ?B" by (simp add: chain_bytes_def chain_sectors_def)
    from read_sectors [OF io, of ?sec ?m out n] obtain r t1 where
      r: "fold_until (read_sector ?sec) [0..<?m] (out, n, t) = Inr (out @ take (unat n) ?A, r, t1)"
      "unat r = unat n - 512 * ?m" "fat_same t t1" "disk t1 = disk t" unfolding cl by blast
    have t1: "fat_ok t1" "fat_cluster t1 x" using fat_same_ok [OF r(3)] fat_same_cluster [OF r(3)] t by auto
    note nx = FatNextCluster_entry [OF t1]
    have same: "fat_same s (snd (FatNextCluster x t1))" "disk (snd (FatNextCluster x t1)) = disk s"
      using fat_same_trans [OF Cons.prems(2) fat_same_trans [OF r(3) nx(2)]] nx(3) r(4) Cons.prems(3) by auto
    have run: "read_chain c (out, n, t) =
        read_chain (fst (FatNextCluster x t1)) (out @ take (unat n) ?A, r, snd (FatNextCluster x t1))"
      using False fat_cluster_range [OF x(2)] r(1) x(1)
      by (subst read_chain.simps) (simp add: word_gt_0 case_prod_unfold Let_def)
    have left: "unat r \<le> length ?B" using Cons.prems(6) r(2) lA AB by simp
    have "take (unat n) (?A @ ?B) = take (unat n) ?A @ take (unat r) ?B" using r(2) lA by simp
    then have out: "out @ take (unat n) (chain_bytes s (x # xs)) = (out @ take (unat n) ?A) @ take (unat r) ?B"
      unfolding AB by simp
    show ?thesis
    proof (cases "xs = []")
      case True
      then have "r = 0" using left by (simp add: chain_bytes_def chain_sectors_def unat_eq_zero)
      then show ?thesis unfolding run out using same by (subst read_chain.simps) simp
    next
      case False
      then have chain: "link_chain (fat_entry s) (FatEofMarker s) (fat_entry s x) xs" using Cons.prems(4) by simp
      then have "\<not> FatEofMarker s \<le> fat_entry s x" by (cases xs) (auto simp: not_le)
      moreover have "FatEofMarker t1 = FatEofMarker s" "fat_entry t1 = fat_entry s"
        using eof r(3) ent fat_entry_cong [OF r(3,4)] by (simp_all add: FatEofMarker_def fat_same_def)
      ultimately have nxt: "fst (FatNextCluster x t1) = fat_entry s x" using nx(1) by simp
      have v: "\<forall>y\<in>set xs. fat_cluster s y" using Cons.prems(5) by simp
      show ?thesis
        unfolding run out nxt by (rule Cons.IH [OF assms(1) same chain v left])
    qed
  qed
qed

section \<open>Writing the sectors of a chain\<close>

text \<open>The padded chunk that one iteration writes.\<close>

definition chunk :: "u8 list \<Rightarrow> buf" where
  "chunk src = (\<lambda>i. if i < length (take 512 src) then take 512 src ! i else 0)"

lemma write_data_sector_shift: "write_data_sector sector k = write_data_sector (sector + of_nat k) 0"
  by (rule ext) (simp add: write_data_sector_def case_prod_unfold)

lemma write_data_sector_ok:
  assumes "fat_io_ok s" "bytes_per_sector (g_fat s) = 512" "src \<noteq> []"
  shows "\<exists>s'. write_data_sector q 0 (src, s) = Inr (drop 512 src, s') \<and> fat_same s s'
    \<and> take (length (take 512 src)) (sector_bytes s' q) = take 512 src
    \<and> (\<forall>lba. lba \<noteq> fat_lba q s \<longrightarrow> disk s' lba = disk s lba)"
proof -
  define b where "b = buf_copy (sector_buf s) 0 (\<lambda>i. if i < length (take 512 src) then take 512 src ! i else 0) 0 512"
  obtain st where st: "FatWriteSector q b (fat_set_buf b s) = (st, put_sector q b (fat_set_buf b s))" "NT_SUCCESS st"
    using FatWriteSector_ok [of "fat_set_buf b s" q b] assms(1) by auto
  let ?s = "put_sector q b (fat_set_buf b s)"
  have u: "unat (512 :: u32) = 512" by simp
  have "write_data_sector q 0 (src, s) = Inr (drop 512 src, ?s)"
    unfolding write_data_sector_def Let_def prod.case assms(2) u of_nat_0 add_0_right b_def [symmetric]
    using assms(3) st by simp
  moreover have same: "fat_same s ?s" using fat_same_trans [of s "fat_set_buf b s" ?s] by simp
  moreover have "take (length (take 512 src)) (sector_bytes ?s q) = take 512 src"
    by (rule nth_equalityI)
       (auto simp: sector_bytes_def put_sector_def buf_copy_def fat_lba_def b_def)
  moreover have "disk ?s lba = disk s lba" if "lba \<noteq> fat_lba q s" for lba
    using that by (simp add: put_sector_def fat_lba_def)
  ultimately show ?thesis by blast
qed

text \<open>A list of distinct sectors, one after the other.\<close>

lemma write_sectors:
  assumes "fat_io_ok s" "bytes_per_sector (g_fat s) = 512" "distinct qs"
  shows "\<exists>s'. fold_until (\<lambda>q. write_data_sector q 0) qs (src, s) = Inr (drop (512 * length qs) src, s') \<and> fat_same s s'
    \<and> take (length (take (512 * length qs) src)) (concat (map (sector_bytes s') qs)) = take (512 * length qs) src
    \<and> (\<forall>lba. (\<forall>q\<in>set qs. lba \<noteq> fat_lba q s) \<longrightarrow> disk s' lba = disk s lba)"
  using assms
proof (induction qs arbitrary: src s)
  case Nil
  then show ?case by simp
next
  case (Cons q qs)
  show ?case
  proof (cases "src = []")
    case True
    have nop: "fold_until (\<lambda>q. write_data_sector q 0) qs ([], s) = Inr ([], s)" for qs s
      by (induction qs) (simp_all add: write_data_sector_def)
    show ?thesis unfolding True nop by simp
  next
    case False
    from write_data_sector_ok [OF Cons.prems(1,2) False, of q] obtain s1 where
      s1: "write_data_sector q 0 (src, s) = Inr (drop 512 src, s1)" "fat_same s s1"
      "take (length (take 512 src)) (sector_bytes s1 q) = take 512 src"
      "\<forall>lba. lba \<noteq> fat_lba q s \<longrightarrow> disk s1 lba = disk s lba" by blast
    have io: "fat_io_ok s1" "bytes_per_sector (g_fat s1) = 512" "distinct qs"
      using fat_same_io_ok [OF s1(2)] s1(2) Cons.prems by (simp_all add: fat_same_def)
    from Cons.IH [OF io, of "drop 512 src"] obtain s2 where
      s2: "fold_until (\<lambda>q. write_data_sector q 0) qs (drop 512 src, s1) = Inr (drop (512 * length qs) (drop 512 src), s2)"
      "fat_same s1 s2"
      "take (length (take (512 * length qs) (drop 512 src))) (concat (map (sector_bytes s2) qs)) = take (512 * length qs) (drop 512 src)"
      "\<forall>lba. (\<forall>q\<in>set qs. lba \<noteq> fat_lba q s1) \<longrightarrow> disk s2 lba = disk s1 lba" by blast
    have lba: "fat_lba r s1 = fat_lba r s" for r by (rule fat_same_sectors(3) [OF s1(2)])
    have "disk s2 (fat_lba q s) = disk s1 (fat_lba q s)"
      by (rule s2(4) [rule_format]) (use Cons.prems(3) in \<open>auto simp: lba\<close>)
    then have q: "sector_bytes s2 q = sector_bytes s1 q"
      by (simp add: sector_bytes_def fat_same_sectors(3) [OF s2(2)] lba)
    have lq: "length (sector_bytes s1 q) = 512" by (simp add: sector_bytes_def)
    have split: "take (512 * length (q # qs)) src = take 512 src @ take (512 * length qs) (drop 512 src)"
      by (simp add: take_add)
    have "take (length (take 512 src) + length (take (512 * length qs) (drop 512 src)))
        (sector_bytes s1 q @ concat (map (sector_bytes s2) qs)) = take 512 src @ take (512 * length qs) (drop 512 src)"
    proof (cases "512 \<le> length src")
      case True
      then show ?thesis using s1(3) s2(3) lq by simp
    next
      case False
      then show ?thesis using s1(3) lq by simp
    qed
    then have bytes: "take (length (take (512 * length (q # qs)) src)) (concat (map (sector_bytes s2) (q # qs)))
        = take (512 * length (q # qs)) src"
      unfolding split by (simp add: q)
    have "drop (512 * length qs) (drop 512 src) = drop (512 * length (q # qs)) src" by (simp add: add.commute)
    then have run: "fold_until (\<lambda>q. write_data_sector q 0) (q # qs) (src, s) = Inr (drop (512 * length (q # qs)) src, s2)"
      using s1(1) s2(1) by simp
    have rest: "disk s2 l = disk s l" if "\<forall>r\<in>set (q # qs). l \<noteq> fat_lba r s" for l
      using that s1(4) s2(4) by (auto simp: lba)
    from run bytes rest fat_same_trans [OF s1(2) s2(2)] show ?thesis by blast
  qed
qed

text \<open>The data area of a chain: its sectors are distinct and outside the tables.\<close>

definition chain_apart :: "fat \<Rightarrow> u32 list \<Rightarrow> bool" where
  "chain_apart s cs \<longleftrightarrow> distinct (chain_sectors s cs) \<and> (\<forall>q\<in>set (chain_sectors s cs). fat_lba q s \<notin> fat_area s)"

lemma fat_entry_outside:
  assumes "fat_ok s" "fat_same s t" "\<And>lba. lba \<in> fat_area s \<Longrightarrow> disk t lba = disk s lba" "fat_cluster s c"
  shows "fat_entry t c = fat_entry s c"
proof -
  let ?t = "ftype (g_fat s)"
  have g: "g_fat t = g_fat s" using assms(2) by (simp add: fat_same_def)
  have n: "0 < unat (num_fats (g_fat s))" using assms(1) by (simp add: fat_ok_def unat_gt_0 word_gt_0)
  have "fat_bytes t (entry_byte ?t c + j) = fat_bytes s (entry_byte ?t c + j)" if "j < entry_width ?t" for j
  proof -
    have lt: "entry_byte ?t c mod 512 + j < 512"
      using entry_fits [of ?t c] that assms(4) unfolding fat_cluster_def by linarith
    have "entry_byte ?t c + j = 512 * (entry_byte ?t c div 512) + (entry_byte ?t c mod 512 + j)" by simp
    then have "(entry_byte ?t c + j) div 512 = (512 * (entry_byte ?t c div 512) + (entry_byte ?t c mod 512 + j)) div 512"
      by (rule arg_cong)
    also have "\<dots> = entry_byte ?t c div 512"
      using div_mult_self4 [of 512 "entry_byte ?t c div 512" "entry_byte ?t c mod 512 + j"] lt by simp
    finally have "(entry_byte ?t c + j) div 512 = entry_byte ?t c div 512" .
    also have "\<dots> < unat (sectors_per_fat (g_fat s))" using assms(4) by (simp add: fat_cluster_def)
    also have "\<dots> \<le> unat (num_fats (g_fat s)) * unat (sectors_per_fat (g_fat s))" using n by simp
    finally have "fat_lba (fat_start_sector (g_fat s) + of_nat ((entry_byte ?t c + j) div 512)) s \<in> fat_area s"
      unfolding fat_area_def by (intro imageI) simp
    then show ?thesis using assms(3) by (simp add: fat_bytes_def g fat_lba_def)
  qed
  then show ?thesis unfolding fat_entry_def g by (rule entry_load_local)
qed

lemma fat_area_same: "fat_same s t \<Longrightarrow> fat_area t = fat_area s"
  by (simp add: fat_area_def fat_same_def fat_lba_def)

lemma FatEofMarker_same: "fat_same s t \<Longrightarrow> FatEofMarker t = FatEofMarker s"
  by (simp add: FatEofMarker_def fat_same_def)

lemma chain_apart_Cons:
  "chain_apart s (x # xs) \<Longrightarrow> distinct (cluster_sectors s x) \<and> chain_apart s xs
    \<and> (\<forall>q\<in>set (cluster_sectors s x). fat_lba q s \<notin> fat_area s \<and> q \<notin> set (chain_sectors s xs))"
  by (auto simp: chain_apart_def chain_sectors_def)

lemma fold_until_cluster:
  "fold_until (write_data_sector (FatClusterToSector x t)) [0..<unat (sectors_per_cluster (g_fat t))] st =
   fold_until (\<lambda>q. write_data_sector q 0) (cluster_sectors t x) st"
proof -
  have "write_data_sector (FatClusterToSector x t) = (\<lambda>k. write_data_sector (FatClusterToSector x t + of_nat k) 0)"
    by (rule ext) (rule write_data_sector_shift)
  then show ?thesis by (simp add: cluster_sectors_def fold_until_map)
qed

lemma write_data_correct:
  assumes "fat_ok s" "fat_same s t" "\<forall>x. fat_cluster s x \<longrightarrow> fat_entry t x = fat_entry s x"
    and "link_chain (fat_entry s) (FatEofMarker s) c cs" "\<forall>x\<in>set cs. fat_cluster s x" "chain_apart s cs"
    and "length src \<le> 512 * length (chain_sectors s cs)"
  shows "\<exists>t'. write_data c src t = Some (STATUS_SUCCESS, t') \<and> fat_same s t'
    \<and> take (length src) (chain_bytes t' cs) = src
    \<and> (\<forall>lba. (\<forall>q\<in>set (chain_sectors s cs). lba \<noteq> fat_lba q s) \<longrightarrow> disk t' lba = disk t lba)"
  using assms
proof (induction cs arbitrary: c src t)
  case Nil
  then show ?case by simp
next
  case (Cons x xs)
  then have x: "c = x" "fat_cluster s x" "2 \<le> x" "x < FatEofMarker s" by simp_all
  note apart = chain_apart_Cons [OF Cons.prems(6)]
  have t: "fat_ok t" "fat_io_ok t" "bytes_per_sector (g_fat t) = 512"
    using fat_same_ok [OF Cons.prems(2)] assms(1) by (simp_all add: fat_ok_def fat_io_ok_def)
  let ?qs = "cluster_sectors s x" and ?m = "512 * unat (sectors_per_cluster (g_fat s))"
  show ?case
  proof (cases "src = []")
    case True
    then show ?thesis using Cons.prems(2) by (subst write_data.simps) simp
  next
    case False
    from write_sectors [OF t(2,3), of ?qs src] apart obtain t1 where
      t1: "fold_until (\<lambda>q. write_data_sector q 0) ?qs (src, t) = Inr (drop ?m src, t1)" "fat_same t t1"
      "take (length (take ?m src)) (concat (map (sector_bytes t1) ?qs)) = take ?m src"
      "\<forall>lba. (\<forall>q\<in>set ?qs. lba \<noteq> fat_lba q t) \<longrightarrow> disk t1 lba = disk t lba" by auto
    have same1: "fat_same s t1" by (rule fat_same_trans [OF Cons.prems(2) t1(2)])
    have lba: "fat_lba q t = fat_lba q s" for q by (rule fat_same_sectors(3) [OF Cons.prems(2)])
    have "cluster_sectors t x = ?qs" using fat_same_sectors(1) [OF Cons.prems(2)] by simp
    then have inner: "fold_until (write_data_sector (FatClusterToSector x t)) [0..<unat (sectors_per_cluster (g_fat t))] (src, t)
        = Inr (drop ?m src, t1)"
      using t1(1) by (simp add: fold_until_cluster)
    have area: "disk t1 l = disk t l" if "l \<in> fat_area s" for l
      using t1(4) apart that by (metis lba)
    have ent1: "fat_entry t1 y = fat_entry s y" if "fat_cluster s y" for y
      using fat_entry_outside [OF t(1) t1(2), of y] area fat_area_same [OF Cons.prems(2)]
        fat_same_cluster [OF Cons.prems(2)] that Cons.prems(3) by simp
    have t1ok: "fat_ok t1" "fat_cluster t1 x" using fat_same_ok [OF same1] fat_same_cluster [OF same1] assms(1) x(2) by auto
    note nx = FatNextCluster_entry [OF t1ok]
    let ?t2 = "snd (FatNextCluster x t1)"
    have run: "write_data c src t = write_data (fst (FatNextCluster x t1)) (drop ?m src) ?t2"
      using False x inner FatEofMarker_same [OF Cons.prems(2)]
      by (subst write_data.simps) (simp add: case_prod_unfold Let_def)
    have same2: "fat_same s ?t2" by (rule fat_same_trans [OF same1 nx(2)])
    have ent2: "\<forall>y. fat_cluster s y \<longrightarrow> fat_entry ?t2 y = fat_entry s y"
      using ent1 fat_entry_cong [OF nx(2,3)] by simp
    have here: "concat (map (sector_bytes u) ?qs) = concat (map (sector_bytes t1) ?qs)"
      if "fat_same s u" "\<And>q. q \<in> set ?qs \<Longrightarrow> disk u (fat_lba q s) = disk t1 (fat_lba q s)" for u
      using that same1 by (intro arg_cong [where f = concat] map_cong)
        (simp_all add: sector_bytes_def fat_same_sectors(3))
    show ?thesis
    proof (cases "xs = []")
      case True
      then have "length src \<le> ?m" using Cons.prems(7) by (simp add: length_chain_sectors)
      then have d: "drop ?m src = []" "take ?m src = src" by simp_all
      have "write_data c src t = Some (STATUS_SUCCESS, ?t2)"
        unfolding run d by (subst write_data.simps) simp
      moreover have "take (length src) (chain_bytes ?t2 (x # xs)) = src"
        using t1(3) here [OF same2] nx(3) True d
        by (simp add: chain_bytes_def chain_sectors_def fat_same_sectors(1) [OF same2])
      moreover have "disk ?t2 l = disk t l" if "\<forall>q\<in>set (chain_sectors s (x # xs)). l \<noteq> fat_lba q s" for l
        using that t1(4) nx(3) by (simp add: chain_sectors_def lba)
      ultimately show ?thesis using same2 by blast
    next
      case False
      then have chain: "link_chain (fat_entry s) (FatEofMarker s) (fat_entry s x) xs" using Cons.prems(4) by simp
      then have "\<not> FatEofMarker s \<le> fat_entry s x" by (cases xs) (auto simp: not_le)
      then have nxt: "fst (FatNextCluster x t1) = fat_entry s x"
        using nx(1) FatEofMarker_same [OF same1] ent1 [OF x(2)] by simp
      have v: "\<forall>y\<in>set xs. fat_cluster s y" and ap: "chain_apart s xs" using Cons.prems(5) apart by simp_all
      have left: "length (drop ?m src) \<le> 512 * length (chain_sectors s xs)"
        using Cons.prems(7) by (simp add: length_chain_sectors)
      from Cons.IH [OF assms(1) same2 ent2 chain v ap left] obtain t3 where
        t3: "write_data (fat_entry s x) (drop ?m src) ?t2 = Some (STATUS_SUCCESS, t3)" "fat_same s t3"
        "take (length (drop ?m src)) (chain_bytes t3 xs) = drop ?m src"
        "\<forall>lba. (\<forall>q\<in>set (chain_sectors s xs). lba \<noteq> fat_lba q s) \<longrightarrow> disk t3 lba = disk ?t2 lba" by blast
      let ?A = "concat (map (sector_bytes t3) ?qs)"
      have A: "?A = concat (map (sector_bytes t1) ?qs)"
      proof (rule here [OF t3(2)])
        fix q assume "q \<in> set ?qs"
        then show "disk t3 (fat_lba q s) = disk t1 (fat_lba q s)"
          using t3(4) apart nx(3) by (metis fat_lba_inj)
      qed
      have lA: "length ?A = ?m" by (simp add: length_concat_sectors)
      have "chain_bytes t3 (x # xs) = ?A @ chain_bytes t3 xs"
        by (simp add: chain_bytes_def chain_sectors_def fat_same_sectors(1) [OF t3(2)])
      then have "take (length src) (chain_bytes t3 (x # xs)) = take (length src) ?A @ take (length src - ?m) (chain_bytes t3 xs)"
        by (simp add: lA)
      also have "take (length src) ?A = take ?m src"
        using t1(3) unfolding A [symmetric] using lA by (cases "length src \<le> ?m") auto
      also have "take (length src - ?m) (chain_bytes t3 xs) = drop ?m src" using t3(3) by simp
      finally have bytes: "take (length src) (chain_bytes t3 (x # xs)) = src" by simp
      have rest: "disk t3 l = disk t l" if "\<forall>q\<in>set (chain_sectors s (x # xs)). l \<noteq> fat_lba q s" for l
      proof -
        have "disk t3 l = disk ?t2 l" by (rule t3(4) [rule_format]) (use that in \<open>simp add: chain_sectors_def\<close>)
        moreover have "disk t1 l = disk t l" by (rule t1(4) [rule_format]) (use that in \<open>simp add: chain_sectors_def lba\<close>)
        ultimately show ?thesis using nx(3) by simp
      qed
      show ?thesis unfolding run nxt t3(1) using t3(2) bytes rest by blast
    qed
  qed
qed

lemma Fat32ReadFile_chain:
  assumes "fat_ok s" "link_chain (fat_entry s) (FatEofMarker s) (g_current_cluster s) cs"
    and "\<forall>x\<in>set cs. fat_cluster s x" "unat (g_current_file_size s) \<le> length (chain_bytes s cs)"
  shows "\<exists>s'. Fat32ReadFile s = Some (STATUS_SUCCESS, take (unat (g_current_file_size s)) (chain_bytes s cs), s')
    \<and> fat_same s s' \<and> disk s' = disk s"
proof -
  have "g_fat_initialized s" using assms(1) by (simp add: fat_ok_def)
  then show ?thesis
    using read_chain_correct [OF assms(1) fat_same_refl refl assms(2,3,4), of "[]"]
    by (auto simp: Fat32ReadFile_def)
qed

section \<open>Properties\<close>

text \<open>
  C2: \<^verbatim>\<open>Fat32ReadFile\<close> on an open file whose clusters form a well-formed chain ends with
  success and returns exactly the first \<open>file size\<close> bytes of the chain's sectors in order,
  without changing the disk.
\<close>

theorem Fat32ReadFile_correct:
  assumes "fat_ok s" "link_chain (fat_entry s) (FatEofMarker s) (g_current_cluster s) cs"
    and "\<forall>x\<in>set cs. fat_cluster s x" "unat (g_current_file_size s) \<le> length (chain_bytes s cs)"
  shows "\<exists>s'. Fat32ReadFile s = Some (STATUS_SUCCESS, take (unat (g_current_file_size s)) (chain_bytes s cs), s')
    \<and> disk s' = disk s"
  using Fat32ReadFile_chain [OF assms] by blast

text \<open>
  C1: Writing then reading. Data written by the loop of \<^verbatim>\<open>Fat32WriteFile\<close> into a chain long
  enough for it, whose sectors are distinct and outside the tables, is what
  \<^verbatim>\<open>Fat32ReadFile\<close> returns for a file of that length on that chain.
\<close>

theorem Fat32_write_read_roundtrip:
  assumes "fat_ok s" "link_chain (fat_entry s) (FatEofMarker s) c cs" "\<forall>x\<in>set cs. fat_cluster s x"
    and "chain_apart s cs" "length data \<le> 512 * length (chain_sectors s cs)" "length data < 2 ^ 32"
  shows "\<exists>s' s''. write_data c data s = Some (STATUS_SUCCESS, s') \<and>
    Fat32ReadFile (s'\<lparr>g_current_cluster := c, g_current_file_size := of_nat (length data)\<rparr>)
      = Some (STATUS_SUCCESS, data, s'')"
proof -
  from write_data_correct [OF assms(1) fat_same_refl _ assms(2-5)] obtain s1 where
    s1: "write_data c data s = Some (STATUS_SUCCESS, s1)" "fat_same s s1"
    "take (length data) (chain_bytes s1 cs) = data"
    "\<forall>lba. (\<forall>q\<in>set (chain_sectors s cs). lba \<noteq> fat_lba q s) \<longrightarrow> disk s1 lba = disk s lba" by blast
  let ?s = "s1\<lparr>g_current_cluster := c, g_current_file_size := of_nat (length data)\<rparr>"
  have ok: "fat_ok ?s" using fat_same_ok [OF s1(2)] assms(1) by (simp add: fat_ok_def)
  have cl: "fat_cluster ?s = fat_cluster s"
    using fat_same_cluster [OF s1(2)] by (simp add: fat_cluster_def fun_eq_iff)
  have eof: "FatEofMarker ?s = FatEofMarker s" using FatEofMarker_same [OF s1(2)] by (simp add: FatEofMarker_def)
  have "fat_entry ?s = fat_entry s1" by (simp add: fat_entry_def fat_bytes_def fat_lba_def fun_eq_iff)
  moreover have "disk s1 l = disk s l" if "l \<in> fat_area s" for l
    using s1(4) assms(4) that by (metis chain_apart_def)
  then have "fat_entry s1 x = fat_entry s x" if "fat_cluster s x" for x
    using fat_entry_outside [OF assms(1) s1(2) _ that] by blast
  moreover have cong: "link_chain e m d ys \<Longrightarrow> (\<And>y. y \<in> set ys \<Longrightarrow> e y = e' y) \<Longrightarrow> link_chain e' m d ys" for e e' m d ys
    by (induction ys arbitrary: d) (auto split: if_splits)
  ultimately have chain: "link_chain (fat_entry ?s) (FatEofMarker ?s) (g_current_cluster ?s) cs"
    unfolding eof using cong [OF assms(2)] assms(3) by auto
  have "cluster_sectors ?s = cluster_sectors s1" "sector_bytes ?s = sector_bytes s1"
    by (rule ext, simp add: cluster_sectors_def FatClusterToSector_def sector_bytes_def fat_lba_def)+
  then have bytes: "chain_bytes ?s cs = chain_bytes s1 cs" by (simp add: chain_bytes_def chain_sectors_def)
  have n: "unat (g_current_file_size ?s) = length data"
    using assms(6) by (simp add: unat_of_nat take_bit_nat_eq_self)
  have len: "length (chain_bytes s1 cs) = 512 * length (chain_sectors s cs)"
    unfolding chain_bytes_def by (simp add: length_concat_sectors fat_same_sectors(2) [OF s1(2)])
  have "unat (g_current_file_size ?s) \<le> length (chain_bytes ?s cs)"
    unfolding n bytes len by (rule assms(5))
  from Fat32ReadFile_chain [OF ok chain _ this] assms(3) s1(1,3) show ?thesis
    unfolding n bytes by (simp add: cl) blast
qed

lemma fat_small_chain:
  "link_chain (fat_entry fat_small) (FatEofMarker fat_small) 2 [2, 3]"
  "\<forall>x\<in>set [2, 3]. fat_cluster fat_small x"
  "chain_sectors fat_small [2, 3] = [2, 3]"
  "chain_apart fat_small [2, 3]"
proof -
  have "FatEofMarker fat_small = 0xFFF8" by (simp add: FatEofMarker_def fat_small_def)
  then show "link_chain (fat_entry fat_small) (FatEofMarker fat_small) 2 [2, 3]"
    by (simp add: fat_small_entries)
  show "\<forall>x\<in>set [2, 3]. fat_cluster fat_small x" using fat_small_cluster by simp
  show cs: "chain_sectors fat_small [2, 3] = [2, 3]"
    by (simp add: chain_sectors_def cluster_sectors_def FatClusterToSector_def fat_small_def)
  show "chain_apart fat_small [2, 3]"
    unfolding chain_apart_def cs by (auto simp: fat_area_def fat_small_def fat_lba_def)
qed

lemma Fat32ReadFile_correct_witness:
  "\<exists>data s'. Fat32ReadFile fat_small = Some (STATUS_SUCCESS, data, s') \<and> length data = 1000"
proof -
  have c: "g_current_cluster fat_small = 2" "g_current_file_size fat_small = 1000" by (simp_all add: fat_small_def)
  have len: "length (chain_bytes fat_small [2, 3]) = 1024"
    unfolding chain_bytes_def by (simp only: length_concat_sectors fat_small_chain(3)) simp
  have "link_chain (fat_entry fat_small) (FatEofMarker fat_small) (g_current_cluster fat_small) [2, 3]"
    unfolding c by (rule fat_small_chain(1))
  moreover have "unat (g_current_file_size fat_small) \<le> length (chain_bytes fat_small [2, 3])"
    unfolding c len by simp
  ultimately show ?thesis
    using Fat32ReadFile_correct [OF fat_small_ok _ fat_small_chain(2)] unfolding c len by (fastforce simp: len)
qed

lemma Fat32_write_read_roundtrip_witness:
  "\<exists>s' s''. write_data 2 [1, 2, 3] fat_small = Some (STATUS_SUCCESS, s') \<and>
    Fat32ReadFile (s'\<lparr>g_current_cluster := 2, g_current_file_size := 3\<rparr>) = Some (STATUS_SUCCESS, [1, 2, 3], s'')"
proof -
  have "length [1, 2, 3 :: u8] \<le> 512 * length (chain_sectors fat_small [2, 3])"
    unfolding fat_small_chain(3) by simp
  from Fat32_write_read_roundtrip [OF fat_small_ok fat_small_chain(1,2,4) this] show ?thesis by simp
qed

end
