(* ===== verification/Vmm.thy ===== *)
theory Vmm
  imports Pmm
begin

text \<open>
  The virtual memory manager, \<^verbatim>\<open>Kernel/mm/vmm.c\<close>: four levels of page tables in physical
  frames that the physical memory manager hands out.  The tables are an explicit store from
  frame address and index to entry; a C pointer to a table is turned into the frame it
  reaches by \<open>table_frame\<close>.  A tree of tables is read as a map from index paths to entries,
  and every operation is shown to refine an update or a lookup of that map.
\<close>

section \<open>Constants and state\<close>

definition VMM_PRESENT :: u64 where "VMM_PRESENT = 1"
definition VMM_WRITABLE :: u64 where "VMM_WRITABLE = 2"
definition VMM_USER :: u64 where "VMM_USER = 4"
definition VMM_HUGE :: u64 where "VMM_HUGE = 0x80"
definition VMM_NX :: u64 where "VMM_NX = 0x8000000000000000"
definition VMM_KERNEL_FLAGS :: u64 where "VMM_KERNEL_FLAGS = VMM_PRESENT OR VMM_WRITABLE"
definition VMM_USER_FLAGS :: u64 where "VMM_USER_FLAGS = VMM_PRESENT OR VMM_WRITABLE OR VMM_USER"
definition PHYS_OFFSET :: u64 where "PHYS_OFFSET = 0xFFFF800000000000"
definition PAGE_MASK :: u64 where "PAGE_MASK = 0x000FFFFFFFFFF000"

definition PTE_INDEX :: "u64 \<Rightarrow> nat" where "PTE_INDEX virt = unat (drop_bit 12 virt AND 0x1FF)"
definition PDE_INDEX :: "u64 \<Rightarrow> nat" where "PDE_INDEX virt = unat (drop_bit 21 virt AND 0x1FF)"
definition PDPTE_INDEX :: "u64 \<Rightarrow> nat" where "PDPTE_INDEX virt = unat (drop_bit 30 virt AND 0x1FF)"
definition PML4E_INDEX :: "u64 \<Rightarrow> nat" where "PML4E_INDEX virt = unat (drop_bit 39 virt AND 0x1FF)"

text \<open>
  \<open>vm_mem\<close> holds the frames that are read as tables; \<open>vm_flushed\<close> the addresses given to
  \<^verbatim>\<open>invlpg\<close>, newest first; \<open>vm_cr3\<close> the register; \<open>vm_boot_info\<close> the pointer \<^verbatim>\<open>g_boot_info\<close>.
\<close>

record vmm =
  vm_mem :: "u64 \<Rightarrow> nat \<Rightarrow> u64"
  g_kernel_pml4 :: u64
  g_vmm_active :: bool
  vm_cr3 :: u64
  vm_flushed :: "u64 list"
  vm_pmm :: pmm
  vm_boot_info :: u64

definition PHYS_TO_VIRT :: "vmm \<Rightarrow> u64 \<Rightarrow> u64" where
  "PHYS_TO_VIRT s p = (if g_vmm_active s then p + PHYS_OFFSET else p)"

text \<open>
  The frame behind a table pointer: once the tables are active, the higher half is the
  physical memory and the addresses below it are mapped to themselves.
\<close>

definition table_frame :: "vmm \<Rightarrow> u64 \<Rightarrow> u64" where
  "table_frame s ptr = (if g_vmm_active s \<and> PHYS_OFFSET \<le> ptr then ptr - PHYS_OFFSET else ptr)"

definition get_entry :: "vmm \<Rightarrow> u64 \<Rightarrow> nat \<Rightarrow> u64" where
  "get_entry s ptr i = vm_mem s (table_frame s ptr) i"

definition set_entry :: "u64 \<Rightarrow> nat \<Rightarrow> u64 \<Rightarrow> vmm \<Rightarrow> vmm" where
  "set_entry ptr i e s =
    s\<lparr>vm_mem := (vm_mem s)(table_frame s ptr := (vm_mem s (table_frame s ptr))(i := e))\<rparr>"

text \<open>\<open>RtMemSet(table, 0, PAGE_SIZE)\<close>: the 512 entries of the frame.\<close>

definition clear_table :: "u64 \<Rightarrow> vmm \<Rightarrow> vmm" where
  "clear_table ptr s =
    s\<lparr>vm_mem := (vm_mem s)(table_frame s ptr :=
        (\<lambda>i. if i < 512 then 0 else vm_mem s (table_frame s ptr) i))\<rparr>"

definition Invlpg :: "u64 \<Rightarrow> vmm \<Rightarrow> vmm" where
  "Invlpg virt s = s\<lparr>vm_flushed := virt # vm_flushed s\<rparr>"

definition vm_alloc :: "vmm \<Rightarrow> u64 \<times> vmm" where
  "vm_alloc s = (let (phys, p) = PmmAllocPage (vm_pmm s) in (phys, s\<lparr>vm_pmm := p\<rparr>))"

definition vm_pin :: "u64 \<Rightarrow> vmm \<Rightarrow> vmm" where
  "vm_pin phys s = s\<lparr>vm_pmm := PmmPinPage phys (vm_pmm s)\<rparr>"

section \<open>Mapping\<close>

text \<open>Pointer 0 is \<open>NULL\<close>.\<close>

definition GetNextLevel :: "u64 \<Rightarrow> nat \<Rightarrow> u64 \<Rightarrow> bool \<Rightarrow> vmm \<Rightarrow> u64 \<times> vmm" where
  "GetNextLevel current_level index flags pin s =
    (if get_entry s current_level index AND VMM_PRESENT \<noteq> 0
     then let s = (if flags AND VMM_USER \<noteq> 0
                   then set_entry current_level index (get_entry s current_level index OR VMM_USER) s else s)
          in (PHYS_TO_VIRT s (get_entry s current_level index AND PAGE_MASK), s)
     else let (phys, s) = vm_alloc s
          in if phys = 0 then (0, s)
             else let virt = PHYS_TO_VIRT s phys;
                      s = clear_table virt s;
                      dir_flags = VMM_PRESENT OR VMM_WRITABLE;
                      dir_flags = (if flags AND VMM_USER \<noteq> 0 then dir_flags OR VMM_USER else dir_flags);
                      s = set_entry current_level index (phys OR dir_flags) s;
                      s = (if pin then vm_pin phys s else s)
                  in (virt, s))"

definition VmmMapPage :: "u64 \<Rightarrow> u64 \<Rightarrow> u64 \<Rightarrow> u64 \<Rightarrow> vmm \<Rightarrow> vmm" where
  "VmmMapPage pml4 virt phys flags s =
    (let pin = (pml4 = g_kernel_pml4 s);
         (pdpt, s) = GetNextLevel pml4 (PML4E_INDEX virt) flags pin s
     in if pdpt = 0 then s
        else let (pd, s) = GetNextLevel pdpt (PDPTE_INDEX virt) flags pin s
        in if pd = 0 then s
        else let (pt, s) = GetNextLevel pd (PDE_INDEX virt) flags pin s
        in if pt = 0 then s
        else Invlpg virt (set_entry pt (PTE_INDEX virt) ((phys AND PAGE_MASK) OR flags) s))"

text \<open>The loops \<open>for (i = 0; i < count; i++) VmmMapPage(..., base + i * PAGE_SIZE, ...)\<close>.\<close>

definition VmmMapPages :: "u64 \<Rightarrow> u64 \<Rightarrow> u64 \<Rightarrow> u64 \<Rightarrow> u64 \<Rightarrow> vmm \<Rightarrow> vmm" where
  "VmmMapPages pml4 virt phys count flags s =
    fold (\<lambda>i. VmmMapPage pml4 (virt + of_nat i * PAGE_SIZE) (phys + of_nat i * PAGE_SIZE) flags)
      [0..<unat count] s"

definition page_count :: "u64 \<Rightarrow> u64" where
  "page_count size' = (size' + PAGE_SIZE - 1) div PAGE_SIZE"

definition VmmIdentityMapRange :: "u64 \<Rightarrow> u64 \<Rightarrow> u64 \<Rightarrow> u64 \<Rightarrow> vmm \<Rightarrow> vmm" where
  "VmmIdentityMapRange pml4 phys size' flags s =
    (let start = phys AND PAGE_MASK; pages = page_count size'
     in fold (\<lambda>i. VmmMapPage pml4 (start + of_nat i * PAGE_SIZE) (start + of_nat i * PAGE_SIZE) flags)
          [0..<unat pages] s)"

text \<open>\<open>for (i = lo; i < hi; i += PAGE_SIZE) VmmMapPage(pml4, i, i, flags)\<close>\<close>

definition map_identity_span :: "u64 \<Rightarrow> nat \<Rightarrow> nat \<Rightarrow> u64 \<Rightarrow> vmm \<Rightarrow> vmm" where
  "map_identity_span pml4 lo hi flags s =
    fold (\<lambda>k. VmmMapPage pml4 (of_nat (lo + k * 4096)) (of_nat (lo + k * 4096)) flags)
      [0..<(hi - lo + 4095) div 4096] s"

section \<open>Unmapping and lookup\<close>

definition VmmUnmapPage :: "u64 \<Rightarrow> u64 \<Rightarrow> vmm \<Rightarrow> u64 \<times> vmm" where
  "VmmUnmapPage pml4 virt s =
    (if get_entry s pml4 (PML4E_INDEX virt) AND VMM_PRESENT = 0 then (0, s)
     else let pdpt = PHYS_TO_VIRT s (get_entry s pml4 (PML4E_INDEX virt) AND PAGE_MASK)
     in if get_entry s pdpt (PDPTE_INDEX virt) AND VMM_PRESENT = 0 then (0, s)
     else let pd = PHYS_TO_VIRT s (get_entry s pdpt (PDPTE_INDEX virt) AND PAGE_MASK)
     in if get_entry s pd (PDE_INDEX virt) AND VMM_PRESENT = 0 then (0, s)
     else if get_entry s pd (PDE_INDEX virt) AND VMM_HUGE \<noteq> 0
     then let phys = get_entry s pd (PDE_INDEX virt) AND PAGE_MASK
          in (phys, Invlpg virt (set_entry pd (PDE_INDEX virt) 0 s))
     else let pt = PHYS_TO_VIRT s (get_entry s pd (PDE_INDEX virt) AND PAGE_MASK)
     in if get_entry s pt (PTE_INDEX virt) AND VMM_PRESENT = 0 then (0, s)
     else let phys = get_entry s pt (PTE_INDEX virt) AND PAGE_MASK
          in (phys, Invlpg virt (set_entry pt (PTE_INDEX virt) 0 s)))"

definition VmmUnmapPages :: "u64 \<Rightarrow> u64 \<Rightarrow> u64 \<Rightarrow> vmm \<Rightarrow> vmm" where
  "VmmUnmapPages pml4 virt count s =
    fold (\<lambda>i s. snd (VmmUnmapPage pml4 (virt + of_nat i * PAGE_SIZE) s)) [0..<unat count] s"

definition VmmGetPhysical :: "u64 \<Rightarrow> u64 \<Rightarrow> vmm \<Rightarrow> u64" where
  "VmmGetPhysical pml4 virt s =
    (if get_entry s pml4 (PML4E_INDEX virt) AND VMM_PRESENT = 0 then 0
     else let pdpt = PHYS_TO_VIRT s (get_entry s pml4 (PML4E_INDEX virt) AND PAGE_MASK)
     in if get_entry s pdpt (PDPTE_INDEX virt) AND VMM_PRESENT = 0 then 0
     else let pd = PHYS_TO_VIRT s (get_entry s pdpt (PDPTE_INDEX virt) AND PAGE_MASK)
     in if get_entry s pd (PDE_INDEX virt) AND VMM_PRESENT = 0 then 0
     else if get_entry s pd (PDE_INDEX virt) AND VMM_HUGE \<noteq> 0
     then (get_entry s pd (PDE_INDEX virt) AND PAGE_MASK) + (virt AND 0x1FFFFF)
     else let pt = PHYS_TO_VIRT s (get_entry s pd (PDE_INDEX virt) AND PAGE_MASK)
     in if get_entry s pt (PTE_INDEX virt) AND VMM_PRESENT = 0 then 0
     else (get_entry s pt (PTE_INDEX virt) AND PAGE_MASK) + (virt AND 0xFFF))"

text \<open>\<open>VmmDumpPte\<close>: the entries it prints.\<close>

definition VmmDumpPte :: "u64 \<Rightarrow> u64 \<Rightarrow> vmm \<Rightarrow> u64 list" where
  "VmmDumpPte pml4 virt s =
    (let pml4e = get_entry s pml4 (PML4E_INDEX virt)
     in if pml4e AND VMM_PRESENT = 0 then [pml4e]
     else let pdpt = PHYS_TO_VIRT s (pml4e AND PAGE_MASK); pdpte = get_entry s pdpt (PDPTE_INDEX virt)
     in if pdpte AND VMM_PRESENT = 0 then [pml4e, pdpte]
     else let pd = PHYS_TO_VIRT s (pdpte AND PAGE_MASK); pde = get_entry s pd (PDE_INDEX virt)
     in if pde AND VMM_PRESENT = 0 \<or> pde AND VMM_HUGE \<noteq> 0 then [pml4e, pdpte, pde]
     else let pt = PHYS_TO_VIRT s (pde AND PAGE_MASK)
     in [pml4e, pdpte, pde, get_entry s pt (PTE_INDEX virt)])"

section \<open>Address spaces\<close>

definition VmmGetPml4 :: "vmm \<Rightarrow> u64" where "VmmGetPml4 s = g_kernel_pml4 s"

definition VmmSwitchAddressSpace :: "u64 \<Rightarrow> vmm \<Rightarrow> vmm" where
  "VmmSwitchAddressSpace pml4_phys s = s\<lparr>vm_cr3 := pml4_phys\<rparr>"

definition VmmMapKernelInto :: "u64 \<Rightarrow> vmm \<Rightarrow> vmm" where
  "VmmMapKernelInto new_pml4 s =
    fold (\<lambda>i s. set_entry new_pml4 i (get_entry s (g_kernel_pml4 s) i) s) [256..<512] s"

text \<open>
  The kernel image and the frame buffer, mapped to themselves: the pages of
  \<^verbatim>\<open>g_boot_info\<close> that both the kernel and every process need.
\<close>

definition map_image :: "u64 \<Rightarrow> boot_info \<Rightarrow> vmm \<Rightarrow> vmm" where
  "map_image pml4 boot s =
    (let kernel_start = kernel_image_base boot AND PAGE_MASK;
         kernel_pages = page_count (kernel_image_size boot)
     in fold (\<lambda>i. VmmMapPage pml4 (kernel_start + of_nat i * PAGE_SIZE) (kernel_start + of_nat i * PAGE_SIZE)
                    VMM_KERNEL_FLAGS) [0..<unat kernel_pages] s)"

definition map_framebuffer :: "u64 \<Rightarrow> boot_info \<Rightarrow> vmm \<Rightarrow> vmm" where
  "map_framebuffer pml4 boot s =
    (let fb_start = fb_base boot AND PAGE_MASK;
         fb_pages = page_count (fb_size boot)
     in fold (\<lambda>i. VmmMapPage pml4 (fb_start + of_nat i * PAGE_SIZE) (fb_start + of_nat i * PAGE_SIZE)
                    (VMM_KERNEL_FLAGS OR VMM_NX)) [0..<unat fb_pages] s)"

definition VmmCreateAddressSpace :: "boot_info \<Rightarrow> vmm \<Rightarrow> u64 \<times> vmm" where
  "VmmCreateAddressSpace boot s =
    (let (pml4_phys, s) = vm_alloc s
     in if pml4_phys = 0 then (0, s)
        else let pml4 = PHYS_TO_VIRT s pml4_phys;
                 s = clear_table pml4 s;
                 s = fold (\<lambda>i s. set_entry pml4 i (get_entry s (g_kernel_pml4 s) i) s) [256..<512] s;
                 s = map_identity_span pml4 0 0x100000 VMM_KERNEL_FLAGS s;
                 s = map_image pml4 boot s;
                 s = map_framebuffer pml4 boot s;
                 s = map_identity_span pml4 0xF0000000 0x100000000 (VMM_KERNEL_FLAGS OR VMM_NX) s
             in (pml4, s))"

text \<open>\<open>memory_map\<close> and its size come from the same boot information.\<close>

definition VmmInit :: "boot_info \<Rightarrow> u64 \<Rightarrow> u64 \<Rightarrow> vmm \<Rightarrow> vmm" where
  "VmmInit boot memory_map memory_map_size s =
    (let (pml4_phys, s) = vm_alloc s;
         s = vm_pin pml4_phys s;
         pml4 = PHYS_TO_VIRT s pml4_phys;
         s = clear_table pml4 (s\<lparr>g_kernel_pml4 := pml4\<rparr>);
         total_ram = of_nat (PmmGetHighestPage (vm_pmm s)) * PAGE_SIZE;
         pages = page_count total_ram;
         s = fold (\<lambda>i. VmmMapPage pml4 (PHYS_OFFSET + of_nat i * PAGE_SIZE) (of_nat i * PAGE_SIZE)
                         (VMM_KERNEL_FLAGS OR VMM_NX)) [0..<unat pages] s;
         s = map_image pml4 boot s;
         s = map_framebuffer pml4 boot s;
         s = map_identity_span pml4 0xF0000000 0x100000000 (VMM_KERNEL_FLAGS OR VMM_NX) s;
         s = map_identity_span pml4 0 0x100000 VMM_KERNEL_FLAGS s;
         mem_map_start = memory_map AND PAGE_MASK;
         mem_map_pages = page_count memory_map_size;
         s = fold (\<lambda>i. VmmMapPage pml4 (mem_map_start + of_nat i * PAGE_SIZE)
                         (mem_map_start + of_nat i * PAGE_SIZE) (VMM_KERNEL_FLAGS OR VMM_NX))
               [0..<unat mem_map_pages] s
     in s\<lparr>vm_cr3 := pml4_phys, g_vmm_active := True,
          vm_boot_info := vm_boot_info s + PHYS_OFFSET\<rparr>)"

text \<open>The three nested loops of \<open>VmmPinKernelPageTables\<close>, innermost first.\<close>

definition pin_pd :: "u64 \<Rightarrow> vmm \<Rightarrow> vmm" where
  "pin_pd pd s =
    fold (\<lambda>k s. if get_entry s pd k AND VMM_PRESENT = 0 then s
                else if get_entry s pd k AND VMM_HUGE \<noteq> 0 then s
                else vm_pin (get_entry s pd k AND PAGE_MASK) s) [0..<512] s"

definition pin_pdpt :: "u64 \<Rightarrow> vmm \<Rightarrow> vmm" where
  "pin_pdpt pdpt s =
    fold (\<lambda>j s. if get_entry s pdpt j AND VMM_PRESENT = 0 then s
                else if get_entry s pdpt j AND VMM_HUGE \<noteq> 0 then s
                else let pd_phys = get_entry s pdpt j AND PAGE_MASK
                     in pin_pd (PHYS_TO_VIRT s pd_phys) (vm_pin pd_phys s)) [0..<512] s"

definition VmmPinKernelPageTables :: "vmm \<Rightarrow> vmm" where
  "VmmPinKernelPageTables s =
    (let s = vm_pin (g_kernel_pml4 s - PHYS_OFFSET) s
     in fold (\<lambda>i s. if get_entry s (g_kernel_pml4 s) i AND VMM_PRESENT = 0 then s
                    else let pdpt_phys = get_entry s (g_kernel_pml4 s) i AND PAGE_MASK
                         in pin_pdpt (PHYS_TO_VIRT s pdpt_phys) (vm_pin pdpt_phys s)) [0..<512] s)"


section \<open>Words\<close>

abbreviation frame_limit :: nat where "frame_limit \<equiv> 2 ^ 23"

definition frame_addr :: "nat \<Rightarrow> u64" where "frame_addr p = of_nat p * PAGE_SIZE"

lemma frame_addr_push: "frame_addr p = push_bit 12 (of_nat p)"
  by (simp add: frame_addr_def PAGE_SIZE_def push_bit_eq_mult)

lemma frame_mask:
  assumes "p < 2 ^ 40"
  shows "frame_addr p AND PAGE_MASK = frame_addr p"
proof -
  have "(of_nat p :: u64) AND mask 40 = of_nat p"
    using assms by (simp add: take_bit_eq_mask [symmetric] take_bit_of_nat take_bit_nat_eq_self)
  moreover have "PAGE_MASK = push_bit 12 (mask 40)"
    by (simp add: PAGE_MASK_def mask_eq_exp_minus_1 push_bit_eq_mult)
  ultimately show ?thesis by (metis frame_addr_push push_bit_and)
qed

lemma frame_bits:
  assumes "p < frame_limit"
  shows "bit (frame_addr p) n \<Longrightarrow> 12 \<le> n"
  by (auto simp: frame_addr_push bit_push_bit_iff)

lemma frame_entry:
  assumes p: "p < frame_limit" and f: "f \<in> {VMM_PRESENT OR VMM_WRITABLE, VMM_PRESENT OR VMM_WRITABLE OR VMM_USER}"
  shows "(frame_addr p OR f) AND PAGE_MASK = frame_addr p"
    and "(frame_addr p OR f) AND VMM_PRESENT \<noteq> 0"
    and "(frame_addr p OR f) AND VMM_HUGE = 0"
proof -
  have low: "frame_addr p AND 1 = 0" "frame_addr p AND 0x80 = 0"
    using frame_bits [OF p, of 0] frame_bits [OF p, of 7]
      and_exp_eq_0_iff_not_bit [of "frame_addr p" 0] and_exp_eq_0_iff_not_bit [of "frame_addr p" 7]
    by auto
  have fm: "frame_addr p AND PAGE_MASK = frame_addr p" using p by (intro frame_mask) simp
  from f consider "f = 3" | "f = 7"
    by (auto simp: VMM_PRESENT_def VMM_WRITABLE_def VMM_USER_def)
  then have "(frame_addr p OR f) AND PAGE_MASK = frame_addr p \<and> (frame_addr p OR f) AND VMM_PRESENT = 1 \<and>
      (frame_addr p OR f) AND VMM_HUGE = 0"
    by cases (simp_all add: bit.conj_disj_distrib2 fm low VMM_PRESENT_def VMM_HUGE_def,
      simp_all add: PAGE_MASK_def)
  then show "(frame_addr p OR f) AND PAGE_MASK = frame_addr p" "(frame_addr p OR f) AND VMM_PRESENT \<noteq> 0"
    "(frame_addr p OR f) AND VMM_HUGE = 0" by simp_all
qed

lemma user_entry:
  "(e OR VMM_USER) AND PAGE_MASK = e AND PAGE_MASK"
  "(e OR VMM_USER) AND VMM_PRESENT = e AND VMM_PRESENT"
  "(e OR VMM_USER) AND VMM_HUGE = e AND VMM_HUGE"
  by (simp_all add: bit.conj_disj_distrib2 VMM_USER_def PAGE_MASK_def VMM_PRESENT_def VMM_HUGE_def)

lemma unat_frame: "p < frame_limit \<Longrightarrow> unat (frame_addr p) = p * 4096"
  by (simp add: frame_addr_def PAGE_SIZE_def unat_word_ariths unat_of_nat take_bit_nat_eq_self)

lemma table_frame_virt:
  assumes "p < frame_limit"
  shows "table_frame s (PHYS_TO_VIRT s (frame_addr p)) = frame_addr p" "PHYS_TO_VIRT s (frame_addr p) = 0 \<longleftrightarrow> \<not> g_vmm_active s \<and> p = 0"
proof -
  have sum: "unat (frame_addr p + PHYS_OFFSET) = p * 4096 + unat PHYS_OFFSET"
    using assms by (simp add: unat_word_ariths unat_frame PHYS_OFFSET_def)
  have "PHYS_OFFSET \<le> frame_addr p + PHYS_OFFSET" by (simp add: word_le_nat_alt sum)
  moreover have "\<not> g_vmm_active s \<Longrightarrow> table_frame s (frame_addr p) = frame_addr p"
    by (simp add: table_frame_def)
  ultimately show "table_frame s (PHYS_TO_VIRT s (frame_addr p)) = frame_addr p"
    by (simp add: table_frame_def PHYS_TO_VIRT_def)
  have "frame_addr p + PHYS_OFFSET \<noteq> 0"
  proof
    assume "frame_addr p + PHYS_OFFSET = 0"
    then show False using sum by (simp add: PHYS_OFFSET_def)
  qed
  moreover have "frame_addr p = 0 \<longleftrightarrow> p = 0"
    using unat_frame [OF assms] by (auto simp: word_unat_eq_iff)
  ultimately show "PHYS_TO_VIRT s (frame_addr p) = 0 \<longleftrightarrow> \<not> g_vmm_active s \<and> p = 0"
    by (simp add: PHYS_TO_VIRT_def)
qed

lemma index_less: "unat (x AND 0x1FF :: u64) < 512"
proof -
  have "x AND 0x1FF \<le> 0x1FF" by (rule word_and_le1)
  then show ?thesis by (simp add: word_le_nat_alt)
qed

lemma indices_less [simp]:
  "PTE_INDEX v < 512" "PDE_INDEX v < 512" "PDPTE_INDEX v < 512" "PML4E_INDEX v < 512"
  by (simp_all only: PTE_INDEX_def PDE_INDEX_def PDPTE_INDEX_def PML4E_INDEX_def index_less)


section \<open>Trees of tables\<close>

definition next_table :: "(u64 \<Rightarrow> nat \<Rightarrow> u64) \<Rightarrow> u64 \<Rightarrow> nat \<Rightarrow> u64 option" where
  "next_table m T i = (if m T i AND VMM_PRESENT \<noteq> 0 then Some (m T i AND PAGE_MASK) else None)"

text \<open>The table reached from \<open>T\<close> along a path of indices.\<close>

fun node :: "(u64 \<Rightarrow> nat \<Rightarrow> u64) \<Rightarrow> u64 \<Rightarrow> nat list \<Rightarrow> u64 option" where
  "node m T [] = Some T"
| "node m T (i # p) = (case next_table m T i of None \<Rightarrow> None | Some U \<Rightarrow> node m U p)"

text \<open>The entry at index \<open>d\<close> of the table at path \<open>p\<close>, 0 where there is no such table.\<close>

definition leaf :: "(u64 \<Rightarrow> nat \<Rightarrow> u64) \<Rightarrow> u64 \<Rightarrow> nat list \<Rightarrow> nat \<Rightarrow> u64" where
  "leaf m R p d = (case node m R p of None \<Rightarrow> 0 | Some T \<Rightarrow> m T d)"

definition path_ok :: "nat list \<Rightarrow> bool" where
  "path_ok p \<longleftrightarrow> length p \<le> 3 \<and> set p \<subseteq> {..<512}"

text \<open>No frame occurs at two places of the tree.\<close>

definition tree :: "(u64 \<Rightarrow> nat \<Rightarrow> u64) \<Rightarrow> u64 \<Rightarrow> bool" where
  "tree m R \<longleftrightarrow> (\<forall>p q T. path_ok p \<longrightarrow> path_ok q \<longrightarrow> node m R p = Some T \<longrightarrow> node m R q = Some T \<longrightarrow> p = q)"

lemma treeD: "tree m R \<Longrightarrow> path_ok p \<Longrightarrow> path_ok q \<Longrightarrow> node m R p = Some T \<Longrightarrow> node m R q = Some T \<Longrightarrow> p = q"
  by (simp add: tree_def)

lemma node_append: "node m T (p @ q) = (case node m T p of None \<Rightarrow> None | Some U \<Rightarrow> node m U q)"
  by (induction p arbitrary: T) (auto split: option.splits)

lemma node_snoc: "node m T (p @ [i]) = (case node m T p of None \<Rightarrow> None | Some U \<Rightarrow> next_table m U i)"
  by (auto simp: node_append split: option.splits)

lemma path_ok_snoc [simp]: "path_ok (p @ [i]) \<longleftrightarrow> length p \<le> 2 \<and> set p \<subseteq> {..<512} \<and> i < 512"
  by (auto simp: path_ok_def)

lemma path_ok_prefix: "path_ok (p @ [i]) \<Longrightarrow> path_ok p"
  by (auto simp: path_ok_def)

lemma node_cong:
  assumes "\<And>r j U. path_ok (r @ [j]) \<Longrightarrow> node m R r = Some U \<Longrightarrow> next_table m' U j = next_table m U j"
    and "path_ok q"
  shows "node m' R q = node m R q"
  using assms(2)
proof (induction q rule: rev_induct)
  case Nil
  then show ?case by simp
next
  case (snoc j r)
  then have "node m' R r = node m R r" using path_ok_prefix by blast
  then show ?case using assms(1) [OF snoc.prems] by (simp add: node_snoc split: option.split)
qed

text \<open>Hanging an empty table \<open>F\<close> under the free entry \<open>i\<close> of the table at \<open>p\<close>.\<close>

lemma node_new_table:
  assumes inj: "tree m R" and T: "node m R p = Some T" and p: "path_ok (p @ [i])"
    and absent: "next_table m T i = None"
    and fresh: "\<And>q. path_ok q \<Longrightarrow> node m R q \<noteq> Some F"
    and m': "\<And>U. U \<noteq> T \<Longrightarrow> U \<noteq> F \<Longrightarrow> m' U = m U" "\<And>j. j \<noteq> i \<Longrightarrow> m' T j = m T j"
    and F: "next_table m' T i = Some F" "\<And>j. j < 512 \<Longrightarrow> m' F j = 0"
    and q: "path_ok q"
  shows "node m' R q = (if q = p @ [i] then Some F else node m R q)"
  using q
proof (induction q rule: rev_induct)
  case Nil
  then show ?case by simp
next
  case (snoc j r)
  have r: "path_ok r" using path_ok_prefix [OF snoc.prems] .
  note IH = snoc.IH [OF r]
  show ?case
  proof (cases "r = p @ [i]")
    case True
    have "node m R r = None" using True T absent by (simp add: node_snoc)
    moreover have "next_table m' F j = None" using F(2) snoc.prems by (simp add: next_table_def)
    moreover have "r @ [j] \<noteq> p @ [i]" using True by simp
    ultimately show ?thesis using True IH by (simp only: node_snoc) simp
  next
    case False
    show ?thesis
    proof (cases "node m R r")
      case None
      then have "r \<noteq> p" using T by auto
      then show ?thesis using None IH False by (simp add: node_snoc)
    next
      case (Some U)
      then have UF: "U \<noteq> F" using fresh [OF r] by auto
      have "U = T \<longleftrightarrow> r = p"
        using treeD [OF inj r path_ok_prefix [OF p] Some] T Some by auto
      then have "next_table m' U j = (if r = p \<and> j = i then Some F else next_table m U j)"
        using F(1) m'(1) [of U] m'(2) [of j] UF
        by (cases "r = p"; cases "j = i") (simp_all add: next_table_def)
      then show ?thesis using Some IH False by (simp add: node_snoc)
    qed
  qed
qed

section \<open>The invariant of an address space\<close>

definition owned :: "pmm \<Rightarrow> u64 \<Rightarrow> bool" where
  "owned b T \<longleftrightarrow> (\<exists>n. T = frame_addr n \<and> 0 < n \<and> n < highest_page b \<and> page_used b n)"

definition vm_ok :: "vmm \<Rightarrow> u64 \<Rightarrow> bool" where
  "vm_ok s R \<longleftrightarrow> pmm_ok (vm_pmm s) \<and> highest_page (vm_pmm s) \<le> frame_limit \<and>
     tree (vm_mem s) R \<and>
     (\<forall>p T. path_ok p \<longrightarrow> node (vm_mem s) R p = Some T \<longrightarrow> owned (vm_pmm s) T) \<and>
     (\<forall>p T i. path_ok p \<longrightarrow> length p = 2 \<longrightarrow> node (vm_mem s) R p = Some T \<longrightarrow> i < 512 \<longrightarrow>
        vm_mem s T i AND VMM_PRESENT \<noteq> 0 \<longrightarrow> vm_mem s T i AND VMM_HUGE = 0)"

lemma vm_ok_owned: "vm_ok s R \<Longrightarrow> path_ok p \<Longrightarrow> node (vm_mem s) R p = Some T \<Longrightarrow> owned (vm_pmm s) T"
  by (simp add: vm_ok_def)

lemma vm_ok_huge:
  "vm_ok s R \<Longrightarrow> path_ok p \<Longrightarrow> length p = 2 \<Longrightarrow> node (vm_mem s) R p = Some T \<Longrightarrow> i < 512 \<Longrightarrow>
    vm_mem s T i AND VMM_PRESENT \<noteq> 0 \<Longrightarrow> vm_mem s T i AND VMM_HUGE = 0"
  by (simp add: vm_ok_def)

lemma owned_virt:
  assumes "vm_ok s R" "owned (vm_pmm s) T"
  shows "table_frame s (PHYS_TO_VIRT s T) = T" "PHYS_TO_VIRT s T \<noteq> 0"
proof -
  from assms obtain n where n: "T = frame_addr n" "0 < n" "n < frame_limit"
    by (auto simp: vm_ok_def owned_def)
  then show "table_frame s (PHYS_TO_VIRT s T) = T" "PHYS_TO_VIRT s T \<noteq> 0"
    by (simp_all add: table_frame_virt)
qed

lemma PmmPinPage_bitmap [simp]:
  "bitmap (PmmPinPage a b) = bitmap b" "highest_page (PmmPinPage a b) = highest_page b"
  by (simp_all add: PmmPinPage_def Let_def)

lemma PmmPinPage_owned [simp]: "owned (PmmPinPage a b) T = owned b T" "pmm_ok (PmmPinPage a b) = pmm_ok b"
  by (simp_all add: owned_def page_used_def pmm_ok_def)

lemma vm_ok_pin [simp]: "vm_ok (vm_pin a s) R = vm_ok s R"
  by (simp add: vm_ok_def vm_pin_def)

lemma vm_pin_simps [simp]:
  "vm_mem (vm_pin a s) = vm_mem s" "g_vmm_active (vm_pin a s) = g_vmm_active s"
  "g_kernel_pml4 (vm_pin a s) = g_kernel_pml4 s" "PHYS_TO_VIRT (vm_pin a s) = PHYS_TO_VIRT s"
  "table_frame (vm_pin a s) = table_frame s"
  by (simp_all add: vm_pin_def PHYS_TO_VIRT_def table_frame_def fun_eq_iff)

text \<open>What the page allocator gives a table: a frame that no table of the tree uses.\<close>

lemma vm_alloc_fresh:
  assumes ok: "vm_ok s R" and F: "fst (vm_alloc s) = F" "F \<noteq> 0"
  defines "b \<equiv> vm_pmm (snd (vm_alloc s))"
  shows "owned b F" and "\<not> owned (vm_pmm s) F" and "\<And>T. owned (vm_pmm s) T \<Longrightarrow> owned b T"
    and "pmm_ok b" and "highest_page b = highest_page (vm_pmm s)"
    and "snd (vm_alloc s) = s\<lparr>vm_pmm := b\<rparr>"
proof -
  have pok: "pmm_ok (vm_pmm s)" and lim: "highest_page (vm_pmm s) \<le> frame_limit"
    using ok by (auto simp: vm_ok_def)
  have b: "b = snd (PmmAllocPage (vm_pmm s))" and fst: "fst (PmmAllocPage (vm_pmm s)) = F"
    using F(1) by (simp_all add: b_def vm_alloc_def case_prod_unfold Let_def)
  have res: "alloc_result 1 (vm_pmm s) F b" using PmmAllocPage_result [OF pok] by (simp add: b fst)
  note r = alloc_result_pages [OF pok res F(2)]
  have Fn: "F = frame_addr (page_no F)" using r(3) by (simp add: frame_addr_def)
  have small: "page_no F < frame_limit" "page_no F < page_limit" using r(2) lim by simp_all
  have inj: "frame_addr n = F \<Longrightarrow> n < frame_limit \<Longrightarrow> n = page_no F" for n
    using Fn unat_frame [of n] unat_frame [OF small(1)] by simp
  have "page_used b (page_no F)" "\<not> page_used (vm_pmm s) (page_no F)"
    using r(4) [where j = "page_no F"] r(5) [where j = "page_no F"] small by simp_all
  then show "owned b F" "\<not> owned (vm_pmm s) F"
    using r(1,2,6) Fn inj lim by (auto simp: owned_def)
  show "owned b T" if "owned (vm_pmm s) T" for T
  proof -
    from that obtain n where n: "T = frame_addr n" "0 < n" "n < highest_page (vm_pmm s)" "page_used (vm_pmm s) n"
      by (auto simp: owned_def)
    then have "page_used b n" using r(5) [where j = n] lim by simp
    then show ?thesis using n r(6) by (auto simp: owned_def)
  qed
  show "pmm_ok b" by (rule alloc_result_ok [OF pok res])
  show "highest_page b = highest_page (vm_pmm s)" by (rule r(6))
  show "snd (vm_alloc s) = s\<lparr>vm_pmm := b\<rparr>"
    by (simp add: vm_alloc_def b case_prod_unfold Let_def)
qed


section \<open>One level of the walk\<close>

lemma table_frame_update [simp]:
  "table_frame (s\<lparr>vm_mem := m\<rparr>) = table_frame s" "table_frame (s\<lparr>vm_pmm := b\<rparr>) = table_frame s"
  "PHYS_TO_VIRT (s\<lparr>vm_mem := m\<rparr>) = PHYS_TO_VIRT s" "PHYS_TO_VIRT (s\<lparr>vm_pmm := b\<rparr>) = PHYS_TO_VIRT s"
  by (simp_all add: table_frame_def PHYS_TO_VIRT_def fun_eq_iff)

text \<open>
  \<open>grown s s' R\<close>: the tree has the tables it had and maybe more, and every last-level entry
  reads as before.
\<close>

definition grown :: "vmm \<Rightarrow> vmm \<Rightarrow> u64 \<Rightarrow> bool" where
  "grown s s' R \<longleftrightarrow> vm_ok s' R \<and> g_vmm_active s' = g_vmm_active s \<and> g_kernel_pml4 s' = g_kernel_pml4 s \<and>
     (\<forall>q d. path_ok q \<longrightarrow> length q = 3 \<longrightarrow> d < 512 \<longrightarrow> leaf (vm_mem s') R q d = leaf (vm_mem s) R q d) \<and>
     highest_page (vm_pmm s') = highest_page (vm_pmm s) \<and>
     (\<forall>T. owned (vm_pmm s) T \<longrightarrow> owned (vm_pmm s') T) \<and>
     (\<forall>q U. path_ok q \<longrightarrow> node (vm_mem s) R q = Some U \<longrightarrow> node (vm_mem s') R q = Some U)"

lemma grown_refl: "vm_ok s R \<Longrightarrow> grown s s R"
  by (simp add: grown_def)

lemma grown_trans: "grown s t R \<Longrightarrow> grown t u R \<Longrightarrow> grown s u R"
  by (simp add: grown_def)

lemma grown_pin: "grown s t R \<Longrightarrow> grown s (vm_pin a t) R"
  unfolding grown_def using vm_ok_pin [of a t R] by (simp add: vm_pin_def)

lemma grown_virt:
  assumes "grown s t R"
  shows "table_frame t = table_frame s" "PHYS_TO_VIRT t = PHYS_TO_VIRT s"
  using assms by (simp_all add: grown_def table_frame_def PHYS_TO_VIRT_def fun_eq_iff)

text \<open>Setting the user bit of a present entry.\<close>

lemma grown_user:
  assumes ok: "vm_ok s R" and T: "node (vm_mem s) R p = Some T" "path_ok (p @ [i])" "table_frame s cur = T"
    and pres: "vm_mem s T i AND VMM_PRESENT \<noteq> 0"
  shows "grown s (set_entry cur i (vm_mem s T i OR VMM_USER) s) R"
proof -
  let ?m = "vm_mem s"
  define m' where "m' = (vm_mem s)(T := (vm_mem s T)(i := vm_mem s T i OR VMM_USER))"
  have nxt: "next_table m' U j = next_table ?m U j" for U j
    by (simp add: m'_def next_table_def user_entry)
  have nodes: "node m' R q = node ?m R q" for q
    by (induction q rule: rev_induct) (simp_all add: node_snoc nxt split: option.split)
  have ent: "m' U j AND VMM_HUGE = ?m U j AND VMM_HUGE" "m' U j AND VMM_PRESENT = ?m U j AND VMM_PRESENT" for U j
    by (simp_all add: m'_def user_entry)
  have "leaf m' R q d = leaf ?m R q d" if "path_ok q" "length q = 3" for q d
  proof (cases "node ?m R q")
    case (Some U)
    have "U \<noteq> T"
    proof
      assume "U = T"
      then have "q = p" using ok T(1) Some that(1) path_ok_prefix [OF T(2)] by (auto simp: vm_ok_def tree_def)
      then show False using that(2) T(2) by simp
    qed
    then show ?thesis using Some nodes by (simp add: leaf_def m'_def)
  qed (simp add: leaf_def nodes)
  moreover have "vm_ok (s\<lparr>vm_mem := m'\<rparr>) R"
    using ok unfolding vm_ok_def tree_def by (simp add: nodes ent)
  ultimately show ?thesis using T(3) by (simp add: grown_def set_entry_def nodes m'_def [symmetric])
qed

text \<open>Allocating the table below an entry that is not present.\<close>

lemma grown_new_table:
  assumes ok: "vm_ok s R" and T: "node (vm_mem s) R p = Some T" "path_ok (p @ [i])" "table_frame s cur = T"
    and absent: "vm_mem s T i AND VMM_PRESENT = 0"
    and F: "fst (vm_alloc s) = F" "F \<noteq> 0"
    and f: "f \<in> {VMM_PRESENT OR VMM_WRITABLE, VMM_PRESENT OR VMM_WRITABLE OR VMM_USER}"
  defines "s' \<equiv> set_entry cur i (F OR f) (clear_table (PHYS_TO_VIRT s F) (snd (vm_alloc s)))"
  shows "grown s s' R" and "node (vm_mem s') R (p @ [i]) = Some F"
    and "table_frame s (PHYS_TO_VIRT s F) = F" "PHYS_TO_VIRT s F \<noteq> 0"
proof -
  define b where "b = vm_pmm (snd (vm_alloc s))"
  note a = vm_alloc_fresh [OF ok F, folded b_def]
  obtain n where n: "F = frame_addr n" "0 < n" "n < frame_limit"
    using a(1,5) ok by (auto simp: owned_def vm_ok_def)
  have virt: "table_frame s (PHYS_TO_VIRT s F) = F" "PHYS_TO_VIRT s F \<noteq> 0"
    using table_frame_virt [OF n(3)] n by simp_all
  then show "table_frame s (PHYS_TO_VIRT s F) = F" "PHYS_TO_VIRT s F \<noteq> 0" by auto
  have fresh: "path_ok q \<Longrightarrow> node (vm_mem s) R q \<noteq> Some F" for q
    using vm_ok_owned [OF ok] a(2) by blast
  have TF: "T \<noteq> F" using fresh [OF path_ok_prefix [OF T(2)]] T(1) by auto
  define z where "z = (\<lambda>j. if j < 512 then 0 else vm_mem s F j)"
  define m' where "m' = (vm_mem s)(F := z, T := (vm_mem s T)(i := F OR f))"
  have s': "s' = s\<lparr>vm_pmm := b, vm_mem := m'\<rparr>"
    using virt T(3) TF
    by (simp add: s'_def a(6) clear_table_def set_entry_def m'_def z_def cong: if_cong)
  have ent: "(F OR f) AND PAGE_MASK = F" "(F OR f) AND VMM_PRESENT \<noteq> 0" "(F OR f) AND VMM_HUGE = 0"
    using frame_entry [OF n(3) f] n(1) by simp_all
  have inj: "tree (vm_mem s) R" using ok by (simp add: vm_ok_def)
  have nodes: "node m' R q = (if q = p @ [i] then Some F else node (vm_mem s) R q)" if "path_ok q" for q
    by (rule node_new_table [OF inj T(1,2) _ fresh _ _ _ _ that])
      (use TF ent absent in \<open>auto simp: m'_def z_def next_table_def\<close>)
  have old: "node (vm_mem s) R (p @ [i]) = None"
    using T(1) absent by (simp add: node_snoc next_table_def)
  show "node (vm_mem s') R (p @ [i]) = Some F" using nodes [OF T(2)] by (simp add: s')
  have "tree m' R"
    unfolding tree_def
  proof (intro allI impI)
    fix q r U
    assume qr: "path_ok q" "path_ok r" "node m' R q = Some U" "node m' R r = Some U"
    then show "q = r"
      using nodes [OF qr(1)] nodes [OF qr(2)] fresh treeD [OF inj qr(1,2)]
      by (cases "q = p @ [i]"; cases "r = p @ [i]") auto
  qed
  moreover have "owned b U" if "path_ok q" "node m' R q = Some U" for q U
    using nodes [OF that(1)] that a(1) a(3) [OF vm_ok_owned [OF ok that(1)]] by (auto split: if_splits)
  moreover have "m' U j AND VMM_HUGE = 0"
    if q: "path_ok q" "length q = 2" "node m' R q = Some U" "j < 512" "m' U j AND VMM_PRESENT \<noteq> 0" for q U j
  proof (cases "q = p @ [i]")
    case True
    then have "U = F" using nodes [OF q(1)] q(3) by simp
    then show ?thesis using q(4) TF by (simp add: m'_def z_def)
  next
    case False
    then have "node (vm_mem s) R q = Some U" using nodes [OF q(1)] q(3) by simp
    moreover from this have "U \<noteq> F" using fresh [OF q(1)] by auto
    ultimately show ?thesis using ok q ent by (auto simp: vm_ok_def m'_def)
  qed
  ultimately have ok': "vm_ok s' R"
    using ok a(4,5) by (auto simp: vm_ok_def s')
  have "leaf m' R q d = leaf (vm_mem s) R q d" if q: "path_ok q" "length q = 3" "d < 512" for q d
  proof (cases "q = p @ [i]")
    case True
    then show ?thesis using nodes [OF q(1)] old q(3) TF by (simp add: leaf_def m'_def z_def)
  next
    case False
    have "node (vm_mem s) R q = Some U \<Longrightarrow> U \<noteq> F \<and> U \<noteq> T" for U
      using fresh [OF q(1)] treeD [OF inj q(1) path_ok_prefix [OF T(2)]] T q(2) by auto
    then show ?thesis using nodes [OF q(1)] False by (auto simp: leaf_def m'_def split: option.split)
  qed
  moreover have "path_ok q \<Longrightarrow> node (vm_mem s) R q = Some U \<Longrightarrow> node m' R q = Some U" for q U
    using nodes old by auto
  ultimately show "grown s s' R" using ok' a(3,5) by (simp add: grown_def s')
qed


definition exhausted :: "pmm \<Rightarrow> bool" where
  "exhausted b \<longleftrightarrow> (\<forall>j<highest_page b. page_used b j)"

lemma exhausted_owned:
  assumes "vm_ok s R"
  shows "exhausted (vm_pmm s) \<longleftrightarrow> (\<forall>j. 0 < j \<longrightarrow> j < highest_page (vm_pmm s) \<longrightarrow> owned (vm_pmm s) (frame_addr j))"
proof -
  have lim: "highest_page (vm_pmm s) \<le> frame_limit" and zero: "page_used (vm_pmm s) 0"
    using assms by (auto simp: vm_ok_def pmm_ok_def)
  have "owned (vm_pmm s) (frame_addr j) \<longleftrightarrow> page_used (vm_pmm s) j" if "0 < j" "j < highest_page (vm_pmm s)" for j
  proof
    assume "owned (vm_pmm s) (frame_addr j)"
    then obtain n where n: "frame_addr j = frame_addr n" "n < highest_page (vm_pmm s)" "page_used (vm_pmm s) n"
      by (auto simp: owned_def)
    have "j < frame_limit" "n < frame_limit"
      using n(2) that(2) lim by (auto intro: less_le_trans)
    then have "j * 4096 = n * 4096"
      using arg_cong [OF n(1), of unat] by (simp only: unat_frame)
    then show "page_used (vm_pmm s) j" using n(3) by simp
  qed (use that in \<open>auto simp: owned_def\<close>)
  then show ?thesis using zero by (auto simp: exhausted_def) (metis gr0I)
qed

lemma grown_exhausted: "vm_ok s R \<Longrightarrow> grown s t R \<Longrightarrow> exhausted (vm_pmm s) \<Longrightarrow> exhausted (vm_pmm t)"
  using exhausted_owned [of s R] exhausted_owned [of t R] by (simp add: grown_def)

lemma vm_alloc_none:
  assumes "vm_ok s R" "fst (vm_alloc s) = 0"
  shows "snd (vm_alloc s) = s" "exhausted (vm_pmm s)"
  using PmmAllocPage_None [of "vm_pmm s"] assms
  by (simp_all add: vm_ok_def vm_alloc_def case_prod_unfold Let_def exhausted_def)

lemma GetNextLevel_grown:
  fixes flags :: u64 and pin :: bool
  assumes ok: "vm_ok s R" and T: "node (vm_mem s) R p = Some T" "path_ok (p @ [i])" "table_frame s cur = T"
  defines "r \<equiv> GetNextLevel cur i flags pin s"
  shows "grown s (snd r) R \<and>
    (fst r = 0 \<longrightarrow> exhausted (vm_pmm (snd r))) \<and>
    (fst r \<noteq> 0 \<longrightarrow> node (vm_mem (snd r)) R (p @ [i]) = Some (table_frame s (fst r)))"
proof (cases "vm_mem s T i AND VMM_PRESENT \<noteq> 0")
  case True
  let ?U = "vm_mem s T i AND PAGE_MASK"
  define s' where "s' = (if flags AND VMM_USER \<noteq> 0 then set_entry cur i (vm_mem s T i OR VMM_USER) s else s)"
  have g: "grown s s' R"
    using grown_user [OF ok T True] grown_refl [OF ok] by (simp add: s'_def)
  have U: "node (vm_mem s) R (p @ [i]) = Some ?U" using T(1) True by (simp add: node_snoc next_table_def)
  have "get_entry s' cur i AND PAGE_MASK = ?U"
    using T(3) by (simp add: s'_def get_entry_def set_entry_def user_entry)
  moreover have "r = (PHYS_TO_VIRT s' (get_entry s' cur i AND PAGE_MASK), s')"
    using True T(3) by (simp add: r_def GetNextLevel_def get_entry_def s'_def Let_def)
  ultimately have "r = (PHYS_TO_VIRT s ?U, s')" using grown_virt [OF g] by simp
  moreover have "node (vm_mem s') R (p @ [i]) = Some ?U" using g U T(2) unfolding grown_def by blast
  ultimately show ?thesis
    using g owned_virt [OF ok vm_ok_owned [OF ok T(2) U]] by simp
next
  case False
  show ?thesis
  proof (cases "fst (vm_alloc s) = 0")
    case True
    then have "r = (0, s)"
      using False T(3) vm_alloc_none [OF ok True]
      by (simp add: r_def GetNextLevel_def get_entry_def case_prod_unfold Let_def)
    then show ?thesis using vm_alloc_none [OF ok True] grown_refl [OF ok] by simp
  next
    case F: False
    define f where "f = (if flags AND VMM_USER \<noteq> 0 then VMM_PRESENT OR VMM_WRITABLE OR VMM_USER
      else VMM_PRESENT OR VMM_WRITABLE)"
    define F where "F = fst (vm_alloc s)"
    define s' where "s' = set_entry cur i (F OR f) (clear_table (PHYS_TO_VIRT s F) (snd (vm_alloc s)))"
    have f: "f \<in> {VMM_PRESENT OR VMM_WRITABLE, VMM_PRESENT OR VMM_WRITABLE OR VMM_USER}"
      by (simp add: f_def)
    have absent: "vm_mem s T i AND VMM_PRESENT = 0" using False by simp
    note n = grown_new_table [OF ok T absent F_def [symmetric] _ f, folded s'_def]
    have nz: "F \<noteq> 0" using F by (simp add: F_def)
    define s1 where "s1 = snd (vm_alloc s)"
    have a: "vm_alloc s = (F, s1)" by (simp add: F_def s1_def)
    have "PHYS_TO_VIRT s1 = PHYS_TO_VIRT s"
      unfolding s1_def by (subst vm_alloc_fresh(6) [OF ok F_def [symmetric] nz]) simp
    moreover have "get_entry s cur i AND VMM_PRESENT = 0" using absent T(3) by (simp add: get_entry_def)
    ultimately have "r = (PHYS_TO_VIRT s F, if pin then vm_pin F s' else s')"
      unfolding r_def GetNextLevel_def s'_def f_def s1_def [symmetric] Let_def by (simp add: a nz or.assoc)
    then show ?thesis using n [OF nz] grown_pin [of s s' R F] by simp
  qed
qed

section \<open>The leaf entry\<close>

lemma write_leaf:
  fixes d :: nat and e :: u64
  assumes ok: "vm_ok s R" and T: "node (vm_mem s) R p = Some T" "path_ok p" "length p = 3" "table_frame s cur = T"
  defines "s' \<equiv> set_entry cur d e s"
  shows "vm_ok s' R"
    and "path_ok q \<Longrightarrow> length q = 3 \<Longrightarrow>
      leaf (vm_mem s') R q c = (if q = p \<and> c = d then e else leaf (vm_mem s) R q c)"
    and "g_vmm_active s' = g_vmm_active s" "vm_pmm s' = vm_pmm s"
proof -
  define m' where "m' = (vm_mem s)(T := (vm_mem s T)(d := e))"
  have s': "s' = s\<lparr>vm_mem := m'\<rparr>" using T(4) by (simp add: s'_def set_entry_def m'_def)
  have inj: "tree (vm_mem s) R" using ok by (simp add: vm_ok_def)
  have other: "U \<noteq> T" if "path_ok r" "length r \<le> 2" "node (vm_mem s) R r = Some U" for r U
    using treeD [OF inj that(1) T(2) that(3)] T(1,3) that(2) by auto
  have nodes: "node m' R r = node (vm_mem s) R r" if "path_ok r" for r
    by (rule node_cong [OF _ that])
      (use other path_ok_prefix in \<open>auto simp: next_table_def m'_def\<close>)
  have "m' U j = vm_mem s U j" if "path_ok r" "length r = 2" "node (vm_mem s) R r = Some U" for r U j
    using other [OF that(1) _ that(3)] that(2) by (simp add: m'_def)
  then show "vm_ok s' R"
    using ok unfolding vm_ok_def tree_def by (simp add: s' nodes)
  show "leaf (vm_mem s') R q c = (if q = p \<and> c = d then e else leaf (vm_mem s) R q c)"
    if q: "path_ok q" "length q = 3"
  proof (cases "node (vm_mem s) R q")
    case None
    then show ?thesis using nodes [OF q(1)] T(1) by (auto simp: leaf_def s')
  next
    case (Some U)
    then have "U = T \<longleftrightarrow> q = p" using treeD [OF inj q(1) T(2) Some] T(1) by auto
    then show ?thesis using nodes [OF q(1)] Some by (auto simp: leaf_def s' m'_def)
  qed
  show "g_vmm_active s' = g_vmm_active s" "vm_pmm s' = vm_pmm s" by (simp_all add: s')
qed

section \<open>The page table as a map\<close>

definition page_path :: "u64 \<Rightarrow> nat list" where
  "page_path v = [PML4E_INDEX v, PDPTE_INDEX v, PDE_INDEX v]"

lemma page_path_ok [simp]: "path_ok (page_path v)" "length (page_path v) = 3"
  by (simp_all add: page_path_def path_ok_def)

definition page_table :: "vmm \<Rightarrow> u64 \<Rightarrow> nat list \<times> nat \<Rightarrow> u64" where
  "page_table s R =
    (\<lambda>(q, d). if path_ok q \<and> length q = 3 \<and> d < 512 then leaf (vm_mem s) R q d else 0)"

definition page_slot :: "u64 \<Rightarrow> nat list \<times> nat" where
  "page_slot v = (page_path v, PTE_INDEX v)"

lemma grown_page_table: "grown s s' R \<Longrightarrow> page_table s' R = page_table s R"
  by (rule ext) (auto simp: grown_def page_table_def)

lemma page_table_write:
  assumes "vm_ok s R" "node (vm_mem s) R (page_path v) = Some T" "table_frame s cur = T"
  shows "page_table (set_entry cur (PTE_INDEX v) e s) R = (page_table s R)(page_slot v := e)"
proof (rule ext, clarify)
  fix q d
  show "page_table (set_entry cur (PTE_INDEX v) e s) R (q, d) = ((page_table s R)(page_slot v := e)) (q, d)"
    using write_leaf(2) [OF assms(1,2) page_path_ok assms(3), of q "PTE_INDEX v" e d]
    by (auto simp: page_table_def page_slot_def)
qed

lemma Invlpg_simps [simp]: "vm_ok (Invlpg v s) R = vm_ok s R" "page_table (Invlpg v s) = page_table s"
  "table_frame (Invlpg v s) = table_frame s" "vm_pmm (Invlpg v s) = vm_pmm s"
  "g_vmm_active (Invlpg v s) = g_vmm_active s"
  by (simp_all add: Invlpg_def vm_ok_def page_table_def table_frame_def fun_eq_iff)


section \<open>The operations on the map\<close>

lemma VmmMapPage_map:
  fixes virt phys flags :: u64
  assumes ok: "vm_ok s R" and R: "table_frame s pml4 = R"
  defines "s' \<equiv> VmmMapPage pml4 virt phys flags s"
  shows "vm_ok s' R \<and> table_frame s' = table_frame s \<and>
    (exhausted (vm_pmm s) \<longrightarrow> exhausted (vm_pmm s')) \<and>
    (page_table s' R = (page_table s R)(page_slot virt := (phys AND PAGE_MASK) OR flags) \<or>
     exhausted (vm_pmm s') \<and> page_table s' R = page_table s R)"
proof -
  define pin where "pin = (pml4 = g_kernel_pml4 s)"
  define r1 where "r1 = GetNextLevel pml4 (PML4E_INDEX virt) flags pin s"
  define r2 where "r2 = GetNextLevel (fst r1) (PDPTE_INDEX virt) flags pin (snd r1)"
  define r3 where "r3 = GetNextLevel (fst r2) (PDE_INDEX virt) flags pin (snd r2)"
  have s': "s' = (if fst r1 = 0 then snd r1 else if fst r2 = 0 then snd r2 else if fst r3 = 0 then snd r3
      else Invlpg virt (set_entry (fst r3) (PTE_INDEX virt) ((phys AND PAGE_MASK) OR flags) (snd r3)))"
    by (simp add: s'_def VmmMapPage_def pin_def [symmetric] r3_def r2_def r1_def case_prod_unfold Let_def)
  have same: "vm_ok t R \<and> table_frame t = table_frame s \<and> page_table t R = page_table s R \<and>
      (exhausted (vm_pmm s) \<longrightarrow> exhausted (vm_pmm t))" if "grown s t R" for t
    using that grown_page_table [OF that] grown_virt [OF that] grown_exhausted [OF ok that] by (simp add: grown_def)
  have g1: "grown s (snd r1) R" "fst r1 = 0 \<Longrightarrow> exhausted (vm_pmm (snd r1))"
    and n1: "fst r1 \<noteq> 0 \<Longrightarrow> node (vm_mem (snd r1)) R [PML4E_INDEX virt] = Some (table_frame s (fst r1))"
    using GetNextLevel_grown [OF ok, of "[]" R "PML4E_INDEX virt" pml4 flags pin] R
    by (auto simp: r1_def path_ok_def)
  show ?thesis
  proof (cases "fst r1 = 0")
    case True
    then show ?thesis using same [OF g1(1)] g1(2) by (simp add: s')
  next
    case F1: False
    have g2: "grown (snd r1) (snd r2) R" "fst r2 = 0 \<Longrightarrow> exhausted (vm_pmm (snd r2))"
      and n2: "fst r2 \<noteq> 0 \<Longrightarrow> node (vm_mem (snd r2)) R [PML4E_INDEX virt, PDPTE_INDEX virt] = Some (table_frame s (fst r2))"
      using GetNextLevel_grown [of "snd r1" R, OF _ n1 [OF F1], of "PDPTE_INDEX virt" "fst r1" flags pin]
        same [OF g1(1)] by (auto simp: r2_def path_ok_def)
    note g12 = grown_trans [OF g1(1) g2(1)]
    show ?thesis
    proof (cases "fst r2 = 0")
      case True
      then show ?thesis using F1 same [OF g12] g2(2) by (simp add: s')
    next
      case F2: False
      have g3: "grown (snd r2) (snd r3) R" "fst r3 = 0 \<Longrightarrow> exhausted (vm_pmm (snd r3))"
        and n3: "fst r3 \<noteq> 0 \<Longrightarrow> node (vm_mem (snd r3)) R (page_path virt) = Some (table_frame s (fst r3))"
        using GetNextLevel_grown [of "snd r2" R, OF _ n2 [OF F2], of "PDE_INDEX virt" "fst r2" flags pin]
          same [OF g12] by (auto simp: r3_def path_ok_def page_path_def)
      note d = same [OF grown_trans [OF g12 g3(1)]]
      show ?thesis
      proof (cases "fst r3 = 0")
        case True
        then show ?thesis using F1 F2 d g3(2) by (simp add: s')
      next
        case F3: False
        have ok3: "vm_ok (snd r3) R" and tf: "table_frame (snd r3) (fst r3) = table_frame s (fst r3)" using d by simp_all
        have "table_frame (set_entry c j e t) = table_frame t" for c j e t by (simp add: set_entry_def)
        then show ?thesis
          using F1 F2 F3 d page_table_write [OF ok3 n3 [OF F3] tf]
            write_leaf(1,4) [OF ok3 n3 [OF F3] page_path_ok tf]
          by (simp add: s')
      qed
    qed
  qed
qed

text \<open>The walk of \<open>VmmUnmapPage\<close> and \<open>VmmGetPhysical\<close> reaches the table at the page's path.\<close>

lemma walk_level:
  assumes ok: "vm_ok s R" and T: "node (vm_mem s) R p = Some T" "path_ok (p @ [i])" "table_frame s cur = T"
    and pres: "get_entry s cur i AND VMM_PRESENT \<noteq> 0"
  defines "U \<equiv> PHYS_TO_VIRT s (get_entry s cur i AND PAGE_MASK)"
  shows "node (vm_mem s) R (p @ [i]) = Some (table_frame s U)"
proof -
  have U: "node (vm_mem s) R (p @ [i]) = Some (vm_mem s T i AND PAGE_MASK)"
    using T(1,3) pres by (simp add: node_snoc next_table_def get_entry_def)
  then show ?thesis
    using owned_virt(1) [OF ok vm_ok_owned [OF ok T(2) U]] T(3) by (simp add: U_def get_entry_def)
qed

definition walk :: "vmm \<Rightarrow> u64 \<Rightarrow> u64 \<Rightarrow> u64 option" where
  "walk s pml4 virt =
    (if get_entry s pml4 (PML4E_INDEX virt) AND VMM_PRESENT = 0 then None
     else let pdpt = PHYS_TO_VIRT s (get_entry s pml4 (PML4E_INDEX virt) AND PAGE_MASK)
     in if get_entry s pdpt (PDPTE_INDEX virt) AND VMM_PRESENT = 0 then None
     else let pd = PHYS_TO_VIRT s (get_entry s pdpt (PDPTE_INDEX virt) AND PAGE_MASK)
     in if get_entry s pd (PDE_INDEX virt) AND VMM_PRESENT = 0 then None
     else Some (PHYS_TO_VIRT s (get_entry s pd (PDE_INDEX virt) AND PAGE_MASK)))"

lemma walk_node:
  assumes ok: "vm_ok s R" and R: "table_frame s pml4 = R"
  shows "case walk s pml4 virt of
      None \<Rightarrow> node (vm_mem s) R (page_path virt) = None
    | Some pt \<Rightarrow> node (vm_mem s) R (page_path virt) = Some (table_frame s pt)"
    and "VmmGetPhysical pml4 virt s = (case walk s pml4 virt of None \<Rightarrow> 0 | Some pt \<Rightarrow>
      (if get_entry s pt (PTE_INDEX virt) AND VMM_PRESENT = 0 then 0
       else (get_entry s pt (PTE_INDEX virt) AND PAGE_MASK) + (virt AND 0xFFF)))"
    and "VmmUnmapPage pml4 virt s = (case walk s pml4 virt of None \<Rightarrow> (0, s) | Some pt \<Rightarrow>
      (if get_entry s pt (PTE_INDEX virt) AND VMM_PRESENT = 0 then (0, s)
       else (get_entry s pt (PTE_INDEX virt) AND PAGE_MASK, Invlpg virt (set_entry pt (PTE_INDEX virt) 0 s))))"
proof -
  define e1 where "e1 = get_entry s pml4 (PML4E_INDEX virt)"
  define t1 where "t1 = PHYS_TO_VIRT s (e1 AND PAGE_MASK)"
  define e2 where "e2 = get_entry s t1 (PDPTE_INDEX virt)"
  define t2 where "t2 = PHYS_TO_VIRT s (e2 AND PAGE_MASK)"
  define e3 where "e3 = get_entry s t2 (PDE_INDEX virt)"
  have n1: "node (vm_mem s) R [PML4E_INDEX virt] =
      (if e1 AND VMM_PRESENT = 0 then None else Some (table_frame s t1))"
    using walk_level [OF ok, of "[]" R "PML4E_INDEX virt" pml4] R
    by (auto simp: e1_def t1_def get_entry_def next_table_def path_ok_def split: option.splits)
  have n2: "node (vm_mem s) R [PML4E_INDEX virt, PDPTE_INDEX virt] =
      (if e2 AND VMM_PRESENT = 0 then None else Some (table_frame s t2))" if "e1 AND VMM_PRESENT \<noteq> 0"
    using walk_level [OF ok, of "[PML4E_INDEX virt]" "table_frame s t1" "PDPTE_INDEX virt" t1] n1 that
      node_snoc [of "vm_mem s" R "[PML4E_INDEX virt]" "PDPTE_INDEX virt"]
    by (auto simp: e2_def t2_def get_entry_def next_table_def path_ok_def simp del: node.simps)
  have n3: "node (vm_mem s) R (page_path virt) =
      (if e3 AND VMM_PRESENT = 0 then None else Some (table_frame s (PHYS_TO_VIRT s (e3 AND PAGE_MASK))))"
    if "e1 AND VMM_PRESENT \<noteq> 0" "e2 AND VMM_PRESENT \<noteq> 0"
    using walk_level [OF ok, of "[PML4E_INDEX virt, PDPTE_INDEX virt]" "table_frame s t2" "PDE_INDEX virt" t2]
      n2 that node_snoc [of "vm_mem s" R "[PML4E_INDEX virt, PDPTE_INDEX virt]" "PDE_INDEX virt"]
    by (auto simp: e3_def get_entry_def next_table_def path_ok_def page_path_def simp del: node.simps)
  have none: "node (vm_mem s) R (page_path virt) = None"
    if "e1 AND VMM_PRESENT = 0 \<or> e2 AND VMM_PRESENT = 0"
    using that n1 n2 node_append [of "vm_mem s" R "[PML4E_INDEX virt]" "[PDPTE_INDEX virt, PDE_INDEX virt]"]
      node_append [of "vm_mem s" R "[PML4E_INDEX virt, PDPTE_INDEX virt]" "[PDE_INDEX virt]"]
    by (cases "e1 AND VMM_PRESENT = 0") (simp_all add: page_path_def del: node.simps)
  show "case walk s pml4 virt of
      None \<Rightarrow> node (vm_mem s) R (page_path virt) = None
    | Some pt \<Rightarrow> node (vm_mem s) R (page_path virt) = Some (table_frame s pt)"
    using none n3 by (simp add: walk_def Let_def e1_def [symmetric] t1_def [symmetric] e2_def [symmetric]
      t2_def [symmetric] e3_def [symmetric])
  have huge: "e3 AND VMM_HUGE = 0"
    if "e1 AND VMM_PRESENT \<noteq> 0" "e2 AND VMM_PRESENT \<noteq> 0" "e3 AND VMM_PRESENT \<noteq> 0"
    using vm_ok_huge [OF ok, of "[PML4E_INDEX virt, PDPTE_INDEX virt]" "table_frame s t2" "PDE_INDEX virt"]
      n2 that by (simp add: path_ok_def e3_def get_entry_def del: node.simps)
  then show "VmmGetPhysical pml4 virt s = (case walk s pml4 virt of None \<Rightarrow> 0 | Some pt \<Rightarrow>
      (if get_entry s pt (PTE_INDEX virt) AND VMM_PRESENT = 0 then 0
       else (get_entry s pt (PTE_INDEX virt) AND PAGE_MASK) + (virt AND 0xFFF)))"
    and "VmmUnmapPage pml4 virt s = (case walk s pml4 virt of None \<Rightarrow> (0, s) | Some pt \<Rightarrow>
      (if get_entry s pt (PTE_INDEX virt) AND VMM_PRESENT = 0 then (0, s)
       else (get_entry s pt (PTE_INDEX virt) AND PAGE_MASK, Invlpg virt (set_entry pt (PTE_INDEX virt) 0 s))))"
    by (simp_all add: VmmGetPhysical_def VmmUnmapPage_def walk_def Let_def e1_def [symmetric] t1_def [symmetric]
      e2_def [symmetric] t2_def [symmetric] e3_def [symmetric])
qed


lemma page_table_slot:
  "page_table s R (page_slot v) = (case node (vm_mem s) R (page_path v) of None \<Rightarrow> 0 | Some T \<Rightarrow> vm_mem s T (PTE_INDEX v))"
  by (simp add: page_table_def page_slot_def leaf_def)

lemma VmmGetPhysical_map:
  assumes "vm_ok s (table_frame s pml4)"
  shows "VmmGetPhysical pml4 virt s =
    (let e = page_table s (table_frame s pml4) (page_slot virt)
     in if e AND VMM_PRESENT = 0 then 0 else (e AND PAGE_MASK) + (virt AND 0xFFF))"
  using walk_node(1) [OF assms refl, of virt]
  by (simp add: walk_node(2) [OF assms refl] page_table_slot get_entry_def Let_def split: option.splits)

lemma VmmUnmapPage_map:
  fixes virt :: u64
  assumes ok: "vm_ok s R" and R: "table_frame s pml4 = R"
  defines "e \<equiv> page_table s R (page_slot virt)" and "r \<equiv> VmmUnmapPage pml4 virt s"
  shows "fst r = (if e AND VMM_PRESENT = 0 then 0 else e AND PAGE_MASK) \<and> vm_ok (snd r) R \<and>
    table_frame (snd r) = table_frame s \<and> vm_pmm (snd r) = vm_pmm s \<and>
    page_table (snd r) R = (if e AND VMM_PRESENT = 0 then page_table s R else (page_table s R)(page_slot virt := 0))"
proof (cases "walk s pml4 virt")
  case None
  then show ?thesis
    using walk_node(1,3) [OF ok R, of virt] ok by (simp add: e_def r_def page_table_slot)
next
  case (Some pt)
  then have n: "node (vm_mem s) R (page_path virt) = Some (table_frame s pt)"
    using walk_node(1) [OF ok R, of virt] by simp
  then have e: "get_entry s pt (PTE_INDEX virt) = e"
    by (simp add: e_def page_table_slot get_entry_def)
  have "table_frame (set_entry c j x s) = table_frame s" for c j x by (simp add: set_entry_def)
  then show ?thesis
    using Some walk_node(3) [OF ok R, of virt] ok write_leaf(1,4) [OF ok n page_path_ok refl]
      page_table_write [OF ok n refl]
    by (simp add: r_def e)
qed

section \<open>Virtual page numbers\<close>

definition vpn :: "u64 \<Rightarrow> nat" where
  "vpn v = unat v div 4096 mod 2 ^ 36"

lemma index_div: "unat (drop_bit n (v :: u64) AND 0x1FF) = unat v div 2 ^ n mod 512"
proof -
  have "drop_bit n v AND 0x1FF = take_bit 9 (drop_bit n v)"
    by (simp add: take_bit_eq_mask mask_eq_exp_minus_1)
  then have "unat (drop_bit n v AND 0x1FF) = take_bit 9 (drop_bit n (unat v))"
    using take_bit_nat_eq_self [OF unsigned_less [of v, where ?'a = nat]]
    by (simp only: unsigned_take_bit_eq unsigned_drop_bit_eq)
  then show ?thesis by (simp add: take_bit_eq_mod drop_bit_eq_div)
qed

lemma mod_div_pow: "(x :: nat) mod 2 ^ n div 2 ^ k = x div 2 ^ k mod 2 ^ (n - k)"
  by (metis drop_bit_take_bit drop_bit_eq_div take_bit_eq_mod)

lemma page_slot_vpn:
  "page_slot v = ([vpn v div 2 ^ 27, vpn v div 2 ^ 18 mod 512, vpn v div 512 mod 512], vpn v mod 512)"
proof -
  have d: "a div (2 ^ 12 * b) = a div 4096 div b" for a b :: nat by (simp add: div_mult2_eq)
  have m: "x mod 2 ^ 36 div 2 ^ k mod 512 = x div 2 ^ k mod 512" if "k \<le> 27" for x k :: nat
  proof -
    have "x mod 2 ^ 36 div 2 ^ k = x div 2 ^ k mod 2 ^ (36 - k)" by (rule mod_div_pow)
    moreover have "512 dvd (2 :: nat) ^ (36 - k)" using that le_imp_power_dvd [of 9 "36 - k" "2 :: nat"] by simp
    ultimately show ?thesis by (simp add: mod_mod_cancel)
  qed
  define x where "x = unat v div 4096"
  have sh: "unat v div 2 ^ 12 = x" "unat v div 2 ^ 21 = x div 2 ^ 9" "unat v div 2 ^ 30 = x div 2 ^ 18"
    "unat v div 2 ^ 39 = x div 2 ^ 27"
    using d [of "unat v" "2 ^ 9"] d [of "unat v" "2 ^ 18"] d [of "unat v" "2 ^ 27"] by (simp_all add: x_def)
  have "vpn v div 2 ^ 27 = x div 2 ^ 27 mod 512" using mod_div_pow [of x 36 27] by (simp add: vpn_def x_def)
  moreover have "vpn v div 2 ^ 18 mod 512 = x div 2 ^ 18 mod 512" "vpn v div 2 ^ 9 mod 512 = x div 2 ^ 9 mod 512"
    "vpn v mod 512 = x mod 512"
    using m [of 18 x] m [of 9 x] m [of 0 x] by (simp_all add: vpn_def x_def)
  ultimately show ?thesis
    unfolding page_slot_def page_path_def PML4E_INDEX_def PDPTE_INDEX_def PDE_INDEX_def PTE_INDEX_def index_div sh
    by simp
qed

lemma page_slot_eq: "page_slot v = page_slot w \<longleftrightarrow> vpn v = vpn w"
proof
  assume "page_slot v = page_slot w"
  then have d: "vpn v div 2 ^ 27 = vpn w div 2 ^ 27" "vpn v div 2 ^ 18 mod 512 = vpn w div 2 ^ 18 mod 512"
    "vpn v div 512 mod 512 = vpn w div 512 mod 512" "vpn v mod 512 = vpn w mod 512"
    by (simp_all add: page_slot_vpn)
  have x: "x = 512 * (512 * (512 * (x div 2 ^ 27) + x div 2 ^ 18 mod 512) + x div 512 mod 512) + x mod 512" for x :: nat
  proof -
    have "x div 2 ^ 18 = 512 * (x div 2 ^ 27) + x div 2 ^ 18 mod 512"
      using div_mult2_eq [of x "2 ^ 18" 512] mult_div_mod_eq [of 512 "x div 2 ^ 18"] by simp
    moreover have "x div 512 = 512 * (x div 2 ^ 18) + x div 512 mod 512"
      using div_mult2_eq [of x 512 512] mult_div_mod_eq [of 512 "x div 512"] by simp
    ultimately show ?thesis using mult_div_mod_eq [of 512 x] by simp
  qed
  show "vpn v = vpn w" using x [of "vpn v"] x [of "vpn w"] d by simp
qed (simp add: page_slot_vpn)


section \<open>Ranges of pages\<close>

text \<open>Mapping the pages \<open>[0..<n]\<close> of a range: in the map, an update per page.\<close>

definition page_entry :: "u64 \<Rightarrow> u64 \<Rightarrow> nat \<Rightarrow> u64" where
  "page_entry phys flags i = ((phys + of_nat i * PAGE_SIZE) AND PAGE_MASK) OR flags"

lemma page_shift:
  assumes i: "i < 2 ^ 36" and off: "off < 4096" and al: "unat v mod 4096 = 0"
  shows "vpn (v + of_nat i * PAGE_SIZE + of_nat off) = (vpn v + i) mod 2 ^ 36"
    and "(v + of_nat i * PAGE_SIZE + of_nat off) AND 0xFFF = of_nat off"
proof -
  have u: "unat (v + of_nat i * PAGE_SIZE + of_nat off) = (unat v + i * 4096 + off) mod 2 ^ 64"
    using off by (simp add: unat_word_ariths PAGE_SIZE_def unat_of_nat take_bit_nat_eq_self mod_simps)
  obtain q where v: "unat v = q * 4096" using al by (metis div_mult_mod_eq add.right_neutral)
  have sum: "unat v + i * 4096 + off = off + (q + i) * 4096" by (simp add: v)
  have "x mod 2 ^ 64 div 4096 mod 2 ^ 36 = x div 4096 mod 2 ^ 36" for x :: nat
  proof -
    have "x mod 2 ^ 64 div 4096 = x div 4096 mod 2 ^ 52" using mod_div_pow [of x 64 12] by simp
    moreover have "(2::nat) ^ 36 dvd 2 ^ 52" by (rule le_imp_power_dvd) simp
    ultimately show ?thesis by (simp add: mod_mod_cancel)
  qed
  moreover have "(unat v + i * 4096 + off) div 4096 = unat v div 4096 + i"
    unfolding sum using off by (simp add: v)
  ultimately show "vpn (v + of_nat i * PAGE_SIZE + of_nat off) = (vpn v + i) mod 2 ^ 36"
    by (simp add: vpn_def u mod_simps)
  let ?w = "v + of_nat i * PAGE_SIZE + of_nat off"
  have "?w AND 0xFFF = take_bit 12 ?w" by (simp add: take_bit_eq_mask mask_eq_exp_minus_1)
  then have "unat (?w AND 0xFFF) = unat ?w mod 4096"
    by (simp only: unsigned_take_bit_eq) (simp add: take_bit_eq_mod)
  also have "\<dots> = (unat v + i * 4096 + off) mod 4096"
    unfolding u by (rule mod_mod_cancel) simp
  also have "\<dots> = off" unfolding sum using off by (simp only: mod_mult_self1 mod_less)
  finally show "?w AND 0xFFF = of_nat off" using off by (simp add: word_unat_eq_iff unat_of_nat take_bit_nat_eq_self)
qed

lemma mod_add_inj: "i < m \<Longrightarrow> j < m \<Longrightarrow> (a + i) mod m = (a + j) mod m \<longleftrightarrow> i = (j :: nat)"
proof (induction i j rule: linorder_wlog)
  case (le i j)
  then show ?case using mod_eq_dvd_iff_nat [of "a + i" "a + j" m] by (auto dest: dvd_imp_le)
next
  case (sym i j)
  then show ?case by auto
qed

lemma page_slots_differ:
  assumes "i < 2 ^ 36" "j < 2 ^ 36" "unat v mod 4096 = 0"
  shows "page_slot (v + of_nat i * PAGE_SIZE) = page_slot (v + of_nat j * PAGE_SIZE) \<longleftrightarrow> i = j"
proof -
  have "vpn (v + of_nat k * PAGE_SIZE) = (vpn v + k) mod 2 ^ 36" if "k < 2 ^ 36" for k
    using page_shift(1) [OF that, of 0 v] assms(3) by simp
  moreover have "(vpn v + i) mod 2 ^ 36 = (vpn v + j) mod 2 ^ 36 \<longleftrightarrow> i = j"
    using assms(1,2) by (rule mod_add_inj)
  ultimately show ?thesis using assms by (simp add: page_slot_eq)
qed

lemma map_range:
  fixes virt phys flags :: u64
  assumes ok: "vm_ok s R" and R: "table_frame s pml4 = R" and n: "n \<le> 2 ^ 36" and al: "unat virt mod 4096 = 0"
  defines "run \<equiv> \<lambda>n. fold (\<lambda>i. VmmMapPage pml4 (virt + of_nat i * PAGE_SIZE) (phys + of_nat i * PAGE_SIZE) flags) [0..<n] s"
  shows "vm_ok (run n) R \<and> table_frame (run n) = table_frame s \<and>
    (exhausted (vm_pmm (run n)) \<or>
     (\<forall>i<n. page_table (run n) R (page_slot (virt + of_nat i * PAGE_SIZE)) = page_entry phys flags i) \<and>
     (\<forall>slot. (\<forall>i<n. slot \<noteq> page_slot (virt + of_nat i * PAGE_SIZE)) \<longrightarrow> page_table (run n) R slot = page_table s R slot))"
  using n
proof (induction n)
  case 0
  then show ?case using ok by (simp add: run_def)
next
  case (Suc n)
  let ?v = "virt + of_nat n * PAGE_SIZE"
  have IH: "vm_ok (run n) R" "table_frame (run n) pml4 = R" "table_frame (run n) = table_frame s"
    using Suc R by auto
  have step: "run (Suc n) = VmmMapPage pml4 ?v (phys + of_nat n * PAGE_SIZE) flags (run n)"
    by (simp add: run_def)
  note m = VmmMapPage_map [OF IH(1,2), of ?v "phys + of_nat n * PAGE_SIZE" flags, folded step page_entry_def]
  show ?case
  proof (cases "exhausted (vm_pmm (run (Suc n)))")
    case True
    then show ?thesis using m IH(3) by simp
  next
    case False
    then have upd: "page_table (run (Suc n)) R = (page_table (run n) R)(page_slot ?v := page_entry phys flags n)"
      and ne: "\<not> exhausted (vm_pmm (run n))" using m by auto
    have old: "\<forall>i<n. page_table (run n) R (page_slot (virt + of_nat i * PAGE_SIZE)) = page_entry phys flags i"
      "\<forall>slot. (\<forall>i<n. slot \<noteq> page_slot (virt + of_nat i * PAGE_SIZE)) \<longrightarrow> page_table (run n) R slot = page_table s R slot"
      using Suc ne by auto
    have "page_slot (virt + of_nat i * PAGE_SIZE) \<noteq> page_slot ?v" if "i < n" for i
      using page_slots_differ [of i n virt] al that Suc.prems by simp
    then show ?thesis using m IH(3) old by (simp add: upd less_Suc_eq)
  qed
qed

section \<open>Properties\<close>

text \<open>C30: on a well-formed tree of page tables, \<open>VmmMapPage\<close> either updates exactly one entry of
  the page table, the one of the page that holds the address, to the frame and the flags it
  was given, or leaves every entry as it was because the memory manager has no free frame
  left; the tables it allocates keep the tree well formed.\<close>

theorem VmmMapPage_refines:
  assumes "vm_ok s (table_frame s pml4)"
  defines "R \<equiv> table_frame s pml4"
  shows "vm_ok (VmmMapPage pml4 virt phys flags s) R \<and>
    (page_table (VmmMapPage pml4 virt phys flags s) R =
       (page_table s R)(page_slot virt := (phys AND PAGE_MASK) OR flags) \<or>
     exhausted (vm_pmm (VmmMapPage pml4 virt phys flags s)) \<and>
     page_table (VmmMapPage pml4 virt phys flags s) R = page_table s R)"
  using VmmMapPage_map [OF assms(1) refl, of virt phys flags] by (auto simp: R_def)

text \<open>\<open>VmmUnmapPage\<close> returns the frame the page was mapped to (0 when it was not), clears
  exactly that entry, and afterwards \<open>VmmGetPhysical\<close> finds nothing at the address.\<close>

theorem VmmUnmapPage_refines:
  fixes virt :: u64
  assumes "vm_ok s (table_frame s pml4)"
  defines "R \<equiv> table_frame s pml4"
    and "present \<equiv> page_table s (table_frame s pml4) (page_slot virt) AND VMM_PRESENT \<noteq> 0"
  shows "fst (VmmUnmapPage pml4 virt s) = (if present then page_table s R (page_slot virt) AND PAGE_MASK else 0) \<and>
    page_table (snd (VmmUnmapPage pml4 virt s)) R =
      (if present then (page_table s R)(page_slot virt := 0) else page_table s R) \<and>
    vm_ok (snd (VmmUnmapPage pml4 virt s)) R \<and>
    VmmGetPhysical pml4 virt (snd (VmmUnmapPage pml4 virt s)) = 0"
proof -
  let ?s' = "snd (VmmUnmapPage pml4 virt s)"
  note u = VmmUnmapPage_map [OF assms(1) refl, of virt]
  have "vm_ok ?s' (table_frame ?s' pml4)" "table_frame ?s' pml4 = R" using u by (simp_all add: R_def)
  then show ?thesis
    using u VmmGetPhysical_map [of ?s' pml4 virt] by (simp add: R_def present_def Let_def)
qed

lemma page_entry_frame:
  assumes al: "unat phys mod 4096 = 0" and range: "unat phys + n * 4096 \<le> 2 ^ 52" and i: "i < n"
    and flags: "flags AND PAGE_MASK = 0" "flags AND VMM_PRESENT \<noteq> 0"
  shows "page_entry phys flags i AND PAGE_MASK = phys + of_nat i * PAGE_SIZE"
    and "page_entry phys flags i AND VMM_PRESENT \<noteq> 0"
proof -
  let ?p = "unat phys div 4096 + i"
  have ph: "unat phys = unat phys div 4096 * 4096" using al by (metis div_mult_mod_eq add.right_neutral)
  then have "?p * 4096 < 2 ^ 40 * 4096" using range i by simp
  then have "?p < 2 ^ 40" by simp
  moreover have "phys = of_nat (unat phys div 4096) * PAGE_SIZE"
    using arg_cong [OF ph, of "of_nat :: nat \<Rightarrow> u64"] by (simp add: PAGE_SIZE_def)
  then have "phys + of_nat i * PAGE_SIZE = frame_addr ?p"
    by (simp add: frame_addr_def distrib_right)
  ultimately have m: "(phys + of_nat i * PAGE_SIZE) AND PAGE_MASK = phys + of_nat i * PAGE_SIZE"
    by (simp add: frame_mask)
  then show "page_entry phys flags i AND PAGE_MASK = phys + of_nat i * PAGE_SIZE"
    by (simp add: page_entry_def bit.conj_disj_distrib2 flags(1))
  have "bit flags 0" using flags(2) by (simp add: VMM_PRESENT_def and_one_eq bit_0 odd_iff_mod_2_eq_one)
  then have "bit (page_entry phys flags i AND VMM_PRESENT) 0"
    by (simp add: page_entry_def VMM_PRESENT_def bit_simps)
  then show "page_entry phys flags i AND VMM_PRESENT \<noteq> 0" by auto
qed

text \<open>A small address space: frame 1 is the empty top-level table.\<close>

definition vm_small :: vmm where
  "vm_small = \<lparr>vm_mem = (\<lambda>_ _. 0), g_kernel_pml4 = 0x1000, g_vmm_active = False, vm_cr3 = 0,
     vm_flushed = [],
     vm_pmm = \<lparr>total_pages = 8, used_pages = 2, highest_page = 8, bitmap_size = 1,
               bitmap = (\<lambda>_. 3), pinned = (\<lambda>_. 0)\<rparr>,
     vm_boot_info = 0\<rparr>"

lemma vm_small_frame [simp]: "table_frame vm_small 0x1000 = 0x1000"
  by (simp add: table_frame_def vm_small_def)

lemma vm_small_ok: "vm_ok vm_small 0x1000"
proof -
  have n: "node (vm_mem vm_small) 0x1000 p = Some T \<longleftrightarrow> p = [] \<and> T = 0x1000" for p T
    by (cases p) (auto simp: vm_small_def next_table_def)
  have "owned (vm_pmm vm_small) 0x1000"
    unfolding owned_def
    by (rule exI [of _ 1]) (simp add: vm_small_def frame_addr_def PAGE_SIZE_def page_used_def BITMAP_TEST_bit
        BITMAP_INDEX_def bit_numeral_simps numeral_3_eq_3 bit_iff_odd)
  moreover have "pmm_ok (vm_pmm vm_small)"
    by (simp add: vm_small_def pmm_ok_def page_used_def BITMAP_TEST_bit BITMAP_INDEX_def)
  ultimately show ?thesis
    by (simp add: vm_ok_def tree_def n) (simp add: vm_small_def)
qed

theorem VmmMapPage_refines_witness:
  "vm_ok (VmmMapPage 0x1000 0x400000 0x5000 VMM_USER_FLAGS vm_small) 0x1000 \<and>
    (page_table (VmmMapPage 0x1000 0x400000 0x5000 VMM_USER_FLAGS vm_small) 0x1000 =
       (page_table vm_small 0x1000)(page_slot 0x400000 := (0x5000 AND PAGE_MASK) OR VMM_USER_FLAGS) \<or>
     exhausted (vm_pmm (VmmMapPage 0x1000 0x400000 0x5000 VMM_USER_FLAGS vm_small)) \<and>
     page_table (VmmMapPage 0x1000 0x400000 0x5000 VMM_USER_FLAGS vm_small) 0x1000 = page_table vm_small 0x1000)"
  using VmmMapPage_refines [of vm_small "0x1000" "0x400000" "0x5000" VMM_USER_FLAGS] vm_small_ok by simp

theorem VmmUnmapPage_refines_witness:
  "VmmGetPhysical 0x1000 0x400000 (snd (VmmUnmapPage 0x1000 0x400000 vm_small)) = 0"
  using VmmUnmapPage_refines [of vm_small "0x1000" "0x400000"] vm_small_ok by simp

text \<open>After \<open>VmmMapPages\<close> has mapped a range of pages, every address of the range is
  translated to the physical address at the same offset, and addresses in other pages are
  translated as before, unless the memory manager has run out of frames.\<close>

theorem VmmMapPages_translates:
  assumes ok: "vm_ok s (table_frame s pml4)"
    and al: "unat virt mod 4096 = 0" "unat phys mod 4096 = 0"
    and range: "unat count \<le> 2 ^ 36" "unat phys + unat count * 4096 \<le> 2 ^ 52"
    and flags: "flags AND PAGE_MASK = 0" "flags AND VMM_PRESENT \<noteq> 0"
    and i: "i < unat count" "off < 4096"
  defines "s' \<equiv> VmmMapPages pml4 virt phys count flags s"
  shows "exhausted (vm_pmm s') \<or>
    VmmGetPhysical pml4 (virt + of_nat i * PAGE_SIZE + of_nat off) s' = phys + of_nat i * PAGE_SIZE + of_nat off \<and>
    (\<forall>v. (\<forall>j<unat count. vpn v \<noteq> vpn (virt + of_nat j * PAGE_SIZE)) \<longrightarrow>
       VmmGetPhysical pml4 v s' = VmmGetPhysical pml4 v s)"
proof -
  define R where "R = table_frame s pml4"
  let ?page = "\<lambda>i. virt + of_nat i * PAGE_SIZE"
  note m = map_range [OF ok refl range(1) al(1), of phys flags, folded VmmMapPages_def s'_def R_def]
  have ok': "vm_ok s' (table_frame s' pml4)" "table_frame s' pml4 = R" using m by (simp_all add: R_def)
  have i36: "i < 2 ^ 36" using i range(1) by linarith
  have slot: "page_slot (?page i + of_nat off) = page_slot (?page i)"
    using page_shift(1) [OF i36 i(2) al(1)] page_shift(1) [OF i36 _ al(1), of 0] by (simp add: page_slot_eq)
  have at: "page_table s' R (page_slot (?page i)) = page_entry phys flags i" if "\<not> exhausted (vm_pmm s')"
    using m that i(1) by blast
  have "VmmGetPhysical pml4 (?page i + of_nat off) s' = phys + of_nat i * PAGE_SIZE + of_nat off"
    if "\<not> exhausted (vm_pmm s')"
    using page_entry_frame [OF al(2) range(2) i(1) flags] page_shift(2) [OF i36 i(2) al(1)]
    by (simp add: VmmGetPhysical_map [OF ok'(1)] ok'(2) slot at [OF that] Let_def)
  moreover have "VmmGetPhysical pml4 v s' = VmmGetPhysical pml4 v s"
    if "\<not> exhausted (vm_pmm s')" "\<forall>j<unat count. vpn v \<noteq> vpn (?page j)" for v
  proof -
    have "page_table s' R (page_slot v) = page_table s R (page_slot v)"
      using m that(1) that(2) [folded page_slot_eq] by blast
    then show ?thesis
      by (simp add: VmmGetPhysical_map [OF ok'(1)] VmmGetPhysical_map [OF ok] ok'(2) R_def [symmetric] Let_def)
  qed
  ultimately show ?thesis by blast
qed

theorem VmmMapPages_translates_witness:
  "exhausted (vm_pmm (VmmMapPages 0x1000 0x400000 0x5000 2 VMM_USER_FLAGS vm_small)) \<or>
    VmmGetPhysical 0x1000 (0x400000 + of_nat 1 * PAGE_SIZE + of_nat 8)
      (VmmMapPages 0x1000 0x400000 0x5000 2 VMM_USER_FLAGS vm_small) = 0x5000 + of_nat 1 * PAGE_SIZE + of_nat 8"
proof -
  have "VMM_USER_FLAGS AND PAGE_MASK = 0" "VMM_USER_FLAGS AND VMM_PRESENT \<noteq> 0"
    by (simp_all add: VMM_USER_FLAGS_def VMM_PRESENT_def VMM_WRITABLE_def VMM_USER_def PAGE_MASK_def)
  then show ?thesis
    using VmmMapPages_translates [of vm_small "0x1000" "0x400000" "0x5000" 2 VMM_USER_FLAGS 1 8]
      vm_small_ok by auto
qed


text \<open>
  \<open>VmmInit\<close> stores the physical address of the top-level table, so the first step of
  \<open>VmmPinKernelPageTables\<close>, which subtracts \<open>PHYS_OFFSET\<close> from it, pins nothing (the table is
  pinned all the same, by \<open>VmmInit\<close>).
\<close>

lemma pin_kernel_pml4_misses:
  assumes "n < frame_limit" "highest_page b \<le> frame_limit"
  shows "PmmPinPage (frame_addr n - PHYS_OFFSET) b = b"
proof -
  have "PHYS_OFFSET + 0x800000000000 = 0" by (simp add: PHYS_OFFSET_def)
  then have "- PHYS_OFFSET = 0x800000000000" by (rule minus_unique)
  then have "frame_addr n - PHYS_OFFSET = frame_addr n + 0x800000000000" by (simp only: diff_conv_add_uminus)
  then have "frame_addr n - PHYS_OFFSET = frame_addr (n + 2 ^ 35)"
    by (simp add: frame_addr_def PAGE_SIZE_def distrib_right)
  moreover have "page_no (frame_addr (n + 2 ^ 35)) = n + 2 ^ 35"
    unfolding frame_addr_def using assms by (intro page_no_addr) simp
  ultimately show ?thesis using assms by (simp add: PmmPinPage_def page_no_def [symmetric])
qed

end
