(* ===== verification/Heap.thy ===== *)
theory Heap
  imports Vmm "HOL-Library.Monad_Syntax"
begin

text \<open>
  The kernel heap, \<^verbatim>\<open>Kernel/mm/heap.c\<close>: a doubly linked list of blocks in pages of the
  memory manager, first fit with splitting, and coalescing with both neighbours on release.
  The block headers are an explicit store from address to header; the list through
  \<^verbatim>\<open>next\<close> and \<^verbatim>\<open>prev\<close> is a segment predicate, and every operation is shown to keep the blocks
  disjoint, the list doubly linked and the two counters exact.  \<open>None\<close> is a panic.
\<close>

section \<open>State\<close>

definition HEAP_BLOCK_MAGIC :: u64 where "HEAP_BLOCK_MAGIC = 0x48454150"
definition HEAP_MIN_BLOCK :: u64 where "HEAP_MIN_BLOCK = 16"
definition HEAP_ALIGN :: u64 where "HEAP_ALIGN = 16"
definition HEADER_SIZE :: u64 where "HEADER_SIZE = 40"

record heap_block =
  hb_magic :: u64
  hb_size :: u64
  hb_free :: i32
  hb_pad :: u32
  hb_next :: u64
  hb_prev :: u64

record heap =
  hp_mem :: "u64 \<Rightarrow> heap_block"
  g_heap_head :: u64
  g_heap_total :: u64
  g_heap_used :: u64
  hp_vm :: vmm

text \<open>\<open>b->field = ...\<close>\<close>

definition upd_block :: "u64 \<Rightarrow> (heap_block \<Rightarrow> heap_block) \<Rightarrow> heap \<Rightarrow> heap" where
  "upd_block b f s = s\<lparr>hp_mem := (hp_mem s)(b := f (hp_mem s b))\<rparr>"

section \<open>Operations\<close>

text \<open>\<open>while (last->next) last = last->next;\<close>\<close>

partial_function (option) last_block :: "(u64 \<Rightarrow> heap_block) \<Rightarrow> u64 \<Rightarrow> u64 option" where
  "last_block m b = (if hb_next (m b) = 0 then Some b else last_block m (hb_next (m b)))"

definition HeapExpand :: "u64 \<Rightarrow> heap \<Rightarrow> heap option" where
  "HeapExpand min_size s =
    (let pages = (min_size + HEADER_SIZE + PAGE_SIZE - 1) div PAGE_SIZE;
         (phys, b) = PmmAllocPages pages (vm_pmm (hp_vm s))
     in if phys = 0 then None
        else
          let s = s\<lparr>hp_vm := (hp_vm s)\<lparr>vm_pmm := b\<rparr>\<rparr>;
              total_bytes = pages * PAGE_SIZE;
              block = PHYS_TO_VIRT (hp_vm s) phys;
              s = upd_block block (\<lambda>_. \<lparr>hb_magic = HEAP_BLOCK_MAGIC, hb_size = total_bytes - HEADER_SIZE,
                    hb_free = 1, hb_pad = 0, hb_next = 0, hb_prev = 0\<rparr>) s
          in do {
            s \<leftarrow> (if g_heap_head s \<noteq> 0
                  then do {
                    tail_block \<leftarrow> last_block (hp_mem s) (g_heap_head s);
                    Some (upd_block tail_block (\<lambda>h. h\<lparr>hb_next := block\<rparr>)
                           (upd_block block (\<lambda>h. h\<lparr>hb_prev := tail_block\<rparr>) s))
                  }
                  else Some (s\<lparr>g_heap_head := block\<rparr>));
            Some (s\<lparr>g_heap_total := g_heap_total s + total_bytes\<rparr>)
          })"

definition HeapInit :: "heap \<Rightarrow> heap option" where
  "HeapInit s = HeapExpand (PAGE_SIZE * 4) (s\<lparr>g_heap_head := 0, g_heap_total := 0, g_heap_used := 0\<rparr>)"

definition HeapSplitBlock :: "u64 \<Rightarrow> u64 \<Rightarrow> heap \<Rightarrow> heap" where
  "HeapSplitBlock block size' s =
    (if hb_size (hp_mem s block) \<ge> size' + HEADER_SIZE + HEAP_MIN_BLOCK
     then let new_block = block + HEADER_SIZE + size';
              old = hp_mem s block;
              s = upd_block new_block (\<lambda>_. \<lparr>hb_magic = HEAP_BLOCK_MAGIC,
                    hb_size = hb_size old - size' - HEADER_SIZE, hb_free = 1, hb_pad = 0,
                    hb_next = hb_next old, hb_prev = block\<rparr>) s;
              s = (if hb_next (hp_mem s block) \<noteq> 0
                   then upd_block (hb_next (hp_mem s block)) (\<lambda>h. h\<lparr>hb_prev := new_block\<rparr>) s else s)
          in upd_block block (\<lambda>h. h\<lparr>hb_next := new_block, hb_size := size'\<rparr>) s
     else s)"

definition coalesce_next :: "u64 \<Rightarrow> heap \<Rightarrow> heap" where
  "coalesce_next block s =
    (let nxt = hb_next (hp_mem s block)
     in if nxt \<noteq> 0 \<and> hb_magic (hp_mem s nxt) = HEAP_BLOCK_MAGIC \<and> hb_free (hp_mem s nxt) \<noteq> 0
           \<and> block + HEADER_SIZE + hb_size (hp_mem s block) = nxt
        then let s = upd_block block (\<lambda>h. h\<lparr>hb_size := hb_size h + (HEADER_SIZE + hb_size (hp_mem s nxt)),
                                          hb_next := hb_next (hp_mem s nxt)\<rparr>) s
             in if hb_next (hp_mem s nxt) \<noteq> 0
                then upd_block (hb_next (hp_mem s nxt)) (\<lambda>h. h\<lparr>hb_prev := block\<rparr>) s else s
        else s)"

definition coalesce_prev :: "u64 \<Rightarrow> heap \<Rightarrow> heap" where
  "coalesce_prev block s =
    (let prv = hb_prev (hp_mem s block)
     in if prv \<noteq> 0 \<and> hb_magic (hp_mem s prv) = HEAP_BLOCK_MAGIC \<and> hb_free (hp_mem s prv) \<noteq> 0
           \<and> prv + HEADER_SIZE + hb_size (hp_mem s prv) = block
        then let s = upd_block prv (\<lambda>h. h\<lparr>hb_size := hb_size h + (HEADER_SIZE + hb_size (hp_mem s block)),
                                        hb_next := hb_next (hp_mem s block)\<rparr>) s
             in if hb_next (hp_mem s block) \<noteq> 0
                then upd_block (hb_next (hp_mem s block)) (\<lambda>h. h\<lparr>hb_prev := prv\<rparr>) s else s
        else s)"

definition HeapCoalesce :: "u64 \<Rightarrow> heap \<Rightarrow> heap" where
  "HeapCoalesce block s = coalesce_prev block (coalesce_next block s)"

text \<open>The search of \<open>KmAlloc\<close>: a free block that is large enough, 0 at the end of the list.\<close>

partial_function (option) find_block :: "(u64 \<Rightarrow> heap_block) \<Rightarrow> u64 \<Rightarrow> u64 \<Rightarrow> u64 option" where
  "find_block m size' block =
    (if block = 0 then Some 0
     else if hb_magic (m block) \<noteq> HEAP_BLOCK_MAGIC then None
     else if hb_free (m block) \<noteq> 0 \<and> hb_size (m block) \<ge> size' then Some block
     else find_block m size' (hb_next (m block)))"

definition round_size :: "u64 \<Rightarrow> u64" where
  "round_size size' = (size' + HEAP_ALIGN - 1) AND NOT (HEAP_ALIGN - 1)"

definition take_block :: "u64 \<Rightarrow> u64 \<Rightarrow> heap \<Rightarrow> u64 \<times> heap" where
  "take_block block size' s =
    (let s = HeapSplitBlock block size' s;
         s = upd_block block (\<lambda>h. h\<lparr>hb_free := 0\<rparr>) s;
         s = s\<lparr>g_heap_used := g_heap_used s + hb_size (hp_mem s block)\<rparr>
     in (block + HEADER_SIZE, s))"

partial_function (option) KmAlloc :: "u64 \<Rightarrow> heap \<Rightarrow> (u64 \<times> heap) option" where
  "KmAlloc req s =
    (if req = 0 then Some (0, s)
     else find_block (hp_mem s) (round_size req) (g_heap_head s) \<bind> (\<lambda>block.
       if block \<noteq> 0 then Some (take_block block (round_size req) s)
       else HeapExpand (round_size req) s \<bind> KmAlloc (round_size req)))"

definition KmFree :: "u64 \<Rightarrow> heap \<Rightarrow> heap option" where
  "KmFree ptr s =
    (if ptr = 0 then Some s
     else let block = ptr - HEADER_SIZE
          in if hb_magic (hp_mem s block) \<noteq> HEAP_BLOCK_MAGIC then None
             else if hb_free (hp_mem s block) \<noteq> 0 then None
             else let s = upd_block block (\<lambda>h. h\<lparr>hb_free := 1\<rparr>) s;
                      s = s\<lparr>g_heap_used := g_heap_used s - hb_size (hp_mem s block)\<rparr>
                  in Some (HeapCoalesce block s))"

section \<open>Segments of the block list\<close>

text \<open>
  \<open>seg m p a xs q e\<close>: from the pointer \<open>a\<close>, with \<open>p\<close> before it, the list runs through \<open>xs\<close>,
  ends in the block \<open>q\<close> (\<open>p\<close> if \<open>xs\<close> is empty) and leaves through the pointer \<open>e\<close>.
\<close>

fun seg :: "(u64 \<Rightarrow> heap_block) \<Rightarrow> u64 \<Rightarrow> u64 \<Rightarrow> u64 list \<Rightarrow> u64 \<Rightarrow> u64 \<Rightarrow> bool" where
  "seg m p a [] q e \<longleftrightarrow> a = e \<and> p = q"
| "seg m p a (x # xs) q e \<longleftrightarrow> a = x \<and> x \<noteq> 0 \<and> hb_magic (m x) = HEAP_BLOCK_MAGIC \<and> hb_prev (m x) = p \<and>
     seg m x (hb_next (m x)) xs q e"

lemma seg_append: "seg m p a (xs @ ys) q e \<longleftrightarrow> (\<exists>r c. seg m p a xs r c \<and> seg m r c ys q e)"
  by (induction xs arbitrary: p a) auto

lemma seg_cong: "(\<And>x. x \<in> set xs \<Longrightarrow> m' x = m x) \<Longrightarrow> seg m' p a xs q e = seg m p a xs q e"
  by (induction xs arbitrary: p a) auto

lemma seg_upd [simp]: "x \<notin> set xs \<Longrightarrow> seg (m(x := h)) p a xs q e = seg m p a xs q e"
  by (rule seg_cong) auto

lemma seg_nonzero: "seg m p a xs q e \<Longrightarrow> x \<in> set xs \<Longrightarrow> x \<noteq> 0"
  by (induction xs arbitrary: p a) auto

lemma seg_magic: "seg m p a xs q e \<Longrightarrow> x \<in> set xs \<Longrightarrow> hb_magic (m x) = HEAP_BLOCK_MAGIC"
  by (induction xs arbitrary: p a) auto

lemma seg_last: "seg m p a xs q e \<Longrightarrow> q = (if xs = [] then p else last xs)"
  by (induction xs arbitrary: p a) auto

lemma seg_hd: "seg m p a xs q e \<Longrightarrow> a = (if xs = [] then e else hd xs)"
  by (cases xs) auto

lemma find_block_seg:
  "seg m p a xs q 0 \<Longrightarrow>
    find_block m n a = Some (case find (\<lambda>x. hb_free (m x) \<noteq> 0 \<and> n \<le> hb_size (m x)) xs of Some x \<Rightarrow> x | None \<Rightarrow> 0)"
proof (induction xs arbitrary: p a)
  case Nil
  then show ?case by (simp add: find_block.simps)
next
  case (Cons x xs)
  from Cons.prems have "find_block m n a = (if hb_free (m x) \<noteq> 0 \<and> n \<le> hb_size (m x) then Some x
      else find_block m n (hb_next (m x)))"
    by (subst find_block.simps) simp
  moreover have "a = x" "seg m x (hb_next (m x)) xs q 0" using Cons.prems by simp_all
  ultimately show ?case using Cons.IH [of x "hb_next (m x)"] by auto
qed

lemma last_block_seg: "seg m p a xs q 0 \<Longrightarrow> xs \<noteq> [] \<Longrightarrow> last_block m a = Some q"
proof (induction xs arbitrary: p a)
  case (Cons x xs)
  then show ?case
    by (subst last_block.simps) (cases xs, auto)
qed simp


section \<open>The invariant\<close>

abbreviation phys_base :: nat where "phys_base \<equiv> 0xFFFF800000000000"

definition block_end :: "(u64 \<Rightarrow> heap_block) \<Rightarrow> u64 \<Rightarrow> nat" where
  "block_end m x = unat x + 40 + unat (hb_size (m x))"

definition byte_owned :: "pmm \<Rightarrow> nat \<Rightarrow> bool" where
  "byte_owned b i \<longleftrightarrow> phys_base \<le> i \<and> (i - phys_base) div 4096 < highest_page b \<and>
     page_used b ((i - phys_base) div 4096)"

text \<open>Every byte of a block, its header included, lies in a page that is in use.\<close>

definition block_ok :: "pmm \<Rightarrow> (u64 \<Rightarrow> heap_block) \<Rightarrow> u64 \<Rightarrow> bool" where
  "block_ok b m x \<longleftrightarrow> (\<forall>i. unat x \<le> i \<and> i < block_end m x \<longrightarrow> byte_owned b i)"

definition apart :: "(u64 \<Rightarrow> heap_block) \<Rightarrow> u64 \<Rightarrow> u64 \<Rightarrow> bool" where
  "apart m x y \<longleftrightarrow> block_end m x \<le> unat y \<or> block_end m y \<le> unat x"

fun disjoint_blocks :: "(u64 \<Rightarrow> heap_block) \<Rightarrow> u64 list \<Rightarrow> bool" where
  "disjoint_blocks m [] = True"
| "disjoint_blocks m (x # xs) = ((\<forall>y\<in>set xs. apart m x y) \<and> disjoint_blocks m xs)"

definition total_of :: "(u64 \<Rightarrow> heap_block) \<Rightarrow> u64 list \<Rightarrow> u64" where
  "total_of m xs = (\<Sum>x\<leftarrow>xs. HEADER_SIZE + hb_size (m x))"

definition used_of :: "(u64 \<Rightarrow> heap_block) \<Rightarrow> u64 list \<Rightarrow> u64" where
  "used_of m xs = (\<Sum>x\<leftarrow>xs. if hb_free (m x) = 0 then hb_size (m x) else 0)"

definition heap_inv :: "heap \<Rightarrow> u64 list \<Rightarrow> bool" where
  "heap_inv s xs \<longleftrightarrow> (\<exists>q. seg (hp_mem s) 0 (g_heap_head s) xs q 0) \<and>
     disjoint_blocks (hp_mem s) xs \<and>
     (\<forall>x\<in>set xs. block_ok (vm_pmm (hp_vm s)) (hp_mem s) x) \<and>
     g_heap_total s = total_of (hp_mem s) xs \<and> g_heap_used s = used_of (hp_mem s) xs \<and>
     g_vmm_active (hp_vm s) \<and> pmm_ok (vm_pmm (hp_vm s)) \<and> highest_page (vm_pmm (hp_vm s)) \<le> frame_limit"

text \<open>The allocated blocks: address and size.\<close>

definition allocated :: "heap \<Rightarrow> u64 list \<Rightarrow> (u64 \<times> u64) set" where
  "allocated s xs = {(x, hb_size (hp_mem s x)) |x. x \<in> set xs \<and> hb_free (hp_mem s x) = 0}"

lemma apart_sym: "apart m x y = apart m y x"
  by (auto simp: apart_def)

lemma disjoint_append:
  "disjoint_blocks m (xs @ ys) \<longleftrightarrow>
    disjoint_blocks m xs \<and> disjoint_blocks m ys \<and> (\<forall>x\<in>set xs. \<forall>y\<in>set ys. apart m x y)"
  by (induction xs) auto

lemma disjoint_cong:
  "(\<And>x. x \<in> set xs \<Longrightarrow> hb_size (m' x) = hb_size (m x)) \<Longrightarrow> disjoint_blocks m' xs = disjoint_blocks m xs"
  by (induction xs) (auto simp: apart_def block_end_def)

lemma not_apart_self: "\<not> apart m x x"
  by (simp add: apart_def block_end_def)

lemma disjoint_distinct: "disjoint_blocks m xs \<Longrightarrow> distinct xs"
  using not_apart_self by (induction xs) auto

lemma total_cong: "(\<And>x. x \<in> set xs \<Longrightarrow> hb_size (m' x) = hb_size (m x)) \<Longrightarrow> total_of m' xs = total_of m xs"
  by (induction xs) (auto simp: total_of_def)

lemma used_cong:
  "(\<And>x. x \<in> set xs \<Longrightarrow> hb_size (m' x) = hb_size (m x) \<and> (hb_free (m' x) = 0 \<longleftrightarrow> hb_free (m x) = 0)) \<Longrightarrow>
    used_of m' xs = used_of m xs"
  by (induction xs) (auto simp: used_of_def)

lemma total_simps [simp]:
  "total_of m [] = 0" "total_of m (x # xs) = HEADER_SIZE + hb_size (m x) + total_of m xs"
  "total_of m (xs @ ys) = total_of m xs + total_of m ys"
  by (simp_all add: total_of_def)

lemma used_simps [simp]:
  "used_of m [] = 0" "used_of m (x # xs) = (if hb_free (m x) = 0 then hb_size (m x) else 0) + used_of m xs"
  "used_of m (xs @ ys) = used_of m xs + used_of m ys"
  by (simp_all add: used_of_def)

lemma heap_inv_distinct: "heap_inv s xs \<Longrightarrow> distinct xs"
  by (auto simp: heap_inv_def intro: disjoint_distinct)

text \<open>A block does not reach the end of the address space.\<close>

lemma block_end_bound:
  assumes "block_ok b m x" "highest_page b \<le> frame_limit"
  shows "block_end m x \<le> phys_base + 2 ^ 35" "phys_base \<le> unat x"
proof -
  have "unat x \<le> block_end m x - 1" "block_end m x - 1 < block_end m x" by (simp_all add: block_end_def)
  then have "byte_owned b (block_end m x - 1)" using assms(1) by (simp add: block_ok_def)
  then have "(block_end m x - 1 - phys_base) div 4096 < frame_limit"
    using assms(2) by (simp add: byte_owned_def)
  then show "block_end m x \<le> phys_base + 2 ^ 35" by (simp add: div_less_iff_less_mult)
  have "byte_owned b (unat x)" using assms(1) by (simp add: block_ok_def block_end_def)
  then show "phys_base \<le> unat x" by (simp add: byte_owned_def)
qed


lemma not_apart_byte:
  assumes "\<not> apart m x y"
  obtains i where "unat x \<le> i" "i < block_end m x" "unat y \<le> i" "i < block_end m y"
  using assms that [of "max (unat x) (unat y)"] by (auto simp: apart_def block_end_def)

lemma block_ok_cong:
  "hb_size (m' x) = hb_size (m x) \<Longrightarrow> (\<And>n. n < highest_page b \<Longrightarrow> page_used b n \<Longrightarrow> page_used b' n) \<Longrightarrow>
    highest_page b' = highest_page b \<Longrightarrow> block_ok b m x \<Longrightarrow> block_ok b' m' x"
  by (simp add: block_ok_def byte_owned_def block_end_def)

lemma seg_head: "seg m 0 h xs q 0 \<Longrightarrow> h = 0 \<longleftrightarrow> xs = []"
  by (cases xs) auto

lemmas heap_consts = HEADER_SIZE_def PAGE_SIZE_def HEAP_MIN_BLOCK_def HEAP_ALIGN_def

text \<open>The new region of \<open>HeapExpand\<close>: large enough, and disjoint from every block.\<close>

lemma expand_pages:
  assumes "unat n \<le> 2 ^ 40"
  defines "pages \<equiv> (n + HEADER_SIZE + PAGE_SIZE - 1) div PAGE_SIZE :: u64"
  shows "unat pages = (unat n + 4135) div 4096" "pages \<noteq> 0"
    and "unat (pages * PAGE_SIZE) = unat pages * 4096"
    and "unat (pages * PAGE_SIZE - HEADER_SIZE) = unat pages * 4096 - 40" "unat n + 40 \<le> unat pages * 4096"
proof -
  have "unat (n + 4135) = unat n + 4135" using assms(1) by (simp add: unat_word_ariths)
  moreover have "n + HEADER_SIZE + PAGE_SIZE - 1 = n + 4135" by (simp add: heap_consts)
  ultimately show u: "unat pages = (unat n + 4135) div 4096"
    by (simp only: pages_def unat_div) (simp add: PAGE_SIZE_def)
  have ge: "unat n + 40 \<le> unat pages * 4096"
    using mult_div_mod_eq [of 4096 "unat n + 4135"] mod_less_divisor [of 4096 "unat n + 4135"] unfolding u by linarith
  then show "unat n + 40 \<le> unat pages * 4096" .
  then show "pages \<noteq> 0" by auto
  have "(unat n + 4135) div 4096 * 4096 \<le> unat n + 4135" by simp
  then have "unat pages * 4096 \<le> 2 ^ 40 + 4135" unfolding u using assms(1) by linarith
  then show m: "unat (pages * PAGE_SIZE) = unat pages * 4096"
    by (simp add: heap_consts unat_word_ariths)
  show "unat (pages * PAGE_SIZE - HEADER_SIZE) = unat pages * 4096 - 40"
    using ge by (subst unat_sub) (simp_all add: m word_le_nat_alt, simp_all add: heap_consts)
qed

lemma expand_region:
  assumes inv: "heap_inv s xs" and n: "unat n \<le> 2 ^ 40"
  defines "pages \<equiv> (n + HEADER_SIZE + PAGE_SIZE - 1) div PAGE_SIZE"
  assumes alloc: "PmmAllocPages pages (vm_pmm (hp_vm s)) = (phys, b)" "phys \<noteq> 0"
  defines "v \<equiv> PHYS_TO_VIRT (hp_vm s) phys"
  assumes m': "hb_size (m' v) = pages * PAGE_SIZE - HEADER_SIZE" "\<And>x. x \<in> set xs \<Longrightarrow> x \<noteq> v \<Longrightarrow> hb_size (m' x) = hb_size (hp_mem s x)"
  shows "v \<notin> set xs" "block_ok b m' v" "\<And>x. x \<in> set xs \<Longrightarrow> apart m' x v \<and> block_ok b m' x" "v \<noteq> 0"
    and "pmm_ok b" "highest_page b \<le> frame_limit"
proof -
  let ?b = "vm_pmm (hp_vm s)"
  have pok: "pmm_ok ?b" and lim: "highest_page ?b \<le> frame_limit" and act: "g_vmm_active (hp_vm s)"
    using inv by (auto simp: heap_inv_def)
  note pg = expand_pages [OF n, folded pages_def]
  have res: "alloc_result (unat pages) ?b phys b"
    using PmmAllocPages_result [OF pok pg(2)] alloc(1) by simp
  note r = alloc_result_pages [OF pok res alloc(2)]
  define p where "p = page_no phys"
  have p: "0 < p" "p + unat pages \<le> highest_page ?b" "phys = frame_addr p"
    using r(1-3) by (simp_all add: p_def frame_addr_def)
  have "0 < unat pages" using pg(5) by (cases "unat pages") auto
  then have pl: "p < frame_limit" using p(2) lim by linarith
  have v: "unat v = phys_base + p * 4096"
    using unat_frame [OF pl] pl act by (simp add: v_def PHYS_TO_VIRT_def p(3) unat_word_ariths PHYS_OFFSET_def)
  then show "v \<noteq> 0" by auto
  have "block_end m' v = unat v + unat pages * 4096"
    using pg(4,5) by (simp add: block_end_def m'(1))
  then have page: "p \<le> (i - phys_base) div 4096 \<and> (i - phys_base) div 4096 < p + unat pages \<and> phys_base \<le> i"
    if "unat v \<le> i" "i < block_end m' v" for i
    using that v by (auto simp: div_le_mono less_eq_div_iff_mult_less_eq div_less_iff_less_mult)
  show notin: "v \<notin> set xs"
  proof
    assume "v \<in> set xs"
    then have "byte_owned ?b (unat v)" using inv by (auto simp: heap_inv_def block_ok_def block_end_def)
    then show False using r(4) [where j = p] \<open>0 < unat pages\<close> by (simp add: byte_owned_def v p_def)
  qed
  show "block_ok b m' v"
    unfolding block_ok_def byte_owned_def
  proof (intro allI impI, elim conjE)
    fix i
    assume "unat v \<le> i" "i < block_end m' v"
    from page [OF this] have pi: "p \<le> (i - phys_base) div 4096" "(i - phys_base) div 4096 < p + unat pages" "phys_base \<le> i"
      by simp_all
    then have "(i - phys_base) div 4096 < highest_page ?b" using p(2) by linarith
    then show "phys_base \<le> i \<and> (i - phys_base) div 4096 < highest_page b \<and> page_used b ((i - phys_base) div 4096)"
      using pi r(5) [where j = "(i - phys_base) div 4096"] r(6) lim by (simp add: p_def)
  qed
  show "apart m' x v \<and> block_ok b m' x" if x: "x \<in> set xs" for x
  proof
    have old: "block_ok ?b m' x"
    proof -
      have "hb_size (m' x) = hb_size (hp_mem s x)" using m'(2) [OF x] x notin by blast
      then show ?thesis using inv x by (auto simp: heap_inv_def block_ok_def block_end_def)
    qed
    show "apart m' x v"
    proof (rule ccontr)
      assume "\<not> apart m' x v"
      then obtain i where i: "unat x \<le> i" "i < block_end m' x" "unat v \<le> i" "i < block_end m' v"
        by (rule not_apart_byte)
      then have "page_used ?b ((i - phys_base) div 4096)" using old by (auto simp: block_ok_def byte_owned_def)
      then show False using page [OF i(3,4)] r(4) by (auto simp: p_def)
    qed
    show "block_ok b m' x"
      by (rule block_ok_cong [OF _ _ _ old]) (use r(5,6) lim in auto)
  qed
  show "pmm_ok b" by (rule alloc_result_ok [OF pok res])
  show "highest_page b \<le> frame_limit" using r(6) lim by simp
qed

lemma HeapExpand_ok:
  assumes inv: "heap_inv s xs" and n: "unat n \<le> 2 ^ 40"
    and alloc: "fst (PmmAllocPages ((n + HEADER_SIZE + PAGE_SIZE - 1) div PAGE_SIZE) (vm_pmm (hp_vm s))) \<noteq> 0"
  shows "\<exists>s' v. HeapExpand n s = Some s' \<and> heap_inv s' (xs @ [v]) \<and> v \<notin> set xs \<and>
    hb_free (hp_mem s' v) \<noteq> 0 \<and> unat n \<le> unat (hb_size (hp_mem s' v)) \<and>
    (\<forall>x\<in>set xs. hb_size (hp_mem s' x) = hb_size (hp_mem s x) \<and> hb_free (hp_mem s' x) = hb_free (hp_mem s x))"
proof -
  define pages where "pages = (n + HEADER_SIZE + PAGE_SIZE - 1) div PAGE_SIZE"
  obtain phys b where a: "PmmAllocPages pages (vm_pmm (hp_vm s)) = (phys, b)" by fastforce
  have nz: "phys \<noteq> 0" using alloc a by (simp add: pages_def)
  define v where "v = PHYS_TO_VIRT (hp_vm s) phys"
  define hdr where "hdr = \<lparr>hb_magic = HEAP_BLOCK_MAGIC, hb_size = pages * PAGE_SIZE - HEADER_SIZE,
    hb_free = 1, hb_pad = 0, hb_next = 0, hb_prev = 0\<rparr>"
  define m1 where "m1 = (hp_mem s)(v := hdr)"
  obtain q where q: "seg (hp_mem s) 0 (g_heap_head s) xs q 0" using inv by (auto simp: heap_inv_def)
  have sz: "hb_size hdr = pages * PAGE_SIZE - HEADER_SIZE" by (simp add: hdr_def)
  have virt: "PHYS_TO_VIRT ((hp_vm s)\<lparr>vm_pmm := b\<rparr>) phys = v" by (simp add: v_def)
  define s1 where "s1 = s\<lparr>hp_vm := (hp_vm s)\<lparr>vm_pmm := b\<rparr>, hp_mem := m1\<rparr>"
  note reg0 = expand_region [OF inv n, folded pages_def, OF a nz, folded v_def]
  have notin: "v \<notin> set xs" by (rule reg0(1) [where m' = m1]) (simp_all add: m1_def sz)
  have seg1: "seg m1 0 (g_heap_head s) xs q 0" using q notin by (simp add: m1_def)
  define m2 where "m2 = (if xs = [] then m1 else m1(v := hdr\<lparr>hb_prev := q\<rparr>, q := (m1 q)\<lparr>hb_next := v\<rparr>))"
  have qx: "xs \<noteq> [] \<Longrightarrow> q \<in> set xs" using seg_last [OF q] by simp
  have keep: "hb_size (m2 x) = hb_size (hp_mem s x) \<and> hb_free (m2 x) = hb_free (hp_mem s x)" if "x \<in> set xs" for x
    using that notin qx by (auto simp: m2_def m1_def)
  have m2v: "hb_size (m2 v) = pages * PAGE_SIZE - HEADER_SIZE \<and> hb_free (m2 v) = 1"
    using notin qx by (auto simp: m2_def m1_def hdr_def)
  note reg = reg0 [where m' = m2, OF m2v [THEN conjunct1]]
  have seg2: "seg m2 0 (if xs = [] then v else g_heap_head s) (xs @ [v]) v 0"
  proof (cases xs rule: rev_cases)
    case Nil
    then show ?thesis using reg(4) by (simp add: m2_def m1_def hdr_def)
  next
    case (snoc ys y)
    then have y: "y = q" "q \<noteq> v" using seg_last [OF q] notin by auto
    have "distinct xs" using inv by (rule heap_inv_distinct)
    then have "q \<notin> set ys" "v \<notin> set ys" using notin snoc y by auto
    then show ?thesis using seg1 y reg(4) snoc keep
      by (auto simp: seg_append m2_def hdr_def)
  qed
  define s' where "s' = s\<lparr>hp_vm := (hp_vm s)\<lparr>vm_pmm := b\<rparr>, hp_mem := m2,
    g_heap_head := (if xs = [] then v else g_heap_head s), g_heap_total := g_heap_total s + pages * PAGE_SIZE\<rparr>"
  have "HeapExpand n s = Some s'"
    using notin qx last_block_seg [OF seg1, unfolded m1_def] seg_head [OF q] nz
    by (auto simp: HeapExpand_def pages_def [symmetric] a Let_def v_def [symmetric] upd_block_def
        hdr_def [symmetric] s'_def m2_def m1_def)
  moreover have "heap_inv s' (xs @ [v])"
    using inv seg2 reg keep m2v total_cong [of xs m2 "hp_mem s"] used_cong [of xs m2 "hp_mem s"]
      disjoint_cong [of xs m2 "hp_mem s"]
    by (auto simp: heap_inv_def s'_def disjoint_append)
  moreover have "unat n \<le> unat (hb_size (m2 v))"
    using expand_pages(4,5) [OF n, folded pages_def] m2v by simp
  ultimately show ?thesis using notin keep m2v by (auto simp: s'_def)
qed


section \<open>Relinking and extents\<close>

text \<open>\<open>if (a) a->prev = p;\<close>\<close>

definition relink :: "(u64 \<Rightarrow> heap_block) \<Rightarrow> u64 \<Rightarrow> u64 \<Rightarrow> (u64 \<Rightarrow> heap_block)" where
  "relink m a p = (if a = 0 then m else m(a := (m a)\<lparr>hb_prev := p\<rparr>))"

lemma relink_simps [simp]:
  "hb_size (relink m a p x) = hb_size (m x)" "hb_free (relink m a p x) = hb_free (m x)"
  "hb_next (relink m a p x) = hb_next (m x)" "hb_magic (relink m a p x) = hb_magic (m x)"
  by (simp_all add: relink_def)

lemma relink_other: "x \<noteq> a \<Longrightarrow> relink m a p x = m x"
  by (simp add: relink_def)

lemma seg_relink:
  assumes "seg m p a xs q 0" "distinct xs"
  shows "\<exists>q'. seg (relink m a p') p' a xs q' 0"
proof (cases xs)
  case Nil
  then show ?thesis using assms by simp
next
  case (Cons x ys)
  then have "seg (relink m a p') x (hb_next (m x)) ys q 0 = seg m x (hb_next (m x)) ys q 0"
    using assms by (intro seg_cong) (auto simp: relink_def)
  then show ?thesis using assms Cons by (auto simp: relink_def)
qed

lemma extent_sub:
  assumes "unat x \<le> unat y" "block_end m' y \<le> block_end m x"
  shows "block_ok b m x \<Longrightarrow> block_ok b m' y"
    and "apart m x z \<Longrightarrow> hb_size (m' z) = hb_size (m z) \<Longrightarrow> apart m' y z"
  using assms by (auto simp: block_ok_def apart_def block_end_def)

lemma disjoint_insert:
  "disjoint_blocks m (ys @ x # zs) \<longleftrightarrow>
    disjoint_blocks m (ys @ zs) \<and> (\<forall>y\<in>set (ys @ zs). apart m x y)"
  by (auto simp: disjoint_append apart_sym)

lemma allocatedI: "x \<in> set xs \<Longrightarrow> hb_free (hp_mem s x) = 0 \<Longrightarrow> (x, hb_size (hp_mem s x)) \<in> allocated s xs"
  by (auto simp: allocated_def)

text \<open>Changing only the availability of a block.\<close>

lemma seg_free:
  "seg (m(x := (m x)\<lparr>hb_free := f\<rparr>)) p a xs q e = seg m p a xs q e"
  by (induction xs arbitrary: p a) auto

section \<open>Taking a block\<close>

lemma heap_inv_free:
  assumes inv: "heap_inv s (ys @ x # zs)" and m': "m' = (hp_mem s)(x := (hp_mem s x)\<lparr>hb_free := f\<rparr>)"
    and u: "u = used_of m' (ys @ x # zs)"
  shows "heap_inv (s\<lparr>hp_mem := m', g_heap_used := u\<rparr>) (ys @ x # zs)"
proof -
  have sz: "hb_size (m' y) = hb_size (hp_mem s y)" for y by (simp add: m')
  have "block_ok b m' y = block_ok b (hp_mem s) y" for b y by (simp add: block_ok_def block_end_def sz)
  then show ?thesis
    using inv disjoint_cong [of "ys @ x # zs" m' "hp_mem s"] total_cong [of "ys @ x # zs" m' "hp_mem s"] sz
    by (auto simp: heap_inv_def m' seg_free u simp del: total_simps used_simps)
qed

lemma used_free:
  assumes "distinct (ys @ x # zs)" and m': "m' = m(x := (m x)\<lparr>hb_free := f\<rparr>)"
  shows "used_of m' (ys @ x # zs) + (if hb_free (m x) = 0 then hb_size (m x) else 0) =
    used_of m (ys @ x # zs) + (if f = 0 then hb_size (m x) else 0)"
proof -
  have "m' y = m y" if "y \<in> set ys \<union> set zs" for y using assms that by auto
  then have "used_of m' ys = used_of m ys" "used_of m' zs = used_of m zs"
    by (auto intro!: used_cong)
  then show ?thesis by (simp add: m')
qed

text \<open>Splitting: the second part is a free block between the first and its successor.\<close>

lemma split_ok:
  assumes inv: "heap_inv s (ys @ x # zs)" and free: "hb_free (hp_mem s x) \<noteq> 0"
    and big: "size' \<le> hb_size (hp_mem s x)" "hb_size (hp_mem s x) \<ge> size' + HEADER_SIZE + HEAP_MIN_BLOCK"
  defines "y \<equiv> x + HEADER_SIZE + size'" and "s' \<equiv> HeapSplitBlock x size' s"
  shows "heap_inv s' (ys @ x # y # zs)" "hb_size (hp_mem s' x) = size'" "hb_free (hp_mem s' x) \<noteq> 0"
    and "allocated s' (ys @ x # y # zs) = allocated s (ys @ x # zs)"
proof -
  let ?m = "hp_mem s"
  define hdr where "hdr = \<lparr>hb_magic = HEAP_BLOCK_MAGIC, hb_size = hb_size (?m x) - size' - HEADER_SIZE,
    hb_free = 1, hb_pad = 0, hb_next = hb_next (?m x), hb_prev = x\<rparr>"
  obtain q where q: "seg ?m 0 (g_heap_head s) (ys @ x # zs) q 0" using inv by (auto simp: heap_inv_def)
  have bok: "block_ok (vm_pmm (hp_vm s)) ?m x" and lim: "highest_page (vm_pmm (hp_vm s)) \<le> frame_limit"
    using inv by (auto simp: heap_inv_def)
  note e = block_end_bound [OF bok lim]
  have n: "unat size' \<le> unat (hb_size (?m x))" using big(1) by (simp add: word_le_nat_alt)
  have xs36: "unat x + 40 + unat (hb_size (?m x)) \<le> phys_base + 2 ^ 35" using e(1) by (simp add: block_end_def)
  have szlt: "unat (hb_size (?m x)) < 2 ^ 36" using xs36 e(2) by simp
  have big': "unat size' + 56 \<le> unat (hb_size (?m x))"
    using big(2) n szlt by (simp add: word_le_nat_alt heap_consts unat_word_ariths)
  have uy: "unat y = unat x + 40 + unat size'"
    using xs36 n by (simp add: y_def heap_consts unat_word_ariths)
  have hsz: "unat (hb_size hdr) = unat (hb_size (?m x)) - unat size' - 40"
    using big' by (simp add: hdr_def heap_consts unat_sub word_le_nat_alt)
  have dist: "distinct (ys @ x # zs)" by (rule heap_inv_distinct [OF inv])
  have apx: "apart ?m x z" if "z \<in> set (ys @ zs)" for z
    using inv that by (auto simp: heap_inv_def disjoint_insert)
  have yz: "y \<noteq> z" if "z \<in> set (ys @ zs)" for z
    using apx [OF that] uy big' by (auto simp: apart_def block_end_def)
  have yx: "y \<noteq> x" using uy by auto
  have ynot: "y \<notin> set (ys @ x # zs)" using yz yx by auto
  have y0: "y \<noteq> 0" using uy by auto
  define nx where "nx = hb_next (?m x)"
  have sz: "seg ?m x nx zs q 0" using q by (auto simp: seg_append nx_def)
  have nxz: "nx = (if zs = [] then 0 else hd zs)" using seg_hd [OF sz] .
  have nxx: "nx \<noteq> x" "nx \<noteq> y" using nxz dist ynot y0 seg_nonzero [OF q, of x] by (auto split: if_splits)
  define m' where "m' = (relink (?m(y := hdr)) nx y)(x := (?m x)\<lparr>hb_next := y, hb_size := size'\<rparr>)"
  have s': "s' = s\<lparr>hp_mem := m'\<rparr>"
    using big(2) nxx yx
    by (auto simp: s'_def HeapSplitBlock_def upd_block_def Let_def y_def [symmetric] hdr_def
        m'_def relink_def nx_def [symmetric])
  have mx: "m' x = (?m x)\<lparr>hb_next := y, hb_size := size'\<rparr>" by (simp add: m'_def)
  have my: "m' y = hdr" using yx nxx by (simp add: m'_def relink_other)
  have mz: "hb_size (m' z) = hb_size (?m z) \<and> hb_free (m' z) = hb_free (?m z)" if "z \<in> set (ys @ zs)" for z
    using that yz [OF that] dist by (auto simp: m'_def)
  have "seg m' 0 (g_heap_head s) ys r x = seg ?m 0 (g_heap_head s) ys r x" for r
    by (rule seg_cong) (use dist ynot nxz in \<open>auto simp: m'_def relink_def split: if_splits\<close>)
  moreover have "\<exists>q'. seg m' y nx zs q' 0"
  proof -
    have "\<exists>q'. seg (relink ?m nx y) y nx zs q' 0" using seg_relink [OF sz] dist by auto
    moreover have "seg m' y nx zs q' 0 = seg (relink ?m nx y) y nx zs q' 0" for q'
      by (rule seg_cong) (use dist ynot in \<open>auto simp: m'_def relink_def\<close>)
    ultimately show ?thesis by blast
  qed
  ultimately have seg': "\<exists>q'. seg m' 0 (g_heap_head s) (ys @ x # y # zs) q' 0"
    using q mx my y0 by (auto simp: seg_append hdr_def nx_def)
  have ex: "block_end m' x = unat y" "block_end m' y = block_end ?m x"
    using uy hsz big' by (auto simp: block_end_def mx my)
  have sub: "block_end m' x \<le> block_end ?m x" "unat x \<le> unat y" "block_end m' y \<le> block_end ?m x"
    using ex uy n by (simp_all add: block_end_def)
  have ap: "apart m' x z" "apart m' y z" if "z \<in> set (ys @ zs)" for z
    using extent_sub(2) [OF _ sub(1) apx [OF that]] extent_sub(2) [OF sub(2,3) apx [OF that]] mz [OF that] by auto
  have apxy: "apart m' x y" by (simp add: apart_def ex)
  have bz: "block_ok b m' z = block_ok b ?m z" if "z \<in> set (ys @ zs)" for b z
    using mz [OF that] by (simp add: block_ok_def block_end_def)
  have dj: "disjoint_blocks m' (ys @ zs)"
    using inv disjoint_cong [of "ys @ zs" m' ?m] mz by (auto simp: heap_inv_def disjoint_insert)
  have "disjoint_blocks m' (ys @ x # y # zs)"
    using disjoint_insert [of m' ys y zs] disjoint_insert [of m' ys x "y # zs"] dj ap apxy by auto
  moreover have "\<forall>z\<in>set (ys @ x # y # zs). block_ok (vm_pmm (hp_vm s)) m' z"
    using inv extent_sub(1) [OF _ sub(1) bok] extent_sub(1) [OF sub(2,3) bok] bz by (auto simp: heap_inv_def)
  moreover have "total_of m' (ys @ x # y # zs) = total_of ?m (ys @ x # zs)"
    using total_cong [of ys m' ?m] total_cong [of zs m' ?m] mz by (simp add: mx my hdr_def)
  moreover have "used_of m' (ys @ x # y # zs) = used_of ?m (ys @ x # zs)"
    using used_cong [of ys m' ?m] used_cong [of zs m' ?m] mz free by (simp add: mx my hdr_def)
  ultimately show "heap_inv s' (ys @ x # y # zs)"
    using inv seg' by (simp add: heap_inv_def s' del: total_simps used_simps)
  show "hb_size (hp_mem s' x) = size'" "hb_free (hp_mem s' x) \<noteq> 0" using free by (simp_all add: s' mx)
  show "allocated s' (ys @ x # y # zs) = allocated s (ys @ x # zs)"
    using mz free by (auto simp: allocated_def s' mx my hdr_def)
qed


lemma take_block_ok:
  assumes inv: "heap_inv s xs" and x: "x \<in> set xs" and free: "hb_free (hp_mem s x) \<noteq> 0"
    and fits: "size' \<le> hb_size (hp_mem s x)"
  shows "\<exists>xs' sz. heap_inv (snd (take_block x size' s)) xs' \<and> size' \<le> sz \<and> x \<in> set xs' \<and>
    (x, sz) \<notin> allocated s xs \<and>
    allocated (snd (take_block x size' s)) xs' = insert (x, sz) (allocated s xs) \<and>
    fst (take_block x size' s) = x + HEADER_SIZE"
proof -
  obtain ys zs where xs: "xs = ys @ x # zs" using x by (auto simp: in_set_conv_decomp)
  define t where "t = HeapSplitBlock x size' s"
  have "\<exists>ws. heap_inv t (ys @ x # ws) \<and> size' \<le> hb_size (hp_mem t x) \<and> hb_free (hp_mem t x) \<noteq> 0 \<and>
    allocated t (ys @ x # ws) = allocated s xs"
  proof (cases "hb_size (hp_mem s x) \<ge> size' + HEADER_SIZE + HEAP_MIN_BLOCK")
    case True
    have "heap_inv s (ys @ x # zs)" using inv xs by simp
    from split_ok [OF this free fits True] xs show ?thesis by (auto simp: t_def)
  next
    case False
    then have "t = s" by (simp add: t_def HeapSplitBlock_def)
    then show ?thesis using inv xs free fits by auto
  qed
  then obtain ws where ws: "heap_inv t (ys @ x # ws)" "size' \<le> hb_size (hp_mem t x)"
    "hb_free (hp_mem t x) \<noteq> 0" "allocated t (ys @ x # ws) = allocated s xs" by blast
  let ?m' = "(hp_mem t)(x := (hp_mem t x)\<lparr>hb_free := 0\<rparr>)"
  have d: "distinct (ys @ x # ws)" by (rule heap_inv_distinct [OF ws(1)])
  have "g_heap_used t + hb_size (hp_mem t x) = used_of ?m' (ys @ x # ws)"
    using used_free [OF d refl, of "hp_mem t" 0] ws(1,3) by (simp add: heap_inv_def del: used_simps)
  then have r: "take_block x size' s = (x + HEADER_SIZE,
      t\<lparr>hp_mem := ?m', g_heap_used := used_of ?m' (ys @ x # ws)\<rparr>)"
    by (simp add: take_block_def t_def [symmetric] upd_block_def Let_def del: used_simps)
  have i: "heap_inv (snd (take_block x size' s)) (ys @ x # ws)"
    unfolding r snd_conv by (rule heap_inv_free [OF ws(1) refl refl])
  have "allocated (snd (take_block x size' s)) (ys @ x # ws) = insert (x, hb_size (hp_mem t x)) (allocated t (ys @ x # ws))"
    using d ws(3) by (auto simp: r allocated_def simp del: used_simps)
  moreover have "(x, hb_size (hp_mem t x)) \<notin> allocated s xs"
    using free by (auto simp: allocated_def)
  moreover have "fst (take_block x size' s) = x + HEADER_SIZE" by (simp add: r)
  moreover have "x \<in> set (ys @ x # ws)" by simp
  ultimately show ?thesis using i ws(2,4) by metis
qed

section \<open>Coalescing\<close>

lemma merge_ok:
  assumes inv: "heap_inv s (ys @ x # n # zs)" and free: "hb_free (hp_mem s x) \<noteq> 0" "hb_free (hp_mem s n) \<noteq> 0"
    and adj: "x + HEADER_SIZE + hb_size (hp_mem s x) = n"
  defines "m' \<equiv> relink ((hp_mem s)(x := (hp_mem s x)\<lparr>hb_size := hb_size (hp_mem s x) + (HEADER_SIZE + hb_size (hp_mem s n)),
      hb_next := hb_next (hp_mem s n)\<rparr>)) (hb_next (hp_mem s n)) x"
  shows "heap_inv (s\<lparr>hp_mem := m'\<rparr>) (ys @ x # zs)" "hb_free (m' x) \<noteq> 0"
    and "allocated (s\<lparr>hp_mem := m'\<rparr>) (ys @ x # zs) = allocated s (ys @ x # n # zs)"
proof -
  let ?m = "hp_mem s" and ?b = "vm_pmm (hp_vm s)"
  obtain q where q: "seg ?m 0 (g_heap_head s) (ys @ x # n # zs) q 0" using inv by (auto simp: heap_inv_def)
  have bok: "block_ok ?b ?m x" "block_ok ?b ?m n" and lim: "highest_page ?b \<le> frame_limit"
    using inv by (auto simp: heap_inv_def)
  note ex = block_end_bound [OF bok(1) lim] and en = block_end_bound [OF bok(2) lim]
  have d: "distinct (ys @ x # n # zs)" by (rule heap_inv_distinct [OF inv])
  have un: "unat n = block_end ?m x"
    using ex unfolding adj [symmetric] by (simp add: block_end_def heap_consts unat_word_ariths)
  have "unat (hb_size (?m x)) < 2 ^ 36" "unat (hb_size (?m n)) < 2 ^ 36"
    using ex en by (simp_all add: block_end_def)
  then have sz: "unat (hb_size (?m x) + (HEADER_SIZE + hb_size (?m n))) =
      unat (hb_size (?m x)) + 40 + unat (hb_size (?m n))"
    by (simp add: heap_consts unat_word_ariths)
  define nx where "nx = hb_next (?m n)"
  have segz: "seg ?m n nx zs q 0" using q by (auto simp: seg_append nx_def)
  have nx: "nx = (if zs = [] then 0 else hd zs)" by (rule seg_hd [OF segz])
  have x0: "x \<noteq> 0" using seg_nonzero [OF q, of x] by simp
  have nxx: "nx \<noteq> x" using nx d x0 by (auto split: if_splits)
  have m'_eq: "m' = relink (?m(x := (?m x)\<lparr>hb_size := hb_size (?m x) + (HEADER_SIZE + hb_size (?m n)), hb_next := nx\<rparr>)) nx x"
    by (simp add: m'_def nx_def)
  have mx: "m' x = (?m x)\<lparr>hb_size := hb_size (?m x) + (HEADER_SIZE + hb_size (?m n)), hb_next := nx\<rparr>"
    using nxx by (simp add: m'_eq relink_other)
  have mz: "hb_size (m' z) = hb_size (?m z) \<and> hb_free (m' z) = hb_free (?m z)" if "z \<in> set (ys @ zs)" for z
    using that d by (auto simp: m'_eq)
  have "seg m' 0 (g_heap_head s) ys r x = seg ?m 0 (g_heap_head s) ys r x" for r
    by (rule seg_cong) (use d nx in \<open>auto simp: m'_eq relink_def split: if_splits\<close>)
  moreover have "\<exists>q'. seg m' x nx zs q' 0"
  proof -
    have "\<exists>q'. seg (relink ?m nx x) x nx zs q' 0" using seg_relink [OF segz] d by auto
    moreover have "seg m' x nx zs q' 0 = seg (relink ?m nx x) x nx zs q' 0" for q'
      by (rule seg_cong) (use d in \<open>auto simp: m'_eq relink_def\<close>)
    ultimately show ?thesis by blast
  qed
  ultimately have seg': "\<exists>q'. seg m' 0 (g_heap_head s) (ys @ x # zs) q' 0"
    using q mx by (auto simp: seg_append)
  have e': "block_end m' x = block_end ?m n" using un sz by (simp add: block_end_def mx)
  have "block_ok ?b m' x"
    unfolding block_ok_def
  proof (intro allI impI, elim conjE)
    fix i
    assume "unat x \<le> i" "i < block_end m' x"
    then show "byte_owned ?b i"
      using bok e' un by (cases "i < block_end ?m x") (auto simp: block_ok_def)
  qed
  moreover have "block_ok ?b m' z" if "z \<in> set (ys @ zs)" for z
    using inv that mz [OF that] by (auto simp: heap_inv_def block_ok_def block_end_def)
  ultimately have bok': "\<forall>z\<in>set (ys @ x # zs). block_ok ?b m' z" by auto
  have dj: "disjoint_blocks m' (ys @ zs)"
    using inv disjoint_cong [of "ys @ zs" m' ?m] mz by (auto simp: heap_inv_def disjoint_insert)
  have "apart m' x z" if "z \<in> set (ys @ zs)" for z
  proof -
    have "apart ?m x z" "apart ?m n z" using inv that by (auto simp: heap_inv_def disjoint_insert)
    moreover have "block_end m' z = block_end ?m z" "unat z < block_end ?m z"
      using mz [OF that] by (simp_all add: block_end_def)
    ultimately show ?thesis using e' un by (auto simp: apart_def)
  qed
  then have "disjoint_blocks m' (ys @ x # zs)" using dj by (simp add: disjoint_insert)
  moreover have "total_of m' (ys @ x # zs) = total_of ?m (ys @ x # n # zs)"
    using total_cong [of ys m' ?m] total_cong [of zs m' ?m] mz by (simp add: mx)
  moreover have "used_of m' (ys @ x # zs) = used_of ?m (ys @ x # n # zs)"
    using used_cong [of ys m' ?m] used_cong [of zs m' ?m] mz free by (simp add: mx)
  ultimately show "heap_inv (s\<lparr>hp_mem := m'\<rparr>) (ys @ x # zs)"
    using inv seg' bok' by (simp add: heap_inv_def del: total_simps used_simps)
  show "hb_free (m' x) \<noteq> 0" using free by (simp add: mx)
  show "allocated (s\<lparr>hp_mem := m'\<rparr>) (ys @ x # zs) = allocated s (ys @ x # n # zs)"
    using mz free by (auto simp: allocated_def mx)
qed

lemma coalesce_next_ok:
  assumes inv: "heap_inv s (ys @ x # zs)" and free: "hb_free (hp_mem s x) \<noteq> 0"
  shows "\<exists>ws. heap_inv (coalesce_next x s) (ys @ x # ws) \<and> hb_free (hp_mem (coalesce_next x s) x) \<noteq> 0 \<and>
    allocated (coalesce_next x s) (ys @ x # ws) = allocated s (ys @ x # zs)"
proof -
  obtain q where "seg (hp_mem s) 0 (g_heap_head s) (ys @ x # zs) q 0" using inv by (auto simp: heap_inv_def)
  then have sz: "seg (hp_mem s) x (hb_next (hp_mem s x)) zs q 0" by (auto simp: seg_append)
  let ?n = "hb_next (hp_mem s x)"
  show ?thesis
  proof (cases "?n \<noteq> 0 \<and> hb_magic (hp_mem s ?n) = HEAP_BLOCK_MAGIC \<and> hb_free (hp_mem s ?n) \<noteq> 0 \<and>
      x + HEADER_SIZE + hb_size (hp_mem s x) = ?n")
    case True
    then obtain ws where zs: "zs = ?n # ws" using seg_hd [OF sz] by (cases zs) auto
    have inv': "heap_inv s (ys @ x # ?n # ws)" using inv zs by metis
    have "?n \<noteq> x" using heap_inv_distinct [OF inv'] by auto
    define m' where "m' = relink ((hp_mem s)(x := (hp_mem s x)\<lparr>hb_size := hb_size (hp_mem s x) +
        (HEADER_SIZE + hb_size (hp_mem s ?n)), hb_next := hb_next (hp_mem s ?n)\<rparr>)) (hb_next (hp_mem s ?n)) x"
    have "coalesce_next x s = s\<lparr>hp_mem := m'\<rparr>"
      using True \<open>?n \<noteq> x\<close> by (auto simp: coalesce_next_def upd_block_def Let_def relink_def m'_def)
    moreover have "hb_free (hp_mem s ?n) \<noteq> 0" "x + HEADER_SIZE + hb_size (hp_mem s x) = ?n" using True by simp_all
    note merge_ok [OF inv' free this, folded m'_def]
    ultimately show ?thesis using zs by auto
  next
    case False
    then have "coalesce_next x s = s" by (auto simp: coalesce_next_def Let_def)
    then show ?thesis using inv free by auto
  qed
qed

lemma coalesce_prev_ok:
  assumes inv: "heap_inv s (ys @ x # zs)" and free: "hb_free (hp_mem s x) \<noteq> 0"
  shows "\<exists>ws. heap_inv (coalesce_prev x s) ws \<and> allocated (coalesce_prev x s) ws = allocated s (ys @ x # zs)"
proof -
  obtain q r where q: "seg (hp_mem s) 0 (g_heap_head s) ys r x" and p: "hb_prev (hp_mem s x) = r"
    using inv by (auto simp: heap_inv_def seg_append)
  let ?p = "hb_prev (hp_mem s x)"
  show ?thesis
  proof (cases "?p \<noteq> 0 \<and> hb_magic (hp_mem s ?p) = HEAP_BLOCK_MAGIC \<and> hb_free (hp_mem s ?p) \<noteq> 0 \<and>
      ?p + HEADER_SIZE + hb_size (hp_mem s ?p) = x")
    case True
    then obtain ws where ys: "ys = ws @ [?p]" using seg_last [OF q] p by (cases ys rule: rev_cases) auto
    have inv': "heap_inv s (ws @ ?p # x # zs)" using inv ys by (metis append.assoc append_Cons append_Nil)
    have "?p \<noteq> x" using heap_inv_distinct [OF inv'] by auto
    define m' where "m' = relink ((hp_mem s)(?p := (hp_mem s ?p)\<lparr>hb_size := hb_size (hp_mem s ?p) +
        (HEADER_SIZE + hb_size (hp_mem s x)), hb_next := hb_next (hp_mem s x)\<rparr>)) (hb_next (hp_mem s x)) ?p"
    have "coalesce_prev x s = s\<lparr>hp_mem := m'\<rparr>"
      using True \<open>?p \<noteq> x\<close> by (auto simp: coalesce_prev_def upd_block_def Let_def relink_def m'_def)
    moreover have "hb_free (hp_mem s ?p) \<noteq> 0" "?p + HEADER_SIZE + hb_size (hp_mem s ?p) = x" using True by simp_all
    note merge_ok [OF inv' this(1) free this(2), folded m'_def]
    moreover have "ws @ ?p # x # zs = ys @ x # zs" using ys by simp
    ultimately show ?thesis by metis
  next
    case False
    then have "coalesce_prev x s = s" by (auto simp: coalesce_prev_def Let_def)
    then show ?thesis using inv by auto
  qed
qed


section \<open>Sizes\<close>

lemma and_not_mask: "(x :: 'a::len word) AND NOT (mask n) = push_bit n (drop_bit n x)"
  by (rule bit_word_eqI) (auto simp: bit_simps)

lemma unat_round_size:
  assumes "unat n \<le> 2 ^ 62"
  shows "unat (round_size n) = (unat n + 15) div 16 * 16"
proof -
  have "round_size n = push_bit 4 (drop_bit 4 (n + 15))"
    using and_not_mask [of "n + 15" 4] by (simp add: round_size_def HEAP_ALIGN_def mask_eq_exp_minus_1 add.commute)
  moreover have u: "unat (n + 15) = unat n + 15" using assms by (simp add: unat_word_ariths)
  have "unat (drop_bit 4 (n + 15)) = (unat n + 15) div 16"
    by (simp only: drop_bit_eq_div unat_div u) simp
  moreover have "(unat n + 15) div 16 * 16 \<le> unat n + 15" by simp
  then have "(unat n + 15) div 16 * 16 < 2 ^ 64" using assms by simp
  ultimately show ?thesis
    by (simp add: push_bit_eq_mult unat_word_ariths)
qed

lemma round_size_facts:
  assumes "unat n \<le> 2 ^ 39" "n \<noteq> 0"
  shows "n \<le> round_size n" "round_size (round_size n) = round_size n" "round_size n \<noteq> 0"
    and "unat (round_size n) \<le> 2 ^ 40"
proof -
  have u: "unat (round_size n) = (unat n + 15) div 16 * 16" using assms(1) by (intro unat_round_size) simp
  have "unat n \<le> (unat n + 15) div 16 * 16" by presburger
  then show le: "n \<le> round_size n" by (simp add: word_le_nat_alt u)
  show "round_size n \<noteq> 0" using le assms(2) by (auto simp: word_le_nat_alt unat_eq_zero)
  have "(unat n + 15) div 16 * 16 \<le> unat n + 15" by simp
  then have small: "unat (round_size n) \<le> 2 ^ 39 + 15" using u assms(1) by linarith
  then show "unat (round_size n) \<le> 2 ^ 40" by simp
  have "unat (round_size (round_size n)) = (unat (round_size n) + 15) div 16 * 16"
    using small by (intro unat_round_size) simp
  also have "\<dots> = unat (round_size n)" unfolding u by presburger
  finally show "round_size (round_size n) = round_size n" by (simp add: word_unat_eq_iff)
qed

section \<open>Allocation and release\<close>

text \<open>The heap as its clients see it: the set of allocated blocks, address and size.\<close>

definition heap_ok :: "heap \<Rightarrow> (u64 \<times> u64) set \<Rightarrow> bool" where
  "heap_ok s A \<longleftrightarrow> (\<exists>xs. heap_inv s xs \<and> A = allocated s xs)"

definition regions_apart :: "u64 \<times> u64 \<Rightarrow> u64 \<times> u64 \<Rightarrow> bool" where
  "regions_apart r q \<longleftrightarrow> unat (fst r) + 40 + unat (snd r) \<le> unat (fst q) \<or>
     unat (fst q) + 40 + unat (snd q) \<le> unat (fst r)"

lemma heap_ok_apart:
  assumes "heap_ok s A" "r \<in> A" "q \<in> A" "r \<noteq> q"
  shows "regions_apart r q"
proof -
  obtain xs where xs: "heap_inv s xs" "A = allocated s xs" using assms(1) by (auto simp: heap_ok_def)
  then obtain x y where xy: "r = (x, hb_size (hp_mem s x))" "q = (y, hb_size (hp_mem s y))"
    "x \<in> set xs" "y \<in> set xs" "x \<noteq> y"
    using assms(2-4) by (auto simp: allocated_def)
  obtain ys zs where "xs = ys @ x # zs" using xy(3) by (auto simp: in_set_conv_decomp)
  then have "apart (hp_mem s) x y" using xs(1) xy by (auto simp: heap_inv_def disjoint_insert)
  then show ?thesis by (simp add: xy regions_apart_def apart_def block_end_def)
qed

lemma heap_ok_backed:
  assumes "heap_ok s A" "(a, n) \<in> A" "unat a \<le> i" "i < unat a + 40 + unat n"
  shows "byte_owned (vm_pmm (hp_vm s)) i"
  using assms by (auto simp: heap_ok_def heap_inv_def allocated_def block_ok_def block_end_def)

lemma alloc_found:
  assumes inv: "heap_inv s xs" and n: "n \<noteq> 0" "round_size n = n'"
    and room: "\<exists>x\<in>set xs. hb_free (hp_mem s x) \<noteq> 0 \<and> n' \<le> hb_size (hp_mem s x)"
  shows "\<exists>x s' sz. KmAlloc n s = Some (x + HEADER_SIZE, s') \<and> n' \<le> sz \<and> (x, sz) \<notin> allocated s xs \<and>
    heap_ok s' (insert (x, sz) (allocated s xs))"
proof -
  obtain q where q: "seg (hp_mem s) 0 (g_heap_head s) xs q 0" using inv by (auto simp: heap_inv_def)
  let ?P = "\<lambda>x. hb_free (hp_mem s x) \<noteq> 0 \<and> n' \<le> hb_size (hp_mem s x)"
  obtain x where x: "find ?P xs = Some x" using room by (cases "find ?P xs") (auto simp: find_None_iff)
  then have xx: "x \<in> set xs" "?P x" by (auto simp: find_Some_iff)
  have "KmAlloc n s = Some (take_block x n' s)"
    using find_block_seg [OF q, of n'] x n seg_nonzero [OF q xx(1)] by (subst KmAlloc.simps) simp
  moreover obtain xs' sz where "heap_inv (snd (take_block x n' s)) xs'" "n' \<le> sz" "(x, sz) \<notin> allocated s xs"
    "allocated (snd (take_block x n' s)) xs' = insert (x, sz) (allocated s xs)"
    "fst (take_block x n' s) = x + HEADER_SIZE"
    using take_block_ok [OF inv xx(1)] xx(2) by blast
  ultimately show ?thesis
    unfolding heap_ok_def by (metis prod.collapse)
qed

lemma alloc_grown:
  assumes inv: "heap_inv s xs" and n: "unat n \<le> 2 ^ 39" "n \<noteq> 0"
    and none: "\<not> (\<exists>x\<in>set xs. hb_free (hp_mem s x) \<noteq> 0 \<and> round_size n \<le> hb_size (hp_mem s x))"
    and alloc: "fst (PmmAllocPages ((round_size n + HEADER_SIZE + PAGE_SIZE - 1) div PAGE_SIZE) (vm_pmm (hp_vm s))) \<noteq> 0"
  shows "\<exists>x s' sz. KmAlloc n s = Some (x + HEADER_SIZE, s') \<and> round_size n \<le> sz \<and> (x, sz) \<notin> allocated s xs \<and>
    heap_ok s' (insert (x, sz) (allocated s xs))"
proof -
  note f = round_size_facts [OF n]
  obtain q where q: "seg (hp_mem s) 0 (g_heap_head s) xs q 0" using inv by (auto simp: heap_inv_def)
  obtain t v where t: "HeapExpand (round_size n) s = Some t" "heap_inv t (xs @ [v])"
    "hb_free (hp_mem t v) \<noteq> 0" "unat (round_size n) \<le> unat (hb_size (hp_mem t v))"
    "\<forall>x\<in>set xs. hb_size (hp_mem t x) = hb_size (hp_mem s x) \<and> hb_free (hp_mem t x) = hb_free (hp_mem s x)"
    using HeapExpand_ok [OF inv f(4) alloc] by blast
  have same: "allocated t (xs @ [v]) = allocated s xs" using t(3,5) by (auto simp: allocated_def)
  have "find (\<lambda>x. hb_free (hp_mem s x) \<noteq> 0 \<and> round_size n \<le> hb_size (hp_mem s x)) xs = None"
    using none by (auto simp: find_None_iff)
  then have "KmAlloc n s = KmAlloc (round_size n) t"
    using find_block_seg [OF q, of "round_size n"] n(2) t(1) by (subst KmAlloc.simps) simp
  moreover have "\<exists>x s' sz. KmAlloc (round_size n) t = Some (x + HEADER_SIZE, s') \<and> round_size n \<le> sz \<and>
      (x, sz) \<notin> allocated t (xs @ [v]) \<and> heap_ok s' (insert (x, sz) (allocated t (xs @ [v])))"
    by (rule alloc_found [OF t(2) f(3,2)]) (use t(3,4) in \<open>auto simp: word_le_nat_alt\<close>)
  ultimately show ?thesis by (simp only: same)
qed

text \<open>The pointer past a header is not \<open>NULL\<close>.\<close>

lemma heap_inv_pointer:
  assumes "heap_inv s xs" "x \<in> set xs"
  shows "x + HEADER_SIZE \<noteq> 0"
proof
  assume "x + HEADER_SIZE = 0"
  then have "unat (x + 40) = 0" by (simp add: HEADER_SIZE_def)
  moreover have "block_ok (vm_pmm (hp_vm s)) (hp_mem s) x" "highest_page (vm_pmm (hp_vm s)) \<le> frame_limit"
    using assms by (auto simp: heap_inv_def)
  from block_end_bound [OF this] have "unat (x + 40) = unat x + 40" by (simp add: unat_word_ariths block_end_def)
  ultimately show False by simp
qed

lemma heap_ok_pointer: "heap_ok s A \<Longrightarrow> (x, sz) \<in> A \<Longrightarrow> x + HEADER_SIZE \<noteq> 0"
  using heap_inv_pointer by (auto simp: heap_ok_def allocated_def)

section \<open>Properties\<close>

text \<open>\<open>KmAlloc\<close> has memory for a request.\<close>

definition heap_room :: "u64 \<Rightarrow> heap \<Rightarrow> bool" where
  "heap_room n s \<longleftrightarrow> fst (PmmAllocPages ((round_size n + HEADER_SIZE + PAGE_SIZE - 1) div PAGE_SIZE) (vm_pmm (hp_vm s))) \<noteq> 0"

text \<open>A request of up to 2^39 bytes, when the page allocator can still provide the pages that an
  expansion for it would take, returns (it neither panics nor loops) a pointer past the header of a block at
  least as large as the request, which shares no byte, header included, with any block that
  was allocated before; those stay allocated with their sizes, and the block list, the two
  counters and the ownership of the pages stay consistent.\<close>

theorem KmAlloc_correct:
  assumes "heap_ok s A" "unat n \<le> 2 ^ 39" "n \<noteq> 0" "heap_room n s"
  shows "\<exists>x s' sz. KmAlloc n s = Some (x + HEADER_SIZE, s') \<and> n \<le> sz \<and>
    heap_ok s' (insert (x, sz) A) \<and> (\<forall>r\<in>A. regions_apart (x, sz) r)"
proof -
  obtain xs where xs: "heap_inv s xs" "A = allocated s xs" using assms(1) by (auto simp: heap_ok_def)
  note f = round_size_facts [OF assms(2,3)]
  have "\<exists>x s' sz. KmAlloc n s = Some (x + HEADER_SIZE, s') \<and> round_size n \<le> sz \<and> (x, sz) \<notin> A \<and>
      heap_ok s' (insert (x, sz) A)"
    using alloc_found [OF xs(1) assms(3) refl] alloc_grown [OF xs(1) assms(2,3)] assms(4)
    unfolding heap_room_def xs(2) by blast
  then obtain x s' sz where r: "KmAlloc n s = Some (x + HEADER_SIZE, s')" "round_size n \<le> sz" "(x, sz) \<notin> A"
    "heap_ok s' (insert (x, sz) A)" by blast
  have "regions_apart (x, sz) r" if "r \<in> A" for r
    by (rule heap_ok_apart [OF r(4)]) (use that r(3) in auto)
  then show ?thesis using r f(1) by (meson order_trans)
qed

text \<open>Releasing an allocated block returns, takes exactly that block out of the set of allocated
  blocks, and keeps the heap consistent through the coalescing with both neighbours.\<close>

theorem KmFree_correct:
  assumes "heap_ok s A" "(x, sz) \<in> A"
  shows "\<exists>s'. KmFree (x + HEADER_SIZE) s = Some s' \<and> heap_ok s' (A - {(x, sz)})"
proof -
  obtain xs where xs: "heap_inv s xs" "A = allocated s xs" using assms(1) by (auto simp: heap_ok_def)
  then have x: "x \<in> set xs" "hb_free (hp_mem s x) = 0" "sz = hb_size (hp_mem s x)"
    using assms(2) by (auto simp: allocated_def)
  obtain ys zs where d: "xs = ys @ x # zs" using x(1) by (auto simp: in_set_conv_decomp)
  note inv = xs(1) [unfolded d]
  obtain q where q: "seg (hp_mem s) 0 (g_heap_head s) (ys @ x # zs) q 0" using inv by (auto simp: heap_inv_def)
  have ptr: "x + HEADER_SIZE \<noteq> 0" by (rule heap_inv_pointer [OF xs(1) x(1)])
  define m' where "m' = (hp_mem s)(x := (hp_mem s x)\<lparr>hb_free := 1\<rparr>)"
  define t where "t = s\<lparr>hp_mem := m', g_heap_used := g_heap_used s - hb_size (hp_mem s x)\<rparr>"
  have dist: "distinct (ys @ x # zs)" by (rule heap_inv_distinct [OF inv])
  have "g_heap_used s - hb_size (hp_mem s x) = used_of m' (ys @ x # zs)"
    using used_free [OF dist m'_def] inv x(2) by (simp add: heap_inv_def eq_diff_eq diff_eq_eq del: used_simps)
  then have t: "heap_inv t (ys @ x # zs)"
    using heap_inv_free [OF inv m'_def refl] by (simp add: t_def)
  have free: "hb_free (hp_mem t x) \<noteq> 0" by (simp add: t_def m'_def)
  have "KmFree (x + HEADER_SIZE) s = Some (HeapCoalesce x t)"
    using ptr x(2) seg_magic [OF q, of x] by (simp add: KmFree_def Let_def upd_block_def t_def m'_def)
  moreover have "allocated t (ys @ x # zs) = A - {(x, sz)}"
    using dist x d unfolding xs(2) by (auto simp: allocated_def t_def m'_def)
  moreover obtain ws where "heap_inv (coalesce_next x t) (ys @ x # ws)" "hb_free (hp_mem (coalesce_next x t) x) \<noteq> 0"
    "allocated (coalesce_next x t) (ys @ x # ws) = allocated t (ys @ x # zs)"
    using coalesce_next_ok [OF t free] by blast
  moreover from coalesce_prev_ok [OF this(1,2)] obtain us where
    "heap_inv (HeapCoalesce x t) us" "allocated (HeapCoalesce x t) us = allocated (coalesce_next x t) (ys @ x # ws)"
    by (auto simp: HeapCoalesce_def)
  ultimately show ?thesis unfolding heap_ok_def by metis
qed

text \<open>Start-up: the empty heap takes its first pages.\<close>

lemma HeapInit_ok:
  assumes "g_vmm_active (hp_vm s)" "pmm_ok (vm_pmm (hp_vm s))" "highest_page (vm_pmm (hp_vm s)) \<le> frame_limit"
    and "fst (PmmAllocPages 5 (vm_pmm (hp_vm s))) \<noteq> 0"
  shows "\<exists>s'. HeapInit s = Some s' \<and> heap_ok s' {}"
proof -
  let ?s = "s\<lparr>g_heap_head := 0, g_heap_total := 0, g_heap_used := 0\<rparr>"
  have inv: "heap_inv ?s []" using assms(1-3) by (simp add: heap_inv_def)
  have "\<exists>s' v. HeapExpand (PAGE_SIZE * 4) ?s = Some s' \<and> heap_inv s' ([] @ [v]) \<and> v \<notin> set [] \<and>
    hb_free (hp_mem s' v) \<noteq> 0 \<and> unat (PAGE_SIZE * 4) \<le> unat (hb_size (hp_mem s' v)) \<and>
    (\<forall>x\<in>set []. hb_size (hp_mem s' x) = hb_size (hp_mem ?s x) \<and> hb_free (hp_mem s' x) = hb_free (hp_mem ?s x))"
    by (rule HeapExpand_ok [OF inv]) (use assms(4) in \<open>simp_all add: heap_consts\<close>)
  then obtain s' v where "HeapInit s = Some s'" "heap_inv s' [v]" "hb_free (hp_mem s' v) \<noteq> 0"
    by (auto simp: HeapInit_def)
  moreover from this have "allocated s' [v] = {}" by (simp add: allocated_def)
  ultimately show ?thesis unfolding heap_ok_def by metis
qed

text \<open>A request in the last 15 bytes of the address space is rounded up to 0.\<close>

lemma round_size_wraps: "round_size (- 1) = 0"
  by (simp add: round_size_def HEAP_ALIGN_def)

definition heap_empty :: heap where
  "heap_empty = \<lparr>hp_mem = (\<lambda>_. \<lparr>hb_magic = 0, hb_size = 0, hb_free = 0, hb_pad = 0, hb_next = 0, hb_prev = 0\<rparr>),
     g_heap_head = 0, g_heap_total = 0, g_heap_used = 0,
     hp_vm = vm_small\<lparr>g_vmm_active := True, vm_pmm := pmm_small\<rparr>\<rparr>"

lemma heap_empty_ok: "heap_ok heap_empty {}"
proof -
  have "heap_inv heap_empty []" by (simp add: heap_inv_def heap_empty_def) (simp add: pmm_small_def)
  then show ?thesis by (auto simp: heap_ok_def allocated_def)
qed

lemma heap_empty_room: "heap_room 100 heap_empty"
  by (simp add: heap_room_def heap_empty_def round_size_def heap_consts PmmAllocPages_def PmmAllocPage_def
      pmm_small_def BITMAP_TEST_def BITMAP_OFFSET_def upt_rec drop_bit_eq_div)

theorem KmAlloc_correct_witness:
  "\<exists>x s' sz. KmAlloc 100 heap_empty = Some (x + HEADER_SIZE, s') \<and> 100 \<le> sz \<and> heap_ok s' {(x, sz)}"
  using KmAlloc_correct [OF heap_empty_ok _ _ heap_empty_room] by auto

text \<open>One block, allocated, in a page in use.\<close>

definition heap_one :: heap where
  "heap_one = heap_empty\<lparr>hp_mem := (hp_mem heap_empty)(0xFFFF800000000000 :=
     \<lparr>hb_magic = HEAP_BLOCK_MAGIC, hb_size = 64, hb_free = 0, hb_pad = 0, hb_next = 0, hb_prev = 0\<rparr>),
     g_heap_head := 0xFFFF800000000000, g_heap_total := 104, g_heap_used := 64\<rparr>"

lemma heap_one_ok: "heap_ok heap_one {(0xFFFF800000000000, 64)}"
proof -
  have "byte_owned (vm_pmm (hp_vm heap_one)) i" if "phys_base \<le> i" "i < phys_base + 104" for i
  proof -
    have "(i - phys_base) div 4096 = 0" using that by simp
    then show ?thesis using that pmm_small_ok
      by (simp add: byte_owned_def heap_one_def heap_empty_def pmm_ok_def) (simp add: pmm_small_def)
  qed
  then have "heap_inv heap_one [0xFFFF800000000000]"
    by (simp add: heap_inv_def heap_one_def heap_empty_def block_ok_def block_end_def HEADER_SIZE_def)
      (simp add: pmm_small_def)
  then show ?thesis
    by (auto simp: heap_ok_def allocated_def heap_one_def intro!: exI [of _ "[0xFFFF800000000000]"])
qed

theorem KmFree_correct_witness:
  "\<exists>s'. KmFree (0xFFFF800000000000 + HEADER_SIZE) heap_one = Some s' \<and> heap_ok s' {}"
  using KmFree_correct [OF heap_one_ok] by auto

end
