(* ===== verification/Heap_Clients.thy ===== *)
theory Heap_Clients
  imports Heap
begin

text \<open>
  A heap as its clients use it: any order of requests and releases.  \<open>heap_calls\<close> runs such a
  sequence; a client releases what it holds, by position, and \<open>None\<close> is the panic of a request for
  which there is no memory.  The contract of an allocator is the locale \<open>block_heap\<close>; that the
  clients own what they hold is proved once from it, and holds of the kernel's heap by interpretation (and of the
  heap of a user program, in \<open>Ul_Malloc\<close>).
\<close>

section \<open>Requests and releases\<close>

datatype heap_call = Request u64 | Release nat

text \<open>What is held: the pointers, newest first, with the lengths that were asked for.\<close>

fun heap_calls ::
  "(u64 \<Rightarrow> 'h \<Rightarrow> (u64 \<times> 'h) option) \<Rightarrow> (u64 \<Rightarrow> 'h \<Rightarrow> 'h option) \<Rightarrow> heap_call list \<Rightarrow> 'h \<times> (u64 \<times> u64) list \<Rightarrow>
    ('h \<times> (u64 \<times> u64) list) option" where
  "heap_calls alloc release [] hs = Some hs"
| "heap_calls alloc release (Request n # cs) (h, held) =
    (case alloc n h of None \<Rightarrow> None | Some (p, h) \<Rightarrow> heap_calls alloc release cs (h, (p, n) # held))"
| "heap_calls alloc release (Release i # cs) (h, held) =
    (if i < length held
     then (case release (fst (held ! i)) h of None \<Rightarrow> None | Some h \<Rightarrow> heap_calls alloc release cs (h, take i held @ drop (Suc i) held))
     else heap_calls alloc release cs (h, held))"

fun requests :: "heap_call list \<Rightarrow> nat" where
  "requests [] = 0"
| "requests (Request n # cs) = Suc (requests cs)"
| "requests (Release i # cs) = requests cs"

section \<open>The contract\<close>

text \<open>
  \<open>ok k h A\<close>: the heap is consistent, \<open>A\<close> are the allocated blocks (address of the header and size),
  and it has addresses for \<open>k\<close> more requests of at most \<open>lim\<close> bytes.
\<close>

locale block_heap =
  fixes ok :: "nat \<Rightarrow> 'h \<Rightarrow> (u64 \<times> u64) set \<Rightarrow> bool"
    and alloc :: "u64 \<Rightarrow> 'h \<Rightarrow> (u64 \<times> 'h) option" and release :: "u64 \<Rightarrow> 'h \<Rightarrow> 'h option"
    and hdr :: u64 and lim :: nat
  assumes alloc_block: "ok (Suc k) h A \<Longrightarrow> alloc n h = Some (p, h') \<Longrightarrow> 0 < n \<Longrightarrow> unat n \<le> lim \<Longrightarrow>
      \<exists>x sz. p = x + hdr \<and> n \<le> sz \<and> (x, sz) \<notin> A \<and> ok k h' (insert (x, sz) A)"
    and release_block: "ok k h A \<Longrightarrow> (x, sz) \<in> A \<Longrightarrow> \<exists>h'. release (x + hdr) h = Some h' \<and> ok k h' (A - {(x, sz)})"
    and blocks_apart: "ok k h A \<Longrightarrow> r \<in> A \<Longrightarrow> q \<in> A \<Longrightarrow> r \<noteq> q \<Longrightarrow>
      unat (fst r) + unat hdr + unat (snd r) \<le> unat (fst q) \<or> unat (fst q) + unat hdr + unat (snd q) \<le> unat (fst r)"
    and block_bytes: "ok k h A \<Longrightarrow> (x, sz) \<in> A \<Longrightarrow> unat (x + hdr) = unat x + unat hdr"
begin

text \<open>\<open>blocks_of held bs\<close>: the blocks behind the pointers, in the same order.\<close>

definition blocks_of :: "(u64 \<times> u64) list \<Rightarrow> (u64 \<times> u64) list \<Rightarrow> bool" where
  "blocks_of held bs \<longleftrightarrow> list_all2 (\<lambda>(p, n) (x, sz). p = x + hdr \<and> n \<le> sz) held bs"

definition held_ok :: "(u64 \<times> u64) set \<Rightarrow> nat \<Rightarrow> 'h \<Rightarrow> (u64 \<times> u64) list \<Rightarrow> bool" where
  "held_ok A k h held \<longleftrightarrow> (\<exists>bs. blocks_of held bs \<and> distinct bs \<and> set bs \<inter> A = {} \<and> ok k h (A \<union> set bs))"

lemma request_ok:
  assumes "held_ok A (Suc k) h held" "alloc n h = Some (p, h')" "0 < n" "unat n \<le> lim"
  shows "held_ok A k h' ((p, n) # held)"
proof -
  obtain bs where bs: "blocks_of held bs" "distinct bs" "set bs \<inter> A = {}" "ok (Suc k) h (A \<union> set bs)"
    using assms(1) by (auto simp: held_ok_def)
  obtain x sz where x: "p = x + hdr" "n \<le> sz" "(x, sz) \<notin> A \<union> set bs" "ok k h' (insert (x, sz) (A \<union> set bs))"
    using alloc_block [OF bs(4) assms(2-4)] by blast
  then show ?thesis
    unfolding held_ok_def using bs by (intro exI [of _ "(x, sz) # bs"]) (auto simp: blocks_of_def)
qed

lemma release_ok:
  assumes "held_ok A k h held" "i < length held"
  shows "\<exists>h'. release (fst (held ! i)) h = Some h' \<and> held_ok A k h' (take i held @ drop (Suc i) held)"
proof -
  obtain bs where bs: "blocks_of held bs" "distinct bs" "set bs \<inter> A = {}" "ok k h (A \<union> set bs)" using assms(1) by (auto simp: held_ok_def)
  have len: "length bs = length held" using bs(1) by (simp add: blocks_of_def list_all2_lengthD)
  have i: "i < length bs" using assms(2) len by simp
  obtain x sz where x: "bs ! i = (x, sz)" by fastforce
  have p: "fst (held ! i) = x + hdr" using list_all2_nthD [OF bs(1) [unfolded blocks_of_def] assms(2)] x by (auto split: prod.splits)
  have xin: "(x, sz) \<in> set bs" using nth_mem [OF i] x by simp
  then have "(x, sz) \<in> A \<union> set bs" by blast
  from release_block [OF bs(4) this] obtain h' where h': "release (x + hdr) h = Some h'" "ok k h' (A \<union> set bs - {(x, sz)})" by blast
  let ?bs = "take i bs @ drop (Suc i) bs"
  have split: "bs = take i bs @ (x, sz) # drop (Suc i) bs" using id_take_nth_drop [OF i] x by simp
  then have d: "distinct (take i bs @ (x, sz) # drop (Suc i) bs)" using bs(2) by simp
  have "set bs = set (take i bs @ (x, sz) # drop (Suc i) bs)" using split by metis
  then have "set ?bs = set bs - {(x, sz)}" using d by auto
  moreover have "(x, sz) \<notin> A" using bs(3) xin by blast
  ultimately have "A \<union> set ?bs = A \<union> set bs - {(x, sz)}" by blast
  moreover have "set ?bs \<inter> A = {}" using bs(3) by (auto dest: in_set_takeD in_set_dropD)
  moreover have "distinct ?bs" using d by auto
  moreover have "blocks_of (take i held @ drop (Suc i) held) ?bs"
    using bs(1) unfolding blocks_of_def by (intro list_all2_appendI list_all2_takeI list_all2_dropI)
  ultimately show ?thesis using h' p unfolding held_ok_def by (intro exI [of _ h'] conjI exI [of _ ?bs]) simp_all
qed

lemma heap_calls_ok:
  assumes "heap_calls alloc release cs (h, held) = Some (h', held')" "held_ok A (requests cs + k) h held"
    and "\<forall>n. Request n \<in> set cs \<longrightarrow> 0 < n \<and> unat n \<le> lim"
  shows "held_ok A k h' held'"
  using assms
proof (induction cs arbitrary: h held)
  case (Cons c cs)
  show ?case
  proof (cases c)
    case (Request n)
    then obtain p g where g: "alloc n h = Some (p, g)" "heap_calls alloc release cs (g, (p, n) # held) = Some (h', held')"
      using Cons.prems(1) by (auto split: option.splits)
    have "held_ok A (Suc (requests cs + k)) h held" using Cons.prems(2) Request by simp
    from request_ok [OF this g(1)] show ?thesis by (intro Cons.IH [OF g(2)]) (use Cons.prems(3) Request in auto)
  next
    case (Release i)
    show ?thesis
    proof (cases "i < length held")
      case True
      obtain g where g: "release (fst (held ! i)) h = Some g" "held_ok A (requests cs + k) g (take i held @ drop (Suc i) held)"
        using release_ok [OF _ True] Cons.prems(2) Release by fastforce
      show ?thesis by (rule Cons.IH [OF _ g(2)]) (use Cons.prems(1,3) Release True g(1) in auto)
    next
      case False
      then show ?thesis using Cons.IH [of h held] Cons.prems Release by simp
    qed
  qed
qed simp

text \<open>Each pointer held has its bytes to itself.\<close>

lemma exclusive:
  assumes "ok (requests cs) h A" "\<forall>n. Request n \<in> set cs \<longrightarrow> 0 < n \<and> unat n \<le> lim" "heap_calls alloc release cs (h, []) = Some (h', held)"
  shows "(\<forall>i<length held. \<forall>j<length held. i \<noteq> j \<longrightarrow>
      unat (fst (held ! i)) + unat (snd (held ! i)) \<le> unat (fst (held ! j)) \<or> unat (fst (held ! j)) + unat (snd (held ! j)) \<le> unat (fst (held ! i)))
    \<and> (\<forall>i<length held. \<forall>(y, m)\<in>A. unat (fst (held ! i)) + unat (snd (held ! i)) \<le> unat y \<or> unat y + unat hdr + unat m \<le> unat (fst (held ! i)))
    \<and> (\<forall>i<length held. \<exists>g B. release (fst (held ! i)) h' = Some g \<and> ok 0 g B \<and> A \<subseteq> B)"
proof -
  have "held_ok A (requests cs + 0) h []" using assms(1) by (simp add: held_ok_def blocks_of_def)
  from heap_calls_ok [OF assms(3) this assms(2)] have held: "held_ok A 0 h' held" .
  then obtain bs where bs: "blocks_of held bs" "distinct bs" "set bs \<inter> A = {}" "ok 0 h' (A \<union> set bs)" by (auto simp: held_ok_def)
  have len: "length bs = length held" using bs(1) by (simp add: blocks_of_def list_all2_lengthD)
  have at: "unat (fst (held ! i)) = unat (fst (bs ! i)) + unat hdr" "unat (snd (held ! i)) \<le> unat (snd (bs ! i))" "bs ! i \<in> set bs"
    if "i < length held" for i
  proof -
    obtain p n x sz where e: "held ! i = (p, n)" "bs ! i = (x, sz)" by fastforce
    then have r: "p = x + hdr" "n \<le> sz" using list_all2_nthD [OF bs(1) [unfolded blocks_of_def] that] by auto
    show m: "bs ! i \<in> set bs" using that len by simp
    show "unat (fst (held ! i)) = unat (fst (bs ! i)) + unat hdr" using block_bytes [OF bs(4), of x sz] m e r(1) by simp
    show "unat (snd (held ! i)) \<le> unat (snd (bs ! i))" using r(2) e by (simp add: word_le_nat_alt)
  qed
  show ?thesis
  proof (intro conjI allI impI ballI)
    fix i j
    assume ij: "i < length held" "j < length held" "i \<noteq> j"
    have ne: "bs ! i \<noteq> bs ! j" using ij bs(2) len by (simp add: nth_eq_iff_index_eq)
    show "unat (fst (held ! i)) + unat (snd (held ! i)) \<le> unat (fst (held ! j)) \<or>
        unat (fst (held ! j)) + unat (snd (held ! j)) \<le> unat (fst (held ! i))"
      using blocks_apart [OF bs(4) _ _ ne] at [OF ij(1)] at [OF ij(2)] by fastforce
  next
    fix i r
    assume i: "i < length held" and r: "r \<in> A"
    have ne: "bs ! i \<noteq> r" using r bs(3) at(3) [OF i] by blast
    show "case r of (y, m) \<Rightarrow> unat (fst (held ! i)) + unat (snd (held ! i)) \<le> unat y \<or> unat y + unat hdr + unat m \<le> unat (fst (held ! i))"
      using blocks_apart [OF bs(4) _ _ ne] at [OF i] r by (auto split: prod.splits)
  next
    fix i
    assume i: "i < length held"
    show "\<exists>g B. release (fst (held ! i)) h' = Some g \<and> ok 0 g B \<and> A \<subseteq> B"
      using release_ok [OF held i] unfolding held_ok_def by blast
  qed
qed

end

section \<open>The kernel's heap\<close>

text \<open>A request that is answered is answered by a new block: the heap panics when it has no memory.\<close>

lemma KmAlloc_returns:
  assumes "heap_ok h A" "KmAlloc n h = Some (p, h')" "unat n \<le> 2 ^ 39" "n \<noteq> 0"
  shows "\<exists>x sz. p = x + HEADER_SIZE \<and> n \<le> sz \<and> (x, sz) \<notin> A \<and> heap_ok h' (insert (x, sz) A) \<and> (\<forall>r\<in>A. regions_apart (x, sz) r)"
proof -
  obtain xs where xs: "heap_inv h xs" "A = allocated h xs" using assms(1) by (auto simp: heap_ok_def)
  note f = round_size_facts [OF assms(3,4)]
  have "\<exists>x s' sz. KmAlloc n h = Some (x + HEADER_SIZE, s') \<and> round_size n \<le> sz \<and> (x, sz) \<notin> A \<and> heap_ok s' (insert (x, sz) A)"
  proof (cases "\<exists>x\<in>set xs. hb_free (hp_mem h x) \<noteq> 0 \<and> round_size n \<le> hb_size (hp_mem h x)")
    case True
    then show ?thesis using alloc_found [OF xs(1) assms(4) refl] xs(2) by blast
  next
    case False
    obtain q where q: "seg (hp_mem h) 0 (g_heap_head h) xs q 0" using xs(1) by (auto simp: heap_inv_def)
    have "find (\<lambda>x. hb_free (hp_mem h x) \<noteq> 0 \<and> round_size n \<le> hb_size (hp_mem h x)) xs = None"
      using False by (auto simp: find_None_iff)
    then have "KmAlloc n h = Option.bind (HeapExpand (round_size n) h) (KmAlloc (round_size n))"
      using find_block_seg [OF q, of "round_size n"] assms(4) by (subst KmAlloc.simps) simp
    then have "fst (PmmAllocPages ((round_size n + HEADER_SIZE + PAGE_SIZE - 1) div PAGE_SIZE) (vm_pmm (hp_vm h))) \<noteq> 0"
      using assms(2) by (auto simp: HeapExpand_def Let_def split: prod.splits Option.bind_splits)
    then show ?thesis using alloc_grown [OF xs(1) assms(3,4) False] xs(2) by blast
  qed
  then obtain x sz where r: "p = x + HEADER_SIZE" "round_size n \<le> sz" "(x, sz) \<notin> A" "heap_ok h' (insert (x, sz) A)" using assms(2) by auto
  have "n \<le> sz" using r(2) f(1) by (rule order_trans [rotated])
  moreover have "regions_apart (x, sz) r" if "r \<in> A" for r by (rule heap_ok_apart [OF r(4)]) (use that r(3) in auto)
  ultimately show ?thesis using r(1,3,4) by blast
qed

text \<open>Where a block's bytes are.\<close>

lemma heap_ok_bytes:
  assumes "heap_ok h A" "(x, sz) \<in> A"
  shows "unat (x + HEADER_SIZE) = unat x + 40"
proof -
  obtain xs where xs: "heap_inv h xs" "x \<in> set xs" using assms by (auto simp: heap_ok_def allocated_def)
  have "block_ok (vm_pmm (hp_vm h)) (hp_mem h) x" "highest_page (vm_pmm (hp_vm h)) \<le> frame_limit"
    using xs by (auto simp: heap_inv_def)
  from block_end_bound [OF this] show ?thesis by (simp add: unat_word_ariths block_end_def HEADER_SIZE_def)
qed

interpretation km: block_heap "\<lambda>k. heap_ok" KmAlloc KmFree HEADER_SIZE "2 ^ 39"
proof
  fix h h' A n p
  assume "heap_ok h A" "KmAlloc n h = Some (p, h')" "0 < n" "unat n \<le> 2 ^ 39"
  then show "\<exists>x sz. p = x + HEADER_SIZE \<and> n \<le> sz \<and> (x, sz) \<notin> A \<and> heap_ok h' (insert (x, sz) A)"
    using KmAlloc_returns [of h A n p h'] by auto
next
  fix h A r q
  assume "heap_ok h A" "r \<in> A" "q \<in> A" "r \<noteq> q"
  from heap_ok_apart [OF this] show "unat (fst r) + unat HEADER_SIZE + unat (snd r) \<le> unat (fst q) \<or>
      unat (fst q) + unat HEADER_SIZE + unat (snd q) \<le> unat (fst r)"
    by (simp add: regions_apart_def HEADER_SIZE_def)
next
  fix h A x sz
  assume "heap_ok h A" "(x, sz) \<in> A"
  from heap_ok_bytes [OF this] show "unat (x + HEADER_SIZE) = unat x + unat HEADER_SIZE" by (simp add: HEADER_SIZE_def)
qed (rule KmFree_correct)

text \<open>C32: the heap never hands out memory twice.  After any sequence of requests (of up to 2^39 bytes) and
  releases of held blocks, starting from a consistent heap with other clients' blocks \<open>A\<close>, the blocks
  held are pairwise disjoint over the lengths that were asked for, disjoint from every block in
  \<open>A\<close>, and a further release of any of them succeeds, leaving a consistent heap.\<close>

theorem heap_exclusive_ownership:
  assumes "heap_ok h A" "\<forall>n. Request n \<in> set cs \<longrightarrow> 0 < n \<and> unat n \<le> 2 ^ 39" "heap_calls KmAlloc KmFree cs (h, []) = Some (h', held)"
  shows "(\<forall>i<length held. \<forall>j<length held. i \<noteq> j \<longrightarrow>
      unat (fst (held ! i)) + unat (snd (held ! i)) \<le> unat (fst (held ! j)) \<or> unat (fst (held ! j)) + unat (snd (held ! j)) \<le> unat (fst (held ! i)))
    \<and> (\<forall>i<length held. \<forall>(y, m)\<in>A. unat (fst (held ! i)) + unat (snd (held ! i)) \<le> unat y \<or> unat y + 40 + unat m \<le> unat (fst (held ! i)))
    \<and> (\<forall>i<length held. \<exists>g B. KmFree (fst (held ! i)) h' = Some g \<and> heap_ok g B \<and> A \<subseteq> B)"
  using km.exclusive [OF assms] by (simp add: HEADER_SIZE_def)

theorem heap_exclusive_ownership_witness:
  "\<exists>h p g. heap_calls KmAlloc KmFree [Request 100] (heap_empty, []) = Some (h, [(p, 100)]) \<and> KmFree p h = Some g"
proof -
  obtain x h where x: "KmAlloc 100 heap_empty = Some (x + HEADER_SIZE, h)"
    using KmAlloc_correct [OF heap_empty_ok _ _ heap_empty_room] by auto
  then have r: "heap_calls KmAlloc KmFree [Request 100] (heap_empty, []) = Some (h, [(x + HEADER_SIZE, 100)])" by simp
  from heap_exclusive_ownership [OF heap_empty_ok _ r] show ?thesis using r by auto
qed

end
