(* ===== verification/Process.thy ===== *)
theory Process
  imports Heap
begin

text \<open>
  Processes and threads (\<^verbatim>\<open>Kernel/proc/process.c\<close>): creation, destruction, the current
  thread, the choice of the next thread, and the release of terminated processes with their
  address spaces.  Process and thread objects are an explicit store from address to contents;
  the doubly linked list of processes is the list of their addresses in order.  \<open>None\<close> is a
  panic of the heap.
\<close>

section \<open>State\<close>

datatype process_state = PROCESS_RUNNING | PROCESS_READY | PROCESS_BLOCKED | PROCESS_TERMINATED | PROCESS_ZOMBIE

text \<open>The general registers \<^verbatim>\<open>r15\<close> to \<^verbatim>\<open>rax\<close> that both structures of \<^verbatim>\<open>Shared/cpu.h\<close> begin with.\<close>

record gp_regs =
  r15 :: u64  r14 :: u64  r13 :: u64  r12 :: u64  r11 :: u64  r10 :: u64  r9 :: u64  r8 :: u64
  rdi :: u64  rsi :: u64  rbp :: u64  rdx :: u64  rcx :: u64  rbx :: u64  rax :: u64

record trap_frame = gp_regs +
  int_no :: u64
  err_code :: u64
  rip :: u64
  cs :: u64
  rflags :: u64
  rsp :: u64
  ss :: u64

record thread_context = gp_regs +
  cx_rip :: u64
  cx_rsp :: u64
  cx_rflags :: u64
  cx_cr3 :: u64

record kthread =
  tid :: u64
  th_process :: u64
  th_state :: process_state
  stack_top :: u64
  stack_base :: u64
  kernel_stack_top :: u64
  kernel_stack_base :: u64
  th_context :: thread_context
  wakeup_tick :: u64
  saved_frame :: trap_frame
  has_saved_frame :: bool
  wait_pid :: u64

record kprocess =
  pid :: u64
  p_state :: process_state
  p_name :: "u8 list"
  p_page_table :: u64
  image_base :: u64
  image_size :: u64
  entry_point :: u64
  heap_brk :: u64
  heap_base :: u64
  threads :: "nat \<Rightarrow> u64"
  thread_count :: u32

definition zero_frame :: trap_frame where
  "zero_frame = \<lparr>r15 = 0, r14 = 0, r13 = 0, r12 = 0, r11 = 0, r10 = 0, r9 = 0, r8 = 0, rdi = 0, rsi = 0, rbp = 0,
     rdx = 0, rcx = 0, rbx = 0, rax = 0, int_no = 0, err_code = 0, rip = 0, cs = 0, rflags = 0, rsp = 0, ss = 0\<rparr>"

definition zero_context :: thread_context where
  "zero_context = \<lparr>r15 = 0, r14 = 0, r13 = 0, r12 = 0, r11 = 0, r10 = 0, r9 = 0, r8 = 0, rdi = 0, rsi = 0, rbp = 0,
     rdx = 0, rcx = 0, rbx = 0, rax = 0, cx_rip = 0, cx_rsp = 0, cx_rflags = 0, cx_cr3 = 0\<rparr>"

definition zero_thread :: kthread where
  "zero_thread = \<lparr>tid = 0, th_process = 0, th_state = PROCESS_RUNNING, stack_top = 0, stack_base = 0,
     kernel_stack_top = 0, kernel_stack_base = 0, th_context = zero_context, wakeup_tick = 0,
     saved_frame = zero_frame, has_saved_frame = False, wait_pid = 0\<rparr>"

definition zero_process :: kprocess where
  "zero_process = \<lparr>pid = 0, p_state = PROCESS_RUNNING, p_name = [], p_page_table = 0, image_base = 0, image_size = 0,
     entry_point = 0, heap_brk = 0, heap_base = 0, threads = (\<lambda>_. 0), thread_count = 0\<rparr>"

text \<open>\<open>tss_rsp0\<close> is what \<^verbatim>\<open>KeSetTssRsp0\<close> stored last.\<close>

record ps =
  ps_heap :: heap
  process :: "u64 \<Rightarrow> kprocess"
  thread :: "u64 \<Rightarrow> kthread"
  g_process_list :: "u64 list"
  g_current_process :: u64
  g_current_thread :: u64
  g_next_pid :: u64
  g_next_tid :: u64
  tss_rsp0 :: u64

definition PROCESS_NAME_MAX :: nat where "PROCESS_NAME_MAX = 32"
definition MAX_THREADS :: nat where "MAX_THREADS = 16"
definition USER_STACK_SIZE :: u64 where "USER_STACK_SIZE = 512 * 1024"
definition SIZEOF_KTHREAD :: u64 where "SIZEOF_KTHREAD = 424"
definition SIZEOF_KPROCESS :: u64 where "SIZEOF_KPROCESS = 248"

abbreviation ps_vm :: "'a ps_scheme \<Rightarrow> vmm" where
  "ps_vm s \<equiv> hp_vm (ps_heap s)"

definition upd_process :: "u64 \<Rightarrow> (kprocess \<Rightarrow> kprocess) \<Rightarrow> 'a ps_scheme \<Rightarrow> 'a ps_scheme" where
  "upd_process p f s = s\<lparr>process := (process s)(p := f (process s p))\<rparr>"

definition upd_thread :: "u64 \<Rightarrow> (kthread \<Rightarrow> kthread) \<Rightarrow> 'a ps_scheme \<Rightarrow> 'a ps_scheme" where
  "upd_thread t f s = s\<lparr>thread := (thread s)(t := f (thread s t))\<rparr>"

definition set_vm :: "vmm \<Rightarrow> 'a ps_scheme \<Rightarrow> 'a ps_scheme" where
  "set_vm v s = s\<lparr>ps_heap := (ps_heap s)\<lparr>hp_vm := v\<rparr>\<rparr>"

definition ps_free :: "u64 \<Rightarrow> 'a ps_scheme \<Rightarrow> 'a ps_scheme option" where
  "ps_free ptr s = map_option (\<lambda>h. s\<lparr>ps_heap := h\<rparr>) (KmFree ptr (ps_heap s))"

text \<open>The threads of a process that the loops \<open>for (i = 0; i < thread_count && i < MAX_THREADS; i++)\<close>
  with the test \<open>if (threads[i])\<close> visit.\<close>

definition proc_threads :: "kprocess \<Rightarrow> u64 list" where
  "proc_threads p = filter (\<lambda>t. t \<noteq> 0) (map (threads p) [0..<min MAX_THREADS (unat (thread_count p))])"

section \<open>Creation\<close>

definition PsInit :: "'a ps_scheme \<Rightarrow> 'a ps_scheme" where
  "PsInit s = s\<lparr>g_process_list := [], g_current_process := 0, g_current_thread := 0\<rparr>"

definition page_round :: "u64 \<Rightarrow> u64" where
  "page_round n = (n + PAGE_SIZE - 1) AND NOT 0xFFF"

definition PsCreateProcess :: "boot_info \<Rightarrow> u8 list \<Rightarrow> u64 \<Rightarrow> u64 \<Rightarrow> u64 \<Rightarrow> 'a ps_scheme \<Rightarrow> (u64 \<times> 'a ps_scheme) option" where
  "PsCreateProcess boot name entry base len s =
    do {
      (proc, h) \<leftarrow> KmAlloc SIZEOF_KPROCESS (ps_heap s);
      let s = s\<lparr>ps_heap := h\<rparr>;
      if proc = 0 then Some (0, s)
      else do {
        let hb = base + page_round len;
        let s = upd_process proc (\<lambda>_. zero_process\<lparr>pid := g_next_pid s, p_state := PROCESS_READY,
              p_name := take (PROCESS_NAME_MAX - 2) name, image_base := base, image_size := len, entry_point := entry,
              heap_base := hb, heap_brk := hb\<rparr>) (s\<lparr>g_next_pid := g_next_pid s + 1\<rparr>);
        let (pml4, v) = VmmCreateAddressSpace boot (ps_vm s);
        let s = set_vm v s;
        if pml4 = 0 then map_option (Pair 0) (ps_free proc s)
        else Some (proc, (upd_process proc (\<lambda>p. p\<lparr>p_page_table := pml4 - PHYS_OFFSET\<rparr>) s)
               \<lparr>g_process_list := proc # g_process_list s\<rparr>)
      }
    }"

definition PsDestroyThread :: "u64 \<Rightarrow> 'a ps_scheme \<Rightarrow> 'a ps_scheme option" where
  "PsDestroyThread t s = (if t = 0 then Some s else ps_free t s)"

definition new_thread :: "u64 \<Rightarrow> u64 \<Rightarrow> u64 \<Rightarrow> u64 \<Rightarrow> u64 \<Rightarrow> u64 \<Rightarrow> kthread" where
  "new_thread i proc entry kbase ktop cr3 =
    (let sv = 0x50000000; top = sv + USER_STACK_SIZE
     in zero_thread\<lparr>tid := i, th_process := proc, th_state := PROCESS_READY, stack_top := top, stack_base := sv,
          kernel_stack_top := ktop, kernel_stack_base := kbase,
          th_context := zero_context\<lparr>cx_rip := entry, cx_rsp := top - 4096, cx_rflags := 0x202, cx_cr3 := cr3\<rparr>\<rparr>)"

definition PsCreateThread :: "u64 \<Rightarrow> u64 \<Rightarrow> 'a ps_scheme \<Rightarrow> (u64 \<times> 'a ps_scheme) option" where
  "PsCreateThread proc entry s =
    (if proc = 0 \<or> thread_count (process s proc) \<ge> of_nat MAX_THREADS then Some (0, s)
     else do {
       (t, h) \<leftarrow> KmAlloc SIZEOF_KTHREAD (ps_heap s);
       let s = s\<lparr>ps_heap := h\<rparr>;
       if t = 0 then Some (0, s)
       else do {
         let i = g_next_tid s;
         let s = s\<lparr>g_next_tid := i + 1\<rparr>;
         let pages = USER_STACK_SIZE div PAGE_SIZE;
         let (stack_phys, b) = PmmAllocPages pages (vm_pmm (ps_vm s));
         let s = set_vm ((ps_vm s)\<lparr>vm_pmm := b\<rparr>) s;
         if stack_phys = 0 then map_option (Pair 0) (ps_free t s)
         else do {
           let s = set_vm (VmmMapPages (PHYS_TO_VIRT (ps_vm s) (p_page_table (process s proc))) 0x50000000 stack_phys pages
                 (VMM_USER_FLAGS OR VMM_NX) (ps_vm s)) s;
           let (kstack_phys, b) = PmmAllocPages 16 (vm_pmm (ps_vm s));
           let s = set_vm ((ps_vm s)\<lparr>vm_pmm := b\<rparr>) s;
           if kstack_phys = 0 then map_option (Pair 0) (ps_free t s)
           else
             let s = upd_thread t (\<lambda>_. new_thread i proc entry (PHYS_TO_VIRT (ps_vm s) kstack_phys)
                   (PHYS_TO_VIRT (ps_vm s) (kstack_phys + PAGE_SIZE * 16)) (p_page_table (process s proc))) s
             in Some (t, upd_process proc (\<lambda>p. p\<lparr>threads := (threads p)(unat (thread_count p) := t),
                       thread_count := thread_count p + 1\<rparr>) s)
         }
       }
     })"

section \<open>The current thread and the next one\<close>

definition PsGetCurrentProcess :: "'a ps_scheme \<Rightarrow> u64" where
  "PsGetCurrentProcess s = g_current_process s"

definition PsGetCurrentThread :: "'a ps_scheme \<Rightarrow> u64" where
  "PsGetCurrentThread s = g_current_thread s"

definition PsSetCurrentThread :: "u64 \<Rightarrow> 'a ps_scheme \<Rightarrow> 'a ps_scheme" where
  "PsSetCurrentThread t s =
    (let s = s\<lparr>g_current_thread := t\<rparr> in if t \<noteq> 0 then s\<lparr>g_current_process := th_process (thread s t)\<rparr> else s)"

text \<open>0 is \<open>NULL\<close>.\<close>

definition PsFindProcess :: "u64 \<Rightarrow> 'a ps_scheme \<Rightarrow> u64" where
  "PsFindProcess i s = (case find (\<lambda>p. pid (process s p) = i) (g_process_list s) of Some p \<Rightarrow> p | None \<Rightarrow> 0)"

definition schedulable :: "'a ps_scheme \<Rightarrow> u64 \<Rightarrow> bool" where
  "schedulable s p \<longleftrightarrow> p_state (process s p) \<noteq> PROCESS_TERMINATED \<and> thread_count (process s p) > 0 \<and>
    (let t = threads (process s p) 0
     in t \<noteq> 0 \<and> th_state (thread s t) = PROCESS_READY \<and> t \<noteq> g_current_thread s \<and> has_saved_frame (thread s t))"

definition PsScheduleNext :: "'a ps_scheme \<Rightarrow> u64" where
  "PsScheduleNext s =
    (case find (schedulable s) (g_process_list s) of Some p \<Rightarrow> threads (process s p) 0 | None \<Rightarrow> 0)"

section \<open>Release of address spaces\<close>

definition vm_free :: "u64 \<Rightarrow> vmm \<Rightarrow> vmm" where
  "vm_free phys v = v\<lparr>vm_pmm := PmmFreePage phys (vm_pmm v)\<rparr>"

definition vm_free_tracked :: "u64 \<Rightarrow> vmm \<Rightarrow> vmm" where
  "vm_free_tracked phys v = (if PmmIsPageTracked phys (vm_pmm v) then vm_free phys v else v)"

definition entry_phys :: "u64 \<Rightarrow> u64" where
  "entry_phys e = e AND NOT 0xFFF"

definition present :: "u64 \<Rightarrow> bool" where
  "present e \<longleftrightarrow> e AND VMM_PRESENT \<noteq> 0"

definition huge :: "u64 \<Rightarrow> bool" where
  "huge e \<longleftrightarrow> e AND VMM_HUGE \<noteq> 0"

definition virt_of :: "nat \<Rightarrow> nat \<Rightarrow> nat \<Rightarrow> nat \<Rightarrow> u64" where
  "virt_of i j k l = push_bit 39 (of_nat i) OR push_bit 30 (of_nat j) OR push_bit 21 (of_nat k) OR push_bit 12 (of_nat l)"

text \<open>The loops over a page table, a page directory and a directory pointer table.\<close>

definition free_pt :: "nat \<Rightarrow> nat \<Rightarrow> nat \<Rightarrow> u64 \<Rightarrow> vmm \<Rightarrow> vmm" where
  "free_pt i j k pt v =
    fold (\<lambda>l v. let e = get_entry v pt l in
      if \<not> present e then v
      else if virt_of i j k l \<noteq> entry_phys e \<and> PmmIsPageTracked (entry_phys e) (vm_pmm v) then vm_free (entry_phys e) v
      else v) [0..<512] v"

definition free_pd :: "nat \<Rightarrow> nat \<Rightarrow> u64 \<Rightarrow> vmm \<Rightarrow> vmm" where
  "free_pd i j pd v =
    fold (\<lambda>k v. let e = get_entry v pd k in
      if \<not> present e \<or> huge e then v
      else vm_free_tracked (entry_phys e) (free_pt i j k (PHYS_TO_VIRT v (entry_phys e)) v)) [0..<512] v"

definition free_pdpt :: "nat \<Rightarrow> u64 \<Rightarrow> vmm \<Rightarrow> vmm" where
  "free_pdpt i pdpt v =
    fold (\<lambda>j v. let e = get_entry v pdpt j in
      if \<not> present e \<or> huge e then v
      else vm_free_tracked (entry_phys e) (free_pd i j (PHYS_TO_VIRT v (entry_phys e)) v)) [0..<512] v"

definition PsFreeAddressSpace :: "u64 \<Rightarrow> vmm \<Rightarrow> vmm" where
  "PsFreeAddressSpace pgt v =
    (if pgt = 0 \<or> pgt = vm_cr3 v then v
     else let pml4 = PHYS_TO_VIRT v pgt;
              v = fold (\<lambda>i v. let e = get_entry v pml4 i in
                if \<not> present e then v
                else let pdpt = PHYS_TO_VIRT v (entry_phys e);
                         v = free_pdpt i pdpt v;
                         has_kernel = list_ex (\<lambda>kk. present (get_entry v pdpt kk)) [256..<512]
                     in if has_kernel then v else vm_free_tracked (entry_phys e) v) [0..<256] v
          in vm_free_tracked pgt v)"

section \<open>Destruction\<close>

text \<open>The page tables as \<open>PsDestroyProcess\<close> releases them: the tables by their virtual addresses.\<close>

definition destroy_pt :: "u64 \<Rightarrow> vmm \<Rightarrow> vmm" where
  "destroy_pt pt v =
    vm_free pt (fold (\<lambda>l v. let e = get_entry v pt l in if present e then vm_free (entry_phys e) v else v) [0..<512] v)"

definition destroy_pd :: "u64 \<Rightarrow> vmm \<Rightarrow> vmm" where
  "destroy_pd pd v =
    vm_free pd (fold (\<lambda>k v. let e = get_entry v pd k in
      if present e \<and> \<not> huge e then destroy_pt (PHYS_TO_VIRT v (entry_phys e)) v else v) [0..<512] v)"

definition destroy_pdpt :: "u64 \<Rightarrow> vmm \<Rightarrow> vmm" where
  "destroy_pdpt pdpt v =
    vm_free pdpt (fold (\<lambda>j v. let e = get_entry v pdpt j in
      if present e then destroy_pd (PHYS_TO_VIRT v (entry_phys e)) v else v) [0..<512] v)"

definition destroy_space :: "u64 \<Rightarrow> vmm \<Rightarrow> vmm" where
  "destroy_space pgt v =
    (if pgt \<noteq> 0 \<and> pgt \<noteq> vm_cr3 v
     then let pml4 = PHYS_TO_VIRT v pgt
          in vm_free pml4 (fold (\<lambda>i v. let e = get_entry v pml4 i in
               if present e \<and> 1 \<le> i \<and> i < 256 then destroy_pdpt (PHYS_TO_VIRT v (entry_phys e)) v else v) [0..<256] v)
     else v)"

definition bind_all :: "('b \<Rightarrow> 's \<Rightarrow> 's option) \<Rightarrow> 'b list \<Rightarrow> 's \<Rightarrow> 's option" where
  "bind_all f xs s = fold (\<lambda>x r. Option.bind r (f x)) xs (Some s)"

definition PsDestroyProcess :: "u64 \<Rightarrow> 'a ps_scheme \<Rightarrow> 'a ps_scheme option" where
  "PsDestroyProcess proc s =
    (if proc = 0 then Some s
     else do {
       s \<leftarrow> bind_all PsDestroyThread (proc_threads (process s proc)) s;
       let s = set_vm (destroy_space (p_page_table (process s proc)) (ps_vm s)) s;
       let s = s\<lparr>g_process_list := remove1 proc (g_process_list s)\<rparr>;
       let s = (if g_current_process s = proc then s\<lparr>g_current_process := 0, g_current_thread := 0\<rparr> else s);
       ps_free proc s
     })"

section \<open>Release of terminated processes\<close>

definition cleanup_thread :: "u64 \<Rightarrow> 'a ps_scheme \<Rightarrow> 'a ps_scheme option" where
  "cleanup_thread t s =
    (let s = (if g_current_thread s = t then s\<lparr>g_current_thread := 0, g_current_process := 0\<rparr> else s);
         kb = kernel_stack_base (thread s t);
         s = (if kb \<noteq> 0 then set_vm ((ps_vm s)\<lparr>vm_pmm := PmmFreePages (kb - PHYS_OFFSET) 16 (vm_pmm (ps_vm s))\<rparr>) s else s)
     in ps_free t s)"

definition cleanup_process :: "u64 \<Rightarrow> 'a ps_scheme \<Rightarrow> 'a ps_scheme option" where
  "cleanup_process p s =
    do {
      s \<leftarrow> bind_all cleanup_thread (proc_threads (process s p)) s;
      let s = set_vm (PsFreeAddressSpace (p_page_table (process s p)) (ps_vm s)) s;
      let s = (if g_current_process s = p then s\<lparr>g_current_process := 0, g_current_thread := 0\<rparr> else s);
      ps_free p s
    }"

text \<open>The loop over the list; the result is the list that remains.\<close>

fun cleanup_list :: "u64 list \<Rightarrow> 'a ps_scheme \<Rightarrow> (u64 list \<times> 'a ps_scheme) option" where
  "cleanup_list [] s = Some ([], s)"
| "cleanup_list (p # rest) s =
    (if p_state (process s p) = PROCESS_TERMINATED
     then Option.bind (cleanup_process p s) (cleanup_list rest)
     else map_option (\<lambda>(kept, s). (p # kept, s)) (cleanup_list rest s))"

definition PsCleanupTerminated :: "'a ps_scheme \<Rightarrow> 'a ps_scheme option" where
  "PsCleanupTerminated s =
    map_option (\<lambda>(kept, s). s\<lparr>g_process_list := kept\<rparr>) (cleanup_list (g_process_list s) s)"

section \<open>What the operations leave alone\<close>

text \<open>Everything but the heap, the page allocator and the two current pointers.\<close>

definition ps_objects ::
  "'a ps_scheme \<Rightarrow> (u64 \<Rightarrow> kprocess) \<times> (u64 \<Rightarrow> kthread) \<times> u64 list \<times> u64 \<times> u64 \<times> u64 \<times> u64 \<times> 'a" where
  "ps_objects s = (process s, thread s, g_process_list s, g_next_pid s, g_next_tid s, tss_rsp0 s, vm_cr3 (ps_vm s), ps.more s)"

lemma upd_block_vm [simp]: "hp_vm (upd_block b f h) = hp_vm h"
  by (simp add: upd_block_def)

lemma coalesce_vm [simp]: "hp_vm (coalesce_next b h) = hp_vm h" "hp_vm (coalesce_prev b h) = hp_vm h"
  by (simp_all add: coalesce_next_def coalesce_prev_def Let_def)

lemma KmFree_vm: "KmFree a h = Some h' \<Longrightarrow> hp_vm h' = hp_vm h"
  by (auto simp: KmFree_def HeapCoalesce_def Let_def simp del: upd_block_vm split: if_splits)
    (simp add: upd_block_def)

lemma set_vm_objects [simp]: "ps_objects (set_vm v s) = ps_objects s \<longleftrightarrow> vm_cr3 v = vm_cr3 (ps_vm s)"
  by (auto simp: ps_objects_def set_vm_def)

lemma set_vm_keeps: "vm_cr3 v = vm_cr3 (ps_vm s) \<Longrightarrow> ps_objects (set_vm v s) = ps_objects s"
  by simp

lemma set_vm_simps [simp]: "process (set_vm v s) = process s" "thread (set_vm v s) = thread s"
  "g_process_list (set_vm v s) = g_process_list s" "g_current_process (set_vm v s) = g_current_process s"
  "g_current_thread (set_vm v s) = g_current_thread s" "ps_vm (set_vm v s) = v" "ps.more (set_vm v s) = ps.more s"
  "g_next_pid (set_vm v s) = g_next_pid s" "g_next_tid (set_vm v s) = g_next_tid s" "tss_rsp0 (set_vm v s) = tss_rsp0 s"
  by (simp_all add: set_vm_def)

lemma vm_free_cr3 [simp]: "vm_cr3 (vm_free a v) = vm_cr3 v" "vm_cr3 (vm_free_tracked a v) = vm_cr3 v"
  by (simp_all add: vm_free_def vm_free_tracked_def)

lemma fold_keeps: "(\<And>x s. g (f x s) = g s) \<Longrightarrow> g (fold f xs s) = g s"
  by (induction xs arbitrary: s) auto

lemma free_space_cr3 [simp]: "vm_cr3 (free_pt i j k a v) = vm_cr3 v" "vm_cr3 (free_pd i j a v) = vm_cr3 v"
  "vm_cr3 (free_pdpt i a v) = vm_cr3 v" "vm_cr3 (PsFreeAddressSpace a v) = vm_cr3 v"
proof -
  show 1: "vm_cr3 (free_pt i j k a v) = vm_cr3 v" for i j k a v
    unfolding free_pt_def by (rule fold_keeps) (simp add: Let_def)
  show 2: "vm_cr3 (free_pd i j a v) = vm_cr3 v" for i j a v
    unfolding free_pd_def by (rule fold_keeps) (simp add: Let_def 1)
  show 3: "vm_cr3 (free_pdpt i a v) = vm_cr3 v" for i a v
    unfolding free_pdpt_def by (rule fold_keeps) (simp add: Let_def 2)
  show "vm_cr3 (PsFreeAddressSpace a v) = vm_cr3 v"
    unfolding PsFreeAddressSpace_def by (auto simp: Let_def 3 intro!: fold_keeps)
qed

lemma destroy_space_cr3 [simp]: "vm_cr3 (destroy_space a v) = vm_cr3 v"
proof -
  have 1: "vm_cr3 (destroy_pt a v) = vm_cr3 v" for a v
    unfolding destroy_pt_def vm_free_cr3 by (rule fold_keeps) (simp add: Let_def)
  have 2: "vm_cr3 (destroy_pd a v) = vm_cr3 v" for a v
    unfolding destroy_pd_def vm_free_cr3 by (rule fold_keeps) (simp add: Let_def 1)
  have 3: "vm_cr3 (destroy_pdpt a v) = vm_cr3 v" for a v
    unfolding destroy_pdpt_def vm_free_cr3 by (rule fold_keeps) (simp add: Let_def 2)
  show ?thesis unfolding destroy_space_def by (auto simp: Let_def 3 intro!: fold_keeps)
qed

text \<open>
  The contract of a release step: it keeps the objects, and a current pointer is kept or
  cleared.  Its clients are the loops over the threads of a process and over the processes.
\<close>

locale release_step =
  fixes step :: "u64 \<Rightarrow> 'a ps_scheme \<Rightarrow> 'a ps_scheme option"
  assumes keeps_objects: "step x s = Some s' \<Longrightarrow> ps_objects s' = ps_objects s"
begin

lemma all_objects: "bind_all step xs s = Some s' \<Longrightarrow> ps_objects s' = ps_objects s"
proof (induction xs arbitrary: s)
  case Nil
  then show ?case by (simp add: bind_all_def)
next
  case (Cons x xs)
  have none: "fold (\<lambda>x r. Option.bind r (step x)) ys None = None" for ys
    by (induction ys) auto
  obtain t where "step x s = Some t" "bind_all step xs t = Some s'"
    using Cons.prems by (cases "step x s") (auto simp: bind_all_def none)
  then show ?case using Cons.IH keeps_objects by metis
qed

end

lemma ps_free_objects: "ps_free x s = Some s' \<Longrightarrow> ps_objects s' = ps_objects s"
  by (auto simp: ps_free_def ps_objects_def dest: KmFree_vm)

lemma ps_free_current: "ps_free x s = Some s' \<Longrightarrow> g_current_thread s' = g_current_thread s \<and> g_current_process s' = g_current_process s"
  by (auto simp: ps_free_def)

interpretation destroy_thread: release_step PsDestroyThread
  by unfold_locales (auto simp: PsDestroyThread_def dest: ps_free_objects split: if_splits)

lemma current_objects [simp]: "ps_objects (s\<lparr>g_current_thread := a, g_current_process := b\<rparr>) = ps_objects s"
  "ps_objects (s\<lparr>g_current_process := b, g_current_thread := a\<rparr>) = ps_objects s"
  by (simp_all add: ps_objects_def)

interpretation clean_thread: release_step cleanup_thread
proof unfold_locales
  fix t :: u64 and s s' :: "'a ps_scheme"
  assume "cleanup_thread t s = Some s'"
  from this [unfolded cleanup_thread_def Let_def] show "ps_objects s' = ps_objects s"
    by (auto dest!: ps_free_objects simp: set_vm_keeps split: if_splits)
qed

interpretation clean_process: release_step cleanup_process
proof unfold_locales
  fix p :: u64 and s s' :: "'a ps_scheme"
  assume "cleanup_process p s = Some s'"
  then obtain u where u: "bind_all cleanup_thread (proc_threads (process s p)) s = Some u"
    "ps_free p (let v = set_vm (PsFreeAddressSpace (p_page_table (process u p)) (ps_vm u)) u in
       if g_current_process v = p then v\<lparr>g_current_process := 0, g_current_thread := 0\<rparr> else v) = Some s'"
    by (auto simp: cleanup_process_def Let_def split: Option.bind_splits)
  then show "ps_objects s' = ps_objects s"
    using clean_thread.all_objects [OF u(1)] ps_free_objects [OF u(2)] by (auto simp: Let_def set_vm_keeps split: if_splits)
qed

section \<open>The heap blocks of the objects\<close>

text \<open>
  The allocated blocks as far as the block list tells: releasing the pages of an address
  space changes the page allocator below the heap, which \<open>KmFree\<close> does not look at.
\<close>

definition heap_blocks :: "heap \<Rightarrow> (u64 \<times> u64) set \<Rightarrow> bool" where
  "heap_blocks h A \<longleftrightarrow> (\<exists>v. heap_ok (h\<lparr>hp_vm := v\<rparr>) A)"

definition block_objects :: "(u64 \<times> u64) set \<Rightarrow> u64 set" where
  "block_objects A = (\<lambda>r. fst r + HEADER_SIZE) ` A"

definition without :: "u64 set \<Rightarrow> (u64 \<times> u64) set \<Rightarrow> (u64 \<times> u64) set" where
  "without X A = {r \<in> A. fst r + HEADER_SIZE \<notin> X}"

lemma without_simps [simp]: "without {} A = A" "without X (without Y A) = without (X \<union> Y) A"
  by (auto simp: without_def)

lemma block_objects_without [simp]: "block_objects (without X A) = block_objects A - X"
  by (auto simp: block_objects_def without_def)

lemma upd_block_with_vm: "upd_block b f (h\<lparr>hp_vm := v\<rparr>) = (upd_block b f h)\<lparr>hp_vm := v\<rparr>"
  by (simp add: upd_block_def)

lemma coalesce_with_vm: "coalesce_next b (h\<lparr>hp_vm := v\<rparr>) = (coalesce_next b h)\<lparr>hp_vm := v\<rparr>"
  "coalesce_prev b (h\<lparr>hp_vm := v\<rparr>) = (coalesce_prev b h)\<lparr>hp_vm := v\<rparr>"
  by (simp_all add: coalesce_next_def coalesce_prev_def Let_def upd_block_with_vm)

lemma KmFree_with_vm: "KmFree a (h\<lparr>hp_vm := v\<rparr>) = map_option (\<lambda>h. h\<lparr>hp_vm := v\<rparr>) (KmFree a h)"
proof -
  have "HeapCoalesce b (g\<lparr>hp_vm := v, g_heap_used := n\<rparr>) = (HeapCoalesce b (g\<lparr>g_heap_used := n\<rparr>))\<lparr>hp_vm := v\<rparr>" for b n and g :: heap
    proof -
    have "g\<lparr>hp_vm := v, g_heap_used := n\<rparr> = g\<lparr>g_heap_used := n\<rparr>\<lparr>hp_vm := v\<rparr>" by simp
    then show ?thesis by (simp only: HeapCoalesce_def coalesce_with_vm)
  qed
  from this [where g = "upd_block (a - HEADER_SIZE) (\<lambda>h. h\<lparr>hb_free := 1\<rparr>) h"]
  show ?thesis by (simp add: KmFree_def Let_def upd_block_with_vm)
qed

lemma heap_ok_unique: "heap_ok h A \<Longrightarrow> (x, n) \<in> A \<Longrightarrow> (x, m) \<in> A \<Longrightarrow> n = m"
  by (auto simp: heap_ok_def allocated_def)

lemma KmFree_blocks:
  assumes "heap_blocks h A" "a \<in> block_objects A"
  shows "\<exists>h'. KmFree a h = Some h' \<and> heap_blocks h' (without {a} A)"
proof -
  obtain v where v: "heap_ok (h\<lparr>hp_vm := v\<rparr>) A" using assms(1) by (auto simp: heap_blocks_def)
  obtain x sz where x: "(x, sz) \<in> A" "a = x + HEADER_SIZE" using assms(2) by (auto simp: block_objects_def)
  obtain g where "KmFree a (h\<lparr>hp_vm := v\<rparr>) = Some g" "heap_ok g (A - {(x, sz)})"
    using KmFree_correct [OF v x(1)] x(2) by blast
  moreover have "r \<in> A - {(x, sz)} \<longleftrightarrow> r \<in> without {a} A" for r
    using heap_ok_unique [OF v _ x(1), of "snd r"] x(2) by (cases r) (auto simp: without_def)
  then have "A - {(x, sz)} = without {a} A" by (rule set_eqI)
  moreover obtain h' where "KmFree a h = Some h'" "g = h'\<lparr>hp_vm := v\<rparr>"
    using calculation(1) by (auto simp: KmFree_with_vm)
  ultimately show ?thesis by (auto simp: heap_blocks_def)
qed

locale freeing_step = release_step +
  assumes frees: "heap_blocks (ps_heap s) A \<Longrightarrow> x \<in> block_objects A \<Longrightarrow>
    \<exists>s'. step x s = Some s' \<and> heap_blocks (ps_heap s') (without {x} A)"
begin

lemma all_freed:
  assumes "heap_blocks (ps_heap s) A" "distinct xs" "set xs \<subseteq> block_objects A"
  shows "\<exists>s'. bind_all step xs s = Some s' \<and> heap_blocks (ps_heap s') (without (set xs) A)"
  using assms
proof (induction xs arbitrary: s A)
  case Nil
  then show ?case by (simp add: bind_all_def)
next
  case (Cons x xs)
  obtain t where t: "step x s = Some t" "heap_blocks (ps_heap t) (without {x} A)"
    using frees [of s A x] Cons.prems by auto
  obtain s' where "bind_all step xs t = Some s'" "heap_blocks (ps_heap s') (without (set xs) (without {x} A))"
    using Cons.IH [OF t(2)] Cons.prems(2,3) by auto
  then show ?case using t(1) by (auto simp: bind_all_def Un_commute)
qed

end

lemma set_vm_blocks [simp]: "heap_blocks (ps_heap (set_vm v s)) A = heap_blocks (ps_heap s) A"
  by (simp add: set_vm_def heap_blocks_def)

lemma ps_free_blocks:
  assumes "heap_blocks (ps_heap s) A" "x \<in> block_objects A"
  shows "\<exists>s'. ps_free x s = Some s' \<and> heap_blocks (ps_heap s') (without {x} A)"
  using KmFree_blocks [OF assms] by (auto simp: ps_free_def)

interpretation clean_thread: freeing_step cleanup_thread
  by unfold_locales (auto simp: cleanup_thread_def Let_def intro!: ps_free_blocks)

section \<open>Releasing the terminated processes\<close>

definition dead :: "'a ps_scheme \<Rightarrow> u64 \<Rightarrow> bool" where
  "dead s p \<longleftrightarrow> p_state (process s p) = PROCESS_TERMINATED"

text \<open>What the release of a process gives back to the heap.\<close>

definition proc_objects :: "'a ps_scheme \<Rightarrow> u64 \<Rightarrow> u64 list" where
  "proc_objects s p = proc_threads (process s p) @ [p]"

definition dead_objects :: "'a ps_scheme \<Rightarrow> u64 list \<Rightarrow> u64 list" where
  "dead_objects s ps = concat (map (proc_objects s) (filter (dead s) ps))"

definition ps_current :: "'a ps_scheme \<Rightarrow> u64 \<times> u64" where
  "ps_current s = (g_current_thread s, g_current_process s)"

lemma objects_cong: "ps_objects t = ps_objects s \<Longrightarrow> dead t = dead s \<and> proc_objects t = proc_objects s"
  by (auto simp: ps_objects_def dead_def proc_objects_def fun_eq_iff)

lemma proc_threads_nonzero: "0 \<notin> set (proc_threads p)"
  by (auto simp: proc_threads_def)

lemma cleanup_process_frees:
  assumes "heap_blocks (ps_heap s) A" "distinct (proc_objects s p)" "set (proc_objects s p) \<subseteq> block_objects A"
  shows "\<exists>s'. cleanup_process p s = Some s' \<and> heap_blocks (ps_heap s') (without (set (proc_objects s p)) A)"
proof -
  let ?ts = "proc_threads (process s p)"
  obtain u where u: "bind_all cleanup_thread ?ts s = Some u" "heap_blocks (ps_heap u) (without (set ?ts) A)"
    using clean_thread.all_freed [OF assms(1), of ?ts] assms(2,3) by (auto simp: proc_objects_def)
  define v where "v = set_vm (PsFreeAddressSpace (p_page_table (process u p)) (ps_vm u)) u"
  define w where "w = (if g_current_process v = p then v\<lparr>g_current_process := 0, g_current_thread := 0\<rparr> else v)"
  have "heap_blocks (ps_heap w) (without (set ?ts) A)" using u(2) by (simp add: w_def v_def)
  moreover have "p \<in> block_objects (without (set ?ts) A)" using assms(2,3) by (auto simp: proc_objects_def)
  ultimately obtain s' where "ps_free p w = Some s'" "heap_blocks (ps_heap s') (without {p} (without (set ?ts) A))"
    using ps_free_blocks by blast
  then show ?thesis using u(1) by (auto simp: cleanup_process_def Let_def w_def v_def proc_objects_def)
qed

lemma bind_all_Cons: "bind_all step (x # xs) s = Option.bind (step x s) (bind_all step xs)"
proof -
  have "fold (\<lambda>x r. Option.bind r (step x)) ys None = None" for ys by (induction ys) auto
  then show ?thesis by (cases "step x s") (auto simp: bind_all_def)
qed

lemma cleanup_thread_current:
  "cleanup_thread t s = Some s' \<Longrightarrow> ps_current s' = (if g_current_thread s = t then (0, 0) else ps_current s)"
  by (auto simp: cleanup_thread_def Let_def ps_current_def dest!: ps_free_current split: if_splits)

lemma cleanup_threads_current:
  assumes "bind_all cleanup_thread ts s = Some s'" "0 \<notin> set ts"
  shows "ps_current s' = (if g_current_thread s \<in> set ts then (0, 0) else ps_current s)"
  using assms
proof (induction ts arbitrary: s)
  case Nil
  then show ?case by (simp add: bind_all_def)
next
  case (Cons t ts)
  obtain u where u: "cleanup_thread t s = Some u" "bind_all cleanup_thread ts u = Some s'"
    using Cons.prems(1) by (auto simp: bind_all_Cons split: Option.bind_splits)
  then show ?case using Cons.IH [OF u(2)] Cons.prems(2) cleanup_thread_current [OF u(1)]
    by (auto simp: ps_current_def split: if_splits)
qed

lemma cleanup_process_current:
  assumes "cleanup_process p s = Some s'" "p \<noteq> 0"
  shows "ps_current s' =
    (if g_current_thread s \<in> set (proc_threads (process s p)) \<or> g_current_process s = p then (0, 0) else ps_current s)"
proof -
  obtain u where u: "bind_all cleanup_thread (proc_threads (process s p)) s = Some u"
    "ps_free p (let v = set_vm (PsFreeAddressSpace (p_page_table (process u p)) (ps_vm u)) u in
       if g_current_process v = p then v\<lparr>g_current_process := 0, g_current_thread := 0\<rparr> else v) = Some s'"
    using assms(1) by (auto simp: cleanup_process_def Let_def split: Option.bind_splits)
  show ?thesis
    using cleanup_threads_current [OF u(1) proc_threads_nonzero] ps_free_current [OF u(2)] assms(2)
    by (auto simp: Let_def ps_current_def split: if_splits)
qed

lemma cleanup_list_result:
  assumes "cleanup_list ps s = Some (kept, s')" "0 \<notin> set ps"
  shows "kept = filter (\<lambda>p. \<not> dead s p) ps \<and> ps_objects s' = ps_objects s \<and>
    ps_current s' = (if \<exists>p\<in>set ps. dead s p \<and> (g_current_thread s \<in> set (proc_threads (process s p)) \<or> g_current_process s = p)
      then (0, 0) else ps_current s)"
  using assms
proof (induction ps arbitrary: s kept)
  case Nil
  then show ?case by simp
next
  case (Cons p ps)
  show ?case
  proof (cases "dead s p")
    case True
    obtain u where u: "cleanup_process p s = Some u" "cleanup_list ps u = Some (kept, s')"
      using Cons.prems True by (auto simp: dead_def split: Option.bind_splits)
    have o: "ps_objects u = ps_objects s" by (rule clean_process.keeps_objects [OF u(1)])
    have proc: "process u = process s" using o by (simp add: ps_objects_def)
    have "p \<noteq> 0" "0 \<notin> set ps" using Cons.prems(2) by auto
    from cleanup_process_current [OF u(1) this(1)] Cons.IH [OF u(2) this(2)] True o objects_cong [OF o]
      show ?thesis using \<open>p \<noteq> 0\<close> \<open>0 \<notin> set ps\<close> proc_threads_nonzero
      by (auto simp: proc ps_current_def split: if_splits)
  next
    case False
    then obtain k where k: "cleanup_list ps s = Some (k, s')" "kept = p # k"
      using Cons.prems by (auto simp: dead_def)
    then show ?thesis using Cons.IH [OF k(1)] Cons.prems(2) False by auto
  qed
qed

lemma cleanup_list_returns:
  assumes "heap_blocks (ps_heap s) A" "distinct (dead_objects s ps)" "set (dead_objects s ps) \<subseteq> block_objects A"
  shows "\<exists>k s'. cleanup_list ps s = Some (k, s') \<and> heap_blocks (ps_heap s') (without (set (dead_objects s ps)) A)"
  using assms
proof (induction ps arbitrary: s A)
  case Nil
  then show ?case by (simp add: dead_objects_def)
next
  case (Cons p ps)
  show ?case
  proof (cases "dead s p")
    case True
    have d: "distinct (proc_objects s p)" "set (proc_objects s p) \<subseteq> block_objects A" "distinct (dead_objects s ps)"
      "set (dead_objects s ps) \<subseteq> block_objects (without (set (proc_objects s p)) A)"
      using Cons.prems(2,3) True by (auto simp: dead_objects_def)
    obtain u where u: "cleanup_process p s = Some u" "heap_blocks (ps_heap u) (without (set (proc_objects s p)) A)"
      using cleanup_process_frees [OF Cons.prems(1) d(1,2)] by blast
    have o: "ps_objects u = ps_objects s" by (rule clean_process.keeps_objects [OF u(1)])
    have same: "dead_objects u ps = dead_objects s ps" using objects_cong [OF o] by (simp add: dead_objects_def)
    show ?thesis
      using Cons.IH [OF u(2), unfolded same, OF d(3,4)] u(1) True by (auto simp: dead_def dead_objects_def Un_commute)
  next
    case False
    then have "dead_objects s (p # ps) = dead_objects s ps" by (simp add: dead_objects_def)
    then show ?thesis using Cons.IH [OF Cons.prems(1)] Cons.prems(2,3) False by (auto simp: dead_def)
  qed
qed

section \<open>Properties\<close>

text \<open>C17: the release of the terminated processes returns, leaves exactly the other processes in the
  list and in their order, gives exactly the thread and process objects of the terminated ones back
  to the heap, changes no object and no address space register, and clears the current
  thread and process exactly when they belong to a released process.\<close>

theorem PsCleanupTerminated_correct:
  assumes "heap_blocks (ps_heap s) A" "0 \<notin> set (g_process_list s)"
    and "distinct (dead_objects s (g_process_list s))" "set (dead_objects s (g_process_list s)) \<subseteq> block_objects A"
  shows "\<exists>s'. PsCleanupTerminated s = Some s' \<and>
    g_process_list s' = filter (\<lambda>p. \<not> dead s p) (g_process_list s) \<and>
    heap_blocks (ps_heap s') (without (set (dead_objects s (g_process_list s))) A) \<and>
    process s' = process s \<and> thread s' = thread s \<and> vm_cr3 (ps_vm s') = vm_cr3 (ps_vm s) \<and>
    ps_current s' = (if \<exists>p\<in>set (g_process_list s). dead s p \<and>
        (g_current_thread s \<in> set (proc_threads (process s p)) \<or> g_current_process s = p) then (0, 0) else ps_current s)"
proof -
  obtain k s1 where r: "cleanup_list (g_process_list s) s = Some (k, s1)"
    "heap_blocks (ps_heap s1) (without (set (dead_objects s (g_process_list s))) A)"
    using cleanup_list_returns [OF assms(1,3,4)] by blast
  from cleanup_list_result [OF r(1) assms(2)] show ?thesis
    using r by (auto simp: PsCleanupTerminated_def ps_objects_def ps_current_def)
qed

end
