(* ===== verification/Ps_Create.thy ===== *)
theory Ps_Create
  imports Process
begin

text \<open>
  The invariant of the process list (\<^verbatim>\<open>Kernel/proc/process.c\<close>) and its preservation by the
  creation and the release of processes and threads, over the contracts of the heap.
\<close>

section \<open>The invariant\<close>

definition all_objects :: "'a ps_scheme \<Rightarrow> u64 list" where
  "all_objects s = concat (map (proc_objects s) (g_process_list s))"

text \<open>
  The objects are all different; a thread names its process and runs in its address space; the
  process identifiers are different and below the next one; the current thread belongs to the
  current process, which is in the list.
\<close>

definition ps_inv :: "'a ps_scheme \<Rightarrow> bool" where
  "ps_inv s \<longleftrightarrow> distinct (all_objects s) \<and> 0 \<notin> set (g_process_list s) \<and>
    (\<forall>p\<in>set (g_process_list s). \<forall>t\<in>set (proc_threads (process s p)).
      th_process (thread s t) = p \<and> cx_cr3 (th_context (thread s t)) = p_page_table (process s p)) \<and>
    inj_on (\<lambda>p. pid (process s p)) (set (g_process_list s)) \<and>
    (\<forall>p\<in>set (g_process_list s). 0 < pid (process s p) \<and> pid (process s p) < g_next_pid s) \<and>
    (g_current_thread s \<noteq> 0 \<longrightarrow> g_current_process s \<in> set (g_process_list s) \<and>
      g_current_thread s \<in> set (proc_threads (process s (g_current_process s))))"

text \<open>What the invariant reads: the list, the fixed part of its processes, and of their threads.\<close>

definition ps_shape :: "'a ps_scheme \<Rightarrow> u64 list \<times> (u64 \<Rightarrow> (nat \<Rightarrow> u64) \<times> u32 \<times> u64 \<times> u64) \<times> (u64 \<Rightarrow> u64 \<times> u64 \<times> u64) \<times> u64" where
  "ps_shape s = (g_process_list s,
     (\<lambda>p. (threads (process s p), thread_count (process s p), pid (process s p), p_page_table (process s p))),
     (\<lambda>t. (th_process (thread s t), cx_cr3 (th_context (thread s t)), kernel_stack_top (thread s t))), g_next_pid s)"

lemma ps_shapeD:
  assumes "ps_shape s' = ps_shape s"
  shows "g_process_list s' = g_process_list s" "pid (process s' p) = pid (process s p)"
    "threads (process s' p) = threads (process s p)" "thread_count (process s' p) = thread_count (process s p)"
    "p_page_table (process s' p) = p_page_table (process s p)" "th_process (thread s' t) = th_process (thread s t)"
    "cx_cr3 (th_context (thread s' t)) = cx_cr3 (th_context (thread s t))"
    "kernel_stack_top (thread s' t) = kernel_stack_top (thread s t)" "g_next_pid s' = g_next_pid s"
  using assms by (auto simp: ps_shape_def fun_eq_iff)

lemma ps_shape_objects:
  assumes "ps_shape s' = ps_shape s"
  shows "proc_threads (process s' p) = proc_threads (process s p)" "proc_objects s' = proc_objects s" "all_objects s' = all_objects s"
proof -
  show 1: "proc_threads (process s' p) = proc_threads (process s p)" for p
    by (simp add: proc_threads_def ps_shapeD(3,4) [OF assms])
  then show "proc_objects s' = proc_objects s" by (simp add: proc_objects_def fun_eq_iff)
  then show "all_objects s' = all_objects s" by (simp add: all_objects_def ps_shapeD(1) [OF assms])
qed

lemma ps_inv_shape:
  assumes "ps_inv s" "ps_shape s' = ps_shape s"
    and "g_current_thread s' \<noteq> 0 \<Longrightarrow> g_current_process s' \<in> set (g_process_list s) \<and>
      g_current_thread s' \<in> set (proc_threads (process s (g_current_process s')))"
  shows "ps_inv s'"
  using assms(1,3) unfolding ps_inv_def
  by (simp add: ps_shapeD [OF assms(2)] ps_shape_objects [OF assms(2)])

text \<open>The objects of the list are live heap blocks.\<close>

definition ps_backed :: "'a ps_scheme \<Rightarrow> (u64 \<times> u64) set \<Rightarrow> bool" where
  "ps_backed s A \<longleftrightarrow> heap_blocks (ps_heap s) A \<and> set (all_objects s) \<subseteq> block_objects A"

lemma less_succ: "x \<noteq> - 1 \<Longrightarrow> (x :: 'a::len word) < x + 1"
  using unatSuc [of x] by (simp add: word_less_nat_alt add.commute [of 1] eq_neg_iff_add_eq_0)

lemma list_in_objects: "p \<in> set (g_process_list s) \<Longrightarrow> p \<in> set (all_objects s)"
  by (auto simp: all_objects_def proc_objects_def)

lemma thread_in_objects: "p \<in> set (g_process_list s) \<Longrightarrow> t \<in> set (proc_threads (process s p)) \<Longrightarrow> t \<in> set (all_objects s)"
  by (auto simp: all_objects_def proc_objects_def)

lemma heap_ok_blocks: "heap_ok h A \<Longrightarrow> heap_blocks h A"
  unfolding heap_blocks_def by (rule exI [of _ "hp_vm h"]) simp

text \<open>A new block is none of the objects.\<close>

lemma KmAlloc_object:
  assumes "heap_ok h A" "unat n \<le> 2 ^ 39" "n \<noteq> 0" "heap_room n h"
  shows "\<exists>a h' B. KmAlloc n h = Some (a, h') \<and> a \<noteq> 0 \<and> heap_blocks h' B \<and>
    block_objects B = insert a (block_objects A) \<and> a \<notin> block_objects A \<and> without {a} B = A"
proof -
  obtain x h' sz where r: "KmAlloc n h = Some (x + HEADER_SIZE, h')" "heap_ok h' (insert (x, sz) A)"
    "\<forall>r\<in>A. regions_apart (x, sz) r"
    using KmAlloc_correct [OF assms] by blast
  have "x + HEADER_SIZE \<noteq> 0" by (rule heap_ok_pointer [OF r(2), of x sz]) simp
  moreover have n: "x + HEADER_SIZE \<notin> block_objects A"
    using r(3) by (auto simp: block_objects_def regions_apart_def)
  moreover have "without {x + HEADER_SIZE} (insert (x, sz) A) = A"
    using n by (auto simp: without_def block_objects_def)
  ultimately show ?thesis
    using r(1) heap_ok_blocks [OF r(2)] by (intro exI conjI) (auto simp: block_objects_def)
qed

lemma proc_threads_push:
  assumes "unat (thread_count p) < MAX_THREADS" "t \<noteq> 0"
  shows "proc_threads (p\<lparr>threads := (threads p)(unat (thread_count p) := t), thread_count := thread_count p + 1\<rparr>) =
    proc_threads p @ [t]"
proof -
  have "unat (thread_count p + 1) = Suc (unat (thread_count p))"
    using assms(1) by (simp add: MAX_THREADS_def unat_word_ariths)
  moreover have "map ((threads p)(unat (thread_count p) := t)) [0..<unat (thread_count p)] = map (threads p) [0..<unat (thread_count p)]"
    by simp
  ultimately show ?thesis using assms by (simp add: proc_threads_def)
qed

section \<open>Creating a process\<close>

text \<open>What the creation of a process sets.\<close>

definition fresh_process :: "'a ps_scheme \<Rightarrow> u8 list \<Rightarrow> u64 \<Rightarrow> u64 \<Rightarrow> u64 \<Rightarrow> u64 \<Rightarrow> kprocess" where
  "fresh_process s name entry base len pgt = zero_process\<lparr>pid := g_next_pid s, p_state := PROCESS_READY,
     p_name := take 30 name, p_page_table := pgt, image_base := base, image_size := len, entry_point := entry,
     heap_base := base + page_round len, heap_brk := base + page_round len\<rparr>"

lemma fresh_process_table: "fresh_process s name entry base len a\<lparr>p_page_table := b\<rparr> = fresh_process s name entry base len b"
  by (simp add: fresh_process_def zero_process_def)

lemma all_objects_new_process:
  assumes "r \<notin> set (all_objects s)" "proc_threads q = []" "g_process_list s' = r # g_process_list s"
    "process s' = (process s)(r := q)"
  shows "all_objects s' = r # all_objects s"
proof -
  have "proc_objects s' p = proc_objects s p" if "p \<in> set (g_process_list s)" for p
    using list_in_objects [OF that] assms(1,4) by (auto simp: proc_objects_def)
  then show ?thesis using assms by (simp add: all_objects_def proc_objects_def cong: map_cong)
qed

lemma ps_inv_new_process:
  assumes "ps_inv s" "r \<notin> set (all_objects s)" "r \<noteq> 0" "proc_threads q = []" "pid q = g_next_pid s" "g_next_pid s \<noteq> 0"
    "g_next_pid s \<noteq> - 1"
    and s': "g_process_list s' = r # g_process_list s" "process s' = (process s)(r := q)" "thread s' = thread s"
    "g_next_pid s' = g_next_pid s + 1" "g_current_thread s' = g_current_thread s" "g_current_process s' = g_current_process s"
  shows "ps_inv s'"
proof -
  have new: "p \<noteq> r" if "p \<in> set (g_process_list s)" for p using list_in_objects [OF that] assms(2) by auto
  have "g_next_pid s < g_next_pid s + 1" using assms(7) by (rule less_succ)
  moreover have "pid (process s p) < g_next_pid s" "0 < pid (process s p)" if "p \<in> set (g_process_list s)" for p
    using that assms(1) by (auto simp: ps_inv_def)
  ultimately show ?thesis
    using assms(1,2,3,4,5,6) new
    unfolding ps_inv_def all_objects_new_process [OF assms(2,4) s'(1,2)] s'
    by (auto simp: inj_on_def word_neq_0_conv intro: less_trans)
qed

lemma PsCreateProcess_cases:
  fixes name :: "u8 list" and entry base len :: u64 and s :: "'a ps_scheme"
  assumes "KmAlloc SIZEOF_KPROCESS (ps_heap s) = Some (a, h)" "a \<noteq> 0"
    and "VmmCreateAddressSpace boot (hp_vm h) = (pml4, v)"
  defines "t \<equiv> set_vm v (upd_process a (\<lambda>_. fresh_process s name entry base len 0) (s\<lparr>ps_heap := h, g_next_pid := g_next_pid s + 1\<rparr>))"
  shows "PsCreateProcess boot name entry base len s =
    (if pml4 = 0 then map_option (Pair 0) (ps_free a t)
     else Some (a, upd_process a (\<lambda>p. p\<lparr>p_page_table := pml4 - PHYS_OFFSET\<rparr>) t\<lparr>g_process_list := a # g_process_list s\<rparr>))"
  using assms(1-3)
  by (simp add: PsCreateProcess_def t_def Let_def fresh_process_def PROCESS_NAME_MAX_def zero_process_def upd_process_def set_vm_def)

text \<open>C15: with memory for the object, the creation of a process returns.  It answers 0 and changes neither
  the list nor any process of it, or the address of a new heap block, different from every process
  and thread, which is put in front of the list as a ready process with the next identifier and
  no threads.  The invariant of the process list and its backing by heap blocks are kept either way.\<close>

theorem PsCreateProcess_correct:
  assumes "ps_inv s" "heap_ok (ps_heap s) A" "set (all_objects s) \<subseteq> block_objects A"
    and "heap_room SIZEOF_KPROCESS (ps_heap s)" "g_next_pid s \<noteq> 0" "g_next_pid s \<noteq> - 1"
  shows "\<exists>r s' B. PsCreateProcess boot name entry base len s = Some (r, s') \<and> ps_inv s' \<and> ps_backed s' B \<and>
    thread s' = thread s \<and>
    (if r = 0 then g_process_list s' = g_process_list s \<and> (\<forall>p\<in>set (g_process_list s). process s' p = process s p)
     else r \<notin> set (all_objects s) \<and> g_process_list s' = r # g_process_list s \<and>
       (\<exists>pgt. process s' = (process s)(r := fresh_process s name entry base len pgt)))"
proof -
  have small: "unat SIZEOF_KPROCESS \<le> 2 ^ 39" "SIZEOF_KPROCESS \<noteq> 0" by (simp_all add: SIZEOF_KPROCESS_def)
  obtain a h B where a: "KmAlloc SIZEOF_KPROCESS (ps_heap s) = Some (a, h)" "a \<noteq> 0" "heap_blocks h B"
    "block_objects B = insert a (block_objects A)" "a \<notin> block_objects A" "without {a} B = A"
    using KmAlloc_object [OF assms(2) small assms(4)] by blast
  have new: "a \<notin> set (all_objects s)" using a(5) assms(3) by blast
  obtain pml4 v where v: "VmmCreateAddressSpace boot (hp_vm h) = (pml4, v)" by fastforce
  define t where "t = set_vm v (upd_process a (\<lambda>_. fresh_process s name entry base len 0) (s\<lparr>ps_heap := h, g_next_pid := g_next_pid s + 1\<rparr>))"
  note c = PsCreateProcess_cases [OF a(1,2) v, of name entry base len, folded t_def]
  have tb: "heap_blocks (ps_heap t) B" using a(3) by (simp add: t_def upd_process_def)
  have t: "g_process_list t = g_process_list s" "thread t = thread s"
    "process t = (process s)(a := fresh_process s name entry base len 0)"
    by (simp_all add: t_def upd_process_def)
  have same: "process t p = process s p" if "p \<in> set (g_process_list s)" for p
    using list_in_objects [OF that] new t(3) by auto
  show ?thesis
  proof (cases "pml4 = 0")
    case True
    obtain s' where s': "ps_free a t = Some s'" "heap_blocks (ps_heap s') A"
      using ps_free_blocks [OF tb] a(4,6) by auto
    have o: "ps_objects s' = ps_objects t" "g_current_thread s' = g_current_thread t \<and> g_current_process s' = g_current_process t"
      using ps_free_objects [OF s'(1)] ps_free_current [OF s'(1)] by simp_all
    then have f: "g_process_list s' = g_process_list s" "thread s' = thread s" "process s' = process t"
      "g_next_pid s' = g_next_pid s + 1" "g_current_thread s' = g_current_thread s" "g_current_process s' = g_current_process s"
      by (auto simp: ps_objects_def t_def upd_process_def)
    have objs: "all_objects s' = all_objects s"
      using same by (simp add: all_objects_def proc_objects_def f cong: map_cong)
    have "g_next_pid s < g_next_pid s + 1" using assms(6) by (rule less_succ)
    then have "ps_inv s'" using assms(1) same unfolding ps_inv_def objs f by (auto simp: inj_on_def intro: less_trans)
    then show ?thesis using c True s' f same objs assms(3)
      by (intro exI [of _ 0] exI [of _ s'] exI [of _ A]) (simp add: ps_backed_def)
  next
    case False
    define s' where "s' = upd_process a (\<lambda>p. p\<lparr>p_page_table := pml4 - PHYS_OFFSET\<rparr>) t\<lparr>g_process_list := a # g_process_list s\<rparr>"
    define q where "q = fresh_process s name entry base len (pml4 - PHYS_OFFSET)"
    have f: "g_process_list s' = a # g_process_list s" "process s' = (process s)(a := q)" "thread s' = thread s"
      "g_next_pid s' = g_next_pid s + 1" "g_current_thread s' = g_current_thread s" "g_current_process s' = g_current_process s"
      by (simp_all add: s'_def t_def q_def upd_process_def fresh_process_table)
    have q: "proc_threads q = []" "pid q = g_next_pid s"
      by (simp_all add: q_def fresh_process_def proc_threads_def zero_process_def)
    have "ps_inv s'" by (rule ps_inv_new_process [OF assms(1) new a(2) q assms(5,6) f])
    moreover have "ps_backed s' B"
      using a(3,4) assms(3) all_objects_new_process [OF new q(1) f(1,2)] by (auto simp: ps_backed_def s'_def t_def upd_process_def)
    ultimately show ?thesis using c False f new a(2)
      by (intro exI [of _ a] exI [of _ s'] exI [of _ B]) (auto simp: s'_def [symmetric] q_def)
  qed
qed

section \<open>Creating a thread\<close>

lemma all_objects_new_thread:
  assumes "distinct (all_objects s)" "p \<in> set (g_process_list s)" "g_process_list s' = g_process_list s"
    "process s' = (process s)(p := q)" "proc_threads q = proc_threads (process s p) @ [t]"
  shows "set (all_objects s') = insert t (set (all_objects s))" "t \<notin> set (all_objects s) \<Longrightarrow> distinct (all_objects s')"
proof -
  obtain xs ys where xs: "g_process_list s = xs @ p # ys" using assms(2) by (auto simp: in_set_conv_decomp)
  have "p \<notin> set xs \<union> set ys" using assms(1) xs by (auto simp: all_objects_def proc_objects_def)
  then have same: "map (proc_objects s') xs = map (proc_objects s) xs" "map (proc_objects s') ys = map (proc_objects s) ys"
    using assms(4) by (auto simp: proc_objects_def)
  have "proc_objects s' p = proc_threads (process s p) @ [t, p]" by (simp add: proc_objects_def assms(4,5))
  then have a: "all_objects s' = concat (map (proc_objects s) xs) @ proc_threads (process s p) @ [t, p] @ concat (map (proc_objects s) ys)"
    by (simp add: all_objects_def assms(3) xs same)
  have b: "all_objects s = concat (map (proc_objects s) xs) @ proc_threads (process s p) @ [p] @ concat (map (proc_objects s) ys)"
    by (simp add: all_objects_def xs proc_objects_def)
  show "set (all_objects s') = insert t (set (all_objects s))" unfolding a b by auto
  show "t \<notin> set (all_objects s) \<Longrightarrow> distinct (all_objects s')" using assms(1) unfolding a b by auto
qed

lemma ps_inv_new_thread:
  assumes "ps_inv s" "p \<in> set (g_process_list s)" "t \<notin> set (all_objects s)" "t \<noteq> 0"
    "unat (thread_count (process s p)) < MAX_THREADS" "th_process h = p" "cx_cr3 (th_context h) = p_page_table (process s p)"
    and s': "g_process_list s' = g_process_list s" "thread s' = (thread s)(t := h)"
    "process s' = (process s)(p := (process s p)\<lparr>threads := (threads (process s p))(unat (thread_count (process s p)) := t),
       thread_count := thread_count (process s p) + 1\<rparr>)"
    "g_next_pid s' = g_next_pid s" "g_current_thread s' = g_current_thread s" "g_current_process s' = g_current_process s"
  shows "ps_inv s'"
proof -
  note push = proc_threads_push [OF assms(5,4)]
  have d: "distinct (all_objects s)" using assms(1) by (simp add: ps_inv_def)
  have "u \<noteq> t" if "r \<in> set (g_process_list s)" "u \<in> set (proc_threads (process s r))" for r u
    using thread_in_objects [OF that] assms(3) by auto
  note old = this
  have pids: "pid (process s' r) = pid (process s r)" and tables: "p_page_table (process s' r) = p_page_table (process s r)"
    and ts: "proc_threads (process s' r) = proc_threads (process s r) @ (if r = p then [t] else [])" for r
    by (simp_all add: s'(3) push)
  have th: "th_process (thread s' u) = r \<and> cx_cr3 (th_context (thread s' u)) = p_page_table (process s r)"
    if "r \<in> set (g_process_list s)" "u \<in> set (proc_threads (process s' r))" for r u
    using that assms(1,6,7) old by (auto simp: ts s'(2) ps_inv_def split: if_splits)
  have "distinct (all_objects s')" by (rule all_objects_new_thread(2) [OF d assms(2) s'(1,3) push assms(3)])
  then show ?thesis using assms(1) th unfolding ps_inv_def s'(1,4,5,6) pids tables by (auto simp: ts)
qed

text \<open>The two outcomes once the object is allocated: only the address space may differ before.\<close>

lemma PsCreateThread_cases:
  fixes s :: "'a ps_scheme"
  assumes "p \<noteq> 0" "unat (thread_count (process s p)) < MAX_THREADS"
    and "KmAlloc SIZEOF_KTHREAD (ps_heap s) = Some (a, h)" "a \<noteq> 0"
  defines "t \<equiv> s\<lparr>ps_heap := h, g_next_tid := g_next_tid s + 1\<rparr>"
  shows "(\<exists>v. PsCreateThread p entry s = map_option (Pair 0) (ps_free a (set_vm v t))) \<or> (\<exists>v kb kt.
    PsCreateThread p entry s = Some (a, upd_process p (\<lambda>q. q\<lparr>threads := (threads q)(unat (thread_count q) := a),
      thread_count := thread_count q + 1\<rparr>) (upd_thread a (\<lambda>_. new_thread (g_next_tid s) p entry kb kt (p_page_table (process s p))) (set_vm v t))))"
proof -
  have "thread_count (process s p) < of_nat MAX_THREADS"
    using assms(2) by (simp add: MAX_THREADS_def word_less_nat_alt)
  then have c: "\<not> (p = 0 \<or> thread_count (process s p) \<ge> of_nat MAX_THREADS)" using assms(1) by simp
  have twice: "set_vm w (set_vm v x) = set_vm w x" for v w and x :: "'a ps_scheme" by (simp add: set_vm_def)
  have p: "process t p = process s p" by (simp add: t_def)
  show ?thesis
    using c assms(3,4)
    by (simp add: PsCreateThread_def Let_def twice t_def [symmetric] p split: prod.splits) blast
qed

text \<open>C16: with memory for the object, the creation of a thread in a listed process with a free slot returns.
  It answers 0 and changes no object of the list, or the address of a new heap block, different
  from every process and thread, as the last thread of the process: ready to run at the entry
  point in the address space of the process, without a saved frame.  The invariant of the
  process list and its backing by heap blocks are kept either way.\<close>

theorem PsCreateThread_correct:
  assumes "ps_inv s" "heap_ok (ps_heap s) A" "set (all_objects s) \<subseteq> block_objects A"
    and "heap_room SIZEOF_KTHREAD (ps_heap s)" "p \<in> set (g_process_list s)"
    and "unat (thread_count (process s p)) < MAX_THREADS"
  shows "\<exists>r s' B. PsCreateThread p entry s = Some (r, s') \<and> ps_inv s' \<and> ps_backed s' B \<and>
    g_process_list s' = g_process_list s \<and> (\<forall>q. q \<noteq> p \<longrightarrow> process s' q = process s q) \<and>
    (if r = 0 then process s' = process s \<and> thread s' = thread s
     else r \<notin> set (all_objects s) \<and> proc_threads (process s' p) = proc_threads (process s p) @ [r] \<and>
       (\<forall>t. t \<noteq> r \<longrightarrow> thread s' t = thread s t) \<and>
       (\<exists>kb kt. thread s' r = new_thread (g_next_tid s) p entry kb kt (p_page_table (process s p))))"
proof -
  have small: "unat SIZEOF_KTHREAD \<le> 2 ^ 39" "SIZEOF_KTHREAD \<noteq> 0" by (simp_all add: SIZEOF_KTHREAD_def)
  have p: "p \<noteq> 0" using assms(1,5) by (auto simp: ps_inv_def)
  obtain a h B where a: "KmAlloc SIZEOF_KTHREAD (ps_heap s) = Some (a, h)" "a \<noteq> 0" "heap_blocks h B"
    "block_objects B = insert a (block_objects A)" "a \<notin> block_objects A" "without {a} B = A"
    using KmAlloc_object [OF assms(2) small assms(4)] by blast
  have new: "a \<notin> set (all_objects s)" using a(5) assms(3) by blast
  define t where "t = s\<lparr>ps_heap := h, g_next_tid := g_next_tid s + 1\<rparr>"
  have tb: "heap_blocks (ps_heap (set_vm v t)) B" for v using a(3) by (simp add: t_def)
  from PsCreateThread_cases [OF p assms(6) a(1,2), of entry, folded t_def] show ?thesis
  proof (elim disjE exE)
    fix v assume c: "PsCreateThread p entry s = map_option (Pair 0) (ps_free a (set_vm v t))"
    have "a \<in> block_objects B" using a(4) by simp
    from ps_free_blocks [OF tb this, unfolded a(6)]
    obtain s' where s': "ps_free a (set_vm v t) = Some s'" "heap_blocks (ps_heap s') A" by blast
    have f: "g_process_list s' = g_process_list s" "process s' = process s" "thread s' = thread s" "g_next_pid s' = g_next_pid s"
      "g_current_thread s' = g_current_thread s" "g_current_process s' = g_current_process s"
      using ps_free_objects [OF s'(1)] ps_free_current [OF s'(1)] by (auto simp: ps_objects_def t_def)
    then have shape: "ps_shape s' = ps_shape s" by (simp add: ps_shape_def)
    have "ps_inv s'" by (rule ps_inv_shape [OF assms(1) shape]) (use assms(1) f(5,6) in \<open>simp add: ps_inv_def\<close>)
    then show ?thesis using c s' f assms(3) ps_shape_objects(3) [OF shape] by (intro exI [of _ 0] exI [of _ s'] exI [of _ A]) (simp add: ps_backed_def)
  next
    fix v kb kt
    define s' where "s' = upd_process p (\<lambda>q. q\<lparr>threads := (threads q)(unat (thread_count q) := a), thread_count := thread_count q + 1\<rparr>)
      (upd_thread a (\<lambda>_. new_thread (g_next_tid s) p entry kb kt (p_page_table (process s p))) (set_vm v t))"
    assume "PsCreateThread p entry s = Some (a, upd_process p (\<lambda>q. q\<lparr>threads := (threads q)(unat (thread_count q) := a),
      thread_count := thread_count q + 1\<rparr>) (upd_thread a (\<lambda>_. new_thread (g_next_tid s) p entry kb kt (p_page_table (process s p))) (set_vm v t)))"
    then have c: "PsCreateThread p entry s = Some (a, s')" by (simp add: s'_def)
    define n where "n = new_thread (g_next_tid s) p entry kb kt (p_page_table (process s p))"
    have n: "th_process n = p" "cx_cr3 (th_context n) = p_page_table (process s p)" by (simp_all add: n_def new_thread_def Let_def)
    have f: "g_process_list s' = g_process_list s" "thread s' = (thread s)(a := n)"
      "process s' = (process s)(p := (process s p)\<lparr>threads := (threads (process s p))(unat (thread_count (process s p)) := a),
         thread_count := thread_count (process s p) + 1\<rparr>)"
      "g_next_pid s' = g_next_pid s" "g_current_thread s' = g_current_thread s" "g_current_process s' = g_current_process s"
      by (simp_all add: s'_def t_def n_def upd_process_def upd_thread_def)
    note push = proc_threads_push [OF assms(6) a(2)]
    have "ps_inv s'" by (rule ps_inv_new_thread [OF assms(1,5) new a(2) assms(6) n f])
    moreover have "set (all_objects s') = insert a (set (all_objects s))"
      by (rule all_objects_new_thread(1) [OF _ assms(5) f(1,3) push]) (use assms(1) in \<open>simp add: ps_inv_def\<close>)
    then have "ps_backed s' B" using a(3,4) assms(3) by (auto simp: ps_backed_def s'_def t_def upd_process_def upd_thread_def)
    ultimately show ?thesis using c f new a(2) push
      by (intro exI [of _ a] exI [of _ s'] exI [of _ B]) (auto simp: n_def)
  qed
qed

section \<open>Witnesses\<close>

definition ps_small :: "heap \<Rightarrow> kprocess \<Rightarrow> u64 list \<Rightarrow> ps" where
  "ps_small h p ps = \<lparr>ps_heap = h, process = (\<lambda>_. p), thread = (\<lambda>_. zero_thread), g_process_list = ps,
     g_current_process = 0, g_current_thread = 0, g_next_pid = 2, g_next_tid = 1, tss_rsp0 = 0\<rparr>"

definition proc_one :: kprocess where
  "proc_one = zero_process\<lparr>pid := 1, p_state := PROCESS_TERMINATED\<rparr>"

lemma ps_small_simps [simp]: "ps_heap (ps_small h p ps) = h" "process (ps_small h p ps) a = p"
  "g_process_list (ps_small h p ps) = ps" "g_next_pid (ps_small h p ps) = 2" "g_current_thread (ps_small h p ps) = 0"
  "g_current_process (ps_small h p ps) = 0" "thread (ps_small h p ps) b = zero_thread"
  by (simp_all add: ps_small_def)

lemma proc_one_threads [simp]: "proc_threads proc_one = []" "pid proc_one = 1" "thread_count proc_one = 0"
  by (simp_all add: proc_threads_def proc_one_def zero_process_def)

lemma heap_empty_rooms: "heap_room SIZEOF_KPROCESS heap_empty" "heap_room SIZEOF_KTHREAD heap_one"
  by (simp_all add: heap_room_def heap_one_def heap_empty_def round_size_def heap_consts PmmAllocPages_def PmmAllocPage_def
      pmm_small_def BITMAP_TEST_def BITMAP_OFFSET_def upt_rec drop_bit_eq_div SIZEOF_KPROCESS_def SIZEOF_KTHREAD_def)

lemma heap_one_objects: "block_objects {(0xFFFF800000000000, 64)} = {0xFFFF800000000028}"
  by (simp add: block_objects_def HEADER_SIZE_def)

theorem PsCleanupTerminated_correct_witness:
  "\<exists>s'. PsCleanupTerminated (ps_small heap_one proc_one [0xFFFF800000000028]) = Some s' \<and> g_process_list s' = []"
proof -
  let ?s = "ps_small heap_one proc_one [0xFFFF800000000028]"
  have d: "dead_objects ?s (g_process_list ?s) = [0xFFFF800000000028]"
    by (simp add: dead_objects_def dead_def proc_objects_def) (simp add: proc_one_def)
  show ?thesis
    using PsCleanupTerminated_correct [of ?s "{(0xFFFF800000000000, 64)}"] heap_ok_blocks [OF heap_one_ok] d
    by (simp add: heap_one_objects dead_def) (auto simp: proc_one_def)
qed

theorem PsCreateProcess_correct_witness:
  "\<exists>r s'. PsCreateProcess boot_small [97] 0x400000 0x400000 0x1000 (ps_small heap_empty zero_process []) = Some (r, s') \<and> ps_inv s'"
proof -
  have "ps_inv (ps_small heap_empty zero_process [])" by (simp add: ps_inv_def all_objects_def)
  from PsCreateProcess_correct [OF this, where A = "{}" and boot = boot_small and name = "[97]" and entry = "0x400000"
      and base = "0x400000" and len = "0x1000"] show ?thesis
    using heap_empty_ok heap_empty_rooms(1) by (simp add: all_objects_def) blast
qed

theorem PsCreateThread_correct_witness:
  "\<exists>r s'. PsCreateThread 0xFFFF800000000028 0x400000 (ps_small heap_one proc_one [0xFFFF800000000028]) = Some (r, s') \<and> ps_inv s'"
proof -
  let ?s = "ps_small heap_one proc_one [0xFFFF800000000028]"
  have o: "all_objects ?s = [0xFFFF800000000028]" by (simp add: all_objects_def proc_objects_def)
  then have "ps_inv ?s" by (simp add: ps_inv_def)
  from PsCreateThread_correct [OF this, where A = "{(0xFFFF800000000000, 64)}" and p = "0xFFFF800000000028" and entry = "0x400000"]
  show ?thesis using heap_one_ok heap_empty_rooms(2) o by (simp add: heap_one_objects MAX_THREADS_def) blast
qed

end
