(* ===== verification/Space_Release.thy ===== *)
theory Space_Release
  imports Process
begin

text \<open>
  What \<open>PsFreeAddressSpace\<close> and \<open>PsDestroyProcess\<close> (\<^verbatim>\<open>Kernel/proc/process.c\<close>) give back to the
  page allocator: the loops over the four levels of tables against the set of frames that the
  tables name.
\<close>

section \<open>What the release of an address space gives back\<close>


























section \<open>The frames that the tables map\<close>



















text \<open>
  \<open>PsDestroyProcess\<close> passes the virtual addresses of the tables to the page allocator, which
  knows no such pages: no table is given back.
\<close>

lemma free_virtual_address:
  assumes "PHYS_OFFSET \<le> a" "highest_page (vm_pmm v) < page_limit"
  shows "vm_free a v = v"
proof -
  have "unat PHYS_OFFSET \<le> unat a" using assms(1) by (simp add: word_le_nat_alt)
  then have "highest_page (vm_pmm v) < unat (a div PAGE_SIZE)"
    using assms(2) by (simp add: PHYS_OFFSET_def PAGE_SIZE_def unat_div)
  then show ?thesis by (simp add: vm_free_def PmmFreePage_def)
qed

lemma PsDestroyProcess_keeps_tables:
  assumes "PHYS_OFFSET \<le> pt" "highest_page (vm_pmm v) < page_limit"
    and "\<And>l. l < 512 \<Longrightarrow> \<not> present (get_entry v pt l)"
  shows "destroy_pt pt v = v"
proof -
  have "fold (\<lambda>l w. let e = get_entry w pt l in if present e then vm_free (entry_phys e) w else w) ls v = v"
    if "set ls \<subseteq> {..<512}" for ls
    using that assms(3) by (induction ls) (auto simp: Let_def)
  from this [of "[0..<512]"] show ?thesis
    unfolding destroy_pt_def by (simp only: free_virtual_address [OF assms(1,2)] set_upt atLeast0LessThan order_refl)
qed






end
