(* ===== verification/Keyboard.thy ===== *)
theory Keyboard
  imports Prelude
begin

text \<open>
  The PS/2 keyboard driver, \<^verbatim>\<open>Kernel/keyboard.c\<close>: two ring buffers (characters and key
  events), the modifier state, the interrupt handler that decodes a scan code into them and
  the calls that read them.  The rings are shown to be bounded FIFO queues through the locale
  \<open>bounded_fifo\<close>, interpreted on both; what the handler decodes is stated key by key.
\<close>

section \<open>State\<close>

definition KBD_BUFFER_SIZE :: u32 where "KBD_BUFFER_SIZE = 256"
definition KBD_EVENT_BUFFER_SIZE :: u32 where "KBD_EVENT_BUFFER_SIZE = 256"

record key_event =
  ev_scancode :: u32
  ev_pressed :: u32

record kbd =
  g_kbd_buffer :: "nat \<Rightarrow> u8"
  g_kbd_read_pos :: u32
  g_kbd_write_pos :: u32
  g_kbd_events :: "nat \<Rightarrow> key_event"
  g_kbd_event_read :: u32
  g_kbd_event_write :: u32
  g_shift_state :: i32
  g_ctrl_state :: i32
  g_caps_lock :: i32
  g_extended :: i32

text \<open>The two translation tables, indexed by the scan code (58 entries each).\<close>

definition g_scancode_to_ascii :: "u8 list" where
  "g_scancode_to_ascii =
    [0, 27, 0x31, 0x32, 0x33, 0x34, 0x35, 0x36, 0x37, 0x38, 0x39, 0x30, 0x2D, 0x3D, 8,
     9, 0x71, 0x77, 0x65, 0x72, 0x74, 0x79, 0x75, 0x69, 0x6F, 0x70, 0x5B, 0x5D, 10,
     0, 0x61, 0x73, 0x64, 0x66, 0x67, 0x68, 0x6A, 0x6B, 0x6C, 0x3B, 0x27, 0x60,
     0, 0x5C, 0x7A, 0x78, 0x63, 0x76, 0x62, 0x6E, 0x6D, 0x2C, 0x2E, 0x2F, 0,
     0x2A, 0, 0x20]"

definition g_scancode_shift_ascii :: "u8 list" where
  "g_scancode_shift_ascii =
    [0, 27, 0x21, 0x40, 0x23, 0x24, 0x25, 0x5E, 0x26, 0x2A, 0x28, 0x29, 0x5F, 0x2B, 8,
     9, 0x51, 0x57, 0x45, 0x52, 0x54, 0x59, 0x55, 0x49, 0x4F, 0x50, 0x7B, 0x7D, 10,
     0, 0x41, 0x53, 0x44, 0x46, 0x47, 0x48, 0x4A, 0x4B, 0x4C, 0x3A, 0x22, 0x7E,
     0, 0x7C, 0x5A, 0x58, 0x43, 0x56, 0x42, 0x4E, 0x4D, 0x3C, 0x3E, 0x3F, 0,
     0x2A, 0, 0x20]"

section \<open>The two rings\<close>

definition IsBufferEmpty :: "kbd \<Rightarrow> bool" where
  "IsBufferEmpty s \<longleftrightarrow> g_kbd_read_pos s = g_kbd_write_pos s"

definition BufferPut :: "u8 \<Rightarrow> kbd \<Rightarrow> kbd" where
  "BufferPut c s =
    (let nxt = (g_kbd_write_pos s + 1) mod KBD_BUFFER_SIZE
     in if nxt \<noteq> g_kbd_read_pos s
        then s\<lparr>g_kbd_buffer := (g_kbd_buffer s)(unat (g_kbd_write_pos s) := c), g_kbd_write_pos := nxt\<rparr>
        else s)"

definition BufferGet :: "kbd \<Rightarrow> u8 \<times> kbd" where
  "BufferGet s =
    (if IsBufferEmpty s then (0, s)
     else (g_kbd_buffer s (unat (g_kbd_read_pos s)),
           s\<lparr>g_kbd_read_pos := (g_kbd_read_pos s + 1) mod KBD_BUFFER_SIZE\<rparr>))"

definition EventBufferPut :: "key_event \<Rightarrow> kbd \<Rightarrow> kbd" where
  "EventBufferPut ev s =
    (let nxt = (g_kbd_event_write s + 1) mod KBD_EVENT_BUFFER_SIZE
     in if nxt \<noteq> g_kbd_event_read s
        then s\<lparr>g_kbd_events := (g_kbd_events s)(unat (g_kbd_event_write s) := ev), g_kbd_event_write := nxt\<rparr>
        else s)"

definition IsEventBufferEmpty :: "kbd \<Rightarrow> bool" where
  "IsEventBufferEmpty s \<longleftrightarrow> g_kbd_event_read s = g_kbd_event_write s"

section \<open>The readers\<close>

definition KeyboardHasChar :: "kbd \<Rightarrow> bool" where
  "KeyboardHasChar s \<longleftrightarrow> \<not> IsBufferEmpty s"

text \<open>\<open>KeyboardGetKey\<close> returns \<open>-1\<close> or the character, sign extended.\<close>

definition KeyboardGetKey :: "kbd \<Rightarrow> i32 \<times> kbd" where
  "KeyboardGetKey s =
    (if IsBufferEmpty s then (-1, s) else (let (c, s') = BufferGet s in (scast c, s')))"

definition KeyboardHasKeyEvent :: "kbd \<Rightarrow> bool" where
  "KeyboardHasKeyEvent s \<longleftrightarrow> \<not> IsEventBufferEmpty s"

text \<open>\<open>None\<close> stands for the return value 0 (the event argument is left alone).\<close>

definition KeyboardGetKeyEvent :: "kbd \<Rightarrow> key_event option \<times> kbd" where
  "KeyboardGetKeyEvent s =
    (if IsEventBufferEmpty s then (None, s)
     else (Some (g_kbd_events s (unat (g_kbd_event_read s))),
           s\<lparr>g_kbd_event_read := (g_kbd_event_read s + 1) mod KBD_EVENT_BUFFER_SIZE\<rparr>))"

text \<open>
  \<open>KeyboardGetChar\<close> halts the processor until an interrupt has put a character: \<open>irqs\<close> are
  the states in which it wakes up; with no further interrupt it does not return (\<open>None\<close>).
\<close>

fun KeyboardGetChar :: "(kbd \<Rightarrow> kbd) list \<Rightarrow> kbd \<Rightarrow> (u8 \<times> kbd) option" where
  "KeyboardGetChar irqs s =
    (if IsBufferEmpty s
     then (case irqs of [] \<Rightarrow> None | irq # rest \<Rightarrow> KeyboardGetChar rest (irq s))
     else Some (BufferGet s))"

declare KeyboardGetChar.simps [simp del]

section \<open>Initialisation\<close>

text \<open>
  The controller: the bytes waiting in its output buffer, and what has been written to its
  ports.  Bit 0 of the status port is set as long as a byte waits.
\<close>

record kbd_controller =
  out_pending :: "u8 list"
  port_writes :: "(u16 \<times> u8) list"

fun drain_output :: "u8 list \<Rightarrow> u8 list" where
  "drain_output [] = []"
| "drain_output (b # rest) = drain_output rest"

definition hal_out :: "u16 \<Rightarrow> u8 \<Rightarrow> kbd_controller \<Rightarrow> kbd_controller" where
  "hal_out port v d = d\<lparr>port_writes := port_writes d @ [(port, v)]\<rparr>"

definition KeInitKeyboard :: "kbd \<Rightarrow> kbd_controller \<Rightarrow> kbd \<times> kbd_controller" where
  "KeInitKeyboard s d =
    (let s = s\<lparr>g_kbd_read_pos := 0, g_kbd_write_pos := 0, g_shift_state := 0, g_ctrl_state := 0,
               g_caps_lock := 0, g_extended := 0\<rparr>;
         d = d\<lparr>out_pending := drain_output (out_pending d)\<rparr>;
         d = hal_out 0x64 0x60 d;
         d = hal_out 0x60 0x61 d;
         d = hal_out 0x64 0xAE d
     in (s, d))"

section \<open>The interrupt handler\<close>

definition pressed_of :: "u8 \<Rightarrow> u32" where
  "pressed_of released = (if released \<noteq> 0 then 0 else 1)"

text \<open>The branch taken after an extension prefix.\<close>

definition irq_extended :: "u8 \<Rightarrow> u8 \<Rightarrow> kbd \<Rightarrow> kbd" where
  "irq_extended raw released s =
    (let s = s\<lparr>g_extended := 0\<rparr>;
         ev = (\<lambda>code. \<lparr>ev_scancode = code, ev_pressed = pressed_of released\<rparr>)
     in if raw = 0x2A \<or> raw = 0x36 then EventBufferPut (ev (0x100 OR ucast raw)) s
        else if raw = 0x1D
        then EventBufferPut (ev (0x100 OR 0x1D)) (s\<lparr>g_ctrl_state := pressed_of released\<rparr>)
        else if raw = 0x38 then EventBufferPut (ev (0x100 OR 0x38)) s
        else if raw = 0x48 then EventBufferPut (ev 0x148) (BufferPut 72 s)
        else if raw = 0x50 then EventBufferPut (ev 0x150) (BufferPut 80 s)
        else if raw = 0x4B then EventBufferPut (ev 0x14B) (BufferPut 75 s)
        else if raw = 0x4D then EventBufferPut (ev 0x14D) (BufferPut 77 s)
        else if raw = 0x52 then EventBufferPut (ev 0x152) s
        else if raw = 0x53
        then EventBufferPut (ev 0x153) (if released = 0 then BufferPut 8 s else s)
        else EventBufferPut (ev (0x100 OR ucast raw)) s)"

text \<open>The character of a key, with the modifiers applied (0: none).\<close>

definition key_char :: "u8 \<Rightarrow> kbd \<Rightarrow> u8" where
  "key_char raw s =
    (let shifted = g_shift_state s XOR g_caps_lock s;
         c = (if shifted \<noteq> 0 \<and> unat raw < length g_scancode_shift_ascii
              then g_scancode_shift_ascii ! unat raw
              else g_scancode_to_ascii ! unat raw);
         c = (if g_ctrl_state s \<noteq> 0 \<and> 0x61 \<le> c \<and> c \<le> 0x7A then c - 0x60 else c);
         c = (if g_ctrl_state s \<noteq> 0 \<and> 0x41 \<le> c \<and> c \<le> 0x5A then c - 0x40 else c)
     in c)"

definition irq_plain :: "u8 \<Rightarrow> u8 \<Rightarrow> kbd \<Rightarrow> kbd" where
  "irq_plain raw released s =
    (let ev = \<lparr>ev_scancode = ucast raw, ev_pressed = pressed_of released\<rparr>
     in if raw = 0x2A \<or> raw = 0x36
        then EventBufferPut ev (s\<lparr>g_shift_state := pressed_of released\<rparr>)
        else if raw = 0x1D
        then EventBufferPut ev (s\<lparr>g_ctrl_state := pressed_of released\<rparr>)
        else if raw = 0x3A
        then EventBufferPut ev
               (if released = 0 then s\<lparr>g_caps_lock := (if g_caps_lock s = 0 then 1 else 0)\<rparr> else s)
        else (let s = EventBufferPut ev s
              in if released \<noteq> 0 then s
                 else if unat raw < length g_scancode_to_ascii
                 then (let c = key_char raw s in if c \<noteq> 0 then BufferPut c s else s)
                 else s))"

text \<open>
  \<open>KeyboardIrqHandler\<close>: \<open>scancode\<close> is the byte read from the data port, \<open>pid\<close> the process of
  the current thread, if there is one.  The first result says that the handler has called
  \<open>SyscallKillCurrentProcess\<close> and returned.
\<close>

definition KeyboardIrqHandler :: "u8 \<Rightarrow> u64 option \<Rightarrow> kbd \<Rightarrow> bool \<times> kbd" where
  "KeyboardIrqHandler scancode pid s =
    (let raw = scancode AND 0x7F;
         released = scancode AND 0x80
     in if g_ctrl_state s \<noteq> 0 \<and> released = 0 \<and> raw = 0x2E \<and> (case pid of Some p \<Rightarrow> 1 < p | None \<Rightarrow> False)
        then (True, s)
        else if raw = 0xE0 then (False, s\<lparr>g_extended := 1\<rparr>)
        else if g_extended s \<noteq> 0 then (False, irq_extended raw released s)
        else (False, irq_plain raw released s))"

section \<open>Bounded FIFO queues\<close>

text \<open>
  What a client of a ring buffer relies on: it holds a list of at most \<open>cap\<close> elements, a put
  appends unless the list is full, a get takes the first element.
\<close>

datatype 'a fifo_op = FifoPut 'a | FifoGet

fun fifo_run :: "('a \<Rightarrow> 's \<Rightarrow> 's) \<Rightarrow> ('s \<Rightarrow> 'a option \<times> 's) \<Rightarrow> 'a fifo_op list \<Rightarrow> 's
    \<Rightarrow> 'a option list \<times> 's" where
  "fifo_run put get [] s = ([], s)"
| "fifo_run put get (FifoPut a # ops) s = fifo_run put get ops (put a s)"
| "fifo_run put get (FifoGet # ops) s =
    (let (r, s) = get s; (rs, s) = fifo_run put get ops s in (r # rs, s))"

definition push_bounded :: "nat \<Rightarrow> 'a \<Rightarrow> 'a list \<Rightarrow> 'a list" where
  "push_bounded cap a q = (if length q < cap then q @ [a] else q)"

definition pop_front :: "'a list \<Rightarrow> 'a option \<times> 'a list" where
  "pop_front q = (case q of [] \<Rightarrow> (None, []) | a # as \<Rightarrow> (Some a, as))"

lemma pop_front_simps [simp]:
  "pop_front [] = (None, [])" "pop_front (a # as) = (Some a, as)"
  by (simp_all add: pop_front_def)

locale bounded_fifo =
  fixes put :: "'a \<Rightarrow> 's \<Rightarrow> 's"
    and get :: "'s \<Rightarrow> 'a option \<times> 's"
    and contents :: "'s \<Rightarrow> 'a list"
    and ok :: "'s \<Rightarrow> bool"
    and cap :: nat
  assumes put_contents: "ok s \<Longrightarrow> contents (put a s) = push_bounded cap a (contents s)"
    and put_ok: "ok s \<Longrightarrow> ok (put a s)"
    and get_contents: "ok s \<Longrightarrow>
      fst (get s) = fst (pop_front (contents s)) \<and> contents (snd (get s)) = snd (pop_front (contents s))"
    and get_ok: "ok s \<Longrightarrow> ok (snd (get s))"
begin

text \<open>Any sequence of puts and gets answers as the list does.\<close>

lemma run_refines:
  "ok s \<Longrightarrow>
    fst (fifo_run put get ops s) = fst (fifo_run (push_bounded cap) pop_front ops (contents s)) \<and>
    contents (snd (fifo_run put get ops s)) = snd (fifo_run (push_bounded cap) pop_front ops (contents s)) \<and>
    ok (snd (fifo_run put get ops s))"
proof (induction ops arbitrary: s)
  case Nil
  then show ?case by simp
next
  case (Cons op ops)
  show ?case
  proof (cases op)
    case (FifoPut a)
    then show ?thesis using Cons by (simp add: put_contents [symmetric] put_ok)
  next
    case FifoGet
    have "ok (snd (get s))" using Cons.prems by (rule get_ok)
    from Cons.IH [OF this] show ?thesis
      using get_contents [OF Cons.prems] FifoGet by (simp add: case_prod_unfold Let_def)
  qed
qed

end

text \<open>A ring of 256 slots between a read and a write position, as a list.\<close>

definition ring_list :: "(nat \<Rightarrow> 'a) \<Rightarrow> nat \<Rightarrow> nat \<Rightarrow> 'a list" where
  "ring_list slots rd wr = map (\<lambda>i. slots ((rd + i) mod 256)) [0..<(wr + 256 - rd) mod 256]"

lemma length_ring_list [simp]: "length (ring_list slots rd wr) = (wr + 256 - rd) mod 256"
  by (simp add: ring_list_def)

lemma ring_list_empty [simp]: "ring_list slots rd rd = []"
  by (simp add: ring_list_def)

lemma ring_distance:
  assumes "rd < 256" "wr < (256::nat)"
  shows "(wr + 256 - rd) mod 256 = (if rd \<le> wr then wr - rd else wr + 256 - rd)"
proof (cases "rd \<le> wr")
  case True
  then have "wr + 256 - rd = wr - rd + 256" by simp
  then have "(wr + 256 - rd) mod 256 = (wr - rd) mod 256" by (simp only: mod_add_self2)
  then show ?thesis using True assms by simp
next
  case False
  then show ?thesis using assms by simp
qed

lemma mod_succ: "x < 256 \<Longrightarrow> Suc x mod 256 = (if x = 255 then 0 else Suc x)"
  by (auto simp: mod_if)

lemma ring_index:
  assumes "rd < 256" "i < 256"
  shows "(rd + i) mod 256 = (if rd + i < 256 then rd + i else rd + i - 256 :: nat)"
proof (cases "rd + i < 256")
  case False
  then have "(rd + i) mod 256 = (rd + i - 256) mod 256" by (simp add: le_mod_geq)
  then show ?thesis using assms False by simp
qed simp

lemma ring_full_iff:
  assumes "rd < 256" "wr < 256"
  shows "(wr + 1) mod 256 = rd \<longleftrightarrow> \<not> length (ring_list slots rd wr) < 255"
  using assms by (auto simp: ring_distance mod_succ split: if_splits)

lemma ring_put:
  assumes "rd < 256" "wr < 256" "(wr + 1) mod 256 \<noteq> rd"
  shows "ring_list (slots(wr := x)) rd ((wr + 1) mod 256) = ring_list slots rd wr @ [x]"
proof (rule nth_equalityI)
  let ?n = "(wr + 256 - rd) mod 256"
  have len: "((wr + 1) mod 256 + 256 - rd) mod 256 = ?n + 1"
    using assms by (auto simp: ring_distance mod_succ split: if_splits)
  then show "length (ring_list (slots(wr := x)) rd ((wr + 1) mod 256)) = length (ring_list slots rd wr @ [x])"
    by simp
  fix i
  assume "i < length (ring_list (slots(wr := x)) rd ((wr + 1) mod 256))"
  then have i: "i \<le> ?n" using len by simp
  have slot: "(rd + i) mod 256 = wr \<longleftrightarrow> i = ?n"
    using assms(1,2) i ring_index [OF assms(1), of i]
    by (auto simp: ring_distance split: if_splits)
  show "ring_list (slots(wr := x)) rd ((wr + 1) mod 256) ! i = (ring_list slots rd wr @ [x]) ! i"
    using i slot len by (auto simp: ring_list_def nth_append)
qed

lemma ring_get:
  assumes "rd < 256" "wr < 256" "rd \<noteq> wr"
  shows "ring_list slots rd wr = slots rd # ring_list slots ((rd + 1) mod 256) wr"
proof -
  have "(wr + 256 - rd) mod 256 = Suc ((wr + 256 - (rd + 1) mod 256) mod 256)"
    using assms by (auto simp: ring_distance mod_succ split: if_splits)
  then show ?thesis
    using assms(1) by (simp add: ring_list_def map_upt_Suc mod_add_left_eq del: upt_Suc)
qed

lemma ring_pos_Suc: "unat w < 256 \<Longrightarrow> unat ((w + 1) mod 256 :: u32) = (unat w + 1) mod 256"
  by (simp add: unat_mod unat_word_ariths take_bit_nat_eq_self)

lemma ring_pos_eq: "(a = b) = (unat (a :: u32) = unat b)"
  by (simp add: word_unat_eq_iff)

section \<open>The rings are FIFO queues\<close>

definition kbd_ok :: "kbd \<Rightarrow> bool" where
  "kbd_ok s \<longleftrightarrow> unat (g_kbd_read_pos s) < 256 \<and> unat (g_kbd_write_pos s) < 256 \<and>
     unat (g_kbd_event_read s) < 256 \<and> unat (g_kbd_event_write s) < 256"

definition kbd_chars :: "kbd \<Rightarrow> u8 list" where
  "kbd_chars s = ring_list (g_kbd_buffer s) (unat (g_kbd_read_pos s)) (unat (g_kbd_write_pos s))"

definition kbd_key_events :: "kbd \<Rightarrow> key_event list" where
  "kbd_key_events s = ring_list (g_kbd_events s) (unat (g_kbd_event_read s)) (unat (g_kbd_event_write s))"

text \<open>\<open>BufferGet\<close> with its test for an empty ring, as \<open>KeyboardHasChar\<close> callers use it.\<close>

definition take_char :: "kbd \<Rightarrow> u8 option \<times> kbd" where
  "take_char s = (if IsBufferEmpty s then (None, s) else (let (c, s') = BufferGet s in (Some c, s')))"

lemmas ring_defs = KBD_BUFFER_SIZE_def KBD_EVENT_BUFFER_SIZE_def ring_pos_eq ring_pos_Suc Let_def

lemma ring_empty_iff: "rd < 256 \<Longrightarrow> wr < 256 \<Longrightarrow> (ring_list slots rd wr = []) = (rd = wr)"
  using ring_get [of rd wr slots] by (cases "rd = wr") auto

interpretation char_fifo: bounded_fifo BufferPut take_char kbd_chars kbd_ok 255
proof
  fix s :: kbd and a
  assume ok: "kbd_ok s"
  then have rd: "unat (g_kbd_read_pos s) < 256" and wr: "unat (g_kbd_write_pos s) < 256"
    by (auto simp: kbd_ok_def)
  show "kbd_chars (BufferPut a s) = push_bounded 255 a (kbd_chars s)"
    using rd wr ring_full_iff [OF rd wr, where slots = "g_kbd_buffer s"]
      ring_put [OF rd wr, where slots = "g_kbd_buffer s" and x = a]
    by (auto simp: BufferPut_def kbd_chars_def push_bounded_def ring_defs)
  show "kbd_ok (BufferPut a s)"
    using ok wr by (auto simp: BufferPut_def kbd_ok_def ring_defs)
  show "fst (take_char s) = fst (pop_front (kbd_chars s)) \<and>
      kbd_chars (snd (take_char s)) = snd (pop_front (kbd_chars s))"
    using rd wr ring_get [OF rd wr, of "g_kbd_buffer s"]
    by (auto simp: take_char_def BufferGet_def IsBufferEmpty_def kbd_chars_def ring_defs)
  show "kbd_ok (snd (take_char s))"
    using ok rd by (auto simp: take_char_def BufferGet_def kbd_ok_def ring_defs)
qed

interpretation event_fifo: bounded_fifo EventBufferPut KeyboardGetKeyEvent kbd_key_events kbd_ok 255
proof
  fix s :: kbd and a
  assume ok: "kbd_ok s"
  then have rd: "unat (g_kbd_event_read s) < 256" and wr: "unat (g_kbd_event_write s) < 256"
    by (auto simp: kbd_ok_def)
  show "kbd_key_events (EventBufferPut a s) = push_bounded 255 a (kbd_key_events s)"
    using rd wr ring_full_iff [OF rd wr, where slots = "g_kbd_events s"]
      ring_put [OF rd wr, where slots = "g_kbd_events s" and x = a]
    by (auto simp: EventBufferPut_def kbd_key_events_def push_bounded_def ring_defs)
  show "kbd_ok (EventBufferPut a s)"
    using ok wr by (auto simp: EventBufferPut_def kbd_ok_def ring_defs)
  show "fst (KeyboardGetKeyEvent s) = fst (pop_front (kbd_key_events s)) \<and>
      kbd_key_events (snd (KeyboardGetKeyEvent s)) = snd (pop_front (kbd_key_events s))"
    using rd wr ring_get [OF rd wr, of "g_kbd_events s"]
    by (auto simp: KeyboardGetKeyEvent_def IsEventBufferEmpty_def kbd_key_events_def ring_defs)
  show "kbd_ok (snd (KeyboardGetKeyEvent s))"
    using ok rd by (auto simp: KeyboardGetKeyEvent_def kbd_ok_def ring_defs)
qed

section \<open>What the keyboard promises\<close>

text \<open>
  The keyboard as its readers see it: two bounded queues and three modifiers.  An interrupt
  queues the key event and, for a key that is going down, its character; a full queue drops
  the new element.
\<close>

record kbd_view =
  kv_chars :: "u8 list"
  kv_events :: "key_event list"
  kv_shift :: bool
  kv_ctrl :: bool
  kv_caps :: bool

definition view_char :: "kbd_view \<Rightarrow> nat \<Rightarrow> u8" where
  "view_char v key =
    (let c = (if kv_shift v \<noteq> kv_caps v then g_scancode_shift_ascii ! key else g_scancode_to_ascii ! key)
     in if kv_ctrl v \<and> c \<in> {0x61..0x7A} then c - 0x60
        else if kv_ctrl v \<and> c \<in> {0x41..0x5A} then c - 0x40 else c)"

definition view_irq :: "nat \<Rightarrow> bool \<Rightarrow> kbd_view \<Rightarrow> kbd_view" where
  "view_irq key down v =
    (let v = v\<lparr>kv_events := push_bounded 255 \<lparr>ev_scancode = of_nat key, ev_pressed = of_bool down\<rparr> (kv_events v)\<rparr>
     in if key \<in> {0x2A, 0x36} then v\<lparr>kv_shift := down\<rparr>
        else if key = 0x1D then v\<lparr>kv_ctrl := down\<rparr>
        else if key = 0x3A then v\<lparr>kv_caps := (if down then \<not> kv_caps v else kv_caps v)\<rparr>
        else if down \<and> key < 58 \<and> view_char v key \<noteq> 0
        then v\<lparr>kv_chars := push_bounded 255 (view_char v key) (kv_chars v)\<rparr>
        else v)"

datatype kbd_event = IrqByte u8 "u64 option" | ReadKey | ReadKeyEvent
datatype kbd_answer = Quiet | Killed | Key i32 | KeyEvent "key_event option"

fun view_step :: "kbd_event \<Rightarrow> kbd_view \<Rightarrow> kbd_answer \<times> kbd_view" where
  "view_step (IrqByte b pid) v =
    (let key = unat b mod 128; down = unat b < 128
     in if kv_ctrl v \<and> down \<and> key = 0x2E \<and> (case pid of Some p \<Rightarrow> 1 < p | None \<Rightarrow> False) then (Killed, v)
        else (Quiet, view_irq key down v))"
| "view_step ReadKey v =
    (case pop_front (kv_chars v) of
       (None, _) \<Rightarrow> (Key (-1), v)
     | (Some c, rest) \<Rightarrow> (Key (scast c), v\<lparr>kv_chars := rest\<rparr>))"
| "view_step ReadKeyEvent v =
    (let (r, rest) = pop_front (kv_events v) in (KeyEvent r, v\<lparr>kv_events := rest\<rparr>))"

fun kbd_step :: "kbd_event \<Rightarrow> kbd \<Rightarrow> kbd_answer \<times> kbd" where
  "kbd_step (IrqByte b pid) s =
    (let (killed, s) = KeyboardIrqHandler b pid s in (if killed then Killed else Quiet, s))"
| "kbd_step ReadKey s = (let (r, s) = KeyboardGetKey s in (Key r, s))"
| "kbd_step ReadKeyEvent s = (let (r, s) = KeyboardGetKeyEvent s in (KeyEvent r, s))"

fun run_events :: "('e \<Rightarrow> 's \<Rightarrow> 'o \<times> 's) \<Rightarrow> 'e list \<Rightarrow> 's \<Rightarrow> 'o list \<times> 's" where
  "run_events step [] s = ([], s)"
| "run_events step (e # es) s =
    (let (r, s) = step e s; (rs, s) = run_events step es s in (r # rs, s))"

definition kbd_inv :: "kbd \<Rightarrow> bool" where
  "kbd_inv s \<longleftrightarrow> kbd_ok s \<and> g_shift_state s \<in> {0, 1} \<and> g_ctrl_state s \<in> {0, 1} \<and>
     g_caps_lock s \<in> {0, 1} \<and> g_extended s = 0"

definition kbd_view_of :: "kbd \<Rightarrow> kbd_view" where
  "kbd_view_of s =
    \<lparr>kv_chars = kbd_chars s, kv_events = kbd_key_events s, kv_shift = (g_shift_state s \<noteq> 0),
     kv_ctrl = (g_ctrl_state s \<noteq> 0), kv_caps = (g_caps_lock s \<noteq> 0)\<rparr>"

section \<open>The driver implements it\<close>

lemma unat_raw: "unat ((scancode :: u8) AND 0x7F) = unat scancode mod 128"
proof -
  have "scancode AND 0x7F = take_bit 7 scancode"
    by (simp add: take_bit_eq_mask mask_eq_exp_minus_1)
  then have "unat (scancode AND 0x7F) = take_bit 7 (unat scancode)"
    by (simp only: unsigned_take_bit_eq)
  then show ?thesis by (simp add: take_bit_eq_mod)
qed

lemma released_iff: "(scancode :: u8) AND 0x80 = 0 \<longleftrightarrow> unat scancode < 128"
proof -
  have "scancode AND 0x80 = 0 \<longleftrightarrow> \<not> bit scancode 7"
    using and_exp_eq_0_iff_not_bit [of scancode 7] by simp
  also have "\<dots> \<longleftrightarrow> \<not> bit (unat scancode) 7"
    by (simp add: bit_unsigned_iff)
  also have "\<dots> \<longleftrightarrow> unat scancode div 128 mod 2 = 0"
    by (simp add: bit_iff_odd even_iff_mod_2_eq_zero)
  also have "\<dots> \<longleftrightarrow> unat scancode < 128"
    using unsigned_less [of scancode, where ?'a = nat] by auto
  finally show ?thesis .
qed

lemma raw_eq_iff:
  assumes "k < 128"
  shows "((scancode :: u8) AND 0x7F = of_nat k) \<longleftrightarrow> unat scancode mod 128 = k"
  using assms by (auto simp: word_unat_eq_iff unat_raw unat_of_nat)

lemmas raw_codes = raw_eq_iff [of 42, simplified] raw_eq_iff [of 54, simplified]
  raw_eq_iff [of 29, simplified] raw_eq_iff [of 58, simplified] raw_eq_iff [of 46, simplified]

text \<open>The test for the extension prefix comes after bit 7 has been masked off.\<close>

lemma raw_not_prefix: "(scancode :: u8) AND 0x7F \<noteq> 0xE0"
  using unat_raw [of scancode] by (auto simp: word_unat_eq_iff)

lemma ctrl_letter: "(c :: u8) - 0x60 \<in> {0x41..0x5A} \<Longrightarrow> c \<notin> {0x61..0x7A}"
  by (auto simp: word_le_nat_alt unat_sub_if')

lemma key_char_view:
  assumes "kbd_inv s" "unat raw < 58"
  shows "key_char raw s = view_char (kbd_view_of s) (unat raw)"
proof -
  have "length g_scancode_shift_ascii = 58" by (simp add: g_scancode_shift_ascii_def)
  moreover have "g_shift_state s XOR g_caps_lock s \<noteq> 0 \<longleftrightarrow> (g_shift_state s \<noteq> 0) \<noteq> (g_caps_lock s \<noteq> 0)"
    using assms(1) by (auto simp: kbd_inv_def)
  ultimately show ?thesis
    using assms(2) ctrl_letter by (auto simp: key_char_def view_char_def kbd_view_of_def Let_def)
qed

lemma put_view:
  "kbd_chars (EventBufferPut ev s) = kbd_chars s"
  "kbd_key_events (BufferPut c s) = kbd_key_events s"
  "g_shift_state (EventBufferPut ev s) = g_shift_state s" "g_shift_state (BufferPut c s) = g_shift_state s"
  "g_ctrl_state (EventBufferPut ev s) = g_ctrl_state s" "g_ctrl_state (BufferPut c s) = g_ctrl_state s"
  "g_caps_lock (EventBufferPut ev s) = g_caps_lock s" "g_caps_lock (BufferPut c s) = g_caps_lock s"
  "g_extended (EventBufferPut ev s) = g_extended s" "g_extended (BufferPut c s) = g_extended s"
  by (simp_all add: EventBufferPut_def BufferPut_def kbd_chars_def kbd_key_events_def Let_def)

lemma modifier_view:
  "kbd_chars (s\<lparr>g_shift_state := a\<rparr>) = kbd_chars s" "kbd_key_events (s\<lparr>g_shift_state := a\<rparr>) = kbd_key_events s"
  "kbd_chars (s\<lparr>g_ctrl_state := a\<rparr>) = kbd_chars s" "kbd_key_events (s\<lparr>g_ctrl_state := a\<rparr>) = kbd_key_events s"
  "kbd_chars (s\<lparr>g_caps_lock := a\<rparr>) = kbd_chars s" "kbd_key_events (s\<lparr>g_caps_lock := a\<rparr>) = kbd_key_events s"
  "kbd_ok (s\<lparr>g_shift_state := a\<rparr>) = kbd_ok s" "kbd_ok (s\<lparr>g_ctrl_state := a\<rparr>) = kbd_ok s"
  "kbd_ok (s\<lparr>g_caps_lock := a\<rparr>) = kbd_ok s"
  by (simp_all add: kbd_chars_def kbd_key_events_def kbd_ok_def)

lemmas view_simps = put_view modifier_view char_fifo.put_contents char_fifo.put_ok
  event_fifo.put_contents event_fifo.put_ok

lemma event_put_view:
  assumes "kbd_inv s"
  shows "kbd_view_of (EventBufferPut ev s) =
      (kbd_view_of s)\<lparr>kv_events := push_bounded 255 ev (kv_events (kbd_view_of s))\<rparr>"
    and "kbd_inv (EventBufferPut ev s)"
  using assms by (simp_all add: kbd_view_of_def kbd_inv_def view_simps)

lemma char_put_view:
  assumes "kbd_inv s"
  shows "kbd_view_of (BufferPut c s) =
      (kbd_view_of s)\<lparr>kv_chars := push_bounded 255 c (kv_chars (kbd_view_of s))\<rparr>"
    and "kbd_inv (BufferPut c s)"
  using assms by (simp_all add: kbd_view_of_def kbd_inv_def view_simps)

lemma view_char_event: "view_char (v\<lparr>kv_events := q\<rparr>) key = view_char v key"
  by (simp add: view_char_def Let_def)

lemma modifier_put_view:
  assumes "kbd_inv s"
  shows "kbd_inv (s\<lparr>g_shift_state := of_bool d\<rparr>) \<and>
      kbd_view_of (s\<lparr>g_shift_state := of_bool d\<rparr>) = (kbd_view_of s)\<lparr>kv_shift := d\<rparr>"
    and "kbd_inv (s\<lparr>g_ctrl_state := of_bool d\<rparr>) \<and>
      kbd_view_of (s\<lparr>g_ctrl_state := of_bool d\<rparr>) = (kbd_view_of s)\<lparr>kv_ctrl := d\<rparr>"
    and "kbd_inv (s\<lparr>g_caps_lock := of_bool d\<rparr>) \<and>
      kbd_view_of (s\<lparr>g_caps_lock := of_bool d\<rparr>) = (kbd_view_of s)\<lparr>kv_caps := d\<rparr>"
  using assms by (simp_all add: kbd_view_of_def kbd_inv_def view_simps)

lemma irq_plain_view:
  fixes b :: u8
  assumes inv: "kbd_inv s"
  defines "raw \<equiv> b AND 0x7F"
  shows "kbd_view_of (irq_plain raw (b AND 0x80) s) = view_irq (unat b mod 128) (unat b < 128) (kbd_view_of s) \<and>
    kbd_inv (irq_plain raw (b AND 0x80) s)"
proof -
  define key where "key = unat b mod 128"
  define down where "down \<longleftrightarrow> unat b < 128"
  define ev where "ev = \<lparr>ev_scancode = of_nat key, ev_pressed = of_bool down\<rparr>"
  have key: "unat raw = key" by (simp add: raw_def key_def unat_raw)
  have codes: "raw = 0x2A \<longleftrightarrow> key = 0x2A" "raw = 0x36 \<longleftrightarrow> key = 0x36" "raw = 0x1D \<longleftrightarrow> key = 0x1D"
    "raw = 0x3A \<longleftrightarrow> key = 0x3A"
    by (simp_all add: raw_def key_def raw_codes)
  have pressed: "pressed_of (b AND 0x80) = of_bool down" and released: "b AND 0x80 = 0 \<longleftrightarrow> down"
    by (simp_all add: pressed_of_def released_iff down_def)
  have "ucast raw = (of_nat (unat raw) :: u32)" by simp
  then have ev: "\<lparr>ev_scancode = ucast raw, ev_pressed = pressed_of (b AND 0x80)\<rparr> = ev"
    by (simp only: ev_def key pressed)
  have len: "length g_scancode_to_ascii = 58" by (simp add: g_scancode_to_ascii_def)
  have caps: "(if g_caps_lock s = 0 then 1 else 0) = (of_bool (\<not> kv_caps (kbd_view_of s)) :: i32)"
    by (simp add: kbd_view_of_def)
  note put = event_put_view [OF inv, of ev]
  have spec: "view_irq key down v =
    (let v = v\<lparr>kv_events := push_bounded 255 ev (kv_events v)\<rparr>
     in if key \<in> {0x2A, 0x36} then v\<lparr>kv_shift := down\<rparr>
        else if key = 0x1D then v\<lparr>kv_ctrl := down\<rparr>
        else if key = 0x3A then v\<lparr>kv_caps := (if down then \<not> kv_caps v else kv_caps v)\<rparr>
        else if down \<and> key < 58 \<and> view_char v key \<noteq> 0
        then v\<lparr>kv_chars := push_bounded 255 (view_char v key) (kv_chars v)\<rparr>
        else v)" for v
    by (simp add: view_irq_def ev_def)
  note defs = Let_def pressed released codes key len
  consider "key \<in> {0x2A, 0x36}" | "key = 0x1D" | "key = 0x3A" | "key \<notin> {0x2A, 0x36, 0x1D, 0x3A}" by blast
  then have "kbd_view_of (irq_plain raw (b AND 0x80) s) = view_irq key down (kbd_view_of s) \<and>
    kbd_inv (irq_plain raw (b AND 0x80) s)"
  proof cases
    case 1
    then show ?thesis using modifier_put_view(1) [OF inv, of down]
      unfolding irq_plain_def spec ev
      by (auto simp: defs event_put_view)
  next
    case 2
    then show ?thesis using modifier_put_view(2) [OF inv, of down]
      unfolding irq_plain_def spec ev
      by (auto simp: defs event_put_view)
  next
    case 3
    then show ?thesis using modifier_put_view(3) [OF inv, of "\<not> kv_caps (kbd_view_of s)"] put
      unfolding irq_plain_def spec ev
      by (cases down) (auto simp: defs event_put_view caps)
  next
    case 4
    have "key < 58 \<Longrightarrow> key_char raw (EventBufferPut ev s) = view_char (kbd_view_of s) key"
      using key_char_view [OF put(2), of raw] by (simp add: key put(1) view_char_event)
    then show ?thesis using 4 put char_put_view [OF put(2)]
      unfolding irq_plain_def spec ev
      by (auto simp: defs view_char_event)
  qed
  then show ?thesis by (simp add: key_def down_def)
qed

lemma KeyboardIrqHandler_view:
  assumes inv: "kbd_inv s"
  shows "kbd_step (IrqByte b pid) s =
      (fst (view_step (IrqByte b pid) (kbd_view_of s)), snd (KeyboardIrqHandler b pid s)) \<and>
    kbd_view_of (snd (KeyboardIrqHandler b pid s)) = snd (view_step (IrqByte b pid) (kbd_view_of s)) \<and>
    kbd_inv (snd (KeyboardIrqHandler b pid s))"
proof -
  have ext: "g_extended s = 0" and ctrl: "kv_ctrl (kbd_view_of s) \<longleftrightarrow> g_ctrl_state s \<noteq> 0"
    using inv by (simp_all add: kbd_inv_def kbd_view_of_def)
  show ?thesis
    using irq_plain_view [OF inv, of b] inv
    by (simp add: KeyboardIrqHandler_def Let_def ext ctrl raw_not_prefix released_iff raw_codes)
qed

lemma reader_view:
  assumes inv: "kbd_inv s"
  shows "kbd_chars (snd (KeyboardGetKeyEvent s)) = kbd_chars s"
    and "kbd_key_events (snd (BufferGet s)) = kbd_key_events s"
    and "kbd_inv (snd (KeyboardGetKeyEvent s))" "kbd_inv (snd (BufferGet s))"
    and "kbd_view_of (snd (KeyboardGetKeyEvent s)) = (kbd_view_of s)\<lparr>kv_events := snd (pop_front (kbd_key_events s))\<rparr>"
proof -
  have ok: "kbd_ok s" using inv by (simp add: kbd_inv_def)
  show "kbd_chars (snd (KeyboardGetKeyEvent s)) = kbd_chars s"
    by (simp add: KeyboardGetKeyEvent_def kbd_chars_def)
  show "kbd_key_events (snd (BufferGet s)) = kbd_key_events s"
    by (simp add: BufferGet_def kbd_key_events_def)
  show "kbd_inv (snd (KeyboardGetKeyEvent s))"
    using inv event_fifo.get_ok [OF ok] by (auto simp: kbd_inv_def KeyboardGetKeyEvent_def)
  have "kbd_ok (snd (BufferGet s))"
    using char_fifo.get_ok [OF ok] ok by (simp add: take_char_def case_prod_unfold Let_def BufferGet_def split: if_splits)
  then show "kbd_inv (snd (BufferGet s))"
    using inv by (auto simp: kbd_inv_def BufferGet_def)
  show "kbd_view_of (snd (KeyboardGetKeyEvent s)) = (kbd_view_of s)\<lparr>kv_events := snd (pop_front (kbd_key_events s))\<rparr>"
    using event_fifo.get_contents [OF ok]
    by (auto simp: kbd_view_of_def KeyboardGetKeyEvent_def kbd_chars_def)
qed

lemma KeyboardGetKey_view:
  assumes inv: "kbd_inv s"
  shows "kbd_step ReadKey s = (fst (view_step ReadKey (kbd_view_of s)), snd (KeyboardGetKey s)) \<and>
    kbd_view_of (snd (KeyboardGetKey s)) = snd (view_step ReadKey (kbd_view_of s)) \<and>
    kbd_inv (snd (KeyboardGetKey s))"
proof (cases "IsBufferEmpty s")
  case True
  then have "kbd_chars s = []" by (simp add: IsBufferEmpty_def kbd_chars_def)
  then show ?thesis using True inv by (simp add: KeyboardGetKey_def kbd_view_of_def)
next
  case False
  have ok: "kbd_ok s" using inv by (simp add: kbd_inv_def)
  then have chars: "kbd_chars s = fst (BufferGet s) # kbd_chars (snd (BufferGet s))"
    using False ring_get [of "unat (g_kbd_read_pos s)" "unat (g_kbd_write_pos s)" "g_kbd_buffer s"]
    by (simp add: kbd_ok_def IsBufferEmpty_def BufferGet_def kbd_chars_def ring_defs)
  have mods: "kbd_view_of (snd (BufferGet s)) = (kbd_view_of s)\<lparr>kv_chars := kbd_chars (snd (BufferGet s))\<rparr>"
    by (simp add: kbd_view_of_def BufferGet_def kbd_key_events_def)
  show ?thesis
    using False chars mods reader_view(4) [OF inv]
    by (simp add: KeyboardGetKey_def case_prod_unfold Let_def kbd_view_of_def)
qed

lemma kbd_step_view:
  assumes "kbd_inv s"
  shows "fst (kbd_step e s) = fst (view_step e (kbd_view_of s)) \<and>
    kbd_view_of (snd (kbd_step e s)) = snd (view_step e (kbd_view_of s)) \<and> kbd_inv (snd (kbd_step e s))"
proof (cases e)
  case (IrqByte b pid)
  then show ?thesis using KeyboardIrqHandler_view [OF assms, of b pid] by (simp del: view_step.simps kbd_step.simps)
next
  case ReadKey
  then show ?thesis using KeyboardGetKey_view [OF assms] by (simp del: view_step.simps kbd_step.simps)
next
  case ReadKeyEvent
  have "kbd_ok s" using assms by (simp add: kbd_inv_def)
  from event_fifo.get_contents [OF this] show ?thesis
    using ReadKeyEvent reader_view(3,5) [OF assms]
    by (simp add: case_prod_unfold Let_def kbd_view_of_def)
qed

text \<open>C31: for every interleaving of keyboard interrupts with calls that read a key or a key
  event, the driver answers exactly as two bounded FIFO queues of 255 elements and three
  modifiers do: the keys come out in the order in which they were typed, translated under
  Shift, Caps Lock and Ctrl as they were when the key went down, a full ring drops the new
  element and overwrites none, and Ctrl+C kills the current process when its pid is above 1.\<close>

theorem keyboard_refines_queues:
  assumes "kbd_inv s"
  shows "fst (run_events kbd_step es s) = fst (run_events view_step es (kbd_view_of s))"
  using assms
proof (induction es arbitrary: s)
  case Nil
  then show ?case by simp
next
  case (Cons e es)
  then show ?case using kbd_step_view [of s e] by (simp add: case_prod_unfold Let_def)
qed

definition kbd_zero :: kbd where
  "kbd_zero = \<lparr>g_kbd_buffer = (\<lambda>_. 0), g_kbd_read_pos = 0, g_kbd_write_pos = 0,
     g_kbd_events = (\<lambda>_. \<lparr>ev_scancode = 0, ev_pressed = 0\<rparr>), g_kbd_event_read = 0, g_kbd_event_write = 0,
     g_shift_state = 0, g_ctrl_state = 0, g_caps_lock = 0, g_extended = 0\<rparr>"

lemma kbd_zero_inv: "kbd_inv kbd_zero"
  by (simp add: kbd_inv_def kbd_ok_def kbd_zero_def)

theorem keyboard_refines_queues_witness:
  "fst (run_events kbd_step [IrqByte 0x2A None, IrqByte 0x1E None, IrqByte 0x9E None, ReadKey, ReadKey] kbd_zero) =
   fst (run_events view_step [IrqByte 0x2A None, IrqByte 0x1E None, IrqByte 0x9E None, ReadKey, ReadKey]
     (kbd_view_of kbd_zero))"
  by (rule keyboard_refines_queues [OF kbd_zero_inv])

text \<open>
  The extension prefix is never recognised: no byte sets \<open>g_extended\<close>, so the cursor keys,
  which send \<open>0xE0\<close> first, put no character and two key events.
\<close>

lemma extended_never_set: "g_extended s = 0 \<Longrightarrow> g_extended (snd (KeyboardIrqHandler b pid s)) = 0"
  by (simp add: KeyboardIrqHandler_def Let_def raw_not_prefix irq_plain_def put_view)

lemma cursor_up_is_two_keys:
  "let s = snd (KeyboardIrqHandler 0x48 None (snd (KeyboardIrqHandler 0xE0 None kbd_zero)))
   in IsBufferEmpty s \<and> map ev_scancode (kbd_key_events s) = [0x60, 0x48]"
  by code_simp

end
