(* ===== verification/Net_Link.thy ===== *)
theory Net_Link
  imports Prelude
begin

text \<open>
  The link layer: the descriptor rings of the network card (\<^verbatim>\<open>Kernel/net/e1000.c\<close>), Ethernet
  framing (\<^verbatim>\<open>ethernet.c\<close>) and the address resolution cache (\<^verbatim>\<open>arp.c\<close>).  The device itself
  (its registers, its side of the rings) is not modelled: between two calls it may change
  the status of the descriptors it owns.
\<close>

section \<open>State\<close>

type_synonym mac = "u8 list"

record tx_desc =
  td_length :: u16
  td_cmd :: u8
  td_sta :: u8

record rx_desc =
  rd_length :: u16
  rd_sta :: u8

record arp_entry =
  ae_ip :: u32
  ae_mac :: mac
  ae_timestamp :: u64
  ae_valid :: bool

text \<open>
  The rings and buffers of \<^verbatim>\<open>g_e1000\<close>, the cache and address of \<^verbatim>\<open>arp.c\<close>, the tick counter of
  the timer, and \<open>stack_bytes\<close>: what an uninitialised array on the kernel stack contains.
\<close>

record link =
  nic_initialized :: bool
  nic_mac :: mac
  tx_desc :: "nat \<Rightarrow> tx_desc"
  tx_buf :: "nat \<Rightarrow> buf"
  tx_tail :: u16
  rx_desc :: "nat \<Rightarrow> rx_desc"
  rx_buf :: "nat \<Rightarrow> buf"
  rx_tail :: u16
  reg_tdt :: u16
  reg_rdt :: u16
  g_eth_initialized :: bool
  g_arp_cache :: "nat \<Rightarrow> arp_entry"
  arp_our_ip :: u32
  tick_count :: u64
  stack_bytes :: buf

definition E1000_NUM_TX_DESC :: u16 where "E1000_NUM_TX_DESC = 32"
definition E1000_NUM_RX_DESC :: u16 where "E1000_NUM_RX_DESC = 32"
definition E1000_BUF_SIZE :: u16 where "E1000_BUF_SIZE = 2048"
definition STAT_DD :: u8 where "STAT_DD = 1"
definition TXD_CMD :: u8 where "TXD_CMD = 0x0B"

section \<open>The card\<close>

definition E1000Initialized :: "'a link_scheme \<Rightarrow> bool" where
  "E1000Initialized s = nic_initialized s"

definition E1000GetMac :: "'a link_scheme \<Rightarrow> mac" where
  "E1000GetMac s = nic_mac s"

text \<open>\<open>data\<close> is the frame at the pointer, \<open>len\<close> its length.\<close>

definition E1000SendFrame :: "buf \<Rightarrow> u16 \<Rightarrow> 'a link_scheme \<Rightarrow> ntstatus \<times> 'a link_scheme" where
  "E1000SendFrame data len s =
    (if \<not> nic_initialized s then (STATUS_UNSUCCESSFUL, s)
     else if len = 0 \<or> len > E1000_BUF_SIZE then (STATUS_INVALID_PARAMETER, s)
     else let i = unat (tx_tail s) in
       if td_sta (tx_desc s i) AND STAT_DD = 0 then (STATUS_UNSUCCESSFUL, s)
       else let tail = (tx_tail s + 1) mod E1000_NUM_TX_DESC
            in (STATUS_SUCCESS,
                s\<lparr>tx_buf := (tx_buf s)(i := buf_copy (tx_buf s i) 0 data 0 (unat len)),
                  tx_desc := (tx_desc s)(i := \<lparr>td_length = len, td_cmd = TXD_CMD, td_sta = 0\<rparr>),
                  tx_tail := tail, reg_tdt := tail\<rparr>))"

text \<open>The result: the return value and the buffer after the call.\<close>

definition E1000ReceiveFrame :: "buf \<Rightarrow> u16 \<Rightarrow> 'a link_scheme \<Rightarrow> (int \<times> buf) \<times> 'a link_scheme" where
  "E1000ReceiveFrame out_buf max_len s =
    (if \<not> nic_initialized s then ((-1, out_buf), s)
     else if max_len = 0 then ((-1, out_buf), s)
     else let nxt = (rx_tail s + 1) mod E1000_NUM_RX_DESC; i = unat nxt in
       if rd_sta (rx_desc s i) AND STAT_DD = 0 then ((0, out_buf), s)
       else let len = (if rd_length (rx_desc s i) > max_len then max_len else rd_length (rx_desc s i))
            in ((uint len, buf_copy out_buf 0 (rx_buf s i) 0 (unat len)),
                s\<lparr>rx_desc := (rx_desc s)(i := (rx_desc s i)\<lparr>rd_sta := 0\<rparr>), rx_tail := nxt, reg_rdt := nxt\<rparr>))"

text \<open>The station address as the two address registers hold it.\<close>

definition E1000WriteMac :: "mac \<Rightarrow> u32 \<times> u32" where
  "E1000WriteMac m =
    (ucast (m ! 0) OR push_bit 8 (ucast (m ! 1)) OR push_bit 16 (ucast (m ! 2)) OR push_bit 24 (ucast (m ! 3)),
     ucast (m ! 4) OR push_bit 8 (ucast (m ! 5)) OR push_bit 31 1)"

text \<open>\<open>eeprom\<close>: the word \<^verbatim>\<open>E1000ReadEeprom\<close> returns for an address.\<close>

definition E1000ReadMac :: "u32 \<Rightarrow> u32 \<Rightarrow> (u8 \<Rightarrow> u16) \<Rightarrow> mac" where
  "E1000ReadMac ral rah eeprom =
    (if ral \<noteq> 0 \<or> rah AND 0xFFFF \<noteq> 0
     then [ucast (ral AND 0xFF), ucast (drop_bit 8 ral AND 0xFF), ucast (drop_bit 16 ral AND 0xFF),
           ucast (drop_bit 24 ral AND 0xFF), ucast (rah AND 0xFF), ucast (drop_bit 8 rah AND 0xFF)]
     else let w0 = eeprom 0; w1 = eeprom 1; w2 = eeprom 2
     in if w0 \<noteq> 0xFFFF
     then [ucast (w0 AND 0xFF), ucast (drop_bit 8 w0 AND 0xFF), ucast (w1 AND 0xFF),
           ucast (drop_bit 8 w1 AND 0xFF), ucast (w2 AND 0xFF), ucast (drop_bit 8 w2 AND 0xFF)]
     else [0x52, 0x54, 0x00, 0x12, 0x34, 0x56])"

text \<open>
  Initialisation, as far as the driver's state goes: \<open>nic\<close> is what the bus scan and the card's
  address registers and memory give (\<open>None\<close>: no controller, or no register window), \<open>pages\<close> the number
  of free pages.  It takes one page for each ring and one for each of the 64 buffers; when they run
  out it gives up, and the rings of an uninitialised card are never looked at.
\<close>

definition E1000Init :: "(u32 \<times> u32 \<times> (u8 \<Rightarrow> u16)) option \<Rightarrow> nat \<Rightarrow> 'a link_scheme \<Rightarrow> 'a link_scheme" where
  "E1000Init nic pages s =
    (let s = s\<lparr>nic_initialized := False, nic_mac := replicate 6 0, tx_tail := 0, rx_tail := 0\<rparr>
     in case nic of
          None \<Rightarrow> s
        | Some (ral, rah, eeprom) \<Rightarrow>
          let s = s\<lparr>nic_mac := E1000ReadMac ral rah eeprom\<rparr>
          in if pages < 66 then s
             else s\<lparr>tx_desc := (\<lambda>_. \<lparr>td_length = 0, td_cmd = 0, td_sta = STAT_DD\<rparr>), reg_tdt := 0,
                    rx_desc := (\<lambda>_. \<lparr>rd_length = 0, rd_sta = 0\<rparr>), reg_rdt := E1000_NUM_RX_DESC - 1,
                    rx_tail := E1000_NUM_RX_DESC - 1, nic_initialized := True\<rparr>)"

section \<open>Ethernet\<close>

definition ETH_TYPE_ARP :: u16 where "ETH_TYPE_ARP = 0x0806"
definition ETH_TYPE_IPv4 :: u16 where "ETH_TYPE_IPv4 = 0x0800"
definition ETH_MAX_PAYLOAD :: u16 where "ETH_MAX_PAYLOAD = 1500"

definition swap16 :: "u16 \<Rightarrow> u16" where
  "swap16 v = drop_bit 8 v OR push_bit 8 v"

definition put_bytes :: "buf \<Rightarrow> nat \<Rightarrow> u8 list \<Rightarrow> buf" where
  "put_bytes b off xs = (\<lambda>i. if off \<le> i \<and> i < off + length xs then xs ! (i - off) else b i)"

definition EthInit :: "(u32 \<times> u32 \<times> (u8 \<Rightarrow> u16)) option \<Rightarrow> nat \<Rightarrow> 'a link_scheme \<Rightarrow> 'a link_scheme" where
  "EthInit nic pages s =
    (let s = E1000Init nic pages s in s\<lparr>g_eth_initialized := E1000Initialized s\<rparr>)"

definition EthInitialized :: "'a link_scheme \<Rightarrow> bool" where
  "EthInitialized s = g_eth_initialized s"

definition EthGetMac :: "'a link_scheme \<Rightarrow> mac" where
  "EthGetMac s = E1000GetMac s"

definition eth_frame :: "mac \<Rightarrow> u16 \<Rightarrow> buf \<Rightarrow> u16 \<Rightarrow> 'a link_scheme \<Rightarrow> buf" where
  "eth_frame dst type payload len s =
    (let frame = stack_bytes s;
         frame = put_bytes frame 0 dst;
         frame = put_bytes frame 6 (EthGetMac s);
         frame = put16 frame 12 (swap16 type)
     in buf_copy frame 14 payload 0 (unat len))"

definition EthSend :: "mac \<Rightarrow> u16 \<Rightarrow> buf \<Rightarrow> u16 \<Rightarrow> 'a link_scheme \<Rightarrow> ntstatus \<times> 'a link_scheme" where
  "EthSend dst type payload len s =
    (if \<not> g_eth_initialized s then (STATUS_UNSUCCESSFUL, s)
     else if len > ETH_MAX_PAYLOAD then (STATUS_INVALID_PARAMETER, s)
     else let total = 14 + len; total = (if total < 60 then 60 else total)
          in E1000SendFrame (eth_frame dst type payload len s) total s)"

text \<open>\<open>EthReceive\<close> into the buffer \<open>out\<close>: return value, buffer, frame type and source.\<close>

definition EthReceive :: "buf \<Rightarrow> u16 \<Rightarrow> u16 \<Rightarrow> mac \<Rightarrow> 'a link_scheme \<Rightarrow> (int \<times> buf \<times> u16 \<times> mac) \<times> 'a link_scheme" where
  "EthReceive out max_len type0 src0 s =
    (if \<not> g_eth_initialized s then ((-1, out, type0, src0), s)
     else let ((len, frame), s) = E1000ReceiveFrame (stack_bytes s) 1518 s
     in if len \<le> 0 then ((0, out, type0, src0), s)
     else if len < 14 then ((0, out, type0, src0), s)
     else let type = swap16 (le16 frame 12);
              src = buf_list frame 6 6;
              payload_len = (of_int (len - 14) :: u16);
              payload_len = (if payload_len > max_len then max_len else payload_len);
              out = (if payload_len > 0 then buf_copy out 0 frame 14 (unat payload_len) else out)
          in ((uint payload_len, out, type, src), s))"

section \<open>Address resolution\<close>

definition ARP_CACHE_SIZE :: nat where "ARP_CACHE_SIZE = 8"
definition ARP_HTYPE_ETH :: u16 where "ARP_HTYPE_ETH = 1"
definition ARP_PTYPE_IPv4 :: u16 where "ARP_PTYPE_IPv4 = 0x0800"
definition ARP_OP_REQUEST :: u16 where "ARP_OP_REQUEST = 1"
definition ARP_OP_REPLY :: u16 where "ARP_OP_REPLY = 2"

text \<open>The packed fields of \<open>ArpPacket\<close> (28 bytes).\<close>

definition arp_htype :: "buf \<Rightarrow> u16" where "arp_htype p = le16 p 0"
definition arp_ptype :: "buf \<Rightarrow> u16" where "arp_ptype p = le16 p 2"
definition arp_oper :: "buf \<Rightarrow> u16" where "arp_oper p = le16 p 6"
definition arp_sha :: "buf \<Rightarrow> mac" where "arp_sha p = buf_list p 8 6"
definition arp_spa :: "buf \<Rightarrow> u32" where "arp_spa p = le32 p 14"
definition arp_tha :: "buf \<Rightarrow> mac" where "arp_tha p = buf_list p 18 6"
definition arp_tpa :: "buf \<Rightarrow> u32" where "arp_tpa p = le32 p 24"

definition ArpInit :: "'a link_scheme \<Rightarrow> 'a link_scheme" where
  "ArpInit s = s\<lparr>g_arp_cache := (\<lambda>_. \<lparr>ae_ip = 0, ae_mac = replicate 6 0, ae_timestamp = 0, ae_valid = False\<rparr>)\<rparr>"

definition ArpSetOurIp :: "u32 \<Rightarrow> 'a link_scheme \<Rightarrow> 'a link_scheme" where
  "ArpSetOurIp ip s = s\<lparr>arp_our_ip := ip\<rparr>"

definition ArpFindEntry :: "u32 \<Rightarrow> (nat \<Rightarrow> arp_entry) \<Rightarrow> nat option" where
  "ArpFindEntry ip c = find (\<lambda>i. ae_valid (c i) \<and> ae_ip (c i) = ip) [0..<ARP_CACHE_SIZE]"

definition oldest_entry :: "(nat \<Rightarrow> arp_entry) \<Rightarrow> nat" where
  "oldest_entry c =
    fold (\<lambda>i oldest. if ae_timestamp (c i) < ae_timestamp (c oldest) then i else oldest) [1..<ARP_CACHE_SIZE] 0"

definition ArpAllocEntry :: "(nat \<Rightarrow> arp_entry) \<Rightarrow> nat" where
  "ArpAllocEntry c =
    (case find (\<lambda>i. \<not> ae_valid (c i)) [0..<ARP_CACHE_SIZE] of Some i \<Rightarrow> i | None \<Rightarrow> oldest_entry c)"

definition ArpUpdateCache :: "u32 \<Rightarrow> mac \<Rightarrow> 'a link_scheme \<Rightarrow> 'a link_scheme" where
  "ArpUpdateCache ip m s =
    (let c = g_arp_cache s;
         idx = (case ArpFindEntry ip c of Some i \<Rightarrow> i | None \<Rightarrow> ArpAllocEntry c)
     in s\<lparr>g_arp_cache := c(idx := \<lparr>ae_ip = ip, ae_mac = m, ae_timestamp = tick_count s, ae_valid = True\<rparr>)\<rparr>)"

definition arp_packet :: "u16 \<Rightarrow> mac \<Rightarrow> u32 \<Rightarrow> mac \<Rightarrow> u32 \<Rightarrow> buf" where
  "arp_packet oper sha spa tha tpa =
    (let p = (\<lambda>_. 0);
         p = put16 p 0 (swap16 ARP_HTYPE_ETH);
         p = put16 p 2 (swap16 ARP_PTYPE_IPv4);
         p = p(4 := 6, 5 := 4);
         p = put16 p 6 (swap16 oper);
         p = put_bytes p 8 sha;
         p = put32 p 14 spa;
         p = put_bytes p 18 tha
     in put32 p 24 tpa)"

definition ArpHandlePacket :: "buf \<Rightarrow> 'a link_scheme \<Rightarrow> 'a link_scheme" where
  "ArpHandlePacket pkt s =
    (if swap16 (arp_htype pkt) \<noteq> ARP_HTYPE_ETH \<or> swap16 (arp_ptype pkt) \<noteq> ARP_PTYPE_IPv4 then s
     else if swap16 (arp_oper pkt) = ARP_OP_REPLY then ArpUpdateCache (arp_spa pkt) (arp_sha pkt) s
     else if swap16 (arp_oper pkt) = ARP_OP_REQUEST
     then (if arp_tpa pkt = arp_our_ip s \<and> arp_our_ip s \<noteq> 0
           then let reply = arp_packet ARP_OP_REPLY (EthGetMac s) (arp_our_ip s) (arp_sha pkt) (arp_spa pkt)
                in snd (EthSend (arp_sha pkt) ETH_TYPE_ARP reply 28 s)
           else s)
     else s)"

definition ArpSendRequest :: "u32 \<Rightarrow> 'a link_scheme \<Rightarrow> 'a link_scheme" where
  "ArpSendRequest target_ip s =
    (let req = arp_packet ARP_OP_REQUEST (EthGetMac s) (arp_our_ip s) (replicate 6 0) target_ip
     in snd (EthSend (replicate 6 0xFF) ETH_TYPE_ARP req 28 s))"

text \<open>\<open>None\<close> is the return value -1: the address is not known yet.\<close>

definition ArpResolve :: "u32 \<Rightarrow> 'a link_scheme \<Rightarrow> mac option \<times> 'a link_scheme" where
  "ArpResolve ip s =
    (case ArpFindEntry ip (g_arp_cache s) of
       Some idx \<Rightarrow> (Some (ae_mac (g_arp_cache s idx)), s)
     | None \<Rightarrow> (None, ArpSendRequest ip s))"

section \<open>Byte order and buffers\<close>

lemma swap16_swap16 [simp]: "swap16 (swap16 v) = v"
proof (rule bit_word_eqI)
  fix n
  assume "n < LENGTH(16)"
  then show "bit (swap16 (swap16 v)) n = bit v n"
    by (cases "n < 8") (auto simp: swap16_def bit_simps)
qed

lemma put_bytes_at: "i < length xs \<Longrightarrow> put_bytes b off xs (off + i) = xs ! i"
  by (simp add: put_bytes_def)

lemma put_bytes_outside: "i < off \<or> off + length xs \<le> i \<Longrightarrow> put_bytes b off xs i = b i"
  by (auto simp: put_bytes_def)

lemma buf_list_put_bytes: "length xs = n \<Longrightarrow> buf_list (put_bytes b off xs) off n = xs"
  by (rule nth_equalityI) (auto simp: put_bytes_def)

lemma buf_list_cong: "(\<And>i. i < n \<Longrightarrow> b (off + i) = b' (off' + i)) \<Longrightarrow> buf_list b off n = buf_list b' off' n"
  by (simp add: buf_list_def)

section \<open>The rings\<close>

text \<open>Sending and receiving change no descriptor and no buffer that the card still owns; a frame
  that is accepted is in the slot at the old tail, whole, and the tail has moved to the next
  slot; a full ring is reported and nothing changes.\<close>

theorem E1000SendFrame_ring:
  assumes "unat (tx_tail s) < 32" "unat len \<le> 2048" "len \<noteq> 0" "nic_initialized s"
  shows "let (r, s') = E1000SendFrame data len s; i = unat (tx_tail s) in
    (\<forall>j. td_sta (tx_desc s j) AND STAT_DD = 0 \<longrightarrow> tx_desc s' j = tx_desc s j \<and> tx_buf s' j = tx_buf s j) \<and>
    (if td_sta (tx_desc s i) AND STAT_DD = 0 then r = STATUS_UNSUCCESSFUL \<and> s' = s
     else r = STATUS_SUCCESS \<and> td_length (tx_desc s' i) = len \<and> td_sta (tx_desc s' i) = 0 \<and>
       buf_list (tx_buf s' i) 0 (unat len) = buf_list data 0 (unat len) \<and>
       unat (tx_tail s') = (i + 1) mod 32 \<and> reg_tdt s' = tx_tail s' \<and>
       (\<forall>j. j \<noteq> i \<longrightarrow> tx_desc s' j = tx_desc s j \<and> tx_buf s' j = tx_buf s j))"
proof -
  have "\<not> len > E1000_BUF_SIZE" using assms(2) by (simp add: E1000_BUF_SIZE_def word_less_nat_alt)
  moreover have "unat ((tx_tail s + 1) mod E1000_NUM_TX_DESC) = (unat (tx_tail s) + 1) mod 32"
    using assms(1) by (simp add: E1000_NUM_TX_DESC_def unat_mod unat_word_ariths)
  ultimately show ?thesis
    using assms by (simp add: E1000SendFrame_def Let_def)
qed

lemma E1000SendFrame_tail: "unat (tx_tail s) < 32 \<Longrightarrow> unat (tx_tail (snd (E1000SendFrame d n s))) < 32"
  by (simp add: E1000SendFrame_def Let_def E1000_NUM_TX_DESC_def unat_mod)

section \<open>Frames\<close>

lemma EthReceive_frame:
  fixes s :: "'a link_scheme"
  assumes up: "g_eth_initialized s" "nic_initialized s"
    and slot: "rd_sta (rx_desc s (unat ((rx_tail s + 1) mod E1000_NUM_RX_DESC))) AND STAT_DD \<noteq> 0"
      "rd_length (rx_desc s (unat ((rx_tail s + 1) mod E1000_NUM_RX_DESC))) = flen"
    and f: "rx_buf s (unat ((rx_tail s + 1) mod E1000_NUM_RX_DESC)) = f"
    and n0: "14 < unat flen" "unat flen \<le> 1514" "1500 \<le> unat max_len"
  shows "fst (EthReceive out max_len ty src s) =
    (int (unat flen) - 14, buf_copy out 0 f 14 (unat flen - 14), swap16 (le16 f 12), buf_list f 6 6)"
proof -
  let ?i = "unat ((rx_tail s + 1) mod E1000_NUM_RX_DESC)"
  let ?g = "buf_copy (stack_bytes s) 0 f 0 (unat flen)"
  have r: "fst (E1000ReceiveFrame (stack_bytes s) 1518 s) = (uint flen, ?g)"
    using up slot f n0 by (auto simp: E1000ReceiveFrame_def Let_def word_less_nat_alt)
  obtain t where t: "E1000ReceiveFrame (stack_bytes s) 1518 s = ((uint flen, ?g), t)"
    using r by (metis prod.collapse)
  have n: "of_int (uint flen - 14) = flen - 14" by simp
  have un: "unat (flen - 14) = unat flen - 14"
    using n0(1) by (subst unat_sub) (simp_all add: word_le_nat_alt)
  have pos: "0 < flen - 14" "\<not> flen - 14 > max_len"
    using n0 by (simp_all only: word_less_nat_alt un) simp_all
  have big: "14 < uint flen" using n0(1) unfolding uint_nat by linarith
  have g: "i < unat flen \<Longrightarrow> ?g i = f i" for i by (simp add: buf_copy_def)
  have l: "le16 ?g 12 = le16 f 12" by (rule le16_local) (use n0(1) g in simp)
  have b: "buf_list ?g 6 6 = buf_list f 6 6" by (rule buf_list_cong) (use n0(1) g in simp)
  have c: "buf_copy out 0 ?g 14 (unat flen - 14) = buf_copy out 0 f 14 (unat flen - 14)"
    by (rule ext) (use g in \<open>auto simp: buf_copy_def\<close>)
  have ui: "uint (flen - 14) = uint flen - 14"
    using un n0(1) by (simp only: uint_nat)
  show ?thesis
    using up(1) big pos
    by (simp add: EthReceive_def t n un l b c ui Let_def)
qed

text \<open>The frame length \<open>EthSend\<close> uses.\<close>

definition eth_total :: "u16 \<Rightarrow> u16" where
  "eth_total len = (if 14 + len < 60 then 60 else 14 + len)"

text \<open>Round trip over the wire: when the frame that \<open>EthSend\<close> builds arrives in the next slot of
  another card, \<open>EthReceive\<close> returns its type, the sender's address and the payload, padded
  to 46 bytes.\<close>

theorem Eth_roundtrip:
  assumes len: "len \<le> ETH_MAX_PAYLOAD" and macs: "length dst = 6" "length (nic_mac s) = 6"
    and up: "g_eth_initialized r" "nic_initialized r"
    and slot: "rd_sta (rx_desc r (unat ((rx_tail r + 1) mod E1000_NUM_RX_DESC))) AND STAT_DD \<noteq> 0"
      "rd_length (rx_desc r (unat ((rx_tail r + 1) mod E1000_NUM_RX_DESC))) = eth_total len"
      "rx_buf r (unat ((rx_tail r + 1) mod E1000_NUM_RX_DESC)) = eth_frame dst type payload len s"
  shows "\<exists>out'. fst (EthReceive out 2048 ty src r) = (max 46 (int (unat len)), out', type, nic_mac s) \<and>
    buf_list out' 0 (unat len) = buf_list payload 0 (unat len)"
proof -
  let ?f = "eth_frame dst type payload len s"
  have l: "unat len \<le> 1500" using len by (simp add: ETH_MAX_PAYLOAD_def word_le_nat_alt)
  then have u: "unat (14 + len) = 14 + unat len" by (simp add: unat_word_ariths)
  then have t: "unat (eth_total len) = max 60 (14 + unat len)"
    by (auto simp: eth_total_def word_less_nat_alt)
  have "fst (EthReceive out 2048 ty src r) =
    (int (unat (eth_total len)) - 14, buf_copy out 0 ?f 14 (unat (eth_total len) - 14), swap16 (le16 ?f 12), buf_list ?f 6 6)"
    by (rule EthReceive_frame [OF up slot]) (use l t in auto)
  moreover have "le16 ?f 12 = swap16 type"
  proof -
    have "le16 ?f 12 = le16 (put16 (\<lambda>_. 0) 12 (swap16 type)) 12"
      by (rule le16_local) (auto simp: eth_frame_def Let_def buf_copy_def put16_def)
    then show ?thesis by simp
  qed
  moreover have "buf_list ?f 6 6 = nic_mac s"
    by (rule nth_equalityI)
      (use macs in \<open>auto simp: eth_frame_def Let_def buf_copy_def put16_def put_bytes_def EthGetMac_def E1000GetMac_def\<close>)
  moreover have "buf_list (buf_copy out 0 ?f 14 (unat (eth_total len) - 14)) 0 (unat len) = buf_list payload 0 (unat len)"
    by (rule nth_equalityI) (use t in \<open>auto simp: eth_frame_def Let_def buf_copy_def\<close>)
  moreover have "int (unat (eth_total len)) - 14 = max 46 (int (unat len))"
  proof -
    have "int (max 60 (14 + k)) - 14 = max 46 (int k)" for k :: nat by auto
    then show ?thesis unfolding t .
  qed
  ultimately show ?thesis by auto
qed

text \<open>Short frames are padded with whatever the stack holds.\<close>

lemma Eth_padding_leaks:
  "14 + unat len \<le> i \<Longrightarrow> length dst = 6 \<Longrightarrow> length (nic_mac s) = 6 \<Longrightarrow>
    eth_frame dst type payload len s i = stack_bytes s i"
  by (auto simp: eth_frame_def Let_def buf_copy_def put16_def put_bytes_def EthGetMac_def E1000GetMac_def)

section \<open>The cache\<close>

definition arp_lookup :: "(nat \<Rightarrow> arp_entry) \<Rightarrow> u32 \<Rightarrow> mac option" where
  "arp_lookup c ip = map_option (\<lambda>i. ae_mac (c i)) (ArpFindEntry ip c)"

text \<open>At most one valid entry per address.\<close>

definition arp_ok :: "(nat \<Rightarrow> arp_entry) \<Rightarrow> bool" where
  "arp_ok c \<longleftrightarrow> (\<forall>i<8. \<forall>j<8. ae_valid (c i) \<longrightarrow> ae_valid (c j) \<longrightarrow> ae_ip (c i) = ae_ip (c j) \<longrightarrow> i = j)"

lemma ArpFindEntry_iff:
  assumes "arp_ok c"
  shows "ArpFindEntry ip c = Some i \<longleftrightarrow> i < 8 \<and> ae_valid (c i) \<and> ae_ip (c i) = ip"
  using assms by (auto simp: ArpFindEntry_def find_upt_Some_iff ARP_CACHE_SIZE_def arp_ok_def)
    (metis less_trans nat_neq_iff)

lemma ArpFindEntry_None: "ArpFindEntry ip c = None \<longleftrightarrow> (\<forall>i<8. \<not> (ae_valid (c i) \<and> ae_ip (c i) = ip))"
  by (auto simp: ArpFindEntry_def find_upt_None_iff ARP_CACHE_SIZE_def)

lemma fold_oldest:
  "let r = fold (\<lambda>i oldest. if t i < (t oldest :: u64) then i else oldest) is a
   in (r = a \<or> r \<in> set is) \<and> t r \<le> t a \<and> (\<forall>i\<in>set is. t r \<le> t i)"
proof (induction "is" arbitrary: a)
  case Nil
  then show ?case by simp
next
  case (Cons i "is")
  define b where "b = (if t i < t a then i else a)"
  have "t b \<le> t a" "t b \<le> t i" "b = a \<or> b = i" by (auto simp: b_def)
  then show ?case
    using Cons.IH [of b] by (auto simp: Let_def b_def [symmetric] intro: order_trans)
qed

lemma oldest_entry_min: "oldest_entry c < 8" "i < 8 \<Longrightarrow> ae_timestamp (c (oldest_entry c)) \<le> ae_timestamp (c i)"
  using fold_oldest [of "\<lambda>i. ae_timestamp (c i)" "[1..<8]" 0]
  by (auto simp: oldest_entry_def ARP_CACHE_SIZE_def Let_def) (cases i; force)+

lemma ArpAllocEntry_less: "ArpAllocEntry c < 8"
  using oldest_entry_min(1) [of c]
  by (auto simp: ArpAllocEntry_def ARP_CACHE_SIZE_def find_upt_Some_iff split: option.splits)

text \<open>Recording an address keeps one entry per address, makes the address resolve to what was
  recorded, and disturbs no other address, except that when the address is new and all eight
  entries are in use the entry with the oldest time stamp is given up.\<close>

theorem ArpUpdateCache_lookup:
  fixes ip :: u32 and m :: mac
  assumes ok: "arp_ok (g_arp_cache s)"
  defines "c \<equiv> g_arp_cache s" and "c' \<equiv> g_arp_cache (ArpUpdateCache ip m s)"
  shows "arp_ok c' \<and> arp_lookup c' ip = Some m \<and>
    (\<forall>ip'. ip' \<noteq> ip \<longrightarrow> arp_lookup c' ip' = arp_lookup c ip' \<or>
       arp_lookup c' ip' = None \<and> arp_lookup c ip = None \<and> (\<forall>i<8. ae_valid (c i)) \<and>
       (\<exists>k<8. ae_ip (c k) = ip' \<and> (\<forall>i<8. ae_timestamp (c k) \<le> ae_timestamp (c i))))"
proof -
  define e where "e = \<lparr>ae_ip = ip, ae_mac = m, ae_timestamp = tick_count s, ae_valid = True\<rparr>"
  define k where "k = (case ArpFindEntry ip c of Some i \<Rightarrow> i | None \<Rightarrow> ArpAllocEntry c)"
  have ok: "arp_ok c" using assms(1) by (simp add: c_def)
  note found = ArpFindEntry_iff [OF ok]
  have c': "c' = c(k := e)"
    by (simp add: c'_def c_def [symmetric] ArpUpdateCache_def Let_def k_def e_def)
  have k8: "k < 8" using ArpAllocEntry_less found by (auto simp: k_def split: option.splits)
  have same: "j = k" if "j < 8" "ae_valid (c j)" "ae_ip (c j) = ip" for j
    using that found [of ip j] by (simp add: k_def)
  have ok': "arp_ok c'"
    unfolding arp_ok_def
  proof (intro allI impI)
    fix i j :: nat
    assume ij: "i < 8" "j < 8" "ae_valid (c' i)" "ae_valid (c' j)" "ae_ip (c' i) = ae_ip (c' j)"
    have new: "x = k" if "x < 8" "ae_valid (c' x)" "ae_ip (c' x) = ip" for x
    proof (rule ccontr)
      assume ne: "x \<noteq> k"
      then have "c' x = c x" by (simp add: c')
      then show False using same [OF that(1)] that(2,3) ne by simp
    qed
    show "i = j"
    proof (cases "i = k \<or> j = k")
      case True
      then have "ae_ip (c' i) = ip" "ae_ip (c' j) = ip" using ij(5) by (auto simp: c' e_def)
      then show ?thesis using new [OF ij(1,3)] new [OF ij(2,4)] by blast
    next
      case False
      then have "c' i = c i" "c' j = c j" by (auto simp: c')
      then show ?thesis using ok ij unfolding arp_ok_def by metis
    qed
  qed
  note found' = ArpFindEntry_iff [OF ok']
  have ck: "c' k = e" by (simp add: c')
  then have "ArpFindEntry ip c' = Some k" using k8 by (simp add: found') (simp add: e_def)
  then have "arp_lookup c' ip = Some m" by (simp add: arp_lookup_def ck) (simp add: e_def)
  moreover have "arp_lookup c' ip' = arp_lookup c ip' \<or>
       arp_lookup c' ip' = None \<and> arp_lookup c ip = None \<and> (\<forall>i<8. ae_valid (c i)) \<and>
       (\<exists>k<8. ae_ip (c k) = ip' \<and> (\<forall>i<8. ae_timestamp (c k) \<le> ae_timestamp (c i)))"
    if ne: "ip' \<noteq> ip" for ip'
  proof (cases "ArpFindEntry ip' c")
    case None
    then have "ArpFindEntry ip' c' = None" using ne by (auto simp: ArpFindEntry_None c' e_def)
    then show ?thesis using None by (simp add: arp_lookup_def)
  next
    case (Some j)
    then have j: "j < 8" "ae_valid (c j)" "ae_ip (c j) = ip'" by (simp_all add: found)
    show ?thesis
    proof (cases "j = k")
      case False
      then have cj: "c' j = c j" by (simp add: c')
      then have "ArpFindEntry ip' c' = Some j" using j by (simp add: found')
      then show ?thesis using Some cj by (simp add: arp_lookup_def)
    next
      case True
      have none: "ArpFindEntry ip c = None"
        using True j(3) ne found [of ip k] by (auto simp: k_def split: option.splits)
      then have alloc: "ArpAllocEntry c = k" by (simp add: k_def)
      have all: "\<forall>i<8. ae_valid (c i)"
      proof (rule ccontr)
        assume "\<not> ?thesis"
        then obtain i where i: "find (\<lambda>i. \<not> ae_valid (c i)) [0..<8] = Some i"
          by (cases "find (\<lambda>i. \<not> ae_valid (c i)) [0..<8]") (auto simp: find_upt_None_iff)
        then have "k = i" using alloc by (simp add: ArpAllocEntry_def ARP_CACHE_SIZE_def)
        moreover have "\<not> ae_valid (c i)" using i by (simp add: find_upt_Some_iff)
        ultimately show False using True j(2) by simp
      qed
      then have "find (\<lambda>i. \<not> ae_valid (c i)) [0..<8] = None" by (simp add: find_upt_None_iff)
      then have "k = oldest_entry c" using alloc by (simp add: ArpAllocEntry_def ARP_CACHE_SIZE_def)
      then have "\<forall>i<8. ae_timestamp (c k) \<le> ae_timestamp (c i)" using oldest_entry_min(2) by simp
      moreover have "ArpFindEntry ip' c' = None"
        using ne ok j True by (auto simp: ArpFindEntry_None c' e_def arp_ok_def)
      ultimately show ?thesis using none all True j by (auto simp: arp_lookup_def)
    qed
  qed
  ultimately show ?thesis using ok' by blast
qed



section \<open>A small state\<close>

text \<open>A card that is up, all transmit descriptors free, slot 0 of the receive ring filled with the
  frame \<open>f\<close> of \<open>n\<close> bytes.\<close>

definition link_small :: "buf \<Rightarrow> u16 \<Rightarrow> link" where
  "link_small f n = ArpInit \<lparr>nic_initialized = True, nic_mac = [0x52, 0x54, 0, 0x12, 0x34, 0x56],
     tx_desc = (\<lambda>_. \<lparr>td_length = 0, td_cmd = 0, td_sta = 1\<rparr>), tx_buf = (\<lambda>_ _. 0), tx_tail = 31,
     rx_desc = (\<lambda>_. \<lparr>rd_length = n, rd_sta = 1\<rparr>), rx_buf = (\<lambda>_. f), rx_tail = 31,
     reg_tdt = 31, reg_rdt = 31, g_eth_initialized = True, g_arp_cache = (\<lambda>_. undefined),
     arp_our_ip = 0x0F02000A, tick_count = 5, stack_bytes = (\<lambda>_. 0xAA)\<rparr>"

lemma link_small_simps [simp]:
  "nic_initialized (link_small f n)" "g_eth_initialized (link_small f n)" "tx_tail (link_small f n) = 31"
  "rx_tail (link_small f n) = 31" "rx_buf (link_small f n) i = f" "rd_length (rx_desc (link_small f n) i) = n"
  "rd_sta (rx_desc (link_small f n) i) = 1" "td_sta (tx_desc (link_small f n) i) = 1"
  "nic_mac (link_small f n) = [0x52, 0x54, 0, 0x12, 0x34, 0x56]"
  by (simp_all add: link_small_def ArpInit_def)

theorem E1000SendFrame_ring_witness:
  "unat (tx_tail (snd (E1000SendFrame (\<lambda>_. 7) 60 (link_small (\<lambda>_. 0) 60)))) = 0"
  using E1000SendFrame_ring [of "link_small (\<lambda>_. 0) 60" 60 "\<lambda>_. 7"]
  by (simp add: case_prod_unfold Let_def STAT_DD_def)

theorem Eth_roundtrip_witness:
  "let s = link_small (\<lambda>_. 0) 60; f = eth_frame (replicate 6 0xFF) ETH_TYPE_ARP (\<lambda>i. of_nat i) 28 s; r = link_small f 60
   in \<exists>out'. fst (EthReceive (\<lambda>_. 0) 2048 0 [] r) = (46, out', ETH_TYPE_ARP, nic_mac s) \<and>
     buf_list out' 0 28 = buf_list (\<lambda>i. of_nat i) 0 28"
proof -
  have "eth_total 28 = 60" by (simp add: eth_total_def)
  moreover have "max 46 (int (unat (28 :: u16))) = 46" by simp
  ultimately show ?thesis
    using Eth_roundtrip [of 28 "replicate 6 0xFF" "link_small (\<lambda>_. 0) 60"
        "link_small (eth_frame (replicate 6 0xFF) ETH_TYPE_ARP (\<lambda>i. of_nat i) 28 (link_small (\<lambda>_. 0) 60)) 60"
        ETH_TYPE_ARP "\<lambda>i. of_nat i" "\<lambda>_. 0" 0 "[]"]
    by (simp add: Let_def STAT_DD_def ETH_MAX_PAYLOAD_def)
qed

theorem ArpUpdateCache_lookup_witness:
  "arp_lookup (g_arp_cache (ArpUpdateCache 0x0202000A [1, 2, 3, 4, 5, 6] (link_small (\<lambda>_. 0) 0))) 0x0202000A =
    Some [1, 2, 3, 4, 5, 6]"
proof -
  have "arp_ok (g_arp_cache (link_small (\<lambda>_. 0) 0))" by (simp add: arp_ok_def link_small_def ArpInit_def)
  then show ?thesis using ArpUpdateCache_lookup by blast
qed

end
