(* ===== verification/Net_Ip.thy ===== *)
theory Net_Ip
  imports Net_Link
begin

text \<open>
  The internet layer: IPv4 output and the internet checksum (\<^verbatim>\<open>Kernel/net/ipv4.c\<close>), datagrams
  and the resolver (\<^verbatim>\<open>udp.c\<close>).  Packets are byte buffers, a C string is the list of its bytes
  without the terminating zero.  The shown facts: a checksummed header verifies, what the
  resolver parses never depends on bytes beyond the reply, dotted addresses are read back, and
  an encoded name is skipped exactly.
\<close>

section \<open>The internet checksum\<close>

text \<open>\<open>while (len > 1) sum += *ptr++\<close>, and the odd byte.\<close>

function sum_words :: "buf \<Rightarrow> nat \<Rightarrow> nat \<Rightarrow> u32 \<Rightarrow> u32" where
  "sum_words p off len acc =
    (if 1 < len then sum_words p (off + 2) (len - 2) (acc + ucast (le16 p off))
     else if len = 1 then acc + ucast (p off) else acc)"
  by auto
termination by (relation "measure (\<lambda>(p, off, len, acc). len)") auto

declare sum_words.simps [simp del]

lemma fold_carry_less:
  assumes "drop_bit 16 (x :: u32) \<noteq> 0"
  shows "unat ((x AND 0xFFFF) + drop_bit 16 x) < unat x"
    and "unat ((x AND 0xFFFF) + drop_bit 16 x) = unat x mod 65536 + unat x div 65536"
proof -
  have "x AND 0xFFFF = take_bit 16 x" by (simp add: take_bit_eq_mask mask_eq_exp_minus_1)
  then have lo: "unat (x AND 0xFFFF) = unat x mod 65536"
    by (simp only: unsigned_take_bit_eq) (simp add: take_bit_eq_mod)
  have hi: "unat (drop_bit 16 x) = unat x div 65536"
    by (simp only: drop_bit_eq_div unat_div) simp
  have "unat x < 2 ^ 32" using unsigned_less [of x, where ?'a = nat] by simp
  then have "unat x div 65536 < 65536" by (simp add: less_mult_imp_div_less)
  then show eq: "unat ((x AND 0xFFFF) + drop_bit 16 x) = unat x mod 65536 + unat x div 65536"
    by (simp add: unat_word_ariths lo hi)
  have "unat x div 65536 \<noteq> 0" using assms hi by (metis unat_eq_zero)
  then show "unat ((x AND 0xFFFF) + drop_bit 16 x) < unat x"
    unfolding eq using div_mult_mod_eq [of "unat x" 65536] by linarith
qed

function fold_carry :: "u32 \<Rightarrow> u32" where
  "fold_carry acc = (if drop_bit 16 acc \<noteq> 0 then fold_carry ((acc AND 0xFFFF) + drop_bit 16 acc) else acc)"
  by auto
termination by (relation "measure unat") (auto intro: fold_carry_less(1))

declare fold_carry.simps [simp del]

definition Ipv4Checksum :: "buf \<Rightarrow> nat \<Rightarrow> u16" where
  "Ipv4Checksum data len = ucast (NOT (fold_carry (sum_words data 0 len 0)))"

section \<open>IPv4\<close>

record ip = link +
  ip_our_ip :: u32
  g_gateway :: u32
  g_netmask :: u32
  g_ip_id :: u16

definition IP_PROTO_ICMP :: u8 where "IP_PROTO_ICMP = 1"
definition IP_PROTO_TCP :: u8 where "IP_PROTO_TCP = 6"
definition IP_PROTO_UDP :: u8 where "IP_PROTO_UDP = 17"

definition Ipv4Init :: "u32 \<Rightarrow> u32 \<Rightarrow> u32 \<Rightarrow> 'a ip_scheme \<Rightarrow> 'a ip_scheme" where
  "Ipv4Init our_ip gateway netmask s =
    ArpSetOurIp our_ip (s\<lparr>ip_our_ip := our_ip, g_gateway := gateway, g_netmask := netmask\<rparr>)"

definition Ipv4SetOurIp :: "u32 \<Rightarrow> 'a ip_scheme \<Rightarrow> 'a ip_scheme" where
  "Ipv4SetOurIp ip s = ArpSetOurIp ip (s\<lparr>ip_our_ip := ip\<rparr>)"

definition Ipv4OurIp :: "'a ip_scheme \<Rightarrow> u32" where
  "Ipv4OurIp s = ip_our_ip s"

definition ipv4_header :: "buf \<Rightarrow> u16 \<Rightarrow> u16 \<Rightarrow> u8 \<Rightarrow> u32 \<Rightarrow> u32 \<Rightarrow> buf" where
  "ipv4_header packet flen ident proto src dst =
    (let p = packet(0 := 0x45, 1 := 0);
         p = put16 p 2 (swap16 flen);
         p = put16 p 4 (swap16 ident);
         p = put16 p 6 (swap16 0x4000);
         p = p(8 := 64, 9 := proto);
         p = put16 p 10 0;
         p = put32 p 12 src;
         p = put32 p 16 dst
     in put16 p 10 (Ipv4Checksum p 20))"

definition Ipv4Send :: "u32 \<Rightarrow> u8 \<Rightarrow> buf \<Rightarrow> u16 \<Rightarrow> 'a ip_scheme \<Rightarrow> ntstatus \<times> 'a ip_scheme" where
  "Ipv4Send dst_ip proto payload len s =
    (if ip_our_ip s = 0 then (STATUS_UNSUCCESSFUL, s)
     else let flen = 20 + len;
              packet = ipv4_header (stack_bytes s) flen (g_ip_id s) proto (ip_our_ip s) dst_ip;
              s = s\<lparr>g_ip_id := g_ip_id s + 1\<rparr>;
              packet = buf_copy packet 20 payload 0 (unat len);
              target = (if dst_ip AND g_netmask s \<noteq> ip_our_ip s AND g_netmask s then g_gateway s else dst_ip)
          in case ArpResolve target s of
               (None, s) \<Rightarrow> (STATUS_UNSUCCESSFUL, s)
             | (Some mac, s) \<Rightarrow> EthSend mac ETH_TYPE_IPv4 packet flen s)"

text \<open>The checks of \<open>Ipv4HandlePacket\<close>: protocol, source, payload offset and length.\<close>

definition ipv4_accept :: "u32 \<Rightarrow> buf \<Rightarrow> u16 \<Rightarrow> (u8 \<times> u32 \<times> u32 \<times> nat \<times> u16) option" where
  "ipv4_accept our_ip pkt len =
    (if len < 20 then None
     else if pkt 0 \<noteq> 0x45 then None
     else let hdr_len = (ucast (pkt 0 AND 0x0F) * 4 :: u16);
              total_len = swap16 (le16 pkt 2)
          in if total_len < hdr_len \<or> total_len > len then None
             else if le32 pkt 16 \<noteq> our_ip \<and> our_ip \<noteq> 0 then None
             else Some (pkt 9, le32 pkt 12, le32 pkt 16, unat hdr_len, total_len - hdr_len))"

text \<open>A pointer into a packet: the bytes from \<open>off\<close> on.\<close>

definition from_off :: "buf \<Rightarrow> nat \<Rightarrow> buf" where
  "from_off b off = (\<lambda>i. b (off + i))"

section \<open>UDP\<close>

record udp = ip +
  g_udp_buf :: buf
  g_udp_len :: u16
  g_udp_port :: u16
  g_udp_src_ip :: u32

definition UDP_RECV_BUF :: u16 where "UDP_RECV_BUF = 512"

text \<open>The pseudo header of the UDP and TCP checksums (12 bytes).\<close>

definition pseudo_header :: "u32 \<Rightarrow> u32 \<Rightarrow> u8 \<Rightarrow> u16 \<Rightarrow> buf" where
  "pseudo_header src dst proto len =
    (let p = (\<lambda>_. 0); p = put32 p 0 src; p = put32 p 4 dst; p = p(8 := 0, 9 := proto)
     in put16 p 10 (swap16 len))"

definition UdpChecksum :: "u32 \<Rightarrow> u32 \<Rightarrow> buf \<Rightarrow> buf \<Rightarrow> u16 \<Rightarrow> u16" where
  "UdpChecksum src_ip dst_ip hdr data data_len =
    (let ph = pseudo_header src_ip dst_ip IP_PROTO_UDP (8 + data_len);
         acc = sum_words ph 0 12 0;
         acc = sum_words hdr 0 8 acc;
         acc = sum_words data 0 (unat data_len) acc
     in ucast (NOT (fold_carry acc)))"

definition UdpSend :: "u32 \<Rightarrow> u16 \<Rightarrow> u16 \<Rightarrow> buf \<Rightarrow> u16 \<Rightarrow> 'a ip_scheme \<Rightarrow> ntstatus \<times> 'a ip_scheme" where
  "UdpSend dst_ip dst_port src_port data len s =
    (if len > 512 then (STATUS_INVALID_PARAMETER, s)
     else let pkt = stack_bytes s;
              pkt = put16 pkt 0 (swap16 src_port);
              pkt = put16 pkt 2 (swap16 dst_port);
              flen = 8 + len;
              pkt = put16 pkt 4 (swap16 flen);
              pkt = put16 pkt 6 0;
              pkt = buf_copy pkt 8 data 0 (unat len)
          in Ipv4Send dst_ip IP_PROTO_UDP pkt flen s)"

definition UdpHandlePacket :: "u32 \<Rightarrow> buf \<Rightarrow> u16 \<Rightarrow> 'a udp_scheme \<Rightarrow> 'a udp_scheme" where
  "UdpHandlePacket src_ip data len s =
    (if len < 8 then s
     else let dst_port = swap16 (le16 data 2);
              payload_len = swap16 (le16 data 4)
     in if payload_len < 8 then s
     else let payload_len = payload_len - 8;
              payload_len = (if payload_len > UDP_RECV_BUF then UDP_RECV_BUF else payload_len)
          in s\<lparr>g_udp_buf := buf_copy (g_udp_buf s) 0 data 8 (unat payload_len), g_udp_len := payload_len,
               g_udp_port := dst_port, g_udp_src_ip := src_ip\<rparr>)"

text \<open>
  \<open>UdpRecv\<close> into the buffer \<open>out\<close>: the number of bytes copied, the buffer and the source (\<open>src\<close> is
  what the caller's variable held).  \<open>irqs\<close> are the interrupts that arrive while it waits.
\<close>

definition UdpRecv :: "u16 \<Rightarrow> buf \<Rightarrow> u16 \<Rightarrow> u32 \<Rightarrow> u32 \<Rightarrow> ('a udp_scheme \<Rightarrow> 'a udp_scheme) list \<Rightarrow> 'a udp_scheme
    \<Rightarrow> ((int \<times> buf \<times> u32) \<times> ('a udp_scheme \<Rightarrow> 'a udp_scheme) list \<times> 'a udp_scheme) option" where
  "UdpRecv local_port out max_len timeout_ms src irqs s =
    (let s = s\<lparr>g_udp_len := 0, g_udp_port := 0\<rparr>;
         deadline = tick_count s + ucast (timeout_ms div 10)
     in hlt_loop (\<lambda>s.
          if tick_count s < deadline
          then if g_udp_len s > 0 \<and> g_udp_port s = local_port
               then let n = (if g_udp_len s < max_len then g_udp_len s else max_len)
                    in Some ((uint n, buf_copy out 0 (g_udp_buf s) 0 (unat n), g_udp_src_ip s), s\<lparr>g_udp_len := 0\<rparr>)
               else None
          else Some ((0, out, src), s)) irqs s)"

section \<open>The resolver\<close>

definition DNS_SERVER_IP :: u32 where "DNS_SERVER_IP = 0x0302000A"
definition DNS_PORT :: u16 where "DNS_PORT = 53"
definition DNS_SRC_PORT :: u16 where "DNS_SRC_PORT = 5353"
definition DNS_BUF_SIZE :: u16 where "DNS_BUF_SIZE = 512"
definition DNS_TIMEOUT_MS :: u32 where "DNS_TIMEOUT_MS = 3000"

abbreviation dot :: u8 where "dot \<equiv> 0x2E"

text \<open>\<open>None\<close> is the return value -1; otherwise the bytes written.\<close>

function DnsEncodeName :: "u8 list \<Rightarrow> u8 list option" where
  "DnsEncodeName name =
    (if name = [] then Some [0]
     else let label = takeWhile (\<lambda>c. c \<noteq> dot) name; rest = dropWhile (\<lambda>c. c \<noteq> dot) name
     in if length label = 0 \<or> length label > 63 then None
        else map_option (\<lambda>out. of_nat (length label) # label @ out) (DnsEncodeName (tl rest)))"
  by auto
termination
proof (relation "measure length", goal_cases)
  case (2 name label rest)
  then have "length (dropWhile (\<lambda>c. c \<noteq> dot) name) \<le> length name" by (simp add: length_dropWhile_le)
  then show ?case using 2 by (cases "dropWhile (\<lambda>c. c \<noteq> dot) name") auto
qed auto

declare DnsEncodeName.simps [simp del]

function DnsSkipName :: "buf \<Rightarrow> nat \<Rightarrow> nat \<Rightarrow> nat" where
  "DnsSkipName b offset len =
    (if offset < len then
       let c = b offset
       in if c = 0 then offset + 1
          else if c AND 0xC0 = 0xC0 then offset + 2
          else DnsSkipName b (offset + unat c + 1) len
     else offset)"
  by auto
termination by (relation "measure (\<lambda>(b, offset, len). len - offset)") auto

declare DnsSkipName.simps [simp del]

text \<open>The loop over a dotted address: address, current octet, dots, and whether it is still valid.\<close>

fun literal_loop :: "u8 list \<Rightarrow> u32 \<Rightarrow> int \<Rightarrow> nat \<Rightarrow> bool \<Rightarrow> u32 \<times> int \<times> nat \<times> bool" where
  "literal_loop [] ip octet dots valid = (ip, octet, dots, valid)"
| "literal_loop (c # p) ip octet dots valid =
    (if \<not> valid then (ip, octet, dots, valid)
     else if 0x30 \<le> c \<and> c \<le> 0x39
     then let octet = octet * 10 + (uint c - 0x30)
          in literal_loop p ip octet dots (if octet > 255 then False else valid)
     else if c = dot
     then let ip = ip OR push_bit (dots * 8) (of_int octet)
          in literal_loop p ip 0 (dots + 1) (if dots + 1 > 3 then False else valid)
     else literal_loop p ip octet dots False)"

definition dns_literal :: "u8 list \<Rightarrow> u32 option" where
  "dns_literal hostname =
    (let (ip, octet, dots, valid) = literal_loop hostname 0 0 0 True
     in if valid \<and> dots = 3 then Some (ip OR push_bit 24 (of_int octet)) else None)"

definition dns_query :: "buf \<Rightarrow> u8 list \<Rightarrow> buf" where
  "dns_query query name =
    (let q = put16 query 0 (swap16 0xAB12);
         q = put16 q 2 (swap16 0x0100);
         q = put16 q 4 (swap16 1);
         q = put16 (put16 (put16 q 6 0) 8 0) 10 0;
         q = put_bytes q 12 name
     in put_bytes q (12 + length name) [0, 1, 0, 1])"

text \<open>The loops over the question and the answer section.\<close>

fun skip_questions :: "buf \<Rightarrow> nat \<Rightarrow> nat \<Rightarrow> nat \<Rightarrow> nat" where
  "skip_questions reply 0 pos rlen = pos"
| "skip_questions reply (Suc q) pos rlen =
    (if pos < rlen then skip_questions reply q (DnsSkipName reply pos rlen + 4) rlen else pos)"

fun parse_answers :: "buf \<Rightarrow> nat \<Rightarrow> nat \<Rightarrow> nat \<Rightarrow> u32" where
  "parse_answers reply 0 pos rlen = 0"
| "parse_answers reply (Suc a) pos rlen =
    (if pos + 10 < rlen then
       let pos = DnsSkipName reply pos rlen
       in if pos + 10 > rlen then 0
          else let rtype = push_bit 8 (ucast (reply pos)) OR ucast (reply (pos + 1)) :: u16;
                   rdlen = push_bit 8 (ucast (reply (pos + 8))) OR ucast (reply (pos + 9)) :: u16;
                   pos = pos + 10
               in if rtype = 1 \<and> rdlen = 4 \<and> pos + 4 \<le> rlen
                  then ucast (reply pos) OR push_bit 8 (ucast (reply (pos + 1)))
                       OR push_bit 16 (ucast (reply (pos + 2))) OR push_bit 24 (ucast (reply (pos + 3)))
                  else parse_answers reply a (pos + unat rdlen) rlen
     else 0)"

definition dns_parse :: "buf \<Rightarrow> nat \<Rightarrow> u32" where
  "dns_parse reply rlen =
    (let ancount = swap16 (le16 reply 6)
     in if ancount = 0 then 0
        else let qdcount = swap16 (le16 reply 4);
                 pos = skip_questions reply (unat qdcount) 12 rlen
             in parse_answers reply (unat ancount) pos rlen)"

definition dns_exchange :: "buf \<Rightarrow> u16 \<Rightarrow> buf \<Rightarrow> u32 \<Rightarrow> ('a udp_scheme \<Rightarrow> 'a udp_scheme) list \<Rightarrow> 'a udp_scheme
    \<Rightarrow> ((int \<times> buf \<times> u32) \<times> ('a udp_scheme \<Rightarrow> 'a udp_scheme) list \<times> 'a udp_scheme) option" where
  "dns_exchange query off reply src irqs s =
    UdpRecv DNS_SRC_PORT reply DNS_BUF_SIZE DNS_TIMEOUT_MS src irqs
      (snd (UdpSend DNS_SERVER_IP DNS_PORT DNS_SRC_PORT query off s))"

definition DnsResolve :: "u8 list \<Rightarrow> ('a udp_scheme \<Rightarrow> 'a udp_scheme) list \<Rightarrow> 'a udp_scheme
    \<Rightarrow> (u32 \<times> ('a udp_scheme \<Rightarrow> 'a udp_scheme) list \<times> 'a udp_scheme) option" where
  "DnsResolve hostname irqs s =
    (case dns_literal hostname of
       Some ip \<Rightarrow> Some (ip, irqs, s)
     | None \<Rightarrow>
       (case DnsEncodeName hostname of
          None \<Rightarrow> Some (0, irqs, s)
        | Some name \<Rightarrow>
          let query = dns_query (stack_bytes s) name;
              off = of_nat (12 + length name + 4) :: u16
          in case dns_exchange query off (stack_bytes s) 0 irqs s of
               None \<Rightarrow> None
             | Some ((rlen, reply, src), irqs, s) \<Rightarrow>
               if rlen < 12
               then (case dns_exchange query off reply src irqs s of
                       None \<Rightarrow> None
                     | Some ((rlen, reply, src), irqs, s) \<Rightarrow>
                       if rlen < 12 then Some (0, irqs, s) else Some (dns_parse reply (nat rlen), irqs, s))
               else Some (dns_parse reply (nat rlen), irqs, s)))"

section \<open>The checksum as a sum modulo 65535\<close>

lemma fold_carry_spec:
  "unat (fold_carry x) < 65536 \<and> unat (fold_carry x) mod 65535 = unat x mod 65535 \<and>
    (fold_carry x = 0 \<longleftrightarrow> x = 0)"
proof (induction x rule: fold_carry.induct)
  case (1 x)
  show ?case
  proof (cases "drop_bit 16 x = 0")
    case True
    have "unat (drop_bit 16 x) = unat x div 65536"
      by (simp only: drop_bit_eq_div unat_div) simp
    then have "unat x < 65536" using True by (simp add: div_eq_0_iff)
    then show ?thesis by (simp add: fold_carry.simps [of x] True)
  next
    case False
    let ?y = "(x AND 0xFFFF) + drop_bit 16 x"
    have y: "unat ?y = unat x mod 65536 + unat x div 65536" by (rule fold_carry_less(2) [OF False])
    have "unat x = 65535 * (unat x div 65536) + unat ?y"
      unfolding y using div_mult_mod_eq [of "unat x" 65536] by linarith
    then have m: "unat ?y mod 65535 = unat x mod 65535" by (metis mod_mult_self3 mult.commute)
    have "unat x \<noteq> 0" using False by (metis drop_bit_of_0 unat_eq_zero)
    then have "unat ?y \<noteq> 0" unfolding y using div_mult_mod_eq [of "unat x" 65536] by (metis add_is_0 mult_0)
    then have "?y \<noteq> 0" by (metis unat_0)
    then show ?thesis
      using 1 [OF False] m False by (auto simp: fold_carry.simps [of x])
  qed
qed

text \<open>The sum without bounds: 16-bit little endian words, and the odd byte.\<close>

fun word_total :: "buf \<Rightarrow> nat \<Rightarrow> nat \<Rightarrow> nat" where
  "word_total p off 0 = 0"
| "word_total p off (Suc 0) = unat (p off)"
| "word_total p off (Suc (Suc n)) = unat (le16 p off) + word_total p (off + 2) n"

lemma u16_less: "unat (w :: u16) < 65536" and u8_less: "unat (b :: u8) < 256"
  using unsigned_less [of w, where ?'a = nat] unsigned_less [of b, where ?'a = nat] by simp_all

lemma word_total_le: "word_total p off n \<le> 32768 * (n + 1)"
proof (induction p off n rule: word_total.induct)
  case (2 p off)
  then show ?case using u8_less [of "p off"] by simp
next
  case (3 p off n)
  then show ?case using u16_less [of "le16 p off"] by simp
qed simp

lemma sum_words_total:
  "unat acc + word_total p off n < 2 ^ 32 \<Longrightarrow> unat (sum_words p off n acc) = unat acc + word_total p off n"
proof (induction p off n arbitrary: acc rule: word_total.induct)
  case (3 p off n)
  then have "unat (acc + ucast (le16 p off)) = unat acc + unat (le16 p off)"
    by (simp add: unat_word_ariths)
  then show ?case using 3 by (simp add: sum_words.simps [of p off "Suc (Suc n)"])
qed (simp_all add: sum_words.simps [of _ _ 0] sum_words.simps [of _ _ "Suc 0"] unat_word_ariths)

lemma word_total_cong: "(\<And>i. i < n \<Longrightarrow> p (off + i) = q (off + i)) \<Longrightarrow> word_total p off n = word_total q off n"
proof (induction p off n rule: word_total.induct)
  case (2 p off)
  from "2" [of 0] show ?case by simp
next
  case (3 p off n)
  have "le16 p off = le16 q off" by (rule le16_local) (use 3 in simp)
  moreover have "word_total p (off + 2) n = word_total q (off + 2) n"
    using 3 by (metis Suc_less_eq add.assoc add_2_eq_Suc)
  ultimately show ?case by simp
qed simp

text \<open>Storing a word at an even distance exchanges one summand.\<close>

lemma word_total_put16:
  "even d \<Longrightarrow> d + 2 \<le> n \<Longrightarrow>
    word_total (put16 p (off + d) v) off n + unat (le16 p (off + d)) = word_total p off n + unat v"
proof (induction p off n arbitrary: d rule: word_total.induct)
  case (3 p off n)
  show ?case
  proof (cases "d = 0")
    case True
    have "word_total (put16 p off v) (off + 2) n = word_total p (off + 2) n"
      by (rule word_total_cong) (simp add: put16_def)
    then show ?thesis using True by simp
  next
    case False
    then obtain k where "d = 2 * Suc k" using 3(2) by (metis evenE mult_0_right not0_implies_Suc)
    then have e: "d = 2 * k + 2" by simp
    have "le16 (put16 p (off + d) v) off = le16 p off"
      by (rule le16_local) (use e in \<open>simp add: put16_def\<close>)
    then show ?thesis using 3(1) [of "2 * k"] 3(3) e by (simp add: ac_simps)
  qed
qed simp_all

lemma Ipv4Checksum_eq_0_iff:
  assumes "n \<le> 65535"
  shows "Ipv4Checksum p n = 0 \<longleftrightarrow> word_total p 0 n \<noteq> 0 \<and> word_total p 0 n mod 65535 = 0"
    and "\<exists>r. unat (Ipv4Checksum p n) + r = 65535 \<and> r mod 65535 = word_total p 0 n mod 65535 \<and>
      (r = 0 \<longleftrightarrow> word_total p 0 n = 0)"
proof -
  let ?x = "sum_words p 0 n 0" and ?t = "word_total p 0 n"
  have x: "unat ?x = ?t" using sum_words_total [of 0 p 0 n] word_total_le [of p 0 n] assms by simp
  define r where "r = unat (fold_carry ?x)"
  have r: "r < 65536" "r mod 65535 = ?t mod 65535" "r = 0 \<longleftrightarrow> ?t = 0"
    using fold_carry_spec [of ?x] x by (auto simp: r_def unat_eq_zero)
  have u: "unat (ucast (fold_carry ?x) :: u16) = r"
    using r(1) by (simp add: r_def unsigned_ucast_eq take_bit_nat_eq_self)
  have "ucast (NOT (fold_carry ?x)) = (NOT (ucast (fold_carry ?x)) :: u16)"
    by (rule bit_word_eqI) (auto simp: bit_simps)
  then have c: "Ipv4Checksum p n = - 1 - (ucast (fold_carry ?x))"
    by (simp add: Ipv4Checksum_def not_eq_complement)
  have "unat (- 1 - ucast (fold_carry ?x) :: u16) = 65535 - r"
    by (subst unat_sub) (use r(1) in \<open>simp_all add: u word_le_nat_alt unsigned_minus_1_eq_mask mask_eq_exp_minus_1\<close>)
  then have n: "unat (Ipv4Checksum p n) = 65535 - r" unfolding c .
  then have "Ipv4Checksum p n = 0 \<longleftrightarrow> r = 65535" using r(1) by (auto simp: unat_eq_zero [symmetric])
  also have "\<dots> \<longleftrightarrow> r \<noteq> 0 \<and> r mod 65535 = 0" using r(1) by (cases "r = 65535") auto
  finally show "Ipv4Checksum p n = 0 \<longleftrightarrow> ?t \<noteq> 0 \<and> ?t mod 65535 = 0" using r(2,3) by simp
  show "\<exists>r. unat (Ipv4Checksum p n) + r = 65535 \<and> r mod 65535 = ?t mod 65535 \<and> (r = 0 \<longleftrightarrow> ?t = 0)"
    using n r by (intro exI [of _ r]) auto
qed

text \<open>Storing the checksum of a buffer into a zeroed checksum field.\<close>

lemma checksum_insert:
  assumes pos: "even pos" "pos + 2 \<le> n" "n \<le> 65535" and z: "le16 p pos = 0"
  shows "Ipv4Checksum (put16 p pos (Ipv4Checksum p n)) n = 0"
proof -
  obtain r where r: "unat (Ipv4Checksum p n) + r = 65535" "r mod 65535 = word_total p 0 n mod 65535"
    "r = 0 \<longleftrightarrow> word_total p 0 n = 0"
    using Ipv4Checksum_eq_0_iff(2) [OF pos(3)] by blast
  have t: "word_total (put16 p pos (Ipv4Checksum p n)) 0 n = word_total p 0 n + unat (Ipv4Checksum p n)"
    using word_total_put16 [OF pos(1,2), of p 0 "Ipv4Checksum p n"] z by simp
  have "(word_total p 0 n + unat (Ipv4Checksum p n)) mod 65535 = (r + unat (Ipv4Checksum p n)) mod 65535"
    using r(2) by (metis mod_add_left_eq)
  then have "(word_total p 0 n + unat (Ipv4Checksum p n)) mod 65535 = 0"
    using r(1) by (simp add: add.commute)
  moreover have "word_total p 0 n + unat (Ipv4Checksum p n) \<noteq> 0" using r by (cases "r = 0") auto
  ultimately show ?thesis unfolding Ipv4Checksum_eq_0_iff(1) [OF pos(3)] t by simp
qed

lemma checksum_detects:
  assumes ok: "Ipv4Checksum p n = 0" and pos: "even pos" "pos + 2 \<le> n" "n \<le> 65535"
    and w: "w \<noteq> le16 p pos" "{w, le16 p pos} \<noteq> {0, 0xFFFF}"
  shows "Ipv4Checksum (put16 p pos w) n \<noteq> 0"
proof
  assume "Ipv4Checksum (put16 p pos w) n = 0"
  then have z: "word_total (put16 p pos w) 0 n mod 65535 = 0" "word_total p 0 n mod 65535 = 0"
    using ok by (simp_all add: Ipv4Checksum_eq_0_iff(1) [OF pos(3)])
  have "word_total (put16 p pos w) 0 n + unat (le16 p pos) = word_total p 0 n + unat w"
    using word_total_put16 [OF pos(1,2), of p 0 w] by simp
  then have m: "unat (le16 p pos) mod 65535 = unat w mod 65535"
    using z by (metis add.left_neutral mod_add_left_eq)
  have "unat w = unat (le16 p pos) \<or> {unat w, unat (le16 p pos)} = {0, 65535}"
  proof -
    have less: "k mod 65535 = (if k = 65535 then 0 else k)" if "k < 65536" for k :: nat
      using that by auto
    show ?thesis
      using m unfolding less [OF u16_less] by (auto split: if_splits)
  qed
  moreover have "unat (0xFFFF :: u16) = 65535" "unat (0 :: u16) = 0" by simp_all
  ultimately show False using w by (metis (no_types, opaque_lifting) doubleton_eq_iff word_unat_eq_iff)
qed

text \<open>Every header that IPv4 output builds verifies (the checksum over all its words, the stored
  checksum included, is zero), and the check then detects any change of one 16-bit word other than
  exchanging 0 and 0xFFFF.\<close>

theorem Ipv4_header_checksum:
  fixes junk :: buf and flen ident :: u16 and proto :: u8 and src dst :: u32
  defines "h \<equiv> ipv4_header junk flen ident proto src dst"
  shows "Ipv4Checksum h 20 = 0 \<and>
    (\<forall>pos w. even pos \<longrightarrow> pos < 20 \<longrightarrow> w \<noteq> le16 h pos \<longrightarrow> {w, le16 h pos} \<noteq> {0, 0xFFFF} \<longrightarrow>
       Ipv4Checksum (put16 h pos w) 20 \<noteq> 0)"
proof -
  have ok: "Ipv4Checksum h 20 = 0"
    unfolding h_def ipv4_header_def Let_def
    by (rule checksum_insert) (simp_all add: le16_def put32_def put16_def)
  moreover have "pos + 2 \<le> 20" if "even pos" "pos < 20" for pos :: nat using that by presburger
  ultimately show ?thesis using checksum_detects [OF ok] by simp
qed

theorem Ipv4_header_checksum_witness:
  "let h = ipv4_header (\<lambda>_. 0xAA) 84 1 IP_PROTO_UDP 0x0F02000A 0x0202000A
   in Ipv4Checksum h 20 = 0 \<and> Ipv4Checksum (put16 h 8 0x1140) 20 = 0 \<and> Ipv4Checksum (put16 h 8 0x1141) 20 \<noteq> 0"
proof -
  define h where "h = ipv4_header (\<lambda>_. 0xAA) 84 1 IP_PROTO_UDP 0x0F02000A 0x0202000A"
  have h8: "h 8 = 0x40" "h 9 = 0x11"
    by (simp_all add: h_def ipv4_header_def Let_def put32_def put16_def IP_PROTO_UDP_def)
  then have l: "le16 h 8 = 0x1140" by (simp add: le16_def)
  have "put16 h 8 0x1140 = h" using h8 by (auto simp: put16_def fun_eq_iff)
  moreover have "Ipv4Checksum h 20 = 0" and
    "even (8 :: nat) \<longrightarrow> (8 :: nat) < 20 \<longrightarrow> 0x1141 \<noteq> le16 h 8 \<longrightarrow> {0x1141, le16 h 8} \<noteq> {0, 0xFFFF} \<longrightarrow>
       Ipv4Checksum (put16 h 8 0x1141) 20 \<noteq> 0"
    using Ipv4_header_checksum [of "\<lambda>_. 0xAA" 84 1 IP_PROTO_UDP "0x0F02000A" "0x0202000A", folded h_def] by blast+
  moreover have "{0x1141, le16 h 8} \<noteq> {0, 0xFFFF}" by (simp add: l doubleton_eq_iff)
  ultimately show ?thesis by (simp add: h_def [symmetric] Let_def l)
qed

section \<open>Names on the wire\<close>

text \<open>The wire form of a list of labels.\<close>

definition wire :: "u8 list list \<Rightarrow> u8 list" where
  "wire ls = concat (map (\<lambda>l. of_nat (length l) # l) ls) @ [0]"

definition label_ok :: "u8 list \<Rightarrow> bool" where
  "label_ok l \<longleftrightarrow> l \<noteq> [] \<and> length l \<le> 63 \<and> dot \<notin> set l"

fun join_dots :: "u8 list list \<Rightarrow> u8 list" where
  "join_dots [] = []"
| "join_dots [l] = l"
| "join_dots (l # ls) = l @ dot # join_dots ls"

lemma wire_simps: "wire [] = [0]" "wire (l # ls) = of_nat (length l) # l @ wire ls"
  by (simp_all add: wire_def)

lemma join_dots_Cons: "join_dots (l # ls) = l @ (if ls = [] then [] else dot # join_dots ls)"
  by (cases ls) simp_all

lemma takeWhile_label: "label_ok l \<Longrightarrow> takeWhile (\<lambda>c. c \<noteq> dot) l = l \<and> dropWhile (\<lambda>c. c \<noteq> dot) l = []"
  by (auto simp: label_ok_def takeWhile_eq_all_conv dropWhile_eq_Nil_conv)

lemma DnsEncodeName_label:
  assumes "label_ok l"
  shows "DnsEncodeName l = map_option (\<lambda>out. of_nat (length l) # l @ out) (DnsEncodeName [])"
proof -
  have "takeWhile (\<lambda>c. c \<noteq> dot) l = l" "dropWhile (\<lambda>c. c \<noteq> dot) l = []"
    using takeWhile_label [OF assms] by blast+
  then show ?thesis
    using assms unfolding DnsEncodeName.simps [of l] Let_def by (simp only: list.sel) (simp add: label_ok_def)
qed

lemma DnsEncodeName_labels:
  "DnsEncodeName name = Some enc \<Longrightarrow>
    \<exists>ls. (\<forall>l\<in>set ls. label_ok l) \<and> enc = wire ls \<and> (name = join_dots ls \<or> ls \<noteq> [] \<and> name = join_dots ls @ [dot])"
proof (induction name arbitrary: enc rule: DnsEncodeName.induct)
  case (1 name)
  show ?case
  proof (cases "name = []")
    case True
    then show ?thesis using 1(2) by (intro exI [of _ "[]"]) (simp add: DnsEncodeName.simps wire_simps)
  next
    case False
    define l where "l = takeWhile (\<lambda>c. c \<noteq> dot) name"
    define r where "r = dropWhile (\<lambda>c. c \<noteq> dot) name"
    have name: "name = l @ r" by (simp add: l_def r_def)
    have len: "\<not> (length l = 0 \<or> length l > 63)"
      using 1(2) False by (auto simp: DnsEncodeName.simps [of name] Let_def l_def)
    have "dot \<notin> set l" by (auto simp: l_def dest: set_takeWhileD)
    then have ok: "label_ok l" using len by (simp add: label_ok_def)
    obtain out where out: "DnsEncodeName (tl r) = Some out" "enc = of_nat (length l) # l @ out"
      using 1(2) False len by (auto simp: DnsEncodeName.simps [of name] Let_def l_def r_def)
    obtain ls where ls: "\<forall>l\<in>set ls. label_ok l" "out = wire ls"
      "tl r = join_dots ls \<or> ls \<noteq> [] \<and> tl r = join_dots ls @ [dot]"
      using 1(1) [OF False l_def r_def len out(1)] by blast
    have "name = join_dots (l # ls) \<or> name = join_dots (l # ls) @ [dot]"
    proof (cases r)
      case Nil
      then have "ls = []" using ls(1,3) by (cases ls) (auto simp: label_ok_def join_dots_Cons)
      then show ?thesis using name Nil by simp
    next
      case (Cons c cs)
      have "c = dot" using Cons unfolding r_def by (simp add: dropWhile_eq_Cons_conv)
      then show ?thesis using name Cons ls(3) by (auto simp: join_dots_Cons)
    qed
    then show ?thesis
      using ok ls(1,2) out(2) by (intro exI [of _ "l # ls"]) (auto simp: wire_simps)
  qed
qed

lemma DnsEncodeName_join:
  "\<forall>l\<in>set ls. label_ok l \<Longrightarrow> DnsEncodeName (join_dots ls) = Some (wire ls)"
proof (induction ls rule: join_dots.induct)
  case 1
  then show ?case by (simp add: DnsEncodeName.simps wire_simps)
next
  case (2 l)
  then show ?case
    by (simp add: DnsEncodeName_label DnsEncodeName.simps [of "[]"] wire_simps label_ok_def)
next
  case (3 l m ls)
  have "takeWhile (\<lambda>c. c \<noteq> dot) (l @ dot # x) = l" "dropWhile (\<lambda>c. c \<noteq> dot) (l @ dot # x) = dot # x" for x
    using 3(2) by (simp_all add: label_ok_def takeWhile_append dropWhile_append)
  then show ?case
    using 3 by (simp add: DnsEncodeName.simps [of "l @ dot # join_dots (m # ls)"] wire_simps label_ok_def Let_def)
qed

lemma DnsSkipName_wire:
  "\<forall>l\<in>set ls. label_ok l \<Longrightarrow> (\<And>i. i < length (wire ls) \<Longrightarrow> b (off + i) = wire ls ! i) \<Longrightarrow>
    off + length (wire ls) \<le> len \<Longrightarrow> DnsSkipName b off len = off + length (wire ls)"
proof (induction ls arbitrary: off)
  case Nil
  then show ?case using Nil(2) [of 0] by (simp add: wire_simps DnsSkipName.simps [of b off])
next
  case (Cons l ls)
  have l: "l \<noteq> []" "length l \<le> 63" using Cons(2) by (simp_all add: label_ok_def)
  have c: "b off = of_nat (length l)" using Cons(3) [of 0] by (simp add: wire_simps)
  have u: "unat (of_nat (length l) :: u8) = length l"
    using l(2) by (simp add: unat_of_nat take_bit_nat_eq_self)
  have "of_nat (length l) AND (0xC0 :: u8) = 0"
  proof -
    have "unat (take_bit 6 (of_nat (length l) :: u8)) = unat (of_nat (length l) :: u8)"
      using l(2) by (simp only: unsigned_take_bit_eq u) (simp add: take_bit_nat_eq_self)
    then have "of_nat (length l) = take_bit 6 (of_nat (length l) :: u8)" by (metis word_unat_eq_iff)
    moreover have "take_bit 6 x AND NOT (mask 6) = (0 :: u8)" for x by (rule bit_word_eqI) (auto simp: bit_simps)
    moreover have "(0xC0 :: u8) = NOT (mask 6)" by (simp add: mask_eq_exp_minus_1)
    ultimately show ?thesis by metis
  qed
  moreover have "b off \<noteq> 0" using l(1) u unfolding c by (metis length_0_conv unat_0)
  ultimately have "DnsSkipName b off len = DnsSkipName b (off + length l + 1) len"
    using Cons(4) c u by (simp add: DnsSkipName.simps [of b off] wire_simps)
  also have "\<dots> = off + length l + 1 + length (wire ls)"
  proof (rule Cons.IH)
    fix i
    assume "i < length (wire ls)"
    then show "b (off + length l + 1 + i) = wire ls ! i"
      using Cons(3) [of "length l + 1 + i"] by (simp add: wire_simps nth_append ac_simps)
  qed (use Cons(2,4) in \<open>auto simp: wire_simps\<close>)
  finally show ?case by (simp add: wire_simps)
qed

text \<open>C36: round trip of host names: every list of labels (nonempty, at most 63 bytes, without dots) is
  encoded from its dotted form into the wire form; whatever the encoder accepts is the wire form of
  the labels the name is made of (one trailing dot is tolerated); and in a reply the name is
  skipped exactly.\<close>

theorem Dns_name_roundtrip:
  "(\<forall>ls. (\<forall>l\<in>set ls. label_ok l) \<longrightarrow> DnsEncodeName (join_dots ls) = Some (wire ls)) \<and>
   (\<forall>name enc. DnsEncodeName name = Some enc \<longrightarrow>
      (\<exists>ls. (\<forall>l\<in>set ls. label_ok l) \<and> enc = wire ls \<and> (name = join_dots ls \<or> ls \<noteq> [] \<and> name = join_dots ls @ [dot])) \<and>
      (\<forall>b off len. buf_list b off (length enc) = enc \<and> off + length enc \<le> len \<longrightarrow>
         DnsSkipName b off len = off + length enc))"
proof -
  have "DnsSkipName b off len = off + length enc"
    if enc: "DnsEncodeName name = Some enc" and b: "buf_list b off (length enc) = enc" "off + length enc \<le> len"
    for name enc b off len
  proof -
    obtain ks where ks: "\<forall>l\<in>set ks. label_ok l" "enc = wire ks" using DnsEncodeName_labels [OF enc] by blast
    have "b (off + i) = wire ks ! i" if "i < length (wire ks)" for i
      using b(1) that unfolding ks(2) by (metis nth_buf_list)
    then show ?thesis using DnsSkipName_wire [OF ks(1)] b(2) ks(2) by simp
  qed
  then show ?thesis using DnsEncodeName_labels DnsEncodeName_join by blast
qed

section \<open>Replies\<close>

lemma DnsSkipName_local:
  "(\<And>i. i < len \<Longrightarrow> b i = b' i) \<Longrightarrow> DnsSkipName b off len = DnsSkipName b' off len"
proof (induction b off len rule: DnsSkipName.induct)
  case (1 b off len)
  show ?case
  proof (cases "off < len")
    case True
    then have c: "b off = b' off" using 1(2) by simp
    then show ?thesis
      using 1(1) [OF True refl] 1(2) by (simp add: DnsSkipName.simps [of _ off len] Let_def)
  qed (simp add: DnsSkipName.simps [of _ off len])
qed

lemma skip_questions_local:
  "(\<And>i. i < len \<Longrightarrow> b i = b' i) \<Longrightarrow> skip_questions b n pos len = skip_questions b' n pos len"
  using DnsSkipName_local [of len b b'] by (induction n arbitrary: pos) auto

lemma parse_answers_local:
  assumes "\<And>i. i < len \<Longrightarrow> b i = b' i"
  shows "parse_answers b n pos len = parse_answers b' n pos len"
proof (induction n arbitrary: pos)
  case (Suc n)
  have skip: "DnsSkipName b pos len = DnsSkipName b' pos len" using DnsSkipName_local [of len b b'] assms by blast
  define p where "p = DnsSkipName b' pos len"
  have at: "\<not> p + 10 > len \<Longrightarrow> k < 10 \<Longrightarrow> b (p + k) = b' (p + k)" for k using assms by simp
  have at': "p + 10 + 4 \<le> len \<Longrightarrow> k < 4 \<Longrightarrow> b (p + 10 + k) = b' (p + 10 + k)" for k using assms by simp
  show ?case
    using at [of 0, simplified] at [of 1, simplified] at [of 8, simplified] at [of 9, simplified]
      at' [of 0, simplified] at' [of 1, simplified] at' [of 2, simplified] at' [of 3, simplified]
    by (simp add: skip p_def [symmetric] Let_def Suc cong: if_cong)
qed simp

text \<open>Bounds of the reply parser: the address read from a reply depends only on the \<open>rlen\<close> bytes
  that were received, whatever the counts, names and lengths in it claim.\<close>

theorem dns_parse_bounded:
  assumes "12 \<le> rlen" and "\<And>i. i < rlen \<Longrightarrow> reply i = reply' i"
  shows "dns_parse reply rlen = dns_parse reply' rlen"
proof -
  have "le16 reply k = le16 reply' k" if "k < 11" for k
    by (rule le16_local) (use assms that in simp)
  then show ?thesis
    using skip_questions_local [of rlen reply reply'] parse_answers_local [of rlen reply reply'] assms(2)
    by (simp add: dns_parse_def Let_def)
qed

text \<open>A reply to the query for a name: one question, one address record that points back to it.\<close>

definition dns_answer :: "u8 list \<Rightarrow> u8 list \<Rightarrow> u8 list" where
  "dns_answer enc addr = [0xAB, 0x12, 0x81, 0x80, 0, 1, 0, 1, 0, 0, 0, 0] @ enc @ [0, 1, 0, 1] @
     [0xC0, 12, 0, 1, 0, 1, 0, 0, 0, 60, 0, 4] @ addr"

text \<open>Dotted addresses.\<close>

definition digits :: "nat \<Rightarrow> u8 list" where
  "digits k = (if k < 10 then [0x30 + of_nat k]
     else if k < 100 then [0x30 + of_nat (k div 10), 0x30 + of_nat (k mod 10)]
     else [0x30 + of_nat (k div 100), 0x30 + of_nat (k div 10 mod 10), 0x30 + of_nat (k mod 10)])"

definition dotted :: "u8 \<Rightarrow> u8 \<Rightarrow> u8 \<Rightarrow> u8 \<Rightarrow> u8 list" where
  "dotted a b c d = digits (unat a) @ dot # digits (unat b) @ dot # digits (unat c) @ dot # digits (unat d)"

lemma literal_digit:
  assumes "k < 10" "octet * 10 + int k \<le> 255"
  shows "literal_loop ((0x30 + of_nat k) # p) ip octet n True = literal_loop p ip (octet * 10 + int k) n True"
proof -
  have u: "unat (0x30 + of_nat k :: u8) = 48 + k"
    using assms(1) by (simp add: unat_word_ariths unat_of_nat take_bit_nat_eq_self)
  have i: "uint (0x30 + of_nat k :: u8) - 0x30 = int k" by (simp only: uint_nat u)
  have "0x30 \<le> (0x30 + of_nat k :: u8)" "(0x30 + of_nat k :: u8) \<le> 0x39"
    using assms(1) by (simp_all only: word_le_nat_alt u) simp_all
  then show ?thesis using assms(2) by (simp only: literal_loop.simps i Let_def) simp
qed

lemma literal_digits:
  assumes "k < 256"
  shows "literal_loop (digits k @ p) ip 0 n True = literal_loop p ip (int k) n True"
proof -
  have ten: "int (j div 10) * 10 + int (j mod 10) = int j" for j :: nat
    by (metis div_mult_mod_eq of_nat_add of_nat_mult of_nat_numeral)
  have q: "k div 100 = k div 10 div 10" by (simp add: div_mult2_eq [symmetric])
  have a: "int (k div 10) * 10 + int (k mod 10) = int k" "k mod 10 < 10" using ten by simp_all
  have b: "(int (k div 100) * 10 + int (k div 10 mod 10)) * 10 + int (k mod 10) = int k"
    "k div 10 mod 10 < 10" using ten [of k] ten [of "k div 10"] by (simp_all add: q)
  have c: "int (k div 100) * 10 + int (k div 10 mod 10) \<le> 255" "int (k div 100) \<le> 255" "int (k div 10) \<le> 255" "int k \<le> 255"
    using assms ten [of k] ten [of "k div 10"] unfolding q by linarith+
  consider "k < 10" | "10 \<le> k" "k < 100" | "100 \<le> k" by linarith
  then show ?thesis
  proof cases
    case 1
    then show ?thesis using literal_digit [of k 0] c by (simp only: digits_def) simp
  next
    case 2
    then have "k div 10 < 10" by linarith
    then show ?thesis
      using 2 literal_digit [of "k div 10" 0 "(0x30 + of_nat (k mod 10)) # p"]
        literal_digit [of "k mod 10" "int (k div 10)" p] a c
      by (simp only: digits_def) simp
  next
    case 3
    then have "k div 100 < 10" using assms by linarith
    then show ?thesis
      using 3 literal_digit [of "k div 100" 0 "(0x30 + of_nat (k div 10 mod 10)) # (0x30 + of_nat (k mod 10)) # p"]
        literal_digit [of "k div 10 mod 10" "int (k div 100)" "(0x30 + of_nat (k mod 10)) # p"]
        literal_digit [of "k mod 10" "int (k div 100) * 10 + int (k div 10 mod 10)" p] b c
      by (simp only: digits_def) simp
  qed
qed

lemma dns_literal_dotted:
  "dns_literal (dotted a b c d) =
    Some (ucast a OR push_bit 8 (ucast b) OR push_bit 16 (ucast c) OR push_bit 24 (ucast d))"
proof -
  have w: "of_int (int (unat x)) = (ucast x :: u32)" for x :: u8
    by (simp add: of_nat_unat)
  have "literal_loop (dot # p) ip octet n True = literal_loop p (ip OR push_bit (n * 8) (of_int octet)) 0 (n + 1) True"
    if "n < 3" for p ip octet n
    using that by simp
  then have "literal_loop (dotted a b c d) 0 0 0 True =
    (ucast a OR push_bit 8 (ucast b) OR push_bit 16 (ucast c), int (unat d), 3, True)"
    using literal_digits [OF u8_less, where p = "[]"]
    by (simp add: dotted_def literal_digits [OF u8_less] w or.assoc del: literal_loop.simps(2) of_int_of_nat_eq) 
  then show ?thesis by (simp add: dns_literal_def w or.assoc del: of_int_of_nat_eq)
qed

text \<open>A reply that repeats the question (for any name the encoder accepts) and carries one address
  record that points back to it is parsed to that address; and a dotted address is read without
  any query.\<close>

theorem Dns_answer_found:
  assumes enc: "DnsEncodeName name = Some enc"
    and reply: "buf_list reply 0 (length enc + 32) = dns_answer enc [a, b, c, d]"
  shows "dns_parse reply (length enc + 32) = ucast a OR push_bit 8 (ucast b) OR push_bit 16 (ucast c) OR push_bit 24 (ucast d) \<and>
    dns_literal (dotted a b c d) = Some (dns_parse reply (length enc + 32))"
proof -
  define n where "n = length enc"
  have at: "reply i = dns_answer enc [a, b, c, d] ! i" if "i < n + 32" for i
    using nth_buf_list [of i "n + 32" reply 0] reply that by (simp add: n_def)
  have "reply (12 + i) = enc ! i" if "i < n" for i
    using at [of "12 + i"] that by (simp add: dns_answer_def nth_append n_def)
  then have "buf_list reply 12 (length enc) = enc" by (intro nth_equalityI) (simp_all add: n_def)
  then have skip: "DnsSkipName reply 12 (n + 32) = 12 + n"
    using DnsEncodeName_labels [OF enc] DnsSkipName_wire [of _ reply 12 "n + 32"] \<open>\<And>i. i < n \<Longrightarrow> reply (12 + i) = enc ! i\<close>
    by (auto simp: n_def)
  have tail: "reply (n + k) = ([0, 1, 0, 1] @ [0xC0, 12, 0, 1, 0, 1, 0, 0, 0, 60, 0, 4] @ [a, b, c, d]) ! (k - 12)"
    if k: "12 \<le> k" "k < 32" for k
  proof -
    obtain j where j: "k = 12 + j" using le_Suc_ex [OF k(1)] ..
    define h where "h = [0xAB :: u8, 0x12, 0x81, 0x80, 0, 1, 0, 1, 0, 0, 0, 0] @ enc"
    have "length h = 12 + n" by (simp add: h_def n_def)
    then have "n + k = length h + j" using j by simp
    moreover have "dns_answer enc [a, b, c, d] = h @ [0, 1, 0, 1] @ [0xC0, 12, 0, 1, 0, 1, 0, 0, 0, 60, 0, 4] @ [a, b, c, d]"
      by (simp only: dns_answer_def h_def append_assoc)
    ultimately have "dns_answer enc [a, b, c, d] ! (n + k) = ([0, 1, 0, 1] @ [0xC0, 12, 0, 1, 0, 1, 0, 0, 0, 60, 0, 4] @ [a, b, c, d]) ! j"
      by (simp only: nth_append_length_plus)
    then show ?thesis unfolding at [OF add_strict_left_mono [OF k(2)]] using j by simp
  qed
  have cnt: "swap16 (le16 reply 6) = 1" "swap16 (le16 reply 4) = 1"
    using at [of 4] at [of 5] at [of 6] at [of 7] by (simp_all add: dns_answer_def le16_def swap16_def)
  have skip': "DnsSkipName reply (n + 16) (n + 32) = n + 18"
    using tail [of 16] by (simp add: DnsSkipName.simps [of reply "n + 16"])
  have v: "reply (n + 18) = 0" "reply (n + 19) = 1" "reply (n + 26) = 0" "reply (n + 27) = 4"
    "reply (n + 28) = a" "reply (n + 29) = b" "reply (n + 30) = c" "reply (n + 31) = d"
    using tail [of 18] tail [of 19] tail [of 26] tail [of 27] tail [of 28] tail [of 29] tail [of 30] tail [of 31] by simp_all
  have "dns_parse reply (n + 32) = parse_answers reply 1 (n + 16) (n + 32)"
    using skip by (simp add: dns_parse_def cnt add.commute)
  also have "\<dots> = ucast a OR push_bit 8 (ucast b) OR push_bit 16 (ucast c) OR push_bit 24 (ucast d)"
    unfolding One_nat_def parse_answers.simps Let_def skip' add.assoc by (simp add: v)
  finally show ?thesis by (simp add: dns_literal_dotted n_def)
qed

text \<open>The name \<open>a.bc\<close> and a reply to the query for it.\<close>

definition dns_small :: buf where
  "dns_small = put_bytes (\<lambda>_. 0) 0 (dns_answer [1, 0x61, 2, 0x62, 0x63, 0] [10, 0, 2, 15])"

lemma dns_small_name: "DnsEncodeName [0x61, dot, 0x62, 0x63] = Some [1, 0x61, 2, 0x62, 0x63, 0]"
  by (simp add: DnsEncodeName.simps)

lemma dns_small_reply: "buf_list dns_small 0 38 = dns_answer [1, 0x61, 2, 0x62, 0x63, 0] [10, 0, 2, 15]"
  unfolding dns_small_def by (rule buf_list_put_bytes) (simp add: dns_answer_def)

theorem Dns_name_roundtrip_witness:
  "DnsEncodeName (join_dots [[0x61], [0x62, 0x63]]) = Some (wire [[0x61], [0x62, 0x63]]) \<and>
   DnsSkipName dns_small 12 38 = 18"
proof -
  define enc where "enc = [1 :: u8, 0x61, 2, 0x62, 0x63, 0]"
  have "buf_list dns_small 12 (length enc) = enc"
    by (rule nth_equalityI) (auto simp: enc_def dns_small_def put_bytes_def dns_answer_def less_Suc_eq numeral_eq_Suc)
  moreover have "DnsEncodeName [0x61, dot, 0x62, 0x63] = Some enc" using dns_small_name by (simp add: enc_def)
  moreover have "12 + length enc \<le> 38" by (simp add: enc_def)
  ultimately have "DnsSkipName dns_small 12 38 = 12 + length enc" using Dns_name_roundtrip by blast
  then have "DnsSkipName dns_small 12 38 = 18" by (simp add: enc_def)
  moreover have "\<forall>l\<in>set [[0x61], [0x62, 0x63]]. label_ok l" by (simp add: label_ok_def)
  then have "DnsEncodeName (join_dots [[0x61], [0x62, 0x63]]) = Some (wire [[0x61], [0x62, 0x63]])"
    using Dns_name_roundtrip by blast
  ultimately show ?thesis by blast
qed

theorem Dns_answer_found_witness:
  "dns_literal (dotted 10 0 2 15) = Some (dns_parse dns_small 38)"
  using Dns_answer_found [OF dns_small_name, of dns_small 10 0 2 15] dns_small_reply by simp

theorem dns_parse_bounded_witness:
  "dns_parse (dns_small(38 := 0xFF)) 38 = dns_parse dns_small 38"
  by (rule dns_parse_bounded) simp_all

end
