(* ===== verification/Net_Tcp.thy ===== *)
theory Net_Tcp
  imports Net_Ip
begin

text \<open>
  TCP (\<^verbatim>\<open>Kernel/net/tcp.c\<close>): the socket table, segment output, the calls of the socket interface
  and the processing of incoming segments.  A call that waits takes the interrupts that arrive
  while it waits (\<open>hlt_loop\<close>), each an arbitrary change of the state; the theorems let them be
  incoming segments, the retransmission timer and ticks.  Shown: the invariant of the socket table
  over all reachable states with the states a connection can be in, the state transitions an incoming
  segment can cause, that the reader gets the bytes of the peer's stream in order, and that the
  waiting calls return.
\<close>

section \<open>Sockets\<close>

datatype tcp_state = TCP_CLOSED | TCP_LISTEN | TCP_SYN_SENT | TCP_SYN_RECEIVED | TCP_ESTABLISHED
  | TCP_FIN_WAIT_1 | TCP_FIN_WAIT_2 | TCP_CLOSE_WAIT | TCP_LAST_ACK | TCP_CLOSING | TCP_TIME_WAIT

record tcp_socket =
  local_port :: u16
  remote_ip :: u32
  remote_port :: u16
  sk_state :: tcp_state
  snd_una :: u32
  snd_nxt :: u32
  rcv_nxt :: u32
  iss :: u32
  irs :: u32
  send_buf :: buf
  send_len :: u32
  send_acked :: u32
  recv_buf :: buf
  recv_len :: u32
  recv_read :: u32
  remote_window :: u16
  retrans_tick :: u64
  retrans_count :: u8
  used :: bool
  pending_close :: bool

definition zero_socket :: tcp_socket where
  "zero_socket = \<lparr>local_port = 0, remote_ip = 0, remote_port = 0, sk_state = TCP_CLOSED, snd_una = 0, snd_nxt = 0,
     rcv_nxt = 0, iss = 0, irs = 0, send_buf = (\<lambda>_. 0), send_len = 0, send_acked = 0, recv_buf = (\<lambda>_. 0),
     recv_len = 0, recv_read = 0, remote_window = 0, retrans_tick = 0, retrans_count = 0, used = False,
     pending_close = False\<rparr>"

record net = udp +
  g_tcp_sockets :: "nat \<Rightarrow> tcp_socket"
  g_next_local_port :: u16

definition TCP_SOCKET_COUNT :: nat where "TCP_SOCKET_COUNT = 8"
definition TCP_BUF_SIZE :: u32 where "TCP_BUF_SIZE = 4096"
definition TCP_MSS :: u16 where "TCP_MSS = 1460"
definition TCP_LOCAL_PORT_START :: u16 where "TCP_LOCAL_PORT_START = 49152"
definition TCP_FIN :: u8 where "TCP_FIN = 0x01"
definition TCP_SYN :: u8 where "TCP_SYN = 0x02"
definition TCP_RST :: u8 where "TCP_RST = 0x04"
definition TCP_PSH :: u8 where "TCP_PSH = 0x08"
definition TCP_ACK :: u8 where "TCP_ACK = 0x10"

text \<open>\<open>g_tcp_sockets[i]\<close> read, and updated by \<open>f\<close>.\<close>

abbreviation sock :: "nat \<Rightarrow> 'a net_scheme \<Rightarrow> tcp_socket" where
  "sock i s \<equiv> g_tcp_sockets s i"

definition upd_sock :: "nat \<Rightarrow> (tcp_socket \<Rightarrow> tcp_socket) \<Rightarrow> 'a net_scheme \<Rightarrow> 'a net_scheme" where
  "upd_sock i f s = s\<lparr>g_tcp_sockets := (g_tcp_sockets s)(i := f (g_tcp_sockets s i))\<rparr>"

definition NetSwap32 :: "u32 \<Rightarrow> u32" where
  "NetSwap32 v = (drop_bit 24 v AND 0xFF) OR (drop_bit 8 v AND 0xFF00) OR (push_bit 8 v AND 0xFF0000) OR
    (push_bit 24 v AND 0xFF000000)"

definition TcpFindSocket :: "u16 \<Rightarrow> u32 \<Rightarrow> u16 \<Rightarrow> (nat \<Rightarrow> tcp_socket) \<Rightarrow> nat option" where
  "TcpFindSocket lport rip rport socks =
    find (\<lambda>i. let s = socks i in used s \<and> local_port s = lport \<and>
      (if sk_state s = TCP_LISTEN then rport = 0 else remote_ip s = rip \<and> remote_port s = rport))
      [0..<TCP_SOCKET_COUNT]"

definition TcpAllocSocket :: "'a net_scheme \<Rightarrow> nat option \<times> 'a net_scheme" where
  "TcpAllocSocket s =
    (case find (\<lambda>i. \<not> used (sock i s)) [0..<TCP_SOCKET_COUNT] of
       None \<Rightarrow> (None, s)
     | Some i \<Rightarrow> (Some i, upd_sock i (\<lambda>_. zero_socket\<lparr>used := True\<rparr>) s))"

definition TcpFreeSocket :: "nat \<Rightarrow> 'a net_scheme \<Rightarrow> 'a net_scheme" where
  "TcpFreeSocket i s = upd_sock i (\<lambda>_. zero_socket) s"

definition TcpInit :: "'a net_scheme \<Rightarrow> 'a net_scheme" where
  "TcpInit s = s\<lparr>g_tcp_sockets := (\<lambda>_. zero_socket)\<rparr>"

definition TcpSocketCreate :: "'a net_scheme \<Rightarrow> int \<times> 'a net_scheme" where
  "TcpSocketCreate s =
    (case TcpAllocSocket s of
       (None, s) \<Rightarrow> (-1, s)
     | (Some i, s) \<Rightarrow> (int i, upd_sock i (\<lambda>k. k\<lparr>sk_state := TCP_CLOSED\<rparr>) s))"

section \<open>Output\<close>

definition TcpChecksum :: "buf \<Rightarrow> buf \<Rightarrow> u16 \<Rightarrow> u32 \<Rightarrow> u32 \<Rightarrow> u32" where
  "TcpChecksum hdr data len src_ip dst_ip =
    (let acc = sum_words (pseudo_header src_ip dst_ip IP_PROTO_TCP (20 + len)) 0 12 0;
         acc = sum_words hdr 0 20 acc;
         acc = sum_words data 0 (unat len) acc
     in ucast (ucast (NOT (fold_carry acc)) :: u16))"

definition tcp_header_fields :: "tcp_socket \<Rightarrow> buf \<Rightarrow> u8 \<Rightarrow> u32 \<Rightarrow> u32 \<Rightarrow> buf" where
  "tcp_header_fields k hdr flags seq ack =
    (let h = put16 hdr 0 (swap16 (local_port k));
         h = put16 h 2 (swap16 (remote_port k));
         h = put32 h 4 (NetSwap32 seq);
         h = put32 h 8 (NetSwap32 ack);
         h = h(12 := 0x50, 13 := flags);
         h = put16 h 14 (swap16 (ucast (TCP_BUF_SIZE - recv_len k)));
         h = put16 h 16 0
     in put16 h 18 0)"

definition TcpBuildHeader :: "tcp_socket \<Rightarrow> buf \<Rightarrow> u8 \<Rightarrow> u32 \<Rightarrow> u32 \<Rightarrow> buf \<Rightarrow> u16 \<Rightarrow> u32 \<Rightarrow> buf" where
  "TcpBuildHeader k hdr flags seq ack payload payload_len our_ip =
    (let h = tcp_header_fields k hdr flags seq ack
     in put16 h 16 (ucast (TcpChecksum h payload payload_len our_ip (remote_ip k))))"

definition tcp_packet :: "tcp_socket \<Rightarrow> u8 \<Rightarrow> buf \<Rightarrow> u16 \<Rightarrow> u32 \<Rightarrow> u32 \<Rightarrow> 'a net_scheme \<Rightarrow> buf" where
  "tcp_packet k flags payload payload_len seq ack s =
    (let packet = TcpBuildHeader k (stack_bytes s) flags seq ack payload payload_len (Ipv4OurIp s)
     in if payload_len > 0 then buf_copy packet 20 payload 0 (unat payload_len) else packet)"

definition TcpSendSegment :: "nat \<Rightarrow> u8 \<Rightarrow> buf \<Rightarrow> u16 \<Rightarrow> u32 \<Rightarrow> u32 \<Rightarrow> 'a net_scheme \<Rightarrow> ntstatus \<times> 'a net_scheme" where
  "TcpSendSegment i flags payload payload_len seq ack s =
    Ipv4Send (remote_ip (sock i s)) IP_PROTO_TCP
      (tcp_packet (sock i s) flags payload payload_len seq ack s) (20 + payload_len) s"

abbreviation NULL_data :: buf where "NULL_data \<equiv> \<lambda>_. 0"

text \<open>A segment without data, and its status ignored.\<close>

definition send_flags :: "nat \<Rightarrow> u8 \<Rightarrow> u32 \<Rightarrow> u32 \<Rightarrow> 'a net_scheme \<Rightarrow> 'a net_scheme" where
  "send_flags i flags seq ack s = snd (TcpSendSegment i flags NULL_data 0 seq ack s)"

section \<open>The socket interface\<close>

definition in_range :: "int \<Rightarrow> bool" where
  "in_range n \<longleftrightarrow> 0 \<le> n \<and> n < int TCP_SOCKET_COUNT"

definition connect_init :: "nat \<Rightarrow> u32 \<Rightarrow> u16 \<Rightarrow> 'a net_scheme \<Rightarrow> 'a net_scheme" where
  "connect_init i dst_ip dst_port s =
    (let lp = g_next_local_port s;
         nxt = (if lp + 1 < TCP_LOCAL_PORT_START then TCP_LOCAL_PORT_START else lp + 1);
         iss0 = ucast (tick_count s * 0x12345678)
     in upd_sock i (\<lambda>k. k\<lparr>remote_ip := dst_ip, remote_port := dst_port, local_port := lp, iss := iss0,
          snd_una := iss0, snd_nxt := iss0 + 1, rcv_nxt := 0, sk_state := TCP_SYN_SENT,
          remote_window := ucast TCP_BUF_SIZE, retrans_tick := tick_count s + 20, retrans_count := 0\<rparr>)
        (s\<lparr>g_next_local_port := nxt\<rparr>))"

definition connect_wait :: "nat \<Rightarrow> u64 \<Rightarrow> 'a net_scheme \<Rightarrow> (ntstatus \<times> 'a net_scheme) option" where
  "connect_wait i timeout s =
    (if tick_count s < timeout
     then if sk_state (sock i s) = TCP_ESTABLISHED then Some (STATUS_SUCCESS, s) else None
     else Some (STATUS_UNSUCCESSFUL, upd_sock i (\<lambda>k. k\<lparr>sk_state := TCP_CLOSED\<rparr>) s))"

definition TcpConnect :: "int \<Rightarrow> u32 \<Rightarrow> u16 \<Rightarrow> ('a net_scheme \<Rightarrow> 'a net_scheme) list \<Rightarrow> 'a net_scheme
    \<Rightarrow> (ntstatus \<times> ('a net_scheme \<Rightarrow> 'a net_scheme) list \<times> 'a net_scheme) option" where
  "TcpConnect n dst_ip dst_port irqs s =
    (if \<not> in_range n then Some (STATUS_INVALID_PARAMETER, irqs, s)
     else let i = nat n in
       if \<not> used (sock i s) \<or> sk_state (sock i s) \<noteq> TCP_CLOSED then Some (STATUS_INVALID_PARAMETER, irqs, s)
       else let s = connect_init i dst_ip dst_port s;
                s = send_flags i TCP_SYN (iss (sock i s)) 0 s
            in hlt_loop (connect_wait i (tick_count s + 500)) irqs s)"

text \<open>The two waits of \<open>TcpSend\<close>: for window space (\<open>True\<close>: timed out), and for the
  acknowledgement.\<close>

definition window_wait :: "nat \<Rightarrow> u64 \<Rightarrow> 'a net_scheme \<Rightarrow> (bool \<times> 'a net_scheme) option" where
  "window_wait i timeout s =
    (if snd_nxt (sock i s) - snd_una (sock i s) \<ge> ucast (remote_window (sock i s))
     then if tick_count s \<ge> timeout then Some (True, s) else None
     else Some (False, s))"

definition ack_wait :: "nat \<Rightarrow> u64 \<Rightarrow> 'a net_scheme \<Rightarrow> (unit \<times> 'a net_scheme) option" where
  "ack_wait i timeout s =
    (if snd_una (sock i s) < snd_nxt (sock i s) \<and> tick_count s < timeout then None else Some ((), s))"

lemma hlt_loop_length: "hlt_loop body irqs s = Some (r, rest, t) \<Longrightarrow> length rest \<le> length irqs"
proof (induction irqs arbitrary: s)
  case Nil
  then show ?case by (auto simp: hlt_loop.simps [of _ "[]"] split: option.splits)
next
  case (Cons irq irqs)
  then show ?case
    by (fastforce simp: hlt_loop.simps [of _ "irq # irqs"] split: option.splits)
qed

definition chunk_size :: "nat \<Rightarrow> nat \<Rightarrow> u16 \<Rightarrow> u16" where
  "chunk_size len sent window =
    (let chunk = of_nat (len - sent);
         chunk = (if chunk > TCP_MSS then TCP_MSS else chunk)
     in if chunk > window then window else chunk)"

lemma chunk_size_le: "unat (chunk_size len sent window) \<le> len - sent"
proof -
  have "unat (of_nat (len - sent) :: u16) \<le> len - sent" by (simp add: unat_of_nat take_bit_nat_less_eq_self)
  then show ?thesis by (auto simp: chunk_size_def Let_def word_less_nat_alt)
qed

text \<open>One round of \<open>while (sent < len)\<close>: it leaves the function (\<open>Inl\<close>), or goes on with a new count
  (\<open>Inr\<close>), having sent a chunk or consumed an interrupt.\<close>

definition send_round :: "nat \<Rightarrow> buf \<Rightarrow> nat \<Rightarrow> nat \<Rightarrow> ('a net_scheme \<Rightarrow> 'a net_scheme) list \<Rightarrow> 'a net_scheme
    \<Rightarrow> ((nat + nat) \<times> ('a net_scheme \<Rightarrow> 'a net_scheme) list \<times> 'a net_scheme) option" where
  "send_round i data len sent irqs s =
    (case hlt_loop (window_wait i (tick_count s + 500)) irqs s of
       None \<Rightarrow> None
     | Some (timed_out, irqs, s) \<Rightarrow>
       if timed_out then Some (Inl sent, irqs, s)
       else let chunk = chunk_size len sent (remote_window (sock i s)) in
         if chunk = 0 then (case irqs of [] \<Rightarrow> None | irq # irqs \<Rightarrow> Some (Inr sent, irqs, irq s))
         else case TcpSendSegment i (TCP_PSH OR TCP_ACK) (from_off data sent) chunk
                (snd_nxt (sock i s)) (rcv_nxt (sock i s)) s of
           (st, s) \<Rightarrow>
             if NT_ERROR st then Some (Inl sent, irqs, s)
             else let s = upd_sock i (\<lambda>k. k\<lparr>snd_nxt := snd_nxt k + ucast chunk, retrans_tick := tick_count s + 20,
                            retrans_count := 0\<rparr>) s
                  in if remote_window (sock i s) \<le> chunk
                     then map_option (\<lambda>(_, irqs, s). (Inr (sent + unat chunk), irqs, s))
                            (hlt_loop (ack_wait i (tick_count s + 500)) irqs s)
                     else Some (Inr (sent + unat chunk), irqs, s))"

lemma send_round_measure:
  assumes "send_round i data len sent irqs s = Some (Inr sent', irqs', s')" "sent < len"
  shows "(len - sent') + length irqs' < (len - sent) + length irqs" "sent' \<le> len"
proof -
  obtain irqs1 s1 where 1: "hlt_loop (window_wait i (tick_count s + 500)) irqs s = Some (False, irqs1, s1)"
    using assms(1) by (auto simp: send_round_def split: option.splits if_splits)
  define c where "c = chunk_size len sent (remote_window (sock i s1))"
  have l1: "length irqs1 \<le> length irqs" using hlt_loop_length [OF 1] .
  have "(len - sent') + length irqs' < (len - sent) + length irqs \<and> sent' \<le> len"
  proof (cases "c = 0")
    case True
    then show ?thesis
      using assms 1 l1 by (auto simp: send_round_def Let_def c_def [symmetric] split: list.splits)
  next
    case False
    then have c: "0 < unat c" "unat c \<le> len - sent"
      using chunk_size_le [of len sent] by (auto simp: c_def unat_gt_0)
    have "sent' = sent + unat c \<and> length irqs' \<le> length irqs1"
      using assms(1) 1 False
      by (auto simp: send_round_def Let_def c_def [symmetric] split: if_splits prod.splits dest: hlt_loop_length)
    then show ?thesis using c l1 assms(2) by linarith
  qed
  then show "(len - sent') + length irqs' < (len - sent) + length irqs" "sent' \<le> len" by blast+
qed

function send_loop :: "nat \<Rightarrow> buf \<Rightarrow> nat \<Rightarrow> nat \<Rightarrow> ('a net_scheme \<Rightarrow> 'a net_scheme) list \<Rightarrow> 'a net_scheme
    \<Rightarrow> (int \<times> ('a net_scheme \<Rightarrow> 'a net_scheme) list \<times> 'a net_scheme) option" where
  "send_loop i data len sent irqs s =
    (if sent < len then
       case send_round i data len sent irqs s of
         None \<Rightarrow> None
       | Some (Inl n, irqs', s') \<Rightarrow> Some (int n, irqs', s')
       | Some (Inr sent', irqs', s') \<Rightarrow> send_loop i data len sent' irqs' s'
     else Some (int sent, irqs, s))"
  by pat_completeness auto
termination
  by (relation "measure (\<lambda>(i, data, len, sent, irqs, s). (len - sent) + length irqs)")
    (auto dest: send_round_measure(1))

declare send_loop.simps [simp del]

text \<open>\<open>None\<close> is a null data pointer.\<close>

definition TcpSend :: "int \<Rightarrow> buf option \<Rightarrow> u16 \<Rightarrow> ('a net_scheme \<Rightarrow> 'a net_scheme) list \<Rightarrow> 'a net_scheme
    \<Rightarrow> (int \<times> ('a net_scheme \<Rightarrow> 'a net_scheme) list \<times> 'a net_scheme) option" where
  "TcpSend n data len irqs s =
    (if \<not> in_range n then Some (-1, irqs, s)
     else if \<not> used (sock (nat n) s) \<or> sk_state (sock (nat n) s) \<noteq> TCP_ESTABLISHED then Some (-1, irqs, s)
     else case data of
       None \<Rightarrow> Some (-1, irqs, s)
     | Some d \<Rightarrow> if len = 0 then Some (-1, irqs, s) else send_loop (nat n) d (unat len) 0 irqs s)"

text \<open>Taking bytes from the receive buffer: the count, the caller's buffer, the socket.\<close>

definition recv_take :: "u16 \<Rightarrow> buf \<Rightarrow> tcp_socket \<Rightarrow> (int \<times> buf) \<times> tcp_socket" where
  "recv_take max_len out k =
    (let n = (if ucast max_len > recv_len k then ucast (recv_len k) else max_len);
         out = buf_copy out 0 (recv_buf k) 0 (unat n);
         rb = (if ucast n < recv_len k
               then buf_copy (recv_buf k) 0 (recv_buf k) (unat n) (unat (recv_len k - ucast n)) else recv_buf k)
     in ((uint n, out), k\<lparr>recv_buf := rb, recv_len := recv_len k - ucast n\<rparr>))"

definition do_recv :: "nat \<Rightarrow> u16 \<Rightarrow> buf \<Rightarrow> 'a net_scheme \<Rightarrow> (int \<times> buf) \<times> 'a net_scheme" where
  "do_recv i max_len out s =
    (let (r, k) = recv_take max_len out (sock i s) in (r, upd_sock i (\<lambda>_. k) s))"

definition recv_wait :: "nat \<Rightarrow> u16 \<Rightarrow> buf \<Rightarrow> u64 \<Rightarrow> 'a net_scheme \<Rightarrow> ((int \<times> buf) \<times> 'a net_scheme) option" where
  "recv_wait i max_len out deadline s =
    (if recv_len (sock i s) > 0 then Some (do_recv i max_len out s)
     else if sk_state (sock i s) \<in> {TCP_CLOSE_WAIT, TCP_CLOSED, TCP_FIN_WAIT_1, TCP_FIN_WAIT_2}
     then Some ((0, out), s)
     else if tick_count s \<ge> deadline then Some ((0, out), s) else None)"

definition TcpRecv :: "int \<Rightarrow> buf \<Rightarrow> u16 \<Rightarrow> u32 \<Rightarrow> ('a net_scheme \<Rightarrow> 'a net_scheme) list \<Rightarrow> 'a net_scheme
    \<Rightarrow> ((int \<times> buf) \<times> ('a net_scheme \<Rightarrow> 'a net_scheme) list \<times> 'a net_scheme) option" where
  "TcpRecv n out max_len timeout_ms irqs s =
    (if \<not> in_range n then Some ((-1, out), irqs, s)
     else let i = nat n in
       if \<not> used (sock i s) then Some ((-1, out), irqs, s)
       else if recv_len (sock i s) > 0 then (case do_recv i max_len out s of (r, s) \<Rightarrow> Some (r, irqs, s))
       else if timeout_ms = 0 then Some ((0, out), irqs, s)
       else hlt_loop (recv_wait i max_len out (tick_count s + ucast (timeout_ms div 10))) irqs s)"

definition close_wait :: "nat \<Rightarrow> u64 \<Rightarrow> 'a net_scheme \<Rightarrow> (unit \<times> 'a net_scheme) option" where
  "close_wait i timeout s =
    (if tick_count s < timeout \<and> sk_state (sock i s) \<noteq> TCP_CLOSED then None else Some ((), s))"

definition TcpClose :: "int \<Rightarrow> ('a net_scheme \<Rightarrow> 'a net_scheme) list \<Rightarrow> 'a net_scheme
    \<Rightarrow> (ntstatus \<times> ('a net_scheme \<Rightarrow> 'a net_scheme) list \<times> 'a net_scheme) option" where
  "TcpClose n irqs s =
    (if \<not> in_range n then Some (STATUS_INVALID_PARAMETER, irqs, s)
     else let i = nat n in
       if \<not> used (sock i s) then Some (STATUS_INVALID_PARAMETER, irqs, s)
       else if sk_state (sock i s) = TCP_ESTABLISHED
       then let s = upd_sock i (\<lambda>k. k\<lparr>sk_state := TCP_FIN_WAIT_1, pending_close := True\<rparr>) s;
                s = send_flags i (TCP_FIN OR TCP_ACK) (snd_nxt (sock i s)) (rcv_nxt (sock i s)) s;
                s = upd_sock i (\<lambda>k. k\<lparr>snd_nxt := snd_nxt k + 1\<rparr>) s
            in (case hlt_loop (close_wait i (tick_count s + 500)) irqs s of
                  None \<Rightarrow> None
                | Some (_, irqs, s) \<Rightarrow> Some (STATUS_SUCCESS, irqs, TcpFreeSocket i s))
       else Some (STATUS_SUCCESS, irqs, TcpFreeSocket i s))"

section \<open>Incoming segments\<close>

text \<open>Data in order is appended to the receive buffer as far as there is space.\<close>

definition accept_data :: "u32 \<Rightarrow> buf \<Rightarrow> u16 \<Rightarrow> tcp_socket \<Rightarrow> tcp_socket" where
  "accept_data seq payload payload_len k =
    (if payload_len > 0 \<and> seq = rcv_nxt k
     then let space = TCP_BUF_SIZE - recv_len k;
              n = (if ucast payload_len > space then ucast space else payload_len)
          in if n > 0
             then k\<lparr>recv_buf := buf_copy (recv_buf k) (unat (recv_len k)) payload 0 (unat n),
                    recv_len := recv_len k + ucast n, rcv_nxt := rcv_nxt k + ucast n\<rparr>
             else k
     else k)"

definition process_ack :: "u8 \<Rightarrow> u32 \<Rightarrow> tcp_socket \<Rightarrow> tcp_socket" where
  "process_ack flags ack k =
    (if flags AND TCP_ACK \<noteq> 0 \<and> ack > snd_una k \<and> ack \<le> snd_nxt k then k\<lparr>snd_una := ack\<rparr> else k)"

definition fin_state :: "u32 \<Rightarrow> tcp_socket \<Rightarrow> tcp_socket" where
  "fin_state ack k =
    (if sk_state k = TCP_ESTABLISHED then k\<lparr>sk_state := TCP_CLOSE_WAIT\<rparr>
     else if sk_state k = TCP_FIN_WAIT_1
     then k\<lparr>sk_state := (if ack = snd_nxt k then TCP_TIME_WAIT else TCP_CLOSING)\<rparr>
     else if sk_state k = TCP_FIN_WAIT_2 then k\<lparr>sk_state := TCP_TIME_WAIT\<rparr>
     else k)"

definition handle_fin :: "nat \<Rightarrow> u8 \<Rightarrow> u32 \<Rightarrow> 'a net_scheme \<Rightarrow> 'a net_scheme" where
  "handle_fin i flags ack s =
    (if flags AND TCP_FIN \<noteq> 0
     then let s = upd_sock i (\<lambda>k. k\<lparr>rcv_nxt := rcv_nxt k + 1\<rparr>) s;
              s = send_flags i TCP_ACK (snd_nxt (sock i s)) (rcv_nxt (sock i s)) s
          in upd_sock i (fin_state ack) s
     else s)"

definition handle_pending :: "nat \<Rightarrow> 'a net_scheme \<Rightarrow> 'a net_scheme" where
  "handle_pending i s =
    (if sk_state (sock i s) = TCP_CLOSE_WAIT \<and> pending_close (sock i s)
     then let s = upd_sock i (\<lambda>k. k\<lparr>sk_state := TCP_LAST_ACK\<rparr>) s;
              s = send_flags i (TCP_FIN OR TCP_ACK) (snd_nxt (sock i s)) (rcv_nxt (sock i s)) s
          in upd_sock i (\<lambda>k. k\<lparr>snd_nxt := snd_nxt k + 1\<rparr>) s
     else s)"

definition last_ack_state :: "u8 \<Rightarrow> u32 \<Rightarrow> tcp_socket \<Rightarrow> tcp_socket" where
  "last_ack_state flags ack k =
    (if sk_state k = TCP_LAST_ACK \<and> flags AND TCP_ACK \<noteq> 0 \<and> ack \<ge> snd_nxt k then k\<lparr>sk_state := TCP_CLOSED\<rparr> else k)"

definition closing_state :: "u8 \<Rightarrow> u32 \<Rightarrow> tcp_socket \<Rightarrow> tcp_socket" where
  "closing_state flags ack k =
    (if sk_state k = TCP_CLOSING \<and> flags AND TCP_ACK \<noteq> 0 \<and> ack \<ge> snd_nxt k then k\<lparr>sk_state := TCP_TIME_WAIT\<rparr> else k)"

definition fin_wait_state :: "u8 \<Rightarrow> u32 \<Rightarrow> tcp_socket \<Rightarrow> tcp_socket" where
  "fin_wait_state flags ack k =
    (if sk_state k = TCP_FIN_WAIT_1 \<and> flags AND TCP_ACK \<noteq> 0 \<and> ack \<ge> snd_nxt k then k\<lparr>sk_state := TCP_FIN_WAIT_2\<rparr> else k)"

definition synsent_segment :: "nat \<Rightarrow> u32 \<Rightarrow> u32 \<Rightarrow> u8 \<Rightarrow> 'a net_scheme \<Rightarrow> 'a net_scheme" where
  "synsent_segment i seq ack flags s =
    (if flags AND (TCP_SYN OR TCP_ACK) = TCP_SYN OR TCP_ACK \<and> ack = snd_nxt (sock i s)
     then let s = upd_sock i (\<lambda>k. k\<lparr>rcv_nxt := seq + 1, irs := seq, snd_una := ack\<rparr>) s;
              s = send_flags i TCP_ACK (snd_nxt (sock i s)) (rcv_nxt (sock i s)) s
          in upd_sock i (\<lambda>k. k\<lparr>sk_state := TCP_ESTABLISHED\<rparr>) s
     else s)"

definition established_segment :: "nat \<Rightarrow> u32 \<Rightarrow> u32 \<Rightarrow> u8 \<Rightarrow> buf \<Rightarrow> u16 \<Rightarrow> 'a net_scheme \<Rightarrow> 'a net_scheme" where
  "established_segment i seq ack flags payload payload_len s =
    (let s = upd_sock i (accept_data seq payload payload_len) s;
         s = upd_sock i (process_ack flags ack) s;
         s = send_flags i TCP_ACK (snd_nxt (sock i s)) (rcv_nxt (sock i s)) s;
         s = handle_fin i flags ack s;
         s = handle_pending i s;
         s = upd_sock i (last_ack_state flags ack) s
     in upd_sock i (closing_state flags ack) s)"

definition tcp_segment :: "nat \<Rightarrow> u32 \<Rightarrow> u32 \<Rightarrow> u8 \<Rightarrow> u16 \<Rightarrow> buf \<Rightarrow> u16 \<Rightarrow> 'a net_scheme \<Rightarrow> 'a net_scheme" where
  "tcp_segment i seq ack flags window payload payload_len s =
    (let s = upd_sock i (\<lambda>k. k\<lparr>remote_window := window\<rparr>) s in
     if sk_state (sock i s) = TCP_SYN_SENT then synsent_segment i seq ack flags s
     else let s = (if sk_state (sock i s) \<in> {TCP_ESTABLISHED, TCP_FIN_WAIT_1, TCP_FIN_WAIT_2, TCP_CLOSE_WAIT}
                   then established_segment i seq ack flags payload payload_len s else s)
          in upd_sock i (fin_wait_state flags ack) s)"

definition TcpHandlePacket :: "u32 \<Rightarrow> u32 \<Rightarrow> buf \<Rightarrow> u16 \<Rightarrow> 'a net_scheme \<Rightarrow> 'a net_scheme" where
  "TcpHandlePacket src_ip dst_ip tcp_data len s =
    (if len < 20 then s
     else let src_port = swap16 (le16 tcp_data 0);
              dst_port = swap16 (le16 tcp_data 2);
              seq = NetSwap32 (le32 tcp_data 4);
              ack = NetSwap32 (le32 tcp_data 8);
              flags = tcp_data 13;
              data_offset = drop_bit 4 (tcp_data 12) * 4;
              payload_len = (if len > ucast data_offset then len - ucast data_offset else 0)
          in case TcpFindSocket dst_port src_ip src_port (g_tcp_sockets s) of
               None \<Rightarrow> s
             | Some i \<Rightarrow> tcp_segment i seq ack flags (swap16 (le16 tcp_data 14))
                          (from_off tcp_data (unat data_offset)) payload_len s)"

section \<open>Timers\<close>

definition retransmit :: "nat \<Rightarrow> 'a net_scheme \<Rightarrow> 'a net_scheme" where
  "retransmit i s =
    (let k = sock i s in
     if sk_state k = TCP_SYN_SENT then send_flags i TCP_SYN (iss k) 0 s
     else if snd_una k < snd_nxt k
     then let unacked = snd_nxt k - snd_una k;
              unacked = (if unacked > ucast TCP_MSS then ucast TCP_MSS else unacked)
          in snd (TcpSendSegment i (TCP_PSH OR TCP_ACK) (send_buf k) (ucast unacked) (snd_una k) (rcv_nxt k) s)
     else s)"

definition poll_socket :: "nat \<Rightarrow> 'a net_scheme \<Rightarrow> 'a net_scheme" where
  "poll_socket i s =
    (if \<not> used (sock i s) then s
     else let k = sock i s;
              s = (if (sk_state k = TCP_SYN_SENT \<or> sk_state k = TCP_ESTABLISHED) \<and>
                      tick_count s \<ge> retrans_tick k \<and> retrans_count k < 5
                   then retransmit i (upd_sock i (\<lambda>k. k\<lparr>retrans_count := retrans_count k + 1,
                          retrans_tick := tick_count s + 20\<rparr>) s)
                   else s)
          in if sk_state (sock i s) = TCP_CLOSED then TcpFreeSocket i s else s)"

definition TcpPoll :: "'a net_scheme \<Rightarrow> 'a net_scheme" where
  "TcpPoll s = fold poll_socket [0..<TCP_SOCKET_COUNT] s"

section \<open>What output leaves alone\<close>

text \<open>Sending changes the transmit ring and the identification counter only.\<close>

lemma E1000SendFrame_frame [simp]:
  "g_tcp_sockets (snd (E1000SendFrame d n s)) = g_tcp_sockets s"
  "g_next_local_port (snd (E1000SendFrame d n s)) = g_next_local_port s"
  "tick_count (snd (E1000SendFrame d n s)) = tick_count s"
  by (simp_all add: E1000SendFrame_def Let_def)

lemma EthSend_frame [simp]:
  "g_tcp_sockets (snd (EthSend m ty d n s)) = g_tcp_sockets s"
  "g_next_local_port (snd (EthSend m ty d n s)) = g_next_local_port s"
  "tick_count (snd (EthSend m ty d n s)) = tick_count s"
  by (simp_all add: EthSend_def Let_def)

lemma ArpResolve_frame [simp]:
  "g_tcp_sockets (snd (ArpResolve ip s)) = g_tcp_sockets s"
  "g_next_local_port (snd (ArpResolve ip s)) = g_next_local_port s"
  "tick_count (snd (ArpResolve ip s)) = tick_count s"
  by (simp_all add: ArpResolve_def ArpSendRequest_def Let_def split: option.split)

lemma Ipv4Send_frame [simp]:
  "g_tcp_sockets (snd (Ipv4Send ip proto d n s)) = g_tcp_sockets s"
  "g_next_local_port (snd (Ipv4Send ip proto d n s)) = g_next_local_port s"
  "tick_count (snd (Ipv4Send ip proto d n s)) = tick_count s"
proof -
  define s1 where "s1 = s\<lparr>g_ip_id := g_ip_id s + 1\<rparr>"
  define target where "target = (if ip AND g_netmask s1 \<noteq> ip_our_ip s1 AND g_netmask s1 then g_gateway s1 else ip)"
  note d = Ipv4Send_def Let_def s1_def [symmetric] target_def [symmetric]
  have r: "g_tcp_sockets (snd (ArpResolve target s1)) = g_tcp_sockets s"
    "g_next_local_port (snd (ArpResolve target s1)) = g_next_local_port s"
    "tick_count (snd (ArpResolve target s1)) = tick_count s"
    by (simp_all add: s1_def)
  show "g_tcp_sockets (snd (Ipv4Send ip proto d n s)) = g_tcp_sockets s"
    "g_next_local_port (snd (Ipv4Send ip proto d n s)) = g_next_local_port s"
    "tick_count (snd (Ipv4Send ip proto d n s)) = tick_count s"
    using r by (cases "ArpResolve target s1"; cases "fst (ArpResolve target s1)"; simp add: d)+
qed

lemma TcpSendSegment_frame [simp]:
  "g_tcp_sockets (snd (TcpSendSegment i f d n a b s)) = g_tcp_sockets s"
  "g_next_local_port (snd (TcpSendSegment i f d n a b s)) = g_next_local_port s"
  "tick_count (snd (TcpSendSegment i f d n a b s)) = tick_count s"
  by (simp_all add: TcpSendSegment_def)

lemma send_flags_frame [simp]:
  "g_tcp_sockets (send_flags i f a b s) = g_tcp_sockets s"
  "g_next_local_port (send_flags i f a b s) = g_next_local_port s"
  "tick_count (send_flags i f a b s) = tick_count s"
  by (simp_all add: send_flags_def)

lemma upd_sock_simps [simp]:
  "g_tcp_sockets (upd_sock i f s) = (g_tcp_sockets s)(i := f (g_tcp_sockets s i))"
  "g_next_local_port (upd_sock i f s) = g_next_local_port s"
  "tick_count (upd_sock i f s) = tick_count s"
  by (simp_all add: upd_sock_def)

section \<open>A segment as a function of one socket\<close>

text \<open>What \<open>tcp_segment\<close> does to its socket, without the output.\<close>

definition fin_socket :: "u8 \<Rightarrow> u32 \<Rightarrow> tcp_socket \<Rightarrow> tcp_socket" where
  "fin_socket flags ack k =
    (if flags AND TCP_FIN \<noteq> 0 then fin_state ack (k\<lparr>rcv_nxt := rcv_nxt k + 1\<rparr>) else k)"

definition pending_socket :: "tcp_socket \<Rightarrow> tcp_socket" where
  "pending_socket k =
    (if sk_state k = TCP_CLOSE_WAIT \<and> pending_close k then k\<lparr>sk_state := TCP_LAST_ACK, snd_nxt := snd_nxt k + 1\<rparr> else k)"

definition data_socket :: "u32 \<Rightarrow> u32 \<Rightarrow> u8 \<Rightarrow> buf \<Rightarrow> u16 \<Rightarrow> tcp_socket \<Rightarrow> tcp_socket" where
  "data_socket seq ack flags payload n k =
    closing_state flags ack (last_ack_state flags ack (pending_socket (fin_socket flags ack
      (process_ack flags ack (accept_data seq payload n k)))))"

definition seg_socket :: "u32 \<Rightarrow> u32 \<Rightarrow> u8 \<Rightarrow> u16 \<Rightarrow> buf \<Rightarrow> u16 \<Rightarrow> tcp_socket \<Rightarrow> tcp_socket" where
  "seg_socket seq ack flags window payload n k0 =
    (let k = k0\<lparr>remote_window := window\<rparr> in
     if sk_state k = TCP_SYN_SENT
     then if flags AND (TCP_SYN OR TCP_ACK) = TCP_SYN OR TCP_ACK \<and> ack = snd_nxt k
          then k\<lparr>rcv_nxt := seq + 1, irs := seq, snd_una := ack, sk_state := TCP_ESTABLISHED\<rparr> else k
     else fin_wait_state flags ack
       (if sk_state k \<in> {TCP_ESTABLISHED, TCP_FIN_WAIT_1, TCP_FIN_WAIT_2, TCP_CLOSE_WAIT}
        then data_socket seq ack flags payload n k else k))"

lemma established_segment_socket:
  "g_tcp_sockets (established_segment i seq ack flags payload n s) =
    (g_tcp_sockets s)(i := data_socket seq ack flags payload n (sock i s))"
proof -
  have fin: "g_tcp_sockets (handle_fin i flags ack s) = (g_tcp_sockets s)(i := fin_socket flags ack (sock i s))"
    for s :: "'a net_scheme"
    by (auto simp: handle_fin_def Let_def fin_socket_def)
  have pending: "g_tcp_sockets (handle_pending i s) = (g_tcp_sockets s)(i := pending_socket (sock i s))"
    for s :: "'a net_scheme"
    by (auto simp: handle_pending_def Let_def pending_socket_def)
  show ?thesis
    by (simp add: established_segment_def Let_def fin pending data_socket_def)
qed

lemma tcp_segment_socket:
  "g_tcp_sockets (tcp_segment i seq ack flags window payload n s) =
    (g_tcp_sockets s)(i := seg_socket seq ack flags window payload n (sock i s))"
  by (simp add: tcp_segment_def Let_def seg_socket_def synsent_segment_def established_segment_socket)

lemma TcpFindSocket_Some:
  "TcpFindSocket lp rip rp socks = Some i \<Longrightarrow> i < 8 \<and> used (socks i)"
  by (auto simp: TcpFindSocket_def find_upt_Some_iff TCP_SOCKET_COUNT_def Let_def)

text \<open>So an incoming segment changes at most one socket, by \<open>seg_socket\<close>.\<close>

definition seg_length :: "buf \<Rightarrow> u16 \<Rightarrow> u16" where
  "seg_length d len = (if len > ucast (drop_bit 4 (d 12) * 4) then len - ucast (drop_bit 4 (d 12) * 4) else 0)"

lemma TcpHandlePacket_found:
  assumes "20 \<le> len" "TcpFindSocket (swap16 (le16 d 2)) src (swap16 (le16 d 0)) (g_tcp_sockets s) = Some i"
  shows "g_tcp_sockets (TcpHandlePacket src dst d len s) = (g_tcp_sockets s)(i :=
    seg_socket (NetSwap32 (le32 d 4)) (NetSwap32 (le32 d 8)) (d 13) (swap16 (le16 d 14))
      (from_off d (unat (drop_bit 4 (d 12) * 4))) (seg_length d len) (sock i s))"
proof -
  have "\<not> len < 20" using assms(1) by (simp only: not_less)
  then show ?thesis
    unfolding TcpHandlePacket_def Let_def seg_length_def
    by (simp only: if_False assms(2) option.case tcp_segment_socket)
qed

lemma TcpHandlePacket_socket:
  obtains "TcpHandlePacket src dst d len s = s"
  | i seq ack flags window payload n where "i < 8" "used (sock i s)"
      "g_tcp_sockets (TcpHandlePacket src dst d len s) =
        (g_tcp_sockets s)(i := seg_socket seq ack flags window payload n (sock i s))"
proof (cases "len < 20 \<or> TcpFindSocket (swap16 (le16 d 2)) src (swap16 (le16 d 0)) (g_tcp_sockets s) = None")
  case True
  then show thesis by (intro that(1)) (auto simp: TcpHandlePacket_def Let_def)
next
  case False
  then obtain i where i: "20 \<le> len" "TcpFindSocket (swap16 (le16 d 2)) src (swap16 (le16 d 0)) (g_tcp_sockets s) = Some i"
    by auto
  then show thesis using that(2) TcpFindSocket_Some [OF i(2)] TcpHandlePacket_found [OF i] by blast
qed

lemma tcp_segment_frame [simp]:
  "g_next_local_port (tcp_segment i seq ack flags window payload n s) = g_next_local_port s"
  "tick_count (tcp_segment i seq ack flags window payload n s) = tick_count s"
  by (simp_all add: tcp_segment_def Let_def synsent_segment_def established_segment_def handle_fin_def handle_pending_def)

lemma TcpHandlePacket_frame [simp]:
  "g_next_local_port (TcpHandlePacket src dst d len s) = g_next_local_port s"
  "tick_count (TcpHandlePacket src dst d len s) = tick_count s"
  by (simp_all add: TcpHandlePacket_def Let_def split: option.split)

section \<open>The invariant of the socket table\<close>

definition closing_states :: "tcp_state set" where
  "closing_states = {TCP_FIN_WAIT_1, TCP_FIN_WAIT_2, TCP_CLOSING, TCP_TIME_WAIT}"

text \<open>The receive buffer is not overrun, the states that need a passive open or a delayed close do
  not occur, a close is pending exactly in the states after our FIN, a connection uses a port of
  the dynamic range, and a free slot is all zero.\<close>

definition sock_ok :: "tcp_socket \<Rightarrow> bool" where
  "sock_ok k \<longleftrightarrow> recv_len k \<le> 4096 \<and>
    sk_state k \<notin> {TCP_LISTEN, TCP_SYN_RECEIVED, TCP_LAST_ACK} \<and>
    (pending_close k \<longleftrightarrow> sk_state k \<in> closing_states) \<and>
    (sk_state k \<noteq> TCP_CLOSED \<longrightarrow> 49152 \<le> local_port k) \<and>
    (\<not> used k \<longrightarrow> k = zero_socket)"

definition tcp_inv :: "'a net_scheme \<Rightarrow> bool" where
  "tcp_inv s \<longleftrightarrow> (\<forall>i. sock_ok (sock i s)) \<and> 49152 \<le> g_next_local_port s"

lemma tcp_invI: "(\<And>i. sock_ok (sock i s)) \<Longrightarrow> 49152 \<le> g_next_local_port s \<Longrightarrow> tcp_inv s"
  by (simp add: tcp_inv_def)

lemma tcp_inv_sock: "tcp_inv s \<Longrightarrow> sock_ok (sock i s)"
  by (simp add: tcp_inv_def)

lemma tcp_inv_upd:
  "tcp_inv s \<Longrightarrow> g_next_local_port t = g_next_local_port s \<Longrightarrow>
    g_tcp_sockets t = (g_tcp_sockets s)(i := k) \<Longrightarrow> sock_ok k \<Longrightarrow> tcp_inv t"
  by (simp add: tcp_inv_def)

lemma tcp_inv_upd_sock [intro]: "tcp_inv s \<Longrightarrow> sock_ok (f (sock i s)) \<Longrightarrow> tcp_inv (upd_sock i f s)"
  by (rule tcp_inv_upd [of s _ i]) simp_all

lemma tcp_inv_frame:
  "g_next_local_port t = g_next_local_port s \<Longrightarrow> g_tcp_sockets t = g_tcp_sockets s \<Longrightarrow> tcp_inv t = tcp_inv s"
  by (simp add: tcp_inv_def)

lemma tcp_inv_send [simp]:
  "tcp_inv (send_flags i f a b s) = tcp_inv s" "tcp_inv (snd (TcpSendSegment i f d n a b s)) = tcp_inv s"
  by (rule tcp_inv_frame; simp)+

lemma zero_socket_ok [simp]: "sock_ok zero_socket" "sock_ok (zero_socket\<lparr>used := True\<rparr>)"
  by (simp_all add: sock_ok_def zero_socket_def closing_states_def)

text \<open>Accepting data keeps the fill level within the buffer; no byte beyond it is written.\<close>

lemma accept_data_ok:
  assumes "recv_len k \<le> 4096"
  shows "recv_len (accept_data seq p n k) \<le> 4096"
    and "4096 \<le> j \<Longrightarrow> recv_buf (accept_data seq p n k) j = recv_buf k j"
proof -
  define m where "m = (if ucast n > TCP_BUF_SIZE - recv_len k then ucast (TCP_BUF_SIZE - recv_len k) else n)"
  have l: "unat (recv_len k) \<le> 4096" using assms by (simp add: word_le_nat_alt)
  have sp: "unat (TCP_BUF_SIZE - recv_len k) = 4096 - unat (recv_len k)"
    using assms by (simp add: TCP_BUF_SIZE_def unat_sub)
  have m: "unat m \<le> 4096 - unat (recv_len k)"
  proof (cases "ucast n > TCP_BUF_SIZE - recv_len k")
    case True
    then show ?thesis by (simp add: m_def unsigned_ucast_eq sp take_bit_nat_less_eq_self)
  next
    case False
    then have "unat n \<le> 4096 - unat (recv_len k)" using sp by (simp add: word_le_nat_alt not_less)
    then show ?thesis using False by (simp add: m_def)
  qed
  then have "unat (recv_len k + ucast m) = unat (recv_len k) + unat m"
    using l by (simp add: unat_word_ariths)
  then have "recv_len k + ucast m \<le> 4096" using m l by (simp add: word_le_nat_alt)
  then show "recv_len (accept_data seq p n k) \<le> 4096"
    using assms by (simp add: accept_data_def Let_def m_def [symmetric])
  show "4096 \<le> j \<Longrightarrow> recv_buf (accept_data seq p n k) j = recv_buf k j"
    using m l by (auto simp: accept_data_def Let_def m_def [symmetric] buf_copy_def)
qed

lemma accept_data_frame [simp]:
  "sk_state (accept_data seq p n k) = sk_state k" "pending_close (accept_data seq p n k) = pending_close k"
  "local_port (accept_data seq p n k) = local_port k" "used (accept_data seq p n k) = used k"
  "snd_nxt (accept_data seq p n k) = snd_nxt k"
  by (simp_all add: accept_data_def Let_def)

text \<open>Each stage keeps a socket in use well formed.\<close>

definition live :: "tcp_socket \<Rightarrow> bool" where
  "live k \<longleftrightarrow> sock_ok k \<and> used k"

lemma live_stages:
  assumes "live k"
  shows "live (k\<lparr>remote_window := window\<rparr>)" "live (accept_data seq p n k)" "live (process_ack flags ack k)"
    "live (fin_socket flags ack k)" "live (pending_socket k)" "live (last_ack_state flags ack k)"
    "live (closing_state flags ack k)" "live (fin_wait_state flags ack k)"
proof -
  have "recv_len (accept_data seq p n k) \<le> 4096"
    by (rule accept_data_ok) (use assms in \<open>simp add: live_def sock_ok_def\<close>)
  then show "live (accept_data seq p n k)" using assms by (simp add: live_def sock_ok_def)
  show "live (k\<lparr>remote_window := window\<rparr>)" "live (process_ack flags ack k)" "live (pending_socket k)"
    "live (last_ack_state flags ack k)"
    using assms by (simp_all add: live_def sock_ok_def process_ack_def pending_socket_def last_ack_state_def closing_states_def)
  show "live (fin_socket flags ack k)"
    using assms by (simp add: live_def sock_ok_def fin_socket_def fin_state_def closing_states_def)
  show "live (closing_state flags ack k)" "live (fin_wait_state flags ack k)"
    using assms by (simp_all add: live_def sock_ok_def closing_state_def fin_wait_state_def closing_states_def)
qed

lemma seg_socket_live:
  assumes "live k"
  shows "live (seg_socket seq ack flags window p n k)"
proof -
  define k1 where "k1 = k\<lparr>remote_window := window\<rparr>"
  have k1: "live k1" using live_stages(1) [OF assms] by (simp add: k1_def)
  show ?thesis
  proof (cases "sk_state k1 = TCP_SYN_SENT")
    case True
    then show ?thesis
      using k1 by (simp add: seg_socket_def Let_def k1_def [symmetric] live_def sock_ok_def closing_states_def)
  next
    case False
    then show ?thesis
      using k1 by (simp add: seg_socket_def Let_def k1_def [symmetric] data_socket_def live_stages)
  qed
qed

lemma seg_socket_ok: "sock_ok k \<Longrightarrow> used k \<Longrightarrow> sock_ok (seg_socket seq ack flags window p n k)"
  using seg_socket_live by (simp add: live_def)

lemma TcpHandlePacket_inv:
  assumes "tcp_inv s"
  shows "tcp_inv (TcpHandlePacket src dst d len s)"
proof (rule TcpHandlePacket_socket [of src dst d len s])
  assume "TcpHandlePacket src dst d len s = s"
  then show ?thesis using assms by simp
next
  fix i seq ack flags window p n
  assume i: "used (sock i s)"
    "g_tcp_sockets (TcpHandlePacket src dst d len s) = (g_tcp_sockets s)(i := seg_socket seq ack flags window p n (sock i s))"
  show ?thesis
    by (rule tcp_inv_upd [OF assms _ i(2)]) (simp_all add: seg_socket_ok i(1) tcp_inv_sock [OF assms])
qed

lemma retransmit_inv [simp]: "tcp_inv (retransmit i s) = tcp_inv s"
  "g_tcp_sockets (retransmit i s) = g_tcp_sockets s" "tick_count (retransmit i s) = tick_count s"
  by (simp_all add: retransmit_def Let_def)

lemma poll_socket_inv: "tcp_inv s \<Longrightarrow> tcp_inv (poll_socket i s)"
proof -
  assume inv: "tcp_inv s"
  have "tcp_inv (upd_sock i (\<lambda>k. k\<lparr>retrans_count := retrans_count k + 1, retrans_tick := t\<rparr>) s)"
    if "used (sock i s)" for t
    using inv that by (intro tcp_inv_upd_sock) (auto dest: tcp_inv_sock [of s i] simp: sock_ok_def)
  then show ?thesis
    using inv by (auto simp: poll_socket_def Let_def TcpFreeSocket_def)
qed

lemma TcpPoll_inv: "tcp_inv s \<Longrightarrow> tcp_inv (TcpPoll s)"
proof -
  assume "tcp_inv s"
  then have "tcp_inv (fold poll_socket xs s)" for xs
    by (induction xs arbitrary: s) (simp_all add: poll_socket_inv)
  then show ?thesis by (simp add: TcpPoll_def)
qed

section \<open>Reachable states\<close>

text \<open>What an interrupt does to the state: segments arrive, the timers run, time passes.\<close>

inductive tcp_irq :: "('a net_scheme \<Rightarrow> 'a net_scheme) \<Rightarrow> bool" where
  packet: "tcp_irq (TcpHandlePacket src dst d len)"
| poll: "tcp_irq TcpPoll"
| tick: "tcp_irq (\<lambda>s. s\<lparr>tick_count := tick_count s + 1\<rparr>)"
| seq: "tcp_irq f \<Longrightarrow> tcp_irq g \<Longrightarrow> tcp_irq (\<lambda>s. g (f s))"

definition all_irqs :: "('a net_scheme \<Rightarrow> 'a net_scheme) list \<Rightarrow> bool" where
  "all_irqs irqs \<longleftrightarrow> (\<forall>f\<in>set irqs. tcp_irq f)"

inductive tcp_reach :: "'a net_scheme \<Rightarrow> bool" where
  init: "g_next_local_port s = TCP_LOCAL_PORT_START \<Longrightarrow> tcp_reach (TcpInit s)"
| irq: "tcp_reach s \<Longrightarrow> tcp_irq f \<Longrightarrow> tcp_reach (f s)"
| create: "tcp_reach s \<Longrightarrow> TcpSocketCreate s = (n, t) \<Longrightarrow> tcp_reach t"
| connect: "tcp_reach s \<Longrightarrow> all_irqs irqs \<Longrightarrow> TcpConnect n ip port irqs s = Some (st, rest, t) \<Longrightarrow> tcp_reach t"
| send: "tcp_reach s \<Longrightarrow> all_irqs irqs \<Longrightarrow> TcpSend n data len irqs s = Some (r, rest, t) \<Longrightarrow> tcp_reach t"
| recv: "tcp_reach s \<Longrightarrow> all_irqs irqs \<Longrightarrow> TcpRecv n out mx ms irqs s = Some (r', rest, t) \<Longrightarrow> tcp_reach t"
| close: "tcp_reach s \<Longrightarrow> all_irqs irqs \<Longrightarrow> TcpClose n irqs s = Some (st, rest, t) \<Longrightarrow> tcp_reach t"

lemma tcp_irq_inv: "tcp_irq f \<Longrightarrow> tcp_inv s \<Longrightarrow> tcp_inv (f s)"
  by (induction f arbitrary: s rule: tcp_irq.induct)
    (simp_all add: TcpHandlePacket_inv TcpPoll_inv tcp_inv_frame [of "s\<lparr>tick_count := t\<rparr>" s for s t])

text \<open>A socket with a connection, and a socket whose close is not pending: kept by interrupts.\<close>

definition conn :: "nat \<Rightarrow> 'a net_scheme \<Rightarrow> bool" where
  "conn i s \<longleftrightarrow> tcp_inv s \<and> used (sock i s) \<and> sk_state (sock i s) \<noteq> TCP_CLOSED"

lemma seg_socket_not_closed:
  assumes "live k" "sk_state k \<noteq> TCP_CLOSED"
  shows "sk_state (seg_socket seq ack flags window p n k) \<noteq> TCP_CLOSED"
proof -
  define k1 where "k1 = k\<lparr>remote_window := window\<rparr>"
  define k2 where "k2 = fin_socket flags ack (process_ack flags ack (accept_data seq p n k1))"
  have k1: "live k1" "sk_state k1 \<noteq> TCP_CLOSED" using assms live_stages(1) by (simp_all add: k1_def)
  have k2: "live k2" "sk_state k2 \<noteq> TCP_CLOSED"
    using k1 by (simp_all add: k2_def live_stages)
      (simp add: fin_socket_def fin_state_def process_ack_def)
  have "pending_socket k2 = k2"
    using k2(1) by (auto simp: live_def sock_ok_def pending_socket_def closing_states_def)
  moreover have "last_ack_state flags ack k2 = k2"
    using k2(1) by (auto simp: live_def sock_ok_def last_ack_state_def)
  ultimately have "sk_state (data_socket seq ack flags p n k1) \<noteq> TCP_CLOSED"
    using k2(2) by (simp add: data_socket_def k2_def [symmetric] closing_state_def)
  then show ?thesis
    using k1(2) by (simp add: seg_socket_def Let_def k1_def [symmetric] fin_wait_state_def)
qed

lemma seg_socket_pending [simp]: "pending_close (seg_socket seq ack flags window p n k) = pending_close k"
proof -
  have st: "pending_close (process_ack flags ack k) = pending_close k" "pending_close (fin_socket flags ack k) = pending_close k"
    "pending_close (pending_socket k) = pending_close k" "pending_close (last_ack_state flags ack k) = pending_close k"
    "pending_close (closing_state flags ack k) = pending_close k" "pending_close (fin_wait_state flags ack k) = pending_close k"
    for k
    by (simp_all add: fin_socket_def fin_state_def pending_socket_def process_ack_def last_ack_state_def
        closing_state_def fin_wait_state_def)
  show ?thesis by (simp add: seg_socket_def Let_def data_socket_def st)
qed

text \<open>What the timers do to a socket.\<close>

definition poll_fun :: "u64 \<Rightarrow> tcp_socket \<Rightarrow> tcp_socket" where
  "poll_fun now k =
    (if \<not> used k then k
     else if sk_state k = TCP_CLOSED then zero_socket
     else if (sk_state k = TCP_SYN_SENT \<or> sk_state k = TCP_ESTABLISHED) \<and> now \<ge> retrans_tick k \<and> retrans_count k < 5
     then k\<lparr>retrans_count := retrans_count k + 1, retrans_tick := now + 20\<rparr> else k)"

lemma poll_socket_socket:
  "g_tcp_sockets (poll_socket j s) = (g_tcp_sockets s)(j := poll_fun (tick_count s) (sock j s))"
  by (auto simp: poll_socket_def Let_def TcpFreeSocket_def poll_fun_def)

lemma poll_socket_sock:
  "sk_state (sock i s) \<noteq> TCP_CLOSED \<Longrightarrow>
    sk_state (sock i (poll_socket j s)) = sk_state (sock i s) \<and> used (sock i (poll_socket j s)) = used (sock i s)"
  "pending_close (sock i (poll_socket j s)) \<Longrightarrow> pending_close (sock i s)"
  by (auto simp: poll_socket_socket poll_fun_def zero_socket_def split: if_splits)

lemma TcpPoll_sock:
  "sk_state (sock i s) \<noteq> TCP_CLOSED \<Longrightarrow>
    sk_state (sock i (TcpPoll s)) = sk_state (sock i s) \<and> used (sock i (TcpPoll s)) = used (sock i s)"
  "pending_close (sock i (TcpPoll s)) \<Longrightarrow> pending_close (sock i s)"
proof -
  have "sk_state (sock i s) \<noteq> TCP_CLOSED \<Longrightarrow> sk_state (sock i (fold poll_socket xs s)) = sk_state (sock i s) \<and>
      used (sock i (fold poll_socket xs s)) = used (sock i s)" for xs
  proof (induction xs arbitrary: s)
    case (Cons j xs)
    then show ?case using poll_socket_sock(1) [where i = i and s = s and j = j] by simp
  qed simp
  then show "sk_state (sock i s) \<noteq> TCP_CLOSED \<Longrightarrow>
    sk_state (sock i (TcpPoll s)) = sk_state (sock i s) \<and> used (sock i (TcpPoll s)) = used (sock i s)"
    by (simp add: TcpPoll_def)
  have "pending_close (sock i (fold poll_socket xs s)) \<Longrightarrow> pending_close (sock i s)" for xs
    by (induction xs arbitrary: s) (auto dest: poll_socket_sock(2))
  then show "pending_close (sock i (TcpPoll s)) \<Longrightarrow> pending_close (sock i s)" by (simp add: TcpPoll_def)
qed

lemma tcp_irq_conn: "tcp_irq f \<Longrightarrow> conn i s \<Longrightarrow> conn i (f s)"
proof (induction f arbitrary: s rule: tcp_irq.induct)
  case (packet src dst d len)
  have inv: "tcp_inv (TcpHandlePacket src dst d len s)"
    using packet by (simp add: conn_def TcpHandlePacket_inv)
  show ?case
  proof (rule TcpHandlePacket_socket [of src dst d len s])
    assume "TcpHandlePacket src dst d len s = s"
    then show ?thesis using packet by simp
  next
    fix j seq ack flags window p n
    assume j: "used (sock j s)" "g_tcp_sockets (TcpHandlePacket src dst d len s) =
        (g_tcp_sockets s)(j := seg_socket seq ack flags window p n (sock j s))"
    have "live (sock j s)" using packet j(1) by (simp add: live_def conn_def tcp_inv_sock)
    then have "used (seg_socket seq ack flags window p n (sock j s))"
      "sk_state (sock j s) \<noteq> TCP_CLOSED \<Longrightarrow> sk_state (seg_socket seq ack flags window p n (sock j s)) \<noteq> TCP_CLOSED"
      using seg_socket_live seg_socket_not_closed by (simp_all add: live_def)
    then show ?thesis using inv packet j(2) by (auto simp: conn_def)
  qed
next
  case poll
  then show ?case using TcpPoll_sock(1) [where i = i and s = s] by (simp add: conn_def TcpPoll_inv)
next
  case tick
  then show ?case by (simp add: conn_def tcp_inv_def)
qed simp

lemma tcp_irq_pending: "tcp_irq f \<Longrightarrow> pending_close (sock i (f s)) \<Longrightarrow> pending_close (sock i s)"
proof (induction f arbitrary: s rule: tcp_irq.induct)
  case (packet src dst d len)
  then show ?case
    by (rule_tac TcpHandlePacket_socket [of src dst d len s]) (auto simp: fun_upd_apply split: if_splits)
next
  case poll
  then show ?case by (rule TcpPoll_sock(2))
next
  case tick
  then show ?case by simp
next
  case (seq f g)
  then show ?case by blast
qed

section \<open>The calls keep the invariant\<close>

lemma create_inv: "tcp_inv s \<Longrightarrow> tcp_inv (snd (TcpSocketCreate s))"
  by (auto simp: TcpSocketCreate_def TcpAllocSocket_def sock_ok_def zero_socket_def closing_states_def
      split: option.splits intro!: tcp_inv_upd_sock)

lemma connect_init_inv:
  assumes "tcp_inv s" "used (sock i s)" "sk_state (sock i s) = TCP_CLOSED"
  shows "tcp_inv (connect_init i ip port s)" "\<not> pending_close (sock i (connect_init i ip port s))"
proof -
  have k: "sock_ok (sock i s)" using assms(1) by (rule tcp_inv_sock)
  then show p: "\<not> pending_close (sock i (connect_init i ip port s))"
    using assms(3) by (simp add: connect_init_def Let_def sock_ok_def closing_states_def)
  show "tcp_inv (connect_init i ip port s)"
  proof (rule tcp_invI)
    show "sock_ok (sock j (connect_init i ip port s))" for j
      using assms k tcp_inv_sock [of s j]
      by (simp add: connect_init_def Let_def sock_ok_def closing_states_def tcp_inv_def)
    show "49152 \<le> g_next_local_port (connect_init i ip port s)"
      by (simp add: connect_init_def Let_def TCP_LOCAL_PORT_START_def not_less)
  qed
qed

lemma connect_inv:
  assumes "tcp_inv s" "all_irqs irqs" "TcpConnect n ip port irqs s = Some (st, rest, t)"
  shows "tcp_inv t"
proof (cases "in_range n \<and> used (sock (nat n) s) \<and> sk_state (sock (nat n) s) = TCP_CLOSED")
  case False
  then show ?thesis using assms by (auto simp: TcpConnect_def Let_def split: if_splits)
next
  case True
  define i where "i = nat n"
  define s1 where "s1 = send_flags i TCP_SYN (iss (sock i (connect_init i ip port s))) 0 (connect_init i ip port s)"
  have s1: "tcp_inv s1 \<and> \<not> pending_close (sock i s1)"
    using connect_init_inv [OF assms(1), of i] True by (simp add: s1_def i_def)
  have "hlt_loop (connect_wait i (tick_count s1 + 500)) irqs s1 = Some (st, rest, t)"
    using assms(3) True by (simp add: TcpConnect_def Let_def s1_def i_def)
  then have "\<exists>u. (tcp_inv u \<and> \<not> pending_close (sock i u)) \<and> connect_wait i (tick_count s1 + 500) u = Some (st, t)"
    by (rule hlt_loop_inv [where P = "\<lambda>u. tcp_inv u \<and> \<not> pending_close (sock i u)", OF _ s1])
      (use assms(2) tcp_irq_inv tcp_irq_pending in \<open>unfold all_irqs_def, blast\<close>)
  then obtain u where u: "tcp_inv u" "\<not> pending_close (sock i u)" "connect_wait i (tick_count s1 + 500) u = Some (st, t)"
    by blast
  have "sock_ok (sock i u\<lparr>sk_state := TCP_CLOSED\<rparr>)"
    using tcp_inv_sock [OF u(1), of i] u(2) by (auto simp: sock_ok_def closing_states_def zero_socket_def)
  then have "tcp_inv (upd_sock i (\<lambda>k. k\<lparr>sk_state := TCP_CLOSED\<rparr>) u)" using u(1) by (intro tcp_inv_upd_sock)
  then show ?thesis using u by (auto simp: connect_wait_def split: if_splits)
qed

lemma conn_wait:
  assumes "hlt_loop body irqs s = Some (r, rest, t)" "conn i s" "all_irqs irqs"
  shows "\<exists>u. conn i u \<and> body u = Some (r, t)"
  by (rule hlt_loop_inv [where P = "conn i", OF assms(1,2)])
    (use assms(3) tcp_irq_conn in \<open>unfold all_irqs_def, blast\<close>)

lemma hlt_loop_rest: "hlt_loop body irqs s = Some (r, rest, t) \<Longrightarrow> set rest \<subseteq> set irqs"
proof (induction irqs arbitrary: s)
  case Nil
  then show ?case by (auto simp: hlt_loop.simps [of _ "[]"] split: option.splits)
next
  case (Cons irq irqs)
  then show ?case
    by (fastforce simp: hlt_loop.simps [of _ "irq # irqs"] split: option.splits)
qed

lemma hlt_loop_irqs: "hlt_loop body irqs s = Some (r, rest, t) \<Longrightarrow> all_irqs irqs \<Longrightarrow> all_irqs rest"
  using hlt_loop_rest by (fastforce simp: all_irqs_def)

lemma conn_upd:
  assumes "conn i s" "\<And>k. live k \<Longrightarrow> sk_state k \<noteq> TCP_CLOSED \<Longrightarrow> live (f k) \<and> sk_state (f k) \<noteq> TCP_CLOSED"
  shows "conn i (upd_sock i f s)"
proof -
  have "live (sock i s)" using assms(1) by (simp add: conn_def live_def tcp_inv_sock)
  then have "live (f (sock i s)) \<and> sk_state (f (sock i s)) \<noteq> TCP_CLOSED" using assms by (simp add: conn_def)
  then show ?thesis using assms(1) by (auto simp: conn_def live_def)
qed

lemma conn_send [simp]:
  "conn i (snd (TcpSendSegment j f d n a b s)) = conn i s" "conn i (send_flags j f a b s) = conn i s"
  by (simp_all add: conn_def)

lemma send_round_inv:
  assumes "send_round i data len sent irqs s = Some (r, rest, t)" "conn i s" "all_irqs irqs"
  shows "conn i t \<and> all_irqs rest"
proof -
  obtain to irqs1 s1 where 1: "hlt_loop (window_wait i (tick_count s + 500)) irqs s = Some (to, irqs1, s1)"
    using assms(1) by (auto simp: send_round_def split: option.splits)
  have irqs1: "all_irqs irqs1" using hlt_loop_irqs [OF 1 assms(3)] .
  have s1: "conn i s1"
    using conn_wait [OF 1 assms(2,3)] by (auto simp: window_wait_def split: if_splits)
  define c where "c = chunk_size len sent (remote_window (sock i s1))"
  consider "to" | "\<not> to" "c = 0" | "\<not> to" "c \<noteq> 0" by blast
  then show ?thesis
  proof cases
    case 1
    then show ?thesis using assms(1) \<open>hlt_loop _ irqs s = _\<close> irqs1 s1 by (simp add: send_round_def)
  next
    case 2
    then show ?thesis
      using assms(1) \<open>hlt_loop _ irqs s = _\<close> irqs1 s1 tcp_irq_conn
      by (auto simp: send_round_def Let_def c_def [symmetric] all_irqs_def split: list.splits)
  next
    case 3
    obtain st s2 where 2: "TcpSendSegment i (TCP_PSH OR TCP_ACK) (from_off data sent) c
        (snd_nxt (sock i s1)) (rcv_nxt (sock i s1)) s1 = (st, s2)" by (cases "TcpSendSegment i (TCP_PSH OR TCP_ACK) (from_off data sent) c
        (snd_nxt (sock i s1)) (rcv_nxt (sock i s1)) s1")
    have s2: "conn i s2" using conn_send(1) [of i i "TCP_PSH OR TCP_ACK" "from_off data sent" c] s1 2 by (metis snd_conv)
    define s3 where "s3 = upd_sock i (\<lambda>k. k\<lparr>snd_nxt := snd_nxt k + ucast c, retrans_tick := tick_count s2 + 20, retrans_count := 0\<rparr>) s2"
    have s3: "conn i s3"
      unfolding s3_def by (rule conn_upd [OF s2]) (simp add: live_def sock_ok_def)
    have round: "send_round i data len sent irqs s =
      (if NT_ERROR st then Some (Inl sent, irqs1, s2)
       else if remote_window (sock i s3) \<le> c
       then map_option (\<lambda>(_, irqs, s). (Inr (sent + unat c), irqs, s)) (hlt_loop (ack_wait i (tick_count s3 + 500)) irqs1 s3)
       else Some (Inr (sent + unat c), irqs1, s3))"
      using 3 2 by (simp add: send_round_def 1 c_def [symmetric] Let_def s3_def)
    show ?thesis
    proof (cases "NT_ERROR st \<or> \<not> remote_window (sock i s3) \<le> c")
      case True
      then show ?thesis using assms(1) s2 s3 irqs1 unfolding round by (auto split: if_splits)
    next
      case False
      then obtain irqs4 where 4: "hlt_loop (ack_wait i (tick_count s3 + 500)) irqs1 s3 = Some ((), irqs4, t)" "rest = irqs4"
        using assms(1) unfolding round by auto
      then show ?thesis
        using conn_wait [OF 4(1) s3 irqs1] hlt_loop_irqs [OF 4(1) irqs1] by (auto simp: ack_wait_def split: if_splits)
    qed
  qed
qed

lemma send_loop_inv:
  "send_loop i data len sent irqs s = Some (r, rest, t) \<Longrightarrow> conn i s \<Longrightarrow> all_irqs irqs \<Longrightarrow> conn i t"
proof (induction i data len sent irqs s rule: send_loop.induct)
  case (1 i data len sent irqs s)
  show ?case
  proof (cases "sent < len")
    case False
    then show ?thesis using 1(2,3) by (simp add: send_loop.simps [of i data len sent])
  next
    case True
    then obtain x irqs' s' where r: "send_round i data len sent irqs s = Some (x, irqs', s')"
      using 1(2) by (auto simp: send_loop.simps [of i data len sent] split: option.splits)
    have s': "conn i s'" "all_irqs irqs'" using send_round_inv [OF r 1(3,4)] by simp_all
    show ?thesis
    proof (cases x)
      case (Inl n)
      then show ?thesis using 1(2) True r s' by (simp add: send_loop.simps [of i data len sent])
    next
      case (Inr n)
      then have "send_loop i data len n irqs' s' = Some (r, rest, t)"
        using 1(2) True r by (simp add: send_loop.simps [of i data len sent])
      then show ?thesis using 1(1) [OF True r refl Inr refl] s' by blast
    qed
  qed
qed

lemma recv_take_ok:
  assumes "sock_ok k" "recv_len k > 0"
  shows "sock_ok (snd (recv_take mx out k))"
proof -
  define n where "n = (if ucast mx > recv_len k then ucast (recv_len k) else mx)"
  have l: "unat (recv_len k) \<le> 4096" using assms by (simp add: sock_ok_def word_le_nat_alt)
  have "unat n \<le> unat (recv_len k)"
    using l by (auto simp: n_def word_less_nat_alt unsigned_ucast_eq take_bit_nat_eq_self)
  then have "recv_len k - ucast n \<le> 4096" using l by (simp add: word_le_nat_alt unat_sub)
  moreover have "used k" using assms by (auto simp: sock_ok_def zero_socket_def)
  ultimately show ?thesis
    using assms by (simp add: recv_take_def n_def [symmetric] Let_def sock_ok_def)
qed

lemma do_recv_inv: "tcp_inv s \<Longrightarrow> recv_len (sock i s) > 0 \<Longrightarrow> tcp_inv (snd (do_recv i mx out s))"
  using recv_take_ok [OF tcp_inv_sock [of s i], of mx out] by (auto simp: do_recv_def case_prod_unfold Let_def)

lemma recv_inv:
  assumes "tcp_inv s" "all_irqs irqs" "TcpRecv n out mx ms irqs s = Some (r, rest, t)"
  shows "tcp_inv t"
proof (cases "\<not> in_range n \<or> \<not> used (sock (nat n) s) \<or> recv_len (sock (nat n) s) > 0 \<or> ms = 0")
  case True
  then show ?thesis
    using assms do_recv_inv [of s "nat n" mx out]
    by (auto simp: TcpRecv_def Let_def split: if_splits prod.splits)
next
  case False
  then have "hlt_loop (recv_wait (nat n) mx out (tick_count s + ucast (ms div 10))) irqs s = Some (r, rest, t)"
    using assms(3) by (simp add: TcpRecv_def Let_def)
  then have "\<exists>u. tcp_inv u \<and> recv_wait (nat n) mx out (tick_count s + ucast (ms div 10)) u = Some (r, t)"
    by (rule hlt_loop_inv [where P = tcp_inv, OF _ assms(1)])
      (use assms(2) tcp_irq_inv in \<open>unfold all_irqs_def, blast\<close>)
  then show ?thesis
    using do_recv_inv [where mx = mx and out = out] by (fastforce simp: recv_wait_def split: if_splits)
qed

lemma close_inv:
  assumes "tcp_inv s" "all_irqs irqs" "TcpClose n irqs s = Some (st, rest, t)"
  shows "tcp_inv t"
proof (cases "in_range n \<and> used (sock (nat n) s) \<and> sk_state (sock (nat n) s) = TCP_ESTABLISHED")
  case False
  then show ?thesis
    using assms(1,3) by (auto simp: TcpClose_def Let_def TcpFreeSocket_def split: if_splits)
next
  case True
  define i where "i = nat n"
  define s1 where "s1 = upd_sock i (\<lambda>k. k\<lparr>sk_state := TCP_FIN_WAIT_1, pending_close := True\<rparr>) s"
  define s2 where "s2 = upd_sock i (\<lambda>k. k\<lparr>snd_nxt := snd_nxt k + 1\<rparr>)
    (send_flags i (TCP_FIN OR TCP_ACK) (snd_nxt (sock i s1)) (rcv_nxt (sock i s1)) s1)"
  have "conn i s" using assms(1) True by (simp add: conn_def i_def)
  then have "conn i s1"
    using tcp_inv_sock [OF assms(1), of i] True unfolding s1_def
    by (auto simp: conn_def sock_ok_def closing_states_def i_def)
  then have s2: "conn i s2"
    unfolding s2_def by (intro conn_upd) (simp_all add: live_def sock_ok_def)
  have tick: "tick_count s1 = tick_count s2" by (simp add: s2_def)
  obtain u rest' where u: "hlt_loop (close_wait i (tick_count s2 + 500)) irqs s2 = Some ((), rest', u)"
    "t = TcpFreeSocket i u"
    using assms(3) True
    by (auto simp: TcpClose_def Let_def s1_def [symmetric] s2_def [symmetric] i_def [symmetric] tick split: option.splits)
  have "conn i u" using conn_wait [OF u(1) s2 assms(2)] by (auto simp: close_wait_def split: if_splits)
  then show ?thesis by (auto simp: u(2) TcpFreeSocket_def conn_def)
qed

text \<open>C8: in every state the network stack can reach, whatever segments arrive and in whatever order
  calls, segments and timers interleave: no receive buffer holds more than its 4096 bytes, no socket
  is in LISTEN, SYN_RECEIVED or LAST_ACK, a close is pending exactly in the states after our own FIN,
  connections use dynamic ports and free slots are zero.\<close>

theorem tcp_reach_inv: "tcp_reach s \<Longrightarrow> tcp_inv s"
proof (induction s rule: tcp_reach.induct)
  case (init s)
  then show ?case by (simp add: tcp_inv_def TcpInit_def TCP_LOCAL_PORT_START_def)
next
  case (create s n t)
  then show ?case using create_inv [of s] by simp
next
  case (send s irqs n data len r rest t)
  then show ?case
    using send_loop_inv [of "nat n" _ "unat len" 0 irqs s r rest t]
    by (auto simp: TcpSend_def conn_def split: if_splits option.splits)
qed (blast intro: tcp_irq_inv connect_inv recv_inv close_inv)+

section \<open>State transitions\<close>

text \<open>The transitions of a connection on a segment with these flags and acknowledgement, when the next
  sequence number to send is \<open>nxt\<close>.\<close>

inductive tcp_edge :: "u8 \<Rightarrow> u32 \<Rightarrow> u32 \<Rightarrow> tcp_state \<Rightarrow> tcp_state \<Rightarrow> bool" for flags ack nxt where
  opened: "flags AND (TCP_SYN OR TCP_ACK) = TCP_SYN OR TCP_ACK \<Longrightarrow> ack = nxt \<Longrightarrow>
    tcp_edge flags ack nxt TCP_SYN_SENT TCP_ESTABLISHED"
| peer_close: "flags AND TCP_FIN \<noteq> 0 \<Longrightarrow> tcp_edge flags ack nxt TCP_ESTABLISHED TCP_CLOSE_WAIT"
| fin_acked: "flags AND TCP_FIN = 0 \<Longrightarrow> flags AND TCP_ACK \<noteq> 0 \<Longrightarrow> nxt \<le> ack \<Longrightarrow>
    tcp_edge flags ack nxt TCP_FIN_WAIT_1 TCP_FIN_WAIT_2"
| fin_both: "flags AND TCP_FIN \<noteq> 0 \<Longrightarrow> ack = nxt \<or> flags AND TCP_ACK \<noteq> 0 \<and> nxt \<le> ack \<Longrightarrow>
    tcp_edge flags ack nxt TCP_FIN_WAIT_1 TCP_TIME_WAIT"
| fin_crossed: "flags AND TCP_FIN \<noteq> 0 \<Longrightarrow> \<not> (ack = nxt \<or> flags AND TCP_ACK \<noteq> 0 \<and> nxt \<le> ack) \<Longrightarrow>
    tcp_edge flags ack nxt TCP_FIN_WAIT_1 TCP_CLOSING"
| fin_second: "flags AND TCP_FIN \<noteq> 0 \<Longrightarrow> tcp_edge flags ack nxt TCP_FIN_WAIT_2 TCP_TIME_WAIT"

inductive_simps tcp_edge_simps:
  "tcp_edge flags ack nxt TCP_CLOSED st" "tcp_edge flags ack nxt TCP_SYN_SENT st"
  "tcp_edge flags ack nxt TCP_ESTABLISHED st" "tcp_edge flags ack nxt TCP_FIN_WAIT_1 st"
  "tcp_edge flags ack nxt TCP_FIN_WAIT_2 st" "tcp_edge flags ack nxt TCP_CLOSE_WAIT st"
  "tcp_edge flags ack nxt TCP_CLOSING st" "tcp_edge flags ack nxt TCP_TIME_WAIT st"

text \<open>From one state at most one edge is open.\<close>

lemma tcp_edge_fun: "tcp_edge flags ack nxt st st' \<Longrightarrow> tcp_edge flags ack nxt st st'' \<Longrightarrow> st' = st''"
  by (auto elim!: tcp_edge.cases)

definition next_state :: "u8 \<Rightarrow> u32 \<Rightarrow> u32 \<Rightarrow> tcp_state \<Rightarrow> tcp_state \<Rightarrow> bool" where
  "next_state flags ack nxt st st' \<longleftrightarrow> tcp_edge flags ack nxt st st' \<or> st' = st \<and> (\<forall>x. \<not> tcp_edge flags ack nxt st x)"

lemma process_ack_frame [simp]:
  "sk_state (process_ack flags ack k) = sk_state k" "snd_nxt (process_ack flags ack k) = snd_nxt k"
  "recv_buf (process_ack flags ack k) = recv_buf k" "recv_len (process_ack flags ack k) = recv_len k"
  "rcv_nxt (process_ack flags ack k) = rcv_nxt k"
  by (simp_all add: process_ack_def)

lemma seg_socket_next_state:
  assumes "live k"
  shows "next_state flags ack (snd_nxt k) (sk_state k) (sk_state (seg_socket seq ack flags window p n k))"
proof -
  define k1 where "k1 = k\<lparr>remote_window := window\<rparr>"
  define k2 where "k2 = process_ack flags ack (accept_data seq p n k1)"
  have k1: "sk_state k1 = sk_state k" "snd_nxt k1 = snd_nxt k" by (simp_all add: k1_def)
  have k2: "sk_state k2 = sk_state k" "snd_nxt k2 = snd_nxt k" by (simp_all add: k2_def k1)
  have live: "live (fin_socket flags ack k2)" using assms by (simp add: k2_def k1_def live_stages)
  then have rest: "pending_socket (fin_socket flags ack k2) = fin_socket flags ack k2"
    "last_ack_state flags ack (fin_socket flags ack k2) = fin_socket flags ack k2"
    by (auto simp: live_def sock_ok_def pending_socket_def last_ack_state_def closing_states_def)
  have data: "data_socket seq ack flags p n k1 = closing_state flags ack (fin_socket flags ack k2)"
    by (simp add: data_socket_def k2_def [symmetric] rest)
  have "sk_state k \<notin> {TCP_LISTEN, TCP_SYN_RECEIVED, TCP_LAST_ACK}" using assms by (simp add: live_def sock_ok_def)
  then show ?thesis
    by (cases "sk_state k")
      (auto simp: seg_socket_def Let_def k1_def [symmetric] k1 data k2 closing_state_def fin_wait_state_def
        fin_socket_def fin_state_def next_state_def tcp_edge_simps)
qed

lemma seg_socket_buffer:
  assumes "live k" "4096 \<le> j"
  shows "recv_buf (seg_socket seq ack flags window p n k) j = recv_buf k j"
proof -
  have st: "recv_buf (fin_socket flags ack k) = recv_buf k" "recv_buf (pending_socket k) = recv_buf k"
    "recv_buf (last_ack_state flags ack k) = recv_buf k" "recv_buf (closing_state flags ack k) = recv_buf k"
    "recv_buf (fin_wait_state flags ack k) = recv_buf k" for k
    by (simp_all add: fin_socket_def fin_state_def pending_socket_def last_ack_state_def closing_state_def fin_wait_state_def)
  have "recv_buf (accept_data seq p n (k\<lparr>remote_window := window\<rparr>)) j = recv_buf (k\<lparr>remote_window := window\<rparr>) j"
    by (rule accept_data_ok(2)) (use assms in \<open>simp_all add: live_def sock_ok_def\<close>)
  then show ?thesis by (simp add: seg_socket_def Let_def data_socket_def st)
qed

text \<open>C10: an incoming segment changes at most the one connection it is addressed to (ports and remote
  address match), moves it along exactly the transition its flags and acknowledgement call for
  (ESTABLISHED only after a SYN and an acknowledgement of our SYN), and writes no byte outside its
  receive buffer.\<close>

theorem TcpHandlePacket_transitions:
  fixes src dst :: u32 and d :: buf and len :: u16
  assumes inv: "tcp_inv s"
  defines "s' \<equiv> TcpHandlePacket src dst d len s"
  shows "s' = s \<or> (\<exists>i<8. (\<forall>j. j \<noteq> i \<longrightarrow> sock j s' = sock j s) \<and>
     used (sock i s) \<and> remote_ip (sock i s) = src \<and> remote_port (sock i s) = swap16 (le16 d 0) \<and>
     local_port (sock i s) = swap16 (le16 d 2) \<and>
     next_state (d 13) (NetSwap32 (le32 d 8)) (snd_nxt (sock i s)) (sk_state (sock i s)) (sk_state (sock i s')) \<and>
     (\<forall>j\<ge>4096. recv_buf (sock i s') j = recv_buf (sock i s) j))"
proof (cases "len < 20 \<or> TcpFindSocket (swap16 (le16 d 2)) src (swap16 (le16 d 0)) (g_tcp_sockets s) = None")
  case True
  then show ?thesis by (auto simp: s'_def TcpHandlePacket_def Let_def)
next
  case False
  then obtain i where len: "20 \<le> len"
    and i: "TcpFindSocket (swap16 (le16 d 2)) src (swap16 (le16 d 0)) (g_tcp_sockets s) = Some i" by auto
  have u: "i < 8" "used (sock i s)" using TcpFindSocket_Some [OF i] by simp_all
  then have live: "live (sock i s)" using inv by (simp add: live_def tcp_inv_sock)
  then have "sk_state (sock i s) \<noteq> TCP_LISTEN" by (auto simp: live_def sock_ok_def)
  then have addr: "remote_ip (sock i s) = src" "remote_port (sock i s) = swap16 (le16 d 0)"
    "local_port (sock i s) = swap16 (le16 d 2)"
    using i by (auto simp: TcpFindSocket_def find_upt_Some_iff Let_def)
  note n = TcpHandlePacket_found [OF len i, of dst, folded s'_def]
  show ?thesis
    by (intro disjI2 exI [of _ i])
      (simp add: n u addr seg_socket_next_state [OF live] seg_socket_buffer [OF live])
qed

section \<open>The byte stream\<close>

text \<open>
  \<open>str q\<close> is the byte the peer sends at sequence number \<open>q\<close>.  The socket has handed out \<open>m\<close> bytes
  counted from sequence number \<open>base\<close>, holds the next ones, and has counted \<open>f\<close> FINs behind them.
\<close>

definition stream_at :: "(u32 \<Rightarrow> u8) \<Rightarrow> u32 \<Rightarrow> nat \<Rightarrow> nat \<Rightarrow> tcp_socket \<Rightarrow> bool" where
  "stream_at str base f m k \<longleftrightarrow> rcv_nxt k = base + of_nat (m + unat (recv_len k) + f) \<and>
    (\<forall>j<unat (recv_len k). recv_buf k j = str (base + of_nat (m + j)))"

definition carries :: "(u32 \<Rightarrow> u8) \<Rightarrow> u32 \<Rightarrow> buf \<Rightarrow> u16 \<Rightarrow> bool" where
  "carries str seq payload n \<longleftrightarrow> (\<forall>j<unat n. payload j = str (seq + of_nat j))"

lemma of_nat_unat_u16 [simp]: "of_nat (unat (m :: u16)) = (ucast m :: u32)"
  by (simp add: of_nat_unat)

lemma stream_at_accept:
  assumes k: "stream_at str base 0 m k" "recv_len k \<le> 4096" and p: "carries str seq payload n"
  shows "stream_at str base 0 m (accept_data seq payload n k)"
proof (cases "n > 0 \<and> seq = rcv_nxt k")
  case False
  then have "accept_data seq payload n k = k" unfolding accept_data_def by (simp only: if_False)
  then show ?thesis using k(1) by simp
next
  case True
  define c where "c = (if ucast n > TCP_BUF_SIZE - recv_len k then ucast (TCP_BUF_SIZE - recv_len k) else n)"
  have l: "unat (recv_len k) \<le> 4096" using k(2) by (simp add: word_le_nat_alt)
  have sp: "unat (TCP_BUF_SIZE - recv_len k) = 4096 - unat (recv_len k)"
    using k(2) by (simp add: TCP_BUF_SIZE_def unat_sub)
  have c: "unat c \<le> unat n"
    by (auto simp: c_def word_less_nat_alt unsigned_ucast_eq sp take_bit_nat_eq_self)
  have "unat c < 65536" by (rule u16_less)
  then have len: "unat (recv_len k + ucast c) = unat (recv_len k) + unat c"
    using l by (simp add: unat_word_ariths)
  have seq: "seq = base + of_nat (m + unat (recv_len k))" using True k(1) by (simp add: stream_at_def)
  have byte: "recv_buf (k\<lparr>recv_buf := buf_copy (recv_buf k) (unat (recv_len k)) payload 0 (unat c)\<rparr>) j =
      str (base + of_nat (m + j))" if j: "j < unat (recv_len k) + unat c" for j
  proof (cases "j < unat (recv_len k)")
    case True
    then show ?thesis using k(1) by (simp add: stream_at_def buf_copy_def)
  next
    case False
    then obtain d where d: "j = unat (recv_len k) + d" using le_Suc_ex not_less by blast
    then have "d < unat n" using j c by simp
    then have "payload d = str (seq + of_nat d)" using p by (simp add: carries_def)
    then show ?thesis using d j by (simp add: buf_copy_def seq add.assoc)
  qed
  show ?thesis
  proof (cases "c > 0")
    case False
    then show ?thesis using k(1) True by (simp add: accept_data_def Let_def c_def [symmetric])
  next
    case pos: True
    then have "accept_data seq payload n k = k\<lparr>recv_buf := buf_copy (recv_buf k) (unat (recv_len k)) payload 0 (unat c),
        recv_len := recv_len k + ucast c, rcv_nxt := rcv_nxt k + ucast c\<rparr>"
      using True by (simp add: accept_data_def Let_def c_def [symmetric])
    then show ?thesis using k(1) byte by (simp add: stream_at_def len add.assoc)
  qed
qed

lemma accept_data_count:
  assumes "recv_len k \<le> 4096"
  shows "unat (recv_len (accept_data seq p n k)) =
    unat (recv_len k) + (if 0 < n \<and> seq = rcv_nxt k then min (unat n) (4096 - unat (recv_len k)) else 0)"
proof (cases "0 < n \<and> seq = rcv_nxt k")
  case False
  then have "accept_data seq p n k = k" unfolding accept_data_def by (simp only: if_False)
  then show ?thesis using False by (simp only: if_False add_0_right)
next
  case True
  define c where "c = (if ucast n > TCP_BUF_SIZE - recv_len k then ucast (TCP_BUF_SIZE - recv_len k) else n)"
  have l: "unat (recv_len k) \<le> 4096" using assms by (simp add: word_le_nat_alt)
  have sp: "unat (TCP_BUF_SIZE - recv_len k) = 4096 - unat (recv_len k)"
    using assms by (simp add: TCP_BUF_SIZE_def unat_sub)
  have c: "unat c = min (unat n) (4096 - unat (recv_len k))"
    by (auto simp: c_def word_less_nat_alt unsigned_ucast_eq sp take_bit_nat_eq_self min_def)
  have "unat (recv_len k + ucast c) = unat (recv_len k) + unat c"
    using l c by (simp add: unat_word_ariths)
  moreover have "recv_len (accept_data seq p n k) = (if c > 0 then recv_len k + ucast c else recv_len k)"
    using True by (simp add: accept_data_def Let_def c_def [symmetric])
  ultimately show ?thesis using True c by (auto simp: word_gt_0)
qed

text \<open>Reading hands out the next bytes.\<close>

lemma stream_at_take:
  fixes out :: buf and mx :: u16
  assumes k: "stream_at str base f m k" "recv_len k \<le> 4096"
  defines "r \<equiv> recv_take mx out k"
  shows "stream_at str base f (m + nat (fst (fst r))) (snd r)"
    "buf_list (snd (fst r)) 0 (nat (fst (fst r))) = map (\<lambda>j. str (base + of_nat j)) [m..<m + nat (fst (fst r))]"
proof -
  define c where "c = (if ucast mx > recv_len k then ucast (recv_len k) else mx)"
  have l: "unat (recv_len k) \<le> 4096" using k(2) by (simp add: word_le_nat_alt)
  have cl: "unat c \<le> unat (recv_len k)"
    using l by (auto simp: c_def word_less_nat_alt unsigned_ucast_eq take_bit_nat_eq_self)
  then have sub: "unat (recv_len k - ucast c) = unat (recv_len k) - unat c"
    by (simp add: unat_sub word_le_nat_alt)
  have n: "nat (fst (fst r)) = unat c" by (simp add: r_def recv_take_def Let_def c_def)
  have "rcv_nxt (snd r) = base + of_nat (m + unat c + unat (recv_len (snd r)) + f)"
    using k(1) sub cl by (simp add: r_def recv_take_def Let_def c_def [symmetric] stream_at_def)
  moreover have "recv_buf (snd r) j = str (base + of_nat (m + unat c + j))" if "j < unat (recv_len (snd r))" for j
  proof -
    have j: "j + unat c < unat (recv_len k)"
      using that sub cl by (simp add: r_def recv_take_def Let_def c_def [symmetric])
    have "ucast c < recv_len k" using j by (simp add: word_less_nat_alt)
    then have "recv_buf (snd r) j = recv_buf k (unat c + j)"
      using j sub less_diff_conv [of j "unat (recv_len k)" "unat c"]
      by (simp add: r_def recv_take_def Let_def c_def [symmetric] buf_copy_def)
    then show ?thesis using k(1) j by (simp add: stream_at_def ac_simps)
  qed
  ultimately show "stream_at str base f (m + nat (fst (fst r))) (snd r)" by (simp add: stream_at_def n)
  show "buf_list (snd (fst r)) 0 (nat (fst (fst r))) = map (\<lambda>j. str (base + of_nat j)) [m..<m + nat (fst (fst r))]"
    using k(1) cl unfolding n
    by (intro nth_equalityI) (simp_all add: r_def recv_take_def Let_def c_def [symmetric] buf_copy_def stream_at_def)
qed

lemma recv_take_count:
  assumes "recv_len k \<le> 4096"
  shows "nat (fst (fst (recv_take mx out k))) = min (unat mx) (unat (recv_len k))"
    "unat (recv_len (snd (recv_take mx out k))) = unat (recv_len k) - min (unat mx) (unat (recv_len k))"
proof -
  define c where "c = (if ucast mx > recv_len k then ucast (recv_len k) else mx)"
  have l: "unat (recv_len k) \<le> 4096" using assms by (simp add: word_le_nat_alt)
  have c: "unat c = min (unat mx) (unat (recv_len k))"
    using l by (auto simp: c_def word_less_nat_alt unsigned_ucast_eq take_bit_nat_eq_self min_def)
  then show "nat (fst (fst (recv_take mx out k))) = min (unat mx) (unat (recv_len k))"
    by (simp add: recv_take_def Let_def c_def)
  have "unat (recv_len k - ucast c) = unat (recv_len k) - unat c" using c by (simp add: unat_sub word_le_nat_alt)
  then show "unat (recv_len (snd (recv_take mx out k))) = unat (recv_len k) - min (unat mx) (unat (recv_len k))"
    using c by (simp add: recv_take_def Let_def c_def [symmetric])
qed

text \<open>A run of one socket: segments that arrive for it and reads that do not wait.\<close>

datatype tcp_event = Segment u32 u32 u8 u16 buf u16 | Read u16

fun run_socket :: "nat \<Rightarrow> tcp_event list \<Rightarrow> 'a net_scheme \<Rightarrow> u8 list \<times> 'a net_scheme" where
  "run_socket i [] s = ([], s)"
| "run_socket i (Segment seq ack flags window payload n # es) s =
    run_socket i es (tcp_segment i seq ack flags window payload n s)"
| "run_socket i (Read mx # es) s =
    (case TcpRecv (int i) (\<lambda>_. 0) mx 0 [] s of
       None \<Rightarrow> ([], s)
     | Some ((n, out), _, s) \<Rightarrow> let (rest, t) = run_socket i es s in (buf_list out 0 (nat n) @ rest, t))"

text \<open>
  The receiver that the peer may count on: \<open>r\<close> bytes of the stream received, \<open>d\<close> of them delivered, a buffer of 4096 bytes
  between the two. A segment counts when it begins with the next byte; what does not fit is cut off.
\<close>

fun take_in :: "u32 \<Rightarrow> tcp_event \<Rightarrow> nat \<times> nat \<Rightarrow> nat \<times> nat" where
  "take_in base (Segment seq ack flags window payload n) (r, d) =
    (if 0 < n \<and> seq = base + of_nat r then (r + min (unat n) (4096 - (r - d)), d) else (r, d))"
| "take_in base (Read mx) (r, d) = (r, d + min (unat mx) (r - d))"

definition delivered :: "u32 \<Rightarrow> tcp_event list \<Rightarrow> nat" where
  "delivered base es = snd (fold (take_in base) es (0, 0))"

text \<open>
  What the peer sends: every segment carries the bytes of the stream at the sequence numbers it claims; and no FIN overtakes data,
  so after a FIN a segment with data only repeats some of the last \<open>2 ^ 31\<close> bytes received.
\<close>

fun peer_run :: "(u32 \<Rightarrow> u8) \<Rightarrow> u32 \<Rightarrow> bool \<Rightarrow> nat \<times> nat \<Rightarrow> tcp_event list \<Rightarrow> bool" where
  "peer_run str base fin rd [] \<longleftrightarrow> True"
| "peer_run str base fin rd (Segment seq ack flags window payload n # es) \<longleftrightarrow> carries str seq payload n \<and>
    (fin \<and> 0 < n \<longrightarrow> 1 \<le> base + of_nat (fst rd) - seq \<and> base + of_nat (fst rd) - seq \<le> 0x80000000) \<and>
    peer_run str base (fin \<or> flags AND TCP_FIN \<noteq> 0) (take_in base (Segment seq ack flags window payload n) rd) es"
| "peer_run str base fin rd (Read mx # es) \<longleftrightarrow> peer_run str base fin (take_in base (Read mx) rd) es"

definition receiving :: "tcp_state set" where
  "receiving = {TCP_ESTABLISHED, TCP_FIN_WAIT_1, TCP_FIN_WAIT_2}"

text \<open>The socket after at most \<open>m\<close> segments, with the receiver at \<open>(r, d)\<close>.\<close>

definition follows :: "(u32 \<Rightarrow> u8) \<Rightarrow> u32 \<Rightarrow> bool \<Rightarrow> nat \<Rightarrow> nat \<times> nat \<Rightarrow> tcp_socket \<Rightarrow> bool" where
  "follows str base fin m rd k \<longleftrightarrow> live k \<and> snd rd \<le> fst rd \<and> unat (recv_len k) = fst rd - snd rd \<and>
    (\<exists>f\<le>m. stream_at str base f (snd rd) k \<and> (f = 0 \<longleftrightarrow> \<not> fin)) \<and>
    (if fin then sk_state k \<noteq> TCP_SYN_SENT else sk_state k \<in> receiving)"

lemma stream_at_stages:
  "stream_at str base f m (process_ack flags ack k) = stream_at str base f m k"
  "stream_at str base f m (fin_wait_state flags ack k) = stream_at str base f m k"
  "stream_at str base f m (closing_state flags ack k) = stream_at str base f m k"
  "stream_at str base f m (last_ack_state flags ack k) = stream_at str base f m k"
  "stream_at str base f m (pending_socket k) = stream_at str base f m k"
  "stream_at str base f m (k\<lparr>remote_window := window\<rparr>) = stream_at str base f m k"
  by (simp_all add: stream_at_def process_ack_def fin_wait_state_def closing_state_def last_ack_state_def pending_socket_def)

lemma stream_at_fin:
  "stream_at str base f m k \<Longrightarrow> stream_at str base (if flags AND TCP_FIN \<noteq> 0 then Suc f else f) m (fin_socket flags ack k)"
  by (simp add: stream_at_def fin_socket_def fin_state_def add.assoc add.commute)

lemma recv_len_stages:
  "recv_len (process_ack flags ack k) = recv_len k" "recv_len (fin_wait_state flags ack k) = recv_len k"
  "recv_len (closing_state flags ack k) = recv_len k" "recv_len (last_ack_state flags ack k) = recv_len k"
  "recv_len (pending_socket k) = recv_len k" "recv_len (fin_socket flags ack k) = recv_len k"
  by (simp_all add: process_ack_def fin_wait_state_def closing_state_def last_ack_state_def pending_socket_def fin_socket_def fin_state_def)

lemma seg_socket_accepts:
  assumes "sk_state k \<in> {TCP_ESTABLISHED, TCP_FIN_WAIT_1, TCP_FIN_WAIT_2, TCP_CLOSE_WAIT}"
    and "stream_at str base f m (accept_data seq p n (k\<lparr>remote_window := window\<rparr>))"
  shows "stream_at str base (if flags AND TCP_FIN \<noteq> 0 then Suc f else f) m (seg_socket seq ack flags window p n k) \<and>
    recv_len (seg_socket seq ack flags window p n k) = recv_len (accept_data seq p n (k\<lparr>remote_window := window\<rparr>))"
proof -
  have "seg_socket seq ack flags window p n k = fin_wait_state flags ack (data_socket seq ack flags p n (k\<lparr>remote_window := window\<rparr>))"
    using assms(1) by (auto simp: seg_socket_def Let_def)
  then show ?thesis using assms(2) stream_at_fin [of str base f m _ flags]
    by (simp only: data_socket_def stream_at_stages recv_len_stages)
qed

lemma follows_segment:
  assumes k: "follows str base fin m rd k" and m: "m < 0x80000000" and p: "carries str seq p n"
    and rep: "fin \<and> 0 < n \<longrightarrow> 1 \<le> base + of_nat (fst rd) - seq \<and> base + of_nat (fst rd) - seq \<le> 0x80000000"
  shows "follows str base (fin \<or> flags AND TCP_FIN \<noteq> 0) (Suc m) (take_in base (Segment seq ack flags window p n) rd)
    (seg_socket seq ack flags window p n k)"
proof -
  let ?k1 = "k\<lparr>remote_window := window\<rparr>" and ?k' = "seg_socket seq ack flags window p n k"
  obtain r d where rd: "rd = (r, d)" by fastforce
  obtain f where live: "live k" and len: "d \<le> r" "unat (recv_len k) = r - d" and f: "f \<le> m" "stream_at str base f d k" "f = 0 \<longleftrightarrow> \<not> fin"
    and st: "if fin then sk_state k \<noteq> TCP_SYN_SENT else sk_state k \<in> receiving"
    using k by (auto simp: follows_def rd)
  have le: "recv_len ?k1 \<le> 4096" using live by (simp add: live_def sock_ok_def)
  have nxt: "rcv_nxt k = base + of_nat r + of_nat f"
    using f(2) len by (simp add: stream_at_def add.assoc flip: of_nat_add)
  have live': "live ?k'" by (rule seg_socket_live [OF live])
  have step: "next_state flags ack (snd_nxt k) (sk_state k) (sk_state ?k')" by (rule seg_socket_next_state [OF live])
  show ?thesis
  proof (cases fin)
    case False
    have 0: "f = 0" using f(3) False by simp
    have "stream_at str base 0 d ?k1" using f(2) by (simp add: 0 stream_at_stages)
    from stream_at_accept [OF this le p] have acc: "stream_at str base 0 d (accept_data seq p n ?k1)" .
    have st: "sk_state k \<in> receiving" using st False by simp
    then have "sk_state k \<in> {TCP_ESTABLISHED, TCP_FIN_WAIT_1, TCP_FIN_WAIT_2, TCP_CLOSE_WAIT}" by (auto simp: receiving_def)
    note s = seg_socket_accepts [OF this acc, of flags ack]
    have st': "if flags AND TCP_FIN \<noteq> 0 then sk_state ?k' \<noteq> TCP_SYN_SENT else sk_state ?k' \<in> receiving"
      using st step by (auto simp: receiving_def next_state_def tcp_edge_simps)
    have "unat (recv_len ?k') = fst (take_in base (Segment seq ack flags window p n) rd) - d"
      using s accept_data_count [OF le, of seq p n] nxt len by (simp add: rd 0)
    then show ?thesis using s live' st' len(1) False
      by (auto simp: follows_def rd intro!: exI [of _ "if flags AND TCP_FIN \<noteq> 0 then Suc 0 else 0"])
  next
    case True
    have f1: "1 \<le> f" using f(3) True by simp
    have fm: "unat (of_nat f :: u32) = f" using f(1) m by (simp add: unat_of_nat take_bit_nat_eq_self)
    have no: "seq \<noteq> rcv_nxt k \<and> seq \<noteq> base + of_nat r" if "0 < n"
    proof -
      have b: "1 \<le> base + of_nat r - seq" "base + of_nat r - seq \<le> 0x80000000" using rep that True by (simp_all add: rd)
      define x where "x = base + of_nat r - seq"
      have "unat (x + of_nat f) = unat x + f"
        using b f(1) m fm by (simp add: x_def [symmetric] unat_word_ariths word_le_nat_alt)
      then have "x + of_nat f \<noteq> 0" using f1 by (metis add_is_0 not_one_le_zero unat_0)
      then have "seq \<noteq> rcv_nxt k" by (auto simp: x_def nxt)
      then show ?thesis using b(1) by auto
    qed
    have acc: "accept_data seq p n ?k1 = ?k1" unfolding accept_data_def using no by auto
    have same: "take_in base (Segment seq ack flags window p n) rd = rd" using no by (auto simp: rd)
    have s: "\<exists>f'. 1 \<le> f' \<and> f' \<le> Suc m \<and> stream_at str base f' d ?k' \<and> recv_len ?k' = recv_len k"
    proof (cases "sk_state k \<in> {TCP_ESTABLISHED, TCP_FIN_WAIT_1, TCP_FIN_WAIT_2, TCP_CLOSE_WAIT}")
      case True
      have "stream_at str base f d (accept_data seq p n ?k1)" using f(2) by (simp add: acc stream_at_stages)
      from seg_socket_accepts [OF True this, of flags ack] show ?thesis using f(1) f1 unfolding acc
        by (intro exI [of _ "if flags AND TCP_FIN \<noteq> 0 then Suc f else f"]) simp
    next
      case False
      then have "?k' = fin_wait_state flags ack ?k1" using st True by (auto simp: seg_socket_def Let_def)
      then show ?thesis using f(1,2) f1 by (intro exI [of _ f]) (simp add: stream_at_stages recv_len_stages)
    qed
    have "sk_state ?k' \<noteq> TCP_SYN_SENT" using step st True by (auto simp: next_state_def elim: tcp_edge.cases)
    then have "follows str base fin (Suc m) rd ?k'" using s live' len True by (auto simp: follows_def rd)
    then show ?thesis using True unfolding same by simp
  qed
qed

lemma TcpRecv_now:
  assumes "i < 8" "live (sock i s)"
  shows "\<exists>n out s'. TcpRecv (int i) (\<lambda>_. 0) mx 0 [] s = Some ((n, out), [], s') \<and>
    (if recv_len (sock i s) > 0
     then (n, out) = fst (recv_take mx (\<lambda>_. 0) (sock i s)) \<and> sock i s' = snd (recv_take mx (\<lambda>_. 0) (sock i s))
     else n = 0 \<and> s' = s)"
  using assms by (auto simp: TcpRecv_def in_range_def TCP_SOCKET_COUNT_def live_def do_recv_def split: prod.splits)

lemma follows_read:
  assumes k: "follows str base fin m (r, d) (sock i s)" and i: "i < 8"
    and r: "TcpRecv (int i) (\<lambda>_. 0) mx 0 [] s = Some ((n, out), irqs, s')"
  shows "follows str base fin m (take_in base (Read mx) (r, d)) (sock i s') \<and>
    buf_list out 0 (nat n) = map (\<lambda>j. str (base + of_nat j)) [d..<snd (take_in base (Read mx) (r, d))]"
proof -
  have live: "live (sock i s)" and len: "d \<le> r" "unat (recv_len (sock i s)) = r - d" using k by (auto simp: follows_def)
  have le: "recv_len (sock i s) \<le> 4096" using live by (simp add: live_def sock_ok_def)
  have now: "if recv_len (sock i s) > 0
      then (n, out) = fst (recv_take mx (\<lambda>_. 0) (sock i s)) \<and> sock i s' = snd (recv_take mx (\<lambda>_. 0) (sock i s))
      else n = 0 \<and> s' = s"
    using TcpRecv_now [OF i live, of mx] r by auto
  show ?thesis
  proof (cases "recv_len (sock i s) > 0")
    case True
    then have e: "fst (recv_take mx (\<lambda>_. 0) (sock i s)) = (n, out)" "snd (recv_take mx (\<lambda>_. 0) (sock i s)) = sock i s'"
      using now by auto
    note count = recv_take_count [OF le, of mx "\<lambda>_. 0", unfolded e fst_conv]
    note at = stream_at_take [OF _ le, of str base _ d mx "\<lambda>_. 0", unfolded e fst_conv snd_conv]
    have ok: "sock_ok (sock i s')" using recv_take_ok [of "sock i s" mx "\<lambda>_. 0"] True live e by (simp add: live_def)
    have same: "used (sock i s') = used (sock i s)" "sk_state (sock i s') = sk_state (sock i s)"
      unfolding e(2) [symmetric] by (simp_all add: recv_take_def Let_def)
    show ?thesis using k at ok count len by (auto simp: follows_def live_def same)
  next
    case False
    then have "r = d" using len by (simp add: word_gt_0)
    then show ?thesis using k now False by (simp add: buf_list_def)
  qed
qed

lemma take_in_mono: "snd rd \<le> snd (fold (take_in base) es rd)"
proof (induction es arbitrary: rd)
  case (Cons e es)
  have "snd rd \<le> snd (take_in base e rd)" by (cases rd; cases e) auto
  also have "\<dots> \<le> snd (fold (take_in base) es (take_in base e rd))" by (rule Cons.IH)
  finally show ?case by simp
qed simp

lemma run_socket_stream:
  assumes "i < 8" "follows str base fin m rd (sock i s)" "peer_run str base fin rd es" "m + length es \<le> 0x80000000"
  shows "fst (run_socket i es s) = map (\<lambda>j. str (base + of_nat j)) [snd rd..<snd (fold (take_in base) es rd)]"
  using assms(2-4)
proof (induction es arbitrary: s m fin rd)
  case (Cons e es)
  show ?case
  proof (cases e)
    case (Segment seq ack flags window p n)
    have "snd (take_in base e rd) = snd rd" by (cases rd) (simp add: Segment)
    moreover have "follows str base (fin \<or> flags AND TCP_FIN \<noteq> 0) (Suc m) (take_in base e rd) (sock i (tcp_segment i seq ack flags window p n s))"
      using follows_segment [OF Cons.prems(1)] Cons.prems(2,3) by (simp add: Segment tcp_segment_socket)
    ultimately show ?thesis using Cons.IH [of _ "Suc m"] Cons.prems by (simp add: Segment)
  next
    case (Read mx)
    obtain r d where rd: "rd = (r, d)" by fastforce
    have "live (sock i s)" using Cons.prems(1) by (simp add: follows_def)
    then obtain n out s' where r: "TcpRecv (int i) (\<lambda>_. 0) mx 0 [] s = Some ((n, out), [], s')"
      using TcpRecv_now [OF assms(1), of s mx] by blast
    note step = follows_read [OF Cons.prems(1) [unfolded rd] assms(1) r]
    let ?rd' = "take_in base (Read mx) (r, d)"
    have "fst (run_socket i es s') = map (\<lambda>j. str (base + of_nat j)) [snd ?rd'..<snd (fold (take_in base) es ?rd')]"
      by (rule Cons.IH [of fin m]) (use step Cons.prems(2,3) in \<open>simp_all add: Read rd\<close>)
    moreover have "d \<le> snd ?rd'" "snd ?rd' \<le> snd (fold (take_in base) es ?rd')" by (simp, rule take_in_mono)
    then have "[d..<snd ?rd'] @ [snd ?rd'..<snd (fold (take_in base) es ?rd')] = [d..<snd (fold (take_in base) es ?rd')]"
      by (metis le_Suc_ex upt_add_eq_append)
    ultimately show ?thesis using step r by (simp add: Read rd case_prod_unfold Let_def flip: map_append)
  qed
qed simp

text \<open>Reading after every chunk, nothing is lost.\<close>

fun chunks :: "(u32 \<Rightarrow> u8) \<Rightarrow> u32 \<Rightarrow> u16 list \<Rightarrow> tcp_event list" where
  "chunks str seq [] = []"
| "chunks str seq (n # ns) = Segment seq 0 TCP_ACK 4096 (\<lambda>j. str (seq + of_nat j)) n # Read n # chunks str (seq + ucast n) ns"

lemma chunks_delivered:
  "\<forall>n\<in>set ns. n \<le> 4096 \<Longrightarrow> delivered base (chunks str base ns) = sum_list (map unat ns)"
proof -
  have "\<forall>n\<in>set ns. n \<le> 4096 \<Longrightarrow> fold (take_in base) (chunks str (base + of_nat r) ns) (r, r) = (r + sum_list (map unat ns), r + sum_list (map unat ns))" for r
  proof (induction ns arbitrary: r)
    case (Cons n ns)
    have n: "n = 0 \<or> 0 < n" "unat n \<le> 4096" using Cons.prems by (auto simp: word_le_nat_alt word_gt_0)
    then have "fold (take_in base) (chunks str (base + of_nat r) (n # ns)) (r, r) =
        fold (take_in base) (chunks str (base + of_nat (r + unat n)) ns) (r + unat n, r + unat n)"
      by (auto simp: add.assoc)
    also have "\<dots> = (r + unat n + sum_list (map unat ns), r + unat n + sum_list (map unat ns))"
      by (rule Cons.IH) (use Cons.prems in simp)
    finally show ?case by (simp only: list.map sum_list.Cons add.assoc)
  qed simp
  from this [of 0] show "\<forall>n\<in>set ns. n \<le> 4096 \<Longrightarrow> delivered base (chunks str base ns) = sum_list (map unat ns)"
    by (simp add: delivered_def)
qed

text \<open>C7: in-order delivery. On a connection that still receives (ESTABLISHED, or closed from this side only), whatever segments
  arrive, in whatever order, repeated, overlapping or lost, as long as each carries the peer's bytes at the sequence numbers it
  claims and no FIN overtakes data, the reads hand out exactly the bytes that a receiver with 4096 bytes of buffer delivers: the
  first \<open>delivered\<close> bytes of the peer's stream from the next expected sequence number on, in order, without gap or
  repetition, before and after the FIN.\<close>

theorem Tcp_in_order_delivery:
  fixes str :: "u32 \<Rightarrow> u8"
  assumes "i < 8" "live (sock i s)" "sk_state (sock i s) \<in> receiving" "recv_len (sock i s) = 0" "length es \<le> 0x80000000"
  defines "base \<equiv> rcv_nxt (sock i s)"
  assumes "peer_run str base False (0, 0) es"
  shows "fst (run_socket i es s) = map (\<lambda>j. str (base + of_nat j)) [0..<delivered base es]"
proof -
  have "follows str base False 0 (0, 0) (sock i s)" using assms(2-4) by (simp add: follows_def stream_at_def base_def)
  from run_socket_stream [OF assms(1) this assms(7)] assms(5) show ?thesis by (simp add: delivered_def)
qed

section \<open>The calls return\<close>

text \<open>Interrupts that let the tick counter advance.\<close>

definition ticking :: "('a net_scheme \<Rightarrow> 'a net_scheme) list \<Rightarrow> bool" where
  "ticking irqs \<longleftrightarrow> (\<forall>f\<in>set irqs. \<forall>s. tick_count (f s) = tick_count s + 1)"

lemma hlt_loop_deadline:
  assumes "ticking irqs" "unat (tick_count s) + length irqs < 2 ^ 64"
    and "unat deadline \<le> unat (tick_count s) + length irqs"
    and body: "\<And>u. deadline \<le> tick_count u \<Longrightarrow> body u \<noteq> None"
  shows "\<exists>r rest t. hlt_loop body irqs s = Some (r, rest, t)"
  using assms(1-3)
proof (induction irqs arbitrary: s)
  case Nil
  then have "body s \<noteq> None" by (intro body) (simp add: word_le_nat_alt)
  then show ?case by (auto simp: hlt_loop.simps [of _ "[]"])
next
  case (Cons f irqs)
  show ?case
  proof (cases "body s")
    case None
    have t: "tick_count (f s) = tick_count s + 1" using Cons.prems(1) by (simp add: ticking_def)
    have "unat (tick_count s + 1) = unat (tick_count s) + 1"
      using Cons.prems(2) by (simp add: unat_word_ariths)
    then have "\<exists>r rest t. hlt_loop body irqs (f s) = Some (r, rest, t)"
      using Cons.prems by (intro Cons.IH) (simp_all add: t ticking_def)
    then show ?thesis using None by (simp add: hlt_loop.simps [of _ "f # irqs"])
  qed (auto simp: hlt_loop.simps [of _ "f # irqs"])
qed

lemma hlt_loop_body: "hlt_loop body irqs s = Some (r, rest, t) \<Longrightarrow> \<exists>u. body u = Some (r, t)"
  using hlt_loop_inv [of body irqs s r rest t "\<lambda>_. True"] by simp

lemma hlt_wait_returns:
  fixes d :: u64
  assumes "ticking irqs" "unat (tick_count u) + length irqs < 2 ^ 64" "unat d \<le> length irqs"
    and "\<And>v. tick_count u + d \<le> tick_count v \<Longrightarrow> body v \<noteq> None"
  obtains r rest t where "hlt_loop body irqs u = Some (r, rest, t)"
proof -
  have "unat (tick_count u + d) \<le> unat (tick_count u) + unat d" by (simp add: unat_word_ariths)
  then show thesis
    using hlt_loop_deadline [OF assms(1,2), of "tick_count u + d" body] assms(3,4) that by fastforce
qed

lemma waits_end:
  "deadline \<le> tick_count v \<Longrightarrow> connect_wait i deadline v \<noteq> None"
  "deadline \<le> tick_count v \<Longrightarrow> close_wait i deadline v \<noteq> None"
  "deadline \<le> tick_count v \<Longrightarrow> recv_wait i mx out deadline v \<noteq> None"
  by (simp_all add: connect_wait_def close_wait_def recv_wait_def leD del: not_None_eq)

lemma in_range_int: "i < 8 \<Longrightarrow> in_range (int i)"
  by (simp add: in_range_def TCP_SOCKET_COUNT_def)

lemma TcpConnect_returns:
  assumes "ticking irqs" "length irqs \<ge> 500" "unat (tick_count s) + length irqs < 2 ^ 64" "i < 8" "used (sock i s)"
  shows "\<exists>st rest t. TcpConnect (int i) ip port irqs s = Some (st, rest, t) \<and>
      (sk_state (sock i s) \<noteq> TCP_CLOSED \<and> st = STATUS_INVALID_PARAMETER \<and> t = s \<or>
       st = STATUS_SUCCESS \<and> sk_state (sock i t) = TCP_ESTABLISHED \<or>
       st = STATUS_UNSUCCESSFUL \<and> sk_state (sock i t) = TCP_CLOSED)"
proof (cases "sk_state (sock i s) = TCP_CLOSED")
  case True
  define s1 where "s1 = send_flags i TCP_SYN (iss (sock i (connect_init i ip port s))) 0 (connect_init i ip port s)"
  have tick: "tick_count s1 = tick_count s" by (simp add: s1_def connect_init_def Let_def)
  obtain st rest t where r: "hlt_loop (connect_wait i (tick_count s1 + 500)) irqs s1 = Some (st, rest, t)"
    by (rule hlt_wait_returns [OF assms(1), of s1 500, OF _ _ waits_end(1)]) (use assms(2,3) tick in simp_all)
  obtain u where "connect_wait i (tick_count s1 + 500) u = Some (st, t)" using hlt_loop_body [OF r] by blast
  then have "st = STATUS_SUCCESS \<and> sk_state (sock i t) = TCP_ESTABLISHED \<or>
     st = STATUS_UNSUCCESSFUL \<and> sk_state (sock i t) = TCP_CLOSED"
    by (auto simp: connect_wait_def split: if_splits)
  moreover have "TcpConnect (int i) ip port irqs s = Some (st, rest, t)"
    using r True assms(5) in_range_int [OF assms(4)] tick by (simp add: TcpConnect_def Let_def s1_def)
  ultimately show ?thesis by blast
qed (use assms(4) in_range_int in \<open>simp add: TcpConnect_def\<close>)

lemma TcpClose_returns:
  assumes "ticking irqs" "length irqs \<ge> 500" "unat (tick_count s) + length irqs < 2 ^ 64" "i < 8" "used (sock i s)"
  shows "\<exists>rest t. TcpClose (int i) irqs s = Some (STATUS_SUCCESS, rest, t) \<and> sock i t = zero_socket"
proof (cases "sk_state (sock i s) = TCP_ESTABLISHED")
  case True
  define s1 where "s1 = upd_sock i (\<lambda>k. k\<lparr>sk_state := TCP_FIN_WAIT_1, pending_close := True\<rparr>) s"
  define s2 where "s2 = upd_sock i (\<lambda>k. k\<lparr>snd_nxt := snd_nxt k + 1\<rparr>)
    (send_flags i (TCP_FIN OR TCP_ACK) (snd_nxt (sock i s1)) (rcv_nxt (sock i s1)) s1)"
  have tick: "tick_count s1 = tick_count s" "tick_count s2 = tick_count s" by (simp_all add: s1_def s2_def)
  obtain r rest t where "hlt_loop (close_wait i (tick_count s2 + 500)) irqs s2 = Some (r, rest, t)"
    by (rule hlt_wait_returns [OF assms(1), of s2 500, OF _ _ waits_end(2)]) (use assms(2,3) tick in simp_all)
  then show ?thesis
    using True assms(5) in_range_int [OF assms(4)] tick
    by (simp add: TcpClose_def Let_def s1_def [symmetric] s2_def [symmetric] TcpFreeSocket_def)
qed (use in_range_int [OF assms(4)] assms(5) in \<open>simp add: TcpClose_def TcpFreeSocket_def\<close>)

lemma TcpRecv_returns:
  assumes "ticking irqs" "unat ms div 10 \<le> length irqs" "unat (tick_count s) + length irqs < 2 ^ 64" "i < 8"
    "used (sock i s)"
  shows "\<exists>r rest t. TcpRecv (int i) out mx ms irqs s = Some (r, rest, t)"
proof -
  have ms: "unat (ucast (ms div 10) :: u64) = unat ms div 10" by (simp add: unat_div)
  obtain r rest t where "hlt_loop (recv_wait i mx out (tick_count s + ucast (ms div 10))) irqs s = Some (r, rest, t)"
    by (rule hlt_wait_returns [OF assms(1), of s "ucast (ms div 10)", OF _ _ waits_end(3)]) (use assms(2,3) ms in simp_all)
  then show ?thesis
    using in_range_int [OF assms(4)] assms(5) by (auto simp: TcpRecv_def Let_def split: prod.splits)
qed

text \<open>The waiting calls return: when ticks keep coming, \<open>TcpConnect\<close> returns within 500 of them,
  with success and an established connection or with failure and the socket closed again;
  \<open>TcpClose\<close> returns within 500 of them and the slot is free; \<open>TcpRecv\<close> returns within its
  timeout.\<close>

theorem tcp_calls_return:
  assumes "ticking irqs" "length irqs \<ge> 500" "unat (tick_count s) + length irqs < 2 ^ 64" "i < 8" "used (sock i s)"
  shows "(\<exists>st rest t. TcpConnect (int i) ip port irqs s = Some (st, rest, t) \<and>
      (sk_state (sock i s) \<noteq> TCP_CLOSED \<and> st = STATUS_INVALID_PARAMETER \<and> t = s \<or>
       st = STATUS_SUCCESS \<and> sk_state (sock i t) = TCP_ESTABLISHED \<or>
       st = STATUS_UNSUCCESSFUL \<and> sk_state (sock i t) = TCP_CLOSED)) \<and>
    (\<exists>rest t. TcpClose (int i) irqs s = Some (STATUS_SUCCESS, rest, t) \<and> sock i t = zero_socket) \<and>
    (unat ms div 10 \<le> length irqs \<longrightarrow> (\<exists>r rest t. TcpRecv (int i) out mx ms irqs s = Some (r, rest, t)))"
  using TcpConnect_returns [OF assms] TcpClose_returns [OF assms] TcpRecv_returns [OF assms(1) _ assms(3-5)] by blast

text \<open>
  A connection that was closed from this side never becomes CLOSED again by itself (the
  transitions end in TIME_WAIT or CLOSING), so the wait in \<open>TcpClose\<close> never ends early: it always
  takes the full 500 ticks.
\<close>

lemma TcpClose_waits_full:
  assumes inv: "tcp_inv s" and irqs: "all_irqs irqs" and i: "i < 8" "used (sock i s)" "sk_state (sock i s) = TCP_ESTABLISHED"
    and r: "TcpClose (int i) irqs s = Some (st, rest, t)"
  shows "tick_count s + 500 \<le> tick_count t"
proof -
  define s1 where "s1 = upd_sock i (\<lambda>k. k\<lparr>sk_state := TCP_FIN_WAIT_1, pending_close := True\<rparr>) s"
  define s2 where "s2 = upd_sock i (\<lambda>k. k\<lparr>snd_nxt := snd_nxt k + 1\<rparr>)
    (send_flags i (TCP_FIN OR TCP_ACK) (snd_nxt (sock i s1)) (rcv_nxt (sock i s1)) s1)"
  have tick: "tick_count s1 = tick_count s" "tick_count s2 = tick_count s" by (simp_all add: s1_def s2_def)
  have "conn i s1"
    using tcp_inv_sock [OF inv, of i] inv i unfolding s1_def by (auto simp: conn_def sock_ok_def closing_states_def)
  then have s2: "conn i s2"
    unfolding s2_def by (intro conn_upd) (simp_all add: live_def sock_ok_def)
  obtain u rest' where u: "hlt_loop (close_wait i (tick_count s + 500)) irqs s2 = Some ((), rest', u)" "t = TcpFreeSocket i u"
    using r i in_range_int [OF i(1)]
    by (auto simp: TcpClose_def Let_def s1_def [symmetric] s2_def [symmetric] tick split: option.splits)
  obtain v where "conn i v" "close_wait i (tick_count s + 500) v = Some ((), u)" using conn_wait [OF u(1) s2 irqs] by blast
  then show ?thesis by (auto simp: close_wait_def conn_def u(2) TcpFreeSocket_def split: if_splits)
qed

section \<open>Small states\<close>

text \<open>No network card; and one established connection in slot 0.\<close>

definition net_small :: net where
  "net_small = TcpInit \<lparr>nic_initialized = False, nic_mac = replicate 6 0, tx_desc = (\<lambda>_. \<lparr>td_length = 0, td_cmd = 0, td_sta = 1\<rparr>),
     tx_buf = (\<lambda>_ _. 0), tx_tail = 31, rx_desc = (\<lambda>_. \<lparr>rd_length = 0, rd_sta = 0\<rparr>), rx_buf = (\<lambda>_ _. 0), rx_tail = 31,
     reg_tdt = 31, reg_rdt = 31, g_eth_initialized = False,
     g_arp_cache = (\<lambda>_. \<lparr>ae_ip = 0, ae_mac = replicate 6 0, ae_timestamp = 0, ae_valid = False\<rparr>), arp_our_ip = 0,
     tick_count = 5, stack_bytes = (\<lambda>_. 0xAA), ip_our_ip = 0, g_gateway = 0, g_netmask = 0, g_ip_id = 1,
     g_udp_buf = (\<lambda>_. 0), g_udp_len = 0, g_udp_port = 0, g_udp_src_ip = 0, g_tcp_sockets = (\<lambda>_. zero_socket),
     g_next_local_port = TCP_LOCAL_PORT_START\<rparr>"

definition net_est :: net where
  "net_est = upd_sock 0 (\<lambda>_. zero_socket\<lparr>used := True, sk_state := TCP_ESTABLISHED, local_port := 49152,
     remote_ip := 7, remote_port := 80, rcv_nxt := 100, remote_window := 4096\<rparr>) net_small"

lemma net_small_simps [simp]:
  "g_tcp_sockets net_small = (\<lambda>_. zero_socket)" "g_next_local_port net_small = 49152" "tick_count net_small = 5"
  by (simp_all add: net_small_def TcpInit_def TCP_LOCAL_PORT_START_def)

lemma net_est_inv: "tcp_inv net_est" "live (sock 0 net_est)" "used (sock 0 net_est)"
  by (auto simp: net_est_def tcp_inv_def live_def sock_ok_def zero_socket_def closing_states_def)

theorem tcp_reach_inv_witness:
  "tcp_inv (snd (TcpSocketCreate (TcpInit net_small)))"
proof -
  have "tcp_reach (TcpInit net_small)" by (rule tcp_reach.init) (simp add: TCP_LOCAL_PORT_START_def)
  then have "tcp_reach (snd (TcpSocketCreate (TcpInit net_small)))" 
    by (rule tcp_reach.create [where n = "fst (TcpSocketCreate (TcpInit net_small))"]) simp
  then show ?thesis by (rule tcp_reach_inv)
qed

theorem TcpHandlePacket_transitions_witness:
  "let d = put16 (put16 ((\<lambda>_. 0)(12 := 0x50, 13 := TCP_FIN)) 0 (swap16 80)) 2 (swap16 49152);
       s' = TcpHandlePacket 7 0 d 20 net_est
   in s' = net_est \<or> (\<exists>i<8. (\<forall>j. j \<noteq> i \<longrightarrow> sock j s' = sock j net_est) \<and>
     next_state (d 13) (NetSwap32 (le32 d 8)) (snd_nxt (sock i net_est)) (sk_state (sock i net_est)) (sk_state (sock i s')))"
  unfolding Let_def
  using TcpHandlePacket_transitions [OF net_est_inv(1), of 7 0 _ 20] by blast

text \<open>Two segments, the first repeated inside the second, a short read, the FIN, a late repetition and two more reads.\<close>

theorem Tcp_in_order_delivery_witness:
  "let str = \<lambda>q. ucast q; p = \<lambda>j. ucast (100 + of_nat j :: u32);
       es = [Segment 100 0 TCP_ACK 4096 p 3, Segment 103 0 TCP_ACK 4096 (\<lambda>j. ucast (103 + of_nat j :: u32)) 2, Read 2,
         Segment 105 0 (TCP_ACK OR TCP_FIN) 4096 p 0, Segment 100 0 TCP_ACK 4096 p 5, Read 9, Read 9]
   in fst (run_socket 0 es net_est) = [100, 101, 102, 103, 104]"
proof -
  let ?p = "\<lambda>j. ucast (100 + of_nat j :: u32) :: u8"
  let ?es = "[Segment 100 0 TCP_ACK 4096 ?p 3, Segment 103 0 TCP_ACK 4096 (\<lambda>j. ucast (103 + of_nat j :: u32)) 2, Read 2,
         Segment 105 0 (TCP_ACK OR TCP_FIN) 4096 ?p 0, Segment 100 0 TCP_ACK 4096 ?p 5, Read 9, Read 9]"
  have base: "rcv_nxt (sock 0 net_est) = 100" by (simp add: net_est_def zero_socket_def)
  have c: "carries ucast 100 ?p n" "carries ucast 105 ?p 0" "carries ucast 103 (\<lambda>j. ucast (103 + of_nat j :: u32)) n" for n
    by (simp_all add: carries_def)
  have "peer_run ucast 100 False (0, 0) ?es"
    by (simp add: c TCP_ACK_def TCP_FIN_def)
  moreover have "sk_state (sock 0 net_est) \<in> receiving" "recv_len (sock 0 net_est) = 0" "live (sock 0 net_est)"
    using net_est_inv(2) by (simp_all add: net_est_def zero_socket_def receiving_def)
  ultimately have "fst (run_socket 0 ?es net_est) = map (\<lambda>j. ucast (100 + of_nat j :: u32)) [0..<delivered 100 ?es]"
    using Tcp_in_order_delivery [of 0 net_est ?es ucast, unfolded base] by simp
  also have "delivered 100 ?es = 5" by (simp add: delivered_def)
  also have "map (\<lambda>j. ucast (100 + of_nat j :: u32)) [0..<5] = [100, 101, 102, 103, 104 :: u8]"
    by (simp add: upt_rec)
  finally show ?thesis by (simp only: Let_def)
qed

text \<open>A FIN that overtakes three bytes of data: they are never delivered, although the peer sends them again.\<close>

lemma fin_overtakes_data:
  "fst (run_socket 0 [Segment 103 0 (TCP_ACK OR TCP_FIN) 4096 p 0, Segment 100 0 TCP_ACK 4096 p 3, Read 9] net_est) = []"
proof -
  let ?s1 = "tcp_segment 0 103 0 (TCP_ACK OR TCP_FIN) 4096 p 0 net_est" let ?s2 = "tcp_segment 0 100 0 TCP_ACK 4096 p 3 ?s1"
  note defs = seg_socket_def Let_def data_socket_def accept_data_def process_ack_def fin_socket_def fin_state_def pending_socket_def
    last_ack_state_def closing_state_def fin_wait_state_def TCP_ACK_def TCP_FIN_def
  let ?k = "zero_socket\<lparr>used := True, sk_state := TCP_ESTABLISHED, local_port := 49152, remote_ip := 7, remote_port := 80, rcv_nxt := 100, remote_window := 4096\<rparr>"
  let ?k1 = "?k\<lparr>rcv_nxt := 101, sk_state := TCP_CLOSE_WAIT\<rparr>"
  have 0: "sock 0 net_est = ?k" by (simp add: net_est_def)
  have "seg_socket 103 0 (TCP_ACK OR TCP_FIN) 4096 p 0 ?k = ?k1" by (simp add: defs zero_socket_def)
  then have 1: "sock 0 ?s1 = ?k1" by (simp only: tcp_segment_socket fun_upd_same 0)
  have "seg_socket 100 0 TCP_ACK 4096 p 3 ?k1 = ?k1" by (simp add: defs zero_socket_def)
  then have k: "sock 0 ?s2 = ?k1" by (subst tcp_segment_socket) (simp only: fun_upd_same 1)
  then have 2: "recv_len (sock 0 ?s2) = 0" "live (sock 0 ?s2)"
    unfolding k by (simp_all add: zero_socket_def live_def sock_ok_def closing_states_def)
  obtain n out s' where "TcpRecv (int 0) (\<lambda>_. 0) 9 0 [] ?s2 = Some ((n, out), [], s')" "n = 0"
    using TcpRecv_now [OF _ 2(2), of 9] 2(1) by auto
  then show ?thesis by (simp add: buf_list_def)
qed

theorem tcp_calls_return_witness:
  "\<exists>rest t. TcpClose (int 0) (replicate 500 (\<lambda>s. s\<lparr>tick_count := tick_count s + 1\<rparr>)) net_est = Some (STATUS_SUCCESS, rest, t) \<and>
     sock 0 t = zero_socket"
proof -
  let ?irqs = "replicate 500 (\<lambda>s :: net. s\<lparr>tick_count := tick_count s + 1\<rparr>)"
  have "ticking ?irqs" "500 \<le> length ?irqs" "unat (tick_count net_est) + length ?irqs < 2 ^ 64" "0 < (8 :: nat)"
    by (simp_all add: ticking_def net_est_def)
  from tcp_calls_return [OF this net_est_inv(3)] show ?thesis by blast
qed

end
