(* ===== verification/Net.thy ===== *)
theory Net
  imports Net_Tcp
begin

text \<open>
  The network stack put together (\<^verbatim>\<open>Kernel/net/net.c\<close>): demultiplexing of IPv4 packets
  (\<open>Ipv4HandlePacket\<close>), initialisation and polling.  Shown: a poll terminates and keeps the socket
  invariant, and a datagram travels end to end: what \<open>UdpSend\<close> of one stack puts on the wire is what
  the receive buffer of another holds after its poll.
\<close>

section \<open>Definitions\<close>

record netstack = net +
  g_net_initialized :: bool

definition Ipv4HandlePacket :: "buf \<Rightarrow> u16 \<Rightarrow> 'a net_scheme \<Rightarrow> 'a net_scheme" where
  "Ipv4HandlePacket pkt len s =
    (case ipv4_accept (ip_our_ip s) pkt len of
       None \<Rightarrow> s
     | Some (proto, src, dst, off, plen) \<Rightarrow>
       if proto = IP_PROTO_TCP then TcpHandlePacket src dst (from_off pkt off) plen s
       else if proto = IP_PROTO_UDP then UdpHandlePacket src (from_off pkt off) plen s
       else s)"

definition NetInit :: "(u32 \<times> u32 \<times> (u8 \<Rightarrow> u16)) option \<Rightarrow> nat \<Rightarrow> u32 \<Rightarrow> u32 \<Rightarrow> u32 \<Rightarrow> 'a netstack_scheme \<Rightarrow> 'a netstack_scheme" where
  "NetInit nic pages our_ip gateway netmask s =
    (let s = EthInit nic pages s in
     if \<not> EthInitialized s then s
     else (TcpInit (Ipv4Init our_ip gateway netmask (ArpInit s)))\<lparr>g_net_initialized := True\<rparr>)"

definition NetInitialized :: "'a netstack_scheme \<Rightarrow> bool" where
  "NetInitialized s = g_net_initialized s"

text \<open>What the loop does with one frame.\<close>

definition handle_frame :: "buf \<Rightarrow> u16 \<Rightarrow> int \<Rightarrow> 'a net_scheme \<Rightarrow> 'a net_scheme" where
  "handle_frame payload type len s =
    (if type = ETH_TYPE_ARP then ArpHandlePacket payload s
     else if type = ETH_TYPE_IPv4 then Ipv4HandlePacket payload (of_int len) s
     else s)"

text \<open>\<open>while ((len = EthReceive(...)) > 0)\<close>; the locals keep their values between rounds.\<close>

partial_function (option) drain_frames :: "buf \<Rightarrow> u16 \<Rightarrow> mac \<Rightarrow> 'a net_scheme \<Rightarrow> 'a net_scheme option" where
  "drain_frames payload type src s =
    (case EthReceive payload 2048 type src s of
       ((len, payload, type, src), s) \<Rightarrow>
         if len > 0 then drain_frames payload type src (handle_frame payload type len s) else Some s)"

definition NetPoll :: "u16 \<Rightarrow> mac \<Rightarrow> 'a netstack_scheme \<Rightarrow> 'a netstack_scheme option" where
  "NetPoll type src s =
    (if \<not> g_net_initialized s then Some s
     else map_option TcpPoll (drain_frames (stack_bytes s) type src s))"

section \<open>What handling leaves alone\<close>

text \<open>The receive ring is changed by \<open>EthReceive\<close> only.\<close>

definition rx_side :: "'a link_scheme \<Rightarrow> bool \<times> bool \<times> (nat \<Rightarrow> rx_desc) \<times> (nat \<Rightarrow> buf) \<times> u16 \<times> buf" where
  "rx_side s = (nic_initialized s, g_eth_initialized s, rx_desc s, rx_buf s, rx_tail s, stack_bytes s)"

lemma rx_side_send [simp]: "rx_side (snd (E1000SendFrame d n s)) = rx_side s"
  "rx_side (snd (EthSend m ty d n s)) = rx_side s"
  by (simp_all add: rx_side_def E1000SendFrame_def EthSend_def Let_def)

lemma rx_side_arp [simp]: "rx_side (ArpUpdateCache ip m s) = rx_side s" "rx_side (ArpSendRequest ip s) = rx_side s"
  "rx_side (snd (ArpResolve ip s)) = rx_side s"
  by (simp_all add: ArpUpdateCache_def ArpSendRequest_def ArpResolve_def Let_def split: option.split)
    (simp add: rx_side_def)

lemma rx_side_ArpHandlePacket [simp]: "rx_side (ArpHandlePacket p s) = rx_side s"
  by (simp add: ArpHandlePacket_def Let_def)

lemma rx_side_Ipv4Send [simp]: "rx_side (snd (Ipv4Send ip proto d n s)) = rx_side s"
proof -
  define s1 where "s1 = s\<lparr>g_ip_id := g_ip_id s + 1\<rparr>"
  define target where "target = (if ip AND g_netmask s1 \<noteq> ip_our_ip s1 AND g_netmask s1 then g_gateway s1 else ip)"
  have "rx_side s1 = rx_side s" by (simp add: s1_def rx_side_def)
  then have r: "rx_side (snd (ArpResolve target s1)) = rx_side s" by simp
  show ?thesis
    using r by (cases "ArpResolve target s1"; cases "fst (ArpResolve target s1)")
      (simp_all add: Ipv4Send_def Let_def s1_def [symmetric] target_def [symmetric])
qed

lemma rx_side_tcp [simp]: "rx_side (upd_sock i f s) = rx_side s" "rx_side (send_flags i fl a b s) = rx_side s"
  "rx_side (snd (TcpSendSegment i fl d n a b s)) = rx_side s"
  by (simp_all add: send_flags_def TcpSendSegment_def) (simp add: upd_sock_def rx_side_def)

lemma rx_side_TcpHandlePacket [simp]: "rx_side (TcpHandlePacket src dst d n s) = rx_side s"
proof -
  have "rx_side (tcp_segment i seq ack flags window p m s) = rx_side s" for i seq ack flags window p m
    by (simp add: tcp_segment_def Let_def synsent_segment_def established_segment_def handle_fin_def handle_pending_def)
  then show ?thesis by (simp add: TcpHandlePacket_def Let_def split: option.split)
qed

lemma rx_side_UdpHandlePacket [simp]: "rx_side (UdpHandlePacket src d n s) = rx_side s"
  by (simp add: UdpHandlePacket_def Let_def) (simp add: rx_side_def)

lemma rx_side_handle_frame [simp]: "rx_side (handle_frame p ty n s) = rx_side s"
  by (simp add: handle_frame_def Ipv4HandlePacket_def split: option.split prod.split)

lemma ArpHandlePacket_tcp [simp]: "tcp_inv (ArpHandlePacket p s) = tcp_inv s"
  by (rule tcp_inv_frame) (simp_all add: ArpHandlePacket_def ArpUpdateCache_def Let_def)

lemma UdpHandlePacket_tcp [simp]: "tcp_inv (UdpHandlePacket src d n s) = tcp_inv s"
  by (rule tcp_inv_frame) (simp_all add: UdpHandlePacket_def Let_def)

lemma handle_frame_inv: "tcp_inv s \<Longrightarrow> tcp_inv (handle_frame p ty n s)"
  by (simp add: handle_frame_def Ipv4HandlePacket_def TcpHandlePacket_inv split: option.split prod.split)

section \<open>Polling terminates\<close>

definition ready :: "'a link_scheme \<Rightarrow> nat set" where
  "ready s = {i. i < 32 \<and> rd_sta (rx_desc s i) AND STAT_DD \<noteq> 0}"

lemma ready_frame: "rx_side s = rx_side t \<Longrightarrow> ready s = ready t"
  by (simp add: ready_def rx_side_def)

lemma EthReceive_ready:
  assumes "EthReceive out mx ty src s = ((len, out', ty', src'), t)"
  shows "g_tcp_sockets t = g_tcp_sockets (s :: 'a net_scheme)" "g_next_local_port t = g_next_local_port s"
    and "0 < len \<Longrightarrow> ready t \<subset> ready s"
proof -
  let ?n = "(rx_tail s + 1) mod E1000_NUM_RX_DESC"
  let ?i = "unat ?n"
  have i: "?i < 32" by (simp add: E1000_NUM_RX_DESC_def unat_mod)
  obtain l g s1 where r: "E1000ReceiveFrame (stack_bytes s) 1518 s = ((l, g), s1)"
    by (metis surj_pair)
  have t: "t = (if g_eth_initialized s then s1 else s)"
    using assms r by (auto simp: EthReceive_def Let_def split: if_splits)
  have s1: "g_tcp_sockets s1 = g_tcp_sockets s" "g_next_local_port s1 = g_next_local_port s"
    using r by (auto simp: E1000ReceiveFrame_def Let_def split: if_splits)
  then show "g_tcp_sockets t = g_tcp_sockets s" "g_next_local_port t = g_next_local_port s" by (simp_all add: t)
  assume "0 < len"
  then have l: "0 < l" "g_eth_initialized s" using assms r by (auto simp: EthReceive_def Let_def split: if_splits)
  then have d: "rd_sta (rx_desc s ?i) AND STAT_DD \<noteq> 0" "rx_desc s1 = (rx_desc s)(?i := (rx_desc s ?i)\<lparr>rd_sta := 0\<rparr>)"
    using r by (auto simp: E1000ReceiveFrame_def Let_def split: if_splits)
  have "?i \<in> ready s" "?i \<notin> ready s1" using d i by (auto simp: ready_def)
  moreover have "ready s1 \<subseteq> ready s" using d by (auto simp: ready_def split: if_splits)
  ultimately show "ready t \<subset> ready s" using l(2) t by auto
qed

lemma drain_frames_returns:
  "tcp_inv s \<Longrightarrow> \<exists>t. drain_frames p ty src s = Some t \<and> tcp_inv t \<and> ready t \<subseteq> ready s"
proof (induction "card (ready s)" arbitrary: p ty src s rule: less_induct)
  case less
  obtain len p' ty' src' s1 where r: "EthReceive p 2048 ty src s = ((len, p', ty', src'), s1)" by (metis surj_pair)
  have s1: "tcp_inv s1" using EthReceive_ready(1,2) [OF r] less.prems tcp_inv_frame by blast
  have fin: "finite (ready s)" by (simp add: ready_def)
  show ?case
  proof (cases "0 < len")
    case True
    let ?s2 = "handle_frame p' ty' len s1"
    have "ready ?s2 = ready s1" by (rule ready_frame) simp
    then have sub: "ready ?s2 \<subset> ready s" using EthReceive_ready(3) [OF r True] by simp
    then have "\<exists>t. drain_frames p' ty' src' ?s2 = Some t \<and> tcp_inv t \<and> ready t \<subseteq> ready ?s2"
      using less.hyps [of ?s2] psubset_card_mono [OF fin] handle_frame_inv [OF s1] by blast
    then show ?thesis
      using sub True r by (subst drain_frames.simps) auto
  next
    case False
    have "ready s1 \<subseteq> ready s"
      using r by (auto simp: EthReceive_def E1000ReceiveFrame_def Let_def ready_def split: if_splits prod.splits)
    then show ?thesis using False r s1 by (subst drain_frames.simps) auto
  qed
qed

text \<open>Polling terminates whatever frames wait in the ring, consumes only slots that held a frame,
  and keeps the invariant of the socket table.\<close>

theorem NetPoll_terminates:
  assumes "tcp_inv s"
  shows "\<exists>t. NetPoll ty src s = Some t \<and> tcp_inv t \<and> ready t \<subseteq> ready s"
proof -
  obtain t where t: "drain_frames (stack_bytes s) ty src s = Some t" "tcp_inv t" "ready t \<subseteq> ready s"
    using drain_frames_returns [OF assms] by blast
  have poll: "rx_side (poll_socket i u) = rx_side u" for i and u :: "'a netstack_scheme"
    by (simp add: poll_socket_def Let_def TcpFreeSocket_def retransmit_def)
  have "rx_side (fold poll_socket xs u) = rx_side u" for xs and u :: "'a netstack_scheme"
    by (induction xs arbitrary: u) (simp_all add: poll)
  then have "ready (TcpPoll t) = ready t" by (intro ready_frame) (simp add: TcpPoll_def)
  then show ?thesis using t assms by (simp add: NetPoll_def TcpPoll_inv)
qed

section \<open>A datagram end to end\<close>

lemma le16_upd [simp]: "i \<noteq> k \<Longrightarrow> i \<noteq> k + 1 \<Longrightarrow> le16 (b(i := v)) k = le16 b k"
  by (simp add: le16_def)

lemma le32_upd [simp]: "i < k \<or> k + 4 \<le> i \<Longrightarrow> le32 (b(i := v)) k = le32 b k"
  by (auto simp: le32_def le16_def)

lemma ipv4_header_fields:
  "ipv4_header j flen ident proto src dst 0 = 0x45" "ipv4_header j flen ident proto src dst 9 = proto"
  "le16 (ipv4_header j flen ident proto src dst) 2 = swap16 flen"
  "le32 (ipv4_header j flen ident proto src dst) 12 = src" "le32 (ipv4_header j flen ident proto src dst) 16 = dst"
  by (simp_all add: ipv4_header_def Let_def le_simps)

lemma swap16_inject: "swap16 a = b \<longleftrightarrow> a = swap16 b"
  by (metis swap16_swap16)

text \<open>A packet that starts with such a header is accepted by the host it is for.\<close>

lemma ipv4_accept_packet:
  assumes h: "\<And>i. i < 20 \<Longrightarrow> pkt i = ipv4_header j (20 + len) ident proto src dst i"
    and len: "unat len \<le> 1480" "20 + len \<le> n"
  shows "ipv4_accept dst pkt n = Some (proto, src, dst, 20, len)"
proof -
  have b: "pkt 0 = 0x45" "pkt 9 = proto" using h [of 0] h [of 9] by (simp_all add: ipv4_header_fields)
  have w: "le16 pkt k = le16 (ipv4_header j (20 + len) ident proto src dst) k" if "k < 19" for k
    by (rule le16_local) (use h that in simp)
  have d: "le32 pkt k = le32 (ipv4_header j (20 + len) ident proto src dst) k" if "k < 17" for k
    by (rule le32_local) (use h that in simp)
  have u: "unat (20 + len) = 20 + unat len" using len(1) by (simp add: unat_word_ariths)
  have "20 + unat len \<le> unat n" by (metis len(2) u word_le_nat_alt)
  then have n: "20 \<le> n" "\<not> n < 20" by (simp_all add: word_le_nat_alt word_less_nat_alt)
  have t: "swap16 (le16 pkt 2) = 20 + len" using w [of 2] by (simp add: ipv4_header_fields)
  have hl: "(ucast (0x45 AND 0x0F :: u8) * 4 :: u16) = 20" by simp
  have c: "\<not> 20 + len < 20" using u by (simp add: word_less_nat_alt)
  have c': "\<not> 20 + len > n" using len(2) by (simp only: not_less)
  show ?thesis
    unfolding ipv4_accept_def Let_def b t hl
    using n c c' d [of 12] d [of 16] by (simp add: ipv4_header_fields)
qed

text \<open>The bytes of the datagram, and what the receiver makes of them.\<close>

definition udp_packet :: "u16 \<Rightarrow> u16 \<Rightarrow> buf \<Rightarrow> u16 \<Rightarrow> buf \<Rightarrow> buf" where
  "udp_packet dst_port src_port data len junk =
    buf_copy (put16 (put16 (put16 (put16 junk 0 (swap16 src_port)) 2 (swap16 dst_port)) 4 (swap16 (8 + len))) 6 0)
      8 data 0 (unat len)"

lemma UdpHandlePacket_packet:
  assumes p: "\<And>i. i < 8 + unat len \<Longrightarrow> pkt i = udp_packet dport sport data len junk i"
    and len: "unat len \<le> 512" "n = 8 + len"
  shows "g_udp_len (UdpHandlePacket src pkt n s) = len" "g_udp_port (UdpHandlePacket src pkt n s) = dport"
    "g_udp_src_ip (UdpHandlePacket src pkt n s) = src"
    "buf_list (g_udp_buf (UdpHandlePacket src pkt n s)) 0 (unat len) = buf_list data 0 (unat len)"
proof -
  let ?h = "put16 (put16 (put16 (put16 junk 0 (swap16 sport)) 2 (swap16 dport)) 4 (swap16 (8 + len))) 6 0"
  have w: "le16 pkt k = le16 ?h k" if "k < 7" for k
    by (rule le16_local) (use p that in \<open>simp add: udp_packet_def buf_copy_def\<close>)
  have f: "swap16 (le16 pkt 2) = dport" "swap16 (le16 pkt 4) = 8 + len"
    using w [of 2] w [of 4] by (simp_all add: le_simps)
  have u: "unat (8 + len) = 8 + unat len" using len(1) by (simp add: unat_word_ariths)
  then have c: "\<not> 8 + len < 8" "\<not> UDP_RECV_BUF < len"
    using len(1) by (simp_all add: word_less_nat_alt UDP_RECV_BUF_def)
  have r: "UdpHandlePacket src pkt n s = s\<lparr>g_udp_buf := buf_copy (g_udp_buf s) 0 pkt 8 (unat len), g_udp_len := len,
      g_udp_port := dport, g_udp_src_ip := src\<rparr>"
    using c by (simp add: UdpHandlePacket_def Let_def f len(2))
  show "g_udp_len (UdpHandlePacket src pkt n s) = len" "g_udp_port (UdpHandlePacket src pkt n s) = dport"
    "g_udp_src_ip (UdpHandlePacket src pkt n s) = src"
    by (simp_all add: r)
  show "buf_list (g_udp_buf (UdpHandlePacket src pkt n s)) 0 (unat len) = buf_list data 0 (unat len)"
    by (rule nth_equalityI) (use p in \<open>simp_all add: r buf_copy_def udp_packet_def\<close>)
qed

text \<open>The sender can transmit to \<open>dst\<close> directly: the card is up and has a free descriptor, and the
  hardware address is known.\<close>

definition can_send :: "u32 \<Rightarrow> mac \<Rightarrow> 'a ip_scheme \<Rightarrow> bool" where
  "can_send dst m s \<longleftrightarrow> nic_initialized s \<and> g_eth_initialized s \<and> ip_our_ip s \<noteq> 0 \<and>
    dst AND g_netmask s = ip_our_ip s AND g_netmask s \<and>
    td_sta (tx_desc s (unat (tx_tail s))) AND STAT_DD \<noteq> 0 \<and>
    (\<exists>k. ArpFindEntry dst (g_arp_cache s) = Some k \<and> ae_mac (g_arp_cache s k) = m)"

text \<open>The frame that carries the datagram.\<close>

definition udp_frame :: "u32 \<Rightarrow> mac \<Rightarrow> u16 \<Rightarrow> u16 \<Rightarrow> buf \<Rightarrow> u16 \<Rightarrow> 'a ip_scheme \<Rightarrow> buf" where
  "udp_frame dst m dport sport data len s =
    eth_frame m ETH_TYPE_IPv4
      (buf_copy (ipv4_header (stack_bytes s) (20 + (8 + len)) (g_ip_id s) IP_PROTO_UDP (ip_our_ip s) dst) 20
        (udp_packet dport sport data len (stack_bytes s)) 0 (unat (8 + len)))
      (20 + (8 + len)) s"

lemma UdpSend_frame:
  assumes "can_send dst m s" "unat len \<le> 512"
  shows "let (st, t) = UdpSend dst dport sport data len s; i = unat (tx_tail s) in
    st = STATUS_SUCCESS \<and> td_length (tx_desc t i) = eth_total (28 + len) \<and>
    (\<forall>j<unat (eth_total (28 + len)). tx_buf t i j = udp_frame dst m dport sport data len s j)"
proof -
  let ?i = "unat (tx_tail s)"
  define f where "f = udp_frame dst m dport sport data len s"
  have u: "unat (28 + len) = 28 + unat len" "unat (14 + (28 + len)) = 42 + unat len"
    using assms(2) by (simp_all add: unat_word_ariths)
  have tot: "unat (eth_total (28 + len)) = max 60 (42 + unat len)"
    using u by (auto simp: eth_total_def word_less_nat_alt)
  then have e: "eth_total (28 + len) \<noteq> 0" "\<not> eth_total (28 + len) > E1000_BUF_SIZE"
    using assms(2) by (auto simp: word_less_nat_alt E1000_BUF_SIZE_def unat_eq_zero [symmetric])
  have len: "\<not> len > 512" "\<not> 28 + len > ETH_MAX_PAYLOAD"
    using assms(2) u(1) by (simp_all add: word_less_nat_alt ETH_MAX_PAYLOAD_def)
  have add: "20 + (8 + len) = 28 + len" by simp
  define s1 where "s1 = s\<lparr>g_ip_id := g_ip_id s + 1\<rparr>"
  have s1: "ArpResolve dst s1 = (Some m, s1)" "g_eth_initialized s1" "nic_initialized s1" "tx_tail s1 = tx_tail s"
    "tx_desc s1 = tx_desc s" "tx_buf s1 = tx_buf s" "g_netmask s1 = g_netmask s" "ip_our_ip s1 = ip_our_ip s"
    using assms(1) by (auto simp: s1_def can_send_def ArpResolve_def)
  have "UdpSend dst dport sport data len s = Ipv4Send dst IP_PROTO_UDP (udp_packet dport sport data len (stack_bytes s)) (8 + len) s"
    using len(1) by (simp add: UdpSend_def Let_def udp_packet_def)
  also have "\<dots> = EthSend m ETH_TYPE_IPv4 (buf_copy (ipv4_header (stack_bytes s) (28 + len) (g_ip_id s) IP_PROTO_UDP (ip_our_ip s) dst) 20
        (udp_packet dport sport data len (stack_bytes s)) 0 (unat (8 + len))) (28 + len) s1"
    using assms(1) s1(1) by (simp add: Ipv4Send_def Let_def s1_def can_send_def)
  also have "\<dots> = E1000SendFrame f (eth_total (28 + len)) s1"
    using s1(2) len(2) by (simp add: EthSend_def Let_def eth_total_def f_def udp_frame_def eth_frame_def s1_def
        EthGetMac_def E1000GetMac_def)
  finally have r: "UdpSend dst dport sport data len s = E1000SendFrame f (eth_total (28 + len)) s1" .
  have "td_sta (tx_desc s ?i) AND STAT_DD \<noteq> 0" using assms(1) by (simp add: can_send_def)
  then show ?thesis
    using s1 e by (simp add: r E1000SendFrame_def Let_def f_def [symmetric] buf_copy_def)
qed

text \<open>C9: a datagram end to end: host \<open>a\<close> sends \<open>len\<close> bytes to the address of host \<open>b\<close>; when the frame
  in its transmit slot is what the next receive slot of \<open>b\<close> holds, then receiving and
  demultiplexing it leaves exactly those bytes in the receive buffer of \<open>b\<close>, with the destination
  port and the address of \<open>a\<close>.\<close>

theorem Udp_end_to_end:
  fixes a :: "'a ip_scheme" and b :: "'b net_scheme" and dport sport :: u16 and data :: buf
  assumes send: "can_send dst m a" "unat len \<le> 512" "length m = 6" "length (nic_mac a) = 6"
    and recv: "g_eth_initialized b" "nic_initialized b" "ip_our_ip b = dst"
  defines "a' \<equiv> snd (UdpSend dst dport sport data len a)"
    and "i \<equiv> unat (tx_tail a)" and "j \<equiv> unat ((rx_tail b + 1) mod E1000_NUM_RX_DESC)"
  assumes wire: "rd_sta (rx_desc b j) AND STAT_DD \<noteq> 0" "rd_length (rx_desc b j) = td_length (tx_desc a' i)"
      "rx_buf b j = tx_buf a' i"
  shows "let ((n, pkt, type, src), b1) = EthReceive out 2048 ty src0 b; b' = handle_frame pkt type n b1 in
    0 < n \<and> g_udp_len b' = len \<and> g_udp_port b' = dport \<and> g_udp_src_ip b' = ip_our_ip a \<and>
    buf_list (g_udp_buf b') 0 (unat len) = buf_list data 0 (unat len)"
proof -
  define F where "F = udp_frame dst m dport sport data len a"
  define P where "P = buf_copy (ipv4_header (stack_bytes a) (20 + (8 + len)) (g_ip_id a) IP_PROTO_UDP (ip_our_ip a) dst) 20
        (udp_packet dport sport data len (stack_bytes a)) 0 (unat (8 + len))"
  have u: "unat (8 + len) = 8 + unat len" "unat (28 + len) = 28 + unat len" "unat (14 + (28 + len)) = 42 + unat len"
    using send(2) by (simp_all add: unat_word_ariths)
  have add: "20 + (8 + len) = 28 + len" by simp
  have tot: "unat (eth_total (28 + len)) = max 60 (42 + unat len)"
    using u by (auto simp: eth_total_def word_less_nat_alt)
  have tx: "td_length (tx_desc a' i) = eth_total (28 + len)" "\<And>k. k < max 60 (42 + unat len) \<Longrightarrow> tx_buf a' i k = F k"
    using UdpSend_frame [OF send(1,2), of dport sport data] tot
    by (auto simp: a'_def i_def F_def Let_def case_prod_unfold)
  have FP: "F (14 + k) = P k" if "k < 28 + unat len" for k
    using that u(2) by (simp add: F_def udp_frame_def eth_frame_def P_def add Let_def) (simp add: buf_copy_def)
  have ty: "le16 F 12 = swap16 ETH_TYPE_IPv4"
  proof -
    have "le16 F 12 = le16 (put16 (\<lambda>_. 0) 12 (swap16 ETH_TYPE_IPv4)) 12"
      by (rule le16_local) (auto simp: F_def udp_frame_def eth_frame_def Let_def buf_copy_def put16_def)
    then show ?thesis by simp
  qed
  let ?n = "unat (eth_total (28 + len)) - 14"
  define pkt where "pkt = buf_copy out 0 (tx_buf a' i) 14 ?n"
  have rx: "fst (EthReceive out 2048 ty src0 b) =
    (int (unat (eth_total (28 + len))) - 14, pkt, swap16 (le16 (tx_buf a' i) 12), buf_list (tx_buf a' i) 6 6)"
    unfolding pkt_def
    by (rule EthReceive_frame [OF recv(1,2)]) (use wire tx(1) tot send(2) in \<open>simp_all add: j_def\<close>)
  have l12: "le16 (tx_buf a' i) 12 = le16 F 12" by (rule le16_local) (use tx(2) in simp)
  then have ety: "swap16 (le16 (tx_buf a' i) 12) = ETH_TYPE_IPv4" by (simp add: ty)
  have pkt: "pkt k = P k" if "k < 28 + unat len" for k
  proof -
    have "k < ?n" "14 + k < max 60 (42 + unat len)" using that tot by linarith+
    then show ?thesis using tx(2) [of "14 + k"] FP [OF that] by (simp add: pkt_def buf_copy_def)
  qed
  define N where "N = ?n"
  have N: "N = max 60 (42 + unat len) - 14" by (simp add: N_def tot)
  obtain b1 where r: "EthReceive out 2048 ty src0 b = ((int N, pkt, ETH_TYPE_IPv4, buf_list (tx_buf a' i) 6 6), b1)"
    using rx ety tot N by (cases "EthReceive out 2048 ty src0 b") (simp add: of_nat_diff N_def)
  have b1: "ip_our_ip b1 = dst"
    using r recv by (auto simp: EthReceive_def E1000ReceiveFrame_def Let_def split: if_splits prod.splits)
  define n16 where "n16 = (of_nat N :: u16)"
  have n16: "unat n16 = N" unfolding n16_def unat_of_nat using N send(2) by simp
  have acc: "ipv4_accept dst pkt n16 = Some (IP_PROTO_UDP, ip_our_ip a, dst, 20, 8 + len)"
  proof (rule ipv4_accept_packet)
    show "pkt k = ipv4_header (stack_bytes a) (20 + (8 + len)) (g_ip_id a) IP_PROTO_UDP (ip_our_ip a) dst k" if "k < 20" for k
      using pkt [of k] that by (simp add: P_def buf_copy_def)
    show "unat (8 + len) \<le> 1480" using u(1) send(2) by simp
    have "28 + unat len \<le> N" using N by simp
    then show "20 + (8 + len) \<le> n16" unfolding add by (simp add: word_le_nat_alt n16 u(2))
  qed
  have b': "handle_frame pkt ETH_TYPE_IPv4 (int N) b1 = UdpHandlePacket (ip_our_ip a) (from_off pkt 20) (8 + len) b1"
    by (simp add: handle_frame_def ETH_TYPE_IPv4_def ETH_TYPE_ARP_def Ipv4HandlePacket_def b1 n16_def [symmetric] acc
        IP_PROTO_UDP_def IP_PROTO_TCP_def)
  have "0 < N" using N by simp
  have "from_off pkt 20 k = udp_packet dport sport data len (stack_bytes a) k" if "k < 8 + unat len" for k
    using pkt [of "20 + k"] that u(1) by (simp add: from_off_def P_def buf_copy_def)
  with \<open>0 < N\<close> show ?thesis
    using UdpHandlePacket_packet [of len "from_off pkt 20" dport sport data "stack_bytes a" "8 + len" "ip_our_ip a" b1] send(2)
    by (simp add: r b' Let_def)
qed

section \<open>Small states\<close>

text \<open>A host at 10.0.2.15 whose peer 10.0.2.2 is in the address cache, and the peer with the frame
  in its next slot.\<close>

definition host_a :: net where
  "host_a = net_small\<lparr>nic_initialized := True, nic_mac := [0x52, 0x54, 0, 0x12, 0x34, 0x56], g_eth_initialized := True,
     ip_our_ip := 0x0F02000A, arp_our_ip := 0x0F02000A, g_netmask := 0x00FFFFFF,
     g_arp_cache := (\<lambda>_. \<lparr>ae_ip = 0x0202000A, ae_mac = [1, 2, 3, 4, 5, 6], ae_timestamp = 0, ae_valid = True\<rparr>)\<rparr>"

definition host_b :: "buf \<Rightarrow> u16 \<Rightarrow> net" where
  "host_b f n = net_small\<lparr>nic_initialized := True, nic_mac := [1, 2, 3, 4, 5, 6], g_eth_initialized := True,
     ip_our_ip := 0x0202000A, rx_desc := (\<lambda>_. \<lparr>rd_length = n, rd_sta = 1\<rparr>), rx_buf := (\<lambda>_. f)\<rparr>"

definition stack_small :: netstack where
  "stack_small = net.extend (host_b (\<lambda>_. 0) 60) (netstack.fields True)"

theorem NetPoll_terminates_witness:
  "\<exists>t. NetPoll 0 [] stack_small = Some t \<and> tcp_inv t \<and> ready t \<subseteq> ready stack_small"
proof -
  have "g_tcp_sockets stack_small = (\<lambda>_. zero_socket)" "g_next_local_port stack_small = 49152"
    by (simp_all add: stack_small_def net.defs netstack.defs host_b_def)
  then have "tcp_inv stack_small" by (simp add: tcp_inv_def)
  then show ?thesis by (rule NetPoll_terminates)
qed

theorem Udp_end_to_end_witness:
  "let t = snd (UdpSend 0x0202000A 5353 99 (\<lambda>k. of_nat k) 3 host_a);
       b = host_b (tx_buf t 31) (td_length (tx_desc t 31));
       ((n, pkt, type, src), b1) = EthReceive (\<lambda>_. 0) 2048 0 [] b;
       b' = handle_frame pkt type n b1
   in g_udp_len b' = 3 \<and> g_udp_port b' = 5353 \<and> buf_list (g_udp_buf b') 0 3 = buf_list (\<lambda>k. of_nat k) 0 3"
proof -
  define t where "t = snd (UdpSend 0x0202000A 5353 99 (\<lambda>k. of_nat k) 3 host_a)"
  have a: "can_send 0x0202000A [1, 2, 3, 4, 5, 6] host_a" "tx_tail host_a = 31" "length (nic_mac host_a) = 6"
    by (simp_all add: can_send_def host_a_def net_small_def TcpInit_def STAT_DD_def ArpFindEntry_def ARP_CACHE_SIZE_def upt_rec)
  have b: "g_eth_initialized (host_b f n)" "nic_initialized (host_b f n)" "ip_our_ip (host_b f n) = 0x0202000A"
    "rd_sta (rx_desc (host_b f n) j) AND STAT_DD \<noteq> 0" "rd_length (rx_desc (host_b f n) j) = n" "rx_buf (host_b f n) j = f"
    for f n j
    by (simp_all add: host_b_def net_small_def TcpInit_def STAT_DD_def)
  have "let ((n, pkt, type, src), b1) = EthReceive (\<lambda>_. 0) 2048 0 [] (host_b (tx_buf t 31) (td_length (tx_desc t 31)));
      b' = handle_frame pkt type n b1 in
    0 < n \<and> g_udp_len b' = 3 \<and> g_udp_port b' = 5353 \<and> g_udp_src_ip b' = ip_our_ip host_a \<and>
    buf_list (g_udp_buf b') 0 (unat (3 :: u16)) = buf_list (\<lambda>k. of_nat k) 0 (unat (3 :: u16))"
    unfolding t_def by (rule Udp_end_to_end [OF a(1)]) (simp_all add: a b)
  then show ?thesis by (simp add: t_def [symmetric] Let_def case_prod_unfold)
qed

end
