(* ===== verification/Device.thy ===== *)
theory Device
  imports Prelude "HOL-Library.State_Monad"
begin

text \<open>
  Access to devices (\<^verbatim>\<open>Kernel/hal.c\<close>, the register accessors of the drivers) and to
  the PCI configuration space (\<^verbatim>\<open>Kernel/fs/pci.c\<close>).  The hardware is a parameter: a state of any
  type with a \<open>bus\<close> of four functions that say what a read of a port or of a memory-mapped
  register answers and how reads and writes change the hardware.  A driver is a computation in
  the state monad over its own variables and the hardware.
\<close>

section \<open>Hardware\<close>

text \<open>The first argument of each access is its width in bytes.\<close>

record 'd bus =
  io_in :: "nat \<Rightarrow> u16 \<Rightarrow> 'd \<Rightarrow> u32 \<times> 'd"
  io_out :: "nat \<Rightarrow> u16 \<Rightarrow> u32 \<Rightarrow> 'd \<Rightarrow> 'd"
  mm_in :: "nat \<Rightarrow> u64 \<Rightarrow> 'd \<Rightarrow> u64 \<times> 'd"
  mm_out :: "nat \<Rightarrow> u64 \<Rightarrow> u64 \<Rightarrow> 'd \<Rightarrow> 'd"

text \<open>
  The hardware that answers its reads, counted by \<open>tr_time\<close>, from a given table and records all
  writes, newest first.  Every run of a driver on any hardware is a run on a hardware of this
  kind.
\<close>

record trace_dev =
  tr_answer :: "nat \<Rightarrow> u64"
  tr_time :: nat
  tr_out :: "(nat \<times> u64 \<times> u64) list"

definition tr_read :: "trace_dev \<Rightarrow> u64 \<times> trace_dev" where
  "tr_read d = (tr_answer d (tr_time d), d\<lparr>tr_time := tr_time d + 1\<rparr>)"

definition tr_write :: "nat \<Rightarrow> u64 \<Rightarrow> u64 \<Rightarrow> trace_dev \<Rightarrow> trace_dev" where
  "tr_write w a v d = d\<lparr>tr_out := (w, a, v) # tr_out d\<rparr>"

definition trace_bus :: "trace_dev bus" where
  "trace_bus = \<lparr>io_in = (\<lambda>w p d. map_prod ucast id (tr_read d)), io_out = (\<lambda>w p v. tr_write w (ucast p) (ucast v)),
     mm_in = (\<lambda>w a d. tr_read d), mm_out = tr_write\<rparr>"

section \<open>Computations\<close>

definition gets :: "('s \<Rightarrow> 'a) \<Rightarrow> ('s, 'a) state" where
  "gets f = State (\<lambda>s. (f s, s))"

definition modify :: "('s \<Rightarrow> 's) \<Rightarrow> ('s, unit) state" where
  "modify f = State (\<lambda>s. ((), f s))"

abbreviation return :: "'a \<Rightarrow> ('s, 'a) state" where
  "return \<equiv> State_Monad.return"

lemma run_state_basic [simp]: "run_state (gets f) s = (f s, s)" "run_state (modify g) s = ((), g s)"
  by (simp_all add: gets_def modify_def)

text \<open>A driver's variables and the hardware.\<close>

definition on_dev :: "('d, 'a) state \<Rightarrow> ('k \<times> 'd, 'a) state" where
  "on_dev m = State (\<lambda>(k, d). case run_state m d of (a, d) \<Rightarrow> (a, k, d))"

lemma run_state_on_dev [simp]: "run_state (on_dev m) (k, d) = (case run_state m d of (a, d) \<Rightarrow> (a, k, d))"
  by (simp add: on_dev_def)

definition drv :: "('k \<Rightarrow> 'a) \<Rightarrow> ('k \<times> 'd, 'a) state" where
  "drv f = gets (f \<circ> fst)"

definition set_drv :: "('k \<Rightarrow> 'k) \<Rightarrow> ('k \<times> 'd, unit) state" where
  "set_drv f = modify (map_prod f id)"

lemma run_state_drv [simp]: "run_state (drv f) s = (f (fst s), s)" "run_state (set_drv g) s = ((), g (fst s), snd s)"
  by (simp_all add: drv_def set_drv_def prod_eq_iff)

text \<open>\<open>while (timeout-- && !cond)\<close>: whether the condition was met in \<open>n\<close> tests.\<close>

fun poll :: "nat \<Rightarrow> ('s, bool) state \<Rightarrow> ('s, bool) state" where
  "poll 0 c = return False"
| "poll (Suc n) c = do { ok \<leftarrow> c; if ok then return True else poll n c }"

definition do_if :: "bool \<Rightarrow> ('s, unit) state \<Rightarrow> ('s, unit) state" where
  "do_if b m = (if b then m else return ())"

fun for_each :: "'a list \<Rightarrow> ('a \<Rightarrow> ('s, unit) state) \<Rightarrow> ('s, unit) state" where
  "for_each [] f = return ()"
| "for_each (x # xs) f = do { f x; for_each xs f }"

text \<open>A loop that leaves the function at the first result.\<close>

fun first_of :: "'a list \<Rightarrow> ('a \<Rightarrow> ('s, 'b option) state) \<Rightarrow> ('s, 'b option) state" where
  "first_of [] f = return None"
| "first_of (x # xs) f = do { r \<leftarrow> f x; case r of None \<Rightarrow> first_of xs f | Some y \<Rightarrow> return (Some y) }"

section \<open>What a computation keeps\<close>

text \<open>\<open>f\<close> has the same value before and after.\<close>

definition keeps :: "('s \<Rightarrow> 'b) \<Rightarrow> ('s, 'a) state \<Rightarrow> bool" where
  "keeps f m \<longleftrightarrow> (\<forall>s. f (snd (run_state m s)) = f s)"

named_theorems keeps_intro \<open>computations that leave a part of the state alone\<close>

lemma keepsD: "keeps f m \<Longrightarrow> run_state m s = (a, s') \<Longrightarrow> f s' = f s"
  by (metis keeps_def snd_conv)

lemma keeps_basic [keeps_intro]: "keeps f (return a)" "keeps f (gets g)"
  by (simp_all add: keeps_def)

lemma keeps_pair [keeps_intro]: "keeps f (drv h)" "keeps fst (on_dev m)" "keeps (\<lambda>s. g (fst s)) (on_dev m)"
  by (auto simp: keeps_def split: prod.splits)

lemma keeps_bind [keeps_intro]: "keeps f m \<Longrightarrow> (\<And>a. keeps f (k a)) \<Longrightarrow> keeps f (State_Monad.bind m k)"
  by (simp add: keeps_def split: prod.splits) (metis snd_conv)

lemma keeps_if [keeps_intro]: "(b \<Longrightarrow> keeps f m) \<Longrightarrow> (\<not> b \<Longrightarrow> keeps f n) \<Longrightarrow> keeps f (if b then m else n)"
  by simp

lemma keeps_do_if [keeps_intro]: "keeps f m \<Longrightarrow> keeps f (do_if b m)"
  by (simp add: do_if_def keeps_intro)

lemma keeps_Let [keeps_intro]: "(\<And>x. keeps f (k x)) \<Longrightarrow> keeps f (Let a k)"
  by simp

lemma keeps_option [keeps_intro]: "keeps f m \<Longrightarrow> (\<And>x. keeps f (k x)) \<Longrightarrow> keeps f (case r of None \<Rightarrow> m | Some x \<Rightarrow> k x)"
  by (simp split: option.split)

lemma keeps_loops [keeps_intro]: "keeps f c \<Longrightarrow> keeps f (poll n c)" "(\<And>x. keeps f (g x)) \<Longrightarrow> keeps f (for_each xs g)"
  "(\<And>x. keeps f (h x)) \<Longrightarrow> keeps f (first_of ys h)"
proof -
  show "keeps f c \<Longrightarrow> keeps f (poll n c)" by (induction n) (simp_all add: keeps_intro)
  show "(\<And>x. keeps f (g x)) \<Longrightarrow> keeps f (for_each xs g)" by (induction xs) (simp_all add: keeps_intro)
  show "(\<And>x. keeps f (h x)) \<Longrightarrow> keeps f (first_of ys h)" by (induction ys) (simp_all add: keeps_intro)
qed

section \<open>Weakest preconditions\<close>

definition wp :: "('s, 'a) state \<Rightarrow> ('a \<Rightarrow> 's \<Rightarrow> bool) \<Rightarrow> 's \<Rightarrow> bool" where
  "wp m Q s \<longleftrightarrow> (case run_state m s of (a, s') \<Rightarrow> Q a s')"

named_theorems wp_simps \<open>weakest preconditions of the constructs\<close>

lemma wpD: "wp m Q s \<Longrightarrow> run_state m s = (a, s') \<Longrightarrow> Q a s'"
  by (simp add: wp_def)

lemma wp_basic [wp_simps]: "wp (return a) Q s = Q a s" "wp (State_Monad.bind m k) R s = wp m (\<lambda>a. wp (k a) R) s"
  "wp (gets f) T s = T (f s) s" "wp (modify g) U s = U () (g s)"
  by (simp_all add: wp_def split: prod.splits)

lemma wp_drv [wp_simps]: "wp (drv f) Q (h, d) = Q (f h) (h, d)" "wp (set_drv g) R (h, d) = R () (g h, d)"
  by (simp_all add: wp_def)

lemma wp_if [wp_simps]: "wp (if b then m else n) Q s = (if b then wp m Q s else wp n Q s)"
  "wp (do_if c k) R t = (if c then wp k R t else R () t)"
  by (simp_all add: wp_def do_if_def)

lemma wp_mono: "wp m Q s \<Longrightarrow> (\<And>a s'. Q a s' \<Longrightarrow> R a s') \<Longrightarrow> wp m R s"
  by (auto simp: wp_def split: prod.splits)

text \<open>A computation that leaves the variables alone gives any value and any hardware.\<close>

lemma wp_keeps: "keeps fst m \<Longrightarrow> (\<And>a d'. Q a (h, d')) \<Longrightarrow> wp m Q (h, d)"
  unfolding wp_def keeps_def by (metis (mono_tags, lifting) case_prod_beta prod.collapse fst_conv)

section \<open>Ports\<close>

definition HalInByte :: "'d bus \<Rightarrow> u16 \<Rightarrow> ('d, u8) state" where
  "HalInByte B port = State (\<lambda>d. map_prod ucast id (io_in B 1 port d))"

definition HalInWord :: "'d bus \<Rightarrow> u16 \<Rightarrow> ('d, u16) state" where
  "HalInWord B port = State (\<lambda>d. map_prod ucast id (io_in B 2 port d))"

definition HalInDword :: "'d bus \<Rightarrow> u16 \<Rightarrow> ('d, u32) state" where
  "HalInDword B port = State (io_in B 4 port)"

definition HalOutByte :: "'d bus \<Rightarrow> u16 \<Rightarrow> u8 \<Rightarrow> ('d, unit) state" where
  "HalOutByte B port val = modify (io_out B 1 port (ucast val))"

definition HalOutWord :: "'d bus \<Rightarrow> u16 \<Rightarrow> u16 \<Rightarrow> ('d, unit) state" where
  "HalOutWord B port val = modify (io_out B 2 port (ucast val))"

definition HalOutDword :: "'d bus \<Rightarrow> u16 \<Rightarrow> u32 \<Rightarrow> ('d, unit) state" where
  "HalOutDword B port val = modify (io_out B 4 port val)"

definition HalIoWait :: "'d bus \<Rightarrow> ('d, unit) state" where
  "HalIoWait B = HalOutByte B 0x80 0"

section \<open>The PCI configuration space\<close>

definition PCI_CONFIG_ADDRESS :: u16 where "PCI_CONFIG_ADDRESS = 0xCF8"
definition PCI_CONFIG_DATA :: u16 where "PCI_CONFIG_DATA = 0xCFC"
definition PCI_ENABLE_BIT :: u32 where "PCI_ENABLE_BIT = 0x80000000"

definition pci_addr :: "u8 \<Rightarrow> u8 \<Rightarrow> u8 \<Rightarrow> u8 \<Rightarrow> u32" where
  "pci_addr bus device func offset = PCI_ENABLE_BIT OR push_bit 16 (ucast bus) OR push_bit 11 (ucast device) OR
     push_bit 8 (ucast func) OR (ucast offset AND 0xFC)"

definition PciReadConfig :: "'d bus \<Rightarrow> u8 \<Rightarrow> u8 \<Rightarrow> u8 \<Rightarrow> u8 \<Rightarrow> ('d, u32) state" where
  "PciReadConfig B bus device func offset =
    do { HalOutDword B PCI_CONFIG_ADDRESS (pci_addr bus device func offset); HalInDword B PCI_CONFIG_DATA }"

definition PciWriteConfig :: "'d bus \<Rightarrow> u8 \<Rightarrow> u8 \<Rightarrow> u8 \<Rightarrow> u8 \<Rightarrow> u32 \<Rightarrow> ('d, unit) state" where
  "PciWriteConfig B bus device func offset value =
    do { HalOutDword B PCI_CONFIG_ADDRESS (pci_addr bus device func offset); HalOutDword B PCI_CONFIG_DATA value }"

text \<open>The result only goes to the log.\<close>

definition PciInit :: "'d bus \<Rightarrow> ('d, unit) state" where
  "PciInit B = for_each (List.product [0..<256] [0..<32]) (\<lambda>(bus, dev).
    do {
      vend \<leftarrow> PciReadConfig B (of_nat bus) (of_nat dev) 0 0;
      do_if (\<not> (vend = 0xFFFFFFFF \<or> vend = 0)) (do { PciReadConfig B (of_nat bus) (of_nat dev) 0 0x08; return () })
    })"

definition PciGetBarAddress :: "'d bus \<Rightarrow> u8 \<Rightarrow> u8 \<Rightarrow> u8 \<Rightarrow> u8 \<Rightarrow> ('d, u64) state" where
  "PciGetBarAddress B bus device func bar_index =
    do {
      let offset = 0x10 + bar_index * 4;
      bar_lo \<leftarrow> PciReadConfig B bus device func offset;
      if bar_lo AND 1 \<noteq> 0 then return (ucast (bar_lo AND NOT 0x3))
      else if bar_lo AND 0x6 = 0x4 then do {
        bar_hi \<leftarrow> PciReadConfig B bus device func (offset + 4);
        return (push_bit 32 (ucast bar_hi) OR ucast (bar_lo AND NOT 0xF))
      }
      else return (ucast (bar_lo AND NOT 0xF))
    }"

record pci_device =
  pd_bus :: u8
  pd_device :: u8
  pd_function :: u8
  vendor_id :: u16
  device_id :: u16
  class_code :: u8
  pd_subclass :: u8
  prog_if :: u8
  header_type :: u8
  pd_bar :: "u32 list"
  pd_irq :: u8

definition pci_match :: "u8 \<Rightarrow> u8 \<Rightarrow> u8 \<Rightarrow> u32 \<Rightarrow> bool" where
  "pci_match cc sc pi class_word \<longleftrightarrow> ucast (drop_bit 24 class_word) = cc \<and>
     (sc = 0xFF \<or> ucast (drop_bit 16 class_word) = sc) \<and> (pi = 0xFF \<or> ucast (drop_bit 8 class_word) = pi)"

definition pci_probe :: "'d bus \<Rightarrow> u8 \<Rightarrow> u8 \<Rightarrow> u8 \<Rightarrow> u8 \<times> u8 \<times> u8 \<Rightarrow> ('d, pci_device option) state" where
  "pci_probe B cc sc pi = (\<lambda>(bus, dev, func).
    do {
      vend \<leftarrow> PciReadConfig B bus dev func 0;
      if vend = 0xFFFFFFFF \<or> vend = 0 then return None
      else do {
        class_word \<leftarrow> PciReadConfig B bus dev func 0x08;
        if \<not> pci_match cc sc pi class_word then return None
        else do {
          ht \<leftarrow> PciReadConfig B bus dev func 0x0C;
          bars \<leftarrow> State_Monad.traverse_list (\<lambda>i. map_state ucast (PciGetBarAddress B bus dev func (of_nat i))) [0..<6];
          irq_word \<leftarrow> PciReadConfig B bus dev func 0x3C;
          return (Some \<lparr>pd_bus = bus, pd_device = dev, pd_function = func, vendor_id = ucast (vend AND 0xFFFF),
            device_id = ucast (drop_bit 16 vend), class_code = ucast (drop_bit 24 class_word), pd_subclass = ucast (drop_bit 16 class_word),
            prog_if = ucast (drop_bit 8 class_word), header_type = ucast (drop_bit 16 ht), pd_bar = bars,
            pd_irq = ucast (irq_word AND 0xFF)\<rparr>)
        }
      }
    })"

text \<open>\<open>None\<close> is \<open>STATUS_NOT_FOUND\<close>.\<close>

definition PciFindDevice :: "'d bus \<Rightarrow> u8 \<Rightarrow> u8 \<Rightarrow> u8 \<Rightarrow> ('d, pci_device option) state" where
  "PciFindDevice B cc sc pi =
    first_of (map (\<lambda>(b, d, f). (of_nat b, of_nat d, of_nat f))
      (List.product [0..<256] (List.product [0..<32] [0..<8]))) (pci_probe B cc sc pi)"

end
