(* ===== verification/Audio.thy ===== *)
theory Audio
  imports Device Vmm
begin

text \<open>
  The sound driver (\<^verbatim>\<open>Kernel/audio/hda.c\<close>, \<^verbatim>\<open>Kernel/audio/audio.c\<close>): an Intel HD Audio
  controller behind memory-mapped registers.  Delays and cache flushes have no effect on the
  state; the log output is left out.
\<close>

section \<open>Registers\<close>

definition HDA_GCAP :: u32 where "HDA_GCAP = 0x00"
definition HDA_GCTL :: u32 where "HDA_GCTL = 0x08"
definition HDA_WAKEEN :: u32 where "HDA_WAKEEN = 0x0C"
definition HDA_STATESTS :: u32 where "HDA_STATESTS = 0x0E"
definition HDA_IC :: u32 where "HDA_IC = 0x60"
definition HDA_IR :: u32 where "HDA_IR = 0x64"
definition HDA_IRS :: u32 where "HDA_IRS = 0x68"
definition HDA_GCTL_CRST :: u32 where "HDA_GCTL_CRST = 1"
definition HDA_SDn_CTL :: u32 where "HDA_SDn_CTL = 0x00"
definition HDA_SDn_STS :: u32 where "HDA_SDn_STS = 0x03"
definition HDA_SDn_LPIB :: u32 where "HDA_SDn_LPIB = 0x04"
definition HDA_SDn_CBL :: u32 where "HDA_SDn_CBL = 0x08"
definition HDA_SDn_LVI :: u32 where "HDA_SDn_LVI = 0x0C"
definition HDA_SDn_FMT :: u32 where "HDA_SDn_FMT = 0x12"
definition HDA_SDn_BDPL :: u32 where "HDA_SDn_BDPL = 0x18"
definition HDA_SDn_BDPU :: u32 where "HDA_SDn_BDPU = 0x1C"
definition HDA_SDn_CTL_IOCE :: u32 where "HDA_SDn_CTL_IOCE = 0x00040000"
definition HDA_SDn_CTL_RUN :: u32 where "HDA_SDn_CTL_RUN = 2"
definition HDA_SDn_CTL_SRST :: u32 where "HDA_SDn_CTL_SRST = 1"
definition HDA_SDn_STS_BCIS :: u8 where "HDA_SDn_STS_BCIS = 0x04"

section \<open>State\<close>

record hda_bdl_entry =
  bd_addr :: u64
  bd_length :: u32
  bd_ioc :: u32

text \<open>\<open>hda_bdl\<close> and \<open>hda_pcm\<close>: the first entry of the buffer list and the sample buffer in memory.\<close>

record hda =
  mmio_base :: u64
  hda_initialized :: bool
  bdl_phys :: u64
  hda_bdl :: hda_bdl_entry
  pcm_phys :: u64
  pcm_size :: u32
  hda_pcm :: buf
  codec :: u8
  dac_node :: u16
  pin_node :: u16
  pci_bus :: u8
  pci_dev :: u8
  pci_func :: u8
  playing :: bool
  bytes_to_play :: u32
  start_tick :: u64
  duration_ticks :: u64

definition zero_hda :: hda where
  "zero_hda = \<lparr>mmio_base = 0, hda_initialized = False, bdl_phys = 0, hda_bdl = \<lparr>bd_addr = 0, bd_length = 0, bd_ioc = 0\<rparr>,
     pcm_phys = 0, pcm_size = 0, hda_pcm = (\<lambda>_. 0), codec = 0, dac_node = 0, pin_node = 0, pci_bus = 0, pci_dev = 0, pci_func = 0,
     playing = False, bytes_to_play = 0, start_tick = 0, duration_ticks = 0\<rparr>"

section \<open>Register accesses\<close>

definition HdaRead32 :: "'d bus \<Rightarrow> u64 \<Rightarrow> u32 \<Rightarrow> (hda \<times> 'd, u32) state" where
  "HdaRead32 B base offset = on_dev (map_state ucast (State (mm_in B 4 (base + ucast offset))))"

definition HdaWrite32 :: "'d bus \<Rightarrow> u64 \<Rightarrow> u32 \<Rightarrow> u32 \<Rightarrow> (hda \<times> 'd, unit) state" where
  "HdaWrite32 B base offset value = on_dev (modify (mm_out B 4 (base + ucast offset) (ucast value)))"

definition HdaRead16 :: "'d bus \<Rightarrow> u64 \<Rightarrow> u32 \<Rightarrow> (hda \<times> 'd, u16) state" where
  "HdaRead16 B base offset = on_dev (map_state ucast (State (mm_in B 2 (base + ucast offset))))"

definition HdaWrite16 :: "'d bus \<Rightarrow> u64 \<Rightarrow> u32 \<Rightarrow> u16 \<Rightarrow> (hda \<times> 'd, unit) state" where
  "HdaWrite16 B base offset value = on_dev (modify (mm_out B 2 (base + ucast offset) (ucast value)))"

definition HdaRead8 :: "'d bus \<Rightarrow> u64 \<Rightarrow> u32 \<Rightarrow> (hda \<times> 'd, u8) state" where
  "HdaRead8 B base offset = on_dev (map_state ucast (State (mm_in B 1 (base + ucast offset))))"

definition HdaWrite8 :: "'d bus \<Rightarrow> u64 \<Rightarrow> u32 \<Rightarrow> u8 \<Rightarrow> (hda \<times> 'd, unit) state" where
  "HdaWrite8 B base offset value = on_dev (modify (mm_out B 1 (base + ucast offset) (ucast value)))"

text \<open>A register shows a bit, or does not.\<close>

definition hda_set :: "'d bus \<Rightarrow> u64 \<Rightarrow> u32 \<Rightarrow> u32 \<Rightarrow> (hda \<times> 'd, bool) state" where
  "hda_set B base offset bits = map_state (\<lambda>v. v AND bits \<noteq> 0) (HdaRead32 B base offset)"

definition hda_clear :: "'d bus \<Rightarrow> u64 \<Rightarrow> u32 \<Rightarrow> u32 \<Rightarrow> (hda \<times> 'd, bool) state" where
  "hda_clear B base offset bits = map_state (\<lambda>v. v AND bits = 0) (HdaRead32 B base offset)"

definition HdaGetOutputStreamBase :: "'d bus \<Rightarrow> u8 \<Rightarrow> (hda \<times> 'd, u64) state" where
  "HdaGetOutputStreamBase B stream_index =
    do {
      base \<leftarrow> drv mmio_base;
      gcap \<leftarrow> HdaRead16 B base HDA_GCAP;
      let iss = (ucast (drop_bit 8 gcap AND 0xF) :: u8);
      return (base + 0x80 + ucast iss * 0x20 + ucast stream_index * 0x20)
    }"

section \<open>Commands to the codec\<close>

definition HdaMakeVerb :: "u8 \<Rightarrow> u16 \<Rightarrow> u32 \<Rightarrow> u32 \<Rightarrow> u32" where
  "HdaMakeVerb c nd verb payload =
    push_bit 28 (ucast c) OR push_bit 20 (ucast (nd AND 0x7F)) OR push_bit 8 (verb AND 0xFFF) OR (payload AND 0xFF)"

definition HdaMakeVerb16 :: "u8 \<Rightarrow> u16 \<Rightarrow> u8 \<Rightarrow> u16 \<Rightarrow> u32" where
  "HdaMakeVerb16 c nd verb payload =
    push_bit 28 (ucast c) OR push_bit 20 (ucast (nd AND 0x7F)) OR push_bit 16 (ucast (verb AND 0xF)) OR ucast payload"

text \<open>One round of the wait for an answer: \<open>Some\<close> ends it.\<close>

definition verb_round :: "'d bus \<Rightarrow> u64 \<Rightarrow> (hda \<times> 'd, u32 option) state" where
  "verb_round B base =
    do {
      irs \<leftarrow> HdaRead8 B base HDA_IRS;
      if irs AND 1 \<noteq> 0 then return None
      else if irs AND 2 \<noteq> 0 then do {
        resp \<leftarrow> HdaRead32 B base HDA_IR;
        HdaWrite8 B base HDA_IRS 2;
        poll 10000 (map_state (\<lambda>v. v AND 2 = 0) (HdaRead8 B base HDA_IRS));
        return (Some resp)
      }
      else return (Some 0)
    }"

definition verb_idle :: "'d bus \<Rightarrow> u64 \<Rightarrow> (hda \<times> 'd, bool) state" where
  "verb_idle B base =
    do {
      irs \<leftarrow> HdaRead8 B base HDA_IRS;
      if irs AND 3 = 0 then return True
      else do { do_if (irs AND 2 \<noteq> 0) (HdaWrite8 B base HDA_IRS 2); return False }
    }"

definition HdaSendVerb :: "'d bus \<Rightarrow> u32 \<Rightarrow> (hda \<times> 'd, u32) state" where
  "HdaSendVerb B verb =
    do {
      base \<leftarrow> drv mmio_base;
      if base = 0 then return 0
      else do {
        poll 10000 (verb_idle B base);
        HdaWrite32 B base HDA_IC verb;
        HdaWrite8 B base HDA_IRS 1;
        r \<leftarrow> first_of [0..<1000000] (\<lambda>_. verb_round B base);
        case r of Some resp \<Rightarrow> return resp
        | None \<Rightarrow> do { HdaRead8 B base HDA_IRS; return 0 }
      }
    }"

definition HdaGetParam :: "'d bus \<Rightarrow> u8 \<Rightarrow> u16 \<Rightarrow> u8 \<Rightarrow> (hda \<times> 'd, u32) state" where
  "HdaGetParam B c nd param = HdaSendVerb B (HdaMakeVerb c nd 0xF00 (ucast param))"

section \<open>Start of the controller\<close>

definition HdaDisableNoSnoop_step :: "'d bus \<Rightarrow> u32 \<Rightarrow> (hda \<times> 'd, u32) state" where
  "HdaDisableNoSnoop_step B cap_ptr =
    do {
      b \<leftarrow> drv pci_bus; d \<leftarrow> drv pci_dev; f \<leftarrow> drv pci_func;
      cap \<leftarrow> on_dev (PciReadConfig B b d f (ucast cap_ptr));
      if (ucast cap :: u8) = 0x10 then do {
        dev_ctrl \<leftarrow> on_dev (PciReadConfig B b d f (ucast (cap_ptr + 8)));
        do_if (dev_ctrl AND 0x800 \<noteq> 0) (on_dev (PciWriteConfig B b d f (ucast (cap_ptr + 8)) (dev_ctrl AND NOT 0x800)));
        return 0
      }
      else return (drop_bit 8 cap AND 0xFC)
    }"

text \<open>
  The capability list may be cyclic when the hardware lies: the number of links followed is
  bounded by \<open>fuel\<close>, and \<open>False\<close> is a list that did not end.
\<close>

fun no_snoop_loop :: "nat \<Rightarrow> 'd bus \<Rightarrow> u32 \<Rightarrow> (hda \<times> 'd, bool) state" where
  "no_snoop_loop fuel B cap_ptr =
    (if cap_ptr = 0 then return True
     else case fuel of 0 \<Rightarrow> return False
     | Suc n \<Rightarrow> do { next \<leftarrow> HdaDisableNoSnoop_step B cap_ptr; no_snoop_loop n B next })"

declare no_snoop_loop.simps [simp del]

definition HdaDisableNoSnoop :: "nat \<Rightarrow> 'd bus \<Rightarrow> (hda \<times> 'd, bool) state" where
  "HdaDisableNoSnoop fuel B =
    do {
      b \<leftarrow> drv pci_bus; d \<leftarrow> drv pci_dev; f \<leftarrow> drv pci_func;
      cap_ptr \<leftarrow> on_dev (PciReadConfig B b d f 0x34);
      no_snoop_loop fuel B (cap_ptr AND 0xFC)
    }"

definition HdaResetController :: "'d bus \<Rightarrow> (hda \<times> 'd, unit) state" where
  "HdaResetController B =
    do {
      base \<leftarrow> drv mmio_base;
      HdaWrite16 B base HDA_WAKEEN 0xFFFF;
      HdaWrite32 B base HDA_GCTL 0;
      poll 100000 (hda_clear B base HDA_GCTL HDA_GCTL_CRST);
      HdaWrite32 B base HDA_GCTL HDA_GCTL_CRST;
      poll 100000 (hda_set B base HDA_GCTL HDA_GCTL_CRST);
      return ()
    }"

section \<open>Search for the output path\<close>

text \<open>Type 0 is a converter, type 4 a pin; the first of each is taken.\<close>

definition probe_widget :: "'d bus \<Rightarrow> u8 \<Rightarrow> u16 \<Rightarrow> (hda \<times> 'd, unit) state" where
  "probe_widget B c wnode =
    do {
      wcap \<leftarrow> HdaGetParam B c wnode 0x09;
      if wcap = 0 \<or> wcap = 0xFFFFFFFF then return ()
      else set_drv (\<lambda>h.
        let wtype = drop_bit 20 wcap AND 0xF
        in if wtype = 0 \<and> dac_node h = 0xFFFF then h\<lparr>dac_node := wnode\<rparr>
           else if wtype = 4 \<and> pin_node h = 0xFFFF then h\<lparr>pin_node := wnode\<rparr>
           else h)
    }"

text \<open>The end of a search: \<open>Some 0\<close> when a converter was found.\<close>

definition path_found :: "(hda \<times> 'd, int option) state" where
  "path_found =
    do {
      d \<leftarrow> drv dac_node;
      if d \<noteq> 0xFFFF
      then do { set_drv (\<lambda>h. if pin_node h = 0xFFFF then h\<lparr>pin_node := dac_node h\<rparr> else h); return (Some 0) }
      else return None
    }"

definition no_path :: "(hda \<times> 'd, unit) state" where
  "no_path = set_drv (\<lambda>h. h\<lparr>dac_node := 0xFFFF, pin_node := 0xFFFF\<rparr>)"

definition probe_group :: "'d bus \<Rightarrow> u8 \<Rightarrow> u16 \<Rightarrow> (hda \<times> 'd, int option) state" where
  "probe_group B c fg_node =
    do {
      fg_type \<leftarrow> HdaGetParam B c fg_node 0x05;
      if fg_type AND 0x7F \<noteq> 1 then return None
      else do {
        fg_param \<leftarrow> HdaGetParam B c fg_node 0x04;
        let w_count = (ucast fg_param :: u8);
        let w_start = (ucast (drop_bit 8 fg_param) :: u8);
        no_path;
        for_each [0..<min (unat w_count) 32] (\<lambda>i. probe_widget B c (ucast w_start + of_nat i));
        path_found
      }
    }"

definition probe_codec :: "'d bus \<Rightarrow> u16 \<Rightarrow> nat \<Rightarrow> (hda \<times> 'd, int option) state" where
  "probe_codec B statests n =
    (if \<not> bit statests n then return None
     else do {
       let c = (of_nat n :: u8);
       set_drv (\<lambda>h. h\<lparr>codec := c\<rparr>);
       vendor \<leftarrow> HdaGetParam B c 0 0x00;
       if vendor = 0 \<or> vendor = 0xFFFFFFFF then return None
       else do {
         root_param \<leftarrow> HdaGetParam B c 0 0x04;
         let fg_count = (ucast root_param :: u8);
         let fg_start = (ucast (drop_bit 16 root_param) :: u8);
         first_of [0..<min (unat fg_count) 8] (\<lambda>f. probe_group B c (ucast fg_start + of_nat f))
       }
     })"

definition HdaFindCodecAndPath :: "'d bus \<Rightarrow> (hda \<times> 'd, int) state" where
  "HdaFindCodecAndPath B =
    do {
      base \<leftarrow> drv mmio_base;
      present \<leftarrow> first_of [0..<100] (\<lambda>_. map_state (\<lambda>v. if v \<noteq> 0 then Some v else None) (HdaRead16 B base HDA_STATESTS));
      case present of None \<Rightarrow> return (- 1)
      | Some statests \<Rightarrow> do {
          HdaWrite16 B base HDA_STATESTS statests;
          r \<leftarrow> first_of [0..<15] (probe_codec B statests);
          case r of Some x \<Rightarrow> return x
          | None \<Rightarrow> do {
              no_path;
              c \<leftarrow> drv codec;
              for_each [2..<16] (\<lambda>n. probe_widget B c (of_nat n));
              r \<leftarrow> path_found;
              case r of Some x \<Rightarrow> return x | None \<Rightarrow> return (- 1)
            }
        }
    }"

definition HdaSetupAudioPath :: "'d bus \<Rightarrow> (hda \<times> 'd, unit) state" where
  "HdaSetupAudioPath B =
    do {
      c \<leftarrow> drv codec; dac \<leftarrow> drv dac_node; pin \<leftarrow> drv pin_node;
      HdaSendVerb B (HdaMakeVerb16 c dac 0x2 0x0011);
      HdaSendVerb B (HdaMakeVerb c dac 0x706 0x10);
      HdaSendVerb B (HdaMakeVerb16 c dac 0x3 0xE07F);
      if pin \<noteq> dac then do {
        conn_len \<leftarrow> HdaGetParam B c pin 0x0E;
        do_if ((ucast (conn_len AND 0x7F) :: u8) > 0) (do { HdaSendVerb B (HdaMakeVerb c pin 0x701 0); return () });
        HdaSendVerb B (HdaMakeVerb c pin 0x707 0x40);
        HdaSendVerb B (HdaMakeVerb c pin 0x70C 0x02);
        HdaSendVerb B (HdaMakeVerb16 c pin 0x3 0xE07F);
        return ()
      }
      else return ()
    }"

text \<open>The memory that the driver takes: the buffer list and 1 MB of samples.\<close>

definition hda_buffers :: "hda \<times> vmm \<Rightarrow> hda \<times> vmm" where
  "hda_buffers = (\<lambda>(h, v).
    let (bdl, p) = PmmAllocPage (vm_pmm v); h = h\<lparr>bdl_phys := bdl\<rparr>; v = v\<lparr>vm_pmm := p\<rparr>
    in if bdl = 0 then (h, v)
       else
         let h = h\<lparr>hda_bdl := \<lparr>bd_addr = 0, bd_length = 0, bd_ioc = 0\<rparr>, pcm_size := 1024 * 1024\<rparr>;
             (pcm, p) = PmmAllocPages (1024 * 1024 div 4096) p; h = h\<lparr>pcm_phys := pcm\<rparr>; v = v\<lparr>vm_pmm := p\<rparr>
         in if pcm = 0 then (h, v) else (h\<lparr>hda_pcm := (\<lambda>_. 0), hda_initialized := True\<rparr>, v))"

definition with_vmm :: "(hda \<times> 'd, 'a) state \<Rightarrow> ((hda \<times> vmm) \<times> 'd, 'a) state" where
  "with_vmm m = State (\<lambda>((h, v), d). case run_state m (h, d) of (a, h, d) \<Rightarrow> (a, (h, v), d))"

definition hda_attach :: "nat \<Rightarrow> 'd bus \<Rightarrow> pci_device \<Rightarrow> ((hda \<times> vmm) \<times> 'd, unit) state" where
  "hda_attach fuel B dev =
    do {
      let b = pd_bus dev; let d = pd_device dev; let f = pd_function dev;
      with_vmm (set_drv (\<lambda>h. h\<lparr>pci_bus := b, pci_dev := d, pci_func := f\<rparr>));
      mmio \<leftarrow> on_dev (PciGetBarAddress B b d f 0);
      if mmio = 0 then return ()
      else do {
        set_drv (\<lambda>(h, v). let v = VmmMapPages (VmmGetPml4 v) (PHYS_TO_VIRT v (mmio AND PAGE_MASK)) (mmio AND PAGE_MASK) 32 (VMM_KERNEL_FLAGS OR VMM_NX) v
          in (h\<lparr>mmio_base := PHYS_TO_VIRT v mmio\<rparr>, v));
        cmd_reg \<leftarrow> on_dev (PciReadConfig B b d f 0x04);
        on_dev (PciWriteConfig B b d f 0x04 (cmd_reg OR 0x07));
        with_vmm (HdaDisableNoSnoop fuel B);
        with_vmm (HdaResetController B);
        base \<leftarrow> with_vmm (drv mmio_base);
        gcap \<leftarrow> with_vmm (HdaRead16 B base HDA_GCAP);
        r \<leftarrow> with_vmm (HdaFindCodecAndPath B);
        if r < 0 then return ()
        else do { with_vmm (HdaSetupAudioPath B); set_drv hda_buffers }
      }
    }"

definition HdaInit :: "nat \<Rightarrow> 'd bus \<Rightarrow> ((hda \<times> vmm) \<times> 'd, unit) state" where
  "HdaInit fuel B =
    do {
      set_drv (\<lambda>(h, v). (zero_hda, v));
      first \<leftarrow> on_dev (PciFindDevice B 0x04 0x01 0xFF);
      found \<leftarrow> (case first of Some dev \<Rightarrow> return first | None \<Rightarrow> on_dev (PciFindDevice B 0x04 0x03 0xFF));
      case found of None \<Rightarrow> return () | Some dev \<Rightarrow> hda_attach fuel B dev
    }"

section \<open>Playback\<close>

text \<open>Reset of the stream: bit set, wait, bit cleared, wait.\<close>

definition stop_run :: "'d bus \<Rightarrow> u64 \<Rightarrow> nat \<Rightarrow> (hda \<times> 'd, unit) state" where
  "stop_run B sd_base timeout =
    do {
      ctl_reg \<leftarrow> HdaRead32 B sd_base HDA_SDn_CTL;
      HdaWrite32 B sd_base HDA_SDn_CTL (ctl_reg AND NOT HDA_SDn_CTL_RUN);
      poll timeout (hda_clear B sd_base HDA_SDn_CTL HDA_SDn_CTL_RUN);
      return ()
    }"

definition reset_stream :: "'d bus \<Rightarrow> u64 \<Rightarrow> (hda \<times> 'd, unit) state" where
  "reset_stream B sd_base =
    do {
      HdaWrite32 B sd_base HDA_SDn_CTL HDA_SDn_CTL_SRST;
      poll 10000 (hda_set B sd_base HDA_SDn_CTL HDA_SDn_CTL_SRST);
      HdaWrite32 B sd_base HDA_SDn_CTL 0;
      poll 10000 (hda_clear B sd_base HDA_SDn_CTL HDA_SDn_CTL_SRST);
      return ()
    }"

definition HdaStop :: "'d bus \<Rightarrow> (hda \<times> 'd, unit) state" where
  "HdaStop B =
    do {
      on \<leftarrow> drv hda_initialized;
      if \<not> on then return ()
      else do {
        sd_base \<leftarrow> HdaGetOutputStreamBase B 0;
        stop_run B sd_base 10000;
        reset_stream B sd_base;
        set_drv (\<lambda>h. h\<lparr>playing := False\<rparr>)
      }
    }"

definition play_ticks :: "u32 \<Rightarrow> u64" where
  "play_ticks len = ucast ((ucast (ucast len * 1000 div 192000 :: u64) :: u32) div 10 + 2)"

definition HdaPlayBuffer :: "'d bus \<Rightarrow> u64 \<Rightarrow> buf option \<Rightarrow> u32 \<Rightarrow> (hda \<times> 'd, ntstatus) state" where
  "HdaPlayBuffer B tick buffer len =
    do {
      on \<leftarrow> drv hda_initialized;
      room \<leftarrow> drv pcm_size;
      if \<not> on then return STATUS_UNSUCCESSFUL
      else case buffer of
        None \<Rightarrow> return STATUS_INVALID_PARAMETER
      | Some data \<Rightarrow>
          if len = 0 \<or> len > room then return STATUS_INVALID_PARAMETER
          else do {
            sd_base \<leftarrow> HdaGetOutputStreamBase B 0;
            busy \<leftarrow> drv playing;
            do_if busy (HdaStop B);
            set_drv (\<lambda>h. h\<lparr>hda_pcm := buf_copy (hda_pcm h) 0 data 0 (unat len),
              hda_bdl := \<lparr>bd_addr = pcm_phys h, bd_length = len, bd_ioc = 1\<rparr>\<rparr>);
            reset_stream B sd_base;
            HdaWrite32 B sd_base HDA_SDn_CTL (push_bit 20 1 OR HDA_SDn_CTL_IOCE);
            HdaWrite16 B sd_base HDA_SDn_FMT 0x0011;
            HdaWrite32 B sd_base HDA_SDn_CBL len;
            HdaWrite16 B sd_base HDA_SDn_LVI 0;
            bdl \<leftarrow> drv bdl_phys;
            HdaWrite32 B sd_base HDA_SDn_BDPL (ucast bdl);
            HdaWrite32 B sd_base HDA_SDn_BDPU (ucast (drop_bit 32 bdl));
            HdaWrite8 B sd_base HDA_SDn_STS 0xFF;
            HdaWrite32 B sd_base HDA_SDn_CTL (push_bit 20 1 OR HDA_SDn_CTL_IOCE OR HDA_SDn_CTL_RUN);
            set_drv (\<lambda>h. h\<lparr>playing := True, bytes_to_play := len, start_tick := tick, duration_ticks := play_ticks len\<rparr>);
            return STATUS_SUCCESS
          }
    }"

text \<open>Called by every timer interrupt.\<close>

definition HdaPoll :: "'d bus \<Rightarrow> u64 \<Rightarrow> (hda \<times> 'd, unit) state" where
  "HdaPoll B tick =
    do {
      on \<leftarrow> drv hda_initialized;
      busy \<leftarrow> drv playing;
      if \<not> on \<or> \<not> busy then return ()
      else do {
        sd_base \<leftarrow> HdaGetOutputStreamBase B 0;
        lpib \<leftarrow> HdaRead32 B sd_base HDA_SDn_LPIB;
        sts \<leftarrow> HdaRead8 B sd_base HDA_SDn_STS;
        late \<leftarrow> drv (\<lambda>h. lpib \<ge> bytes_to_play h \<or> tick \<ge> start_tick h + duration_ticks h);
        do_if (sts AND HDA_SDn_STS_BCIS \<noteq> 0) (HdaWrite8 B sd_base HDA_SDn_STS HDA_SDn_STS_BCIS);
        if sts AND HDA_SDn_STS_BCIS \<noteq> 0 \<or> late then do {
          stop_run B sd_base 1000;
          HdaWrite32 B sd_base HDA_SDn_CTL HDA_SDn_CTL_SRST;
          poll 1000 (hda_set B sd_base HDA_SDn_CTL HDA_SDn_CTL_SRST);
          HdaWrite32 B sd_base HDA_SDn_CTL 0;
          set_drv (\<lambda>h. h\<lparr>playing := False\<rparr>)
        }
        else return ()
      }
    }"

section \<open>The audio interface\<close>

definition AudioInit :: "nat \<Rightarrow> 'd bus \<Rightarrow> ((hda \<times> vmm) \<times> 'd, unit) state" where
  "AudioInit fuel B = do { on \<leftarrow> drv (hda_initialized \<circ> fst); if on then return () else HdaInit fuel B }"

definition AudioInitialized :: "hda \<Rightarrow> bool" where
  "AudioInitialized h = hda_initialized h"

definition AudioPlay :: "'d bus \<Rightarrow> u64 \<Rightarrow> buf option \<Rightarrow> u32 \<Rightarrow> (hda \<times> 'd, ntstatus) state" where
  "AudioPlay B tick buffer len =
    do { on \<leftarrow> drv hda_initialized; if \<not> on then return STATUS_UNSUCCESSFUL else HdaPlayBuffer B tick buffer len }"

definition AudioStop :: "'d bus \<Rightarrow> (hda \<times> 'd, unit) state" where
  "AudioStop = HdaStop"

section \<open>What the driver's calls do to its variables\<close>

text \<open>Register accesses and everything built from them leave the variables alone.\<close>

lemma map_state_on_dev: "map_state f (on_dev m) = on_dev (map_state f m)"
  by (rule state_ext) (simp add: on_dev_def state.map_sel split: prod.splits)

lemma keeps_map [keeps_intro]: "keeps f m \<Longrightarrow> keeps f (map_state g m)"
  by (simp add: keeps_def state.map_sel)

lemma keeps_registers [keeps_intro]:
  "keeps fst (HdaRead32 B a r)" "keeps fst (HdaRead16 B a r)" "keeps fst (HdaRead8 B a r)"
  "keeps fst (HdaWrite32 B a r v)" "keeps fst (HdaWrite16 B a r v16)" "keeps fst (HdaWrite8 B a r v8)"
  by (simp_all add: HdaRead32_def HdaRead16_def HdaRead8_def HdaWrite32_def HdaWrite16_def HdaWrite8_def keeps_intro)

lemma keeps_streams [keeps_intro]: "keeps fst (hda_set B a r b)" "keeps fst (hda_clear B a r b)" "keeps fst (HdaGetOutputStreamBase B i)"
  "keeps fst (stop_run B a n)" "keeps fst (reset_stream B a)" "keeps fst (HdaSendVerb B v)"
proof -
  show b: "keeps fst (hda_set B a r b)" "keeps fst (hda_clear B a r b)" by (simp_all add: hda_set_def hda_clear_def keeps_intro)
  show "keeps fst (HdaGetOutputStreamBase B i)" unfolding HdaGetOutputStreamBase_def by (intro keeps_intro)
  show "keeps fst (stop_run B a n)" "keeps fst (reset_stream B a)"
    unfolding stop_run_def reset_stream_def hda_set_def hda_clear_def by (intro keeps_intro)+
  show "keeps fst (HdaSendVerb B v)"
    unfolding HdaSendVerb_def verb_idle_def verb_round_def by (intro keeps_intro)
qed

lemmas wp_hda = keeps_registers [THEN wp_keeps] keeps_streams [THEN wp_keeps]
  keeps_streams(1,2) [THEN keeps_loops(1), THEN wp_keeps]

lemma HdaStop_drv: "wp (HdaStop B) (\<lambda>_ s. fst s = (if hda_initialized h then h\<lparr>playing := False\<rparr> else h)) (h, d)"
  unfolding HdaStop_def wp_simps by (auto intro!: wp_hda simp: wp_simps)

lemma HdaPoll_stops:
  assumes "start_tick h + duration_ticks h \<le> tick" "hda_initialized h"
  shows "wp (HdaPoll B tick) (\<lambda>_ s. \<not> playing (fst s)) (h, d)"
  unfolding HdaPoll_def wp_simps using assms
  by (auto intro!: wp_hda simp: wp_simps)

text \<open>The variables once a sound has been started.\<close>

definition started :: "u64 \<Rightarrow> buf \<Rightarrow> u32 \<Rightarrow> hda \<Rightarrow> hda" where
  "started t0 data len h = h\<lparr>hda_pcm := buf_copy (hda_pcm h) 0 data 0 (unat len),
     hda_bdl := \<lparr>bd_addr = pcm_phys h, bd_length = len, bd_ioc = 1\<rparr>,
     playing := True, bytes_to_play := len, start_tick := t0, duration_ticks := play_ticks len\<rparr>"

lemma started_again: "started t0 data len (h\<lparr>playing := False\<rparr>) = started t0 data len h"
  by (simp add: started_def)

lemma HdaPlayBuffer_drv:
  "wp (HdaPlayBuffer B t0 (Some data) len) (\<lambda>r s. r = STATUS_SUCCESS \<longrightarrow> hda_initialized h \<and> len \<le> pcm_size h \<and> fst s = started t0 data len h) (h, d)"
proof -
  have stop: "wp (HdaStop B) Q (k, e)" if "hda_initialized k" "\<And>e'. Q () (k\<lparr>playing := False\<rparr>, e')" for k e Q
    using HdaStop_drv [of B k e] that by (auto simp: wp_def split: prod.splits)
  show ?thesis unfolding HdaPlayBuffer_def wp_simps
    by (auto intro!: wp_hda stop simp: wp_simps status_simps started_def not_less)
qed

lemma play_ticks_covers:
  shows "unat len \<le> 1920 * (unat (play_ticks len) - 1)"
proof -
  have l: "unat len < 2 ^ 32" using unsigned_less [of len, where 'a = nat] by simp
  have "unat (ucast len * 1000 :: u64) = unat len * 1000" using l by (simp add: unat_word_ariths unsigned_ucast_eq take_bit_eq_mod)
  then have "unat (ucast len * 1000 div 192000 :: u64) = unat len * 1000 div 192000" by (simp add: unat_div)
  moreover have small: "unat len * 1000 div 192000 < 2 ^ 32" using l by simp
  ultimately have ms: "unat (ucast (ucast len * 1000 div 192000 :: u64) :: u32) = unat len * 1000 div 192000"
    by (simp add: unsigned_ucast_eq take_bit_eq_mod)
  have "unat len div 192 < 4294967296" "unat len * 1000 div 192000 div 10 + 2 < 2 ^ 32" using l by simp_all
  then have "unat (play_ticks len) = unat len * 1000 div 192000 div 10 + 2"
    by (simp add: play_ticks_def unsigned_ucast_eq unat_word_ariths unat_div ms take_bit_eq_mod)
  then show ?thesis by simp
qed

text \<open>A sound that was accepted fits the sample buffer, whose address and length the controller is given; and however the
  controller behaves, playback has ended for the driver at the first timer interrupt after the
  time that the samples take (1920 bytes in 10 ms).\<close>

theorem HdaPlayBuffer_ends:
  assumes "run_state (HdaPlayBuffer B t0 (Some data) len) (h, d) = (STATUS_SUCCESS, h1, d1)"
  shows "unat len \<le> unat (pcm_size h) \<and> hda_bdl h1 = \<lparr>bd_addr = pcm_phys h, bd_length = len, bd_ioc = 1\<rparr> \<and>
    (\<forall>i < unat len. hda_pcm h1 i = data i) \<and> unat len \<le> 1920 * (unat (play_ticks len) - 1) \<and>
    (\<forall>tick d2. t0 + play_ticks len \<le> tick \<longrightarrow> \<not> playing (fst (snd (run_state (HdaPoll B tick) (h1, d2)))))"
proof -
  have p: "hda_initialized h" "len \<le> pcm_size h" "h1 = started t0 data len h"
    using wpD [OF HdaPlayBuffer_drv assms] by simp_all
  have "\<not> playing (fst (snd (run_state (HdaPoll B tick) (h1, d2))))" if "t0 + play_ticks len \<le> tick" for tick d2
    using HdaPoll_stops [of h1 tick B d2] that p by (simp add: started_def wp_def split: prod.splits)
  then show ?thesis using play_ticks_covers p(2) by (auto simp: p(3) started_def buf_copy_def word_le_nat_alt)
qed

text \<open>A controller that answers 1 to its second read and 0 to all others.\<close>

definition quiet_dev :: trace_dev where
  "quiet_dev = \<lparr>tr_answer = (\<lambda>n. if n = 1 then 1 else 0), tr_time = 0, tr_out = []\<rparr>"

definition hda_ready :: hda where
  "hda_ready = zero_hda\<lparr>hda_initialized := True, mmio_base := 0x1000, pcm_size := 0x100000, pcm_phys := 0x200000\<rparr>"

lemma hda_ready_plays: "\<exists>h1 d1. run_state (HdaPlayBuffer trace_bus 7 (Some (\<lambda>i. of_nat i)) 3840) (hda_ready, quiet_dev) = (STATUS_SUCCESS, h1, d1)"
proof -
  have "wp (HdaPlayBuffer trace_bus 7 (Some (\<lambda>i. of_nat i)) 3840) (\<lambda>r s. r = STATUS_SUCCESS) (hda_ready, quiet_dev)"
    unfolding HdaPlayBuffer_def wp_simps
    by (auto intro!: wp_hda simp: wp_simps hda_ready_def zero_hda_def)
  then show ?thesis by (auto simp: wp_def split: prod.splits)
qed

theorem HdaPlayBuffer_ends_witness:
  "\<exists>h1 d1. run_state (HdaPlayBuffer trace_bus 7 (Some (\<lambda>i. of_nat i)) 3840) (hda_ready, quiet_dev) = (STATUS_SUCCESS, h1, d1) \<and>
     hda_pcm h1 300 = 44 \<and> \<not> playing (fst (snd (run_state (HdaPoll trace_bus 11) (h1, d1))))"
proof -
  obtain h1 d1 where r: "run_state (HdaPlayBuffer trace_bus 7 (Some (\<lambda>i. of_nat i)) 3840) (hda_ready, quiet_dev) = (STATUS_SUCCESS, h1, d1)"
    using hda_ready_plays by blast
  have "play_ticks 3840 = 4" by (simp add: play_ticks_def)
  then show ?thesis using HdaPlayBuffer_ends [OF r] r by auto
qed

end
