(* ===== verification/Sched.thy ===== *)
theory Sched
  imports Ps_Create Net Audio
begin

text \<open>
  The scheduler: the timer (\<^verbatim>\<open>Kernel/arch/pit.c\<close>) and the system calls and exceptions of
  \<^verbatim>\<open>Kernel/arch/syscall.c\<close> that switch threads (exit, kill, sleep, waitpid).  A trap frame is the
  register image that the interrupt return loads; a handler takes it and gives the one to load.
  \<open>None\<close> is a call that does not return: a halted machine or a panic of the heap.
\<close>

section \<open>State\<close>

text \<open>\<open>k_hw\<close> is the hardware that the timer interrupt meets: the sound controller.\<close>

record kernel = ps +
  g_tick_count :: u64
  g_pit_frequency :: u32
  k_net :: netstack
  k_hda :: hda
  k_hw :: trace_dev

section \<open>The timer device\<close>

definition PIT_CHANNEL0 :: u16 where "PIT_CHANNEL0 = 0x40"
definition PIT_COMMAND :: u16 where "PIT_COMMAND = 0x43"
definition PIT_BASE_FREQ :: u32 where "PIT_BASE_FREQ = 1193182"

text \<open>The division traps for the frequency 0: the result of \<open>KeInitPit\<close> says whether it returns.\<close>

definition pit_divisor :: "u32 \<Rightarrow> u16" where
  "pit_divisor freq = (let d = ucast (PIT_BASE_FREQ div freq) in if d < 1 then 1 else d)"

definition KeInitPit :: "'d bus \<Rightarrow> u32 \<Rightarrow> ('a kernel_scheme \<times> 'd, bool) state" where
  "KeInitPit B freq =
    (if freq = 0 then return False
     else do {
       set_drv (\<lambda>s. s\<lparr>g_pit_frequency := freq\<rparr>);
       let divisor = pit_divisor freq;
       on_dev (HalOutByte B PIT_COMMAND 0x36);
       on_dev (HalIoWait B);
       on_dev (HalOutByte B PIT_CHANNEL0 (ucast (divisor AND 0xFF)));
       on_dev (HalIoWait B);
       on_dev (HalOutByte B PIT_CHANNEL0 (ucast (drop_bit 8 divisor AND 0xFF)));
       on_dev (HalIoWait B);
       return True
     })"

definition KeGetTickCount :: "'a kernel_scheme \<Rightarrow> u64" where
  "KeGetTickCount s = g_tick_count s"

definition KeSleepTicks :: "u64 \<Rightarrow> ('a kernel_scheme \<Rightarrow> 'a kernel_scheme) list \<Rightarrow> 'a kernel_scheme \<Rightarrow>
    (unit \<times> ('a kernel_scheme \<Rightarrow> 'a kernel_scheme) list \<times> 'a kernel_scheme) option" where
  "KeSleepTicks ticks irqs s =
    (let target = g_tick_count s + ticks in hlt_loop (\<lambda>s. if g_tick_count s < target then None else Some ((), s)) irqs s)"

text \<open>The divisor is exact from 19 Hz on; below, the cast to 16 bits comes before the test against 65535.\<close>

lemma pit_divisor_exact:
  assumes "19 \<le> freq" "freq \<le> PIT_BASE_FREQ"
  shows "unat (pit_divisor freq) = 1193182 div unat freq"
proof -
  have f: "19 \<le> unat freq" "unat freq \<le> 1193182" using assms by (simp_all add: word_le_nat_alt PIT_BASE_FREQ_def)
  have d: "unat (PIT_BASE_FREQ div freq) = 1193182 div unat freq" by (simp add: unat_div PIT_BASE_FREQ_def)
  have "1193182 div unat freq \<le> 1193182 div 19" using f(1) by (rule div_le_mono2 [rotated]) simp
  then have lt: "1193182 div unat freq < 65536" by simp
  have "1193182 div unat freq \<noteq> 0" using f by (simp add: div_eq_0_iff)
  then show ?thesis using lt by (simp add: pit_divisor_def Let_def unsigned_ucast_eq d word_less_nat_alt take_bit_eq_mod)
qed

lemma pit_divisor_truncates: "pit_divisor 18 = 751"
  by (simp add: pit_divisor_def PIT_BASE_FREQ_def)

section \<open>Waking blocked threads\<close>

definition wake_thread :: "u64 \<Rightarrow> 'a kernel_scheme \<Rightarrow> 'a kernel_scheme" where
  "wake_thread t s =
    (let th = thread s t
     in if th_state th = PROCESS_BLOCKED then
          if wakeup_tick th > 0 \<and> g_tick_count s \<ge> wakeup_tick th
          then upd_thread t (\<lambda>h. h\<lparr>th_state := PROCESS_READY, wakeup_tick := 0\<rparr>) s
          else if wait_pid th \<noteq> 0 then
            let wp = PsFindProcess (wait_pid th) s
            in if wp = 0 \<or> p_state (process s wp) = PROCESS_TERMINATED
               then upd_thread t (\<lambda>h. h\<lparr>th_state := PROCESS_READY, wait_pid := 0\<rparr>) s else s
          else s
        else s)"

definition wake_process :: "u64 \<Rightarrow> 'a kernel_scheme \<Rightarrow> 'a kernel_scheme" where
  "wake_process p s =
    (if p_state (process s p) \<noteq> PROCESS_TERMINATED then fold wake_thread (proc_threads (process s p)) s else s)"

definition wake_all :: "'a kernel_scheme \<Rightarrow> 'a kernel_scheme" where
  "wake_all s = fold wake_process (g_process_list s) s"

text \<open>The waiters for a process that ends.\<close>

definition wake_waiter :: "u64 \<Rightarrow> u64 \<Rightarrow> 'a ps_scheme \<Rightarrow> 'a ps_scheme" where
  "wake_waiter ended t s =
    (if th_state (thread s t) = PROCESS_BLOCKED \<and> wait_pid (thread s t) = ended
     then upd_thread t (\<lambda>h. h\<lparr>th_state := PROCESS_READY, wait_pid := 0\<rparr>) s else s)"

definition wake_waiters :: "u64 \<Rightarrow> 'a ps_scheme \<Rightarrow> 'a ps_scheme" where
  "wake_waiters ended s =
    fold (\<lambda>p s. fold (wake_waiter ended) (proc_threads (process s p)) s) (g_process_list s) s"

section \<open>Switching threads\<close>

definition save_frame :: "u64 \<Rightarrow> trap_frame \<Rightarrow> 'a ps_scheme \<Rightarrow> 'a ps_scheme" where
  "save_frame t frame s = upd_thread t (\<lambda>h. h\<lparr>saved_frame := frame, has_saved_frame := True\<rparr>) s"

definition KeSetTssRsp0 :: "u64 \<Rightarrow> 'a ps_scheme \<Rightarrow> 'a ps_scheme" where
  "KeSetTssRsp0 v s = s\<lparr>tss_rsp0 := v\<rparr>"

definition writecr3 :: "u64 \<Rightarrow> 'a ps_scheme \<Rightarrow> 'a ps_scheme" where
  "writecr3 v s = set_vm ((ps_vm s)\<lparr>vm_cr3 := v\<rparr>) s"

text \<open>The lines that the system calls share: load the saved frame of \<open>next\<close> and make it current.\<close>

definition switch_to :: "u64 \<Rightarrow> 'a ps_scheme \<Rightarrow> trap_frame \<times> 'a ps_scheme" where
  "switch_to t s =
    (let frame = saved_frame (thread s t);
         s = upd_thread t (\<lambda>h. h\<lparr>has_saved_frame := False\<rparr>) s;
         s = PsSetCurrentThread t s
     in (frame, if th_process (thread s t) \<noteq> 0
                then writecr3 (cx_cr3 (th_context (thread s t))) (KeSetTssRsp0 (kernel_stack_top (thread s t)) s)
                else s))"

section \<open>The timer interrupt\<close>

definition preempt :: "u64 \<Rightarrow> u64 \<Rightarrow> trap_frame \<Rightarrow> 'a ps_scheme \<Rightarrow> trap_frame \<times> 'a ps_scheme" where
  "preempt cur t frame s =
    (let s = (if th_state (thread s cur) = PROCESS_READY then save_frame cur frame s else s);
         (frame, s) = (if has_saved_frame (thread s t)
                       then (saved_frame (thread s t), upd_thread t (\<lambda>h. h\<lparr>has_saved_frame := False\<rparr>) s)
                       else (frame, s));
         s = PsSetCurrentThread t s;
         s = (if th_process (thread s t) \<noteq> 0 then KeSetTssRsp0 (kernel_stack_top (thread s t)) s else s)
     in (frame, writecr3 (cx_cr3 (th_context (thread s t))) s))"

text \<open>The part before the test of the mode; \<open>ty\<close> and \<open>src\<close> are the uninitialised locals of \<^verbatim>\<open>NetPoll\<close>.\<close>

definition pit_tick :: "u16 \<Rightarrow> mac \<Rightarrow> 'a kernel_scheme \<Rightarrow> 'a kernel_scheme option" where
  "pit_tick ty src s =
    do {
      let s = s\<lparr>g_tick_count := g_tick_count s + 1\<rparr>;
      n \<leftarrow> NetPoll ty src ((k_net s)\<lparr>tick_count := g_tick_count s\<rparr>);
      let (hda, hw) = snd (run_state (HdaPoll trace_bus (g_tick_count s)) (k_hda s, k_hw s));
      Some (wake_all (s\<lparr>k_net := n, k_hda := hda, k_hw := hw\<rparr>))
    }"

definition PitIrqHandler :: "u16 \<Rightarrow> mac \<Rightarrow> trap_frame \<Rightarrow> 'a kernel_scheme \<Rightarrow> (trap_frame \<times> 'a kernel_scheme) option" where
  "PitIrqHandler ty src frame s =
    do {
      s \<leftarrow> pit_tick ty src s;
      let cur = PsGetCurrentThread s;
      if cur = 0 then Some (frame, s)
      else if th_process (thread s cur) \<noteq> 0 \<and> p_state (process s (th_process (thread s cur))) = PROCESS_TERMINATED
      then Some (frame, s)
      else if cs frame AND 3 = 0 then Some (frame, s)
      else do {
        s \<leftarrow> PsCleanupTerminated s;
        let t = PsScheduleNext s;
        if t = 0 then Some (frame, s) else Some (preempt cur t frame s)
      }
    }"

section \<open>Calls that end or block the current thread\<close>

text \<open>The current process ends: the result is its identifier.\<close>

definition terminate_current :: "'a ps_scheme \<Rightarrow> u64 \<times> 'a ps_scheme" where
  "terminate_current s =
    (let t = PsGetCurrentThread s; p = th_process (thread s t)
     in if t \<noteq> 0 \<and> p \<noteq> 0
        then (pid (process s p), upd_thread t (\<lambda>h. h\<lparr>th_state := PROCESS_TERMINATED\<rparr>)
               (upd_process p (\<lambda>q. q\<lparr>p_state := PROCESS_TERMINATED\<rparr>) s))
        else (0, s))"

text \<open>\<open>while (1) HalHlt();\<close> when there is no thread to run.\<close>

definition run_next :: "'a ps_scheme \<Rightarrow> (trap_frame \<times> 'a ps_scheme) option" where
  "run_next s =
    (let t = PsScheduleNext s in if t \<noteq> 0 \<and> has_saved_frame (thread s t) then Some (switch_to t s) else None)"

definition SyscallKillCurrentProcess :: "trap_frame \<Rightarrow> 'a ps_scheme \<Rightarrow> (trap_frame \<times> 'a ps_scheme) option" where
  "SyscallKillCurrentProcess frame s =
    (let (kill_pid, s) = terminate_current s in run_next (wake_waiters kill_pid s))"

definition sys_exit :: "trap_frame \<Rightarrow> 'a ps_scheme \<Rightarrow> (trap_frame \<times> 'a ps_scheme) option" where
  "sys_exit frame s =
    (let (exit_pid, s) = terminate_current s in run_next (wake_waiters exit_pid s))"

definition sys_ret :: "u64 \<Rightarrow> trap_frame \<Rightarrow> 's \<Rightarrow> trap_frame \<times> 's" where
  "sys_ret v frame s = (frame\<lparr>rax := v\<rparr>, s)"

definition sleep_ticks :: "u64 \<Rightarrow> u64" where
  "sleep_ticks ms = (if ms div 10 = 0 then 1 else ms div 10)"

definition sys_sleep :: "trap_frame \<Rightarrow> 'a kernel_scheme \<Rightarrow> trap_frame \<times> 'a kernel_scheme" where
  "sys_sleep frame s =
    (let t = PsGetCurrentThread s
     in if t = 0 \<or> th_process (thread s t) = 0 then sys_ret (- 1) frame s
        else
          let s = upd_thread t (\<lambda>h. h\<lparr>wakeup_tick := KeGetTickCount s + sleep_ticks (rbx frame), th_state := PROCESS_BLOCKED\<rparr>) s;
              s = save_frame t frame s;
              nxt = PsScheduleNext s
          in if nxt \<noteq> 0 \<and> has_saved_frame (thread s nxt) then switch_to nxt s
             else (frame, upd_thread t (\<lambda>h. h\<lparr>th_state := PROCESS_READY, has_saved_frame := False\<rparr>) s))"

definition block_on :: "u64 \<Rightarrow> u64 \<Rightarrow> trap_frame \<Rightarrow> 'a ps_scheme \<Rightarrow> 'a ps_scheme" where
  "block_on t target frame s =
    save_frame t frame (upd_thread t (\<lambda>h. h\<lparr>th_state := PROCESS_BLOCKED, wakeup_tick := 0, wait_pid := target\<rparr>) s)"

text \<open>
  What the loop does after each interrupt: the test for another thread, then the test at the
  head of the loop (which fails in the first round, for the target has just been found alive).
  The outer \<open>None\<close> halts until the next interrupt, the inner one is a panic.
\<close>

definition wait_round :: "u64 \<Rightarrow> u64 \<Rightarrow> 'a kernel_scheme \<Rightarrow> ((trap_frame \<times> 'a kernel_scheme) option \<times> 'a kernel_scheme) option" where
  "wait_round wt target s =
    (let nxt = PsScheduleNext s; chk = PsFindProcess target s
     in if nxt \<noteq> 0 \<and> has_saved_frame (thread s nxt) then Some (Some (switch_to nxt s), s)
        else if chk = 0 \<or> p_state (process s chk) = PROCESS_TERMINATED
        then Some (map_option (\<lambda>s. sys_ret 0 (saved_frame (thread s wt))
               (upd_thread wt (\<lambda>h. h\<lparr>has_saved_frame := False, th_state := PROCESS_READY, wait_pid := 0\<rparr>) s))
             (PsCleanupTerminated s), s)
        else None)"

definition sys_waitpid :: "(('a kernel_scheme \<Rightarrow> 'a kernel_scheme) list) \<Rightarrow> trap_frame \<Rightarrow> 'a kernel_scheme \<Rightarrow>
    (trap_frame \<times> 'a kernel_scheme) option" where
  "sys_waitpid irqs frame s =
    (let target = rbx frame; wp = PsFindProcess target s
     in if wp = 0 then Some (sys_ret 0 frame s)
        else if p_state (process s wp) = PROCESS_TERMINATED
        then map_option (sys_ret 0 frame) (PsCleanupTerminated s)
        else
          let wt = PsGetCurrentThread s
          in if wt = 0 \<or> th_process (thread s wt) = 0 then Some (sys_ret (- 1) frame s)
             else
               let nxt = PsScheduleNext s; s = block_on wt target frame s
               in if nxt \<noteq> 0 \<and> has_saved_frame (thread s nxt) then Some (switch_to nxt s)
                  else case irqs of
                         [] \<Rightarrow> None
                       | irq # irqs \<Rightarrow>
                         (case hlt_loop (wait_round wt target) irqs (irq s) of
                            None \<Rightarrow> None | Some (r, _, _) \<Rightarrow> r))"

section \<open>Starting a loaded program\<close>

definition start_frame :: "thread_context \<Rightarrow> trap_frame" where
  "start_frame c = zero_frame\<lparr>rip := cx_rip c, cs := 0x2B, rflags := 0x202, rsp := cx_rsp c, ss := 0x23,
     rbx := rbx c, rcx := rcx c, rdx := rdx c\<rparr>"

text \<open>The end of \<open>SYS_EXEC\<close>: the parent waits for the child, which runs at once.\<close>

definition exec_start :: "u64 \<Rightarrow> u64 \<Rightarrow> trap_frame \<Rightarrow> 'a ps_scheme \<Rightarrow> trap_frame \<times> 'a ps_scheme" where
  "exec_start proc child frame s =
    (let s = upd_thread child (\<lambda>h. h\<lparr>saved_frame := start_frame (th_context h), has_saved_frame := True, th_state := PROCESS_READY\<rparr>) s;
         s = upd_process proc (\<lambda>q. q\<lparr>p_state := PROCESS_READY\<rparr>) s;
         parent = PsGetCurrentThread s;
         i = pid (process s proc)
     in if parent \<noteq> 0 \<and> th_process (thread s parent) \<noteq> 0 then
          let s = upd_thread parent (\<lambda>h. h\<lparr>th_state := PROCESS_BLOCKED, wait_pid := i, wakeup_tick := 0,
                    saved_frame := frame\<lparr>rax := i\<rparr>, has_saved_frame := True\<rparr>) s;
              frame = saved_frame (thread s child);
              s = upd_thread child (\<lambda>h. h\<lparr>has_saved_frame := False\<rparr>) s;
              s = PsSetCurrentThread child s
          in (frame, writecr3 (cx_cr3 (th_context (thread s child))) (KeSetTssRsp0 (kernel_stack_top (thread s child)) s))
        else sys_ret i frame s)"

section \<open>What the scheduler sees\<close>

text \<open>The register image with which a thread goes on.\<close>

definition cpu_view :: "trap_frame \<Rightarrow> 'a ps_scheme \<Rightarrow> u64 \<Rightarrow> trap_frame option" where
  "cpu_view frame s t =
    (if t = g_current_thread s then Some frame
     else if has_saved_frame (thread s t) then Some (saved_frame (thread s t)) else None)"

text \<open>\<open>s'\<close> differs from \<open>s\<close> by blocked threads that have been made ready.\<close>

definition woken_thread :: "kthread \<Rightarrow> kthread \<Rightarrow> bool" where
  "woken_thread h h' \<longleftrightarrow> h' = h \<or> th_state h = PROCESS_BLOCKED \<and>
    (\<exists>w x. h' = h\<lparr>th_state := PROCESS_READY, wakeup_tick := w, wait_pid := x\<rparr>)"

definition woken :: "'a ps_scheme \<Rightarrow> 'a ps_scheme \<Rightarrow> bool" where
  "woken s s' \<longleftrightarrow> (\<exists>f. s' = s\<lparr>thread := f\<rparr> \<and> (\<forall>t. woken_thread (thread s t) (f t)))"

lemma woken_thread_refl [simp]: "woken_thread h h"
  by (simp add: woken_thread_def)

lemma woken_refl [simp]: "woken s s"
  unfolding woken_def by (rule exI [of _ "thread s"]) simp

lemma woken_thread_trans: "woken_thread a b \<Longrightarrow> woken_thread b c \<Longrightarrow> woken_thread a c"
  by (auto simp: woken_thread_def)

lemma woken_trans:
  assumes "woken s t" "woken t u"
  shows "woken s u"
proof -
  obtain f where f: "t = s\<lparr>thread := f\<rparr>" "\<And>x. woken_thread (thread s x) (f x)" using assms(1) by (auto simp: woken_def)
  obtain g where g: "u = t\<lparr>thread := g\<rparr>" "\<And>x. woken_thread (thread t x) (g x)" using assms(2) by (auto simp: woken_def)
  have "u = s\<lparr>thread := g\<rparr>" by (simp add: f(1) g(1))
  moreover have "woken_thread (thread s x) (g x)" for x using woken_thread_trans [OF f(2)] g(2) [of x] by (simp add: f(1))
  ultimately show ?thesis by (auto simp: woken_def)
qed

lemma woken_fold: "(\<And>x s. woken s (f x s)) \<Longrightarrow> woken s (fold f xs s)"
  by (induction xs arbitrary: s) (auto intro: woken_trans)

lemma woken_upd:
  assumes "th_state (thread s t) = PROCESS_BLOCKED"
  shows "woken s (upd_thread t (\<lambda>h. h\<lparr>th_state := PROCESS_READY, wakeup_tick := 0\<rparr>) s)"
    and "woken s (upd_thread t (\<lambda>h. h\<lparr>th_state := PROCESS_READY, wait_pid := 0\<rparr>) s)"
proof -
  have "woken_thread h (h\<lparr>th_state := PROCESS_READY, wakeup_tick := 0\<rparr>)" "woken_thread h (h\<lparr>th_state := PROCESS_READY, wait_pid := 0\<rparr>)"
    if "th_state h = PROCESS_BLOCKED" for h
  proof -
    have "h\<lparr>th_state := PROCESS_READY, wakeup_tick := 0\<rparr> = h\<lparr>th_state := PROCESS_READY, wakeup_tick := 0, wait_pid := wait_pid h\<rparr>"
      "h\<lparr>th_state := PROCESS_READY, wait_pid := 0\<rparr> = h\<lparr>th_state := PROCESS_READY, wakeup_tick := wakeup_tick h, wait_pid := 0\<rparr>"
      by (cases h; simp)+
    with that show "woken_thread h (h\<lparr>th_state := PROCESS_READY, wakeup_tick := 0\<rparr>)" "woken_thread h (h\<lparr>th_state := PROCESS_READY, wait_pid := 0\<rparr>)"
      unfolding woken_thread_def by blast+
  qed
  from this [OF assms] show "woken s (upd_thread t (\<lambda>h. h\<lparr>th_state := PROCESS_READY, wakeup_tick := 0\<rparr>) s)"
    "woken s (upd_thread t (\<lambda>h. h\<lparr>th_state := PROCESS_READY, wait_pid := 0\<rparr>) s)"
    by (auto simp: woken_def upd_thread_def)
qed

lemma woken_wake_thread: "woken s (wake_thread t s)"
  by (auto simp: wake_thread_def Let_def intro!: woken_upd)

lemma woken_wake_all: "woken s (wake_all s)"
  unfolding wake_all_def by (rule woken_fold) (auto simp: wake_process_def intro!: woken_fold woken_wake_thread)

lemma woken_wake_waiters: "woken s (wake_waiters ended s)"
  unfolding wake_waiters_def
  by (rule woken_fold, rule woken_fold) (auto simp: wake_waiter_def intro!: woken_upd)

lemma wokenD:
  assumes "woken s s'"
  shows "ps_heap s' = ps_heap s" "process s' = process s" "g_process_list s' = g_process_list s" "g_next_pid s' = g_next_pid s"
    "g_current_thread s' = g_current_thread s" "g_current_process s' = g_current_process s" "tss_rsp0 s' = tss_rsp0 s"
    "saved_frame (thread s' t) = saved_frame (thread s t)" "has_saved_frame (thread s' t) = has_saved_frame (thread s t)"
    "th_process (thread s' t) = th_process (thread s t)" "th_context (thread s' t) = th_context (thread s t)"
    "kernel_stack_top (thread s' t) = kernel_stack_top (thread s t)" "ps.more s' = ps.more s"
    "th_state (thread s' t) \<noteq> PROCESS_BLOCKED \<and> th_state (thread s t) = PROCESS_BLOCKED \<or> thread s' t = thread s t"
proof -
  obtain f where f: "s' = s\<lparr>thread := f\<rparr>" "\<And>t. woken_thread (thread s t) (f t)" using assms by (auto simp: woken_def)
  show "saved_frame (thread s' t) = saved_frame (thread s t)" "has_saved_frame (thread s' t) = has_saved_frame (thread s t)"
    "th_process (thread s' t) = th_process (thread s t)" "th_context (thread s' t) = th_context (thread s t)"
    "kernel_stack_top (thread s' t) = kernel_stack_top (thread s t)"
    "th_state (thread s' t) \<noteq> PROCESS_BLOCKED \<and> th_state (thread s t) = PROCESS_BLOCKED \<or> thread s' t = thread s t"
    using f(2) [of t] by (auto simp: f(1) woken_thread_def)
qed (use assms in \<open>auto simp: woken_def\<close>)

lemma woken_shape: "woken s s' \<Longrightarrow> ps_shape s' = ps_shape s"
  by (simp add: ps_shape_def wokenD)

lemma woken_view: "woken s s' \<Longrightarrow> cpu_view frame s' = cpu_view frame s"
  by (simp add: cpu_view_def wokenD fun_eq_iff)

section \<open>The invariant of the scheduler\<close>

definition user_frame :: "trap_frame \<Rightarrow> bool" where
  "user_frame f \<longleftrightarrow> cs f AND 3 \<noteq> 0"

text \<open>A thread that has been switched out goes on in user mode.\<close>

definition frames_ok :: "'a ps_scheme \<Rightarrow> bool" where
  "frames_ok s \<longleftrightarrow> (\<forall>p\<in>set (g_process_list s). \<forall>t\<in>set (proc_threads (process s p)).
     has_saved_frame (thread s t) \<longrightarrow> user_frame (saved_frame (thread s t)))"

text \<open>A blocked thread can be resumed, and has a reason to wait: a time, or a process that is alive.\<close>

definition waits_ok :: "'a ps_scheme \<Rightarrow> bool" where
  "waits_ok s \<longleftrightarrow> (\<forall>p\<in>set (g_process_list s). \<not> dead s p \<longrightarrow> (\<forall>t\<in>set (proc_threads (process s p)).
     th_state (thread s t) = PROCESS_BLOCKED \<longrightarrow> has_saved_frame (thread s t) \<and>
       (wakeup_tick (thread s t) > 0 \<or> (\<exists>q\<in>set (g_process_list s). \<not> dead s q \<and> pid (process s q) = wait_pid (thread s t)))))"

text \<open>The current thread runs with its own address space and kernel stack.\<close>

definition loaded_ok :: "'a ps_scheme \<Rightarrow> bool" where
  "loaded_ok s \<longleftrightarrow> g_current_thread s \<noteq> 0 \<and> \<not> dead s (g_current_process s) \<and>
     vm_cr3 (ps_vm s) = cx_cr3 (th_context (thread s (g_current_thread s))) \<and>
     tss_rsp0 s = kernel_stack_top (thread s (g_current_thread s))"

definition sched_inv :: "trap_frame \<Rightarrow> 'a ps_scheme \<Rightarrow> bool" where
  "sched_inv frame s \<longleftrightarrow> ps_inv s \<and> loaded_ok s \<and> th_state (thread s (g_current_thread s)) = PROCESS_READY \<and>
     waits_ok s \<and> frames_ok s \<and> user_frame frame"

lemma dead_process: "process s' = process s \<Longrightarrow> dead s' = dead s"
  by (simp add: dead_def fun_eq_iff)

lemma woken_inv:
  assumes "woken s s'"
  shows "ps_inv s \<Longrightarrow> ps_inv s'" "waits_ok s \<Longrightarrow> waits_ok s'" "frames_ok s \<Longrightarrow> frames_ok s'" "loaded_ok s \<Longrightarrow> loaded_ok s'"
proof -
  note w = wokenD [OF assms]
  note d = dead_process [OF w(2)]
  show "ps_inv s \<Longrightarrow> ps_inv s'" by (rule ps_inv_shape [OF _ woken_shape [OF assms]]) (auto simp: w ps_inv_def)
  show "frames_ok s \<Longrightarrow> frames_ok s'" "loaded_ok s \<Longrightarrow> loaded_ok s'" by (simp_all add: frames_ok_def loaded_ok_def d w)
  have "th_state (thread s' t) = PROCESS_BLOCKED \<Longrightarrow> thread s' t = thread s t" for t using w(14) [of t] by blast
  then show "waits_ok s \<Longrightarrow> waits_ok s'" unfolding waits_ok_def d w by metis
qed

section \<open>Switching keeps it\<close>

text \<open>The first process of the list that can run is taken, whoever ran last.\<close>

lemma schedule_first:
  assumes "g_process_list s = ps @ p # qs" "schedulable s p" "\<forall>q\<in>set ps. \<not> schedulable s q"
  shows "PsScheduleNext s = threads (process s p) 0"
proof -
  have "find (schedulable s) (ps @ p # qs) = Some p" using assms(2,3) by (induction ps) auto
  then show ?thesis by (simp add: PsScheduleNext_def assms(1))
qed

lemma schedule_next:
  assumes "PsScheduleNext s \<noteq> 0"
  obtains p where "p \<in> set (g_process_list s)" "\<not> dead s p" "PsScheduleNext s \<in> set (proc_threads (process s p))"
    "th_state (thread s (PsScheduleNext s)) = PROCESS_READY" "PsScheduleNext s \<noteq> g_current_thread s"
    "has_saved_frame (thread s (PsScheduleNext s))"
proof -
  obtain p where p: "find (schedulable s) (g_process_list s) = Some p" "PsScheduleNext s = threads (process s p) 0"
    using assms by (auto simp: PsScheduleNext_def split: option.splits)
  then have in_list: "p \<in> set (g_process_list s)" and ok: "schedulable s p" by (auto simp: find_Some_iff)
  have "thread_count (process s p) > 0" using ok by (simp add: schedulable_def)
  then have "0 < unat (thread_count (process s p))" by (simp add: word_less_nat_alt)
  then have "threads (process s p) 0 \<in> set (map (threads (process s p)) [0..<min MAX_THREADS (unat (thread_count (process s p)))])"
    by (force simp: MAX_THREADS_def)
  then show ?thesis using that in_list ok p(2) by (auto simp: schedulable_def proc_threads_def dead_def Let_def)
qed

lemma thread_owner:
  assumes "ps_inv s" "p \<in> set (g_process_list s)" "t \<in> set (proc_threads (process s p))"
  shows "th_process (thread s t) = p" "cx_cr3 (th_context (thread s t)) = p_page_table (process s p)" "t \<noteq> 0"
  using assms proc_threads_nonzero by (auto simp: ps_inv_def)

text \<open>What a switch does to the state.\<close>

lemma switch_toD:
  assumes "switch_to t s = (f, s')" "th_process (thread s t) \<noteq> 0" "t \<noteq> 0"
  shows "f = saved_frame (thread s t)" "g_current_thread s' = t" "g_current_process s' = th_process (thread s t)"
    "process s' = process s" "g_process_list s' = g_process_list s" "g_next_pid s' = g_next_pid s"
    "thread s' = (thread s)(t := (thread s t)\<lparr>has_saved_frame := False\<rparr>)"
    "vm_cr3 (ps_vm s') = cx_cr3 (th_context (thread s t))" "tss_rsp0 s' = kernel_stack_top (thread s t)" "ps.more s' = ps.more s"
  using assms by (auto simp: switch_to_def Let_def PsSetCurrentThread_def writecr3_def KeSetTssRsp0_def upd_thread_def split: if_splits)

lemma switch_inv:
  assumes "switch_to (PsScheduleNext s) s = (f, s')" "PsScheduleNext s \<noteq> 0" "ps_inv s" "waits_ok s" "frames_ok s"
  shows "sched_inv f s'"
proof -
  let ?t = "PsScheduleNext s"
  obtain p where p: "p \<in> set (g_process_list s)" "\<not> dead s p" "?t \<in> set (proc_threads (process s p))"
    "th_state (thread s ?t) = PROCESS_READY" "?t \<noteq> g_current_thread s" "has_saved_frame (thread s ?t)"
    using schedule_next [OF assms(2)] by blast
  note own = thread_owner [OF assms(3) p(1,3)]
  have "p \<noteq> 0" using assms(3) p(1) by (auto simp: ps_inv_def)
  then have np: "th_process (thread s ?t) \<noteq> 0" using own(1) by simp
  note w = switch_toD [OF assms(1) np assms(2)]
  have shape: "ps_shape s' = ps_shape s" by (auto simp: ps_shape_def w)
  have d: "dead s' = dead s" by (rule dead_process [OF w(4)])
  have "ps_inv s'" by (rule ps_inv_shape [OF assms(3) shape]) (use p own in \<open>simp add: w\<close>)
  moreover have "loaded_ok s'" using p own assms(2) by (simp add: loaded_ok_def w d)
  moreover have "waits_ok s'" using assms(4) p(4) unfolding waits_ok_def w d by auto
  moreover have "frames_ok s'" using assms(5) unfolding frames_ok_def w by auto
  moreover have "user_frame f" using assms(5) p by (auto simp: frames_ok_def w(1))
  ultimately show ?thesis using p(4) by (simp add: sched_inv_def w)
qed

lemma switch_view:
  assumes "switch_to (PsScheduleNext s) s = (f, s')" "PsScheduleNext s \<noteq> 0" "ps_inv s"
  shows "cpu_view f s' t = (if t = g_current_thread s then if has_saved_frame (thread s t) then Some (saved_frame (thread s t)) else None
    else cpu_view frame s t)"
proof -
  let ?t = "PsScheduleNext s"
  obtain p where p: "p \<in> set (g_process_list s)" "?t \<in> set (proc_threads (process s p))" "?t \<noteq> g_current_thread s"
    "has_saved_frame (thread s ?t)"
    using schedule_next [OF assms(2)] by blast
  have "th_process (thread s ?t) \<noteq> 0" using thread_owner(1) [OF assms(3) p(1,2)] p(1) assms(3) by (auto simp: ps_inv_def)
  note w = switch_toD [OF assms(1) this assms(2)]
  show ?thesis using p(3,4) by (auto simp: cpu_view_def w)
qed

text \<open>Releasing the terminated processes keeps it.\<close>

lemma distinct_concat_filter: "distinct (concat (map f xs)) \<Longrightarrow> distinct (concat (map f (filter P xs)))"
  by (induction xs) auto

lemma cleanupD:
  assumes "PsCleanupTerminated s = Some s'" "0 \<notin> set (g_process_list s)"
  shows "g_process_list s' = filter (\<lambda>p. \<not> dead s p) (g_process_list s)" "process s' = process s" "thread s' = thread s"
    "g_next_pid s' = g_next_pid s" "vm_cr3 (ps_vm s') = vm_cr3 (ps_vm s)" "tss_rsp0 s' = tss_rsp0 s" "ps.more s' = ps.more s"
    "ps_current s' = (if \<exists>p\<in>set (g_process_list s). dead s p \<and>
        (g_current_thread s \<in> set (proc_threads (process s p)) \<or> g_current_process s = p) then (0, 0) else ps_current s)"
proof -
  obtain k u where u: "cleanup_list (g_process_list s) s = Some (k, u)" "s' = u\<lparr>g_process_list := k\<rparr>"
    using assms(1) by (auto simp: PsCleanupTerminated_def)
  from cleanup_list_result [OF u(1) assms(2)]
  show "g_process_list s' = filter (\<lambda>p. \<not> dead s p) (g_process_list s)" "process s' = process s" "thread s' = thread s"
    "g_next_pid s' = g_next_pid s" "vm_cr3 (ps_vm s') = vm_cr3 (ps_vm s)" "tss_rsp0 s' = tss_rsp0 s" "ps.more s' = ps.more s"
    "ps_current s' = (if \<exists>p\<in>set (g_process_list s). dead s p \<and>
        (g_current_thread s \<in> set (proc_threads (process s p)) \<or> g_current_process s = p) then (0, 0) else ps_current s)"
    by (auto simp: u(2) ps_objects_def ps_current_def)
qed

lemma cleanup_inv:
  assumes "PsCleanupTerminated s = Some s'" "ps_inv s" "loaded_ok s"
  shows "ps_inv s'" "loaded_ok s'" "waits_ok s \<Longrightarrow> waits_ok s'" "frames_ok s \<Longrightarrow> frames_ok s'" "thread s' = thread s"
    "g_current_thread s' = g_current_thread s" "g_current_process s' = g_current_process s" "process s' = process s"
    "g_process_list s' = filter (\<lambda>p. \<not> dead s p) (g_process_list s)" "ps.more s' = ps.more s"
proof -
  have z: "0 \<notin> set (g_process_list s)" using assms(2) by (simp add: ps_inv_def)
  note c = cleanupD [OF assms(1) z]
  have cur: "g_current_process s \<in> set (g_process_list s)" "\<not> dead s (g_current_process s)"
    "g_current_thread s \<in> set (proc_threads (process s (g_current_process s)))"
    using assms(2,3) by (auto simp: ps_inv_def loaded_ok_def)
  have "\<not> (\<exists>p\<in>set (g_process_list s). dead s p \<and>
        (g_current_thread s \<in> set (proc_threads (process s p)) \<or> g_current_process s = p))"
    using cur assms(2) thread_owner(1) by metis
  from c(8) [unfolded if_not_P [OF this]] have "ps_current s' = ps_current s" .
  then show same: "g_current_thread s' = g_current_thread s" "g_current_process s' = g_current_process s"
    by (simp_all add: ps_current_def)
  show "thread s' = thread s" "process s' = process s" "g_process_list s' = filter (\<lambda>p. \<not> dead s p) (g_process_list s)"
    "ps.more s' = ps.more s" by (fact c(3), fact c(2), fact c(1), fact c(7))
  have d: "dead s' = dead s" by (rule dead_process [OF c(2)])
  have "proc_objects s' = proc_objects s" by (simp add: proc_objects_def c(2) fun_eq_iff)
  then have "distinct (all_objects s')" using assms(2) distinct_concat_filter by (auto simp: all_objects_def c(1) ps_inv_def)
  then show "ps_inv s'" using assms(2) cur unfolding ps_inv_def c same by (auto simp: inj_on_def)
  show "loaded_ok s'" using assms(3) by (simp add: loaded_ok_def same d c)
  show "waits_ok s \<Longrightarrow> waits_ok s'" unfolding waits_ok_def d c by auto
  show "frames_ok s \<Longrightarrow> frames_ok s'" unfolding frames_ok_def c by auto
qed

section \<open>The timer interrupt keeps it\<close>

text \<open>The fields that only the devices and the clock use.\<close>

definition tick_state :: "netstack \<Rightarrow> hda \<Rightarrow> trace_dev \<Rightarrow> 'a kernel_scheme \<Rightarrow> 'a kernel_scheme" where
  "tick_state n h d s = s\<lparr>g_tick_count := g_tick_count s + 1, k_net := n, k_hda := h, k_hw := d\<rparr>"

lemma pit_tickD:
  assumes "pit_tick ty src s = Some s'"
  obtains n h d where "s' = wake_all (tick_state n h d s)"
  using assms by (auto simp: pit_tick_def tick_state_def Let_def split: prod.splits Option.bind_splits)

lemma tick_fields [simp]: "thread (tick_state n h d s) = thread s" "process (tick_state n h d s) = process s"
  "g_process_list (tick_state n h d s) = g_process_list s" "g_current_thread (tick_state n h d s) = g_current_thread s"
  "g_current_process (tick_state n h d s) = g_current_process s" "g_next_pid (tick_state n h d s) = g_next_pid s"
  "ps_heap (tick_state n h d s) = ps_heap s" "tss_rsp0 (tick_state n h d s) = tss_rsp0 s"
  "g_tick_count (tick_state n h d s) = g_tick_count s + 1"
  by (simp_all add: tick_state_def)

lemma tick_preds [simp]: "ps_inv (tick_state n h d s) = ps_inv s" "waits_ok (tick_state n h d s) = waits_ok s"
  "frames_ok (tick_state n h d s) = frames_ok s" "loaded_ok (tick_state n h d s) = loaded_ok s"
  "cpu_view f (tick_state n h d s) = cpu_view f s" "dead (tick_state n h d s) = dead s"
  by (simp_all add: ps_inv_def all_objects_def proc_objects_def [abs_def] waits_ok_def frames_ok_def loaded_ok_def cpu_view_def
      dead_def [abs_def] fun_eq_iff)

lemma pit_tick_inv:
  assumes "pit_tick ty src s = Some s'"
  shows "ps_inv s \<Longrightarrow> ps_inv s'" "waits_ok s \<Longrightarrow> waits_ok s'" "frames_ok s \<Longrightarrow> frames_ok s'" "loaded_ok s \<Longrightarrow> loaded_ok s'"
    "cpu_view f s' = cpu_view f s" "g_current_thread s' = g_current_thread s" "g_current_process s' = g_current_process s"
    "process s' = process s" "g_process_list s' = g_process_list s"
    "th_process (thread s' t) = th_process (thread s t)"
    "th_state (thread s t) = PROCESS_READY \<Longrightarrow> th_state (thread s' t) = PROCESS_READY"
proof -
  obtain n h d where n: "s' = wake_all (tick_state n h d s)"
    using assms by (rule pit_tickD)
  have w: "woken (tick_state n h d s) s'" unfolding n by (rule woken_wake_all)
  show "ps_inv s \<Longrightarrow> ps_inv s'" "waits_ok s \<Longrightarrow> waits_ok s'" "frames_ok s \<Longrightarrow> frames_ok s'" "loaded_ok s \<Longrightarrow> loaded_ok s'"
    using woken_inv [OF w] by simp_all
  show "cpu_view f s' = cpu_view f s" using woken_view [OF w] by simp
  show "g_current_thread s' = g_current_thread s" "g_current_process s' = g_current_process s"
    "process s' = process s" "g_process_list s' = g_process_list s" "th_process (thread s' t) = th_process (thread s t)"
    using wokenD [OF w] by simp_all
  show "th_state (thread s t) = PROCESS_READY \<Longrightarrow> th_state (thread s' t) = PROCESS_READY"
    using wokenD(14) [OF w, of t] by auto
qed

text \<open>The switch of the interrupt is a save followed by the switch of the system calls.\<close>

lemma save_frameD [simp]: "thread (save_frame t frame s) = (thread s)(t := (thread s t)\<lparr>saved_frame := frame, has_saved_frame := True\<rparr>)"
  "process (save_frame t frame s) = process s" "g_process_list (save_frame t frame s) = g_process_list s"
  "g_current_thread (save_frame t frame s) = g_current_thread s" "g_current_process (save_frame t frame s) = g_current_process s"
  "g_next_pid (save_frame t frame s) = g_next_pid s" "tss_rsp0 (save_frame t frame s) = tss_rsp0 s"
  "ps_heap (save_frame t frame s) = ps_heap s" "ps.more (save_frame t frame s) = ps.more s"
  by (simp_all add: save_frame_def upd_thread_def)

lemma preempt_switch:
  assumes "th_state (thread s cur) = PROCESS_READY" "has_saved_frame (thread s t)" "th_process (thread s t) \<noteq> 0" "t \<noteq> cur"
  shows "preempt cur t frame s = switch_to t (save_frame cur frame s)"
  using assms by (simp add: preempt_def switch_to_def Let_def) (auto simp: upd_thread_def PsSetCurrentThread_def KeSetTssRsp0_def Let_def)

lemma save_current:
  assumes "sched_inv frame s"
  shows "ps_inv (save_frame (g_current_thread s) frame s)" "waits_ok (save_frame (g_current_thread s) frame s)"
    "frames_ok (save_frame (g_current_thread s) frame s)"
    "PsScheduleNext (save_frame (g_current_thread s) frame s) = PsScheduleNext s"
    "cpu_view f (save_frame (g_current_thread s) frame s) = cpu_view f s"
proof -
  let ?s = "save_frame (g_current_thread s) frame s"
  have i: "ps_inv s" using assms by (simp add: sched_inv_def)
  have "ps_shape ?s = ps_shape s" by (auto simp: ps_shape_def)
  then show "ps_inv ?s" by (rule ps_inv_shape [OF i]) (use i in \<open>simp add: ps_inv_def\<close>)
  have d: "dead ?s = dead s" by (rule dead_process) simp
  show "waits_ok ?s" using assms unfolding sched_inv_def waits_ok_def d by auto
  show "frames_ok ?s" using assms unfolding sched_inv_def frames_ok_def by auto
  have "schedulable ?s p = schedulable s p" for p by (auto simp: schedulable_def Let_def)
  then have "schedulable ?s = schedulable s" by (simp add: fun_eq_iff)
  then show "PsScheduleNext ?s = PsScheduleNext s" by (simp add: PsScheduleNext_def cong: option.case_cong)
  show "cpu_view f ?s = cpu_view f s" by (auto simp: cpu_view_def fun_eq_iff)
qed

lemma PitIrqHandler_inv:
  assumes "PitIrqHandler ty src frame s = Some (frame', s')" "sched_inv frame s"
  shows "sched_inv frame' s' \<and> cpu_view frame' s' = cpu_view frame s"
proof -
  obtain u where u: "pit_tick ty src s = Some u" using assms(1) by (auto simp: PitIrqHandler_def split: Option.bind_splits)
  note k = pit_tick_inv [OF u]
  have inv: "sched_inv frame u" using assms(2) k by (auto simp: sched_inv_def)
  let ?c = "g_current_thread u"
  have cur: "?c \<noteq> 0" "ps_inv u" "loaded_ok u" using inv by (auto simp: sched_inv_def loaded_ok_def)
  then have "th_process (thread u ?c) = g_current_process u" using thread_owner(1) by (auto simp: ps_inv_def)
  then obtain v where v: "PsCleanupTerminated u = Some v"
    "(if PsScheduleNext v = 0 then Some (frame, v) else Some (preempt ?c (PsScheduleNext v) frame v)) = Some (frame', s')"
    using assms(1) u cur inv by (auto simp: PitIrqHandler_def PsGetCurrentThread_def Let_def loaded_ok_def dead_def sched_inv_def
        user_frame_def split: Option.bind_splits)
  note c = cleanup_inv [OF v(1) cur(2,3)]
  have inv2: "sched_inv frame v" using inv c by (auto simp: sched_inv_def)
  have view2: "cpu_view frame v = cpu_view frame s" by (simp add: cpu_view_def c k(5) [symmetric] fun_eq_iff)
  show ?thesis
  proof (cases "PsScheduleNext v = 0")
    case True
    then show ?thesis using v(2) inv2 view2 by simp
  next
    case False
    let ?t = "PsScheduleNext v"
    let ?w = "save_frame (g_current_thread v) frame v"
    obtain p where p: "p \<in> set (g_process_list v)" "?t \<in> set (proc_threads (process v p))" "?t \<noteq> g_current_thread v"
      "has_saved_frame (thread v ?t)"
      using schedule_next [OF False] by blast
    have "th_process (thread v ?t) \<noteq> 0" using thread_owner(1) [OF c(1) p(1,2)] p(1) c(1) by (auto simp: ps_inv_def)
    then have sw: "switch_to (PsScheduleNext ?w) ?w = (frame', s')"
      using v(2) False preempt_switch [of v ?c ?t frame] p(3,4) inv2 by (simp add: save_current(4) [OF inv2, unfolded c(6)] c(6) sched_inv_def)
    note s = save_current [OF inv2]
    have nz: "PsScheduleNext ?w \<noteq> 0" using False s(4) by simp
    have "cpu_view frame' s' t = cpu_view frame v t" for t
      using switch_view [OF sw nz s(1), of t frame] s(5) by (auto simp: cpu_view_def)
    then show ?thesis using switch_inv [OF sw nz s(1-3)] view2 by (simp add: fun_eq_iff)
  qed
qed

section \<open>Ending and blocking keep it\<close>

lemma schedule_upd_current: "PsScheduleNext (upd_thread (g_current_thread s) f s) = PsScheduleNext s"
proof -
  have "schedulable (upd_thread (g_current_thread s) f s) p = schedulable s p" for p
    by (auto simp: schedulable_def upd_thread_def Let_def)
  then have "schedulable (upd_thread (g_current_thread s) f s) = schedulable s" by (simp add: fun_eq_iff)
  then show ?thesis by (simp add: PsScheduleNext_def upd_thread_def cong: option.case_cong)
qed

text \<open>A fold establishes what each of its steps does and no other undoes.\<close>

lemma fold_establishes:
  assumes "x \<in> set xs" "\<And>s. I s \<Longrightarrow> Q (f x s)" "\<And>y s. I s \<Longrightarrow> Q s \<Longrightarrow> Q (f y s)" "\<And>y s. I s \<Longrightarrow> I (f y s)" "I s"
  shows "Q (fold f xs s)"
proof -
  have keep: "Q s \<Longrightarrow> I s \<Longrightarrow> Q (fold f ys s)" for ys s using assms(3,4) by (induction ys arbitrary: s) auto
  show ?thesis using assms(1,5) by (induction xs arbitrary: s) (auto intro: keep assms(2,4))
qed

lemma woken_at: "woken s u \<Longrightarrow> woken_thread (thread s t) (thread u t)"
  by (auto simp: woken_def)

lemma woken_fold_establishes:
  assumes "x \<in> set xs" "\<And>y u. woken u (f y u)" "\<And>u. woken s u \<Longrightarrow> Q (thread (f x u) t)"
    and "\<And>h h'. woken_thread h h' \<Longrightarrow> Q h \<Longrightarrow> Q h'"
  shows "Q (thread (fold f xs s) t)"
proof (rule fold_establishes [where I = "woken s" and Q = "\<lambda>u. Q (thread u t)", OF assms(1)])
  show "Q (thread (f x u) t)" if "woken s u" for u using that by (rule assms(3))
  show "Q (thread (f y u) t)" if "Q (thread u t)" for y u by (rule assms(4) [OF woken_at [OF assms(2)] that])
  show "woken s (f y u)" if "woken s u" for y u by (rule woken_trans [OF that assms(2)])
qed simp

lemma wake_waiters_done:
  assumes "p \<in> set (g_process_list s)" "t \<in> set (proc_threads (process s p))"
  shows "\<not> (th_state (thread (wake_waiters ended s) t) = PROCESS_BLOCKED \<and> wait_pid (thread (wake_waiters ended s) t) = ended)"
proof -
  let ?Q = "\<lambda>h. \<not> (th_state h = PROCESS_BLOCKED \<and> wait_pid h = ended)"
  have w: "woken u (wake_waiter ended x u)" for x and u :: "'a ps_scheme"
    by (auto simp: wake_waiter_def intro!: woken_upd)
  have stable: "?Q h'" if "woken_thread h h'" "?Q h" for h h' using that by (auto simp: woken_thread_def)
  have one: "?Q (thread (wake_waiter ended t u) t)" for u :: "'a ps_scheme" by (auto simp: wake_waiter_def upd_thread_def)
  have row: "?Q (thread (fold (wake_waiter ended) (proc_threads (process u p)) u) t)" if "woken s u" for u
    by (rule woken_fold_establishes [where x = t and Q = ?Q]) (use assms(2) wokenD(2) [OF that] w one stable in auto)
  show ?thesis unfolding wake_waiters_def
    by (rule woken_fold_establishes [where x = p and Q = ?Q])
      (fact assms(1), rule woken_fold [OF w], rule row, assumption, rule stable)
qed

lemma current_owner:
  assumes "ps_inv s" "loaded_ok s"
  shows "g_current_process s \<in> set (g_process_list s)" "g_current_thread s \<in> set (proc_threads (process s (g_current_process s)))"
    "th_process (thread s (g_current_thread s)) = g_current_process s" "g_current_process s \<noteq> 0" "g_current_thread s \<noteq> 0"
    "\<not> dead s (g_current_process s)"
proof -
  show 1: "g_current_process s \<in> set (g_process_list s)" "g_current_thread s \<in> set (proc_threads (process s (g_current_process s)))"
    "g_current_thread s \<noteq> 0" "\<not> dead s (g_current_process s)"
    using assms by (auto simp: ps_inv_def loaded_ok_def)
  show "th_process (thread s (g_current_thread s)) = g_current_process s" by (rule thread_owner(1) [OF assms(1) 1(1,2)])
  show "g_current_process s \<noteq> 0" using assms(1) 1(1) by (auto simp: ps_inv_def)
qed

lemma ended_state:
  assumes "sched_inv frame s"
  defines "p \<equiv> g_current_process s" and "t \<equiv> g_current_thread s"
  defines "u \<equiv> wake_waiters (pid (process s p)) (upd_thread t (\<lambda>h. h\<lparr>th_state := PROCESS_TERMINATED\<rparr>)
      (upd_process p (\<lambda>q. q\<lparr>p_state := PROCESS_TERMINATED\<rparr>) s))"
  shows "terminate_current s = (pid (process s p), upd_thread t (\<lambda>h. h\<lparr>th_state := PROCESS_TERMINATED\<rparr>)
      (upd_process p (\<lambda>q. q\<lparr>p_state := PROCESS_TERMINATED\<rparr>) s))"
    and "ps_inv u" "waits_ok u" "frames_ok u" "g_current_thread u = t"
    and "x \<noteq> t \<Longrightarrow> cpu_view f u x = cpu_view f s x"
proof -
  have i: "ps_inv s" "loaded_ok s" "waits_ok s" "frames_ok s" using assms(1) by (auto simp: sched_inv_def)
  note cur = current_owner [OF i(1,2), folded p_def t_def]
  show "terminate_current s = (pid (process s p), upd_thread t (\<lambda>h. h\<lparr>th_state := PROCESS_TERMINATED\<rparr>)
      (upd_process p (\<lambda>q. q\<lparr>p_state := PROCESS_TERMINATED\<rparr>) s))"
    using cur by (simp add: terminate_current_def PsGetCurrentThread_def Let_def t_def p_def)
  define v where "v = upd_thread t (\<lambda>h. h\<lparr>th_state := PROCESS_TERMINATED\<rparr>) (upd_process p (\<lambda>q. q\<lparr>p_state := PROCESS_TERMINATED\<rparr>) s)"
  have v: "g_process_list v = g_process_list s" "process v = (process s)(p := (process s p)\<lparr>p_state := PROCESS_TERMINATED\<rparr>)"
    "thread v = (thread s)(t := (thread s t)\<lparr>th_state := PROCESS_TERMINATED\<rparr>)"
    "g_current_thread v = t" "g_current_process v = p" "g_next_pid v = g_next_pid s"
    by (simp_all add: v_def upd_thread_def upd_process_def t_def p_def)
  have w: "woken v u" unfolding u_def v_def by (rule woken_wake_waiters)
  have shape: "ps_shape v = ps_shape s" by (auto simp: ps_shape_def v)
  have ts: "proc_threads (process v q) = proc_threads (process s q)" for q by (rule ps_shape_objects(1) [OF shape])
  have "ps_inv v" by (rule ps_inv_shape [OF i(1) shape]) (use cur in \<open>simp add: v\<close>)
  then show "ps_inv u" by (rule woken_inv(1) [OF w])
  have "frames_ok v" using i(4) by (auto simp: frames_ok_def v(1,3) ts)
  then show "frames_ok u" by (rule woken_inv(3) [OF w])
  show "g_current_thread u = t" using wokenD(5) [OF w] v(4) by simp
  show "x \<noteq> t \<Longrightarrow> cpu_view f u x = cpu_view f s x"
    using woken_view [OF w] by (simp add: cpu_view_def v t_def)
  have du: "dead u q \<longleftrightarrow> dead s q \<or> q = p" for q by (simp add: dead_def wokenD(2) [OF w] v(2))
  have pids: "pid (process u q) = pid (process s q)" for q by (simp add: wokenD(2) [OF w] v(2))
  show "waits_ok u"
    unfolding waits_ok_def du pids
  proof (intro ballI impI conjI)
    fix q x
    assume q: "q \<in> set (g_process_list u)" "\<not> (dead s q \<or> q = p)" "x \<in> set (proc_threads (process u q))"
      "th_state (thread u x) = PROCESS_BLOCKED"
    have in_s: "q \<in> set (g_process_list s)" "x \<in> set (proc_threads (process s q))" using q(1,3) by (simp_all add: wokenD [OF w] v(1) ts)
    then have "x \<noteq> t" using thread_owner(1) [OF i(1)] cur q(2) by metis
    then have same: "thread u x = thread s x" using wokenD(14) [OF w, of x] q(4) by (auto simp: v(3))
    have old: "has_saved_frame (thread s x)" "wakeup_tick (thread s x) > 0 \<or>
        (\<exists>q\<in>set (g_process_list s). \<not> dead s q \<and> pid (process s q) = wait_pid (thread s x))"
      using i(3) in_s q(2,4) same by (auto simp: waits_ok_def)
    show "has_saved_frame (thread u x)" using old(1) same by simp
    have "wait_pid (thread u x) \<noteq> pid (process s p)"
      using wake_waiters_done [of q v x "pid (process s p)"] in_s q(4) by (simp add: v(1) ts u_def v_def [symmetric])
    then show "0 < wakeup_tick (thread u x) \<or>
        (\<exists>q\<in>set (g_process_list u). \<not> (dead s q \<or> q = p) \<and> pid (process s q) = wait_pid (thread u x))"
      using old(2) unfolding wokenD(3) [OF w] v(1) same by auto
  qed
qed

lemma run_nextD:
  assumes "run_next s = Some (f, s')"
  shows "PsScheduleNext s \<noteq> 0" "switch_to (PsScheduleNext s) s = (f, s')"
  using assms by (auto simp: run_next_def Let_def split: if_splits)

lemma exit_inv:
  assumes "sched_inv frame s" "run_next (wake_waiters (fst (terminate_current s)) (snd (terminate_current s))) = Some (f, s')"
  shows "sched_inv f s'" "t \<noteq> g_current_thread s \<Longrightarrow> cpu_view f s' t = cpu_view frame s t"
proof -
  define u where "u = wake_waiters (fst (terminate_current s)) (snd (terminate_current s))"
  note e = ended_state [OF assms(1)]
  have u: "u = wake_waiters (pid (process s (g_current_process s)))
      (upd_thread (g_current_thread s) (\<lambda>h. h\<lparr>th_state := PROCESS_TERMINATED\<rparr>)
        (upd_process (g_current_process s) (\<lambda>q. q\<lparr>p_state := PROCESS_TERMINATED\<rparr>) s))"
    by (simp add: u_def e(1))
  note r = run_nextD [OF assms(2) [folded u_def]]
  note i = e(2-5) [folded u]
  show "sched_inv f s'" by (rule switch_inv [OF r(2,1) i(1-3)])
  show "t \<noteq> g_current_thread s \<Longrightarrow> cpu_view f s' t = cpu_view frame s t"
    using switch_view [OF r(2,1) i(1), of t frame] e(6) [folded u, of t frame] i(4) by simp
qed

lemma sys_exit_inv:
  assumes "sched_inv frame s" "sys_exit frame s = Some (f, s')"
  shows "sched_inv f s'" "t \<noteq> g_current_thread s \<Longrightarrow> cpu_view f s' t = cpu_view frame s t"
  using exit_inv [OF assms(1)] assms(2) by (auto simp: sys_exit_def split: prod.splits)

lemma kill_inv:
  assumes "sched_inv frame s" "SyscallKillCurrentProcess frame s = Some (f, s')"
  shows "sched_inv f s'" "t \<noteq> g_current_thread s \<Longrightarrow> cpu_view f s' t = cpu_view frame s t"
  using exit_inv [OF assms(1)] assms(2) by (auto simp: SyscallKillCurrentProcess_def split: prod.splits)

text \<open>The current thread has saved a frame and has a reason to wait, if it is blocked.\<close>

lemma blocked_state:
  fixes s :: "'a ps_scheme"
  assumes "sched_inv frame s"
    and h: "th_process h = th_process (thread s (g_current_thread s))" "th_context h = th_context (thread s (g_current_thread s))"
      "kernel_stack_top h = kernel_stack_top (thread s (g_current_thread s))" "has_saved_frame h" "user_frame (saved_frame h)"
    and "wakeup_tick h > 0 \<or> (\<exists>q\<in>set (g_process_list s). \<not> dead s q \<and> pid (process s q) = wait_pid h)"
    and u: "u = s\<lparr>thread := (thread s)(g_current_thread s := h)\<rparr>"
  shows "ps_inv u" "waits_ok u" "frames_ok u" "loaded_ok u" "PsScheduleNext u = PsScheduleNext s" "g_current_thread u = g_current_thread s"
    "t \<noteq> g_current_thread s \<Longrightarrow> cpu_view f u t = cpu_view f s t"
proof -
  have i: "ps_inv s" "loaded_ok s" "waits_ok s" "frames_ok s" using assms(1) by (auto simp: sched_inv_def)
  have shape: "ps_shape u = ps_shape s" by (auto simp: ps_shape_def u h)
  show "ps_inv u" by (rule ps_inv_shape [OF i(1) shape]) (use i(1) in \<open>simp add: ps_inv_def u\<close>)
  have d: "dead u = dead s" by (rule dead_process) (simp add: u)
  show "waits_ok u" using i(3) assms(4,7) unfolding waits_ok_def d by (auto simp: u h)
  show "frames_ok u" using i(4) unfolding frames_ok_def by (auto simp: u h)
  show "loaded_ok u" using i(2) by (simp add: loaded_ok_def d) (simp add: u h)
  have "u = upd_thread (g_current_thread s) (\<lambda>_. h) s" by (simp add: u upd_thread_def)
  then show "PsScheduleNext u = PsScheduleNext s" by (simp add: schedule_upd_current)
  show "g_current_thread u = g_current_thread s" by (simp add: u)
  show "t \<noteq> g_current_thread s \<Longrightarrow> cpu_view f u t = cpu_view f s t" by (simp add: cpu_view_def u)
qed

lemma sys_sleep_inv:
  assumes "sched_inv frame s" "sys_sleep frame s = (f, s')" "g_tick_count s + sleep_ticks (rbx frame) \<noteq> 0"
  shows "sched_inv f s'" "cpu_view f s' = cpu_view frame s"
proof -
  have i: "ps_inv s" "loaded_ok s" "user_frame frame" using assms(1) by (auto simp: sched_inv_def)
  note cur = current_owner [OF i(1,2)]
  let ?t = "g_current_thread s"
  define h where "h = (thread s ?t)\<lparr>wakeup_tick := g_tick_count s + sleep_ticks (rbx frame),
    th_state := PROCESS_BLOCKED, saved_frame := frame, has_saved_frame := True\<rparr>"
  define u where "u = s\<lparr>thread := (thread s)(?t := h)\<rparr>"
  have eq: "save_frame ?t frame (upd_thread ?t (\<lambda>h. h\<lparr>wakeup_tick := KeGetTickCount s + sleep_ticks (rbx frame), th_state := PROCESS_BLOCKED\<rparr>) s) = u"
    by (simp add: u_def h_def save_frame_def upd_thread_def KeGetTickCount_def)
  have "wakeup_tick h > 0" using assms(3) by (simp add: word_neq_0_conv h_def)
  note b = blocked_state [OF assms(1) _ _ _ _ _ disjI1 [OF this] u_def, unfolded h_def, simplified, folded h_def, OF i(3)]
  have view: "cpu_view f u t = cpu_view f s t" if "t \<noteq> ?t" for t f using b(7) that by simp
  have saved: "has_saved_frame (thread u ?t)" "saved_frame (thread u ?t) = frame" by (simp_all add: u_def h_def)
  have r: "(if PsScheduleNext u \<noteq> 0 \<and> has_saved_frame (thread u (PsScheduleNext u)) then switch_to (PsScheduleNext u) u
      else (frame, upd_thread ?t (\<lambda>h. h\<lparr>th_state := PROCESS_READY, has_saved_frame := False\<rparr>) u)) = (f, s')"
    using assms(2) cur(3-5) unfolding sys_sleep_def Let_def PsGetCurrentThread_def eq by simp
  show "sched_inv f s'" "cpu_view f s' = cpu_view frame s"
  proof -
    have both: "sched_inv f s' \<and> cpu_view f s' = cpu_view frame s"
    proof (cases "PsScheduleNext u = 0")
      case True
      then have f: "f = frame" "s' = upd_thread ?t (\<lambda>_. h\<lparr>th_state := PROCESS_READY, has_saved_frame := False\<rparr>) s"
        using r by (simp_all add: u_def upd_thread_def)
      have shape: "ps_shape s' = ps_shape s" by (auto simp: ps_shape_def f(2) upd_thread_def h_def)
      have "ps_inv s'" by (rule ps_inv_shape [OF i(1) shape]) (use i(1) in \<open>simp add: ps_inv_def f(2) upd_thread_def\<close>)
      moreover have d: "dead s' = dead s" by (rule dead_process) (simp add: f(2) upd_thread_def)
      ultimately have "sched_inv frame s'"
        using assms(1) by (auto simp: sched_inv_def waits_ok_def frames_ok_def loaded_ok_def d f(2) upd_thread_def h_def)
      then show ?thesis by (auto simp: f cpu_view_def upd_thread_def fun_eq_iff)
    next
      case False
      obtain p where "has_saved_frame (thread u (PsScheduleNext u))" using schedule_next [OF False] by metis
      then have sw: "switch_to (PsScheduleNext u) u = (f, s')" using r False by simp
      have "cpu_view f s' t = cpu_view frame s t" for t
        using switch_view [OF sw False b(1), of t frame] view [of t frame] saved b(6) by (auto simp: cpu_view_def)
      then show ?thesis using switch_inv [OF sw False b(1-3)] by (simp add: fun_eq_iff)
    qed
    then show "sched_inv f s'" "cpu_view f s' = cpu_view frame s" by simp_all
  qed
qed

text \<open>The interrupts that arrive while a call waits in the kernel.\<close>

definition kernel_irq :: "u16 \<Rightarrow> mac \<Rightarrow> 'a kernel_scheme \<Rightarrow> 'a kernel_scheme" where
  "kernel_irq ty src s = (case pit_tick ty src s of Some s' \<Rightarrow> s' | None \<Rightarrow> s)"

text \<open>The waiting state of the current thread, which has saved \<open>frame\<close>.\<close>

definition waiting :: "trap_frame \<Rightarrow> u64 \<Rightarrow> (u64 \<Rightarrow> trap_frame option) \<Rightarrow> 'a ps_scheme \<Rightarrow> bool" where
  "waiting frame cur V u \<longleftrightarrow> ps_inv u \<and> loaded_ok u \<and> waits_ok u \<and> frames_ok u \<and> g_current_thread u = cur \<and>
     has_saved_frame (thread u cur) \<and> saved_frame (thread u cur) = frame \<and> (\<forall>t. t \<noteq> cur \<longrightarrow> cpu_view frame u t = V t)"

lemma waiting_irq: "waiting frame cur V u \<Longrightarrow> waiting frame cur V (kernel_irq ty src u)"
proof -
  assume w: "waiting frame cur V u"
  show ?thesis
  proof (cases "pit_tick ty src u")
    case None
    then show ?thesis using w by (simp add: kernel_irq_def)
  next
    case (Some v)
    obtain n h d where n: "v = wake_all (tick_state n h d u)" using Some by (rule pit_tickD)
    have k: "woken (tick_state n h d u) v" unfolding n by (rule woken_wake_all)
    have "has_saved_frame (thread v cur) = has_saved_frame (thread u cur)" "saved_frame (thread v cur) = saved_frame (thread u cur)"
      using wokenD(8,9) [OF k] by simp_all
    then show ?thesis using w pit_tick_inv [OF Some] by (auto simp: waiting_def kernel_irq_def Some)
  qed
qed

lemma waiting_switch:
  assumes "waiting frame cur V u" "PsScheduleNext u \<noteq> 0" "switch_to (PsScheduleNext u) u = (f, s')"
  shows "sched_inv f s'" "cpu_view f s' t = (if t = cur then Some frame else V t)"
proof -
  have w: "ps_inv u" "waits_ok u" "frames_ok u" using assms(1) by (auto simp: waiting_def)
  show "sched_inv f s'" by (rule switch_inv [OF assms(3,2) w])
  show "cpu_view f s' t = (if t = cur then Some frame else V t)"
    using switch_view [OF assms(3,2) w(1), of t frame] assms(1) by (simp add: waiting_def)
qed

lemma waiting_resume:
  assumes "waiting frame cur V u" "PsCleanupTerminated u = Some v" "user_frame frame"
    and s': "s' = upd_thread cur (\<lambda>h. h\<lparr>has_saved_frame := False, th_state := PROCESS_READY, wait_pid := 0\<rparr>) v"
  shows "sched_inv (frame\<lparr>rax := a\<rparr>) s'" "cpu_view (frame\<lparr>rax := a\<rparr>) s' t = (if t = cur then Some (frame\<lparr>rax := a\<rparr>) else V t)"
proof -
  have w: "ps_inv u" "loaded_ok u" "waits_ok u" "frames_ok u" "g_current_thread u = cur" using assms(1) by (auto simp: waiting_def)
  note c = cleanup_inv [OF assms(2) w(1,2)]
  have shape: "ps_shape s' = ps_shape v" by (auto simp: ps_shape_def s' upd_thread_def)
  have "ps_inv s'" by (rule ps_inv_shape [OF c(1) shape]) (use c(1) in \<open>simp add: ps_inv_def s' upd_thread_def\<close>)
  moreover have d: "dead s' = dead v" by (rule dead_process) (simp add: s' upd_thread_def)
  ultimately show "sched_inv (frame\<lparr>rax := a\<rparr>) s'"
    using c(2,3,4) w(3,4,5) assms(3)
    by (auto simp: sched_inv_def waits_ok_def frames_ok_def loaded_ok_def user_frame_def d s' upd_thread_def c(6))
  show "cpu_view (frame\<lparr>rax := a\<rparr>) s' t = (if t = cur then Some (frame\<lparr>rax := a\<rparr>) else V t)"
    using assms(1) by (auto simp: waiting_def cpu_view_def s' upd_thread_def c(5,6))
qed

lemma find_process:
  assumes "PsFindProcess i s \<noteq> 0"
  shows "PsFindProcess i s \<in> set (g_process_list s)" "pid (process s (PsFindProcess i s)) = i"
proof -
  obtain p where p: "find (\<lambda>p. pid (process s p) = i) (g_process_list s) = Some p" "PsFindProcess i s = p"
    using assms by (auto simp: PsFindProcess_def split: option.splits)
  then show "PsFindProcess i s \<in> set (g_process_list s)" "pid (process s (PsFindProcess i s)) = i"
    by (auto simp: find_Some_iff)
qed

lemma sys_waitpid_inv:
  assumes "sched_inv frame s" "sys_waitpid irqs frame s = Some (f, s')"
    and irqs: "\<forall>irq\<in>set irqs. \<exists>ty src. irq = kernel_irq ty src"
  shows "sched_inv f s' \<and> (cpu_view f s' = cpu_view frame s \<or>
    (\<exists>a. f = frame\<lparr>rax := a\<rparr> \<and> g_current_thread s' = g_current_thread s \<and>
       cpu_view f s' = (cpu_view frame s)(g_current_thread s := Some f)))"
proof -
  have i: "ps_inv s" "loaded_ok s" "user_frame frame" using assms(1) by (auto simp: sched_inv_def)
  note cur = current_owner [OF i(1,2)]
  let ?t = "g_current_thread s" and ?w = "PsFindProcess (rbx frame) s"
  have ret: "sched_inv (frame\<lparr>rax := a\<rparr>) s" for a using assms(1) by (simp add: sched_inv_def user_frame_def)
  have here: "cpu_view (frame\<lparr>rax := a\<rparr>) v = (cpu_view frame s)(?t := Some (frame\<lparr>rax := a\<rparr>))"
    if "g_current_thread v = ?t" "thread v = thread s" for a v using that by (auto simp: cpu_view_def fun_eq_iff)
  define h where "h = (thread s ?t)\<lparr>th_state := PROCESS_BLOCKED, wakeup_tick := 0, wait_pid := rbx frame,
    saved_frame := frame, has_saved_frame := True\<rparr>"
  define u where "u = s\<lparr>thread := (thread s)(?t := h)\<rparr>"
  have u: "block_on ?t (rbx frame) frame s = u" by (simp add: u_def h_def block_on_def save_frame_def upd_thread_def)
  consider (gone) "?w = 0" | (ended) "?w \<noteq> 0" "dead s ?w" | (alive) "?w \<noteq> 0" "\<not> dead s ?w" by blast
  then show ?thesis
  proof cases
    case gone
    then have "f = frame\<lparr>rax := 0\<rparr>" "s' = s" using assms(2) by (auto simp: sys_waitpid_def Let_def sys_ret_def)
    then show ?thesis using ret here by blast
  next
    case ended
    then obtain v where v: "PsCleanupTerminated s = Some v" "f = frame\<lparr>rax := 0\<rparr>" "s' = v"
      using assms(2) by (auto simp: sys_waitpid_def Let_def sys_ret_def dead_def)
    note c = cleanup_inv [OF v(1) i(1,2)]
    have "sched_inv (frame\<lparr>rax := 0\<rparr>) v" using ret [of 0] c by (auto simp: sched_inv_def)
    then show ?thesis using here [of v 0] c(5,6) v(2,3) by auto
  next
    case alive
    note target = find_process [OF alive(1)]
    have "\<exists>q\<in>set (g_process_list s). \<not> dead s q \<and> pid (process s q) = wait_pid h"
      using target alive(2) by (auto simp: h_def)
    note b = blocked_state [OF assms(1) _ _ _ _ _ disjI2 [OF this] u_def, unfolded h_def, simplified, folded h_def, OF i(3)]
    have wait: "waiting frame ?t (cpu_view frame s) u"
      using b by (simp add: waiting_def) (simp add: u_def h_def)
    have r: "(if PsScheduleNext s \<noteq> 0 \<and> has_saved_frame (thread u (PsScheduleNext s)) then Some (switch_to (PsScheduleNext s) u)
        else case irqs of [] \<Rightarrow> None | irq # irqs \<Rightarrow> (case hlt_loop (wait_round ?t (rbx frame)) irqs (irq u) of
           None \<Rightarrow> None | Some (r, _, _) \<Rightarrow> r)) = Some (f, s')"
      using assms(2) alive cur(3-5) unfolding sys_waitpid_def Let_def PsGetCurrentThread_def dead_def u by simp
    have view: "cpu_view f v = cpu_view frame s" if "\<And>t. cpu_view f v t = (if t = ?t then Some frame else cpu_view frame s t)" for v
      using that by (auto simp: fun_eq_iff cpu_view_def)
    show ?thesis
    proof (cases "PsScheduleNext s = 0")
      case False
      then have n: "PsScheduleNext u \<noteq> 0" using b(5) by simp
      have "has_saved_frame (thread u (PsScheduleNext u))" using schedule_next [OF n] by metis
      then have sw: "switch_to (PsScheduleNext u) u = (f, s')" using r False b(5) by simp
      show ?thesis using waiting_switch [OF wait n sw] view by blast
    next
      case True
      then obtain irq rest w rem where loop: "irqs = irq # rest" "hlt_loop (wait_round ?t (rbx frame)) rest (irq u) = Some (Some (f, s'), rem, w)"
        using r by (auto split: list.splits option.splits prod.splits)
      have start: "waiting frame ?t (cpu_view frame s) (irq u)" using irqs wait waiting_irq by (force simp: loop(1))
      obtain v where v: "waiting frame ?t (cpu_view frame s) v" "wait_round ?t (rbx frame) v = Some (Some (f, s'), w)"
        using hlt_loop_inv [OF loop(2), of "waiting frame ?t (cpu_view frame s)", OF start] irqs waiting_irq by (force simp: loop(1))
      show ?thesis
      proof (cases "PsScheduleNext v = 0")
        case False
        have "has_saved_frame (thread v (PsScheduleNext v))" using schedule_next [OF False] by metis
        then have sw: "switch_to (PsScheduleNext v) v = (f, s')" using v(2) False by (auto simp: wait_round_def Let_def)
        show ?thesis using waiting_switch [OF v(1) False sw] view by blast
      next
        case True
        have saved: "saved_frame (thread v ?t) = frame" "g_current_thread v = ?t" using v(1) by (auto simp: waiting_def)
        obtain x where x: "PsCleanupTerminated v = Some x"
          "s' = upd_thread ?t (\<lambda>h. h\<lparr>has_saved_frame := False, th_state := PROCESS_READY, wait_pid := 0\<rparr>) x"
          "f = (saved_frame (thread x ?t))\<lparr>rax := 0\<rparr>"
          using v(2) True by (auto simp: wait_round_def Let_def sys_ret_def split: if_splits)
        have "thread x = thread v" using cleanupD(3) [OF x(1)] v(1) by (simp add: waiting_def ps_inv_def)
        then have fx: "f = frame\<lparr>rax := 0\<rparr>" using saved(1) x(3) by simp
        have "g_current_thread s' = ?t"
          using cleanup_inv(6) [OF x(1)] v(1) saved(2) by (simp add: waiting_def x(2) upd_thread_def)
        then show ?thesis using waiting_resume [OF v(1) x(1) i(3) x(2), of 0] fx by (auto simp: fun_eq_iff)
      qed
    qed
  qed
qed

lemma exec_start_inv:
  assumes "sched_inv frame s" "exec_start proc child frame s = (f, s')"
    and "proc \<in> set (g_process_list s)" "child \<in> set (proc_threads (process s proc))" "proc \<noteq> g_current_process s" "\<not> dead s proc"
  shows "sched_inv f s' \<and> g_current_thread s' = child \<and> f = start_frame (th_context (thread s child)) \<and>
    cpu_view f s' = (cpu_view frame s)(child := Some f, g_current_thread s := Some (frame\<lparr>rax := pid (process s proc)\<rparr>))"
proof -
  have i: "ps_inv s" "loaded_ok s" "waits_ok s" "frames_ok s" "user_frame frame" using assms(1) by (auto simp: sched_inv_def)
  note cur = current_owner [OF i(1,2)]
  note own = thread_owner [OF i(1) assms(3,4)]
  let ?t = "g_current_thread s" and ?i = "pid (process s proc)"
  have ne: "child \<noteq> ?t" using own(1) cur(3) assms(5) by auto
  define hc where "hc = (thread s child)\<lparr>saved_frame := start_frame (th_context (thread s child)), has_saved_frame := False, th_state := PROCESS_READY\<rparr>"
  define hp where "hp = (thread s ?t)\<lparr>th_state := PROCESS_BLOCKED, wait_pid := ?i, wakeup_tick := 0,
    saved_frame := frame\<lparr>rax := ?i\<rparr>, has_saved_frame := True\<rparr>"
  have s': "f = start_frame (th_context (thread s child))" "g_process_list s' = g_process_list s"
    "process s' = (process s)(proc := (process s proc)\<lparr>p_state := PROCESS_READY\<rparr>)" "thread s' = (thread s)(?t := hp, child := hc)"
    "g_current_thread s' = child" "g_current_process s' = proc" "g_next_pid s' = g_next_pid s"
    "vm_cr3 (ps_vm s') = cx_cr3 (th_context (thread s child))" "tss_rsp0 s' = kernel_stack_top (thread s child)"
    using assms(2) cur own ne
    by (auto simp: exec_start_def Let_def PsGetCurrentThread_def upd_thread_def upd_process_def PsSetCurrentThread_def writecr3_def
        KeSetTssRsp0_def hc_def hp_def fun_eq_iff)
  have h: "th_process hc = proc" "th_context hc = th_context (thread s child)" "kernel_stack_top hc = kernel_stack_top (thread s child)"
    "\<not> has_saved_frame hc" "th_state hc = PROCESS_READY" "th_process hp = g_current_process s" "th_context hp = th_context (thread s ?t)"
    "kernel_stack_top hp = kernel_stack_top (thread s ?t)" "has_saved_frame hp" "saved_frame hp = frame\<lparr>rax := ?i\<rparr>" "wait_pid hp = ?i"
    by (simp_all add: hc_def hp_def own(1) cur(3))
  have shape: "ps_shape s' = ps_shape s" using own(1) cur(3) by (auto simp: ps_shape_def s' h)
  note ts = ps_shape_objects(1) [OF shape]
  have "ps_inv s'" by (rule ps_inv_shape [OF i(1) shape]) (use assms(3,4) in \<open>simp add: s'\<close>)
  moreover have d: "dead s' = dead s" using assms(6) by (auto simp: dead_def s' fun_eq_iff)
  moreover have pids: "pid (process s' q) = pid (process s q)" for q by (rule ps_shapeD(2) [OF shape])
  have "waits_ok s'" using i(3) assms(3,6) unfolding waits_ok_def d ts pids by (auto simp: s' h)
  moreover have "frames_ok s'" using i(4,5) unfolding frames_ok_def ts by (auto simp: s' h user_frame_def)
  moreover have "loaded_ok s'" using own(3) assms(6) by (simp add: loaded_ok_def d) (simp add: s' h)
  moreover have "user_frame f" by (simp add: user_frame_def s'(1) start_frame_def)
  moreover have "cpu_view f s' = (cpu_view frame s)(child := Some f, ?t := Some (frame\<lparr>rax := ?i\<rparr>))"
    using ne by (auto simp: cpu_view_def s' h fun_eq_iff)
  ultimately show ?thesis by (simp add: sched_inv_def s' h)
qed

section \<open>The machine as a step relation\<close>

datatype sched_event = Tick u16 mac | Exit | Kill | Sleep | Waitpid | Exec u64 u64 | Run trap_frame

text \<open>
  \<open>Run\<close> is what the current thread does by itself in user mode.  The clock is far from its
  wrap-around (at 100 Hz, \<open>2 ^ 60\<close> ticks are 365 million years).
\<close>

inductive kstep :: "sched_event \<Rightarrow> trap_frame \<times> kernel \<Rightarrow> trap_frame \<times> kernel \<Rightarrow> bool" where
  tick: "PitIrqHandler ty src frame s = Some r \<Longrightarrow> kstep (Tick ty src) (frame, s) r"
| exit: "sys_exit frame s = Some r \<Longrightarrow> kstep Exit (frame, s) r"
| kill: "SyscallKillCurrentProcess frame s = Some r \<Longrightarrow> kstep Kill (frame, s) r"
| sleep: "sys_sleep frame s = r \<Longrightarrow> unat (g_tick_count s) < 2 ^ 60 \<Longrightarrow> kstep Sleep (frame, s) r"
| waitpid: "sys_waitpid irqs frame s = Some r \<Longrightarrow> \<forall>irq\<in>set irqs. \<exists>ty src. irq = kernel_irq ty src \<Longrightarrow> kstep Waitpid (frame, s) r"
| exec: "exec_start proc child frame s = r \<Longrightarrow> proc \<in> set (g_process_list s) \<Longrightarrow> child \<in> set (proc_threads (process s proc)) \<Longrightarrow>
    proc \<noteq> g_current_process s \<Longrightarrow> \<not> dead s proc \<Longrightarrow> kstep (Exec proc child) (frame, s) r"
| run: "user_frame frame' \<Longrightarrow> kstep (Run frame') (frame, s) (frame', s)"

text \<open>
  The abstract machine: every thread has a processor of its own, and one of them runs.  Only
  the running thread changes its registers; a call that gives it a result, or a first register
  image to a new thread, is the exception.
\<close>

inductive vstep :: "sched_event \<Rightarrow> u64 \<times> (u64 \<Rightarrow> trap_frame option) \<Rightarrow> u64 \<times> (u64 \<Rightarrow> trap_frame option) \<Rightarrow> bool" where
  v_tick: "V t' \<noteq> None \<Longrightarrow> vstep (Tick ty src) (t, V) (t', V)"
| v_sleep: "V t' \<noteq> None \<Longrightarrow> vstep Sleep (t, V) (t', V)"
| v_exit: "V' t' \<noteq> None \<Longrightarrow> (\<And>x. x \<noteq> t \<Longrightarrow> V' x = V x) \<Longrightarrow> vstep Exit (t, V) (t', V')"
| v_kill: "V' t' \<noteq> None \<Longrightarrow> (\<And>x. x \<noteq> t \<Longrightarrow> V' x = V x) \<Longrightarrow> vstep Kill (t, V) (t', V')"
| v_wait: "V t' \<noteq> None \<Longrightarrow> vstep Waitpid (t, V) (t', V)"
| v_waited: "V t = Some f \<Longrightarrow> vstep Waitpid (t, V) (t, V(t := Some (f\<lparr>rax := a\<rparr>)))"
| v_exec: "V t = Some f \<Longrightarrow> vstep (Exec proc child) (t, V) (child, V(child := Some g, t := Some (f\<lparr>rax := a\<rparr>)))"
| v_run: "vstep (Run f) (t, V) (t, V(t := Some f))"

definition machine :: "trap_frame \<times> kernel \<Rightarrow> u64 \<times> (u64 \<Rightarrow> trap_frame option)" where
  "machine fs = (g_current_thread (snd fs), cpu_view (fst fs) (snd fs))"

lemma current_view [simp]: "cpu_view f s (g_current_thread s) = Some f"
  by (simp add: cpu_view_def)

lemma sleep_no_wrap:
  assumes "unat t < 2 ^ 60"
  shows "t + sleep_ticks ms \<noteq> 0"
proof
  assume "t + sleep_ticks ms = 0"
  have "unat ms < 2 ^ 64" using unsigned_less [of ms, where 'a = nat] by simp
  then have "unat (sleep_ticks ms) \<le> 2 ^ 61" "0 < unat (sleep_ticks ms)"
    by (auto simp: sleep_ticks_def unat_div unat_gt_0)
  then have "unat (t + sleep_ticks ms) = unat t + unat (sleep_ticks ms)" using assms by (simp add: unat_word_ariths)
  then show False using \<open>t + sleep_ticks ms = 0\<close> \<open>0 < unat (sleep_ticks ms)\<close> by simp
qed

text \<open>C11: the scheduler implements one virtual processor per thread: a timer interrupt and every call that
  switches threads leaves the register image of each thread that goes on as it was, whichever
  thread it resumes, and only the running thread is changed, by its own instructions and by the
  results of its calls.\<close>

theorem kstep_refines:
  assumes "kstep e fs fs'" "sched_inv (fst fs) (snd fs)"
  shows "vstep e (machine fs) (machine fs')"
  using assms
proof (induction rule: kstep.induct)
  case (tick ty src frame s r)
  then have v: "cpu_view (fst r) (snd r) = cpu_view frame s" using PitIrqHandler_inv [of ty src frame s "fst r" "snd r"] by simp
  show ?case unfolding machine_def fst_conv snd_conv v by (rule v_tick) (metis current_view v option.distinct(1))
next
  case (exit frame s r)
  then show ?case using sys_exit_inv(2) [of frame s "fst r" "snd r"] by (auto simp: machine_def intro!: v_exit)
next
  case (kill frame s r)
  then show ?case using kill_inv(2) [of frame s "fst r" "snd r"] by (auto simp: machine_def intro!: v_kill)
next
  case (sleep frame s r)
  then have v: "cpu_view (fst r) (snd r) = cpu_view frame s"
    using sys_sleep_inv(2) [of frame s "fst r" "snd r"] sleep_no_wrap by simp
  show ?case unfolding machine_def fst_conv snd_conv v by (rule v_sleep) (metis current_view v option.distinct(1))
next
  case (waitpid irqs frame s r)
  have "cpu_view (fst r) (snd r) = cpu_view frame s \<or> (\<exists>a. fst r = frame\<lparr>rax := a\<rparr> \<and> g_current_thread (snd r) = g_current_thread s \<and>
       cpu_view (fst r) (snd r) = (cpu_view frame s)(g_current_thread s := Some (fst r)))"
    using sys_waitpid_inv [of frame s irqs "fst r" "snd r"] waitpid by simp
  then show ?case
  proof (elim disjE exE conjE)
    assume v: "cpu_view (fst r) (snd r) = cpu_view frame s"
    show ?case unfolding machine_def fst_conv snd_conv v by (rule v_wait) (metis current_view v option.distinct(1))
  next
    fix a assume a: "fst r = frame\<lparr>rax := a\<rparr>" "g_current_thread (snd r) = g_current_thread s"
      "cpu_view (fst r) (snd r) = (cpu_view frame s)(g_current_thread s := Some (fst r))"
    show ?case unfolding machine_def fst_conv snd_conv a(2,3) unfolding a(1) by (rule v_waited) simp
  qed
next
  case (exec proc child frame s r)
  have x: "g_current_thread (snd r) = child \<and> cpu_view (fst r) (snd r) =
      (cpu_view frame s)(child := Some (fst r), g_current_thread s := Some (frame\<lparr>rax := pid (process s proc)\<rparr>))"
    using exec_start_inv [of frame s proc child "fst r" "snd r"] exec unfolding fst_conv snd_conv prod.collapse by blast
  show ?case unfolding machine_def fst_conv snd_conv x [THEN conjunct1] x [THEN conjunct2] by (rule v_exec) simp
next
  case (run frame' frame s)
  have "cpu_view frame' s = (cpu_view frame s)(g_current_thread s := Some frame')" by (auto simp: cpu_view_def fun_eq_iff)
  then show ?case by (simp add: machine_def v_run)
qed

lemma kstep_inv:
  assumes "kstep e fs fs'" "sched_inv (fst fs) (snd fs)"
  shows "sched_inv (fst fs') (snd fs')"
  using assms
proof (induction rule: kstep.induct)
  case (tick ty src frame s r)
  then show ?case using PitIrqHandler_inv [of ty src frame s "fst r" "snd r"] by simp
next
  case (exit frame s r)
  then show ?case using sys_exit_inv(1) [of frame s "fst r" "snd r"] by simp
next
  case (kill frame s r)
  then show ?case using kill_inv(1) [of frame s "fst r" "snd r"] by simp
next
  case (sleep frame s r)
  then show ?case using sys_sleep_inv(1) [of frame s "fst r" "snd r"] sleep_no_wrap by simp
next
  case (waitpid irqs frame s r)
  then show ?case using sys_waitpid_inv [of frame s irqs "fst r" "snd r"] by simp
next
  case (exec proc child frame s r)
  then show ?case using exec_start_inv [of frame s proc child "fst r" "snd r"] unfolding fst_conv snd_conv prod.collapse by blast
qed (simp add: sched_inv_def)

inductive kreach :: "trap_frame \<times> kernel \<Rightarrow> trap_frame \<times> kernel \<Rightarrow> bool" for start where
  start: "kreach start start"
| step: "kreach start fs \<Longrightarrow> kstep e fs fs' \<Longrightarrow> kreach start fs'"

text \<open>C12: in every state that interrupts, system calls and user code lead to, the process list is well formed;
  the running thread belongs to a process that is alive, in user mode, ready, with its own
  address space and kernel stack loaded; every thread that is switched out resumes in user mode;
  and no blocked thread is lost: it can be resumed and waits for a time or for a process that
  is alive.\<close>

theorem kreach_inv:
  assumes "kreach start fs" "sched_inv (fst start) (snd start)"
  shows "sched_inv (fst fs) (snd fs)"
  using assms by (induction rule: kreach.induct) (auto intro: kstep_inv)


section \<open>Waking in time\<close>

lemma woken_wake_process: "woken s (wake_process p s)"
  by (simp add: wake_process_def woken_fold woken_wake_thread)

lemma find_woken:
  assumes "woken s u"
  shows "PsFindProcess i u = PsFindProcess i s"
  by (simp add: PsFindProcess_def wokenD(2,3) [OF assms])

text \<open>What a thread waits for has not happened: \<open>h\<close> in the state \<open>s\<close>.\<close>

definition still_waits :: "'a kernel_scheme \<Rightarrow> kthread \<Rightarrow> bool" where
  "still_waits s h \<longleftrightarrow> th_state h = PROCESS_BLOCKED \<longrightarrow>
     (wakeup_tick h = 0 \<or> g_tick_count s < wakeup_tick h) \<and>
     (wait_pid h = 0 \<or> PsFindProcess (wait_pid h) s \<noteq> 0 \<and> \<not> dead s (PsFindProcess (wait_pid h) s))"

lemma woken_ticks: "woken s u \<Longrightarrow> g_tick_count u = g_tick_count s"
  by (auto simp: woken_def)

lemma still_waits_woken: "woken s u \<Longrightarrow> still_waits u h = still_waits s h"
  by (simp add: still_waits_def find_woken dead_process [OF wokenD(2)] woken_ticks)

lemma wake_thread_waits: "still_waits s (thread (wake_thread t s) t)"
  by (auto simp: wake_thread_def still_waits_def Let_def upd_thread_def dead_def word_gt_0)

lemma wake_all_waits:
  assumes "p \<in> set (g_process_list s)" "\<not> dead s p" "t \<in> set (proc_threads (process s p))"
  shows "still_waits s (thread (wake_all s) t)"
proof -
  have stable: "still_waits s h'" if "woken_thread h h'" "still_waits s h" for h h'
    using that by (auto simp: woken_thread_def still_waits_def)
  have row: "still_waits s (thread (wake_process p u) t)" if u: "woken s u" for u
  proof -
    have run: "wake_process p u = fold wake_thread (proc_threads (process u p)) u"
      using assms(2) by (simp add: wake_process_def dead_def wokenD(2) [OF u])
    show ?thesis unfolding run
    proof (rule woken_fold_establishes [where x = t and Q = "still_waits s"])
      show "t \<in> set (proc_threads (process u p))" using assms(3) by (simp add: wokenD(2) [OF u])
      show "still_waits s (thread (wake_thread t v) t)" if "woken u v" for v
        using wake_thread_waits [of v t] by (simp add: still_waits_woken [OF woken_trans [OF u that]])
    qed (fact woken_wake_thread, fact stable)
  qed
  show ?thesis unfolding wake_all_def
    by (rule woken_fold_establishes [where x = p and Q = "still_waits s"]) (fact assms(1) woken_wake_process row stable)+
qed

text \<open>C13: no thread oversleeps: after every timer tick, a thread of a living process that is still blocked waits for
  a later tick or for no tick, and for no process or one that is alive; so a thread put to sleep is ready again as soon as
  the clock reaches its time, and a waiting thread at the latest one tick after its target has
  ended.\<close>

theorem pit_tick_wakes:
  assumes "pit_tick ty src s = Some s'" "p \<in> set (g_process_list s)" "p_state (process s p) \<noteq> PROCESS_TERMINATED"
    "t \<in> set (proc_threads (process s p))" "th_state (thread s' t) = PROCESS_BLOCKED"
  shows "g_tick_count s' = g_tick_count s + 1 \<and>
    (wakeup_tick (thread s' t) = 0 \<or> g_tick_count s' < wakeup_tick (thread s' t)) \<and>
    (wait_pid (thread s' t) = 0 \<or> PsFindProcess (wait_pid (thread s' t)) s' \<noteq> 0 \<and>
       p_state (process s' (PsFindProcess (wait_pid (thread s' t)) s')) \<noteq> PROCESS_TERMINATED)"
proof -
  obtain n h d where n: "s' = wake_all (tick_state n h d s)" using assms(1) by (rule pit_tickD)
  let ?u = "tick_state n h d s"
  have w: "woken ?u s'" unfolding n by (rule woken_wake_all)
  have "still_waits ?u (thread s' t)" unfolding n by (rule wake_all_waits) (use assms in \<open>simp_all add: dead_def\<close>)
  then have "still_waits s' (thread s' t)" using still_waits_woken [OF w] by simp
  then show ?thesis using assms(5) woken_ticks [OF w] by (auto simp: still_waits_def dead_def)
qed

section \<open>A machine with two processes\<close>

definition user_zero :: trap_frame where
  "user_zero = zero_frame\<lparr>cs := 0x2B, rbx := 20\<rparr>"

definition two_thread :: "u64 \<Rightarrow> kthread" where
  "two_thread t = (if t = 0x3000 then zero_thread\<lparr>th_process := 0x1000, th_state := PROCESS_READY, kernel_stack_top := 0x5000\<rparr>
     else zero_thread\<lparr>th_process := 0x2000, th_state := PROCESS_READY, kernel_stack_top := 0x6000,
       saved_frame := user_zero\<lparr>rbx := 7\<rparr>, has_saved_frame := True\<rparr>)"

definition two_process :: "u64 \<Rightarrow> kprocess" where
  "two_process p = zero_process\<lparr>pid := (if p = 0x1000 then 1 else 2), p_state := PROCESS_READY, thread_count := 1,
     threads := (\<lambda>_. if p = 0x1000 then 0x3000 else 0x4000)\<rparr>"

definition kernel_two :: kernel where
  "kernel_two = \<lparr>ps_heap = heap_empty\<lparr>hp_vm := (hp_vm heap_empty)\<lparr>vm_cr3 := 0\<rparr>\<rparr>, process = two_process, thread = two_thread,
     g_process_list = [0x1000, 0x2000], g_current_process = 0x1000, g_current_thread = 0x3000, g_next_pid = 3, g_next_tid = 3,
     tss_rsp0 = 0x5000, g_tick_count = 5, g_pit_frequency = 100, k_net = stack_small\<lparr>g_net_initialized := False\<rparr>,
     k_hda = zero_hda, k_hw = quiet_dev\<rparr>"

lemma two_threads [simp]: "proc_threads (two_process p) = [if p = 0x1000 then 0x3000 else 0x4000]"
  by (simp add: two_process_def proc_threads_def MAX_THREADS_def)

lemma kernel_two_inv: "sched_inv user_zero kernel_two"
proof -
  have "ps_inv kernel_two"
    by (simp add: ps_inv_def kernel_two_def all_objects_def proc_objects_def)
      (simp add: two_process_def two_thread_def zero_thread_def zero_process_def zero_context_def inj_on_def)
  moreover have "loaded_ok kernel_two"
    by (simp add: loaded_ok_def kernel_two_def dead_def two_process_def two_thread_def zero_thread_def zero_context_def)
  ultimately show ?thesis
    by (simp add: sched_inv_def waits_ok_def frames_ok_def user_frame_def)
      (simp add: kernel_two_def two_thread_def user_zero_def zero_thread_def)
qed

lemma kernel_two_sleep: "kstep Sleep (user_zero, kernel_two) (sys_sleep user_zero kernel_two)"
  by (rule kstep.sleep) (simp_all add: kernel_two_def)

lemma kernel_two_next: "g_current_thread (snd (sys_sleep user_zero kernel_two)) = 0x4000"
  by (simp add: sys_sleep_def kernel_two_def Let_def PsGetCurrentThread_def two_thread_def save_frame_def upd_thread_def zero_thread_def
      PsScheduleNext_def schedulable_def two_process_def switch_to_def PsSetCurrentThread_def writecr3_def KeSetTssRsp0_def)

theorem kstep_refines_witness:
  "vstep Sleep (machine (user_zero, kernel_two)) (machine (sys_sleep user_zero kernel_two)) \<and>
   fst (machine (sys_sleep user_zero kernel_two)) = 0x4000"
  using kstep_refines [OF kernel_two_sleep] kernel_two_inv kernel_two_next by (simp add: machine_def)

theorem kreach_inv_witness:
  "sched_inv (fst (sys_sleep user_zero kernel_two)) (snd (sys_sleep user_zero kernel_two)) \<and>
   g_current_thread (snd (sys_sleep user_zero kernel_two)) = 0x4000"
  using kreach_inv [OF kreach.step [OF kreach.start kernel_two_sleep]] kernel_two_inv kernel_two_next by simp

text \<open>The second thread sleeps until tick 8.\<close>

definition sleeper :: kernel where
  "sleeper = upd_thread 0x4000 (\<lambda>h. h\<lparr>th_state := PROCESS_BLOCKED, wakeup_tick := 8\<rparr>) kernel_two"

lemma sleeper_tick:
  "\<exists>s'. pit_tick 0 [] sleeper = Some s' \<and> th_state (thread s' 0x4000) = PROCESS_BLOCKED \<and> wakeup_tick (thread s' 0x4000) = 8"
  by (simp add: pit_tick_def NetPoll_def sleeper_def kernel_two_def upd_thread_def wake_all_def wake_process_def wake_thread_def Let_def
      HdaPoll_def zero_hda_def two_process_def two_thread_def zero_thread_def proc_threads_def MAX_THREADS_def)

theorem pit_tick_wakes_witness:
  "\<exists>s'. pit_tick 0 [] sleeper = Some s' \<and> th_state (thread s' 0x4000) = PROCESS_BLOCKED \<and> g_tick_count s' < 8"
proof -
  obtain s' where s: "pit_tick 0 [] sleeper = Some s'" "th_state (thread s' 0x4000) = PROCESS_BLOCKED" "wakeup_tick (thread s' 0x4000) = 8"
    using sleeper_tick by blast
  have "p_state (process sleeper 0x2000) \<noteq> PROCESS_TERMINATED" "0x2000 \<in> set (g_process_list sleeper)"
    "0x4000 \<in> set (proc_threads (process sleeper 0x2000))"
    by (simp_all add: sleeper_def kernel_two_def upd_thread_def) (simp add: two_process_def)
  then show ?thesis using pit_tick_wakes [OF s(1) _ _ _ s(2), of "0x2000"] s by auto
qed

end
