(* ===== verification/Paths.thy ===== *)
theory Paths
  imports Prelude
begin

text \<open>
  Path resolution of the system calls (\<^verbatim>\<open>SysResolvePath\<close> of \<^verbatim>\<open>Kernel/arch/syscall.c\<close>):
  a path relative to the current directory becomes an absolute one without \<^verbatim>\<open>.\<close>, \<^verbatim>\<open>..\<close> and
  repeated separators.  Strings are the bytes in front of the terminating zero.
\<close>

section \<open>The code\<close>

definition FAT_MAX_PATH :: nat where "FAT_MAX_PATH = 256"
definition PATH_STACK :: nat where "PATH_STACK = 32"

definition DOT :: "u8 list" where "DOT = [46]"
definition DOTDOT :: "u8 list" where "DOTDOT = [46, 46]"

definition path_temp :: "u8 list \<Rightarrow> u8 list" where
  "path_temp p = map (\<lambda>c. if c = 92 then 47 else c) (take (FAT_MAX_PATH - 1) p)"

definition path_absolute :: "u8 list \<Rightarrow> u8 list \<Rightarrow> u8 list" where
  "path_absolute cwd temp =
    (if temp \<noteq> [] \<and> hd temp = 47 then temp
     else (if cwd \<noteq> [] \<and> last cwd \<noteq> 47 then cwd @ [47] else cwd) @ temp)"

text \<open>The array \<^verbatim>\<open>stack\<close>, its bottom first.\<close>

definition push_component :: "u8 list \<Rightarrow> u8 list list \<Rightarrow> u8 list list" where
  "push_component nm st =
    (if nm = DOT then st
     else if nm = DOTDOT then (if st \<noteq> [] then butlast st else st)
     else if length st < PATH_STACK then st @ [nm] else st)"

lemma dropWhile_shorter:
  assumes "x \<in> set p" "\<not> P x"
  shows "length (dropWhile Q (dropWhile P p)) - Suc 0 < length p"
  using assms length_dropWhile_le [of P p] length_dropWhile_le [of Q "dropWhile P p"] by (cases p) auto

function path_scan :: "u8 list \<Rightarrow> u8 list list \<Rightarrow> u8 list list" where
  "path_scan p st =
    (let p = dropWhile (\<lambda>c. c = 47) p
     in if p = [] then st
        else path_scan (drop 1 (dropWhile (\<lambda>c. c \<noteq> 47) p)) (push_component (takeWhile (\<lambda>c. c \<noteq> 47) p) st))"
  by pat_completeness auto

termination path_scan
  by (relation "measure (\<lambda>(p, st). length p)") (use dropWhile_shorter in auto)

declare path_scan.simps [simp del]

fun path_build :: "u8 list list \<Rightarrow> u8 list \<Rightarrow> u8 list" where
  "path_build [] resolved = resolved"
| "path_build (nm # cs) resolved =
    (if length resolved + length nm \<ge> FAT_MAX_PATH - 32 then resolved
     else
       let resolved = resolved @ nm
       in if cs = [] then resolved
          else if length resolved + 1 \<ge> FAT_MAX_PATH - 32 then resolved
          else path_build cs (resolved @ [47]))"

definition SysResolvePath :: "u8 list \<Rightarrow> u8 list option \<Rightarrow> u8 list" where
  "SysResolvePath cwd user_path =
    (case user_path of
       None \<Rightarrow> []
     | Some path \<Rightarrow>
         let absolute = path_absolute cwd (path_temp path);
             p = (if absolute \<noteq> [] \<and> hd absolute = 47 then tl absolute else absolute)
         in path_build (path_scan p []) [47])"

section \<open>The reference\<close>

text \<open>The components between the separators.\<close>

fun split_slash :: "u8 list \<Rightarrow> u8 list list" where
  "split_slash [] = [[]]"
| "split_slash (c # cs) =
    (if c = 47 then [] # split_slash cs
     else case split_slash cs of [] \<Rightarrow> [[c]] | x # xs \<Rightarrow> (c # x) # xs)"

definition components :: "u8 list \<Rightarrow> u8 list list" where
  "components p = filter (\<lambda>c. c \<noteq> []) (split_slash p)"

text \<open>From the last component to the first: each \<^verbatim>\<open>..\<close> drops one name in front of it.\<close>

fun cancel_dots :: "nat \<Rightarrow> u8 list list \<Rightarrow> u8 list list" where
  "cancel_dots k [] = []"
| "cancel_dots k (c # cs) =
    (if c = DOT then cancel_dots k cs
     else if c = DOTDOT then cancel_dots (k + 1) cs
     else if k = 0 then c # cancel_dots 0 cs else cancel_dots (k - 1) cs)"

definition normal_components :: "u8 list list \<Rightarrow> u8 list list" where
  "normal_components cs = rev (cancel_dots 0 (rev cs))"

definition join_path :: "u8 list list \<Rightarrow> u8 list" where
  "join_path cs = (if cs = [] then [47] else concat (map (\<lambda>c. 47 # c) cs))"

text \<open>A name that a normal path may contain.\<close>

definition plain_name :: "u8 list \<Rightarrow> bool" where
  "plain_name c \<longleftrightarrow> c \<noteq> [] \<and> 47 \<notin> set c \<and> c \<noteq> DOT \<and> c \<noteq> DOTDOT"

section \<open>The scan visits the components\<close>

lemma split_slash_nonempty [simp]: "split_slash p \<noteq> []"
  by (induction p) (auto split: list.split)

lemma components_slash [simp]: "components (47 # p) = components p"
  by (simp add: components_def)

lemma components_skip: "components (dropWhile (\<lambda>c. c = 47) p) = components p"
  by (induction p) auto

lemma split_slash_append: "47 \<notin> set w \<Longrightarrow> split_slash (w @ p) = (w @ hd (split_slash p)) # tl (split_slash p)"
  by (induction w) (auto split: list.split)

lemma components_word:
  assumes "w \<noteq> []" "47 \<notin> set w"
  shows "components w = [w]" "components (w @ 47 # p) = w # components p"
  using assms split_slash_append [OF assms(2), of "[]"] split_slash_append [OF assms(2), of "47 # p"]
  by (simp_all add: components_def)

lemma path_scan_components: "path_scan p st = fold push_component (components p) st"
proof (induction p st rule: path_scan.induct)
  case (1 p st)
  let ?p = "dropWhile (\<lambda>c. c = 47) p"
  show ?case
  proof (cases "?p = []")
    case True
    have "components p = []" unfolding components_skip [of p, symmetric] True by (simp add: components_def)
    then show ?thesis using True by (simp add: path_scan.simps [of p])
  next
    case False
    define w r where "w = takeWhile (\<lambda>c. c \<noteq> 47) ?p" and "r = dropWhile (\<lambda>c. c \<noteq> 47) ?p"
    have "hd ?p \<noteq> 47" using hd_dropWhile [OF False] .
    then have w: "w \<noteq> []" using False by (cases ?p) (auto simp: w_def)
    have nw: "47 \<notin> set w" by (auto simp: w_def dest: set_takeWhileD)
    have split: "?p = w @ r" by (simp add: w_def r_def)
    have "components ?p = w # components (drop 1 r)"
    proof (cases r)
      case Nil
      then show ?thesis using components_word(1) [OF w nw] by (simp add: split) (simp add: components_def)
    next
      case (Cons c q)
      then have "c = 47" using hd_dropWhile [of "\<lambda>c. c \<noteq> 47" ?p] by (simp add: r_def)
      then show ?thesis using components_word(2) [OF w nw, of q] Cons by (simp add: split)
    qed
    then have "components p = w # components (drop 1 r)" by (simp add: components_skip)
    moreover have "path_scan p st = path_scan (drop 1 r) (push_component w st)"
      unfolding path_scan.simps [of p st] Let_def w_def r_def if_not_P [OF False] ..
    ultimately show ?thesis using 1 [OF refl False] by (simp add: w_def r_def)
  qed
qed


section \<open>The stack computes the reference\<close>

lemma push_plain: "plain_name c \<Longrightarrow> length st < PATH_STACK \<Longrightarrow> push_component c st = st @ [c]"
  by (simp add: push_component_def plain_name_def)

lemma fold_plain:
  assumes "\<forall>c\<in>set cs. plain_name c" "length st + length cs \<le> PATH_STACK"
  shows "fold push_component cs st = st @ cs"
  using assms by (induction cs arbitrary: st) (auto simp: push_plain)

lemma push_plain_names: "\<forall>c\<in>set st. plain_name c \<Longrightarrow> c \<noteq> [] \<Longrightarrow> 47 \<notin> set c \<Longrightarrow> \<forall>c\<in>set (push_component c st). plain_name c"
  by (auto simp: push_component_def plain_name_def dest: in_set_butlastD)

lemma push_bound: "length st \<le> PATH_STACK \<Longrightarrow> length (push_component c st) \<le> PATH_STACK"
  by (auto simp: push_component_def)

lemma push_grows: "length (push_component c st) \<le> Suc (length st)"
  by (auto simp: push_component_def)

lemma fold_push_grows: "length (fold push_component cs st) \<le> length st + length cs"
proof (induction cs arbitrary: st)
  case (Cons c cs)
  show ?case using Cons [of "push_component c st"] push_grows [of c st] by simp
qed simp

lemma split_slash_words: "w \<in> set (split_slash p) \<Longrightarrow> 47 \<notin> set w"
  by (induction p arbitrary: w) (auto split: if_splits list.splits)

lemma components_names: "w \<in> set (components p) \<Longrightarrow> w \<noteq> [] \<and> 47 \<notin> set w"
  by (auto simp: components_def dest: split_slash_words)

lemma path_scan_names: "(\<forall>c\<in>set (path_scan p []). plain_name c) \<and> length (path_scan p []) \<le> PATH_STACK"
proof -
  have "(\<forall>c\<in>set (fold push_component cs st). plain_name c) \<and> length (fold push_component cs st) \<le> PATH_STACK"
    if "\<forall>c\<in>set cs. c \<noteq> [] \<and> 47 \<notin> set c" "\<forall>c\<in>set st. plain_name c" "length st \<le> PATH_STACK" for cs st
    using that
  proof (induction cs arbitrary: st)
    case (Cons c cs)
    show ?case using Cons.IH [of "push_component c st"] Cons.prems push_plain_names [of st c] push_bound [of st c] by simp
  qed simp
  from this [of "components p" "[]"] show ?thesis using components_names by (simp add: path_scan_components)
qed

lemma cancel_stack:
  assumes "length cs \<le> PATH_STACK"
  shows "cancel_dots k (rev cs) = drop k (rev (fold push_component cs []))"
  using assms
proof (induction cs arbitrary: k rule: rev_induct)
  case (snoc c cs)
  define st where "st = fold push_component cs []"
  have "length st \<le> length cs" using fold_push_grows [of cs "[]"] by (simp add: st_def)
  then have room: "length st < PATH_STACK" using snoc.prems by simp
  have ih: "cancel_dots j (rev cs) = drop j (rev st)" for j using snoc by (simp add: st_def)
  have "rev (butlast st) = tl (rev st)" by (cases st rule: rev_cases) auto
  then have "cancel_dots k (c # rev cs) = drop k (rev (push_component c st))"
    using room by (cases k) (auto simp: ih push_component_def [of c st] drop_Suc)
  then show ?case by (simp add: st_def)
qed simp

lemma path_scan_normal: "length (components p) \<le> PATH_STACK \<Longrightarrow> path_scan p [] = normal_components (components p)"
  using cancel_stack [of "components p" 0] by (simp add: normal_components_def path_scan_components)

section \<open>What the output spells\<close>

text \<open>Every name followed by a separator.\<close>

definition slashes :: "u8 list list \<Rightarrow> u8 list" where
  "slashes cs = concat (map (\<lambda>c. c @ [47]) cs)"

lemma slashes_simps [simp]: "slashes [] = []" "slashes (cs @ ds) = slashes cs @ slashes ds" "slashes (c # cs) = c @ 47 # slashes cs"
  by (simp_all add: slashes_def)

lemma components_slashes:
  assumes "\<forall>c\<in>set cs. plain_name c"
  shows "components (slashes cs @ p) = cs @ components p"
  using assms by (induction cs) (auto simp: components_word(2) plain_name_def)

lemma components_spelt:
  assumes "\<forall>c\<in>set cs. plain_name c"
  shows "components (47 # slashes cs) = cs" "plain_name c \<Longrightarrow> components (47 # slashes cs @ c) = cs @ [c]"
  using components_slashes [OF assms, of "[]"] components_slashes [OF assms, of c] components_word(1)
  by (simp_all add: plain_name_def) (simp add: components_def)

lemma path_build_spells:
  "(\<exists>k \<le> length cs. path_build cs (47 # slashes ds) = 47 # slashes (ds @ take k cs)) \<or>
   (\<exists>k < length cs. path_build cs (47 # slashes ds) = 47 # slashes (ds @ take k cs) @ cs ! k)"
proof (induction cs arbitrary: ds)
  case (Cons c cs)
  show ?case
  proof (cases "length (47 # slashes ds) + length c \<ge> FAT_MAX_PATH - 32")
    case True
    then show ?thesis by (intro disjI1 exI [of _ 0]) simp
  next
    case far: False
    show ?thesis
    proof (cases "cs = [] \<or> length (47 # slashes ds @ c) + 1 \<ge> FAT_MAX_PATH - 32")
      case True
      then show ?thesis using far by (intro disjI2 exI [of _ 0]) (auto simp: Let_def)
    next
      case False
      then have "path_build (c # cs) (47 # slashes ds) = path_build cs (47 # slashes (ds @ [c]))" using far by simp
      then show ?thesis using Cons [of "ds @ [c]"]
        by (elim disjE exE conjE) (rule disjI1, rule_tac x = "Suc k" in exI, simp, rule disjI2, rule_tac x = "Suc k" in exI, simp)
    qed
  qed
qed (intro disjI1 exI [of _ 0], simp)

lemma path_build_length:
  assumes "length r < FAT_MAX_PATH - 32"
  shows "length (path_build cs r) < FAT_MAX_PATH - 32"
  using assms by (induction cs r rule: path_build.induct) (auto simp: Let_def)

lemma path_build_fits:
  assumes "\<forall>c\<in>set (cs @ [c]). plain_name c" "length (47 # slashes ds @ slashes cs @ c) < FAT_MAX_PATH - 32"
  shows "path_build (cs @ [c]) (47 # slashes ds) = 47 # slashes (ds @ cs) @ c"
  using assms
proof (induction cs arbitrary: ds)
  case (Cons d cs)
  have "c \<noteq> []" using Cons.prems(1) by (simp add: plain_name_def)
  then have "length c > 0" by simp
  then have "path_build ((d # cs) @ [c]) (47 # slashes ds) = path_build (cs @ [c]) (47 # slashes (ds @ [d]))" using Cons.prems(2) by simp
  then show ?case using Cons.IH [of "ds @ [d]"] Cons.prems by simp
qed simp

lemma join_slashes: "cs \<noteq> [] \<Longrightarrow> join_path cs = 47 # slashes (butlast cs) @ last cs"
proof (induction cs)
  case (Cons c cs)
  then show ?case by (cases cs) (simp_all add: join_path_def)
qed simp

section \<open>Correctness\<close>

text \<open>The arrays \<^verbatim>\<open>temp\<close> (256 bytes) and \<^verbatim>\<open>absolute\<close> (512 bytes) hold what is stored in them.\<close>

lemma SysResolvePath_buffers:
  assumes "length cwd < FAT_MAX_PATH"
  shows "length (path_temp p) + 1 \<le> FAT_MAX_PATH" "length (path_absolute cwd (path_temp p)) + 1 \<le> FAT_MAX_PATH * 2"
  using assms by (auto simp: path_temp_def path_absolute_def FAT_MAX_PATH_def)

lemma SysResolvePath_scan: "SysResolvePath cwd (Some p) = path_build (path_scan (path_absolute cwd (path_temp p)) []) [47]"
proof -
  have "path_scan (tl q) st = path_scan q st" if "q \<noteq> []" "hd q = 47" for q st
    using that by (cases q) (simp_all add: path_scan_components)
  then show ?thesis by (simp add: SysResolvePath_def Let_def)
qed

lemma resolve_plain:
  assumes "\<forall>c\<in>set cs. plain_name c" "length cs \<le> PATH_STACK" "components r = cs" "r \<noteq> []" "hd r = 47" "92 \<notin> set r" "length r < FAT_MAX_PATH - 32"
  shows "SysResolvePath cwd (Some r) = path_build cs [47]"
proof -
  have "map (\<lambda>c. if c = 92 then 47 else c) r = r" using assms(6) by (induction r) auto
  then have t: "path_temp r = r" using assms(7) by (simp add: path_temp_def FAT_MAX_PATH_def)
  show ?thesis using fold_plain [OF assms(1), of "[]"] assms(2-5)
    by (simp add: SysResolvePath_scan t path_absolute_def path_scan_components)
qed

lemma split_slash_cut: "split_slash (p @ 47 # q) = split_slash p @ split_slash q"
  by (induction p) (auto split: list.split)

lemma components_cut: "components (p @ 47 # q) = components p @ components q"
  by (simp add: components_def split_slash_cut)

lemma components_absolute:
  "components (path_absolute cwd p) = (if p \<noteq> [] \<and> hd p = 47 then [] else components cwd) @ components p"
proof (cases cwd rule: rev_cases)
  case (snoc c x)
  then show ?thesis using components_cut [of c p] components_cut [of c "[]"] components_cut [of "c @ [x]" p]
    by (auto simp: path_absolute_def components_def)
qed (simp add: path_absolute_def components_def)

lemma cancel_names: "set (cancel_dots k cs) \<subseteq> set cs - {DOT, DOTDOT}"
  by (induction k cs rule: cancel_dots.induct) (auto split: if_splits)

lemma normal_names: "\<forall>c\<in>set cs. c \<noteq> [] \<and> 47 \<notin> set c \<Longrightarrow> \<forall>c\<in>set (normal_components cs). plain_name c"
  using cancel_names [of 0 "rev cs"] by (auto simp: normal_components_def plain_name_def)

lemma set_components: "c \<in> set (components p) \<Longrightarrow> set c \<subseteq> set p"
proof -
  have "c \<in> set (split_slash p) \<Longrightarrow> set c \<subseteq> set p"
    by (induction p arbitrary: c) (fastforce split: if_splits list.splits)+
  then show "c \<in> set (components p) \<Longrightarrow> set c \<subseteq> set p" by (simp add: components_def)
qed

lemma set_path_scan: "set (path_scan p []) \<subseteq> set (components p)"
proof -
  have push: "set (push_component c st) \<subseteq> insert c (set st)" for c st
    by (auto simp: push_component_def dest: in_set_butlastD)
  have "set (fold push_component cs st) \<subseteq> set st \<union> set cs" for cs st
  proof (induction cs arbitrary: st)
    case (Cons c cs)
    show ?case using Cons.IH [of "push_component c st"] push [of c st] by auto
  qed simp
  from this [of "components p" "[]"] show ?thesis by (simp add: path_scan_components)
qed

lemma set_slashes: "x \<in> set (slashes cs) \<Longrightarrow> x = 47 \<or> (\<exists>c\<in>set cs. x \<in> set c)"
  by (induction cs) auto

lemma resolve_reference:
  fixes cwd path :: "u8 list"
  defines "q \<equiv> map (\<lambda>c. if c = 92 then 47 else c) path"
  defines "cs \<equiv> (if q \<noteq> [] \<and> hd q = 47 then [] else components cwd) @ components q"
  assumes "length path < FAT_MAX_PATH" "length cs \<le> PATH_STACK" "length (join_path (normal_components cs)) < FAT_MAX_PATH - 32"
  shows "SysResolvePath cwd (Some path) = join_path (normal_components cs)"
proof -
  have t: "path_temp path = q" using assms(3) by (simp add: path_temp_def q_def)
  have c: "components (path_absolute cwd q) = cs" by (simp add: components_absolute cs_def)
  have names: "\<forall>c\<in>set (normal_components cs). plain_name c"
    by (rule normal_names) (use c components_names in blast)
  have r: "SysResolvePath cwd (Some path) = path_build (normal_components cs) [47]"
    using path_scan_normal [of "path_absolute cwd q"] assms(4) by (simp add: SysResolvePath_scan t c)
  show ?thesis
  proof (cases "normal_components cs" rule: rev_cases)
    case Nil
    then show ?thesis by (simp add: r join_path_def)
  next
    case (snoc ns n)
    have "path_build (ns @ [n]) (47 # slashes []) = 47 # slashes ([] @ ns) @ n"
      by (rule path_build_fits) (use names assms(5) snoc in \<open>simp_all add: join_slashes\<close>)
    then show ?thesis by (simp add: r snoc join_slashes)
  qed
qed

text \<open>C28: path resolution is the reference: when nothing exceeds the fixed buffers, the result is the canonical
  spelling of the components of the current directory (unless the path is absolute) and of the
  path, where every \<^verbatim>\<open>.\<close> is dropped and every \<^verbatim>\<open>..\<close> removes the name in front of it, if any.\<close>

theorem SysResolvePath_reference:
  fixes cwd path :: "u8 list"
  defines "q \<equiv> map (\<lambda>c. if c = 92 then 47 else c) path"
  defines "cs \<equiv> (if q \<noteq> [] \<and> hd q = 47 then [] else components cwd) @ components q"
  assumes "length path < FAT_MAX_PATH" "length cs \<le> PATH_STACK" "length (join_path (normal_components cs)) < FAT_MAX_PATH - 32"
  shows "SysResolvePath cwd (Some path) = join_path (normal_components cs)"
  unfolding cs_def q_def by (rule resolve_reference) (use assms(3-5) in \<open>simp_all add: cs_def q_def\<close>)

text \<open>Whatever a program passes, the resolved path is absolute, fits its buffer, names nothing above the root
  (no \<^verbatim>\<open>.\<close> and no \<^verbatim>\<open>..\<close> is left), and resolving it again, from any current directory, gives it back
  (without the separator that a cut may leave at the end).\<close>

theorem SysResolvePath_safe:
  fixes cwd path :: "u8 list"
  defines "r \<equiv> SysResolvePath cwd (Some path)"
  shows "r \<noteq> [] \<and> hd r = 47 \<and> length r < FAT_MAX_PATH - 32 \<and> DOT \<notin> set (components r) \<and> DOTDOT \<notin> set (components r) \<and>
    (92 \<notin> set cwd \<longrightarrow> SysResolvePath cwd' (Some r) = (if length r > 1 \<and> last r = 47 then butlast r else r))"
proof -
  define p where "p = path_absolute cwd (path_temp path)"
  define st where "st = path_scan p []"
  have names: "\<forall>c\<in>set st. plain_name c" "length st \<le> PATH_STACK" using path_scan_names [of p] by (simp_all add: st_def)
  have r: "r = path_build st [47]" by (simp add: r_def SysResolvePath_scan st_def p_def)
  have len: "length r < FAT_MAX_PATH - 32" unfolding r by (rule path_build_length) (simp add: FAT_MAX_PATH_def)
  have chars: "92 \<notin> set c" if "92 \<notin> set cwd" "c \<in> set st" for c
  proof -
    have "92 \<notin> set p" using that(1) by (auto simp: p_def path_absolute_def path_temp_def)
    then show ?thesis using that(2) set_path_scan [of p] set_components [of c p] by (auto simp: st_def)
  qed
  consider (cut) k where "r = 47 # slashes (take k st)" | (whole) k where "k < length st" "r = 47 # slashes (take k st) @ st ! k"
    using path_build_spells [of st "[]"] r by auto
  then show ?thesis
  proof cases
    case cut
    define ds where "ds = take k st"
    have ds: "\<forall>c\<in>set ds. plain_name c" "length ds \<le> PATH_STACK" "set ds \<subseteq> set st" using names set_take_subset [of k st] by (auto simp: ds_def)
    note c = components_spelt(1) [OF ds(1)]
    have again: "SysResolvePath cwd' (Some r) = path_build ds [47]" if "92 \<notin> set cwd"
      by (rule resolve_plain) (use ds c len cut chars [OF that] in \<open>auto simp: ds_def [symmetric] dest!: set_slashes\<close>)
    have "path_build ds [47] = (if length r > 1 \<and> last r = 47 then butlast r else r)"
    proof (cases ds rule: rev_cases)
      case (snoc es e)
      have "path_build (es @ [e]) (47 # slashes []) = 47 # slashes ([] @ es) @ e"
        by (rule path_build_fits) (use ds(1) len cut snoc in \<open>simp_all add: ds_def [symmetric]\<close>)
      then show ?thesis using cut snoc by (simp add: ds_def [symmetric] butlast_append)
    qed (use cut in \<open>simp add: ds_def [symmetric]\<close>)
    then show ?thesis using again len cut c ds(1) by (auto simp: ds_def [symmetric] plain_name_def)
  next
    case whole
    define ds e where "ds = take k st" and "e = st ! k"
    have e: "e \<in> set st" "plain_name e" using whole(1) names by (simp_all add: e_def)
    have ds: "\<forall>c\<in>set ds. plain_name c" "Suc (length ds) \<le> PATH_STACK" "set ds \<subseteq> set st"
      using names set_take_subset [of k st] whole(1) by (auto simp: ds_def)
    have rr: "r = 47 # slashes ds @ e" using whole by (simp add: ds_def e_def)
    note c = components_spelt(2) [OF ds(1) e(2)]
    have again: "SysResolvePath cwd' (Some r) = path_build (ds @ [e]) [47]" if "92 \<notin> set cwd"
      by (rule resolve_plain) (use ds e c len rr chars [OF that] in \<open>auto dest!: set_slashes\<close>)
    have "path_build (ds @ [e]) (47 # slashes []) = 47 # slashes ([] @ ds) @ e"
      by (rule path_build_fits) (use ds(1) e len rr in simp_all)
    moreover have "last e \<noteq> 47" using e(2) unfolding plain_name_def by (metis last_in_set)
    then have "last r \<noteq> 47" using e(2) by (simp add: rr plain_name_def)
    ultimately show ?thesis using again len c ds(1) e(2) rr by (auto simp: plain_name_def)
  qed
qed

text \<open>\<^verbatim>\<open>..\b\./c\<close> in \<^verbatim>\<open>/x/y\<close> is \<^verbatim>\<open>/x/b/c\<close>.\<close>

theorem SysResolvePath_reference_witness:
  "SysResolvePath [47, 120, 47, 121] (Some [46, 46, 92, 98, 92, 46, 47, 99]) = [47, 120, 47, 98, 47, 99]"
proof -
  let ?q = "map (\<lambda>c. if c = 92 then 47 else c) [46, 46, 92, 98, 92, 46, 47, 99 :: u8]"
  have c: "components ?q = [DOTDOT, [98], DOT, [99]]" "components [47, 120, 47, 121] = [[120], [121]]"
    by (simp_all add: components_def DOT_def DOTDOT_def)
  have "normal_components [[120], [121], DOTDOT, [98], DOT, [99]] = [[120], [98], [99]]"
    by (simp add: normal_components_def DOT_def DOTDOT_def)
  then show ?thesis
    using SysResolvePath_reference [of "[46, 46, 92, 98, 92, 46, 47, 99]" "[47, 120, 47, 121]"] c
    by (simp add: FAT_MAX_PATH_def PATH_STACK_def join_path_def)
qed

text \<open>Components beyond the 32nd are dropped, but a \<^verbatim>\<open>..\<close> behind them still removes one.\<close>

lemma deep_path_pops:
  "path_scan (slashes (map (\<lambda>i. [of_nat i]) [48..<81]) @ DOTDOT) [] = map (\<lambda>i. [of_nat i]) [48..<79]"
  by code_simp

theorem SysResolvePath_safe_witness:
  "SysResolvePath [47] (Some (SysResolvePath [47, 120] (Some [97]))) = [47, 120, 47, 97]"
proof -
  have "SysResolvePath [47, 120] (Some [97]) = [47, 120, 47, 97]"
    by (simp add: SysResolvePath_scan path_temp_def path_absolute_def path_scan_components components_def push_component_def
      DOT_def DOTDOT_def PATH_STACK_def FAT_MAX_PATH_def)
  then show ?thesis using SysResolvePath_safe [of "[47, 120]" "[97]" "[47]"] by simp
qed

end
