(* ===== verification/Fat_ReadAt.thy ===== *)
theory Fat_ReadAt
  imports Fat_File
begin

text \<open>
  Reading a part of a file (\<^verbatim>\<open>Fat32ReadFileAt\<close>): on a well-formed chain it returns the bytes
  of the file at the given position.
\<close>

section \<open>The sectors of a cluster\<close>

lemma rest_after_sector:
  fixes k n m sk :: nat
  assumes "k = sk - 512 * m" "k < 512" "512 * m - sk < n"
  shows "n - (512 * m - sk) - min (n - (512 * m - sk)) (512 - k) = n - (512 * Suc m - sk)"
  using assms by (cases "sk \<le> 512 * m") (auto simp: min_def)

lemma read_at_sectors:
  assumes "fat_io_ok s" "bytes_per_sector (g_fat s) = 512"
  shows "\<exists>n' skip' s'. fold_until (read_at_sector sec) [0..<m] (out, n, skip, s) =
      Inr (out @ take (unat n) (drop (unat skip) (concat (map (\<lambda>k. sector_bytes s (sec + of_nat k)) [0..<m]))), n', skip', s')
    \<and> unat n' = unat n - (512 * m - unat skip) \<and> (n' \<noteq> 0 \<longrightarrow> unat skip' = unat skip - 512 * m)
    \<and> fat_same s s' \<and> disk s' = disk s"
proof (induction m)
  case 0
  then show ?case by simp
next
  case (Suc m)
  let ?A = "concat (map (\<lambda>k. sector_bytes s (sec + of_nat k)) [0..<m])" and ?B = "sector_bytes s (sec + of_nat m)"
  obtain r k s1 where IH: "fold_until (read_at_sector sec) [0..<m] (out, n, skip, s) = Inr (out @ take (unat n) (drop (unat skip) ?A), r, k, s1)"
    "unat r = unat n - (512 * m - unat skip)" "r \<noteq> 0 \<longrightarrow> unat k = unat skip - 512 * m" "fat_same s s1" "disk s1 = disk s" using Suc by blast
  have lA: "length ?A = 512 * m" by (induction m) (simp_all add: sector_bytes_def)
  have lB: "length ?B = 512" by (simp add: sector_bytes_def)
  have step: "fold_until (read_at_sector sec) [0..<Suc m] (out, n, skip, s) =
      (case read_at_sector sec m (out @ take (unat n) (drop (unat skip) ?A), r, k, s1) of Inl x \<Rightarrow> Inl x | Inr y \<Rightarrow> Inr y)"
    using IH(1) by (simp add: fold_until_append split: sum.split)
  show ?case
  proof (cases "r = 0")
    case True
    then have "unat n \<le> 512 * m - unat skip" using IH(2) by simp
    then have "take (unat n) (drop (unat skip) (?A @ ?B)) = take (unat n) (drop (unat skip) ?A)" "unat n - (512 * Suc m - unat skip) = 0"
      using lA by simp_all
    moreover have "read_at_sector sec m (out @ take (unat n) (drop (unat skip) ?A), r, k, s1) = Inr (out @ take (unat n) (drop (unat skip) ?A), r, k, s1)"
      using True by (simp add: read_at_sector_def)
    ultimately show ?thesis unfolding step using True IH(4,5) by simp
  next
    case False
    then have rpos: "unat r \<noteq> 0" and k: "unat k = unat skip - 512 * m" using IH(3) by (simp_all add: unat_eq_zero)
    have lt: "512 * m - unat skip < unat n" using IH(2) rpos by simp
    obtain st where st: "read_g (sec + of_nat m) s1 = (st, load_sector (sec + of_nat m) s1)" "NT_SUCCESS st"
      using read_g_ok [of s1] fat_same_io_ok [OF IH(4)] assms(1) by auto
    let ?s2 = "load_sector (sec + of_nat m) s1"
    have b: "bytes_per_sector (g_fat ?s2) = 512" using IH(4) assms(2) by (simp add: fat_same_def)
    have same: "fat_same s ?s2" using fat_same_trans [OF IH(4)] by simp
    have before: "take (unat n) (drop (unat skip) ?A) = drop (unat skip) ?A" using lt lA by simp
    show ?thesis
    proof (cases "k \<ge> 512")
      case True
      then have k512: "512 \<le> unat k" by (simp add: word_le_nat_alt)
      then have "drop (unat skip) ?A = []" "drop (unat skip) (?A @ ?B) = []" using k lA lB by simp_all
      moreover have "unat (k - 512) = unat skip - 512 * Suc m" using True k k512 by (simp add: unat_sub)
      moreover have "read_at_sector sec m (out @ take (unat n) (drop (unat skip) ?A), r, k, s1) = Inr (out @ take (unat n) (drop (unat skip) ?A), r, k - 512, ?s2)"
        using False st b True by (simp add: read_at_sector_def word_gt_0 Let_def)
      moreover have "unat r = unat n - (512 * Suc m - unat skip)" using IH(2) k k512 by simp
      ultimately show ?thesis unfolding step using same IH(5) by simp
    next
      case less: False
      then have k512: "unat k < 512" by (simp add: word_le_nat_alt)
      then have av: "unat (512 - k) = 512 - unat k" by (simp add: unat_sub word_le_nat_alt)
      let ?c = "if r > 512 - k then 512 - k else r"
      have c: "unat ?c = min (unat r) (512 - unat k)" using av by (simp add: min_def word_less_nat_alt)
      have le: "?c \<le> r" by (simp add: word_le_nat_alt c)
      have bytes: "g_bytes ?s2 (unat k) (unat ?c) = take (unat r) (drop (unat k) ?B)"
        unfolding g_bytes_def c using k512
        by (intro nth_equalityI) (auto simp: sector_bytes_def load_sector_byte IH(5) fat_same_sectors(3) [OF IH(4)])
      have "unat skip - 512 * m = unat k" "unat n - length (drop (unat skip) ?A) = unat r" using k lA IH(2) by simp_all
      then have all: "take (unat n) (drop (unat skip) (?A @ ?B)) = drop (unat skip) ?A @ take (unat r) (drop (unat k) ?B)"
        using lA lt by (simp add: before)
      have left: "unat (r - ?c) = unat n - (512 * Suc m - unat skip)"
        unfolding unat_sub [OF le] c IH(2) by (rule rest_after_sector [OF k k512 lt])
      have run: "read_at_sector sec m (out @ take (unat n) (drop (unat skip) ?A), r, k, s1) =
          Inr ((out @ drop (unat skip) ?A) @ take (unat r) (drop (unat k) ?B), r - ?c, 0, ?s2)"
        using False st b less bytes before by (cases "r > 512 - k") (simp_all add: read_at_sector_def word_gt_0 Let_def)
      have z: "unat skip - 512 * Suc m = 0" using k k512 by simp
      show ?thesis unfolding step run using left all z same IH(5) by simp
    qed
  qed
qed

section \<open>The clusters of a chain\<close>

text \<open>One round of a loop over a chain: what \<open>FatNextCluster\<close> gives.\<close>

lemma next_in_chain:
  assumes "fat_ok s" "fat_same s t" "disk t = disk s"
    and "link_chain (fat_entry s) (FatEofMarker s) c (x # xs)" "fat_cluster s x"
  shows "fat_same s (snd (FatNextCluster x t))" "disk (snd (FatNextCluster x t)) = disk s"
    "xs \<noteq> [] \<Longrightarrow> fst (FatNextCluster x t) = fat_entry s x \<and> link_chain (fat_entry s) (FatEofMarker s) (fat_entry s x) xs"
proof -
  have t: "fat_ok t" "fat_cluster t x" using fat_same_ok [OF assms(2)] fat_same_cluster [OF assms(2)] assms(1,5) by auto
  note nx = FatNextCluster_entry [OF t]
  show "fat_same s (snd (FatNextCluster x t))" "disk (snd (FatNextCluster x t)) = disk s"
    using fat_same_trans [OF assms(2) nx(2)] nx(3) assms(3) by simp_all
  assume ne: "xs \<noteq> []"
  then have chain: "link_chain (fat_entry s) (FatEofMarker s) (fat_entry s x) xs" using assms(4) by simp
  then have "\<not> FatEofMarker s \<le> fat_entry s x" using ne by (cases xs) (auto simp: not_le)
  then show "fst (FatNextCluster x t) = fat_entry s x \<and> link_chain (fat_entry s) (FatEofMarker s) (fat_entry s x) xs"
    using chain nx(1) FatEofMarker_same [OF assms(2)] fat_entry_cong [OF assms(2,3)] by simp
qed

lemma cluster_bytes_at:
  assumes "fat_same s t" "disk t = disk s"
  shows "concat (map (\<lambda>k. sector_bytes t (FatClusterToSector x t + of_nat k)) [0..<unat (sectors_per_cluster (g_fat t))]) =
    chain_bytes s [x]"
proof -
  have "cluster_sectors t x = map (\<lambda>k. FatClusterToSector x t + of_nat k) [0..<unat (sectors_per_cluster (g_fat t))]"
    by (simp add: cluster_sectors_def)
  then have "chain_bytes t [x] = concat (map (\<lambda>k. sector_bytes t (FatClusterToSector x t + of_nat k)) [0..<unat (sectors_per_cluster (g_fat t))])"
    by (simp add: chain_bytes_def chain_sectors_def comp_def)
  moreover have "chain_bytes t [x] = chain_bytes s [x]"
    by (simp add: chain_bytes_def fat_same_sectors(2) [OF assms(1)] fat_same_bytes [OF assms])
  ultimately show ?thesis by simp
qed

lemma chain_bytes_Cons: "chain_bytes s (x # xs) = chain_bytes s [x] @ chain_bytes s xs"
  by (simp add: chain_bytes_def chain_sectors_def)

lemma length_chain_bytes: "length (chain_bytes s cs) = 512 * (length cs * unat (sectors_per_cluster (g_fat s)))"
  unfolding chain_bytes_def by (simp only: length_concat_sectors length_chain_sectors)

lemma read_at_chain_correct:
  assumes "fat_ok s" "fat_same s t" "disk t = disk s"
    and "link_chain (fat_entry s) (FatEofMarker s) c cs" "\<forall>x\<in>set cs. fat_cluster s x"
    and "unat n + unat skip \<le> length (chain_bytes s cs)"
  shows "\<exists>t'. read_at_chain c (out, n, skip, t) = Some (STATUS_SUCCESS, out @ take (unat n) (drop (unat skip) (chain_bytes s cs)), Fat32Close t')
    \<and> fat_same s t' \<and> disk t' = disk s"
  using assms
proof (induction cs arbitrary: c out n skip t)
  case Nil
  then show ?case by simp
next
  case (Cons x xs)
  then have x: "c = x" "fat_cluster s x" by simp_all
  show ?case
  proof (cases "n = 0")
    case True
    then show ?thesis using Cons.prems(2,3) by (subst read_at_chain.simps) auto
  next
    case False
    let ?m = "unat (sectors_per_cluster (g_fat t))" and ?sec = "FatClusterToSector x t"
    let ?A = "chain_bytes s [x]" and ?B = "chain_bytes s xs"
    have io: "fat_io_ok t" "bytes_per_sector (g_fat t) = 512"
      using fat_same_ok [OF Cons.prems(2)] assms(1) by (simp_all add: fat_ok_def fat_io_ok_def)
    have lA: "length ?A = 512 * ?m" using Cons.prems(2) by (simp add: length_chain_bytes fat_same_def)
    from read_at_sectors [OF io, of ?sec ?m out n skip] obtain r k t1 where
      r: "fold_until (read_at_sector ?sec) [0..<?m] (out, n, skip, t) = Inr (out @ take (unat n) (drop (unat skip) ?A), r, k, t1)"
      "unat r = unat n - (512 * ?m - unat skip)" "r \<noteq> 0 \<longrightarrow> unat k = unat skip - 512 * ?m" "fat_same t t1" "disk t1 = disk t"
      unfolding cluster_bytes_at [OF Cons.prems(2,3)] by blast
    have s1: "fat_same s t1" "disk t1 = disk s" using fat_same_trans [OF Cons.prems(2) r(4)] r(5) Cons.prems(3) by simp_all
    note nx = next_in_chain [OF assms(1) s1 Cons.prems(4) x(2)]
    have run: "read_at_chain c (out, n, skip, t) =
        read_at_chain (fst (FatNextCluster x t1)) (out @ take (unat n) (drop (unat skip) ?A), r, k, snd (FatNextCluster x t1))"
      using False fat_cluster_range [OF x(2)] r(1) x(1)
      by (subst read_at_chain.simps) (simp add: word_gt_0 case_prod_unfold Let_def)
    show ?thesis
    proof (cases "r = 0")
      case True
      then have "unat n \<le> 512 * ?m - unat skip" using r(2) by simp
      then have "take (unat n) (drop (unat skip) (chain_bytes s (x # xs))) = take (unat n) (drop (unat skip) ?A)"
        using lA by (simp add: chain_bytes_Cons [of s x xs])
      then show ?thesis unfolding run using True nx(1,2) by (subst read_at_chain.simps) auto
    next
      case more: False
      then have rk: "unat k = unat skip - 512 * ?m" "unat r \<noteq> 0" using r(3) by (simp_all add: unat_eq_zero)
      have lens: "unat n + unat skip \<le> 512 * ?m + length ?B" using Cons.prems(6) lA by (simp add: chain_bytes_Cons [of s x xs])
      then have ne: "xs \<noteq> []" using r(2) rk(2) by (auto simp: length_chain_bytes)
      have left: "unat r + unat k \<le> length ?B" using lens r(2) rk by arith
      have "take (unat n) (drop (unat skip) (?A @ ?B)) = take (unat n) (drop (unat skip) ?A) @ take (unat r) (drop (unat k) ?B)"
        using r(2) rk(1) lA by simp
      then have out: "out @ take (unat n) (drop (unat skip) (chain_bytes s (x # xs))) =
          (out @ take (unat n) (drop (unat skip) ?A)) @ take (unat r) (drop (unat k) ?B)"
        by (simp add: chain_bytes_Cons [of s x xs])
      have v: "\<forall>y\<in>set xs. fat_cluster s y" using Cons.prems(5) by simp
      show ?thesis unfolding run out using nx(3) [OF ne]
        by (simp only:) (rule Cons.IH [OF assms(1) nx(1,2) _ v left], simp)
    qed
  qed
qed

text \<open>Whole clusters in front of the position are skipped.\<close>

lemma skip_clusters_correct:
  assumes "fat_ok s" "fat_same s t" "disk t = disk s"
    and "link_chain (fat_entry s) (FatEofMarker s) c cs" "\<forall>x\<in>set cs. fat_cluster s x"
    and size: "unat cluster_size = 512 * unat (sectors_per_cluster (g_fat s))" "unat cluster_size \<le> 2 ^ 31" "cluster_size \<noteq> 0"
    and off: "unat off < 2 ^ 31" "unat pos \<le> unat off" "unat off < unat pos + length (chain_bytes s cs)"
  shows "\<exists>pos' c' cs' t'. skip_clusters off cluster_size pos c t = Some (pos', c', t') \<and> fat_same s t' \<and> disk t' = disk s \<and>
    link_chain (fat_entry s) (FatEofMarker s) c' cs' \<and> set cs' \<subseteq> set cs \<and> unat pos \<le> unat pos' \<and> unat pos' \<le> unat off \<and>
    chain_bytes s cs' = drop (unat pos' - unat pos) (chain_bytes s cs)"
  using assms
proof (induction cs arbitrary: c pos t)
  case Nil
  then show ?case by simp
next
  case (Cons x xs)
  then have x: "c = x" "fat_cluster s x" by simp_all
  have lA: "length (chain_bytes s [x]) = unat cluster_size" by (simp add: length_chain_bytes size(1))
  have sum: "unat (pos + cluster_size) = unat pos + unat cluster_size"
    using Cons.prems size by (simp add: unat_word_ariths)
  show ?case
  proof (cases "pos + cluster_size \<le> off")
    case False
    then show ?thesis using fat_cluster_range [OF x(2)] Cons.prems(2-4,10)
      by (subst skip_clusters.simps) (intro exI [of _ pos] exI [of _ c] exI [of _ "x # xs"] exI [of _ t], simp)
  next
    case True
    then have le: "unat pos + unat cluster_size \<le> unat off" using sum by (simp add: word_le_nat_alt)
    note nx = next_in_chain [OF assms(1) Cons.prems(2-4) x(2)]
    have lens: "length (chain_bytes s (x # xs)) = unat cluster_size + length (chain_bytes s xs)"
      using lA by (simp add: chain_bytes_Cons [of s x xs])
    then have ne: "xs \<noteq> []" using le Cons.prems(11) by (auto simp: chain_bytes_def chain_sectors_def)
    have run: "skip_clusters off cluster_size pos c t =
        skip_clusters off cluster_size (pos + cluster_size) (fat_entry s x) (snd (FatNextCluster x t))"
      using True fat_cluster_range [OF x(2)] x(1) nx(3) [OF ne] by (subst skip_clusters.simps) (simp add: case_prod_unfold Let_def)
    have v: "\<forall>y\<in>set xs. fat_cluster s y" using Cons.prems(5) by simp
    from Cons.IH [OF assms(1) nx(1,2) nx(3) [OF ne, THEN conjunct2] v size off(1), of "pos + cluster_size"] le lens Cons.prems(11)
    obtain pos' c' cs' t' where ih: "skip_clusters off cluster_size (pos + cluster_size) (fat_entry s x) (snd (FatNextCluster x t)) = Some (pos', c', t')"
      "fat_same s t'" "disk t' = disk s" "link_chain (fat_entry s) (FatEofMarker s) c' cs'" "set cs' \<subseteq> set xs"
      "unat pos + unat cluster_size \<le> unat pos'" "unat pos' \<le> unat off"
      "chain_bytes s cs' = drop (unat pos' - (unat pos + unat cluster_size)) (chain_bytes s xs)"
      by (auto simp: sum)
    have "drop (unat pos' - unat pos) (chain_bytes s (x # xs)) = chain_bytes s cs'"
      using ih(6,8) lA by (simp add: chain_bytes_Cons [of s x xs])
    then show ?thesis unfolding run using ih by auto
  qed
qed

section \<open>Correctness\<close>

text \<open>Reading \<open>count\<close> bytes at \<open>offset\<close> of an open file gives exactly these bytes of the file, and changes
  nothing but the sector buffer and the open file.\<close>

theorem Fat32ReadFileAt_correct:
  assumes "Fat32OpenPath path s = Some (STATUS_SUCCESS, u)" "g_fat_initialized s" "fat_ok u"
    and "link_chain (fat_entry u) (FatEofMarker u) (g_current_cluster u) cs" "\<forall>x\<in>set cs. fat_cluster u x"
    and "unat (g_current_file_size u) \<le> length (chain_bytes u cs)" "unat (sectors_per_cluster (g_fat u)) \<le> 128"
    and "unat off + unat count \<le> unat (g_current_file_size u)" "count \<noteq> 0" "unat (g_current_file_size u) < 2 ^ 31"
  shows "\<exists>u'. Fat32ReadFileAt path off count s =
      Some (STATUS_SUCCESS, take (unat count) (drop (unat off) (take (unat (g_current_file_size u)) (chain_bytes u cs))), Fat32Close u')
    \<and> fat_same u u' \<and> disk u' = disk u"
proof -
  let ?c = "sectors_per_cluster (g_fat u) * bytes_per_sector (g_fat u)"
  have cpos: "unat count \<noteq> 0" using assms(9) by (simp add: unat_eq_zero)
  have sum: "unat (off + count) = unat off + unat count" using assms(8,10) by (simp add: unat_word_ariths)
  have req: "(if off + count > g_current_file_size u then g_current_file_size u - off else count) = count" "\<not> off \<ge> g_current_file_size u"
    using assms(8) cpos by (simp_all add: word_less_nat_alt word_le_nat_alt sum)
  have csize: "unat ?c = 512 * unat (sectors_per_cluster (g_fat u))" using assms(3,7) by (simp add: fat_ok_def unat_word_ariths)
  have "cs \<noteq> []" using assms(4) by auto
  have "chain_bytes u cs \<noteq> []" using assms(6,8) cpos by auto
  then have spc: "unat (sectors_per_cluster (g_fat u)) \<noteq> 0"
    by (metis length_0_conv length_chain_bytes mult_0_right)
  then have cz: "?c \<noteq> 0" using csize by (metis mult_is_0 unat_0 zero_neq_numeral)
  obtain pos c' cs' t' where k: "skip_clusters off ?c 0 (g_current_cluster u) u = Some (pos, c', t')" "fat_same u t'" "disk t' = disk u"
    "link_chain (fat_entry u) (FatEofMarker u) c' cs'" "set cs' \<subseteq> set cs" "unat pos \<le> unat off"
    "chain_bytes u cs' = drop (unat pos) (chain_bytes u cs)"
    using skip_clusters_correct [OF assms(3) fat_same_refl refl assms(4,5) csize _ cz, of off 0] assms(6-8,10) cpos csize by auto
  have v: "\<forall>x\<in>set cs'. fat_cluster u x" using k(5) assms(5) by blast
  have c': "c' \<noteq> 0 \<and> c' < 0x0FFFFFF8" using k(4) v fat_cluster_range by (cases cs') auto
  have d: "unat (off - pos) = unat off - unat pos" using k(6) by (simp add: unat_sub word_le_nat_alt)
  have "unat count + unat (off - pos) \<le> length (chain_bytes u cs')" using k(6,7) assms(6,8) by (simp add: d)
  from read_at_chain_correct [OF assms(3) k(2,3,4) v this, of "[]"] obtain u' where
    r: "read_at_chain c' ([], count, off - pos, t') = Some (STATUS_SUCCESS, take (unat count) (drop (unat (off - pos)) (chain_bytes u cs')), Fat32Close u')"
    "fat_same u u'" "disk u' = disk u" by auto
  have "take (unat count) (drop (unat (off - pos)) (chain_bytes u cs')) =
      take (unat count) (drop (unat off) (take (unat (g_current_file_size u)) (chain_bytes u cs)))"
    using k(6,7) assms(8) by (simp add: d drop_take min_def)
  moreover have no: "(0x0FFFFFF8 \<le> c') = False" "(g_current_file_size u \<le> off) = False" using c' req(2) by auto
  ultimately have "Fat32ReadFileAt path off count s =
      Some (STATUS_SUCCESS, take (unat count) (drop (unat off) (take (unat (g_current_file_size u)) (chain_bytes u cs))), Fat32Close u')"
    using r(1) k(1) c' assms(1,2) unfolding Fat32ReadFileAt_def by (simp add: Let_def req(1) no del: take_take)
  then show ?thesis using r(2,3) by blast
qed

section \<open>A volume with one file\<close>

text \<open>The root directory, sector 4, holds \<^verbatim>\<open>A\<close>: cluster 2, 1000 bytes.\<close>

definition entry_sector :: buf where
  "entry_sector = put32 (put16 (\<lambda>i. if i = 0 then 65 else if i < 11 then 32 else if i = 11 then 0x20 else 0) 26 2) 28 1000"

definition fat_one :: fat where
  "fat_one = fat_small\<lparr>g_fat := (g_fat fat_small)\<lparr>root_dir_sectors := 1, root_dir_start_sector := 4\<rparr>,
     disk := (disk fat_small)(4 := entry_sector)\<rparr>"

lemma entry_sector_bytes: "entry_sector 0 = 65" "entry_sector 11 = 0x20" "entry_sector 32 = 0"
  "le16 entry_sector 26 = 2" "le32 entry_sector 28 = 1000"
  "buf_list entry_sector 0 11 = [65, 32, 32, 32, 32, 32, 32, 32, 32, 32, 32]"
  by (simp_all add: entry_sector_def put16_def put32_def le16_def le32_def) (simp add: buf_list_def upt_rec)

definition fat_opened :: fat where
  "fat_opened = fat_one\<lparr>sector_buf := buf_copy (\<lambda>_. 0) 0 entry_sector 0 512\<rparr>"

lemma fat_one_read: "read_g 4 (fat_one\<lparr>g_current_cluster := c, g_current_file_size := n, g_current_is_directory := d\<rparr>) =
    (0, fat_opened\<lparr>g_current_cluster := c, g_current_file_size := n, g_current_is_directory := d\<rparr>)"
  by (simp add: read_g_def FatReadSector_def AtaReadSectors_def fat_lba_def fat_one_def fat_opened_def fat_small_def NT_SUCCESS_def)

lemma entry_sector_parse: "FatParseDirEntry FAT_TYPE_16 b 0 e = (STATUS_SUCCESS, \<lparr>fname = [97], first_cluster = 2, file_size = 1000,
    is_directory = False, is_readonly = False, is_hidden = False, is_system = False, is_volume_label = False, is_long_name = False,
    attributes = 0x20\<rparr>)"
  if "b = buf_copy (\<lambda>_. 0) 0 entry_sector 0 512"
proof -
  have b: "b i = entry_sector i" if "i < 512" for i using that \<open>b = _\<close> by (simp add: buf_copy_def)
  have "le16 b 26 = 2" "le32 b 28 = 1000" using entry_sector_bytes by (simp_all add: le16_def le32_def b)
  moreover have "buf_list b 0 11 = [65, 32, 32, 32, 32, 32, 32, 32, 32, 32, 32]"
    unfolding entry_sector_bytes(6) [symmetric] by (simp add: buf_list_def b)
  ultimately show ?thesis using entry_sector_bytes
    by (simp add: FatParseDirEntry_def b parse_short_name_def until_nul_def to_lower_def)
qed

lemma fat_one_readdir:
  "Fat32ReadDir 64 (fat_one\<lparr>g_current_cluster := 0, g_current_file_size := n, g_current_is_directory := d\<rparr>) =
    Some (STATUS_SUCCESS, [\<lparr>fname = [97], first_cluster = 2, file_size = 1000,
    is_directory = False, is_readonly = False, is_hidden = False, is_system = False, is_volume_label = False, is_long_name = False,
    attributes = 0x20\<rparr>], fat_opened\<lparr>g_current_cluster := 0, g_current_file_size := n, g_current_is_directory := d\<rparr>)"
proof -
  let ?s = "fat_one\<lparr>g_current_cluster := 0, g_current_file_size := n, g_current_is_directory := d\<rparr>"
  let ?o = "fat_opened\<lparr>g_current_cluster := 0, g_current_file_size := n, g_current_is_directory := d\<rparr>"
  have g: "g_fat_initialized ?s" "ftype (g_fat ?s) = FAT_TYPE_16" "root_dir_sectors (g_fat ?s) = 1" "root_dir_start_sector (g_fat ?s) = 4"
    "ftype (g_fat fat_opened) = FAT_TYPE_16" "sector_buf ?o = buf_copy (\<lambda>_. 0) 0 entry_sector 0 512"
    by (simp_all add: fat_one_def fat_opened_def fat_small_def)
  have "[0..<16] = 0 # 1 # [2..<16 :: nat]" by (simp add: upt_rec)
  then have slots: "slot_offsets ?o = 0 # 32 # map (\<lambda>i. 32 * i) [2..<16]"
    by (simp add: slot_offsets_def fat_opened_def fat_one_def fat_small_def)
  have b: "buf_copy (\<lambda>_. 0) 0 entry_sector 0 512 i = entry_sector i" if "i < 512" for i using that by (simp add: buf_copy_def)
  have "readdir_sector 64 4 0 ((False, \<lambda>_. 0, []), ?s) = Inl (STATUS_SUCCESS, [\<lparr>fname = [97], first_cluster = 2, file_size = 1000,
    is_directory = False, is_readonly = False, is_hidden = False, is_system = False, is_volume_label = False, is_long_name = False,
    attributes = 0x20\<rparr>], ?o)"
    by (simp add: readdir_sector_def fat_one_read slots g readdir_slot_def b entry_sector_bytes entry_sector_parse [OF refl] Let_def NT_SUCCESS_def status_simps)
  then show ?thesis using g by (simp add: Fat32ReadDir_def)
qed

lemma fat_one_open: "Fat32OpenPath [97] fat_one = Some (STATUS_SUCCESS, fat_opened\<lparr>g_current_cluster := 2, g_current_file_size := 1000, g_current_is_directory := False\<rparr>)"
proof -
  have "g_fat_initialized fat_one" "ftype (g_fat fat_one) = FAT_TYPE_16" by (simp_all add: fat_one_def fat_small_def)
  then show ?thesis
    by (simp add: Fat32OpenPath_def path_sep_def Fat32OpenRoot_def open_components.simps [of "[97]"] next_component_def fat_one_readdir entry_matches_def)
qed

definition fat_file :: fat where
  "fat_file = fat_opened\<lparr>g_current_cluster := 2, g_current_file_size := 1000, g_current_is_directory := False\<rparr>"

lemma fat_file_chain: "fat_ok fat_file" "link_chain (fat_entry fat_file) (FatEofMarker fat_file) (g_current_cluster fat_file) [2, 3]"
  "\<forall>x\<in>set [2, 3]. fat_cluster fat_file x" "length (chain_bytes fat_file [2, 3]) = 1024"
proof -
  show "fat_ok fat_file" by (simp add: fat_file_def fat_opened_def fat_one_def fat_small_def fat_ok_def NT_SUCCESS_def)
  have "FatEofMarker fat_file = 0xFFF8" by (simp add: FatEofMarker_def fat_file_def fat_opened_def fat_one_def fat_small_def)
  moreover have "fat_entry fat_file 2 = 3" "fat_entry fat_file 3 = 0xFFFF"
    by (simp_all add: fat_entry_def entry_load_def entry_byte_def fat_bytes_def fat_file_def fat_opened_def fat_one_def fat_small_def fat_lba_def
      le16_def put16_def)
  ultimately show "link_chain (fat_entry fat_file) (FatEofMarker fat_file) (g_current_cluster fat_file) [2, 3]"
    by (simp add: fat_file_def)
  have "fat_cluster fat_file c = fat_cluster fat_small c" for c
    by (simp add: fat_cluster_def fat_file_def fat_opened_def fat_one_def)
  then show "\<forall>x\<in>set [2, 3]. fat_cluster fat_file x" using fat_small_cluster by simp
  show "length (chain_bytes fat_file [2, 3]) = 1024"
    by (simp add: length_chain_bytes fat_file_def fat_opened_def fat_one_def fat_small_def)
qed

lemma Fat32ReadFileAt_correct_witness:
  "\<exists>data u'. Fat32ReadFileAt [97] 600 8 fat_one = Some (STATUS_SUCCESS, data, Fat32Close u') \<and> length data = 8"
proof -
  have g: "g_current_file_size fat_file = 1000" "sectors_per_cluster (g_fat fat_file) = 1" "g_fat_initialized fat_one"
    by (simp_all add: fat_file_def fat_opened_def fat_one_def fat_small_def)
  show ?thesis
    using Fat32ReadFileAt_correct [OF fat_one_open [folded fat_file_def] g(3) fat_file_chain(1-3), of 600 8] fat_file_chain(4) g
    by (fastforce simp: min_def)
qed

end
