(* ===== verification/Framebuffer.thy ===== *)
theory Framebuffer
  imports Runtime
begin

text \<open>
  The text console on the linear framebuffer (\<^verbatim>\<open>Kernel/framebuffer.c\<close>).  The memory from
  \<^verbatim>\<open>g_fb_base\<close> on is a function from offset to byte; the font, a table of 256 glyphs of 16 bytes
  in \<^verbatim>\<open>Kernel/font8x16.h\<close>, is a field of the state.  The abstract console is a grid of
  characters with their colours; the pixels show the grid, and every operation keeps them
  doing so.
\<close>

section \<open>State\<close>

definition FONT_WIDTH :: u32 where "FONT_WIDTH = 8"
definition FONT_HEIGHT :: u32 where "FONT_HEIGHT = 16"

record framebuffer =
  fb_ready :: bool
  fb_mem :: mem
  g_fb_width :: u32
  g_fb_height :: u32
  g_fb_pitch :: u32
  g_fb_bpp :: u32
  g_fb_bytes_per_pixel :: u32
  g_cursor_x :: u32
  g_cursor_y :: u32
  g_fb_fg :: u32
  g_fb_bg :: u32
  g_font8x16 :: "u8 \<Rightarrow> nat \<Rightarrow> u8"

section \<open>Operations\<close>

definition FbClear :: "framebuffer \<Rightarrow> framebuffer" where
  "FbClear s =
    (if \<not> fb_ready s then s
     else s\<lparr>fb_mem := RtMemSet (fb_mem s) 0 0 (unat (g_fb_height s) * unat (g_fb_pitch s)), g_cursor_x := 0, g_cursor_y := 0\<rparr>)"

definition KeInitFramebuffer :: "bool \<Rightarrow> mem \<Rightarrow> u32 \<Rightarrow> u32 \<Rightarrow> u32 \<Rightarrow> u32 \<Rightarrow> framebuffer \<Rightarrow> framebuffer" where
  "KeInitFramebuffer base m width height pitch bpp s =
    FbClear (s\<lparr>fb_ready := base, fb_mem := m, g_fb_width := width, g_fb_height := height, g_fb_pitch := pitch, g_fb_bpp := bpp,
      g_fb_bytes_per_pixel := bpp div 8, g_cursor_x := 0, g_cursor_y := 0\<rparr>)"

definition FbDrawPixel :: "u32 \<Rightarrow> u32 \<Rightarrow> u32 \<Rightarrow> framebuffer \<Rightarrow> framebuffer" where
  "FbDrawPixel x y color s =
    (if x \<ge> g_fb_width s \<or> y \<ge> g_fb_height s then s
     else let pixel = unat (y * g_fb_pitch s) + unat (x * g_fb_bytes_per_pixel s)
          in s\<lparr>fb_mem := (fb_mem s)(pixel := ucast (color AND 0xFF), pixel + 1 := ucast (drop_bit 8 color AND 0xFF),
                 pixel + 2 := ucast (drop_bit 16 color AND 0xFF))\<rparr>)"

definition glyph_color :: "(nat \<Rightarrow> u8) \<Rightarrow> u32 \<Rightarrow> u32 \<Rightarrow> nat \<Rightarrow> nat \<Rightarrow> u32" where
  "glyph_color glyph fg bg x y = (if glyph y AND drop_bit x 0x80 \<noteq> 0 then fg else bg)"

definition FbDrawCharAt :: "u8 \<Rightarrow> u32 \<Rightarrow> u32 \<Rightarrow> u32 \<Rightarrow> u32 \<Rightarrow> framebuffer \<Rightarrow> framebuffer" where
  "FbDrawCharAt c col row fg bg s =
    (let glyph = g_font8x16 s c; start_x = col * FONT_WIDTH; start_y = row * FONT_HEIGHT
     in fold (\<lambda>y. fold (\<lambda>x. FbDrawPixel (start_x + of_nat x) (start_y + of_nat y) (glyph_color glyph fg bg x y)) [0..<8]) [0..<16] s)"

definition FbScrollUp :: "u32 \<Rightarrow> framebuffer \<Rightarrow> framebuffer" where
  "FbScrollUp lines s =
    (let scroll_pixels = lines * FONT_HEIGHT
     in if scroll_pixels \<ge> g_fb_height s then FbClear s
        else
          let m = RtMemCopy (fb_mem s) 0 (unat (scroll_pixels * g_fb_pitch s)) (unat ((g_fb_height s - scroll_pixels) * g_fb_pitch s))
          in s\<lparr>fb_mem := RtMemSet m (unat ((g_fb_height s - scroll_pixels) * g_fb_pitch s)) 0 (unat (scroll_pixels * g_fb_pitch s))\<rparr>)"

definition fb_advance :: "u8 \<Rightarrow> framebuffer \<Rightarrow> framebuffer" where
  "fb_advance c s =
    (if c = 10 then s\<lparr>g_cursor_x := 0, g_cursor_y := g_cursor_y s + 1\<rparr>
     else if c = 13 then s\<lparr>g_cursor_x := 0\<rparr>
     else if c = 9 then
       let x = (g_cursor_x s + 4) AND NOT 3
       in if x \<ge> g_fb_width s div FONT_WIDTH then s\<lparr>g_cursor_x := 0, g_cursor_y := g_cursor_y s + 1\<rparr> else s\<lparr>g_cursor_x := x\<rparr>
     else if c = 8 then
       (if g_cursor_x s > 0
        then FbDrawCharAt 32 (g_cursor_x s - 1) (g_cursor_y s) (g_fb_fg s) (g_fb_bg s) (s\<lparr>g_cursor_x := g_cursor_x s - 1\<rparr>) else s)
     else (FbDrawCharAt c (g_cursor_x s) (g_cursor_y s) (g_fb_fg s) (g_fb_bg s) s)\<lparr>g_cursor_x := g_cursor_x s + 1\<rparr>)"

definition fb_wrap :: "framebuffer \<Rightarrow> framebuffer" where
  "fb_wrap s =
    (let max_cols = g_fb_width s div FONT_WIDTH; max_rows = g_fb_height s div FONT_HEIGHT;
         s = (if g_cursor_x s \<ge> max_cols then s\<lparr>g_cursor_x := 0, g_cursor_y := g_cursor_y s + 1\<rparr> else s)
     in if g_cursor_y s \<ge> max_rows then (FbScrollUp 1 s)\<lparr>g_cursor_y := max_rows - 1\<rparr> else s)"

definition FbPutChar :: "u8 \<Rightarrow> framebuffer \<Rightarrow> framebuffer" where
  "FbPutChar c s = (if \<not> fb_ready s then s else fb_wrap (fb_advance c s))"

definition FbPrintString :: "u8 list \<Rightarrow> framebuffer \<Rightarrow> framebuffer" where
  "FbPrintString str = fold FbPutChar str"

definition FbSetColor :: "u32 \<Rightarrow> u32 \<Rightarrow> framebuffer \<Rightarrow> framebuffer" where
  "FbSetColor fg bg s = s\<lparr>g_fb_fg := fg, g_fb_bg := bg\<rparr>"

definition FbSetCursorPos :: "u32 \<Rightarrow> u32 \<Rightarrow> framebuffer \<Rightarrow> framebuffer" where
  "FbSetCursorPos x y s = s\<lparr>g_cursor_x := x, g_cursor_y := y\<rparr>"

definition FbGetCursorX :: "framebuffer \<Rightarrow> u32" where "FbGetCursorX s = g_cursor_x s"
definition FbGetCursorY :: "framebuffer \<Rightarrow> u32" where "FbGetCursorY s = g_cursor_y s"

section \<open>The abstract console\<close>

text \<open>A cell is empty (black) or holds a character with its colours.\<close>

type_synonym cell = "(u8 \<times> u32 \<times> u32) option"

record console =
  con_cols :: nat
  con_rows :: nat
  con_cell :: "nat \<Rightarrow> nat \<Rightarrow> cell"
  con_x :: nat
  con_y :: nat
  con_fg :: u32
  con_bg :: u32

definition con_draw :: "u8 \<Rightarrow> nat \<Rightarrow> console \<Rightarrow> console" where
  "con_draw c x k = k\<lparr>con_cell := (con_cell k)(con_y k := (con_cell k (con_y k))(x := Some (c, con_fg k, con_bg k)))\<rparr>"

definition con_newline :: "console \<Rightarrow> console" where
  "con_newline k = k\<lparr>con_x := 0, con_y := con_y k + 1\<rparr>"

definition con_advance :: "u8 \<Rightarrow> console \<Rightarrow> console" where
  "con_advance c k =
    (if c = 10 then con_newline k
     else if c = 13 then k\<lparr>con_x := 0\<rparr>
     else if c = 9 then let x = (con_x k div 4 + 1) * 4 in if x \<ge> con_cols k then con_newline k else k\<lparr>con_x := x\<rparr>
     else if c = 8 then if con_x k > 0 then (con_draw 32 (con_x k - 1) k)\<lparr>con_x := con_x k - 1\<rparr> else k
     else (con_draw c (con_x k) k)\<lparr>con_x := con_x k + 1\<rparr>)"

definition con_scroll :: "console \<Rightarrow> console" where
  "con_scroll k = k\<lparr>con_cell := (\<lambda>r. if r + 1 < con_rows k then con_cell k (r + 1) else (\<lambda>_. None)), con_y := con_rows k - 1\<rparr>"

definition con_put :: "u8 \<Rightarrow> console \<Rightarrow> console" where
  "con_put c k =
    (let k = con_advance c k;
         k = (if con_x k \<ge> con_cols k then con_newline k else k)
     in if con_y k \<ge> con_rows k then con_scroll k else k)"

section \<open>What the pixels show\<close>

definition rgb :: "u32 \<Rightarrow> u8 \<times> u8 \<times> u8" where
  "rgb color = (ucast (color AND 0xFF), ucast (drop_bit 8 color AND 0xFF), ucast (drop_bit 16 color AND 0xFF))"

definition pixel_at :: "framebuffer \<Rightarrow> nat \<Rightarrow> nat \<Rightarrow> nat" where
  "pixel_at s X Y = Y * unat (g_fb_pitch s) + X * unat (g_fb_bytes_per_pixel s)"

definition pixel :: "framebuffer \<Rightarrow> nat \<Rightarrow> nat \<Rightarrow> u8 \<times> u8 \<times> u8" where
  "pixel s X Y = (fb_mem s (pixel_at s X Y), fb_mem s (pixel_at s X Y + 1), fb_mem s (pixel_at s X Y + 2))"

lemma pixel_at_mem [simp]: "pixel_at (s\<lparr>fb_mem := m\<rparr>) = pixel_at s" "pixel_at (s\<lparr>g_cursor_x := x\<rparr>) = pixel_at s"
  "pixel_at (s\<lparr>g_cursor_y := y\<rparr>) = pixel_at s"
  by (simp_all add: pixel_at_def fun_eq_iff)

lemma pixel_cursor [simp]: "pixel (s\<lparr>g_cursor_x := x\<rparr>) = pixel s" "pixel (s\<lparr>g_cursor_y := y\<rparr>) = pixel s"
  by (simp_all add: pixel_def fun_eq_iff)

text \<open>The geometry that a boot loader reports: 24 or 32 bits per pixel, at least one character.\<close>

definition fb_geometry :: "framebuffer \<Rightarrow> bool" where
  "fb_geometry s \<longleftrightarrow> fb_ready s \<and> 3 \<le> unat (g_fb_bytes_per_pixel s) \<and>
     unat (g_fb_width s) * unat (g_fb_bytes_per_pixel s) \<le> unat (g_fb_pitch s) \<and>
     unat (g_fb_height s) * unat (g_fb_pitch s) < 2 ^ 32 \<and> 8 \<le> unat (g_fb_width s) \<and> 16 \<le> unat (g_fb_height s)"

text \<open>\<open>s'\<close> is \<open>s\<close> with the pixels of \<open>P\<close> painted; nothing behind the last line is touched.\<close>

definition painted :: "framebuffer \<Rightarrow> framebuffer \<Rightarrow> (nat \<Rightarrow> nat \<Rightarrow> (u8 \<times> u8 \<times> u8) option) \<Rightarrow> bool" where
  "painted s s' P \<longleftrightarrow> s' = s\<lparr>fb_mem := fb_mem s'\<rparr> \<and>
     (\<forall>X Y. X < unat (g_fb_width s) \<longrightarrow> Y < unat (g_fb_height s) \<longrightarrow>
        pixel s' X Y = (case P X Y of None \<Rightarrow> pixel s X Y | Some v \<Rightarrow> v)) \<and>
     (\<forall>i \<ge> unat (g_fb_height s) * unat (g_fb_pitch s). fb_mem s' i = fb_mem s i)"

lemma painted_refl: "painted s s (\<lambda>_ _. None)"
  by (simp add: painted_def)

lemma painted_fields:
  assumes "painted s s' P"
  shows "fb_ready s' = fb_ready s" "g_fb_width s' = g_fb_width s" "g_fb_height s' = g_fb_height s" "g_fb_pitch s' = g_fb_pitch s"
    "g_fb_bytes_per_pixel s' = g_fb_bytes_per_pixel s" "g_cursor_x s' = g_cursor_x s" "g_cursor_y s' = g_cursor_y s"
    "g_fb_fg s' = g_fb_fg s" "g_fb_bg s' = g_fb_bg s" "g_font8x16 s' = g_font8x16 s" "fb_geometry s' = fb_geometry s"
proof -
  have e: "s' = s\<lparr>fb_mem := fb_mem s'\<rparr>" using assms by (simp add: painted_def)
  show "fb_ready s' = fb_ready s" "g_fb_width s' = g_fb_width s" "g_fb_height s' = g_fb_height s" "g_fb_pitch s' = g_fb_pitch s"
    "g_fb_bytes_per_pixel s' = g_fb_bytes_per_pixel s" "g_cursor_x s' = g_cursor_x s" "g_cursor_y s' = g_cursor_y s"
    "g_fb_fg s' = g_fb_fg s" "g_fb_bg s' = g_fb_bg s" "g_font8x16 s' = g_font8x16 s"
    by (subst e, simp)+
  then show "fb_geometry s' = fb_geometry s" by (simp add: fb_geometry_def)
qed

lemma painted_trans:
  assumes "painted s t P" "painted t u Q"
  shows "painted s u (\<lambda>X Y. case Q X Y of None \<Rightarrow> P X Y | Some v \<Rightarrow> Some v)"
proof -
  have "u = s\<lparr>fb_mem := fb_mem u\<rparr>" using assms unfolding painted_def by (metis framebuffer.surjective framebuffer.update_convs(2))
  then show ?thesis using assms by (auto simp: painted_def painted_fields [OF assms(1)] split: option.splits)
qed

lemma painted_cong: "painted s t P \<Longrightarrow> (\<And>X Y. X < unat (g_fb_width s) \<Longrightarrow> Y < unat (g_fb_height s) \<Longrightarrow> P X Y = Q X Y) \<Longrightarrow> painted s t Q"
  by (simp add: painted_def)

section \<open>Drawing\<close>

lemma pixel_room:
  assumes "fb_geometry s" "X < unat (g_fb_width s)"
  shows "X * unat (g_fb_bytes_per_pixel s) + 3 \<le> unat (g_fb_pitch s)"
proof -
  have "Suc X * unat (g_fb_bytes_per_pixel s) \<le> unat (g_fb_width s) * unat (g_fb_bytes_per_pixel s)"
    using assms(2) by (intro mult_right_mono) simp_all
  then show ?thesis using assms(1) by (simp add: fb_geometry_def)
qed

lemma pixel_inside:
  assumes "fb_geometry s" "X < unat (g_fb_width s)" "Y < unat (g_fb_height s)"
  shows "pixel_at s X Y + 3 \<le> unat (g_fb_height s) * unat (g_fb_pitch s)"
proof -
  have "Suc Y * unat (g_fb_pitch s) \<le> unat (g_fb_height s) * unat (g_fb_pitch s)" using assms(3) by (intro mult_right_mono) simp_all
  then show ?thesis using pixel_room [OF assms(1,2)] by (simp add: pixel_at_def)
qed

lemma pixels_apart:
  assumes "fb_geometry s" "X < unat (g_fb_width s)" "X' < unat (g_fb_width s)" "(X, Y) \<noteq> (X', Y')"
  shows "pixel_at s X Y + 3 \<le> pixel_at s X' Y' \<or> pixel_at s X' Y' + 3 \<le> pixel_at s X Y"
proof -
  let ?b = "unat (g_fb_bytes_per_pixel s)" and ?p = "unat (g_fb_pitch s)"
  have b: "3 \<le> ?b" using assms(1) by (simp add: fb_geometry_def)
  have row: "pixel_at s A y + 3 \<le> pixel_at s A' y'" if "y < y'" "A < unat (g_fb_width s)" for A A' y y'
  proof -
    have "Suc y * ?p \<le> y' * ?p" using that(1) by (intro mult_right_mono) simp_all
    then show ?thesis using pixel_room [OF assms(1) that(2)] by (simp add: pixel_at_def)
  qed
  have col: "pixel_at s A y + 3 \<le> pixel_at s A' y" if "A < A'" for A A' y
  proof -
    have "Suc A * ?b \<le> A' * ?b" using that by (intro mult_right_mono) simp_all
    then show ?thesis using b by (simp add: pixel_at_def)
  qed
  consider "Y < Y'" | "Y' < Y" | "Y = Y'" "X < X'" | "Y = Y'" "X' < X" using assms(4) by fastforce
  then show ?thesis by cases (use row col assms(2,3) in auto)
qed

lemma FbDrawPixel_painted:
  assumes "fb_geometry s" "unat x < unat (g_fb_width s)" "unat y < unat (g_fb_height s)"
  shows "painted s (FbDrawPixel x y color s) (\<lambda>X Y. if X = unat x \<and> Y = unat y then Some (rgb color) else None)"
proof -
  have in_mem: "pixel_at s (unat x) (unat y) + 3 \<le> unat (g_fb_height s) * unat (g_fb_pitch s)" by (rule pixel_inside [OF assms])
  then have "unat y * unat (g_fb_pitch s) < 2 ^ 32" "unat x * unat (g_fb_bytes_per_pixel s) < 2 ^ 32"
    using assms(1) by (auto simp: pixel_at_def fb_geometry_def)
  then have at: "unat (y * g_fb_pitch s) + unat (x * g_fb_bytes_per_pixel s) = pixel_at s (unat x) (unat y)"
    by (simp add: pixel_at_def unat_word_ariths)
  let ?p = "pixel_at s (unat x) (unat y)"
  let ?m = "(fb_mem s)(?p := ucast (color AND 0xFF), ?p + 1 := ucast (drop_bit 8 color AND 0xFF), ?p + 2 := ucast (drop_bit 16 color AND 0xFF))"
  have d: "FbDrawPixel x y color s = s\<lparr>fb_mem := ?m\<rparr>"
    using assms(2,3) by (simp add: FbDrawPixel_def at word_le_nat_alt Let_def)
  have "pixel (s\<lparr>fb_mem := ?m\<rparr>) X Y = (if X = unat x \<and> Y = unat y then rgb color else pixel s X Y)"
    if "X < unat (g_fb_width s)" "Y < unat (g_fb_height s)" for X Y
  proof (cases "X = unat x \<and> Y = unat y")
    case True
    then show ?thesis by (simp add: pixel_def rgb_def)
  next
    case False
    then have "pixel_at s X Y + 3 \<le> ?p \<or> ?p + 3 \<le> pixel_at s X Y" using pixels_apart [OF assms(1) that(1) assms(2)] by auto
    then show ?thesis using False by (auto simp: pixel_def)
  qed
  moreover have "?m i = fb_mem s i" if "i \<ge> unat (g_fb_height s) * unat (g_fb_pitch s)" for i using that in_mem by auto
  ultimately show ?thesis unfolding d by (simp add: painted_def del: fun_upd_apply)
qed

lemma draw_row_painted:
  assumes "fb_geometry s" "unat sx + n \<le> unat (g_fb_width s)" "unat y < unat (g_fb_height s)"
  shows "painted s (fold (\<lambda>x. FbDrawPixel (sx + of_nat x) y (col x)) [0..<n] s)
    (\<lambda>X Y. if unat sx \<le> X \<and> X < unat sx + n \<and> Y = unat y then Some (rgb (col (X - unat sx))) else None)"
  using assms(2)
proof (induction n)
  case 0
  then show ?case by (auto simp: painted_def)
next
  case (Suc n)
  let ?t = "fold (\<lambda>x. FbDrawPixel (sx + of_nat x) y (col x)) [0..<n] s"
  have t: "painted s ?t (\<lambda>X Y. if unat sx \<le> X \<and> X < unat sx + n \<and> Y = unat y then Some (rgb (col (X - unat sx))) else None)"
    using Suc by simp
  note f = painted_fields [OF t]
  have lt: "unat sx + n < 2 ^ 32" using Suc.prems unsigned_less [of "g_fb_width s", where 'a = nat] by simp
  then have u: "unat (sx + of_nat n) = unat sx + n" by (simp add: unat_word_ariths unat_of_nat take_bit_eq_mod)
  have "painted ?t (FbDrawPixel (sx + of_nat n) y (col n) ?t) (\<lambda>X Y. if X = unat sx + n \<and> Y = unat y then Some (rgb (col n)) else None)"
    using FbDrawPixel_painted [of ?t "sx + of_nat n" y "col n"] assms(1,3) Suc.prems by (simp add: f u)
  from painted_trans [OF t this] have "painted s (fold (\<lambda>x. FbDrawPixel (sx + of_nat x) y (col x)) [0..<Suc n] s)
    (\<lambda>X Y. case if X = unat sx + n \<and> Y = unat y then Some (rgb (col n)) else None of
       None \<Rightarrow> if unat sx \<le> X \<and> X < unat sx + n \<and> Y = unat y then Some (rgb (col (X - unat sx))) else None | Some v \<Rightarrow> Some v)"
    by simp
  then show ?case by (rule painted_cong) auto
qed

text \<open>The rectangle of a character.\<close>

lemma FbDrawCharAt_painted:
  assumes "fb_geometry s" "unat col < unat (g_fb_width s) div 8" "unat row < unat (g_fb_height s) div 16"
  shows "painted s (FbDrawCharAt c col row fg bg s)
    (\<lambda>X Y. if X div 8 = unat col \<and> Y div 16 = unat row then Some (rgb (glyph_color (g_font8x16 s c) fg bg (X mod 8) (Y mod 16))) else None)"
proof -
  let ?g = "g_font8x16 s c" and ?sx = "col * FONT_WIDTH" and ?sy = "row * FONT_HEIGHT"
  let ?rows = "\<lambda>n. fold (\<lambda>y. fold (\<lambda>x. FbDrawPixel (?sx + of_nat x) (?sy + of_nat y) (glyph_color ?g fg bg x y)) [0..<8]) [0..<n] s"
  have w: "unat (g_fb_width s) < 2 ^ 32" "unat (g_fb_height s) < 2 ^ 32"
    using unsigned_less [of "g_fb_width s", where 'a = nat] unsigned_less [of "g_fb_height s", where 'a = nat] by simp_all
  have room: "8 * unat col + 8 \<le> unat (g_fb_width s)" "16 * unat row + 16 \<le> unat (g_fb_height s)" using assms(2,3) by linarith+
  have sx: "unat ?sx = 8 * unat col" using room w by (simp add: FONT_WIDTH_def unat_word_ariths)
  have sy: "unat (?sy + of_nat n) = 16 * unat row + n" if "n < 16" for n
    using room w that by (simp add: FONT_HEIGHT_def unat_word_ariths unat_of_nat take_bit_eq_mod)
  have "painted s (?rows n) (\<lambda>X Y. if 8 * unat col \<le> X \<and> X < 8 * unat col + 8 \<and> 16 * unat row \<le> Y \<and> Y < 16 * unat row + n
      then Some (rgb (glyph_color ?g fg bg (X - 8 * unat col) (Y - 16 * unat row))) else None)" if "n \<le> 16" for n
    using that
  proof (induction n)
    case 0
    then show ?case by (auto simp: painted_def)
  next
    case (Suc n)
    then have t: "painted s (?rows n) (\<lambda>X Y. if 8 * unat col \<le> X \<and> X < 8 * unat col + 8 \<and> 16 * unat row \<le> Y \<and> Y < 16 * unat row + n
      then Some (rgb (glyph_color ?g fg bg (X - 8 * unat col) (Y - 16 * unat row))) else None)" by simp
    note f = painted_fields [OF t]
    have n16: "n < 16" using Suc.prems by simp
    have step: "?rows (Suc n) = fold (\<lambda>x. FbDrawPixel (?sx + of_nat x) (?sy + of_nat n) (glyph_color ?g fg bg x n)) [0..<8] (?rows n)"
      by (simp only: upt_Suc_append [of 0, OF le0] fold_append comp_apply fold.simps id_apply)
    have "painted (?rows n) (?rows (Suc n)) (\<lambda>X Y. if 8 * unat col \<le> X \<and> X < 8 * unat col + 8 \<and> Y = 16 * unat row + n
        then Some (rgb (glyph_color ?g fg bg (X - 8 * unat col) n)) else None)"
      unfolding step using draw_row_painted [of "?rows n" ?sx 8 "?sy + of_nat n" "\<lambda>x. glyph_color ?g fg bg x n"]
      unfolding f sx sy [OF n16] using assms(1) room Suc.prems by simp
    from painted_trans [OF t this] show ?case by (rule painted_cong) auto
  qed
  from this [of 16] have "painted s (FbDrawCharAt c col row fg bg s) (\<lambda>X Y. if 8 * unat col \<le> X \<and> X < 8 * unat col + 8 \<and> 16 * unat row \<le> Y \<and>
      Y < 16 * unat row + 16 then Some (rgb (glyph_color ?g fg bg (X - 8 * unat col) (Y - 16 * unat row))) else None)"
    by (simp add: FbDrawCharAt_def Let_def)
  then show ?thesis
  proof (rule painted_cong)
    fix X Y
    have "8 * unat col \<le> X \<and> X < 8 * unat col + 8 \<longleftrightarrow> X div 8 = unat col" "16 * unat row \<le> Y \<and> Y < 16 * unat row + 16 \<longleftrightarrow> Y div 16 = unat row"
      by linarith+
    moreover have "X div 8 = unat col \<Longrightarrow> X - 8 * unat col = X mod 8" "Y div 16 = unat row \<Longrightarrow> Y - 16 * unat row = Y mod 16"
      by (metis minus_mult_div_eq_mod)+
    ultimately show "(if 8 * unat col \<le> X \<and> X < 8 * unat col + 8 \<and> 16 * unat row \<le> Y \<and> Y < 16 * unat row + 16
        then Some (rgb (glyph_color ?g fg bg (X - 8 * unat col) (Y - 16 * unat row))) else None) =
      (if X div 8 = unat col \<and> Y div 16 = unat row then Some (rgb (glyph_color ?g fg bg (X mod 8) (Y mod 16))) else None)"
      by auto
  qed
qed

text \<open>Scrolling by one line of text.\<close>

lemma unat_mult_exact: "unat (a :: u32) = n \<Longrightarrow> n * unat b < 2 ^ 32 \<Longrightarrow> unat (a * b) = n * unat b"
  by (simp add: unat_word_ariths)

lemma scrolled:
  assumes "fb_geometry s" "16 < unat (g_fb_height s)"
  shows "FbScrollUp 1 s = s\<lparr>fb_mem := fb_mem (FbScrollUp 1 s)\<rparr>"
    "fb_mem (FbScrollUp 1 s) i = (if i < (unat (g_fb_height s) - 16) * unat (g_fb_pitch s) then fb_mem s (i + 16 * unat (g_fb_pitch s))
      else if i < unat (g_fb_height s) * unat (g_fb_pitch s) then 0 else fb_mem s i)"
proof -
  let ?h = "unat (g_fb_height s)" and ?p = "unat (g_fb_pitch s)"
  have hp: "?h * ?p < 2 ^ 32" using assms(1) by (simp add: fb_geometry_def)
  have le: "16 * ?p \<le> ?h * ?p" "(?h - 16) * ?p \<le> ?h * ?p" using assms(2) by (auto intro: mult_right_mono)
  have sp: "unat (1 * FONT_HEIGHT :: u32) = 16" by (simp add: FONT_HEIGHT_def)
  have hs: "unat (g_fb_height s - 1 * FONT_HEIGHT) = ?h - 16" using assms(2) sp by (simp add: unat_sub word_le_nat_alt)
  have lt: "16 * ?p < 2 ^ 32" "(?h - 16) * ?p < 2 ^ 32" by (rule le_less_trans [OF le(1) hp], rule le_less_trans [OF le(2) hp])
  have p16: "unat (1 * FONT_HEIGHT * g_fb_pitch s) = 16 * ?p" by (rule unat_mult_exact [OF sp lt(1)])
  have rest: "unat ((g_fb_height s - 1 * FONT_HEIGHT) * g_fb_pitch s) = (?h - 16) * ?p" by (rule unat_mult_exact [OF hs lt(2)])
  have ge: "\<not> 1 * FONT_HEIGHT \<ge> g_fb_height s" using assms(2) sp by (simp add: word_le_nat_alt)
  have up: "FbScrollUp 1 s = s\<lparr>fb_mem := buf_fill (buf_copy (fb_mem s) 0 (fb_mem s) (16 * ?p) ((?h - 16) * ?p)) ((?h - 16) * ?p) 0 (16 * ?p)\<rparr>"
    using ge by (simp only: FbScrollUp_def Let_def p16 rest if_False RtMemSet_fill) (simp add: RtMemCopy_correct)
  have "(?h - 16) * ?p + 16 * ?p = ?h * ?p" using assms(2) by (simp add: add_mult_distrib [symmetric])
  then show "fb_mem (FbScrollUp 1 s) i = (if i < (?h - 16) * ?p then fb_mem s (i + 16 * ?p) else if i < ?h * ?p then 0 else fb_mem s i)"
    by (auto simp: up buf_fill_def buf_copy_def add.commute)
  show "FbScrollUp 1 s = s\<lparr>fb_mem := fb_mem (FbScrollUp 1 s)\<rparr>" by (simp add: up)
qed

lemma scrolled_pixel:
  assumes "fb_geometry s" "16 < unat (g_fb_height s)" "X < unat (g_fb_width s)" "Y < unat (g_fb_height s)"
  shows "pixel (FbScrollUp 1 s) X Y = (if Y + 16 < unat (g_fb_height s) then pixel s X (Y + 16) else (0, 0, 0))"
proof -
  let ?h = "unat (g_fb_height s)" and ?p = "unat (g_fb_pitch s)"
  have at: "pixel_at (FbScrollUp 1 s) X Y = pixel_at s X Y" by (subst scrolled(1) [OF assms(1,2)]) simp
  have up: "pixel_at s X (Y + 16) = pixel_at s X Y + 16 * ?p" by (simp add: pixel_at_def add_mult_distrib)
  note m = scrolled(2) [OF assms(1,2)] and room = pixel_room [OF assms(1,3)]
  have "pixel_at s X Y + 3 \<le> (?h - 16) * ?p" if "Y + 16 < ?h"
  proof -
    have "Suc Y * ?p \<le> (?h - 16) * ?p" using that by (intro mult_right_mono) simp_all
    then show ?thesis using room by (simp add: pixel_at_def)
  qed
  moreover have "(?h - 16) * ?p \<le> pixel_at s X Y" if "\<not> Y + 16 < ?h"
    unfolding pixel_at_def by (rule trans_le_add1, rule mult_right_mono) (use that in simp_all)
  moreover have "pixel_at s X Y + 3 \<le> ?h * ?p" by (rule pixel_inside [OF assms(1,3,4)])
  ultimately show ?thesis by (auto simp: pixel_def at m up add.commute)
qed

section \<open>The pixels show the console\<close>

definition cell_rgb :: "(u8 \<Rightarrow> nat \<Rightarrow> u8) \<Rightarrow> cell \<Rightarrow> nat \<Rightarrow> nat \<Rightarrow> u8 \<times> u8 \<times> u8" where
  "cell_rgb font cell x y = (case cell of None \<Rightarrow> (0, 0, 0) | Some (c, fg, bg) \<Rightarrow> rgb (glyph_color (font c) fg bg x y))"

definition con_rgb :: "(u8 \<Rightarrow> nat \<Rightarrow> u8) \<Rightarrow> console \<Rightarrow> nat \<Rightarrow> nat \<Rightarrow> u8 \<times> u8 \<times> u8" where
  "con_rgb font k X Y =
    (if X div 8 < con_cols k \<and> Y div 16 < con_rows k then cell_rgb font (con_cell k (Y div 16) (X div 8)) (X mod 8) (Y mod 16) else (0, 0, 0))"

definition fb_rel :: "framebuffer \<Rightarrow> console \<Rightarrow> bool" where
  "fb_rel s k \<longleftrightarrow> fb_geometry s \<and> con_cols k = unat (g_fb_width s) div 8 \<and> con_rows k = unat (g_fb_height s) div 16 \<and>
     con_x k = unat (g_cursor_x s) \<and> con_y k = unat (g_cursor_y s) \<and> con_fg k = g_fb_fg s \<and> con_bg k = g_fb_bg s \<and>
     (\<forall>X Y. X < unat (g_fb_width s) \<longrightarrow> Y < unat (g_fb_height s) \<longrightarrow> pixel s X Y = con_rgb (g_font8x16 s) k X Y)"

definition fb_shows :: "framebuffer \<Rightarrow> console \<Rightarrow> bool" where
  "fb_shows s k \<longleftrightarrow> fb_rel s k \<and> con_x k < con_cols k \<and> con_y k < con_rows k"

text \<open>The framebuffer's fixed part, and the bytes behind its last line.\<close>

definition fb_kept :: "framebuffer \<Rightarrow> framebuffer \<Rightarrow> bool" where
  "fb_kept s s' \<longleftrightarrow> g_fb_height s' = g_fb_height s \<and> g_fb_pitch s' = g_fb_pitch s \<and>
     (\<forall>i \<ge> unat (g_fb_height s) * unat (g_fb_pitch s). fb_mem s' i = fb_mem s i)"

lemma fb_kept_refl [simp]: "fb_kept s s" "fb_kept s (s\<lparr>g_cursor_x := x\<rparr>)" "fb_kept s (s\<lparr>g_cursor_y := y\<rparr>)"
  "fb_kept s (s\<lparr>g_cursor_x := x, g_cursor_y := y\<rparr>)"
  by (simp_all add: fb_kept_def)

lemma fb_kept_trans: "fb_kept s t \<Longrightarrow> fb_kept t u \<Longrightarrow> fb_kept s u"
  by (simp add: fb_kept_def)

lemma painted_kept: "painted s s' P \<Longrightarrow> fb_kept s s'"
  by (simp add: fb_kept_def painted_fields) (simp add: painted_def)

lemma fb_geometry_cursor [simp]: "fb_geometry (s\<lparr>g_cursor_x := x\<rparr>) = fb_geometry s" "fb_geometry (s\<lparr>g_cursor_y := y\<rparr>) = fb_geometry s"
  by (simp_all add: fb_geometry_def)

lemma con_rgb_cursor [simp]: "con_rgb f (k\<lparr>con_x := x\<rparr>) = con_rgb f k" "con_rgb f (k\<lparr>con_y := y\<rparr>) = con_rgb f k"
  by (simp_all add: con_rgb_def fun_eq_iff)

lemma fb_rel_cursor:
  "fb_rel s k \<Longrightarrow> unat x = x' \<Longrightarrow> fb_rel (s\<lparr>g_cursor_x := x\<rparr>) (k\<lparr>con_x := x'\<rparr>)"
  "fb_rel s k \<Longrightarrow> unat y = y' \<Longrightarrow> fb_rel (s\<lparr>g_cursor_y := y\<rparr>) (k\<lparr>con_y := y'\<rparr>)"
  by (simp_all add: fb_rel_def)

lemma fb_rel_draw:
  assumes "fb_rel s k" "unat col < con_cols k" "con_y k < con_rows k"
  shows "fb_rel (FbDrawCharAt c col (g_cursor_y s) (g_fb_fg s) (g_fb_bg s) s) (con_draw c (unat col) k)"
    "fb_kept s (FbDrawCharAt c col (g_cursor_y s) (g_fb_fg s) (g_fb_bg s) s)"
proof -
  let ?s = "FbDrawCharAt c col (g_cursor_y s) (g_fb_fg s) (g_fb_bg s) s"
  have p: "painted s ?s (\<lambda>X Y. if X div 8 = unat col \<and> Y div 16 = unat (g_cursor_y s)
      then Some (rgb (glyph_color (g_font8x16 s c) (g_fb_fg s) (g_fb_bg s) (X mod 8) (Y mod 16))) else None)"
    using assms by (intro FbDrawCharAt_painted) (simp_all add: fb_rel_def)
  show "fb_kept s ?s" by (rule painted_kept [OF p])
  have "pixel ?s X Y = con_rgb (g_font8x16 s) (con_draw c (unat col) k) X Y"
    if "X < unat (g_fb_width s)" "Y < unat (g_fb_height s)" for X Y
  proof -
    have "pixel ?s X Y = (if X div 8 = unat col \<and> Y div 16 = unat (g_cursor_y s)
        then rgb (glyph_color (g_font8x16 s c) (g_fb_fg s) (g_fb_bg s) (X mod 8) (Y mod 16)) else pixel s X Y)"
      using p that by (simp add: painted_def)
    then show ?thesis using assms that by (auto simp: fb_rel_def con_rgb_def con_draw_def cell_rgb_def)
  qed
  moreover have "con_cols (con_draw c x k) = con_cols k" "con_rows (con_draw c x k) = con_rows k" "con_x (con_draw c x k) = con_x k"
    "con_y (con_draw c x k) = con_y k" "con_fg (con_draw c x k) = con_fg k" "con_bg (con_draw c x k) = con_bg k" for x
    by (simp_all add: con_draw_def)
  ultimately show "fb_rel ?s (con_draw c (unat col) k)" using assms(1) by (simp add: fb_rel_def painted_fields [OF p])
qed

lemma tab_stop: "unat x < 2 ^ 31 \<Longrightarrow> unat ((x + 4) AND NOT 3 :: u32) = (unat x div 4 + 1) * 4"
proof -
  assume a: "unat x < 2 ^ 31"
  have "(3 :: u32) = mask 2" by (simp add: mask_eq_exp_minus_1)
  moreover have "w AND NOT (mask j) = push_bit j (drop_bit j w)" for w :: u32 and j
    by (rule bit_word_eqI) (auto simp: bit_and_iff bit_not_iff bit_mask_iff bit_push_bit_iff bit_drop_bit_eq)
  ultimately have "(x + 4) AND NOT 3 = push_bit 2 (drop_bit 2 (x + 4))" by (simp only:)
  then have "unat ((x + 4) AND NOT 3) = 4 * (unat (x + 4) div 4) mod 2 ^ 32"
    by (simp add: push_bit_eq_mult unat_word_ariths drop_bit_eq_div unat_div)
  moreover have "unat (x + 4) = unat x + 4" using a by (simp add: unat_word_ariths)
  moreover have "(unat x + 4) div 4 = unat x div 4 + 1" by simp
  ultimately show ?thesis using a by simp
qed

lemma fb_advance_rel:
  assumes "fb_shows s k"
  shows "fb_rel (fb_advance c s) (con_advance c k)" "fb_kept s (fb_advance c s)"
    "con_x (con_advance c k) \<le> con_cols (con_advance c k)" "con_y (con_advance c k) \<le> con_rows (con_advance c k)"
    "con_y (con_advance c k) = con_rows (con_advance c k) \<longrightarrow> con_x (con_advance c k) = 0"
proof -
  have r: "fb_rel s k" and b: "con_x k < con_cols k" "con_y k < con_rows k" using assms by (simp_all add: fb_shows_def)
  then have e: "con_cols k = unat (g_fb_width s div FONT_WIDTH)" "con_rows k = unat (g_fb_height s) div 16" "con_x k = unat (g_cursor_x s)"
    "con_y k = unat (g_cursor_y s)" by (simp_all add: fb_rel_def FONT_WIDTH_def unat_div)
  have w: "unat (g_fb_width s) < 2 ^ 32" "unat (g_fb_height s) < 2 ^ 32"
    using unsigned_less [of "g_fb_width s", where 'a = nat] unsigned_less [of "g_fb_height s", where 'a = nat] by simp_all
  have x1: "unat (g_cursor_x s + 1) = con_x k + 1" and y1: "unat (g_cursor_y s + 1) = con_y k + 1"
    using b w e r by (simp_all add: unat_word_ariths fb_rel_def)
  have grid: "con_cols (con_advance c k) = con_cols k" "con_rows (con_advance c k) = con_rows k"
    by (simp_all add: con_advance_def con_newline_def con_draw_def Let_def)
  have xt: "unat ((g_cursor_x s + 4) AND NOT 3) = (con_x k div 4 + 1) * 4"
    using b w r by (subst tab_stop) (simp_all add: fb_rel_def)
  have line: "fb_rel (s\<lparr>g_cursor_x := 0, g_cursor_y := g_cursor_y s + 1\<rparr>) (con_newline k)"
    unfolding con_newline_def by (intro fb_rel_cursor r) (simp_all add: y1)
  consider "c = 10" | "c = 13" | "c = 9" | "c = 8" | "c \<noteq> 10" "c \<noteq> 13" "c \<noteq> 9" "c \<noteq> 8" by blast
  then have "fb_rel (fb_advance c s) (con_advance c k) \<and> fb_kept s (fb_advance c s) \<and> con_x (con_advance c k) \<le> con_cols k \<and>
    con_y (con_advance c k) \<le> con_rows k \<and> (con_y (con_advance c k) = con_rows k \<longrightarrow> con_x (con_advance c k) = 0)"
  proof cases
    case 1
    then show ?thesis using line b by (simp add: fb_advance_def con_advance_def con_newline_def)
  next
    case 2
    then show ?thesis using b fb_rel_cursor(1) [OF r, of 0 0] by (simp add: fb_advance_def con_advance_def)
  next
    case 3
    have le: "g_fb_width s div FONT_WIDTH \<le> (g_cursor_x s + 4) AND NOT 3 \<longleftrightarrow> con_cols k \<le> (con_x k div 4 + 1) * 4"
      unfolding word_le_nat_alt xt e(1) [symmetric] ..
    show ?thesis
    proof (cases "con_cols k \<le> (con_x k div 4 + 1) * 4")
      case True
      then show ?thesis using 3 line b le by (simp add: fb_advance_def con_advance_def con_newline_def Let_def)
    next
      case False
      then show ?thesis using 3 b le fb_rel_cursor(1) [OF r xt] by (simp add: fb_advance_def con_advance_def Let_def)
    qed
  next
    case 4
    show ?thesis
    proof (cases "con_x k > 0")
      case True
      let ?s = "s\<lparr>g_cursor_x := g_cursor_x s - 1\<rparr>" and ?k = "k\<lparr>con_x := con_x k - 1\<rparr>"
      have gt: "g_cursor_x s > 0" using True e by (simp add: word_less_nat_alt)
      have x0: "unat (g_cursor_x s - 1) = con_x k - 1" using True e by (simp add: unat_minus_one unat_gt_0)
      have r': "fb_rel ?s ?k" by (rule fb_rel_cursor(1) [OF r x0])
      have "con_draw 32 (con_x k - 1) ?k = (con_draw 32 (con_x k - 1) k)\<lparr>con_x := con_x k - 1\<rparr>" by (simp add: con_draw_def)
      then have "con_advance c k = con_draw 32 (con_x k - 1) ?k" using 4 True by (simp add: con_advance_def)
      moreover have "fb_advance c s = FbDrawCharAt 32 (g_cursor_x s - 1) (g_cursor_y ?s) (g_fb_fg ?s) (g_fb_bg ?s) ?s"
        using 4 gt by (simp add: fb_advance_def)
      moreover have "con_x k - 1 < con_cols k" using b by simp
      ultimately show ?thesis using fb_rel_draw [OF r', of "g_cursor_x s - 1" 32] b x0 fb_kept_trans [OF fb_kept_refl(2)]
        by (simp add: con_draw_def)
    next
      case False
      then have "\<not> g_cursor_x s > 0" using e by (simp add: word_less_nat_alt)
      then show ?thesis using 4 False r b by (simp add: fb_advance_def con_advance_def)
    qed
  next
    case 5
    have "fb_rel (FbDrawCharAt c (g_cursor_x s) (g_cursor_y s) (g_fb_fg s) (g_fb_bg s) s) (con_draw c (con_x k) k)"
      "fb_kept s (FbDrawCharAt c (g_cursor_x s) (g_cursor_y s) (g_fb_fg s) (g_fb_bg s) s)"
      using fb_rel_draw [OF r, of "g_cursor_x s" c] b e by simp_all
    then show ?thesis using 5 b fb_rel_cursor(1) [OF _ x1] fb_kept_trans [OF _ fb_kept_refl(2)]
      by (simp add: fb_advance_def con_advance_def con_draw_def)
  qed
  then show "fb_rel (fb_advance c s) (con_advance c k)" "fb_kept s (fb_advance c s)"
    "con_x (con_advance c k) \<le> con_cols (con_advance c k)" "con_y (con_advance c k) \<le> con_rows (con_advance c k)"
    "con_y (con_advance c k) = con_rows (con_advance c k) \<longrightarrow> con_x (con_advance c k) = 0" unfolding grid by blast+
qed

lemma FbClear_shows:
  assumes "fb_geometry s"
  shows "fb_shows (FbClear s) \<lparr>con_cols = unat (g_fb_width s) div 8, con_rows = unat (g_fb_height s) div 16, con_cell = \<lambda>_ _. None,
      con_x = 0, con_y = 0, con_fg = g_fb_fg s, con_bg = g_fb_bg s\<rparr>"
    "fb_kept s (FbClear s)"
proof -
  let ?n = "unat (g_fb_height s) * unat (g_fb_pitch s)"
  have c: "FbClear s = s\<lparr>fb_mem := buf_fill (fb_mem s) 0 0 ?n, g_cursor_x := 0, g_cursor_y := 0\<rparr>"
    using assms by (simp add: FbClear_def fb_geometry_def RtMemSet_fill)
  have "pixel (FbClear s) X Y = (0, 0, 0)" if "X < unat (g_fb_width s)" "Y < unat (g_fb_height s)" for X Y
    using pixel_inside [OF assms that] by (simp add: c pixel_def buf_fill_def)
  then show "fb_shows (FbClear s) \<lparr>con_cols = unat (g_fb_width s) div 8, con_rows = unat (g_fb_height s) div 16, con_cell = \<lambda>_ _. None,
      con_x = 0, con_y = 0, con_fg = g_fb_fg s, con_bg = g_fb_bg s\<rparr>"
    using assms by (auto simp: c fb_shows_def fb_rel_def fb_geometry_def con_rgb_def cell_rgb_def)
  show "fb_kept s (FbClear s)" by (simp add: c fb_kept_def buf_fill_def)
qed

text \<open>Scrolling, when the cursor stands at the left below the last line.\<close>

lemma FbScrollUp_rel:
  assumes "fb_rel s k" "con_x k = 0"
  shows "fb_shows ((FbScrollUp 1 s)\<lparr>g_cursor_y := g_fb_height s div FONT_HEIGHT - 1\<rparr>) (con_scroll k)"
    "fb_kept s ((FbScrollUp 1 s)\<lparr>g_cursor_y := g_fb_height s div FONT_HEIGHT - 1\<rparr>)"
proof -
  let ?h = "unat (g_fb_height s)" and ?y = "g_fb_height s div FONT_HEIGHT - 1"
  have g: "fb_geometry s" and rows: "con_rows k = ?h div 16" "con_cols k = unat (g_fb_width s) div 8" using assms(1) by (simp_all add: fb_rel_def)
  then have h16: "16 \<le> ?h" "8 \<le> unat (g_fb_width s)" by (simp_all add: fb_geometry_def)
  have d: "unat (g_fb_height s div FONT_HEIGHT) = ?h div 16" by (simp add: FONT_HEIGHT_def unat_div)
  then have "unat (g_fb_height s div FONT_HEIGHT) > 0" using h16 by simp
  then have "g_fb_height s div FONT_HEIGHT \<noteq> 0" by auto
  then have y: "unat ?y = con_rows k - 1" using d rows by (simp add: unat_minus_one)
  have "fb_shows ((FbScrollUp 1 s)\<lparr>g_cursor_y := ?y\<rparr>) (con_scroll k) \<and> fb_kept s ((FbScrollUp 1 s)\<lparr>g_cursor_y := ?y\<rparr>)"
  proof (cases "16 < ?h")
    case True
    let ?s = "FbScrollUp 1 s"
    have e: "?s = s\<lparr>fb_mem := fb_mem ?s\<rparr>" by (rule scrolled(1) [OF g True])
    have f: "g_fb_width ?s = g_fb_width s" "g_fb_height ?s = g_fb_height s" "g_fb_pitch ?s = g_fb_pitch s" "g_cursor_x ?s = g_cursor_x s"
      "g_fb_fg ?s = g_fb_fg s" "g_fb_bg ?s = g_fb_bg s" "g_font8x16 ?s = g_font8x16 s" "fb_geometry ?s = fb_geometry s"
      by (subst e, simp add: fb_geometry_def)+
    have "pixel ?s X Y = con_rgb (g_font8x16 s) (con_scroll k) X Y" if xy: "X < unat (g_fb_width s)" "Y < ?h" for X Y
    proof -
      have "pixel ?s X Y = (if Y + 16 < ?h then con_rgb (g_font8x16 s) k X (Y + 16) else (0, 0, 0))"
        using scrolled_pixel [OF g True xy] assms(1) xy by (simp add: fb_rel_def)
      moreover have "(Y + 16) div 16 = Suc (Y div 16)" by simp
      moreover have "Suc (Y div 16) < con_rows k \<Longrightarrow> Y + 16 < ?h" using rows by linarith
      ultimately show ?thesis by (auto simp: con_rgb_def con_scroll_def cell_rgb_def)
    qed
    then have scr_rel: "fb_shows (?s\<lparr>g_cursor_y := ?y\<rparr>) (con_scroll k)"
      using assms g rows h16 y by (auto simp: fb_shows_def fb_rel_def f con_scroll_def con_rgb_def)
    have below: "\<not> i < (?h - 16) * unat (g_fb_pitch s)" if "?h * unat (g_fb_pitch s) \<le> i" for i
      using that mult_right_mono [of "?h - 16" ?h "unat (g_fb_pitch s)"] by linarith
    have "fb_kept s (?s\<lparr>g_cursor_y := ?y\<rparr>)"
      using scrolled(2) [OF g True] below by (auto simp: fb_kept_def f)
    with scr_rel show ?thesis ..
  next
    case False
    then have one: "?h = 16" "con_rows k = 1" using h16 rows by simp_all
    let ?k = "\<lparr>con_cols = unat (g_fb_width s) div 8, con_rows = ?h div 16, con_cell = \<lambda>_ _. None,
      con_x = 0, con_y = 0, con_fg = g_fb_fg s, con_bg = g_fb_bg s\<rparr>"
    have up: "FbScrollUp 1 s = FbClear s" using one by (simp add: FbScrollUp_def FONT_HEIGHT_def word_le_nat_alt)
    have "unat ?y = 0" using y one by (simp only: diff_self_eq_0)
    then have y0: "?y = 0" by (simp only: unat_eq_0)
    have "g_cursor_y (FbClear s) = 0" using g by (simp add: FbClear_def fb_geometry_def)
    then have c: "(FbScrollUp 1 s)\<lparr>g_cursor_y := ?y\<rparr> = FbClear s" unfolding y0 up by simp
    have "con_rgb f (con_scroll k) X Y = con_rgb f ?k X Y" for f X Y
      by (simp add: con_rgb_def con_scroll_def cell_rgb_def one)
    moreover have "con_cols (con_scroll k) = con_cols ?k" "con_rows (con_scroll k) = con_rows ?k" "con_x (con_scroll k) = con_x ?k"
      "con_y (con_scroll k) = con_y ?k" "con_fg (con_scroll k) = con_fg ?k" "con_bg (con_scroll k) = con_bg ?k"
      using assms rows one by (simp_all add: con_scroll_def fb_rel_def)
    ultimately have "fb_shows (FbClear s) (con_scroll k)"
      using FbClear_shows(1) [OF g] unfolding fb_shows_def fb_rel_def by simp
    then show ?thesis unfolding c using FbClear_shows(2) [OF g] by simp
  qed
  then show "fb_shows ((FbScrollUp 1 s)\<lparr>g_cursor_y := ?y\<rparr>) (con_scroll k)" "fb_kept s ((FbScrollUp 1 s)\<lparr>g_cursor_y := ?y\<rparr>)" by blast+
qed

lemma fb_wrap_rel:
  assumes "fb_rel s k" "con_x k \<le> con_cols k" "con_y k \<le> con_rows k" "con_y k = con_rows k \<longrightarrow> con_x k = 0"
  defines "k1 \<equiv> if con_x k \<ge> con_cols k then con_newline k else k"
  shows "fb_shows (fb_wrap s) (if con_y k1 \<ge> con_rows k1 then con_scroll k1 else k1) \<and> fb_kept s (fb_wrap s)"
proof -
  let ?s1 = "if g_cursor_x s \<ge> g_fb_width s div FONT_WIDTH then s\<lparr>g_cursor_x := 0, g_cursor_y := g_cursor_y s + 1\<rparr> else s"
  have e: "con_cols k = unat (g_fb_width s div FONT_WIDTH)" "con_rows k = unat (g_fb_height s div FONT_HEIGHT)" "con_x k = unat (g_cursor_x s)"
    "con_y k = unat (g_cursor_y s)" "0 < con_cols k" "con_rows k = unat (g_fb_height s) div 16"
    using assms(1) by (auto simp: fb_rel_def FONT_WIDTH_def FONT_HEIGHT_def unat_div fb_geometry_def)
  have "con_rows k < 2 ^ 31" using e(6) unsigned_less [of "g_fb_height s", where 'a = nat] by simp
  then have "unat (g_cursor_y s + 1) = con_y k + 1" using assms(3) e(4) by (simp add: unat_word_ariths)
  then have line: "fb_rel (s\<lparr>g_cursor_x := 0, g_cursor_y := g_cursor_y s + 1\<rparr>) (con_newline k)"
    unfolding con_newline_def by (intro fb_rel_cursor assms(1)) simp_all
  have le: "g_fb_width s div FONT_WIDTH \<le> g_cursor_x s \<longleftrightarrow> con_cols k \<le> con_x k" unfolding word_le_nat_alt e ..
  have r1: "fb_rel ?s1 k1" using line assms(1) by (simp add: k1_def le)
  have x1: "con_x k1 < con_cols k1" "con_y k1 = con_rows k1 \<Longrightarrow> con_x k1 = 0" and y1: "con_y k1 \<le> con_rows k1"
    using assms(2-4) e(5) unfolding k1_def con_newline_def by (cases "con_cols k \<le> con_x k"; force)+
  have kept: "fb_kept s ?s1" by simp
  have le2: "g_fb_height s div FONT_HEIGHT \<le> g_cursor_y ?s1 \<longleftrightarrow> con_rows k1 \<le> con_y k1"
    using r1 unfolding word_le_nat_alt fb_rel_def by (simp add: FONT_HEIGHT_def unat_div)
  have w: "fb_wrap s = (if con_rows k1 \<le> con_y k1 then (FbScrollUp 1 ?s1)\<lparr>g_cursor_y := g_fb_height ?s1 div FONT_HEIGHT - 1\<rparr> else ?s1)"
    using le2 by (simp add: fb_wrap_def Let_def)
  show ?thesis
  proof (cases "con_rows k1 \<le> con_y k1")
    case True
    then have "con_x k1 = 0" using x1 y1 by simp
    from FbScrollUp_rel [OF r1 this] True w kept show ?thesis by (auto intro: fb_kept_trans)
  next
    case False
    then show ?thesis using w kept r1 x1 by (simp add: fb_shows_def)
  qed
qed

text \<open>\<^verbatim>\<open>FbPutChar\<close> refines the abstract console.  When the pixels of the framebuffer show a
  grid of characters and the cursor stands inside it, then after any character - printable, new line,
  carriage return, tab, back space, with the wrap at the end of a line and the scroll at the bottom -
  the pixels show the grid the abstract console has, the cursor stands inside it again, and no byte
  behind the last line was written.\<close>

theorem FbPutChar_refines:
  assumes "fb_shows s k"
  shows "fb_shows (FbPutChar c s) (con_put c k) \<and> fb_kept s (FbPutChar c s)"
proof -
  have "fb_ready s" using assms by (simp add: fb_shows_def fb_rel_def fb_geometry_def)
  then have p: "FbPutChar c s = fb_wrap (fb_advance c s)" by (simp add: FbPutChar_def)
  note a = fb_advance_rel [OF assms, of c]
  show ?thesis using fb_wrap_rel [OF a(1) a(3) a(4) a(5)] fb_kept_trans [OF a(2)] by (simp add: p con_put_def Let_def)
qed

text \<open>A string is shown by showing its characters.\<close>

lemma FbPrintString_refines: "fb_shows s k \<Longrightarrow> fb_shows (FbPrintString str s) (fold con_put str k) \<and> fb_kept s (FbPrintString str s)"
proof (induction str arbitrary: s k)
  case (Cons c str)
  from FbPutChar_refines [OF Cons.prems, of c] Cons.IH [of "FbPutChar c s" "con_put c k"]
  show ?case by (auto simp: FbPrintString_def intro: fb_kept_trans)
qed (simp add: FbPrintString_def)

text \<open>A framebuffer of 2 by 2 characters, with 32 bits per pixel, and a font of one stroke.\<close>

definition fb_small :: framebuffer where
  "fb_small = KeInitFramebuffer True (\<lambda>_. 0xAA) 16 32 64 32 \<lparr>fb_ready = False, fb_mem = \<lambda>_. 0, g_fb_width = 0, g_fb_height = 0, g_fb_pitch = 0,
     g_fb_bpp = 0, g_fb_bytes_per_pixel = 0, g_cursor_x = 0, g_cursor_y = 0, g_fb_fg = 0xFFFFFF, g_fb_bg = 0, g_font8x16 = \<lambda>_ _. 0x18\<rparr>"

definition con_small :: console where
  "con_small = \<lparr>con_cols = 2, con_rows = 2, con_cell = \<lambda>_ _. None, con_x = 0, con_y = 0, con_fg = 0xFFFFFF, con_bg = 0\<rparr>"

lemma fb_small_shows: "fb_shows fb_small con_small"
proof -
  let ?s = "\<lparr>fb_ready = True, fb_mem = \<lambda>_. 0xAA, g_fb_width = 16, g_fb_height = 32, g_fb_pitch = 64,
     g_fb_bpp = 32, g_fb_bytes_per_pixel = 4, g_cursor_x = 0, g_cursor_y = 0, g_fb_fg = 0xFFFFFF, g_fb_bg = 0, g_font8x16 = \<lambda>_ _. 0x18\<rparr>"
  have "fb_geometry ?s" by (simp add: fb_geometry_def)
  from FbClear_shows(1) [OF this] show ?thesis by (simp add: fb_small_def KeInitFramebuffer_def con_small_def)
qed

lemma FbPutChar_refines_witness:
  "fb_shows (FbPutChar 65 fb_small) (con_put 65 con_small) \<and> fb_kept fb_small (FbPutChar 65 fb_small) \<and>
   con_cell (con_put 65 con_small) 0 0 = Some (65, 0xFFFFFF, 0)"
  using FbPutChar_refines [OF fb_small_shows, of 65]
  by (simp add: con_put_def con_advance_def con_draw_def con_small_def Let_def)

end
