(* ===== verification/User_Mem.thy ===== *)
theory User_Mem
  imports Sched Framebuffer Keyboard Fat_File Paths
begin

text \<open>
  The state of the whole kernel as the system calls see it (\<^verbatim>\<open>Kernel/arch/syscall.c\<close>), and the
  memory of the programs.  A pointer from a program is an address that the processor translates
  with the tables in \<^verbatim>\<open>cr3\<close>; the kernel only compares it with \<open>NULL\<close> (\<open>SysUserPtr\<close>), so an address
  that is not mapped is an exception in kernel mode, a panic: \<open>None\<close>.
\<close>

section \<open>State\<close>

definition MAX_FD :: nat where "MAX_FD = 16"

record kfile_desc =
  fd_path :: u64
  fd_name :: "u8 list"
  fd_size :: u32
  fd_pos :: u32
  fd_used :: bool

record boot = boot_info +
  total_usable_memory :: u64
  fb_width :: u32
  fb_height :: u32
  fb_pitch :: u32
  fb_bpp :: u32

text \<open>
  \<open>k_phys\<close> is the content of the frames, by physical address.  What the kernel keeps in its heap is
  a pointer and the content behind it: \<open>fd_path\<close> and \<open>fd_name\<close>, \<open>g_dir_entries\<close> and \<open>dir_list\<close>,
  \<open>g_file_data\<close> and \<open>file_bytes\<close>.  \<open>k_serial\<close> is what was sent to the serial port, in order.
\<close>

record kos = kernel +
  k_fat :: fat
  k_kbd :: kbd
  k_fb :: framebuffer
  k_serial :: "u8 list"
  k_phys :: "u64 \<Rightarrow> u8"
  g_boot_info :: "boot option"
  g_current_directory :: "u8 list"
  g_dir_entries :: u64
  dir_list :: "fat_dir_entry list"
  g_dir_count :: u32
  g_dir_index :: u32
  g_file_data :: u64
  file_bytes :: "u8 list"
  g_file_size :: u32
  g_file_pos :: u32
  g_fd_table :: "nat \<Rightarrow> kfile_desc"

section \<open>The heap and the file system as components\<close>

definition km_alloc :: "u64 \<Rightarrow> 'a kos_scheme \<Rightarrow> (u64 \<times> 'a kos_scheme) option" where
  "km_alloc n s = map_option (\<lambda>(p, h). (p, s\<lparr>ps_heap := h\<rparr>)) (KmAlloc n (ps_heap s))"

definition fs :: "(fat \<Rightarrow> ('r \<times> fat) option) \<Rightarrow> 'a kos_scheme \<Rightarrow> ('r \<times> 'a kos_scheme) option" where
  "fs f s = map_option (\<lambda>(r, t). (r, s\<lparr>k_fat := t\<rparr>)) (f (k_fat s))"

definition fs_close :: "'a kos_scheme \<Rightarrow> 'a kos_scheme" where
  "fs_close s = s\<lparr>k_fat := Fat32Close (k_fat s)\<rparr>"

section \<open>The memory of a program\<close>

definition EFAIL :: u64 where "EFAIL = - 1"

definition mmu :: "vmm \<Rightarrow> u64 \<Rightarrow> u64" where
  "mmu m v = VmmGetPhysical (PHYS_TO_VIRT m (vm_cr3 m)) v m"

definition load :: "u64 \<Rightarrow> 'a kos_scheme \<Rightarrow> u8 option" where
  "load v s = (let p = mmu (ps_vm s) v in if p = 0 then None else Some (k_phys s p))"

definition store :: "u64 \<Rightarrow> u8 \<Rightarrow> 'a kos_scheme \<Rightarrow> 'a kos_scheme option" where
  "store v b s = (let p = mmu (ps_vm s) v in if p = 0 then None else Some (s\<lparr>k_phys := (k_phys s)(p := b)\<rparr>))"

fun loads :: "u64 \<Rightarrow> nat \<Rightarrow> 'a kos_scheme \<Rightarrow> u8 list option" where
  "loads v 0 s = Some []"
| "loads v (Suc n) s = do { b \<leftarrow> load v s; bs \<leftarrow> loads (v + 1) n s; Some (b # bs) }"

fun stores :: "u64 \<Rightarrow> u8 list \<Rightarrow> 'a kos_scheme \<Rightarrow> 'a kos_scheme option" where
  "stores v [] s = Some s"
| "stores v (b # bs) s = do { s \<leftarrow> store v b s; stores (v + 1) bs s }"

text \<open>The reads of \<^verbatim>\<open>while (user_path[i] && i < FAT_MAX_PATH - 1)\<close>: up to \<open>n\<close> bytes in front of the NUL,
  and one more that is looked at.\<close>

fun path_bytes :: "nat \<Rightarrow> u64 \<Rightarrow> 'a kos_scheme \<Rightarrow> u8 list option" where
  "path_bytes n v s = do {
     b \<leftarrow> load v s;
     if b = 0 then Some [] else case n of 0 \<Rightarrow> Some [] | Suc m \<Rightarrow> do { bs \<leftarrow> path_bytes m (v + 1) s; Some (b # bs) }
   }"

declare path_bytes.simps [simp del]

text \<open>A string that is read to its end, as by \<open>RtStrLen\<close>.\<close>

partial_function (option) user_string :: "u64 \<Rightarrow> 'a kos_scheme \<Rightarrow> u8 list option" where
  "user_string v s = do {
     b \<leftarrow> load v s;
     if b = 0 then Some [] else do { bs \<leftarrow> user_string (v + 1) s; Some (b # bs) }
   }"

definition SysUserPtr :: "u64 \<Rightarrow> u64" where
  "SysUserPtr user_addr = user_addr"

definition u32_bytes :: "u32 \<Rightarrow> u8 list" where
  "u32_bytes w = [ucast w, ucast (drop_bit 8 w), ucast (drop_bit 16 w), ucast (drop_bit 24 w)]"

definition u64_bytes :: "u64 \<Rightarrow> u8 list" where
  "u64_bytes w = u32_bytes (ucast w) @ u32_bytes (ucast (drop_bit 32 w))"

text \<open>The lines that put the address space of the current process in \<^verbatim>\<open>cr3\<close> around an access.\<close>

definition in_process :: "('a kos_scheme \<Rightarrow> ('r \<times> 'a kos_scheme) option) \<Rightarrow> 'a kos_scheme \<Rightarrow> ('r \<times> 'a kos_scheme) option" where
  "in_process f s =
    (let t = PsGetCurrentThread s; saved = vm_cr3 (ps_vm s)
     in if t \<noteq> 0 \<and> th_process (thread s t) \<noteq> 0
        then map_option (\<lambda>(r, s). (r, writecr3 saved s)) (f (writecr3 (p_page_table (process s (th_process (thread s t)))) s))
        else f s)"

section \<open>Accesses to mapped memory\<close>

definition mapped :: "u64 \<Rightarrow> nat \<Rightarrow> 'a kos_scheme \<Rightarrow> bool" where
  "mapped v n s \<longleftrightarrow> (\<forall>i<n. mmu (ps_vm s) (v + of_nat i) \<noteq> 0)"

lemma mapped_Suc: "mapped v (Suc n) s \<longleftrightarrow> mmu (ps_vm s) v \<noteq> 0 \<and> mapped (v + 1) n s"
  by (auto simp: mapped_def less_Suc_eq_0_disj add.assoc)

lemma stores_frame:
  assumes "stores v bs s = Some s'"
  shows "s' = s\<lparr>k_phys := k_phys s'\<rparr>"
  using assms
proof (induction bs arbitrary: v s)
  case (Cons b bs)
  obtain t where t: "store v b s = Some t" "stores (v + 1) bs t = Some s'" using Cons.prems by (auto split: Option.bind_splits)
  have "t = s\<lparr>k_phys := k_phys t\<rparr>" using t(1) by (auto simp: store_def Let_def split: if_splits)
  then show ?case using Cons.IH [OF t(2)] by (metis kos.surjective kos.update_convs(5))
qed simp

lemma stores_heap: "stores v bs s = Some s' \<Longrightarrow> ps_heap s' = ps_heap s"
proof (induction bs arbitrary: v s)
  case (Cons b bs)
  then show ?case by (auto simp: store_def Let_def split: Option.bind_splits if_splits)
qed simp

lemma stores_mapped: "stores v bs s \<noteq> None \<longleftrightarrow> mapped v (length bs) s"
proof (induction bs arbitrary: v s)
  case Nil
  then show ?case by (simp add: mapped_def)
next
  case (Cons b bs)
  then show ?case by (auto simp: mapped_Suc store_def Let_def) (simp_all add: mapped_def)
qed

lemma loads_eq:
  "loads v n s = (if mapped v n s then Some (map (\<lambda>i. k_phys s (mmu (ps_vm s) (v + of_nat i))) [0..<n]) else None)"
proof (induction n arbitrary: v)
  case 0
  then show ?case by (simp add: mapped_def)
next
  case (Suc n)
  have "map (\<lambda>i. k_phys s (mmu (ps_vm s) (v + of_nat i))) [0..<Suc n] =
      k_phys s (mmu (ps_vm s) v) # map (\<lambda>i. k_phys s (mmu (ps_vm s) (v + 1 + of_nat i))) [0..<n]"
    by (simp add: map_upt_Suc add.assoc del: upt_Suc)
  then show ?case by (simp add: Suc.IH mapped_Suc load_def Let_def del: upt_Suc)
qed

text \<open>What is stored is loaded, when no two addresses of the range are the same byte of a frame.\<close>

definition unaliased :: "u64 \<Rightarrow> nat \<Rightarrow> 'a kos_scheme \<Rightarrow> bool" where
  "unaliased v n s \<longleftrightarrow> inj_on (\<lambda>i. mmu (ps_vm s) (v + of_nat i)) {..<n}"

lemma unaliased_Suc: "unaliased v (Suc n) s \<Longrightarrow> unaliased (v + 1) n s \<and> (\<forall>i<n. mmu (ps_vm s) (v + 1 + of_nat i) \<noteq> mmu (ps_vm s) v)"
proof -
  assume u: "unaliased v (Suc n) s"
  have eq: "mmu (ps_vm s) (v + 1 + of_nat i) = mmu (ps_vm s) (v + of_nat (Suc i))" for i by (simp add: add.assoc)
  have "inj_on (\<lambda>i. mmu (ps_vm s) (v + of_nat (Suc i))) {..<n}"
  proof (rule inj_onI)
    fix x y
    assume "x \<in> {..<n}" "y \<in> {..<n}" "mmu (ps_vm s) (v + of_nat (Suc x)) = mmu (ps_vm s) (v + of_nat (Suc y))"
    then show "x = y" using inj_onD [OF u [unfolded unaliased_def], of "Suc x" "Suc y"] by simp
  qed
  moreover have "mmu (ps_vm s) (v + of_nat (Suc i)) \<noteq> mmu (ps_vm s) v" if "i < n" for i
    using u that inj_onD [of "\<lambda>i. mmu (ps_vm s) (v + of_nat i)" "{..<Suc n}" "Suc i" 0] unfolding unaliased_def by auto
  ultimately show ?thesis unfolding unaliased_def eq by blast
qed

lemma stores_other:
  "stores v bs s = Some s' \<Longrightarrow> \<forall>i<length bs. mmu (ps_vm s) (v + of_nat i) \<noteq> p \<Longrightarrow> k_phys s' p = k_phys s p"
proof (induction bs arbitrary: v s)
  case (Cons b bs)
  obtain t where t: "store v b s = Some t" "stores (v + 1) bs t = Some s'" using Cons.prems by (auto split: Option.bind_splits)
  have v: "ps_vm t = ps_vm s" "k_phys t p = k_phys s p"
    using t(1) Cons.prems(2) by (auto simp: store_def Let_def split: if_splits dest: spec [of _ 0])
  have "mmu (ps_vm t) (v + 1 + of_nat i) \<noteq> p" if "i < length bs" for i
    using Cons.prems(2) that spec [of _ "Suc i"] by (auto simp: v(1) add.assoc)
  then show ?case using Cons.IH [OF t(2)] v(2) by simp
qed simp

lemma stores_loads:
  assumes "stores v bs s = Some s'" "unaliased v (length bs) s"
  shows "loads v (length bs) s' = Some bs"
  using assms
proof (induction bs arbitrary: v s)
  case (Cons b bs)
  obtain t where t: "store v b s = Some t" "stores (v + 1) bs t = Some s'" using Cons.prems by (auto split: Option.bind_splits)
  have u: "unaliased (v + 1) (length bs) s" "\<forall>i<length bs. mmu (ps_vm s) (v + 1 + of_nat i) \<noteq> mmu (ps_vm s) v"
    using unaliased_Suc Cons.prems(2) by auto
  have v: "ps_vm t = ps_vm s" "k_phys t (mmu (ps_vm s) v) = b" "mmu (ps_vm s) v \<noteq> 0"
    using t(1) by (auto simp: store_def Let_def split: if_splits)
  have v': "ps_vm s' = ps_vm s" using stores_heap [OF t(2)] v(1) by simp
  have "k_phys s' (mmu (ps_vm s) v) = b" using stores_other [OF t(2), of "mmu (ps_vm s) v"] u(2) v by simp
  then have "load v s' = Some b" using v(3) by (simp add: load_def v' Let_def)
  moreover have "loads (v + 1) (length bs) s' = Some bs" using Cons.IH [OF t(2)] u(1) v(1) by (simp add: unaliased_def)
  ultimately show ?case by simp
qed simp

end
