(* ===== verification/Sys_Files.thy ===== *)
theory Sys_Files
  imports User_Mem Fat_ReadAt Heap_Clients
begin

text \<open>
  The system calls on files and directories (\<^verbatim>\<open>Kernel/arch/syscall.c\<close>): the directory listing, the
  whole-file buffer, the table of file descriptors and the current directory.  A handler takes the
  registers it reads and gives the value for \<^verbatim>\<open>rax\<close>; \<open>None\<close> is a panic.
\<close>

section \<open>Directory listing\<close>

definition SIZEOF_DIRENT :: u64 where "SIZEOF_DIRENT = 276"

text \<open>Reading the path argument of a call and resolving it.\<close>

definition user_path :: "u64 \<Rightarrow> 'a kos_scheme \<Rightarrow> u8 list option" where
  "user_path ptr s = map_option (\<lambda>p. SysResolvePath (g_current_directory s) (Some p)) (path_bytes (FAT_MAX_PATH - 1) (SysUserPtr ptr) s)"

definition drop_dir :: "'a kos_scheme \<Rightarrow> 'a kos_scheme option" where
  "drop_dir s =
    do {
      s \<leftarrow> (if g_dir_entries s \<noteq> 0 then map_option (\<lambda>s. s\<lparr>g_dir_entries := 0\<rparr>) (ps_free (g_dir_entries s) s) else Some s);
      Some (s\<lparr>g_dir_count := 0, g_dir_index := 0\<rparr>)
    }"

definition open_dir :: "u64 \<Rightarrow> 'a kos_scheme \<Rightarrow> (ntstatus \<times> 'a kos_scheme) option" where
  "open_dir ptr s =
    (if ptr \<noteq> 0 then do { path \<leftarrow> user_path ptr s; fs (Fat32OpenPath path) s }
     else if g_current_directory s = [47] then fs (\<lambda>f. Some (Fat32OpenRoot f)) s
     else fs (Fat32OpenPath (g_current_directory s)) s)"

definition sys_fs_opendir :: "u64 \<Rightarrow> 'a kos_scheme \<Rightarrow> (u64 \<times> 'a kos_scheme) option" where
  "sys_fs_opendir ptr s =
    do {
      s \<leftarrow> drop_dir s;
      (status, s) \<leftarrow> open_dir ptr s;
      if NT_SUCCESS status \<and> Fat32IsCurrentDirectory (k_fat s) then do {
        (b, s) \<leftarrow> km_alloc (SIZEOF_DIRENT * 256) s;
        if b = 0 then Some (EFAIL, s)
        else do {
          ((rs, entries), s) \<leftarrow> fs (\<lambda>f. map_option (\<lambda>(rs, es, f). ((rs, es), f)) (Fat32ReadDir 256 f)) s;
          let s = fs_close s;
          if NT_SUCCESS rs \<and> entries \<noteq> []
          then Some (0, s\<lparr>g_dir_entries := b, dir_list := entries, g_dir_count := of_nat (length entries)\<rparr>)
          else map_option (Pair EFAIL) (ps_free b s)
        }
      } else Some (EFAIL, s)
    }"

definition sys_fs_readdir :: "u64 \<Rightarrow> 'a kos_scheme \<Rightarrow> (u64 \<times> 'a kos_scheme) option" where
  "sys_fs_readdir ptr s =
    (if g_dir_entries s = 0 \<or> g_dir_index s \<ge> g_dir_count s then Some (1, s)
     else if SysUserPtr ptr = 0 then Some (EFAIL, s)
     else
       let e = dir_list s ! unat (g_dir_index s)
       in do {
         s \<leftarrow> stores ptr (take 255 (fname e) @ [0]) s;
         s \<leftarrow> stores (ptr + 256) (u32_bytes (file_size e)) s;
         s \<leftarrow> stores (ptr + 260) (u32_bytes (if is_directory e then 1 else 0)) s;
         Some (0, s\<lparr>g_dir_index := g_dir_index s + 1\<rparr>)
       })"

definition sys_fs_closedir :: "'a kos_scheme \<Rightarrow> (u64 \<times> 'a kos_scheme) option" where
  "sys_fs_closedir s = map_option (Pair 0) (drop_dir s)"

section \<open>The whole-file buffer\<close>

definition FILE_MAX :: u32 where "FILE_MAX = 16777216"

definition drop_file :: "'a kos_scheme \<Rightarrow> 'a kos_scheme option" where
  "drop_file s =
    do {
      s \<leftarrow> (if g_file_data s \<noteq> 0 then map_option (\<lambda>s. s\<lparr>g_file_data := 0\<rparr>) (ps_free (g_file_data s) s) else Some s);
      Some (s\<lparr>g_file_size := 0, g_file_pos := 0\<rparr>)
    }"

definition fill_file :: "u32 \<Rightarrow> 'a kos_scheme \<Rightarrow> (u64 \<times> 'a kos_scheme) option" where
  "fill_file n s =
    do {
      (p, s) \<leftarrow> km_alloc (ucast n) s;
      let s = s\<lparr>g_file_data := p\<rparr>;
      if p = 0 then Some (EFAIL, fs_close s)
      else do {
        ((status, bytes), s) \<leftarrow> fs (\<lambda>f. map_option (\<lambda>(st, d, f). ((st, d), f)) (Fat32ReadFile f)) s;
        let s = fs_close s;
        if NT_ERROR status then map_option (\<lambda>s. (EFAIL, s\<lparr>g_file_data := 0\<rparr>)) (ps_free p s)
        else Some (0, s\<lparr>file_bytes := bytes, g_file_size := of_nat (length bytes)\<rparr>)
      }
    }"

definition sys_fs_openfile :: "u64 \<Rightarrow> 'a kos_scheme \<Rightarrow> (u64 \<times> 'a kos_scheme) option" where
  "sys_fs_openfile ptr s =
    do {
      s \<leftarrow> drop_file s;
      if SysUserPtr ptr = 0 then Some (EFAIL, s)
      else do {
        path \<leftarrow> user_path ptr s;
        (status, s) \<leftarrow> fs (Fat32OpenPath path) s;
        if \<not> NT_SUCCESS status then Some (EFAIL, s)
        else
          let n = Fat32GetFileSize (k_fat s)
          in if n > FILE_MAX then Some (EFAIL, fs_close s)
             else if n = 0 then do {
               (p, s) \<leftarrow> km_alloc 1 s;
               Some (0, fs_close (s\<lparr>g_file_data := p, file_bytes := [], g_file_size := 0\<rparr>))
             } else fill_file n s
      }
    }"

definition sys_fs_readfile :: "u64 \<Rightarrow> u64 \<Rightarrow> 'a kos_scheme \<Rightarrow> (u64 \<times> 'a kos_scheme) option" where
  "sys_fs_readfile ptr count s =
    (if g_file_data s = 0 then Some (EFAIL, s)
     else if SysUserPtr ptr = 0 then Some (EFAIL, s)
     else
       let remaining = g_file_size s - g_file_pos s;
           n = (if ucast count > remaining then remaining else ucast count)
       in if n > 0 then do {
            s \<leftarrow> stores ptr (take (unat n) (drop (unat (g_file_pos s)) (file_bytes s))) s;
            Some (ucast n, s\<lparr>g_file_pos := g_file_pos s + n\<rparr>)
          } else Some (ucast n, s))"

definition sys_fs_filesize :: "'a kos_scheme \<Rightarrow> u64" where
  "sys_fs_filesize s = ucast (g_file_size s)"

definition sys_fs_closefile :: "'a kos_scheme \<Rightarrow> (u64 \<times> 'a kos_scheme) option" where
  "sys_fs_closefile s = map_option (Pair 0) (drop_file s)"

section \<open>Changing the volume\<close>

text \<open>The value of a call that reports the status of the file system.\<close>

definition status_ret :: "ntstatus \<Rightarrow> u64" where
  "status_ret st = (if NT_SUCCESS st then 0 else EFAIL)"

text \<open>\<open>Fat32WriteFile\<close> copies the program's bytes sector by sector; they are read here at once.\<close>

definition sys_fs_writefile :: "u64 \<Rightarrow> u64 \<Rightarrow> u64 \<Rightarrow> 'a kos_scheme \<Rightarrow> (u64 \<times> 'a kos_scheme) option" where
  "sys_fs_writefile ptr src count s =
    (if SysUserPtr ptr = 0 \<or> SysUserPtr src = 0 then Some (EFAIL, s)
     else do {
       path \<leftarrow> user_path ptr s;
       bytes \<leftarrow> loads src (unat (ucast count :: u32)) s;
       (st, s) \<leftarrow> fs (Fat32WriteFile path bytes) s;
       Some (status_ret st, s)
     })"

definition sys_fs_delete :: "u64 \<Rightarrow> 'a kos_scheme \<Rightarrow> (u64 \<times> 'a kos_scheme) option" where
  "sys_fs_delete ptr s =
    (if SysUserPtr ptr = 0 then Some (EFAIL, s)
     else do {
       path \<leftarrow> user_path ptr s;
       (st, s) \<leftarrow> fs (Fat32DeleteFile path) s;
       Some (status_ret st, s)
     })"

definition sys_fs_mkdir :: "u64 \<Rightarrow> 'a kos_scheme \<Rightarrow> (u64 \<times> 'a kos_scheme) option" where
  "sys_fs_mkdir ptr s =
    (if SysUserPtr ptr = 0 then Some (EFAIL, s)
     else do {
       path \<leftarrow> user_path ptr s;
       (st, s) \<leftarrow> fs (Fat32CreateDirectory path) s;
       Some (status_ret st, s)
     })"

section \<open>The current directory\<close>

definition sys_chdir :: "u64 \<Rightarrow> 'a kos_scheme \<Rightarrow> (u64 \<times> 'a kos_scheme) option" where
  "sys_chdir ptr s =
    (if SysUserPtr ptr = 0 then Some (EFAIL, s)
     else do {
       path \<leftarrow> user_path ptr s;
       (st, s) \<leftarrow> fs (Fat32OpenPath path) s;
       if NT_ERROR st then Some (EFAIL, s) else Some (0, (fs_close s)\<lparr>g_current_directory := path\<rparr>)
     })"

definition sys_getcwd :: "u64 \<Rightarrow> u64 \<Rightarrow> 'a kos_scheme \<Rightarrow> (u64 \<times> 'a kos_scheme) option" where
  "sys_getcwd ptr buf_size s =
    (let cwd = g_current_directory s
     in if SysUserPtr ptr = 0 then Some (EFAIL, s)
        else if length cwd + 1 > unat buf_size then Some (EFAIL, s)
        else map_option (Pair 0) (stores ptr (cwd @ [0]) s))"

section \<open>File descriptors\<close>

definition fd_index :: "i32 \<Rightarrow> nat" where "fd_index fd = nat (sint fd)"

definition fd_valid :: "i32 \<Rightarrow> 'a kos_scheme \<Rightarrow> bool" where
  "fd_valid fd s \<longleftrightarrow> \<not> (sint fd < 0 \<or> sint fd \<ge> int MAX_FD \<or> \<not> fd_used (g_fd_table s (fd_index fd)))"

definition upd_fd :: "nat \<Rightarrow> (kfile_desc \<Rightarrow> kfile_desc) \<Rightarrow> 'a kos_scheme \<Rightarrow> 'a kos_scheme" where
  "upd_fd i f s = s\<lparr>g_fd_table := (g_fd_table s)(i := f (g_fd_table s i))\<rparr>"

definition sys_open :: "u64 \<Rightarrow> 'a kos_scheme \<Rightarrow> (u64 \<times> 'a kos_scheme) option" where
  "sys_open ptr s =
    (if SysUserPtr ptr = 0 then Some (EFAIL, s)
     else do {
       path \<leftarrow> user_path ptr s;
       (st, s) \<leftarrow> fs (Fat32OpenPath path) s;
       if NT_ERROR st then Some (EFAIL, s)
       else
         let fsize = Fat32GetFileSize (k_fat s); s = fs_close s
         in if fsize > FILE_MAX then Some (EFAIL, s)
            else case find (\<lambda>i. \<not> fd_used (g_fd_table s i)) [0..<MAX_FD] of
              None \<Rightarrow> Some (EFAIL, s)
            | Some fd \<Rightarrow> do {
                (kpath, s) \<leftarrow> km_alloc (of_nat (length path) + 1) s;
                if kpath = 0 then Some (EFAIL, s)
                else Some (of_nat fd, upd_fd fd (\<lambda>_. \<lparr>fd_path = kpath, fd_name = path, fd_size = fsize, fd_pos = 0, fd_used = True\<rparr>) s)
              }
     })"

definition sys_read :: "u64 \<Rightarrow> u64 \<Rightarrow> u64 \<Rightarrow> 'a kos_scheme \<Rightarrow> (u64 \<times> 'a kos_scheme) option" where
  "sys_read fdr ptr count s =
    (let fd = ucast fdr :: i32
     in if \<not> fd_valid fd s then Some (EFAIL, s)
        else if SysUserPtr ptr = 0 then Some (EFAIL, s)
        else
          let f = g_fd_table s (fd_index fd); remaining = fd_size f - fd_pos f;
              n = (if ucast count > remaining then remaining else ucast count)
          in if n > 0 then do {
               ((status, bytes), s) \<leftarrow> in_process (\<lambda>s. do {
                   ((status, bytes), s) \<leftarrow> fs (\<lambda>t. map_option (\<lambda>(st, d, t). ((st, d), t)) (Fat32ReadFileAt (fd_name f) (fd_pos f) n t)) s;
                   s \<leftarrow> stores ptr bytes s;
                   Some ((status, bytes), s)
                 }) s;
               if NT_ERROR status then Some (EFAIL, s)
               else Some (of_nat (length bytes), upd_fd (fd_index fd) (\<lambda>f. f\<lparr>fd_pos := fd_pos f + of_nat (length bytes)\<rparr>) s)
             } else Some (0, s))"

text \<open>The position is computed in 64 bits, signed, and clamped to the file.\<close>

definition seek_pos :: "i32 \<Rightarrow> u64 \<Rightarrow> kfile_desc \<Rightarrow> u32" where
  "seek_pos whence offset f =
    (let newpos = (if whence = 0 then offset else if whence = 1 then ucast (fd_pos f) + offset
                   else if whence = 2 then ucast (fd_size f) + offset else 0);
         newpos = (if sint newpos < 0 then 0 else newpos);
         newpos = (if sint newpos > int (unat (fd_size f)) then ucast (fd_size f) else newpos)
     in ucast newpos)"

definition sys_lseek :: "u64 \<Rightarrow> u64 \<Rightarrow> u64 \<Rightarrow> 'a kos_scheme \<Rightarrow> u64 \<times> 'a kos_scheme" where
  "sys_lseek fdr offset whence s =
    (let fd = ucast fdr :: i32
     in if \<not> fd_valid fd s then (EFAIL, s)
        else let p = seek_pos (ucast whence) offset (g_fd_table s (fd_index fd))
             in (ucast p, upd_fd (fd_index fd) (\<lambda>f. f\<lparr>fd_pos := p\<rparr>) s))"

definition sys_closefd :: "u64 \<Rightarrow> 'a kos_scheme \<Rightarrow> (u64 \<times> 'a kos_scheme) option" where
  "sys_closefd fdr s =
    (let fd = ucast fdr :: i32
     in if \<not> fd_valid fd s then Some (EFAIL, s)
        else do {
          s \<leftarrow> (if fd_path (g_fd_table s (fd_index fd)) \<noteq> 0 then ps_free (fd_path (g_fd_table s (fd_index fd))) s else Some s);
          Some (0, upd_fd (fd_index fd) (\<lambda>f. f\<lparr>fd_path := 0, fd_size := 0, fd_pos := 0, fd_used := False\<rparr>) s)
        })"

section \<open>The calls together\<close>

datatype file_call = Opendir u64 | Readdir u64 | Closedir | Openfile u64 | Readfile u64 u64 | Filesize | Closefile
  | Writefile u64 u64 u64 | Delete u64 | Mkdir u64 | Chdir u64 | Getcwd u64 u64
  | Open u64 | Read u64 u64 u64 | Lseek u64 u64 u64 | Closefd u64

fun run_file :: "file_call \<Rightarrow> 'a kos_scheme \<Rightarrow> (u64 \<times> 'a kos_scheme) option" where
  "run_file (Opendir ptr) s = sys_fs_opendir ptr s"
| "run_file (Readdir ptr) s = sys_fs_readdir ptr s"
| "run_file Closedir s = sys_fs_closedir s"
| "run_file (Openfile ptr) s = sys_fs_openfile ptr s"
| "run_file (Readfile ptr n) s = sys_fs_readfile ptr n s"
| "run_file Filesize s = Some (sys_fs_filesize s, s)"
| "run_file Closefile s = sys_fs_closefile s"
| "run_file (Writefile ptr src n) s = sys_fs_writefile ptr src n s"
| "run_file (Delete ptr) s = sys_fs_delete ptr s"
| "run_file (Mkdir ptr) s = sys_fs_mkdir ptr s"
| "run_file (Chdir ptr) s = sys_chdir ptr s"
| "run_file (Getcwd ptr n) s = sys_getcwd ptr n s"
| "run_file (Open ptr) s = sys_open ptr s"
| "run_file (Read fd ptr n) s = sys_read fd ptr n s"
| "run_file (Lseek fd offset whence) s = Some (sys_lseek fd offset whence s)"
| "run_file (Closefd fd) s = sys_closefd fd s"

section \<open>Ownership of heap blocks\<close>

text \<open>
  The pointers that the calls keep: slot 0 the directory, slot 1 the file, slot \<open>i + 2\<close> the path of
  descriptor \<open>i\<close>; 0 is no pointer.  \<open>holds h f R\<close>: different slots hold different live blocks of the
  heap \<open>h\<close>, and \<open>R\<close> is the set of all other live blocks.
\<close>

definition slot :: "'a kos_scheme \<Rightarrow> nat \<Rightarrow> u64" where
  "slot s j = (if j = 0 then g_dir_entries s else if j = 1 then g_file_data s else fd_path (g_fd_table s (j - 2)))"

definition SLOTS :: nat where "SLOTS = MAX_FD + 2"

definition held :: "(nat \<Rightarrow> u64) \<Rightarrow> u64 set" where
  "held f = f ` {..<SLOTS} - {0}"

definition holds :: "heap \<Rightarrow> (nat \<Rightarrow> u64) \<Rightarrow> u64 set \<Rightarrow> bool" where
  "holds h f R \<longleftrightarrow> (\<exists>A. heap_ok h A \<and> inj_on f {j. j < SLOTS \<and> f j \<noteq> 0} \<and> held f \<subseteq> block_objects A \<and> R = block_objects A - held f)"

lemma held_upd:
  assumes "j < SLOTS" "inj_on f {j. j < SLOTS \<and> f j \<noteq> 0}"
  shows "held (f(j := p)) = (if p = 0 then held f - {f j} else insert p (held f - {f j}))"
proof -
  have other: "f i \<noteq> f j" if "i < SLOTS" "i \<noteq> j" "f i \<noteq> 0" for i
    using inj_onD [OF assms(2), of i j] assms(1) that by auto
  have "held (f(j := p)) = (f ` ({..<SLOTS} - {j}) \<union> {p}) - {0}"
    unfolding held_def using assms(1) by (auto simp: image_iff)
  moreover have "f ` ({..<SLOTS} - {j}) - {0} = held f - {f j}"
    unfolding held_def using other by (auto simp: image_iff)
  ultimately show ?thesis by auto
qed

lemma holds_put:
  assumes "holds h f (insert p R)" "p \<notin> R" "p \<noteq> 0" "f j = 0" "j < SLOTS"
  shows "holds h (f(j := p)) R"
proof -
  obtain A where A: "heap_ok h A" "inj_on f {j. j < SLOTS \<and> f j \<noteq> 0}" "held f \<subseteq> block_objects A" "insert p R = block_objects A - held f"
    using assms(1) by (auto simp: holds_def)
  have p: "p \<notin> held f" "p \<in> block_objects A" using A(4) by auto
  have "inj_on (f(j := p)) {i. i < SLOTS \<and> (f(j := p)) i \<noteq> 0}"
  proof (rule inj_onI)
    fix a b
    assume "a \<in> {i. i < SLOTS \<and> (f(j := p)) i \<noteq> 0}" "b \<in> {i. i < SLOTS \<and> (f(j := p)) i \<noteq> 0}" "(f(j := p)) a = (f(j := p)) b"
    then show "a = b" using inj_onD [OF A(2), of a b] p(1) assms(3) by (auto simp: held_def split: if_splits)
  qed
  moreover have "held (f(j := p)) = insert p (held f)"
    using held_upd [OF assms(5) A(2), of p] assms(3,4) by (auto simp: held_def)
  moreover have "R = block_objects A - insert p (held f)" using A(4) assms(2) by auto
  ultimately show ?thesis using A(1,3) p(2) unfolding holds_def by (intro exI [of _ A]) auto
qed

lemma holds_take:
  assumes "holds h f R" "f j \<noteq> 0" "j < SLOTS"
  shows "holds h (f(j := 0)) (insert (f j) R)" "f j \<notin> R"
proof -
  obtain A where A: "heap_ok h A" "inj_on f {j. j < SLOTS \<and> f j \<noteq> 0}" "held f \<subseteq> block_objects A" "R = block_objects A - held f"
    using assms(1) by (auto simp: holds_def)
  have p: "f j \<in> held f" using assms(2,3) by (auto simp: held_def)
  then show "f j \<notin> R" using A(4) by simp
  have "inj_on (f(j := 0)) {i. i < SLOTS \<and> (f(j := 0)) i \<noteq> 0}"
    using A(2) by (auto simp: inj_on_def)
  moreover have "held (f(j := 0)) = held f - {f j}" using held_upd [OF assms(3) A(2), of 0] by simp
  moreover have "insert (f j) R = block_objects A - (held f - {f j})" using A(3,4) p by auto
  ultimately show "holds h (f(j := 0)) (insert (f j) R)" using A(1,3) unfolding holds_def by (intro exI [of _ A]) auto
qed

lemma holds_free:
  assumes "holds h f (insert p R)" "p \<notin> R" "p \<noteq> 0"
  shows "\<exists>h'. KmFree p h = Some h' \<and> holds h' f R"
proof -
  obtain A where A: "heap_ok h A" "inj_on f {j. j < SLOTS \<and> f j \<noteq> 0}" "held f \<subseteq> block_objects A" "insert p R = block_objects A - held f"
    using assms(1) by (auto simp: holds_def)
  have "p \<in> block_objects A" using A(4) by blast
  then obtain x sz where x: "(x, sz) \<in> A" "p = x + HEADER_SIZE" by (auto simp: block_objects_def)
  obtain h' where h': "KmFree p h = Some h'" "heap_ok h' (A - {(x, sz)})" using KmFree_correct [OF A(1) x(1)] x(2) by blast
  have "r \<in> A - {(x, sz)} \<longleftrightarrow> r \<in> without {p} A" for r
    using heap_ok_unique [OF A(1) _ x(1), of "snd r"] x by (cases r) (auto simp: without_def)
  then have "without {p} A = A - {(x, sz)}" by blast
  then have "block_objects (A - {(x, sz)}) = block_objects A - {p}" by (metis block_objects_without)
  moreover have "p \<notin> held f" "R = block_objects A - {p} - held f" using A(4) assms(2) by blast+
  ultimately have "holds h' f R" using h'(2) A(2,3) unfolding holds_def by (intro exI [of _ "A - {(x, sz)}"]) auto
  then show ?thesis using h'(1) by blast
qed

lemma holds_alloc:
  assumes "holds h f R" "KmAlloc n h = Some (p, h')" "unat n \<le> 2 ^ 39" "n \<noteq> 0"
  shows "p \<noteq> 0 \<and> p \<notin> R \<and> holds h' f (insert p R)"
proof -
  obtain A where A: "heap_ok h A" "inj_on f {j. j < SLOTS \<and> f j \<noteq> 0}" "held f \<subseteq> block_objects A" "R = block_objects A - held f"
    using assms(1) by (auto simp: holds_def)
  from KmAlloc_returns [OF A(1) assms(2-4)] obtain x sz where
    r: "p = x + HEADER_SIZE" "heap_ok h' (insert (x, sz) A)" "\<forall>r\<in>A. regions_apart (x, sz) r" by blast
  have "p \<noteq> 0" using heap_ok_pointer [OF r(2), of x sz] r(1) by simp
  moreover have "p \<notin> block_objects A" using r by (auto simp: block_objects_def regions_apart_def)
  moreover have "block_objects (insert (x, sz) A) = insert p (block_objects A)" by (simp add: block_objects_def r(1))
  ultimately show ?thesis using A r(2) unfolding holds_def by (intro conjI exI [of _ "insert (x, sz) A"]) auto
qed

end
