(* ===== verification/Sys_Files_Inv.thy ===== *)
theory Sys_Files_Inv
  imports Sys_Files
begin

text \<open>
  The invariant of the file system calls of \<^verbatim>\<open>Kernel/arch/syscall.c\<close>: who owns which block of the
  heap, and what the sizes and positions in the tables promise.
\<close>

section \<open>The invariant\<close>

definition fds_ok :: "(nat \<Rightarrow> kfile_desc) \<Rightarrow> bool" where
  "fds_ok t \<longleftrightarrow> (\<forall>i<MAX_FD. if fd_used (t i) then fd_path (t i) \<noteq> 0 \<and> fd_pos (t i) \<le> fd_size (t i) \<and> fd_size (t i) \<le> FILE_MAX
     else fd_path (t i) = 0)"

definition dir_ok :: "'a kos_scheme \<Rightarrow> bool" where
  "dir_ok s \<longleftrightarrow> g_dir_index s \<le> g_dir_count s \<and>
     (if g_dir_entries s = 0 then g_dir_count s = 0 else length (dir_list s) \<le> 256 \<and> unat (g_dir_count s) = length (dir_list s))"

definition file_ok :: "'a kos_scheme \<Rightarrow> bool" where
  "file_ok s \<longleftrightarrow> g_file_pos s \<le> g_file_size s \<and>
     (if g_file_data s = 0 then g_file_size s = 0 else unat (g_file_size s) = length (file_bytes s) \<and> g_file_size s \<le> FILE_MAX)"

definition cwd_ok :: "u8 list \<Rightarrow> bool" where
  "cwd_ok p \<longleftrightarrow> p \<noteq> [] \<and> hd p = 47 \<and> length p < FAT_MAX_PATH"

text \<open>\<open>R\<close>: the live heap blocks of the other components.\<close>

definition files_ok :: "'a kos_scheme \<Rightarrow> u64 set \<Rightarrow> bool" where
  "files_ok s R \<longleftrightarrow> holds (ps_heap s) (slot s) R \<and> fds_ok (g_fd_table s) \<and> dir_ok s \<and> file_ok s \<and> cwd_ok (g_current_directory s)"

lemma slot_upd [simp]:
  "slot (s\<lparr>g_dir_entries := p\<rparr>) = (slot s)(0 := p)" "slot (s\<lparr>g_file_data := p\<rparr>) = (slot s)(1 := p)"
  "slot (upd_fd i f s) = (slot s)(i + 2 := fd_path (f (g_fd_table s i)))"
  "slot (s\<lparr>g_dir_count := c\<rparr>) = slot s" "slot (s\<lparr>g_dir_index := c\<rparr>) = slot s" "slot (s\<lparr>dir_list := es\<rparr>) = slot s"
  "slot (s\<lparr>g_file_size := c\<rparr>) = slot s" "slot (s\<lparr>g_file_pos := c\<rparr>) = slot s" "slot (s\<lparr>file_bytes := d\<rparr>) = slot s"
  "slot (s\<lparr>ps_heap := h\<rparr>) = slot s" "slot (s\<lparr>k_fat := t\<rparr>) = slot s" "slot (s\<lparr>k_phys := m\<rparr>) = slot s" "slot (s\<lparr>g_current_directory := d\<rparr>) = slot s"
  by (auto simp: slot_def fun_eq_iff upd_fd_def)

lemma slots: "slot s 0 = g_dir_entries s" "slot s (Suc 0) = g_file_data s" "slot s (i + 2) = fd_path (g_fd_table s i)" "slot s (Suc (Suc i)) = fd_path (g_fd_table s i)"
  "0 < SLOTS" "Suc 0 < SLOTS" "i < MAX_FD \<Longrightarrow> Suc (Suc i) < SLOTS"
  by (simp_all add: slot_def SLOTS_def MAX_FD_def)

text \<open>The file system and the program's memory are outside of the invariant.\<close>

lemma fs_frame: "fs f s = Some (r, s') \<Longrightarrow> s' = s\<lparr>k_fat := k_fat s'\<rparr>"
  by (auto simp: fs_def)

lemma files_ok_frame [simp]: "files_ok (s\<lparr>k_fat := t\<rparr>) R = files_ok s R" "files_ok (s\<lparr>k_phys := m\<rparr>) R = files_ok s R" "files_ok (fs_close s) R = files_ok s R"
  by (simp_all add: files_ok_def dir_ok_def file_ok_def fs_close_def)

lemma in_process_frame:
  assumes "in_process f s = Some (r, s')"
    and "\<And>u t. f u = Some (r, t) \<Longrightarrow> t = u\<lparr>k_fat := k_fat t, k_phys := k_phys t\<rparr>"
  shows "s' = s\<lparr>k_fat := k_fat s', k_phys := k_phys s'\<rparr>"
proof (cases "PsGetCurrentThread s \<noteq> 0 \<and> th_process (thread s (PsGetCurrentThread s)) \<noteq> 0")
  case True
  then obtain t where t: "f (writecr3 (p_page_table (process s (th_process (thread s (PsGetCurrentThread s))))) s) = Some (r, t)"
    "s' = writecr3 (vm_cr3 (ps_vm s)) t"
    using assms(1) by (auto simp: in_process_def Let_def)
  obtain x where t': "t = (writecr3 x s)\<lparr>k_fat := k_fat t, k_phys := k_phys t\<rparr>" using assms(2) [OF t(1)] by blast
  show ?thesis unfolding t(2) by (subst (1) t') (simp add: writecr3_def set_vm_def)
next
  case False
  then have "f s = Some (r, s')" using assms(1) by (auto simp: in_process_def Let_def)
  then show ?thesis by (rule assms(2))
qed

section \<open>How much a read delivers\<close>

lemma le_then_sub: "n \<le> (m :: u32) \<Longrightarrow> unat (m - n) = unat m - unat n"
  by (simp add: unat_sub word_le_nat_alt)

lemma read_sector_length:
  assumes "length (fst st) + unat (fst (snd st)) \<le> N"
  shows "case read_sector sector k st of Inl r \<Rightarrow> length (fst (snd r)) \<le> N | Inr st' \<Rightarrow> length (fst st') + unat (fst (snd st')) \<le> N"
proof -
  obtain out remaining s where st: "st = (out, remaining, s)" by (cases st) auto
  obtain status s1 where r: "read_g (sector + of_nat k) s = (status, s1)" by fastforce
  define n where "n = (if remaining > bytes_per_sector (g_fat s1) then bytes_per_sector (g_fat s1) else remaining)"
  have "n \<le> remaining" by (auto simp: n_def)
  then have "unat n \<le> unat remaining" "unat (remaining - n) = unat remaining - unat n" by (simp_all add: word_le_nat_alt le_then_sub)
  then show ?thesis using assms
    by (simp add: read_sector_def st r n_def [symmetric] Let_def g_bytes_def split: if_splits)
qed

lemma read_chain_length:
  assumes "read_chain cluster st = Some r" "length (fst st) + unat (fst (snd st)) \<le> N"
  shows "length (fst (snd r)) \<le> N"
proof -
  let ?P = "\<lambda>cluster (st :: read_state) r. length (fst st) + unat (fst (snd st)) \<le> N \<longrightarrow> length (fst (snd r)) \<le> N"
  have "?P cluster st r"
    using assms(1)
  proof (rule read_chain.raw_induct [where P = ?P, rotated], intro impI)
    fix rd :: "u32 \<Rightarrow> read_state \<Rightarrow> (ntstatus \<times> u8 list \<times> fat) option" and cluster :: u32 and st :: read_state and r :: "ntstatus \<times> u8 list \<times> fat"
    assume IH: "\<And>cluster st r. rd cluster st = Some r \<Longrightarrow> ?P cluster st r" and lim: "length (fst st) + unat (fst (snd st)) \<le> N"
    obtain out remaining s where st: "st = (out, remaining, s)" by (cases st) auto
    assume run: "(let (out, remaining, s) = st in
      if cluster \<noteq> 0 \<and> cluster < 0x0FFFFFF8 \<and> remaining > 0 then
        (case fold_until (read_sector (FatClusterToSector cluster s)) [0..<unat (sectors_per_cluster (g_fat s))] st of
           Inl r \<Rightarrow> Some r
         | Inr (out', remaining', s1) \<Rightarrow> (let (next, s2) = FatNextCluster cluster s1 in rd next (out', remaining', s2)))
      else Some (STATUS_SUCCESS, out, s)) = Some r"
    show "length (fst (snd r)) \<le> N"
    proof (cases "cluster \<noteq> 0 \<and> cluster < 0x0FFFFFF8 \<and> remaining > 0")
      case False
      then show ?thesis using run lim unfolding st by auto
    next
      case True
      let ?f = "fold_until (read_sector (FatClusterToSector cluster s)) [0..<unat (sectors_per_cluster (g_fat s))] st"
      have F: "case ?f of Inl r \<Rightarrow> length (fst (snd r)) \<le> N | Inr st' \<Rightarrow> length (fst st') + unat (fst (snd st')) \<le> N"
        using lim by (intro fold_until_inv [where P = "\<lambda>st. length (fst st) + unat (fst (snd st)) \<le> N"]) (auto intro: read_sector_length)
      show ?thesis
      proof (cases ?f)
        case (Inl r')
        then show ?thesis using F run True unfolding st by simp
      next
        case (Inr st')
        obtain out' remaining' s1 where st': "st' = (out', remaining', s1)" by (cases st') auto
        have "rd (fst (FatNextCluster cluster s1)) (out', remaining', snd (FatNextCluster cluster s1)) = Some r"
          using run True Inr unfolding st st' by (simp add: case_prod_unfold Let_def)
        then show ?thesis using IH F Inr unfolding st' by fastforce
      qed
    qed
  qed
  then show ?thesis using assms(2) by blast
qed

lemma Fat32ReadFile_length: "Fat32ReadFile s = Some (st, d, s') \<Longrightarrow> length d \<le> unat (g_current_file_size s)"
  using read_chain_length [of "g_current_cluster s" "([], g_current_file_size s, s)" "(st, d, s')"]
  by (auto simp: Fat32ReadFile_def split: if_splits)

lemma read_at_sector_length:
  assumes "length (fst st) + unat (fst (snd st)) \<le> N"
  shows "case read_at_sector sector k st of Inl r \<Rightarrow> length (fst (snd r)) \<le> N | Inr st' \<Rightarrow> length (fst st') + unat (fst (snd st')) \<le> N"
proof -
  obtain out remaining skip s where st: "st = (out, remaining, skip, s)" by (cases st) auto
  obtain status s1 where r: "read_g (sector + of_nat k) s = (status, s1)" by fastforce
  define n where "n = (if remaining > bytes_per_sector (g_fat s1) - skip then bytes_per_sector (g_fat s1) - skip else remaining)"
  have "n \<le> remaining" by (auto simp: n_def)
  then have "unat n \<le> unat remaining" "unat (remaining - n) = unat remaining - unat n" by (simp_all add: word_le_nat_alt le_then_sub)
  then show ?thesis using assms
    by (simp add: read_at_sector_def st r n_def [symmetric] Let_def g_bytes_def split: if_splits)
qed

lemma read_at_chain_length:
  assumes "read_at_chain cluster st = Some r" "length (fst st) + unat (fst (snd st)) \<le> N"
  shows "length (fst (snd r)) \<le> N"
proof -
  let ?P = "\<lambda>cluster (st :: read_at_state) r. length (fst st) + unat (fst (snd st)) \<le> N \<longrightarrow> length (fst (snd r)) \<le> N"
  have "?P cluster st r"
    using assms(1)
  proof (rule read_at_chain.raw_induct [where P = ?P, rotated], intro impI)
    fix rd :: "u32 \<Rightarrow> read_at_state \<Rightarrow> (ntstatus \<times> u8 list \<times> fat) option" and cluster :: u32 and st :: read_at_state and r :: "ntstatus \<times> u8 list \<times> fat"
    assume IH: "\<And>cluster st r. rd cluster st = Some r \<Longrightarrow> ?P cluster st r" and lim: "length (fst st) + unat (fst (snd st)) \<le> N"
    obtain out remaining skip s where st: "st = (out, remaining, skip, s)" by (cases st) auto
    assume run: "(let (out, to_read, skip, s) = st in
      if cluster \<noteq> 0 \<and> cluster < 0x0FFFFFF8 \<and> to_read > 0 then
        (case fold_until (read_at_sector (FatClusterToSector cluster s)) [0..<unat (sectors_per_cluster (g_fat s))] st of
           Inl r \<Rightarrow> Some r
         | Inr (out', to_read', skip', s1) \<Rightarrow> (let (next, s2) = FatNextCluster cluster s1 in rd next (out', to_read', skip', s2)))
      else Some (STATUS_SUCCESS, out, Fat32Close s)) = Some r"
    show "length (fst (snd r)) \<le> N"
    proof (cases "cluster \<noteq> 0 \<and> cluster < 0x0FFFFFF8 \<and> remaining > 0")
      case False
      then show ?thesis using run lim unfolding st by auto
    next
      case True
      let ?f = "fold_until (read_at_sector (FatClusterToSector cluster s)) [0..<unat (sectors_per_cluster (g_fat s))] st"
      have F: "case ?f of Inl r \<Rightarrow> length (fst (snd r)) \<le> N | Inr st' \<Rightarrow> length (fst st') + unat (fst (snd st')) \<le> N"
        using lim by (intro fold_until_inv [where P = "\<lambda>st. length (fst st) + unat (fst (snd st)) \<le> N"]) (auto intro: read_at_sector_length)
      show ?thesis
      proof (cases ?f)
        case (Inl r')
        then show ?thesis using F run True unfolding st by simp
      next
        case (Inr st')
        obtain out' remaining' skip' s1 where st': "st' = (out', remaining', skip', s1)" by (cases st') auto
        have "rd (fst (FatNextCluster cluster s1)) (out', remaining', skip', snd (FatNextCluster cluster s1)) = Some r"
          using run True Inr unfolding st st' by (simp add: case_prod_unfold Let_def)
        then show ?thesis using IH F Inr unfolding st' by fastforce
      qed
    qed
  qed
  then show ?thesis using assms(2) by blast
qed

lemma Fat32ReadFileAt_length:
  assumes "Fat32ReadFileAt path off n s = Some (st, d, s')"
  shows "length d \<le> unat n"
proof -
  have clip: "(if off + n > m then m - off else n) \<le> n" if "\<not> off \<ge> m" for m
  proof (cases "off + n > m")
    case True
    have "unat (m - off) = unat m - unat off" using that by (simp add: le_then_sub)
    moreover have "unat (off + n) \<le> unat off + unat n" by (simp add: unat_word_ariths)
    ultimately show ?thesis using True by (simp add: word_le_nat_alt word_less_nat_alt)
  qed simp
  show ?thesis
    using assms read_at_chain_length [where N = "unat n"] clip
    by (fastforce simp: Fat32ReadFileAt_def Let_def word_le_nat_alt split: if_splits option.splits prod.splits)
qed

section \<open>Releasing what is open\<close>

lemma drop_slot:
  assumes "holds (ps_heap s) f R" "f j = p" "p \<noteq> 0" "j < SLOTS"
  shows "\<exists>h. ps_free p s = Some (s\<lparr>ps_heap := h\<rparr>) \<and> holds h (f(j := 0)) R"
  using holds_free [OF holds_take(1) [OF assms(1) _ assms(4)]] holds_take(2) [OF assms(1) _ assms(4)] assms(2,3)
  by (auto simp: ps_free_def)

lemma drop_dir_ok:
  assumes "files_ok s R"
  shows "\<exists>h. drop_dir s = Some (s\<lparr>ps_heap := h, g_dir_entries := 0, g_dir_count := 0, g_dir_index := 0\<rparr>) \<and>
    files_ok (s\<lparr>ps_heap := h, g_dir_entries := 0, g_dir_count := 0, g_dir_index := 0\<rparr>) R"
proof (cases "g_dir_entries s = 0")
  case True
  then have "(slot s)(0 := 0) = slot s" by (auto simp: slots fun_eq_iff)
  then show ?thesis using assms True
    by (intro exI [of _ "ps_heap s"]) (simp add: drop_dir_def files_ok_def dir_ok_def file_ok_def)
next
  case False
  then obtain h where "ps_free (g_dir_entries s) s = Some (s\<lparr>ps_heap := h\<rparr>)" "holds h ((slot s)(0 := 0)) R"
    using drop_slot [of s "slot s" R 0] assms by (auto simp: files_ok_def slots)
  then show ?thesis using assms False by (intro exI [of _ h]) (simp add: drop_dir_def files_ok_def dir_ok_def file_ok_def)
qed

lemma drop_file_ok:
  assumes "files_ok s R"
  shows "\<exists>h. drop_file s = Some (s\<lparr>ps_heap := h, g_file_data := 0, g_file_size := 0, g_file_pos := 0\<rparr>) \<and>
    files_ok (s\<lparr>ps_heap := h, g_file_data := 0, g_file_size := 0, g_file_pos := 0\<rparr>) R"
proof (cases "g_file_data s = 0")
  case True
  then have "(slot s)(Suc 0 := 0) = slot s" by (auto simp: slots fun_eq_iff)
  then show ?thesis using assms True
    by (intro exI [of _ "ps_heap s"]) (simp add: drop_file_def files_ok_def dir_ok_def file_ok_def)
next
  case False
  then obtain h where "ps_free (g_file_data s) s = Some (s\<lparr>ps_heap := h\<rparr>)" "holds h ((slot s)(Suc 0 := 0)) R"
    using drop_slot [of s "slot s" R "Suc 0"] assms by (auto simp: files_ok_def slots)
  then show ?thesis using assms False by (intro exI [of _ h]) (simp add: drop_file_def files_ok_def dir_ok_def file_ok_def)
qed

lemma closefd_ok:
  assumes "files_ok s R"
  shows "\<exists>r s'. sys_closefd fdr s = Some (r, s') \<and> files_ok s' R"
proof (cases "fd_valid (ucast fdr) s")
  case False
  then show ?thesis using assms by (simp add: sys_closefd_def)
next
  case True
  let ?i = "fd_index (ucast fdr)"
  have i: "?i < MAX_FD" "fd_used (g_fd_table s ?i)" using True by (auto simp: fd_valid_def fd_index_def)
  then have p: "fd_path (g_fd_table s ?i) \<noteq> 0" using assms by (auto simp: files_ok_def fds_ok_def)
  then obtain h where h: "ps_free (fd_path (g_fd_table s ?i)) s = Some (s\<lparr>ps_heap := h\<rparr>)" "holds h ((slot s)(Suc (Suc ?i) := 0)) R"
    using drop_slot [of s "slot s" R "Suc (Suc ?i)"] assms i by (auto simp: files_ok_def slots)
  let ?s = "upd_fd ?i (\<lambda>f. f\<lparr>fd_path := 0, fd_size := 0, fd_pos := 0, fd_used := False\<rparr>) (s\<lparr>ps_heap := h\<rparr>)"
  have "sys_closefd fdr s = Some (0, ?s)" using True p h(1) by (simp add: sys_closefd_def Let_def)
  moreover have "files_ok ?s R"
    using assms h(2) unfolding files_ok_def by (simp add: dir_ok_def file_ok_def) (auto simp: upd_fd_def fds_ok_def)
  ultimately show ?thesis by blast
qed

section \<open>The calls keep the invariant\<close>

lemma fsE: "fs f s = Some (r, s') \<Longrightarrow> \<exists>t. f (k_fat s) = Some (r, t) \<and> s' = s\<lparr>k_fat := t\<rparr>"
  by (auto simp: fs_def)

lemma storesE: "stores v bs s = Some s' \<Longrightarrow> \<exists>m. s' = s\<lparr>k_phys := m\<rparr>"
  using stores_frame by blast

lemma km_allocE:
  assumes "holds (ps_heap s) f R" "km_alloc n s = Some (p, s')" "unat n \<le> 2 ^ 39" "n \<noteq> 0"
  shows "\<exists>h. s' = s\<lparr>ps_heap := h\<rparr> \<and> p \<noteq> 0 \<and> p \<notin> R \<and> holds h f (insert p R)"
  using holds_alloc [OF assms(1) _ assms(3,4)] assms(2) by (auto simp: km_alloc_def)

lemma open_dirE: "open_dir ptr s = Some (st, s') \<Longrightarrow> \<exists>t. s' = s\<lparr>k_fat := t\<rparr>"
  by (auto simp: open_dir_def dest!: fsE split: if_splits Option.bind_splits)

lemma opendir_ok:
  assumes "files_ok s R" "sys_fs_opendir ptr s = Some (r, s')"
  shows "files_ok s' R"
proof -
  obtain h where d: "drop_dir s = Some (s\<lparr>ps_heap := h, g_dir_entries := 0, g_dir_count := 0, g_dir_index := 0\<rparr>)"
    "files_ok (s\<lparr>ps_heap := h, g_dir_entries := 0, g_dir_count := 0, g_dir_index := 0\<rparr>) R"
    using drop_dir_ok [OF assms(1)] by blast
  define u where "u = s\<lparr>ps_heap := h, g_dir_entries := 0, g_dir_count := 0, g_dir_index := 0\<rparr>"
  have u: "drop_dir s = Some u" "files_ok u R" "g_dir_entries u = 0" "g_dir_index u = 0" using d by (simp_all add: u_def)
  obtain st v where v: "open_dir ptr u = Some (st, v)" using assms(2) u(1) by (auto simp: sys_fs_opendir_def split: Option.bind_splits)
  obtain t where t: "v = u\<lparr>k_fat := t\<rparr>" using open_dirE [OF v] by blast
  show ?thesis
  proof (cases "NT_SUCCESS st \<and> Fat32IsCurrentDirectory t")
    case False
    then have "s' = v" using assms(2) u(1) v by (auto simp: sys_fs_opendir_def t)
    then show ?thesis using u(2) t by simp
  next
    case True
    obtain b w where w: "km_alloc (SIZEOF_DIRENT * 256) v = Some (b, w)"
      using assms(2) u(1) v True by (auto simp: sys_fs_opendir_def t split: Option.bind_splits)
    have hv: "holds (ps_heap v) (slot v) R" "slot v 0 = 0" using u(2,3) by (simp_all add: t files_ok_def slots)
    obtain h2 where h2: "w = v\<lparr>ps_heap := h2\<rparr>" "b \<noteq> 0" "b \<notin> R" "holds h2 (slot v) (insert b R)"
      using km_allocE [OF hv(1) w] by (auto simp: SIZEOF_DIRENT_def)
    obtain rs es f where d: "Fat32ReadDir 256 (k_fat w) = Some (rs, es, f)"
      using assms(2) u(1) v True w h2(2) by (auto simp: sys_fs_opendir_def t fs_def split: Option.bind_splits)
    have es: "length es \<le> 256" by (rule Fat32ReadDir_bound [OF d])
    show ?thesis
    proof (cases "NT_SUCCESS rs \<and> es \<noteq> []")
      case True
      have "s' = w\<lparr>k_fat := Fat32Close f, g_dir_entries := b, dir_list := es, g_dir_count := of_nat (length es)\<rparr>"
        using assms(2) u(1) v \<open>NT_SUCCESS st \<and> _\<close> w h2(2) d True by (auto simp: sys_fs_opendir_def t fs_def fs_close_def)
      moreover have "holds h2 ((slot v)(0 := b)) R" by (rule holds_put [OF h2(4,3,2) hv(2)]) (simp add: slots)
      moreover have "unat (of_nat (length es) :: u32) = length es" using es by (simp add: unat_of_nat take_bit_nat_eq_self)
      ultimately show ?thesis using u(2,4) h2(2) es by (simp add: files_ok_def t h2(1) dir_ok_def file_ok_def)
    next
      case False
      obtain h3 where h3: "KmFree b h2 = Some h3" "holds h3 (slot v) R" using holds_free [OF h2(4,3,2)] by blast
      have "s' = w\<lparr>k_fat := Fat32Close f, ps_heap := h3\<rparr>"
        using assms(2) u(1) v \<open>NT_SUCCESS st \<and> _\<close> w h2 d False h3(1) by (auto simp: sys_fs_opendir_def t fs_def fs_close_def ps_free_def)
      then show ?thesis using u(2,4) h3(2) by (simp add: files_ok_def t h2(1) dir_ok_def file_ok_def)
    qed
  qed
qed

lemma readdir_ok:
  assumes "files_ok s R" "sys_fs_readdir ptr s = Some (r, s')"
  shows "files_ok s' R"
proof -
  consider "s' = s" | u where "files_ok u R" "g_dir_index u < g_dir_count u" "s' = u\<lparr>g_dir_index := g_dir_index u + 1\<rparr>"
  proof (cases "g_dir_entries s = 0 \<or> g_dir_index s \<ge> g_dir_count s \<or> SysUserPtr ptr = 0")
    case True
    then show ?thesis using assms(2) that(1) by (auto simp: sys_fs_readdir_def split: if_splits)
  next
    case False
    define e where "e = dir_list s ! unat (g_dir_index s)"
    obtain a b c where st: "stores ptr (take 255 (fname e) @ [0]) s = Some a" "stores (ptr + 256) (u32_bytes (file_size e)) a = Some b"
      "stores (ptr + 260) (u32_bytes (if is_directory e then 1 else 0)) b = Some c" "s' = c\<lparr>g_dir_index := g_dir_index c + 1\<rparr>"
      using assms(2) False by (auto simp: sys_fs_readdir_def e_def [symmetric] Let_def split: Option.bind_splits)
    obtain m where "c = s\<lparr>k_phys := m\<rparr>"
      using stores_frame [OF st(1)] stores_frame [OF st(2)] stores_frame [OF st(3)] by (metis kos.unfold_congs(5) kos.surjective kos.update_convs(5))
    then show ?thesis using that(2) [of c] st(4) False assms(1) by (simp add: not_le)
  qed
  then show ?thesis
  proof cases
    case 2
    have "unat (g_dir_index u + 1) = unat (g_dir_index u) + 1"
      using 2(2) unsigned_less [of "g_dir_count u", where 'a = nat] by (simp add: word_less_nat_alt unat_word_ariths)
    then show ?thesis using 2 by (auto simp: files_ok_def dir_ok_def file_ok_def word_le_nat_alt word_less_nat_alt)
  qed (use assms(1) in simp)
qed

lemma fill_file_ok:
  assumes "files_ok s R" "fill_file n s = Some (r, s')" "g_file_data s = 0" "g_file_size s = 0" "g_file_pos s = 0"
    "n = g_current_file_size (k_fat s)" "n \<noteq> 0" "n \<le> FILE_MAX"
  shows "files_ok s' R"
proof -
  obtain p w where w: "km_alloc (ucast n) s = Some (p, w)" using assms(2) by (auto simp: fill_file_def split: Option.bind_splits)
  have n: "unat (ucast n :: u64) = unat n" "unat n \<le> 16777216"
    using assms(8) by (simp_all add: unsigned_ucast_eq take_bit_nat_eq_self FILE_MAX_def word_le_nat_alt)
  have nz: "(ucast n :: u64) \<noteq> 0" using n(1) assms(7) by (metis unat_0 unat_eq_0)
  have hs: "holds (ps_heap s) (slot s) R" "slot s (Suc 0) = 0" using assms(1,3) by (simp_all add: files_ok_def slots)
  obtain h where h: "w = s\<lparr>ps_heap := h\<rparr>" "p \<noteq> 0" "p \<notin> R" "holds h (slot s) (insert p R)"
    using km_allocE [OF hs(1) w _ nz] n by auto
  obtain st d f where d: "Fat32ReadFile (k_fat s) = Some (st, d, f)"
    using assms(2) w h(1,2) by (auto simp: fill_file_def fs_def split: Option.bind_splits)
  have len: "length d \<le> unat n" using Fat32ReadFile_length [OF d] assms(6) by simp
  then have le: "unat (of_nat (length d) :: u32) = length d" using n(2) by (simp add: unat_of_nat take_bit_nat_eq_self)
  show ?thesis
  proof (cases "NT_ERROR st")
    case True
    obtain h3 where h3: "KmFree p h = Some h3" "holds h3 (slot s) R" using holds_free [OF h(4,3,2)] by blast
    have z: "(slot s)(Suc 0 := 0) = slot s" using hs(2) by auto
    have "s' = s\<lparr>k_fat := Fat32Close f, g_file_data := 0, ps_heap := h3\<rparr>"
      using assms(2) w h(1,2) d True h3(1) by (auto simp: fill_file_def fs_def fs_close_def ps_free_def)
    then show ?thesis using assms(1,4,5) h3(2) z by (simp add: files_ok_def dir_ok_def file_ok_def)
  next
    case False
    have "s' = w\<lparr>k_fat := Fat32Close f, g_file_data := p, file_bytes := d, g_file_size := of_nat (length d)\<rparr>"
      using assms(2) w h(1,2) d False by (auto simp: fill_file_def fs_def fs_close_def)
    moreover have "holds h ((slot s)(Suc 0 := p)) R" by (rule holds_put [OF h(4,3,2) hs(2)]) (simp add: slots)
    moreover have "(of_nat (length d) :: u32) \<le> FILE_MAX" using le len n(2) by (simp add: word_le_nat_alt FILE_MAX_def)
    ultimately show ?thesis using assms(1,5) h(1,2) le by (simp add: files_ok_def dir_ok_def file_ok_def)
  qed
qed

lemma openfile_ok:
  assumes "files_ok s R" "sys_fs_openfile ptr s = Some (r, s')"
  shows "files_ok s' R"
proof -
  obtain h where d: "drop_file s = Some (s\<lparr>ps_heap := h, g_file_data := 0, g_file_size := 0, g_file_pos := 0\<rparr>)"
    "files_ok (s\<lparr>ps_heap := h, g_file_data := 0, g_file_size := 0, g_file_pos := 0\<rparr>) R"
    using drop_file_ok [OF assms(1)] by blast
  define u where "u = s\<lparr>ps_heap := h, g_file_data := 0, g_file_size := 0, g_file_pos := 0\<rparr>"
  have u: "drop_file s = Some u" "files_ok u R" "g_file_data u = 0" "g_file_size u = 0" "g_file_pos u = 0" using d by (simp_all add: u_def)
  show ?thesis
  proof (cases "SysUserPtr ptr = 0")
    case True
    then show ?thesis using assms(2) u(1,2) by (auto simp: sys_fs_openfile_def)
  next
    case False
    obtain path st t where t: "user_path ptr u = Some path" "Fat32OpenPath path (k_fat u) = Some (st, t)"
      using assms(2) u(1) False by (auto simp: sys_fs_openfile_def fs_def split: Option.bind_splits)
    define v where "v = u\<lparr>k_fat := t\<rparr>"
    let ?n = "g_current_file_size t"
    have run: "(if \<not> NT_SUCCESS st then Some (EFAIL, v)
        else if ?n > FILE_MAX then Some (EFAIL, fs_close v)
        else if ?n = 0 then do {
               (p, s) \<leftarrow> km_alloc 1 v;
               Some (0, fs_close (s\<lparr>g_file_data := p, file_bytes := [], g_file_size := 0\<rparr>))
             } else fill_file ?n v) = Some (r, s')"
      using assms(2) u(1) False t by (simp add: sys_fs_openfile_def fs_def v_def Fat32GetFileSize_def Let_def cong: if_cong)
    have v: "files_ok v R" "g_file_data v = 0" "g_file_size v = 0" "g_file_pos v = 0" "?n = g_current_file_size (k_fat v)"
      using u by (simp_all add: v_def)
    consider "\<not> NT_SUCCESS st" | "NT_SUCCESS st" "?n > FILE_MAX" | "NT_SUCCESS st" "\<not> ?n > FILE_MAX" "?n = 0" | "NT_SUCCESS st" "\<not> ?n > FILE_MAX" "?n \<noteq> 0" by blast
    then show ?thesis
    proof cases
      case 3
      then obtain p w where w: "km_alloc 1 v = Some (p, w)" "s' = fs_close (w\<lparr>g_file_data := p, file_bytes := [], g_file_size := 0\<rparr>)"
        using run by (auto split: Option.bind_splits)
      have hs: "holds (ps_heap v) (slot v) R" "slot v (Suc 0) = 0" using v(1,2) by (simp_all add: files_ok_def slots)
      obtain h2 where h: "w = v\<lparr>ps_heap := h2\<rparr>" "p \<noteq> 0" "p \<notin> R" "holds h2 (slot v) (insert p R)"
        using km_allocE [OF hs(1) w(1)] by auto
      have "holds h2 ((slot v)(Suc 0 := p)) R" by (rule holds_put [OF h(4,3,2) hs(2)]) (simp add: slots)
      then show ?thesis using v h(1,2) by (simp add: w(2) files_ok_def dir_ok_def file_ok_def fs_close_def)
    next
      case 4
      then have "fill_file ?n v = Some (r, s')" using run by simp
      from fill_file_ok [OF v(1) this v(2,3,4,5)] 4 show ?thesis by simp
    qed (use run v(1) in auto)
  qed
qed

lemma readfile_ok:
  assumes "files_ok s R" "sys_fs_readfile ptr count s = Some (r, s')"
  shows "files_ok s' R"
proof -
  define n where "n = (if ucast count > g_file_size s - g_file_pos s then g_file_size s - g_file_pos s else (ucast count :: u32))"
  have run: "(if g_file_data s = 0 \<or> SysUserPtr ptr = 0 then Some (EFAIL, s)
      else if n > 0 then do {
            s \<leftarrow> stores ptr (take (unat n) (drop (unat (g_file_pos s)) (file_bytes s))) s;
            Some (ucast n, s\<lparr>g_file_pos := g_file_pos s + n\<rparr>)
          } else Some (ucast n, s)) = Some (r, s')"
    using assms(2) unfolding sys_fs_readfile_def Let_def n_def by (simp split: if_splits)
  consider "s' = s" | u where "stores ptr (take (unat n) (drop (unat (g_file_pos s)) (file_bytes s))) s = Some u"
      "s' = u\<lparr>g_file_pos := g_file_pos u + n\<rparr>"
    using run by (auto split: if_splits Option.bind_splits)
  then show ?thesis
  proof cases
    case 2
    obtain m where m: "u = s\<lparr>k_phys := m\<rparr>" using stores_frame [OF 2(1)] by blast
    have pos: "g_file_pos s \<le> g_file_size s" using assms(1) by (simp add: files_ok_def file_ok_def)
    have "n \<le> g_file_size s - g_file_pos s" by (auto simp: n_def)
    then have "unat n \<le> unat (g_file_size s) - unat (g_file_pos s)" using le_then_sub [OF pos] by (simp add: word_le_nat_alt)
    then have "unat (g_file_pos s) + unat n \<le> unat (g_file_size s)" using pos by (simp add: word_le_nat_alt)
    moreover from this have "unat (g_file_pos s + n) = unat (g_file_pos s) + unat n"
      using unsigned_less [of "g_file_size s", where 'a = nat] by (simp add: unat_word_ariths)
    ultimately have "g_file_pos s + n \<le> g_file_size s" by (simp only: word_le_nat_alt)
    then show ?thesis using assms(1) by (simp add: 2(2) m files_ok_def dir_ok_def file_ok_def)
  qed (use assms(1) in simp)
qed

lemma volume_calls_ok:
  assumes "files_ok s R"
  shows "sys_fs_writefile ptr src n s = Some (r, s') \<Longrightarrow> files_ok s' R" "sys_fs_delete ptr s = Some (r, s') \<Longrightarrow> files_ok s' R"
    "sys_fs_mkdir ptr s = Some (r, s') \<Longrightarrow> files_ok s' R"
  using assms
  by (auto simp: sys_fs_writefile_def sys_fs_delete_def sys_fs_mkdir_def dest!: fsE split: if_splits Option.bind_splits)

lemma path_build_absolute: "r \<noteq> [] \<Longrightarrow> path_build ns r \<noteq> [] \<and> hd (path_build ns r) = hd r"
  by (induction ns r rule: path_build.induct) (auto simp: Let_def)

lemma resolved_ok: "cwd_ok (SysResolvePath cwd (Some p))"
proof -
  have "length (path_build ns [47]) < FAT_MAX_PATH - 32" for ns by (rule path_build_length) (simp add: FAT_MAX_PATH_def)
  then have "length (path_build ns [47]) < FAT_MAX_PATH" for ns by (rule less_le_trans) simp
  then show ?thesis using path_build_absolute [of "[47]"] by (simp add: cwd_ok_def SysResolvePath_scan)
qed

lemma user_path_ok: "user_path ptr s = Some path \<Longrightarrow> cwd_ok path"
  using resolved_ok by (auto simp: user_path_def)

lemma chdir_ok:
  assumes "files_ok s R" "sys_chdir ptr s = Some (r, s')"
  shows "files_ok s' R"
proof -
  consider "s' = s" | path t where "user_path ptr s = Some path"
      "s' = s\<lparr>k_fat := t\<rparr> \<or> s' = s\<lparr>k_fat := t, g_current_directory := path\<rparr>"
    using assms(2) by (fastforce simp: sys_chdir_def fs_close_def split: if_splits Option.bind_splits dest: fsE)
  then show ?thesis
  proof cases
    case 2
    then show ?thesis using assms(1) user_path_ok [OF 2(1)] by (auto simp: files_ok_def dir_ok_def file_ok_def)
  qed (use assms(1) in simp)
qed

lemma getcwd_ok: "files_ok s R \<Longrightarrow> sys_getcwd ptr n s = Some (r, s') \<Longrightarrow> files_ok s' R"
  by (auto simp: sys_getcwd_def Let_def dest!: storesE split: if_splits)

text \<open>What \<^verbatim>\<open>SYS_OPEN\<close> does: it fails, or the first free descriptor is at the start of the file.\<close>

lemma sys_openE:
  assumes "files_ok s R" "sys_open ptr s = Some (r, s')"
  shows "(r = EFAIL \<and> (\<exists>t. s' = s\<lparr>k_fat := t\<rparr>)) \<or>
    (\<exists>fd t h kpath path n. r = of_nat fd \<and> fd < MAX_FD \<and> \<not> fd_used (g_fd_table s fd) \<and> n \<le> FILE_MAX \<and> kpath \<noteq> 0 \<and>
      holds h ((slot s)(Suc (Suc fd) := kpath)) R \<and>
      s' = upd_fd fd (\<lambda>_. \<lparr>fd_path = kpath, fd_name = path, fd_size = n, fd_pos = 0, fd_used = True\<rparr>) (s\<lparr>k_fat := t, ps_heap := h\<rparr>))"
proof (cases "SysUserPtr ptr = 0")
  case True
  then have "r = EFAIL" "s' = s\<lparr>k_fat := k_fat s\<rparr>" using assms(2) by (simp_all add: sys_open_def)
  then show ?thesis by blast
next
  case False
  obtain path st t where t: "user_path ptr s = Some path" "Fat32OpenPath path (k_fat s) = Some (st, t)"
    using assms(2) False by (auto simp: sys_open_def fs_def split: Option.bind_splits)
  define v where "v = s\<lparr>k_fat := Fat32Close t\<rparr>"
  let ?n = "g_current_file_size t" and ?free = "find (\<lambda>i. \<not> fd_used (g_fd_table s i)) [0..<MAX_FD]"
  have run: "(if NT_ERROR st then Some (EFAIL, s\<lparr>k_fat := t\<rparr>)
      else if ?n > FILE_MAX then Some (EFAIL, v)
      else case ?free of None \<Rightarrow> Some (EFAIL, v)
        | Some fd \<Rightarrow> do {
            (kpath, s) \<leftarrow> km_alloc (of_nat (length path) + 1) v;
            if kpath = 0 then Some (EFAIL, s)
            else Some (of_nat fd, upd_fd fd (\<lambda>_. \<lparr>fd_path = kpath, fd_name = path, fd_size = ?n, fd_pos = 0, fd_used = True\<rparr>) s)
          }) = Some (r, s')"
    using assms(2) False t by (simp add: sys_open_def fs_def v_def Fat32GetFileSize_def Let_def fs_close_def cong: if_cong option.case_cong)
  have v: "files_ok v R" "g_fd_table v = g_fd_table s" "slot v = slot s" using assms(1) by (simp_all add: v_def)
  consider "r = EFAIL" "s' = s\<lparr>k_fat := t\<rparr> \<or> s' = v"
    | fd kpath w where "?free = Some fd" "?n \<le> FILE_MAX" "km_alloc (of_nat (length path) + 1) v = Some (kpath, w)"
      "kpath \<noteq> 0 \<longrightarrow> r = of_nat fd \<and> s' = upd_fd fd (\<lambda>_. \<lparr>fd_path = kpath, fd_name = path, fd_size = ?n, fd_pos = 0, fd_used = True\<rparr>) w"
    using run by (auto split: if_splits option.splits Option.bind_splits)
  then show ?thesis
  proof cases
    case 1
    then show ?thesis unfolding v_def by blast
  next
    case 2
    have fd: "fd < MAX_FD" "\<not> fd_used (g_fd_table s fd)" using 2(1) by (auto simp: find_Some_iff)
    have hs: "holds (ps_heap v) (slot v) R" "slot v (Suc (Suc fd)) = 0"
      using v assms(1) fd by (auto simp: files_ok_def slots fds_ok_def)
    have "length path < 256" using user_path_ok [OF t(1)] by (simp add: cwd_ok_def FAT_MAX_PATH_def)
    then have n: "unat (of_nat (length path) + 1 :: u64) = length path + 1" by (simp add: unat_word_ariths unat_of_nat take_bit_nat_eq_self)
    then have nz: "(of_nat (length path) + 1 :: u64) \<noteq> 0" by auto
    obtain h where h: "w = v\<lparr>ps_heap := h\<rparr>" "kpath \<noteq> 0" "kpath \<notin> R" "holds h (slot v) (insert kpath R)"
      using km_allocE [OF hs(1) 2(3) _ nz] n \<open>length path < 256\<close> by auto
    have "holds h ((slot v)(Suc (Suc fd) := kpath)) R" by (rule holds_put [OF h(4,3,2) hs(2)]) (simp add: slots fd)
    moreover have "s' = upd_fd fd (\<lambda>_. \<lparr>fd_path = kpath, fd_name = path, fd_size = ?n, fd_pos = 0, fd_used = True\<rparr>)
        (s\<lparr>k_fat := Fat32Close t, ps_heap := h\<rparr>)" "r = of_nat fd" using 2(4) h(1,2) by (simp_all add: v_def)
    ultimately show ?thesis using fd h(2) 2(2) unfolding v(3) by blast
  qed
qed

lemma open_ok:
  assumes "files_ok s R" "sys_open ptr s = Some (r, s')"
  shows "files_ok s' R"
  using sys_openE [OF assms] assms(1) unfolding files_ok_def
  by (elim disjE exE conjE) (simp_all add: dir_ok_def file_ok_def, auto simp: upd_fd_def fds_ok_def)

text \<open>The value of a non-negative word.\<close>

lemma sint_nonneg:
  fixes w :: u64
  assumes "0 \<le> sint w"
  shows "int (unat w) = sint w"
proof -
  have "sint w = signed_take_bit 63 (uint w)" by (simp add: sint_uint)
  then have "\<not> bit (uint w) 63" using assms by (simp add: signed_take_bit_nonnegative_iff)
  then have "sint w = take_bit 63 (uint w)" by (simp add: sint_uint signed_take_bit_eq_if_positive)
  moreover have "uint w = take_bit 64 (uint w)" using uint_lt2p [of w] by (simp add: take_bit_int_eq_self)
  moreover have "take_bit 64 (uint w) = take_bit 63 (uint w)" using \<open>\<not> bit (uint w) 63\<close> using take_bit_Suc_from_most [of 63 "uint w"] by simp
  ultimately show ?thesis by simp
qed

lemma sint_ucast32: "sint (ucast (x :: u32) :: u64) = int (unat x)"
proof -
  have "uint (ucast x :: u64) = uint x" by (simp add: unsigned_ucast_eq take_bit_int_eq_self_iff) (use uint_lt2p [of x] in simp)
  moreover have "uint x < 2 ^ 63" using uint_lt2p [of x] by simp
  moreover have "- (2 ^ 63) \<le> uint x" by (rule order_trans [of _ 0]) simp_all
  ultimately show ?thesis using signed_take_bit_int_eq_self [of 63 "uint x"] by (simp add: sint_uint)
qed

lemma seek_pos_clamps:
  fixes newpos :: u64
  assumes "n = (if whence = 0 then offset else if whence = 1 then ucast (fd_pos f) + offset
                   else if whence = 2 then ucast (fd_size f) + offset else 0)"
  shows "int (unat (seek_pos whence offset f)) = max 0 (min (int (unat (fd_size f))) (sint n))"
proof -
  define m where "m = (if sint n < 0 then 0 else n)"
  define k where "k = (if sint m > int (unat (fd_size f)) then ucast (fd_size f) else m)"
  have m: "sint m = max 0 (sint n)" by (simp add: m_def)
  have k: "sint k = min (int (unat (fd_size f))) (sint m)" by (simp add: k_def sint_ucast32)
  have "int (unat k) = sint k" by (rule sint_nonneg) (simp add: k m)
  then have ku: "int (unat k) = min (int (unat (fd_size f))) (max 0 (sint n))" by (simp add: k m)
  then have "int (unat k) \<le> int (unat (fd_size f))" by simp
  then have "unat k \<le> unat (fd_size f)" by (simp only: of_nat_le_iff)
  then have "unat k < 2 ^ 32" using unsigned_less [of "fd_size f", where 'a = nat] by simp
  then have "unat (ucast k :: u32) = unat k" by (simp add: unsigned_ucast_eq take_bit_nat_eq_self)
  moreover have "seek_pos whence offset f = ucast k"
    unfolding seek_pos_def Let_def k_def m_def assms by (simp add: if_distrib [of ucast])
  moreover have "min (int (unat (fd_size f))) (max 0 (sint n)) = max 0 (min (int (unat (fd_size f))) (sint n))" by linarith
  ultimately show ?thesis using ku by (simp only:)
qed

lemma seek_pos_bound: "seek_pos whence offset f \<le> fd_size f"
proof -
  have "int (unat (seek_pos whence offset f)) \<le> int (unat (fd_size f))"
    unfolding seek_pos_clamps [OF refl] by simp
  then show ?thesis by (simp only: of_nat_le_iff word_le_nat_alt)
qed

lemma fd_pos_ok:
  assumes "files_ok s R" "i < MAX_FD" "fd_used (g_fd_table s i)" "p \<le> fd_size (g_fd_table s i)"
  shows "files_ok (upd_fd i (\<lambda>f. f\<lparr>fd_pos := p\<rparr>) s) R"
proof -
  have "(slot s)(Suc (Suc i) := fd_path (g_fd_table s i)) = slot s" by (auto simp: slots fun_eq_iff)
  then show ?thesis using assms unfolding files_ok_def
    by (simp add: dir_ok_def file_ok_def) (auto simp: upd_fd_def fds_ok_def)
qed

lemma fd_validD: "fd_valid fd s \<Longrightarrow> fd_index fd < MAX_FD \<and> fd_used (g_fd_table s (fd_index fd))"
  by (auto simp: fd_valid_def fd_index_def)

lemma lseek_ok: "files_ok s R \<Longrightarrow> files_ok (snd (sys_lseek fd offset whence s)) R"
  by (auto simp: sys_lseek_def Let_def intro!: fd_pos_ok seek_pos_bound dest: fd_validD)

text \<open>What a read of a descriptor does to the state.\<close>

lemma sys_readE:
  assumes "sys_read fdr ptr count s = Some (r, s')" "fd_valid (ucast fdr) s"
  shows "\<exists>t m. s' = s\<lparr>k_fat := t, k_phys := m\<rparr> \<or>
    (\<exists>p. s' = upd_fd (fd_index (ucast fdr)) (\<lambda>f. f\<lparr>fd_pos := p\<rparr>) (s\<lparr>k_fat := t, k_phys := m\<rparr>) \<and>
      (fds_ok (g_fd_table s) \<longrightarrow> p \<le> fd_size (g_fd_table s (fd_index (ucast fdr)))))"
proof -
  let ?f = "g_fd_table s (fd_index (ucast fdr))"
  define n where "n = (if ucast count > fd_size ?f - fd_pos ?f then fd_size ?f - fd_pos ?f else (ucast count :: u32))"
  define body where "body = (\<lambda>s :: 'a kos_scheme. do {
      ((status, bytes), s) \<leftarrow> fs (\<lambda>t. map_option (\<lambda>(st, d, t). ((st, d), t)) (Fat32ReadFileAt (fd_name ?f) (fd_pos ?f) n t)) s;
      s \<leftarrow> stores ptr bytes s;
      Some ((status, bytes), s)
    })"
  have body: "t = u\<lparr>k_fat := k_fat t, k_phys := k_phys t\<rparr> \<and> length (snd x) \<le> unat n" if b: "body u = Some (x, t)" for u t x
  proof -
    obtain st d f v where f: "Fat32ReadFileAt (fd_name ?f) (fd_pos ?f) n (k_fat u) = Some (st, d, f)" "stores ptr d (u\<lparr>k_fat := f\<rparr>) = Some v"
      "x = (st, d)" "t = v"
      using b by (auto simp: body_def split: Option.bind_splits dest!: fsE)
    show ?thesis using Fat32ReadFileAt_length [OF f(1)] storesE [OF f(2)] f(3,4) by auto
  qed
  have run: "(if SysUserPtr ptr = 0 then Some (EFAIL, s)
      else if n > 0 then do {
        ((status, bytes), s) \<leftarrow> in_process body s;
        if NT_ERROR status then Some (EFAIL, s)
        else Some (of_nat (length bytes), upd_fd (fd_index (ucast fdr)) (\<lambda>f. f\<lparr>fd_pos := fd_pos f + of_nat (length bytes)\<rparr>) s)
      } else Some (0, s)) = Some (r, s')"
    using assms unfolding sys_read_def Let_def n_def body_def by simp
  consider "s' = s" | x u where "in_process body s = Some (x, u)"
      "s' = u \<or> s' = upd_fd (fd_index (ucast fdr)) (\<lambda>f. f\<lparr>fd_pos := fd_pos f + of_nat (length (snd x))\<rparr>) u"
    using run by (auto split: if_splits Option.bind_splits)
  then show ?thesis
  proof cases
    case 1
    then show ?thesis by (intro exI [of _ "k_fat s"] exI [of _ "k_phys s"]) simp
  next
    case 2
    have u: "u = s\<lparr>k_fat := k_fat u, k_phys := k_phys u\<rparr>" using in_process_frame [OF 2(1)] body by blast
    have len: "length (snd x) \<le> unat n"
      using 2(1) body by (auto simp: in_process_def Let_def split: if_splits)
    let ?p = "fd_pos ?f + of_nat (length (snd x))"
    have below: "?p \<le> fd_size ?f" if "fds_ok (g_fd_table s)"
    proof -
      have pos: "fd_pos ?f \<le> fd_size ?f" using that fd_validD [OF assms(2)] by (auto simp: fds_ok_def)
      have "n \<le> fd_size ?f - fd_pos ?f" by (auto simp: n_def)
      then have "unat n \<le> unat (fd_size ?f) - unat (fd_pos ?f)" using le_then_sub [OF pos] by (simp add: word_le_nat_alt)
      then have "unat (fd_pos ?f) + length (snd x) \<le> unat (fd_size ?f)" using pos len by (simp add: word_le_nat_alt)
      moreover have "unat ?p \<le> unat (fd_pos ?f) + length (snd x)"
        by (simp add: unat_word_ariths unat_of_nat)
      ultimately show ?thesis by (simp add: word_le_nat_alt)
    qed
    have moved: "upd_fd i (\<lambda>f. f\<lparr>fd_pos := fd_pos f + c\<rparr>) u = upd_fd i (\<lambda>f. f\<lparr>fd_pos := fd_pos (g_fd_table s i) + c\<rparr>) (s\<lparr>k_fat := k_fat u, k_phys := k_phys u\<rparr>)" for i c
      by (subst u) (simp add: upd_fd_def)
    from 2(2) show ?thesis
    proof
      assume "s' = u"
      then show ?thesis using u by blast
    next
      assume "s' = upd_fd (fd_index (ucast fdr)) (\<lambda>f. f\<lparr>fd_pos := fd_pos f + of_nat (length (snd x))\<rparr>) u"
      then have "s' = upd_fd (fd_index (ucast fdr)) (\<lambda>f. f\<lparr>fd_pos := ?p\<rparr>) (s\<lparr>k_fat := k_fat u, k_phys := k_phys u\<rparr>)"
        by (simp only: moved)
      then show ?thesis using below by blast
    qed
  qed
qed

lemma read_ok:
  assumes "files_ok s R" "sys_read fdr ptr count s = Some (r, s')"
  shows "files_ok s' R"
proof (cases "fd_valid (ucast fdr) s")
  case False
  then show ?thesis using assms by (simp add: sys_read_def)
next
  case True
  have "fds_ok (g_fd_table s)" using assms(1) by (simp add: files_ok_def)
  then show ?thesis using sys_readE [OF assms(2) True] assms(1) fd_validD [OF True] fd_pos_ok by fastforce
qed

section \<open>Properties\<close>

text \<open>C21: every file system call keeps the invariant, and what the calls own of the heap is what the
  tables name: the live blocks of all other components (\<open>R\<close>) are the same before and after, so no call
  leaks a block, releases a block twice or releases what it does not own.  Positions stay inside
  their files, the listing inside its array, the current directory inside its buffer.\<close>

theorem run_file_inv:
  assumes "files_ok s R" "run_file c s = Some (r, s')"
  shows "files_ok s' R"
proof (cases c)
  case Closedir
  then show ?thesis using assms drop_dir_ok [OF assms(1)] by (auto simp: sys_fs_closedir_def)
next
  case Closefile
  then show ?thesis using assms drop_file_ok [OF assms(1)] by (auto simp: sys_fs_closefile_def)
next
  case (Closefd fd)
  then show ?thesis using assms(2) closefd_ok [OF assms(1), of fd] by auto
next
  case (Lseek fd offset whence)
  then show ?thesis using assms(2) lseek_ok [OF assms(1), of fd offset whence] by simp
qed (use assms in \<open>auto intro: opendir_ok readdir_ok openfile_ok readfile_ok volume_calls_ok chdir_ok getcwd_ok open_ok read_ok\<close>)

text \<open>In a state that satisfies the invariant the calls that close something always return: the heap
  never finds the pointer corrupted or free, and what was open is closed.\<close>

lemma closing_returns:
  assumes "files_ok s R"
  shows "(\<exists>s'. sys_fs_closedir s = Some (0, s') \<and> g_dir_entries s' = 0) \<and>
    (\<exists>s'. sys_fs_closefile s = Some (0, s') \<and> g_file_data s' = 0) \<and>
    (\<exists>r s'. sys_closefd fd s = Some (r, s') \<and> \<not> fd_valid (ucast fd) s' \<and> (r = 0 \<longleftrightarrow> fd_valid (ucast fd) s))"
proof -
  obtain h where "drop_dir s = Some (s\<lparr>ps_heap := h, g_dir_entries := 0, g_dir_count := 0, g_dir_index := 0\<rparr>)"
    using drop_dir_ok [OF assms] by blast
  then have 1: "\<exists>s'. sys_fs_closedir s = Some (0, s') \<and> g_dir_entries s' = 0" by (simp add: sys_fs_closedir_def)
  obtain h where "drop_file s = Some (s\<lparr>ps_heap := h, g_file_data := 0, g_file_size := 0, g_file_pos := 0\<rparr>)"
    using drop_file_ok [OF assms] by blast
  then have 2: "\<exists>s'. sys_fs_closefile s = Some (0, s') \<and> g_file_data s' = 0" by (simp add: sys_fs_closefile_def)
  obtain r s' where r: "sys_closefd fd s = Some (r, s')" using closefd_ok [OF assms] by blast
  then have "\<not> fd_valid (ucast fd) s' \<and> (r = 0 \<longleftrightarrow> fd_valid (ucast fd) s)"
    by (auto simp: sys_closefd_def fd_valid_def upd_fd_def EFAIL_def Let_def split: if_splits Option.bind_splits)
  then show ?thesis using 1 2 r by blast
qed

text \<open>A seek moves the position to the requested one, clamped to the file: from the start, the
  current position or the end, with any signed 64-bit offset for which the sum does not overflow.\<close>

theorem sys_lseek_clamps:
  fixes fd offset whence :: u64 and s :: "'a kos_scheme"
  defines "f \<equiv> g_fd_table s (fd_index (ucast fd))"
  defines "base \<equiv> (if ucast whence = (0 :: i32) then 0 else if ucast whence = (1 :: i32) then int (unat (fd_pos f)) else int (unat (fd_size f)))"
  assumes "fd_valid (ucast fd) s" "(ucast whence :: i32) \<in> {0, 1, 2}" "base + sint offset < 2 ^ 63"
  shows "\<exists>p. sys_lseek fd offset whence s = (ucast p, upd_fd (fd_index (ucast fd)) (\<lambda>f. f\<lparr>fd_pos := p\<rparr>) s) \<and>
    int (unat p) = max 0 (min (int (unat (fd_size f))) (base + sint offset))"
proof -
  define n :: u64 where "n = (if ucast whence = (0 :: i32) then offset else if ucast whence = (1 :: i32) then ucast (fd_pos f) + offset
      else if ucast whence = (2 :: i32) then ucast (fd_size f) + offset else 0)"
  have b: "0 \<le> base" by (simp add: base_def)
  have add: "sint (ucast x + offset) = int (unat x) + sint offset" if "int (unat x) + sint offset < 2 ^ 63" for x :: u32
  proof -
    have "- (2 ^ 63) \<le> int (unat x) + sint offset" using sint_ge [of offset] by (simp add: add_increasing)
    then show ?thesis using that signed_take_bit_int_eq_self [of 63] by (simp add: sint_word_ariths(1) sint_ucast32)
  qed
  have "sint n = base + sint offset"
    using assms(4,5) add [of "fd_pos f"] add [of "fd_size f"] by (auto simp: n_def base_def split: if_splits)
  then show ?thesis using assms(3) seek_pos_clamps [OF n_def] by (simp add: sys_lseek_def f_def Let_def)
qed

text \<open>With the address space of the current process loaded, the switch of \<^verbatim>\<open>cr3\<close> changes nothing.\<close>

definition own_space :: "'a kos_scheme \<Rightarrow> bool" where
  "own_space s \<longleftrightarrow> (PsGetCurrentThread s \<noteq> 0 \<longrightarrow> th_process (thread s (PsGetCurrentThread s)) \<noteq> 0 \<longrightarrow>
     vm_cr3 (ps_vm s) = p_page_table (process s (th_process (thread s (PsGetCurrentThread s)))))"

lemma in_process_own:
  assumes "own_space s" "f s = Some (r, s')" "ps_heap s' = ps_heap s"
  shows "in_process f s = Some (r, s')"
proof -
  have "writecr3 (vm_cr3 (ps_vm s)) s = s" "writecr3 (vm_cr3 (ps_vm s)) s' = s'"
    using assms(3) by (simp_all add: writecr3_def set_vm_def flip: assms(3))
  then show ?thesis using assms(1,2) by (auto simp: in_process_def own_space_def Let_def)
qed

text \<open>C22: a read of a descriptor delivers the file.  When the path of the descriptor still opens a file of the
  recorded size, a read at a position inside it stores into the program's buffer exactly the next bytes
  of the file, as many as were asked for and are left, returns their number and moves the position
  behind them; nothing else changes but frames behind the buffer and the working state of the
  file system.\<close>

theorem sys_read_delivers:
  fixes fd ptr count :: u64 and s :: "'a kos_scheme"
  defines "i \<equiv> fd_index (ucast fd)"
  defines "fsz \<equiv> unat (fd_size (g_fd_table s i))" and "pos \<equiv> unat (fd_pos (g_fd_table s i))"
  defines "n \<equiv> min (unat (ucast count :: u32)) (fsz - pos)"
  assumes "fd_valid (ucast fd) s" "ptr \<noteq> 0" "own_space s" "fds_ok (g_fd_table s)" "n > 0"
    and "Fat32OpenPath (fd_name (g_fd_table s i)) (k_fat s) = Some (STATUS_SUCCESS, u)" "g_fat_initialized (k_fat s)" "fat_ok u"
    and "link_chain (fat_entry u) (FatEofMarker u) (g_current_cluster u) xs" "\<forall>x\<in>set xs. fat_cluster u x"
    and "fsz = unat (g_current_file_size u)" "fsz \<le> length (chain_bytes u xs)" "unat (sectors_per_cluster (g_fat u)) \<le> 128"
    and "mapped ptr n s" "unaliased ptr n s"
  shows "\<exists>s'. sys_read fd ptr count s = Some (of_nat n, s') \<and>
    loads ptr n s' = Some (take n (drop pos (take fsz (chain_bytes u xs)))) \<and>
    s' = upd_fd i (\<lambda>f. f\<lparr>fd_pos := fd_pos f + of_nat n\<rparr>) (s\<lparr>k_fat := k_fat s', k_phys := k_phys s'\<rparr>)"
proof -
  let ?f = "g_fd_table s i"
  have f: "i < MAX_FD" "fd_pos ?f \<le> fd_size ?f" "fd_size ?f \<le> FILE_MAX"
    using fd_validD [OF assms(5)] assms(8) by (auto simp: i_def fds_ok_def)
  have le: "pos \<le> fsz" "fsz \<le> 16777216" using f(2,3) by (simp_all add: fsz_def pos_def word_le_nat_alt FILE_MAX_def)
  have rem: "unat (fd_size ?f - fd_pos ?f) = fsz - pos" using le_then_sub [OF f(2)] by (simp add: fsz_def pos_def)
  define m where "m = (if ucast count > fd_size ?f - fd_pos ?f then fd_size ?f - fd_pos ?f else (ucast count :: u32))"
  have m: "unat m = n" using rem by (auto simp: m_def n_def word_less_nat_alt)
  then have mz: "m > 0" "m \<noteq> 0" using assms(9) by (auto simp: word_less_nat_alt)
  have inside: "unat (fd_pos ?f) + unat m \<le> unat (g_current_file_size u)" using le assms(15) by (simp add: m n_def flip: pos_def)
  obtain u' where r: "Fat32ReadFileAt (fd_name ?f) (fd_pos ?f) m (k_fat s) =
      Some (STATUS_SUCCESS, take n (drop pos (take fsz (chain_bytes u xs))), Fat32Close u')"
    using Fat32ReadFileAt_correct [OF assms(10-14) _ assms(17) inside mz(2)] assms(15,16) le by (auto simp: m pos_def)
  let ?d = "take n (drop pos (take fsz (chain_bytes u xs)))"
  have len: "length ?d = n" using assms(16) le by (simp add: n_def)
  let ?v = "s\<lparr>k_fat := Fat32Close u'\<rparr>"
  have "mapped ptr (length ?d) ?v" "unaliased ptr (length ?d) ?v" using assms(18,19) by (simp_all only: len mapped_def unaliased_def) simp_all
  then obtain w where w: "stores ptr ?d ?v = Some w" "loads ptr n w = Some ?d" using stores_mapped stores_loads len by (metis not_Some_eq)
  obtain k where k: "w = s\<lparr>k_fat := Fat32Close u', k_phys := k\<rparr>" using storesE [OF w(1)] by auto
  define body where "body = (\<lambda>s :: 'a kos_scheme. do {
      ((status, bytes), s) \<leftarrow> fs (\<lambda>t. map_option (\<lambda>(st, d, t). ((st, d), t)) (Fat32ReadFileAt (fd_name ?f) (fd_pos ?f) m t)) s;
      s \<leftarrow> stores ptr bytes s;
      Some ((status, bytes), s)
    })"
  have "body s = Some ((STATUS_SUCCESS, ?d), w)" using r w(1) by (simp add: body_def fs_def)
  moreover have "ps_heap w = ps_heap s" by (simp add: k)
  ultimately have b: "in_process body s = Some ((STATUS_SUCCESS, ?d), w)" by (rule in_process_own [OF assms(7)])
  have "sys_read fd ptr count s = (do {
        ((status, bytes), s) \<leftarrow> in_process body s;
        if NT_ERROR status then Some (EFAIL, s)
        else Some (of_nat (length bytes), upd_fd i (\<lambda>f. f\<lparr>fd_pos := fd_pos f + of_nat (length bytes)\<rparr>) s)
      })"
    using assms(5,6) mz(1) unfolding sys_read_def Let_def m_def body_def i_def by (simp add: SysUserPtr_def)
  then have run: "sys_read fd ptr count s = Some (of_nat n, upd_fd i (\<lambda>f. f\<lparr>fd_pos := fd_pos f + of_nat n\<rparr>) w)"
    by (simp add: b len del: length_take length_drop)
  have "loads ptr n (upd_fd i g w) = loads ptr n w" for g by (simp add: loads_eq mapped_def upd_fd_def)
  then show ?thesis using run w(2) by (simp add: k upd_fd_def)
qed

section \<open>A kernel with an open file\<close>

text \<open>Every address is mapped to the frame 0x1000; descriptor 0 is the file of \<open>fat_one\<close>, at position 600.\<close>

definition heap_user :: heap where
  "heap_user = heap_one\<lparr>hp_vm := (hp_vm heap_one)\<lparr>vm_mem := (\<lambda>_ _. 0x1003), vm_cr3 := 0x1000\<rparr>\<rparr>"

definition fd_none :: kfile_desc where
  "fd_none = \<lparr>fd_path = 0, fd_name = [], fd_size = 0, fd_pos = 0, fd_used = False\<rparr>"

definition kos_one :: kos where
  "kos_one = \<lparr>ps_heap = heap_user, process = (\<lambda>p. (two_process p)\<lparr>p_page_table := 0x1000\<rparr>), thread = two_thread,
     g_process_list = [0x1000, 0x2000], g_current_process = 0x1000, g_current_thread = 0x3000, g_next_pid = 3, g_next_tid = 3,
     tss_rsp0 = 0x5000, g_tick_count = 5, g_pit_frequency = 100, k_net = stack_small\<lparr>g_net_initialized := False\<rparr>,
     k_hda = zero_hda, k_hw = quiet_dev, k_fat = fat_one, k_kbd = kbd_zero, k_fb = fb_small, k_serial = [], k_phys = (\<lambda>_. 0),
     g_boot_info = None, g_current_directory = [47], g_dir_entries = 0, dir_list = [], g_dir_count = 0, g_dir_index = 0,
     g_file_data = 0, file_bytes = [], g_file_size = 0, g_file_pos = 0,
     g_fd_table = (\<lambda>_. fd_none)(0 := \<lparr>fd_path = 0xFFFF800000000028, fd_name = [97], fd_size = 1000, fd_pos = 600, fd_used = True\<rparr>)\<rparr>"

lemma kos_one_ok: "files_ok kos_one {}"
proof -
  have "heap_ok heap_user {(0xFFFF800000000000, 64)}"
    using heap_one_ok by (simp add: heap_ok_def heap_inv_def heap_user_def allocated_def)
  moreover have f: "slot kos_one = (\<lambda>j. if j = 2 then 0xFFFF800000000028 else 0)"
    by (rule ext) (simp add: slot_def kos_one_def fd_none_def)
  moreover have "held (\<lambda>j. if j = 2 then 0xFFFF800000000028 else 0) = {0xFFFF800000000028}"
    by (auto simp: held_def SLOTS_def MAX_FD_def image_iff intro!: bexI [of _ 2])
  ultimately have "holds (ps_heap kos_one) (slot kos_one) {}"
    unfolding holds_def f by (intro exI [of _ "{(0xFFFF800000000000, 64)}"])
      (auto simp: kos_one_def block_objects_def HEADER_SIZE_def inj_on_def)
  then show ?thesis
    by (simp add: files_ok_def) (simp add: kos_one_def fds_ok_def fd_none_def dir_ok_def file_ok_def cwd_ok_def FAT_MAX_PATH_def FILE_MAX_def)
qed

lemma kos_one_fd: "fd_valid 0 kos_one" "\<not> fd_valid 5 kos_one" "fd_index 0 = 0" "g_fd_table kos_one 0 =
    \<lparr>fd_path = 0xFFFF800000000028, fd_name = [97], fd_size = 1000, fd_pos = 600, fd_used = True\<rparr>" "k_fat kos_one = fat_one"
  by (simp_all add: fd_valid_def fd_index_def kos_one_def fd_none_def MAX_FD_def)

lemma mmu_user: "mmu (ps_vm kos_one) v = 0x1000 + (v AND 0xFFF)"
proof -
  have "get_entry (ps_vm kos_one) p i = 0x1003" for p i
    by (simp add: get_entry_def kos_one_def heap_user_def)
  then show ?thesis by (simp add: mmu_def VmmGetPhysical_def VMM_PRESENT_def VMM_HUGE_def PAGE_MASK_def)
qed

lemma kos_one_buffer: "mapped 0x10 8 kos_one" "unaliased 0x10 8 kos_one"
proof -
  have m: "mmu (ps_vm kos_one) (0x10 + of_nat i) = of_nat (0x1010 + i)" if "i < 8" for i
  proof -
    from that have "i \<in> {0, 1, 2, 3, 4, 5, 6, 7}" by auto
    then show ?thesis by (elim insertE) (simp_all add: mmu_user)
  qed
  have u: "unat (of_nat (0x1010 + i) :: u64) = 0x1010 + i" if "i < 8" for i
    using that by (simp only: unat_of_nat) (simp add: take_bit_nat_eq_self)
  show "mapped 0x10 8 kos_one" unfolding mapped_def
  proof (intro allI impI)
    fix i :: nat
    assume i: "i < 8"
    show "mmu (ps_vm kos_one) (0x10 + of_nat i) \<noteq> 0" unfolding m [OF i] using u [OF i] by (metis add_is_0 unat_0 zero_neq_numeral)
  qed
  show "unaliased 0x10 8 kos_one" unfolding unaliased_def
  proof (rule inj_onI)
    fix i j :: nat
    assume i: "i \<in> {..<8}" "j \<in> {..<8}" and eq: "mmu (ps_vm kos_one) (0x10 + of_nat i) = mmu (ps_vm kos_one) (0x10 + of_nat j)"
    have "i < 8" "j < 8" using i by simp_all
    from eq [unfolded m [OF this(1)] m [OF this(2)]] u [OF this(1)] u [OF this(2)] show "i = j" by simp
  qed
qed

theorem run_file_inv_witness:
  "\<exists>s'. run_file (Closefd 0) kos_one = Some (0, s') \<and> files_ok s' {}"
proof -
  obtain r s' where r: "sys_closefd 0 kos_one = Some (r, s')" using closefd_ok [OF kos_one_ok] by blast
  then have "r = 0" using kos_one_fd by (auto simp: sys_closefd_def Let_def split: Option.bind_splits)
  then show ?thesis using r run_file_inv [OF kos_one_ok, of "Closefd 0"] by simp
qed

theorem sys_lseek_clamps_witness:
  "\<exists>p. sys_lseek 0 5000 0 kos_one = (ucast p, upd_fd 0 (\<lambda>f. f\<lparr>fd_pos := p\<rparr>) kos_one) \<and> int (unat p) = 1000"
proof -
  have "sint (5000 :: u64) = 5000" by simp
  then show ?thesis using sys_lseek_clamps [of 0 kos_one 0 5000] kos_one_fd by simp
qed

theorem sys_read_delivers_witness:
  "\<exists>s' d. sys_read 0 0x10 8 kos_one = Some (8, s') \<and> loads 0x10 8 s' = Some d \<and> length d = 8"
proof -
  have own: "own_space kos_one" by (simp add: own_space_def kos_one_def heap_user_def PsGetCurrentThread_def)
  have g: "g_current_file_size fat_file = 1000" "unat (sectors_per_cluster (g_fat fat_file)) = 1" "g_fat_initialized fat_one"
    by (simp_all add: fat_file_def fat_opened_def fat_one_def fat_small_def)
  have fds: "fds_ok (g_fd_table kos_one)" using kos_one_ok by (simp add: files_ok_def)
  have "\<exists>s'. sys_read 0 0x10 8 kos_one = Some (of_nat 8, s') \<and>
      loads 0x10 8 s' = Some (take 8 (drop 600 (take 1000 (chain_bytes fat_file [2, 3]))))"
    using sys_read_delivers [of 0 kos_one "0x10" 8 fat_file "[2, 3]"] own fds kos_one_fd kos_one_buffer fat_file_chain
      fat_one_open [folded fat_file_def] g by fastforce
  then show ?thesis using fat_file_chain(4) by auto
qed

end
