(* ===== verification/Fat_Reads.thy ===== *)
theory Fat_Reads
  imports Fat_ReadAt
begin

text \<open>
  Opening, listing and reading leave the volume alone: the disk, the mounted geometry and the allocation hint are the same
  afterwards, whatever the outcome. What changes is the working state: the sector buffer and the current file.
\<close>

definition volume :: "fat \<Rightarrow> fat_info \<times> bool \<times> u32 \<times> (u64 \<Rightarrow> buf)" where
  "volume s = (g_fat s, g_fat_initialized s, g_last_allocated_cluster s, disk s)"

lemma volume_upd [simp]:
  "volume (s\<lparr>g_current_cluster := c\<rparr>) = volume s" "volume (s\<lparr>g_current_file_size := n\<rparr>) = volume s"
  "volume (s\<lparr>g_current_is_directory := d\<rparr>) = volume s" "volume (fat_set_buf b s) = volume s" "volume (s\<lparr>smashed := x\<rparr>) = volume s"
  "volume (Fat32Close s) = volume s"
  by (simp_all add: volume_def Fat32Close_def)

lemma volume_read_g [simp]: "volume (snd (read_g k s)) = volume s"
  by (simp add: read_g_def Let_def case_prod_unfold)

lemma volume_FatGetFatEntry [simp]: "volume (snd (FatGetFatEntry c s)) = volume s"
  by (simp add: FatGetFatEntry_def read_g_def Let_def case_prod_unfold volume_def split: fat_type.split)

lemma volume_FatNextCluster [simp]: "volume (snd (FatNextCluster c s)) = volume s"
  by (simp add: FatNextCluster_def Let_def case_prod_unfold)

lemma volume_Fat32OpenRoot [simp]: "volume (snd (Fat32OpenRoot s)) = volume s"
  by (simp add: Fat32OpenRoot_def volume_def)

lemma volume_readdir_sectors:
  "case fold_until (readdir_sector limit base) ks (st, s) of
     Inl r \<Rightarrow> volume (snd (snd r)) = volume s | Inr sts \<Rightarrow> volume (snd sts) = volume s"
  by (rule fold_until_inv [where P = "\<lambda>sts. volume (snd sts) = volume s"])
    (auto simp: readdir_sector_def Let_def case_prod_unfold split: sum.split)

lemma volume_readdir_chain: "readdir_chain limit cluster st s = Some r \<Longrightarrow> volume (snd (snd r)) = volume s"
proof (rule readdir_chain.raw_induct [where P = "\<lambda>limit cluster st s r. volume (snd (snd r)) = volume s", rotated], assumption)
  fix rd limit cluster st s r
  assume IH: "\<And>limit cluster st s r. rd limit cluster st s = Some r \<Longrightarrow> volume (snd (snd r)) = volume s"
    and run: "(if \<not> length (snd (snd st)) < limit \<or> cluster = 0 \<or> 268435448 \<le> cluster
      then Some (STATUS_SUCCESS, snd (snd st), s)
      else let sector_base = FatClusterToSector cluster s; (next, s1) = FatNextCluster cluster s
           in case fold_until (readdir_sector limit sector_base) [0..<unat (sectors_per_cluster (g_fat s1))] (st, s1) of
                Inl r \<Rightarrow> Some r | Inr sts \<Rightarrow> rd limit next (fst sts) (snd sts)) = Some r"
  show "volume (snd (snd r)) = volume s"
    using run volume_readdir_sectors [where limit = limit and base = "FatClusterToSector cluster s"
        and ks = "[0..<unat (sectors_per_cluster (g_fat (snd (FatNextCluster cluster s))))]" and st = st and s = "snd (FatNextCluster cluster s)"]
    by (auto simp: Let_def case_prod_unfold dest: IH split: if_splits sum.splits)
qed

lemma volume_Fat32ReadDir: "Fat32ReadDir limit s = Some r \<Longrightarrow> volume (snd (snd r)) = volume s"
  using volume_readdir_sectors [where limit = limit and base = "root_dir_start_sector (g_fat s)"
      and ks = "[0..<unat (root_dir_sectors (g_fat s))]" and st = "(False, \<lambda>_. 0, [])" and s = s]
    volume_readdir_chain [of limit "g_current_cluster s" "(False, \<lambda>_. 0, [])" s r]
  by (auto simp: Fat32ReadDir_def split: if_splits sum.splits)

lemma volume_open_components: "open_components p s = Some r \<Longrightarrow> volume (snd r) = volume s"
proof (induction p s rule: open_components.induct)
  case (1 p s)
  show ?case
  proof (cases "p = []")
    case True
    then show ?thesis using "1.prems" by (auto simp: open_components.simps)
  next
    case p: False
    show ?thesis
    proof (cases "fst (next_component p) = []")
      case True
      then show ?thesis using "1.IH"(1) [OF p refl refl True] "1.prems" p by (simp add: open_components.simps [of p])
    next
      case c: False
      obtain st es u where l: "Fat32ReadDir 64 s = Some (st, es, u)"
        using "1.prems" p c by (auto simp: open_components.simps [of p] Let_def split: option.splits)
      have u: "volume u = volume s" using volume_Fat32ReadDir [OF l] by simp
      show ?thesis
      proof (cases "NT_ERROR st \<or> find (entry_matches (fst (next_component p))) es = None")
        case True
        then show ?thesis using "1.prems" p c l u by (auto simp: open_components.simps [of p] Let_def split: if_splits)
      next
        case False
        then obtain e where e: "\<not> NT_ERROR st" "find (entry_matches (fst (next_component p))) es = Some e" by auto
        note IH = "1.IH"(2) [OF p refl refl c l refl refl e refl]
        show ?thesis using "1.prems" p c l e u IH by (cases "is_directory e") (auto simp: open_components.simps [of p] Let_def)
      qed
    qed
  qed
qed

lemma volume_Fat32OpenPath: "Fat32OpenPath path s = Some r \<Longrightarrow> volume (snd r) = volume s"
  by (auto simp: Fat32OpenPath_def Let_def case_prod_unfold split: if_splits dest!: volume_open_components)

lemma volume_read_sectors:
  "case fold_until (read_sector base) ks (out, n, s) of
     Inl r \<Rightarrow> volume (snd (snd r)) = volume s | Inr st \<Rightarrow> volume (snd (snd st)) = volume s"
  by (rule fold_until_inv [where P = "\<lambda>st. volume (snd (snd st)) = volume s"])
    (auto simp: read_sector_def Let_def case_prod_unfold)

lemma volume_read_chain: "read_chain cluster st = Some r \<Longrightarrow> volume (snd (snd r)) = volume (snd (snd st))"
proof (rule read_chain.raw_induct [where P = "\<lambda>cluster st r. volume (snd (snd r)) = volume (snd (snd st))", rotated], assumption)
  fix rc cluster st r
  assume IH: "\<And>cluster st r. rc cluster st = Some r \<Longrightarrow> volume (snd (snd r)) = volume (snd (snd st))"
    and run: "(let (out, remaining, s) = st in
      if cluster \<noteq> 0 \<and> cluster < 268435448 \<and> 0 < remaining then
        (case fold_until (read_sector (FatClusterToSector cluster s)) [0..<unat (sectors_per_cluster (g_fat s))] st of
           Inl r \<Rightarrow> Some r
         | Inr (out', remaining', s1) \<Rightarrow> (let (next, s2) = FatNextCluster cluster s1 in rc next (out', remaining', s2)))
      else Some (STATUS_SUCCESS, out, s)) = Some r"
  obtain out n s where st: "st = (out, n, s)" by (metis prod_cases3)
  show "volume (snd (snd r)) = volume (snd (snd st))"
    using run volume_read_sectors [where base = "FatClusterToSector cluster s" and ks = "[0..<unat (sectors_per_cluster (g_fat s))]" and out = out and n = n and s = s]
    by (auto simp: st Let_def case_prod_unfold dest: IH split: if_splits sum.splits)
qed

lemma volume_Fat32ReadFile: "Fat32ReadFile s = Some r \<Longrightarrow> volume (snd (snd r)) = volume s"
  by (auto simp: Fat32ReadFile_def split: if_splits dest!: volume_read_chain)

lemma volume_skip_clusters: "skip_clusters offset n pos cluster s = Some r \<Longrightarrow> volume (snd (snd r)) = volume s"
proof (rule skip_clusters.raw_induct [where P = "\<lambda>offset size pos cluster s r. volume (snd (snd r)) = volume s", rotated], assumption)
  fix sk offset n pos cluster s r
  assume IH: "\<And>offset n pos cluster s r. sk offset n pos cluster s = Some r \<Longrightarrow> volume (snd (snd r)) = volume s"
    and run: "(if cluster \<noteq> 0 \<and> cluster < 268435448 \<and> pos + n \<le> offset then
        (let (next, s1) = FatNextCluster cluster s in sk offset n (pos + n) next s1)
      else Some (pos, cluster, s)) = Some r"
  show "volume (snd (snd r)) = volume s"
    using run by (auto simp: Let_def case_prod_unfold dest!: IH split: if_splits)
qed

lemma volume_read_at_sectors:
  "case fold_until (read_at_sector base) ks (out, n, skip, s) of
     Inl r \<Rightarrow> volume (snd (snd r)) = volume s | Inr st \<Rightarrow> volume (snd (snd (snd st))) = volume s"
  by (rule fold_until_inv [where P = "\<lambda>st. volume (snd (snd (snd st))) = volume s"])
    (auto simp: read_at_sector_def Let_def case_prod_unfold)

lemma volume_read_at_chain: "read_at_chain cluster st = Some r \<Longrightarrow> volume (snd (snd r)) = volume (snd (snd (snd st)))"
proof (rule read_at_chain.raw_induct [where P = "\<lambda>cluster st r. volume (snd (snd r)) = volume (snd (snd (snd st)))", rotated], assumption)
  fix rc cluster st r
  assume IH: "\<And>cluster st r. rc cluster st = Some r \<Longrightarrow> volume (snd (snd r)) = volume (snd (snd (snd st)))"
    and run: "(let (out, to_read, skip, s) = st in
      if cluster \<noteq> 0 \<and> cluster < 268435448 \<and> 0 < to_read then
        (case fold_until (read_at_sector (FatClusterToSector cluster s)) [0..<unat (sectors_per_cluster (g_fat s))] st of
           Inl r \<Rightarrow> Some r
         | Inr (out', to_read', skip', s1) \<Rightarrow> (let (next, s2) = FatNextCluster cluster s1 in rc next (out', to_read', skip', s2)))
      else Some (STATUS_SUCCESS, out, Fat32Close s)) = Some r"
  obtain out n skip s where st: "st = (out, n, skip, s)" by (metis prod_cases4)
  show "volume (snd (snd r)) = volume (snd (snd (snd st)))"
    using run volume_read_at_sectors [where base = "FatClusterToSector cluster s" and ks = "[0..<unat (sectors_per_cluster (g_fat s))]"
        and out = out and n = n and skip = skip and s = s]
    by (auto simp: st Let_def case_prod_unfold dest: IH split: if_splits sum.splits)
qed

lemma volume_Fat32ReadFileAt: "Fat32ReadFileAt path offset count s = Some r \<Longrightarrow> volume (snd (snd r)) = volume s"
  by (auto simp: Fat32ReadFileAt_def Let_def split: if_splits option.splits prod.splits
      dest!: volume_Fat32OpenPath volume_skip_clusters volume_read_at_chain)

end
