(* ===== verification/Sys_Files_Fail.thy ===== *)
theory Sys_Files_Fail
  imports Sys_Files_Inv Fat_Reads
begin

text \<open>
  What the file system calls of \<^verbatim>\<open>Kernel/arch/syscall.c\<close> leave behind when they report failure.
\<close>

section \<open>The state after a failed call\<close>

text \<open>The frames behind a buffer of the current process.\<close>

definition process_space :: "'a kos_scheme \<Rightarrow> 'a kos_scheme" where
  "process_space s =
    (let t = PsGetCurrentThread s
     in if t \<noteq> 0 \<and> th_process (thread s t) \<noteq> 0 then writecr3 (p_page_table (process s (th_process (thread s t)))) s else s)"

definition behind :: "u64 \<Rightarrow> nat \<Rightarrow> 'a kos_scheme \<Rightarrow> u64 set" where
  "behind ptr n s = (\<lambda>i. mmu (ps_vm (process_space s)) (ptr + of_nat i)) ` {..<n}"

text \<open>
  Per call: what may differ. A call that only looks keeps the volume; a call that opens a listing or a file has given up the
  old one; closing and asking for the size do not fail.
\<close>

fun after_failure :: "file_call \<Rightarrow> 'a kos_scheme \<Rightarrow> 'a kos_scheme \<Rightarrow> bool" where
  "after_failure (Opendir ptr) s s' \<longleftrightarrow> volume (k_fat s') = volume (k_fat s) \<and>
     s' = s\<lparr>k_fat := k_fat s', ps_heap := ps_heap s', g_dir_entries := 0, g_dir_count := 0, g_dir_index := 0\<rparr>"
| "after_failure (Openfile ptr) s s' \<longleftrightarrow> volume (k_fat s') = volume (k_fat s) \<and>
     s' = s\<lparr>k_fat := k_fat s', ps_heap := ps_heap s', g_file_data := 0, g_file_size := 0, g_file_pos := 0\<rparr>"
| "after_failure (Open ptr) s s' \<longleftrightarrow> volume (k_fat s') = volume (k_fat s) \<and> s' = s\<lparr>k_fat := k_fat s'\<rparr>"
| "after_failure (Chdir ptr) s s' \<longleftrightarrow> volume (k_fat s') = volume (k_fat s) \<and> s' = s\<lparr>k_fat := k_fat s'\<rparr>"
| "after_failure (Read fd ptr n) s s' \<longleftrightarrow> volume (k_fat s') = volume (k_fat s) \<and> s' = s\<lparr>k_fat := k_fat s', k_phys := k_phys s'\<rparr> \<and>
     (\<forall>p. p \<notin> behind ptr (unat (ucast n :: u32)) s \<longrightarrow> k_phys s' p = k_phys s p)"
| "after_failure (Writefile ptr src n) s s' \<longleftrightarrow> s' = s\<lparr>k_fat := k_fat s'\<rparr>"
| "after_failure (Delete ptr) s s' \<longleftrightarrow> s' = s\<lparr>k_fat := k_fat s'\<rparr>"
| "after_failure (Mkdir ptr) s s' \<longleftrightarrow> s' = s\<lparr>k_fat := k_fat s'\<rparr>"
| "after_failure Closedir s s' \<longleftrightarrow> False"
| "after_failure Closefile s s' \<longleftrightarrow> False"
| "after_failure Filesize s s' \<longleftrightarrow> False"
| "after_failure c s s' \<longleftrightarrow> s' = s"

lemma km_alloc_frame: "km_alloc n s = Some (p, s') \<Longrightarrow> \<exists>h. s' = s\<lparr>ps_heap := h\<rparr>"
  by (auto simp: km_alloc_def)

lemma ps_free_frame: "ps_free p s = Some s' \<Longrightarrow> \<exists>h. s' = s\<lparr>ps_heap := h\<rparr>"
  by (auto simp: ps_free_def)

lemma open_path_frame:
  assumes "fs (Fat32OpenPath path) s = Some (st, s')"
  shows "\<exists>t. s' = s\<lparr>k_fat := t\<rparr> \<and> volume t = volume (k_fat s)"
proof -
  obtain t where t: "Fat32OpenPath path (k_fat s) = Some (st, t)" "s' = s\<lparr>k_fat := t\<rparr>" using fsE [OF assms] by blast
  show ?thesis using t(2) volume_Fat32OpenPath [OF t(1)] by (intro exI [of _ t]) simp
qed

lemma open_dir_frame:
  assumes "open_dir ptr s = Some (st, s')"
  shows "\<exists>t. s' = s\<lparr>k_fat := t\<rparr> \<and> volume t = volume (k_fat s)"
proof -
  consider path where "fs (Fat32OpenPath path) s = Some (st, s')" | "fs (\<lambda>f. Some (Fat32OpenRoot f)) s = Some (st, s')"
    using assms by (auto simp: open_dir_def split: if_splits Option.bind_splits)
  then show ?thesis
  proof cases
    case 2
    then obtain t where t: "Fat32OpenRoot (k_fat s) = (st, t)" "s' = s\<lparr>k_fat := t\<rparr>" using fsE [OF 2] by auto
    show ?thesis using t(2) volume_Fat32OpenRoot [of "k_fat s"] by (intro exI [of _ t]) (simp add: t(1))
  qed (rule open_path_frame)
qed

lemma EFAIL_ucast: "EFAIL \<noteq> ucast (p :: u32)"
proof
  assume "EFAIL = ucast p"
  moreover have "EFAIL = 0xFFFFFFFFFFFFFFFF" by (simp add: EFAIL_def)
  ultimately have "unat (ucast p :: u64) = unat (0xFFFFFFFFFFFFFFFF :: u64)" by (simp only:)
  then show False using unsigned_less [of p, where 'a = nat] by (simp add: unsigned_ucast_eq take_bit_nat_eq_self)
qed

lemma EFAIL_small: "i < 2 ^ 32 \<Longrightarrow> EFAIL \<noteq> of_nat i"
proof
  assume "i < 2 ^ 32" "EFAIL = of_nat i"
  then have "EFAIL = ucast (of_nat i :: u32)" by (simp add: unsigned_of_nat take_bit_nat_eq_self)
  then show False using EFAIL_ucast by blast
qed

lemma EFAIL_0: "EFAIL \<noteq> 0" "EFAIL \<noteq> 1"
  by (simp_all add: EFAIL_def)

lemma opendir_fails:
  assumes "files_ok s R" "sys_fs_opendir ptr s = Some (EFAIL, s')"
  shows "after_failure (Opendir ptr) s s'"
proof -
  obtain h where d: "drop_dir s = Some (s\<lparr>ps_heap := h, g_dir_entries := 0, g_dir_count := 0, g_dir_index := 0\<rparr>)"
    using drop_dir_ok [OF assms(1)] by blast
  show ?thesis
    using assms(2) EFAIL_0
    by (auto simp: sys_fs_opendir_def d fs_close_def Let_def dest!: open_dir_frame km_alloc_frame fsE volume_Fat32ReadDir ps_free_frame
        split: if_splits Option.bind_splits)
qed

lemma fill_file_fails:
  assumes "fill_file n s = Some (EFAIL, s')"
  shows "volume (k_fat s') = volume (k_fat s) \<and> s' = s\<lparr>k_fat := k_fat s', ps_heap := ps_heap s', g_file_data := 0\<rparr>"
proof -
  obtain p w where w: "km_alloc (ucast n) s = Some (p, w)" using assms by (auto simp: fill_file_def split: Option.bind_splits)
  then obtain h where h: "w = s\<lparr>ps_heap := h\<rparr>" using km_alloc_frame by blast
  show ?thesis
  proof (cases "p = 0")
    case True
    then show ?thesis using assms w h by (auto simp: fill_file_def fs_close_def)
  next
    case False
    obtain st d f where f: "Fat32ReadFile (k_fat s) = Some (st, d, f)"
      using assms w h False by (auto simp: fill_file_def fs_def Let_def split: Option.bind_splits)
    note v = volume_Fat32ReadFile [OF f]
    have "NT_ERROR st" using assms w h False f EFAIL_0 by (auto simp: fill_file_def fs_def Let_def split: if_splits)
    then obtain u where u: "ps_free p (s\<lparr>ps_heap := h, g_file_data := p, k_fat := Fat32Close f\<rparr>) = Some u" "s' = u\<lparr>g_file_data := 0\<rparr>"
      using assms w h False f by (auto simp: fill_file_def fs_def fs_close_def Let_def)
    obtain h' where "u = s\<lparr>ps_heap := h, g_file_data := p, k_fat := Fat32Close f\<rparr>\<lparr>ps_heap := h'\<rparr>" using ps_free_frame [OF u(1)] by blast
    then show ?thesis using u(2) v by simp
  qed
qed

lemma openfile_fails:
  assumes "files_ok s R" "sys_fs_openfile ptr s = Some (EFAIL, s')"
  shows "after_failure (Openfile ptr) s s'"
proof -
  obtain h where d: "drop_file s = Some (s\<lparr>ps_heap := h, g_file_data := 0, g_file_size := 0, g_file_pos := 0\<rparr>)"
    using drop_file_ok [OF assms(1)] by blast
  define u where "u = s\<lparr>ps_heap := h, g_file_data := 0, g_file_size := 0, g_file_pos := 0\<rparr>"
  show ?thesis
  proof (cases "SysUserPtr ptr = 0")
    case True
    then show ?thesis using assms(2) by (auto simp: sys_fs_openfile_def d)
  next
    case False
    obtain path st t where p: "user_path ptr u = Some path" "Fat32OpenPath path (k_fat u) = Some (st, t)"
      using assms(2) False by (auto simp: sys_fs_openfile_def d u_def fs_def split: Option.bind_splits)
    define v where "v = u\<lparr>k_fat := t\<rparr>"
    have t: "v = u\<lparr>k_fat := t\<rparr>" "volume t = volume (k_fat u)" using volume_Fat32OpenPath [OF p(2)] by (simp_all add: v_def)
    let ?n = "g_current_file_size t"
    have run: "(if \<not> NT_SUCCESS st then Some (EFAIL, v)
        else if ?n > FILE_MAX then Some (EFAIL, fs_close v)
        else if ?n = 0 then do {
               (p, s) \<leftarrow> km_alloc 1 v;
               Some (0, fs_close (s\<lparr>g_file_data := p, file_bytes := [], g_file_size := 0\<rparr>))
             } else fill_file ?n v) = Some (EFAIL, s')"
      using assms(2) False p d by (simp add: u_def [symmetric] sys_fs_openfile_def fs_def v_def Fat32GetFileSize_def Let_def cong: if_cong)
    have "(s' = v \<or> s' = fs_close v) \<or> fill_file ?n v = Some (EFAIL, s')"
      using run EFAIL_0 by (auto split: if_splits Option.bind_splits)
    then consider "s' = v" | "s' = fs_close v" | "fill_file ?n v = Some (EFAIL, s')" by blast
    then show ?thesis
    proof cases
      case 3
      note f = fill_file_fails [OF 3]
      obtain a b where "s' = v\<lparr>k_fat := a, ps_heap := b, g_file_data := 0\<rparr>" using f by blast
      moreover have "volume (k_fat s') = volume (k_fat s)" using conjunct1 [OF f] t(2) by (simp add: t(1) u_def)
      ultimately show ?thesis by (simp add: t(1) u_def)
    qed (use t(2) in \<open>simp_all add: t(1) u_def fs_close_def\<close>)
  qed
qed

lemma read_fails:
  assumes "sys_read fdr ptr count s = Some (EFAIL, s')"
  shows "after_failure (Read fdr ptr count) s s'"
proof (cases "fd_valid (ucast fdr) s \<and> ptr \<noteq> 0")
  case False
  then have "\<not> fd_valid (ucast fdr) s \<or> SysUserPtr ptr = 0" by (auto simp: SysUserPtr_def)
  then have "s' = s" using assms by (auto simp: sys_read_def Let_def split: if_splits)
  then show ?thesis by simp
next
  case True
  let ?f = "g_fd_table s (fd_index (ucast fdr))"
  define n where "n = (if ucast count > fd_size ?f - fd_pos ?f then fd_size ?f - fd_pos ?f else (ucast count :: u32))"
  define body where "body = (\<lambda>s :: 'a kos_scheme. do {
      ((status, bytes), s) \<leftarrow> fs (\<lambda>t. map_option (\<lambda>(st, d, t). ((st, d), t)) (Fat32ReadFileAt (fd_name ?f) (fd_pos ?f) n t)) s;
      s \<leftarrow> stores ptr bytes s;
      Some ((status, bytes), s)
    })"
  have nc: "unat n \<le> unat (ucast count :: u32)" by (auto simp: n_def word_less_nat_alt)
  have run: "(if n > 0 then do {
        ((status, bytes), s) \<leftarrow> in_process body s;
        if NT_ERROR status then Some (EFAIL, s)
        else Some (of_nat (length bytes), upd_fd (fd_index (ucast fdr)) (\<lambda>f. f\<lparr>fd_pos := fd_pos f + of_nat (length bytes)\<rparr>) s)
      } else Some (0, s)) = Some (EFAIL, s')"
    using assms True unfolding sys_read_def Let_def n_def body_def by (simp add: SysUserPtr_def)
  have body: "\<exists>t m. v = u\<lparr>k_fat := t, k_phys := m\<rparr> \<and> volume t = volume (k_fat u) \<and> length (snd x) \<le> unat n \<and>
      (\<forall>p. (\<forall>i<unat n. mmu (ps_vm u) (ptr + of_nat i) \<noteq> p) \<longrightarrow> m p = k_phys u p)" if b: "body u = Some (x, v)" for u v x
  proof -
    obtain st d f where f: "Fat32ReadFileAt (fd_name ?f) (fd_pos ?f) n (k_fat u) = Some (st, d, f)" "stores ptr d (u\<lparr>k_fat := f\<rparr>) = Some v"
      "x = (st, d)"
      using b by (auto simp: body_def split: Option.bind_splits dest!: fsE)
    have len: "length d \<le> unat n" by (rule Fat32ReadFileAt_length [OF f(1)])
    obtain m where m: "v = u\<lparr>k_fat := f, k_phys := m\<rparr>" using storesE [OF f(2)] by auto
    have "m p = k_phys u p" if "\<forall>i<unat n. mmu (ps_vm u) (ptr + of_nat i) \<noteq> p" for p
      using stores_other [OF f(2), of p] that len by (simp add: m)
    then show ?thesis using m f(3) len volume_Fat32ReadFileAt [OF f(1)] by auto
  qed
  obtain x u where xu: "in_process body s = Some (x, u)" using run EFAIL_0 by (auto split: if_splits Option.bind_splits)
  then obtain v where v: "body (process_space s) = Some (x, v)" "u = (if process_space s = s then v else writecr3 (vm_cr3 (ps_vm s)) v) \<or> u = writecr3 (vm_cr3 (ps_vm s)) v"
    by (auto simp: in_process_def process_space_def Let_def split: if_splits)
  obtain t m where b: "v = (process_space s)\<lparr>k_fat := t, k_phys := m\<rparr>" "volume t = volume (k_fat (process_space s))" "length (snd x) \<le> unat n"
    "\<forall>p. (\<forall>i<unat n. mmu (ps_vm (process_space s)) (ptr + of_nat i) \<noteq> p) \<longrightarrow> m p = k_phys (process_space s) p"
    using body [OF v(1)] by blast
  have sp: "k_fat (process_space s) = k_fat s" "k_phys (process_space s) = k_phys s"
    by (simp_all add: process_space_def Let_def writecr3_def set_vm_def)
  have "u = s\<lparr>k_fat := k_fat u, k_phys := k_phys u\<rparr>"
  proof (rule in_process_frame [OF xu])
    fix a b
    assume "body a = Some (x, b)"
    then obtain t m where "b = a\<lparr>k_fat := t, k_phys := m\<rparr>" using body by blast
    then show "b = a\<lparr>k_fat := k_fat b, k_phys := k_phys b\<rparr>" by simp
  qed
  moreover have "k_fat u = t" "k_phys u = m" using v(2) b(1) by (auto simp: writecr3_def set_vm_def split: if_splits)
  moreover have "s' = u"
    using run xu b(3) EFAIL_small [of "length (snd x)"] unsigned_less [of n, where 'a = nat] EFAIL_0 by (auto split: if_splits prod.splits)
  moreover have "m p = k_phys s p" if "p \<notin> behind ptr (unat (ucast count :: u32)) s" for p
    using b(4) that nc unfolding sp behind_def by (metis (no_types, lifting) image_eqI lessThan_iff order_less_le_trans)
  ultimately show ?thesis using b(2) sp by simp
qed

text \<open>C23: after any file system call that reports failure, what may differ is exactly what \<open>after_failure\<close> names. No
  descriptor, position, current directory or block kept by the tables changes and no memory of the program, but for the buffer
  of a failed read; a call that only looks (opening, listing, reading, changing the directory) leaves the disk, the mounted
  geometry and the allocation hint as they were, so only the sector buffer and the current file of the file system are
  different; opening a listing or a file has released the old one. Deleting, writing and making a directory may have changed
  the volume before they failed, and nothing else. Closing a listing or file and asking for the size never fail.\<close>

theorem file_call_fails:
  assumes "files_ok s R" "run_file c s = Some (EFAIL, s')"
  shows "after_failure c s s'"
proof (cases c)
  case (Open ptr)
  have "MAX_FD < 2 ^ 32" by (simp add: MAX_FD_def)
  then have small: "EFAIL \<noteq> of_nat fd" if "fd < MAX_FD" for fd using EFAIL_small [of fd] that by simp
  obtain t where "s' = s\<lparr>k_fat := t\<rparr>" using sys_openE [OF assms(1), of ptr EFAIL s'] assms(2) small by (auto simp: Open)
  moreover have "volume (k_fat s') = volume (k_fat s)"
    using assms(2) by (auto simp: Open sys_open_def fs_close_def upd_fd_def Let_def dest!: open_path_frame km_alloc_frame
        split: if_splits Option.bind_splits option.splits)
  ultimately show ?thesis by (simp add: Open)
next
  case (Chdir ptr)
  then show ?thesis
    using assms(2) EFAIL_0 by (auto simp: sys_chdir_def fs_close_def dest!: open_path_frame split: if_splits Option.bind_splits)
next
  case (Readdir ptr)
  then show ?thesis using assms(2) EFAIL_0 by (auto simp: sys_fs_readdir_def Let_def split: if_splits Option.bind_splits)
next
  case (Readfile ptr n)
  then show ?thesis using assms(2) EFAIL_ucast [THEN not_sym] by (auto simp: sys_fs_readfile_def Let_def split: if_splits Option.bind_splits)
next
  case (Getcwd ptr n)
  then show ?thesis using assms(2) EFAIL_0 by (auto simp: sys_getcwd_def Let_def split: if_splits)
next
  case (Lseek fd offset whence)
  then show ?thesis using assms(2) EFAIL_ucast [THEN not_sym] by (auto simp: sys_lseek_def Let_def split: if_splits)
next
  case (Closefd fd)
  then show ?thesis using assms(2) EFAIL_0 by (auto simp: sys_closefd_def Let_def split: if_splits Option.bind_splits)
next
  case (Writefile ptr src n)
  then show ?thesis using assms(2) by (auto simp: sys_fs_writefile_def dest!: fsE split: if_splits Option.bind_splits)
next
  case (Delete ptr)
  then show ?thesis using assms(2) by (auto simp: sys_fs_delete_def dest!: fsE split: if_splits Option.bind_splits)
next
  case (Mkdir ptr)
  then show ?thesis using assms(2) by (auto simp: sys_fs_mkdir_def dest!: fsE split: if_splits Option.bind_splits)
next
  case Filesize
  then show ?thesis using assms(2) EFAIL_ucast [THEN not_sym] by (auto simp: sys_fs_filesize_def)
next
  case Closedir
  then show ?thesis using assms(2) EFAIL_0 by (auto simp: sys_fs_closedir_def)
next
  case Closefile
  then show ?thesis using assms(2) EFAIL_0 by (auto simp: sys_fs_closefile_def)
next
  case (Opendir ptr)
  then show ?thesis using opendir_fails [OF assms(1)] assms(2) unfolding Opendir run_file.simps by blast
next
  case (Openfile ptr)
  then show ?thesis using openfile_fails [OF assms(1)] assms(2) unfolding Openfile run_file.simps by blast
next
  case (Read fd ptr n)
  then show ?thesis using read_fails assms(2) unfolding Read run_file.simps by blast
qed


text \<open>The path \<^verbatim>\<open>b\<close> lies at 0x10 in the memory of the program; the volume has only the file \<^verbatim>\<open>a\<close>.\<close>

definition kos_miss :: kos where
  "kos_miss = kos_one\<lparr>k_phys := (\<lambda>_. 0)(0x1010 := 98)\<rparr>"

lemma kos_miss_path: "user_path 0x10 kos_miss = Some [47, 98]"
proof -
  have "load 0x10 kos_miss = Some 98" "load 0x11 kos_miss = Some 0"
    by (simp_all add: load_def kos_miss_def mmu_user)
  moreover have "(255 :: nat) = Suc 254" by simp
  ultimately have "path_bytes 255 0x10 kos_miss = Some [98]"
    by (simp add: path_bytes.simps [of _ "0x10"] path_bytes.simps [of _ "0x11"] del: Suc_numeral)
  moreover have "SysResolvePath [47] (Some [98]) = [47, 98]" by code_simp
  moreover have "g_current_directory kos_miss = [47]" by (simp add: kos_miss_def kos_one_def)
  ultimately show ?thesis by (simp add: user_path_def FAT_MAX_PATH_def SysUserPtr_def)
qed

lemma kos_miss_open: "Fat32OpenPath [47, 98] (k_fat kos_miss) = Some (STATUS_NO_SUCH_FILE, fat_opened\<lparr>g_current_cluster := 0, g_current_file_size := 0, g_current_is_directory := True\<rparr>)"
proof -
  have "g_fat_initialized fat_one" "ftype (g_fat fat_one) = FAT_TYPE_16" by (simp_all add: fat_one_def fat_small_def)
  moreover have "str_compareI [97] [98] \<noteq> 0" "FatGenerateShortName [97] \<noteq> FatGenerateShortName [98]" by code_simp+
  moreover have "k_fat kos_miss = fat_one" by (simp add: kos_miss_def kos_one_fd)
  ultimately show ?thesis
    by (simp add: Fat32OpenPath_def path_sep_def Fat32OpenRoot_def open_components.simps [of "[98]"] next_component_def fat_one_readdir entry_matches_def)
qed

theorem file_call_fails_witness:
  "\<exists>s'. run_file (Open 0x10) kos_miss = Some (EFAIL, s') \<and> volume (k_fat s') = volume fat_one \<and> s' = kos_miss\<lparr>k_fat := k_fat s'\<rparr>"
proof -
  have "files_ok kos_miss {}" using kos_one_ok by (simp add: kos_miss_def)
  moreover obtain s' where s': "run_file (Open 0x10) kos_miss = Some (EFAIL, s')"
    using kos_miss_path kos_miss_open by (simp add: sys_open_def SysUserPtr_def fs_def NT_SUCCESS_def status_simps)
  ultimately have "after_failure (Open 0x10) kos_miss s'" by (rule file_call_fails)
  then show ?thesis using s' by (simp add: kos_miss_def kos_one_fd)
qed

end
