(* ===== verification/Pe_Loader.thy ===== *)
theory Pe_Loader
  imports User_Mem
begin

text \<open>
  The program loader (\<^verbatim>\<open>Kernel/loader/pe_loader.c\<close>): a PE32+ file becomes a process.  The headers are
  read at the offsets of the packed structures; the file buffer is the file and behind it whatever
  the memory holds (\<open>past\<close>), for nothing the headers say is checked against the size of the file.
  The lines that only print (the data directories, the imports, the first bytes of the second
  section) are left out.
\<close>

section \<open>Headers\<close>

definition PE_DOS_MAGIC :: u16 where "PE_DOS_MAGIC = 0x5A4D"
definition PE_SIGNATURE :: u32 where "PE_SIGNATURE = 0x00004550"
definition PE32P_MAGIC :: u16 where "PE32P_MAGIC = 0x020B"

definition file_buffer :: "u8 list \<Rightarrow> (nat \<Rightarrow> u8) \<Rightarrow> buf" where
  "file_buffer bytes past = (\<lambda>i. if i < length bytes then bytes ! i else past i)"

definition e_magic :: "buf \<Rightarrow> u16" where "e_magic b = le16 b 0"
definition e_lfanew :: "buf \<Rightarrow> nat" where "e_lfanew b = unat (le32 b 60)"

text \<open>\<^verbatim>\<open>PEFileHeader\<close> is behind the signature, \<^verbatim>\<open>PEOptionalHeader64\<close> behind it.\<close>

definition NumberOfSections :: "buf \<Rightarrow> u16" where "NumberOfSections b = le16 b (e_lfanew b + 4 + 2)"
definition SizeOfOptionalHeader :: "buf \<Rightarrow> u16" where "SizeOfOptionalHeader b = le16 b (e_lfanew b + 4 + 16)"

definition opt_header :: "buf \<Rightarrow> nat" where "opt_header b = e_lfanew b + 4 + 20"

definition opt_Magic :: "buf \<Rightarrow> u16" where "opt_Magic b = le16 b (opt_header b)"
definition AddressOfEntryPoint :: "buf \<Rightarrow> u32" where "AddressOfEntryPoint b = le32 b (opt_header b + 16)"
definition ImageBase :: "buf \<Rightarrow> u64" where "ImageBase b = le64 b (opt_header b + 24)"
definition SizeOfImage :: "buf \<Rightarrow> u32" where "SizeOfImage b = le32 b (opt_header b + 56)"
definition SizeOfHeaders :: "buf \<Rightarrow> u32" where "SizeOfHeaders b = le32 b (opt_header b + 60)"

text \<open>The section headers, 40 bytes each.\<close>

definition section_at :: "buf \<Rightarrow> nat \<Rightarrow> nat" where
  "section_at b i = opt_header b + unat (SizeOfOptionalHeader b) + 40 * i"

definition VirtualSize :: "buf \<Rightarrow> nat \<Rightarrow> u32" where "VirtualSize b i = le32 b (section_at b i + 8)"
definition VirtualAddress :: "buf \<Rightarrow> nat \<Rightarrow> u32" where "VirtualAddress b i = le32 b (section_at b i + 12)"
definition SizeOfRawData :: "buf \<Rightarrow> nat \<Rightarrow> u32" where "SizeOfRawData b i = le32 b (section_at b i + 16)"
definition PointerToRawData :: "buf \<Rightarrow> nat \<Rightarrow> u32" where "PointerToRawData b i = le32 b (section_at b i + 20)"
definition sec_Characteristics :: "buf \<Rightarrow> nat \<Rightarrow> u32" where "sec_Characteristics b i = le32 b (section_at b i + 36)"

section \<open>Frames through the kernel's window\<close>

text \<open>\<open>RtMemSet\<close> and \<open>RtMemCopy\<close> at \<open>PHYS_TO_VIRT(phys)\<close>.\<close>

definition phys_zero :: "u64 \<Rightarrow> u64 \<Rightarrow> 'a kos_scheme \<Rightarrow> 'a kos_scheme" where
  "phys_zero dst n s = s\<lparr>k_phys := (\<lambda>p. if p - dst < n then 0 else k_phys s p)\<rparr>"

definition phys_copy :: "u64 \<Rightarrow> buf \<Rightarrow> nat \<Rightarrow> u64 \<Rightarrow> 'a kos_scheme \<Rightarrow> 'a kos_scheme" where
  "phys_copy dst b off n s = s\<lparr>k_phys := (\<lambda>p. if p - dst < n then b (off + unat (p - dst)) else k_phys s p)\<rparr>"

section \<open>Loading\<close>

definition image_pages :: "buf \<Rightarrow> nat" where
  "image_pages b = unat ((ucast (SizeOfImage b) + PAGE_SIZE - 1) div PAGE_SIZE)"

text \<open>A page of the image: \<open>Inl\<close> when there is no frame left.\<close>

definition map_image_page :: "u64 \<Rightarrow> u64 \<Rightarrow> nat \<Rightarrow> 'a kos_scheme \<Rightarrow> 'a kos_scheme + 'a kos_scheme" where
  "map_image_page pml4 base i s =
    (let (phys, v) = vm_alloc (ps_vm s); s = set_vm v s
     in if phys = 0 then Inl s
        else let s = phys_zero phys PAGE_SIZE s
             in Inr (set_vm (VmmMapPage pml4 (base + of_nat i * PAGE_SIZE) phys VMM_USER_FLAGS (ps_vm s)) s))"

text \<open>The pages of a section's raw data.\<close>

partial_function (option) load_pages :: "u64 \<Rightarrow> buf \<Rightarrow> u64 \<Rightarrow> u64 \<Rightarrow> u32 \<Rightarrow> u32 \<Rightarrow> 'a kos_scheme \<Rightarrow> 'a kos_scheme option" where
  "load_pages pml4 b page_va page_off raw_off remaining s =
    (if remaining = 0 then Some s
     else
       let page_phys = VmmGetPhysical pml4 page_va (ps_vm s)
       in if page_phys = 0 then Some s
          else
            let chunk = ucast (PAGE_SIZE - page_off);
                chunk = (if chunk > remaining then remaining else chunk)
            in load_pages pml4 b (page_va + PAGE_SIZE) 0 (raw_off + chunk) (remaining - chunk)
                 (phys_copy (page_phys + page_off) b (unat raw_off) (ucast chunk) s))"

definition load_section :: "u64 \<Rightarrow> buf \<Rightarrow> nat \<Rightarrow> 'a kos_scheme \<Rightarrow> 'a kos_scheme option" where
  "load_section pml4 b i s =
    (if SizeOfRawData b i = 0 then Some s
     else let sec_virt = ImageBase b + ucast (VirtualAddress b i)
          in load_pages pml4 b (sec_virt AND NOT 0xFFF) (sec_virt AND 0xFFF) (PointerToRawData b i) (SizeOfRawData b i) s)"

definition sec_pages :: "buf \<Rightarrow> nat \<Rightarrow> nat" where
  "sec_pages b i =
    (let sec_size = (if VirtualSize b i \<noteq> 0 then ucast (VirtualSize b i) else ucast (SizeOfRawData b i))
     in unat ((sec_size + PAGE_SIZE - 1) div PAGE_SIZE))"

definition sec_flags :: "buf \<Rightarrow> nat \<Rightarrow> u64" where
  "sec_flags b i =
    (let flags = VMM_PRESENT OR VMM_USER;
         flags = (if sec_Characteristics b i AND 0x80000000 \<noteq> 0 then flags OR VMM_WRITABLE else flags)
     in if sec_Characteristics b i AND 0x20000000 = 0 then flags OR VMM_NX else flags)"

definition protect_page :: "u64 \<Rightarrow> u64 \<Rightarrow> u64 \<Rightarrow> 'a kos_scheme \<Rightarrow> 'a kos_scheme" where
  "protect_page pml4 va flags s =
    (let pa = VmmGetPhysical pml4 va (ps_vm s)
     in if pa \<noteq> 0 then set_vm (VmmMapPage pml4 va pa flags (ps_vm s)) s else s)"

definition protect_section :: "u64 \<Rightarrow> buf \<Rightarrow> nat \<Rightarrow> 'a kos_scheme \<Rightarrow> 'a kos_scheme" where
  "protect_section pml4 b i s =
    (let sec_virt = ImageBase b + ucast (VirtualAddress b i)
     in fold (\<lambda>p. protect_page pml4 (sec_virt + of_nat p * PAGE_SIZE) (sec_flags b i)) [0..<sec_pages b i] s)"

text \<open>Headers, sections and permissions, once the pages are there.\<close>

definition load_image :: "u64 \<Rightarrow> buf \<Rightarrow> 'a kos_scheme \<Rightarrow> 'a kos_scheme option" where
  "load_image pml4 b s =
    do {
      let first_page_phys = VmmGetPhysical pml4 (ImageBase b) (ps_vm s);
      let s = phys_copy first_page_phys b 0 (ucast (SizeOfHeaders b)) s;
      s \<leftarrow> bind_all (load_section pml4 b) [0..<unat (NumberOfSections b)] s;
      let s = (if first_page_phys \<noteq> 0
               then set_vm (VmmMapPage pml4 (ImageBase b) first_page_phys (VMM_PRESENT OR VMM_USER OR VMM_NX) (ps_vm s)) s else s);
      Some (fold (protect_section pml4 b) [0..<unat (NumberOfSections b)] s)
    }"

text \<open>The file becomes a buffer of the heap; \<open>Inl\<close> is an early return with a status.\<close>

definition read_program :: "u8 list \<Rightarrow> 'a kos_scheme \<Rightarrow> ((ntstatus + u64 \<times> u8 list) \<times> 'a kos_scheme) option" where
  "read_program path s =
    do {
      (status, s) \<leftarrow> fs (Fat32OpenPath path) s;
      if NT_ERROR status then Some (Inl status, s)
      else
        let file_size = Fat32GetFileSize (k_fat s)
        in if file_size = 0 then Some (Inl STATUS_UNSUCCESSFUL, fs_close s)
           else do {
             (p, s) \<leftarrow> km_alloc (ucast file_size) s;
             if p = 0 then Some (Inl STATUS_OUT_OF_MEMORY, fs_close s)
             else do {
               ((status, bytes), s) \<leftarrow> fs (\<lambda>t. map_option (\<lambda>(st, d, t). ((st, d), t)) (Fat32ReadFile t)) s;
               if NT_ERROR status \<or> of_nat (length bytes) \<noteq> file_size
               then do { s \<leftarrow> ps_free p s; Some (Inl status, fs_close s) }
               else Some (Inr (p, bytes), fs_close s)
             }
           }
    }"

text \<open>An early return that releases the file buffer.\<close>

definition pe_fail :: "ntstatus \<Rightarrow> u64 \<Rightarrow> 'a kos_scheme \<Rightarrow> (ntstatus \<times> u64 \<times> 'a kos_scheme) option" where
  "pe_fail status p s = map_option (\<lambda>s. (status, 0, s)) (ps_free p s)"

definition start_program :: "u64 \<Rightarrow> buf \<Rightarrow> u64 \<Rightarrow> 'a kos_scheme \<Rightarrow> (ntstatus \<times> u64 \<times> 'a kos_scheme) option" where
  "start_program proc b p s =
    do {
      (t, s) \<leftarrow> PsCreateThread proc (ImageBase b + ucast (AddressOfEntryPoint b)) s;
      if t = 0 then do { s \<leftarrow> PsDestroyProcess proc s; pe_fail STATUS_OUT_OF_MEMORY p s }
      else do {
        let s = upd_thread t (\<lambda>h. h\<lparr>th_context := (th_context h)\<lparr>cx_rflags := 0x202, cx_cr3 := p_page_table (process s proc)\<rparr>\<rparr>) s;
        s \<leftarrow> ps_free p s;
        Some (STATUS_SUCCESS, proc, s)
      }
    }"

definition build_process :: "boot_info \<Rightarrow> u8 list \<Rightarrow> buf \<Rightarrow> u64 \<Rightarrow> 'a kos_scheme \<Rightarrow> (ntstatus \<times> u64 \<times> 'a kos_scheme) option" where
  "build_process boot path b p s =
    do {
      (proc, s) \<leftarrow> PsCreateProcess boot path (ImageBase b + ucast (AddressOfEntryPoint b)) (ImageBase b) (ucast (SizeOfImage b)) s;
      if proc = 0 then pe_fail STATUS_OUT_OF_MEMORY p s
      else
        let pml4 = PHYS_TO_VIRT (ps_vm s) (p_page_table (process s proc))
        in case fold_until (map_image_page pml4 (ImageBase b)) [0..<image_pages b] s of
             Inl s \<Rightarrow> do { s \<leftarrow> PsDestroyProcess proc s; pe_fail STATUS_OUT_OF_MEMORY p s }
           | Inr s \<Rightarrow> do { s \<leftarrow> load_image pml4 b s; start_program proc b p s }
    }"

text \<open>The result: the status, the process (0: \<^verbatim>\<open>*out_process\<close> is not written), the state.\<close>

definition PeLoadProgram :: "boot_info \<Rightarrow> (nat \<Rightarrow> u8) \<Rightarrow> u8 list \<Rightarrow> 'a kos_scheme \<Rightarrow> (ntstatus \<times> u64 \<times> 'a kos_scheme) option" where
  "PeLoadProgram boot past path s =
    do {
      (r, s) \<leftarrow> read_program path s;
      case r of
        Inl status \<Rightarrow> Some (status, 0, s)
      | Inr (p, bytes) \<Rightarrow>
          let b = file_buffer bytes past
          in if e_magic b \<noteq> PE_DOS_MAGIC then pe_fail STATUS_UNSUCCESSFUL p s
             else if le32 b (e_lfanew b) \<noteq> PE_SIGNATURE then pe_fail STATUS_UNSUCCESSFUL p s
             else if opt_Magic b \<noteq> PE32P_MAGIC then pe_fail STATUS_UNSUCCESSFUL p s
             else build_process boot path b p s
    }"

end
