(* ===== verification/Pe_Image.thy ===== *)
theory Pe_Image
  imports Pe_Loader Sys_Files_Inv
begin

text \<open>
  What the loader builds.  \<open>pe_image b\<close> is the image that the headers of the file \<open>b\<close> describe: the
  headers at its start, the raw data of each section at the section's address, zeros elsewhere.  The
  theorem states that the address space of the new process reads as this image.
\<close>

section \<open>Pages in use stay in use\<close>

definition keeps_used :: "pmm \<Rightarrow> pmm \<Rightarrow> bool" where
  "keeps_used b b' \<longleftrightarrow> (pmm_ok b \<longrightarrow> pmm_ok b' \<and> highest_page b' = highest_page b \<and> (\<forall>n<page_limit. page_used b n \<longrightarrow> page_used b' n))"

lemma keeps_used_refl [simp]: "keeps_used b b"
  by (simp add: keeps_used_def)

lemma keeps_used_trans: "keeps_used a b \<Longrightarrow> keeps_used b c \<Longrightarrow> keeps_used a c"
  by (auto simp: keeps_used_def)

lemma keeps_used_pin [simp]: "keeps_used b (PmmPinPage a c) = keeps_used b c"
  by (simp add: keeps_used_def page_used_def)

lemma keeps_used_alloc: "keeps_used b (snd (PmmAllocPage b))"
proof (cases "pmm_ok b")
  case True
  note r = PmmAllocPage_result [OF True]
  show ?thesis
  proof (cases "fst (PmmAllocPage b) = 0")
    case False
    then show ?thesis using alloc_result_ok [OF True r] alloc_result_pages(5,6) [OF True r False] by (auto simp: keeps_used_def)
  qed (use PmmAllocPage_None [OF True] in simp)
qed (simp add: keeps_used_def)

lemma keeps_used_vm_alloc: "keeps_used (vm_pmm s) (vm_pmm (snd (vm_alloc s)))"
  using keeps_used_alloc by (simp add: vm_alloc_def case_prod_unfold Let_def)

lemma next_level_keeps: "keeps_used (vm_pmm s) (vm_pmm (snd (GetNextLevel cur i flags pin s)))"
  using keeps_used_vm_alloc [of s]
  by (simp add: GetNextLevel_def Let_def case_prod_unfold set_entry_def clear_table_def vm_pin_def)

lemma map_page_keeps: "keeps_used (vm_pmm s) (vm_pmm (VmmMapPage pml4 virt phys flags s))"
proof -
  note n = next_level_keeps
  define pin where "pin = (pml4 = g_kernel_pml4 s)"
  define r1 where "r1 = GetNextLevel pml4 (PML4E_INDEX virt) flags pin s"
  define r2 where "r2 = GetNextLevel (fst r1) (PDPTE_INDEX virt) flags pin (snd r1)"
  define r3 where "r3 = GetNextLevel (fst r2) (PDE_INDEX virt) flags pin (snd r2)"
  have k: "keeps_used (vm_pmm s) (vm_pmm (snd r1))" "keeps_used (vm_pmm s) (vm_pmm (snd r2))" "keeps_used (vm_pmm s) (vm_pmm (snd r3))"
    using n keeps_used_trans unfolding r1_def r2_def r3_def by blast+
  have "VmmMapPage pml4 virt phys flags s = (if fst r1 = 0 then snd r1 else if fst r2 = 0 then snd r2 else if fst r3 = 0 then snd r3
      else Invlpg virt (set_entry (fst r3) (PTE_INDEX virt) ((phys AND PAGE_MASK) OR flags) (snd r3)))"
    by (simp add: VmmMapPage_def pin_def [symmetric] r3_def r2_def r1_def case_prod_unfold Let_def)
  then show ?thesis using k by (simp add: set_entry_def)
qed

lemma keeps_used_owned:
  assumes "keeps_used b b'" "pmm_ok b" "owned b T"
  shows "owned b' T"
proof -
  have "highest_page b \<le> page_limit" using assms(2) by (simp add: pmm_ok_def)
  then show ?thesis using assms unfolding owned_def keeps_used_def by (metis less_le_trans)
qed

section \<open>Mapping again keeps the translation\<close>

lemma low_bits: "x AND PAGE_MASK AND 0xFFF = (0 :: u64)" "(x AND 0xFFF) AND PAGE_MASK = 0"
  by (simp_all add: PAGE_MASK_def and.assoc)

lemma frame_of_pa: "((e AND PAGE_MASK) + (v AND 0xFFF)) AND PAGE_MASK = e AND PAGE_MASK" for e v :: u64
proof -
  have "(e AND PAGE_MASK) AND (v AND 0xFFF) = 0"
    using low_bits(1) by (metis and.assoc and.left_commute and_zero_eq)
  then have "(e AND PAGE_MASK) + (v AND 0xFFF) = (e AND PAGE_MASK) OR (v AND 0xFFF)"
    by (intro disjunctive_add_eq_or) 
  moreover have "(e AND PAGE_MASK) AND PAGE_MASK = e AND PAGE_MASK" by (simp add: and.assoc)
  ultimately show ?thesis by (simp only: bit.conj_disj_distrib2 low_bits or.right_neutral)
qed

lemma present_or: "flags AND VMM_PRESENT \<noteq> 0 \<Longrightarrow> (x OR flags) AND VMM_PRESENT \<noteq> 0" for x flags :: u64
  by (simp add: VMM_PRESENT_def and_one_eq bit_0 odd_iff_mod_2_eq_one [symmetric]) (simp add: even_or_iff)

text \<open>\<open>mapping flags\<close>: flags that make an entry present and leave its frame.\<close>

definition mapping :: "u64 \<Rightarrow> bool" where
  "mapping flags \<longleftrightarrow> flags AND PAGE_MASK = 0 \<and> flags AND VMM_PRESENT \<noteq> 0"

lemma remap_same:
  fixes va flags :: u64
  assumes ok: "vm_ok v R" and R: "table_frame v pml4 = R" and fl: "mapping flags"
    and pa: "VmmGetPhysical pml4 va v = pa" "pa \<noteq> 0"
  defines "v' \<equiv> VmmMapPage pml4 va pa flags v"
  shows "vm_ok v' R \<and> table_frame v' pml4 = R \<and> (\<forall>w. VmmGetPhysical pml4 w v' = VmmGetPhysical pml4 w v)"
proof -
  note m = VmmMapPage_map [OF ok R, of va pa flags, folded v'_def]
  have ok': "vm_ok v' R" "table_frame v' pml4 = R" using m R by simp_all
  note g = VmmGetPhysical_map [of v pml4, unfolded R, OF ok] VmmGetPhysical_map [of v' pml4, unfolded ok'(2), OF ok'(1)]
  define e where "e = page_table v R (page_slot va)"
  have e: "e AND VMM_PRESENT \<noteq> 0" "pa = (e AND PAGE_MASK) + (va AND 0xFFF)"
    using pa g(1) [of va] by (auto simp: e_def Let_def split: if_splits)
  have new: "((pa AND PAGE_MASK) OR flags) AND VMM_PRESENT \<noteq> 0" "((pa AND PAGE_MASK) OR flags) AND PAGE_MASK = e AND PAGE_MASK"
    using fl present_or [of flags "pa AND PAGE_MASK"] unfolding mapping_def e(2) frame_of_pa
    by (simp_all add: bit.conj_disj_distrib2 and.assoc)
  have "VmmGetPhysical pml4 w v' = VmmGetPhysical pml4 w v" for w
  proof (cases "page_table v' R = page_table v R")
    case False
    then have "page_table v' R = (page_table v R)(page_slot va := (pa AND PAGE_MASK) OR flags)" using m by blast
    then show ?thesis using e(1) new by (auto simp: g Let_def e_def)
  qed (simp add: g Let_def)
  then show ?thesis using ok' by blast
qed

section \<open>Bytes of frames\<close>

text \<open>Byte \<open>k\<close> of an image whose page \<open>i\<close> is the frame number \<open>F ! i\<close>.\<close>

definition frame_byte :: "nat list \<Rightarrow> nat \<Rightarrow> u64" where
  "frame_byte F k = frame_addr (F ! (k div 4096)) + of_nat (k mod 4096)"

definition distinct_frames :: "nat list \<Rightarrow> bool" where
  "distinct_frames F \<longleftrightarrow> distinct F \<and> (\<forall>f\<in>set F. 0 < f \<and> f < frame_limit)"

definition holds_image :: "nat list \<Rightarrow> (nat \<Rightarrow> u8) \<Rightarrow> 'a kos_scheme \<Rightarrow> bool" where
  "holds_image F M s \<longleftrightarrow> (\<forall>k<length F * 4096. k_phys s (frame_byte F k) = M k)"

definition overlay :: "nat \<Rightarrow> nat \<Rightarrow> buf \<Rightarrow> nat \<Rightarrow> (nat \<Rightarrow> u8) \<Rightarrow> nat \<Rightarrow> u8" where
  "overlay a n b src M = (\<lambda>k. if a \<le> k \<and> k < a + n then b (src + (k - a)) else M k)"

lemma overlay_0 [simp]: "overlay a 0 b src M = M"
  by (rule ext) (auto simp: overlay_def)

lemma overlay_twice: "overlay (a + n) m b (src + n) (overlay a n b src M) = overlay a (n + m) b src M"
  by (rule ext) (auto simp: overlay_def)

lemma unat_frame_byte:
  assumes "f < frame_limit" "j < 4096"
  shows "unat (frame_addr f + of_nat j) = f * 4096 + j"
proof -
  have "f * 4096 + j < 2 ^ 64" using assms by simp
  then show ?thesis using assms by (simp add: unat_word_ariths unat_frame unat_of_nat take_bit_nat_eq_self)
qed

lemma same_block: "g * 4096 + j < f * 4096 + 4096 \<Longrightarrow> f * 4096 \<le> g * 4096 + j \<Longrightarrow> j < 4096 \<Longrightarrow> g = f" for f g j :: nat
  by (cases g f rule: linorder_cases) linarith+

lemma in_block:
  fixes i q j off n :: nat
  assumes "j < 4096" "off + n \<le> 4096"
  shows "i * 4096 + off \<le> q * 4096 + j \<and> q * 4096 + j < i * 4096 + off + n \<longleftrightarrow> q = i \<and> off \<le> j \<and> j < off + n"
proof
  assume a: "i * 4096 + off \<le> q * 4096 + j \<and> q * 4096 + j < i * 4096 + off + n"
  then have "q = i" by (intro same_block [OF _ _ assms(1)]) (use assms(2) in linarith)+
  then show "q = i \<and> off \<le> j \<and> j < off + n" using a by simp
qed simp

lemma copy_distance:
  fixes f g off j n :: nat
  assumes "f < frame_limit" "g < frame_limit" "j < 4096" "off + n \<le> 4096" "0 < n"
  defines "d \<equiv> (frame_addr g + of_nat j) - (frame_addr f + of_nat off) :: u64"
  shows "d < of_nat n \<longleftrightarrow> g = f \<and> off \<le> j \<and> j < off + n" and "g = f \<Longrightarrow> off \<le> j \<Longrightarrow> unat d = j - off"
proof -
  let ?p = "frame_addr g + of_nat j :: u64" and ?q = "frame_addr f + of_nat off :: u64"
  have p: "unat ?p = g * 4096 + j" using unat_frame_byte [OF assms(2,3)] .
  have q: "unat ?q = f * 4096 + off" using unat_frame_byte [OF assms(1), of off] assms(4,5) by simp
  have n: "unat (of_nat n :: u64) = n" using assms(4) by (simp add: unat_of_nat take_bit_nat_eq_self)
  have lt: "d < of_nat n \<longleftrightarrow> unat d < n" by (simp add: word_less_nat_alt n)
  have d: "unat d = (if f * 4096 + off \<le> g * 4096 + j then g * 4096 + j - (f * 4096 + off) else g * 4096 + j + 2 ^ 64 - (f * 4096 + off))"
    using unat_sub_if' [of ?p ?q] unfolding d_def p q by simp
  show "unat d = j - off" if "g = f" "off \<le> j" using d that by simp
  have "g = f" if "f * 4096 + off \<le> g * 4096 + j" "g * 4096 + j - (f * 4096 + off) < n"
    by (rule same_block [OF _ _ assms(3)]) (use that assms(4) in linarith)+
  moreover have False if "\<not> f * 4096 + off \<le> g * 4096 + j" "g * 4096 + j + 2 ^ 64 - (f * 4096 + off) < n"
    using that assms(1,4) by simp
  ultimately show "d < of_nat n \<longleftrightarrow> g = f \<and> off \<le> j \<and> j < off + n"
    unfolding lt d by (auto split: if_splits)
qed

lemma image_copy:
  assumes F: "distinct_frames F" and i: "i < length F" and n: "off + n \<le> 4096" and M: "holds_image F M s"
  shows "holds_image F (overlay (i * 4096 + off) n b src M) (phys_copy (frame_addr (F ! i) + of_nat off) b src (of_nat n) s)"
proof (cases "n = 0")
  case True
  then show ?thesis using M by (simp add: phys_copy_def holds_image_def)
next
  case False
  show ?thesis
    unfolding holds_image_def
  proof (intro allI impI)
    fix k
    assume k: "k < length F * 4096"
    let ?g = "F ! (k div 4096)" and ?f = "F ! i" and ?j = "k mod 4096"
    have ix: "k div 4096 < length F" using k by (simp add: less_mult_imp_div_less)
    have lim: "?f < frame_limit" "?g < frame_limit" using F i ix by (auto simp: distinct_frames_def)
    have eq: "?g = ?f \<longleftrightarrow> k div 4096 = i" using F i ix by (simp add: distinct_frames_def nth_eq_iff_index_eq)
    note c = copy_distance [OF lim _ n, of ?j]
    have kk: "k = k div 4096 * 4096 + k mod 4096" by simp
    have inside: "i * 4096 + off \<le> k \<and> k < i * 4096 + off + n \<longleftrightarrow> k div 4096 = i \<and> off \<le> ?j \<and> ?j < off + n"
      using in_block [OF _ n, of ?j i "k div 4096"] by simp
    have sub: "k - (i * 4096 + off) = ?j - off" if "k div 4096 = i" using kk that by linarith
    then show "k_phys (phys_copy (frame_addr ?f + of_nat off) b src (of_nat n) s) (frame_byte F k) = overlay (i * 4096 + off) n b src M k"
    proof (cases "k div 4096 = i \<and> off \<le> ?j \<and> ?j < off + n")
      case True
      then have lt: "frame_byte F k - (frame_addr ?f + of_nat off) < of_nat n" and d: "unat (frame_byte F k - (frame_addr ?f + of_nat off)) = ?j - off"
        using c eq False by (simp_all add: frame_byte_def)
      have "overlay (i * 4096 + off) n b src M k = b (src + (?j - off))"
        unfolding overlay_def using inside True sub by simp
      then show ?thesis using lt d by (simp add: phys_copy_def)
    next
      case other: False
      have "\<not> frame_byte F k - (frame_addr ?f + of_nat off) < of_nat n"
        using c(1) eq other False unfolding frame_byte_def by simp
      moreover have "overlay (i * 4096 + off) n b src M k = M k" by (simp only: overlay_def inside other if_False)
      ultimately show ?thesis using M k by (simp add: phys_copy_def holds_image_def)
    qed
  qed
qed

section \<open>Sections\<close>

text \<open>The pages of the image are mapped to the frames \<open>F\<close>.\<close>

definition translated :: "u64 \<Rightarrow> u64 \<Rightarrow> nat list \<Rightarrow> vmm \<Rightarrow> bool" where
  "translated pml4 base F v \<longleftrightarrow>
    (\<forall>i<length F. \<forall>off<4096. VmmGetPhysical pml4 (base + of_nat i * PAGE_SIZE + of_nat off) v = frame_addr (F ! i) + of_nat off)"

lemma translated_page:
  assumes "translated pml4 base F v" "i < length F"
  shows "VmmGetPhysical pml4 (base + of_nat i * PAGE_SIZE) v = frame_addr (F ! i)"
  using spec [OF spec [OF assms(1) [unfolded translated_def], THEN mp, OF assms(2)], of 0] by simp

lemma phys_copy_vm [simp]: "ps_vm (phys_copy d b off n s) = ps_vm s"
  by (simp add: phys_copy_def)

lemma load_pages_image:
  fixes base :: u64
  assumes F: "distinct_frames F" and i: "i * 4096 + off + unat remaining \<le> length F * 4096" "off < 4096"
    and raw: "unat raw + unat remaining < 2 ^ 32" and M: "holds_image F M s" and tr: "translated pml4 base F (ps_vm s)"
  shows "\<exists>m. load_pages pml4 b (base + of_nat i * PAGE_SIZE) (of_nat off) raw remaining s = Some (s\<lparr>k_phys := m\<rparr>) \<and>
    holds_image F (overlay (i * 4096 + off) (unat remaining) b (unat raw) M) (s\<lparr>k_phys := m\<rparr>)"
  using i raw M tr
proof (induction "unat remaining" arbitrary: i off raw remaining M s rule: less_induct)
  case less
  show ?case
  proof (cases "remaining = 0")
    case True
    have "s = s\<lparr>k_phys := k_phys s\<rparr>" by simp
    then show ?thesis using True less.prems(4) by (metis load_pages.simps overlay_0 unat_0)
  next
    case False
    then have pos: "0 < unat remaining" by (simp add: unat_gt_0)
    have iF: "i < length F" using less.prems(1) pos by linarith
    let ?f = "frame_addr (F ! i)"
    have f: "0 < F ! i" "F ! i < frame_limit" using F iF by (auto simp: distinct_frames_def)
    have g: "VmmGetPhysical pml4 (base + of_nat i * PAGE_SIZE) (ps_vm s) = ?f"
      using translated_page [OF less.prems(5) iF] .
    have nz: "?f \<noteq> 0" using unat_frame [OF f(2)] f(1) by auto
    define n where "n = min (4096 - off) (unat remaining)"
    define chunk :: u32 where "chunk = (let c = ucast (PAGE_SIZE - of_nat off :: u64) in if c > remaining then remaining else c)"
    have "unat (PAGE_SIZE - of_nat off :: u64) = 4096 - off"
      using less.prems(2) by (simp add: unat_sub_if' PAGE_SIZE_def unat_of_nat take_bit_nat_eq_self)
    then have "unat (ucast (PAGE_SIZE - of_nat off :: u64) :: u32) = 4096 - off"
      by (simp add: unsigned_ucast_eq take_bit_nat_eq_self)
    then have c: "unat chunk = n" by (auto simp: chunk_def n_def Let_def word_less_nat_alt)
    have npos: "0 < n" "n \<le> unat remaining" "off + n \<le> 4096" using pos less.prems(2) by (auto simp: n_def)
    let ?t = "phys_copy (?f + of_nat off) b (unat raw) (ucast chunk) s"
    have cc: "(ucast chunk :: u64) = of_nat n" by (simp flip: c)
    have nx: "base + of_nat (Suc i) * PAGE_SIZE = base + of_nat i * PAGE_SIZE + PAGE_SIZE" by (simp add: distrib_right add.commute)
    have step: "load_pages pml4 b (base + of_nat i * PAGE_SIZE) (of_nat off) raw remaining s =
        load_pages pml4 b (base + of_nat (Suc i) * PAGE_SIZE) (of_nat 0) (raw + chunk) (remaining - chunk) ?t"
      unfolding nx using False by (subst load_pages.simps) (simp add: g nz chunk_def Let_def)
    have img: "holds_image F (overlay (i * 4096 + off) n b (unat raw) M) ?t"
      unfolding cc by (rule image_copy [OF F iF npos(3) less.prems(4)])
    have rem: "unat (remaining - chunk) = unat remaining - n" using c npos(2) by (simp add: unat_sub word_le_nat_alt)
    have raw': "unat (raw + chunk) = unat raw + n"
      using less.prems(3) npos(2) c by (simp add: unat_word_ariths)
    show ?thesis
    proof (cases "n = unat remaining")
      case True
      then have "remaining - chunk = 0" using rem by (simp add: unat_eq_zero)
      then have "load_pages pml4 b (base + of_nat i * PAGE_SIZE) (of_nat off) raw remaining s = Some ?t"
        unfolding step by (subst load_pages.simps) simp
      moreover have "?t = s\<lparr>k_phys := k_phys ?t\<rparr>" by (simp add: phys_copy_def)
      ultimately show ?thesis using img True by metis
    next
      case more: False
      then have n: "n = 4096 - off" by (simp add: n_def)
      have at: "Suc i * 4096 + 0 = i * 4096 + off + n" using n less.prems(2) by simp
      have p: "unat (remaining - chunk) < unat remaining" "Suc i * 4096 + 0 + unat (remaining - chunk) \<le> length F * 4096" "(0 :: nat) < 4096"
        "unat (raw + chunk) + unat (remaining - chunk) < 2 ^ 32" "translated pml4 base F (ps_vm ?t)"
        unfolding at rem raw' using less.prems(1,3,5) npos by simp_all
      obtain m where m: "load_pages pml4 b (base + of_nat (Suc i) * PAGE_SIZE) (of_nat 0) (raw + chunk) (remaining - chunk) ?t = Some (?t\<lparr>k_phys := m\<rparr>)"
        "holds_image F (overlay (Suc i * 4096 + 0) (unat (remaining - chunk)) b (unat (raw + chunk)) (overlay (i * 4096 + off) n b (unat raw) M)) (?t\<lparr>k_phys := m\<rparr>)"
        using less.hyps [OF p(1-4) img p(5)] by blast
      have "overlay (Suc i * 4096 + 0) (unat (remaining - chunk)) b (unat (raw + chunk)) (overlay (i * 4096 + off) n b (unat raw) M)
          = overlay (i * 4096 + off) (unat remaining) b (unat raw) M"
        unfolding at rem raw' overlay_twice using npos(2) by simp
      moreover have "?t\<lparr>k_phys := m\<rparr> = s\<lparr>k_phys := m\<rparr>" by (simp add: phys_copy_def)
      ultimately show ?thesis using m step by metis
    qed
  qed
qed

definition section_fits :: "nat \<Rightarrow> buf \<Rightarrow> nat \<Rightarrow> bool" where
  "section_fits N b i \<longleftrightarrow> SizeOfRawData b i = 0 \<or>
    unat (VirtualAddress b i) + unat (SizeOfRawData b i) \<le> N * 4096 \<and> unat (PointerToRawData b i) + unat (SizeOfRawData b i) < 2 ^ 32"

definition section_bytes :: "buf \<Rightarrow> nat \<Rightarrow> (nat \<Rightarrow> u8) \<Rightarrow> nat \<Rightarrow> u8" where
  "section_bytes b i = overlay (unat (VirtualAddress b i)) (unat (SizeOfRawData b i)) b (unat (PointerToRawData b i))"

lemma and_not_diff: "x AND NOT m = x - (x AND m)" for x m :: u64
proof -
  have "(x AND NOT m) AND (x AND m) = 0" by (rule bit_eqI) (auto simp: bit_simps)
  then have "(x AND NOT m) + (x AND m) = (x AND NOT m) OR (x AND m)" by (rule disjunctive_add_eq_or)
  also have "\<dots> = x" by (rule bit_eqI) (auto simp: bit_simps)
  finally show ?thesis by (simp add: eq_diff_eq)
qed

lemma load_section_image:
  assumes F: "distinct_frames F" and fits: "section_fits (length F) b i" and al: "unat (ImageBase b) mod 4096 = 0"
    and M: "holds_image F M s" and tr: "translated pml4 (ImageBase b) F (ps_vm s)"
  shows "\<exists>m. load_section pml4 b i s = Some (s\<lparr>k_phys := m\<rparr>) \<and> holds_image F (section_bytes b i M) (s\<lparr>k_phys := m\<rparr>)"
proof (cases "SizeOfRawData b i = 0")
  case True
  have "s = s\<lparr>k_phys := k_phys s\<rparr>" by simp
  then show ?thesis using True M by (metis load_section_def overlay_0 section_bytes_def unat_0)
next
  case False
  define va where "va = unat (VirtualAddress b i)"
  let ?v = "ImageBase b + ucast (VirtualAddress b i) :: u64" and ?q = "va div 4096" and ?r = "va mod 4096"
  have va: "va = ?q * 4096 + ?r" "?r < 4096" by simp_all
  have "va < 2 ^ 32" using unsigned_less [of "VirtualAddress b i", where ?'a = nat] by (simp add: va_def)
  then have q36: "?q < 2 ^ 36" by simp
  have "(ucast (VirtualAddress b i) :: u64) = of_nat va" by (simp add: va_def)
  also have "\<dots> = of_nat ?q * PAGE_SIZE + of_nat ?r" by (subst va(1)) (simp only: of_nat_add of_nat_mult PAGE_SIZE_def of_nat_numeral)
  finally have v: "?v = ImageBase b + of_nat ?q * PAGE_SIZE + of_nat ?r" by (simp only: add.assoc)
  have off: "?v AND 0xFFF = of_nat ?r" unfolding v by (rule page_shift(2) [OF q36 va(2) al])
  have "?v AND NOT 0xFFF = ?v - of_nat ?r" unfolding and_not_diff off ..
  also have "\<dots> = ImageBase b + of_nat ?q * PAGE_SIZE" by (simp only: v add_diff_cancel_right')
  finally have page: "?v AND NOT 0xFFF = ImageBase b + of_nat ?q * PAGE_SIZE" .
  have inside: "?q * 4096 + ?r + unat (SizeOfRawData b i) \<le> length F * 4096" "unat (PointerToRawData b i) + unat (SizeOfRawData b i) < 2 ^ 32"
    using fits False va(1) by (simp_all add: section_fits_def va_def)
  show ?thesis
    using load_pages_image [OF F inside(1) va(2) inside(2) M tr, of b] False va(1)
    unfolding load_section_def Let_def off page by (simp add: section_bytes_def va_def)
qed

lemma bind_all_Suc: "bind_all f [0..<Suc n] s = Option.bind (bind_all f [0..<n] s) (f n)"
  by (simp add: bind_all_def)

lemma load_sections_image:
  assumes F: "distinct_frames F" and fits: "\<forall>i<n. section_fits (length F) b i" and al: "unat (ImageBase b) mod 4096 = 0"
    and M: "holds_image F M s" and tr: "translated pml4 (ImageBase b) F (ps_vm s)"
  shows "\<exists>m. bind_all (load_section pml4 b) [0..<n] s = Some (s\<lparr>k_phys := m\<rparr>) \<and> holds_image F (fold (section_bytes b) [0..<n] M) (s\<lparr>k_phys := m\<rparr>)"
  using fits
proof (induction n)
  case 0
  have "s = s\<lparr>k_phys := k_phys s\<rparr>" by simp
  then show ?case using M by (metis bind_all_def fold_simps(1) id_apply upt_0)
next
  case (Suc n)
  obtain m where m: "bind_all (load_section pml4 b) [0..<n] s = Some (s\<lparr>k_phys := m\<rparr>)" "holds_image F (fold (section_bytes b) [0..<n] M) (s\<lparr>k_phys := m\<rparr>)"
    using Suc by auto
  have "\<exists>m'. load_section pml4 b n (s\<lparr>k_phys := m\<rparr>) = Some (s\<lparr>k_phys := m'\<rparr>) \<and>
      holds_image F (section_bytes b n (fold (section_bytes b) [0..<n] M)) (s\<lparr>k_phys := m'\<rparr>)"
    using load_section_image [OF F _ al m(2), of n pml4] Suc.prems tr by simp
  moreover have "bind_all (load_section pml4 b) [0..<Suc n] s = load_section pml4 b n (s\<lparr>k_phys := m\<rparr>)"
    by (simp only: bind_all_Suc m(1) bind.simps)
  ultimately show ?case by simp
qed

section \<open>Permissions\<close>

lemma sec_flags_mapping: "mapping (sec_flags b i)" "mapping (VMM_PRESENT OR VMM_USER OR VMM_NX)" "mapping VMM_USER_FLAGS"
  by (simp_all add: mapping_def sec_flags_def Let_def VMM_USER_FLAGS_def VMM_PRESENT_def VMM_USER_def VMM_NX_def VMM_WRITABLE_def PAGE_MASK_def)

text \<open>\<open>same_space\<close>: the address space is in order and translates as before; the frames are the same.\<close>

definition same_space :: "u64 \<Rightarrow> u64 \<Rightarrow> 'a kos_scheme \<Rightarrow> 'a kos_scheme \<Rightarrow> bool" where
  "same_space pml4 R s t \<longleftrightarrow> vm_ok (ps_vm t) R \<and> table_frame (ps_vm t) pml4 = R \<and> k_phys t = k_phys s \<and>
    (\<forall>w. VmmGetPhysical pml4 w (ps_vm t) = VmmGetPhysical pml4 w (ps_vm s))"

lemma remap_space:
  assumes "vm_ok (ps_vm s) R" "table_frame (ps_vm s) pml4 = R" "mapping flags" "VmmGetPhysical pml4 va (ps_vm s) = pa" "pa \<noteq> 0"
  shows "same_space pml4 R s (set_vm (VmmMapPage pml4 va pa flags (ps_vm s)) s)"
  using remap_same [OF assms] by (simp add: same_space_def set_vm_def)

lemma same_space_trans: "same_space pml4 R s t \<Longrightarrow> same_space pml4 R t u \<Longrightarrow> same_space pml4 R s u"
  by (simp add: same_space_def)

lemma protect_page_space: "same_space pml4 R s t \<Longrightarrow> mapping flags \<Longrightarrow> same_space pml4 R s (protect_page pml4 va flags t)"
  using remap_space [of t R pml4 flags va] same_space_trans [of pml4 R s t] by (auto simp: protect_page_def Let_def same_space_def)

lemma fold_space: "(\<And>x t. same_space pml4 R s t \<Longrightarrow> same_space pml4 R s (f x t)) \<Longrightarrow> same_space pml4 R s t \<Longrightarrow> same_space pml4 R s (fold f xs t)"
  by (induction xs arbitrary: t) auto

lemma protect_section_space: "same_space pml4 R s t \<Longrightarrow> same_space pml4 R s (protect_section pml4 b i t)"
  unfolding protect_section_def Let_def by (intro fold_space protect_page_space sec_flags_mapping)

section \<open>The pages of the image\<close>

lemma vm_ok_alloc:
  assumes ok: "vm_ok s R" and F: "fst (vm_alloc s) \<noteq> 0"
  shows "vm_ok (snd (vm_alloc s)) R" "page_table (snd (vm_alloc s)) = page_table s" "table_frame (snd (vm_alloc s)) = table_frame s"
    "exhausted (vm_pmm s) \<Longrightarrow> exhausted (vm_pmm (snd (vm_alloc s)))"
proof -
  define b where "b = vm_pmm (snd (vm_alloc s))"
  note a = vm_alloc_fresh [OF ok refl F, folded b_def]
  show "page_table (snd (vm_alloc s)) = page_table s" "table_frame (snd (vm_alloc s)) = table_frame s"
    by (simp_all add: a(6) page_table_def fun_eq_iff)
  show "vm_ok (snd (vm_alloc s)) R" using ok a(3-5) by (simp add: a(6) vm_ok_def)
  have "pmm_ok (vm_pmm s)" "highest_page (vm_pmm s) \<le> frame_limit" using ok by (simp_all add: vm_ok_def)
  then have "page_used b n" if "page_used (vm_pmm s) n" "n < highest_page (vm_pmm s)" for n
    using keeps_used_vm_alloc [of s] that by (simp add: keeps_used_def b_def)
  then show "exhausted (vm_pmm (snd (vm_alloc s)))" if "exhausted (vm_pmm s)"
    using that a(5) by (simp add: exhausted_def b_def)
qed

definition image_mapped :: "u64 \<Rightarrow> u64 \<Rightarrow> nat list \<Rightarrow> vmm \<Rightarrow> bool" where
  "image_mapped R base F v \<longleftrightarrow> distinct_frames F \<and> (\<forall>f\<in>set F. owned (vm_pmm v) (frame_addr f)) \<and>
    (\<forall>i<length F. page_table v R (page_slot (base + of_nat i * PAGE_SIZE)) = frame_addr (F ! i) OR VMM_USER_FLAGS)"

lemma image_page_zero:
  assumes F: "distinct_frames (F @ [f])" and M: "holds_image F (\<lambda>_. 0) s"
  shows "holds_image (F @ [f]) (\<lambda>_. 0) (phys_zero (frame_addr f) PAGE_SIZE s)"
  unfolding holds_image_def
proof (intro allI impI)
  fix k
  assume k: "k < length (F @ [f]) * 4096"
  let ?i = "k div 4096" and ?j = "k mod 4096"
  have ix: "?i < length (F @ [f])" using k by (simp add: less_mult_imp_div_less)
  have lim: "f < frame_limit" "(F @ [f]) ! ?i < frame_limit" using F ix by (auto simp: distinct_frames_def nth_append)
  note c = copy_distance(1) [OF lim, of ?j 0 4096]
  show "k_phys (phys_zero (frame_addr f) PAGE_SIZE s) (frame_byte (F @ [f]) k) = 0"
  proof (cases "?i < length F")
    case True
    then have "k < length F * 4096" by (simp add: div_less_iff_less_mult)
    then have "k_phys s (frame_byte F k) = 0" using M by (simp add: holds_image_def)
    moreover have "frame_byte (F @ [f]) k = frame_byte F k" using True by (simp add: frame_byte_def nth_append)
    ultimately show ?thesis by (simp add: phys_zero_def)
  next
    case False
    then have "(F @ [f]) ! ?i = f" using ix by (simp add: nth_append)
    then show ?thesis using c by (simp add: phys_zero_def frame_byte_def PAGE_SIZE_def)
  qed
qed

lemma map_image_page_step:
  fixes base :: u64
  assumes ok: "vm_ok (ps_vm s) R" and R: "table_frame (ps_vm s) pml4 = R" and al: "unat base mod 4096 = 0" and n: "n < 2 ^ 36"
    and F: "length F = n" "image_mapped R base F (ps_vm s)" "holds_image F (\<lambda>_. 0) s"
    and step: "map_image_page pml4 base n s = Inr t"
  shows "vm_ok (ps_vm t) R \<and> table_frame (ps_vm t) pml4 = R \<and>
    (exhausted (vm_pmm (ps_vm t)) \<or> (\<exists>f. image_mapped R base (F @ [f]) (ps_vm t) \<and> holds_image (F @ [f]) (\<lambda>_. 0) t))"
proof -
  let ?v = "snd (vm_alloc (ps_vm s))" and ?phys = "fst (vm_alloc (ps_vm s))" and ?va = "base + of_nat n * PAGE_SIZE"
  define v' where "v' = VmmMapPage pml4 ?va ?phys VMM_USER_FLAGS ?v"
  have nz: "?phys \<noteq> 0" and t: "t = set_vm v' (phys_zero ?phys PAGE_SIZE (set_vm ?v s))"
    using step by (auto simp: map_image_page_def case_prod_unfold Let_def v'_def phys_zero_def set_vm_def split: if_splits)
  note a = vm_alloc_fresh [OF ok refl nz] and b = vm_ok_alloc [OF ok nz]
  have "table_frame ?v pml4 = R" using b(3) R by simp
  note m = VmmMapPage_map [OF b(1) this, of ?va ?phys VMM_USER_FLAGS, folded v'_def]
  have tv: "ps_vm t = v'" by (simp add: t set_vm_def)
  have tk: "k_phys t = k_phys (phys_zero ?phys PAGE_SIZE s)" by (simp add: t set_vm_def phys_zero_def cong: if_cong)
  have ok': "vm_ok v' R" "table_frame v' pml4 = R" using m b(3) R by simp_all
  show ?thesis
  proof (cases "exhausted (vm_pmm v')")
    case True
    then show ?thesis using ok' by (simp add: tv)
  next
    case False
    from a(1) obtain f where f: "?phys = frame_addr f" "0 < f" "f < highest_page (vm_pmm ?v)" by (auto simp: owned_def)
    have lim: "f < frame_limit" using f(3) b(1) by (auto simp: vm_ok_def)
    have fr: "f \<notin> set F" using F(2) a(2) f(1) by (auto simp: image_mapped_def)
    have fok: "distinct_frames (F @ [f])" using F(2) fr f(2) lim by (auto simp: distinct_frames_def image_mapped_def)
    have keep: "owned (vm_pmm v') T" if "owned (vm_pmm ?v) T" for T
      using keeps_used_owned [OF map_page_keeps _ that] b(1) by (simp add: v'_def vm_ok_def)
    have mask: "frame_addr f AND PAGE_MASK = frame_addr f" using lim by (intro frame_mask) simp
    have upd: "page_table v' R = (page_table (ps_vm s) R)(page_slot ?va := frame_addr f OR VMM_USER_FLAGS)"
      using m False by (auto simp: b(2) f(1) mask)
    have "page_slot (base + of_nat i * PAGE_SIZE) \<noteq> page_slot ?va" if "i < n" for i
      using page_slots_differ [of i n base] al n that by simp
    then have "\<forall>i<length (F @ [f]). page_table v' R (page_slot (base + of_nat i * PAGE_SIZE)) = frame_addr ((F @ [f]) ! i) OR VMM_USER_FLAGS"
      using F(1,2) by (auto simp: upd nth_append image_mapped_def less_Suc_eq)
    then have "image_mapped R base (F @ [f]) v'"
      using fok F(2) keep a(1,3) f(1) by (auto simp: image_mapped_def)
    moreover have "holds_image (F @ [f]) (\<lambda>_. 0) t"
      using image_page_zero [OF fok F(3)] f(1) by (simp add: holds_image_def tk)
    ultimately show ?thesis using ok' by (auto simp: tv)
  qed
qed

lemma map_image_page_none:
  assumes "vm_ok (ps_vm s) R" "map_image_page pml4 base n s = Inl t"
  shows "exhausted (vm_pmm (ps_vm t))"
proof -
  have "fst (vm_alloc (ps_vm s)) = 0" "t = set_vm (snd (vm_alloc (ps_vm s))) s"
    using assms(2) by (auto simp: map_image_page_def case_prod_unfold Let_def split: if_splits)
  then show ?thesis using vm_alloc_none [OF assms(1)] by (simp add: set_vm_def)
qed

lemma map_image_page_exhausted:
  assumes "vm_ok (ps_vm s) R" "table_frame (ps_vm s) pml4 = R" "exhausted (vm_pmm (ps_vm s))"
  shows "map_image_page pml4 base n s = Inl s"
proof (cases "fst (vm_alloc (ps_vm s)) = 0")
  case True
  have "set_vm (ps_vm s) s = s" by (simp add: set_vm_def)
  then show ?thesis using True vm_alloc_none(1) [OF assms(1) True] by (simp add: map_image_page_def case_prod_unfold Let_def)
next
  case False
  note a = vm_alloc_fresh [OF assms(1) refl False]
  obtain f where f: "fst (vm_alloc (ps_vm s)) = frame_addr f" "0 < f" "f < highest_page (vm_pmm (ps_vm s))"
    using a(1,5) by (auto simp: owned_def)
  then have "owned (vm_pmm (ps_vm s)) (frame_addr f)" using assms(1,3) by (simp add: exhausted_owned)
  then show ?thesis using a(2) f(1) by simp
qed

lemma map_image_pages:
  fixes base :: u64
  assumes ok: "vm_ok (ps_vm s) R" and R: "table_frame (ps_vm s) pml4 = R" and al: "unat base mod 4096 = 0" and n: "n \<le> 2 ^ 36"
  shows "case fold_until (map_image_page pml4 base) [0..<n] s of
      Inl t \<Rightarrow> exhausted (vm_pmm (ps_vm t))
    | Inr t \<Rightarrow> vm_ok (ps_vm t) R \<and> table_frame (ps_vm t) pml4 = R \<and> (exhausted (vm_pmm (ps_vm t)) \<or>
        (\<exists>F. length F = n \<and> image_mapped R base F (ps_vm t) \<and> holds_image F (\<lambda>_. 0) t))"
  using n
proof (induction n)
  case 0
  have "image_mapped R base [] (ps_vm s)" "holds_image [] (\<lambda>_. 0) s" by (simp_all add: image_mapped_def distinct_frames_def holds_image_def)
  then show ?case using ok R by (auto intro: exI [of _ "[]"])
next
  case (Suc n)
  then have IH: "case fold_until (map_image_page pml4 base) [0..<n] s of
      Inl t \<Rightarrow> exhausted (vm_pmm (ps_vm t))
    | Inr t \<Rightarrow> vm_ok (ps_vm t) R \<and> table_frame (ps_vm t) pml4 = R \<and> (exhausted (vm_pmm (ps_vm t)) \<or>
        (\<exists>F. length F = n \<and> image_mapped R base F (ps_vm t) \<and> holds_image F (\<lambda>_. 0) t))" by simp
  show ?case
  proof (cases "fold_until (map_image_page pml4 base) [0..<n] s")
    case (Inl t)
    then show ?thesis using IH by (simp add: fold_until_append)
  next
    case (Inr t)
    then have t: "vm_ok (ps_vm t) R" "table_frame (ps_vm t) pml4 = R" "exhausted (vm_pmm (ps_vm t)) \<or>
        (\<exists>F. length F = n \<and> image_mapped R base F (ps_vm t) \<and> holds_image F (\<lambda>_. 0) t)"
      using IH by simp_all
    have n: "n < 2 ^ 36" using Suc.prems by simp
    have run: "fold_until (map_image_page pml4 base) [0..<Suc n] s = map_image_page pml4 base n t"
      by (simp add: fold_until_append Inr split: sum.split)
    show ?thesis
    proof (cases "map_image_page pml4 base n t")
      case Inl': (Inl u)
      then show ?thesis using map_image_page_none [OF t(1) Inl'] by (simp only: run sum.case)
    next
      case Inr': (Inr u)
      then have "\<not> exhausted (vm_pmm (ps_vm t))" using map_image_page_exhausted [OF t(1,2)] by auto
      then obtain F where F: "length F = n" "image_mapped R base F (ps_vm t)" "holds_image F (\<lambda>_. 0) t" using t(3) by blast
      show ?thesis using map_image_page_step [OF t(1,2) al n F Inr'] F(1) unfolding run Inr' sum.case
        by (auto intro: exI [of _ "F @ [_]"])
    qed
  qed
qed

lemma image_mapped_translated:
  fixes base :: u64
  assumes ok: "vm_ok v R" and R: "table_frame v pml4 = R" and al: "unat base mod 4096 = 0" and n: "length F \<le> 2 ^ 36"
    and F: "image_mapped R base F v"
  shows "translated pml4 base F v"
  unfolding translated_def
proof (intro allI impI)
  fix i off
  assume i: "i < length F" and off: "off < (4096 :: nat)"
  let ?v = "base + of_nat i * PAGE_SIZE + of_nat off" and ?f = "F ! i"
  have i36: "i < 2 ^ 36" using i n by simp
  have "page_slot ?v = page_slot (base + of_nat i * PAGE_SIZE)"
    using page_shift(1) [OF i36 off al] page_shift(1) [OF i36 _ al, of 0] by (simp add: page_slot_eq)
  then have e: "page_table v R (page_slot ?v) = frame_addr ?f OR VMM_USER_FLAGS" using F i by (simp add: image_mapped_def)
  have "?f < frame_limit" using F i by (auto simp: image_mapped_def distinct_frames_def)
  note f = frame_entry [OF this, of VMM_USER_FLAGS]
  show "VmmGetPhysical pml4 ?v v = frame_addr ?f + of_nat off"
    using f page_shift(2) [OF i36 off al]
    by (simp add: VmmGetPhysical_map [of v pml4, unfolded R, OF ok] Let_def e) (simp add: VMM_USER_FLAGS_def or.assoc)
qed

section \<open>The image\<close>

definition pe_image :: "buf \<Rightarrow> nat \<Rightarrow> u8" where
  "pe_image b = fold (section_bytes b) [0..<unat (NumberOfSections b)] (overlay 0 (unat (SizeOfHeaders b)) b 0 (\<lambda>_. 0))"

lemma split_offset: "(of_nat k :: u64) = of_nat (k div 4096) * PAGE_SIZE + of_nat (k mod 4096)"
proof -
  have "(of_nat k :: u64) = of_nat (k div 4096 * 4096 + k mod 4096)" by simp
  then show ?thesis by (simp only: of_nat_add of_nat_mult PAGE_SIZE_def of_nat_numeral)
qed

lemma image_pages_limit: "image_pages b \<le> 2 ^ 36"
proof -
  have lt: "unat (SizeOfImage b) < 2 ^ 32" using unsigned_less [of "SizeOfImage b", where 'a = nat] by simp
  have "(ucast (SizeOfImage b) :: u64) + PAGE_SIZE - 1 = of_nat (unat (SizeOfImage b) + 4095)" by (simp add: PAGE_SIZE_def)
  then have "unat ((ucast (SizeOfImage b) :: u64) + PAGE_SIZE - 1) = unat (SizeOfImage b) + 4095"
    using lt by (simp only: unat_of_nat) (simp add: take_bit_nat_eq_self)
  then have "image_pages b = (unat (SizeOfImage b) + 4095) div 4096" by (simp add: image_pages_def unat_div PAGE_SIZE_def)
  then show ?thesis using lt by simp
qed

text \<open>The lines of \<open>load_image\<close> between the headers and the permissions.\<close>

lemma load_image_space:
  assumes ok: "vm_ok (ps_vm s) R" and R: "table_frame (ps_vm s) pml4 = R"
    and tr: "translated pml4 (ImageBase b) F (ps_vm s)" and F: "distinct_frames F" "F \<noteq> []"
    and al: "unat (ImageBase b) mod 4096 = 0" and hdr: "unat (SizeOfHeaders b) \<le> 4096"
    and fits: "\<forall>i<unat (NumberOfSections b). section_fits (length F) b i" and M: "holds_image F (\<lambda>_. 0) s"
  shows "\<exists>u m. load_image pml4 b s = Some u \<and> same_space pml4 R (s\<lparr>k_phys := m\<rparr>) u \<and> holds_image F (pe_image b) (s\<lparr>k_phys := m\<rparr>)"
proof -
  let ?hb = "overlay 0 (unat (SizeOfHeaders b)) b 0 (\<lambda>_. 0)"
  define p where "p = VmmGetPhysical pml4 (ImageBase b) (ps_vm s)"
  define s1 where "s1 = phys_copy p b 0 (ucast (SizeOfHeaders b)) s"
  have F0: "0 < length F" using F(2) by simp
  have p: "p = frame_addr (F ! 0)" using translated_page [OF tr F0] by (simp add: p_def)
  have "F ! 0 \<in> set F" using F0 by simp
  then have "0 < F ! 0" "F ! 0 < frame_limit" using F(1) by (auto simp: distinct_frames_def)
  then have pz: "p \<noteq> 0" using unat_frame [of "F ! 0"] by (auto simp: p)
  have h: "holds_image F ?hb s1"
    using image_copy [OF F(1) F0, of 0 "unat (SizeOfHeaders b)", OF _ M, of b 0] hdr by (simp add: s1_def p)
  have tr1: "translated pml4 (ImageBase b) F (ps_vm s1)" using tr by (simp add: s1_def)
  obtain m where m: "bind_all (load_section pml4 b) [0..<unat (NumberOfSections b)] s1 = Some (s1\<lparr>k_phys := m\<rparr>)"
    "holds_image F (pe_image b) (s1\<lparr>k_phys := m\<rparr>)"
    using load_sections_image [OF F(1) fits al h tr1] unfolding pe_image_def by blast
  have s1m: "s1\<lparr>k_phys := m\<rparr> = s\<lparr>k_phys := m\<rparr>" by (simp add: s1_def phys_copy_def)
  define s2 where "s2 = s\<lparr>k_phys := m\<rparr>"
  have v2: "ps_vm s2 = ps_vm s" by (simp add: s2_def)
  define s3 where "s3 = set_vm (VmmMapPage pml4 (ImageBase b) p (VMM_PRESENT OR VMM_USER OR VMM_NX) (ps_vm s2)) s2"
  have "vm_ok (ps_vm s2) R" "table_frame (ps_vm s2) pml4 = R" using ok R by (simp_all add: v2)
  then have s3: "same_space pml4 R s2 s3"
    unfolding s3_def by (intro remap_space sec_flags_mapping pz) (simp_all add: v2 p_def)
  define u where "u = fold (protect_section pml4 b) [0..<unat (NumberOfSections b)] s3"
  have u: "same_space pml4 R s2 u" unfolding u_def by (intro fold_space protect_section_space s3)
  have "load_image pml4 b s = Some u"
    unfolding load_image_def Let_def p_def [symmetric] s1_def [symmetric] m(1) bind.simps s1m s2_def [symmetric] u_def s3_def
    using pz by simp
  then show ?thesis using u m(2) unfolding s1m s2_def by blast
qed

text \<open>C26: the loader builds the image that the headers of the file describe.  For a file whose base is
  page aligned, whose headers fit in a page and whose sections lie inside the image, either the
  memory manager runs out of frames or the address space of the process translates every address of
  the image, and the byte found there is the byte of the image: of the headers, of the raw data of
  the last section that covers it, or zero.  The permissions set at the end change no translation
  and no byte.\<close>

theorem load_image_correct:
  assumes ok: "vm_ok (ps_vm s) (table_frame (ps_vm s) pml4)" and al: "unat (ImageBase b) mod 4096 = 0"
    and hdr: "unat (SizeOfHeaders b) \<le> 4096" and n: "0 < image_pages b"
    and fits: "\<forall>i<unat (NumberOfSections b). section_fits (image_pages b) b i"
  shows "case fold_until (map_image_page pml4 (ImageBase b)) [0..<image_pages b] s of
      Inl t \<Rightarrow> exhausted (vm_pmm (ps_vm t))
    | Inr t \<Rightarrow> exhausted (vm_pmm (ps_vm t)) \<or> (\<exists>u. load_image pml4 b t = Some u \<and>
        (\<forall>k<image_pages b * 4096. VmmGetPhysical pml4 (ImageBase b + of_nat k) (ps_vm u) \<noteq> 0 \<and>
           k_phys u (VmmGetPhysical pml4 (ImageBase b + of_nat k) (ps_vm u)) = pe_image b k))"
proof (cases "fold_until (map_image_page pml4 (ImageBase b)) [0..<image_pages b] s")
  case (Inl t)
  then show ?thesis using map_image_pages [OF ok refl al image_pages_limit, of b] by simp
next
  case (Inr t)
  let ?R = "table_frame (ps_vm s) pml4" and ?N = "image_pages b"
  have t: "vm_ok (ps_vm t) ?R" "table_frame (ps_vm t) pml4 = ?R" "exhausted (vm_pmm (ps_vm t)) \<or>
      (\<exists>F. length F = ?N \<and> image_mapped ?R (ImageBase b) F (ps_vm t) \<and> holds_image F (\<lambda>_. 0) t)"
    using map_image_pages [OF ok refl al image_pages_limit, of b] Inr by simp_all
  have "\<exists>u. load_image pml4 b t = Some u \<and>
        (\<forall>k<?N * 4096. VmmGetPhysical pml4 (ImageBase b + of_nat k) (ps_vm u) \<noteq> 0 \<and>
           k_phys u (VmmGetPhysical pml4 (ImageBase b + of_nat k) (ps_vm u)) = pe_image b k)"
    if "\<not> exhausted (vm_pmm (ps_vm t))"
  proof -
    obtain F where F: "length F = ?N" "image_mapped ?R (ImageBase b) F (ps_vm t)" "holds_image F (\<lambda>_. 0) t" using t(3) \<open>\<not> _\<close> by blast
    have tr: "translated pml4 (ImageBase b) F (ps_vm t)"
      by (rule image_mapped_translated [OF t(1,2) al _ F(2)]) (use image_pages_limit [of b] F(1) in simp)
    have fok: "distinct_frames F" "F \<noteq> []" using F(1,2) n by (auto simp: image_mapped_def)
    obtain u m where u: "load_image pml4 b t = Some u" "same_space pml4 ?R (t\<lparr>k_phys := m\<rparr>) u" "holds_image F (pe_image b) (t\<lparr>k_phys := m\<rparr>)"
      using load_image_space [OF t(1,2) tr fok al hdr _ F(3)] fits unfolding F(1) by blast
    have "VmmGetPhysical pml4 (ImageBase b + of_nat k) (ps_vm u) = frame_byte F k \<and> frame_byte F k \<noteq> 0 \<and> k_phys u (frame_byte F k) = pe_image b k"
      if k: "k < ?N * 4096" for k
    proof -
      have ix: "k div 4096 < length F" using k F(1) by (simp add: less_mult_imp_div_less)
      have "0 < F ! (k div 4096)" "F ! (k div 4096) < frame_limit" using fok(1) ix by (auto simp: distinct_frames_def)
      then have "frame_byte F k \<noteq> 0" using unat_frame_byte [of "F ! (k div 4096)" "k mod 4096"] by (auto simp: frame_byte_def)
      moreover have "VmmGetPhysical pml4 (ImageBase b + of_nat k) (ps_vm t) = frame_byte F k"
        using tr ix unfolding translated_def by (subst split_offset) (simp add: frame_byte_def add.assoc)
      ultimately show ?thesis using u(2,3) k F(1) by (simp add: same_space_def holds_image_def)
    qed
    then show ?thesis using u(1) by auto
  qed
  then show ?thesis using Inr by auto
qed

text \<open>Loading ends on every file.\<close>

lemma load_pages_returns: "off < 4096 \<Longrightarrow> \<exists>t. load_pages pml4 b va (of_nat off) raw remaining s = Some t"
proof (induction "unat remaining" arbitrary: va off raw remaining s rule: less_induct)
  case less
  define c where "c = (ucast (PAGE_SIZE - of_nat off :: u64) :: u32)"
  have "unat (PAGE_SIZE - of_nat off :: u64) = 4096 - off"
    using less.prems by (simp add: unat_sub_if' PAGE_SIZE_def unat_of_nat take_bit_nat_eq_self)
  then have c: "unat c = 4096 - off" by (simp add: c_def unsigned_ucast_eq take_bit_nat_eq_self)
  show ?case
  proof (cases "remaining = 0 \<or> VmmGetPhysical pml4 va (ps_vm s) = 0 \<or> c > remaining")
    case True
    have z: "load_pages pml4 b w o' r' 0 t = Some t" for w o' r' t by (subst load_pages.simps) simp
    show ?thesis using True by (subst load_pages.simps) (auto simp: Let_def z simp flip: c_def)
  next
    case False
    then have "unat (remaining - c) < unat remaining"
      using c less.prems by (auto simp: unat_sub not_less word_le_nat_alt)
    from less.hyps [OF this, of 0] show ?thesis using False by (subst load_pages.simps) (auto simp: Let_def simp flip: c_def)
  qed
qed

text \<open>C27: the loader comes to an end on every file, whatever its headers say and wherever they point: a file
  with any contents, sections that overlap or lie outside of the image included, never makes it
  loop.\<close>

theorem load_image_ends: "load_image pml4 b s \<noteq> None"
proof -
  have one: "\<exists>u. load_section pml4 b i t = Some u" for i t
  proof -
    let ?v = "ImageBase b + ucast (VirtualAddress b i) :: u64"
    have "?v AND 0xFFF = take_bit 12 ?v" by (simp add: take_bit_eq_mask mask_eq_exp_minus_1)
    then have "unat (?v AND 0xFFF) < 4096" by (simp only: unsigned_take_bit_eq) (simp add: take_bit_eq_mod)
    note r = load_pages_returns [OF this, of pml4 b "?v AND NOT 0xFFF" "PointerToRawData b i" "SizeOfRawData b i" t]
    show ?thesis using r by (simp add: load_section_def Let_def)
  qed
  have "\<exists>u. bind_all (load_section pml4 b) [0..<n] t = Some u" for n t
  proof (induction n)
    case (Suc n)
    then obtain u where "bind_all (load_section pml4 b) [0..<n] t = Some u" ..
    then show ?case using one [of n u] by (simp only: bind_all_Suc bind.simps)
  qed (simp add: bind_all_def)
  then show ?thesis by (auto simp: load_image_def Let_def split: Option.bind_splits)
qed

section \<open>A small program\<close>

text \<open>How many frames an operation takes at most.\<close>

definition free_pages :: "pmm \<Rightarrow> nat set" where
  "free_pages b = {n. n < highest_page b \<and> \<not> page_used b n}"

definition takes :: "nat \<Rightarrow> pmm \<Rightarrow> pmm \<Rightarrow> bool" where
  "takes k b b' \<longleftrightarrow> (pmm_ok b \<longrightarrow> pmm_ok b' \<and> card (free_pages b) \<le> card (free_pages b') + k)"

lemma takes_same [simp]: "takes k b b"
  by (simp add: takes_def)

lemma takes_trans: "takes k a b \<Longrightarrow> takes l b c \<Longrightarrow> takes (k + l) a c"
  by (auto simp: takes_def)

lemma takes_mono: "takes k a b \<Longrightarrow> k \<le> l \<Longrightarrow> takes l a b"
  by (auto simp: takes_def)

lemma takes_pin [simp]: "takes k b (PmmPinPage a c) = takes k b c"
  by (simp add: takes_def free_pages_def page_used_def)

lemma takes_alloc: "takes 1 b (snd (PmmAllocPage b))"
proof (cases "pmm_ok b")
  case True
  note r = PmmAllocPage_result [OF True]
  show ?thesis
  proof (cases "fst (PmmAllocPage b) = 0")
    case False
    let ?a = "page_no (fst (PmmAllocPage b))" and ?c = "snd (PmmAllocPage b)"
    note p = alloc_result_pages(5,6) [OF True r False]
    have "highest_page b \<le> page_limit" using True by (simp add: pmm_ok_def)
    then have "free_pages b - {?a} \<subseteq> free_pages ?c" using p by (auto simp: free_pages_def)
    moreover have "finite (free_pages c)" for c by (simp add: free_pages_def)
    ultimately have "card (free_pages b) - card {?a} \<le> card (free_pages ?c)" by (meson card_mono diff_card_le_card_Diff finite.simps le_trans)
    then show ?thesis using alloc_result_ok [OF True r] by (auto simp: takes_def)
  qed (use PmmAllocPage_None [OF True] in simp)
qed (simp add: takes_def)

lemma takes_vm_alloc: "takes 1 (vm_pmm s) (vm_pmm (snd (vm_alloc s)))"
  using takes_alloc by (simp add: vm_alloc_def case_prod_unfold Let_def)

lemma takes_next_level: "takes 1 (vm_pmm s) (vm_pmm (snd (GetNextLevel cur i flags pin s)))"
  using takes_vm_alloc [of s]
  by (simp add: GetNextLevel_def Let_def case_prod_unfold set_entry_def clear_table_def vm_pin_def)

lemma takes_map_page: "takes 3 (vm_pmm s) (vm_pmm (VmmMapPage pml4 virt phys flags s))"
proof -
  define pin where "pin = (pml4 = g_kernel_pml4 s)"
  define r1 where "r1 = GetNextLevel pml4 (PML4E_INDEX virt) flags pin s"
  define r2 where "r2 = GetNextLevel (fst r1) (PDPTE_INDEX virt) flags pin (snd r1)"
  define r3 where "r3 = GetNextLevel (fst r2) (PDE_INDEX virt) flags pin (snd r2)"
  have 1: "takes 1 (vm_pmm s) (vm_pmm (snd r1))" unfolding r1_def by (rule takes_next_level)
  have "takes (1 + 1) (vm_pmm s) (vm_pmm (snd r2))" unfolding r2_def by (rule takes_trans [OF 1 takes_next_level])
  moreover from this have "takes (1 + 1 + 1) (vm_pmm s) (vm_pmm (snd r3))" unfolding r3_def by (rule takes_trans [OF _ takes_next_level])
  ultimately have k: "takes 3 (vm_pmm s) (vm_pmm (snd r1))" "takes 3 (vm_pmm s) (vm_pmm (snd r2))" "takes 3 (vm_pmm s) (vm_pmm (snd r3))"
    using 1 by (auto intro: takes_mono)
  have "VmmMapPage pml4 virt phys flags s = (if fst r1 = 0 then snd r1 else if fst r2 = 0 then snd r2 else if fst r3 = 0 then snd r3
      else Invlpg virt (set_entry (fst r3) (PTE_INDEX virt) ((phys AND PAGE_MASK) OR flags) (snd r3)))"
    by (simp add: VmmMapPage_def pin_def [symmetric] r3_def r2_def r1_def case_prod_unfold Let_def)
  then show ?thesis using k by (simp add: set_entry_def)
qed

text \<open>A page with the headers, 0x200 bytes, and one section of four bytes at 0x300.\<close>

definition small_pe :: buf where
  "small_pe = (\<lambda>_. 0)(60 := 64, 70 := 1, 84 := 0xF0, 114 := 0x40, 145 := 0x10, 149 := 2, 341 := 3, 344 := 4, 349 := 2,
     0x200 := 1, 0x201 := 2, 0x202 := 3, 0x203 := 4)"

definition kos_space :: kos where
  "kos_space = kos_one\<lparr>ps_heap := heap_user\<lparr>hp_vm := vm_small\<rparr>\<rparr>"

lemma small_pe_headers: "e_lfanew small_pe = 64" "opt_header small_pe = 88" "ImageBase small_pe = 0x400000"
  "unat (NumberOfSections small_pe) = 1" "SizeOfImage small_pe = 0x1000" "unat (SizeOfHeaders small_pe) = 0x200"
  "image_pages small_pe = 1" "section_at small_pe 0 = 328" "VirtualAddress small_pe 0 = 0x300"
  "SizeOfRawData small_pe 0 = 4" "PointerToRawData small_pe 0 = 0x200"
proof -
  show l: "e_lfanew small_pe = 64" by (simp add: e_lfanew_def small_pe_def le32_def le16_def)
  then show o: "opt_header small_pe = 88" by (simp add: opt_header_def)
  show "ImageBase small_pe = 0x400000" by (simp add: ImageBase_def o) (simp add: small_pe_def le64_def le32_def le16_def)
  show "unat (NumberOfSections small_pe) = 1" by (simp add: NumberOfSections_def l) (simp add: small_pe_def le16_def)
  show i: "SizeOfImage small_pe = 0x1000" by (simp add: SizeOfImage_def o) (simp add: small_pe_def le32_def le16_def)
  show "unat (SizeOfHeaders small_pe) = 0x200" by (simp add: SizeOfHeaders_def o) (simp add: small_pe_def le32_def le16_def)
  show "image_pages small_pe = 1" by (simp add: image_pages_def i PAGE_SIZE_def)
  have "SizeOfOptionalHeader small_pe = 0xF0" by (simp add: SizeOfOptionalHeader_def l) (simp add: small_pe_def le16_def)
  then show s: "section_at small_pe 0 = 328" by (simp add: section_at_def o)
  show "VirtualAddress small_pe 0 = 0x300" "SizeOfRawData small_pe 0 = 4" "PointerToRawData small_pe 0 = 0x200"
    by (simp_all add: VirtualAddress_def SizeOfRawData_def PointerToRawData_def s) (simp_all add: small_pe_def le32_def le16_def)
qed

lemma kos_space_frames: "card (free_pages (vm_pmm (ps_vm kos_space))) = 6" "vm_ok (ps_vm kos_space) 0x1000" "pmm_ok (vm_pmm (ps_vm kos_space))"
  "table_frame (ps_vm kos_space) 0x1000 = 0x1000"
proof -
  have v: "ps_vm kos_space = vm_small" by (simp add: kos_space_def)
  show "vm_ok (ps_vm kos_space) 0x1000" "table_frame (ps_vm kos_space) 0x1000 = 0x1000" using vm_small_ok by (simp_all add: v)
  then show "pmm_ok (vm_pmm (ps_vm kos_space))" by (simp add: vm_ok_def)
  have "page_used (vm_pmm vm_small) n \<longleftrightarrow> n < 2" if "n < 8" for n
  proof -
    have "(3 :: u64) = mask 2" by (simp add: mask_eq_exp_minus_1)
    then have "bit (3 :: u64) n \<longleftrightarrow> n < 2" using that by (simp only: bit_mask_iff) auto
    then show ?thesis using that by (simp add: vm_small_def page_used_def BITMAP_TEST_bit)
  qed
  then have "free_pages (vm_pmm vm_small) = {2..<8}" by (auto simp: free_pages_def vm_small_def)
  then show "card (free_pages (vm_pmm (ps_vm kos_space))) = 6" by (simp add: v)
qed

lemma small_pe_mapped:
  "\<exists>t. fold_until (map_image_page 0x1000 (ImageBase small_pe)) [0..<image_pages small_pe] kos_space = Inr t \<and>
    \<not> exhausted (vm_pmm (ps_vm t))"
proof -
  let ?v = "ps_vm kos_space"
  let ?w = "snd (vm_alloc ?v)"
  define v' where "v' = VmmMapPage 0x1000 (ImageBase small_pe) (fst (vm_alloc ?v)) VMM_USER_FLAGS ?w"
  have "takes (1 + 3) (vm_pmm ?v) (vm_pmm v')" unfolding v'_def by (rule takes_trans [OF takes_vm_alloc takes_map_page])
  then have c: "card (free_pages (vm_pmm v')) \<noteq> 0" using kos_space_frames(1,3) by (simp add: takes_def)
  have "vm_pmm ?v = vm_pmm ?w" if "fst (vm_alloc ?v) = 0" using vm_alloc_none(1) [OF kos_space_frames(2) that] by simp
  moreover have "\<not> exhausted (vm_pmm ?v)"
  proof -
    obtain n where "n \<in> free_pages (vm_pmm ?v)" using kos_space_frames(1) by (metis card.empty equals0I zero_neq_numeral)
    then show ?thesis by (auto simp: free_pages_def exhausted_def)
  qed
  ultimately have nz: "fst (vm_alloc ?v) \<noteq> 0" using vm_alloc_none(2) [OF kos_space_frames(2)] by blast
  obtain n where "n \<in> free_pages (vm_pmm v')" using c by (metis card.empty equals0I)
  then have "\<not> exhausted (vm_pmm v')" by (auto simp: free_pages_def exhausted_def)
  then show ?thesis
    using nz by (simp add: small_pe_headers(7) map_image_page_def case_prod_unfold Let_def phys_zero_def set_vm_def v'_def)
qed

theorem load_image_correct_witness:
  "\<exists>t u. fold_until (map_image_page 0x1000 0x400000) [0..<1] kos_space = Inr t \<and> load_image 0x1000 small_pe t = Some u \<and>
    k_phys u (VmmGetPhysical 0x1000 (0x400000 + of_nat 0x301) (ps_vm u)) = 2"
proof -
  obtain t where t: "fold_until (map_image_page 0x1000 (ImageBase small_pe)) [0..<image_pages small_pe] kos_space = Inr t"
    "\<not> exhausted (vm_pmm (ps_vm t))" using small_pe_mapped by blast
  have "\<forall>i<unat (NumberOfSections small_pe). section_fits (image_pages small_pe) small_pe i"
    unfolding small_pe_headers(4) by (simp add: section_fits_def small_pe_headers)
  then obtain u where u: "load_image 0x1000 small_pe t = Some u"
    "\<forall>k<image_pages small_pe * 4096. k_phys u (VmmGetPhysical 0x1000 (ImageBase small_pe + of_nat k) (ps_vm u)) = pe_image small_pe k"
    using load_image_correct [of kos_space "0x1000" small_pe] t kos_space_frames(2,4) by (auto simp: small_pe_headers)
  have "pe_image small_pe 0x301 = 2"
    unfolding pe_image_def small_pe_headers(4) by (simp add: section_bytes_def overlay_def small_pe_headers) (simp add: small_pe_def)
  moreover have "0x301 < image_pages small_pe * 4096" by (simp add: small_pe_headers)
  ultimately have "k_phys u (VmmGetPhysical 0x1000 (ImageBase small_pe + of_nat 0x301) (ps_vm u)) = 2" using u(2) by metis
  then show ?thesis using t(1) u(1) by (auto simp only: small_pe_headers)
qed

end
