(* ===== verification/Syscall.thy ===== *)
theory Syscall
  imports Sys_Files_Inv Pe_Loader
begin

text \<open>
  The system calls (\<^verbatim>\<open>SyscallIsrHandler\<close> in \<^verbatim>\<open>Kernel/arch/syscall.c\<close>) and the dispatch of interrupts
  (\<^verbatim>\<open>IsrHandler\<close> in \<^verbatim>\<open>Kernel/arch/idt.c\<close>).  A handler takes the trap frame and gives the one that the
  interrupt return loads; \<open>None\<close> is a machine that does not go on: halted, or a panic of the kernel.
\<close>

section \<open>Numbers\<close>

definition SYSCALL_INT :: u64 where "SYSCALL_INT = 0x80"
definition SYS_WRITE :: u64 where "SYS_WRITE = 1"
definition SYS_EXIT :: u64 where "SYS_EXIT = 2"
definition SYS_GETPID :: u64 where "SYS_GETPID = 3"
definition SYS_MMAP :: u64 where "SYS_MMAP = 4"
definition SYS_PUTS :: u64 where "SYS_PUTS = 10"
definition SYS_GETCHAR :: u64 where "SYS_GETCHAR = 11"
definition SYS_CLEAR :: u64 where "SYS_CLEAR = 12"
definition SYS_SYSTEM :: u64 where "SYS_SYSTEM = 22"
definition SYS_SETCOLOR :: u64 where "SYS_SETCOLOR = 23"
definition SYS_GETCWD :: u64 where "SYS_GETCWD = 27"
definition SYS_FS_OPENDIR :: u64 where "SYS_FS_OPENDIR = 28"
definition SYS_FS_READDIR :: u64 where "SYS_FS_READDIR = 29"
definition SYS_FS_CLOSEDIR :: u64 where "SYS_FS_CLOSEDIR = 30"
definition SYS_FS_OPENFILE :: u64 where "SYS_FS_OPENFILE = 31"
definition SYS_FS_READFILE :: u64 where "SYS_FS_READFILE = 32"
definition SYS_FS_FILESIZE :: u64 where "SYS_FS_FILESIZE = 33"
definition SYS_FS_CLOSEFILE :: u64 where "SYS_FS_CLOSEFILE = 34"
definition SYS_FS_WRITEFILE :: u64 where "SYS_FS_WRITEFILE = 35"
definition SYS_FS_DELETE :: u64 where "SYS_FS_DELETE = 36"
definition SYS_FS_MKDIR :: u64 where "SYS_FS_MKDIR = 37"
definition SYS_EXEC :: u64 where "SYS_EXEC = 38"
definition SYS_SLEEP :: u64 where "SYS_SLEEP = 39"
definition SYS_CHDIR :: u64 where "SYS_CHDIR = 40"
definition SYS_PUTCHAR :: u64 where "SYS_PUTCHAR = 41"
definition SYS_WAITPID :: u64 where "SYS_WAITPID = 42"
definition SYS_FB_MAP :: u64 where "SYS_FB_MAP = 43"
definition SYS_GETKEY :: u64 where "SYS_GETKEY = 44"
definition SYS_OPEN :: u64 where "SYS_OPEN = 45"
definition SYS_READ :: u64 where "SYS_READ = 46"
definition SYS_LSEEK :: u64 where "SYS_LSEEK = 47"
definition SYS_CLOSEFD :: u64 where "SYS_CLOSEFD = 48"
definition SYS_AUDIO_INIT :: u64 where "SYS_AUDIO_INIT = 49"
definition SYS_AUDIO_PLAY :: u64 where "SYS_AUDIO_PLAY = 50"
definition SYS_AUDIO_STOP :: u64 where "SYS_AUDIO_STOP = 51"
definition SYS_NET_OPEN :: u64 where "SYS_NET_OPEN = 52"
definition SYS_NET_CONNECT :: u64 where "SYS_NET_CONNECT = 53"
definition SYS_NET_SEND :: u64 where "SYS_NET_SEND = 54"
definition SYS_NET_RECV :: u64 where "SYS_NET_RECV = 55"
definition SYS_NET_CLOSE :: u64 where "SYS_NET_CLOSE = 56"
definition SYS_DNS_RESOLVE :: u64 where "SYS_DNS_RESOLVE = 57"
definition SYS_SYS_REBOOT :: u64 where "SYS_SYS_REBOOT = 0"
definition SYS_SYS_HALT :: u64 where "SYS_SYS_HALT = 1"
definition SYS_SYS_TICKS :: u64 where "SYS_SYS_TICKS = 2"
definition SYS_SYS_MEMINFO :: u64 where "SYS_SYS_MEMINFO = 3"
definition SYS_SYS_PS :: u64 where "SYS_SYS_PS = 4"
definition SYS_SYS_MEMUSED :: u64 where "SYS_SYS_MEMUSED = 5"
definition SYS_SYS_DISKSIZE :: u64 where "SYS_SYS_DISKSIZE = 6"
definition SYS_SYS_IP :: u64 where "SYS_SYS_IP = 7"
definition SYS_SYS_VERSION :: u64 where "SYS_SYS_VERSION = 8"
definition SYS_SYS_DISKFREE :: u64 where "SYS_SYS_DISKFREE = 9"
definition PS_INFO_MAX :: u32 where "PS_INFO_MAX = 32"

section \<open>The environment of a call\<close>

text \<open>
  \<open>env_irqs\<close>: what the interrupts do that arrive while a call waits with \<^verbatim>\<open>hlt\<close>; \<open>env_past\<close>: what the
  memory holds behind the buffer of a program file; \<open>env_fuel\<close>: the bound on the search of a capability
  list of the sound controller.
\<close>

record sys_env =
  env_irqs :: "(kos \<Rightarrow> kos) list"
  env_past :: "nat \<Rightarrow> u8"
  env_fuel :: nat

text \<open>
  The network calls run on the state of the network.  While they wait the rest of the kernel goes on
  with the interrupts: it travels in the extension of the network's record.
\<close>

definition join_net :: "kos \<Rightarrow> kos netstack_scheme" where
  "join_net s = netstack.extend ((k_net s)\<lparr>tick_count := g_tick_count s\<rparr>) s"

definition split_net :: "kos netstack_scheme \<Rightarrow> kos" where
  "split_net e = (netstack.more e)\<lparr>k_net := netstack.truncate e\<rparr>"

definition with_net :: "((kos netstack_scheme \<Rightarrow> kos netstack_scheme) list \<Rightarrow> kos netstack_scheme \<Rightarrow>
    ('r \<times> (kos netstack_scheme \<Rightarrow> kos netstack_scheme) list \<times> kos netstack_scheme) option) \<Rightarrow>
    (kos \<Rightarrow> kos) list \<Rightarrow> kos \<Rightarrow> ('r \<times> kos) option" where
  "with_net f irqs s =
    map_option (\<lambda>(r, _, e). (r, split_net e)) (f (map (\<lambda>irq e. join_net (irq (split_net e))) irqs) (join_net s))"

section \<open>The console\<close>

text \<open>\<open>SerialPutChar\<close> waits for the port to be ready.\<close>

definition SerialPutChar :: "u8 \<Rightarrow> kos \<Rightarrow> kos" where
  "SerialPutChar c s = s\<lparr>k_serial := k_serial s @ [c]\<rparr>"

definition fb_call :: "(framebuffer \<Rightarrow> framebuffer) \<Rightarrow> kos \<Rightarrow> kos" where
  "fb_call f s = s\<lparr>k_fb := f (k_fb s)\<rparr>"

definition sys_puts :: "u64 \<Rightarrow> kos \<Rightarrow> kos option" where
  "sys_puts ptr s =
    (if SysUserPtr ptr = 0 then Some s
     else do { str \<leftarrow> user_string ptr s; Some (fold SerialPutChar str (fb_call (FbPrintString str) s)) })"

definition write_char :: "u8 \<Rightarrow> framebuffer \<Rightarrow> framebuffer" where
  "write_char c f = FbPutChar c (if c = 10 then FbPutChar 13 f else f)"

definition sys_write :: "u64 \<Rightarrow> u64 \<Rightarrow> u64 \<Rightarrow> kos \<Rightarrow> kos option" where
  "sys_write fd ptr count s =
    (if fd = 1 \<and> SysUserPtr ptr \<noteq> 0
     then do { str \<leftarrow> loads ptr (unat count) s; Some (fb_call (fold write_char str) s) }
     else Some s)"

definition sys_putchar :: "u64 \<Rightarrow> kos \<Rightarrow> kos" where
  "sys_putchar c s = SerialPutChar (ucast c) (fb_call (FbPutChar (ucast c)) s)"

text \<open>A character is signed.\<close>

definition sys_getchar :: "kos \<Rightarrow> (u64 \<times> kos) option" where
  "sys_getchar s =
    (if KeyboardHasChar (k_kbd s)
     then map_option (\<lambda>(c, k). (scast c, s\<lparr>k_kbd := k\<rparr>)) (KeyboardGetChar [] (k_kbd s))
     else Some (0, s))"

definition sys_getkey :: "u64 \<Rightarrow> kos \<Rightarrow> (u64 \<times> kos) option" where
  "sys_getkey ptr s =
    (if SysUserPtr ptr = 0 then Some (EFAIL, s)
     else let (ev, k) = KeyboardGetKeyEvent (k_kbd s); s = s\<lparr>k_kbd := k\<rparr>
     in case ev of
          None \<Rightarrow> Some (0, s)
        | Some e \<Rightarrow> in_process (\<lambda>s. map_option (Pair 1) (stores ptr (u32_bytes (ev_scancode e) @ u32_bytes (ev_pressed e)) s)) s)"

section \<open>Memory\<close>

definition current_pid :: "kos \<Rightarrow> u64" where
  "current_pid s = (let t = PsGetCurrentThread s in if t \<noteq> 0 \<and> th_process (thread s t) \<noteq> 0 then pid (process s (th_process (thread s t))) else 0)"

text \<open>\<open>Inl\<close> leaves the loop: there is no frame left.\<close>

definition mmap_page :: "u64 \<Rightarrow> u64 \<Rightarrow> nat \<Rightarrow> kos \<Rightarrow> kos + kos" where
  "mmap_page pml4 virt i s =
    (let (phys, v) = vm_alloc (ps_vm s); s = set_vm v s
     in if phys = 0 then Inl s
        else Inr (set_vm (VmmMapPage pml4 (virt + of_nat i * PAGE_SIZE) phys VMM_USER_FLAGS (ps_vm s)) s))"

definition sys_mmap :: "u64 \<Rightarrow> kos \<Rightarrow> u64 \<times> kos" where
  "sys_mmap req s =
    (let t = PsGetCurrentThread s; proc = th_process (thread s t)
     in if t = 0 \<or> proc = 0 then (0, s)
        else
          let len = (req + PAGE_SIZE - 1) AND NOT 0xFFF;
              pml4 = PHYS_TO_VIRT (ps_vm s) (p_page_table (process s proc));
              virt = heap_brk (process s proc);
              s = (case fold_until (mmap_page pml4 virt) [0..<unat (len div PAGE_SIZE)] s of Inl s \<Rightarrow> s | Inr s \<Rightarrow> s)
          in (virt, upd_process proc (\<lambda>p. p\<lparr>heap_brk := virt + len\<rparr>) s))"

definition sys_fb_map :: "u64 \<Rightarrow> kos \<Rightarrow> (u64 \<times> kos) option" where
  "sys_fb_map ptr s =
    (let t = PsGetCurrentThread s; proc = th_process (thread s t)
     in case g_boot_info s of
          None \<Rightarrow> Some (0, s)
        | Some bi \<Rightarrow>
            if t = 0 \<or> proc = 0 then Some (0, s)
            else if SysUserPtr ptr = 0 then Some (EFAIL, s)
            else
              let pages = (ucast (fb_pitch bi) * ucast (fb_height bi) + PAGE_SIZE - 1) div PAGE_SIZE;
                  pml4 = PHYS_TO_VIRT (ps_vm s) (p_page_table (process s proc));
                  virt = heap_brk (process s proc);
                  s = set_vm (VmmMapPages pml4 virt (fb_base bi) pages (VMM_USER_FLAGS OR VMM_WRITABLE) (ps_vm s)) s;
                  s = upd_process proc (\<lambda>p. p\<lparr>heap_brk := virt + pages * PAGE_SIZE\<rparr>) s;
                  info = u64_bytes virt @ u32_bytes (fb_width bi) @ u32_bytes (fb_height bi) @ u32_bytes (fb_pitch bi) @ u32_bytes (fb_bpp bi)
              in in_process (\<lambda>s. map_option (Pair 0) (stores ptr info s)) s)"

section \<open>Information about the system\<close>

definition MICRONT_VERSION :: "u8 list" where "MICRONT_VERSION = [0x30, 0x2E, 0x35]"

fun state_code :: "process_state \<Rightarrow> u32" where
  "state_code PROCESS_RUNNING = 0"
| "state_code PROCESS_READY = 1"
| "state_code PROCESS_BLOCKED = 2"
| "state_code PROCESS_TERMINATED = 3"
| "state_code PROCESS_ZOMBIE = 4"

text \<open>A \<^verbatim>\<open>PsInfoEntry\<close>, 80 bytes.\<close>

definition ps_entry :: "kprocess \<Rightarrow> u8 list" where
  "ps_entry p = take 62 (p_name p) @ replicate (64 - length (take 62 (p_name p))) 0
     @ u64_bytes (pid p) @ u32_bytes (state_code (p_state p)) @ u32_bytes (thread_count p)"

definition sys_ps :: "u64 \<Rightarrow> u64 \<Rightarrow> kos \<Rightarrow> (u64 \<times> kos) option" where
  "sys_ps ptr count s =
    (if SysUserPtr ptr = 0 then Some (0, s)
     else
       let limit = (if ucast count > PS_INFO_MAX then PS_INFO_MAX else ucast count);
           ps = take (unat limit) (filter (\<lambda>p. p_state (process s p) \<noteq> PROCESS_TERMINATED) (g_process_list s))
       in map_option (Pair (of_nat (length ps))) (stores ptr (concat (map (\<lambda>p. ps_entry (process s p)) ps)) s))"

definition sys_version :: "u64 \<Rightarrow> kos \<Rightarrow> (u64 \<times> kos) option" where
  "sys_version ptr s =
    (if SysUserPtr ptr = 0 then Some (0, s) else map_option (Pair 0) (stores ptr (MICRONT_VERSION @ [0]) s))"

definition sys_system :: "trap_frame \<Rightarrow> kos \<Rightarrow> (u64 \<times> kos) option" where
  "sys_system frame s =
    (let cmd = rbx frame
     in if cmd = SYS_SYS_REBOOT then None
        else if cmd = SYS_SYS_HALT then None
        else if cmd = SYS_SYS_TICKS then Some (KeGetTickCount s, s)
        else if cmd = SYS_SYS_MEMINFO then Some (case g_boot_info s of None \<Rightarrow> 0 | Some bi \<Rightarrow> total_usable_memory bi, s)
        else if cmd = SYS_SYS_PS then sys_ps (rcx frame) (rdx frame) s
        else if cmd = SYS_SYS_MEMUSED then Some (PmmGetUsedPages (vm_pmm (ps_vm s)) * PAGE_SIZE, s)
        else if cmd = SYS_SYS_DISKSIZE then Some (Fat32GetVolumeSize (k_fat s), s)
        else if cmd = SYS_SYS_IP then Some (ucast (Ipv4OurIp (k_net s)), s)
        else if cmd = SYS_SYS_VERSION then sys_version (rcx frame) s
        else if cmd = SYS_SYS_DISKFREE then fs (\<lambda>t. Some (Fat32GetFreeSize t)) s
        else Some (EFAIL, s))"

section \<open>Sound\<close>

definition sys_audio_init :: "nat \<Rightarrow> kos \<Rightarrow> u64 \<times> kos" where
  "sys_audio_init fuel s =
    (let ((h, v), d) = snd (run_state (AudioInit fuel trace_bus) ((k_hda s, ps_vm s), k_hw s));
         s = set_vm v (s\<lparr>k_hda := h, k_hw := d\<rparr>)
     in (if AudioInitialized h then 0 else EFAIL, s))"

text \<open>The loop \<^verbatim>\<open>for (v = start_virt; v < end_virt; v += PAGE_SIZE)\<close>.\<close>

definition range_mapped :: "u64 \<Rightarrow> u64 \<Rightarrow> u32 \<Rightarrow> vmm \<Rightarrow> bool" where
  "range_mapped pml4 buf len v =
    (let start_virt = buf AND NOT 0xFFF; end_virt = (buf + ucast len + PAGE_SIZE - 1) AND NOT 0xFFF
     in start_virt < end_virt \<longrightarrow> (\<forall>i<unat ((end_virt - start_virt) div PAGE_SIZE). VmmGetPhysical pml4 (start_virt + of_nat i * PAGE_SIZE) v \<noteq> 0))"

text \<open>The buffer is read where the pages are mapped, which has been tested.\<close>

definition sys_audio_play :: "u64 \<Rightarrow> u64 \<Rightarrow> kos \<Rightarrow> u64 \<times> kos" where
  "sys_audio_play ptr len s =
    (let n = ucast len :: u32; t = PsGetCurrentThread s; proc = th_process (thread s t)
     in if SysUserPtr ptr = 0 \<or> n = 0 then (EFAIL, s)
        else if t \<noteq> 0 \<and> proc \<noteq> 0 \<and> \<not> range_mapped (PHYS_TO_VIRT (ps_vm s) (p_page_table (process s proc))) ptr n (ps_vm s)
        then (EFAIL, s)
        else
          let data = (\<lambda>i. k_phys s (mmu (ps_vm s) (ptr + of_nat i)));
              (st, h, d) = run_state (AudioPlay trace_bus (g_tick_count s) (Some data) n) (k_hda s, k_hw s)
          in (status_ret st, s\<lparr>k_hda := h, k_hw := d\<rparr>))"

definition sys_audio_stop :: "kos \<Rightarrow> kos" where
  "sys_audio_stop s =
    (let (_, h, d) = run_state (AudioStop trace_bus) (k_hda s, k_hw s) in s\<lparr>k_hda := h, k_hw := d\<rparr>)"

section \<open>Network\<close>

definition sys_net_open :: "kos \<Rightarrow> (u64 \<times> kos) option" where
  "sys_net_open s = with_net (\<lambda>irqs n. case TcpSocketCreate n of (r, n) \<Rightarrow> Some (of_int r, irqs, n)) [] s"

definition sys_net_connect :: "(kos \<Rightarrow> kos) list \<Rightarrow> trap_frame \<Rightarrow> kos \<Rightarrow> (u64 \<times> kos) option" where
  "sys_net_connect irqs frame s =
    map_option (\<lambda>(st, s). (status_ret st, s))
      (with_net (TcpConnect (sint (ucast (rbx frame) :: i32)) (ucast (rcx frame)) (ucast (rdx frame))) irqs s)"

text \<open>The bytes of the program are read at once, when the socket is one that sends.\<close>

definition sends :: "int \<Rightarrow> kos \<Rightarrow> bool" where
  "sends n s \<longleftrightarrow> in_range n \<and> used (sock (nat n) (k_net s)) \<and> sk_state (sock (nat n) (k_net s)) = TCP_ESTABLISHED"

definition bytes_buf :: "u8 list \<Rightarrow> buf" where
  "bytes_buf bs = (\<lambda>i. if i < length bs then bs ! i else 0)"

definition sys_net_send :: "(kos \<Rightarrow> kos) list \<Rightarrow> trap_frame \<Rightarrow> kos \<Rightarrow> (u64 \<times> kos) option" where
  "sys_net_send irqs frame s =
    (let n = sint (ucast (rbx frame) :: i32); len = ucast (rdx frame) :: u16
     in if SysUserPtr (rcx frame) = 0 then Some (EFAIL, s)
        else do {
          bytes \<leftarrow> (if sends n s then loads (rcx frame) (unat len) s else Some []);
          (r, s) \<leftarrow> with_net (TcpSend n (Some (bytes_buf bytes)) len) irqs s;
          Some (of_int r, s)
        })"

definition sys_net_recv :: "(kos \<Rightarrow> kos) list \<Rightarrow> trap_frame \<Rightarrow> kos \<Rightarrow> (u64 \<times> kos) option" where
  "sys_net_recv irqs frame s =
    (if SysUserPtr (rcx frame) = 0 then Some (EFAIL, s)
     else do {
       ((r, out), s) \<leftarrow> with_net (TcpRecv (sint (ucast (rbx frame) :: i32)) (\<lambda>_. 0) (ucast (rdx frame)) (ucast (rsi frame))) irqs s;
       s \<leftarrow> stores (rcx frame) (map out [0..<nat r]) s;
       Some (of_int r, s)
     })"

definition sys_net_close :: "(kos \<Rightarrow> kos) list \<Rightarrow> trap_frame \<Rightarrow> kos \<Rightarrow> (u64 \<times> kos) option" where
  "sys_net_close irqs frame s =
    map_option (\<lambda>(st, s). (status_ret st, s)) (with_net (TcpClose (sint (ucast (rbx frame) :: i32))) irqs s)"

definition sys_dns_resolve :: "(kos \<Rightarrow> kos) list \<Rightarrow> trap_frame \<Rightarrow> kos \<Rightarrow> (u64 \<times> kos) option" where
  "sys_dns_resolve irqs frame s =
    (if SysUserPtr (rbx frame) = 0 then Some (0, s)
     else do {
       hostname \<leftarrow> user_string (rbx frame) s;
       (ip, s) \<leftarrow> with_net (DnsResolve hostname) irqs s;
       Some (ucast ip, s)
     })"

section \<open>Starting a program\<close>

text \<open>The arguments: at most 500 bytes; no pointer is no arguments.\<close>

definition exec_args :: "u64 \<Rightarrow> kos \<Rightarrow> u8 list option" where
  "exec_args ptr s =
    (if SysUserPtr ptr = 0 then Some []
     else map_option (\<lambda>str. let alen = of_nat (length str) :: u32 in take (unat (if alen > 500 then 500 else alen)) str) (user_string ptr s))"

text \<open>
  The current directory and the arguments go to the top of the child's stack, through the child's
  address space; its registers \<^verbatim>\<open>rcx\<close> and \<^verbatim>\<open>rbx\<close> point at them.
\<close>

definition push_args :: "u64 \<Rightarrow> u8 list \<Rightarrow> kos \<Rightarrow> kos option" where
  "push_args child args s =
    (let saved_cr3 = vm_cr3 (ps_vm s); c = th_context (thread s child); sp = cx_rsp c; cwd = g_current_directory s;
         args_addr = sp + of_nat (length cwd) + 1
     in do {
       s \<leftarrow> stores sp (cwd @ [0]) (writecr3 (cx_cr3 c) s);
       s \<leftarrow> stores args_addr (args @ [0]) s;
       Some (writecr3 saved_cr3 (upd_thread child (\<lambda>h. h\<lparr>th_context := (th_context h)\<lparr>rcx := sp, rbx := args_addr, rdx := 0\<rparr>\<rparr>) s))
     })"

text \<open>Without a boot information the kernel maps neither its image nor the framebuffer.\<close>

definition no_boot :: boot_info where
  "no_boot = \<lparr>kernel_image_base = 0, kernel_image_size = 0, fb_base = 0, fb_size = 0\<rparr>"

definition boot_of :: "kos \<Rightarrow> boot_info" where
  "boot_of s = (case g_boot_info s of None \<Rightarrow> no_boot | Some bi \<Rightarrow> boot_info.truncate bi)"

definition sys_exec :: "sys_env \<Rightarrow> trap_frame \<Rightarrow> kos \<Rightarrow> (trap_frame \<times> kos) option" where
  "sys_exec env frame s =
    (if SysUserPtr (rbx frame) = 0 then Some (sys_ret EFAIL frame s)
     else do {
       path \<leftarrow> user_path (rbx frame) s;
       (status, proc, s) \<leftarrow> PeLoadProgram (boot_of s) (env_past env) path s;
       if NT_ERROR status \<or> proc = 0 then Some (sys_ret EFAIL frame s)
       else
         let child = threads (process s proc) 0
         in if child = 0 then map_option (sys_ret EFAIL frame) (PsDestroyProcess proc s)
            else do {
              args \<leftarrow> exec_args (rcx frame) s;
              s \<leftarrow> push_args child args s;
              Some (exec_start proc child frame s)
            }
     })"

section \<open>The dispatcher\<close>

text \<open>The calls during which interrupts are off.\<close>

definition atomic_call :: "u64 \<Rightarrow> bool" where
  "atomic_call n \<longleftrightarrow> n \<in> {SYS_FS_OPENDIR, SYS_FS_READDIR, SYS_FS_CLOSEDIR, SYS_FS_OPENFILE, SYS_FS_READFILE, SYS_FS_FILESIZE,
     SYS_FS_CLOSEFILE, SYS_FS_WRITEFILE, SYS_FS_DELETE, SYS_FS_MKDIR, SYS_EXEC, SYS_OPEN, SYS_READ, SYS_LSEEK, SYS_CLOSEFD}"

definition file_call_of :: "trap_frame \<Rightarrow> file_call option" where
  "file_call_of f =
    (let n = rax f in
     if n = SYS_GETCWD then Some (Getcwd (rbx f) (rcx f))
     else if n = SYS_FS_OPENDIR then Some (Opendir (rbx f))
     else if n = SYS_FS_READDIR then Some (Readdir (rbx f))
     else if n = SYS_FS_CLOSEDIR then Some Closedir
     else if n = SYS_FS_OPENFILE then Some (Openfile (rbx f))
     else if n = SYS_FS_READFILE then Some (Readfile (rbx f) (rcx f))
     else if n = SYS_FS_FILESIZE then Some Filesize
     else if n = SYS_FS_CLOSEFILE then Some Closefile
     else if n = SYS_FS_WRITEFILE then Some (Writefile (rbx f) (rcx f) (rdx f))
     else if n = SYS_FS_DELETE then Some (Delete (rbx f))
     else if n = SYS_FS_MKDIR then Some (Mkdir (rbx f))
     else if n = SYS_CHDIR then Some (Chdir (rbx f))
     else if n = SYS_OPEN then Some (Open (rbx f))
     else if n = SYS_READ then Some (Read (rbx f) (rcx f) (rdx f))
     else if n = SYS_LSEEK then Some (Lseek (rbx f) (rcx f) (rdx f))
     else if n = SYS_CLOSEFD then Some (Closefd (rbx f))
     else None)"

text \<open>The calls that compute a value for \<^verbatim>\<open>rax\<close> and return to the caller.\<close>

definition plain_call :: "sys_env \<Rightarrow> (kos \<Rightarrow> kos) list \<Rightarrow> trap_frame \<Rightarrow> kos \<Rightarrow> (u64 \<times> kos) option" where
  "plain_call env irqs f s =
    (case file_call_of f of
       Some c \<Rightarrow> run_file c s
     | None \<Rightarrow>
       (let n = rax f in
        if n = SYS_GETPID then Some (current_pid s, s)
        else if n = SYS_PUTS then map_option (Pair 0) (sys_puts (rbx f) s)
        else if n = SYS_GETCHAR then sys_getchar s
        else if n = SYS_CLEAR then Some (0, fb_call FbClear s)
        else if n = SYS_WRITE then map_option (Pair (rdx f)) (sys_write (rbx f) (rcx f) (rdx f) s)
        else if n = SYS_MMAP then Some (sys_mmap (rbx f) s)
        else if n = SYS_SYSTEM then sys_system f s
        else if n = SYS_SETCOLOR then Some (0, fb_call (FbSetColor (ucast (rbx f)) (ucast (rcx f))) s)
        else if n = SYS_PUTCHAR then Some (0, sys_putchar (rbx f) s)
        else if n = SYS_FB_MAP then sys_fb_map (rbx f) s
        else if n = SYS_GETKEY then sys_getkey (rbx f) s
        else if n = SYS_AUDIO_INIT then Some (sys_audio_init (env_fuel env) s)
        else if n = SYS_AUDIO_PLAY then Some (sys_audio_play (rbx f) (rcx f) s)
        else if n = SYS_AUDIO_STOP then Some (0, sys_audio_stop s)
        else if n = SYS_NET_OPEN then sys_net_open s
        else if n = SYS_NET_CONNECT then sys_net_connect irqs f s
        else if n = SYS_NET_SEND then sys_net_send irqs f s
        else if n = SYS_NET_RECV then sys_net_recv irqs f s
        else if n = SYS_NET_CLOSE then sys_net_close irqs f s
        else if n = SYS_DNS_RESOLVE then sys_dns_resolve irqs f s
        else Some (EFAIL, s)))"

definition SyscallIsrHandler :: "sys_env \<Rightarrow> trap_frame \<Rightarrow> kos \<Rightarrow> (trap_frame \<times> kos) option" where
  "SyscallIsrHandler env frame s =
    (let n = rax frame; irqs = (if atomic_call n then [] else env_irqs env) in
     if n = SYS_EXIT then sys_exit frame s
     else if n = SYS_EXEC then sys_exec env frame s
     else if n = SYS_SLEEP then Some (sys_sleep frame s)
     else if n = SYS_WAITPID then sys_waitpid irqs frame s
     else map_option (\<lambda>(r, s). sys_ret r frame s) (plain_call env irqs frame s))"

section \<open>Interrupts\<close>

text \<open>
  \<open>isr_ty\<close> and \<open>isr_src\<close> are the uninitialised locals of the network poll, \<open>isr_scancode\<close> the byte in the
  keyboard controller.
\<close>

record isr_env = sys_env +
  isr_ty :: u16
  isr_src :: mac
  isr_scancode :: u8

definition EXCEPTIONS :: u64 where "EXCEPTIONS = 32"
definition IRQ_TIMER :: u64 where "IRQ_TIMER = 0"
definition IRQ_KEYBOARD :: u64 where "IRQ_KEYBOARD = 1"

text \<open>The message that a crashed process leaves on the console is formatted text and left out.\<close>

definition isr_exception :: "trap_frame \<Rightarrow> kos \<Rightarrow> (trap_frame \<times> kos) option" where
  "isr_exception frame s =
    (let saved_cr3 = vm_cr3 (ps_vm s); kernel_cr3 = VmmGetPml4 (ps_vm s);
         s = (if saved_cr3 \<noteq> kernel_cr3 then writecr3 kernel_cr3 s else s)
     in if cs frame AND 3 \<noteq> 0 then SyscallKillCurrentProcess frame s else None)"

definition isr_keyboard :: "u8 \<Rightarrow> trap_frame \<Rightarrow> kos \<Rightarrow> (trap_frame \<times> kos) option" where
  "isr_keyboard scancode frame s =
    (let t = PsGetCurrentThread s; proc = th_process (thread s t);
         (kill, k) = KeyboardIrqHandler scancode (if t \<noteq> 0 \<and> proc \<noteq> 0 then Some (pid (process s proc)) else None) (k_kbd s);
         s = s\<lparr>k_kbd := k\<rparr>
     in if kill then SyscallKillCurrentProcess frame s else Some (frame, s))"

definition isr_irq :: "isr_env \<Rightarrow> u64 \<Rightarrow> trap_frame \<Rightarrow> kos \<Rightarrow> (trap_frame \<times> kos) option" where
  "isr_irq env irq frame s =
    (if irq = IRQ_TIMER then PitIrqHandler (isr_ty env) (isr_src env) frame s
     else if irq = IRQ_KEYBOARD then isr_keyboard (isr_scancode env) frame s
     else Some (frame, s))"

definition IsrHandler :: "isr_env \<Rightarrow> trap_frame \<Rightarrow> kos \<Rightarrow> (trap_frame \<times> kos) option" where
  "IsrHandler env frame s =
    (let n = int_no frame
     in if n < EXCEPTIONS then isr_exception frame s
        else if n \<ge> 32 \<and> n < 48 then isr_irq env (n - 32) frame s
        else if n = SYSCALL_INT then SyscallIsrHandler (sys_env.truncate env) frame s
        else Some (frame, s))"

end
