(* ===== verification/Syscall_Inv.thy ===== *)
theory Syscall_Inv
  imports Syscall Pe_Image
begin

text \<open>
  The system calls and the scheduler.  A call that returns to its caller changes one register of the
  caller and nothing the scheduler reads; so every call keeps the invariant of the scheduler, and no
  call reaches the registers of another thread.
\<close>

section \<open>What the scheduler reads\<close>

definition sched_part :: "kos \<Rightarrow> u64 list \<times> (u64 \<Rightarrow> kprocess) \<times> (u64 \<Rightarrow> kthread) \<times> u64 \<times> u64 \<times> u64 \<times> u64 \<times> u64" where
  "sched_part s = (g_process_list s, (\<lambda>p. (process s p)\<lparr>heap_brk := 0\<rparr>), thread s, g_current_process s, g_current_thread s,
     g_next_pid s, tss_rsp0 s, vm_cr3 (ps_vm s))"

lemma brk_fields:
  fixes p q :: kprocess
  assumes "p\<lparr>heap_brk := 0\<rparr> = q\<lparr>heap_brk := 0\<rparr>"
  shows "pid p = pid q" "p_state p = p_state q" "p_page_table p = p_page_table q" "threads p = threads q" "thread_count p = thread_count q"
proof -
  have "f (p\<lparr>heap_brk := 0\<rparr>) = f (q\<lparr>heap_brk := 0\<rparr>)" for f :: "kprocess \<Rightarrow> 'b" using assms by simp
  from this [of pid] this [of p_state] this [of p_page_table] this [of threads] this [of thread_count]
  show "pid p = pid q" "p_state p = p_state q" "p_page_table p = p_page_table q" "threads p = threads q" "thread_count p = thread_count q"
    by simp_all
qed

lemma sched_partD:
  assumes "sched_part s' = sched_part s"
  shows "g_process_list s' = g_process_list s" "thread s' = thread s" "g_current_process s' = g_current_process s"
    "g_current_thread s' = g_current_thread s" "g_next_pid s' = g_next_pid s" "tss_rsp0 s' = tss_rsp0 s" "vm_cr3 (ps_vm s') = vm_cr3 (ps_vm s)"
    "pid (process s' p) = pid (process s p)" "p_state (process s' p) = p_state (process s p)"
    "p_page_table (process s' p) = p_page_table (process s p)" "threads (process s' p) = threads (process s p)"
    "thread_count (process s' p) = thread_count (process s p)"
proof -
  show "g_process_list s' = g_process_list s" "thread s' = thread s" "g_current_process s' = g_current_process s"
    "g_current_thread s' = g_current_thread s" "g_next_pid s' = g_next_pid s" "tss_rsp0 s' = tss_rsp0 s" "vm_cr3 (ps_vm s') = vm_cr3 (ps_vm s)"
    using assms by (simp_all add: sched_part_def)
  have "(process s' p)\<lparr>heap_brk := 0\<rparr> = (process s p)\<lparr>heap_brk := 0\<rparr>" using assms by (simp add: sched_part_def fun_eq_iff)
  note f = brk_fields [OF this]
  show "pid (process s' p) = pid (process s p)" "p_state (process s' p) = p_state (process s p)"
    "p_page_table (process s' p) = p_page_table (process s p)" "threads (process s' p) = threads (process s p)"
    "thread_count (process s' p) = thread_count (process s p)" by (rule f)+
qed

text \<open>\<open>quiet frame V cur\<close>: the scheduler is in order, \<open>V\<close> is what it sees of the threads, \<open>cur\<close> runs.\<close>

definition quiet :: "trap_frame \<Rightarrow> (trap_frame \<Rightarrow> u64 \<Rightarrow> trap_frame option) \<Rightarrow> u64 \<Rightarrow> kos \<Rightarrow> bool" where
  "quiet frame V cur s \<longleftrightarrow> sched_inv frame s \<and> (\<lambda>f. cpu_view f s) = V \<and> g_current_thread s = cur"

lemma sched_part_quiet:
  assumes "sched_part s' = sched_part s"
  shows "quiet frame V cur s' = quiet frame V cur s"
proof -
  note d = sched_partD [OF assms]
  have p: "proc_threads (process s' p) = proc_threads (process s p)" for p by (simp add: proc_threads_def d)
  have o: "all_objects s' = all_objects s" by (simp add: all_objects_def proc_objects_def p d cong: map_cong)
  have dd: "dead s' = dead s" by (simp add: dead_def d fun_eq_iff)
  have "sched_inv frame s' = sched_inv frame s"
    by (simp add: sched_inv_def ps_inv_def loaded_ok_def waits_ok_def frames_ok_def o p dd d)
  moreover have "cpu_view f s' = cpu_view f s" for f by (simp add: cpu_view_def d fun_eq_iff)
  ultimately show ?thesis by (simp add: quiet_def d)
qed

lemma quiet_irq: "quiet frame V cur s \<Longrightarrow> quiet frame V cur (kernel_irq ty src s)"
proof -
  assume q: "quiet frame V cur s"
  show ?thesis
  proof (cases "pit_tick ty src s")
    case None
    then show ?thesis using q by (simp add: kernel_irq_def)
  next
    case (Some u)
    note k = pit_tick_inv [OF Some]
    have "sched_inv frame u" using q k by (auto simp: quiet_def sched_inv_def)
    then show ?thesis using q k by (simp add: quiet_def kernel_irq_def Some)
  qed
qed

section \<open>The parts that calls change\<close>

lemma sched_part_updates [simp]:
  "sched_part (s\<lparr>k_fat := a\<rparr>) = sched_part s" "sched_part (s\<lparr>k_kbd := b\<rparr>) = sched_part s" "sched_part (s\<lparr>k_fb := c\<rparr>) = sched_part s"
  "sched_part (s\<lparr>k_serial := d\<rparr>) = sched_part s" "sched_part (s\<lparr>k_phys := e\<rparr>) = sched_part s"
  "sched_part (s\<lparr>g_current_directory := f\<rparr>) = sched_part s" "sched_part (s\<lparr>g_dir_entries := g\<rparr>) = sched_part s"
  "sched_part (s\<lparr>dir_list := h\<rparr>) = sched_part s" "sched_part (s\<lparr>g_dir_count := i\<rparr>) = sched_part s"
  "sched_part (s\<lparr>g_dir_index := i\<rparr>) = sched_part s" "sched_part (s\<lparr>g_file_data := g\<rparr>) = sched_part s"
  "sched_part (s\<lparr>file_bytes := f\<rparr>) = sched_part s" "sched_part (s\<lparr>g_file_size := i\<rparr>) = sched_part s"
  "sched_part (s\<lparr>g_file_pos := i\<rparr>) = sched_part s" "sched_part (s\<lparr>g_fd_table := j\<rparr>) = sched_part s"
  "sched_part (s\<lparr>k_net := k\<rparr>) = sched_part s" "sched_part (s\<lparr>k_hda := l\<rparr>) = sched_part s" "sched_part (s\<lparr>k_hw := m\<rparr>) = sched_part s"
  "sched_part (fs_close s) = sched_part s" "sched_part (upd_fd n o' s) = sched_part s"
  by (simp_all add: sched_part_def fs_close_def upd_fd_def)

lemma sched_part_vm: "vm_cr3 v = vm_cr3 (ps_vm s) \<Longrightarrow> sched_part (set_vm v s) = sched_part s"
  by (simp add: sched_part_def set_vm_def)

lemma sched_part_heap: "vm_cr3 (hp_vm h) = vm_cr3 (ps_vm s) \<Longrightarrow> sched_part (s\<lparr>ps_heap := h\<rparr>) = sched_part s"
  by (simp add: sched_part_def)

lemma sched_part_brk [simp]: "sched_part (upd_process p (\<lambda>p. p\<lparr>heap_brk := b\<rparr>) s) = sched_part s"
  by (auto simp: sched_part_def upd_process_def)

text \<open>No operation of the memory manager or the heap writes \<^verbatim>\<open>cr3\<close>.\<close>

lemma cr3_alloc [simp]: "vm_cr3 (snd (vm_alloc s)) = vm_cr3 s"
  by (simp add: vm_alloc_def case_prod_unfold Let_def)

lemma cr3_next_level [simp]: "vm_cr3 (snd (GetNextLevel cur i flags pin s)) = vm_cr3 s"
  by (simp add: GetNextLevel_def Let_def case_prod_unfold set_entry_def clear_table_def vm_pin_def)

lemma cr3_map_page [simp]: "vm_cr3 (VmmMapPage pml4 virt phys flags s) = vm_cr3 s"
  by (simp add: VmmMapPage_def Let_def case_prod_unfold set_entry_def Invlpg_def)

lemma cr3_fold: "(\<And>x s. vm_cr3 (f x s) = vm_cr3 s) \<Longrightarrow> vm_cr3 (fold f xs s) = vm_cr3 s"
  by (induction xs arbitrary: s) simp_all

lemma cr3_map_pages [simp]: "vm_cr3 (VmmMapPages pml4 virt phys n flags s) = vm_cr3 s"
  unfolding VmmMapPages_def by (rule cr3_fold) simp

lemma cr3_expand: "HeapExpand n h = Some h' \<Longrightarrow> vm_cr3 (hp_vm h') = vm_cr3 (hp_vm h)"
  by (auto simp: HeapExpand_def Let_def upd_block_def split: prod.splits if_splits Option.bind_splits)

lemma vm_upd_block [simp]: "hp_vm (upd_block b f h) = hp_vm h"
  by (simp add: upd_block_def)

lemma cr3_take: "hp_vm (snd (take_block b n h)) = hp_vm h"
  by (simp add: take_block_def HeapSplitBlock_def Let_def)

lemma cr3_km: "KmAlloc n h = Some r \<Longrightarrow> vm_cr3 (hp_vm (snd r)) = vm_cr3 (hp_vm h)"
proof (rule KmAlloc.raw_induct [where P = "\<lambda>n h r. vm_cr3 (hp_vm (snd r)) = vm_cr3 (hp_vm h)", rotated], assumption)
  fix rec :: "u64 \<Rightarrow> heap \<Rightarrow> (u64 \<times> heap) option" and n h r
  assume IH: "\<And>n h r. rec n h = Some r \<Longrightarrow> vm_cr3 (hp_vm (snd r)) = vm_cr3 (hp_vm h)"
    and run: "(if n = 0 then Some (0, h) else find_block (hp_mem h) (round_size n) (g_heap_head h) \<bind>
      (\<lambda>block. if block \<noteq> 0 then Some (take_block block (round_size n) h) else HeapExpand (round_size n) h \<bind> rec (round_size n))) = Some r"
  show "vm_cr3 (hp_vm (snd r)) = vm_cr3 (hp_vm h)"
    using run by (auto simp: cr3_take cr3_expand dest: IH split: if_splits Option.bind_splits)
qed

lemma cr3_km_free: "KmFree p h = Some h' \<Longrightarrow> hp_vm h' = hp_vm h"
  by (auto simp: KmFree_def HeapCoalesce_def coalesce_prev_def coalesce_next_def Let_def split: if_splits)

section \<open>The calls that go back to their caller\<close>

text \<open>Each part in turn: what it returns leaves the scheduler alone.\<close>

lemma part_alloc: "km_alloc n s = Some (p, s') \<Longrightarrow> sched_part s' = sched_part s"
  using cr3_km by (fastforce simp: km_alloc_def intro: sched_part_heap)

lemma part_free: "ps_free p s = Some s' \<Longrightarrow> sched_part s' = sched_part s"
  using cr3_km_free by (fastforce simp: ps_free_def intro: sched_part_heap)

lemma part_fs: "fs f s = Some (r, s') \<Longrightarrow> sched_part s' = sched_part s"
  by (auto simp: fs_def)

lemma part_stores: "stores v bs s = Some s' \<Longrightarrow> sched_part s' = sched_part s"
  by (metis stores_frame sched_part_updates(5))

lemma part_in_process:
  assumes "in_process f s = Some (r, s')" and f: "\<And>u t. f u = Some (r, t) \<Longrightarrow> sched_part t = sched_part u"
  shows "sched_part s' = sched_part s"
proof (cases "PsGetCurrentThread s \<noteq> 0 \<and> th_process (thread s (PsGetCurrentThread s)) \<noteq> 0")
  case True
  define x where "x = p_page_table (process s (th_process (thread s (PsGetCurrentThread s))))"
  obtain t where t: "f (writecr3 x s) = Some (r, t)" "s' = writecr3 (vm_cr3 (ps_vm s)) t"
    using assms(1) True by (auto simp: in_process_def Let_def x_def)
  show ?thesis using f [OF t(1)] by (simp add: t(2) sched_part_def writecr3_def set_vm_def)
next
  case False
  then show ?thesis using assms by (auto simp: in_process_def Let_def)
qed

named_theorems calm

lemmas [calm] = part_alloc part_free part_fs part_stores

lemma part_drop_dir [calm]: "drop_dir s = Some s' \<Longrightarrow> sched_part s' = sched_part s"
  by (auto simp: drop_dir_def dest!: calm split: if_splits Option.bind_splits)

lemma part_drop_file [calm]: "drop_file s = Some s' \<Longrightarrow> sched_part s' = sched_part s"
  by (auto simp: drop_file_def dest!: calm split: if_splits Option.bind_splits)

lemma part_open_dir [calm]: "open_dir p s = Some (r, s') \<Longrightarrow> sched_part s' = sched_part s"
  by (auto simp: open_dir_def dest!: calm split: if_splits Option.bind_splits)

lemma part_opendir [calm]: "sys_fs_opendir p s = Some (r, s') \<Longrightarrow> sched_part s' = sched_part s"
  by (auto simp: sys_fs_opendir_def Let_def dest!: calm split: if_splits Option.bind_splits)

lemma part_readdir [calm]: "sys_fs_readdir p s = Some (r, s') \<Longrightarrow> sched_part s' = sched_part s"
  by (auto simp: sys_fs_readdir_def Let_def dest!: calm split: if_splits Option.bind_splits)

lemma part_fill_file [calm]: "fill_file p s = Some (r, s') \<Longrightarrow> sched_part s' = sched_part s"
  by (auto simp: fill_file_def Let_def dest!: calm split: if_splits Option.bind_splits)

lemma part_openfile [calm]: "sys_fs_openfile p s = Some (r, s') \<Longrightarrow> sched_part s' = sched_part s"
  by (auto simp: sys_fs_openfile_def Let_def dest!: calm split: if_splits Option.bind_splits)

lemma part_read [calm]: "sys_read fd p n s = Some (r, s') \<Longrightarrow> sched_part s' = sched_part s"
  by (auto simp: sys_read_def Let_def dest!: calm part_in_process split: if_splits Option.bind_splits)

lemma part_open [calm]: "sys_open p s = Some (r, s') \<Longrightarrow> sched_part s' = sched_part s"
  by (auto simp: sys_open_def Let_def dest!: calm split: if_splits Option.bind_splits option.splits)

lemma part_file: "run_file c s = Some (r, s') \<Longrightarrow> sched_part s' = sched_part s"
  by (cases c) (auto simp: sys_fs_closedir_def sys_fs_readfile_def sys_fs_closefile_def sys_fs_writefile_def sys_fs_delete_def
      sys_fs_mkdir_def sys_chdir_def sys_getcwd_def sys_lseek_def sys_closefd_def Let_def
      dest!: calm split: if_splits Option.bind_splits)

section \<open>The calls that wait for the network\<close>

text \<open>The network works on its own record; the rest of the kernel changes only with the interrupts.\<close>

lemma rest_frame [simp]: "netstack.more (snd (E1000SendFrame d n e)) = netstack.more e"
  by (simp add: E1000SendFrame_def Let_def)

lemma rest_eth [simp]: "netstack.more (snd (EthSend m t d n e)) = netstack.more e"
  by (simp add: EthSend_def Let_def)

lemma rest_arp [simp]: "netstack.more (snd (ArpResolve ip e)) = netstack.more e"
  by (simp add: ArpResolve_def ArpSendRequest_def Let_def split: option.split)

lemma rest_ip [simp]: "netstack.more (snd (Ipv4Send ip proto d n e)) = netstack.more e"
  by (simp add: Ipv4Send_def Let_def case_prod_unfold split: option.split)

lemma rest_udp [simp]: "netstack.more (snd (UdpSend ip p q d n e)) = netstack.more e"
  by (simp add: UdpSend_def Let_def)

lemma rest_segment [simp]: "netstack.more (snd (TcpSendSegment i fl d n sq ak e)) = netstack.more e"
  by (simp add: TcpSendSegment_def)

lemma rest_sockets [simp]:
  "netstack.more (upd_sock i f e) = netstack.more e" "netstack.more (send_flags i fl sq ak e) = netstack.more e"
  "netstack.more (TcpFreeSocket i e) = netstack.more e" "netstack.more (connect_init i ip p e) = netstack.more e"
  by (simp_all add: upd_sock_def send_flags_def TcpFreeSocket_def connect_init_def Let_def)

locale waiting_net =
  fixes good :: "kos \<Rightarrow> bool"
    and irqs0 :: "(kos netstack_scheme \<Rightarrow> kos netstack_scheme) list"
  assumes irq: "irq \<in> set irqs0 \<Longrightarrow> good (netstack.more e) \<Longrightarrow> good (netstack.more (irq e))"
begin

lemma wait:
  assumes "hlt_loop body irqs e = Some (r, rest, e')" "set irqs \<subseteq> set irqs0" "good (netstack.more e)"
    and body: "\<And>u r t. body u = Some (r, t) \<Longrightarrow> netstack.more t = netstack.more u"
  shows "good (netstack.more e') \<and> set rest \<subseteq> set irqs0"
proof -
  have step: "good (netstack.more (irq u))" if "irq \<in> set irqs" "good (netstack.more u)" for irq u
    using assms(2) irq that by blast
  obtain u where "good (netstack.more u)" "body u = Some (r, e')"
    using hlt_loop_inv [OF assms(1), of "\<lambda>e. good (netstack.more e)", OF assms(3)] step by auto
  then show ?thesis using body hlt_loop_rest [OF assms(1)] assms(2) by auto
qed

lemma connect:
  assumes "TcpConnect n ip p irqs0 e = Some (r, rest, e')" "good (netstack.more e)"
  shows "good (netstack.more e')"
proof -
  have body: "connect_wait i d u = Some (r, t) \<Longrightarrow> netstack.more t = netstack.more u" for i d and u t :: "kos netstack_scheme" and r
    by (auto simp: connect_wait_def split: if_splits)
  show ?thesis
  proof (cases "in_range n \<and> used (sock (nat n) e) \<and> sk_state (sock (nat n) e) = TCP_CLOSED")
    case True
    define v where "v = connect_init (nat n) ip p e"
    define u where "u = send_flags (nat n) TCP_SYN (iss (sock (nat n) v)) 0 v"
    have run: "hlt_loop (connect_wait (nat n) (tick_count u + 500)) irqs0 u = Some (r, rest, e')"
      using assms(1) True by (simp add: TcpConnect_def Let_def u_def v_def)
    have "good (netstack.more u)" using assms(2) by (simp add: u_def v_def)
    then show ?thesis using wait [OF run subset_refl] body by blast
  next
    case False
    then have "e' = e" using assms(1) by (auto simp: TcpConnect_def Let_def split: if_splits)
    then show ?thesis using assms(2) by simp
  qed
qed

lemma round:
  assumes "send_round i d len sent irqs e = Some (r, rest, e')" "good (netstack.more e)" "set irqs \<subseteq> set irqs0"
  shows "good (netstack.more e') \<and> set rest \<subseteq> set irqs0"
proof -
  have w: "window_wait i d u = Some (r, t) \<Longrightarrow> netstack.more t = netstack.more u" for d and u t :: "kos netstack_scheme" and r
    by (auto simp: window_wait_def split: if_splits)
  have a: "ack_wait i d u = Some (r, t) \<Longrightarrow> netstack.more t = netstack.more u" for d and u t :: "kos netstack_scheme" and r
    by (auto simp: ack_wait_def split: if_splits)
  obtain to irqs1 e1 where 1: "hlt_loop (window_wait i (tick_count e + 500)) irqs e = Some (to, irqs1, e1)"
    using assms(1) by (auto simp: send_round_def split: option.splits)
  have g: "good (netstack.more e1)" "set irqs1 \<subseteq> set irqs0" using wait [OF 1 assms(3,2) w] by simp_all
  define c where "c = chunk_size len sent (remote_window (sock i e1))"
  obtain st e2 where 2: "TcpSendSegment i (TCP_PSH OR TCP_ACK) (from_off d sent) c (snd_nxt (sock i e1)) (rcv_nxt (sock i e1)) e1 = (st, e2)"
    by fastforce
  have g2: "good (netstack.more e2)" using rest_segment g(1) 2 by (metis snd_conv)
  define e3 where "e3 = upd_sock i (\<lambda>k. k\<lparr>snd_nxt := snd_nxt k + ucast c, retrans_tick := tick_count e2 + 20, retrans_count := 0\<rparr>) e2"
  have g3: "good (netstack.more e3)" using g2 by (simp add: e3_def)
  show ?thesis
  proof (cases "\<not> to \<and> c \<noteq> 0 \<and> \<not> NT_ERROR st")
    case True
    then have run: "(if remote_window (sock i e3) \<le> c
        then map_option (\<lambda>(_, irqs, s). (Inr (sent + unat c), irqs, s)) (hlt_loop (ack_wait i (tick_count e3 + 500)) irqs1 e3)
        else Some (Inr (sent + unat c), irqs1, e3)) = Some (r, rest, e')"
      using assms(1) by (simp add: send_round_def 1 c_def [symmetric] 2 Let_def e3_def cong: if_cong)
    show ?thesis
    proof (cases "remote_window (sock i e3) \<le> c")
      case True
      then obtain q where q: "hlt_loop (ack_wait i (tick_count e3 + 500)) irqs1 e3 = Some (q, rest, e')" using run by auto
      show ?thesis by (rule wait [OF q g(2) g3 a])
    next
      case False
      then show ?thesis using run g g3 by auto
    qed
  next
    case False
    then have "to \<and> rest = irqs1 \<and> e' = e1 \<or> \<not> to \<and> c = 0 \<and> (\<exists>irq. irqs1 = irq # rest \<and> e' = irq e1) \<or> rest = irqs1 \<and> e' = e2"
      using assms(1) by (auto simp: send_round_def 1 c_def [symmetric] 2 Let_def split: if_splits list.splits)
    then show ?thesis using g g2 irq by auto
  qed
qed

lemma send:
  assumes "send_loop i d len sent irqs e = Some (r, rest, e')" "good (netstack.more e)" "set irqs \<subseteq> set irqs0"
  shows "good (netstack.more e')"
  using assms
proof (induction i d len sent irqs e rule: send_loop.induct)
  case (1 i d len sent irqs e)
  show ?case
  proof (cases "sent < len")
    case False
    then show ?thesis using 1 by (simp add: send_loop.simps)
  next
    case True
    then obtain q irqs1 e1 where q: "send_round i d len sent irqs e = Some (q, irqs1, e1)"
      using 1(2) by (auto simp: send_loop.simps [of i d len sent] split: option.splits)
    note g = round [OF q 1(3,4)]
    show ?thesis
    proof (cases q)
      case (Inl n)
      then show ?thesis using True q 1(2) g by (simp add: send_loop.simps [of i d len sent])
    next
      case (Inr m)
      then have "send_loop i d len m irqs1 e1 = Some (r, rest, e')" using True q 1(2) by (simp add: send_loop.simps [of i d len sent])
      then show ?thesis using 1(1) [OF True q] Inr g by blast
    qed
  qed
qed

lemma recv:
  assumes "TcpRecv n out mx ms irqs0 e = Some (r, rest, e')" "good (netstack.more e)"
  shows "good (netstack.more e')"
proof -
  have body: "recv_wait i mx out d u = Some (r, t) \<Longrightarrow> netstack.more t = netstack.more u" for i d and u t :: "kos netstack_scheme" and r
    by (auto simp: recv_wait_def do_recv_def split: if_splits prod.splits)
  show ?thesis
  proof (cases "in_range n \<and> used (sock (nat n) e) \<and> \<not> recv_len (sock (nat n) e) > 0 \<and> ms \<noteq> 0")
    case True
    then have run: "hlt_loop (recv_wait (nat n) mx out (tick_count e + ucast (ms div 10))) irqs0 e = Some (r, rest, e')"
      using assms(1) by (simp add: TcpRecv_def Let_def)
    show ?thesis using wait [OF run subset_refl assms(2)] body by blast
  next
    case False
    then have "netstack.more e' = netstack.more e"
      using assms(1) by (auto simp: TcpRecv_def do_recv_def Let_def split: if_splits prod.splits)
    then show ?thesis using assms(2) by simp
  qed
qed

lemma close:
  assumes "TcpClose n irqs0 e = Some (r, rest, e')" "good (netstack.more e)"
  shows "good (netstack.more e')"
proof -
  have body: "close_wait i d u = Some (r, t) \<Longrightarrow> netstack.more t = netstack.more u" for i d and u t :: "kos netstack_scheme" and r
    by (auto simp: close_wait_def split: if_splits)
  show ?thesis
  proof (cases "in_range n \<and> used (sock (nat n) e) \<and> sk_state (sock (nat n) e) = TCP_ESTABLISHED")
    case True
    define v where "v = upd_sock (nat n) (\<lambda>k. k\<lparr>sk_state := TCP_FIN_WAIT_1, pending_close := True\<rparr>) e"
    define u where "u = upd_sock (nat n) (\<lambda>k. k\<lparr>snd_nxt := snd_nxt k + 1\<rparr>)
      (send_flags (nat n) (TCP_FIN OR TCP_ACK) (snd_nxt (sock (nat n) v)) (rcv_nxt (sock (nat n) v)) v)"
    obtain w where run: "hlt_loop (close_wait (nat n) (tick_count u + 500)) irqs0 u = Some ((), rest, w)" "e' = TcpFreeSocket (nat n) w"
      using assms(1) True by (auto simp: TcpClose_def Let_def u_def v_def split: option.splits)
    have "good (netstack.more u)" using assms(2) by (simp add: u_def v_def)
    then show ?thesis using wait [OF run(1) subset_refl] body unfolding run(2) rest_sockets by blast
  next
    case False
    then have "netstack.more e' = netstack.more e" using assms(1) by (auto simp: TcpClose_def Let_def split: if_splits)
    then show ?thesis using assms(2) by simp
  qed
qed

lemma exchange:
  assumes "dns_exchange q off reply src irqs e = Some (r, rest, e')" "good (netstack.more e)" "set irqs \<subseteq> set irqs0"
  shows "good (netstack.more e') \<and> set rest \<subseteq> set irqs0"
proof -
  define u where "u = snd (UdpSend DNS_SERVER_IP DNS_PORT DNS_SRC_PORT q off e)"
  have u: "good (netstack.more (u\<lparr>g_udp_len := 0, g_udp_port := 0\<rparr>))" using assms(2) by (simp add: u_def)
  show ?thesis by (rule wait [OF assms(1) [unfolded dns_exchange_def UdpRecv_def Let_def, folded u_def] assms(3) u]) (auto split: if_splits)
qed

lemma resolve:
  assumes "DnsResolve name irqs0 e = Some (r, rest, e')" "good (netstack.more e)"
  shows "good (netstack.more e')"
  using assms exchange by (fastforce simp: DnsResolve_def Let_def split: option.splits prod.splits if_splits)

end

text \<open>The interrupts of a waiting call, as changes of the kernel and as the network sees them.\<close>

definition kernel_irqs :: "(u16 \<times> mac) list \<Rightarrow> (kos \<Rightarrow> kos) list" where
  "kernel_irqs xs = map (\<lambda>(ty, src). kernel_irq ty src) xs"

definition net_irqs :: "(kos \<Rightarrow> kos) list \<Rightarrow> (kos netstack_scheme \<Rightarrow> kos netstack_scheme) list" where
  "net_irqs irqs = map (\<lambda>irq e. join_net (irq (split_net e))) irqs"

lemma more_join [simp]: "netstack.more (join_net s) = s"
  by (simp add: join_net_def netstack.extend_def)

lemma quiet_split [simp]: "quiet frame V cur (split_net e) = quiet frame V cur (netstack.more e)"
  by (rule sched_part_quiet) (simp add: split_net_def)

interpretation net_wait: waiting_net "quiet frame V cur" "net_irqs (kernel_irqs xs)" for frame V cur xs
proof
  fix irq and e :: "kos netstack_scheme"
  assume "irq \<in> set (net_irqs (kernel_irqs xs))" and q: "quiet frame V cur (netstack.more e)"
  then obtain ty src where "irq = (\<lambda>e. join_net (kernel_irq ty src (split_net e)))" by (auto simp: net_irqs_def kernel_irqs_def)
  then show "quiet frame V cur (netstack.more (irq e))" using q quiet_irq by simp
qed

lemma with_netE:
  assumes "with_net f irqs s = Some (r, s')"
  obtains rest e where "f (net_irqs irqs) (join_net s) = Some (r, rest, e)" "s' = split_net e"
  using assms by (auto simp: with_net_def net_irqs_def)

lemma quiet_net_calls:
  assumes "quiet frame V cur s"
  shows "sys_net_connect (kernel_irqs xs) f s = Some (r, s') \<Longrightarrow> quiet frame V cur s'"
    "sys_net_send (kernel_irqs xs) f s = Some (r, s') \<Longrightarrow> quiet frame V cur s'"
    "sys_net_recv (kernel_irqs xs) f s = Some (r, s') \<Longrightarrow> quiet frame V cur s'"
    "sys_net_close (kernel_irqs xs) f s = Some (r, s') \<Longrightarrow> quiet frame V cur s'"
    "sys_dns_resolve (kernel_irqs xs) f s = Some (r, s') \<Longrightarrow> quiet frame V cur s'"
    "sys_net_open s = Some (r, s') \<Longrightarrow> quiet frame V cur s'"
proof -
  have join: "quiet frame V cur (netstack.more (join_net s))" using assms by simp
  have stored: "quiet frame V cur u \<Longrightarrow> stores v bs u = Some t \<Longrightarrow> quiet frame V cur t" for u t v bs
    using sched_part_quiet part_stores by blast
  show "sys_net_connect (kernel_irqs xs) f s = Some (r, s') \<Longrightarrow> quiet frame V cur s'"
    using net_wait.connect [OF _ join] by (fastforce simp: sys_net_connect_def elim: with_netE)
  show "sys_net_send (kernel_irqs xs) f s = Some (r, s') \<Longrightarrow> quiet frame V cur s'"
  proof -
    assume run: "sys_net_send (kernel_irqs xs) f s = Some (r, s')"
    show ?thesis
    proof (cases "SysUserPtr (rcx f) = 0")
      case False
      then obtain n d len q rest e where "TcpSend n d len (net_irqs (kernel_irqs xs)) (join_net s) = Some (q, rest, e)" "s' = split_net e"
        using run by (auto simp: sys_net_send_def Let_def split: Option.bind_splits elim!: with_netE)
      then show ?thesis using net_wait.send [OF _ join subset_refl] join by (auto simp: TcpSend_def split: if_splits option.splits)
    qed (use run assms in \<open>simp add: sys_net_send_def\<close>)
  qed
  show "sys_net_recv (kernel_irqs xs) f s = Some (r, s') \<Longrightarrow> quiet frame V cur s'"
  proof -
    assume run: "sys_net_recv (kernel_irqs xs) f s = Some (r, s')"
    show ?thesis
    proof (cases "SysUserPtr (rcx f) = 0")
      case False
      then obtain n out mx ms q rest e bs where "TcpRecv n out mx ms (net_irqs (kernel_irqs xs)) (join_net s) = Some (q, rest, e)"
        "stores (rcx f) bs (split_net e) = Some s'"
        using run by (auto simp: sys_net_recv_def split: Option.bind_splits elim!: with_netE)
      then show ?thesis using net_wait.recv [OF _ join] stored [of "split_net e"] by auto
    qed (use run assms in \<open>simp add: sys_net_recv_def\<close>)
  qed
  show "sys_net_close (kernel_irqs xs) f s = Some (r, s') \<Longrightarrow> quiet frame V cur s'"
    using net_wait.close [OF _ join] by (fastforce simp: sys_net_close_def elim: with_netE)
  show "sys_dns_resolve (kernel_irqs xs) f s = Some (r, s') \<Longrightarrow> quiet frame V cur s'"
  proof -
    assume run: "sys_dns_resolve (kernel_irqs xs) f s = Some (r, s')"
    show ?thesis
    proof (cases "SysUserPtr (rbx f) = 0")
      case False
      then obtain name q rest e where "DnsResolve name (net_irqs (kernel_irqs xs)) (join_net s) = Some (q, rest, e)" "s' = split_net e"
        using run by (auto simp: sys_dns_resolve_def split: Option.bind_splits elim!: with_netE)
      then show ?thesis using net_wait.resolve [OF _ join] by simp
    qed (use run assms in \<open>simp add: sys_dns_resolve_def\<close>)
  qed
  have "netstack.more (snd (TcpSocketCreate e)) = netstack.more e" for e :: "kos netstack_scheme"
    by (simp add: TcpSocketCreate_def TcpAllocSocket_def split: option.split)
  then show "sys_net_open s = Some (r, s') \<Longrightarrow> quiet frame V cur s'"
    using join by (auto simp: sys_net_open_def case_prod_unfold elim!: with_netE)
qed

section \<open>The other calls\<close>

lemma keeps_with_vmm: "keeps (\<lambda>s. g (snd (fst s))) (with_vmm m)"
  by (simp add: keeps_def with_vmm_def split: prod.splits)

lemma keeps_set_vm: "(\<And>h v. g (snd (f (h, v))) = g v) \<Longrightarrow> keeps (\<lambda>s. g (snd (fst s))) (set_drv f)"
  by (simp add: keeps_def split: prod.splits)

lemma cr3_buffers: "vm_cr3 (snd (hda_buffers (h, v))) = vm_cr3 v"
  by (simp add: hda_buffers_def Let_def case_prod_unfold)

lemma keeps_cr3: "keeps (\<lambda>s. vm_cr3 (snd (fst s))) (AudioInit fuel B)"
  unfolding AudioInit_def HdaInit_def hda_attach_def
  by (intro keeps_intro keeps_with_vmm [where g = vm_cr3] keeps_set_vm [where g = vm_cr3])
    (simp_all add: Let_def cr3_buffers case_prod_unfold)

lemma part_audio [calm]:
  "sys_audio_init fuel s = (r, s') \<Longrightarrow> sched_part s' = sched_part s" "sys_audio_play p n s = (r, s') \<Longrightarrow> sched_part s' = sched_part s"
proof -
  assume run: "sys_audio_init fuel s = (r, s')"
  obtain u h v d where 1: "run_state (AudioInit fuel trace_bus) ((k_hda s, ps_vm s), k_hw s) = (u, (h, v), d)" by (metis prod.collapse)
  have "vm_cr3 v = vm_cr3 (ps_vm s)" using keepsD [OF keeps_cr3 1] by simp
  then show "sched_part s' = sched_part s" using run by (auto simp: sys_audio_init_def 1 Let_def sched_part_vm)
qed (auto simp: sys_audio_play_def Let_def split: if_splits prod.splits)

lemma part_mmap_page:
  "mmap_page pml4 virt i s = Inl s' \<Longrightarrow> sched_part s' = sched_part s" "mmap_page pml4 virt i s = Inr s' \<Longrightarrow> sched_part s' = sched_part s"
proof -
  obtain phys v where v: "vm_alloc (ps_vm s) = (phys, v)" by fastforce
  have c: "vm_cr3 v = vm_cr3 (ps_vm s)" using cr3_alloc [of "ps_vm s"] by (simp add: v)
  have 1: "sched_part (set_vm v s) = sched_part s" by (rule sched_part_vm [OF c])
  have 2: "sched_part (set_vm (VmmMapPage pml4 a phys fl v) (set_vm v s)) = sched_part s" for a fl
    using sched_part_vm [of "VmmMapPage pml4 a phys fl v" "set_vm v s"] 1 c by (simp add: set_vm_def)
  show "mmap_page pml4 virt i s = Inl s' \<Longrightarrow> sched_part s' = sched_part s" "mmap_page pml4 virt i s = Inr s' \<Longrightarrow> sched_part s' = sched_part s"
    using 1 2 by (auto simp: mmap_page_def v Let_def set_vm_def split: if_splits)
qed

lemma part_mmap [calm]: "sys_mmap n s = (r, s') \<Longrightarrow> sched_part s' = sched_part s"
proof -
  assume run: "sys_mmap n s = (r, s')"
  have loop: "case fold_until (mmap_page pml4 virt) xs s of Inl t \<Rightarrow> sched_part t = sched_part s | Inr t \<Rightarrow> sched_part t = sched_part s"
    for pml4 virt xs
    by (rule fold_until_inv [where P = "\<lambda>t. sched_part t = sched_part s"])
      (use part_mmap_page in \<open>fastforce split: sum.split\<close>)+
  have both: "sched_part (case fold_until (mmap_page pml4 virt) xs s of Inl t \<Rightarrow> t | Inr t \<Rightarrow> t) = sched_part s" for pml4 virt xs
    using loop [of pml4 virt xs] by (cases "fold_until (mmap_page pml4 virt) xs s") simp_all
  show ?thesis
  proof (cases "PsGetCurrentThread s = 0 \<or> th_process (thread s (PsGetCurrentThread s)) = 0")
    case False
    then show ?thesis using run both unfolding sys_mmap_def Let_def by (simp only: if_False prod.inject) (use sched_part_brk in \<open>metis both\<close>)
  qed (use run in \<open>simp add: sys_mmap_def Let_def\<close>)
qed

lemma part_fb_map [calm]: "sys_fb_map p s = Some (r, s') \<Longrightarrow> sched_part s' = sched_part s"
  by (auto simp: sys_fb_map_def Let_def sched_part_vm dest!: calm part_in_process split: if_splits option.splits)

lemma part_getkey [calm]: "sys_getkey p s = Some (r, s') \<Longrightarrow> sched_part s' = sched_part s"
  by (auto simp: sys_getkey_def Let_def dest!: calm part_in_process split: if_splits option.splits prod.splits)

lemma part_system [calm]: "sys_system f s = Some (r, s') \<Longrightarrow> sched_part s' = sched_part s"
  by (auto simp: sys_system_def sys_ps_def sys_version_def Let_def dest!: calm split: if_splits)

lemma part_console [simp]: "sched_part (fb_call f s) = sched_part s" "sched_part (SerialPutChar c s) = sched_part s"
  "sched_part (fold SerialPutChar bs s) = sched_part s" "sched_part (sys_putchar x s) = sched_part s"
proof -
  have *: "sched_part (fb_call f s) = sched_part s" "sched_part (SerialPutChar c s) = sched_part s" for f s c
    by (simp_all add: fb_call_def SerialPutChar_def)
  show "sched_part (fb_call f s) = sched_part s" "sched_part (SerialPutChar c s) = sched_part s" by (rule *)+
  show "sched_part (fold SerialPutChar bs s) = sched_part s" "sched_part (sys_putchar x s) = sched_part s"
    using * by (induction bs arbitrary: s) (simp_all add: sys_putchar_def)
qed

lemma part_write [calm]: "sys_puts p s = Some s' \<Longrightarrow> sched_part s' = sched_part s" "sys_write fd p n s = Some s' \<Longrightarrow> sched_part s' = sched_part s"
  by (auto simp: sys_puts_def sys_write_def split: if_splits Option.bind_splits)

lemma part_getchar [calm]: "sys_getchar s = Some (r, s') \<Longrightarrow> sched_part s' = sched_part s"
  by (auto simp: sys_getchar_def split: if_splits)

lemma part_stop [simp]: "sched_part (sys_audio_stop s) = sched_part s"
  by (simp add: sys_audio_stop_def split: prod.split)

text \<open>All of them.\<close>

lemma if_some: "(if b then x else y) = Some r \<Longrightarrow> (x = Some r \<Longrightarrow> P) \<Longrightarrow> (y = Some r \<Longrightarrow> P) \<Longrightarrow> P"
  by (simp split: if_splits)

lemma plain_quiet:
  assumes "plain_call env (kernel_irqs xs) f s = Some (r, s')" "quiet frame V cur s"
  shows "quiet frame V cur s'"
proof (cases "file_call_of f")
  case (Some c)
  then have "run_file c s = Some (r, s')" using assms(1) by (simp add: plain_call_def)
  then show ?thesis using part_file [of c s r s'] sched_part_quiet [of s' s frame V cur] assms(2) by simp
next
  case None
  have q: "sched_part u = sched_part s \<Longrightarrow> quiet frame V cur u" for u using assms(2) sched_part_quiet by blast
  note returns = calm [THEN q] quiet_net_calls [OF assms(2)]
  show ?thesis using assms(1) unfolding plain_call_def None option.simps(4) Let_def
    by (elim if_some) (auto intro: q dest: returns)
qed

section \<open>Every interrupt\<close>

lemma other_view: "cpu_view f' s t = cpu_view f s t" if "t \<noteq> g_current_thread s"
  using that by (simp add: cpu_view_def)

lemma syscall_inv:
  assumes "SyscallIsrHandler env frame s = Some (f', s')" "sched_inv frame s" "rax frame \<noteq> SYS_EXEC"
    and irqs: "env_irqs env = kernel_irqs xs" and clock: "unat (g_tick_count s) < 2 ^ 60"
  shows "sched_inv f' s' \<and> (\<forall>t. t \<noteq> g_current_thread s \<longrightarrow> cpu_view f' s' t = cpu_view frame s t)"
proof -
  define ys where "ys = (if atomic_call (rax frame) then [] else xs)"
  have ys: "(if atomic_call (rax frame) then [] else env_irqs env) = kernel_irqs ys" by (simp add: ys_def irqs kernel_irqs_def)
  consider (exit) "rax frame = SYS_EXIT" | (sleep) "rax frame = SYS_SLEEP" | (wait) "rax frame = SYS_WAITPID"
    | (plain) "rax frame \<notin> {SYS_EXIT, SYS_SLEEP, SYS_WAITPID}" by blast
  then show ?thesis
  proof cases
    case exit
    then show ?thesis using sys_exit_inv [OF assms(2)] assms(1) by (simp add: SyscallIsrHandler_def)
  next
    case sleep
    then have "sys_sleep frame s = (f', s')" using assms(1) by (simp add: SyscallIsrHandler_def SYS_EXIT_def SYS_EXEC_def SYS_SLEEP_def)
    then show ?thesis using sys_sleep_inv [OF assms(2)] sleep_no_wrap [OF clock] by simp
  next
    case wait
    then have "sys_waitpid (kernel_irqs ys) frame s = Some (f', s')"
      using assms(1) ys by (simp add: SyscallIsrHandler_def Let_def SYS_EXIT_def SYS_EXEC_def SYS_SLEEP_def SYS_WAITPID_def)
    moreover have "\<forall>irq\<in>set (kernel_irqs ys). \<exists>ty src. irq = kernel_irq ty src" by (auto simp: kernel_irqs_def)
    ultimately show ?thesis using sys_waitpid_inv [OF assms(2)] by fastforce
  next
    case plain
    then obtain r where r: "plain_call env (kernel_irqs ys) frame s = Some (r, s')" "f' = frame\<lparr>rax := r\<rparr>"
      using assms(1,3) ys by (auto simp: SyscallIsrHandler_def Let_def sys_ret_def)
    have "quiet frame (\<lambda>f. cpu_view f s) (g_current_thread s) s" using assms(2) by (simp add: quiet_def)
    then have q: "sched_inv frame s'" "(\<lambda>f. cpu_view f s') = (\<lambda>f. cpu_view f s)" using plain_quiet [OF r(1)] by (simp_all add: quiet_def)
    have "cpu_view f' s' = cpu_view f' s" using fun_cong [OF q(2), of f'] by simp
    then show ?thesis using q(1) other_view [of _ s f' frame] r(2) by (simp add: sched_inv_def user_frame_def)
  qed
qed

lemma sched_part_sched: "sched_part u = sched_part s \<Longrightarrow> sched_inv frame u = sched_inv frame s \<and> cpu_view f u = cpu_view f s \<and> g_current_thread u = g_current_thread s"
  using sched_part_quiet [of u s frame "\<lambda>f. cpu_view f s" "g_current_thread s"]
  using sched_part_quiet [of s u frame "\<lambda>f. cpu_view f u" "g_current_thread u"]
  using sched_partD(2,4) [of u s] by (auto simp: quiet_def cpu_view_def fun_eq_iff)

text \<open>An exception puts the kernel's tables into \<^verbatim>\<open>cr3\<close> first; the switch that ends it overwrites them.\<close>

lemma cr3_simps [simp]: "thread (writecr3 c s) = thread s" "process (writecr3 c s) = process s" "g_process_list (writecr3 c s) = g_process_list s"
  "g_current_thread (writecr3 c s) = g_current_thread s" "g_current_process (writecr3 c s) = g_current_process s"
  "upd_thread t f (writecr3 c s) = writecr3 c (upd_thread t f s)" "upd_process p g (writecr3 c s) = writecr3 c (upd_process p g s)"
  by (simp_all add: writecr3_def set_vm_def upd_thread_def upd_process_def)

lemma fold_commute_fun: "(\<And>x s. f x (h s) = h (f x s)) \<Longrightarrow> fold f xs (h s) = h (fold f xs s)"
  by (induction xs arbitrary: s) simp_all

lemma wake_cr3: "wake_waiters e (writecr3 c s) = writecr3 c (wake_waiters e s)"
proof -
  have 1: "wake_waiter e t (writecr3 c s) = writecr3 c (wake_waiter e t s)" for t s by (simp add: wake_waiter_def)
  have 2: "fold (wake_waiter e) ts (writecr3 c s) = writecr3 c (fold (wake_waiter e) ts s)" for ts s by (rule fold_commute_fun) (rule 1)
  show ?thesis unfolding wake_waiters_def by (simp, rule fold_commute_fun) (simp add: 2)
qed

lemma switch_cr3: "th_process (thread s t) \<noteq> 0 \<Longrightarrow> switch_to t (writecr3 c s) = switch_to t s"
  by (cases "t = 0") (simp_all add: switch_to_def Let_def PsSetCurrentThread_def upd_thread_def writecr3_def set_vm_def KeSetTssRsp0_def)

lemma kill_cr3:
  assumes "sched_inv frame s"
  shows "SyscallKillCurrentProcess frame (writecr3 c s) = SyscallKillCurrentProcess frame s"
proof -
  define u where "u = wake_waiters (fst (terminate_current s)) (snd (terminate_current s))"
  note e = ended_state [OF assms]
  have u: "u = wake_waiters (pid (process s (g_current_process s)))
      (upd_thread (g_current_thread s) (\<lambda>h. h\<lparr>th_state := PROCESS_TERMINATED\<rparr>)
        (upd_process (g_current_process s) (\<lambda>q. q\<lparr>p_state := PROCESS_TERMINATED\<rparr>) s))"
    by (simp add: u_def e(1))
  have i: "ps_inv u" using e(2) by (simp add: u)
  have t: "terminate_current (writecr3 c s) = (fst (terminate_current s), writecr3 c (snd (terminate_current s)))"
    by (simp add: terminate_current_def PsGetCurrentThread_def Let_def)
  have n: "PsScheduleNext (writecr3 c u) = PsScheduleNext u"
    by (simp add: PsScheduleNext_def schedulable_def [abs_def] Let_def cong: option.case_cong)
  have "run_next (writecr3 c u) = run_next u"
  proof (cases "PsScheduleNext u = 0")
    case False
    obtain p where p: "p \<in> set (g_process_list u)" "PsScheduleNext u \<in> set (proc_threads (process u p))" using schedule_next [OF False] by blast
    have "th_process (thread u (PsScheduleNext u)) \<noteq> 0" using thread_owner(1) [OF i p] p(1) i by (auto simp: ps_inv_def)
    then show ?thesis by (simp add: run_next_def n switch_cr3 Let_def)
  qed (simp add: run_next_def n)
  then show ?thesis by (simp add: SyscallKillCurrentProcess_def case_prod_unfold t wake_cr3 u_def Let_def)
qed

text \<open>C14: isolation of the threads by the interrupt entry.\<close>

theorem IsrHandler_isolates:
  assumes "IsrHandler env frame s = Some (f', s')" "sched_inv frame s"
    and "\<not> (int_no frame = SYSCALL_INT \<and> rax frame = SYS_EXEC)"
    and irqs: "env_irqs env = kernel_irqs xs" and clock: "unat (g_tick_count s) < 2 ^ 60"
  shows "sched_inv f' s' \<and> (\<forall>t. t \<noteq> g_current_thread s \<longrightarrow> cpu_view f' s' t = cpu_view frame s t)"
proof -
  have user: "user_frame frame" using assms(2) by (simp add: sched_inv_def)
  have kill: "SyscallKillCurrentProcess frame u = Some (f', s') \<Longrightarrow> sched_part u = sched_part s \<Longrightarrow> ?thesis" for u
    using kill_inv [of frame u f' s'] sched_part_sched [of u s frame] assms(2) by auto
  consider (exception) "int_no frame < EXCEPTIONS" | (timer) "int_no frame = 32" | (keyboard) "int_no frame = 33"
    | (call) "int_no frame = SYSCALL_INT" | (none) "\<not> int_no frame < EXCEPTIONS" "int_no frame \<notin> {32, 33, SYSCALL_INT}" by blast
  then show ?thesis
  proof cases
    case exception
    then have "\<exists>c. SyscallKillCurrentProcess frame (writecr3 c s) = Some (f', s') \<or> SyscallKillCurrentProcess frame s = Some (f', s')"
      using assms(1) user by (auto simp: IsrHandler_def isr_exception_def user_frame_def Let_def split: if_splits)
    then have "SyscallKillCurrentProcess frame s = Some (f', s')" using kill_cr3 [OF assms(2)] by auto
    then show ?thesis using kill by blast
  next
    case timer
    then have "PitIrqHandler (isr_ty env) (isr_src env) frame s = Some (f', s')"
      using assms(1) by (simp add: IsrHandler_def isr_irq_def EXCEPTIONS_def IRQ_TIMER_def)
    then show ?thesis using PitIrqHandler_inv [OF _ assms(2)] by auto
  next
    case keyboard
    then obtain k where "SyscallKillCurrentProcess frame (s\<lparr>k_kbd := k\<rparr>) = Some (f', s') \<or> f' = frame \<and> s' = s\<lparr>k_kbd := k\<rparr>"
      using assms(1) by (auto simp: IsrHandler_def isr_irq_def isr_keyboard_def EXCEPTIONS_def IRQ_TIMER_def IRQ_KEYBOARD_def Let_def
          split: prod.splits if_splits)
    then show ?thesis using kill [of "s\<lparr>k_kbd := k\<rparr>"] sched_part_sched [of "s\<lparr>k_kbd := k\<rparr>" s frame] assms(2) by auto
  next
    case call
    then have "SyscallIsrHandler (sys_env.truncate env) frame s = Some (f', s')"
      using assms(1) by (simp add: IsrHandler_def EXCEPTIONS_def SYSCALL_INT_def)
    moreover have "env_irqs (sys_env.truncate env) = kernel_irqs xs" using irqs by (simp add: sys_env.defs)
    moreover have "rax frame \<noteq> SYS_EXEC" using assms(3) call by simp
    ultimately show ?thesis using syscall_inv [OF _ assms(2) _ _ clock] by blast
  next
    case none
    then have "f' = frame \<and> s' = s"
      using assms(1) by (auto simp: IsrHandler_def isr_irq_def EXCEPTIONS_def IRQ_TIMER_def IRQ_KEYBOARD_def SYSCALL_INT_def Let_def diff_eq_eq split: if_splits)
    then show ?thesis using assms(2) by simp
  qed
qed

section \<open>An example\<close>

definition call_frame :: "u64 \<Rightarrow> u64 \<Rightarrow> u64 \<Rightarrow> u64 \<Rightarrow> trap_frame" where
  "call_frame n b c d = zero_frame\<lparr>int_no := SYSCALL_INT, cs := 0x2B, rax := n, rbx := b, rcx := c, rdx := d\<rparr>"

definition env_zero :: sys_env where
  "env_zero = \<lparr>env_irqs = [], env_past = (\<lambda>_. 0), env_fuel = 0\<rparr>"

lemma call_frame_regs [simp]: "rax (call_frame n b c d) = n" "rbx (call_frame n b c d) = b" "rcx (call_frame n b c d) = c"
  "rdx (call_frame n b c d) = d" "int_no (call_frame n b c d) = SYSCALL_INT" "user_frame (call_frame n b c d)"
  by (simp_all add: call_frame_def user_frame_def)

text \<open>A machine whose second process is ready, and whose first process ends.\<close>

definition kos_two :: kos where
  "kos_two = kos_one\<lparr>ps_heap := heap_user\<lparr>hp_vm := vm_small\<rparr>, process := two_process\<rparr>"

lemma kos_two_inv: "sched_inv (call_frame n b c d) kos_two"
proof -
  have "ps_inv kos_two"
    by (simp add: ps_inv_def kos_two_def kos_one_def all_objects_def proc_objects_def)
      (simp add: two_process_def two_thread_def zero_thread_def zero_process_def zero_context_def inj_on_def)
  moreover have "loaded_ok kos_two"
    by (simp add: loaded_ok_def kos_two_def kos_one_def dead_def two_process_def two_thread_def zero_thread_def zero_context_def vm_small_def)
  ultimately show ?thesis
    by (simp add: sched_inv_def waits_ok_def frames_ok_def user_frame_def)
      (simp add: kos_two_def kos_one_def two_thread_def user_zero_def zero_thread_def call_frame_def)
qed

definition isr_zero :: isr_env where
  "isr_zero = sys_env.extend env_zero \<lparr>isr_ty = 0, isr_src = [], isr_scancode = 0\<rparr>"

theorem IsrHandler_isolates_witness:
  "\<exists>f u. IsrHandler isr_zero (call_frame SYS_EXIT 0 0 0) kos_two = Some (f, u) \<and> g_current_thread u = 0x4000 \<and> rbx f = 7 \<and>
    sched_inv f u \<and> cpu_view f u 0x4000 = cpu_view (call_frame SYS_EXIT 0 0 0) kos_two 0x4000"
proof -
  have run: "\<exists>u. IsrHandler isr_zero (call_frame SYS_EXIT 0 0 0) kos_two = Some (user_zero\<lparr>rbx := 7\<rparr>, u) \<and> g_current_thread u = 0x4000"
    by (simp add: IsrHandler_def EXCEPTIONS_def SYSCALL_INT_def SyscallIsrHandler_def Let_def sys_exit_def terminate_current_def kos_two_def
        kos_one_def PsGetCurrentThread_def two_thread_def zero_thread_def two_process_def upd_thread_def upd_process_def wake_waiters_def
        wake_waiter_def proc_threads_def MAX_THREADS_def run_next_def PsScheduleNext_def schedulable_def switch_to_def PsSetCurrentThread_def
        zero_process_def KeSetTssRsp0_def writecr3_def set_vm_def)
  then obtain u where u: "IsrHandler isr_zero (call_frame SYS_EXIT 0 0 0) kos_two = Some (user_zero\<lparr>rbx := 7\<rparr>, u)" "g_current_thread u = 0x4000"
    by blast
  have e: "env_irqs isr_zero = kernel_irqs []" by (simp add: isr_zero_def env_zero_def kernel_irqs_def sys_env.defs)
  have "g_current_thread kos_two = 0x3000" "g_tick_count kos_two = 5" by (simp_all add: kos_two_def kos_one_def)
  then show ?thesis
    using IsrHandler_isolates [OF u(1) kos_two_inv _ e] u by (auto simp: SYS_EXIT_def SYS_EXEC_def)
qed

end
