(* ===== verification/Syscall_Calls.thy ===== *)
theory Syscall_Calls
  imports Syscall_Inv
begin

text \<open>
  What two calls promise to the program: \<^verbatim>\<open>SYS_WRITE\<close> shows its bytes on the console, and \<^verbatim>\<open>SYS_MMAP\<close>
  gives it fresh pages behind its heap.
\<close>

section \<open>Writing to the console\<close>

text \<open>A line feed is preceded by a carriage return.\<close>

definition crlf :: "u8 \<Rightarrow> u8 list" where
  "crlf c = (if c = 10 then [13, 10] else [c])"

lemma write_chars: "fold write_char str f = FbPrintString (concat (map crlf str)) f"
  by (induction str arbitrary: f) (simp_all add: write_char_def crlf_def FbPrintString_def)

text \<open>C25: what a program writes is shown.\<close>

theorem sys_write_shows:
  assumes "rax frame = SYS_WRITE" "rbx frame = 1" "rcx frame \<noteq> 0"
    and "loads (rcx frame) (unat (rdx frame)) s = Some str" "fb_shows (k_fb s) k"
  shows "\<exists>f. SyscallIsrHandler env frame s = Some (frame\<lparr>rax := rdx frame\<rparr>, s\<lparr>k_fb := f\<rparr>) \<and>
    fb_shows f (fold con_put (concat (map crlf str)) k) \<and> fb_kept (k_fb s) f"
proof -
  have c: "file_call_of frame = None"
    using assms(1) by (simp add: file_call_of_def Let_def SYS_WRITE_def SYS_GETCWD_def SYS_FS_OPENDIR_def SYS_FS_READDIR_def
        SYS_FS_CLOSEDIR_def SYS_FS_OPENFILE_def SYS_FS_READFILE_def SYS_FS_FILESIZE_def SYS_FS_CLOSEFILE_def SYS_FS_WRITEFILE_def
        SYS_FS_DELETE_def SYS_FS_MKDIR_def SYS_CHDIR_def SYS_OPEN_def SYS_READ_def SYS_LSEEK_def SYS_CLOSEFD_def)
  have "sys_write 1 (rcx frame) (rdx frame) s = Some (s\<lparr>k_fb := FbPrintString (concat (map crlf str)) (k_fb s)\<rparr>)"
    using assms(3,4) by (simp add: sys_write_def SysUserPtr_def fb_call_def write_chars)
  then have "SyscallIsrHandler env frame s = Some (frame\<lparr>rax := rdx frame\<rparr>, s\<lparr>k_fb := FbPrintString (concat (map crlf str)) (k_fb s)\<rparr>)"
    using assms(1,2) by (simp add: SyscallIsrHandler_def plain_call_def c Let_def sys_ret_def SYS_WRITE_def SYS_EXIT_def SYS_EXEC_def
        SYS_SLEEP_def SYS_WAITPID_def SYS_GETPID_def SYS_PUTS_def SYS_GETCHAR_def SYS_CLEAR_def)
  then show ?thesis using FbPrintString_refines [OF assms(5)] by blast
qed

section \<open>Mapping memory\<close>

lemma mmap_page_step:
  fixes base :: u64
  assumes ok: "vm_ok (ps_vm s) R" and R: "table_frame (ps_vm s) pml4 = R" and al: "unat base mod 4096 = 0" and n: "n < 2 ^ 36"
    and F: "length F = n" "image_mapped R base F (ps_vm s)" and room: "4 < card (free_pages (vm_pmm (ps_vm s)))"
  shows "\<exists>f v. mmap_page pml4 base n s = Inr (set_vm v s) \<and> vm_ok v R \<and> table_frame v pml4 = R \<and>
    takes 4 (vm_pmm (ps_vm s)) (vm_pmm v) \<and> (\<forall>T. owned (vm_pmm (ps_vm s)) T \<longrightarrow> owned (vm_pmm v) T) \<and>
    \<not> owned (vm_pmm (ps_vm s)) (frame_addr f) \<and> image_mapped R base (F @ [f]) v \<and>
    (\<forall>k. k \<noteq> page_slot (base + of_nat n * PAGE_SIZE) \<longrightarrow> page_table v R k = page_table (ps_vm s) R k)"
proof -
  have pok: "pmm_ok (vm_pmm (ps_vm s))" using ok by (simp add: vm_ok_def)
  let ?w = "snd (vm_alloc (ps_vm s))" and ?phys = "fst (vm_alloc (ps_vm s))" and ?va = "base + of_nat n * PAGE_SIZE"
  define v where "v = VmmMapPage pml4 ?va ?phys VMM_USER_FLAGS ?w"
  have free: "\<not> exhausted b" if "free_pages b \<noteq> {}" for b using that by (auto simp: free_pages_def exhausted_def)
  have "\<not> exhausted (vm_pmm (ps_vm s))" using room by (intro free) auto
  then have nz: "?phys \<noteq> 0" using vm_alloc_none(2) [OF ok] by blast
  have step: "mmap_page pml4 base n s = Inr (set_vm v s)"
    using nz by (simp add: mmap_page_def case_prod_unfold Let_def v_def set_vm_def)
  note a = vm_alloc_fresh [OF ok refl nz] and b = vm_ok_alloc [OF ok nz]
  have "table_frame ?w pml4 = R" using b(3) R by simp
  note m = VmmMapPage_map [OF b(1) this, of ?va ?phys VMM_USER_FLAGS, folded v_def]
  have ok': "vm_ok v R" "table_frame v pml4 = R" using m b(3) R by simp_all
  have t: "takes 4 (vm_pmm (ps_vm s)) (vm_pmm v)"
    using takes_trans [OF takes_vm_alloc takes_map_page, of "ps_vm s" pml4 ?va ?phys VMM_USER_FLAGS] by (simp add: v_def)
  then have "free_pages (vm_pmm v) \<noteq> {}" using room pok by (auto simp: takes_def)
  then have ne: "\<not> exhausted (vm_pmm v)" by (rule free)
  from a(1) obtain f where f: "?phys = frame_addr f" "0 < f" "f < highest_page (vm_pmm ?w)" by (auto simp: owned_def)
  have lim: "f < frame_limit" using f(3) b(1) by (auto simp: vm_ok_def)
  have fresh: "\<not> owned (vm_pmm (ps_vm s)) (frame_addr f)" using a(2) f(1) by simp
  have keep: "owned (vm_pmm v) T" if "owned (vm_pmm ?w) T" for T
    using keeps_used_owned [OF map_page_keeps _ that] b(1) by (simp add: v_def vm_ok_def)
  have mask: "frame_addr f AND PAGE_MASK = frame_addr f" using lim by (intro frame_mask) simp
  have upd: "page_table v R = (page_table (ps_vm s) R)(page_slot ?va := frame_addr f OR VMM_USER_FLAGS)"
    using m ne by (auto simp: b(2) f(1) mask)
  have "page_slot (base + of_nat i * PAGE_SIZE) \<noteq> page_slot ?va" if "i < n" for i
    using page_slots_differ [of i n base] al n that by simp
  then have "\<forall>i<length (F @ [f]). page_table v R (page_slot (base + of_nat i * PAGE_SIZE)) = frame_addr ((F @ [f]) ! i) OR VMM_USER_FLAGS"
    using F by (auto simp: upd nth_append image_mapped_def less_Suc_eq)
  moreover have "distinct_frames (F @ [f])" using F(2) fresh f(2) lim by (auto simp: distinct_frames_def image_mapped_def)
  ultimately have "image_mapped R base (F @ [f]) v" using F(2) keep a(1,3) f(1) by (auto simp: image_mapped_def)
  then show ?thesis using step ok' t fresh keep a(3) upd by (intro exI [of _ f] exI [of _ v]) auto
qed

lemma mmap_pages:
  fixes base :: u64
  assumes ok: "vm_ok (ps_vm s) R" and R: "table_frame (ps_vm s) pml4 = R" and al: "unat base mod 4096 = 0"
    and n: "n \<le> 2 ^ 36" and room: "4 * n < card (free_pages (vm_pmm (ps_vm s)))"
  shows "\<exists>F v. fold_until (mmap_page pml4 base) [0..<n] s = Inr (set_vm v s) \<and> vm_ok v R \<and> table_frame v pml4 = R \<and>
    takes (4 * n) (vm_pmm (ps_vm s)) (vm_pmm v) \<and> (\<forall>T. owned (vm_pmm (ps_vm s)) T \<longrightarrow> owned (vm_pmm v) T) \<and>
    length F = n \<and> (\<forall>f\<in>set F. \<not> owned (vm_pmm (ps_vm s)) (frame_addr f)) \<and> image_mapped R base F v \<and>
    (\<forall>k. (\<forall>i<n. k \<noteq> page_slot (base + of_nat i * PAGE_SIZE)) \<longrightarrow> page_table v R k = page_table (ps_vm s) R k)"
  using n room
proof (induction n)
  case 0
  have "image_mapped R base [] (ps_vm s)" by (simp add: image_mapped_def distinct_frames_def)
  then show ?case using ok R by (intro exI [of _ "[]"] exI [of _ "ps_vm s"]) (simp add: set_vm_def)
next
  case (Suc n)
  then obtain F v where v: "fold_until (mmap_page pml4 base) [0..<n] s = Inr (set_vm v s)" "vm_ok v R" "table_frame v pml4 = R"
    "takes (4 * n) (vm_pmm (ps_vm s)) (vm_pmm v)" "\<forall>T. owned (vm_pmm (ps_vm s)) T \<longrightarrow> owned (vm_pmm v) T"
    "length F = n" "\<forall>f\<in>set F. \<not> owned (vm_pmm (ps_vm s)) (frame_addr f)" "image_mapped R base F v"
    "\<forall>k. (\<forall>i<n. k \<noteq> page_slot (base + of_nat i * PAGE_SIZE)) \<longrightarrow> page_table v R k = page_table (ps_vm s) R k"
    by fastforce
  let ?t = "set_vm v s"
  have tv [simp]: "ps_vm ?t = v" "set_vm u ?t = set_vm u s" for u by (simp_all add: set_vm_def)
  have room: "4 < card (free_pages (vm_pmm v))" using v(4) Suc.prems(2) ok by (auto simp: takes_def vm_ok_def)
  have n: "n < 2 ^ 36" using Suc.prems(1) by simp
  from mmap_page_step [of ?t R pml4 base n F, unfolded tv, OF v(2,3) al n v(6,8) room]
  obtain f w where w: "mmap_page pml4 base n ?t = Inr (set_vm w s)" "vm_ok w R" "table_frame w pml4 = R"
    "takes 4 (vm_pmm v) (vm_pmm w)" "\<forall>T. owned (vm_pmm v) T \<longrightarrow> owned (vm_pmm w) T"
    "\<not> owned (vm_pmm v) (frame_addr f)" "image_mapped R base (F @ [f]) w"
    "\<forall>k. k \<noteq> page_slot (base + of_nat n * PAGE_SIZE) \<longrightarrow> page_table w R k = page_table v R k" by blast
  have "fold_until (mmap_page pml4 base) [0..<Suc n] s = Inr (set_vm w s)" using v(1) w(1) by (simp add: fold_until_append)
  moreover have "takes (4 * Suc n) (vm_pmm (ps_vm s)) (vm_pmm w)" using takes_trans [OF v(4) w(4)] by (simp add: add.commute)
  moreover have "\<forall>g\<in>set (F @ [f]). \<not> owned (vm_pmm (ps_vm s)) (frame_addr g)" using v(5,7) w(6) by auto
  ultimately show ?case using w(2,3,5,7,8) v(5,6,9) by (intro exI [of _ "F @ [f]"] exI [of _ w]) (simp add: less_Suc_eq)
qed

lemma low_offset: "unat ((x :: u64) AND 0xFFF) = unat x mod 4096"
proof -
  have "(0xFFF :: u64) = mask 12" by (simp add: mask_eq_exp_minus_1)
  then have "x AND 0xFFF = take_bit 12 x" by (simp add: take_bit_eq_mask)
  then show ?thesis by (simp only: unsigned_take_bit_eq) (simp add: take_bit_eq_mod)
qed

lemma round_up_pages:
  assumes "unat (req :: u64) \<le> 2 ^ 47"
  shows "(req + PAGE_SIZE - 1) AND NOT 0xFFF = of_nat ((unat req + 4095) div 4096) * PAGE_SIZE"
    "unat (((req + PAGE_SIZE - 1) AND NOT 0xFFF) div PAGE_SIZE) = (unat req + 4095) div 4096"
proof -
  let ?x = "req + PAGE_SIZE - 1" and ?n = "(unat req + 4095) div 4096"
  have x: "unat ?x = unat req + 4095" using assms by (simp add: PAGE_SIZE_def unat_word_ariths)
  have n: "?n * 4096 \<le> unat req + 4095" by simp
  have "unat (?x AND 0xFFF) \<le> unat ?x" by (simp add: low_offset)
  then have "unat (?x AND NOT 0xFFF) = unat ?x - unat ?x mod 4096"
    unfolding and_not_diff by (simp add: unat_sub word_le_nat_alt low_offset)
  then have u: "unat (?x AND NOT 0xFFF) = ?n * 4096" by (simp add: x minus_mod_eq_div_mult)
  have "unat (of_nat ?n * PAGE_SIZE :: u64) = ?n * 4096"
    using n assms by (simp add: PAGE_SIZE_def unat_word_ariths unat_of_nat take_bit_nat_eq_self)
  then show "?x AND NOT 0xFFF = of_nat ?n * PAGE_SIZE" using u by (simp only: word_unat_eq_iff)
  show "unat ((?x AND NOT 0xFFF) div PAGE_SIZE) = ?n" by (simp only: unat_div u) (simp add: PAGE_SIZE_def)
qed

text \<open>C24: mapped memory is fresh and stands where the call says.\<close>

theorem sys_mmap_maps:
  fixes s :: kos and p pml4 base :: u64 and n :: nat and frame :: trap_frame
  defines "p \<equiv> th_process (thread s (g_current_thread s))"
  defines "pml4 \<equiv> PHYS_TO_VIRT (ps_vm s) (p_page_table (process s p))" and "base \<equiv> heap_brk (process s p)"
    and "n \<equiv> (unat (rbx frame) + 4095) div 4096"
  assumes "rax frame = SYS_MMAP" "g_current_thread s \<noteq> 0" "p \<noteq> 0"
    and ok: "vm_ok (ps_vm s) (table_frame (ps_vm s) pml4)" and al: "unat base mod 4096 = 0"
    and req: "unat (rbx frame) \<le> 2 ^ 47" and room: "4 * n < card (free_pages (vm_pmm (ps_vm s)))"
  shows "\<exists>u F. SyscallIsrHandler env frame s = Some (frame\<lparr>rax := base\<rparr>, u) \<and>
    heap_brk (process u p) = base + of_nat n * PAGE_SIZE \<and> length F = n \<and> distinct F \<and>
    (\<forall>f\<in>set F. \<not> owned (vm_pmm (ps_vm s)) (frame_addr f) \<and> owned (vm_pmm (ps_vm u)) (frame_addr f)) \<and>
    translated pml4 base F (ps_vm u) \<and>
    (\<forall>a. (\<forall>i<n. vpn a \<noteq> vpn (base + of_nat i * PAGE_SIZE)) \<longrightarrow> VmmGetPhysical pml4 a (ps_vm u) = VmmGetPhysical pml4 a (ps_vm s))"
proof -
  let ?R = "table_frame (ps_vm s) pml4"
  have n36: "n \<le> 2 ^ 36" using req by (simp add: n_def)
  obtain F v where v: "fold_until (mmap_page pml4 base) [0..<n] s = Inr (set_vm v s)" "vm_ok v ?R" "table_frame v pml4 = ?R"
    "length F = n" "\<forall>f\<in>set F. \<not> owned (vm_pmm (ps_vm s)) (frame_addr f)" "image_mapped ?R base F v"
    "\<forall>k. (\<forall>i<n. k \<noteq> page_slot (base + of_nat i * PAGE_SIZE)) \<longrightarrow> page_table v ?R k = page_table (ps_vm s) ?R k"
    using mmap_pages [OF ok refl al n36 room] by blast
  define u where "u = upd_process p (\<lambda>q. q\<lparr>heap_brk := base + of_nat n * PAGE_SIZE\<rparr>) (set_vm v s)"
  have uv: "ps_vm u = v" "heap_brk (process u p) = base + of_nat n * PAGE_SIZE" by (simp_all add: u_def upd_process_def set_vm_def)
  have "sys_mmap (rbx frame) s = (base, u)"
    using assms(6,7) v(1) unfolding sys_mmap_def Let_def PsGetCurrentThread_def round_up_pages(2) [OF req]
    unfolding round_up_pages(1) [OF req] n_def [symmetric] p_def [symmetric] pml4_def [symmetric] base_def [symmetric]
    by (simp add: u_def)
  moreover have "file_call_of frame = None"
    using assms(5) by (simp add: file_call_of_def Let_def SYS_MMAP_def SYS_GETCWD_def SYS_FS_OPENDIR_def SYS_FS_READDIR_def
        SYS_FS_CLOSEDIR_def SYS_FS_OPENFILE_def SYS_FS_READFILE_def SYS_FS_FILESIZE_def SYS_FS_CLOSEFILE_def SYS_FS_WRITEFILE_def
        SYS_FS_DELETE_def SYS_FS_MKDIR_def SYS_CHDIR_def SYS_OPEN_def SYS_READ_def SYS_LSEEK_def SYS_CLOSEFD_def)
  ultimately have run: "SyscallIsrHandler env frame s = Some (frame\<lparr>rax := base\<rparr>, u)"
    using assms(5) by (simp add: SyscallIsrHandler_def plain_call_def Let_def sys_ret_def SYS_MMAP_def SYS_WRITE_def SYS_EXIT_def
        SYS_EXEC_def SYS_SLEEP_def SYS_WAITPID_def SYS_GETPID_def SYS_PUTS_def SYS_GETCHAR_def SYS_CLEAR_def)
  have "VmmGetPhysical pml4 a v = VmmGetPhysical pml4 a (ps_vm s)" if "\<forall>i<n. vpn a \<noteq> vpn (base + of_nat i * PAGE_SIZE)" for a
  proof -
    have "page_table v ?R (page_slot a) = page_table (ps_vm s) ?R (page_slot a)" using v(7) that by (simp only: page_slot_eq)
    then show ?thesis by (simp add: VmmGetPhysical_map [of v pml4, unfolded v(3), OF v(2)] VmmGetPhysical_map [OF ok] Let_def)
  qed
  moreover have "translated pml4 base F v" using image_mapped_translated [OF v(2,3) al _ v(6)] n36 v(4) by simp
  ultimately show ?thesis using run uv v(4,5,6) by (intro exI [of _ u] exI [of _ F]) (auto simp: image_mapped_def distinct_frames_def)
qed

section \<open>Examples\<close>

theorem sys_mmap_maps_witness:
  "\<exists>u f. SyscallIsrHandler env_zero (call_frame SYS_MMAP 100 0 0) kos_space = Some ((call_frame SYS_MMAP 100 0 0)\<lparr>rax := 0\<rparr>, u) \<and>
    heap_brk (process u 0x1000) = 0x1000 \<and> \<not> owned (vm_pmm (ps_vm kos_space)) (frame_addr f) \<and>
    VmmGetPhysical 0x1000 0x123 (ps_vm u) = frame_addr f + 0x123"
proof -
  have k: "g_current_thread kos_space = 0x3000" "th_process (thread kos_space 0x3000) = 0x1000" "heap_brk (process kos_space 0x1000) = 0"
    "PHYS_TO_VIRT (ps_vm kos_space) (p_page_table (process kos_space 0x1000)) = 0x1000"
    by (simp_all add: kos_space_def kos_one_def two_thread_def two_process_def zero_process_def zero_thread_def vm_small_def PHYS_TO_VIRT_def)
  obtain u F where u: "SyscallIsrHandler env_zero (call_frame SYS_MMAP 100 0 0) kos_space = Some ((call_frame SYS_MMAP 100 0 0)\<lparr>rax := 0\<rparr>, u)"
    "heap_brk (process u 0x1000) = 0x1000" "length F = 1" "\<forall>f\<in>set F. \<not> owned (vm_pmm (ps_vm kos_space)) (frame_addr f)"
    "translated 0x1000 0 F (ps_vm u)"
    using sys_mmap_maps [of "call_frame SYS_MMAP 100 0 0" kos_space env_zero] kos_space_frames(1,2,4) by (auto simp: k PAGE_SIZE_def)
  have "F ! 0 \<in> set F" using u(3) by simp
  moreover have "VmmGetPhysical 0x1000 0x123 (ps_vm u) = frame_addr (F ! 0) + 0x123"
    using u(5) u(3) unfolding translated_def by (auto dest: spec [of _ "0x123"])
  ultimately show ?thesis using u(1,2,4) by blast
qed

text \<open>A program that writes one letter.\<close>

theorem sys_write_shows_witness:
  "\<exists>f. SyscallIsrHandler env_zero (call_frame SYS_WRITE 1 0x10 1) (kos_one\<lparr>k_phys := (\<lambda>_. 65)\<rparr>) =
      Some ((call_frame SYS_WRITE 1 0x10 1)\<lparr>rax := 1\<rparr>, kos_one\<lparr>k_phys := (\<lambda>_. 65), k_fb := f\<rparr>) \<and>
    fb_shows f (con_put 65 con_small)"
proof -
  have "loads 0x10 (unat (1 :: u64)) (kos_one\<lparr>k_phys := (\<lambda>_. 65)\<rparr>) = Some [65]" by (simp add: load_def mmu_user)
  moreover have "fb_shows (k_fb (kos_one\<lparr>k_phys := (\<lambda>_. 65)\<rparr>)) con_small" using fb_small_shows by (simp add: kos_one_def)
  ultimately show ?thesis
    using sys_write_shows [of "call_frame SYS_WRITE 1 0x10 1" "kos_one\<lparr>k_phys := (\<lambda>_. 65)\<rparr>" "[65]" con_small env_zero]
    by (auto simp: crlf_def)
qed

end
