(* ===== verification/Ul_Sort.thy ===== *)
theory Ul_Sort
  imports Runtime "HOL-Library.Multiset" "HOL-Library.Monad_Syntax"
begin

text \<open>
  Sorting in the library of the user programs, \<^verbatim>\<open>qsort\<close> of
  \<^verbatim>\<open>UserApps/userlib/userlib.c\<close>: the partition scheme of Hoare on an array of \<open>num\<close> elements of
  \<open>width\<close> bytes, in memory, with the pivot followed as it is moved.  The comparison function of
  the caller is a parameter that sees the bytes of two elements; the contract that the C standard asks of
  it is the locale \<open>comparison\<close>.
\<close>

section \<open>The routine\<close>

fun qsort_swap :: "mem \<Rightarrow> nat \<Rightarrow> nat \<Rightarrow> nat \<Rightarrow> mem" where
  "qsort_swap m a b 0 = m"
| "qsort_swap m a b (Suc width) = qsort_swap (m(a := m b, b := m a)) (a + 1) (b + 1) width"

text \<open>\<open>while (compare(arr + i * width, pivot) < 0) i++;\<close> and its mirror image.\<close>

partial_function (option) scan_up :: "(nat \<Rightarrow> int) \<Rightarrow> nat \<Rightarrow> nat option" where
  "scan_up c i = (if c i < 0 then scan_up c (i + 1) else Some i)"

partial_function (option) scan_down :: "(nat \<Rightarrow> int) \<Rightarrow> nat \<Rightarrow> nat option" where
  "scan_down c j = (if c j > 0 then (if j = 0 then None else scan_down c (j - 1)) else Some j)"

text \<open>\<open>compare(p, q)\<close>.\<close>

definition compare_at :: "(u8 list \<Rightarrow> u8 list \<Rightarrow> int) \<Rightarrow> nat \<Rightarrow> mem \<Rightarrow> nat \<Rightarrow> nat \<Rightarrow> int" where
  "compare_at compare width m p q = compare (buf_list m p width) (buf_list m q width)"

partial_function (option) qsort_partition ::
  "(u8 list \<Rightarrow> u8 list \<Rightarrow> int) \<Rightarrow> nat \<Rightarrow> nat \<Rightarrow> nat \<Rightarrow> nat \<Rightarrow> nat \<Rightarrow> mem \<Rightarrow> (nat \<times> mem) option" where
  "qsort_partition compare arr width pivot i j m =
    do {
      i \<leftarrow> scan_up (\<lambda>k. compare_at compare width m (arr + k * width) pivot) i;
      j \<leftarrow> scan_down (\<lambda>k. compare_at compare width m (arr + k * width) pivot) j;
      if i \<ge> j then Some (i, m)
      else
        let m = qsort_swap m (arr + i * width) (arr + j * width) width;
            pivot = (if pivot = arr + i * width then arr + j * width
                     else if pivot = arr + j * width then arr + i * width else pivot)
        in qsort_partition compare arr width pivot (i + 1) (j - 1) m
    }"

partial_function (option) qsort :: "(u8 list \<Rightarrow> u8 list \<Rightarrow> int) \<Rightarrow> nat \<Rightarrow> nat \<Rightarrow> nat \<Rightarrow> mem \<Rightarrow> mem option" where
  "qsort compare arr num width m =
    (if num < 2 then Some m
     else do {
       (i, m) \<leftarrow> qsort_partition compare arr width (arr + num div 2 * width) 0 (num - 1) m;
       m \<leftarrow> qsort compare arr i width m;
       qsort compare (arr + i * width) (num - i) width m
     })"

section \<open>Elements\<close>

definition elem_at :: "nat \<Rightarrow> nat \<Rightarrow> mem \<Rightarrow> nat \<Rightarrow> u8 list" where
  "elem_at arr width m k = buf_list m (arr + k * width) width"

definition elems :: "nat \<Rightarrow> nat \<Rightarrow> nat \<Rightarrow> mem \<Rightarrow> u8 list list" where
  "elems arr num width m = map (elem_at arr width m) [0..<num]"

lemma buf_list_same: "(\<And>i. a \<le> i \<Longrightarrow> i < a + n \<Longrightarrow> m i = m' i) \<Longrightarrow> buf_list m a n = buf_list m' a n"
  by (simp add: buf_list_def)

lemma swap_at:
  "a + w \<le> b \<or> b + w \<le> a \<Longrightarrow> qsort_swap m a b w i =
    (if a \<le> i \<and> i < a + w then m (b + (i - a)) else if b \<le> i \<and> i < b + w then m (a + (i - b)) else m i)"
proof (induction w arbitrary: m a b)
  case (Suc w)
  define m' where "m' = m(a := m b, b := m a)"
  have m': "m' a = m b" "m' b = m a" "\<And>x. x \<noteq> a \<Longrightarrow> x \<noteq> b \<Longrightarrow> m' x = m x" using Suc.prems by (auto simp: m'_def)
  have IH: "qsort_swap m' (a + 1) (b + 1) w i = (if a + 1 \<le> i \<and> i < a + 1 + w then m' (b + 1 + (i - (a + 1)))
      else if b + 1 \<le> i \<and> i < b + 1 + w then m' (a + 1 + (i - (b + 1))) else m' i)"
    by (rule Suc.IH) (use Suc.prems in auto)
  have step: "qsort_swap m a b (Suc w) i = qsort_swap m' (a + 1) (b + 1) w i" by (simp add: m'_def)
  consider "i = a" | "i = b" | "a < i" "i < a + Suc w" | "b < i" "i < b + Suc w" | "i \<noteq> a" "i \<noteq> b" "\<not> (a \<le> i \<and> i < a + Suc w)" "\<not> (b \<le> i \<and> i < b + Suc w)"
    by (cases "i = a"; cases "i = b"; cases "a < i \<and> i < a + Suc w"; cases "b < i \<and> i < b + Suc w") auto
  then show ?case
  proof cases
    case 3
    then have "b + 1 + (i - (a + 1)) = b + (i - a)" "m' (b + (i - a)) = m (b + (i - a))" using Suc.prems by (auto intro!: m'(3))
    then show ?thesis using 3 step IH by simp
  next
    case 4
    then have "a + 1 + (i - (b + 1)) = a + (i - b)" "m' (a + (i - b)) = m (a + (i - b))" using Suc.prems by (auto intro!: m'(3))
    then show ?thesis using 4 step IH Suc.prems by auto
  next
    case 5
    then show ?thesis unfolding step IH using m'(3) [of i] by auto
  qed (use Suc.prems step IH m' in auto)
qed auto

lemma elems_apart:
  assumes "k \<noteq> l"
  shows "arr + k * width + width \<le> arr + l * width \<or> arr + l * width + width \<le> arr + (k :: nat) * width"
proof (cases "k < l")
  case True
  then have "(k + 1) * width \<le> l * width" by (intro mult_le_mono1) simp
  then show ?thesis by simp
next
  case False
  then have "(l + 1) * width \<le> k * width" using assms by (intro mult_le_mono1) simp
  then show ?thesis by simp
qed

text \<open>Exchanging two elements of the array, and what stays.\<close>

lemma elem_at_swap:
  assumes "i \<noteq> j"
  shows "elem_at arr width (qsort_swap m (arr + i * width) (arr + j * width) width) =
    (elem_at arr width m)(i := elem_at arr width m j, j := elem_at arr width m i)"
proof
  fix k
  note s = swap_at [OF elems_apart [OF assms, of arr width], of m]
  consider "k = j" | "k = i" "k \<noteq> j" | "k \<noteq> i" "k \<noteq> j" by blast
  then show "elem_at arr width (qsort_swap m (arr + i * width) (arr + j * width) width) k =
      ((elem_at arr width m)(i := elem_at arr width m j, j := elem_at arr width m i)) k"
  proof cases
    case 1
    show ?thesis unfolding 1 elem_at_def using elems_apart [OF assms, of arr width]
      by (intro nth_equalityI) (auto simp: s)
  next
    case 2
    show ?thesis unfolding 2(1) elem_at_def using assms by (intro nth_equalityI) (auto simp: s)
  next
    case 3
    then show ?thesis using elems_apart [OF 3(1), of arr width] elems_apart [OF 3(2), of arr width]
      unfolding elem_at_def by (intro nth_equalityI) (auto simp: s)
  qed
qed

lemma elem_at_inside: "k < n \<Longrightarrow> arr + k * width + width \<le> arr + n * (width :: nat)"
  using mult_le_mono1 [of "Suc k" n width] by simp

lemma swap_outside:
  assumes "i < n" "j < n" "i \<noteq> j" "a < arr \<or> arr + n * width \<le> a"
  shows "qsort_swap m (arr + i * width) (arr + j * width) width a = m a"
  using swap_at [OF elems_apart [OF assms(3), of arr width], of m a] elem_at_inside [OF assms(1), of arr width]
    elem_at_inside [OF assms(2), of arr width] assms(4) by auto

lemma mset_exchange:
  assumes "i < n" "j < n"
  shows "mset (map (f(i := f j, j := f i)) [0..<n]) = mset (map f [0..<n])"
proof -
  have "map (f(i := f j, j := f i)) [0..<n] = (map f [0..<n])[i := f j, j := f i]"
    by (rule nth_equalityI) (use assms in \<open>auto simp: nth_list_update\<close>)
  also have "\<dots> = (map f [0..<n])[i := map f [0..<n] ! j, j := map f [0..<n] ! i]" using assms by simp
  finally show ?thesis using mset_swap [of j "map f [0..<n]" i] assms by simp
qed

lemma elems_split: "i \<le> n \<Longrightarrow> elems arr n w m = elems arr i w m @ elems (arr + i * w) (n - i) w m"
  by (rule nth_equalityI) (auto simp: elems_def nth_append elem_at_def algebra_simps)

lemma elems_cong:
  assumes "\<And>a. arr \<le> a \<Longrightarrow> a < arr + n * w \<Longrightarrow> m' a = m a"
  shows "elems arr n w m' = elems arr n w m"
proof -
  have "elem_at arr w m' k = elem_at arr w m k" if "k < n" for k
    unfolding elem_at_def by (rule buf_list_same) (use elem_at_inside [OF that, of arr w] assms in simp)
  then show ?thesis by (simp add: elems_def)
qed

lemma set_elems: "set (elems arr n w m) = elem_at arr w m ` {..<n}"
  by (simp add: elems_def atLeast0LessThan)

section \<open>One pass\<close>

text \<open>The contract of the comparison function, on the elements that satisfy \<open>dom\<close>.\<close>

locale comparison =
  fixes compare :: "u8 list \<Rightarrow> u8 list \<Rightarrow> int" and dom :: "u8 list \<Rightarrow> bool"
  assumes compare_swap: "dom a \<Longrightarrow> dom b \<Longrightarrow> compare a b < 0 \<longleftrightarrow> 0 < compare b a"
    and compare_trans: "dom a \<Longrightarrow> dom b \<Longrightarrow> dom c \<Longrightarrow> compare a b \<le> 0 \<Longrightarrow> compare b c \<le> 0 \<Longrightarrow> compare a c \<le> 0"
begin

lemma compare_self: "dom a \<Longrightarrow> compare a a = 0"
  using compare_swap [of a a] by linarith

lemma compare_flip: "dom a \<Longrightarrow> dom b \<Longrightarrow> 0 \<le> compare a b \<longleftrightarrow> compare b a \<le> 0"
  using compare_swap [of a b] compare_swap [of b a] by linarith

end

lemma scan_up_stops:
  assumes "i \<le> s" "0 \<le> c s"
  shows "\<exists>r. scan_up c i = Some r \<and> i \<le> r \<and> r \<le> s \<and> 0 \<le> c r \<and> (\<forall>k. i \<le> k \<and> k < r \<longrightarrow> c k < 0)"
  using assms
proof (induction "s - i" arbitrary: i)
  case 0
  then show ?case by (subst scan_up.simps) auto
next
  case (Suc d)
  show ?case
  proof (cases "c i < 0")
    case True
    then have "i < s" using Suc.prems by (cases "i = s") auto
    then have "d = s - (i + 1)" "i + 1 \<le> s" using Suc.hyps(2) by simp_all
    from Suc.hyps(1) [OF this Suc.prems(2)] obtain r where
      r: "scan_up c (i + 1) = Some r" "i + 1 \<le> r" "r \<le> s" "0 \<le> c r" "\<forall>k. i + 1 \<le> k \<and> k < r \<longrightarrow> c k < 0" by blast
    have "c k < 0" if "i \<le> k" "k < r" for k using True r(5) that by (cases "k = i") auto
    then show ?thesis using True r by (subst scan_up.simps) auto
  next
    case False
    then show ?thesis using Suc.prems by (subst scan_up.simps) auto
  qed
qed

lemma scan_down_stops:
  assumes "s \<le> j" "c s \<le> 0"
  shows "\<exists>r. scan_down c j = Some r \<and> s \<le> r \<and> r \<le> j \<and> c r \<le> 0 \<and> (\<forall>k. r < k \<and> k \<le> j \<longrightarrow> 0 < c k)"
  using assms
proof (induction j)
  case 0
  then show ?case by (subst scan_down.simps) auto
next
  case (Suc j)
  show ?case
  proof (cases "0 < c (Suc j)")
    case True
    then have "s \<le> j" using Suc.prems by (cases "s = Suc j") auto
    then obtain r where r: "scan_down c j = Some r" "s \<le> r" "r \<le> j" "c r \<le> 0" "\<forall>k. r < k \<and> k \<le> j \<longrightarrow> 0 < c k"
      using Suc.IH Suc.prems by auto
    have "0 < c k" if "r < k" "k \<le> Suc j" for k using True r(5) that by (cases "k = Suc j") auto
    then show ?thesis using True r by (subst scan_down.simps) auto
  next
    case False
    then show ?thesis using Suc.prems by (subst scan_down.simps) auto
  qed
qed


context comparison
begin

text \<open>
  The state of a pass: what is left of \<open>i\<close> is at most the pivot, what is right of \<open>j\<close> at least, and both
  scans have an element that stops them.
\<close>

lemma partition_ends:
  assumes "0 < w" "p < n" "j < n" "\<forall>k<n. dom (elem_at arr w m k)"
    and "\<forall>k<i. compare (elem_at arr w m k) (elem_at arr w m p) \<le> 0"
    and "\<forall>k. j < k \<and> k < n \<longrightarrow> 0 \<le> compare (elem_at arr w m k) (elem_at arr w m p)"
    and "i \<le> s" "s < n" "0 \<le> compare (elem_at arr w m s) (elem_at arr w m p)"
    and "t \<le> j" "compare (elem_at arr w m t) (elem_at arr w m p) \<le> 0" "1 \<le> i \<or> 1 \<le> t"
  shows "\<exists>r m' v. qsort_partition compare arr w (arr + p * w) i j m = Some (r, m') \<and> 1 \<le> r \<and> r < n \<and>
    mset (elems arr n w m') = mset (elems arr n w m) \<and> (\<forall>a. a < arr \<or> arr + n * w \<le> a \<longrightarrow> m' a = m a) \<and> dom v \<and>
    (\<forall>k<r. compare (elem_at arr w m' k) v \<le> 0) \<and> (\<forall>k. r \<le> k \<and> k < n \<longrightarrow> compare v (elem_at arr w m' k) \<le> 0)"
  using assms
proof (induction j arbitrary: i m p s t rule: less_induct)
  case (less j)
  let ?E = "elem_at arr w m"
  let ?c = "\<lambda>k. compare (?E k) (?E p)"
  have c: "(\<lambda>k. compare_at compare w m (arr + k * w) (arr + p * w)) = ?c" by (simp add: compare_at_def elem_at_def)
  from scan_up_stops [of i s ?c, OF less.prems(7,9)] obtain i' where
    i': "scan_up ?c i = Some i'" "i \<le> i'" "i' \<le> s" "0 \<le> ?c i'" "\<forall>k. i \<le> k \<and> k < i' \<longrightarrow> ?c k < 0" by blast
  from scan_down_stops [of t j ?c, OF less.prems(10,11)] obtain j' where
    j': "scan_down ?c j = Some j'" "t \<le> j'" "j' \<le> j" "?c j' \<le> 0" "\<forall>k. j' < k \<and> k \<le> j \<longrightarrow> 0 < ?c k" by blast
  have lo: "?c k \<le> 0" if "k < i'" for k using less.prems(5) i'(5) that by (cases "k < i") (auto intro: less_imp_le)
  have hi: "0 \<le> ?c k" if "j' < k" "k < n" for k using less.prems(6) j'(5) that by (cases "j < k") (auto intro: less_imp_le)
  note step = qsort_partition.simps [of compare arr w "arr + p * w" i j m, unfolded c i'(1) j'(1), simplified]
  have i'n: "i' < n" using i'(3) less.prems(8) by simp
  show ?case
  proof (cases "j' \<le> i'")
    case True
    have up: "compare (?E p) (?E k) \<le> 0" if "i' \<le> k" "k < n" for k
    proof -
      have "0 \<le> ?c k" using that i'(4) hi True by (cases "k = i'") auto
      then show ?thesis using compare_flip less.prems(2,4) that by blast
    qed
    show ?thesis
      by (rule exI [of _ i'], rule exI [of _ m], rule exI [of _ "?E p"])
        (use True step i' i'n j' lo up less.prems(2,4,12) in auto)
  next
    case False
    let ?m = "qsort_swap m (arr + i' * w) (arr + j' * w) w"
    define q where "q = (if p = i' then j' else if p = j' then i' else p)"
    have ij: "i' < j'" "j' < n" "i' \<noteq> j'" using False j'(3) less.prems(3) by auto
    have E: "elem_at arr w ?m = ?E(i' := ?E j', j' := ?E i')" by (rule elem_at_swap [OF ij(3)])
    have q: "q < n" "elem_at arr w ?m q = ?E p" using less.prems(2) i'n ij by (auto simp: q_def E)
    have addr: "(if arr + p * w = arr + i' * w then arr + j' * w else if arr + p * w = arr + j' * w then arr + i' * w else arr + p * w) = arr + q * w"
      using less.prems(1) by (auto simp: q_def)
    have "\<exists>r m' v. qsort_partition compare arr w (arr + q * w) (i' + 1) (j' - 1) ?m = Some (r, m') \<and> 1 \<le> r \<and> r < n \<and>
        mset (elems arr n w m') = mset (elems arr n w ?m) \<and> (\<forall>a. a < arr \<or> arr + n * w \<le> a \<longrightarrow> m' a = ?m a) \<and> dom v \<and>
        (\<forall>k<r. compare (elem_at arr w m' k) v \<le> 0) \<and> (\<forall>k. r \<le> k \<and> k < n \<longrightarrow> compare v (elem_at arr w m' k) \<le> 0)"
    proof (rule less.IH [of "j' - 1" q ?m "i' + 1" j' i'])
      show "\<forall>k<n. dom (elem_at arr w ?m k)" using less.prems(4) i'n ij by (auto simp: E)
      show "\<forall>k<i' + 1. compare (elem_at arr w ?m k) (elem_at arr w ?m q) \<le> 0" unfolding q(2) using lo j'(4) ij by (auto simp: E less_Suc_eq)
      show "\<forall>k. j' - 1 < k \<and> k < n \<longrightarrow> 0 \<le> compare (elem_at arr w ?m k) (elem_at arr w ?m q)"
        unfolding q(2) using hi i'(4) ij by (auto simp: E)
    qed (use ij j'(3,4) i'(4) q less.prems(1) in \<open>auto simp: E\<close>)
    then obtain r m' v where r: "qsort_partition compare arr w (arr + q * w) (i' + 1) (j' - 1) ?m = Some (r, m')" "1 \<le> r" "r < n"
      "mset (elems arr n w m') = mset (elems arr n w ?m)" "\<forall>a. a < arr \<or> arr + n * w \<le> a \<longrightarrow> m' a = ?m a" "dom v"
      "\<forall>k<r. compare (elem_at arr w m' k) v \<le> 0" "\<forall>k. r \<le> k \<and> k < n \<longrightarrow> compare v (elem_at arr w m' k) \<le> 0" by blast
    have "mset (elems arr n w ?m) = mset (elems arr n w m)" unfolding elems_def E by (rule mset_exchange [OF i'n ij(2)])
    moreover have "m' a = m a" if "a < arr \<or> arr + n * w \<le> a" for a
      by (rule trans [OF r(5) [rule_format, OF that] swap_outside [OF i'n ij(2,3) that]])
    moreover have "qsort_partition compare arr w (arr + p * w) i j m = Some (r, m')"
      using step False r(1) unfolding Let_def addr by simp
    ultimately show ?thesis using r by auto
  qed
qed


lemma qsort_sorts:
  assumes "0 < w" "\<forall>e\<in>set (elems arr n w m). dom e"
  shows "\<exists>m'. qsort compare arr n w m = Some m' \<and> mset (elems arr n w m') = mset (elems arr n w m) \<and>
    (\<forall>a. a < arr \<or> arr + n * w \<le> a \<longrightarrow> m' a = m a) \<and> sorted_wrt (\<lambda>a b. compare a b \<le> 0) (elems arr n w m')"
  using assms(2)
proof (induction n arbitrary: arr m rule: less_induct)
  case (less n)
  show ?case
  proof (cases "n < 2")
    case True
    then have "n = 0 \<or> n = 1" by auto
    then show ?thesis by (subst qsort.simps) (auto simp: elems_def)
  next
    case False
    have d: "\<forall>k<n. dom (elem_at arr w m k)" using less.prems by (auto simp: set_elems)
    have mid: "n div 2 < n" "1 \<le> n div 2" using False by auto
    have self: "compare (elem_at arr w m (n div 2)) (elem_at arr w m (n div 2)) = 0" using d mid by (intro compare_self) auto
    have ends: "n - 1 < n" "\<forall>k<0. compare (elem_at arr w m k) (elem_at arr w m (n div 2)) \<le> 0"
      "\<forall>k. n - 1 < k \<and> k < n \<longrightarrow> 0 \<le> compare (elem_at arr w m k) (elem_at arr w m (n div 2))"
      "0 \<le> n div 2" "n div 2 \<le> n - 1" "0 \<le> compare (elem_at arr w m (n div 2)) (elem_at arr w m (n div 2))"
      "compare (elem_at arr w m (n div 2)) (elem_at arr w m (n div 2)) \<le> 0" "1 \<le> (0 :: nat) \<or> 1 \<le> n div 2"
      using mid self by auto
    obtain r m1 v where r: "qsort_partition compare arr w (arr + n div 2 * w) 0 (n - 1) m = Some (r, m1)" "1 \<le> r" "r < n"
      "mset (elems arr n w m1) = mset (elems arr n w m)" "\<forall>a. a < arr \<or> arr + n * w \<le> a \<longrightarrow> m1 a = m a" "dom v"
      "\<forall>k<r. compare (elem_at arr w m1 k) v \<le> 0" "\<forall>k. r \<le> k \<and> k < n \<longrightarrow> compare v (elem_at arr w m1 k) \<le> 0"
      using partition_ends [OF assms(1) mid(1) ends(1) d ends(2,3,4) mid(1) ends(6,5,7,8)] by blast
    let ?arr = "arr + r * w"
    have split: "elems arr n w x = elems arr r w x @ elems ?arr (n - r) w x" for x using r(3) by (intro elems_split) simp
    have end_at: "?arr + (n - r) * w = arr + n * w"
      using r(3) by (metis add.assoc add_mult_distrib le_add_diff_inverse less_imp_le)
    have dom1: "\<forall>e\<in>set (elems arr n w m1). dom e" using less.prems r(4) by (metis mset_eq_setD)
    have "\<forall>e\<in>set (elems arr r w m1). dom e" using dom1 split [of m1] by simp
    from less.IH [OF r(3) this] obtain m2 where
      m2: "qsort compare arr r w m1 = Some m2" "mset (elems arr r w m2) = mset (elems arr r w m1)"
      "\<forall>a. a < arr \<or> ?arr \<le> a \<longrightarrow> m2 a = m1 a" "sorted_wrt (\<lambda>a b. compare a b \<le> 0) (elems arr r w m2)" by blast
    have right2: "elems ?arr (n - r) w m2 = elems ?arr (n - r) w m1" by (rule elems_cong) (use m2(3) in auto)
    have "n - r < n" using r(2,3) by simp
    moreover have "\<forall>e\<in>set (elems ?arr (n - r) w m2). dom e" using dom1 split [of m1] right2 by simp
    ultimately obtain m3 where
      m3: "qsort compare ?arr (n - r) w m2 = Some m3" "mset (elems ?arr (n - r) w m3) = mset (elems ?arr (n - r) w m2)"
      "\<forall>a. a < ?arr \<or> ?arr + (n - r) * w \<le> a \<longrightarrow> m3 a = m2 a" "sorted_wrt (\<lambda>a b. compare a b \<le> 0) (elems ?arr (n - r) w m3)"
      using less.IH by blast
    have left3: "elems arr r w m3 = elems arr r w m2" by (rule elems_cong) (use m3(3) in auto)
    have lefts: "set (elems arr r w m2) = set (elems arr r w m1)" using m2(2) by (rule mset_eq_setD)
    have rights: "set (elems ?arr (n - r) w m3) = set (elems ?arr (n - r) w m1)" using m3(2) right2 by (metis mset_eq_setD)
    have le: "compare a b \<le> 0" if ab: "a \<in> set (elems arr r w m2)" "b \<in> set (elems ?arr (n - r) w m3)" for a b
    proof -
      have in1: "a \<in> set (elems arr n w m1)" "b \<in> set (elems arr n w m1)" using ab lefts rights split [of m1] by auto
      have "compare a v \<le> 0" using ab(1) lefts r(7) by (auto simp: set_elems)
      moreover have "compare v b \<le> 0"
      proof -
        obtain k where "k < n - r" "b = elem_at ?arr w m1 k" using ab(2) rights by (auto simp: set_elems)
        then have "b = elem_at arr w m1 (r + k)" "r \<le> r + k" "r + k < n" by (auto simp: elem_at_def algebra_simps)
        then show ?thesis using r(8) by blast
      qed
      ultimately show ?thesis using compare_trans dom1 in1 r(6) by blast
    qed
    have "qsort compare arr n w m = Some m3" using False r(1) m2(1) m3(1) by (subst qsort.simps) simp
    moreover have "mset (elems arr n w m3) = mset (elems arr n w m)"
      using r(4) m2(2) m3(2) left3 right2 split [of m1] split [of m3] by simp
    moreover have "m3 a = m a" if "a < arr \<or> arr + n * w \<le> a" for a
      using that r(5) m2(3) m3(3) end_at mult_le_mono1 [of r n w] r(3) by (auto simp: less_le_trans)
    moreover have "sorted_wrt (\<lambda>a b. compare a b \<le> 0) (elems arr n w m3)"
      unfolding split left3 using m2(4) m3(4) le by (simp add: sorted_wrt_append)
    ultimately show ?thesis by blast
  qed
qed

end


section \<open>The library's comparison of bytes\<close>

text \<open>\<^verbatim>\<open>memcmp\<close> on two blocks of \<^verbatim>\<open>n\<close> bytes.\<close>

fun memcmp :: "u8 list \<Rightarrow> u8 list \<Rightarrow> int" where
  "memcmp (a # pa) (b # pb) = (if a \<noteq> b then uint a - uint b else memcmp pa pb)"
| "memcmp _ _ = 0"

lemma memcmp_Cons: "memcmp (a # pa) (b # pb) \<le> 0 \<longleftrightarrow> a < b \<or> a = b \<and> memcmp pa pb \<le> 0"
  by (auto simp: word_less_alt word_uint_eq_iff)

lemma memcmp_swap: "memcmp b a = - memcmp a b"
  by (induction a b rule: memcmp.induct) auto

lemma memcmp_trans: "length a = length b \<Longrightarrow> length b = length c \<Longrightarrow> memcmp a b \<le> 0 \<Longrightarrow> memcmp b c \<le> 0 \<Longrightarrow> memcmp a c \<le> 0"
proof (induction a b arbitrary: c rule: list_induct2)
  case (Cons x xs y ys)
  then obtain z zs where c: "c = z # zs" by (cases c) auto
  show ?case using Cons.prems Cons.IH [of zs] unfolding c memcmp_Cons by (auto simp del: memcmp.simps)
next
  case Nil
  then show ?case by simp
qed

interpretation bytes: comparison memcmp "\<lambda>e. length e = w" for w
proof
  fix a b
  show "memcmp a b < 0 \<longleftrightarrow> 0 < memcmp b a" using memcmp_swap [of b a] by linarith
next
  fix a b c :: "u8 list"
  assume "length a = w" "length b = w" "length c = w"
  then have "length a = length b" "length b = length c" by simp_all
  from memcmp_trans [OF this] show "memcmp a b \<le> 0 \<Longrightarrow> memcmp b c \<le> 0 \<Longrightarrow> memcmp a c \<le> 0" .
qed

text \<open>C35: \<^verbatim>\<open>qsort\<close> sorts.  With a comparison function whose sign reverses when its arguments are exchanged and
  whose \<^verbatim>\<open><= 0\<close> is transitive on elements of the given width, it returns, writes nothing outside the
  array, leaves the same elements in it, and in ascending order.\<close>

theorem qsort_correct:
  assumes "0 < width"
    and "\<And>a b. length a = width \<Longrightarrow> length b = width \<Longrightarrow> compare a b < 0 \<longleftrightarrow> 0 < compare b a"
    and "\<And>a b c. length a = width \<Longrightarrow> length b = width \<Longrightarrow> length c = width \<Longrightarrow>
      compare a b \<le> 0 \<Longrightarrow> compare b c \<le> 0 \<Longrightarrow> compare a c \<le> 0"
  shows "\<exists>m'. qsort compare base num width m = Some m' \<and> mset (elems base num width m') = mset (elems base num width m) \<and>
    (\<forall>a. a < base \<or> base + num * width \<le> a \<longrightarrow> m' a = m a) \<and> sorted_wrt (\<lambda>a b. compare a b \<le> 0) (elems base num width m')"
proof -
  have "comparison compare (\<lambda>e. length e = width)" by (rule comparison.intro [OF assms(2,3)])
  then show ?thesis by (rule comparison.qsort_sorts [OF _ assms(1)]) (auto simp: set_elems elem_at_def)
qed

theorem qsort_correct_witness:
  "\<exists>m'. qsort memcmp 0 3 1 ((!) [3, 1, 2]) = Some m' \<and> mset (elems 0 3 1 m') = {#[3], [1], [2]#} \<and>
    sorted_wrt (\<lambda>a b. memcmp a b \<le> 0) (elems 0 3 1 m')"
proof -
  have e: "elems 0 3 1 ((!) [3, 1, 2]) = [[3], [1], [2 :: u8]]" by (simp add: elems_def elem_at_def buf_list_def upt_rec)
  have "\<exists>m'. qsort memcmp 0 3 1 ((!) [3, 1, 2]) = Some m' \<and> mset (elems 0 3 1 m') = mset (elems 0 3 1 ((!) [3, 1, 2])) \<and>
      (\<forall>a. a < 0 \<or> 0 + 3 * 1 \<le> a \<longrightarrow> m' a = [3, 1, 2] ! a) \<and> sorted_wrt (\<lambda>a b. memcmp a b \<le> 0) (elems 0 3 1 m')"
    by (rule qsort_correct) (use bytes.compare_swap bytes.compare_trans in blast)+
  then show ?thesis unfolding e by auto
qed

end
