(* ===== verification/Ul_Malloc.thy ===== *)
theory Ul_Malloc
  imports Heap_Clients Syscall_Calls
begin

text \<open>
  The heap of a user program, in \<^verbatim>\<open>UserApps/userlib/userlib.c\<close>: a singly linked list of blocks in memory
  that the kernel's \<^verbatim>\<open>SYS_MMAP\<close> provides, best fit with splitting, no coalescing.  The block headers are an explicit
  store from address to header; \<open>um_bytes\<close> are the bytes of the blocks.  \<^verbatim>\<open>SYS_MMAP\<close> is an argument of the
  operations, its promise the locale \<open>mmap_space\<close>, which is interpreted on the kernel's \<open>sys_mmap\<close>; the
  list is shown to keep the contract \<open>block_heap\<close>.  \<open>None\<close> is a walk through the list that does not end.
\<close>

section \<open>State\<close>

definition MALLOC_ALIGN :: u64 where "MALLOC_ALIGN = 16"
definition MALLOC_MIN_BLOCK :: u64 where "MALLOC_MIN_BLOCK = 64"

text \<open>\<open>sizeof(MallocHeader)\<close>\<close>

definition MALLOC_HEADER :: u64 where "MALLOC_HEADER = 24"

record malloc_header =
  mh_size :: u64
  mh_used :: i32
  mh_next :: u64

record 's umem =
  um_hdr :: "u64 \<Rightarrow> malloc_header"
  malloc_head :: u64
  um_bytes :: mem
  um_sys :: 's

text \<open>
  An access to an address that the system has not mapped is a page fault, which ends the program: \<open>None\<close>.
  \<open>usable\<close> says which addresses the system has mapped.
\<close>

definition accessible :: "('s \<Rightarrow> u64 \<Rightarrow> bool) \<Rightarrow> u64 \<Rightarrow> nat \<Rightarrow> 's umem \<Rightarrow> bool" where
  "accessible usable p n s \<longleftrightarrow> (\<forall>i<n. usable (um_sys s) (p + of_nat i))"

text \<open>\<open>blk->field = ...\<close>\<close>

definition upd_hdr :: "('s \<Rightarrow> u64 \<Rightarrow> bool) \<Rightarrow> u64 \<Rightarrow> (malloc_header \<Rightarrow> malloc_header) \<Rightarrow> 's umem \<Rightarrow> 's umem option" where
  "upd_hdr usable blk f s = (if accessible usable blk 24 s then Some (s\<lparr>um_hdr := (um_hdr s)(blk := f (um_hdr s blk))\<rparr>) else None)"

section \<open>Operations\<close>

definition malloc_from_mmap :: "(u64 \<Rightarrow> 's \<Rightarrow> u64 \<times> 's) \<Rightarrow> ('s \<Rightarrow> u64 \<Rightarrow> bool) \<Rightarrow> u64 \<Rightarrow> 's umem \<Rightarrow> (u64 \<times> 's umem) option" where
  "malloc_from_mmap mmap usable size' s =
    (if size' > 0x7FFFFFFFFFFFFFFF - MALLOC_HEADER then Some (0, s)
     else
       let tot = MALLOC_HEADER + size';
           aligned_total = (tot + PAGE_SIZE - 1) AND NOT (PAGE_SIZE - 1)
       in if aligned_total < tot then Some (0, s)
          else
            let tot = aligned_total;
                (blk, sys) = mmap tot (um_sys s);
                s = s\<lparr>um_sys := sys\<rparr>
            in if blk = 0 then Some (0, s)
               else
                 let excess = tot - MALLOC_HEADER - size'
                 in if excess \<ge> MALLOC_HEADER + MALLOC_MIN_BLOCK
                    then do {
                      s \<leftarrow> upd_hdr usable blk (\<lambda>_. \<lparr>mh_size = size', mh_used = 1, mh_next = malloc_head s\<rparr>) s;
                      let rest = blk + MALLOC_HEADER + size';
                      s \<leftarrow> upd_hdr usable rest (\<lambda>_. \<lparr>mh_size = excess - MALLOC_HEADER, mh_used = 0, mh_next = blk\<rparr>) s;
                      Some (blk + MALLOC_HEADER, s\<lparr>malloc_head := rest\<rparr>)
                    }
                    else do {
                      s \<leftarrow> upd_hdr usable blk (\<lambda>_. \<lparr>mh_size = tot - MALLOC_HEADER, mh_used = 1, mh_next = malloc_head s\<rparr>) s;
                      Some (blk + MALLOC_HEADER, s\<lparr>malloc_head := blk\<rparr>)
                    })"

text \<open>The search of \<open>malloc\<close>: the smallest free block that is large enough, 0 if there is none. \<open>ok\<close>: a header can be read.\<close>

partial_function (option) best_fit :: "(u64 \<Rightarrow> bool) \<Rightarrow> (u64 \<Rightarrow> malloc_header) \<Rightarrow> u64 \<Rightarrow> u64 \<Rightarrow> u64 \<Rightarrow> u64 option" where
  "best_fit ok m size' p best =
    (if p = 0 then Some best
     else if \<not> ok p then None
     else best_fit ok m size' (mh_next (m p))
            (if mh_used (m p) = 0 \<and> mh_size (m p) \<ge> size' \<and> (best = 0 \<or> mh_size (m p) < mh_size (m best)) then p else best))"

definition malloc_take :: "('s \<Rightarrow> u64 \<Rightarrow> bool) \<Rightarrow> u64 \<Rightarrow> u64 \<Rightarrow> 's umem \<Rightarrow> (u64 \<times> 's umem) option" where
  "malloc_take usable best size' s =
    (let old = um_hdr s best
     in do {
       s \<leftarrow> (if mh_size old \<ge> size' + MALLOC_HEADER + MALLOC_MIN_BLOCK
              then do {
                let rest = best + MALLOC_HEADER + size';
                s \<leftarrow> upd_hdr usable rest (\<lambda>_. \<lparr>mh_size = mh_size old - size' - MALLOC_HEADER, mh_used = 0, mh_next = mh_next old\<rparr>) s;
                upd_hdr usable best (\<lambda>h. h\<lparr>mh_size := size', mh_next := rest\<rparr>) s
              }
              else Some s);
       s \<leftarrow> upd_hdr usable best (\<lambda>h. h\<lparr>mh_used := 1\<rparr>) s;
       Some (best + MALLOC_HEADER, s)
     })"

definition malloc :: "(u64 \<Rightarrow> 's \<Rightarrow> u64 \<times> 's) \<Rightarrow> ('s \<Rightarrow> u64 \<Rightarrow> bool) \<Rightarrow> u64 \<Rightarrow> 's umem \<Rightarrow> (u64 \<times> 's umem) option" where
  "malloc mmap usable size' s =
    (if size' = 0 \<or> size' > 0x7FFFFFFFFFFFFFFF then Some (0, s)
     else
       let aligned_size = (size' + MALLOC_ALIGN - 1) AND NOT (MALLOC_ALIGN - 1)
       in if aligned_size < size' then Some (0, s)
          else
            let size' = (if aligned_size < MALLOC_MIN_BLOCK then MALLOC_MIN_BLOCK else aligned_size)
            in Option.bind (best_fit (\<lambda>p. accessible usable p 24 s) (um_hdr s) size' (malloc_head s) 0) (\<lambda>best.
                 if best \<noteq> 0 then malloc_take usable best size' s else malloc_from_mmap mmap usable size' s))"

definition free :: "('s \<Rightarrow> u64 \<Rightarrow> bool) \<Rightarrow> u64 \<Rightarrow> 's umem \<Rightarrow> 's umem option" where
  "free usable ptr s = (if ptr = 0 then Some s else upd_hdr usable (ptr - MALLOC_HEADER) (\<lambda>h. h\<lparr>mh_used := 0\<rparr>) s)"

definition calloc :: "(u64 \<Rightarrow> 's \<Rightarrow> u64 \<times> 's) \<Rightarrow> ('s \<Rightarrow> u64 \<Rightarrow> bool) \<Rightarrow> u64 \<Rightarrow> u64 \<Rightarrow> 's umem \<Rightarrow> (u64 \<times> 's umem) option" where
  "calloc mmap usable count size' s =
    (let tot = count * size'
     in do {
       (p, s) \<leftarrow> malloc mmap usable tot s;
       if p = 0 then Some (p, s)
       else if accessible usable p (unat tot) s then Some (p, s\<lparr>um_bytes := RtMemSet (um_bytes s) (unat p) 0 (unat tot)\<rparr>)
       else None
     })"

definition realloc :: "(u64 \<Rightarrow> 's \<Rightarrow> u64 \<times> 's) \<Rightarrow> ('s \<Rightarrow> u64 \<Rightarrow> bool) \<Rightarrow> u64 \<Rightarrow> u64 \<Rightarrow> 's umem \<Rightarrow> (u64 \<times> 's umem) option" where
  "realloc mmap usable ptr size' s =
    (if ptr = 0 then malloc mmap usable size' s
     else if size' = 0 then map_option (Pair 0) (free usable ptr s)
     else if \<not> accessible usable (ptr - MALLOC_HEADER) 24 s then None
     else
       let old_size = mh_size (um_hdr s (ptr - MALLOC_HEADER))
       in if old_size \<ge> size' then Some (ptr, s)
          else do {
            (new_ptr, s) \<leftarrow> malloc mmap usable size' s;
            if new_ptr = 0 then Some (0, s)
            else
              let n = unat (ucast old_size :: u32)
              in if accessible usable ptr n s \<and> accessible usable new_ptr n s
                 then map_option (Pair new_ptr) (free usable ptr (s\<lparr>um_bytes := RtMemCopy (um_bytes s) (unat new_ptr) (unat ptr) n\<rparr>))
                 else None
          })"

section \<open>The block list\<close>

fun mpath :: "(u64 \<Rightarrow> malloc_header) \<Rightarrow> u64 \<Rightarrow> u64 list \<Rightarrow> u64 \<Rightarrow> bool" where
  "mpath m a [] e \<longleftrightarrow> a = e"
| "mpath m a (x # xs) e \<longleftrightarrow> a = x \<and> x \<noteq> 0 \<and> mpath m (mh_next (m x)) xs e"

definition mblock_end :: "(u64 \<Rightarrow> malloc_header) \<Rightarrow> u64 \<Rightarrow> nat" where
  "mblock_end m x = unat x + 24 + unat (mh_size (m x))"

definition mapart :: "(u64 \<Rightarrow> malloc_header) \<Rightarrow> u64 \<Rightarrow> u64 \<Rightarrow> bool" where
  "mapart m x y \<longleftrightarrow> mblock_end m x \<le> unat y \<or> mblock_end m y \<le> unat x"

definition mallocated :: "(u64 \<Rightarrow> malloc_header) \<Rightarrow> u64 list \<Rightarrow> (u64 \<times> u64) set" where
  "mallocated m xs = {(x, mh_size (m x)) |x. x \<in> set xs \<and> mh_used (m x) \<noteq> 0}"

lemma mpath_append: "mpath m a (xs @ ys) e \<longleftrightarrow> (\<exists>c. mpath m a xs c \<and> mpath m c ys e)"
  by (induction xs arbitrary: a) auto

lemma mpath_cong: "(\<And>x. x \<in> set xs \<Longrightarrow> mh_next (m' x) = mh_next (m x)) \<Longrightarrow> mpath m' a xs e = mpath m a xs e"
  by (induction xs arbitrary: a) auto

lemma mpath_nonzero: "mpath m a xs e \<Longrightarrow> x \<in> set xs \<Longrightarrow> x \<noteq> 0"
  by (induction xs arbitrary: a) auto

lemma mapart_sym: "mapart m x y = mapart m y x"
  by (auto simp: mapart_def)

lemma mapart_cong: "mh_size (m' x) = mh_size (m x) \<Longrightarrow> mh_size (m' y) = mh_size (m y) \<Longrightarrow> mapart m' x y = mapart m x y"
  by (simp add: mapart_def mblock_end_def)

lemma not_mapart_self: "\<not> mapart m x x"
  by (simp add: mapart_def mblock_end_def)

lemma mdisjoint_distinct: "sorted_wrt (mapart m) xs \<Longrightarrow> distinct xs"
  using not_mapart_self by (induction xs) auto

lemma mdisjoint_cong: "sorted_wrt (mapart m) xs \<Longrightarrow> (\<And>x. x \<in> set xs \<Longrightarrow> mh_size (m' x) = mh_size (m x)) \<Longrightarrow> sorted_wrt (mapart m') xs"
  by (induction xs) (auto simp: mapart_def mblock_end_def)

lemma mdisjoint_apart: "sorted_wrt (mapart m) xs \<Longrightarrow> x \<in> set xs \<Longrightarrow> y \<in> set xs \<Longrightarrow> x \<noteq> y \<Longrightarrow> mapart m x y"
  by (induction xs) (auto simp: mapart_sym)

text \<open>The search finds the tightest fit.\<close>

lemma best_fit_path:
  assumes "mpath m a xs 0" "\<forall>x\<in>set xs. ok x" "b \<noteq> 0 \<Longrightarrow> mh_used (m b) = 0 \<and> n \<le> mh_size (m b)"
  shows "\<exists>r. best_fit ok m n a b = Some r \<and> (r = b \<or> r \<in> set xs) \<and> (r \<noteq> 0 \<longrightarrow> mh_used (m r) = 0 \<and> n \<le> mh_size (m r)) \<and>
    (\<forall>x \<in> (if b = 0 then {} else {b}) \<union> {x \<in> set xs. mh_used (m x) = 0 \<and> n \<le> mh_size (m x)}. r \<noteq> 0 \<and> mh_size (m r) \<le> mh_size (m x))"
  using assms
proof (induction xs arbitrary: a b)
  case Nil
  then show ?case by (subst best_fit.simps) auto
next
  case (Cons x xs)
  have a: "a = x" "x \<noteq> 0" "mpath m (mh_next (m x)) xs 0" "ok x" "\<forall>x\<in>set xs. ok x" using Cons.prems(1,2) by auto
  let ?fits = "mh_used (m x) = 0 \<and> n \<le> mh_size (m x)"
  define b' where "b' = (if ?fits \<and> (b = 0 \<or> mh_size (m x) < mh_size (m b)) then x else b)"
  have b': "b' \<noteq> 0 \<Longrightarrow> mh_used (m b') = 0 \<and> n \<le> mh_size (m b')" using Cons.prems(3) by (auto simp: b'_def)
  have step: "best_fit ok m n a b = best_fit ok m n (mh_next (m x)) b'"
    unfolding a(1) by (subst best_fit.simps) (simp only: a(2,4) if_False not_True_eq_False b'_def conj_assoc)
  obtain r where r: "best_fit ok m n (mh_next (m x)) b' = Some r" "r = b' \<or> r \<in> set xs" "r \<noteq> 0 \<longrightarrow> mh_used (m r) = 0 \<and> n \<le> mh_size (m r)"
    "\<forall>y \<in> (if b' = 0 then {} else {b'}) \<union> {y \<in> set xs. mh_used (m y) = 0 \<and> n \<le> mh_size (m y)}. r \<noteq> 0 \<and> mh_size (m r) \<le> mh_size (m y)"
    using Cons.IH [OF a(3,5) b'] by blast
  have small: "b' \<noteq> 0 \<and> mh_size (m b') \<le> mh_size (m y)" if "y = b \<and> b \<noteq> 0 \<or> y = x \<and> ?fits" for y
    using that a(2) by (auto simp: b'_def)
  have "r \<noteq> 0 \<and> mh_size (m r) \<le> mh_size (m y)" if "y = b \<and> b \<noteq> 0 \<or> y = x \<and> ?fits" for y
  proof -
    note s = small [OF that]
    then have "r \<noteq> 0 \<and> mh_size (m r) \<le> mh_size (m b')" using r(4) by auto
    then show ?thesis using s order_trans by blast
  qed
  moreover have "r = b \<or> r \<in> set (x # xs)" using r(2) by (auto simp: b'_def)
  ultimately show ?case using r step by (auto split: if_splits)
qed


section \<open>Sizes\<close>

lemmas malloc_consts = MALLOC_ALIGN_def MALLOC_MIN_BLOCK_def MALLOC_HEADER_def PAGE_SIZE_def

text \<open>The size that \<open>malloc\<close> looks for.\<close>

definition malloc_size :: "u64 \<Rightarrow> u64" where
  "malloc_size n = (if round_size n < MALLOC_MIN_BLOCK then MALLOC_MIN_BLOCK else round_size n)"

lemma malloc_size_facts:
  assumes "0 < n" "unat n \<le> 2 ^ 39"
  shows "n \<le> malloc_size n" "unat (malloc_size n) \<le> 2 ^ 39 + 15" "64 \<le> unat (malloc_size n)"
    and "unat (malloc_size n) \<le> unat n + 64"
    and "malloc mmap usable n s = Option.bind (best_fit (\<lambda>p. accessible usable p 24 s) (um_hdr s) (malloc_size n) (malloc_head s) 0) (\<lambda>best.
           if best \<noteq> 0 then malloc_take usable best (malloc_size n) s else malloc_from_mmap mmap usable (malloc_size n) s)"
proof -
  have n0: "n \<noteq> 0" using assms(1) by auto
  note f = round_size_facts [OF assms(2) n0]
  have u: "unat (round_size n) = (unat n + 15) div 16 * 16" by (rule unat_round_size) (use assms(2) in simp)
  show "n \<le> malloc_size n" using f(1) by (auto simp: malloc_size_def not_less)
  have le: "(unat n + 15) div 16 * 16 \<le> unat n + 15" by simp
  then have "(unat n + 15) div 16 * 16 \<le> 2 ^ 39 + 15" using assms(2) by linarith
  then show "unat (malloc_size n) \<le> 2 ^ 39 + 15" by (simp add: malloc_size_def MALLOC_MIN_BLOCK_def u)
  show "64 \<le> unat (malloc_size n)" by (simp add: malloc_size_def MALLOC_MIN_BLOCK_def not_less word_le_nat_alt)
  have r: "(n + MALLOC_ALIGN - 1) AND NOT (MALLOC_ALIGN - 1) = round_size n" by (simp only: round_size_def MALLOC_ALIGN_def HEAP_ALIGN_def)
  have a: "\<not> (n = 0 \<or> n > 0x7FFFFFFFFFFFFFFF)" "\<not> round_size n < n" 
    using n0 f(1) assms(2) by (simp add: word_less_nat_alt, simp add: not_less)
  show "unat (malloc_size n) \<le> unat n + 64"
    by (simp add: malloc_size_def MALLOC_MIN_BLOCK_def u) (use le in linarith)
  show "malloc mmap usable n s = Option.bind (best_fit (\<lambda>p. accessible usable p 24 s) (um_hdr s) (malloc_size n) (malloc_head s) 0) (\<lambda>best.
      if best \<noteq> 0 then malloc_take usable best (malloc_size n) s else malloc_from_mmap mmap usable (malloc_size n) s)"
    unfolding malloc_def r Let_def malloc_size_def [symmetric] if_not_P [OF a(1)] if_not_P [OF a(2)] by (rule refl)
qed

text \<open>The pages that are asked for.\<close>

lemma mmap_total:
  assumes "unat n \<le> 2 ^ 39 + 15"
  defines "t \<equiv> (MALLOC_HEADER + n + PAGE_SIZE - 1) AND NOT (PAGE_SIZE - 1)"
  shows "unat t = (unat n + 4119) div 4096 * 4096" "unat t mod 4096 = 0" "unat n + 24 \<le> unat t" "unat t < 2 ^ 40"
    and "unat (MALLOC_HEADER + n) = unat n + 24" "unat (t - MALLOC_HEADER - n) = unat t - 24 - unat n" "unat (t - MALLOC_HEADER) = unat t - 24"
proof -
  show h: "unat (MALLOC_HEADER + n) = unat n + 24" using assms(1) by (simp add: MALLOC_HEADER_def unat_word_ariths)
  have "t = of_nat ((unat (MALLOC_HEADER + n) + 4095) div 4096) * PAGE_SIZE"
    unfolding t_def by (subst round_up_pages(1) [symmetric]) (use h assms(1) in \<open>simp_all add: PAGE_SIZE_def\<close>)
  then have t: "t = of_nat ((unat n + 4119) div 4096) * PAGE_SIZE" by (simp add: h add.commute)
  have b: "(unat n + 4119) div 4096 * 4096 \<le> unat n + 4119" by simp
  show u: "unat t = (unat n + 4119) div 4096 * 4096"
    using b assms(1) by (simp add: t PAGE_SIZE_def unat_word_ariths unat_of_nat take_bit_nat_eq_self)
  show "unat t mod 4096 = 0" by (simp add: u)
  show "unat t < 2 ^ 40" using b assms(1) unfolding u by simp
  have "unat n + 24 \<le> (unat n + 4119) div 4096 * 4096"
    using mult_div_mod_eq [of 4096 "unat n + 4119"] mod_less_divisor [of 4096 "unat n + 4119"] by linarith
  then show le: "unat n + 24 \<le> unat t" by (simp add: u)
  show h2: "unat (t - MALLOC_HEADER) = unat t - 24" using le by (subst unat_sub) (auto simp: MALLOC_HEADER_def word_le_nat_alt)
  show "unat (t - MALLOC_HEADER - n) = unat t - 24 - unat n"
    using le by (subst unat_sub) (auto simp: word_le_nat_alt h2)
qed


section \<open>The invariant\<close>

text \<open>\<open>brk\<close>: where the system's next mapping will stand; all blocks are below it.\<close>

definition malloc_inv :: "u64 \<Rightarrow> 's umem \<Rightarrow> u64 list \<Rightarrow> bool" where
  "malloc_inv brk s xs \<longleftrightarrow> mpath (um_hdr s) (malloc_head s) xs 0 \<and> sorted_wrt (mapart (um_hdr s)) xs \<and>
     (\<forall>x\<in>set xs. mblock_end (um_hdr s) x \<le> unat brk)"

text \<open>Every byte of every block can be accessed.\<close>

definition blocks_mapped :: "('s \<Rightarrow> u64 \<Rightarrow> bool) \<Rightarrow> 's umem \<Rightarrow> u64 list \<Rightarrow> bool" where
  "blocks_mapped usable s xs \<longleftrightarrow> (\<forall>x\<in>set xs. accessible usable x (24 + unat (mh_size (um_hdr s x))) s)"

lemma accessible_upd [simp]:
  "accessible usable p n (s\<lparr>um_hdr := h\<rparr>) = accessible usable p n s" "accessible usable p n (s\<lparr>malloc_head := a\<rparr>) = accessible usable p n s"
  "accessible usable p n (s\<lparr>um_bytes := b\<rparr>) = accessible usable p n s"
  by (simp_all add: accessible_def)

lemma accessible_part:
  assumes "accessible usable p n s" "off + k \<le> n"
  shows "accessible usable (p + of_nat off) k s"
  unfolding accessible_def
proof (intro allI impI)
  fix i
  assume "i < k"
  then have "off + i < n" using assms(2) by simp
  then have "usable (um_sys s) (p + of_nat (off + i))" using assms(1) unfolding accessible_def by blast
  then show "usable (um_sys s) (p + of_nat off + of_nat i)" by (simp add: add.assoc)
qed

lemma accessible_less: "accessible usable p n s \<Longrightarrow> k \<le> n \<Longrightarrow> accessible usable p k s"
  by (simp add: accessible_def)

lemma accessible_mono: "accessible usable p n s \<Longrightarrow> \<forall>a. usable (um_sys s) a \<longrightarrow> usable (um_sys t) a \<Longrightarrow> accessible usable p n t"
  by (simp add: accessible_def)

lemma upd_hdr_some: "accessible usable x 24 s \<Longrightarrow> upd_hdr usable x f s = Some (s\<lparr>um_hdr := (um_hdr s)(x := f (um_hdr s x))\<rparr>)"
  by (simp add: upd_hdr_def)

lemma blocks_mapped_header: "blocks_mapped usable s xs \<Longrightarrow> x \<in> set xs \<Longrightarrow> accessible usable x 24 s"
  using accessible_less [of usable x "24 + unat (mh_size (um_hdr s x))" s 24] by (simp add: blocks_mapped_def)

text \<open>What the lists of headers become.\<close>

lemma mapart_list:
  assumes "sorted_wrt (mapart m) (ys @ x # zs)" "\<And>z. z \<in> set ys \<union> set zs \<Longrightarrow> mh_size (m' z) = mh_size (m z)"
    and "unat x \<le> unat r" "mblock_end m' r \<le> mblock_end m x" "mblock_end m' x \<le> unat r"
  shows "sorted_wrt (mapart m') (ys @ x # r # zs)"
proof -
  have ap: "mapart m' z x \<and> mapart m' z r" if "mapart m z x" "z \<in> set ys \<union> set zs" for z
  proof -
    have e: "mblock_end m' z = mblock_end m z" using assms(2) [OF that(2)] by (simp add: mblock_end_def)
    have "unat r \<le> mblock_end m' r" by (simp add: mblock_end_def)
    then show ?thesis using that(1) assms(3-5) unfolding mapart_def e by linarith
  qed
  have "sorted_wrt (mapart m') ys" "sorted_wrt (mapart m') zs"
    using assms(1,2) by (auto simp: sorted_wrt_append intro!: mdisjoint_cong [of m])
  moreover have "mapart m' y z" if "y \<in> set ys" "z \<in> set zs" for y z
    using assms(1,2) that mapart_cong [of m' y m z] by (auto simp: sorted_wrt_append)
  moreover have "mapart m' x r" using assms(5) by (simp add: mapart_def)
  ultimately show ?thesis
    using assms(1) ap by (auto simp: sorted_wrt_append mapart_sym)
qed

lemma malloc_inv_pointer:
  assumes "malloc_inv brk s xs" "x \<in> set xs"
  shows "x \<noteq> 0" "unat (x + MALLOC_HEADER) = unat x + 24" "x + MALLOC_HEADER \<noteq> 0"
proof -
  show "x \<noteq> 0" using assms mpath_nonzero unfolding malloc_inv_def by blast
  have "unat x + 24 \<le> unat brk" using assms by (auto simp: malloc_inv_def mblock_end_def)
  also have "\<dots> < 2 ^ 64" using unsigned_less [of brk, where 'a = nat] by simp
  finally show u: "unat (x + MALLOC_HEADER) = unat x + 24" by (simp add: MALLOC_HEADER_def unat_word_ariths)
  then show "x + MALLOC_HEADER \<noteq> 0" by (metis add_is_0 unat_0 zero_neq_numeral)
qed

text \<open>Marking a block in use.\<close>

lemma malloc_inv_mark:
  assumes "malloc_inv brk s xs" "um_hdr t = (um_hdr s)(x := (um_hdr s x)\<lparr>mh_used := u\<rparr>)" "malloc_head t = malloc_head s"
  shows "malloc_inv brk t xs"
proof -
  have same: "mh_size (um_hdr t z) = mh_size (um_hdr s z)" "mh_next (um_hdr t z) = mh_next (um_hdr s z)" for z by (simp_all add: assms(2))
  then have "mblock_end (um_hdr t) z = mblock_end (um_hdr s) z" for z by (simp add: mblock_end_def)
  then show ?thesis using assms(1,3) same mpath_cong [of xs "um_hdr t" "um_hdr s"] mdisjoint_cong [of "um_hdr s" xs "um_hdr t"]
    by (simp add: malloc_inv_def)
qed

lemma malloc_take_ok:
  assumes inv: "malloc_inv brk s xs" and x: "x \<in> set xs" "mh_used (um_hdr s x) = 0" "n \<le> mh_size (um_hdr s x)"
    and n: "unat n \<le> 2 ^ 40" and acc: "blocks_mapped usable s xs"
  shows "\<exists>s' xs' sz. malloc_take usable x n s = Some (x + MALLOC_HEADER, s') \<and> malloc_inv brk s' xs' \<and> n \<le> sz \<and> (x, sz) \<notin> mallocated (um_hdr s) xs \<and>
    mallocated (um_hdr s') xs' = insert (x, sz) (mallocated (um_hdr s) xs) \<and> um_bytes s' = um_bytes s \<and> um_sys s' = um_sys s \<and>
    blocks_mapped usable s' xs'"
proof -
  obtain ys zs where xs: "xs = ys @ x # zs" using x(1) by (auto simp: in_set_conv_decomp)
  have dist: "distinct xs" using inv mdisjoint_distinct by (auto simp: malloc_inv_def)
  let ?h = "um_hdr s x"
  have whole: "accessible usable x (24 + unat (mh_size ?h)) s" using acc x(1) by (simp add: blocks_mapped_def)
  then have hdr: "accessible usable x 24 s" by (rule accessible_less) simp
  have fresh: "(x, sz) \<notin> mallocated (um_hdr s) xs" for sz using x(2) by (simp add: mallocated_def)
  show ?thesis
  proof (cases "n + MALLOC_HEADER + MALLOC_MIN_BLOCK \<le> mh_size ?h")
    case False
    define t where "t = s\<lparr>um_hdr := (um_hdr s)(x := ?h\<lparr>mh_used := 1\<rparr>)\<rparr>"
    have "malloc_take usable x n s = Some (x + MALLOC_HEADER, t)"
      using False upd_hdr_some [OF hdr] by (simp add: malloc_take_def Let_def t_def)
    moreover have "malloc_inv brk t xs" by (rule malloc_inv_mark [OF inv]) (simp_all add: t_def)
    moreover have "blocks_mapped usable t xs" using acc by (simp add: blocks_mapped_def t_def)
    moreover have "mallocated (um_hdr t) xs = insert (x, mh_size ?h) (mallocated (um_hdr s) xs)"
      using x by (auto simp: mallocated_def t_def)
    ultimately show ?thesis using x(3) fresh by (auto simp: t_def)
  next
    case True
    define r where "r = x + MALLOC_HEADER + n"
    define m' where "m' = (um_hdr s)(r := \<lparr>mh_size = mh_size ?h - n - MALLOC_HEADER, mh_used = 0, mh_next = mh_next ?h\<rparr>,
      x := ?h\<lparr>mh_size := n, mh_next := r, mh_used := 1\<rparr>)"
    have sz: "unat n + 88 \<le> unat (mh_size ?h)" using True n by (simp add: malloc_consts word_le_nat_alt unat_word_ariths)
    have xend: "mblock_end (um_hdr s) x \<le> unat brk" using inv x(1) by (simp add: malloc_inv_def)
    then have "unat x + 24 + unat (mh_size ?h) < 2 ^ 64"
      using unsigned_less [of brk, where 'a = nat] by (simp add: mblock_end_def)
    then have r: "unat r = unat x + 24 + unat n" using sz by (simp add: r_def MALLOC_HEADER_def unat_word_ariths)
    have "unat (mh_size ?h - n) = unat (mh_size ?h) - unat n" using sz by (subst unat_sub) (simp_all add: word_le_nat_alt)
    then have rest: "unat (mh_size ?h - n - MALLOC_HEADER) = unat (mh_size ?h) - unat n - 24"
      using sz by (subst unat_sub) (simp_all add: word_le_nat_alt MALLOC_HEADER_def)
    have rx: "r \<noteq> x" using r by auto
    have out: "mapart (um_hdr s) z x" if "z \<in> set ys \<union> set zs" for z
      using inv that by (auto simp: malloc_inv_def xs sorted_wrt_append mapart_sym)
    have rz: "r \<noteq> z \<and> x \<noteq> z" if "z \<in> set ys \<union> set zs" for z
      using out [OF that] r sz by (auto simp: mapart_def mblock_end_def)
    have m': "m' z = um_hdr s z" if "z \<in> set ys \<union> set zs" for z using rz [OF that] by (auto simp: m'_def)
    define t where "t = s\<lparr>um_hdr := m'\<rparr>"
    have rr: "r = x + of_nat (24 + unat n)" by (simp add: r_def MALLOC_HEADER_def add.assoc)
    have racc: "accessible usable r k s" if "24 + unat n + k \<le> 24 + unat (mh_size ?h)" for k
      unfolding rr by (rule accessible_part [OF whole that])
    have "upd_hdr usable r f s = Some (s\<lparr>um_hdr := (um_hdr s)(r := f (um_hdr s r))\<rparr>)" for f
      by (rule upd_hdr_some) (use racc [of 24] sz in simp)
    moreover have "upd_hdr usable x f u = Some (u\<lparr>um_hdr := (um_hdr u)(x := f (um_hdr u x))\<rparr>)" if "um_sys u = um_sys s" for f u
      using hdr that by (simp add: upd_hdr_def accessible_def)
    ultimately have "malloc_take usable x n s = Some (x + MALLOC_HEADER, t)"
      using True rx by (simp add: malloc_take_def Let_def t_def m'_def r_def [symmetric] fun_upd_twist)
    moreover have "blocks_mapped usable t (ys @ x # r # zs)"
      unfolding blocks_mapped_def
    proof
      fix y
      assume "y \<in> set (ys @ x # r # zs)"
      then consider "y = x" | "y = r" | "y \<in> set ys \<union> set zs" by auto
      then show "accessible usable y (24 + unat (mh_size (um_hdr t y))) t"
      proof cases
        case 1
        then show ?thesis using accessible_less [OF whole] sz rx by (simp add: t_def m'_def)
      next
        case 2
        then show ?thesis using racc [of "unat (mh_size ?h) - unat n"] sz rest rx by (simp add: t_def m'_def)
      next
        case 3
        then show ?thesis using acc m' [OF 3] by (auto simp: t_def blocks_mapped_def xs)
      qed
    qed
    moreover have "malloc_inv brk t (ys @ x # r # zs)"
      unfolding malloc_inv_def
    proof (intro conjI)
      have "mpath (um_hdr s) (malloc_head s) ys x" "mpath (um_hdr s) (mh_next ?h) zs 0" "x \<noteq> 0"
        using inv by (auto simp: malloc_inv_def xs mpath_append)
      moreover have "mpath m' a ys e = mpath (um_hdr s) a ys e" "mpath m' a zs e = mpath (um_hdr s) a zs e" for a e
        by (rule mpath_cong, simp add: m')+
      moreover have "r \<noteq> 0" using r by auto
      ultimately show "mpath (um_hdr t) (malloc_head t) (ys @ x # r # zs) 0"
        using rx by (auto simp: t_def mpath_append m'_def)
      have "sorted_wrt (mapart m') (ys @ x # r # zs)"
        by (rule mapart_list [of "um_hdr s"])
          (use inv m' r rest sz rx in \<open>auto simp: malloc_inv_def xs mblock_end_def m'_def\<close>)
      then show "sorted_wrt (mapart (um_hdr t)) (ys @ x # r # zs)" by (simp add: t_def)
      have "mblock_end m' z \<le> unat brk" if "z \<in> set ys \<union> set zs" for z
        using inv that m' [OF that] by (auto simp: malloc_inv_def xs mblock_end_def)
      moreover have "mblock_end m' x \<le> unat brk" "mblock_end m' r \<le> unat brk"
        using xend r rest sz rx by (auto simp: mblock_end_def m'_def)
      ultimately show "\<forall>z\<in>set (ys @ x # r # zs). mblock_end (um_hdr t) z \<le> unat brk" by (auto simp: t_def)
    qed
    moreover have "mallocated (um_hdr t) (ys @ x # r # zs) = insert (x, n) (mallocated (um_hdr s) xs)"
    proof -
      have "mh_used (m' r) = 0" "mh_used (m' x) \<noteq> 0" "mh_size (m' x) = n" using rx by (simp_all add: m'_def)
      then have "mallocated m' (ys @ x # r # zs) = insert (x, n) {(z, mh_size (m' z)) |z. z \<in> set ys \<union> set zs \<and> mh_used (m' z) \<noteq> 0}"
        by (auto simp: mallocated_def)
      also have "{(z, mh_size (m' z)) |z. z \<in> set ys \<union> set zs \<and> mh_used (m' z) \<noteq> 0} = mallocated (um_hdr s) xs"
        using m' x(2) by (auto simp: mallocated_def xs)
      finally show ?thesis by (simp add: t_def)
    qed
    ultimately show ?thesis using fresh by (intro exI [of _ t] exI [of _ "ys @ x # r # zs"] exI [of _ n]) (simp add: t_def)
  qed
qed


text \<open>New blocks in front of the list, above all others.\<close>

lemma malloc_inv_grow:
  assumes "malloc_inv brk s xs" "unat brk \<le> unat brk'" "\<And>x. x \<in> set xs \<Longrightarrow> um_hdr t x = um_hdr s x"
    and "mpath (um_hdr t) (malloc_head t) ns (malloc_head s)" "sorted_wrt (mapart (um_hdr t)) ns"
    and "\<And>x. x \<in> set ns \<Longrightarrow> unat brk \<le> unat x \<and> mblock_end (um_hdr t) x \<le> unat brk'"
  shows "malloc_inv brk' t (ns @ xs)"
proof -
  have e: "mblock_end (um_hdr t) x \<le> unat brk" if "x \<in> set xs" for x
    using assms(1,3) that by (simp add: malloc_inv_def mblock_end_def)
  have "mpath (um_hdr t) a xs 0 = mpath (um_hdr s) a xs 0" for a by (rule mpath_cong) (simp add: assms(3))
  moreover have "sorted_wrt (mapart (um_hdr t)) xs"
    by (rule mdisjoint_cong [of "um_hdr s"]) (use assms(1,3) in \<open>auto simp: malloc_inv_def\<close>)
  moreover have "mapart (um_hdr t) x y" if "x \<in> set ns" "y \<in> set xs" for x y
    using e [OF that(2)] assms(6) [OF that(1)] by (auto simp: mapart_def)
  ultimately show ?thesis
    using assms(1,2,4,5,6) e by (force simp: malloc_inv_def mpath_append sorted_wrt_append)
qed

lemma malloc_from_mmap_ok:
  assumes inv: "malloc_inv b s xs" and n: "unat n \<le> 2 ^ 39 + 15"
  defines "t \<equiv> (MALLOC_HEADER + n + PAGE_SIZE - 1) AND NOT (PAGE_SIZE - 1)"
  assumes mmap: "mmap t (um_sys s) = (b, sys)" and b: "0 < b" "unat b \<le> 2 ^ 63" and acc: "blocks_mapped usable s xs"
    and old: "\<forall>a. usable (um_sys s) a \<longrightarrow> usable sys a" and new: "\<forall>i<unat t. usable sys (b + of_nat i)"
  shows "\<exists>s' xs' sz. malloc_from_mmap mmap usable n s = Some (b + MALLOC_HEADER, s') \<and> malloc_inv (b + t) s' xs' \<and> n \<le> sz \<and>
    (b, sz) \<notin> mallocated (um_hdr s) xs \<and> mallocated (um_hdr s') xs' = insert (b, sz) (mallocated (um_hdr s) xs) \<and>
    um_bytes s' = um_bytes s \<and> um_sys s' = sys \<and> blocks_mapped usable s' xs'"
proof -
  note m = mmap_total [OF n, folded t_def]
  have bt: "unat (b + t) = unat b + unat t" using m(4) b(2) by (simp add: unat_word_ariths)
  have big: "\<not> n > 0x7FFFFFFFFFFFFFFF - MALLOC_HEADER" using n by (simp add: MALLOC_HEADER_def word_less_nat_alt)
  have noover: "\<not> t < MALLOC_HEADER + n" using m(3,5) by (simp add: word_less_nat_alt)
  have b0: "b \<noteq> 0" using b(1) by auto
  have below: "unat z + 24 \<le> unat b" if "z \<in> set xs" for z using inv that by (auto simp: malloc_inv_def mblock_end_def)
  have fresh: "(b, sz) \<notin> mallocated (um_hdr s) xs" for sz using below [of b] by (auto simp: mallocated_def)
  note run = malloc_from_mmap_def [of mmap usable n s, unfolded Let_def t_def [symmetric] mmap prod.case if_not_P [OF big] if_not_P [OF noover] if_not_P [OF b0]]
  have fresh_acc: "accessible usable b (unat t) u" if "um_sys u = sys" for u using new that by (simp add: accessible_def)
  have hdr: "upd_hdr usable b f u = Some (u\<lparr>um_hdr := (um_hdr u)(b := f (um_hdr u b))\<rparr>)" if "um_sys u = sys" for f u
    by (rule upd_hdr_some, rule accessible_less [OF fresh_acc [OF that]]) (use m(3) in simp)
  have kept: "accessible usable z (24 + unat (mh_size (um_hdr s z))) u" if "z \<in> set xs" "um_sys u = sys" for z u
    using acc that old by (auto simp: blocks_mapped_def accessible_def)
  show ?thesis
  proof (cases "t - MALLOC_HEADER - n \<ge> MALLOC_HEADER + MALLOC_MIN_BLOCK")
    case True
    define r where "r = b + MALLOC_HEADER + n"
    define s' where "s' = s\<lparr>um_sys := sys, um_hdr := (um_hdr s)(b := \<lparr>mh_size = n, mh_used = 1, mh_next = malloc_head s\<rparr>,
      r := \<lparr>mh_size = t - MALLOC_HEADER - n - MALLOC_HEADER, mh_used = 0, mh_next = b\<rparr>), malloc_head := r\<rparr>"
    have ex: "88 \<le> unat t - 24 - unat n" using True m(6) by (simp add: malloc_consts word_le_nat_alt)
    have r: "unat r = unat b + 24 + unat n" using n b(2) by (simp add: r_def MALLOC_HEADER_def unat_word_ariths)
    have rest: "unat (t - MALLOC_HEADER - n - MALLOC_HEADER) = unat t - 24 - unat n - 24"
      using ex m(6) by (subst unat_sub) (simp_all add: word_le_nat_alt MALLOC_HEADER_def)
    have rb: "r \<noteq> b" "r \<noteq> 0" using r by auto
    have out: "z \<noteq> b \<and> z \<noteq> r" if "z \<in> set xs" for z using below [OF that] r by auto
    have ends: "mblock_end (um_hdr s') b = unat r" "mblock_end (um_hdr s') r = unat (b + t)"
      using r rest ex bt rb by (auto simp: mblock_end_def s'_def)
    have rr: "r = b + of_nat (24 + unat n)" by (simp add: r_def MALLOC_HEADER_def add.assoc)
    have racc: "accessible usable r k u" if "24 + unat n + k \<le> unat t" "um_sys u = sys" for k u
      unfolding rr by (rule accessible_part [OF fresh_acc [OF that(2)] that(1)])
    have "upd_hdr usable r f u = Some (u\<lparr>um_hdr := (um_hdr u)(r := f (um_hdr u r))\<rparr>)" if "um_sys u = sys" for f u
      by (rule upd_hdr_some, rule racc [OF _ that]) (use ex in simp)
    then have "malloc_from_mmap mmap usable n s = Some (b + MALLOC_HEADER, s')"
      using True rb hdr by (simp add: run s'_def r_def [symmetric] Let_def)
    moreover have "blocks_mapped usable s' ([r, b] @ xs)"
      unfolding blocks_mapped_def
    proof
      fix y
      assume "y \<in> set ([r, b] @ xs)"
      then consider "y = r" | "y = b" | "y \<in> set xs" by auto
      then show "accessible usable y (24 + unat (mh_size (um_hdr s' y))) s'"
      proof cases
        case 1
        have "accessible usable r (unat t - 24 - unat n) s'" by (rule racc) (use ex in \<open>simp_all add: s'_def\<close>)
        then show ?thesis using rest ex rb by (simp add: 1 s'_def)
      next
        case 2
        have "accessible usable b (24 + unat n) s'" by (rule accessible_less [OF fresh_acc]) (use ex in \<open>simp_all add: s'_def\<close>)
        then show ?thesis using rb by (simp add: 2 s'_def)
      next
        case 3
        then show ?thesis using kept [OF 3, of s'] out [OF 3] by (simp add: s'_def)
      qed
    qed
    moreover have "malloc_inv (b + t) s' ([r, b] @ xs)"
    proof (rule malloc_inv_grow [OF inv])
      show "mpath (um_hdr s') (malloc_head s') [r, b] (malloc_head s)" using rb b0 by (auto simp: s'_def)
      show "sorted_wrt (mapart (um_hdr s')) [r, b]" using ends(1) by (simp add: mapart_def)
      show "unat b \<le> unat x \<and> mblock_end (um_hdr s') x \<le> unat (b + t)" if "x \<in> set [r, b]" for x
      proof -
        have "unat r \<le> unat (b + t)" using ends(2) by (simp add: mblock_end_def)
        then show ?thesis using that ends r by auto
      qed
      show "um_hdr s' x = um_hdr s x" if "x \<in> set xs" for x using out [OF that] by (simp add: s'_def)
    qed (use bt in simp)
    moreover have "mallocated (um_hdr s') ([r, b] @ xs) = insert (b, n) (mallocated (um_hdr s) xs)"
    proof -
      have "mallocated (um_hdr s') xs = mallocated (um_hdr s) xs" using out by (auto simp: mallocated_def s'_def)
      moreover have "mallocated (um_hdr s') ([r, b] @ xs) = insert (b, n) (mallocated (um_hdr s') xs)"
        using rb by (auto simp: mallocated_def s'_def)
      ultimately show ?thesis by simp
    qed
    ultimately show ?thesis using fresh by (intro exI [of _ s'] exI [of _ "[r, b] @ xs"] exI [of _ n]) (simp add: s'_def)
  next
    case False
    define s' where "s' = s\<lparr>um_sys := sys, um_hdr := (um_hdr s)(b := \<lparr>mh_size = t - MALLOC_HEADER, mh_used = 1, mh_next = malloc_head s\<rparr>),
      malloc_head := b\<rparr>"
    have out: "z \<noteq> b" if "z \<in> set xs" for z using below [OF that] by auto
    have bend: "mblock_end (um_hdr s') b = unat (b + t)" using m(3,7) bt by (simp add: mblock_end_def s'_def)
    have "malloc_from_mmap mmap usable n s = Some (b + MALLOC_HEADER, s')" using False hdr by (simp add: run s'_def Let_def)
    moreover have "blocks_mapped usable s' ([b] @ xs)"
    proof -
      have "accessible usable b (24 + unat (t - MALLOC_HEADER)) s'" by (rule accessible_less [OF fresh_acc]) (use m(3,7) in \<open>simp_all add: s'_def\<close>)
      moreover have "accessible usable z (24 + unat (mh_size (um_hdr s' z))) s'" if "z \<in> set xs" for z
        using kept [OF that, of s'] out [OF that] by (simp add: s'_def)
      ultimately show ?thesis by (simp add: blocks_mapped_def) (simp add: s'_def)
    qed
    moreover have "malloc_inv (b + t) s' ([b] @ xs)"
      by (rule malloc_inv_grow [OF inv]) (use bt bend b0 out in \<open>auto simp: s'_def\<close>)
    moreover have "mallocated (um_hdr s') ([b] @ xs) = insert (b, t - MALLOC_HEADER) (mallocated (um_hdr s) xs)"
      using out by (auto simp: mallocated_def s'_def)
    moreover have "n \<le> t - MALLOC_HEADER" using m(3,7) by (simp add: word_le_nat_alt)
    ultimately show ?thesis
      using fresh by (intro exI [of _ s'] exI [of _ "[b] @ xs"] exI [of _ "t - MALLOC_HEADER"]) (simp add: s'_def)
  qed
qed


section \<open>The contract\<close>

text \<open>
  The heap as its clients see it: \<open>A\<close> are the allocated blocks, every byte of every block is mapped, and the system has frames and
  addresses for the pages of \<open>k\<close> more requests of at most \<open>lim\<close> bytes.  \<open>good m\<close>: the system can map \<open>m\<close> more pages.
\<close>

definition request_pages :: "nat \<Rightarrow> nat" where
  "request_pages lim = (min lim (2 ^ 39) + 4183) div 4096"

definition malloc_ok :: "('s \<Rightarrow> u64 \<Rightarrow> bool) \<Rightarrow> ('s \<Rightarrow> u64) \<Rightarrow> (nat \<Rightarrow> 's \<Rightarrow> bool) \<Rightarrow> nat \<Rightarrow> nat \<Rightarrow> 's umem \<Rightarrow> (u64 \<times> u64) set \<Rightarrow> bool" where
  "malloc_ok usable brk good lim k s A \<longleftrightarrow> good (k * request_pages lim) (um_sys s) \<and> 0 < brk (um_sys s) \<and>
     unat (brk (um_sys s)) + k * request_pages lim * 4096 \<le> 2 ^ 47 \<and>
     (\<exists>xs. malloc_inv (brk (um_sys s)) s xs \<and> blocks_mapped usable s xs \<and> A = mallocated (um_hdr s) xs)"

lemma free_ok:
  assumes "malloc_ok usable brk good lim k s A" "(x, sz) \<in> A"
  shows "\<exists>s'. free usable (x + MALLOC_HEADER) s = Some s' \<and> malloc_ok usable brk good lim k s' (A - {(x, sz)}) \<and>
    um_bytes s' = um_bytes s \<and> um_sys s' = um_sys s"
proof -
  obtain xs where xs: "malloc_inv (brk (um_sys s)) s xs" "blocks_mapped usable s xs" "A = mallocated (um_hdr s) xs"
    using assms(1) by (auto simp: malloc_ok_def)
  have x: "x \<in> set xs" "sz = mh_size (um_hdr s x)" using assms(2) by (auto simp: xs(3) mallocated_def)
  define t where "t = s\<lparr>um_hdr := (um_hdr s)(x := (um_hdr s x)\<lparr>mh_used := 0\<rparr>)\<rparr>"
  have run: "free usable (x + MALLOC_HEADER) s = Some t"
    using malloc_inv_pointer(3) [OF xs(1) x(1)] upd_hdr_some [OF blocks_mapped_header [OF xs(2) x(1)]] by (simp add: free_def t_def)
  have "malloc_inv (brk (um_sys s)) t xs" by (rule malloc_inv_mark [OF xs(1)]) (simp_all add: t_def)
  moreover have "blocks_mapped usable t xs" using xs(2) by (simp add: blocks_mapped_def t_def)
  moreover have "A - {(x, sz)} = mallocated (um_hdr t) xs" using x(2) by (auto simp: t_def xs(3) mallocated_def)
  moreover have "um_sys t = um_sys s" "um_bytes t = um_bytes s" by (simp_all add: t_def)
  ultimately show ?thesis using assms(1) run unfolding malloc_ok_def by (intro exI [of _ t]) metis
qed

text \<open>A held block can be accessed, header included.\<close>

lemma malloc_ok_block:
  assumes "malloc_ok usable brk good lim k s A" "(x, sz) \<in> A"
  shows "accessible usable x 24 s" "accessible usable (x + MALLOC_HEADER) (unat sz) s" "mh_size (um_hdr s x) = sz"
proof -
  obtain xs where xs: "blocks_mapped usable s xs" "A = mallocated (um_hdr s) xs" using assms(1) by (auto simp: malloc_ok_def)
  have x: "x \<in> set xs" "sz = mh_size (um_hdr s x)" using assms(2) by (auto simp: xs(2) mallocated_def)
  then have w: "accessible usable x (24 + unat sz) s" using xs(1) by (simp add: blocks_mapped_def)
  show "accessible usable x 24 s" by (rule accessible_less [OF w]) simp
  show "accessible usable (x + MALLOC_HEADER) (unat sz) s" using accessible_part [OF w, of 24] by (simp add: MALLOC_HEADER_def)
  show "mh_size (um_hdr s x) = sz" using x(2) by simp
qed

lemma malloc_ok_apart:
  assumes "malloc_ok usable brk good lim k s A" "r \<in> A" "q \<in> A" "r \<noteq> q"
  shows "unat (fst r) + 24 + unat (snd r) \<le> unat (fst q) \<or> unat (fst q) + 24 + unat (snd q) \<le> unat (fst r)"
proof -
  obtain xs where xs: "malloc_inv (brk (um_sys s)) s xs" "A = mallocated (um_hdr s) xs"
    using assms(1) by (auto simp: malloc_ok_def)
  obtain x y where xy: "r = (x, mh_size (um_hdr s x))" "q = (y, mh_size (um_hdr s y))" "x \<in> set xs" "y \<in> set xs" "x \<noteq> y"
    using assms(2-4) by (auto simp: xs(2) mallocated_def)
  then show ?thesis using mdisjoint_apart [of "um_hdr s" xs x y] xs(1) by (simp add: malloc_inv_def mapart_def mblock_end_def)
qed

text \<open>
  What \<^verbatim>\<open>SYS_MMAP\<close> promises while there are frames: the pages asked for, next to the ones before, every byte of them mapped, and
  nothing unmapped.
\<close>

locale mmap_space =
  fixes mmap :: "u64 \<Rightarrow> 's \<Rightarrow> u64 \<times> 's" and usable :: "'s \<Rightarrow> u64 \<Rightarrow> bool" and brk :: "'s \<Rightarrow> u64" and good :: "nat \<Rightarrow> 's \<Rightarrow> bool"
    and lim :: nat
  assumes mmap_next: "good (k + unat n div 4096) s \<Longrightarrow> mmap n s = (p, s') \<Longrightarrow> unat n mod 4096 = 0 \<Longrightarrow> unat (brk s) + unat n \<le> 2 ^ 47 \<Longrightarrow>
      p = brk s \<and> brk s' = brk s + n \<and> good k s' \<and> (\<forall>a. usable s a \<longrightarrow> usable s' a) \<and> (\<forall>i<unat n. usable s' (p + of_nat i))"
    and good_fewer: "good m s \<Longrightarrow> k \<le> m \<Longrightarrow> good k s"
begin

abbreviation ok where "ok \<equiv> malloc_ok usable brk good lim"

lemma malloc_ok_less:
  assumes "ok (Suc k) s A"
  shows "ok k s A"
proof -
  have le: "k * request_pages lim \<le> Suc k * request_pages lim" by simp
  have a: "good (Suc k * request_pages lim) (um_sys s)" "unat (brk (um_sys s)) + Suc k * request_pages lim * 4096 \<le> 2 ^ 47"
    using assms unfolding malloc_ok_def by blast+
  have "unat (brk (um_sys s)) + k * request_pages lim * 4096 \<le> 2 ^ 47" using mult_le_mono1 [OF le, of 4096] a(2) by linarith
  then show ?thesis using good_fewer [OF a(1) le] assms unfolding malloc_ok_def by blast
qed

lemma malloc_block:
  assumes "ok (Suc k) s A" "0 < n" "unat n \<le> min lim (2 ^ 39)"
  shows "\<exists>x sz s'. malloc mmap usable n s = Some (x + MALLOC_HEADER, s') \<and> x + MALLOC_HEADER \<noteq> 0 \<and> n \<le> sz \<and> (x, sz) \<notin> A \<and>
    ok k s' (insert (x, sz) A) \<and> um_bytes s' = um_bytes s \<and> unat (brk (um_sys s')) \<le> unat (brk (um_sys s)) + request_pages lim * 4096"
proof -
  let ?b = "brk (um_sys s)" and ?r = "request_pages lim"
  obtain xs where xs: "malloc_inv ?b s xs" "A = mallocated (um_hdr s) xs" "blocks_mapped usable s xs"
    and g: "good (Suc k * ?r) (um_sys s)" "0 < ?b" "unat ?b + Suc k * ?r * 4096 \<le> 2 ^ 47"
    using assms(1) by (auto simp: malloc_ok_def)
  have n39: "unat n \<le> 2 ^ 39" using assms(3) by simp
  note f = malloc_size_facts [OF assms(2) n39]
  let ?n = "malloc_size n"
  have path: "mpath (um_hdr s) (malloc_head s) xs 0" using xs(1) by (simp add: malloc_inv_def)
  have acc: "\<forall>x\<in>set xs. accessible usable x 24 s" using blocks_mapped_header [OF xs(3)] by blast
  obtain r where r: "best_fit (\<lambda>p. accessible usable p 24 s) (um_hdr s) ?n (malloc_head s) 0 = Some r" "r = 0 \<or> r \<in> set xs"
    "r \<noteq> 0 \<longrightarrow> mh_used (um_hdr s r) = 0 \<and> ?n \<le> mh_size (um_hdr s r)"
    using best_fit_path [OF path acc, of 0 ?n] by auto
  have done_by: ?thesis
    if run: "malloc mmap usable n s = Some (x + MALLOC_HEADER, s')" and inv: "malloc_inv (brk (um_sys s')) s' xs'" and sz: "?n \<le> sz"
      and new: "(x, sz) \<notin> mallocated (um_hdr s) xs" "mallocated (um_hdr s') xs' = insert (x, sz) (mallocated (um_hdr s) xs)"
      and rest: "um_bytes s' = um_bytes s" "good (k * ?r) (um_sys s')" "0 < brk (um_sys s')" "unat (brk (um_sys s')) + k * ?r * 4096 \<le> 2 ^ 47"
        "blocks_mapped usable s' xs'" "unat (brk (um_sys s')) \<le> unat ?b + ?r * 4096" for x s' xs' sz
  proof -
    have "(x, sz) \<in> mallocated (um_hdr s') xs'" using new(2) by simp
    then have "x \<in> set xs'" by (simp add: mallocated_def)
    from malloc_inv_pointer(3) [OF inv this] show ?thesis
      using run inv order_trans [OF f(1) sz] new rest unfolding malloc_ok_def xs(2) by blast
  qed
  show ?thesis
  proof (cases "r = 0")
    case False
    then have x: "r \<in> set xs" "mh_used (um_hdr s r) = 0" "?n \<le> mh_size (um_hdr s r)" using r by auto
    have "unat ?n \<le> 2 ^ 40" using f(2) by simp
    from malloc_take_ok [OF xs(1) x this xs(3)] obtain s' xs' sz where
      t: "malloc_take usable r ?n s = Some (r + MALLOC_HEADER, s')" "malloc_inv ?b s' xs'" "?n \<le> sz" "(r, sz) \<notin> mallocated (um_hdr s) xs"
        "mallocated (um_hdr s') xs' = insert (r, sz) (mallocated (um_hdr s) xs)" "um_bytes s' = um_bytes s" "um_sys s' = um_sys s"
        "blocks_mapped usable s' xs'" by blast
    have "malloc mmap usable n s = Some (r + MALLOC_HEADER, s')" using False t(1) unfolding f(5) r(1) by simp
    moreover have "good (k * ?r) (um_sys s)" by (rule good_fewer [OF g(1)]) simp
    ultimately show ?thesis by (intro done_by [of r s' xs' sz]) (use t g in auto)
  next
    case True
    define t where "t = (MALLOC_HEADER + ?n + PAGE_SIZE - 1) AND NOT (PAGE_SIZE - 1)"
    note m = mmap_total [OF f(2), folded t_def]
    have pages: "unat t div 4096 \<le> ?r"
    proof -
      have "unat ?n + 4119 \<le> min lim (2 ^ 39) + 4183" using f(4) assms(3) by linarith
      then have "(unat ?n + 4119) div 4096 \<le> ?r" unfolding request_pages_def by (rule div_le_mono)
      then show ?thesis by (simp add: m(1))
    qed
    then have bytes: "unat t \<le> ?r * 4096" using m(2) by (metis div_mult_mod_eq add_0_right mult_le_mono1)
    obtain p sys where mm: "mmap t (um_sys s) = (p, sys)" by fastforce
    have "good (k * ?r + unat t div 4096) (um_sys s)" by (rule good_fewer [OF g(1)]) (use pages in simp)
    moreover have room: "unat ?b + unat t \<le> 2 ^ 47" using g(3) bytes by simp
    ultimately have sys: "p = ?b" "brk sys = ?b + t" "good (k * ?r) sys" "\<forall>a. usable (um_sys s) a \<longrightarrow> usable sys a" "\<forall>i<unat t. usable sys (?b + of_nat i)"
      using mmap_next [of "k * ?r" t "um_sys s" p sys] mm m(2) by blast+
    have b63: "unat ?b \<le> 2 ^ 63" using room by simp
    from malloc_from_mmap_ok [where mmap = mmap, OF xs(1) f(2) mm [unfolded sys(1) t_def] g(2) b63 xs(3) sys(4) sys(5) [unfolded t_def], folded t_def]
    obtain s' xs' sz where
      u: "malloc_from_mmap mmap usable ?n s = Some (?b + MALLOC_HEADER, s')" "malloc_inv (?b + t) s' xs'" "?n \<le> sz" "(?b, sz) \<notin> mallocated (um_hdr s) xs"
        "mallocated (um_hdr s') xs' = insert (?b, sz) (mallocated (um_hdr s) xs)" "um_bytes s' = um_bytes s" "um_sys s' = sys" "blocks_mapped usable s' xs'"
      by blast
    have bt: "unat (?b + t) = unat ?b + unat t" using room by (simp add: unat_word_ariths)
    have "malloc mmap usable n s = Some (?b + MALLOC_HEADER, s')" using True u(1) unfolding f(5) r(1) by simp
    then show ?thesis
      by (rule done_by [of ?b s' xs' sz]) (use u sys g bt bytes in \<open>auto simp: word_less_nat_alt\<close>)
  qed
qed

end

sublocale mmap_space \<subseteq> block_heap "malloc_ok usable brk good lim" "malloc mmap usable" "free usable" MALLOC_HEADER "min lim (2 ^ 39)"
proof
  fix k s A n p s'
  assume a: "malloc_ok usable brk good lim (Suc k) s A" "malloc mmap usable n s = Some (p, s')" "0 < n" "unat n \<le> min lim (2 ^ 39)"
  from malloc_block [OF a(1,3,4)] a(2)
  show "\<exists>x sz. p = x + MALLOC_HEADER \<and> n \<le> sz \<and> (x, sz) \<notin> A \<and> malloc_ok usable brk good lim k s' (insert (x, sz) A)" by auto
next
  fix k s A r q
  assume "malloc_ok usable brk good lim k s A" "r \<in> A" "q \<in> A" "r \<noteq> q"
  from malloc_ok_apart [OF this] show "unat (fst r) + unat MALLOC_HEADER + unat (snd r) \<le> unat (fst q) \<or>
      unat (fst q) + unat MALLOC_HEADER + unat (snd q) \<le> unat (fst r)"
    by (simp add: MALLOC_HEADER_def)
next
  fix k s A x sz
  assume "malloc_ok usable brk good lim k s A" "(x, sz) \<in> A"
  then obtain xs where "malloc_inv (brk (um_sys s)) s xs" "x \<in> set xs" by (auto simp: malloc_ok_def mallocated_def)
  from malloc_inv_pointer(2) [OF this] show "unat (x + MALLOC_HEADER) = unat x + unat MALLOC_HEADER" by (simp add: MALLOC_HEADER_def)
qed (use free_ok in blast)

section \<open>On the kernel's system call\<close>

text \<open>The process of the running thread: its page table, where its next mapping will stand, and which addresses it can access.\<close>

definition user_process :: "kos \<Rightarrow> u64" where
  "user_process s = th_process (thread s (g_current_thread s))"

definition user_brk :: "kos \<Rightarrow> u64" where
  "user_brk s = heap_brk (process s (user_process s))"

definition user_pml4 :: "kos \<Rightarrow> u64" where
  "user_pml4 s = PHYS_TO_VIRT (ps_vm s) (p_page_table (process s (user_process s)))"

definition user_mapped :: "kos \<Rightarrow> u64 \<Rightarrow> bool" where
  "user_mapped s a \<longleftrightarrow> VmmGetPhysical (user_pml4 s) a (ps_vm s) \<noteq> 0"

text \<open>The system can map \<open>m\<close> more pages: a page takes at most its own frame and three for tables.\<close>

definition user_good :: "nat \<Rightarrow> kos \<Rightarrow> bool" where
  "user_good m s \<longleftrightarrow> g_current_thread s \<noteq> 0 \<and> user_process s \<noteq> 0 \<and> vm_ok (ps_vm s) (table_frame (ps_vm s) (user_pml4 s)) \<and>
     unat (user_brk s) mod 4096 = 0 \<and> 4 * m < card (free_pages (vm_pmm (ps_vm s)))"

lemma GetNextLevel_active: "g_vmm_active (snd (GetNextLevel cur i flags pin s)) = g_vmm_active s"
  by (simp add: GetNextLevel_def Let_def case_prod_unfold set_entry_def clear_table_def vm_pin_def vm_alloc_def)

lemma VmmMapPage_active: "g_vmm_active (VmmMapPage pml4 virt phys flags s) = g_vmm_active s"
  by (simp add: VmmMapPage_def Let_def case_prod_unfold Invlpg_def set_entry_def GetNextLevel_active)

lemma mmap_page_objects:
  assumes "mmap_page pml4 virt i s = Inl t \<or> mmap_page pml4 virt i s = Inr t"
  shows "process t = process s \<and> thread t = thread s \<and> g_current_thread t = g_current_thread s \<and> g_vmm_active (ps_vm t) = g_vmm_active (ps_vm s)"
  using assms by (auto simp: mmap_page_def Let_def set_vm_def VmmMapPage_active vm_alloc_def split: prod.splits if_splits)

lemma mmap_pages_objects:
  assumes "fold_until (mmap_page pml4 virt) xs s = Inr t"
  shows "process t = process s \<and> thread t = thread s \<and> g_current_thread t = g_current_thread s \<and> g_vmm_active (ps_vm t) = g_vmm_active (ps_vm s)"
proof -
  let ?same = "\<lambda>t :: kos. process t = process s \<and> thread t = thread s \<and> g_current_thread t = g_current_thread s \<and> g_vmm_active (ps_vm t) = g_vmm_active (ps_vm s)"
  have "case fold_until (mmap_page pml4 virt) xs s of Inl t \<Rightarrow> ?same t | Inr t \<Rightarrow> ?same t"
  proof (rule fold_until_inv)
    fix i and t :: kos
    assume t: "?same t"
    have "?same r" if "mmap_page pml4 virt i t = Inl r \<or> mmap_page pml4 virt i t = Inr r" for r
      using mmap_page_objects [OF that] t by metis
    then show "case mmap_page pml4 virt i t of Inl r \<Rightarrow> ?same r | Inr r \<Rightarrow> ?same r"
      by (intro sum.split [THEN iffD2]) blast
  qed simp
  then show ?thesis using assms by simp
qed

lemma frame_byte_nonzero: "0 < f \<Longrightarrow> f < frame_limit \<Longrightarrow> off < 4096 \<Longrightarrow> frame_addr f + of_nat off \<noteq> 0"
proof -
  assume f: "0 < f" "f < frame_limit" "off < 4096"
  have "unat (frame_addr f + of_nat off) = f * 4096 + off"
    using f unat_frame [of f] by (simp add: unat_word_ariths unat_of_nat take_bit_nat_eq_self)
  then show "frame_addr f + of_nat off \<noteq> 0" using f(1) by (metis add_is_0 mult_is_0 neq0_conv unat_0 zero_neq_numeral)
qed

lemma sys_mmap_space:
  assumes good: "user_good (k + unat n div 4096) s" and run: "sys_mmap n s = (p, s')"
    and n: "unat n mod 4096 = 0" "unat (user_brk s) + unat n \<le> 2 ^ 47"
  shows "p = user_brk s \<and> user_brk s' = user_brk s + n \<and> user_good k s' \<and> (\<forall>a. user_mapped s a \<longrightarrow> user_mapped s' a) \<and>
    (\<forall>i<unat n. user_mapped s' (p + of_nat i))"
proof -
  let ?pml4 = "user_pml4 s" and ?b = "user_brk s" and ?m = "unat n div 4096" and ?q = "user_process s"
  let ?R = "table_frame (ps_vm s) ?pml4"
  have g: "g_current_thread s \<noteq> 0" "?q \<noteq> 0" and ok: "vm_ok (ps_vm s) ?R" and al: "unat ?b mod 4096 = 0"
    and room: "4 * (k + ?m) < card (free_pages (vm_pmm (ps_vm s)))" using good by (simp_all add: user_good_def)
  have d: "?m * 4096 = unat n" "(unat n + 4095) div 4096 = ?m" using n(1) by (auto elim!: dvdE simp: mod_eq_0_iff_dvd)
  have pg: "unat (n div PAGE_SIZE) = ?m" by (simp add: unat_div PAGE_SIZE_def)
  have n47: "unat n \<le> 2 ^ 47" using n(2) by simp
  have "of_nat ?m * PAGE_SIZE = (of_nat (?m * 4096) :: u64)" by (simp add: PAGE_SIZE_def)
  then have npages: "of_nat ?m * PAGE_SIZE = n" unfolding d(1) by simp
  have "?m \<le> 2 ^ 36" "4 * ?m < card (free_pages (vm_pmm (ps_vm s)))" using n47 room by simp_all
  from mmap_pages [OF ok refl al this] obtain F v where v: "fold_until (mmap_page ?pml4 ?b) [0..<?m] s = Inr (set_vm v s)"
    "vm_ok v ?R" "table_frame v ?pml4 = ?R" "takes (4 * ?m) (vm_pmm (ps_vm s)) (vm_pmm v)" "length F = ?m" "image_mapped ?R ?b F v"
    "\<forall>j. (\<forall>i<?m. j \<noteq> page_slot (?b + of_nat i * PAGE_SIZE)) \<longrightarrow> page_table v ?R j = page_table (ps_vm s) ?R j" by blast
  have act: "g_vmm_active v = g_vmm_active (ps_vm s)" using mmap_pages_objects [OF v(1)] by (simp add: set_vm_def)
  define u where "u = upd_process ?q (\<lambda>p. p\<lparr>heap_brk := ?b + n\<rparr>) (set_vm v s)"
  have cur: "th_process (thread s (g_current_thread s)) = ?q" by (simp only: user_process_def)
  then have cur_brk: "heap_brk (process s ?q) = ?b" and cur_pml4: "PHYS_TO_VIRT (ps_vm s) (p_page_table (process s ?q)) = ?pml4"
    by (simp_all only: user_brk_def user_pml4_def)
  have "sys_mmap n s = (?b, u)"
    using g v(1) unfolding sys_mmap_def Let_def PsGetCurrentThread_def round_up_pages(2) [OF n47] round_up_pages(1) [OF n47] d(2) npages
    unfolding cur cur_brk cur_pml4 by (simp add: u_def pg)
  then have s': "p = ?b" "s' = u" using run by simp_all
  have uq: "user_process u = ?q" "g_current_thread u = g_current_thread s" by (simp_all add: u_def user_process_def upd_process_def set_vm_def)
  have uv: "ps_vm u = v" by (simp add: u_def set_vm_def upd_process_def)
  have ub: "user_brk u = ?b + n" by (simp add: user_brk_def uq(1)) (simp add: u_def upd_process_def user_brk_def)
  have up: "user_pml4 u = ?pml4" by (simp add: user_pml4_def uq(1) uv) (simp add: PHYS_TO_VIRT_def act u_def upd_process_def set_vm_def)
  have bn: "unat (?b + n) = unat ?b + unat n" using n(2) by (simp add: unat_word_ariths)
  have "card (free_pages (vm_pmm (ps_vm s))) \<le> card (free_pages (vm_pmm v)) + 4 * ?m" using v(4) ok by (simp add: takes_def vm_ok_def)
  moreover have "4 * k < b" if "a \<le> b + 4 * m" "4 * (k + m) < a" for a b m :: nat using that by simp
  ultimately have "4 * k < card (free_pages (vm_pmm v))" using room by blast
  moreover have "(unat ?b + unat n) mod 4096 = 0" using al n(1) by (simp only: mod_eq_0_iff_dvd dvd_add)
  ultimately have "user_good k u" using g v(2,3) by (simp add: user_good_def uq ub up uv bn)
  moreover have new: "user_mapped u (?b + of_nat i * PAGE_SIZE + of_nat off)" if "i < ?m" "off < 4096" for i off
  proof -
    have "length F \<le> 2 ^ 36" using v(5) n47 by simp
    from image_mapped_translated [OF v(2,3) al this v(6)] that v(5)
    have e: "VmmGetPhysical ?pml4 (?b + of_nat i * PAGE_SIZE + of_nat off) v = frame_addr (F ! i) + of_nat off" by (simp add: translated_def)
    have "0 < F ! i \<and> F ! i < frame_limit" using v(5,6) that(1) by (simp add: image_mapped_def distinct_frames_def)
    then show ?thesis using frame_byte_nonzero that(2) e by (simp add: user_mapped_def up uv)
  qed
  moreover have "user_mapped u a" if old: "user_mapped s a" for a
  proof (cases "\<exists>i<?m. page_slot a = page_slot (?b + of_nat i * PAGE_SIZE)")
    case False
    then have "page_table v ?R (page_slot a) = page_table (ps_vm s) ?R (page_slot a)" using v(7) by blast
    then have "VmmGetPhysical ?pml4 a v = VmmGetPhysical ?pml4 a (ps_vm s)"
      by (simp add: VmmGetPhysical_map [of v ?pml4, unfolded v(3), OF v(2)] VmmGetPhysical_map [OF ok] Let_def)
    then show ?thesis using old by (simp add: user_mapped_def up uv)
  next
    case True
    then obtain i where i: "i < ?m" "page_slot a = page_slot (?b + of_nat i * PAGE_SIZE)" by blast
    have F: "0 < F ! i" "F ! i < frame_limit" using v(5,6) i(1) by (simp_all add: image_mapped_def distinct_frames_def)
    have e: "page_table v ?R (page_slot a) = frame_addr (F ! i) OR VMM_USER_FLAGS" using v(5,6) i by (simp add: image_mapped_def)
    have low: "a AND 0xFFF = of_nat (unat a mod 4096)" by (simp flip: low_offset)
    have "VmmGetPhysical ?pml4 a v = frame_addr (F ! i) + of_nat (unat a mod 4096)"
      using frame_entry [OF F(2), of VMM_USER_FLAGS]
      by (simp add: VmmGetPhysical_map [of v ?pml4, unfolded v(3), OF v(2)] Let_def e low) (simp add: VMM_USER_FLAGS_def or.assoc)
    then show ?thesis using frame_byte_nonzero [OF F, of "unat a mod 4096"] by (simp add: user_mapped_def up uv)
  qed
  moreover have "user_mapped u (?b + of_nat i)" if "i < unat n" for i
  proof -
    have i: "i div 4096 < ?m" using that d(1) by (simp add: div_less_iff_less_mult)
    have e: "?b + of_nat i = ?b + of_nat (i div 4096) * PAGE_SIZE + of_nat (i mod 4096)" by (subst split_offset [of i]) (simp only: add.assoc)
    show ?thesis unfolding e by (rule new [OF i]) simp
  qed
  ultimately show ?thesis using ub unfolding s' by blast
qed

interpretation ul: mmap_space sys_mmap user_mapped user_brk user_good lim for lim
proof
  fix k s n p s'
  assume "user_good (k + unat n div 4096) s" "sys_mmap n s = (p, s')" "unat n mod 4096 = 0" "unat (user_brk s) + unat n \<le> 2 ^ 47"
  then show "p = user_brk s \<and> user_brk s' = user_brk s + n \<and> user_good k s' \<and> (\<forall>a. user_mapped s a \<longrightarrow> user_mapped s' a) \<and>
    (\<forall>i<unat n. user_mapped s' (p + of_nat i))" by (rule sys_mmap_space)
next
  show "user_good m s \<Longrightarrow> k \<le> m \<Longrightarrow> user_good k s" for m k s by (auto simp: user_good_def)
qed

text \<open>
  Without frames \<^verbatim>\<open>SYS_MMAP\<close> leaves its loop and still answers with the address: the first header store of \<open>malloc\<close> faults.
\<close>

lemma mmap_page_exhausted:
  assumes "vm_ok (ps_vm s) R" "exhausted (vm_pmm (ps_vm s))"
  shows "mmap_page pml4 virt i s = Inl s"
proof (cases "fst (vm_alloc (ps_vm s)) = 0")
  case True
  have "set_vm (ps_vm s) s = s" by (simp add: set_vm_def)
  then show ?thesis using True vm_alloc_none(1) [OF assms(1) True] by (simp add: mmap_page_def case_prod_unfold Let_def)
next
  case False
  note a = vm_alloc_fresh [OF assms(1) refl False]
  obtain f where f: "fst (vm_alloc (ps_vm s)) = frame_addr f" "0 < f" "f < highest_page (vm_pmm (ps_vm s))"
    using a(1,5) by (auto simp: owned_def)
  then have "owned (vm_pmm (ps_vm s)) (frame_addr f)" using assms by (simp add: exhausted_owned)
  then show ?thesis using a(2) f(1) by simp
qed

lemma malloc_faults_without_frames:
  assumes proc: "g_current_thread (um_sys s) \<noteq> 0" "user_process (um_sys s) \<noteq> 0"
    and ok: "vm_ok (ps_vm (um_sys s)) (table_frame (ps_vm (um_sys s)) (user_pml4 (um_sys s)))"
    and none: "exhausted (vm_pmm (ps_vm (um_sys s)))"
    and brk: "user_brk (um_sys s) \<noteq> 0" "\<not> user_mapped (um_sys s) (user_brk (um_sys s))"
    and n: "malloc_head s = 0" "0 < n" "unat n \<le> 2 ^ 39"
  shows "malloc sys_mmap user_mapped n s = None"
proof -
  let ?h = "um_sys s"
  note f = malloc_size_facts [OF n(2,3)]
  let ?n = "malloc_size n"
  define t where "t = (MALLOC_HEADER + ?n + PAGE_SIZE - 1) AND NOT (PAGE_SIZE - 1)"
  note m = mmap_total [OF f(2), folded t_def]
  define u where "u = upd_process (user_process ?h) (\<lambda>p. p\<lparr>heap_brk := user_brk ?h + (t + PAGE_SIZE - 1 AND NOT 0xFFF)\<rparr>) ?h"
  have cur: "th_process (thread ?h (g_current_thread ?h)) = user_process ?h" by (simp only: user_process_def)
  then have cur_brk: "heap_brk (process ?h (user_process ?h)) = user_brk ?h" by (simp only: user_brk_def)
  have t47: "unat t \<le> 2 ^ 47" using m(4) by simp
  have "0 < (unat t + 4095) div 4096" using m(3) f(3) by (simp add: div_greater_zero_iff)
  then have pages: "[0..<unat ((t + PAGE_SIZE - 1 AND NOT 0xFFF) div PAGE_SIZE)] = 0 # [1..<unat ((t + PAGE_SIZE - 1 AND NOT 0xFFF) div PAGE_SIZE)]"
    unfolding round_up_pages(2) [OF t47] by (simp add: upt_conv_Cons)
  have mm: "sys_mmap t ?h = (user_brk ?h, u)"
    using proc mmap_page_exhausted [OF ok none] unfolding sys_mmap_def Let_def PsGetCurrentThread_def cur cur_brk pages
    by (simp add: u_def)
  have "user_process u = user_process ?h" "ps_vm u = ps_vm ?h" "user_pml4 u = user_pml4 ?h"
    by (simp_all add: u_def user_process_def user_pml4_def upd_process_def)
  then have "\<not> user_mapped u (user_brk ?h)" using brk(2) by (simp add: user_mapped_def)
  then have no: "upd_hdr user_mapped (user_brk ?h) g (s\<lparr>um_sys := u\<rparr>) = None" for g
    unfolding upd_hdr_def accessible_def by (auto intro!: exI [of _ 0])
  have "\<not> ?n > 0x7FFFFFFFFFFFFFFF - MALLOC_HEADER" "\<not> t < MALLOC_HEADER + ?n"
    using f(2) m(3,5) by (simp_all add: MALLOC_HEADER_def word_less_nat_alt)
  then have "malloc_from_mmap sys_mmap user_mapped ?n s = None"
    using mm brk(1) no unfolding malloc_from_mmap_def Let_def t_def [symmetric] by simp
  moreover have "best_fit ok' hdr size' 0 0 = Some 0" for ok' hdr size' by (subst best_fit.simps) simp
  ultimately show ?thesis unfolding f(5) n(1) by simp
qed

section \<open>Requests and releases of a program\<close>

context mmap_space
begin

text \<open>While there are frames, no request is refused and no access faults.\<close>

lemma calls_return:
  assumes "held_ok A (requests calls) h ptrs" "\<forall>n. Request n \<in> set calls \<longrightarrow> 0 < n \<and> unat n \<le> min lim (2 ^ 39)"
  shows "\<exists>h' ptrs'. heap_calls (malloc mmap usable) (free usable) calls (h, ptrs) = Some (h', ptrs')"
  using assms
proof (induction calls arbitrary: h ptrs)
  case (Cons c calls)
  show ?case
  proof (cases c)
    case (Request n)
    obtain bs where "ok (Suc (requests calls)) h (A \<union> set bs)" using Cons.prems(1) Request by (auto simp: held_ok_def)
    from malloc_block [OF this, of n] obtain p h' where p: "malloc mmap usable n h = Some (p, h')" using Cons.prems(2) Request by auto
    have n: "0 < n" "unat n \<le> min lim (2 ^ 39)" using Cons.prems(2) Request by auto
    have "held_ok A (requests calls) h' ((p, n) # ptrs)" by (rule request_ok [OF _ p n]) (use Cons.prems(1) Request in simp)
    from Cons.IH [OF this] show ?thesis using Cons.prems(2) Request p by auto
  next
    case (Release i)
    show ?thesis
    proof (cases "i < length ptrs")
      case True
      have "held_ok A (requests calls) h ptrs" using Cons.prems(1) Release by simp
      from release_ok [OF this True] obtain g where
        g: "free usable (fst (ptrs ! i)) h = Some g" "held_ok A (requests calls) g (take i ptrs @ drop (Suc i) ptrs)" by blast
      from Cons.IH [OF g(2)] show ?thesis using Cons.prems(2) Release True g(1) by auto
    next
      case False
      then show ?thesis using Cons.IH [of h ptrs] Cons.prems Release by simp
    qed
  qed
qed simp

text \<open>What is held can be used: every byte of it is mapped.\<close>

lemma calls_accessible:
  assumes "ok (requests calls) h A" "\<forall>n. Request n \<in> set calls \<longrightarrow> 0 < n \<and> unat n \<le> min lim (2 ^ 39)"
    and run: "heap_calls (malloc mmap usable) (free usable) calls (h, []) = Some (h', ptrs)" and i: "i < length ptrs"
  shows "accessible usable (fst (ptrs ! i)) (unat (snd (ptrs ! i))) h'"
proof -
  have "held_ok A (requests calls + 0) h []" using assms(1) by (simp add: held_ok_def blocks_of_def)
  from heap_calls_ok [OF run this assms(2)] obtain bs where bs: "blocks_of ptrs bs" "ok 0 h' (A \<union> set bs)" by (auto simp: held_ok_def)
  have len: "length bs = length ptrs" using bs(1) by (simp add: blocks_of_def list_all2_lengthD)
  obtain p n x sz where e: "ptrs ! i = (p, n)" "bs ! i = (x, sz)" by fastforce
  then have r: "p = x + MALLOC_HEADER" "n \<le> sz" using list_all2_nthD [OF bs(1) [unfolded blocks_of_def] i] by auto
  have "(x, sz) \<in> A \<union> set bs" using nth_mem [of i bs] len i e by simp
  from accessible_less [OF malloc_ok_block(2) [OF bs(2) this], of "unat n"] show ?thesis using r e by (simp add: word_le_nat_alt)
qed

lemma realloc_moves:
  assumes okS: "ok (Suc k) s A" and x: "(x, sz) \<in> A" and n: "0 < n" "unat n \<le> min lim (2 ^ 39)" and small: "unat sz < 2 ^ 32"
  shows "\<exists>y m s'. realloc mmap usable (x + MALLOC_HEADER) n s = Some (y + MALLOC_HEADER, s') \<and> n \<le> m \<and> (y, m) \<notin> A - {(x, sz)} \<and>
    ok k s' (insert (y, m) (A - {(x, sz)})) \<and>
    (\<forall>i. i < unat n \<and> i < unat sz \<longrightarrow> um_bytes s' (unat y + 24 + i) = um_bytes s (unat x + 24 + i)) \<and>
    (\<forall>(z, l)\<in>A - {(x, sz)}. \<forall>i<unat l. um_bytes s' (unat z + 24 + i) = um_bytes s (unat z + 24 + i))"
proof -
  obtain xs where xs: "malloc_inv (brk (um_sys s)) s xs" "A = mallocated (um_hdr s) xs" using okS by (auto simp: malloc_ok_def)
  have xin: "x \<in> set xs" "sz = mh_size (um_hdr s x)" using x by (auto simp: xs(2) mallocated_def)
  note ptr = malloc_inv_pointer [OF xs(1) xin(1)]
  have n0: "n \<noteq> 0" using n(1) by auto
  have hdr: "accessible usable x 24 s" by (rule malloc_ok_block(1) [OF okS x])
  show ?thesis
  proof (cases "n \<le> sz")
    case True
    have "realloc mmap usable (x + MALLOC_HEADER) n s = Some (x + MALLOC_HEADER, s)"
      using ptr(3) n0 True xin(2) hdr by (simp add: realloc_def Let_def)
    moreover have "insert (x, sz) (A - {(x, sz)}) = A" using x by blast
    ultimately show ?thesis using True malloc_ok_less [OF okS] by (intro exI [of _ x] exI [of _ sz] exI [of _ s]) auto
  next
    case False
    obtain y m t where t: "malloc mmap usable n s = Some (y + MALLOC_HEADER, t)" "y + MALLOC_HEADER \<noteq> 0" "n \<le> m" "(y, m) \<notin> A"
      "ok k t (insert (y, m) A)" "um_bytes t = um_bytes s" using malloc_block [OF okS n] by blast
    have szm: "unat sz < unat m" using False t(3) by (auto simp: word_le_nat_alt)
    have acc: "accessible usable (x + MALLOC_HEADER) (unat sz) t" "accessible usable (y + MALLOC_HEADER) (unat sz) t"
      using malloc_ok_block(2) [OF t(5), of x sz] x accessible_less [OF malloc_ok_block(2) [OF t(5), of y m]] szm by simp_all
    define c where "c = RtMemCopy (um_bytes t) (unat (y + MALLOC_HEADER)) (unat (x + MALLOC_HEADER)) (unat sz)"
    have ins: "insert (y, m) A - {(x, sz)} = insert (y, m) (A - {(x, sz)})" using x t(4) by blast
    have "ok k (t\<lparr>um_bytes := c\<rparr>) (insert (y, m) A)" using t(5) by (simp add: malloc_ok_def malloc_inv_def blocks_mapped_def accessible_def)
    from free_ok [OF this, of x sz] x obtain s' where
      s': "free usable (x + MALLOC_HEADER) (t\<lparr>um_bytes := c\<rparr>) = Some s'" "ok k s' (insert (y, m) (A - {(x, sz)}))" "um_bytes s' = c"
      unfolding ins by auto
    have yu: "unat (y + MALLOC_HEADER) = unat y + 24" using block_bytes [OF t(5), of y m] by (simp add: MALLOC_HEADER_def)
    have "unat (ucast sz :: u32) = unat sz" using small by (simp add: unsigned_ucast_eq take_bit_nat_eq_self)
    then have run: "realloc mmap usable (x + MALLOC_HEADER) n s = Some (y + MALLOC_HEADER, s')"
      using ptr(3) n0 False xin(2) t(1,2) hdr acc s'(1) by (simp add: realloc_def Let_def c_def)
    have apart: "unat y + 24 + unat m \<le> unat z \<or> unat z + 24 + unat l \<le> unat y" if "(z, l) \<in> A" for z l
      using malloc_ok_apart [OF t(5), of "(y, m)" "(z, l)"] that t(4) by auto
    have "c = buf_copy (um_bytes s) (unat y + 24) (um_bytes s) (unat x + 24) (unat sz)"
      unfolding c_def yu ptr(2) t(6) by (rule RtMemCopy_correct) (use apart [OF x] szm in auto)
    then have b: "um_bytes s' = buf_copy (um_bytes s) (unat y + 24) (um_bytes s) (unat x + 24) (unat sz)" by (simp add: s'(3))
    have "um_bytes s' (unat z + 24 + i) = um_bytes s (unat z + 24 + i)" if "(z, l) \<in> A" "i < unat l" for z l i
      using apart [OF that(1)] that(2) szm unfolding b by (intro buf_copy_outside) auto
    then have "\<forall>(z, l)\<in>A - {(x, sz)}. \<forall>i<unat l. um_bytes s' (unat z + 24 + i) = um_bytes s (unat z + 24 + i)" by blast
    moreover have "\<forall>i. i < unat n \<and> i < unat sz \<longrightarrow> um_bytes s' (unat y + 24 + i) = um_bytes s (unat x + 24 + i)"
      by (simp add: b buf_copy_def)
    ultimately show ?thesis using run t(3,4) s'(2) by blast
  qed
qed

lemma calloc_zeroes:
  assumes "ok (Suc k) s A" "0 < count * size'" "unat (count * size') \<le> min lim (2 ^ 39)"
  shows "\<exists>x sz s'. calloc mmap usable count size' s = Some (x + MALLOC_HEADER, s') \<and> count * size' \<le> sz \<and> (x, sz) \<notin> A \<and>
    ok k s' (insert (x, sz) A) \<and> (\<forall>i<unat (count * size'). um_bytes s' (unat x + 24 + i) = 0)"
proof -
  obtain x sz t where t: "malloc mmap usable (count * size') s = Some (x + MALLOC_HEADER, t)" "x + MALLOC_HEADER \<noteq> 0" "count * size' \<le> sz"
    "(x, sz) \<notin> A" "ok k t (insert (x, sz) A)" using malloc_block [OF assms] by blast
  have u: "unat (x + MALLOC_HEADER) = unat x + 24" using block_bytes [OF t(5), of x sz] by (simp add: MALLOC_HEADER_def)
  have acc: "accessible usable (x + MALLOC_HEADER) (unat (count * size')) t"
    by (rule accessible_less [OF malloc_ok_block(2) [OF t(5), of x sz]]) (use t(3) in \<open>simp_all add: word_le_nat_alt\<close>)
  let ?s = "t\<lparr>um_bytes := RtMemSet (um_bytes t) (unat x + 24) 0 (unat (count * size'))\<rparr>"
  have "calloc mmap usable count size' s = Some (x + MALLOC_HEADER, ?s)" using t(1,2) acc by (simp add: calloc_def Let_def u)
  moreover have "ok k ?s (insert (x, sz) A)" using t(5) by (simp add: malloc_ok_def malloc_inv_def blocks_mapped_def accessible_def)
  ultimately show ?thesis using t(3,4) by (intro exI [of _ x] exI [of _ sz] exI [of _ ?s]) (auto simp: RtMemSet_fill buf_fill_def)
qed

end

section \<open>Properties\<close>

text \<open>C33: a program's heap never hands out memory twice, and what it hands out can be used.  The hypothesis \<open>malloc_ok\<close>
  says that the list of blocks is well formed and mapped, that the kernel has free frames (four for each page of the requests to come,
  \<open>user_good\<close>) and that the process has addresses left.  Then any sequence of requests of up to \<open>lim\<close> bytes and
  releases of held blocks, on the kernel's \<^verbatim>\<open>SYS_MMAP\<close>, runs to its end without a page fault; the
  blocks held are pairwise disjoint over the lengths that were asked for and disjoint from
  every block in use before, and the page table maps every byte of them.\<close>

theorem malloc_exclusive_ownership:
  assumes "malloc_ok user_mapped user_brk user_good lim (requests calls) h A"
    and "\<forall>n. Request n \<in> set calls \<longrightarrow> 0 < n \<and> unat n \<le> min lim (2 ^ 39)"
  shows "\<exists>h' ptrs. heap_calls (malloc sys_mmap user_mapped) (free user_mapped) calls (h, []) = Some (h', ptrs)
    \<and> (\<forall>i<length ptrs. \<forall>j<length ptrs. i \<noteq> j \<longrightarrow>
      unat (fst (ptrs ! i)) + unat (snd (ptrs ! i)) \<le> unat (fst (ptrs ! j)) \<or> unat (fst (ptrs ! j)) + unat (snd (ptrs ! j)) \<le> unat (fst (ptrs ! i)))
    \<and> (\<forall>i<length ptrs. \<forall>(y, m)\<in>A. unat (fst (ptrs ! i)) + unat (snd (ptrs ! i)) \<le> unat y \<or> unat y + 24 + unat m \<le> unat (fst (ptrs ! i)))
    \<and> (\<forall>i<length ptrs. \<forall>b<unat (snd (ptrs ! i)). user_mapped (um_sys h') (fst (ptrs ! i) + of_nat b))"
proof -
  have "ul.held_ok lim A (requests calls) h []" using assms(1) by (simp add: ul.held_ok_def ul.blocks_of_def)
  from ul.calls_return [OF this assms(2)] obtain h' ptrs where
    run: "heap_calls (malloc sys_mmap user_mapped) (free user_mapped) calls (h, []) = Some (h', ptrs)" by blast
  from ul.exclusive [OF assms run] run ul.calls_accessible [OF assms run] show ?thesis
    by (simp add: MALLOC_HEADER_def accessible_def)
qed

text \<open>C34: \<^verbatim>\<open>realloc\<close> keeps the data.  When the kernel has free frames and the process addresses for one more request of up to
  \<open>lim\<close> bytes (\<open>malloc_ok\<close>), it returns, for a block of less than 4 GB, a block of at least the new size that holds the old
  bytes up to the smaller of the two sizes, and no access faults; the old block is released, every other block keeps its place and its bytes.\<close>

theorem realloc_keeps_data:
  assumes "malloc_ok user_mapped user_brk user_good lim (Suc k) s A" "(x, sz) \<in> A" "0 < n" "unat n \<le> min lim (2 ^ 39)" "unat sz < 2 ^ 32"
  shows "\<exists>y m s'. realloc sys_mmap user_mapped (x + MALLOC_HEADER) n s = Some (y + MALLOC_HEADER, s') \<and> n \<le> m \<and> (y, m) \<notin> A - {(x, sz)} \<and>
    malloc_ok user_mapped user_brk user_good lim k s' (insert (y, m) (A - {(x, sz)})) \<and>
    (\<forall>i. i < unat n \<and> i < unat sz \<longrightarrow> um_bytes s' (unat y + 24 + i) = um_bytes s (unat x + 24 + i)) \<and>
    (\<forall>(z, l)\<in>A - {(x, sz)}. \<forall>i<unat l. um_bytes s' (unat z + 24 + i) = um_bytes s (unat z + 24 + i))"
  by (rule ul.realloc_moves [OF assms])


section \<open>Examples\<close>

text \<open>A program that runs, on a machine with 62 free frames, before its first request.\<close>

definition kos_frames :: kos where
  "kos_frames = upd_process 0x1000 (\<lambda>p. p\<lparr>heap_brk := 0x10000\<rparr>)
     (kos_one\<lparr>ps_heap := heap_user\<lparr>hp_vm := vm_small\<lparr>vm_pmm := (vm_pmm vm_small)\<lparr>total_pages := 64, highest_page := 64, bitmap_size := 8\<rparr>\<rparr>\<rparr>\<rparr>)"

definition umem_new :: "kos umem" where
  "umem_new = \<lparr>um_hdr = (\<lambda>_. \<lparr>mh_size = 0, mh_used = 0, mh_next = 0\<rparr>), malloc_head = 0, um_bytes = (\<lambda>i. of_nat i), um_sys = kos_frames\<rparr>"

lemma kos_frames_vm: "ps_vm kos_frames = vm_small\<lparr>vm_pmm := (vm_pmm vm_small)\<lparr>total_pages := 64, highest_page := 64, bitmap_size := 8\<rparr>\<rparr>"
  by (simp add: kos_frames_def upd_process_def)

lemma kos_frames_used: "n < 64 \<Longrightarrow> page_used (vm_pmm (ps_vm kos_frames)) n \<longleftrightarrow> n < 2"
proof -
  assume n: "n < 64"
  have "(3 :: u64) = mask 2" by (simp add: mask_eq_exp_minus_1)
  then have "bit (3 :: u64) n \<longleftrightarrow> n < 2" using n by (simp only: bit_mask_iff) auto
  then show ?thesis using n by (simp add: kos_frames_vm vm_small_def page_used_def BITMAP_TEST_bit)
qed

lemma kos_frames_ok: "vm_ok (ps_vm kos_frames) 0x1000"
proof -
  let ?v = "ps_vm kos_frames"
  have hp: "highest_page (vm_pmm ?v) = 64" by (simp add: kos_frames_vm)
  have n: "node (vm_mem ?v) 0x1000 p = Some T \<longleftrightarrow> p = [] \<and> T = 0x1000" for p T
    by (cases p) (auto simp: kos_frames_vm vm_small_def next_table_def)
  have "owned (vm_pmm ?v) 0x1000"
    unfolding owned_def using kos_frames_used [of 1] by (intro exI [of _ 1]) (simp add: hp frame_addr_def PAGE_SIZE_def)
  moreover have "pmm_ok (vm_pmm ?v)" using kos_frames_used [of 0] by (simp add: pmm_ok_def hp)
  ultimately show ?thesis by (simp add: vm_ok_def tree_def n hp)
qed

lemma kos_frames_running: "g_current_thread kos_frames = 0x3000" "user_process kos_frames = 0x1000"
  by (simp_all add: user_process_def kos_frames_def upd_process_def kos_one_def two_thread_def zero_thread_def)

lemma kos_frames_brk: "user_brk kos_frames = 0x10000"
  by (simp add: user_brk_def kos_frames_running) (simp add: kos_frames_def upd_process_def)

lemma umem_new_ok: "k \<le> 3 \<Longrightarrow> malloc_ok user_mapped user_brk user_good 5000 k umem_new {}"
proof -
  assume k: "k \<le> 3"
  have "free_pages (vm_pmm (ps_vm kos_frames)) = {2..<64}" using kos_frames_used by (auto simp: free_pages_def) (auto simp: kos_frames_vm)
  then have frames: "card (free_pages (vm_pmm (ps_vm kos_frames))) = 62" by simp
  note t = kos_frames_running and b = kos_frames_brk
  have "p_page_table (process kos_frames 0x1000) = 0x1000" by (simp add: kos_frames_def upd_process_def kos_one_def)
  then have "table_frame (ps_vm kos_frames) (user_pml4 kos_frames) = 0x1000"
    by (simp add: user_pml4_def t kos_frames_vm table_frame_def PHYS_TO_VIRT_def vm_small_def)
  then have "user_good (k * 2) kos_frames" using k by (simp add: user_good_def t b kos_frames_ok frames)
  moreover have "malloc_inv 0x10000 umem_new []" "blocks_mapped user_mapped umem_new []"
    by (simp_all add: malloc_inv_def blocks_mapped_def umem_new_def)
  ultimately show ?thesis
    using k unfolding malloc_ok_def by (intro conjI exI [of _ "[]"]) (simp_all add: request_pages_def mallocated_def umem_new_def b)
qed

theorem malloc_exclusive_ownership_witness:
  "\<exists>h' p q. heap_calls (malloc sys_mmap user_mapped) (free user_mapped) [Request 100, Request 5000] (umem_new, []) = Some (h', [(q, 5000), (p, 100)]) \<and>
    (unat p + 100 \<le> unat q \<or> unat q + 5000 \<le> unat p) \<and> user_mapped (um_sys h') p \<and> user_mapped (um_sys h') (q + 4999)"
proof -
  let ?calls = "[Request 100, Request 5000]"
  have ok: "malloc_ok user_mapped user_brk user_good 5000 (requests ?calls) umem_new {}" by (rule umem_new_ok) simp
  have small: "\<forall>n. Request n \<in> set ?calls \<longrightarrow> 0 < n \<and> unat n \<le> min 5000 (2 ^ 39)" by auto
  obtain h' ptrs where r: "heap_calls (malloc sys_mmap user_mapped) (free user_mapped) ?calls (umem_new, []) = Some (h', ptrs)"
    "\<forall>i<length ptrs. \<forall>j<length ptrs. i \<noteq> j \<longrightarrow> unat (fst (ptrs ! i)) + unat (snd (ptrs ! i)) \<le> unat (fst (ptrs ! j)) \<or>
      unat (fst (ptrs ! j)) + unat (snd (ptrs ! j)) \<le> unat (fst (ptrs ! i))"
    "\<forall>i<length ptrs. \<forall>b<unat (snd (ptrs ! i)). user_mapped (um_sys h') (fst (ptrs ! i) + of_nat b)"
    using malloc_exclusive_ownership [OF ok small] by blast
  then obtain p q where l: "ptrs = [(q, 5000), (p, 100)]" by (auto split: option.splits)
  moreover have "unat p + 100 \<le> unat q \<or> unat q + 5000 \<le> unat p" using r(2) [rule_format, of 0 1] l by auto
  moreover have "user_mapped (um_sys h') p" "user_mapped (um_sys h') (q + 4999)"
    using r(3) [rule_format, of 1 0] r(3) [rule_format, of 0 4999] l by simp_all
  ultimately show ?thesis using r(1) by blast
qed

theorem realloc_keeps_data_witness:
  "\<exists>x s y s'. malloc sys_mmap user_mapped 100 umem_new = Some (x + MALLOC_HEADER, s) \<and>
    realloc sys_mmap user_mapped (x + MALLOC_HEADER) 5000 s = Some (y + MALLOC_HEADER, s') \<and>
    (\<forall>i<100. um_bytes s' (unat y + 24 + i) = of_nat (unat x + 24 + i))"
proof -
  have "malloc_ok user_mapped user_brk user_good 5000 (Suc (Suc 0)) umem_new {}" by (rule umem_new_ok) simp
  from ul.malloc_block [OF this, of 100] obtain x sz s where
    x: "malloc sys_mmap user_mapped 100 umem_new = Some (x + MALLOC_HEADER, s)" "100 \<le> sz"
      "malloc_ok user_mapped user_brk user_good 5000 (Suc 0) s {(x, sz)}" "um_bytes s = um_bytes umem_new"
      "unat (user_brk (um_sys s)) \<le> unat (user_brk (um_sys umem_new)) + request_pages 5000 * 4096" by auto
  have "user_brk (um_sys umem_new) = 0x10000" by (simp add: umem_new_def kos_frames_brk)
  then have "unat (user_brk (um_sys s)) < 2 ^ 32" using x(5) by (simp add: request_pages_def)
  moreover obtain xs where "malloc_inv (user_brk (um_sys s)) s xs" "(x, sz) \<in> mallocated (um_hdr s) xs"
    using x(3) by (auto simp: malloc_ok_def)
  ultimately have "unat sz < 2 ^ 32" by (auto simp: malloc_inv_def mallocated_def mblock_end_def)
  from realloc_keeps_data [OF x(3), where n = 5000] this obtain y s' where
    "realloc sys_mmap user_mapped (x + MALLOC_HEADER) 5000 s = Some (y + MALLOC_HEADER, s')"
    "\<forall>i. i < 5000 \<and> i < unat sz \<longrightarrow> um_bytes s' (unat y + 24 + i) = um_bytes s (unat x + 24 + i)" by auto
  moreover have "100 \<le> unat sz" using x(2) by (simp add: word_le_nat_alt)
  ultimately show ?thesis using x(1,4) by (intro exI [of _ x] exI [of _ s] exI [of _ y] exI [of _ s']) (simp add: umem_new_def)
qed

end
