(* ===== verification/Ul_Time.thy ===== *)
theory Ul_Time
  imports Prelude
begin

text \<open>
  The calendar of the library of the user programs: \<^verbatim>\<open>localtime\<close> of
  \<^verbatim>\<open>UserApps/userlib/userlib.c\<close>, against the count of days of the Gregorian calendar in closed form.
\<close>

section \<open>The code\<close>

record tm =
  tm_sec :: int
  tm_min :: int
  tm_hour :: int
  tm_mday :: int
  tm_mon :: int
  tm_year :: int
  tm_wday :: int
  tm_yday :: int
  tm_isdst :: int

definition leap_test :: "int \<Rightarrow> bool" where
  "leap_test year \<longleftrightarrow> (year mod 4 = 0 \<and> year mod 100 \<noteq> 0) \<or> year mod 400 = 0"

partial_function (option) year_loop :: "u64 \<Rightarrow> int \<Rightarrow> (u64 \<times> int) option" where
  "year_loop t year =
    (let days_in_year = (if leap_test year then 366 else 365)
     in if t < days_in_year then Some (t, year) else year_loop (t - days_in_year) (year + 1))"

definition days_in_month :: "int \<Rightarrow> u64 list" where
  "days_in_month year = [31, if leap_test year then 29 else 28, 31, 30, 31, 30, 31, 31, 30, 31, 30, 31]"

text \<open>\<open>None\<close>: a month beyond the table.\<close>

partial_function (option) month_loop :: "u64 list \<Rightarrow> u64 \<Rightarrow> nat \<Rightarrow> (u64 \<times> nat) option" where
  "month_loop days t mon =
    (if mon \<ge> length days then None
     else if t \<ge> days ! mon then month_loop days (t - days ! mon) (mon + 1)
     else Some (t, mon))"

text \<open>The two fields that the code does not set are those of a static object.\<close>

definition localtime :: "u64 option \<Rightarrow> tm option" where
  "localtime timep =
    (let t = (case timep of Some t \<Rightarrow> t | None \<Rightarrow> 0);
         sec = uint (t mod 60); t = t div 60;
         mnt = uint (t mod 60); t = t div 60;
         hour = uint (t mod 24); t = t div 24
     in Option.bind (year_loop t 1970) (\<lambda>(t, year).
        let yday = uint t
        in Option.bind (month_loop (days_in_month year) t 0) (\<lambda>(t, mon).
           Some \<lparr>tm_sec = sec, tm_min = mnt, tm_hour = hour, tm_mday = uint (t + 1), tm_mon = int mon,
                 tm_year = year - 1900, tm_wday = 0, tm_yday = yday, tm_isdst = 0\<rparr>)))"

section \<open>The calendar\<close>

text \<open>Days from 1 January 1970 to 1 January of a year.\<close>

definition days_before_year :: "int \<Rightarrow> int" where
  "days_before_year y = 365 * (y - 1970) + (y - 1969) div 4 - (y - 1901) div 100 + (y - 1601) div 400"

definition month_lengths :: "int \<Rightarrow> int list" where
  "month_lengths y = [31, days_before_year (y + 1) - days_before_year y - 337, 31, 30, 31, 30, 31, 31, 30, 31, 30, 31]"

definition days_before_month :: "int \<Rightarrow> nat \<Rightarrow> int" where
  "days_before_month y m = sum_list (take m (month_lengths y))"

text \<open>A date and time that exists, and the seconds from the beginning of 1970 to it.\<close>

definition tm_ok :: "tm \<Rightarrow> bool" where
  "tm_ok tm \<longleftrightarrow> 0 \<le> tm_sec tm \<and> tm_sec tm < 60 \<and> 0 \<le> tm_min tm \<and> tm_min tm < 60 \<and> 0 \<le> tm_hour tm \<and> tm_hour tm < 24 \<and>
     0 \<le> tm_mon tm \<and> tm_mon tm < 12 \<and> 1 \<le> tm_mday tm \<and> tm_mday tm \<le> month_lengths (tm_year tm + 1900) ! nat (tm_mon tm) \<and>
     tm_yday tm = days_before_month (tm_year tm + 1900) (nat (tm_mon tm)) + tm_mday tm - 1 \<and> tm_wday tm = 0 \<and> tm_isdst tm = 0"

definition tm_seconds :: "tm \<Rightarrow> int" where
  "tm_seconds tm = ((days_before_year (tm_year tm + 1900) + tm_yday tm) * 24 + tm_hour tm) * 3600 + tm_min tm * 60 + tm_sec tm"

lemma div_step: "0 < n \<Longrightarrow> (a + 1) div n = a div n + (if (a + 1) mod n = 0 then 1 else 0 :: int)"
proof -
  assume n: "0 < n"
  let ?q = "a div n" and ?r = "a mod n"
  have a: "a = n * ?q + ?r" "0 \<le> ?r" "?r < n" using n by simp_all
  show ?thesis
  proof (cases "?r + 1 = n")
    case True
    have "n * (?q + 1) = n * ?q + n" by (simp add: distrib_left)
    then have e: "a + 1 = n * (?q + 1) + 0" using a(1) True by linarith
    show ?thesis using int_div_pos_eq [OF e] int_mod_pos_eq [OF e] n by simp
  next
    case False
    then have e: "a + 1 = n * ?q + (?r + 1)" using a(1) by simp
    have r: "0 \<le> ?r + 1" "?r + 1 < n" using a(2,3) False by simp_all
    show ?thesis using int_div_pos_eq [OF e r] int_mod_pos_eq [OF e r] a(2) by simp
  qed
qed

lemma leap_add: "365 * (a + 1) + (p + f) - (q + c) + (r + g) = 365 * a + p - q + r + 365 + f - c + (g :: int)"
  by simp

lemma clock_sum: "T = 60 * M + s \<Longrightarrow> M = 60 * H + m \<Longrightarrow> H = 24 * D + h \<Longrightarrow> (D * 24 + h) * 3600 + m * 60 + s = (T :: int)"
  by simp

lemma clock_le: "T = 60 * M + s \<Longrightarrow> M = 60 * H + m \<Longrightarrow> H = 24 * D + h \<Longrightarrow> 0 \<le> s \<Longrightarrow> 0 \<le> m \<Longrightarrow> 0 \<le> h \<Longrightarrow> D * 86400 \<le> (T :: int)"
  by simp

lemma leap_sum:
  assumes "q \<Longrightarrow> c" "c \<Longrightarrow> f" "(x :: int) = b + 365 + (if f then 1 else 0) - (if c then 1 else 0) + (if q then 1 else 0)"
  shows "x = b + (if (f \<and> \<not> c) \<or> q then 366 else 365)"
  using assms by auto

lemma year_length: "days_before_year (y + 1) = days_before_year y + (if leap_test y then 366 else 365)"
proof -
  have m: "(y - 1968) mod 4 = y mod 4" "(y - 1900) mod 100 = y mod 100" "(y - 1600) mod 400 = y mod 400"
    using mod_mult_self2 [of y 4 "- 492"] mod_mult_self2 [of y 100 "- 19"] mod_mult_self2 [of y 400 "- 4"] by simp_all
  have imp: "y mod 400 = 0 \<Longrightarrow> y mod 100 = 0" "y mod 100 = 0 \<Longrightarrow> y mod 4 = 0"
    using mod_mod_cancel [of 100 400 y] mod_mod_cancel [of 4 100 y] by simp_all
  have e: "y - 1969 + 1 = y - 1968" "y - 1901 + 1 = y - 1900" "y - 1601 + 1 = y - 1600" by simp_all
  have d: "(y - 1968) div 4 = (y - 1969) div 4 + (if y mod 4 = 0 then 1 else 0)"
    "(y - 1900) div 100 = (y - 1901) div 100 + (if y mod 100 = 0 then 1 else 0)"
    "(y - 1600) div 400 = (y - 1601) div 400 + (if y mod 400 = 0 then 1 else 0)"
    by (rule div_step [of 4 "y - 1969", unfolded e m] div_step [of 100 "y - 1901", unfolded e m] div_step [of 400 "y - 1601", unfolded e m], simp)+
  have e': "y + 1 - 1970 = y - 1970 + 1" "y + 1 - 1969 = y - 1968" "y + 1 - 1901 = y - 1900" "y + 1 - 1601 = y - 1600" by simp_all
  have "days_before_year (y + 1) = days_before_year y + 365 + (if y mod 4 = 0 then 1 else 0) -
      (if y mod 100 = 0 then 1 else 0) + (if y mod 400 = 0 then 1 else 0)"
    unfolding days_before_year_def e' d by (rule leap_add)
  from leap_sum [OF imp this] show ?thesis by (simp only: leap_test_def)
qed

lemma month_days: "month_lengths y = map uint (days_in_month y)"
  by (simp add: month_lengths_def days_in_month_def year_length)

lemma days_before_year_mono: "y \<le> z \<Longrightarrow> days_before_year y + 365 * (z - y) \<le> days_before_year z"
proof (induction "nat (z - y)" arbitrary: z)
  case (Suc d)
  then have "d = nat (z - 1 - y)" "y \<le> z - 1" by linarith+
  from Suc.hyps(1) [OF this] show ?case using year_length [of "z - 1"] by (simp split: if_splits)
qed simp

text \<open>The loop over the years.\<close>

lemma year_loop_ends:
  "\<exists>t' y'. year_loop t y = Some (t', y') \<and> y \<le> y' \<and> uint t' < days_before_year (y' + 1) - days_before_year y' \<and>
     uint t = uint t' + days_before_year y' - days_before_year y"
proof (induction "unat t" arbitrary: t y rule: less_induct)
  case less
  let ?d = "if leap_test y then 366 else 365 :: u64"
  show ?case
  proof (cases "t < ?d")
    case True
    then show ?thesis by (subst year_loop.simps) (auto simp: Let_def year_length word_less_alt split: if_splits)
  next
    case False
    then have le: "?d \<le> t" by simp
    then have u: "uint (t - ?d) = uint t - uint ?d" by (simp add: uint_minus_simple_alt [THEN iffD1])
    have "unat (t - ?d) < unat t" using le by (simp add: unat_sub word_le_nat_alt split: if_splits)
    from less [OF this, of "y + 1"] obtain t' y' where
      r: "year_loop (t - ?d) (y + 1) = Some (t', y')" "y + 1 \<le> y'" "uint t' < days_before_year (y' + 1) - days_before_year y'"
      "uint (t - ?d) = uint t' + days_before_year y' - days_before_year (y + 1)" by blast
    have "year_loop t y = Some (t', y')" using False r(1) by (subst year_loop.simps) (simp add: Let_def)
    moreover have "uint ?d = days_before_year (y + 1) - days_before_year y" by (simp add: year_length)
    ultimately show ?thesis using r u by (intro exI [of _ t'] exI [of _ y']) linarith
  qed
qed

text \<open>The loop over the months.\<close>

lemma month_loop_ends:
  assumes "uint t < sum_list (map uint (drop mon days))"
  shows "\<exists>t' mon'. month_loop days t mon = Some (t', mon') \<and> mon \<le> mon' \<and> mon' < length days \<and> t' < days ! mon' \<and>
    uint t + sum_list (map uint (take mon days)) = uint t' + sum_list (map uint (take mon' days))"
  using assms
proof (induction "length days - mon" arbitrary: t mon)
  case 0
  then show ?case using uint_lt_0 [of t] by simp
next
  case (Suc d)
  then have m: "mon < length days" by simp
  then have split: "drop mon days = days ! mon # drop (Suc mon) days" "take (Suc mon) days = take mon days @ [days ! mon]"
    by (simp_all add: Cons_nth_drop_Suc take_Suc_conv_app_nth)
  show ?case
  proof (cases "t \<ge> days ! mon")
    case False
    then show ?thesis using m by (subst month_loop.simps) auto
  next
    case True
    then have u: "uint (t - days ! mon) = uint t - uint (days ! mon)" by (simp add: uint_minus_simple_alt [THEN iffD1])
    have "d = length days - Suc mon" "uint (t - days ! mon) < sum_list (map uint (drop (Suc mon) days))"
      using Suc.hyps(2) Suc.prems split(1) u by simp_all
    from Suc.hyps(1) [OF this] obtain t' mon' where r: "month_loop days (t - days ! mon) (Suc mon) = Some (t', mon')" "Suc mon \<le> mon'"
      "mon' < length days" "t' < days ! mon'" "uint (t - days ! mon) + sum_list (map uint (take (Suc mon) days)) = uint t' + sum_list (map uint (take mon' days))"
      by blast
    have "month_loop days t mon = Some (t', mon')" using m True r(1) by (subst month_loop.simps) simp
    then show ?thesis using r u split(2) by (intro exI [of _ t'] exI [of _ mon']) simp
  qed
qed


section \<open>Uniqueness\<close>

lemma month_lengths_length: "length (month_lengths y) = 12"
  by (simp add: month_lengths_def)

lemma month_lengths_pos:
  assumes "m < 12"
  shows "0 < month_lengths y ! m"
proof -
  have "\<forall>x\<in>set (month_lengths y). 0 < x" by (simp add: month_lengths_def year_length)
  moreover have "month_lengths y ! m \<in> set (month_lengths y)" using assms by (intro nth_mem) (simp add: month_lengths_length)
  ultimately show ?thesis by blast
qed

lemma month_step: "m < 12 \<Longrightarrow> days_before_month y (Suc m) = days_before_month y m + month_lengths y ! m"
  by (simp add: days_before_month_def take_Suc_conv_app_nth month_lengths_length)

lemma month_mono: "m \<le> n \<Longrightarrow> n \<le> 12 \<Longrightarrow> days_before_month y m \<le> days_before_month y n"
proof (induction n)
  case (Suc n)
  then show ?case using month_step [of n y] month_lengths_pos [of n y] by (cases "m = Suc n") auto
qed simp

lemma year_total: "days_before_month y 12 = days_before_year (y + 1) - days_before_year y"
  by (simp add: days_before_month_def month_lengths_def)

lemma tm_ok_yday:
  assumes "tm_ok tm"
  shows "0 \<le> tm_yday tm" "tm_yday tm < days_before_year (tm_year tm + 1901) - days_before_year (tm_year tm + 1900)"
proof -
  let ?y = "tm_year tm + 1900" and ?m = "nat (tm_mon tm)"
  have m: "?m < 12" using assms by (auto simp: tm_ok_def)
  have "days_before_month ?y 0 = 0" by (simp add: days_before_month_def)
  then have "0 \<le> days_before_month ?y ?m" using month_mono [of 0 ?m ?y] m by simp
  then show "0 \<le> tm_yday tm" using assms by (simp add: tm_ok_def)
  have "days_before_month ?y (Suc ?m) \<le> days_before_month ?y 12" using m by (intro month_mono) simp_all
  then show "tm_yday tm < days_before_year (tm_year tm + 1901) - days_before_year ?y"
    using assms month_step [OF m, of ?y] year_total [of ?y] unfolding tm_ok_def add.assoc by simp
qed

text \<open>The fields of the clock are digits of the seconds.\<close>

lemma tm_parts:
  assumes "tm_ok x"
  shows "tm_sec x = tm_seconds x mod 60" "tm_min x = tm_seconds x div 60 mod 60" "tm_hour x = tm_seconds x div 60 div 60 mod 24"
    "days_before_year (tm_year x + 1900) + tm_yday x = tm_seconds x div 60 div 60 div 24"
proof -
  define d h m where "d = days_before_year (tm_year x + 1900) + tm_yday x" and "h = 24 * d + tm_hour x" and "m = 60 * h + tm_min x"
  have s: "tm_seconds x = 60 * m + tm_sec x" by (simp add: tm_seconds_def d_def h_def m_def algebra_simps)
  have r: "0 \<le> tm_sec x" "tm_sec x < 60" "0 \<le> tm_min x" "tm_min x < 60" "0 \<le> tm_hour x" "tm_hour x < 24"
    using assms by (simp_all add: tm_ok_def)
  have dm: "tm_seconds x div 60 = m" "m div 60 = h" "h div 24 = d"
    using int_div_pos_eq [OF s r(1,2)] int_div_pos_eq [OF m_def r(3,4)] int_div_pos_eq [OF h_def r(5,6)] by simp_all
  show "tm_sec x = tm_seconds x mod 60" using int_mod_pos_eq [OF s r(1,2)] by simp
  show "tm_min x = tm_seconds x div 60 mod 60" using int_mod_pos_eq [OF m_def r(3,4)] dm by simp
  show "tm_hour x = tm_seconds x div 60 div 60 mod 24" using int_mod_pos_eq [OF h_def r(5,6)] dm by simp
  show "days_before_year (tm_year x + 1900) + tm_yday x = tm_seconds x div 60 div 60 div 24" using dm by (simp add: d_def)
qed

lemma tm_unique:
  assumes "tm_ok a" "tm_ok b" "tm_seconds a = tm_seconds b"
  shows "a = b"
proof -
  note parts = tm_parts [OF assms(1)] tm_parts [OF assms(2)]
  have clock: "tm_sec a = tm_sec b" "tm_min a = tm_min b" "tm_hour a = tm_hour b"
    "days_before_year (tm_year a + 1900) + tm_yday a = days_before_year (tm_year b + 1900) + tm_yday b"
    unfolding parts assms(3) by (rule refl)+
  have no: "\<not> tm_year x < tm_year z"
    if "tm_ok x" "tm_ok z" "days_before_year (tm_year x + 1900) + tm_yday x = days_before_year (tm_year z + 1900) + tm_yday z" for x z
  proof
    assume "tm_year x < tm_year z"
    then have "days_before_year (tm_year x + 1901) \<le> days_before_year (tm_year z + 1900)"
      using days_before_year_mono [of "tm_year x + 1901" "tm_year z + 1900"] by simp
    then show False using tm_ok_yday [OF that(1)] tm_ok_yday [OF that(2)] that(3) by linarith
  qed
  have y: "tm_year a = tm_year b" using no [OF assms(1,2) clock(4)] no [OF assms(2,1) clock(4) [symmetric]] by linarith
  then have yd: "tm_yday a = tm_yday b" using clock(4) by simp
  let ?y = "tm_year a + 1900"
  have nom: "\<not> tm_mon x < tm_mon z" if "tm_ok x" "tm_ok z" "tm_year x + 1900 = ?y" "tm_year z + 1900 = ?y" "tm_yday x = tm_yday z" for x z
  proof
    assume lt: "tm_mon x < tm_mon z"
    have m: "nat (tm_mon x) < 12" "Suc (nat (tm_mon x)) \<le> nat (tm_mon z)" "nat (tm_mon z) \<le> 12" using that(1,2) lt by (auto simp: tm_ok_def)
    from month_mono [OF m(2,3), of ?y] month_step [OF m(1), of ?y] show False
      using that(1,2,5) unfolding tm_ok_def that(3,4) by linarith
  qed
  have yb: "tm_year b + 1900 = ?y" using y by simp
  have mon: "tm_mon a = tm_mon b"
    using nom [OF assms(1,2) refl yb yd] nom [OF assms(2,1) yb refl yd [symmetric]] by linarith
  have md: "tm_mday a = tm_mday b" using assms(1,2) yd unfolding tm_ok_def y mon by linarith
  have "tm_wday a = tm_wday b" "tm_isdst a = tm_isdst b" using assms(1,2) unfolding tm_ok_def by linarith+
  then show ?thesis using clock(1,2,3) y yd mon md by (intro tm.equality) simp_all
qed


section \<open>Properties\<close>

text \<open>C37: \<^verbatim>\<open>localtime\<close> is the calendar.  For every time below 2^55 seconds (a thousand million years) it returns the one existing date and time
  that lies that many seconds after the beginning of 1970, and the year does not overflow.\<close>

theorem localtime_correct:
  assumes "unat t < 2 ^ 55"
  shows "\<exists>tm. localtime (Some t) = Some tm \<and> tm_ok tm \<and> tm_seconds tm = uint t \<and> tm_year tm < 2 ^ 31 - 1900 \<and>
    (\<forall>tm'. tm_ok tm' \<and> tm_seconds tm' = uint t \<longrightarrow> tm' = tm)"
proof -
  define d where "d = t div 60 div 60 div 24"
  obtain r y where y: "year_loop d 1970 = Some (r, y)" "1970 \<le> y" "uint r < days_before_year (y + 1) - days_before_year y"
    "uint d = uint r + days_before_year y - days_before_year 1970" using year_loop_ends by blast
  have total: "sum_list (map uint (drop 0 (days_in_month y))) = days_before_year (y + 1) - days_before_year y"
    using year_total [of y] by (simp add: days_before_month_def month_days [symmetric] month_lengths_length)
  have len12: "length (days_in_month y) = 12" by (simp add: days_in_month_def)
  obtain k mon where m: "month_loop (days_in_month y) r 0 = Some (k, mon)" "mon < 12" "k < days_in_month y ! mon"
    "uint r = uint k + days_before_month y mon"
    using month_loop_ends [of r 0 "days_in_month y", unfolded total, OF y(3)]
    by (auto simp: days_before_month_def month_days take_map len12)
  define tm where "tm = \<lparr>tm_sec = uint (t mod 60), tm_min = uint (t div 60 mod 60), tm_hour = uint (t div 60 div 60 mod 24), tm_mday = uint (k + 1),
    tm_mon = int mon, tm_year = y - 1900, tm_wday = 0, tm_yday = uint r, tm_isdst = 0\<rparr>"
  have run: "localtime (Some t) = Some tm" using y(1) m(1) by (simp add: localtime_def Let_def d_def [symmetric] tm_def)
  let ?T = "uint t" let ?M = "?T div 60" let ?H = "?M div 60"
  have u: "uint (t mod 60) = ?T mod 60" "uint (t div 60 mod 60) = ?M mod 60" "uint (t div 60 div 60 mod 24) = ?H mod 24" "uint d = ?H div 24"
    by (simp_all add: d_def uint_div uint_mod)
  have split: "?T = 60 * ?M + ?T mod 60" "?M = 60 * ?H + ?M mod 60" "?H = 24 * (?H div 24) + ?H mod 24" by simp_all
  have ym: "tm_year tm + 1900 = y" "nat (tm_mon tm) = mon" by (simp_all add: tm_def)
  have len: "month_lengths y ! mon = uint (days_in_month y ! mon)" using m(2) by (simp add: month_days len12)
  have small: "uint (days_in_month y ! mon) \<le> 31"
  proof -
    have "\<forall>x\<in>set (days_in_month y). uint x \<le> 31" by (simp add: days_in_month_def)
    then show ?thesis using m(2) nth_mem [of mon "days_in_month y"] len12 by simp
  qed
  have k: "uint k < uint (days_in_month y ! mon)" using m(3) by (simp add: word_less_alt)
  then have k1: "uint (k + 1) = uint k + 1" using small by (simp add: uint_word_ariths)
  have ok: "tm_ok tm"
    unfolding tm_ok_def ym by (simp add: tm_def u len k1 m(2,4)) (use k in linarith)
  have zero: "days_before_year 1970 = 0" by (simp add: days_before_year_def)
  have sec: "tm_seconds tm = ?T"
  proof -
    have f: "tm_yday tm = uint r" "tm_hour tm = ?H mod 24" "tm_min tm = ?M mod 60" "tm_sec tm = ?T mod 60" by (simp_all add: tm_def u(1-3))
    have D: "days_before_year y + uint r = ?H div 24" unfolding u(4) [symmetric] using y(4) zero by simp
    show ?thesis unfolding tm_seconds_def ym f D by (rule clock_sum [OF split])
  qed
  have "int (unat t) < int (2 ^ 55)" using assms by (rule of_nat_less_iff [THEN iffD2])
  then have T: "?T < 2 ^ 55" by simp
  have "uint d * 86400 \<le> ?T" unfolding u(4) by (rule clock_le [OF split]) simp_all
  then have d: "uint d < 2 ^ 39" using T by simp
  have "365 * (y - 1970) \<le> uint d" using days_before_year_mono [OF y(2)] zero y(4) uint_ge_0 [of r] by linarith
  then have "tm_year tm < 2 ^ 31 - 1900" using d ym(1) by simp
  moreover have "\<forall>tm'. tm_ok tm' \<and> tm_seconds tm' = ?T \<longrightarrow> tm' = tm" using tm_unique [OF _ ok] sec by metis
  ultimately show ?thesis using run ok sec by blast
qed

text \<open>29 February 2000.\<close>

theorem localtime_correct_witness: "\<exists>tm. localtime (Some 951782400) = Some tm \<and> tm_year tm = 100 \<and> tm_mon tm = 1 \<and> tm_mday tm = 29"
proof -
  let ?tm = "\<lparr>tm_sec = 0, tm_min = 0, tm_hour = 0, tm_mday = 29, tm_mon = 1, tm_year = 100, tm_wday = 0, tm_yday = 59, tm_isdst = 0\<rparr>"
  have "tm_ok ?tm" "tm_seconds ?tm = uint (951782400 :: u64)"
    by (simp_all add: tm_ok_def tm_seconds_def days_before_month_def month_lengths_def days_before_year_def)
  then show ?thesis using localtime_correct [of 951782400] by auto
qed

end
