(* ===== verification/Ul_Path.thy ===== *)
theory Ul_Path
  imports Paths
begin

text \<open>
  Path resolution in the library of the user programs (\<^verbatim>\<open>path_resolve\<close>, \<^verbatim>\<open>path_basename\<close> and the
  splitting of arguments, in \<^verbatim>\<open>UserApps/userlib/userlib.c\<close>), and that it agrees with the kernel's.  Strings are the bytes in front of the
  terminating zero; \<open>None\<close> is a write behind the end of a buffer.
\<close>

section \<open>Resolution\<close>

definition WORK_SIZE :: nat where "WORK_SIZE = 512"
definition PARTS_MAX :: nat where "PARTS_MAX = 64"

definition is_sep :: "u8 \<Rightarrow> bool" where
  "is_sep c \<longleftrightarrow> c = 47 \<or> c = 92"

definition path_work :: "u8 list \<Rightarrow> u8 list \<Rightarrow> u8 list" where
  "path_work cwd user_path =
    (if is_sep (hd user_path) then user_path
     else
       let work = (if cwd \<noteq> [] then cwd else [47]);
           work = (if work \<noteq> [] \<and> \<not> is_sep (last work) then work @ [47] else work)
       in work @ user_path)"

definition push_part :: "u8 list \<Rightarrow> u8 list list \<Rightarrow> u8 list list" where
  "push_part p parts =
    (if p = DOT then parts
     else if p = DOTDOT then (if parts \<noteq> [] then butlast parts else parts)
     else if p \<noteq> [] then (if length parts < PARTS_MAX then parts @ [p] else parts)
     else parts)"

function parts_scan :: "u8 list \<Rightarrow> u8 list list \<Rightarrow> u8 list list" where
  "parts_scan p parts =
    (if p = [] then parts
     else
       let token = takeWhile (\<lambda>c. c \<noteq> 47) p; rest = dropWhile (\<lambda>c. c \<noteq> 47) p;
           parts = push_part token parts
       in if rest = [] then parts else parts_scan (dropWhile (\<lambda>c. c = 47) (tl rest)) parts)"
  by pat_completeness auto

lemma scan_shorter: "x \<in> set p \<Longrightarrow> \<not> P x \<Longrightarrow> length (dropWhile Q (tl (dropWhile P p))) < length p"
  using length_dropWhile_le [of P p] length_dropWhile_le [of Q "tl (dropWhile P p)"] 
  by (cases "dropWhile P p") (auto simp: dropWhile_eq_Nil_conv)

termination parts_scan
  by (relation "measure (\<lambda>(p, parts). length p)") (auto intro: scan_shorter)

declare parts_scan.simps [simp del]

fun parts_build :: "u8 list list \<Rightarrow> u8 list \<Rightarrow> u8 list" where
  "parts_build [] out = out"
| "parts_build (nm # parts) out =
    (if length out + 1 + length nm \<ge> FAT_MAX_PATH - 32 then out
     else parts_build parts (out @ 47 # nm))"

definition path_resolve :: "u8 list option \<Rightarrow> u8 list option \<Rightarrow> u8 list option" where
  "path_resolve cwd user_path =
    (let cwd = (case cwd of None \<Rightarrow> [] | Some cwd \<Rightarrow> cwd);
         user_path = (case user_path of None \<Rightarrow> [] | Some user_path \<Rightarrow> user_path)
     in if user_path = []
        then (if cwd \<noteq> [] then (if length cwd < FAT_MAX_PATH then Some cwd else None) else Some [47])
        else
          let work = path_work cwd user_path
          in if length work \<ge> WORK_SIZE then None
             else
               let work = map (\<lambda>c. if c = 92 then 47 else c) work;
                   parts = parts_scan (dropWhile (\<lambda>c. c = 47) work) []
               in if parts = [] then Some [47]
                  else
                    let out = parts_build parts []
                    in Some (if out = [] then [47] else out))"

section \<open>The last component\<close>

fun basename_loop :: "u8 list \<Rightarrow> u8 list \<Rightarrow> u8 list" where
  "basename_loop [] lst = lst"
| "basename_loop (c # path) lst = basename_loop path (if is_sep c then path else lst)"

definition path_basename :: "u8 list \<Rightarrow> u8 list" where
  "path_basename path = basename_loop path path"

lemma path_basename_suffix:
  "\<exists>dir. path = dir @ path_basename path \<and> (\<forall>c\<in>set (path_basename path). \<not> is_sep c) \<and> (dir = [] \<or> is_sep (last dir))"
proof -
  have "\<exists>dir. lst = dir @ basename_loop path lst \<and> (\<forall>c\<in>set (basename_loop path lst). \<not> is_sep c) \<and> (dir = [] \<or> is_sep (last dir))"
    if "lst = pre @ path" "\<forall>c\<in>set pre. \<not> is_sep c" for path lst pre
    using that
  proof (induction path arbitrary: lst pre)
    case (Cons c path)
    show ?case
    proof (cases "is_sep c")
      case True
      from Cons.IH [of path "[]"] obtain dir where
        d: "path = dir @ basename_loop path path" "\<forall>c\<in>set (basename_loop path path). \<not> is_sep c" "dir = [] \<or> is_sep (last dir)" by auto
      then show ?thesis using True Cons.prems by (intro exI [of _ "pre @ c # dir"]) auto
    next
      case False
      then show ?thesis using Cons.IH [of lst "pre @ [c]"] Cons.prems by auto
    qed
  qed auto
  from this [of path "[]"] show ?thesis by (simp add: path_basename_def)
qed

section \<open>Arguments\<close>

definition is_blank :: "u8 \<Rightarrow> bool" where
  "is_blank c \<longleftrightarrow> c = 32 \<or> c = 9"

text \<open>The strings that \<^verbatim>\<open>argv\<close> points to; \<open>left\<close> counts the entries that are left before the last one.\<close>

fun parse_args_loop :: "nat \<Rightarrow> u8 list \<Rightarrow> u8 list list" where
  "parse_args_loop 0 p = []"
| "parse_args_loop (Suc left) p =
    (if p = [] then []
     else
       let p = dropWhile is_blank p
       in if p = [] then []
          else
            let rest = dropWhile (\<lambda>c. \<not> is_blank c) p
            in takeWhile (\<lambda>c. \<not> is_blank c) p # (if rest = [] then [] else parse_args_loop left (tl rest)))"

definition parse_args :: "u8 list \<Rightarrow> nat \<Rightarrow> u8 list list" where
  "parse_args args max' = parse_args_loop (max' - 1) args"


section \<open>The parts are the components\<close>

lemma parts_scan_components: "p = [] \<or> hd p \<noteq> 47 \<Longrightarrow> parts_scan p st = fold push_part (components p) st"
proof (induction p st rule: parts_scan.induct)
  case (1 p st)
  show ?case
  proof (cases "p = []")
    case True
    then show ?thesis by (simp add: parts_scan.simps components_def)
  next
    case False
    define w r where "w = takeWhile (\<lambda>c. c \<noteq> 47) p" and "r = dropWhile (\<lambda>c. c \<noteq> 47) p"
    have w: "w \<noteq> []" using False 1(2) by (cases p) (auto simp: w_def)
    have nw: "47 \<notin> set w" by (auto simp: w_def dest: set_takeWhileD)
    have split: "p = w @ r" by (simp add: w_def r_def)
    show ?thesis
    proof (cases r)
      case Nil
      then have "components p = [w]" using components_word(1) [OF w nw] split by simp
      then show ?thesis using False Nil by (subst parts_scan.simps) (simp add: Let_def w_def [symmetric] r_def [symmetric])
    next
      case (Cons c q)
      then have c: "c = 47" using hd_dropWhile [of "\<lambda>c. c \<noteq> 47" p] by (simp add: r_def)
      let ?q = "dropWhile (\<lambda>c. c = 47) q"
      have "?q = [] \<or> hd ?q \<noteq> 47" using hd_dropWhile [of "\<lambda>c. c = 47" q] by auto
      then have "parts_scan ?q (push_part w st) = fold push_part (components q) (push_part w st)"
        using 1(1) [OF False w_def r_def refl] Cons components_skip by (simp add: w_def)
      moreover have "components p = w # components q" using components_word(2) [OF w nw, of q] Cons c split by simp
      moreover have "parts_scan p st = parts_scan ?q (push_part w st)"
        using False Cons by (subst parts_scan.simps) (simp add: Let_def w_def [symmetric] r_def [symmetric])
      ultimately show ?thesis by simp
    qed
  qed
qed

text \<open>While neither stack is full the two do the same.\<close>

lemma push_part_component:
  assumes "\<forall>c\<in>set cs. c \<noteq> []" "length st + length cs \<le> PATH_STACK"
  shows "fold push_part cs st = fold push_component cs st"
  using assms
proof (induction cs arbitrary: st)
  case (Cons c cs)
  have "push_part c st = push_component c st" using Cons.prems by (simp add: push_part_def push_component_def PARTS_MAX_def PATH_STACK_def)
  then show ?case using Cons.IH [of "push_component c st"] Cons.prems push_grows [of c st] by simp
qed simp

lemma parts_build_fits:
  "length out + length (concat (map (\<lambda>c. 47 # c) cs)) < FAT_MAX_PATH - 32 \<Longrightarrow> parts_build cs out = out @ concat (map (\<lambda>c. 47 # c) cs)"
  by (induction cs arbitrary: out) auto

lemma path_work_components:
  assumes "p \<noteq> []" "92 \<notin> set cwd"
  defines "q \<equiv> map (\<lambda>c. if c = 92 then 47 else c) p"
  shows "components (map (\<lambda>c. if c = 92 then 47 else c) (path_work cwd p)) = (if hd q = 47 then [] else components cwd) @ components q"
proof -
  have id: "map (\<lambda>c. if c = 92 then 47 else c) cwd = cwd" using assms(2) by (induction cwd) auto
  have hd: "is_sep (hd p) \<longleftrightarrow> hd q = 47" using assms(1) by (auto simp: is_sep_def q_def hd_map)
  show ?thesis
  proof (cases "hd q = 47")
    case True
    then show ?thesis using hd by (simp add: path_work_def q_def)
  next
    case False
    show ?thesis
    proof (cases cwd rule: rev_cases)
      case Nil
      then show ?thesis using False hd by (simp add: path_work_def q_def is_sep_def) (simp add: components_def)
    next
      case (snoc d x)
      have "x \<noteq> 92" using assms(2) snoc by simp
      then have "map (\<lambda>c. if c = 92 then 47 else c) (path_work cwd p) = path_absolute cwd q"
        using False hd id snoc assms(1) by (auto simp: path_work_def path_absolute_def q_def is_sep_def)
      then show ?thesis using components_absolute [of cwd q] assms(1) by (simp add: q_def)
    qed
  qed
qed

section \<open>Properties\<close>

text \<open>C38: a program and the kernel resolve a path alike.  For a path and a current directory that fit their buffers, with
  at most 32 components and a result that fits, \<^verbatim>\<open>path_resolve\<close> gives the string that the kernel's \<^verbatim>\<open>SysResolvePath\<close> gives.\<close>

theorem path_resolve_agrees:
  fixes cwd path :: "u8 list"
  defines "q \<equiv> map (\<lambda>c. if c = 92 then 47 else c) path"
  defines "cs \<equiv> (if hd q = 47 then [] else components cwd) @ components q"
  assumes "path \<noteq> []" "length path < FAT_MAX_PATH" "length cwd < FAT_MAX_PATH" "92 \<notin> set cwd"
    and "length cs \<le> PATH_STACK" "length (join_path (normal_components cs)) < FAT_MAX_PATH - 32"
  shows "path_resolve (Some cwd) (Some path) = Some (SysResolvePath cwd (Some path))"
proof -
  have qn: "q \<noteq> []" using assms(3) by (simp add: q_def)
  then have cs: "cs = (if q \<noteq> [] \<and> hd q = 47 then [] else components cwd) @ components q" by (simp add: cs_def)
  have kernel: "SysResolvePath cwd (Some path) = join_path (normal_components cs)"
    using resolve_reference [of path cwd] assms(4,7,8) by (simp add: cs q_def)
  let ?work = "map (\<lambda>c. if c = 92 then 47 else c) (path_work cwd path)"
  have len: "\<not> length (path_work cwd path) \<ge> WORK_SIZE" using assms(4,5) by (auto simp: path_work_def Let_def WORK_SIZE_def FAT_MAX_PATH_def is_sep_def)
  have work: "components ?work = cs" using path_work_components [OF assms(3,6)] by (simp add: cs_def q_def)
  let ?p = "dropWhile (\<lambda>c. c = 47) ?work"
  have "?p = [] \<or> hd ?p \<noteq> 47" using hd_dropWhile [of "\<lambda>c. c = 47" ?work] by auto
  from parts_scan_components [OF this] have "parts_scan ?p [] = fold push_part cs []" by (simp only: components_skip work)
  also have "\<dots> = fold push_component cs []"
    by (rule push_part_component) (use assms(7) components_names work in \<open>auto simp: cs_def\<close>)
  also have "\<dots> = normal_components cs" using cancel_stack [OF assms(7), of 0] by (simp add: normal_components_def)
  finally have parts: "parts_scan ?p [] = normal_components cs" .
  have "path_resolve (Some cwd) (Some path) = Some (join_path (normal_components cs))"
  proof (cases "normal_components cs = []")
    case True
    then show ?thesis using assms(3) len parts by (simp add: path_resolve_def Let_def join_path_def)
  next
    case False
    then have "parts_build (normal_components cs) [] = join_path (normal_components cs)" "join_path (normal_components cs) \<noteq> []"
      using parts_build_fits [of "[]" "normal_components cs"] assms(8) by (auto simp: join_path_def)
    then show ?thesis using False assms(3) len parts by (simp add: path_resolve_def Let_def)
  qed
  then show ?thesis by (simp add: kernel)
qed

text \<open>\<^verbatim>\<open>..\b\./c\<close> in \<^verbatim>\<open>/x/y\<close>.\<close>

theorem path_resolve_agrees_witness:
  "path_resolve (Some [47, 120, 47, 121]) (Some [46, 46, 92, 98, 92, 46, 47, 99]) = Some (SysResolvePath [47, 120, 47, 121] (Some [46, 46, 92, 98, 92, 46, 47, 99]))"
  by (rule path_resolve_agrees)
    (simp_all add: components_def normal_components_def DOT_def DOTDOT_def FAT_MAX_PATH_def PATH_STACK_def join_path_def)

text \<open>A long path leaves the buffer \<^verbatim>\<open>work\<close>, which nothing checks.\<close>

lemma path_resolve_overflow:
  "is_sep (hd path) \<Longrightarrow> path \<noteq> [] \<Longrightarrow> 512 \<le> length path \<Longrightarrow> path_resolve cwd (Some path) = None"
  by (simp add: path_resolve_def Let_def path_work_def WORK_SIZE_def)

section \<open>Arguments are words\<close>

text \<open>The words between blanks.\<close>

fun split_blank :: "u8 list \<Rightarrow> u8 list list" where
  "split_blank [] = [[]]"
| "split_blank (c # p) = (if is_blank c then [] # split_blank p else case split_blank p of [] \<Rightarrow> [[c]] | w # ws \<Rightarrow> (c # w) # ws)"

definition arg_words :: "u8 list \<Rightarrow> u8 list list" where
  "arg_words p = filter (\<lambda>w. w \<noteq> []) (split_blank p)"

lemma split_blank_nonempty [simp]: "split_blank p \<noteq> []"
  by (induction p) (auto split: list.split)

lemma arg_words_blank: "arg_words (dropWhile is_blank p) = arg_words p"
  by (induction p) (auto simp: arg_words_def)

lemma split_blank_append: "\<forall>c\<in>set w. \<not> is_blank c \<Longrightarrow> split_blank (w @ p) = (w @ hd (split_blank p)) # tl (split_blank p)"
  by (induction w) (auto split: list.split)

lemma parse_args_words: "parse_args args max' = take (max' - 1) (arg_words args)"
proof -
  have "parse_args_loop k p = take k (arg_words p)" for k p
  proof (induction k p rule: parse_args_loop.induct)
    case (2 k p)
    let ?p = "dropWhile is_blank p"
    show ?case
    proof (cases "?p = []")
      case True
      have "arg_words p = []" unfolding arg_words_blank [of p, symmetric] True by (simp add: arg_words_def)
      then show ?thesis using True by simp
    next
      case False
      define w r where "w = takeWhile (\<lambda>c. \<not> is_blank c) ?p" and "r = dropWhile (\<lambda>c. \<not> is_blank c) ?p"
      have pn: "p \<noteq> []" using False by auto
      have w: "w \<noteq> []" using False hd_dropWhile [OF False] by (cases ?p) (auto simp: w_def)
      have nw: "\<forall>c\<in>set w. \<not> is_blank c" by (auto simp: w_def dest: set_takeWhileD)
      have split: "?p = w @ r" by (simp add: w_def r_def)
      have step: "parse_args_loop (Suc k) p = w # (if r = [] then [] else parse_args_loop k (tl r))"
        using False pn by (simp add: Let_def w_def r_def)
      have words: "arg_words p = arg_words (w @ r)" using arg_words_blank [of p] split by simp
      show ?thesis
      proof (cases r)
        case Nil
        then show ?thesis using step words w split_blank_append [OF nw, of "[]"] by (simp add: arg_words_def)
      next
        case (Cons c t)
        then have "is_blank c" using hd_dropWhile [of "\<lambda>c. \<not> is_blank c" ?p] by (simp add: r_def)
        then have "arg_words p = w # arg_words t"
          using words w split_blank_append [OF nw, of r] Cons by (simp add: arg_words_def)
        moreover have "parse_args_loop k t = take k (arg_words t)"
          using 2 [OF pn refl False refl, folded r_def] Cons by simp
        ultimately show ?thesis using step Cons by simp
      qed
    qed
  qed simp
  then show ?thesis by (simp add: parse_args_def)
qed

end
