(* ===== verification/Ul_Format.thy ===== *)
theory Ul_Format
  imports Runtime
begin

text \<open>
  Formatted output and the parsing of numbers in the library of the user programs
  (\<^verbatim>\<open>UserApps/userlib/userlib.c\<close>).  Format strings, string arguments and the text that is parsed are the bytes in front of the
  terminating zero; they do not overlap the buffer that is written, as the C standard asks.  The callback \<^verbatim>\<open>putc_fn\<close> does
  not influence the formatting: \<open>format_output\<close> gives the characters in the order of the calls.  \<open>None\<close>: undefined behaviour
  (an argument that is missing or of the wrong kind, a read behind the end of the format, a write behind the end of \<^verbatim>\<open>tmp\<close>, a width that overflows).
\<close>

section \<open>Numbers to digits\<close>

text \<open>\<open>char tmp[20]\<close>\<close>

definition UTOA_TMP :: nat where "UTOA_TMP = 20"

definition utoa :: "u64 \<Rightarrow> i32 \<Rightarrow> u8 list option" where
  "utoa val base =
    (if val = 0 then Some [48]
     else if base = 0 then None
     else Option.bind (utoa_digits g_hex_lower val (scast base) []) (\<lambda>tmp. if length tmp > UTOA_TMP then None else Some (rev tmp)))"

definition itoa :: "u64 \<Rightarrow> i32 \<Rightarrow> u8 list option" where
  "itoa val base = (if val <s 0 \<and> base = 10 then map_option ((#) 45) (utoa (- val) base) else utoa val base)"

section \<open>Formatted output\<close>

text \<open>An argument: a slot of eight bytes, or the string a pointer leads to (\<open>None\<close> for \<^verbatim>\<open>NULL\<close>).\<close>

datatype va_arg = Slot u64 | Str "u8 list option"

fun va_next :: "va_arg list \<Rightarrow> (u64 \<times> va_arg list) option" where
  "va_next (Slot v # ap) = Some (v, ap)"
| "va_next _ = None"

fun va_next_str :: "va_arg list \<Rightarrow> (u8 list \<times> va_arg list) option" where
  "va_next_str (Str (Some s) # ap) = Some (s, ap)"
| "va_next_str (Str None # ap) = Some ([40, 110, 117, 108, 108, 41], ap)"
| "va_next_str _ = None"

definition is_digit :: "u8 \<Rightarrow> bool" where
  "is_digit c \<longleftrightarrow> c \<ge> 48 \<and> c \<le> 57"

text \<open>\<open>while (*p >= '0' && *p <= '9') n = n * 10 + (*p++ - '0');\<close>\<close>

fun read_number :: "u8 list \<Rightarrow> nat \<Rightarrow> nat \<times> u8 list" where
  "read_number [] n = (n, [])"
| "read_number (c # p) n = (if is_digit c then read_number p (n * 10 + unat (c - 48)) else (n, c # p))"

text \<open>The length modifier: \<^verbatim>\<open>is_long_long\<close>, \<^verbatim>\<open>is_long\<close> and what follows.\<close>

definition length_modifier :: "u8 list \<Rightarrow> bool \<times> bool \<times> u8 list" where
  "length_modifier p =
    (if p \<noteq> [] \<and> hd p = 108
     then (if tl p \<noteq> [] \<and> hd (tl p) = 108 then (True, False, tl (tl p)) else (False, True, tl p))
     else if take 3 p = [73, 54, 52] then (True, False, drop 3 p)
     else (False, False, p))"

text \<open>The value of a number, and whether it is negative.  \<^verbatim>\<open>unsigned long\<close> has 32 bits in this compiler.\<close>

definition number_value :: "u8 \<Rightarrow> bool \<Rightarrow> bool \<Rightarrow> u64 \<Rightarrow> u64 \<times> bool" where
  "number_value spec is_long_long is_long arg =
    (let val = (if spec = 112 then arg else if is_long_long then arg else ucast (ucast arg :: u32))
     in if spec = 100
        then let sval = (if \<not> is_long_long \<and> \<not> is_long then scast (ucast val :: i32) else val)
             in if sval <s 0 then (- sval, True) else (sval, False)
        else (val, False))"

definition format_number :: "u8 \<Rightarrow> nat \<Rightarrow> bool \<Rightarrow> bool \<Rightarrow> bool \<Rightarrow> u64 \<Rightarrow> u8 list option" where
  "format_number spec width zero_pad is_long_long is_long arg =
    (let base = (if spec = 120 \<or> spec = 112 then 16 else 10);
         (val, is_neg) = number_value spec is_long_long is_long arg
     in Option.bind (if val = 0 then Some [48] else utoa_digits g_hex_lower val base []) (\<lambda>num_buf.
          let num_buf = (if spec = 112 then num_buf @ [120, 48] else num_buf);
              total_len = length num_buf + (if is_neg then 1 else 0)
          in Some ((if \<not> zero_pad then replicate (width - total_len) 32 else [])
               @ (if is_neg then [45] else [])
               @ (if zero_pad then replicate (width - total_len) 48 else [])
               @ rev num_buf)))"

text \<open>From the character behind \<^verbatim>\<open>%\<close>: what is printed, the rest of the format and of the arguments.\<close>

definition format_spec :: "u8 list \<Rightarrow> va_arg list \<Rightarrow> (u8 list \<times> u8 list \<times> va_arg list) option" where
  "format_spec p ap =
    (let zero_pad = (p \<noteq> [] \<and> hd p = 48);
         p = (if zero_pad then tl p else p);
         (width, p) = read_number p 0;
         p = (if p \<noteq> [] \<and> hd p = 46 then snd (read_number (tl p) 0) else p);
         (is_long_long, is_long, p) = length_modifier p
     in if p = [] \<or> width \<ge> 2 ^ 31 then None
        else
          let spec = hd p; p = tl p
          in if spec = 99 then Option.bind (va_next ap) (\<lambda>(v, ap). Some ([ucast v], p, ap))
             else if spec = 115 then Option.bind (va_next_str ap) (\<lambda>(s, ap). Some (replicate (width - length s) 32 @ s, p, ap))
             else if spec \<in> {100, 117, 120, 112}
             then Option.bind (va_next ap) (\<lambda>(v, ap).
                    Option.bind (format_number spec width zero_pad is_long_long is_long v) (\<lambda>s. Some (s, p, ap)))
             else Some ([37] @ (if zero_pad then [48] else []) @ [spec], p, ap))"

lemma read_number_length: "length (snd (read_number p n)) \<le> length p"
  by (induction p n rule: read_number.induct) auto

lemma length_modifier_length: "length (snd (snd (length_modifier p))) \<le> length p"
  by (cases p) (auto simp: length_modifier_def)

lemma precision_length: "length (if P then snd (read_number (tl q) 0) else q) \<le> length q"
  using le_trans [OF read_number_length [of "tl q" 0], of "length q"] by simp

lemma format_spec_shorter:
  assumes "format_spec p ap = Some (s, p', ap')"
  shows "length p' < length p"
proof -
  let ?p1 = "if p \<noteq> [] \<and> hd p = 48 then tl p else p"
  let ?p2 = "snd (read_number ?p1 0)"
  let ?p3 = "if ?p2 \<noteq> [] \<and> hd ?p2 = 46 then snd (read_number (tl ?p2) 0) else ?p2"
  let ?p4 = "snd (snd (length_modifier ?p3))"
  have "length ?p1 \<le> length p" by simp
  moreover have "length ?p2 \<le> length ?p1" by (rule read_number_length)
  moreover have "length ?p3 \<le> length ?p2" by (rule precision_length)
  moreover have "length ?p4 \<le> length ?p3" by (rule length_modifier_length)
  moreover have "?p4 \<noteq> [] \<and> p' = tl ?p4"
    using assms unfolding format_spec_def Let_def case_prod_unfold
    by (auto split: if_splits Option.bind_splits)
  then have "length p' < length ?p4" by (cases ?p4) auto
  ultimately show ?thesis by linarith
qed

function format_output :: "u8 list \<Rightarrow> va_arg list \<Rightarrow> u8 list option" where
  "format_output fmt ap =
    (case fmt of
       [] \<Rightarrow> Some []
     | c # p \<Rightarrow>
         if c \<noteq> 37 then map_option ((#) c) (format_output p ap)
         else if p \<noteq> [] \<and> hd p = 37 then map_option ((#) 37) (format_output (tl p) ap)
         else (case format_spec p ap of
             None \<Rightarrow> None
           | Some (s, p', ap') \<Rightarrow> map_option ((@) s) (format_output p' ap')))"
  by pat_completeness auto

termination format_output
  by (relation "measure (\<lambda>(p, ap). length p)") (auto dest: format_spec_shorter)

declare format_output.simps [simp del]

section \<open>Printing into a buffer\<close>

text \<open>\<^verbatim>\<open>SnprintfCtx\<close>: \<open>size\<close> is at least 1 here.\<close>

record snprintf_ctx =
  sn_mem :: mem
  sn_buf :: nat
  sn_size :: nat
  sn_written :: nat

definition snprintf_putc_cb :: "u8 \<Rightarrow> snprintf_ctx \<Rightarrow> snprintf_ctx" where
  "snprintf_putc_cb c s =
    (let s = (if sn_written s < sn_size s - 1 then s\<lparr>sn_mem := (sn_mem s)(sn_buf s + sn_written s := c)\<rparr> else s)
     in s\<lparr>sn_written := sn_written s + 1\<rparr>)"

definition vsnprintf :: "mem \<Rightarrow> nat \<Rightarrow> nat \<Rightarrow> u8 list \<Rightarrow> va_arg list \<Rightarrow> (i32 \<times> mem) option" where
  "vsnprintf m buf size' fmt ap =
    (if size' = 0 then Some (0, m)
     else Option.bind (format_output fmt ap) (\<lambda>out.
       let ctx = fold snprintf_putc_cb out \<lparr>sn_mem = m, sn_buf = buf, sn_size = size', sn_written = 0\<rparr>;
           m = (if sn_written ctx < size' then (sn_mem ctx)(buf + sn_written ctx := 0) else (sn_mem ctx)(buf + (size' - 1) := 0))
       in Some (of_nat (sn_written ctx), m)))"

definition vsprintf :: "mem \<Rightarrow> nat \<Rightarrow> u8 list \<Rightarrow> va_arg list \<Rightarrow> (i32 \<times> mem) option" where
  "vsprintf m buf fmt ap = vsnprintf m buf (2 ^ 64 - 1) fmt ap"

section \<open>Digits to numbers\<close>

definition is_white :: "u8 \<Rightarrow> bool" where
  "is_white c \<longleftrightarrow> c = 32 \<or> c = 9 \<or> c = 10 \<or> c = 13"

definition digit_of :: "u8 \<Rightarrow> int" where
  "digit_of c =
    (if c \<ge> 48 \<and> c \<le> 57 then uint c - 48
     else if c \<ge> 97 \<and> c \<le> 122 then uint c - 97 + 10
     else if c \<ge> 65 \<and> c \<le> 90 then uint c - 65 + 10
     else -1)"

fun strtoull_loop :: "int \<Rightarrow> u64 \<Rightarrow> u8 list \<Rightarrow> u64 \<times> u8 list" where
  "strtoull_loop base val [] = (val, [])"
| "strtoull_loop base val (c # p) =
    (if digit_of c < 0 \<or> digit_of c \<ge> base then (val, c # p)
     else strtoull_loop base (val * of_int base + of_int (digit_of c)) p)"

text \<open>The value and what \<^verbatim>\<open>*endptr\<close> points to.\<close>

definition strtoull :: "u8 list \<Rightarrow> int \<Rightarrow> u64 \<times> u8 list" where
  "strtoull nptr base =
    (let p = dropWhile is_white nptr;
         (sign, p) = (if p \<noteq> [] \<and> hd p = 45 then (- 1, tl p) else if p \<noteq> [] \<and> hd p = 43 then (1, tl p) else (1, p));
         (base, p) =
           (if base = 0
            then (if p \<noteq> [] \<and> hd p = 48
                  then (if tl p \<noteq> [] \<and> (hd (tl p) = 120 \<or> hd (tl p) = 88) then (16, tl (tl p)) else (8, tl p))
                  else (10, p))
            else if base = 16
            then (if p \<noteq> [] \<and> hd p = 48 \<and> tl p \<noteq> [] \<and> (hd (tl p) = 120 \<or> hd (tl p) = 88) then (16, tl (tl p)) else (16, p))
            else (base, p));
         (val, p) = strtoull_loop base 0 p
     in (val * sign, p))"

definition strtoul :: "u8 list \<Rightarrow> int \<Rightarrow> u32 \<times> u8 list" where
  "strtoul nptr base = (let (v, p) = strtoull nptr base in (ucast v, p))"

definition strtol :: "u8 list \<Rightarrow> int \<Rightarrow> i32 \<times> u8 list" where
  "strtol nptr base = (let (v, p) = strtoull nptr base in (ucast v, p))"


definition isspace :: "u8 \<Rightarrow> bool" where
  "isspace c \<longleftrightarrow> c = 32 \<or> c = 9 \<or> c = 10 \<or> c = 13 \<or> c = 12 \<or> c = 11"

fun atoi_loop :: "i32 \<Rightarrow> u8 list \<Rightarrow> i32" where
  "atoi_loop res [] = res"
| "atoi_loop res (c # p) = (if is_digit c then atoi_loop (res * 10 + (ucast c - 48)) p else res)"

definition atoi :: "u8 list \<Rightarrow> i32" where
  "atoi s =
    (let s = dropWhile isspace s;
         (sign, s) = (if s \<noteq> [] \<and> hd s = 45 then (- 1, tl s) else if s \<noteq> [] \<and> hd s = 43 then (1, tl s) else (1, s))
     in atoi_loop 0 s * sign)"

section \<open>What is written\<close>

lemma snprintf_fold:
  "let t = fold snprintf_putc_cb out s in sn_written t = sn_written s + length out \<and> sn_buf t = sn_buf s \<and> sn_size t = sn_size s \<and>
    (\<forall>a. sn_mem t a = (if sn_buf s + sn_written s \<le> a \<and> a < sn_buf s + min (sn_written s + length out) (sn_size s - 1)
       then out ! (a - (sn_buf s + sn_written s)) else sn_mem s a))"
proof (induction out arbitrary: s)
  case (Cons c out)
  let ?s = "snprintf_putc_cb c s"
  have s: "sn_written ?s = sn_written s + 1" "sn_buf ?s = sn_buf s" "sn_size ?s = sn_size s"
    "sn_mem ?s = (if sn_written s < sn_size s - 1 then (sn_mem s)(sn_buf s + sn_written s := c) else sn_mem s)"
    by (simp_all add: snprintf_putc_cb_def Let_def)
  show ?case
    using Cons.IH [of ?s] unfolding Let_def fold_simps s by (auto simp: nth_Cons' less_diff_conv2)
qed auto

text \<open>C39: \<^verbatim>\<open>snprintf\<close> stays in its buffer.  Whatever the format and the arguments print, the buffer holds as much of it as fits, with a
  terminating zero, no byte outside the buffer changes, and the result is the length of the whole text.\<close>

theorem vsnprintf_fits:
  assumes "format_output fmt ap = Some out" "0 < size'"
  defines "k \<equiv> min (length out) (size' - 1)"
  shows "\<exists>m'. vsnprintf m buf size' fmt ap = Some (of_nat (length out), m') \<and> (\<forall>i<k. m' (buf + i) = out ! i) \<and> m' (buf + k) = 0 \<and>
    (\<forall>a. a < buf \<or> buf + size' \<le> a \<longrightarrow> m' a = m a)"
proof -
  let ?s = "\<lparr>sn_mem = m, sn_buf = buf, sn_size = size', sn_written = 0\<rparr>"
  let ?t = "fold snprintf_putc_cb out ?s"
  have t: "sn_written ?t = length out" "\<And>a. sn_mem ?t a = (if buf \<le> a \<and> a < buf + k then out ! (a - buf) else m a)"
    using snprintf_fold [of out ?s] by (simp_all add: Let_def k_def)
  let ?m = "(sn_mem ?t)(buf + k := 0)"
  have k: "k = (if length out < size' then length out else size' - 1)" using assms(2) by (auto simp: k_def)
  have "vsnprintf m buf size' fmt ap = Some (of_nat (length out), ?m)"
    using assms(2) t(1) by (simp add: vsnprintf_def assms(1) Let_def k)
  then show ?thesis using assms(2) t(2) by (intro exI [of _ ?m]) (auto simp: k_def)
qed

text \<open>\<^verbatim>\<open>%5d|%s\<close> with -42 and \<^verbatim>\<open>ab\<close>, in eight bytes.\<close>

theorem vsnprintf_fits_witness:
  "\<exists>m'. vsnprintf (\<lambda>a. 1) 100 8 [37, 53, 100, 124, 37, 115] [Slot (- 42), Str (Some [97, 98])] = Some (8, m') \<and>
    map m' [99..<109] = [1, 32, 32, 45, 52, 50, 124, 97, 0, 1]"
proof -
  let ?fmt = "[37, 53, 100, 124, 37, 115] :: u8 list" and ?ap = "[Slot (- 42), Str (Some [97, 98])]"
  let ?out = "[32, 32, 45, 52, 50, 124, 97, 98] :: u8 list"
  have out: "format_output ?fmt ?ap = Some ?out"
  proof -
    have "number_value 100 False False (- 42) = (42, True)" by (simp add: number_value_def word_sless_alt)
    moreover have "replicate 2 (32 :: u8) = [32, 32]" by (simp add: numeral_eq_Suc)
    ultimately have "format_number 100 5 False False False (- 42) = Some [32, 32, 45, 52, 50]"
      by (simp add: format_number_def utoa_digits.simps g_hex_lower_def)
    then show ?thesis
      by (simp add: format_output.simps [of "_ # _"] format_output.simps [of "[]"] format_spec_def Let_def length_modifier_def is_digit_def)
  qed
  obtain m' where m': "vsnprintf (\<lambda>a. 1) 100 8 ?fmt ?ap = Some (of_nat (length ?out), m')" "\<forall>i<7. m' (100 + i) = ?out ! i" "m' 107 = 0"
    "\<forall>a. a < 100 \<or> 108 \<le> a \<longrightarrow> m' a = 1"
    using vsnprintf_fits [OF out, of 8 "\<lambda>a. 1" 100] by auto
  have "m' 100 = 32" "m' 101 = 32" "m' 102 = 45" "m' 103 = 52" "m' 104 = 50" "m' 105 = 124" "m' 106 = 97"
    using spec [OF m'(2), of 0] spec [OF m'(2), of 1] spec [OF m'(2), of 2] spec [OF m'(2), of 3] spec [OF m'(2), of 4]
      spec [OF m'(2), of 5] spec [OF m'(2), of 6] by simp_all
  then show ?thesis using m'(1,3) spec [OF m'(4), of 99] spec [OF m'(4), of 108] by (simp add: upt_rec)
qed

section \<open>Printed numbers are read back\<close>

definition table_digit :: "u8 \<Rightarrow> bool" where
  "table_digit c \<longleftrightarrow> c \<in> set g_hex_lower"

lemma table_digit_facts:
  assumes "table_digit c"
  shows "\<not> is_white c" "c \<noteq> 45" "c \<noteq> 43" "c \<noteq> 120" "c \<noteq> 88"
  using assms by (auto simp: table_digit_def g_hex_lower_def is_white_def)

lemma digit_of_table:
  assumes "i < 16"
  shows "digit_of (g_hex_lower ! i) = int i" "table_digit (g_hex_lower ! i)"
proof -
  have "list_all (\<lambda>i. digit_of (g_hex_lower ! i) = int i) [0..<16]" by code_simp
  then show "digit_of (g_hex_lower ! i) = int i" using assms by (auto simp: list_all_iff)
  show "table_digit (g_hex_lower ! i)" using assms nth_mem [of i g_hex_lower] by (simp add: table_digit_def g_hex_lower_def)
qed

lemma digits_read_back:
  assumes "2 \<le> b" "b \<le> 16"
  shows "\<exists>ds. utoa_digits g_hex_lower v (of_nat b) tmp = Some (tmp @ ds) \<and> (0 < v \<longrightarrow> ds \<noteq> []) \<and> (\<forall>c\<in>set ds. table_digit c) \<and>
    (ds \<noteq> [] \<longrightarrow> b ^ (length ds - 1) \<le> unat v) \<and> (\<forall>p. strtoull_loop (int b) 0 (rev ds @ p) = strtoull_loop (int b) v p)"
proof (induction "unat v" arbitrary: v tmp rule: less_induct)
  case less
  show ?case
  proof (cases "v = 0")
    case True
    then show ?thesis by (simp add: utoa_digits.simps)
  next
    case False
    have ub: "unat (of_nat b :: u64) = b" using assms(2) by (simp add: unat_of_nat)
    have div: "unat (v div of_nat b) = unat v div b" by (simp add: unat_div ub)
    have mod: "unat (v mod of_nat b) = unat v mod b" by (simp add: unat_mod ub)
    have small: "unat v mod b < 16" using assms mod_less_divisor [of b "unat v"] by linarith
    define c where "c = g_hex_lower ! (unat v mod b)"
    have "unat v div b < unat v" using False assms by (simp add: unat_gt_0)
    from less [OF this [folded div], of "tmp @ [c]", unfolded div] obtain ds where ds:
      "utoa_digits g_hex_lower (v div of_nat b) (of_nat b) (tmp @ [c]) = Some (tmp @ c # ds)" "\<forall>x\<in>set ds. table_digit x"
      "ds \<noteq> [] \<longrightarrow> b ^ (length ds - 1) \<le> unat v div b" "\<forall>p. strtoull_loop (int b) 0 (rev ds @ p) = strtoull_loop (int b) (v div of_nat b) p" by auto
    have "v mod of_nat b < 16" using small mod by (simp add: word_less_nat_alt)
    then have run: "utoa_digits g_hex_lower v (of_nat b) tmp = Some (tmp @ c # ds)"
      using False ds(1) by (subst utoa_digits.simps) (simp add: mod word_gt_0 c_def)
    have dc: "digit_of c = int (unat v mod b)" using digit_of_table(1) [OF small] by (simp add: c_def)
    have "unat v mod b < b" using assms by simp
    then have "strtoull_loop (int b) (v div of_nat b) (c # p) = strtoull_loop (int b) (v div of_nat b * of_nat b + of_nat (unat v mod b)) p" for p
      by (simp add: dc)
    moreover have "v div of_nat b * of_nat b + of_nat (unat v mod b) = v"
    proof -
      have "of_nat (unat v mod b) = v mod of_nat b" unfolding mod [symmetric] by simp
      then show ?thesis using div_mult_mod_eq [of v "of_nat b"] by simp
    qed
    ultimately have "strtoull_loop (int b) 0 (rev (c # ds) @ p) = strtoull_loop (int b) v p" for p using ds(4) by simp
    moreover have "b ^ length ds \<le> unat v"
    proof (cases ds)
      case Nil
      then show ?thesis using False by (simp add: unat_gt_0 Suc_le_eq)
    next
      case (Cons d es)
      then have "b ^ length es \<le> unat v div b" using ds(3) by simp
      then have "b ^ length es * b \<le> unat v" using assms(1) by (simp add: less_eq_div_iff_mult_less_eq)
      then show ?thesis using Cons by (simp add: mult.commute)
    qed
    ultimately show ?thesis using run ds(2) digit_of_table(2) [OF small] by (intro exI [of _ "c # ds"]) (auto simp: c_def)
  qed
qed

text \<open>The digits that \<open>format_number\<close> and \<open>utoa\<close> print.\<close>

lemma number_text:
  assumes "2 \<le> b" "b \<le> 16"
  shows "\<exists>ds. (if v = 0 then Some [48] else utoa_digits g_hex_lower v (of_nat b) []) = Some ds \<and> ds \<noteq> [] \<and> (\<forall>c\<in>set ds. table_digit c) \<and>
    strtoull_loop (int b) 0 (rev ds) = (v, [])"
proof (cases "v = 0")
  case True
  have "table_digit 48" "digit_of 48 = 0" by (simp_all add: table_digit_def g_hex_lower_def digit_of_def)
  then show ?thesis using True assms by simp
next
  case False
  obtain ds where ds: "utoa_digits g_hex_lower v (of_nat b) [] = Some ds" "ds \<noteq> []" "\<forall>c\<in>set ds. table_digit c"
    "\<forall>p. strtoull_loop (int b) 0 (rev ds @ p) = strtoull_loop (int b) v p"
    using digits_read_back [OF assms, of v "[]"] False by (auto simp: word_gt_0)
  then show ?thesis using False spec [OF ds(4), of "[]"] by simp
qed

lemma strtoull_digits:
  assumes "xs \<noteq> []" "\<forall>c\<in>set xs. table_digit c" "base = 10 \<or> base = 16"
  shows "strtoull xs base = strtoull_loop base 0 xs" "strtoull (45 # xs) base = (let (v, p) = strtoull_loop base 0 xs in (- v, p))"
proof -
  have h: "table_digit (hd xs)" using assms(1,2) by simp
  have t: "tl xs \<noteq> [] \<Longrightarrow> table_digit (hd (tl xs))" using assms(2) by (metis hd_in_set list.set_sel(2) tl_Nil)
  have w: "dropWhile is_white xs = xs" using table_digit_facts(1) [OF h] assms(1) by (cases xs) auto
  have m: "dropWhile is_white (45 # xs) = 45 # xs" by (simp add: is_white_def)
  show "strtoull xs base = strtoull_loop base 0 xs"
    using assms(3) table_digit_facts [OF h] table_digit_facts [OF t] unfolding strtoull_def w by (auto simp: Let_def split: prod.splits)
  show "strtoull (45 # xs) base = (let (v, p) = strtoull_loop base 0 xs in (- v, p))"
    using assms(3) table_digit_facts [OF h] table_digit_facts [OF t] unfolding strtoull_def m by (auto simp: Let_def split: prod.splits)
qed

text \<open>C40: printing and reading are inverse.  What \<^verbatim>\<open>%llu\<close>, \<^verbatim>\<open>%llx\<close> and \<^verbatim>\<open>%lld\<close> print for any 64-bit value, \<^verbatim>\<open>strtoull\<close> reads
  back to the last character.\<close>

theorem format_strtoull_roundtrip:
  "\<exists>u x d. format_output [37, 108, 108, 117] [Slot v] = Some u \<and> strtoull u 10 = (v, []) \<and>
     format_output [37, 108, 108, 120] [Slot v] = Some x \<and> strtoull x 16 = (v, []) \<and>
     format_output [37, 108, 108, 100] [Slot v] = Some d \<and> strtoull d 10 = (v, [])"
proof -
  have one: "format_output [37, 108, 108, c] [Slot v] = format_number c 0 False True False v" if "c \<in> {117, 120, 100}" for c
    using that by (auto simp: format_output.simps [of "37 # _"] format_output.simps [of "[]"] format_spec_def Let_def length_modifier_def is_digit_def option.map_ident
        split: option.splits Option.bind_splits)
  obtain u where u: "(if v = 0 then Some [48] else utoa_digits g_hex_lower v 10 []) = Some u" "u \<noteq> []" "\<forall>c\<in>set u. table_digit c"
    "strtoull_loop 10 0 (rev u) = (v, [])" using number_text [of 10 v, unfolded of_nat_numeral] by auto
  obtain x where x: "(if v = 0 then Some [48] else utoa_digits g_hex_lower v 16 []) = Some x" "x \<noteq> []" "\<forall>c\<in>set x. table_digit c"
    "strtoull_loop 16 0 (rev x) = (v, [])" using number_text [of 16 v, unfolded of_nat_numeral] by auto
  obtain n where n: "(if - v = 0 then Some [48] else utoa_digits g_hex_lower (- v) 10 []) = Some n" "n \<noteq> []" "\<forall>c\<in>set n. table_digit c"
    "strtoull_loop 10 0 (rev n) = (- v, [])" using number_text [of 10 "- v", unfolded of_nat_numeral] by auto
  have "format_output [37, 108, 108, 117] [Slot v] = Some (rev u)" "strtoull (rev u) 10 = (v, [])"
    using one [of 117] u strtoull_digits(1) [of "rev u" 10] by (simp_all add: format_number_def number_value_def)
  moreover have "format_output [37, 108, 108, 120] [Slot v] = Some (rev x)" "strtoull (rev x) 16 = (v, [])"
    using one [of 120] x strtoull_digits(1) [of "rev x" 16] by (simp_all add: format_number_def number_value_def)
  moreover have "\<exists>d. format_output [37, 108, 108, 100] [Slot v] = Some d \<and> strtoull d 10 = (v, [])"
  proof (cases "v <s 0")
    case True
    then show ?thesis
      using one [of 100] n strtoull_digits(2) [of "rev n" 10] by (simp add: format_number_def number_value_def Let_def)
  next
    case False
    then show ?thesis
      using one [of 100] u strtoull_digits(1) [of "rev u" 10] by (simp add: format_number_def number_value_def Let_def)
  qed
  ultimately show ?thesis by blast
qed


section \<open>Integers through their decimal text\<close>

lemma ucast_of_int32: "(ucast (of_int k :: u64) :: i32) = of_int k"
  by transfer simp

lemma of_int_uint32: "(of_int (uint (a :: u64)) :: i32) = ucast a" "(of_int (uint (c :: u8)) :: i32) = ucast c"
  by (transfer, simp)+

lemma ucast_ring:
  fixes a b :: u64
  shows "(ucast (a + b) :: i32) = ucast a + ucast b" "(ucast (a * b) :: i32) = ucast a * ucast b" "(ucast (- a) :: i32) = - ucast a"
proof -
  have e: "a = of_int (uint a)" "b = of_int (uint b)" by simp_all
  have "a + b = of_int (uint a + uint b)" "a * b = of_int (uint a * uint b)" "- a = of_int (- uint a)" by simp_all
  then show "(ucast (a + b) :: i32) = ucast a + ucast b" "(ucast (a * b) :: i32) = ucast a * ucast b" "(ucast (- a) :: i32) = - ucast a"
    by (simp_all only: ucast_of_int32) (simp_all only: of_int_add of_int_mult of_int_minus of_int_uint32)
qed

lemma atoi_loop_digits:
  "\<forall>c\<in>set xs. is_digit c \<Longrightarrow> atoi_loop (ucast v) xs = ucast (fst (strtoull_loop 10 v xs))"
proof (induction xs arbitrary: v)
  case (Cons c xs)
  have c: "48 \<le> c" "c \<le> 57" using Cons.prems by (simp_all add: is_digit_def)
  have "uint (48 :: u8) \<le> uint c" "uint c \<le> uint (57 :: u8)" using c by (simp_all only: word_le_def)
  then have u: "48 \<le> uint c" "uint c \<le> 57" by simp_all
  have d: "digit_of c = uint c - 48" using c by (simp add: digit_of_def)
  have "(ucast (of_int (uint c - 48) :: u64) :: i32) = ucast c - 48"
    unfolding ucast_of_int32 by (simp only: of_int_diff of_int_uint32 of_int_numeral)
  then have step: "(ucast (v * 10 + of_int (uint c - 48)) :: i32) = ucast v * 10 + (ucast c - 48)"
    by (simp add: ucast_ring del: of_int_diff)
  show ?case using Cons.IH [of "v * 10 + of_int (uint c - 48)"] Cons.prems u d step by (simp del: of_int_diff)
qed simp


text \<open>The buffers of the digits are large enough for the bases 10 and 16: at most 20 digits, and two more for \<^verbatim>\<open>0x\<close>.\<close>

lemma digits_fit:
  fixes v :: u64
  assumes "b ^ (length ds - 1) \<le> unat v" "10 \<le> b"
  shows "length ds \<le> UTOA_TMP"
proof (rule ccontr)
  assume "\<not> length ds \<le> UTOA_TMP"
  then have "(10 :: nat) ^ 20 \<le> 10 ^ (length ds - 1)" by (intro power_increasing) (simp_all add: UTOA_TMP_def)
  also have "\<dots> \<le> b ^ (length ds - 1)" using assms(2) by (rule power_mono) simp
  also have "\<dots> \<le> unat v" by (rule assms(1))
  also have "\<dots> < 2 ^ LENGTH(64)" by (rule unsigned_less)
  finally show False by simp
qed

lemma utoa_text:
  assumes "b = 10 \<or> b = 16"
  shows "\<exists>s. utoa v (of_nat b) = Some s \<and> s \<noteq> [] \<and> length s \<le> UTOA_TMP \<and> (\<forall>c\<in>set s. table_digit c) \<and> strtoull_loop (int b) 0 s = (v, [])"
proof (cases "v = 0")
  case True
  have "table_digit 48" "digit_of 48 = 0" by (simp_all add: table_digit_def g_hex_lower_def digit_of_def)
  then show ?thesis using True assms by (auto simp: utoa_def UTOA_TMP_def)
next
  case False
  have b: "2 \<le> b" "b \<le> 16" "10 \<le> b" using assms by auto
  obtain ds where ds: "utoa_digits g_hex_lower v (of_nat b) [] = Some ds" "ds \<noteq> []" "\<forall>c\<in>set ds. table_digit c" "b ^ (length ds - 1) \<le> unat v"
    "\<forall>p. strtoull_loop (int b) 0 (rev ds @ p) = strtoull_loop (int b) v p"
    using digits_read_back [OF b(1,2), of v "[]"] False by (auto simp: word_gt_0)
  have "scast (of_nat b :: i32) = (of_nat b :: u64)" "(of_nat b :: i32) \<noteq> 0" using assms by auto
  then have "utoa v (of_nat b) = Some (rev ds)" using False ds(1) digits_fit [OF ds(4) b(3)] by (simp add: utoa_def)
  then show ?thesis using ds(2,3) digits_fit [OF ds(4) b(3)] spec [OF ds(5), of "[]"] by simp
qed

lemma digits_read_all:
  "strtoull_loop b v xs = (w, []) \<Longrightarrow> \<forall>c\<in>set xs. 0 \<le> digit_of c \<and> digit_of c < b"
  by (induction xs arbitrary: v) (auto split: if_splits)

lemma decimal_digit: "0 \<le> digit_of c \<Longrightarrow> digit_of c < 10 \<Longrightarrow> is_digit c"
  by (auto simp: digit_of_def is_digit_def word_le_def split: if_splits)

text \<open>\<open>atoi\<close> and \<open>strtoull\<close> read what \<open>itoa\<close> writes; the text has at most 21 characters.\<close>

lemma itoa_read_back:
  "\<exists>s. itoa v 10 = Some s \<and> length s \<le> UTOA_TMP + 1 \<and> strtoull s 10 = (v, []) \<and> atoi s = ucast v"
proof -
  have rb: "\<exists>s. utoa x 10 = Some s \<and> length s \<le> UTOA_TMP \<and> strtoull s 10 = (x, []) \<and> strtoull (45 # s) 10 = (- x, []) \<and>
      atoi s = ucast x \<and> atoi (45 # s) = - ucast x" for x
  proof -
    obtain s where s: "utoa x 10 = Some s" "s \<noteq> []" "length s \<le> UTOA_TMP" "\<forall>c\<in>set s. table_digit c" "strtoull_loop 10 0 s = (x, [])"
      using utoa_text [of 10 x, unfolded of_nat_numeral] by auto
    have d: "\<forall>c\<in>set s. is_digit c" using digits_read_all [OF s(5)] decimal_digit by blast
    have run: "atoi_loop 0 s = ucast x" using atoi_loop_digits [OF d, of 0] s(5) by simp
    have h: "is_digit (hd s)" using d s(2) by simp
    then have n: "\<not> isspace (hd s)" "hd s \<noteq> 45" "hd s \<noteq> 43" by (auto simp: is_digit_def isspace_def)
    then have "dropWhile isspace s = s" using s(2) by (cases s) auto
    moreover have "dropWhile isspace (45 # s) = 45 # s" by (simp add: isspace_def)
    ultimately have "atoi s = ucast x" "atoi (45 # s) = - ucast x" using run n by (simp_all add: atoi_def)
    then show ?thesis using s strtoull_digits [OF s(2,4), of 10] by simp
  qed
  show ?thesis
  proof (cases "v <s 0")
    case True
    then show ?thesis using rb [of "- v"] by (auto simp: itoa_def ucast_ring)
  next
    case False
    then show ?thesis using rb [of v] by (auto simp: itoa_def)
  qed
qed

text \<open>A binary text does not fit \<^verbatim>\<open>tmp\<close>, and a negative \<^verbatim>\<open>long\<close> is printed as if it was unsigned.\<close>

lemma utoa_binary_overflow: "utoa 0x100000 2 = None"
  by (simp add: utoa_def UTOA_TMP_def utoa_digits.simps)

lemma format_long_unsigned:
  "format_output [37, 108, 100] [Slot 0xffffffffffffffff] = format_output [37, 117] [Slot 0xffffffffffffffff]"
proof -
  have "number_value 100 False True 0xffffffffffffffff = (0xffffffff, False)" "number_value 117 False False 0xffffffffffffffff = (0xffffffff, False)"
    by (simp_all add: number_value_def word_sless_alt)
  then have "format_number 100 0 False False True 0xffffffffffffffff = format_number 117 0 False False False 0xffffffffffffffff"
    by (simp add: format_number_def)
  then show ?thesis
    by (simp add: format_output.simps [of "37 # _"] format_spec_def Let_def length_modifier_def is_digit_def)
qed

end
