(* ===== verification/Spec2Isabelle.thy ===== *)
theory Spec2Isabelle
  imports Prelude Runtime Pmm Fat_Table Fat_Mount Fat_Names Fat_Dir Fat_File Vmm Heap Heap_Clients Process Ps_Create Space_Release Keyboard Net
    Device Audio Sched Paths Fat_ReadAt Framebuffer
    User_Mem Sys_Files Sys_Files_Inv Sys_Files_Fail Pe_Loader Pe_Image Syscall Syscall_Inv Syscall_Calls
    Ul_Sort Ul_Malloc Ul_Time Ul_Path Ul_Format
begin

text \<open>
  The kernel of VibecodedOS, an operating system for x86-64 PCs written in C.  The kernel is one
  program without concurrency of its own: it runs when an interrupt enters it (\<^verbatim>\<open>IsrHandler\<close>) and
  leaves through the interrupt return with the registers of the trap frame.  This library models its
  components from the sources under \<^verbatim>\<open>src/Kernel\<close>
  and the library of the user programs, each as executable definitions in the order of the
  code, and proves what each promises to the ones above it.

  \<^bold>\<open>The parts and how they are put together.\<close>
  \<^item> Memory.  \<open>Pmm\<close> (\<^verbatim>\<open>mm/pmm.c\<close>): the bitmap of page frames; its state is the record of the static
    globals.  \<open>Vmm\<close> (\<^verbatim>\<open>mm/vmm.c\<close>): page tables, a store of 64-bit entries by physical address, and the
    processor's \<^verbatim>\<open>cr3\<close>; it takes frames from \<open>Pmm\<close>.  \<open>Heap\<close> (\<^verbatim>\<open>mm/heap.c\<close>): block headers in a store by
    address, doubly linked; it takes frames from \<open>Pmm\<close> through the state of \<open>Vmm\<close>.  \<open>Heap_Clients\<close>:
    the heap under any sequence of calls.
  \<^item> Files.  \<open>Fat_Table\<close>, \<open>Fat_Mount\<close>, \<open>Fat_Names\<close>, \<open>Fat_Dir\<close>, \<open>Fat_File\<close>, \<open>Fat_ReadAt\<close>, \<open>Fat_Reads\<close>
    (\<^verbatim>\<open>fs/fat32.c\<close>): sectors are a function from numbers to bytes, the disk below
    answers reads and writes of a sector with a status.  \<open>Paths\<close>: \<^verbatim>\<open>SysResolvePath\<close> of \<^verbatim>\<open>arch/syscall.c\<close>.
  \<^item> Processes.  \<open>Process\<close>, \<open>Ps_Create\<close>, \<open>Space_Release\<close> (\<^verbatim>\<open>proc/process.c\<close>): processes and threads are
    objects of the heap, read and updated by address.  \<open>Sched\<close>: the timer (\<^verbatim>\<open>arch/pit.c\<close>), the choice of
    the next thread, and the calls that end, block or start a thread.  \<open>Pe_Loader\<close>, \<open>Pe_Image\<close>
    (\<^verbatim>\<open>loader/pe_loader.c\<close>): a program file becomes a process.
  \<^item> Devices.  \<open>Device\<close> (\<^verbatim>\<open>hal.c\<close>, \<^verbatim>\<open>fs/pci.c\<close>): a bus is a record of read and write functions on an
    abstract device, drivers are programs of a state monad over it.  \<open>Audio\<close> (\<^verbatim>\<open>audio/hda.c\<close>,
    \<^verbatim>\<open>audio/audio.c\<close>), \<open>Keyboard\<close> (\<^verbatim>\<open>keyboard.c\<close>), \<open>Framebuffer\<close> (\<^verbatim>\<open>framebuffer.c\<close>).
  \<^item> Network.  \<open>Net_Link\<close> (\<^verbatim>\<open>net/e1000.c\<close>, \<^verbatim>\<open>ethernet.c\<close>, \<^verbatim>\<open>arp.c\<close>), \<open>Net_Ip\<close> (\<^verbatim>\<open>ipv4.c\<close>, \<^verbatim>\<open>udp.c\<close>),
    \<open>Net_Tcp\<close> (\<^verbatim>\<open>tcp.c\<close>), \<open>Net\<close> (\<^verbatim>\<open>net.c\<close>): records that extend each other, one per layer, so that an
    operation of a layer runs on the state of any layer above.
  \<^item> System calls.  \<open>User_Mem\<close>: the state \<open>kos\<close> of the whole kernel, which contains the states above, and
    the memory of programs, which is reached through the page tables.  \<open>Sys_Files\<close>, \<open>Sys_Files_Inv\<close>, \<open>Sys_Files_Fail\<close>: the
    calls on files.  \<open>Syscall\<close>: every other call, the dispatcher \<open>SyscallIsrHandler\<close> (\<^verbatim>\<open>arch/syscall.c\<close>) and
    \<open>IsrHandler\<close> (\<^verbatim>\<open>arch/idt.c\<close>).  \<open>Syscall_Inv\<close>, \<open>Syscall_Calls\<close>: what holds of all calls, and of two of them.
  \<^item> The library of the user programs (\<^verbatim>\<open>UserApps/userlib/userlib.c\<close>).  \<open>Ul_Malloc\<close>: the heap of a program, on the
    kernel's \<^verbatim>\<open>SYS_MMAP\<close>; it keeps the same contract (\<open>block_heap\<close>) as the kernel's heap.  \<open>Ul_Sort\<close>: \<^verbatim>\<open>qsort\<close>.
    \<open>Ul_Time\<close>: the calendar.  \<open>Ul_Path\<close>: paths, which a program resolves as the kernel does, and arguments.  \<open>Ul_Format\<close>:
    formatted output into a buffer, and the numbers that are read back from it.
  \<^item> \<open>Prelude\<close> and \<open>Runtime\<close> (\<^verbatim>\<open>runtime.c\<close>): integer types, status codes, byte buffers, loops, strings.

  \<^bold>\<open>Conventions.\<close>  Machine integers are words of their width.  Pointers of the kernel are \<open>u64\<close>, 0 is
  \<^verbatim>\<open>NULL\<close>; an object behind a pointer is a field of the state that maps addresses to records.  A status is
  a value, a panic of the kernel (\<^verbatim>\<open>KdPanic\<close>), a loop that halts for ever and a fault in the kernel are
  \<open>None\<close>.  Interfaces between components are locales, interpreted on the model's operations in the theory
  that provides them.

  \<^bold>\<open>What the lemmas show.\<close>
  \<^item> Ownership: frames (\<open>pmm_exclusive_ownership\<close>), heap blocks (\<open>heap_exclusive_ownership\<close>), the objects of
    the process list, the blocks that the file calls keep (\<open>run_file_inv\<close>), and the frames of an address
    space.  Releasing one gives back every frame that its tables translate to, but for
    pages mapped without execution, the stacks: their frames stay allocated (\<open>Space_Release\<close>).
  \<^item> Translation: an address space is a map from page slots to entries (\<open>page_table\<close>), which
    \<^verbatim>\<open>VmmMapPage\<close> updates at one point; the loader and \<^verbatim>\<open>SYS_MMAP\<close> rest on it.
  \<^item> Files: table entries, chains and names read back as written; reading returns the bytes of the chain.  What is
    mounted is a volume of the disk whose areas lie inside it (\<open>Fat32Init_mounts\<close>); a file call that fails leaves the state
    of the program alone, and of the disk what \<open>after_failure\<close> says call by call (\<open>file_call_fails\<close>); calls
    that only read leave the volume alone (\<open>Fat_Reads\<close>).
  \<^item> Scheduling: \<open>sched_inv\<close> holds in every reachable state; the abstract machine has one processor per
    thread; every entry of the kernel keeps both (\<open>IsrHandler_isolates\<close>).
  \<^item> Network: the state machine of TCP, the receive buffer as a prefix of the peer's stream for segments that
    arrive in any order, as long as no FIN overtakes data (one that does loses it, \<open>fin_overtakes_data\<close>), checksums,
    datagrams from one stack to another.
  \<^item> Console and keyboard: simulations with a grid of characters and with bounded queues.
  \<^item> The user library: \<^verbatim>\<open>qsort\<close> sorts for every comparison, a program's blocks are disjoint and mapped
    while the kernel has free frames (without, its \<^verbatim>\<open>malloc\<close> faults, \<open>malloc_faults_without_frames\<close>), \<^verbatim>\<open>localtime\<close> is the Gregorian
    calendar, \<^verbatim>\<open>snprintf\<close> keeps to its buffer.

  \<^bold>\<open>Loops, bounds and interrupts.\<close>  Loops that follow a list or a counter are structural or have a
  measure.  Loops over data of the disk or the heap are partial functions, and their theorems state that
  they return.  A loop that waits with \<^verbatim>\<open>hlt\<close> takes the list of interrupts that arrive (\<open>hlt_loop\<close>), each a
  change of the state, and returns \<open>None\<close> when the list ends before it is done; theorems about such calls
  hold for every list.  The search of a PCI capability list takes a fuel, as a ring of
  capabilities would never end; loops that poll a device are bounded in the code itself.  The clock of
  ticks is assumed below \<open>2 ^ 60\<close> where a deadline must not wrap (100 ticks a second).

  \<^bold>\<open>Idealisations.\<close>  Interrupts are taken where a call waits, not between other instructions of it: the kernel
  turns them off for the calls that share file state, and the timer only counts, polls and wakes in
  kernel mode.  The flags against nested interrupts are left out.  The content of frames (\<open>k_phys\<close>), the page
  tables and the heap are stores of their own: a program that reaches a page table or the heap through a
  kernel address is outside of the model, and so is a store into the framebuffer by a
  program.  A store of the kernel into a page succeeds when the page is mapped.  So does an access of a program's heap to
  its blocks, which are a store of their own; to a page that is not mapped it is \<open>None\<close>.  The bytes that a program passes to
  a write, a send or the sound driver are read when the call starts.  The buffers that the file system takes from the
  heap and gives back within a call are not traced.  Messages for the log and formatted messages on the console
  are left out.

  \<^bold>\<open>Not modelled.\<close>  The disk drivers (\<^verbatim>\<open>fs/ata.c\<close>, \<^verbatim>\<open>fs/ahci.c\<close>, \<^verbatim>\<open>fs/nvme.c\<close>): register protocols of devices whose
  answers the sources do not define; the file system sees them as the sector store.  The set-up of the
  network card beyond the driver's own state.  The descriptor tables, the interrupt controller and the
  assembler stubs (\<^verbatim>\<open>arch/gdt.c\<close> but for the kernel stack, \<^verbatim>\<open>arch/pic.c\<close>, \<^verbatim>\<open>*.asm\<close>): their effect is that \<^verbatim>\<open>IsrHandler\<close> is
  entered with the trap frame.  Start-up (\<^verbatim>\<open>main.c\<close>), the boot loader (\<^verbatim>\<open>src/Boot\<close>, on the firmware's services), the
  log (\<^verbatim>\<open>debug.c\<close>, and \<^verbatim>\<open>serial.c\<close> but for the output of a character), the rest of the user library (the wrappers of system calls, \<^verbatim>\<open>FILE\<close>
  streams, strings, floating point) and the programs of \<^verbatim>\<open>src/UserApps\<close>, the port of Doom
  and the vendored \<^verbatim>\<open>gnu-efi\<close>.
\<close>

end
